(* ===== verification/Prelude.thy ===== *)
theory Prelude
  imports Complex_Main "HOL-Library.AList" "HOL-Library.Char_ord" "HOL-Library.List_Lexorder"
    "HOL-Library.Product_Lexorder" "HOL-Library.Multiset" "HOL-Library.Sublist"
begin

text \<open>
  Shared vocabulary of the development: Python exceptions as values, the result type of code
  that may raise, the few string operations of Python that the sources use, dictionaries as
  association lists in insertion order, and a locale for components whose operations keep an
  invariant.

  A Python \<open>str\<close> is represented by its UTF-8 encoding, a list of bytes
  (\<^typ>\<open>char\<close>).  Equality, \<open>startswith\<close>, \<open>find\<close> of an ASCII character and the code
  point order of Python strings agree with the same operations on the encodings; the two lengths
  that differ are \<open>str_len\<close> (code points) and \<open>length\<close> (bytes).
\<close>

named_theorems result_simps "rewriting of results of code that may raise"

section \<open>Exceptions and results\<close>

datatype errcode = NOT_JOINED | ALREADY_JOINED | INSUFFICIENT_POWER

text \<open>
  The exceptions the modelled code raises, without their messages. The class hierarchy of
  \<open>api/errors.py\<close> is in \<open>is_AuthError\<close> and \<open>is_SynapseError\<close>.
\<close>

datatype py_error =
    AuthError int
  | UnstableSpecAuthError int errcode
  | SynapseError int
  | EventSizeError bool
  | LimitExceededError int
  | RuntimeErr
  | GenericException
  | AssertionErr
  | AttributeErr
  | KeyErr
  | IndexErr
  | TypeErr
  | ValueErr
  | ZeroDivisionErr
  | SignatureVerifyErr
  | UnboundLocalErr
  | NameErr
  | ShadowBanErr

fun is_AuthError :: "py_error \<Rightarrow> bool" where
  "is_AuthError (AuthError c) = True"
| "is_AuthError (UnstableSpecAuthError c e) = True"
| "is_AuthError e = False"

fun is_SynapseError :: "py_error \<Rightarrow> bool" where
  "is_SynapseError (AuthError c) = True"
| "is_SynapseError (UnstableSpecAuthError c e) = True"
| "is_SynapseError (SynapseError c) = True"
| "is_SynapseError (EventSizeError b) = True"
| "is_SynapseError (LimitExceededError b) = True"
| "is_SynapseError e = False"

type_synonym 'a result = "py_error + 'a"

fun bindR :: "'a result \<Rightarrow> ('a \<Rightarrow> 'b result) \<Rightarrow> 'b result" where
  "bindR (Inl e) f = Inl e"
| "bindR (Inr x) f = f x"

definition ok :: "'a result \<Rightarrow> bool" where
  "ok r = (case r of Inl _ \<Rightarrow> False | Inr _ \<Rightarrow> True)"

definition guardR :: "bool \<Rightarrow> py_error \<Rightarrow> unit result" where
  "guardR b e = (if b then Inr () else Inl e)"

fun mapR :: "('a \<Rightarrow> 'b result) \<Rightarrow> 'a list \<Rightarrow> 'b list result" where
  "mapR f [] = Inr []"
| "mapR f (x # xs) = bindR (f x) (\<lambda>y. bindR (mapR f xs) (\<lambda>ys. Inr (y # ys)))"

fun forR :: "'a list \<Rightarrow> ('a \<Rightarrow> unit result) \<Rightarrow> unit result" where
  "forR [] f = Inr ()"
| "forR (x # xs) f = bindR (f x) (\<lambda>_. forR xs f)"

fun foldR :: "('s \<Rightarrow> 'a \<Rightarrow> 's result) \<Rightarrow> 's \<Rightarrow> 'a list \<Rightarrow> 's result" where
  "foldR f s [] = Inr s"
| "foldR f s (x # xs) = bindR (f s x) (\<lambda>s'. foldR f s' xs)"

lemma bindR_Inr_iff [result_simps]: "bindR m f = Inr y \<longleftrightarrow> (\<exists>x. m = Inr x \<and> f x = Inr y)"
  by (cases m) auto

lemma bindR_Inl_iff: "bindR m f = Inl e \<longleftrightarrow> m = Inl e \<or> (\<exists>x. m = Inr x \<and> f x = Inl e)"
  by (cases m) auto

lemma bindR_cong [fundef_cong]:
  "m = m' \<Longrightarrow> (\<And>x. m' = Inr x \<Longrightarrow> f x = f' x) \<Longrightarrow> bindR m f = bindR m' f'"
  by (cases m') auto

lemma ok_simps [simp, result_simps]: "ok (Inl e) = False" "ok (Inr x) = True"
  by (simp_all add: ok_def)

lemma ok_iff: "ok r \<longleftrightarrow> (\<exists>x. r = Inr x)"
  by (cases r) (auto simp: ok_def)

lemma okE: "ok r \<Longrightarrow> (\<And>x. r = Inr x \<Longrightarrow> P) \<Longrightarrow> P"
  by (cases r) auto

lemma ok_bindR [result_simps]: "ok (bindR m f) \<longleftrightarrow> (\<exists>x. m = Inr x \<and> ok (f x))"
  by (cases m) auto

lemma guardR_Inr_iff [result_simps]: "guardR b e = Inr u \<longleftrightarrow> b"
  by (simp add: guardR_def)

lemma guardR_simps [simp]: "guardR True e = Inr ()" "guardR False e = Inl e"
  by (simp_all add: guardR_def)

lemma forR_Inr_iff [result_simps]: "forR xs f = Inr u \<longleftrightarrow> (\<forall>x\<in>set xs. f x = Inr ())"
  by (induction xs) (auto simp: bindR_Inr_iff)

lemma mapR_Inr_length: "mapR f xs = Inr ys \<Longrightarrow> length ys = length xs"
  by (induction xs arbitrary: ys) (auto simp: bindR_Inr_iff)

lemma mapR_Inr_iff: "mapR f xs = Inr ys \<longleftrightarrow> list_all2 (\<lambda>x y. f x = Inr y) xs ys"
  by (induction xs arbitrary: ys) (auto simp: bindR_Inr_iff list_all2_Cons1)

lemma mapR_source: "mapR f xs = Inr ys \<Longrightarrow> y \<in> set ys \<Longrightarrow> \<exists>x \<in> set xs. f x = Inr y"
  by (induction xs arbitrary: ys) (auto simp: bindR_Inr_iff)

lemma mapR_image: "mapR f xs = Inr ys \<Longrightarrow> x \<in> set xs \<Longrightarrow> \<exists>y \<in> set ys. f x = Inr y"
  by (induction xs arbitrary: ys) (auto simp: bindR_Inr_iff)

lemma foldR_append: "foldR f s (xs @ ys) = bindR (foldR f s xs) (\<lambda>s'. foldR f s' ys)"
proof (induction xs arbitrary: s)
  case (Cons x xs)
  then show ?case by (cases "f s x") auto
qed simp

lemma foldR_invariant:
  assumes "foldR f s xs = Inr s'" and "I s"
    and "\<And>s x t. x \<in> set xs \<Longrightarrow> I s \<Longrightarrow> f s x = Inr t \<Longrightarrow> I t"
  shows "I s'"
  using assms
proof (induction xs arbitrary: s)
  case (Cons x xs)
  from Cons.prems(1) obtain t where t: "f s x = Inr t" "foldR f t xs = Inr s'"
    by (auto simp: bindR_Inr_iff)
  have "I t" using Cons.prems(2,3) t(1) by auto
  with t(2) show ?case by (rule Cons.IH) (use Cons.prems(3) in auto)
qed simp

lemma foldR_cong:
  assumes "\<And>s x. x \<in> set xs \<Longrightarrow> f s x = g s x"
  shows "foldR f s xs = foldR g s xs"
  using assms
proof (induction xs arbitrary: s)
  case (Cons x xs)
  then show ?case by (cases "g s x") auto
qed simp

section \<open>Strings\<close>

definition utf8_continuation :: "char \<Rightarrow> bool" where
  "utf8_continuation c \<longleftrightarrow> 128 \<le> (of_char c :: nat) \<and> (of_char c :: nat) < 192"

text \<open>\<open>len(s)\<close> of a Python string: its code points. \<open>len(s.encode("utf-8"))\<close> is \<open>length s\<close>.\<close>

definition str_len :: "string \<Rightarrow> nat" where
  "str_len s = length (filter (\<lambda>c. \<not> utf8_continuation c) s)"

lemma str_len_le_bytes: "str_len s \<le> length s"
  by (simp add: str_len_def)

text \<open>\<open>s.split(c, 1)\<close>: the text before the first \<open>c\<close> and the text after it, if there is one.\<close>

fun split_at :: "char \<Rightarrow> string \<Rightarrow> (string \<times> string) option" where
  "split_at c [] = None"
| "split_at c (x # xs) =
     (if x = c then Some ([], xs)
      else map_option (\<lambda>(l, r). (x # l, r)) (split_at c xs))"

lemma split_at_None_iff: "split_at c s = None \<longleftrightarrow> c \<notin> set s"
  by (induction s) auto

lemma split_at_Some_iff: "split_at c s = Some (l, r) \<longleftrightarrow> s = l @ c # r \<and> c \<notin> set l"
proof (induction s arbitrary: l)
  case (Cons x xs)
  show ?case by (cases l) (auto simp: Cons.IH)
qed simp

lemma split_at_append: "c \<notin> set l \<Longrightarrow> split_at c (l @ c # r) = Some (l, r)"
  by (simp add: split_at_Some_iff)

lemma split_at_unique:
  fixes c :: char
  assumes "a @ c # b = l @ c # r" "c \<notin> set a" "c \<notin> set l"
  shows "a = l \<and> b = r"
proof -
  have "split_at c (l @ c # r) = Some (a, b)"
    using split_at_append [OF assms(2), of b] by (simp only: assms(1))
  then show ?thesis using split_at_append [OF assms(3), of r] by simp
qed

section \<open>Dictionaries\<close>

text \<open>
  A Python dict whose keys are iterated is an association list in insertion order:
  \<open>d[k] = v\<close> is \<open>AList.update k v d\<close> (an existing key keeps its place), \<open>d.get(k)\<close> is
  \<open>map_of d k\<close>, \<open>del d[k]\<close> is \<open>AList.delete k d\<close>.
\<close>

definition dict_update :: "('k \<times> 'v) list \<Rightarrow> ('k \<times> 'v) list \<Rightarrow> ('k \<times> 'v) list" where
  "dict_update d new = foldl (\<lambda>d' (k, v). AList.update k v d') d new"

lemma map_of_update [simp]: "map_of (AList.update k v d) = (map_of d)(k \<mapsto> v)"
  by (simp add: AList.update_conv')

lemma distinct_dict_update:
  "distinct (map fst d) \<Longrightarrow> distinct (map fst (dict_update d new))"
  unfolding dict_update_def
proof (induction new arbitrary: d)
  case (Cons kv new)
  then show ?case by (cases kv) (simp add: AList.distinct_update)
qed simp

lemma map_of_dict_update:
  "map_of (dict_update d new) k =
     (case map_of (rev new) k of None \<Rightarrow> map_of d k | Some v \<Rightarrow> Some v)"
  unfolding dict_update_def
proof (induction new arbitrary: d)
  case (Cons kv new)
  obtain a b where kv: "kv = (a, b)" by (cases kv)
  show ?case
    by (simp add: kv Cons.IH map_add_def split: option.splits)
qed simp

lemma map_of_tabulate: "map_of (map (\<lambda>x. (x, f x)) xs) x = (if x \<in> set xs then Some (f x) else None)"
  by (induction xs) auto

lemma map_of_map_filter:
  assumes "distinct (map fst d)"
  shows "map_of (List.map_filter (\<lambda>(k, v). map_option (Pair k) (g v)) d) k = Option.bind (map_of d k) g"
  using assms
proof (induction d)
  case (Cons a d)
  have none: "fst a \<notin> fst ` set d \<Longrightarrow> map_of d (fst a) = None" by (simp add: map_of_eq_None_iff)
  show ?case using Cons none by (cases a; cases "g (snd a)") (auto simp: List.map_filter_def)
qed (simp add: List.map_filter_def)

text \<open>A loop that stores one value for each key.\<close>

lemma foldR_update:
  assumes "foldR (\<lambda>d x. bindR (g x) (\<lambda>v. Inr (AList.update (key x) v d))) d xs = Inr d'" "distinct (map key xs)"
  shows "(\<forall>x \<in> set xs. \<exists>v. g x = Inr v \<and> map_of d' (key x) = Some v) \<and> (\<forall>k. k \<notin> key ` set xs \<longrightarrow> map_of d' k = map_of d k)"
  using assms
proof (induction xs arbitrary: d)
  case (Cons x xs)
  from Cons.prems(1) obtain v where v: "g x = Inr v"
    and rest: "foldR (\<lambda>d x. bindR (g x) (\<lambda>v. Inr (AList.update (key x) v d))) (AList.update (key x) v d) xs = Inr d'"
    by (auto simp: bindR_Inr_iff)
  from Cons.IH [OF rest] Cons.prems(2) v show ?case by auto
qed simp

lemma find_SomeD: "find P xs = Some x \<Longrightarrow> x \<in> set xs \<and> P x"
  by (induction xs) (auto split: if_splits)

lemma map_of_rev_distinct: "distinct (map fst d) \<Longrightarrow> map_of (rev d) = map_of d"
proof (rule ext)
  fix k
  assume d: "distinct (map fst d)"
  then have d': "distinct (map fst (rev d))" by (simp add: rev_map [symmetric])
  show "map_of (rev d) k = map_of d k"
  proof (cases "map_of d k")
    case None
    then have "map_of (rev d) k = None" by (simp add: map_of_eq_None_iff)
    with None show ?thesis by simp
  next
    case (Some v)
    with d d' show ?thesis by (auto simp: map_of_eq_Some_iff)
  qed
qed

section \<open>Components with an invariant\<close>

text \<open>
  A component is its operations, each a step on its state; every operation keeps the
  invariant, so every run from a good state ends in one.
\<close>

locale stateful =
  fixes step :: "'s \<Rightarrow> 'op \<Rightarrow> 's"
    and inv :: "'s \<Rightarrow> bool"
  assumes inv_step: "inv s \<Longrightarrow> inv (step s x)"
begin

lemma inv_run: "inv s \<Longrightarrow> inv (foldl step s ops)"
  by (induction ops arbitrary: s) (auto intro: inv_step)

lemma inv_prefix: "inv s \<Longrightarrow> prefix p ops \<Longrightarrow> inv (foldl step s p)"
  by (rule inv_run)

end

end
