(* ===== verification/Json_Values.thy ===== *)
theory Json_Values
  imports Prelude
begin

text \<open>
  JSON values as the Python code sees them after parsing, with the built-in operations the
  sources apply to them: \<open>int(..)\<close>, \<open>.get\<close>, \<open>[..]\<close>, \<open>in\<close>, iteration, hashing.  Floats are exact
  rationals (the binary64 values JSON numbers denote; JSON has no NaN or infinity).
\<close>

datatype json =
    JNull
  | JBool bool
  | JInt int
  | JFloat rat
  | JStr string
  | JList "json list"
  | JObj "(string \<times> json) list"

text \<open>A Python dict of JSON values, with \<open>d.get(k)\<close> and \<open>d[k]\<close>.\<close>

type_synonym dict = "(string \<times> json) list"

definition dict_get :: "dict \<Rightarrow> string \<Rightarrow> json" where
  "dict_get d k = (case map_of d k of None \<Rightarrow> JNull | Some v \<Rightarrow> v)"

definition dict_item :: "dict \<Rightarrow> string \<Rightarrow> json result" where
  "dict_item d k = (case map_of d k of None \<Rightarrow> Inl KeyErr | Some v \<Rightarrow> Inr v)"

section \<open>Conversion to int\<close>

definition is_digit :: "char \<Rightarrow> bool" where
  "is_digit c \<longleftrightarrow> 48 \<le> (of_char c :: nat) \<and> (of_char c :: nat) \<le> 57"

definition digit_val :: "char \<Rightarrow> int" where
  "digit_val c = int (of_char c :: nat) - 48"

text \<open>ASCII white space, as \<open>str.strip\<close> and \<open>int\<close> remove it.\<close>

definition is_space :: "char \<Rightarrow> bool" where
  "is_space c \<longleftrightarrow> (of_char c :: nat) = 32 \<or> (9 \<le> (of_char c :: nat) \<and> (of_char c :: nat) \<le> 13)
     \<or> (28 \<le> (of_char c :: nat) \<and> (of_char c :: nat) \<le> 31)"

definition strip :: "string \<Rightarrow> string" where
  "strip s = rev (dropWhile is_space (rev (dropWhile is_space s)))"

text \<open>Digits with single underscores between them; the flag says whether the last character read
  was a digit.\<close>

fun digits_val :: "bool \<Rightarrow> int \<Rightarrow> string \<Rightarrow> int option" where
  "digits_val after_digit acc [] = (if after_digit then Some acc else None)"
| "digits_val after_digit acc (c # cs) =
     (if is_digit c then digits_val True (acc * 10 + digit_val c) cs
      else if c = CHR ''_'' \<and> after_digit then digits_val False acc cs
      else None)"

text \<open>\<open>int(s)\<close> for a string of ASCII characters (Python also reads other decimal digits).\<close>

definition int_of_str :: "string \<Rightarrow> int option" where
  "int_of_str s =
     (case strip s of
        [] \<Rightarrow> None
      | c # cs \<Rightarrow>
          if c = CHR ''-'' then map_option uminus (digits_val False 0 cs)
          else if c = CHR ''+'' then digits_val False 0 cs
          else digits_val False 0 (c # cs))"

definition trunc_rat :: "rat \<Rightarrow> int" where
  "trunc_rat q = (if 0 \<le> q then \<lfloor>q\<rfloor> else \<lceil>q\<rceil>)"

fun py_int :: "json \<Rightarrow> int result" where
  "py_int (JInt i) = Inr i"
| "py_int (JBool b) = Inr (if b then 1 else 0)"
| "py_int (JFloat q) = Inr (trunc_rat q)"
| "py_int (JStr s) = (case int_of_str s of None \<Rightarrow> Inl ValueErr | Some i \<Rightarrow> Inr i)"
| "py_int _ = Inl TypeErr"

section \<open>Lookup\<close>

text \<open>\<open>v.get(k, default)\<close>; only a dict has \<open>get\<close>.\<close>

fun py_get :: "json \<Rightarrow> string \<Rightarrow> json \<Rightarrow> json result" where
  "py_get (JObj d) k dflt = Inr (case map_of d k of None \<Rightarrow> dflt | Some v \<Rightarrow> v)"
| "py_get _ k dflt = Inl AttributeErr"

text \<open>\<open>v.items()\<close>\<close>

fun py_items :: "json \<Rightarrow> (string \<times> json) list result" where
  "py_items (JObj d) = Inr d"
| "py_items _ = Inl AttributeErr"

fun is_mapping :: "json \<Rightarrow> bool" where
  "is_mapping (JObj d) = True"
| "is_mapping _ = False"

fun is_int :: "json \<Rightarrow> bool" where
  "is_int (JInt i) = True"
| "is_int _ = False"

fun hashable :: "json \<Rightarrow> bool" where
  "hashable (JList _) = False"
| "hashable (JObj _) = False"
| "hashable _ = True"

text \<open>\<open>v["k"]\<close> with a string literal as the index.\<close>

fun py_item :: "json \<Rightarrow> string \<Rightarrow> json result" where
  "py_item (JObj d) k = (case map_of d k of None \<Rightarrow> Inl KeyErr | Some v \<Rightarrow> Inr v)"
| "py_item _ k = Inl TypeErr"

text \<open>
  A dict key \<open>(constant, v)\<close> built from a JSON value: unhashable values raise, and among the
  others only a string can equal a key whose second part is a string.
\<close>

definition key_of :: "json \<Rightarrow> string option result" where
  "key_of v = (case v of
       JStr s \<Rightarrow> Inr (Some s)
     | JList _ \<Rightarrow> Inl TypeErr
     | JObj _ \<Rightarrow> Inl TypeErr
     | _ \<Rightarrow> Inr None)"

section \<open>Iterating and indexing a value of unknown shape\<close>

text \<open>The code points of a string, each as a string.\<close>

fun code_points :: "string \<Rightarrow> string list" where
  "code_points [] = []"
| "code_points (c # cs) =
     (case code_points cs of
        [] \<Rightarrow> [[c]]
      | p # ps \<Rightarrow> if p \<noteq> [] \<and> utf8_continuation (hd p) then (c # p) # ps else [c] # p # ps)"

text \<open>\<open>list(v)\<close>\<close>

fun py_list :: "json \<Rightarrow> json list result" where
  "py_list (JObj d) = Inr (map (\<lambda>kv. JStr (fst kv)) d)"
| "py_list (JList xs) = Inr xs"
| "py_list (JStr s) = Inr (map JStr (code_points s))"
| "py_list _ = Inl TypeErr"

text \<open>\<open>x == y\<close> of hashable JSON values: numbers and booleans compare by value.\<close>

fun num_of :: "json \<Rightarrow> rat option" where
  "num_of (JInt i) = Some (of_int i)"
| "num_of (JBool b) = Some (if b then 1 else 0)"
| "num_of (JFloat q) = Some q"
| "num_of _ = None"

definition py_eq :: "json \<Rightarrow> json \<Rightarrow> bool" where
  "py_eq x y =
     (case (num_of x, num_of y) of (Some p, Some q) \<Rightarrow> p = q | _ \<Rightarrow> x = y)"

text \<open>\<open>x in v\<close> for a hashable \<open>x\<close>.\<close>

fun py_in :: "json \<Rightarrow> json \<Rightarrow> bool result" where
  "py_in x (JObj d) = Inr (case x of JStr k \<Rightarrow> map_of d k \<noteq> None | _ \<Rightarrow> False)"
| "py_in x (JList xs) = Inr (list_ex (py_eq x) xs)"
| "py_in x (JStr s) = (case x of JStr k \<Rightarrow> Inr (sublist k s) | _ \<Rightarrow> Inl TypeErr)"
| "py_in x _ = Inl TypeErr"

definition py_nth :: "'a list \<Rightarrow> int \<Rightarrow> 'a result" where
  "py_nth xs i =
     (if - int (length xs) \<le> i \<and> i < int (length xs)
      then Inr (if i \<ge> 0 then xs ! nat i else rev xs ! nat (- i - 1))
      else Inl IndexErr)"

text \<open>\<open>v[x]\<close> for a hashable \<open>x\<close>.\<close>

fun py_getitem :: "json \<Rightarrow> json \<Rightarrow> json result" where
  "py_getitem (JObj d) x =
     (case x of JStr k \<Rightarrow> (case map_of d k of None \<Rightarrow> Inl KeyErr | Some v \<Rightarrow> Inr v) | _ \<Rightarrow> Inl KeyErr)"
| "py_getitem (JList xs) x =
     (case x of JInt i \<Rightarrow> py_nth xs i | JBool b \<Rightarrow> py_nth xs (if b then 1 else 0) | _ \<Rightarrow> Inl TypeErr)"
| "py_getitem (JStr s) x =
     (case x of
        JInt i \<Rightarrow> bindR (py_nth (code_points s) i) (\<lambda>p. Inr (JStr p))
      | JBool b \<Rightarrow> bindR (py_nth (code_points s) (if b then 1 else 0)) (\<lambda>p. Inr (JStr p))
      | _ \<Rightarrow> Inl TypeErr)"
| "py_getitem _ x = Inl TypeErr"

lemma concat_code_points: "concat (code_points s) = s"
  by (induction s rule: code_points.induct) (auto split: list.splits)

lemma py_getitem_in_obj:
  "py_in x (JObj d) = Inr True \<Longrightarrow> \<exists>k v. x = JStr k \<and> map_of d k = Some v \<and> py_getitem (JObj d) x = Inr v"
  by (cases x) auto

end
