(* ===== verification/String_Utils.thy ===== *)
theory String_Utils
  imports Json_Values
begin

text \<open>
  \<open>util/stringutils.py\<close>: server names, MXC URIs, identity server locations, client secrets,
  truth values and base 62.  The regular expressions are matchers that read the string once.  The
  IPv6 syntax is that of the package \<open>netaddr\<close>, so \<open>valid_ipv6\<close> is an argument.
\<close>

section \<open>Characters and splitting\<close>

definition is_upper :: "char \<Rightarrow> bool" where
  "is_upper c \<longleftrightarrow> 65 \<le> (of_char c :: nat) \<and> (of_char c :: nat) \<le> 90"

definition lower :: "char \<Rightarrow> char" where
  "lower c = (if is_upper c then char_of ((of_char c :: nat) + 32) else c)"

definition is_alnum :: "char \<Rightarrow> bool" where
  "is_alnum c \<longleftrightarrow> is_digit c \<or> is_upper c \<or> 97 \<le> (of_char c :: nat) \<and> (of_char c :: nat) \<le> 122"

text \<open>\<open>s.rsplit(c, 1)\<close>: the text before the last \<open>c\<close> and the text after it, if there is one.\<close>

definition rsplit_at :: "char \<Rightarrow> string \<Rightarrow> (string \<times> string) option" where
  "rsplit_at c s = map_option (\<lambda>(r, l). (rev l, rev r)) (split_at c (rev s))"

definition is_ascii :: "string \<Rightarrow> bool" where
  "is_ascii s \<longleftrightarrow> list_all (\<lambda>c. (of_char c :: nat) < 128) s"

section \<open>Server names\<close>

definition parse_server_name :: "string \<Rightarrow> (string \<times> int option) result" where
  "parse_server_name server_name =
     (if server_name \<noteq> [] \<and> last server_name = CHR '']'' then Inr (server_name, None)
      else (case rsplit_at CHR '':'' server_name of
              None \<Rightarrow> Inr (server_name, None)
            | Some (domain, p) \<Rightarrow>
                (case int_of_str p of None \<Rightarrow> Inl ValueErr | Some port \<Rightarrow> Inr (domain, Some port))))"

text \<open>\<open>VALID_HOST_REGEX\<close>; the flag says that the current label has a character.\<close>

definition host_char :: "char \<Rightarrow> bool" where
  "host_char c \<longleftrightarrow> is_alnum c \<or> c = CHR ''-''"

fun host_match :: "bool \<Rightarrow> string \<Rightarrow> bool" where
  "host_match in_label [] = in_label"
| "host_match in_label (c # cs) =
     (if host_char c then host_match True cs else c = CHR ''.'' \<and> in_label \<and> host_match False cs)"

definition VALID_HOST :: "string \<Rightarrow> bool" where
  "VALID_HOST s = host_match False s"

definition parse_and_validate_server_name :: "(string \<Rightarrow> bool) \<Rightarrow> string \<Rightarrow> (string \<times> int option) result" where
  "parse_and_validate_server_name valid_ipv6 server_name =
     bindR (parse_server_name server_name) (\<lambda>(host, port).
       if host \<noteq> [] \<and> hd host = CHR ''['' then
         if last host \<noteq> CHR '']'' then Inl ValueErr
         else (let ipv6_address = butlast (tl host)
               in if ipv6_address = [] \<or> \<not> valid_ipv6 ipv6_address then Inl ValueErr else Inr (host, port))
       else if \<not> VALID_HOST host then Inl ValueErr
       else Inr (host, port))"

definition valid_id_server_location :: "(string \<Rightarrow> bool) \<Rightarrow> string \<Rightarrow> bool" where
  "valid_id_server_location valid_ipv6 id_server =
     (case split_at CHR ''/'' id_server of
        None \<Rightarrow> ok (parse_and_validate_server_name valid_ipv6 id_server)
      | Some (host, path) \<Rightarrow>
          ok (parse_and_validate_server_name valid_ipv6 host) \<and> CHR ''#'' \<notin> set path \<and> CHR ''?'' \<notin> set path)"

text \<open>\<open>MXC_REGEX\<close>: the two groups, if it matches.\<close>

definition MXC_match :: "string \<Rightarrow> (string \<times> string) option" where
  "MXC_match s =
     (if prefix ''mxc://'' s
      then (case split_at CHR ''/'' (drop 6 s) of
              Some (server, media) \<Rightarrow>
                if server \<noteq> [] \<and> media \<noteq> [] \<and> list_all (\<lambda>c. c \<notin> set ''/#?'') media then Some (server, media) else None
            | None \<Rightarrow> None)
      else None)"

definition parse_and_validate_mxc_uri :: "(string \<Rightarrow> bool) \<Rightarrow> string \<Rightarrow> (string \<times> int option \<times> string) result" where
  "parse_and_validate_mxc_uri valid_ipv6 mxc =
     (case MXC_match mxc of
        None \<Rightarrow> Inl ValueErr
      | Some (server_name, media_id) \<Rightarrow>
          bindR (parse_and_validate_server_name valid_ipv6 server_name) (\<lambda>(host, port). Inr (host, port, media_id)))"

section \<open>Client secrets and truth values\<close>

definition secret_char :: "char \<Rightarrow> bool" where
  "secret_char c \<longleftrightarrow> is_alnum c \<or> c \<in> set ''.=_-''"

text \<open>\<open>CLIENT_SECRET_REGEX\<close> ends in \<open>$\<close>, which also matches before a final line feed.\<close>

definition CLIENT_SECRET_match :: "string \<Rightarrow> bool" where
  "CLIENT_SECRET_match s \<longleftrightarrow>
     s \<noteq> [] \<and> list_all secret_char s \<or>
     s \<noteq> [] \<and> last s = CHR 0x0A \<and> butlast s \<noteq> [] \<and> list_all secret_char (butlast s)"

definition assert_valid_client_secret :: "string \<Rightarrow> unit result" where
  "assert_valid_client_secret client_secret =
     guardR (\<not> (str_len client_secret \<le> 0 \<or> str_len client_secret > 255 \<or> \<not> CLIENT_SECRET_match client_secret))
       (SynapseError 400)"

definition strtobool :: "string \<Rightarrow> bool result" where
  "strtobool val =
     (let v = map lower val
      in if v \<in> set [''y'', ''yes'', ''t'', ''true'', ''on'', ''1''] then Inr True
         else if v \<in> set [''n'', ''no'', ''f'', ''false'', ''off'', ''0''] then Inr False
         else Inl ValueErr)"

section \<open>Base 62\<close>

definition BASE62 :: string where
  "BASE62 = ''0123456789ABCDEFGHIJKLMNOPQRSTUVWXYZabcdefghijklmnopqrstuvwxyz''"

text \<open>The loop of \<open>base62_encode\<close>; on a negative number it does not end.\<close>

partial_function (option) base62_loop :: "int \<Rightarrow> string \<Rightarrow> string option" where
  "base62_loop num res =
     (if num = 0 then Some res else base62_loop (num div 62) (BASE62 ! nat (num mod 62) # res))"

definition base62_encode :: "int \<Rightarrow> int \<Rightarrow> string option" where
  "base62_encode num minwidth =
     map_option (\<lambda>res. replicate (nat (minwidth - int (length res))) CHR ''0'' @ res) (base62_loop num [])"

section \<open>What validated server names look like\<close>

lemma rsplit_at_None_iff: "rsplit_at c s = None \<longleftrightarrow> c \<notin> set s"
  by (simp add: rsplit_at_def split_at_None_iff)

lemma rsplit_at_Some_iff: "rsplit_at c s = Some (l, r) \<longleftrightarrow> s = l @ c # r \<and> c \<notin> set r"
proof -
  have "rsplit_at c s = Some (l, r) \<longleftrightarrow> split_at c (rev s) = Some (rev r, rev l)"
    unfolding rsplit_at_def by (cases "split_at c (rev s)") (auto simp: rev_swap)
  also have "\<dots> \<longleftrightarrow> rev s = rev r @ c # rev l \<and> c \<notin> set r" by (simp add: split_at_Some_iff)
  also have "\<dots> \<longleftrightarrow> s = l @ c # r \<and> c \<notin> set r" by (metis append.assoc append_Cons append_Nil rev.simps(2) rev_append rev_rev_ident)
  finally show ?thesis .
qed

text \<open>The regular expression read as one: labels with dots between them.\<close>

definition labels :: "string \<Rightarrow> string list \<Rightarrow> string" where
  "labels l ls = l @ concat (map (\<lambda>l'. CHR ''.'' # l') ls)"

definition is_label :: "string \<Rightarrow> bool" where
  "is_label l \<longleftrightarrow> l \<noteq> [] \<and> list_all host_char l"

lemma dot_not_host_char: "\<not> host_char CHR ''.''"
  by (simp add: host_char_def is_alnum_def is_digit_def is_upper_def)

lemma host_match_label: "list_all host_char l \<Longrightarrow> host_match b (l @ s) = host_match (b \<or> l \<noteq> []) s"
  by (induction l arbitrary: b) auto

lemma host_match_labels: "list_all is_label ls \<Longrightarrow> host_match True (concat (map (\<lambda>l'. CHR ''.'' # l') ls))"
  by (induction ls) (simp_all add: dot_not_host_char is_label_def host_match_label)

lemma host_match_split:
  "host_match b s \<Longrightarrow> \<exists>l ls. s = labels l ls \<and> list_all host_char l \<and> (b \<or> l \<noteq> []) \<and> list_all is_label ls"
proof (induction b s rule: host_match.induct)
  case (1 b)
  then show ?case by (intro exI [of _ "[]"]) (simp add: labels_def)
next
  case (2 b c cs)
  show ?case
  proof (cases "host_char c")
    case True
    with 2 obtain l ls where "cs = labels l ls" "list_all host_char l" "list_all is_label ls" by auto
    with True show ?thesis by (intro exI [of _ "c # l"] exI [of _ ls]) (simp add: labels_def)
  next
    case False
    with 2 obtain l ls where "c = CHR ''.''" b "cs = labels l ls" "list_all host_char l" "l \<noteq> []" "list_all is_label ls" by auto
    moreover from this have "is_label l" by (simp add: is_label_def)
    ultimately show ?thesis by (intro exI [of _ "[] :: string"] exI [of _ "l # ls"]) (simp add: labels_def)
  qed
qed

lemma VALID_HOST_iff: "VALID_HOST s \<longleftrightarrow> (\<exists>l ls. s = labels l ls \<and> list_all is_label (l # ls))"
proof
  assume "VALID_HOST s"
  with host_match_split [of False s] show "\<exists>l ls. s = labels l ls \<and> list_all is_label (l # ls)"
    by (auto simp: VALID_HOST_def is_label_def)
next
  assume "\<exists>l ls. s = labels l ls \<and> list_all is_label (l # ls)"
  then show "VALID_HOST s" by (auto simp: VALID_HOST_def labels_def host_match_label is_label_def host_match_labels)
qed

lemma VALID_HOST_chars: "VALID_HOST s \<Longrightarrow> c \<in> set s \<Longrightarrow> host_char c \<or> c = CHR ''.''"
  by (auto simp: VALID_HOST_iff labels_def is_label_def list_all_iff split: if_splits)

text \<open>A port number has no character that the syntax of server names uses.\<close>

definition int_char :: "char \<Rightarrow> bool" where
  "int_char c \<longleftrightarrow> is_digit c \<or> is_space c \<or> c = CHR ''_'' \<or> c = CHR ''+'' \<or> c = CHR ''-''"

lemma set_strip: "c \<in> set s \<Longrightarrow> is_space c \<or> c \<in> set (strip s)"
proof -
  have d: "c \<in> set t \<Longrightarrow> is_space c \<or> c \<in> set (dropWhile is_space t)" for t
    by (metis UnE set_append set_takeWhileD takeWhile_dropWhile_id)
  assume "c \<in> set s"
  with d [of s] d [of "rev (dropWhile is_space s)"] show ?thesis by (auto simp: strip_def)
qed

lemma digits_val_chars: "digits_val b acc s = Some i \<Longrightarrow> c \<in> set s \<Longrightarrow> is_digit c \<or> c = CHR ''_''"
  by (induction b acc s rule: digits_val.induct) (auto split: if_splits)

lemma int_of_str_chars: "int_of_str p = Some i \<Longrightarrow> c \<in> set p \<Longrightarrow> int_char c"
proof -
  assume i: "int_of_str p = Some i" and "c \<in> set p"
  then consider "is_space c" | "c \<in> set (strip p)" using set_strip by blast
  then show ?thesis
  proof cases
    case 2
    obtain x xs where p: "strip p = x # xs" using i by (auto simp: int_of_str_def split: list.splits)
    have "c = x \<or> is_digit c \<or> c = CHR ''_''" "x = CHR ''-'' \<or> x = CHR ''+'' \<or> is_digit x \<or> x = CHR ''_''"
      using i 2 p digits_val_chars by (fastforce simp: int_of_str_def split: if_splits)+
    then show ?thesis by (auto simp: int_char_def)
  qed (simp add: int_char_def)
qed

lemma int_of_str_end: "int_of_str p = Some i \<Longrightarrow> p \<noteq> [] \<and> last p \<noteq> CHR '']'' \<and> CHR '':'' \<notin> set p"
proof -
  assume i: "int_of_str p = Some i"
  then have n: "p \<noteq> []" by (auto simp: int_of_str_def strip_def)
  have "\<not> int_char CHR '']''" "\<not> int_char CHR '':''" by (simp_all add: int_char_def is_digit_def is_space_def)
  with int_of_str_chars [OF i] n last_in_set [OF n] show ?thesis by metis
qed

text \<open>The host parts that pass: an IPv6 literal in brackets, or a name.\<close>

definition host_ok :: "(string \<Rightarrow> bool) \<Rightarrow> string \<Rightarrow> bool" where
  "host_ok valid_ipv6 host \<longleftrightarrow>
     (\<exists>a. host = CHR ''['' # a @ [CHR '']''] \<and> a \<noteq> [] \<and> valid_ipv6 a) \<or>
     (\<exists>l ls. host = labels l ls \<and> list_all is_label (l # ls))"

lemma host_ok_iff:
  "host_ok valid_ipv6 host \<longleftrightarrow>
   (if host \<noteq> [] \<and> hd host = CHR ''[''
    then last host = CHR '']'' \<and> butlast (tl host) \<noteq> [] \<and> valid_ipv6 (butlast (tl host)) else VALID_HOST host)"
proof (cases "host \<noteq> [] \<and> hd host = CHR ''[''")
  case True
  then obtain t where t: "host = CHR ''['' # t" by (cases host) auto
  have "\<not> VALID_HOST host" using VALID_HOST_chars [of host "CHR ''[''"] t
    by (auto simp: host_char_def is_alnum_def is_digit_def is_upper_def)
  then have "host_ok valid_ipv6 host \<longleftrightarrow> (\<exists>a. t = a @ [CHR '']''] \<and> a \<noteq> [] \<and> valid_ipv6 a)"
    unfolding host_ok_def VALID_HOST_iff [symmetric] by (simp add: t)
  also have "\<dots> \<longleftrightarrow> last host = CHR '']'' \<and> butlast t \<noteq> [] \<and> valid_ipv6 (butlast t)"
    by (cases t rule: rev_cases) (auto simp: t)
  finally show ?thesis by (simp add: t)
next
  case False
  then have "host_ok valid_ipv6 host \<longleftrightarrow> VALID_HOST host"
    unfolding host_ok_def VALID_HOST_iff [symmetric] by (cases host) auto
  then show ?thesis using False by (simp only: if_False)
qed

lemma validate_host:
  "parse_and_validate_server_name valid_ipv6 s = Inr (host, port) \<longleftrightarrow>
   parse_server_name s = Inr (host, port) \<and> host_ok valid_ipv6 host"
proof (cases "parse_server_name s")
  case (Inr hp)
  obtain h p where hp: "hp = (h, p)" by force
  have "parse_and_validate_server_name valid_ipv6 s = (if host_ok valid_ipv6 h then Inr (h, p) else Inl ValueErr)"
    unfolding parse_and_validate_server_name_def Inr hp host_ok_iff bindR.simps prod.case Let_def by (simp only: split: if_split) blast
  then show ?thesis by (auto simp: Inr hp)
qed (simp add: parse_and_validate_server_name_def)

lemma host_ok_end: "host_ok valid_ipv6 host \<Longrightarrow> host \<noteq> [] \<and> (last host = CHR '']'' \<or> CHR '':'' \<notin> set host)"
proof -
  assume "host_ok valid_ipv6 host"
  then consider a where "host = CHR ''['' # a @ [CHR '']'']" | "VALID_HOST host" by (auto simp: host_ok_def VALID_HOST_iff)
  then show ?thesis
  proof cases
    case 2
    then have "host \<noteq> []" by (auto simp: VALID_HOST_def)
    with 2 VALID_HOST_chars [of host "CHR '':''"] show ?thesis
      by (auto simp: host_char_def is_alnum_def is_digit_def is_upper_def)
  qed simp
qed

text \<open>
  A server name passes validation exactly when it is an IPv6 literal in brackets or a sequence
  of dot-separated labels of letters, digits and hyphens, followed at most by a colon and a number;
  the host and the port returned are these two parts.
\<close>

theorem server_name_validated:
  "parse_and_validate_server_name valid_ipv6 s = Inr (host, port) \<longleftrightarrow>
   host_ok valid_ipv6 host \<and>
   (s = host \<and> port = None \<or> (\<exists>p i. s = host @ CHR '':'' # p \<and> int_of_str p = Some i \<and> port = Some i))"
proof -
  have "parse_server_name s = Inr (host, port) \<longleftrightarrow>
      s = host \<and> port = None \<or> (\<exists>p i. s = host @ CHR '':'' # p \<and> int_of_str p = Some i \<and> port = Some i)"
    (is "?l \<longleftrightarrow> ?r") if ok: "host_ok valid_ipv6 host"
  proof
    assume ?l
    then show ?r
      by (auto simp: parse_server_name_def rsplit_at_Some_iff split: if_splits option.splits)
  next
    assume ?r
    then show ?l
    proof
      assume "s = host \<and> port = None"
      then show ?l using host_ok_end [OF ok] rsplit_at_None_iff [of "CHR '':''" host]
        by (auto simp: parse_server_name_def)
    next
      assume "\<exists>p i. s = host @ CHR '':'' # p \<and> int_of_str p = Some i \<and> port = Some i"
      then obtain p i where p: "s = host @ CHR '':'' # p" "int_of_str p = Some i" "port = Some i" by blast
      have "rsplit_at CHR '':'' s = Some (host, p)" using p int_of_str_end [OF p(2)] by (simp add: rsplit_at_Some_iff)
      with p int_of_str_end [OF p(2)] show ?l by (simp add: parse_server_name_def)
    qed
  qed
  then show ?thesis using validate_host by blast
qed

section \<open>Base 62\<close>

definition base62_digit :: "char \<Rightarrow> int" where
  "base62_digit c = int (length (takeWhile (\<lambda>x. x \<noteq> c) BASE62))"

definition base62_value :: "string \<Rightarrow> int" where
  "base62_value s = foldl (\<lambda>n c. n * 62 + base62_digit c) 0 s"

lemma base62_digit_nth: "n < 62 \<Longrightarrow> base62_digit (BASE62 ! n) = int n"
proof -
  assume n: "n < 62"
  have l: "length BASE62 = 62" "distinct BASE62" by (simp_all add: BASE62_def)
  have "takeWhile (\<lambda>x. x \<noteq> BASE62 ! n) BASE62 = take n BASE62"
    using l n by (auto intro!: takeWhile_eq_take_P_nth simp: nth_eq_iff_index_eq)
  then show ?thesis using l n by (simp add: base62_digit_def)
qed

lemma base62_nth: "n < 62 \<Longrightarrow> BASE62 ! n \<in> set BASE62"
  by (rule nth_mem) (simp add: BASE62_def)

text \<open>The loop ends on every number that is not negative, and on no other.\<close>

lemma base62_loop_value:
  assumes "0 \<le> n" "set res \<subseteq> set BASE62"
  shows "\<exists>s. base62_loop n res = Some s \<and> set s \<subseteq> set BASE62 \<and>
    base62_value s = n * 62 ^ length res + base62_value res"
  using assms
proof (induction "nat n" arbitrary: n res rule: less_induct)
  case less
  have v: "base62_value (c # cs) = base62_digit c * 62 ^ length cs + base62_value cs" for c cs
  proof -
    have "foldl (\<lambda>n c. n * 62 + base62_digit c) a cs = a * 62 ^ length cs + base62_value cs" for a
      unfolding base62_value_def by (induction cs rule: rev_induct) (simp_all add: algebra_simps)
    from this [of "base62_digit c"] show ?thesis by (simp add: base62_value_def)
  qed
  show ?case
  proof (cases "n = 0")
    case True
    with less.prems show ?thesis by (simp add: base62_loop.simps [of 0])
  next
    case False
    let ?c = "BASE62 ! nat (n mod 62)"
    have "nat (n div 62) < nat n" "0 \<le> n div 62" using False less.prems(1) by auto
    moreover have "set (?c # res) \<subseteq> set BASE62" using less.prems(2) base62_nth [of "nat (n mod 62)"] by simp
    ultimately obtain s where s: "base62_loop (n div 62) (?c # res) = Some s" "set s \<subseteq> set BASE62"
      "base62_value s = n div 62 * 62 ^ length (?c # res) + base62_value (?c # res)"
      using less.hyps by blast
    have "base62_digit ?c = n mod 62" using base62_digit_nth [of "nat (n mod 62)"] by simp
    with s(3) v have "base62_value s = n div 62 * (62 * 62 ^ length res) + (n mod 62 * 62 ^ length res + base62_value res)" by simp
    also have "\<dots> = (n div 62 * 62 + n mod 62) * 62 ^ length res + base62_value res" by (simp only: algebra_simps)
    finally have "base62_value s = n * 62 ^ length res + base62_value res" by simp
    with s(1,2) False show ?thesis by (auto simp: base62_loop.simps [of n])
  qed
qed

lemma base62_loop_ends: "base62_loop n res = Some s \<Longrightarrow> 0 \<le> n"
proof (rule base62_loop.raw_induct [where P = "\<lambda>n res s. 0 \<le> n"])
  fix f and num :: int and res s
  assume "\<And>num res s. f num res = Some s \<Longrightarrow> 0 \<le> (num :: int)"
    and "(if num = 0 then Some res else f (num div 62) (BASE62 ! nat (num mod 62) # res)) = Some s"
  then have "num = 0 \<or> 0 \<le> num div 62" by (auto split: if_splits)
  then show "0 \<le> num" by auto
qed

lemma base62_value_pad: "base62_value (replicate n CHR ''0'' @ s) = base62_value s"
proof -
  have "base62_digit CHR ''0'' = 0" by (simp add: base62_digit_def BASE62_def)
  then have "foldl (\<lambda>n c. n * 62 + base62_digit c) 0 (replicate n CHR ''0'') = 0" by (induction n) simp_all
  then show ?thesis by (simp add: base62_value_def)
qed

text \<open>
  \<open>base62_encode\<close> returns exactly on the numbers that are not negative; reading the digits back
  gives the number, and the text has at least \<open>minwidth\<close> characters, all of the alphabet.
\<close>

theorem base62_round_trip:
  "(case base62_encode num minwidth of
      None \<Rightarrow> num < 0
    | Some s \<Rightarrow> 0 \<le> num \<and> base62_value s = num \<and> minwidth \<le> int (length s) \<and> set s \<subseteq> set BASE62)"
proof (cases "base62_loop num []")
  case None
  with base62_loop_value [of num "[]"] show ?thesis by (cases "0 \<le> num") (auto simp: base62_encode_def)
next
  case (Some s)
  then have n: "0 \<le> num" by (rule base62_loop_ends)
  with base62_loop_value [of num "[]"] Some have "base62_value s = num" "set s \<subseteq> set BASE62"
    by (auto simp: base62_value_def)
  moreover have "CHR ''0'' \<in> set BASE62" by (simp add: BASE62_def)
  ultimately show ?thesis using n Some by (auto simp: base62_encode_def base62_value_pad)
qed

text \<open>A client secret may end in a line feed.\<close>

lemma client_secret_with_line_feed: "assert_valid_client_secret (''abc'' @ [CHR 0x0A]) = Inr ()"
  by code_simp

end
