(* ===== verification/Domain_Ids.thy ===== *)
theory Domain_Ids
  imports String_Utils
begin

text \<open>
  Matrix identifiers, \<open>types/__init__.py\<close>: the \<open>DomainSpecificString\<close> classes (\<open>UserID\<close>,
  \<open>RoomAlias\<close>, \<open>RoomID\<close>, \<open>EventID\<close>), the helpers that cut an identifier at its first
  colon, and the mapping of arbitrary user names to localparts.
\<close>

definition get_domain_from_id :: "string \<Rightarrow> string result" where
  "get_domain_from_id s =
     (case split_at CHR '':'' s of None \<Rightarrow> Inl (SynapseError 400) | Some (l, r) \<Rightarrow> Inr r)"

definition get_localpart_from_id :: "string \<Rightarrow> string result" where
  "get_localpart_from_id s =
     (case split_at CHR '':'' s of None \<Rightarrow> Inl (SynapseError 400) | Some (l, r) \<Rightarrow> Inr (drop 1 l))"

text \<open>The subclasses of \<open>DomainSpecificString\<close> differ in their sigil only.\<close>

datatype ds_class = UserID | RoomAlias | RoomID | EventID

fun SIGIL :: "ds_class \<Rightarrow> char" where
  "SIGIL UserID = CHR ''@''"
| "SIGIL RoomAlias = CHR ''#''"
| "SIGIL RoomID = CHR ''!''"
| "SIGIL EventID = CHR ''$''"

record domain_specific_string =
  ds_localpart :: string
  ds_domain :: string

definition from_string :: "ds_class \<Rightarrow> string \<Rightarrow> domain_specific_string result" where
  "from_string cls s =
     (if length s < 1 \<or> hd s \<noteq> SIGIL cls then Inl (SynapseError 400)
      else (case split_at CHR '':'' (tl s) of
              None \<Rightarrow> Inl (SynapseError 400)
            | Some (l, d) \<Rightarrow> Inr \<lparr>ds_localpart = l, ds_domain = d\<rparr>))"

definition to_string :: "ds_class \<Rightarrow> domain_specific_string \<Rightarrow> string" where
  "to_string cls ds = SIGIL cls # ds_localpart ds @ CHR '':'' # ds_domain ds"

definition is_valid :: "(string \<Rightarrow> bool) \<Rightarrow> ds_class \<Rightarrow> string \<Rightarrow> bool" where
  "is_valid valid_ipv6 cls s =
     ok (bindR (from_string cls s) (\<lambda>ds. parse_and_validate_server_name valid_ipv6 (ds_domain ds)))"

section \<open>User names\<close>

definition MXID_LOCALPART_ALLOWED_CHARACTERS :: "char list" where
  "MXID_LOCALPART_ALLOWED_CHARACTERS = ''_-./=+abcdefghijklmnopqrstuvwxyz0123456789''"

definition contains_invalid_mxid_characters :: "string \<Rightarrow> bool" where
  "contains_invalid_mxid_characters s =
     list_ex (\<lambda>c. c \<notin> set MXID_LOCALPART_ALLOWED_CHARACTERS) s"

definition hex_digit :: "nat \<Rightarrow> char" where
  "hex_digit n = ''0123456789abcdef'' ! n"

definition hex_escape :: "char \<Rightarrow> string" where
  "hex_escape c = [CHR ''='', hex_digit ((of_char c :: nat) div 16), hex_digit ((of_char c :: nat) mod 16)]"

text \<open>\<open>f1\<close>: the replacement of upper case letters and underscores when case is kept.\<close>

definition map_case :: "bool \<Rightarrow> char \<Rightarrow> string" where
  "map_case case_sensitive c =
     (if case_sensitive then (if is_upper c \<or> c = CHR ''_'' then [CHR ''_'', lower c] else [c])
      else [lower c])"

text \<open>\<open>f2\<close>: every byte that is not an allowed character other than \<open>=\<close>.\<close>

definition map_byte :: "char \<Rightarrow> string" where
  "map_byte c =
     (if c \<in> set MXID_LOCALPART_ALLOWED_CHARACTERS \<and> c \<noteq> CHR ''='' then [c] else hex_escape c)"

definition map_username_to_mxid_localpart :: "string \<Rightarrow> bool \<Rightarrow> string" where
  "map_username_to_mxid_localpart username case_sensitive =
     (let u1 = concat (map (map_case case_sensitive) username);
          u2 = concat (map map_byte u1)
      in case u2 of [] \<Rightarrow> [] | c # cs \<Rightarrow> if c = CHR ''_'' then ''=5f'' @ cs else c # cs)"

section \<open>Lemmas\<close>

lemma get_domain_from_id_Inr: "get_domain_from_id s = Inr d \<longleftrightarrow> (\<exists>l. s = l @ CHR '':'' # d \<and> CHR '':'' \<notin> set l)"
proof -
  have "get_domain_from_id s = Inr d \<longleftrightarrow> (\<exists>l. split_at CHR '':'' s = Some (l, d))"
    by (auto simp: get_domain_from_id_def split: option.splits)
  then show ?thesis by (simp only: split_at_Some_iff)
qed

lemma get_domain_from_id_Inl: "get_domain_from_id s = Inl e \<longleftrightarrow> CHR '':'' \<notin> set s \<and> e = SynapseError 400"
  by (auto simp: get_domain_from_id_def split_at_None_iff [symmetric] split: option.splits)

lemma from_string_Inr_iff:
  "from_string cls s = Inr ds \<longleftrightarrow> s = to_string cls ds \<and> CHR '':'' \<notin> set (ds_localpart ds)"
proof (cases s)
  case (Cons c cs)
  have "from_string cls s = Inr ds \<longleftrightarrow>
      c = SIGIL cls \<and> split_at CHR '':'' cs = Some (ds_localpart ds, ds_domain ds)"
    by (cases ds) (auto simp: Cons from_string_def split: option.splits)
  then show ?thesis by (simp only: split_at_Some_iff) (auto simp: Cons to_string_def)
qed (simp add: from_string_def to_string_def)

text \<open>The colon splits the identifier where the helpers and the parser agree.\<close>

lemma from_string_domain:
  assumes "from_string cls s = Inr ds"
  shows "get_domain_from_id s = Inr (ds_domain ds) \<and> get_localpart_from_id s = Inr (ds_localpart ds)"
proof -
  have s: "s = (SIGIL cls # ds_localpart ds) @ CHR '':'' # ds_domain ds"
    and n: "CHR '':'' \<notin> set (SIGIL cls # ds_localpart ds)"
    using assms by (cases cls; simp add: from_string_Inr_iff to_string_def)+
  from split_at_append [OF n, of "ds_domain ds"] show ?thesis
    by (simp only: s get_domain_from_id_def get_localpart_from_id_def) simp
qed

lemma byte_cases: "(of_char c :: nat) div 16 < 16 \<and> (of_char c :: nat) mod 16 < 16"
  using nat_of_char_less_256 [of c] by (simp add: less_mult_imp_div_less del: nat_of_char_less_256)

lemma hex_digit_allowed: "n < 16 \<Longrightarrow> hex_digit n \<in> set MXID_LOCALPART_ALLOWED_CHARACTERS"
proof -
  assume "n < 16"
  then have "hex_digit n \<in> set ''0123456789abcdef''"
    by (simp only: hex_digit_def) (rule nth_mem, simp)
  then show ?thesis by (auto simp: MXID_LOCALPART_ALLOWED_CHARACTERS_def)
qed

lemma hex_escape_allowed: "set (hex_escape c) \<subseteq> set MXID_LOCALPART_ALLOWED_CHARACTERS"
  using byte_cases [of c]
  by (simp add: hex_escape_def hex_digit_allowed) (simp add: MXID_LOCALPART_ALLOWED_CHARACTERS_def)

lemma map_byte_allowed: "set (map_byte c) \<subseteq> set MXID_LOCALPART_ALLOWED_CHARACTERS"
  using hex_escape_allowed by (auto simp: map_byte_def)

end
