(* ===== verification/Room_Versions.thy ===== *)
theory Room_Versions
  imports Prelude
begin

text \<open>
  Room versions, \<open>api/room_versions.py\<close>: the feature flags of each version and the table of
  versions this server knows.
\<close>

datatype event_format_version = ROOM_V1_V2 | ROOM_V3 | ROOM_V4_PLUS

datatype state_res_version = StateRes_V1 | StateRes_V2

datatype room_disposition = STABLE | UNSTABLE

record room_version =
  rv_identifier :: string
  disposition :: room_disposition
  event_format :: event_format_version
  state_res :: state_res_version
  enforce_key_validity :: bool
  special_case_aliases_auth :: bool
  strict_canonicaljson :: bool
  limit_notifications_power_levels :: bool
  implicit_room_creator :: bool
  updated_redaction_rules :: bool
  restricted_join_rule :: bool
  restricted_join_rule_fix :: bool
  knock_join_rule :: bool
  msc3389_relation_redactions :: bool
  knock_restricted_join_rule :: bool
  enforce_int_power_levels :: bool
  msc3931_push_features :: "string list"

definition RV_V1 :: room_version where
  "RV_V1 = \<lparr>rv_identifier = ''1'', disposition = STABLE, event_format = ROOM_V1_V2, state_res = StateRes_V1,
     enforce_key_validity = False,
     special_case_aliases_auth = True,
     strict_canonicaljson = False,
     limit_notifications_power_levels = False,
     implicit_room_creator = False,
     updated_redaction_rules = False,
     restricted_join_rule = False,
     restricted_join_rule_fix = False,
     knock_join_rule = False,
     msc3389_relation_redactions = False,
     knock_restricted_join_rule = False,
     enforce_int_power_levels = False,
     msc3931_push_features = []\<rparr>"

definition RV_V2 :: room_version where
  "RV_V2 = \<lparr>rv_identifier = ''2'', disposition = STABLE, event_format = ROOM_V1_V2, state_res = StateRes_V2,
     enforce_key_validity = False,
     special_case_aliases_auth = True,
     strict_canonicaljson = False,
     limit_notifications_power_levels = False,
     implicit_room_creator = False,
     updated_redaction_rules = False,
     restricted_join_rule = False,
     restricted_join_rule_fix = False,
     knock_join_rule = False,
     msc3389_relation_redactions = False,
     knock_restricted_join_rule = False,
     enforce_int_power_levels = False,
     msc3931_push_features = []\<rparr>"

definition RV_V3 :: room_version where
  "RV_V3 = \<lparr>rv_identifier = ''3'', disposition = STABLE, event_format = ROOM_V3, state_res = StateRes_V2,
     enforce_key_validity = False,
     special_case_aliases_auth = True,
     strict_canonicaljson = False,
     limit_notifications_power_levels = False,
     implicit_room_creator = False,
     updated_redaction_rules = False,
     restricted_join_rule = False,
     restricted_join_rule_fix = False,
     knock_join_rule = False,
     msc3389_relation_redactions = False,
     knock_restricted_join_rule = False,
     enforce_int_power_levels = False,
     msc3931_push_features = []\<rparr>"

definition RV_V4 :: room_version where
  "RV_V4 = \<lparr>rv_identifier = ''4'', disposition = STABLE, event_format = ROOM_V4_PLUS, state_res = StateRes_V2,
     enforce_key_validity = False,
     special_case_aliases_auth = True,
     strict_canonicaljson = False,
     limit_notifications_power_levels = False,
     implicit_room_creator = False,
     updated_redaction_rules = False,
     restricted_join_rule = False,
     restricted_join_rule_fix = False,
     knock_join_rule = False,
     msc3389_relation_redactions = False,
     knock_restricted_join_rule = False,
     enforce_int_power_levels = False,
     msc3931_push_features = []\<rparr>"

definition RV_V5 :: room_version where
  "RV_V5 = \<lparr>rv_identifier = ''5'', disposition = STABLE, event_format = ROOM_V4_PLUS, state_res = StateRes_V2,
     enforce_key_validity = True,
     special_case_aliases_auth = True,
     strict_canonicaljson = False,
     limit_notifications_power_levels = False,
     implicit_room_creator = False,
     updated_redaction_rules = False,
     restricted_join_rule = False,
     restricted_join_rule_fix = False,
     knock_join_rule = False,
     msc3389_relation_redactions = False,
     knock_restricted_join_rule = False,
     enforce_int_power_levels = False,
     msc3931_push_features = []\<rparr>"

definition RV_V6 :: room_version where
  "RV_V6 = \<lparr>rv_identifier = ''6'', disposition = STABLE, event_format = ROOM_V4_PLUS, state_res = StateRes_V2,
     enforce_key_validity = True,
     special_case_aliases_auth = False,
     strict_canonicaljson = True,
     limit_notifications_power_levels = True,
     implicit_room_creator = False,
     updated_redaction_rules = False,
     restricted_join_rule = False,
     restricted_join_rule_fix = False,
     knock_join_rule = False,
     msc3389_relation_redactions = False,
     knock_restricted_join_rule = False,
     enforce_int_power_levels = False,
     msc3931_push_features = []\<rparr>"

definition RV_V7 :: room_version where
  "RV_V7 = \<lparr>rv_identifier = ''7'', disposition = STABLE, event_format = ROOM_V4_PLUS, state_res = StateRes_V2,
     enforce_key_validity = True,
     special_case_aliases_auth = False,
     strict_canonicaljson = True,
     limit_notifications_power_levels = True,
     implicit_room_creator = False,
     updated_redaction_rules = False,
     restricted_join_rule = False,
     restricted_join_rule_fix = False,
     knock_join_rule = True,
     msc3389_relation_redactions = False,
     knock_restricted_join_rule = False,
     enforce_int_power_levels = False,
     msc3931_push_features = []\<rparr>"

definition RV_V8 :: room_version where
  "RV_V8 = \<lparr>rv_identifier = ''8'', disposition = STABLE, event_format = ROOM_V4_PLUS, state_res = StateRes_V2,
     enforce_key_validity = True,
     special_case_aliases_auth = False,
     strict_canonicaljson = True,
     limit_notifications_power_levels = True,
     implicit_room_creator = False,
     updated_redaction_rules = False,
     restricted_join_rule = True,
     restricted_join_rule_fix = False,
     knock_join_rule = True,
     msc3389_relation_redactions = False,
     knock_restricted_join_rule = False,
     enforce_int_power_levels = False,
     msc3931_push_features = []\<rparr>"

definition RV_V9 :: room_version where
  "RV_V9 = \<lparr>rv_identifier = ''9'', disposition = STABLE, event_format = ROOM_V4_PLUS, state_res = StateRes_V2,
     enforce_key_validity = True,
     special_case_aliases_auth = False,
     strict_canonicaljson = True,
     limit_notifications_power_levels = True,
     implicit_room_creator = False,
     updated_redaction_rules = False,
     restricted_join_rule = True,
     restricted_join_rule_fix = True,
     knock_join_rule = True,
     msc3389_relation_redactions = False,
     knock_restricted_join_rule = False,
     enforce_int_power_levels = False,
     msc3931_push_features = []\<rparr>"

definition RV_V10 :: room_version where
  "RV_V10 = \<lparr>rv_identifier = ''10'', disposition = STABLE, event_format = ROOM_V4_PLUS, state_res = StateRes_V2,
     enforce_key_validity = True,
     special_case_aliases_auth = False,
     strict_canonicaljson = True,
     limit_notifications_power_levels = True,
     implicit_room_creator = False,
     updated_redaction_rules = False,
     restricted_join_rule = True,
     restricted_join_rule_fix = True,
     knock_join_rule = True,
     msc3389_relation_redactions = False,
     knock_restricted_join_rule = True,
     enforce_int_power_levels = True,
     msc3931_push_features = []\<rparr>"

definition RV_MSC1767v10 :: room_version where
  "RV_MSC1767v10 = \<lparr>rv_identifier = ''org.matrix.msc1767.10'', disposition = UNSTABLE, event_format = ROOM_V4_PLUS, state_res = StateRes_V2,
     enforce_key_validity = True,
     special_case_aliases_auth = False,
     strict_canonicaljson = True,
     limit_notifications_power_levels = True,
     implicit_room_creator = False,
     updated_redaction_rules = False,
     restricted_join_rule = True,
     restricted_join_rule_fix = True,
     knock_join_rule = True,
     msc3389_relation_redactions = False,
     knock_restricted_join_rule = True,
     enforce_int_power_levels = True,
     msc3931_push_features = [''org.matrix.msc3932.extensible_events'']\<rparr>"

definition RV_V11 :: room_version where
  "RV_V11 = \<lparr>rv_identifier = ''11'', disposition = STABLE, event_format = ROOM_V4_PLUS, state_res = StateRes_V2,
     enforce_key_validity = True,
     special_case_aliases_auth = False,
     strict_canonicaljson = True,
     limit_notifications_power_levels = True,
     implicit_room_creator = True,
     updated_redaction_rules = True,
     restricted_join_rule = True,
     restricted_join_rule_fix = True,
     knock_join_rule = True,
     msc3389_relation_redactions = False,
     knock_restricted_join_rule = True,
     enforce_int_power_levels = True,
     msc3931_push_features = []\<rparr>"

definition KNOWN_ROOM_VERSIONS :: "(string \<times> room_version) list" where
  "KNOWN_ROOM_VERSIONS = map (\<lambda>v. (rv_identifier v, v))
     [RV_V1, RV_V2, RV_V3, RV_V4, RV_V5, RV_V6, RV_V7, RV_V8, RV_V9, RV_V10, RV_V11]"

lemmas room_version_defs = RV_V1_def RV_V2_def RV_V3_def RV_V4_def RV_V5_def RV_V6_def RV_V7_def RV_V8_def RV_V9_def RV_V10_def RV_MSC1767v10_def RV_V11_def

definition MSC3244_support :: "(room_version \<Rightarrow> bool) \<Rightarrow> string list" where
  "MSC3244_support support_check = [rv_identifier v. v \<leftarrow> map snd KNOWN_ROOM_VERSIONS, support_check v]"

definition MSC3244_CAPABILITIES :: "(string \<times> string \<times> string list) list" where
  "MSC3244_CAPABILITIES =
     [(''knock'', rv_identifier RV_V7, MSC3244_support knock_join_rule),
      (''restricted'', rv_identifier RV_V9, MSC3244_support restricted_join_rule)]"

text \<open>
  What the rest of the code takes for granted of a version: the fix and the combined join rule
  come with the restricted join rule, and only room versions 1 and 2 name events by server.
\<close>

definition rv_wf :: "room_version \<Rightarrow> bool" where
  "rv_wf v \<longleftrightarrow>
     (knock_restricted_join_rule v \<longrightarrow> restricted_join_rule v \<and> knock_join_rule v) \<and>
     (restricted_join_rule_fix v \<longrightarrow> restricted_join_rule v) \<and>
     (state_res v = StateRes_V1 \<longrightarrow> event_format v = ROOM_V1_V2)"

lemma known_room_versions_wf: "list_all (rv_wf \<circ> snd) KNOWN_ROOM_VERSIONS"
  by (simp add: KNOWN_ROOM_VERSIONS_def rv_wf_def room_version_defs)

lemma known_room_versions_distinct: "distinct (map fst KNOWN_ROOM_VERSIONS)"
  by (simp add: KNOWN_ROOM_VERSIONS_def room_version_defs)

end
