(* ===== verification/Events.thy ===== *)
theory Events
  imports Json_Values Domain_Ids Room_Versions
begin

text \<open>
  The event objects of \<open>events/__init__.py\<close>, with the constants of \<open>api/constants.py\<close> the code
  compares against.  The \<open>DictProperty\<close> fields that every event carries are plain fields; the
  optional ones are options (a missing \<open>state_key\<close> raises \<open>AttributeError\<close> when read).
\<close>

section \<open>Constants\<close>

abbreviation (input) MAX_PDU_SIZE :: nat where "MAX_PDU_SIZE \<equiv> 65536"

abbreviation Member :: string where "Member \<equiv> ''m.room.member''"
abbreviation Create :: string where "Create \<equiv> ''m.room.create''"
abbreviation JoinRules :: string where "JoinRules \<equiv> ''m.room.join_rules''"
abbreviation PowerLevels :: string where "PowerLevels \<equiv> ''m.room.power_levels''"
abbreviation Aliases :: string where "Aliases \<equiv> ''m.room.aliases''"
abbreviation Redaction :: string where "Redaction \<equiv> ''m.room.redaction''"
abbreviation ThirdPartyInvite :: string where "ThirdPartyInvite \<equiv> ''m.room.third_party_invite''"

abbreviation INVITE :: json where "INVITE \<equiv> JStr ''invite''"
abbreviation JOIN :: json where "JOIN \<equiv> JStr ''join''"
abbreviation KNOCK :: json where "KNOCK \<equiv> JStr ''knock''"
abbreviation LEAVE :: json where "LEAVE \<equiv> JStr ''leave''"
abbreviation BAN :: json where "BAN \<equiv> JStr ''ban''"

abbreviation JR_PUBLIC :: json where "JR_PUBLIC \<equiv> JStr ''public''"
abbreviation JR_KNOCK :: json where "JR_KNOCK \<equiv> JStr ''knock''"
abbreviation JR_INVITE :: json where "JR_INVITE \<equiv> JStr ''invite''"
abbreviation JR_RESTRICTED :: json where "JR_RESTRICTED \<equiv> JStr ''restricted''"
abbreviation JR_KNOCK_RESTRICTED :: json where "JR_KNOCK_RESTRICTED \<equiv> JStr ''knock_restricted''"

abbreviation AUTHORISING_USER :: string where
  "AUTHORISING_USER \<equiv> ''join_authorised_via_users_server''"
abbreviation ROOM_CREATOR :: string where "ROOM_CREATOR \<equiv> ''creator''"
abbreviation FEDERATE :: string where "FEDERATE \<equiv> ''m.federate''"

section \<open>Events\<close>

record event =
  ev_id :: string
  ev_type :: string
  room_id :: string
  sender :: string
  state_key_field :: "string option"
  content :: "(string \<times> json) list"
  redacts_field :: "json option"
  depth :: int
  origin_server_ts :: int
  signatures :: "(string \<times> (string \<times> string) list) list"
  prev_event_ids :: "string list"
  auth_event_ids :: "string list"
  event_room_version :: room_version
  rejected_reason :: "string option"
  recheck_redaction :: bool

text \<open>\<open>(type, state_key)\<close>: the key of a state event, and maps from such keys.\<close>

type_synonym state_pos = "string \<times> string"
type_synonym 'a state_map = "state_pos \<Rightarrow> 'a option"

text \<open>\<open>user_id\<close> reads the same dictionary entry as \<open>sender\<close>.\<close>

abbreviation user_id :: "event \<Rightarrow> string" where "user_id e \<equiv> sender e"

definition is_state :: "event \<Rightarrow> bool" where
  "is_state e \<longleftrightarrow> state_key_field e \<noteq> None"

definition state_key :: "event \<Rightarrow> string result" where
  "state_key e = (case state_key_field e of None \<Rightarrow> Inl AttributeErr | Some k \<Rightarrow> Inr k)"

definition content_get :: "event \<Rightarrow> string \<Rightarrow> json \<Rightarrow> json" where
  "content_get e k dflt = (case map_of (content e) k of None \<Rightarrow> dflt | Some v \<Rightarrow> v)"

definition content_has :: "event \<Rightarrow> string \<Rightarrow> bool" where
  "content_has e k \<longleftrightarrow> map_of (content e) k \<noteq> None"

definition content_item :: "event \<Rightarrow> string \<Rightarrow> json result" where
  "content_item e k = (case map_of (content e) k of None \<Rightarrow> Inl KeyErr | Some v \<Rightarrow> Inr v)"

definition membership :: "event \<Rightarrow> json result" where
  "membership e = content_item e ''membership''"

definition redacts :: "event \<Rightarrow> json" where
  "redacts e =
     (if updated_redaction_rules (event_room_version e) then content_get e ''redacts'' JNull
      else (case redacts_field e of None \<Rightarrow> JNull | Some v \<Rightarrow> v))"

text \<open>\<open>event.signatures.get(domain)\<close> as a condition: present and not an empty dict.\<close>

definition signed_by :: "event \<Rightarrow> string \<Rightarrow> bool" where
  "signed_by e domain = (case map_of (signatures e) domain of None \<Rightarrow> False | Some sigs \<Rightarrow> sigs \<noteq> [])"

definition state_pos :: "event \<Rightarrow> state_pos result" where
  "state_pos e = bindR (state_key e) (\<lambda>k. Inr (ev_type e, k))"

lemma state_key_Inr_iff [result_simps]: "state_key e = Inr k \<longleftrightarrow> state_key_field e = Some k"
  by (simp add: state_key_def split: option.splits)

lemma state_pos_Inr_iff [result_simps]: "state_pos e = Inr p \<longleftrightarrow> state_key_field e = Some (snd p) \<and> ev_type e = fst p"
  by (cases p) (auto simp: state_pos_def result_simps)

section \<open>Relations\<close>

record event_relation =
  parent_id :: string
  rel_type :: string
  aggregation_key :: "string option"

fun truthy :: "json \<Rightarrow> bool" where
  "truthy JNull = False"
| "truthy (JBool b) = b"
| "truthy (JInt i) = (i \<noteq> 0)"
| "truthy (JFloat q) = (q \<noteq> 0)"
| "truthy (JStr s) = (s \<noteq> [])"
| "truthy (JList xs) = (xs \<noteq> [])"
| "truthy (JObj d) = (d \<noteq> [])"

definition relation_from_event :: "event \<Rightarrow> event_relation option" where
  "relation_from_event e =
     (case content_get e ''m.relates_to'' JNull of
        JObj d \<Rightarrow>
          if \<not> truthy (JObj d) then None
          else (case map_of d ''rel_type'' of
             Some (JStr rt) \<Rightarrow>
               (case map_of d ''event_id'' of
                  Some (JStr pid) \<Rightarrow>
                    Some \<lparr>parent_id = pid, rel_type = rt,
                      aggregation_key =
                        (if rt = ''m.annotation''
                         then (case map_of d ''key'' of Some (JStr k) \<Rightarrow> Some k | _ \<Rightarrow> None)
                         else None)\<rparr>
                | _ \<Rightarrow> None)
           | _ \<Rightarrow> None)
      | _ \<Rightarrow> None)"

end
