(* ===== verification/Event_Auth.thy ===== *)
theory Event_Auth
  imports Events
begin

text \<open>
  The authorisation rules of rooms, \<open>event_auth.py\<close>.  The room state an event is checked against
  is a map from \<open>(type, state_key)\<close> to events.  Every check returns \<open>Inr\<close> where the Python
  returns and \<open>Inl\<close> of the exception where it raises; evaluation order is the source's.

  Code that is not part of the repository is an argument: \<open>verify\<close> stands for
  \<open>decode_verify_key_bytes\<close> applied to \<open>decode_base64\<close> of the public key followed by
  \<open>verify_signed_json\<close> (it gets the key name, the public key, the signed object and the
  server), \<open>pdu_len\<close> for the length of the canonical JSON encoding of the event.
\<close>

type_synonym auth_map = "event state_map"
type_synonym verifier = "string \<Rightarrow> json \<Rightarrow> json \<Rightarrow> string \<Rightarrow> unit result"

section \<open>Power levels\<close>

definition get_power_level_event :: "auth_map \<Rightarrow> event option" where
  "get_power_level_event auth = auth (PowerLevels, '''')"

definition room_creator :: "event \<Rightarrow> json result" where
  "room_creator create =
     (if implicit_room_creator (event_room_version create) then Inr (JStr (sender create))
      else content_item create ROOM_CREATOR)"

definition get_user_power_level :: "string \<Rightarrow> auth_map \<Rightarrow> int result" where
  "get_user_power_level user auth =
     (case get_power_level_event auth of
        Some pl \<Rightarrow>
          bindR (py_get (content_get pl ''users'' (JObj [])) user JNull) (\<lambda>lvl.
            let level = (if lvl = JNull then content_get pl ''users_default'' (JInt 0) else lvl)
            in if level = JNull then Inr 0 else py_int level)
      | None \<Rightarrow>
          (case auth (Create, '''') of
             Some create \<Rightarrow> bindR (room_creator create) (\<lambda>c. Inr (if c = JStr user then 100 else 0))
           | None \<Rightarrow> Inr 0))"

definition get_named_level :: "auth_map \<Rightarrow> string \<Rightarrow> int \<Rightarrow> int result" where
  "get_named_level auth name dflt =
     (case get_power_level_event auth of
        None \<Rightarrow> Inr dflt
      | Some pl \<Rightarrow>
          (let level = content_get pl name JNull
           in if level \<noteq> JNull then py_int level else Inr dflt))"

definition get_send_level :: "string \<Rightarrow> string option \<Rightarrow> event option \<Rightarrow> int result" where
  "get_send_level etype skey pl_event =
     (let pl_get = (\<lambda>k dflt. case pl_event of None \<Rightarrow> dflt | Some pl \<Rightarrow> content_get pl k dflt)
      in bindR (py_get (pl_get ''events'' (JObj [])) etype JNull) (\<lambda>lvl.
           let send_level =
             (if lvl = JNull
              then (if skey \<noteq> None then pl_get ''state_default'' (JInt 50)
                    else pl_get ''events_default'' (JInt 0))
              else lvl)
           in py_int send_level))"

section \<open>Room state\<close>

definition can_federate :: "auth_map \<Rightarrow> bool" where
  "can_federate auth =
     (case auth (Create, '''') of
        None \<Rightarrow> False
      | Some create \<Rightarrow> content_get create FEDERATE (JBool True) = JBool True)"

definition check_joined_room :: "event option \<Rightarrow> unit result" where
  "check_joined_room m =
     (case m of
        None \<Rightarrow> Inl (AuthError 403)
      | Some e \<Rightarrow> bindR (membership e) (\<lambda>x. guardR (x = JOIN) (AuthError 403)))"

definition check_event_sender_in_room :: "event \<Rightarrow> auth_map \<Rightarrow> unit result" where
  "check_event_sender_in_room e auth = check_joined_room (auth (Member, user_id e))"

definition can_send_event :: "event \<Rightarrow> auth_map \<Rightarrow> bool result" where
  "can_send_event e auth =
     bindR (get_send_level (ev_type e) (state_key_field e) (get_power_level_event auth)) (\<lambda>send_level.
     bindR (get_user_power_level (user_id e) auth) (\<lambda>user_level.
       if user_level < send_level then Inl (UnstableSpecAuthError 403 INSUFFICIENT_POWER)
       else (case state_key_field e of
               None \<Rightarrow> Inr True
             | Some k \<Rightarrow>
                 if prefix ''@'' k \<and> k \<noteq> user_id e then Inl (AuthError 403) else Inr True)))"

definition check_redaction :: "room_version \<Rightarrow> event \<Rightarrow> auth_map \<Rightarrow> (bool \<times> event) result" where
  "check_redaction rv e auth =
     bindR (get_user_power_level (user_id e) auth) (\<lambda>user_level.
     bindR (get_named_level auth ''redact'' 50) (\<lambda>redact_level.
       if user_level \<ge> redact_level then Inr (False, e)
       else if event_format rv = ROOM_V1_V2 then
         bindR (get_domain_from_id (ev_id e)) (\<lambda>redacter_domain.
           (case redacts e of
              JStr target \<Rightarrow>
                bindR (get_domain_from_id target) (\<lambda>redactee_domain.
                  if redacter_domain = redactee_domain then Inr (True, e)
                  else Inl (AuthError 403))
            | _ \<Rightarrow> Inr (False, e)))
       else Inr (True, e\<lparr>recheck_redaction := True\<rparr>)))"

section \<open>Changes of power levels\<close>

definition validate_user_levels :: "(string \<times> json) list \<Rightarrow> unit result" where
  "validate_user_levels users =
     forR users (\<lambda>(k, v).
       bindR (guardR (ok (from_string UserID k)) (SynapseError 400)) (\<lambda>_.
       guardR (ok (py_int v)) (SynapseError 400)))"

definition level_names :: "string list" where
  "level_names = [''users_default'', ''events_default'', ''state_default'', ''ban'', ''redact'',
     ''kick'', ''invite'']"

definition level_dicts :: "string list" where
  "level_dicts = [''events'', ''notifications'', ''users'']"

definition check_int_levels :: "(string \<times> json) list \<Rightarrow> unit result" where
  "check_int_levels c =
     forR c (\<lambda>(k, v).
       bindR (guardR (k \<in> set level_names \<longrightarrow> is_int v) (SynapseError 400)) (\<lambda>_.
       guardR (k \<in> set level_dicts \<longrightarrow>
                 (case v of JObj d \<Rightarrow> list_all (\<lambda>kv. is_int (snd kv)) d | _ \<Rightarrow> False))
         (SynapseError 400)))"

text \<open>\<open>set(list(old) + list(new))\<close>, in the order of the lists (a set has no order of its own).\<close>

definition keys_of_both :: "json \<Rightarrow> json \<Rightarrow> json list result" where
  "keys_of_both old new =
     bindR (py_list old) (\<lambda>xs. bindR (py_list new) (\<lambda>ys.
       if list_all hashable (xs @ ys) then Inr (remdups (xs @ ys)) else Inl TypeErr))"

definition dir_keys :: "event \<Rightarrow> event \<Rightarrow> string \<Rightarrow> (json \<times> string option) list result" where
  "dir_keys current e dir =
     bindR (keys_of_both (content_get current dir (JObj [])) (content_get e dir (JObj []))) (\<lambda>ks.
       Inr (map (\<lambda>k. (k, Some dir)) ks))"

definition levels_to_check :: "room_version \<Rightarrow> event \<Rightarrow> event \<Rightarrow> (json \<times> string option) list result" where
  "levels_to_check rv current e =
     bindR (dir_keys current e ''users'') (\<lambda>us.
     bindR (dir_keys current e ''events'') (\<lambda>es.
     bindR (if limit_notifications_power_levels rv then dir_keys current e ''notifications''
            else Inr []) (\<lambda>ns.
       Inr (map (\<lambda>n. (JStr n, None)) level_names @ us @ es @ ns))))"

definition level_at :: "event \<Rightarrow> json \<times> string option \<Rightarrow> int option result" where
  "level_at e ld =
     (let loc = (case snd ld of None \<Rightarrow> JObj (content e) | Some d \<Rightarrow> content_get e d (JObj []))
      in bindR (py_in (fst ld) loc) (\<lambda>present.
           if present then bindR (py_getitem loc (fst ld)) (\<lambda>v. bindR (py_int v) (\<lambda>i. Inr (Some i)))
           else Inr None))"

definition level_change_allowed ::
  "string \<Rightarrow> int \<Rightarrow> json \<times> string option \<Rightarrow> int option \<Rightarrow> int option \<Rightarrow> unit result" where
  "level_change_allowed user user_level ld old_level new_level =
     (if new_level \<noteq> None \<and> old_level \<noteq> None \<and> new_level = old_level then Inr ()
      else if snd ld = Some ''users'' \<and> fst ld \<noteq> JStr user \<and> old_level = Some user_level
        then Inl (AuthError 403)
      else if (case old_level of None \<Rightarrow> False | Some l \<Rightarrow> l > user_level)
            \<or> (case new_level of None \<Rightarrow> False | Some l \<Rightarrow> l > user_level)
        then Inl (AuthError 403)
      else Inr ())"

definition check_power_levels :: "room_version \<Rightarrow> event \<Rightarrow> auth_map \<Rightarrow> unit result" where
  "check_power_levels rv e auth =
     bindR (py_items (content_get e ''users'' (JObj []))) (\<lambda>user_list.
     bindR (validate_user_levels user_list) (\<lambda>_.
     bindR (if ev_type e = PowerLevels \<and> enforce_int_power_levels rv
            then check_int_levels (content e) else Inr ()) (\<lambda>_.
     bindR (state_key e) (\<lambda>skey.
       (case auth (ev_type e, skey) of
          None \<Rightarrow> Inr ()
        | Some current \<Rightarrow>
            bindR (get_user_power_level (user_id e) auth) (\<lambda>user_level.
            bindR (levels_to_check rv current e) (\<lambda>lds.
              forR lds (\<lambda>ld.
                bindR (level_at current ld) (\<lambda>old_level.
                bindR (level_at e ld) (\<lambda>new_level.
                  level_change_allowed (user_id e) user_level ld old_level new_level))))))))))"

section \<open>Third party invites\<close>

definition get_public_keys :: "event \<Rightarrow> json list result" where
  "get_public_keys invite =
     (let first =
        (if content_has invite ''public_key''
         then [JObj ((''public_key'', content_get invite ''public_key'' JNull) #
                 (if content_has invite ''key_validity_url''
                  then [(''key_validity_url'', content_get invite ''key_validity_url'' JNull)] else []))]
         else [])
      in bindR (py_list (content_get invite ''public_keys'' (JList []))) (\<lambda>more. Inr (first @ more)))"

fun try_key_names :: "verifier \<Rightarrow> json \<Rightarrow> json \<Rightarrow> string \<Rightarrow> string list \<Rightarrow> bool result" where
  "try_key_names verify pk signed server [] = Inr False"
| "try_key_names verify pk signed server (n # ns) =
     (if \<not> prefix ''ed25519:'' n then try_key_names verify pk signed server ns
      else bindR (verify n pk signed server) (\<lambda>_. Inr True))"

fun try_servers :: "verifier \<Rightarrow> json \<Rightarrow> json \<Rightarrow> (string \<times> json) list \<Rightarrow> bool result" where
  "try_servers verify pk signed [] = Inr False"
| "try_servers verify pk signed ((server, block) # rest) =
     bindR (py_items block) (\<lambda>sigs.
     bindR (try_key_names verify pk signed server (map fst sigs)) (\<lambda>found.
       if found then Inr True else try_servers verify pk signed rest))"

fun try_public_keys :: "verifier \<Rightarrow> json \<Rightarrow> json \<Rightarrow> json list \<Rightarrow> bool result" where
  "try_public_keys verify signed sigs [] = Inr False"
| "try_public_keys verify signed sigs (pko # rest) =
     bindR (py_item pko ''public_key'') (\<lambda>pk.
       (case bindR (py_items sigs) (try_servers verify pk signed) of
          Inr True \<Rightarrow> Inr True
        | Inr False \<Rightarrow> try_public_keys verify signed sigs rest
        | Inl KeyErr \<Rightarrow> try_public_keys verify signed sigs rest
        | Inl SignatureVerifyErr \<Rightarrow> try_public_keys verify signed sigs rest
        | Inl err \<Rightarrow> Inl err))"

definition verify_third_party_invite :: "verifier \<Rightarrow> event \<Rightarrow> auth_map \<Rightarrow> bool result" where
  "verify_third_party_invite verify e auth =
     (case map_of (content e) ''third_party_invite'' of
        Some (JObj tpi) \<Rightarrow>
          (case map_of tpi ''signed'' of
             Some (JObj sd) \<Rightarrow>
               (case (map_of sd ''mxid'', map_of sd ''token'', map_of sd ''signatures'') of
                  (Some mxid, Some token, Some sigs) \<Rightarrow>
                    bindR (key_of token) (\<lambda>tok.
                      (case (case tok of None \<Rightarrow> None | Some t \<Rightarrow> auth (ThirdPartyInvite, t)) of
                         None \<Rightarrow> Inr False
                       | Some invite \<Rightarrow>
                           if sender invite \<noteq> sender e then Inr False
                           else if user_id e \<noteq> user_id invite then Inr False
                           else bindR (state_key e) (\<lambda>skey.
                             if mxid \<noteq> JStr skey then Inr False
                             else bindR (get_public_keys invite) (\<lambda>pks.
                               try_public_keys verify (JObj sd) sigs pks))))
                | _ \<Rightarrow> Inr False)
           | _ \<Rightarrow> Inr False)
      | _ \<Rightarrow> Inr False)"

section \<open>Membership changes\<close>

text \<open>What \<open>_is_membership_change_allowed\<close> gathers before it decides.\<close>

record member_ctx =
  mc_membership :: json
  target_user_id :: string
  caller_in_room :: bool
  caller_invited :: bool
  caller_knocked :: bool
  target_in_room :: bool
  target_banned :: bool
  join_rule :: json
  user_level :: int
  target_level :: int
  invite_level :: int
  ban_level :: int

definition member_is :: "auth_map \<Rightarrow> string \<Rightarrow> json \<Rightarrow> bool result" where
  "member_is auth who m =
     (case auth (Member, who) of
        None \<Rightarrow> Inr False
      | Some e \<Rightarrow> bindR (membership e) (\<lambda>x. Inr (x = m)))"

definition get_join_rule :: "auth_map \<Rightarrow> json" where
  "get_join_rule auth =
     (case auth (JoinRules, '''') of
        None \<Rightarrow> JR_INVITE
      | Some e \<Rightarrow> content_get e ''join_rule'' JR_INVITE)"

definition is_creator_join :: "room_version \<Rightarrow> event \<Rightarrow> auth_map \<Rightarrow> json \<Rightarrow> bool result" where
  "is_creator_join rv e auth m =
     (if length (prev_event_ids e) = 1 \<and> m = JOIN then
        (case auth (Create, '''') of
           None \<Rightarrow> Inr False
         | Some create \<Rightarrow>
             if prev_event_ids e ! 0 = ev_id create then
               bindR (if implicit_room_creator rv then Inr (JStr (sender create))
                      else content_item create ROOM_CREATOR) (\<lambda>creator.
               bindR (state_key e) (\<lambda>skey. Inr (creator = JStr skey)))
             else Inr False)
      else Inr False)"

definition membership_context ::
  "room_version \<Rightarrow> event \<Rightarrow> auth_map \<Rightarrow> json \<Rightarrow> string \<Rightarrow> member_ctx result" where
  "membership_context rv e auth m target =
     bindR (member_is auth (user_id e) JOIN) (\<lambda>c_in.
     bindR (member_is auth (user_id e) INVITE) (\<lambda>c_inv.
     bindR (if knock_join_rule rv then member_is auth (user_id e) KNOCK else Inr False) (\<lambda>c_knock.
     bindR (member_is auth target JOIN) (\<lambda>t_in.
     bindR (member_is auth target BAN) (\<lambda>t_ban.
     bindR (get_user_power_level (user_id e) auth) (\<lambda>u_lvl.
     bindR (get_user_power_level target auth) (\<lambda>t_lvl.
     bindR (get_named_level auth ''invite'' 0) (\<lambda>i_lvl.
     bindR (get_named_level auth ''ban'' 50) (\<lambda>b_lvl.
       Inr \<lparr>mc_membership = m, target_user_id = target, caller_in_room = c_in,
            caller_invited = c_inv, caller_knocked = c_knock, target_in_room = t_in,
            target_banned = t_ban, join_rule = get_join_rule auth, user_level = u_lvl,
            target_level = t_lvl, invite_level = i_lvl, ban_level = b_lvl\<rparr>)))))))))"

definition check_invite :: "member_ctx \<Rightarrow> unit result" where
  "check_invite c =
     (if target_banned c then Inl (AuthError 403)
      else if target_in_room c then Inl (UnstableSpecAuthError 403 ALREADY_JOINED)
      else if user_level c < invite_level c then Inl (UnstableSpecAuthError 403 INSUFFICIENT_POWER)
      else Inr ())"

text \<open>The authorising user of a restricted join: in the room, and allowed to invite.\<close>

definition check_authorising_user :: "event \<Rightarrow> auth_map \<Rightarrow> member_ctx \<Rightarrow> unit result" where
  "check_authorising_user e auth c =
     (let authorising_user = content_get e AUTHORISING_USER JNull
      in if authorising_user = JNull then Inl (AuthError 403)
         else bindR (key_of authorising_user) (\<lambda>key.
           (case key of
              None \<Rightarrow> check_joined_room None
            | Some u \<Rightarrow>
                bindR (check_joined_room (auth (Member, u))) (\<lambda>_.
                bindR (get_user_power_level u auth) (\<lambda>lvl.
                  guardR (\<not> lvl < invite_level c) (AuthError 403))))))"

definition check_join :: "room_version \<Rightarrow> event \<Rightarrow> auth_map \<Rightarrow> member_ctx \<Rightarrow> unit result" where
  "check_join rv e auth c =
     (if user_id e \<noteq> target_user_id c then Inl (AuthError 403)
      else if target_banned c then Inl (AuthError 403)
      else if join_rule c = JR_PUBLIC then Inr ()
      else if restricted_join_rule rv \<and> join_rule c = JR_RESTRICTED
            \<or> knock_restricted_join_rule rv \<and> join_rule c = JR_KNOCK_RESTRICTED then
        (if \<not> caller_in_room c \<and> \<not> caller_invited c then check_authorising_user e auth c
         else Inr ())
      else if join_rule c = JR_INVITE
            \<or> knock_join_rule rv \<and> join_rule c = JR_KNOCK
            \<or> knock_restricted_join_rule rv \<and> join_rule c = JR_KNOCK_RESTRICTED then
        (if \<not> caller_in_room c \<and> \<not> caller_invited c then Inl (AuthError 403) else Inr ())
      else Inl (AuthError 403))"

definition check_leave :: "event \<Rightarrow> auth_map \<Rightarrow> member_ctx \<Rightarrow> unit result" where
  "check_leave e auth c =
     (if target_banned c \<and> user_level c < ban_level c
        then Inl (UnstableSpecAuthError 403 INSUFFICIENT_POWER)
      else if target_user_id c \<noteq> user_id e then
        bindR (get_named_level auth ''kick'' 50) (\<lambda>kick_level.
          if user_level c < kick_level \<or> user_level c \<le> target_level c
          then Inl (UnstableSpecAuthError 403 INSUFFICIENT_POWER) else Inr ())
      else Inr ())"

definition check_ban :: "member_ctx \<Rightarrow> unit result" where
  "check_ban c =
     (if user_level c < ban_level c then Inl (UnstableSpecAuthError 403 INSUFFICIENT_POWER)
      else if user_level c \<le> target_level c then Inl (UnstableSpecAuthError 403 INSUFFICIENT_POWER)
      else Inr ())"

definition check_knock :: "room_version \<Rightarrow> event \<Rightarrow> member_ctx \<Rightarrow> unit result" where
  "check_knock rv e c =
     (if join_rule c \<noteq> JR_KNOCK
        \<and> (\<not> knock_restricted_join_rule rv \<or> join_rule c \<noteq> JR_KNOCK_RESTRICTED)
        then Inl (AuthError 403)
      else if target_user_id c \<noteq> user_id e then Inl (AuthError 403)
      else if target_in_room c then Inl (UnstableSpecAuthError 403 ALREADY_JOINED)
      else if caller_invited c then Inl (AuthError 403)
      else if target_banned c then Inl (AuthError 403)
      else Inr ())"

definition check_membership_rules ::
  "verifier \<Rightarrow> room_version \<Rightarrow> event \<Rightarrow> auth_map \<Rightarrow> member_ctx \<Rightarrow> unit result" where
  "check_membership_rules verify rv e auth c =
     (let m = mc_membership c
      in if m = INVITE \<and> content_has e ''third_party_invite'' then
           bindR (verify_third_party_invite verify e auth) (\<lambda>verified.
             if \<not> verified then Inl (AuthError 403)
             else if target_banned c then Inl (AuthError 403)
             else Inr ())
         else if m \<noteq> JOIN \<and> m \<noteq> KNOCK
           \<and> ((caller_invited c \<or> caller_knocked c) \<and> m = LEAVE \<and> target_user_id c = user_id e)
           then Inr ()
         else if m \<noteq> JOIN \<and> m \<noteq> KNOCK \<and> \<not> caller_in_room c
           then Inl (UnstableSpecAuthError 403 NOT_JOINED)
         else if m = INVITE then check_invite c
         else if m = JOIN then check_join rv e auth c
         else if m = LEAVE then check_leave e auth c
         else if m = BAN then check_ban c
         else if knock_join_rule rv \<and> m = KNOCK then check_knock rv e c
         else Inl (AuthError 500))"

definition is_membership_change_allowed ::
  "verifier \<Rightarrow> room_version \<Rightarrow> event \<Rightarrow> auth_map \<Rightarrow> unit result" where
  "is_membership_change_allowed verify rv e auth =
     bindR (content_item e ''membership'') (\<lambda>m.
     bindR (is_creator_join rv e auth m) (\<lambda>creator_join.
       if creator_join then Inr ()
       else
         bindR (state_key e) (\<lambda>target.
         bindR (get_domain_from_id (room_id e)) (\<lambda>creating_domain.
         bindR (get_domain_from_id target) (\<lambda>target_domain.
           if creating_domain \<noteq> target_domain \<and> \<not> can_federate auth then Inl (AuthError 403)
           else
             bindR (membership_context rv e auth m target) (\<lambda>c.
               check_membership_rules verify rv e auth c))))))"

section \<open>The state dependent rules\<close>

definition auth_dict_of :: "event list \<Rightarrow> auth_map result" where
  "auth_dict_of evs = foldR (\<lambda>m e. bindR (state_pos e) (\<lambda>p. Inr (m(p \<mapsto> e)))) Map.empty evs"

definition check_aliases :: "event \<Rightarrow> unit result" where
  "check_aliases e =
     (case state_key_field e of
        None \<Rightarrow> Inl (AuthError 403)
      | Some k \<Rightarrow>
          if k = '''' then Inl (AuthError 403)
          else bindR (get_domain_from_id (sender e)) (\<lambda>sender_domain.
            if k \<noteq> sender_domain then Inl (AuthError 403) else Inr ()))"

text \<open>The body of \<open>check_state_dependent_auth_rules\<close> after the auth dict is built.\<close>

definition check_against_state :: "verifier \<Rightarrow> event \<Rightarrow> auth_map \<Rightarrow> event result" where
  "check_against_state verify e auth =
     bindR (get_domain_from_id (room_id e)) (\<lambda>creating_domain.
     bindR (get_domain_from_id (sender e)) (\<lambda>originating_domain.
       if creating_domain \<noteq> originating_domain \<and> \<not> can_federate auth then Inl (AuthError 403)
       else if ev_type e = Aliases \<and> special_case_aliases_auth (event_room_version e)
         then bindR (check_aliases e) (\<lambda>_. Inr e)
       else if ev_type e = Member
         then bindR (is_membership_change_allowed verify (event_room_version e) e auth) (\<lambda>_. Inr e)
       else
         bindR (check_event_sender_in_room e auth) (\<lambda>_.
           if ev_type e = ThirdPartyInvite then
             bindR (get_user_power_level (user_id e) auth) (\<lambda>user_lvl.
             bindR (get_named_level auth ''invite'' 0) (\<lambda>invite_lvl.
               if user_lvl < invite_lvl then Inl (UnstableSpecAuthError 403 INSUFFICIENT_POWER)
               else Inr e))
           else
             bindR (can_send_event e auth) (\<lambda>_.
             bindR (if ev_type e = PowerLevels then check_power_levels (event_room_version e) e auth
                    else Inr ()) (\<lambda>_.
               if ev_type e = Redaction
               then bindR (check_redaction (event_room_version e) e auth) (\<lambda>be. Inr (snd be))
               else Inr e)))))"

definition check_state_dependent_auth_rules :: "verifier \<Rightarrow> event \<Rightarrow> event list \<Rightarrow> event result" where
  "check_state_dependent_auth_rules verify e auth_events =
     (if ev_type e = Create then Inr e
      else bindR (auth_dict_of auth_events) (check_against_state verify e))"

section \<open>The auth event selection\<close>

definition third_party_token :: "event \<Rightarrow> json result" where
  "third_party_token e =
     bindR (content_item e ''third_party_invite'') (\<lambda>tpi.
     bindR (py_item tpi ''signed'') (\<lambda>sd. py_item sd ''token''))"

definition opt_key :: "string \<Rightarrow> string option \<Rightarrow> state_pos list" where
  "opt_key t k = (case k of None \<Rightarrow> [] | Some s \<Rightarrow> [(t, s)])"

text \<open>
  The keys in the order the source adds them.  A token or authorising user that is not a string
  (but hashable) makes a key no state event has, so it is left out.
\<close>

definition auth_types_for_event :: "room_version \<Rightarrow> event \<Rightarrow> state_pos list result" where
  "auth_types_for_event rv e =
     (if ev_type e = Create then Inr []
      else
        (let base = [(PowerLevels, ''''), (Member, sender e), (Create, '''')]
         in if ev_type e = Member then
              bindR (content_item e ''membership'') (\<lambda>m.
              bindR (state_key e) (\<lambda>skey.
              bindR (if m = INVITE \<and> content_has e ''third_party_invite''
                     then bindR (third_party_token e) key_of else Inr None) (\<lambda>token.
              bindR (if restricted_join_rule rv \<and> m = JOIN \<and> content_has e AUTHORISING_USER
                     then key_of (content_get e AUTHORISING_USER JNull) else Inr None) (\<lambda>authoriser.
                Inr (base @ (if m \<in> {JOIN, INVITE, KNOCK} then [(JoinRules, '''')] else [])
                     @ [(Member, skey)]
                     @ opt_key ThirdPartyInvite token @ opt_key Member authoriser)))))
            else Inr base))"

end
