(* ===== verification/Event_Checks.thy ===== *)
theory Event_Checks
  imports Event_Auth
begin

text \<open>
  The checks of \<open>event_auth.py\<close> that do not look at the room state: size limits and
  signatures of a PDU, the rules for create events, and the rules about the auth events an event
  cites.  The datastore is an argument: \<open>get_events\<close> returns the events it has of a list of ids.
\<close>

section \<open>Size limits\<close>

definition LENIENT_EVENT_BYTE_LIMITS_ROOM_VERSIONS :: "room_version list" where
  "LENIENT_EVENT_BYTE_LIMITS_ROOM_VERSIONS =
     [RV_V1, RV_V2, RV_V3, RV_V4, RV_V5, RV_V6, RV_V7, RV_V8, RV_V9, RV_V10, RV_MSC1767v10]"

definition too_long :: "(string \<Rightarrow> nat) \<Rightarrow> string \<Rightarrow> bool" where
  "too_long len s \<longleftrightarrow> len s > 255"

text \<open>The five fields that are measured, in the order of the source; a missing state key is not.\<close>

definition limited_fields :: "event \<Rightarrow> string list" where
  "limited_fields e =
     [user_id e, room_id e] @ (case state_key_field e of None \<Rightarrow> [] | Some k \<Rightarrow> [k])
     @ [ev_type e, ev_id e]"

definition check_size_limits :: "(event \<Rightarrow> nat) \<Rightarrow> event \<Rightarrow> unit result" where
  "check_size_limits pdu_len e =
     (if pdu_len e > MAX_PDU_SIZE then Inl (EventSizeError True)
      else if list_ex (too_long str_len) (limited_fields e) then Inl (EventSizeError True)
      else if list_ex (too_long length) (limited_fields e)
        then Inl (EventSizeError (event_room_version e \<notin> set LENIENT_EVENT_BYTE_LIMITS_ROOM_VERSIONS))
      else Inr ())"

section \<open>Signatures\<close>

definition member_change :: "event \<Rightarrow> json \<Rightarrow> bool result" where
  "member_change e m =
     (if ev_type e = Member then bindR (membership e) (\<lambda>x. Inr (x = m)) else Inr False)"

definition authoriser_domain :: "event \<Rightarrow> string result" where
  "authoriser_domain e =
     (case content_get e AUTHORISING_USER JNull of
        JStr u \<Rightarrow> get_domain_from_id u
      | _ \<Rightarrow> Inl AttributeErr)"

definition validate_event_for_room_version :: "(event \<Rightarrow> nat) \<Rightarrow> event \<Rightarrow> unit result" where
  "validate_event_for_room_version pdu_len e =
     bindR (check_size_limits pdu_len e) (\<lambda>_.
     bindR (get_domain_from_id (sender e)) (\<lambda>sender_domain.
     bindR (member_change e INVITE) (\<lambda>is_invite.
     bindR (guardR (signed_by e sender_domain
                    \<or> is_invite \<and> content_has e ''third_party_invite'') (AuthError 403)) (\<lambda>_.
     bindR (if event_format (event_room_version e) = ROOM_V1_V2
            then bindR (get_domain_from_id (ev_id e)) (\<lambda>event_id_domain.
                   guardR (signed_by e event_id_domain) (AuthError 403))
            else Inr ()) (\<lambda>_.
     bindR (if restricted_join_rule (event_room_version e) then member_change e JOIN
            else Inr False) (\<lambda>is_join.
       if is_join \<and> content_has e AUTHORISING_USER
       then bindR (authoriser_domain e) (\<lambda>d. guardR (signed_by e d) (AuthError 403))
       else Inr ()))))))"

section \<open>Create events\<close>

definition check_create :: "event \<Rightarrow> unit result" where
  "check_create e =
     bindR (guardR (ev_type e = Create) AssertionErr) (\<lambda>_.
     bindR (guardR (prev_event_ids e = []) (AuthError 403)) (\<lambda>_.
     bindR (get_domain_from_id (sender e)) (\<lambda>sender_domain.
     bindR (get_domain_from_id (room_id e)) (\<lambda>room_id_domain.
     bindR (guardR (room_id_domain = sender_domain) (AuthError 403)) (\<lambda>_.
     bindR (key_of (content_get e ''room_version'' (JStr ''1''))) (\<lambda>version.
     bindR (guardR (case version of None \<Rightarrow> False | Some v \<Rightarrow> map_of KNOWN_ROOM_VERSIONS v \<noteq> None)
              (AuthError 403)) (\<lambda>_.
       guardR (implicit_room_creator (event_room_version e) \<or> content_has e ROOM_CREATOR)
         (AuthError 403))))))))"

section \<open>The cited auth events\<close>

type_synonym event_dict = "(string \<times> event) list"

definition fetch_auth_events ::
  "(string list \<Rightarrow> event_dict) \<Rightarrow> event \<Rightarrow> event_dict option \<Rightarrow> event_dict" where
  "fetch_auth_events get_events e batched =
     (case batched of
        Some (b # bs) \<Rightarrow>
          (let needed = filter (\<lambda>i. i \<notin> set (map fst (b # bs))) (remdups (auth_event_ids e))
           in if needed \<noteq> [] then dict_update (b # bs) (get_events needed) else b # bs)
      | _ \<Rightarrow> get_events (auth_event_ids e))"

definition is_rejected :: "event \<Rightarrow> bool" where
  "is_rejected e = (case rejected_reason e of None \<Rightarrow> False | Some r \<Rightarrow> r \<noteq> [])"

definition check_auth_event ::
  "event \<Rightarrow> event_dict \<Rightarrow> state_pos list \<Rightarrow> string state_map \<Rightarrow> string \<Rightarrow> string state_map result" where
  "check_auth_event e auth_events expected auth_dict auth_event_id =
     (case map_of auth_events auth_event_id of
        None \<Rightarrow> Inl RuntimeErr
      | Some ae \<Rightarrow>
          bindR (guardR (room_id ae = room_id e) (AuthError 403)) (\<lambda>_.
          bindR (state_pos ae) (\<lambda>k.
          bindR (guardR (auth_dict k = None) (AuthError 403)) (\<lambda>_.
          bindR (guardR (k \<in> set expected) (AuthError 403)) (\<lambda>_.
          bindR (guardR (\<not> is_rejected ae) (AuthError 403)) (\<lambda>_.
            Inr (auth_dict(k \<mapsto> auth_event_id))))))))"

definition check_state_independent_auth_rules ::
  "(string list \<Rightarrow> event_dict) \<Rightarrow> event \<Rightarrow> event_dict option \<Rightarrow> unit result" where
  "check_state_independent_auth_rules get_events e batched =
     (if ev_type e = Create then check_create e
      else
        (let auth_events = fetch_auth_events get_events e batched
         in bindR (auth_types_for_event (event_room_version e) e) (\<lambda>expected.
            bindR (foldR (check_auth_event e auth_events expected) Map.empty (auth_event_ids e))
              (\<lambda>auth_dict.
                guardR (case auth_dict (Create, '''') of None \<Rightarrow> False | Some i \<Rightarrow> i \<noteq> [])
                  (AuthError 403)))))"

end
