(* ===== verification/Sample_Room.thy ===== *)
theory Sample_Room
  imports Event_Checks
begin

text \<open>
  A small room (version 10) at which the properties are evaluated: Alice created it and has
  level 100, Bob is a joined moderator with level 50, Dave is a joined member, Carol is banned
  and Erin is invited.
\<close>

definition sample_event ::
  "string \<Rightarrow> string \<Rightarrow> string \<Rightarrow> string option \<Rightarrow> (string \<times> json) list \<Rightarrow> string list \<Rightarrow> event" where
  "sample_event i t s k c auths =
     \<lparr>ev_id = i, ev_type = t, room_id = ''!r:s'', sender = s, state_key_field = k, content = c,
      redacts_field = None, depth = 1, origin_server_ts = 1, signatures = [(''s'', [(''k'', ''x'')])],
      prev_event_ids = [''$p''], auth_event_ids = auths, event_room_version = RV_V10,
      rejected_reason = None, recheck_redaction = False\<rparr>"

definition member_event :: "string \<Rightarrow> string \<Rightarrow> string \<Rightarrow> json \<Rightarrow> event" where
  "member_event i s t m = sample_event i Member s (Some t) [(''membership'', m)] [''$create'']"

definition ex_create :: event where
  "ex_create = sample_event ''$create'' Create ''@a:s'' (Some []) [(''creator'', JStr ''@a:s'')] []"

definition ex_power :: event where
  "ex_power = sample_event ''$power'' PowerLevels ''@a:s'' (Some [])
     [(''users'', JObj [(''@a:s'', JInt 100), (''@b:s'', JInt 50)]), (''users_default'', JInt 0)]
     [''$create'', ''$a'']"

definition ex_state :: "event list" where
  "ex_state =
     [ex_create, member_event ''$a'' ''@a:s'' ''@a:s'' JOIN, ex_power,
      sample_event ''$jr'' JoinRules ''@a:s'' (Some []) [(''join_rule'', JR_INVITE)] [''$create''],
      member_event ''$b'' ''@b:s'' ''@b:s'' JOIN, member_event ''$d'' ''@d:s'' ''@d:s'' JOIN,
      member_event ''$ban'' ''@a:s'' ''@c:s'' BAN, member_event ''$inv'' ''@a:s'' ''@e:s'' INVITE]"

definition ex_auth :: auth_map where
  "ex_auth = map_of (map (\<lambda>e. ((ev_type e, the (state_key_field e)), e)) ex_state)"

text \<open>No third party signature verifies in the sample room.\<close>

definition no_verify :: verifier where
  "no_verify n pk sd server = Inl SignatureVerifyErr"

lemmas sample_defs = ex_auth_def ex_state_def ex_create_def ex_power_def member_event_def
  sample_event_def

text \<open>The power level event Bob may send: he gives Dave level 25.\<close>

definition ex_bob_power :: event where
  "ex_bob_power = sample_event ''$power2'' PowerLevels ''@b:s'' (Some [])
     [(''users'', JObj [(''@a:s'', JInt 100), (''@b:s'', JInt 50), (''@d:s'', JInt 25)]),
      (''users_default'', JInt 0)]
     [''$create'', ''$b'', ''$power'']"

lemma ex_bob_power_ok: "check_against_state no_verify ex_bob_power ex_auth = Inr ex_bob_power"
  by code_simp

end
