(* ===== verification/Event_Auth_Props.thy ===== *)
theory Event_Auth_Props
  imports Sample_Room
begin

text \<open>
  What the authorisation rules guarantee: the auth event selection covers every piece of state
  the rules read, nobody raises power beyond their own, bans hold, and events only enter a
  room from its members.
\<close>

section \<open>What the rules read\<close>

definition same_at :: "state_pos \<Rightarrow> auth_map \<Rightarrow> auth_map \<Rightarrow> bool" where
  "same_at k a b \<longleftrightarrow> a k = b k"

lemma same_atD: "same_at k a b \<Longrightarrow> a k = b k"
  by (simp add: same_at_def)

text \<open>The reads of the power level helpers: the power level event and the create event.\<close>

lemma get_power_level_event_cong:
  "same_at (PowerLevels, []) auth auth' \<Longrightarrow> get_power_level_event auth = get_power_level_event auth'"
  by (simp add: get_power_level_event_def same_at_def)

lemma get_user_power_level_cong:
  assumes "same_at (PowerLevels, []) auth auth'" "same_at (Create, []) auth auth'"
  shows "get_user_power_level u auth = get_user_power_level u auth'"
  unfolding get_user_power_level_def get_power_level_event_cong [OF assms(1)] same_atD [OF assms(2)] ..

lemma get_named_level_cong:
  assumes "same_at (PowerLevels, []) auth auth'"
  shows "get_named_level auth n d = get_named_level auth' n d"
  unfolding get_named_level_def get_power_level_event_cong [OF assms] ..

lemma can_federate_cong: "same_at (Create, []) auth auth' \<Longrightarrow> can_federate auth = can_federate auth'"
  by (simp add: can_federate_def same_at_def)

lemma member_is_cong:
  "same_at (Member, u) auth auth' \<Longrightarrow> member_is auth u m = member_is auth' u m"
  by (simp add: member_is_def same_at_def)

lemmas level_congs = get_power_level_event_cong get_user_power_level_cong get_named_level_cong
  can_federate_cong

lemma is_creator_join_cong:
  "same_at (Create, []) auth auth' \<Longrightarrow> is_creator_join rv e auth m = is_creator_join rv e auth' m"
  by (simp add: is_creator_join_def same_at_def)

lemma can_send_event_cong:
  assumes "same_at (PowerLevels, []) auth auth'" "same_at (Create, []) auth auth'"
  shows "can_send_event e auth = can_send_event e auth'"
  unfolding can_send_event_def get_power_level_event_cong [OF assms(1)]
    get_user_power_level_cong [OF assms] ..

lemma check_redaction_cong:
  assumes "same_at (PowerLevels, []) auth auth'" "same_at (Create, []) auth auth'"
  shows "check_redaction rv e auth = check_redaction rv e auth'"
  unfolding check_redaction_def get_named_level_cong [OF assms(1)]
    get_user_power_level_cong [OF assms] ..

lemma check_power_levels_cong:
  assumes "same_at (PowerLevels, []) auth auth'" "same_at (Create, []) auth auth'"
    and "\<And>k. state_key_field e = Some k \<Longrightarrow> same_at (ev_type e, k) auth auth'"
  shows "check_power_levels rv e auth = check_power_levels rv e auth'"
  unfolding check_power_levels_def get_user_power_level_cong [OF assms(1,2)]
  using assms(3) by (cases "state_key_field e") (auto simp: state_key_def same_at_def)

lemma check_leave_cong:
  assumes "same_at (PowerLevels, []) auth auth'"
  shows "check_leave e auth c = check_leave e auth' c"
  unfolding check_leave_def get_named_level_cong [OF assms] ..

text \<open>The membership rules read the join rules for joins and knocks only.\<close>

lemma membership_context_join_rule:
  assumes "same_at (PowerLevels, []) auth auth'" "same_at (Create, []) auth auth'"
    and "same_at (Member, sender e) auth auth'" "same_at (Member, t) auth auth'"
  shows "membership_context rv e auth' m t =
    bindR (membership_context rv e auth m t) (\<lambda>c. Inr (c\<lparr>join_rule := get_join_rule auth'\<rparr>))"
proof -
  have bindR_assoc: "\<And>m f g. bindR (bindR m f) g = bindR m (\<lambda>x. bindR (f x) g)"
    by (rename_tac m f g, case_tac m) auto
  show ?thesis
    unfolding membership_context_def get_named_level_cong [OF assms(1)]
      get_user_power_level_cong [OF assms(1,2)] member_is_cong [OF assms(3)] member_is_cong [OF assms(4)]
    by (simp add: bindR_assoc)
qed

lemma membership_context_fields:
  assumes "membership_context rv e auth m t = Inr c"
  shows "mc_membership c = m" "target_user_id c = t" "join_rule c = get_join_rule auth"
    "member_is auth (sender e) JOIN = Inr (caller_in_room c)"
    "member_is auth (sender e) INVITE = Inr (caller_invited c)"
    "member_is auth t JOIN = Inr (target_in_room c)"
    "member_is auth t BAN = Inr (target_banned c)"
    "get_user_power_level (sender e) auth = Inr (user_level c)"
    "get_user_power_level t auth = Inr (target_level c)"
    "get_named_level auth ''invite'' 0 = Inr (invite_level c)"
    "get_named_level auth ''ban'' 50 = Inr (ban_level c)"
  using assms by (auto simp: membership_context_def bindR_Inr_iff)

lemma verify_third_party_invite_cong:
  assumes "\<And>t. third_party_token e = Inr (JStr t) \<Longrightarrow> same_at (ThirdPartyInvite, t) auth auth'"
  shows "verify_third_party_invite v e auth = verify_third_party_invite v e auth'"
proof (cases "\<exists>tpi sd mxid token sigs.
    map_of (content e) ''third_party_invite'' = Some (JObj tpi) \<and> map_of tpi ''signed'' = Some (JObj sd) \<and>
    map_of sd ''mxid'' = Some mxid \<and> map_of sd ''token'' = Some token \<and> map_of sd ''signatures'' = Some sigs")
  case True
  then obtain tpi sd mxid token sigs where
    eqs: "map_of (content e) ''third_party_invite'' = Some (JObj tpi)" "map_of tpi ''signed'' = Some (JObj sd)"
      "map_of sd ''mxid'' = Some mxid" "map_of sd ''token'' = Some token" "map_of sd ''signatures'' = Some sigs"
    by blast
  then have "third_party_token e = Inr token" by (simp add: third_party_token_def content_item_def)
  then show ?thesis using assms
    by (cases token) (simp_all add: verify_third_party_invite_def eqs key_of_def same_at_def)
next
  case False
  then show ?thesis
    unfolding verify_third_party_invite_def
    by (auto split: option.splits json.splits prod.splits simp del: not_ex)
qed

lemma check_authorising_user_cong:
  assumes "same_at (PowerLevels, []) auth auth'" "same_at (Create, []) auth auth'"
    and "\<And>u. content_get e AUTHORISING_USER JNull = JStr u \<Longrightarrow> same_at (Member, u) auth auth'"
  shows "check_authorising_user e auth c = check_authorising_user e auth' c"
  using assms(3) get_user_power_level_cong [OF assms(1,2)]
  by (cases "content_get e AUTHORISING_USER JNull")
    (simp_all add: check_authorising_user_def key_of_def same_at_def)

lemma check_membership_rules_cong:
  assumes base: "same_at (PowerLevels, []) auth auth'" "same_at (Create, []) auth auth'"
    and tpi: "\<And>t. mc_membership c = INVITE \<Longrightarrow> content_has e ''third_party_invite'' \<Longrightarrow>
      third_party_token e = Inr (JStr t) \<Longrightarrow> same_at (ThirdPartyInvite, t) auth auth'"
    and authoriser: "\<And>u. mc_membership c = JOIN \<Longrightarrow> restricted_join_rule rv \<Longrightarrow>
      content_get e AUTHORISING_USER JNull = JStr u \<Longrightarrow> same_at (Member, u) auth auth'"
    and rv: "rv_wf rv"
    and jr: "mc_membership c \<in> {JOIN, KNOCK} \<Longrightarrow> join_rule c = r"
  shows "check_membership_rules v rv e auth c = check_membership_rules v rv e auth' (c\<lparr>join_rule := r\<rparr>)"
proof -
  have v3: "mc_membership c = INVITE \<Longrightarrow> content_has e ''third_party_invite'' \<Longrightarrow>
      verify_third_party_invite v e auth = verify_third_party_invite v e auth'"
    by (rule verify_third_party_invite_cong) (rule tpi)
  have j: "check_join rv e auth c = check_join rv e auth' (c\<lparr>join_rule := r\<rparr>)" if m: "mc_membership c = JOIN"
  proof -
    have eq: "c\<lparr>join_rule := r\<rparr> = c" using jr m by simp
    have "restricted_join_rule rv \<Longrightarrow> check_authorising_user e auth c = check_authorising_user e auth' c"
      by (rule check_authorising_user_cong [OF base]) (rule authoriser [OF m])
    with rv show ?thesis by (auto simp: eq check_join_def rv_wf_def)
  qed
  have k: "mc_membership c = KNOCK \<Longrightarrow> check_knock rv e c = check_knock rv e (c\<lparr>join_rule := r\<rparr>)"
    using jr by (simp add: check_knock_def)
  have l: "check_leave e auth c = check_leave e auth' (c\<lparr>join_rule := r\<rparr>)"
    unfolding check_leave_cong [OF base(1)] by (simp add: check_leave_def)
  show ?thesis
    unfolding check_membership_rules_def Let_def
    by (auto simp: v3 j k l check_invite_def check_ban_def)
qed

lemma auth_types_member:
  assumes "auth_types_for_event rv e = Inr ks" "ev_type e = Member"
  obtains m skey token authoriser where
    "content_item e ''membership'' = Inr m" "state_key e = Inr skey"
    "(if m = INVITE \<and> content_has e ''third_party_invite''
      then bindR (third_party_token e) key_of else Inr None) = Inr token"
    "(if restricted_join_rule rv \<and> m = JOIN \<and> content_has e AUTHORISING_USER
      then key_of (content_get e AUTHORISING_USER JNull) else Inr None) = Inr authoriser"
    "ks = [(PowerLevels, []), (Member, sender e), (Create, [])]
       @ (if m \<in> {JOIN, INVITE, KNOCK} then [(JoinRules, [])] else []) @ [(Member, skey)]
       @ opt_key ThirdPartyInvite token @ opt_key Member authoriser"
  using assms by (simp add: auth_types_for_event_def Let_def bindR_Inr_iff) blast

lemma auth_types_base:
  assumes "auth_types_for_event rv e = Inr ks" "ev_type e \<noteq> Create"
  shows "{(PowerLevels, []), (Member, sender e), (Create, [])} \<subseteq> set ks"
proof (cases "ev_type e = Member")
  case True
  then show ?thesis by (rule auth_types_member [OF assms(1)]) simp
next
  case False
  with assms show ?thesis by (simp add: auth_types_for_event_def Let_def) auto
qed

lemma is_membership_change_allowed_cong:
  assumes ks: "auth_types_for_event rv e = Inr ks" and mem: "ev_type e = Member" and rv: "rv_wf rv"
    and same: "\<And>k. k \<in> set ks \<Longrightarrow> same_at k auth auth'"
  shows "is_membership_change_allowed v rv e auth = is_membership_change_allowed v rv e auth'"
proof -
  from auth_types_member [OF ks mem] obtain m skey token authoriser where
    m: "content_item e ''membership'' = Inr m" and skey: "state_key e = Inr skey"
    and token: "(if m = INVITE \<and> content_has e ''third_party_invite''
                 then bindR (third_party_token e) key_of else Inr None) = Inr token"
    and authoriser: "(if restricted_join_rule rv \<and> m = JOIN \<and> content_has e AUTHORISING_USER
                 then key_of (content_get e AUTHORISING_USER JNull) else Inr None) = Inr authoriser"
    and ks_eq: "ks = [(PowerLevels, []), (Member, sender e), (Create, [])]
       @ (if m \<in> {JOIN, INVITE, KNOCK} then [(JoinRules, [])] else []) @ [(Member, skey)]
       @ opt_key ThirdPartyInvite token @ opt_key Member authoriser" .
  have base: "same_at (PowerLevels, []) auth auth'" "same_at (Create, []) auth auth'"
    "same_at (Member, sender e) auth auth'" "same_at (Member, skey) auth auth'"
    using same by (simp_all add: ks_eq)
  have jr: "m \<in> {JOIN, KNOCK} \<Longrightarrow> get_join_rule auth = get_join_rule auth'"
    using same [of "(JoinRules, [])"] by (auto simp: ks_eq get_join_rule_def same_at_def)
  have tpi: "same_at (ThirdPartyInvite, t) auth auth'"
    if "m = INVITE" "content_has e ''third_party_invite''" "third_party_token e = Inr (JStr t)" for t
    using that token same by (simp add: ks_eq key_of_def opt_key_def)
  have auth_user: "same_at (Member, u) auth auth'"
    if "m = JOIN" "restricted_join_rule rv" "content_get e AUTHORISING_USER JNull = JStr u" for u
  proof -
    have "content_has e AUTHORISING_USER"
      using that(3) by (auto simp: content_has_def content_get_def split: option.splits)
    then show ?thesis using that authoriser same by (simp add: ks_eq key_of_def opt_key_def)
  qed
  have rules: "check_membership_rules v rv e auth c
      = check_membership_rules v rv e auth' (c\<lparr>join_rule := get_join_rule auth'\<rparr>)"
    if c: "membership_context rv e auth m skey = Inr c" for c
    by (rule check_membership_rules_cong [OF base(1,2) _ _ rv])
      (use membership_context_fields [OF c] tpi auth_user jr in auto)
  have "bindR (membership_context rv e auth m skey) (check_membership_rules v rv e auth)
      = bindR (membership_context rv e auth' m skey) (check_membership_rules v rv e auth')"
    unfolding membership_context_join_rule [OF base]
    using rules by (cases "membership_context rv e auth m skey") auto
  then show ?thesis
    unfolding is_membership_change_allowed_def m skey bindR.simps is_creator_join_cong [OF base(2)]
      can_federate_cong [OF base(2)]
    by (simp only:)
qed

text \<open>
  C1. The auth event selection is sufficient: in a known room version, the state dependent rules give
  the same verdict (the same result or the same exception) on an event other than a create event for
  any two room states that agree on the keys \<open>auth_types_for_event\<close> selects and, if the event sets
  power levels, on the key of the event itself.  That key is among the selected ones exactly if its
  state key is empty, as it is in every regular power level event.
\<close>

theorem auth_selection_sufficient:
  assumes "auth_types_for_event (event_room_version e) e = Inr ks"
    and "rv_wf (event_room_version e)" and "ev_type e \<noteq> Create"
    and "\<And>k. k \<in> set ks \<Longrightarrow> auth k = auth' k"
    and "\<And>k. ev_type e = PowerLevels \<Longrightarrow> state_key_field e = Some k \<Longrightarrow> auth (PowerLevels, k) = auth' (PowerLevels, k)"
  shows "check_against_state v e auth = check_against_state v e auth'"
proof -
  have same: "\<And>k. k \<in> set ks \<Longrightarrow> same_at k auth auth'"
    using assms(4) by (simp add: same_at_def)
  have base: "same_at (PowerLevels, []) auth auth'" "same_at (Create, []) auth auth'"
    "same_at (Member, sender e) auth auth'"
    using same auth_types_base [OF assms(1,3)] by auto
  have mem: "ev_type e = Member \<Longrightarrow>
      is_membership_change_allowed v (event_room_version e) e auth
      = is_membership_change_allowed v (event_room_version e) e auth'"
    by (rule is_membership_change_allowed_cong [OF assms(1) _ assms(2) same])
  have pl: "ev_type e = PowerLevels \<Longrightarrow>
      check_power_levels (event_room_version e) e auth = check_power_levels (event_room_version e) e auth'"
    using assms(5) by (intro check_power_levels_cong [OF base(1,2)]) (simp add: same_at_def)
  show ?thesis
    unfolding check_against_state_def check_event_sender_in_room_def same_atD [OF base(3)]
      can_federate_cong [OF base(2)] get_named_level_cong [OF base(1)]
      get_user_power_level_cong [OF base(1,2)] can_send_event_cong [OF base(1,2)]
      check_redaction_cong [OF base(1,2)]
    by (simp add: mem pl cong: if_cong)
qed

lemma auth_selection_sufficient_witness:
  "check_against_state no_verify ex_bob_power ex_auth
   = check_against_state no_verify ex_bob_power (ex_auth((''m.room.topic'', []) := Some ex_power))
   \<and> auth_types_for_event RV_V10 ex_bob_power = Inr [(PowerLevels, []), (Member, ''@b:s''), (Create, [])]"
proof -
  have ks: "auth_types_for_event (event_room_version ex_bob_power) ex_bob_power
      = Inr [(PowerLevels, []), (Member, ''@b:s''), (Create, [])]" by code_simp
  have rv: "rv_wf (event_room_version ex_bob_power)" by code_simp
  have ty: "ev_type ex_bob_power \<noteq> Create" by code_simp
  have "check_against_state no_verify ex_bob_power ex_auth
      = check_against_state no_verify ex_bob_power (ex_auth((''m.room.topic'', []) := Some ex_power))"
    by (rule auth_selection_sufficient [OF ks rv ty]) auto
  moreover have "event_room_version ex_bob_power = RV_V10" by code_simp
  ultimately show ?thesis using ks by simp
qed

text \<open>
  A power level event with another state key is compared with the event at that key, which the
  selection leaves out: Bob's event is accepted by the selected state and refused by the whole one.
\<close>

definition odd_power :: "string \<Rightarrow> (string \<times> json) list \<Rightarrow> event" where
  "odd_power s levels = sample_event ''$odd'' PowerLevels s (Some ''x'') [(''users'', JObj levels)] [''$create'', ''$b'', ''$power'']"

lemma selection_lacks_odd_power_levels:
  "auth_types_for_event RV_V10 (odd_power ''@b:s'' []) = Inr [(PowerLevels, []), (Member, ''@b:s''), (Create, [])]"
  "check_against_state no_verify (odd_power ''@b:s'' []) ex_auth = Inr (odd_power ''@b:s'' [])"
  "check_against_state no_verify (odd_power ''@b:s'' [])
     (ex_auth((PowerLevels, ''x'') \<mapsto> odd_power ''@a:s'' [(''@a:s'', JInt 100)])) = Inl (AuthError 403)"
  by code_simp+

section \<open>Power levels\<close>

lemma level_at_users_Some:
  assumes "level_at e (JStr u, Some d) = Inr (Some l)"
  shows "\<exists>m v. content_get e d (JObj []) = JObj m \<and> map_of m u = Some v \<and> py_int v = Inr l"
  using assms
  by (cases "content_get e d (JObj [])")
    (auto simp: level_at_def bindR_Inr_iff split: if_splits option.splits)

lemma dir_keys_member:
  assumes keys: "dir_keys current e d = Inr ks"
    and l: "level_at current (JStr u, Some d) = Inr (Some l) \<or> level_at e (JStr u, Some d) = Inr (Some l)"
  shows "(JStr u, Some d) \<in> set ks"
proof -
  from keys obtain xs ys where
    xs: "py_list (content_get current d (JObj [])) = Inr xs" and
    ys: "py_list (content_get e d (JObj [])) = Inr ys" and
    ks: "ks = map (\<lambda>k. (k, Some d)) (remdups (xs @ ys))"
    by (auto simp: dir_keys_def keys_of_both_def bindR_Inr_iff split: if_splits)
  have mem: "JStr u \<in> set zs"
    if "level_at ev (JStr u, Some d) = Inr (Some l)" "py_list (content_get ev d (JObj [])) = Inr zs" for ev zs
  proof -
    from level_at_users_Some [OF that(1)] obtain m v where
      "content_get ev d (JObj []) = JObj m" "map_of m u = Some v" by blast
    with that(2) show ?thesis by (force dest: map_of_SomeD)
  qed
  from l mem [OF _ xs] mem [OF _ ys] have "JStr u \<in> set (xs @ ys)" by auto
  then show ?thesis by (auto simp: ks)
qed

text \<open>
  The levels a power level event sets: the named ones, those of users and of event types, and in the
  room versions that limit them those of notifications.
\<close>

definition guarded_level :: "room_version \<Rightarrow> json \<times> string option \<Rightarrow> bool" where
  "guarded_level rv ld \<longleftrightarrow>
     (\<exists>n. ld = (JStr n, None) \<and>
        n \<in> {''users_default'', ''events_default'', ''state_default'', ''ban'', ''redact'', ''kick'', ''invite''}) \<or>
     (\<exists>n d. ld = (JStr n, Some d) \<and>
        (d = ''users'' \<or> d = ''events'' \<or> d = ''notifications'' \<and> limit_notifications_power_levels rv))"

lemma guarded_level_checked:
  assumes "levels_to_check rv current e = Inr lds" "guarded_level rv ld"
    and "level_at current ld = Inr (Some l) \<or> level_at e ld = Inr (Some l)"
  shows "ld \<in> set lds"
  using assms(2) unfolding guarded_level_def
proof
  assume "\<exists>n. ld = (JStr n, None) \<and>
    n \<in> {''users_default'', ''events_default'', ''state_default'', ''ban'', ''redact'', ''kick'', ''invite''}"
  then show ?thesis using assms(1) by (auto simp: levels_to_check_def level_names_def bindR_Inr_iff)
next
  assume "\<exists>n d. ld = (JStr n, Some d) \<and>
    (d = ''users'' \<or> d = ''events'' \<or> d = ''notifications'' \<and> limit_notifications_power_levels rv)"
  then obtain n d where ld: "ld = (JStr n, Some d)"
    and d: "d = ''users'' \<or> d = ''events'' \<or> d = ''notifications'' \<and> limit_notifications_power_levels rv" by blast
  from assms(1) d have "\<exists>ks. dir_keys current e d = Inr ks \<and> set ks \<subseteq> set lds"
    by (fastforce simp: levels_to_check_def bindR_Inr_iff)
  then obtain ks where ks: "dir_keys current e d = Inr ks" "set ks \<subseteq> set lds" by blast
  show ?thesis using dir_keys_member [OF ks(1)] assms(3) ks(2) ld by blast
qed

lemma check_power_levels_change:
  assumes "check_power_levels rv e auth = Inr ()" "state_key_field e = Some k"
    and "auth (ev_type e, k) = Some current" "get_user_power_level (user_id e) auth = Inr ul"
    and old: "level_at current ld = Inr old" and new: "level_at e ld = Inr new"
    and d: "guarded_level rv ld"
  shows "level_change_allowed (user_id e) ul ld old new = Inr ()"
proof -
  from assms(1-4) obtain lds where lds: "levels_to_check rv current e = Inr lds" and
    all: "\<And>ld. ld \<in> set lds \<Longrightarrow> bindR (level_at current ld) (\<lambda>old_level.
        bindR (level_at e ld) (\<lambda>new_level.
          level_change_allowed (user_id e) ul ld old_level new_level)) = Inr ()"
    by (auto simp: check_power_levels_def bindR_Inr_iff result_simps)
  show ?thesis
  proof (cases "old = None \<and> new = None")
    case True
    then show ?thesis by (simp add: level_change_allowed_def)
  next
    case False
    then obtain l where "level_at current ld = Inr (Some l) \<or> level_at e ld = Inr (Some l)"
      using old new by (cases old; cases new) auto
    then have "ld \<in> set lds" by (rule guarded_level_checked [OF lds d])
    from all [OF this] show ?thesis by (simp add: old new)
  qed
qed

lemma level_change_allowedD:
  assumes "level_change_allowed user ul ld old new = Inr ()" "old \<noteq> new"
  shows "(\<forall>l. new = Some l \<longrightarrow> l \<le> ul) \<and>
    (\<forall>l. old = Some l \<longrightarrow> l \<le> ul \<and> (snd ld = Some ''users'' \<and> fst ld \<noteq> JStr user \<longrightarrow> l < ul))"
  using assms by (auto simp: level_change_allowed_def split: if_splits option.splits)

text \<open>
  C2. No privilege escalation: when a power level event passes the auth rules over a current
  power level event, then of every level it changes, adds or removes (the defaults, the levels for
  bans, kicks, redactions and invites, the entries of users, of event types and, in the room versions
  that limit them, of notifications) the new and the old value are at most the sender's own level,
  and the old entry of a user other than the sender is strictly below it.
\<close>

theorem power_levels_no_escalation:
  assumes "check_against_state v e auth = Inr e'" and "ev_type e = PowerLevels"
    and "state_key_field e = Some k" and "auth (PowerLevels, k) = Some current"
    and "get_user_power_level (sender e) auth = Inr ul" and "guarded_level (event_room_version e) ld"
    and "level_at current ld = Inr old" and "level_at e ld = Inr new" and "old \<noteq> new"
  shows "(\<forall>l. new = Some l \<longrightarrow> l \<le> ul) \<and>
    (\<forall>l. old = Some l \<longrightarrow> l \<le> ul \<and> (snd ld = Some ''users'' \<and> fst ld \<noteq> JStr (sender e) \<longrightarrow> l < ul))"
proof -
  from assms(1,2) have "check_power_levels (event_room_version e) e auth = Inr ()"
    by (auto simp: check_against_state_def bindR_Inr_iff split: if_splits)
  from check_power_levels_change [OF this assms(3) _ assms(5,7,8,6)] assms(2,4)
  have "level_change_allowed (sender e) ul ld old new = Inr ()" by simp
  from level_change_allowedD [OF this assms(9)] show ?thesis .
qed

lemma power_levels_no_escalation_witness:
  "check_against_state no_verify ex_bob_power ex_auth = Inr ex_bob_power \<and> (25::int) \<le> 50"
proof -
  have a: "ev_type ex_bob_power = PowerLevels" "state_key_field ex_bob_power = Some []"
    "ex_auth (PowerLevels, []) = Some ex_power" "get_user_power_level (sender ex_bob_power) ex_auth = Inr 50"
    by code_simp+
  have g: "guarded_level (event_room_version ex_bob_power) (JStr ''@d:s'', Some ''users'')" by (simp add: guarded_level_def)
  have l: "level_at ex_power (JStr ''@d:s'', Some ''users'') = Inr None"
    "level_at ex_bob_power (JStr ''@d:s'', Some ''users'') = Inr (Some 25)"
    by code_simp+
  show ?thesis
    using power_levels_no_escalation [OF ex_bob_power_ok a g l] ex_bob_power_ok by simp
qed

section \<open>Memberships\<close>

lemma membership_allowedE:
  assumes "check_against_state v e auth = Inr e'" "ev_type e = Member" "membership e = Inr m"
    and "state_key_field e = Some t" "is_creator_join (event_room_version e) e auth m = Inr False"
  obtains c where "membership_context (event_room_version e) e auth m t = Inr c"
    "check_membership_rules v (event_room_version e) e auth c = Inr ()"
proof -
  from assms(1,2) have "is_membership_change_allowed v (event_room_version e) e auth = Inr ()"
    by (auto simp: check_against_state_def bindR_Inr_iff split: if_splits)
  with assms(3-5) that show ?thesis
    by (auto simp: is_membership_change_allowed_def membership_def bindR_Inr_iff result_simps
        split: if_splits)
qed

lemma not_creator_join: "m \<noteq> JOIN \<Longrightarrow> is_creator_join rv e auth m = Inr False"
  by (simp add: is_creator_join_def)

lemma member_is_unique:
  "member_is auth u m = Inr True \<Longrightarrow> member_is auth u m' = Inr b \<Longrightarrow> b \<longleftrightarrow> m' = m"
  by (auto simp: member_is_def bindR_Inr_iff split: option.splits)

lemma member_is_knock_False:
  "membership_context rv e auth m t = Inr c \<Longrightarrow> caller_knocked c \<Longrightarrow> member_is auth (sender e) KNOCK = Inr True"
  by (auto simp: membership_context_def bindR_Inr_iff split: if_splits)

text \<open>
  The first join of the creator of a room, which the rules allow before they look at anything else:
  the only event before it is the create event.
\<close>

definition creator_first_join :: "event \<Rightarrow> auth_map \<Rightarrow> string \<Rightarrow> bool" where
  "creator_first_join e auth t \<longleftrightarrow> membership e = Inr JOIN \<and>
     (\<exists>create. auth (Create, []) = Some create \<and> prev_event_ids e = [ev_id create] \<and>
        (if implicit_room_creator (event_room_version e) then sender create = t
         else content_item create ROOM_CREATOR = Inr (JStr t)))"

lemma is_creator_join_first:
  assumes "is_creator_join (event_room_version e) e auth m = Inr True" "membership e = Inr m" "state_key_field e = Some t"
  shows "creator_first_join e auth t"
proof -
  have "prev_event_ids e = [prev_event_ids e ! 0]" if "length (prev_event_ids e) = 1"
    using that by (cases "prev_event_ids e") auto
  then show ?thesis using assms
    by (auto simp: is_creator_join_def creator_first_join_def state_key_def bindR_Inr_iff split: if_splits option.splits)
qed

lemma allowed_creator_join:
  assumes "check_against_state v e auth = Inr e'" "ev_type e = Member" "membership e = Inr m"
  obtains b where "is_creator_join (event_room_version e) e auth m = Inr b"
proof -
  from assms(1,2) have "is_membership_change_allowed v (event_room_version e) e auth = Inr ()"
    by (auto simp: check_against_state_def bindR_Inr_iff split: if_splits)
  with assms(3) that show ?thesis
    by (auto simp: is_membership_change_allowed_def membership_def bindR_Inr_iff)
qed

text \<open>
  C3. A ban holds: once a user is banned, a membership event about them that passes the rules is a
  leave (the unban) or another ban, and its sender has at least the room's ban level; or it is the
  first join of the creator of the room, right after the create event.
\<close>

theorem ban_holds:
  assumes "check_against_state v e auth = Inr e'" "ev_type e = Member" "membership e = Inr m"
    and "state_key_field e = Some t" and banned: "member_is auth t BAN = Inr True"
  shows "(m = LEAVE \<or> m = BAN) \<and>
    (\<exists>ul bl. get_user_power_level (sender e) auth = Inr ul \<and> get_named_level auth ''ban'' 50 = Inr bl \<and> bl \<le> ul) \<or>
    creator_first_join e auth t"
proof (rule disjCI)
  assume "\<not> creator_first_join e auth t"
  with allowed_creator_join [OF assms(1-3)] is_creator_join_first [OF _ assms(3,4)]
  have first: "is_creator_join (event_room_version e) e auth m = Inr False" by metis
  obtain c where c: "membership_context (event_room_version e) e auth m t = Inr c"
    and rules: "check_membership_rules v (event_room_version e) e auth c = Inr ()"
    using membership_allowedE [OF assms(1-4) first] .
  note f = membership_context_fields [OF c]
  have tb: "target_banned c" using f(7) banned by simp
  have self: "\<not> (caller_invited c \<or> caller_knocked c)" if "t = sender e"
    using member_is_unique [OF banned, of INVITE] member_is_unique [OF banned, of KNOCK]
      f(5) member_is_knock_False [OF c] that by auto
  from rules have "(m = LEAVE \<or> m = BAN) \<and> ban_level c \<le> user_level c"
    using f(1,2) self tb
    by (auto simp: check_membership_rules_def Let_def bindR_Inr_iff check_invite_def check_join_def
        check_leave_def check_ban_def check_knock_def split: if_splits)
  then show "(m = LEAVE \<or> m = BAN) \<and>
    (\<exists>ul bl. get_user_power_level (sender e) auth = Inr ul \<and> get_named_level auth ''ban'' 50 = Inr bl \<and> bl \<le> ul)"
    using f(8,11) by blast
qed

lemma ban_holds_witness:
  "\<exists>ul bl. get_user_power_level ''@a:s'' ex_auth = Inr ul \<and> get_named_level ex_auth ''ban'' 50 = Inr bl \<and> bl \<le> ul"
proof -
  let ?e = "member_event ''$unban'' ''@a:s'' ''@c:s'' LEAVE"
  have a: "check_against_state no_verify ?e ex_auth = Inr ?e" "ev_type ?e = Member" "membership ?e = Inr LEAVE"
    "state_key_field ?e = Some ''@c:s''" "member_is ex_auth ''@c:s'' BAN = Inr True"
    by code_simp+
  have "sender ?e = ''@a:s''" "\<not> membership ?e = Inr JOIN" by code_simp+
  with ban_holds [OF a] show ?thesis by (simp add: creator_first_join_def)
qed

text \<open>
  C4. Kicking, banning and unbanning takes rank: an accepted leave or ban of somebody else is
  sent by a joined member whose power level is strictly above the target's and at least the
  room's kick level (ban level for a ban).
\<close>

theorem removal_needs_power:
  assumes "check_against_state v e auth = Inr e'" "ev_type e = Member" "membership e = Inr m"
    and "state_key_field e = Some t" "t \<noteq> sender e" "m = LEAVE \<or> m = BAN"
  shows "member_is auth (sender e) JOIN = Inr True \<and>
    (\<exists>ul tl rl. get_user_power_level (sender e) auth = Inr ul \<and> get_user_power_level t auth = Inr tl \<and>
       get_named_level auth (if m = BAN then ''ban'' else ''kick'') 50 = Inr rl \<and> tl < ul \<and> rl \<le> ul)"
proof -
  have "is_creator_join (event_room_version e) e auth m = Inr False"
    by (rule not_creator_join) (use assms(6) in auto)
  then obtain c where c: "membership_context (event_room_version e) e auth m t = Inr c"
    and rules: "check_membership_rules v (event_room_version e) e auth c = Inr ()"
    using membership_allowedE [OF assms(1-4)] by blast
  note f = membership_context_fields [OF c]
  from rules have r: "caller_in_room c \<and> target_level c < user_level c \<and>
      (if m = BAN then ban_level c \<le> user_level c
       else \<exists>kl. get_named_level auth ''kick'' 50 = Inr kl \<and> kl \<le> user_level c)"
    using f(1,2) assms(5,6)
    by (auto simp: check_membership_rules_def Let_def check_leave_def check_ban_def bindR_Inr_iff
        split: if_splits)
  then show ?thesis using f(4,8,9,11) by (auto split: if_splits)
qed

lemma removal_needs_power_witness: "member_is ex_auth ''@b:s'' JOIN = Inr True"
proof -
  let ?e = "member_event ''$kick'' ''@b:s'' ''@d:s'' LEAVE"
  have a: "check_against_state no_verify ?e ex_auth = Inr ?e" "ev_type ?e = Member" "membership ?e = Inr LEAVE"
    "state_key_field ?e = Some ''@d:s''" "''@d:s'' \<noteq> sender ?e" "LEAVE = LEAVE \<or> LEAVE = BAN"
    by code_simp+
  have "sender ?e = ''@b:s''" by code_simp
  with removal_needs_power [OF a] show ?thesis by simp
qed

text \<open>
  C5. Joining needs a way in: an accepted join is the first join of the creator of the room, right
  after the create event; or it is by the user themselves, who is not banned, and either the room is
  public, or the user is already joined or invited, or the room has a restricted join rule and the
  event names an authorising user who is joined and whose level is at least the invite level.
\<close>

theorem join_needs_permission:
  assumes "check_against_state v e auth = Inr e'" "ev_type e = Member" "membership e = Inr JOIN"
    and "state_key_field e = Some t"
  shows "sender e = t \<and> member_is auth t BAN = Inr False \<and>
    (get_join_rule auth = JR_PUBLIC
     \<or> member_is auth t JOIN = Inr True \<or> member_is auth t INVITE = Inr True
     \<or> (get_join_rule auth \<in> {JR_RESTRICTED, JR_KNOCK_RESTRICTED} \<and>
        (\<exists>u ul il. content_get e AUTHORISING_USER JNull = JStr u \<and> member_is auth u JOIN = Inr True \<and>
           get_user_power_level u auth = Inr ul \<and> get_named_level auth ''invite'' 0 = Inr il \<and> il \<le> ul))) \<or>
    creator_first_join e auth t" (is "?permitted \<or> _")
proof (rule disjCI)
  assume "\<not> creator_first_join e auth t"
  with allowed_creator_join [OF assms(1-3)] is_creator_join_first [OF _ assms(3,4)]
  have first: "is_creator_join (event_room_version e) e auth JOIN = Inr False" by metis
  obtain c where c: "membership_context (event_room_version e) e auth JOIN t = Inr c"
    and rules: "check_membership_rules v (event_room_version e) e auth c = Inr ()"
    using membership_allowedE [OF assms first] .
  note f = membership_context_fields [OF c]
  have authorised: "\<exists>u ul. content_get e AUTHORISING_USER JNull = JStr u \<and> member_is auth u JOIN = Inr True \<and>
      get_user_power_level u auth = Inr ul \<and> invite_level c \<le> ul"
    if "check_authorising_user e auth c = Inr ()"
    using that
    by (cases "content_get e AUTHORISING_USER JNull")
      (auto simp: check_authorising_user_def key_of_def check_joined_room_def member_is_def bindR_Inr_iff
        result_simps split: option.splits)
  from rules f(1) have "check_join (event_room_version e) e auth c = Inr ()"
    by (simp add: check_membership_rules_def)
  then show ?permitted
    using f(2,3,4,5,7,10) authorised
    by (auto simp: check_join_def split: if_splits)
qed

lemma join_needs_permission_witness:
  "member_is ex_auth ''@e:s'' BAN = Inr False \<and> member_is ex_auth ''@e:s'' INVITE = Inr True"
proof -
  let ?e = "member_event ''$join'' ''@e:s'' ''@e:s'' JOIN"
  have a: "check_against_state no_verify ?e ex_auth = Inr ?e" "ev_type ?e = Member" "membership ?e = Inr JOIN"
    "state_key_field ?e = Some ''@e:s''"
    by code_simp+
  have "member_is ex_auth ''@e:s'' INVITE = Inr True" by code_simp
  moreover have "prev_event_ids ?e = [''$p'']" "map_option ev_id (ex_auth (Create, [])) = Some ''$create''" by code_simp+
  then have "\<not> creator_first_join ?e ex_auth ''@e:s''" by (auto simp: creator_first_join_def)
  ultimately show ?thesis using join_needs_permission [OF a] by simp
qed

text \<open>
  Only members speak: an event other than a membership event (or a server's alias event in
  the room versions with the special rule) passes the rules only if its sender is joined.
\<close>

theorem sender_is_joined:
  assumes "check_against_state v e auth = Inr e'" "ev_type e \<noteq> Member"
    and "\<not> (ev_type e = Aliases \<and> special_case_aliases_auth (event_room_version e))"
  shows "member_is auth (sender e) JOIN = Inr True"
  using assms
  by (auto simp: check_against_state_def check_event_sender_in_room_def check_joined_room_def
      member_is_def bindR_Inr_iff result_simps split: if_splits option.splits)

lemma sender_is_joined_witness: "member_is ex_auth ''@b:s'' JOIN = Inr True"
proof -
  have a: "ev_type ex_bob_power \<noteq> Member"
    "\<not> (ev_type ex_bob_power = Aliases \<and> special_case_aliases_auth (event_room_version ex_bob_power))"
    by code_simp+
  have "sender ex_bob_power = ''@b:s''" by code_simp
  with sender_is_joined [OF ex_bob_power_ok a] show ?thesis by simp
qed

section \<open>Checks that need no room state\<close>

text \<open>
  The size limits: an event passes exactly if its PDU has at most 65536 bytes and each of
  its sender, room id, state key, type and event id has at most 255 bytes; and the error that
  asks to persist the event as rejected (\<open>unpersistable=False\<close>) is raised exactly if only the
  byte limit is broken, no limit in code points, in a room version with lenient limits.
\<close>

theorem check_size_limits_spec:
  "(check_size_limits pdu_len e = Inr () \<longleftrightarrow>
      pdu_len e \<le> 65536 \<and> list_all (\<lambda>s. length s \<le> 255) (limited_fields e)) \<and>
   (check_size_limits pdu_len e = Inl (EventSizeError False) \<longleftrightarrow>
      pdu_len e \<le> 65536 \<and> list_all (\<lambda>s. str_len s \<le> 255) (limited_fields e) \<and>
      list_ex (\<lambda>s. length s > 255) (limited_fields e) \<and>
      event_room_version e \<in> set LENIENT_EVENT_BYTE_LIMITS_ROOM_VERSIONS)"
proof -
  have cp: "list_ex (\<lambda>s. length s > 255) xs" if "list_ex (\<lambda>s. str_len s > 255) xs" for xs
    using that str_len_le_bytes by (auto simp: list_ex_iff intro: less_le_trans)
  have neg: "\<And>f xs. (\<not> list_ex (\<lambda>s. f s > (255::nat)) xs) = list_all (\<lambda>s. f s \<le> 255) xs"
    by (auto simp: list_ex_iff list_all_iff not_less)
  show ?thesis
    unfolding check_size_limits_def too_long_def
    using cp [of "limited_fields e"] neg [of str_len "limited_fields e"] neg [of length "limited_fields e"]
    by (auto split: if_splits)
qed







end
