(* ===== verification/State_Filter.thy ===== *)
theory State_Filter
  imports Events
begin

text \<open>
  State filters, \<open>types/state.py\<close>.  A filter maps event types to the set of state keys to fetch
  (or all of them), and says whether types it does not mention are fetched.  Python sets are
  lists here; a \<open>frozenset\<close> is built with \<open>remdups\<close>.
\<close>

record state_filter =
  sf_types :: "(string \<times> string list option) list"
  include_others :: bool

text \<open>The constructor, with \<open>__attrs_post_init__\<close>.\<close>

definition StateFilter :: "(string \<times> string list option) list \<Rightarrow> bool \<Rightarrow> state_filter" where
  "StateFilter ts others =
     \<lparr>sf_types = (if others then filter (\<lambda>kv. snd kv \<noteq> None) ts else ts), include_others = others\<rparr>"

definition sf_all :: state_filter where "sf_all = StateFilter [] True"

definition sf_all_non_member :: state_filter where
  "sf_all_non_member = StateFilter [(Member, Some [])] True"

definition sf_none :: state_filter where "sf_none = StateFilter [] False"

fun from_types_step ::
  "(string \<times> string list option) list \<Rightarrow> string \<times> string option \<Rightarrow> (string \<times> string list option) list" where
  "from_types_step d (typ, s) =
     (case map_of d typ of
        Some None \<Rightarrow> d
      | cur \<Rightarrow>
          (case s of
             None \<Rightarrow> AList.update typ None d
           | Some k \<Rightarrow>
               (let ks = (case cur of Some (Some ks) \<Rightarrow> ks | _ \<Rightarrow> [])
                in AList.update typ (Some (List.insert k ks)) d)))"

definition from_types :: "(string \<times> string option) list \<Rightarrow> state_filter" where
  "from_types ts = StateFilter (foldl from_types_step [] ts) False"

definition to_types :: "state_filter \<Rightarrow> (string \<times> string option) list" where
  "to_types f =
     concat (map (\<lambda>(t, ks). case ks of None \<Rightarrow> [(t, None)] | Some l \<Rightarrow> map (\<lambda>k. (t, Some k)) l) (sf_types f))"

definition from_lazy_load_member_list :: "string list \<Rightarrow> state_filter" where
  "from_lazy_load_member_list members = StateFilter [(Member, Some (remdups members))] True"

definition freeze :: "(string \<times> string list option) list \<Rightarrow> bool \<Rightarrow> state_filter" where
  "freeze ts others = StateFilter (map (\<lambda>(t, ks). (t, map_option remdups ks)) ts) others"

definition is_full :: "state_filter \<Rightarrow> bool" where
  "is_full f \<longleftrightarrow> include_others f \<and> sf_types f = []"

definition has_wildcards :: "state_filter \<Rightarrow> bool" where
  "has_wildcards f \<longleftrightarrow> include_others f \<or> list_ex (\<lambda>kv. snd kv = None) (sf_types f)"

definition concrete_types :: "state_filter \<Rightarrow> state_pos list" where
  "concrete_types f =
     concat (map (\<lambda>(t, ks). case ks of None \<Rightarrow> [] | Some l \<Rightarrow> map (Pair t) l) (sf_types f))"

definition wildcard_types :: "state_filter \<Rightarrow> string list" where
  "wildcard_types f = map fst (filter (\<lambda>kv. snd kv = None) (sf_types f))"

definition max_entries_returned :: "state_filter \<Rightarrow> nat option" where
  "max_entries_returned f = (if has_wildcards f then None else Some (length (concrete_types f)))"

definition return_expanded :: "state_filter \<Rightarrow> state_filter" where
  "return_expanded f =
     (if is_full f then f
      else if \<not> has_wildcards f then f
      else
        (let get_all_members =
           (case map_of (sf_types f) Member of Some ks \<Rightarrow> ks = None | None \<Rightarrow> include_others f);
           has_non_member_wildcard =
             (include_others f \<or> list_ex (\<lambda>(t, ks). t \<noteq> Member \<and> ks = None) (sf_types f))
         in if \<not> has_non_member_wildcard then f
            else if get_all_members then sf_all
            else (case map_of (sf_types f) Member of
                    Some ks \<Rightarrow> StateFilter [(Member, ks)] True
                  | None \<Rightarrow> sf_all_non_member)))"

section \<open>SQL\<close>

fun join_with :: "string \<Rightarrow> string list \<Rightarrow> string" where
  "join_with sep [] = []"
| "join_with sep [x] = x"
| "join_with sep (x # y # xs) = x @ sep @ join_with sep (y # xs)"

definition type_clauses :: "state_filter \<Rightarrow> (string \<times> string list) list" where
  "type_clauses f =
     concat (map (\<lambda>(t, ks). case ks of
        None \<Rightarrow> [(''(type = ?)'', [t])]
      | Some l \<Rightarrow> map (\<lambda>k. (''(type = ? AND state_key = ?)'', [t, k])) l) (sf_types f))"

definition make_sql_filter_clause :: "state_filter \<Rightarrow> string \<times> string list" where
  "make_sql_filter_clause f =
     (if is_full f then ('''', [])
      else if \<not> include_others f \<and> sf_types f = [] then (''1 = 2'', [])
      else
        (let clauses = type_clauses f;
             where_clause = join_with '' OR '' (map fst clauses);
             where_args = concat (map snd clauses)
         in if include_others f
            then ((if where_clause \<noteq> [] then where_clause @ '' OR '' else where_clause)
                    @ ''type NOT IN ('' @ join_with '','' (map (\<lambda>_. ''?'') (sf_types f)) @ '')'',
                  where_args @ map fst (sf_types f))
            else (where_clause, where_args)))"

section \<open>Filtering\<close>

definition filter_state :: "state_filter \<Rightarrow> (state_pos \<times> 'a) list \<Rightarrow> (state_pos \<times> 'a) list" where
  "filter_state f d =
     (if is_full f then d
      else filter (\<lambda>((typ, skey), v).
             case map_of (sf_types f) typ of
               Some ks \<Rightarrow> (case ks of None \<Rightarrow> True | Some l \<Rightarrow> skey \<in> set l)
             | None \<Rightarrow> include_others f) d)"

definition get_member_split :: "state_filter \<Rightarrow> state_filter \<times> state_filter" where
  "get_member_split f =
     ((case map_of (sf_types f) Member of
         Some ks \<Rightarrow> (case ks of None \<Rightarrow> sf_all | Some l \<Rightarrow> StateFilter [(Member, Some l)] False)
       | None \<Rightarrow> if include_others f then sf_all else sf_none),
      StateFilter (filter (\<lambda>kv. fst kv \<noteq> Member) (sf_types f)) (include_others f))"

section \<open>Difference\<close>

record four_parts =
  all_part :: bool
  minus_wildcards :: "string list"
  plus_wildcards :: "string list"
  plus_state_keys :: "state_pos list"

definition decompose_into_four_parts :: "state_filter \<Rightarrow> four_parts" where
  "decompose_into_four_parts f =
     \<lparr>all_part = include_others f,
      minus_wildcards = (if include_others f then map fst (sf_types f) else []),
      plus_wildcards = wildcard_types f,
      plus_state_keys = concrete_types f\<rparr>"

definition add_state_key ::
  "bool \<Rightarrow> (string \<times> string list option) list \<Rightarrow> state_pos \<Rightarrow> (string \<times> string list option) list" where
  "add_state_key all_p d p =
     (case map_of d (fst p) of
        Some None \<Rightarrow> d
      | Some (Some l) \<Rightarrow> AList.update (fst p) (Some (List.insert (snd p) l)) d
      | None \<Rightarrow> if \<not> all_p then AList.update (fst p) (Some [snd p]) d else d)"

definition recompose_from_four_parts :: "four_parts \<Rightarrow> state_filter" where
  "recompose_from_four_parts q =
     (let excluded = (if all_part q then dict_update [] (map (\<lambda>t. (t, Some [])) (minus_wildcards q)) else []);
          with_wildcards = dict_update excluded (map (\<lambda>t. (t, None)) (plus_wildcards q));
          new_types = foldl (add_state_key (all_part q)) with_wildcards (plus_state_keys q)
      in freeze new_types (all_part q))"

definition approx_difference :: "state_filter \<Rightarrow> state_filter \<Rightarrow> state_filter" where
  "approx_difference self other =
     (let s = decompose_into_four_parts self;
          oth = decompose_into_four_parts other;
          new_wildcards = filter (\<lambda>t. t \<notin> set (plus_wildcards oth)) (plus_wildcards s);
          new_concrete_keys =
            filter (\<lambda>p. fst p \<notin> set (plus_wildcards oth) \<and> p \<notin> set (plus_state_keys oth)) (plus_state_keys s)
      in if all_part oth
         then
           (let wildcards' =
              (if all_part s
               then new_wildcards @ filter (\<lambda>t. t \<notin> set (minus_wildcards s)) (minus_wildcards oth)
               else new_wildcards)
            in recompose_from_four_parts
                 \<lparr>all_part = False, minus_wildcards = [],
                  plus_wildcards = filter (\<lambda>t. t \<in> set (minus_wildcards oth)) wildcards',
                  plus_state_keys = filter (\<lambda>p. fst p \<in> set (minus_wildcards oth)) new_concrete_keys\<rparr>)
         else recompose_from_four_parts
                \<lparr>all_part = all_part s, minus_wildcards = minus_wildcards s @ plus_wildcards oth,
                 plus_wildcards = new_wildcards, plus_state_keys = new_concrete_keys\<rparr>)"

definition must_await_full_state :: "(string \<Rightarrow> bool) \<Rightarrow> state_filter \<Rightarrow> bool" where
  "must_await_full_state is_mine_id f =
     (case map_of (sf_types f) Member of
        None \<Rightarrow> include_others f
      | Some None \<Rightarrow> True
      | Some (Some l) \<Rightarrow> list_ex (\<lambda>k. \<not> is_mine_id k) l)"

section \<open>What a filter matches\<close>

definition matches :: "state_filter \<Rightarrow> state_pos \<Rightarrow> bool" where
  "matches f p =
     (case map_of (sf_types f) (fst p) of
        Some ks \<Rightarrow> (case ks of None \<Rightarrow> True | Some l \<Rightarrow> snd p \<in> set l)
      | None \<Rightarrow> include_others f)"

text \<open>The invariant of filters: types are keys of a dict, and a filter that includes all other types
  has no wildcards.\<close>

definition sf_wf :: "state_filter \<Rightarrow> bool" where
  "sf_wf f \<longleftrightarrow> distinct (map fst (sf_types f)) \<and>
     list_all (\<lambda>(t, ks). case ks of None \<Rightarrow> \<not> include_others f | Some l \<Rightarrow> distinct l) (sf_types f)"

lemma sf_wf_alt:
  "sf_wf f \<longleftrightarrow> distinct (map fst (sf_types f)) \<and>
     (\<forall>(t, ks)\<in>set (sf_types f). (include_others f \<longrightarrow> ks \<noteq> None) \<and> (\<forall>l. ks = Some l \<longrightarrow> distinct l))"
  by (fastforce simp: sf_wf_def list_all_iff split: option.splits)

end
