(* ===== verification/State_Filter_Props.thy ===== *)
theory State_Filter_Props
  imports State_Filter
begin

text \<open>
  Correctness of state filters against \<open>matches\<close>, the set of state positions a filter
  selects: every operation of \<open>types/state.py\<close> is characterised by what its result matches.
\<close>

section \<open>Dictionaries of state keys\<close>

text \<open>What a dictionary under construction selects, where types it lacks count as \<open>others\<close>.\<close>

definition sel :: "bool \<Rightarrow> (string \<times> string list option) list \<Rightarrow> state_pos \<Rightarrow> bool" where
  "sel others d p =
     (case map_of d (fst p) of
        None \<Rightarrow> others
      | Some ks \<Rightarrow> (case ks of None \<Rightarrow> True | Some l \<Rightarrow> snd p \<in> set l))"

lemma matches_sel: "matches f p = sel (include_others f) (sf_types f) p"
  by (simp add: matches_def sel_def split: option.splits)

lemma map_of_filter_value:
  "distinct (map fst d) \<Longrightarrow> map_of (filter (\<lambda>kv. P (snd kv)) d) k =
     (case map_of d k of Some v \<Rightarrow> if P v then Some v else None | None \<Rightarrow> None)"
  by (induction d) (auto split: option.splits dest: map_of_SomeD simp: rev_image_eqI)

lemma map_of_filter_key:
  "map_of (filter (\<lambda>kv. P (fst kv)) d) k = (if P k then map_of d k else None)"
  by (induction d) auto

lemma matches_StateFilter:
  assumes "distinct (map fst d)"
  shows "matches (StateFilter d others) p = sel others d p"
proof -
  have "map_of (filter (\<lambda>kv. snd kv \<noteq> None) d) (fst p) =
      (case map_of d (fst p) of Some v \<Rightarrow> if v \<noteq> None then Some v else None | None \<Rightarrow> None)"
    by (rule map_of_filter_value [OF assms])
  then show ?thesis
    by (cases others; cases "map_of d (fst p)"; cases "the (map_of d (fst p))")
      (simp_all add: matches_sel StateFilter_def sel_def)
qed

lemma map_of_map_value: "map_of (map (\<lambda>(t, ks). (t, g ks)) d) k = map_option g (map_of d k)"
  by (induction d) auto

lemma fst_map_value: "map fst (map (\<lambda>(t, ks). (t, g ks)) d) = map fst d"
  by (induction d) auto

lemma matches_freeze:
  assumes "distinct (map fst d)"
  shows "matches (freeze d others) p = sel others d p"
proof -
  have "distinct (map fst (map (\<lambda>(t, ks). (t, map_option remdups ks)) d))"
    using assms by (simp only: fst_map_value)
  then show ?thesis
    unfolding freeze_def by (simp only: matches_StateFilter)
      (auto simp: sel_def map_of_map_value split: option.splits)
qed

lemma sel_add_state_key: "sel a (add_state_key a d p) q \<longleftrightarrow> sel a d q \<or> q = p"
  by (cases p; cases q) (auto simp: sel_def add_state_key_def split: option.splits if_splits)

lemma distinct_add_state_key: "distinct (map fst d) \<Longrightarrow> distinct (map fst (add_state_key a d p))"
  by (auto simp: add_state_key_def AList.distinct_update split: option.splits)

lemma sel_add_state_keys: "sel a (foldl (add_state_key a) d ps) q \<longleftrightarrow> sel a d q \<or> q \<in> set ps"
  by (induction ps arbitrary: d) (auto simp: sel_add_state_key)

lemma distinct_add_state_keys: "distinct (map fst d) \<Longrightarrow> distinct (map fst (foldl (add_state_key a) d ps))"
  by (induction ps arbitrary: d) (auto simp: distinct_add_state_key)

lemma map_of_const: "map_of (map (\<lambda>t. (t, v)) ts) k = (if k \<in> set ts then Some v else None)"
  by (induction ts) auto

section \<open>The four parts\<close>

definition parts_match :: "four_parts \<Rightarrow> state_pos \<Rightarrow> bool" where
  "parts_match q p \<longleftrightarrow> fst p \<in> set (plus_wildcards q) \<or> p \<in> set (plus_state_keys q)
     \<or> all_part q \<and> fst p \<notin> set (minus_wildcards q)"

lemma matches_recompose: "matches (recompose_from_four_parts q) p = parts_match q p"
proof -
  define ex where "ex = (if all_part q then dict_update [] (map (\<lambda>t. (t, Some ([] :: string list))) (minus_wildcards q)) else [])"
  define w where "w = dict_update ex (map (\<lambda>t. (t, None :: string list option)) (plus_wildcards q))"
  have dist: "distinct (map fst w)"
    unfolding w_def ex_def by (auto intro!: distinct_dict_update)
  have "map_of w t = (if t \<in> set (plus_wildcards q) then Some None
      else if all_part q \<and> t \<in> set (minus_wildcards q) then Some (Some []) else None)" for t
    unfolding w_def ex_def by (simp add: map_of_dict_update rev_map map_of_const)
  then have sel_w: "sel (all_part q) w p \<longleftrightarrow>
      fst p \<in> set (plus_wildcards q) \<or> all_part q \<and> fst p \<notin> set (minus_wildcards q)"
    by (auto simp: sel_def)
  have "recompose_from_four_parts q = freeze (foldl (add_state_key (all_part q)) w (plus_state_keys q)) (all_part q)"
    by (simp add: recompose_from_four_parts_def w_def ex_def Let_def)
  then show ?thesis
    using sel_w by (auto simp: matches_freeze [OF distinct_add_state_keys [OF dist]] sel_add_state_keys parts_match_def)
qed

lemma concrete_types_iff:
  "(t, k) \<in> set (concrete_types f) \<longleftrightarrow> (\<exists>l. (t, Some l) \<in> set (sf_types f) \<and> k \<in> set l)"
  by (force simp: concrete_types_def split: option.splits)

lemma wildcard_types_iff: "t \<in> set (wildcard_types f) \<longleftrightarrow> (t, None) \<in> set (sf_types f)"
  by (force simp: wildcard_types_def)

lemma sf_wf_distinct: "sf_wf f \<Longrightarrow> distinct (map fst (sf_types f))"
  by (simp add: sf_wf_alt)

lemma parts_match_decompose:
  assumes "sf_wf f"
  shows "parts_match (decompose_into_four_parts f) p = matches f p"
proof (cases "map_of (sf_types f) (fst p)")
  case None
  then have n: "\<And>ks. (fst p, ks) \<notin> set (sf_types f)"
    by (metis domI domIff sf_wf_distinct [OF assms] map_of_eq_Some_iff)
  then have "fst p \<notin> fst ` set (sf_types f)" by force
  then show ?thesis using None n
    by (cases p) (auto simp: parts_match_def decompose_into_four_parts_def matches_def wildcard_types_iff concrete_types_iff)
next
  case (Some ks)
  then have mem: "\<And>ks'. (fst p, ks') \<in> set (sf_types f) \<longleftrightarrow> ks' = ks"
    by (auto simp: map_of_eq_Some_iff [OF sf_wf_distinct [OF assms], symmetric])
  then have "fst p \<in> fst ` set (sf_types f)" by force
  then show ?thesis using Some mem
    by (cases p; cases ks) (auto simp: parts_match_def decompose_into_four_parts_def matches_def wildcard_types_iff concrete_types_iff)
qed

text \<open>
  Decomposing a filter into its four parts and recomposing it gives a filter that matches
  the same state.
\<close>

theorem recompose_decompose:
  assumes "sf_wf f"
  shows "matches (recompose_from_four_parts (decompose_into_four_parts f)) = matches f"
  using assms by (simp add: fun_eq_iff matches_recompose parts_match_decompose)

lemma recompose_decompose_witness:
  "matches (recompose_from_four_parts (decompose_into_four_parts (from_lazy_load_member_list [''@a:s''])))
   = matches (from_lazy_load_member_list [''@a:s''])"
  by (rule recompose_decompose) code_simp

text \<open>
  The contract of \<open>approx_difference\<close>: the difference includes all state of \<open>self\<close> that
  \<open>other\<close> does not include, nothing outside \<open>self\<close>, and it is exact when \<open>self\<close> has no wildcards.
\<close>

theorem approx_difference_contract:
  assumes "sf_wf self" and "sf_wf other"
  shows "(\<forall>p. matches self p \<and> \<not> matches other p \<longrightarrow> matches (approx_difference self other) p) \<and>
    (\<forall>p. matches (approx_difference self other) p \<longrightarrow> matches self p) \<and>
    (\<not> has_wildcards self \<longrightarrow>
      (\<forall>p. matches (approx_difference self other) p \<longleftrightarrow> matches self p \<and> \<not> matches other p))"
proof -
  have no_wild: "all_part (decompose_into_four_parts self) = False
      \<and> plus_wildcards (decompose_into_four_parts self) = []" if "\<not> has_wildcards self"
    using that by (auto simp: has_wildcards_def decompose_into_four_parts_def wildcard_types_def
        list_ex_iff filter_empty_conv)
  show ?thesis
    unfolding parts_match_decompose [OF assms(1), symmetric] parts_match_decompose [OF assms(2), symmetric]
      approx_difference_def Let_def
    using no_wild by (auto simp: matches_recompose parts_match_def)
qed

lemma approx_difference_contract_witness:
  "matches (approx_difference (from_types [(Member, None), (Create, Some [])]) (from_types [(Create, Some [])]))
     (Member, ''@a:s'')"
proof -
  have a: "sf_wf (from_types [(Member, None), (Create, Some [])])" "sf_wf (from_types [(Create, Some [])])"
    by code_simp+
  have "matches (from_types [(Member, None), (Create, Some [])]) (Member, ''@a:s'')"
    "\<not> matches (from_types [(Create, Some [])]) (Member, ''@a:s'')" by code_simp+
  with approx_difference_contract [OF a] show ?thesis by blast
qed

section \<open>The invariant\<close>

lemma set_AList_update: "set (AList.update k v d) \<subseteq> insert (k, v) (set d)"
  by (induction d) auto

lemma sf_wf_StateFilter:
  assumes "distinct (map fst d)" "\<And>t l. (t, Some l) \<in> set d \<Longrightarrow> distinct l"
  shows "sf_wf (StateFilter d others)"
  using assms distinct_map_filter [of fst d "\<lambda>kv. snd kv \<noteq> None"]
  by (auto simp: sf_wf_alt StateFilter_def)

lemma sf_wf_freeze: "distinct (map fst d) \<Longrightarrow> sf_wf (freeze d others)"
  unfolding freeze_def by (rule sf_wf_StateFilter) (simp only: fst_map_value, auto simp: map_option_case split: option.splits)

lemma from_types_step_eq:
  "map_of d t = Some None \<Longrightarrow> from_types_step d (t, s) = d"
  "map_of d t \<noteq> Some None \<Longrightarrow> from_types_step d (t, None) = AList.update t None d"
  "map_of d t = None \<Longrightarrow> from_types_step d (t, Some k) = AList.update t (Some [k]) d"
  "map_of d t = Some (Some l) \<Longrightarrow> from_types_step d (t, Some k) = AList.update t (Some (List.insert k l)) d"
  by (auto split: option.splits)

declare from_types_step.simps [simp del]

lemma from_types_step_cases:
  obtains "map_of d t = Some None" | "map_of d t = None" | l where "map_of d t = Some (Some l)"
  by (cases "map_of d t"; cases "the (map_of d t)") auto

lemma from_types_step_inv:
  assumes "distinct (map fst d)" "\<And>t l. (t, Some l) \<in> set d \<Longrightarrow> distinct l"
  shows "distinct (map fst (from_types_step d x)) \<and> (\<forall>t l. (t, Some l) \<in> set (from_types_step d x) \<longrightarrow> distinct l)"
proof -
  obtain ty s where x: "x = (ty, s)" by (cases x)
  have upd: "distinct (map fst (AList.update ty v d)) \<and> (\<forall>t l. (t, Some l) \<in> set (AList.update ty v d) \<longrightarrow> distinct l)"
    if "\<And>l. v = Some l \<Longrightarrow> distinct l" for v
  proof (intro conjI allI impI)
    show "distinct (map fst (AList.update ty v d))" using assms(1) by (rule AList.distinct_update)
    fix t l assume "(t, Some l) \<in> set (AList.update ty v d)"
    with set_AList_update [of ty v d] have "Some l = v \<or> (t, Some l) \<in> set d" by blast
    then show "distinct l" using assms(2) that by blast
  qed
  show ?thesis
  proof (cases rule: from_types_step_cases [of d ty])
    case 1
    then have "from_types_step d x = d" by (simp add: x from_types_step_eq)
    then show ?thesis using assms by (simp only:) blast
  next
    case 2
    then have "from_types_step d x = AList.update ty (map_option (\<lambda>k. [k]) s) d"
      by (cases s) (simp_all add: x from_types_step_eq)
    then show ?thesis by (simp only:) (rule upd, auto)
  next
    case (3 l)
    then have "(ty, Some l) \<in> set d" by (rule map_of_SomeD)
    then have l: "distinct l" by (rule assms(2))
    from 3 have "from_types_step d x = AList.update ty (map_option (\<lambda>k. List.insert k l) s) d"
      by (cases s) (simp_all add: x from_types_step_eq)
    then show ?thesis by (simp only:) (rule upd, auto simp: l)
  qed
qed

lemma from_types_inv:
  "distinct (map fst (foldl from_types_step d ts)) \<and>
   (\<forall>t l. (t, Some l) \<in> set (foldl from_types_step d ts) \<longrightarrow> distinct l)"
  if "distinct (map fst d)" "\<And>t l. (t, Some l) \<in> set d \<Longrightarrow> distinct l"
  using that
proof (induction ts arbitrary: d)
  case (Cons x ts)
  from from_types_step_inv [OF Cons.prems, where x = x] show ?case
    using Cons.IH [of "from_types_step d x"] by simp
qed simp

lemma sf_wf_recompose: "sf_wf (recompose_from_four_parts q)"
  unfolding recompose_from_four_parts_def Let_def
  by (intro sf_wf_freeze distinct_add_state_keys distinct_dict_update) (auto intro: distinct_dict_update)

text \<open>
  The type invariant: every filter the class can build has each type once and no wildcard
  entry beside \<open>include_others\<close>, whatever it is built from.
\<close>

theorem state_filters_well_formed:
  "sf_wf sf_all \<and> sf_wf sf_none \<and> sf_wf sf_all_non_member \<and> sf_wf (from_types ts) \<and>
   sf_wf (from_lazy_load_member_list ms) \<and> sf_wf (approx_difference f g) \<and>
   (sf_wf f \<longrightarrow> sf_wf (return_expanded f) \<and> sf_wf (fst (get_member_split f)) \<and> sf_wf (snd (get_member_split f)))"
proof -
  have base: "sf_wf sf_all" "sf_wf sf_none" "sf_wf sf_all_non_member"
    by (simp_all add: sf_all_def sf_none_def sf_all_non_member_def StateFilter_def sf_wf_alt)
  have ft: "sf_wf (from_types ts)"
    unfolding from_types_def using from_types_inv [of "[]" ts] by (intro sf_wf_StateFilter) auto
  have lazy: "sf_wf (from_lazy_load_member_list ms)"
    unfolding from_lazy_load_member_list_def by (rule sf_wf_StateFilter) auto
  have diff: "sf_wf (approx_difference f g)"
    by (simp add: approx_difference_def Let_def sf_wf_recompose)
  have one: "sf_wf (StateFilter [(Member, ks)] b)" if "sf_wf f" "map_of (sf_types f) Member = Some ks" for ks b
    using that by (intro sf_wf_StateFilter) (auto simp: sf_wf_alt dest: map_of_SomeD)
  have expd: "sf_wf (return_expanded f)" if "sf_wf f"
    using that base one by (auto simp: return_expanded_def Let_def split: option.splits)
  have split1: "sf_wf (fst (get_member_split f))" if "sf_wf f"
    using that base one by (auto simp: get_member_split_def split: option.splits)
  have split2: "sf_wf (snd (get_member_split f))" if "sf_wf f"
    using that unfolding get_member_split_def snd_conv
    by (intro sf_wf_StateFilter) (auto simp: sf_wf_alt distinct_map_filter)
  show ?thesis using base ft lazy diff expd split1 split2 by blast
qed

lemma state_filters_well_formed_witness: "sf_wf (return_expanded (from_types [(Create, None), (Member, Some ''@a:s'')]))"
proof -
  have "sf_wf (from_types [(Create, None), (Member, Some ''@a:s'')])" by code_simp
  then show ?thesis using state_filters_well_formed [of "[]" "[]" "from_types [(Create, None), (Member, Some ''@a:s'')]" sf_all] by blast
qed

section \<open>Selecting state\<close>

text \<open>
  \<open>filter_state\<close> keeps exactly the entries of the state the filter matches, and a filter is
  full exactly if it matches everything.
\<close>

theorem filter_state_exact:
  assumes "sf_wf f"
  shows "filter_state f d = filter (\<lambda>(p, v). matches f p) d \<and> (is_full f \<longleftrightarrow> (\<forall>p. matches f p))"
proof -
  have full: "is_full f \<Longrightarrow> matches f p" for p
    by (simp add: is_full_def matches_def)
  have "filter_state f d = filter (\<lambda>(p, v). matches f p) d"
  proof (cases "is_full f")
    case True
    then show ?thesis by (simp add: filter_state_def full)
  next
    case False
    then show ?thesis by (simp add: filter_state_def matches_def case_prod_unfold)
  qed
  moreover have "is_full f" if all: "\<forall>p. matches f p"
  proof -
    have "finite (fst ` set (sf_types f))" by simp
    then obtain t :: string where t: "t \<notin> fst ` set (sf_types f)"
      using ex_new_if_finite infinite_UNIV_listI by blast
    then have "map_of (sf_types f) t = None" by (simp add: map_of_eq_None_iff)
    with all [rule_format, of "(t, [])"] have others: "include_others f" by (simp add: matches_def)
    have "sf_types f = []"
    proof (rule ccontr)
      assume "sf_types f \<noteq> []"
      then obtain t ks where tk: "(t, ks) \<in> set (sf_types f)" by (cases "sf_types f") auto
      with assms others obtain l where l: "ks = Some l" by (auto simp: sf_wf_alt)
      obtain k where "k \<notin> set l" using ex_new_if_finite infinite_UNIV_listI finite_set by blast
      with all [rule_format, of "(t, k)"] tk l sf_wf_distinct [OF assms] show False
        by (simp add: matches_def map_of_eq_Some_iff [THEN iffD2])
    qed
    with others show ?thesis by (simp add: is_full_def)
  qed
  ultimately show ?thesis using full by blast
qed

lemma filter_state_exact_witness:
  "filter_state sf_all_non_member [((Member, ''@a:s''), 1::int), ((Create, []), 2)] = [((Create, []), 2)]"
proof -
  have wf: "sf_wf sf_all_non_member" by code_simp
  have "matches sf_all_non_member (Create, [])" "\<not> matches sf_all_non_member (Member, ''@a:s'')" by code_simp+
  with filter_state_exact [OF wf, of "[((Member, ''@a:s''), 1::int), ((Create, []), 2)]"] show ?thesis by simp
qed

lemma return_expanded_cases:
  obtains "return_expanded f = f"
  | "return_expanded f = sf_all" "map_of (sf_types f) Member = Some None \<or> map_of (sf_types f) Member = None \<and> include_others f"
  | l where "return_expanded f = StateFilter [(Member, Some l)] True" "map_of (sf_types f) Member = Some (Some l)"
  | "return_expanded f = sf_all_non_member" "map_of (sf_types f) Member = None" "\<not> include_others f"
proof (cases rule: from_types_step_cases [of "sf_types f" Member])
  case 1
  then have "return_expanded f = f \<or> return_expanded f = sf_all"
    by (simp add: return_expanded_def Let_def)
  with 1 show thesis using that(1,2) by blast
next
  case 2
  then have "return_expanded f = f \<or> return_expanded f = sf_all \<and> include_others f \<or> return_expanded f = sf_all_non_member \<and> \<not> include_others f"
    by (simp add: return_expanded_def Let_def)
  with 2 show thesis using that(1,2,4) by blast
next
  case (3 l)
  then have "return_expanded f = f \<or> return_expanded f = StateFilter [(Member, Some l)] True"
    by (simp add: return_expanded_def Let_def)
  with 3 show thesis using that(1,3) by blast
qed

text \<open>
  \<open>return_expanded\<close> gives a superset that selects the same memberships; the two filters of
  \<open>get_member_split\<close> select, among the member and the non-member events respectively, exactly
  what the filter selects.
\<close>

theorem expanded_and_split:
  assumes "sf_wf f"
  shows "(matches f p \<longrightarrow> matches (return_expanded f) p) \<and>
    (fst p = Member \<longrightarrow> matches (return_expanded f) p = matches f p \<and>
       matches (fst (get_member_split f)) p = matches f p) \<and>
    (fst p \<noteq> Member \<longrightarrow> matches (snd (get_member_split f)) p = matches f p)"
proof -
  have all: "\<And>p. matches sf_all p" by (simp add: sf_all_def StateFilter_def matches_def)
  have nm: "\<And>p. matches sf_all_non_member p \<longleftrightarrow> fst p \<noteq> Member"
    by (simp add: sf_all_non_member_def StateFilter_def matches_def)
  have exp: "(matches f p \<longrightarrow> matches (return_expanded f) p) \<and>
      (fst p = Member \<longrightarrow> matches (return_expanded f) p = matches f p)"
  proof (cases rule: return_expanded_cases [of f])
    case 2
    then have "fst p = Member \<Longrightarrow> matches f p" by (auto simp: matches_def)
    then show ?thesis by (simp add: 2(1) all)
  next
    case (3 l)
    then show ?thesis by (simp add: StateFilter_def matches_def)
  next
    case 4
    then have "fst p = Member \<Longrightarrow> \<not> matches f p" by (simp add: matches_def)
    then show ?thesis by (auto simp: 4(1) nm)
  qed simp
  have sp: "fst p = Member \<longrightarrow> matches (fst (get_member_split f)) p = matches f p"
    by (auto simp: get_member_split_def sf_all_def sf_none_def StateFilter_def matches_def split: option.splits)
  have "matches (StateFilter (filter (\<lambda>kv. fst kv \<noteq> Member) (sf_types f)) (include_others f)) p
      = sel (include_others f) (filter (\<lambda>kv. fst kv \<noteq> Member) (sf_types f)) p"
    by (rule matches_StateFilter) (simp add: distinct_map_filter sf_wf_distinct [OF assms])
  then have sp2: "fst p \<noteq> Member \<longrightarrow> matches (snd (get_member_split f)) p = matches f p"
    by (simp add: get_member_split_def matches_sel sel_def map_of_filter_key [of "\<lambda>k. k \<noteq> Member"])
  from exp sp sp2 show ?thesis by blast
qed

lemma expanded_and_split_witness:
  "matches (return_expanded (from_types [(Create, None), (Member, Some ''@a:s'')])) (Member, ''@a:s'')"
proof -
  let ?f = "from_types [(Create, None), (Member, Some ''@a:s'')]"
  have "sf_wf ?f" "matches ?f (Member, ''@a:s'')" by code_simp+
  with expanded_and_split [of ?f "(Member, ''@a:s'')"] show ?thesis by simp
qed

lemma sel_from_types_step:
  "sel False (from_types_step d (t0, s)) (t, k) \<longleftrightarrow> sel False d (t, k) \<or> t = t0 \<and> (s = None \<or> s = Some k)"
  by (cases rule: from_types_step_cases [of d t0]; cases s) (auto simp: sel_def from_types_step_eq)

lemma sel_from_types:
  "sel False (foldl from_types_step d ts) (t, k) \<longleftrightarrow> sel False d (t, k) \<or> (t, None) \<in> set ts \<or> (t, Some k) \<in> set ts"
proof (induction ts arbitrary: d)
  case (Cons x ts)
  then show ?case by (cases x) (auto simp: sel_from_types_step)
qed simp

lemma matches_from_types: "matches (from_types ts) (t, k) \<longleftrightarrow> (t, None) \<in> set ts \<or> (t, Some k) \<in> set ts"
proof -
  have "distinct (map fst (foldl from_types_step [] ts))" using from_types_inv [of "[]" ts] by simp
  then show ?thesis
    by (simp add: from_types_def matches_StateFilter sel_from_types) (simp add: sel_def)
qed

lemma set_to_types:
  "(t, None) \<in> set (to_types f) \<longleftrightarrow> (t, None) \<in> set (sf_types f)"
  "(t, Some k) \<in> set (to_types f) \<longleftrightarrow> (\<exists>l. (t, Some l) \<in> set (sf_types f) \<and> k \<in> set l)"
proof -
  let ?g = "\<lambda>(t, ks). case ks of None \<Rightarrow> [(t, None)] | Some l \<Rightarrow> map (\<lambda>k. (t, Some k)) l"
  have "((t, None) \<in> set (concat (map ?g xs)) \<longleftrightarrow> (t, None) \<in> set xs) \<and>
      ((t, Some k) \<in> set (concat (map ?g xs)) \<longleftrightarrow> (\<exists>l. (t, Some l) \<in> set xs \<and> k \<in> set l))" for xs
  proof (induction xs)
    case (Cons x xs)
    obtain t' ks where "x = (t', ks)" by (cases x)
    with Cons.IH show ?case by (cases ks) auto
  qed simp
  then show "(t, None) \<in> set (to_types f) \<longleftrightarrow> (t, None) \<in> set (sf_types f)"
    and "(t, Some k) \<in> set (to_types f) \<longleftrightarrow> (\<exists>l. (t, Some l) \<in> set (sf_types f) \<and> k \<in> set l)"
    unfolding to_types_def by blast+
qed

text \<open>
  \<open>from_types\<close> and \<open>to_types\<close>: a filter built from a list matches exactly the listed
  positions (a missing state key stands for the whole type), and a filter without
  \<open>include_others\<close> matches the same state after \<open>to_types\<close> and \<open>from_types\<close>.
\<close>

theorem types_roundtrip:
  "matches (from_types ts) (t, k) = ((t, None) \<in> set ts \<or> (t, Some k) \<in> set ts) \<and>
   (sf_wf f \<and> \<not> include_others f \<longrightarrow> matches (from_types (to_types f)) = matches f)"
proof -
  have "matches (from_types (to_types f)) p = matches f p" if "sf_wf f" "\<not> include_others f" for p
  proof -
    have "parts_match (decompose_into_four_parts f) p = matches f p" by (rule parts_match_decompose) fact
    with that(2) show ?thesis
      by (cases p) (auto simp: matches_from_types set_to_types parts_match_def decompose_into_four_parts_def
          wildcard_types_iff concrete_types_iff)
  qed
  then show ?thesis by (auto simp: matches_from_types fun_eq_iff)
qed

lemma types_roundtrip_witness:
  "matches (from_types (to_types (from_types [(Member, Some ''@a:s'')]))) = matches (from_types [(Member, Some ''@a:s'')])"
proof -
  have "sf_wf (from_types [(Member, Some ''@a:s'')])" "\<not> include_others (from_types [(Member, Some ''@a:s'')])"
    by code_simp+
  with types_roundtrip [where f = "from_types [(Member, Some ''@a:s'')]"] show ?thesis by blast
qed

text \<open>
  \<open>max_entries_returned\<close> is a bound: if it gives a number, filtering any state map returns
  at most that many entries.
\<close>

theorem max_entries_bound:
  assumes "sf_wf f" and "max_entries_returned f = Some n" and "distinct (map fst d)"
  shows "length (filter_state f d) \<le> n"
proof -
  from assms(2) have nw: "\<not> has_wildcards f" and n: "n = length (concrete_types f)"
    by (auto simp: max_entries_returned_def split: if_splits)
  have fs: "filter_state f d = filter (\<lambda>(p, v). matches f p) d"
  proof (cases "is_full f")
    case True
    then show ?thesis using nw by (simp add: is_full_def has_wildcards_def)
  next
    case False
    then show ?thesis by (simp add: filter_state_def matches_def case_prod_unfold)
  qed
  have "p \<in> set (concrete_types f)" if "matches f p" for p
    using that nw parts_match_decompose [OF assms(1), of p]
    by (auto simp: parts_match_def decompose_into_four_parts_def has_wildcards_def list_ex_iff wildcard_types_iff)
  then have "fst ` set (filter_state f d) \<subseteq> set (concrete_types f)" by (auto simp: fs)
  moreover have "distinct (map fst (filter_state f d))" using assms(3) by (simp add: fs distinct_map_filter)
  ultimately have "length (map fst (filter_state f d)) \<le> card (set (concrete_types f))"
    by (metis List.finite_set card_mono distinct_card list.set_map)
  then show ?thesis using n card_length [of "concrete_types f"] by simp
qed

lemma max_entries_bound_witness:
  "length (filter_state (from_types [(Create, Some [])]) [((Create, []), 1::int), ((Member, []), 2)]) \<le> 1"
  by (rule max_entries_bound) (code_simp+)

end
