(* ===== verification/Topo_Sort.thy ===== *)
theory Topo_Sort
  imports Prelude
begin

text \<open>
  \<open>lexicographical_topological_sort\<close> of \<open>state/v2.py\<close>: Kahn's algorithm on the nodes without
  outgoing edges, with a \<open>heapq\<close> that breaks ties by a key.  The loop is written over the two
  heap operations; the locale \<open>heap_queue\<close> states what it relies on, and the heap of the model,
  a sorted list, is an instance.
\<close>

section \<open>heapq\<close>

definition heapify :: "'a::linorder list \<Rightarrow> 'a list" where
  "heapify xs = sort xs"

definition heappush :: "'a::linorder \<Rightarrow> 'a list \<Rightarrow> 'a list" where
  "heappush x h = insort x h"

fun heappop :: "'a::linorder list \<Rightarrow> ('a \<times> 'a list) option" where
  "heappop [] = None"
| "heappop (x # h) = Some (x, h)"

locale heap_queue =
  fixes push :: "'k::linorder \<times> 'n::linorder \<Rightarrow> 'q \<Rightarrow> 'q"
    and pop :: "'q \<Rightarrow> (('k \<times> 'n) \<times> 'q) option"
    and items :: "'q \<Rightarrow> ('k \<times> 'n) multiset"
    and heap_inv :: "'q \<Rightarrow> bool"
  assumes push_items: "heap_inv q \<Longrightarrow> items (push x q) = add_mset x (items q)"
    and push_inv: "heap_inv q \<Longrightarrow> heap_inv (push x q)"
    and pop_None: "heap_inv q \<Longrightarrow> pop q = None \<longleftrightarrow> items q = {#}"
    and pop_min: "heap_inv q \<Longrightarrow> pop q = Some (x, q') \<Longrightarrow> x \<in># items q \<and> (\<forall>y\<in>#items q. x \<le> y)"
    and pop_items: "heap_inv q \<Longrightarrow> pop q = Some (x, q') \<Longrightarrow> items q' = items q - {#x#}"
    and pop_inv: "heap_inv q \<Longrightarrow> pop q = Some (x, q') \<Longrightarrow> heap_inv q'"

interpretation sorted_heap: heap_queue heappush heappop mset sorted
proof unfold_locales
  fix q :: "('k::linorder \<times> 'n::linorder) list" and x q'
  assume s: "sorted q"
  show "mset (heappush x q) = add_mset x (mset q)" by (simp add: heappush_def)
  show "sorted (heappush x q)" using s by (simp add: heappush_def sorted_insort)
  show "heappop q = None \<longleftrightarrow> mset q = {#}" by (cases q) auto
  assume p: "heappop q = Some (x, q')"
  show "x \<in># mset q \<and> (\<forall>y\<in>#mset q. x \<le> y)" using s p by (cases q) auto
  show "mset q' = mset q - {#x#}" using p by (cases q) auto
  show "sorted q'" using s p by (cases q) auto
qed

section \<open>The sort\<close>

text \<open>A graph is a dict from nodes to the set of nodes they refer to; sets are duplicate-free lists.\<close>

type_synonym 'n graph = "('n \<times> 'n list) list"

definition zero_outdegree :: "'n graph \<Rightarrow> ('n \<Rightarrow> 'k::linorder) \<Rightarrow> ('k \<times> 'n) list" where
  "zero_outdegree graph key = [(key n, n). (n, es) \<leftarrow> graph, es = []]"

text \<open>\<open>reverse_graph[node]\<close>: the nodes that refer to \<open>node\<close>, in the order the source adds them.\<close>

definition reverse_graph :: "'n graph \<Rightarrow> 'n \<Rightarrow> 'n list" where
  "reverse_graph graph node = map fst (filter (\<lambda>(n, es). node \<in> set es) graph)"

text \<open>The inner loop: discard the node from each parent and push the parents that are done.  It is
  \<open>None\<close> where \<open>outdegree_map[parent]\<close> raises.\<close>

fun relax_parents ::
  "('k \<times> 'n \<Rightarrow> 'q \<Rightarrow> 'q) \<Rightarrow> ('n \<Rightarrow> 'k) \<Rightarrow> 'n \<Rightarrow> 'n list \<Rightarrow> ('n \<Rightarrow> 'n list option) \<Rightarrow> 'q
   \<Rightarrow> (('n \<Rightarrow> 'n list option) \<times> 'q) option" where
  "relax_parents push key node [] out heap = Some (out, heap)"
| "relax_parents push key node (p # ps) out heap =
     (case out p of
        None \<Rightarrow> None
      | Some es \<Rightarrow>
          (let es' = removeAll node es
           in relax_parents push key node ps (out(p \<mapsto> es'))
                (if es' = [] then push (key p, p) heap else heap)))"

text \<open>The outer loop with fuel: every iteration yields a node.\<close>

fun kahn_loop ::
  "('k \<times> 'n \<Rightarrow> 'q \<Rightarrow> 'q) \<Rightarrow> ('q \<Rightarrow> (('k \<times> 'n) \<times> 'q) option) \<Rightarrow> ('n \<Rightarrow> 'k) \<Rightarrow> ('n \<Rightarrow> 'n list)
   \<Rightarrow> nat \<Rightarrow> ('n \<Rightarrow> 'n list option) \<Rightarrow> 'q \<Rightarrow> 'n list option" where
  "kahn_loop push pop key rev_graph fuel out heap =
     (case pop heap of
        None \<Rightarrow> Some []
      | Some ((_, node), heap1) \<Rightarrow>
          (case fuel of
             0 \<Rightarrow> None
           | Suc fuel' \<Rightarrow>
               (case relax_parents push key node (rev_graph node) out heap1 of
                  None \<Rightarrow> None
                | Some (out', heap2) \<Rightarrow>
                    map_option (\<lambda>ns. node # ns) (kahn_loop push pop key rev_graph fuel' out' heap2))))"

declare kahn_loop.simps [simp del]

definition lexicographical_topological_sort ::
  "'n::linorder graph \<Rightarrow> ('n \<Rightarrow> 'k::linorder) \<Rightarrow> 'n list option" where
  "lexicographical_topological_sort graph key =
     kahn_loop heappush heappop key (reverse_graph graph) (length graph) (map_of graph)
       (heapify (zero_outdegree graph key))"

section \<open>Correctness of the loop over any heap\<close>

text \<open>A graph whose references stay inside it.\<close>

definition graph_ok :: "'n graph \<Rightarrow> bool" where
  "graph_ok graph \<longleftrightarrow> distinct (map fst graph) \<and> (\<forall>(n, es)\<in>set graph. set es \<subseteq> fst ` set graph)"

definition edges :: "'n graph \<Rightarrow> 'n \<Rightarrow> 'n set" where
  "edges graph n = (case map_of graph n of None \<Rightarrow> {} | Some es \<Rightarrow> set es)"

abbreviation nodes :: "'n graph \<Rightarrow> 'n set" where
  "nodes graph \<equiv> fst ` set graph"

text \<open>The nodes that can be yielded next after the nodes of \<open>done\<close>.\<close>

definition ready :: "'n graph \<Rightarrow> 'n set \<Rightarrow> 'n set" where
  "ready graph D = {n \<in> nodes graph. n \<notin> D \<and> edges graph n \<subseteq> D}"

text \<open>Every node comes after the nodes it refers to.\<close>

definition topological :: "'n graph \<Rightarrow> 'n list \<Rightarrow> bool" where
  "topological graph ns \<longleftrightarrow> (\<forall>i<length ns. edges graph (ns ! i) \<subseteq> set (take i ns))"

text \<open>Each node is the least, by key and then by itself, of those that were ready.\<close>

definition greedy :: "'n::linorder graph \<Rightarrow> ('n \<Rightarrow> 'k::linorder) \<Rightarrow> 'n list \<Rightarrow> bool" where
  "greedy graph key ns \<longleftrightarrow>
     (\<forall>i<length ns. \<forall>m\<in>ready graph (set (take i ns)). (key (ns ! i), ns ! i) \<le> (key m, m))"

lemma edges_subset: "graph_ok graph \<Longrightarrow> edges graph n \<subseteq> nodes graph"
  by (fastforce simp: graph_ok_def edges_def split: option.splits dest: map_of_SomeD)

lemma in_graph_edges: "graph_ok graph \<Longrightarrow> (n, es) \<in> set graph \<Longrightarrow> edges graph n = set es"
  by (simp add: graph_ok_def edges_def)

lemma set_reverse_graph:
  assumes ok: "graph_ok graph"
  shows "set (reverse_graph graph node) = {p \<in> nodes graph. node \<in> edges graph p}"
proof (intro equalityI subsetI)
  fix p
  assume "p \<in> set (reverse_graph graph node)"
  then obtain es where "(p, es) \<in> set graph" "node \<in> set es" by (auto simp: reverse_graph_def)
  then show "p \<in> {p \<in> nodes graph. node \<in> edges graph p}"
    using in_graph_edges [OF ok] by force
next
  fix p
  assume "p \<in> {p \<in> nodes graph. node \<in> edges graph p}"
  then obtain es where "(p, es) \<in> set graph" "node \<in> edges graph p" by auto
  moreover from this have "node \<in> set es" using in_graph_edges [OF ok] by auto
  ultimately have "(p, es) \<in> set (filter (\<lambda>(n, es). node \<in> set es) graph)" by simp
  then show "p \<in> set (reverse_graph graph node)" unfolding reverse_graph_def by force
qed

lemma distinct_reverse_graph: "graph_ok graph \<Longrightarrow> distinct (reverse_graph graph node)"
  by (simp add: reverse_graph_def graph_ok_def distinct_map_filter)

lemma finite_ready: "finite (ready graph D)"
  by (simp add: ready_def)

lemma topological_snoc:
  "topological graph (D @ [n]) \<longleftrightarrow> topological graph D \<and> edges graph n \<subseteq> set D"
  by (auto simp: topological_def nth_append less_Suc_eq)

lemma greedy_snoc:
  "greedy graph key (D @ [n]) \<longleftrightarrow>
     greedy graph key D \<and> (\<forall>m\<in>ready graph (set D). (key n, n) \<le> (key m, m))"
  by (auto simp: greedy_def nth_append less_Suc_eq)

lemma topological_closed: "topological graph D \<Longrightarrow> p \<in> set D \<Longrightarrow> edges graph p \<subseteq> set D"
  by (auto simp: topological_def in_set_conv_nth dest: in_set_takeD)

text \<open>Yielding a ready node makes ready exactly the parents that only waited for it.\<close>

lemma ready_insert:
  assumes n: "n \<in> ready graph (set D)" and t: "topological graph D"
  shows "ready graph (set (D @ [n])) =
    (ready graph (set D) - {n}) \<union> {p \<in> nodes graph. n \<in> edges graph p \<and> edges graph p \<subseteq> insert n (set D)}"
proof -
  have p: "p \<notin> insert n (set D)" if "n \<in> edges graph p" for p
    using topological_closed [OF t, of p] n that by (auto simp: ready_def)
  show ?thesis using n p by (auto simp: ready_def)
qed

text \<open>\<open>outdegree_map\<close> after the nodes of \<open>D\<close> were yielded: what each node still waits for.\<close>

definition waiting :: "'n graph \<Rightarrow> 'n set \<Rightarrow> ('n \<Rightarrow> 'n list option) \<Rightarrow> bool" where
  "waiting graph D out \<longleftrightarrow> (\<forall>n\<in>nodes graph. \<exists>es. out n = Some es \<and> set es = edges graph n - D)"

lemma waitingE:
  assumes "waiting graph D out" "n \<in> nodes graph"
  obtains es where "out n = Some es" "set es = edges graph n - D"
  using assms unfolding waiting_def by blast

lemma waiting_last:
  assumes w: "waiting graph D out" and q: "q \<in> nodes graph"
  shows "removeAll node (the (out q)) = [] \<longleftrightarrow> edges graph q \<subseteq> insert node D"
proof -
  obtain es where "out q = Some es" "set es = edges graph q - D" using waitingE [OF w q] by blast
  moreover have "removeAll node es = [] \<longleftrightarrow> set es \<subseteq> {node}"
    by (simp flip: set_empty add: Diff_eq_empty_iff)
  ultimately show ?thesis by auto
qed

lemma waiting_step:
  assumes ok: "graph_ok graph" and w: "waiting graph D out"
  shows "waiting graph (insert node D)
    (\<lambda>p. if p \<in> set (reverse_graph graph node) then map_option (removeAll node) (out p) else out p)"
  unfolding waiting_def
proof
  fix n
  let ?ps = "reverse_graph graph node"
  let ?out = "\<lambda>p. if p \<in> set ?ps then map_option (removeAll node) (out p) else out p"
  assume n: "n \<in> nodes graph"
  obtain es where es: "out n = Some es" "set es = edges graph n - D" using waitingE [OF w n] by blast
  show "\<exists>es. ?out n = Some es \<and> set es = edges graph n - insert node D"
  proof (cases "node \<in> edges graph n")
    case True
    with n have "n \<in> set ?ps" by (simp add: set_reverse_graph [OF ok])
    with es have "?out n = Some (removeAll node es)" by simp
    then show ?thesis using es(2) by auto
  next
    case False
    with n have "n \<notin> set ?ps" by (simp add: set_reverse_graph [OF ok])
    with es have "?out n = Some es" by simp
    then show ?thesis using es(2) False by auto
  qed
qed

context heap_queue
begin

lemma relax_parents_spec:
  assumes "distinct ps" "heap_inv heap" "\<And>p. p \<in> set ps \<Longrightarrow> out p \<noteq> None"
  shows "\<exists>out' heap'. relax_parents push key node ps out heap = Some (out', heap') \<and> heap_inv heap' \<and>
    out' = (\<lambda>p. if p \<in> set ps then map_option (removeAll node) (out p) else out p) \<and>
    items heap' = items heap + mset (map (\<lambda>p. (key p, p)) (filter (\<lambda>p. removeAll node (the (out p)) = []) ps))"
  using assms
proof (induction ps arbitrary: out heap)
  case Nil
  then show ?case by simp
next
  case (Cons p ps)
  obtain es where es: "out p = Some es" using Cons.prems(3) [of p] by auto
  let ?es = "removeAll node es"
  let ?heap = "if ?es = [] then push (key p, p) heap else heap"
  let ?out = "out(p \<mapsto> ?es)"
  have inv: "heap_inv ?heap" using Cons.prems(2) by (simp add: push_inv)
  have "\<exists>out' heap'. relax_parents push key node ps ?out ?heap = Some (out', heap') \<and> heap_inv heap' \<and>
    out' = (\<lambda>q. if q \<in> set ps then map_option (removeAll node) (?out q) else ?out q) \<and>
    items heap' = items ?heap + mset (map (\<lambda>p. (key p, p)) (filter (\<lambda>q. removeAll node (the (?out q)) = []) ps))"
    by (rule Cons.IH [OF _ inv]) (use Cons.prems in auto)
  then obtain out' heap' where r: "relax_parents push key node ps ?out ?heap = Some (out', heap')" "heap_inv heap'"
    "out' = (\<lambda>q. if q \<in> set ps then map_option (removeAll node) (?out q) else ?out q)"
    "items heap' = items ?heap + mset (map (\<lambda>p. (key p, p)) (filter (\<lambda>q. removeAll node (the (?out q)) = []) ps))"
    by blast
  have f: "filter (\<lambda>q. removeAll node (the (?out q)) = []) ps = filter (\<lambda>q. removeAll node (the (out q)) = []) ps"
    using Cons.prems(1) by (intro filter_cong) auto
  have "out' = (\<lambda>q. if q \<in> set (p # ps) then map_option (removeAll node) (out q) else out q)"
    using Cons.prems(1) es by (auto simp: r(3) fun_eq_iff)
  moreover have "items heap' = items heap + mset (map (\<lambda>p. (key p, p)) (filter (\<lambda>q. removeAll node (the (out q)) = []) (p # ps)))"
    using Cons.prems(2) unfolding r(4) f by (simp add: es push_items)
  ultimately show ?case using r(1,2) es by (simp add: Let_def)
qed

definition loop_inv where
  "loop_inv graph key D out heap \<longleftrightarrow>
     heap_inv heap \<and> distinct D \<and> set D \<subseteq> nodes graph \<and> topological graph D \<and> greedy graph key D \<and>
     waiting graph (set D) out \<and>
     items heap = image_mset (\<lambda>n. (key n, n)) (mset_set (ready graph (set D)))"

lemma loop_inv_step:
  assumes ok: "graph_ok graph" and inv: "loop_inv graph key D out heap"
    and p: "pop heap = Some ((k, node), heap1)"
  shows "\<exists>out' heap2. relax_parents push key node (reverse_graph graph node) out heap1 = Some (out', heap2)
    \<and> loop_inv graph key (D @ [node]) out' heap2"
proof -
  let ?f = "\<lambda>n. (key n, n)" and ?R = "ready graph (set D)" and ?ps = "reverse_graph graph node"
  have h: "heap_inv heap" "distinct D" "set D \<subseteq> nodes graph" "topological graph D" "greedy graph key D"
    and out: "waiting graph (set D) out"
    and items: "items heap = image_mset ?f (mset_set ?R)"
    using inv by (auto simp: loop_inv_def)
  have mem: "(k, node) \<in># items heap" and least: "\<forall>y\<in>#items heap. (k, node) \<le> y"
    using pop_min [OF h(1) p] by auto
  have k: "k = key node" and node: "node \<in> ?R" using mem by (auto simp: items finite_ready)
  have h1: "heap_inv heap1" using pop_inv [OF h(1) p] .
  have items1: "items heap1 = image_mset ?f (mset_set (?R - {node}))"
    using pop_items [OF h(1) p] mset_set.remove [OF finite_ready node] by (simp add: items k)
  have out_ps: "out q \<noteq> None" if "q \<in> set ?ps" for q
  proof -
    from that have "q \<in> nodes graph" by (simp add: set_reverse_graph [OF ok])
    then show ?thesis using waitingE [OF out] by blast
  qed
  obtain out' heap2 where r: "relax_parents push key node ?ps out heap1 = Some (out', heap2)"
    "heap_inv heap2"
    and out': "out' = (\<lambda>p. if p \<in> set ?ps then map_option (removeAll node) (out p) else out p)"
    and items2: "items heap2 = items heap1 + mset (map ?f (filter (\<lambda>p. removeAll node (the (out p)) = []) ?ps))"
    using relax_parents_spec [where ps = ?ps and out = out and key = key and node = node,
      OF distinct_reverse_graph [OF ok] h1 out_ps] by blast
  let ?N = "{p \<in> nodes graph. node \<in> edges graph p \<and> edges graph p \<subseteq> insert node (set D)}"
  have new: "set (filter (\<lambda>p. removeAll node (the (out p)) = []) ?ps) = ?N"
    using waiting_last [OF out] by (auto simp: set_reverse_graph [OF ok])
  have ready': "ready graph (set (D @ [node])) = (?R - {node}) \<union> ?N"
    by (rule ready_insert [OF node h(4)])
  have disj: "(?R - {node}) \<inter> ?N = {}" using node by (auto simp: ready_def)
  have "mset (filter (\<lambda>p. removeAll node (the (out p)) = []) ?ps) = mset_set ?N"
    unfolding new [symmetric] by (rule mset_set_set [symmetric]) (simp add: distinct_reverse_graph [OF ok])
  then have "items heap2 = image_mset ?f (mset_set (?R - {node}) + mset_set ?N)"
    by (simp add: items1 items2)
  also have "mset_set (?R - {node}) + mset_set ?N = mset_set (ready graph (set (D @ [node])))"
    unfolding ready' by (rule mset_set_Union [symmetric, OF _ _ disj]) (auto simp: finite_ready)
  finally have "items heap2 = image_mset ?f (mset_set (ready graph (set (D @ [node]))))" .
  moreover have "topological graph (D @ [node])" "distinct (D @ [node])" "set (D @ [node]) \<subseteq> nodes graph"
    using h node by (auto simp: topological_snoc ready_def)
  moreover have "greedy graph key (D @ [node])"
    using h(5) least by (simp add: greedy_snoc items finite_ready k)
  moreover have "waiting graph (set (D @ [node])) out'"
    using waiting_step [OF ok out, of node] by (simp add: out')
  ultimately show ?thesis using r by (auto simp: loop_inv_def)
qed

lemma kahn_loop_spec:
  assumes ok: "graph_ok graph"
  shows "loop_inv graph key D out heap \<Longrightarrow> length graph \<le> fuel + length D \<Longrightarrow>
    \<exists>ns. kahn_loop push pop key (reverse_graph graph) fuel out heap = Some ns \<and>
      distinct (D @ ns) \<and> set (D @ ns) \<subseteq> nodes graph \<and> topological graph (D @ ns) \<and>
      greedy graph key (D @ ns) \<and> ready graph (set (D @ ns)) = {}"
proof (induction fuel arbitrary: D out heap)
  case 0
  have h: "heap_inv heap" "distinct D" "set D \<subseteq> nodes graph" "topological graph D" "greedy graph key D"
    "items heap = image_mset (\<lambda>n. (key n, n)) (mset_set (ready graph (set D)))"
    using 0(1) by (auto simp: loop_inv_def)
  have "card (nodes graph) = length graph"
    using ok distinct_card [of "map fst graph"] by (simp add: graph_ok_def)
  then have "set D = nodes graph"
    using 0(2) h(2,3) by (intro card_seteq) (auto simp: distinct_card)
  then have "ready graph (set D) = {}" by (auto simp: ready_def)
  then show ?case using h pop_None [OF h(1)] by (simp add: kahn_loop.simps)
next
  case (Suc fuel)
  have h: "heap_inv heap" "distinct D" "set D \<subseteq> nodes graph" "topological graph D" "greedy graph key D"
    "items heap = image_mset (\<lambda>n. (key n, n)) (mset_set (ready graph (set D)))"
    using Suc.prems(1) by (auto simp: loop_inv_def)
  show ?case
  proof (cases "pop heap")
    case None
    then have "ready graph (set D) = {}"
      using pop_None [OF h(1)] h(6) by (simp add: mset_set_empty_iff finite_ready)
    then show ?thesis using h None by (simp add: kahn_loop.simps)
  next
    case (Some p)
    then obtain k node heap1 where p: "pop heap = Some ((k, node), heap1)" by (cases p) auto
    obtain out' heap2 where r: "relax_parents push key node (reverse_graph graph node) out heap1 = Some (out', heap2)"
      and inv: "loop_inv graph key (D @ [node]) out' heap2"
      using loop_inv_step [OF ok Suc.prems(1) p] by blast
    have "length graph \<le> fuel + length (D @ [node])" using Suc.prems(2) by simp
    from Suc.IH [OF inv this] obtain ns where
      "kahn_loop push pop key (reverse_graph graph) fuel out' heap2 = Some ns"
      "distinct (D @ node # ns)" "set (D @ node # ns) \<subseteq> nodes graph" "topological graph (D @ node # ns)"
      "greedy graph key (D @ node # ns)" "ready graph (set (D @ node # ns)) = {}"
      by auto
    then show ?thesis using p r by (subst kahn_loop.simps) auto
  qed
qed

end

section \<open>What the sort returns\<close>

lemma initial_ready:
  assumes "graph_ok graph"
  shows "mset (heapify (zero_outdegree graph key)) = image_mset (\<lambda>n. (key n, n)) (mset_set (ready graph {}))"
proof -
  let ?z = "map fst (filter (\<lambda>(n, es). es = []) graph)"
  have "zero_outdegree graph key = map (\<lambda>n. (key n, n)) ?z"
    unfolding zero_outdegree_def by (induction graph) auto
  moreover have "set ?z = ready graph {}"
    using in_graph_edges [OF assms] by (force simp: ready_def)
  moreover have "distinct ?z" using assms by (simp add: graph_ok_def distinct_map_filter)
  ultimately have z: "zero_outdegree graph key = map (\<lambda>n. (key n, n)) ?z"
    and "mset ?z = mset_set (ready graph {})"
    using mset_set_set [of ?z] by simp_all
  then have "mset (zero_outdegree graph key) = image_mset (\<lambda>n. (key n, n)) (mset_set (ready graph {}))"
    by (simp only: z mset_map [of _ ?z])
  then show ?thesis by (simp add: heapify_def)
qed

lemma sort_result:
  assumes ok: "graph_ok graph"
  shows "\<exists>ns. lexicographical_topological_sort graph key = Some ns \<and> distinct ns \<and> set ns \<subseteq> nodes graph \<and>
    topological graph ns \<and> greedy graph key ns \<and> ready graph (set ns) = {}"
proof -
  have "\<exists>es. map_of graph n = Some es \<and> set es = edges graph n" if "n \<in> nodes graph" for n
    using that by (auto simp: edges_def split: option.splits dest: weak_map_of_SomeI)
  then have "sorted_heap.loop_inv graph key [] (map_of graph) (heapify (zero_outdegree graph key))"
    using initial_ready [OF ok, of key]
    by (simp add: sorted_heap.loop_inv_def waiting_def heapify_def topological_def greedy_def)
  from sorted_heap.kahn_loop_spec [OF ok this, of "length graph"] show ?thesis
    by (simp add: lexicographical_topological_sort_def)
qed

lemma acyclic_complete:
  fixes rank :: "'n \<Rightarrow> nat"
  assumes fin: "ready graph D = {}" and ok: "graph_ok graph"
    and rank: "\<And>n m. m \<in> edges graph n \<Longrightarrow> rank m < rank n"
  shows "nodes graph \<subseteq> D"
proof
  fix n
  assume "n \<in> nodes graph"
  then show "n \<in> D"
  proof (induction "rank n" arbitrary: n rule: less_induct)
    case less
    have "edges graph n \<subseteq> D"
      using less.hyps rank edges_subset [OF ok, of n] by blast
    then show ?case using less.prems fin by (auto simp: ready_def)
  qed
qed

lemma ready_cong:
  "nodes g = nodes h \<Longrightarrow> (\<And>n. edges g n = edges h n) \<Longrightarrow> ready g D = ready h D"
  by (simp add: ready_def)

text \<open>A greedy order is determined by the relation and the key: it does not depend on the order in
  which the dict lists its nodes or a set its members.\<close>

lemma greedy_step_unique:
  assumes g: "greedy graph key ns" "topological graph ns" "distinct ns" "set ns \<subseteq> nodes graph"
    and h: "greedy graph key ms" "topological graph ms" "distinct ms" "set ms \<subseteq> nodes graph"
    and i: "i < length ns" "i < length ms" and eq: "take i ns = take i ms"
  shows "ns ! i = ms ! i"
proof -
  have r: "xs ! i \<in> ready graph (set (take i xs))"
    if "topological graph xs" "distinct xs" "set xs \<subseteq> nodes graph" "i < length xs" for xs
  proof -
    have "xs ! i \<notin> set (take i xs)"
      using that(2,4) by (auto simp: in_set_conv_nth nth_eq_iff_index_eq)
    then show ?thesis using that by (auto simp: ready_def topological_def)
  qed
  have "(key (ns ! i), ns ! i) \<le> (key (ms ! i), ms ! i)" "(key (ms ! i), ms ! i) \<le> (key (ns ! i), ns ! i)"
    using g h i r [of ns] r [of ms] eq by (simp_all add: greedy_def)
  then show ?thesis by (meson order_antisym prod.inject)
qed

lemma greedy_unique:
  assumes g: "greedy graph key ns" "topological graph ns" "distinct ns" "set ns \<subseteq> nodes graph"
    and h: "greedy graph key ms" "topological graph ms" "distinct ms" "set ms \<subseteq> nodes graph"
    and e: "ready graph (set ns) = {}" "ready graph (set ms) = {}"
  shows "ns = ms"
proof -
  have t: "take i ns = take i ms" if "i \<le> length ns" "i \<le> length ms" for i
    using that
  proof (induction i)
    case (Suc i)
    then have "ns ! i = ms ! i" by (intro greedy_step_unique [OF g h]) auto
    with Suc show ?case by (simp add: take_Suc_conv_app_nth)
  qed simp
  have n: False if "take (length xs) ys = xs" "length xs < length ys" "ready graph (set xs) = {}"
    "topological graph ys" "distinct ys" "set ys \<subseteq> nodes graph" for xs ys
  proof -
    have "ys ! length xs \<notin> set (take (length xs) ys)"
      using that(2,5) by (auto simp: in_set_conv_nth nth_eq_iff_index_eq)
    moreover have "edges graph (ys ! length xs) \<subseteq> set (take (length xs) ys)"
      using that(2,4) by (simp add: topological_def)
    moreover have "ys ! length xs \<in> nodes graph" using that(2,6) by auto
    ultimately show False using that(1,3) by (auto simp: ready_def)
  qed
  have "length ns = length ms"
  proof (rule linorder_cases [of "length ns" "length ms"])
    assume l: "length ns < length ms"
    then show ?thesis using n [of ns ms] t [of "length ns"] e(1) h(2-4) by auto
  next
    assume l: "length ms < length ns"
    then show ?thesis using n [of ms ns] t [of "length ms"] e(2) g(2-4) by auto
  qed
  then show ?thesis using t [of "length ns"] by simp
qed

text \<open>
  C12. On an acyclic graph the sort returns every node exactly once, each after the nodes it
  refers to, always choosing the least ready node by key and then by name; this order is
  the only one of that kind, so it does not depend on how the graph is laid out.
\<close>

theorem lexicographical_topological_sort_correct:
  fixes rank :: "'n::linorder \<Rightarrow> nat"
  assumes "graph_ok graph" and "\<And>n m. m \<in> edges graph n \<Longrightarrow> rank m < rank n"
  shows "\<exists>ns. lexicographical_topological_sort graph key = Some ns \<and> distinct ns \<and> set ns = nodes graph \<and>
    topological graph ns \<and> greedy graph key ns \<and>
    (\<forall>ms. distinct ms \<and> set ms = nodes graph \<and> topological graph ms \<and> greedy graph key ms \<longrightarrow> ms = ns)"
proof -
  obtain ns where ns: "lexicographical_topological_sort graph key = Some ns" "distinct ns" "set ns \<subseteq> nodes graph"
    "topological graph ns" "greedy graph key ns" "ready graph (set ns) = {}"
    using sort_result [OF assms(1)] by blast
  have all: "set ns = nodes graph" using ns(3) acyclic_complete [of graph "set ns" rank, OF ns(6) assms] by blast
  have "ms = ns" if "distinct ms" "set ms = nodes graph" "topological graph ms" "greedy graph key ms" for ms
    by (rule greedy_unique [of graph key]) (use that ns all in auto)
  then show ?thesis using ns all by blast
qed

definition diamond :: "nat graph" where
  "diamond = [(4, [2, 3]), (3, [1]), (2, [1]), (1, [])]"

theorem lexicographical_topological_sort_correct_witness:
  "graph_ok diamond \<and> (\<exists>ns. lexicographical_topological_sort diamond (\<lambda>n. 10 - n) = Some ns \<and>
     distinct ns \<and> set ns = nodes diamond \<and> topological diamond ns)"
proof -
  have ok: "graph_ok diamond" by (auto simp: graph_ok_def diamond_def)
  have "m < n" if "m \<in> edges diamond n" for m n
    using that by (auto simp: edges_def diamond_def split: if_splits)
  from lexicographical_topological_sort_correct [of diamond "\<lambda>n. n" "\<lambda>n. 10 - n", OF ok this] ok show ?thesis by blast
qed

end
