(* ===== verification/Outcomes.thy ===== *)
theory Outcomes
  imports Prelude
begin

text \<open>
  Code that may raise and whose loops need not end: the outcome is \<open>None\<close> for a run that does
  not end.  \<open>whileR\<close> is a \<open>while\<close> loop whose body may raise; the rules below give partial
  correctness by an invariant and termination by a well-founded relation.
\<close>

type_synonym 'a outcome = "'a result option"

fun bindO :: "'a outcome \<Rightarrow> ('a \<Rightarrow> 'b outcome) \<Rightarrow> 'b outcome" where
  "bindO None f = None"
| "bindO (Some (Inl e)) f = Some (Inl e)"
| "bindO (Some (Inr x)) f = f x"

abbreviation liftO :: "'a result \<Rightarrow> 'a outcome" where
  "liftO r \<equiv> Some r"

fun foldO :: "('s \<Rightarrow> 'a \<Rightarrow> 's outcome) \<Rightarrow> 's \<Rightarrow> 'a list \<Rightarrow> 's outcome" where
  "foldO f s [] = Some (Inr s)"
| "foldO f s (x # xs) = bindO (f s x) (\<lambda>s'. foldO f s' xs)"

partial_function (option) whileR :: "('s \<Rightarrow> bool) \<Rightarrow> ('s \<Rightarrow> 's result) \<Rightarrow> 's \<Rightarrow> 's outcome" where
  [code]: "whileR b c s =
     (if b s then (case c s of Inl e \<Rightarrow> Some (Inl e) | Inr s' \<Rightarrow> whileR b c s') else Some (Inr s))"

named_theorems outcome_simps "rewriting of outcomes"

lemma bindO_Inr_iff [outcome_simps]:
  "bindO m f = Some (Inr y) \<longleftrightarrow> (\<exists>x. m = Some (Inr x) \<and> f x = Some (Inr y))"
  by (cases "(m, f)" rule: bindO.cases) auto

lemma bindO_None_iff: "bindO m f = None \<longleftrightarrow> m = None \<or> (\<exists>x. m = Some (Inr x) \<and> f x = None)"
  by (cases "(m, f)" rule: bindO.cases) auto

lemma bindO_ends: "m \<noteq> None \<Longrightarrow> (\<And>x. m = Some (Inr x) \<Longrightarrow> f x \<noteq> None) \<Longrightarrow> bindO m f \<noteq> None"
  by (auto simp: bindO_None_iff)

lemma bindO_cong [fundef_cong]:
  "m = m' \<Longrightarrow> (\<And>x. m' = Some (Inr x) \<Longrightarrow> f x = f' x) \<Longrightarrow> bindO m f = bindO m' f'"
  by (cases "(m', f)" rule: bindO.cases) auto

text \<open>A loop is judged by what holds of its state: the rule for results.\<close>

lemma whileR_invariant:
  assumes run: "whileR b c s = Some (Inr t)" and init: "I s"
    and step: "\<And>s s'. I s \<Longrightarrow> b s \<Longrightarrow> c s = Inr s' \<Longrightarrow> I s'"
  shows "I t \<and> \<not> b t"
proof -
  define P where "P b c s r \<longleftrightarrow> (\<forall>s s'. I s \<longrightarrow> b s \<longrightarrow> c s = Inr s' \<longrightarrow> I s') \<longrightarrow>
    I s \<longrightarrow> (\<forall>t. r = Inr t \<longrightarrow> I t \<and> \<not> b t)" 
    for b and c :: "'a \<Rightarrow> 'a result" and s and r :: "'a result"
  have "P b c s (Inr t)"
  proof (rule whileR.raw_induct [where P = P, OF _ run])
    fix w b c s r
    assume IH: "\<And>b c s y. w b c s = Some y \<Longrightarrow> P b c s y"
      and r: "(if b s then case c s of Inl e \<Rightarrow> Some (Inl e) | Inr s' \<Rightarrow> w b c s' else Some (Inr s)) = Some r"
    show "P b c s r"
    proof (cases "b s")
      case True
      note b = this
      show ?thesis
      proof (cases "c s")
        case (Inl e)
        then show ?thesis using r b by (auto simp: P_def)
      next
        case (Inr s')
        then have "P b c s' r" using IH r b by simp
        then show ?thesis using b Inr unfolding P_def by blast
      qed
    qed (use r in \<open>auto simp: P_def\<close>)
  qed
  then show ?thesis using step init unfolding P_def by blast
qed

lemma whileR_ends:
  assumes wf: "wf R" and init: "I s"
    and step: "\<And>s s'. I s \<Longrightarrow> b s \<Longrightarrow> c s = Inr s' \<Longrightarrow> I s' \<and> (s', s) \<in> R"
  shows "whileR b c s \<noteq> None"
  using wf init
proof (induction s rule: wf_induct_rule)
  case (less s)
  show ?case
  proof (cases "b s")
    case True
    then show ?thesis
      by (subst whileR.simps) (use step less in \<open>auto split: sum.splits\<close>)
  qed (simp add: whileR.simps)
qed

lemma foldO_ends:
  assumes "I s" and "\<And>s x. x \<in> set xs \<Longrightarrow> I s \<Longrightarrow> f s x \<noteq> None"
    and "\<And>s x t. x \<in> set xs \<Longrightarrow> I s \<Longrightarrow> f s x = Some (Inr t) \<Longrightarrow> I t"
  shows "foldO f s xs \<noteq> None"
  using assms
proof (induction xs arbitrary: s)
  case (Cons x xs)
  have "foldO f t xs \<noteq> None" if "f s x = Some (Inr t)" for t
  proof (rule Cons.IH)
    show "I t" using Cons.prems(1,3) that by (meson list.set_intros(1))
    show "f s y \<noteq> None" if "y \<in> set xs" "I s" for s y using Cons.prems(2) that by simp
    show "I u" if "y \<in> set xs" "I s" "f s y = Some (Inr u)" for s y u
      using Cons.prems(3) that by (meson list.set_intros(2))
  qed
  moreover have "f s x \<noteq> None" using Cons.prems(1,2) by simp
  ultimately show ?case by (simp add: bindO_ends del: not_None_eq)
qed simp

lemma foldO_invariant:
  assumes "foldO f s xs = Some (Inr t)" and "I s"
    and "\<And>s x t. x \<in> set xs \<Longrightarrow> I s \<Longrightarrow> f s x = Some (Inr t) \<Longrightarrow> I t"
  shows "I t"
  using assms
proof (induction xs arbitrary: s)
  case (Cons x xs)
  from Cons.prems(1) obtain u where u: "f s x = Some (Inr u)" "foldO f u xs = Some (Inr t)"
    by (auto simp: bindO_Inr_iff)
  have "I u" using Cons.prems(2,3) u(1) by auto
  with u(2) show ?case by (rule Cons.IH) (use Cons.prems(3) in auto)
qed simp

end
