(* ===== verification/State_Res_V2.thy ===== *)
theory State_Res_V2
  imports Event_Auth Topo_Sort Outcomes
begin

text \<open>
  State resolution version 2 (\<open>state/v2.py\<close>), the whole algorithm.  \<open>event_map\<close> is the dict the
  code uses as a cache, passed along and returned; the store is a record of the two functions
  the code calls on it.  Python sets are duplicate-free lists; nothing proved here depends on their
  order.  A run that does not end is \<open>None\<close>.  \<open>clock.sleep(0)\<close> and logging have no effect on the
  state and are left out.
\<close>

type_synonym event_map = "(string \<times> event) list"
type_synonym state_dict = "(state_pos \<times> string) list"

record state_res_store =
  srs_get_events :: "string list \<Rightarrow> (string \<times> event) list"
  srs_auth_chain_difference :: "string \<Rightarrow> string list list \<Rightarrow> string list"

section \<open>Events from the map or the store\<close>

definition get_event ::
  "state_res_store \<Rightarrow> string \<Rightarrow> bool \<Rightarrow> string \<Rightarrow> event_map \<Rightarrow> (event option \<times> event_map) result" where
  "get_event store room allow_none eid emap =
     (let emap' = (if map_of emap eid = None then dict_update emap (srs_get_events store [eid]) else emap)
      in case map_of emap' eid of
           None \<Rightarrow> if allow_none then Inr (None, emap') else Inl GenericException
         | Some e \<Rightarrow> if room_id e \<noteq> room then Inl GenericException else Inr (Some e, emap'))"

text \<open>\<open>_get_event\<close> with \<open>allow_none=False\<close>, which never returns \<open>None\<close>.\<close>

definition the_event :: "state_res_store \<Rightarrow> string \<Rightarrow> string \<Rightarrow> event_map \<Rightarrow> (event \<times> event_map) result" where
  "the_event store room eid emap =
     bindR (get_event store room False eid emap) (\<lambda>(ev, emap').
       case ev of None \<Rightarrow> Inl GenericException | Some e \<Rightarrow> Inr (e, emap'))"

text \<open>The loop over auth events that stops at the first event with the given type and state key.\<close>

fun find_auth_event ::
  "state_res_store \<Rightarrow> string \<Rightarrow> state_pos \<Rightarrow> string list \<Rightarrow> event_map
   \<Rightarrow> ((string \<times> event) option \<times> event_map) result" where
  "find_auth_event store room pos [] emap = Inr (None, emap)"
| "find_auth_event store room pos (aid # aids) emap =
     bindR (get_event store room True aid emap) (\<lambda>(aev, emap').
       case aev of
         None \<Rightarrow> find_auth_event store room pos aids emap'
       | Some ev \<Rightarrow>
           bindR (state_pos ev) (\<lambda>p.
             if p = pos then Inr (Some (aid, ev), emap')
             else find_auth_event store room pos aids emap'))"

section \<open>The power level of a sender\<close>

definition creator_level :: "(string \<times> event) option \<Rightarrow> string \<Rightarrow> int" where
  "creator_level create user =
     (case create of
        None \<Rightarrow> 0
      | Some (_, aev) \<Rightarrow> if content_get aev ''creator'' JNull = JStr user then 100 else 0)"

definition level_of_user :: "event \<Rightarrow> string \<Rightarrow> int result" where
  "level_of_user plev user =
     bindR (py_get (content_get plev ''users'' (JObj [])) user JNull) (\<lambda>lvl.
       let level = (if lvl = JNull then content_get plev ''users_default'' (JInt 0) else lvl)
       in if level = JNull then Inr 0 else py_int level)"

definition get_power_level_for_sender ::
  "state_res_store \<Rightarrow> string \<Rightarrow> string \<Rightarrow> event_map \<Rightarrow> (int \<times> event_map) result" where
  "get_power_level_for_sender store room eid emap =
     bindR (the_event store room eid emap) (\<lambda>(ev, emap1).
     bindR (find_auth_event store room (PowerLevels, '''') (auth_event_ids ev) emap1) (\<lambda>(pl, emap2).
       case pl of
         None \<Rightarrow>
           bindR (find_auth_event store room (Create, '''') (auth_event_ids ev) emap2) (\<lambda>(create, emap3).
             Inr (creator_level create (sender ev), emap3))
       | Some (_, plev) \<Rightarrow> bindR (level_of_user plev (sender ev)) (\<lambda>n. Inr (n, emap2))))"

section \<open>The auth chain difference\<close>

text \<open>One round of the search: pop an event, add its auth events to the chain, and queue those that
  are not persisted.  The top of the stack is the head of the list.\<close>

definition search_event ::
  "event_map \<Rightarrow> event \<Rightarrow> event list \<times> string list \<Rightarrow> event list \<times> string list" where
  "search_event unpersisted ev s =
     foldl (\<lambda>(to_search, chain) aid.
         (case map_of unpersisted aid of None \<Rightarrow> to_search | Some a \<Rightarrow> a # to_search, List.insert aid chain))
       s (auth_event_ids ev)"

definition search_step :: "event_map \<Rightarrow> event list \<times> string list \<Rightarrow> (event list \<times> string list) result" where
  "search_step unpersisted s =
     (case fst s of [] \<Rightarrow> Inl IndexErr | ev # rest \<Rightarrow> Inr (search_event unpersisted ev (rest, snd s)))"

definition auth_chain :: "event_map \<Rightarrow> event \<Rightarrow> string list outcome" where
  "auth_chain unpersisted ev =
     bindO (whileR (\<lambda>s. fst s \<noteq> []) (search_step unpersisted) ([ev], [ev_id ev])) (\<lambda>s. Some (Inr (snd s)))"

definition events_to_auth_chain :: "event_map \<Rightarrow> (string \<times> string list) list outcome" where
  "events_to_auth_chain unpersisted =
     foldO (\<lambda>chain_map (_, ev). bindO (auth_chain unpersisted ev) (\<lambda>chain.
         Some (Inr (AList.update (ev_id ev) chain chain_map)))) [] unpersisted"

text \<open>The persisted and the unpersisted ids reachable from one state set.\<close>

definition split_state_set ::
  "event_map \<Rightarrow> (string \<times> string list) list \<Rightarrow> state_dict \<Rightarrow> string list \<times> string list" where
  "split_state_set unpersisted chain_map state_set =
     foldl (\<lambda>(set_ids, unpersisted_ids) eid.
         case map_of chain_map eid of
           None \<Rightarrow> (List.insert eid set_ids, unpersisted_ids)
         | Some chain \<Rightarrow>
             (List.union (filter (\<lambda>a. map_of unpersisted a = None) chain) set_ids,
              List.union (filter (\<lambda>a. map_of unpersisted a \<noteq> None) chain) unpersisted_ids))
       ([], []) (map snd state_set)"

text \<open>\<open>union - intersection\<close>; the first index raises on an empty list.\<close>

definition union_minus_intersection :: "'a list list \<Rightarrow> 'a list result" where
  "union_minus_intersection sets =
     (case sets of
        [] \<Rightarrow> Inl IndexErr
      | s # rest \<Rightarrow>
          Inr (filter (\<lambda>x. \<not> (\<forall>t\<in>set (s # rest). x \<in> set t)) (remdups (concat (s # rest)))))"

definition get_auth_chain_difference ::
  "state_res_store \<Rightarrow> string \<Rightarrow> state_dict list \<Rightarrow> event_map \<Rightarrow> string list outcome" where
  "get_auth_chain_difference store room state_sets unpersisted =
     bindO (events_to_auth_chain unpersisted) (\<lambda>chain_map.
       if unpersisted \<noteq> [] then
         (let split = map (split_state_set unpersisted chain_map) state_sets
          in bindO (liftO (union_minus_intersection (map snd split))) (\<lambda>unpersisted_part.
               Some (Inr (List.union (srs_auth_chain_difference store room (map fst split)) unpersisted_part))))
       else Some (Inr (srs_auth_chain_difference store room (map (\<lambda>s. remdups (map snd s)) state_sets))))"

section \<open>Conflicts\<close>

definition conflict_keys :: "state_dict list \<Rightarrow> state_pos list" where
  "conflict_keys state_sets = remdups (concat (map (map fst) state_sets))"

definition values_at :: "state_dict list \<Rightarrow> state_pos \<Rightarrow> string option list" where
  "values_at state_sets k = remdups (map (\<lambda>s. map_of s k) state_sets)"

text \<open>A key comes from some state set, so the only value of an unconflicted key is not \<open>None\<close>.\<close>

definition seperate :: "state_dict list \<Rightarrow> state_dict \<times> (state_pos \<times> string list) list" where
  "seperate state_sets =
     foldl (\<lambda>(unconflicted, conflicted) k.
         case values_at state_sets k of
           [Some v] \<Rightarrow> (AList.update k v unconflicted, conflicted)
         | ids \<Rightarrow> (unconflicted, AList.update k (List.map_filter id ids) conflicted))
       ([], []) (conflict_keys state_sets)"

definition is_power_event :: "event \<Rightarrow> bool result" where
  "is_power_event ev =
     bindR (state_pos ev) (\<lambda>p.
       if p \<in> {(PowerLevels, ''''), (JoinRules, ''''), (Create, '''')} then Inr True
       else if ev_type ev = Member then
         bindR (membership ev) (\<lambda>m.
           if m = LEAVE \<or> m = BAN then Inr (sender ev \<noteq> snd p) else Inr False)
       else Inr False)"

section \<open>Sorting the power events\<close>

type_synonym auth_graph = "string graph"

definition setdefault :: "'k \<Rightarrow> 'v \<Rightarrow> ('k \<times> 'v) list \<Rightarrow> ('k \<times> 'v) list" where
  "setdefault k v d = (case map_of d k of None \<Rightarrow> AList.update k v d | Some _ \<Rightarrow> d)"

definition add_edge :: "string \<Rightarrow> string \<Rightarrow> auth_graph \<Rightarrow> auth_graph" where
  "add_edge eid aid graph =
     (case map_of graph eid of
        None \<Rightarrow> AList.update eid [aid] graph
      | Some es \<Rightarrow> AList.update eid (List.insert aid es) graph)"

text \<open>The loop over the auth events of \<open>eid\<close>.\<close>

definition add_auth_edges ::
  "string list \<Rightarrow> string \<Rightarrow> string list \<Rightarrow> string list \<times> auth_graph \<Rightarrow> string list \<times> auth_graph" where
  "add_auth_edges full_conflicted eid aids s =
     foldl (\<lambda>(stack, graph) aid.
         if aid \<in> set full_conflicted
         then (if map_of graph aid = None then aid # stack else stack, add_edge eid aid graph)
         else (stack, graph))
       s aids"

definition add_chain_step ::
  "state_res_store \<Rightarrow> string \<Rightarrow> string list \<Rightarrow> string list \<times> auth_graph \<times> event_map
   \<Rightarrow> (string list \<times> auth_graph \<times> event_map) result" where
  "add_chain_step store room full_conflicted s =
     (case s of
        ([], graph, emap) \<Rightarrow> Inl IndexErr
      | (eid # stack, graph, emap) \<Rightarrow>
          bindR (the_event store room eid emap) (\<lambda>(ev, emap').
            let (stack', graph') = add_auth_edges full_conflicted eid (auth_event_ids ev)
                                     (stack, setdefault eid [] graph)
            in Inr (stack', graph', emap')))"

definition add_event_and_auth_chain_to_graph ::
  "state_res_store \<Rightarrow> string \<Rightarrow> string list \<Rightarrow> string \<Rightarrow> auth_graph \<times> event_map
   \<Rightarrow> (auth_graph \<times> event_map) outcome" where
  "add_event_and_auth_chain_to_graph store room full_conflicted eid ge =
     bindO (whileR (\<lambda>s. fst s \<noteq> []) (add_chain_step store room full_conflicted) ([eid], fst ge, snd ge))
       (\<lambda>s. Some (Inr (snd s)))"

type_synonym power_order = "int \<times> int \<times> string"

definition get_power_order :: "event_map \<Rightarrow> (string \<times> int) list \<Rightarrow> string \<Rightarrow> power_order result" where
  "get_power_order emap event_to_pl eid =
     (case (map_of emap eid, map_of event_to_pl eid) of
        (Some ev, Some pl) \<Rightarrow> Inr (- pl, origin_server_ts ev, eid)
      | _ \<Rightarrow> Inl KeyErr)"

definition senders_power ::
  "state_res_store \<Rightarrow> string \<Rightarrow> string list \<Rightarrow> event_map \<Rightarrow> ((string \<times> int) list \<times> event_map) result" where
  "senders_power store room eids emap =
     foldR (\<lambda>(pls, m) eid. bindR (get_power_level_for_sender store room eid m) (\<lambda>(pl, m').
         Inr (AList.update eid pl pls, m'))) ([], emap) eids"

definition reverse_topological_power_sort ::
  "state_res_store \<Rightarrow> string \<Rightarrow> string list \<Rightarrow> event_map \<Rightarrow> string list
   \<Rightarrow> (string list \<times> event_map) outcome" where
  "reverse_topological_power_sort store room event_ids emap full_conflicted =
     bindO (foldO (\<lambda>ge eid. add_event_and_auth_chain_to_graph store room full_conflicted eid ge)
              ([], emap) event_ids) (\<lambda>(graph, emap1).
     bindO (liftO (senders_power store room (map fst graph) emap1)) (\<lambda>(event_to_pl, emap2).
     bindO (liftO (mapR (get_power_order emap2 event_to_pl) (map fst graph))) (\<lambda>orders.
       let key = (\<lambda>eid. case map_of (zip (map fst graph) orders) eid of
                    None \<Rightarrow> (0, 0, eid) | Some k \<Rightarrow> k)
       in case lexicographical_topological_sort graph key of
            None \<Rightarrow> Some (Inl KeyErr)
          | Some sorted_events \<Rightarrow> Some (Inr (sorted_events, emap2)))))"

section \<open>The iterative auth checks\<close>

text \<open>The auth events of the event itself, unless they are missing or rejected.\<close>

definition own_auth_events ::
  "state_res_store \<Rightarrow> string \<Rightarrow> string list \<Rightarrow> event_map
   \<Rightarrow> ((state_pos \<times> event) list \<times> event_map) result" where
  "own_auth_events store room aids emap =
     foldR (\<lambda>(auth, m) aid. bindR (get_event store room True aid m) (\<lambda>(ev, m').
         case ev of
           None \<Rightarrow> Inr (auth, m')
         | Some e \<Rightarrow>
             if rejected_reason e = None
             then bindR (state_pos e) (\<lambda>p. Inr (AList.update p e auth, m'))
             else Inr (auth, m'))) ([], emap) aids"

text \<open>The resolved state takes precedence over the event's own auth events.\<close>

definition resolved_auth_events ::
  "state_res_store \<Rightarrow> string \<Rightarrow> state_dict \<Rightarrow> state_pos list \<Rightarrow> (state_pos \<times> event) list \<times> event_map
   \<Rightarrow> ((state_pos \<times> event) list \<times> event_map) result" where
  "resolved_auth_events store room resolved ks am =
     foldR (\<lambda>(auth, m) k.
         case map_of resolved k of
           None \<Rightarrow> Inr (auth, m)
         | Some eid \<Rightarrow>
             bindR (the_event store room eid m) (\<lambda>(e, m').
               if rejected_reason e = None then Inr (AList.update k e auth, m') else Inr (auth, m')))
       am ks"

definition auth_check_event ::
  "verifier \<Rightarrow> state_res_store \<Rightarrow> string \<Rightarrow> room_version \<Rightarrow> state_dict \<times> event_map \<Rightarrow> string
   \<Rightarrow> (state_dict \<times> event_map) result" where
  "auth_check_event verify store room rv s eid =
     (case map_of (snd s) eid of
        None \<Rightarrow> Inl KeyErr
      | Some ev \<Rightarrow>
          bindR (own_auth_events store room (auth_event_ids ev) (snd s)) (\<lambda>own.
          bindR (auth_types_for_event rv ev) (\<lambda>ks.
          bindR (resolved_auth_events store room (fst s) (remdups ks) own) (\<lambda>(auth, emap).
            if rejected_reason ev \<noteq> None then Inr (fst s, emap)
            else
              (case check_state_dependent_auth_rules verify ev (map snd auth) of
                 Inl e \<Rightarrow> if is_AuthError e then Inr (fst s, emap) else Inl e
               | Inr ev' \<Rightarrow>
                   bindR (state_pos ev) (\<lambda>p.
                     Inr (AList.update p eid (fst s), AList.update eid ev' emap)))))))"

definition iterative_auth_checks ::
  "verifier \<Rightarrow> state_res_store \<Rightarrow> string \<Rightarrow> room_version \<Rightarrow> string list \<Rightarrow> state_dict \<Rightarrow> event_map
   \<Rightarrow> (state_dict \<times> event_map) result" where
  "iterative_auth_checks verify store room rv event_ids base_state emap =
     foldR (auth_check_event verify store room rv) (base_state, emap) event_ids"

section \<open>The mainline sort\<close>

type_synonym mainline_state = "string option \<times> string list \<times> event_map"

definition mainline_step :: "state_res_store \<Rightarrow> string \<Rightarrow> mainline_state \<Rightarrow> mainline_state result" where
  "mainline_step store room s =
     (case s of
        (None, mainline, emap) \<Rightarrow> Inl KeyErr
      | (Some pl, mainline, emap) \<Rightarrow>
          bindR (the_event store room pl emap) (\<lambda>(pl_ev, emap1).
          bindR (find_auth_event store room (PowerLevels, '''') (auth_event_ids pl_ev) emap1) (\<lambda>(next, emap2).
            Inr (map_option fst next, mainline @ [pl], emap2))))"

definition get_mainline ::
  "state_res_store \<Rightarrow> string \<Rightarrow> string option \<Rightarrow> event_map \<Rightarrow> (string list \<times> event_map) outcome" where
  "get_mainline store room pl emap =
     bindO (whileR (\<lambda>s. fst s \<noteq> None \<and> fst s \<noteq> Some []) (mainline_step store room) (pl, [], emap))
       (\<lambda>s. Some (Inr (snd s)))"

definition mainline_map :: "string list \<Rightarrow> (string \<times> nat) list" where
  "mainline_map mainline = dict_update [] (zip (rev mainline) [1..<Suc (length mainline)])"

type_synonym depth_state = "event option \<times> nat option \<times> event_map"

definition depth_step ::
  "state_res_store \<Rightarrow> string \<Rightarrow> (string \<times> nat) list \<Rightarrow> depth_state \<Rightarrow> depth_state result" where
  "depth_step store room mmap s =
     (case s of
        (None, found, emap) \<Rightarrow> Inl AttributeErr
      | (Some ev, found, emap) \<Rightarrow>
          (case map_of mmap (ev_id ev) of
             Some d \<Rightarrow> Inr (Some ev, Some d, emap)
           | None \<Rightarrow>
               bindR (find_auth_event store room (PowerLevels, '''') (auth_event_ids ev) emap) (\<lambda>(next, emap').
                 Inr (map_option snd next, None, emap'))))"

definition get_mainline_depth_for_event ::
  "state_res_store \<Rightarrow> event \<Rightarrow> (string \<times> nat) list \<Rightarrow> event_map \<Rightarrow> (nat \<times> event_map) outcome" where
  "get_mainline_depth_for_event store ev mmap emap =
     bindO (whileR (\<lambda>s. fst s \<noteq> None \<and> fst (snd s) = None) (depth_step store (room_id ev) mmap)
              (Some ev, None, emap))
       (\<lambda>(_, found, emap'). Some (Inr (case found of None \<Rightarrow> 0 | Some d \<Rightarrow> d, emap')))"

type_synonym mainline_order = "nat \<times> int \<times> string"

definition add_order ::
  "state_res_store \<Rightarrow> (string \<times> nat) list \<Rightarrow> (string \<times> mainline_order) list \<times> event_map \<Rightarrow> string
   \<Rightarrow> ((string \<times> mainline_order) list \<times> event_map) outcome" where
  "add_order store mmap s eid =
     (case map_of (snd s) eid of
        None \<Rightarrow> Some (Inl KeyErr)
      | Some ev \<Rightarrow>
          bindO (get_mainline_depth_for_event store ev mmap (snd s)) (\<lambda>(d, emap').
            Some (Inr (AList.update eid (d, origin_server_ts ev, eid) (fst s), emap'))))"

definition order_of :: "(string \<times> mainline_order) list \<Rightarrow> string \<Rightarrow> mainline_order" where
  "order_of orders eid = (case map_of orders eid of None \<Rightarrow> (0, 0, eid) | Some k \<Rightarrow> k)"

definition mainline_sort ::
  "state_res_store \<Rightarrow> string \<Rightarrow> string list \<Rightarrow> string option \<Rightarrow> event_map
   \<Rightarrow> (string list \<times> event_map) outcome" where
  "mainline_sort store room event_ids resolved_power_event_id emap =
     (if event_ids = [] then Some (Inr ([], emap))
      else
        bindO (get_mainline store room resolved_power_event_id emap) (\<lambda>(mainline, emap1).
        bindO (foldO (add_order store (mainline_map mainline)) ([], emap1) event_ids) (\<lambda>(orders, emap2).
          Some (Inr (sort_key (order_of orders) event_ids, emap2)))))"

section \<open>The resolution\<close>

fun filterR :: "('a \<Rightarrow> bool result) \<Rightarrow> 'a list \<Rightarrow> 'a list result" where
  "filterR f [] = Inr []"
| "filterR f (x # xs) = bindR (f x) (\<lambda>b. bindR (filterR f xs) (\<lambda>ys. Inr (if b then x # ys else ys)))"

definition full_conflicted_set :: "(state_pos \<times> string list) list \<Rightarrow> string list \<Rightarrow> string list" where
  "full_conflicted_set conflicted auth_diff = remdups (concat (map snd conflicted) @ auth_diff)"

text \<open>From the full conflicted set on: everything after the events were fetched and checked to be of
  the right room.\<close>

definition resolve_conflicts ::
  "verifier \<Rightarrow> state_res_store \<Rightarrow> string \<Rightarrow> room_version \<Rightarrow> state_dict \<Rightarrow> string list \<Rightarrow> event_map
   \<Rightarrow> state_dict outcome" where
  "resolve_conflicts verify store room rv unconflicted full_set emap =
     bindO (liftO (filterR (\<lambda>eid. case map_of emap eid of None \<Rightarrow> Inl KeyErr | Some ev \<Rightarrow> is_power_event ev)
                     full_set)) (\<lambda>power_events.
     bindO (reverse_topological_power_sort store room power_events emap full_set) (\<lambda>(sorted_power, emap1).
     bindO (liftO (iterative_auth_checks verify store room rv sorted_power unconflicted emap1))
       (\<lambda>(resolved1, emap2).
     let leftover = filter (\<lambda>eid. eid \<notin> set sorted_power) full_set in
     bindO (mainline_sort store room leftover (map_of resolved1 (PowerLevels, '''')) emap2)
       (\<lambda>(sorted_leftover, emap3).
     bindO (liftO (iterative_auth_checks verify store room rv sorted_leftover resolved1 emap3))
       (\<lambda>(resolved2, _). Some (Inr (dict_update resolved2 unconflicted)))))))"

definition resolve_events_with_store ::
  "verifier \<Rightarrow> state_res_store \<Rightarrow> string \<Rightarrow> room_version \<Rightarrow> state_dict list \<Rightarrow> event_map option
   \<Rightarrow> state_dict outcome" where
  "resolve_events_with_store verify store room rv state_sets event_map =
     (let emap = (case event_map of None \<Rightarrow> [] | Some m \<Rightarrow> m);
          (unconflicted, conflicted) = seperate state_sets
      in if conflicted = [] then Some (Inr unconflicted)
         else
           bindO (get_auth_chain_difference store room state_sets emap) (\<lambda>auth_diff.
             let full_set = full_conflicted_set conflicted auth_diff;
                 emap1 = dict_update emap
                   (srs_get_events store (filter (\<lambda>eid. map_of emap eid = None) full_set))
             in bindO (liftO (forR emap1 (\<lambda>(_, ev). guardR (room_id ev = room) GenericException))) (\<lambda>_.
                  resolve_conflicts verify store room rv unconflicted
                    (filter (\<lambda>eid. map_of emap1 eid \<noteq> None) full_set) emap1)))"

end
