(* ===== verification/Event_Core.thy ===== *)
theory Event_Core
  imports Event_Auth
begin

text \<open>
  The auth rules change nothing of the event they check but its redaction flag.
\<close>

text \<open>An event without the redaction flag that \<open>check_redaction\<close> may set.\<close>

definition core :: "event \<Rightarrow> event" where
  "core e = e\<lparr>recheck_redaction := False\<rparr>"

lemma core_fields [simp]:
  "ev_id (core e) = ev_id e" "ev_type (core e) = ev_type e" "room_id (core e) = room_id e"
  "sender (core e) = sender e" "state_key_field (core e) = state_key_field e"
  "auth_event_ids (core e) = auth_event_ids e" "origin_server_ts (core e) = origin_server_ts e"
  "rejected_reason (core e) = rejected_reason e" "content (core e) = content e"
  by (simp_all add: core_def)

lemma state_pos_core [simp]: "state_pos (core e) = state_pos e"
  by (simp add: state_pos_def state_key_def)

lemma core_eqD:
  assumes "core e = core f"
  shows "ev_id e = ev_id f" "ev_type e = ev_type f" "room_id e = room_id f" "state_pos e = state_pos f"
    "auth_event_ids e = auth_event_ids f" "origin_server_ts e = origin_server_ts f"
    "rejected_reason e = rejected_reason f" "sender e = sender f" "content e = content f"
  using assms core_fields [of e] core_fields [of f] state_pos_core [of e] state_pos_core [of f] by metis+

lemma check_redaction_core: "check_redaction rv e auth = Inr be \<Longrightarrow> core (snd be) = core e"
  by (cases "redacts e") (auto simp: check_redaction_def result_simps core_def split: if_splits)

lemma check_core:
  assumes "check_state_dependent_auth_rules verify e auth = Inr e'"
  shows "core e' = core e"
  using assms check_redaction_core
  unfolding check_state_dependent_auth_rules_def check_against_state_def
  by (auto simp: result_simps split: if_splits)

section \<open>The rules do not read the flag\<close>

lemma core_fields_more [simp]:
  "prev_event_ids (core e) = prev_event_ids e" "event_room_version (core e) = event_room_version e"
  "redacts_field (core e) = redacts_field e"
  by (simp_all add: core_def)

lemma core_reads [simp]:
  "content_get (core e) = content_get e" "content_has (core e) = content_has e" "content_item (core e) = content_item e"
  "membership (core e) = membership e" "redacts (core e) = redacts e" "state_key (core e) = state_key e"
  by (simp_all add: content_get_def content_has_def content_item_def membership_def redacts_def state_key_def fun_eq_iff)

definition core_map :: "auth_map \<Rightarrow> auth_map" where
  "core_map auth p = map_option core (auth p)"

lemma core_map_levels [simp]:
  "get_power_level_event (core_map auth) = map_option core (get_power_level_event auth)"
  "get_user_power_level u (core_map auth) = get_user_power_level u auth"
  "get_named_level (core_map auth) n d = get_named_level auth n d"
  "can_federate (core_map auth) = can_federate auth"
  "get_join_rule (core_map auth) = get_join_rule auth"
  "member_is (core_map auth) who m = member_is auth who m"
  by (simp_all add: core_map_def get_power_level_event_def get_user_power_level_def get_named_level_def can_federate_def
      get_join_rule_def member_is_def room_creator_def comp_def cong: if_cong option.case_cong)

lemma core_map_more [simp]:
  "get_send_level t k (map_option core pl) = get_send_level t k pl"
  "check_joined_room (core_map auth p) = check_joined_room (auth p)"
  "get_public_keys (core e) = get_public_keys e"
  by (simp_all add: get_send_level_def check_joined_room_def get_public_keys_def core_map_def comp_def cong: if_cong option.case_cong)

lemma core_membership [simp]:
  "is_membership_change_allowed verify rv (core e) (core_map auth) = is_membership_change_allowed verify rv e auth"
proof -
  have "membership_context rv (core e) (core_map auth) m t = membership_context rv e auth m t" for m t
    by (simp add: membership_context_def)
  moreover have "is_creator_join rv (core e) (core_map auth) m = is_creator_join rv e auth m" for m
    by (simp add: is_creator_join_def core_map_def comp_def cong: if_cong option.case_cong)
  moreover have "verify_third_party_invite verify (core e) (core_map auth) = verify_third_party_invite verify e auth"
    by (auto simp: verify_third_party_invite_def core_map_def key_of_def split: option.split json.split cong: if_cong)
  moreover have "check_authorising_user (core e) (core_map auth) c = check_authorising_user e auth c"
    "check_leave (core e) (core_map auth) c = check_leave e auth c" "check_knock rv (core e) c = check_knock rv e c" for c
    by (simp_all add: check_authorising_user_def check_leave_def check_knock_def cong: if_cong option.case_cong)
  ultimately show ?thesis
    by (simp add: is_membership_change_allowed_def check_membership_rules_def check_join_def cong: if_cong)
qed

lemma core_level_at [simp]: "level_at (core e) = level_at e" "dir_keys (core c) (core e) = dir_keys c e"
  by (intro ext, simp add: level_at_def dir_keys_def Let_def cong: if_cong option.case_cong)+

lemma core_power_levels [simp]: "check_power_levels rv (core e) (core_map auth) = check_power_levels rv e auth"
  by (simp add: check_power_levels_def levels_to_check_def core_map_def comp_def cong: if_cong option.case_cong)

lemma core_send [simp]: "can_send_event (core e) (core_map auth) = can_send_event e auth"
  "check_event_sender_in_room (core e) (core_map auth) = check_event_sender_in_room e auth"
  by (simp_all add: can_send_event_def check_event_sender_in_room_def cong: if_cong option.case_cong)

lemma core_redaction: "ok (check_redaction rv (core e) (core_map auth)) = ok (check_redaction rv e auth)"
  by (auto simp: check_redaction_def ok_bindR split: sum.splits json.splits)

lemma core_against_state:
  "ok (check_against_state verify (core e) (core_map auth)) = ok (check_against_state verify e auth)"
proof -
  have i: "ok (if b then x else y) = (if b then ok x else ok y)" for b and x y :: "event result" by simp
  have r: "(\<exists>x. check_redaction rv (core e) (core_map auth) = Inr x) \<longleftrightarrow> (\<exists>x. check_redaction rv e auth = Inr x)" for rv
    using core_redaction [of rv e auth] by (simp only: ok_iff)
  have "check_aliases (core e) = check_aliases e" by (simp add: check_aliases_def cong: option.case_cong if_cong)
  then show ?thesis by (simp add: check_against_state_def ok_bindR i r del: split_paired_Ex cong: if_cong)
qed

lemma core_auth_dict: "auth_dict_of (map core evs) = map_sum id core_map (auth_dict_of evs)"
proof -
  have "foldR (\<lambda>m e. bindR (state_pos e) (\<lambda>p. Inr (m(p \<mapsto> e)))) (core_map m) (map core evs) =
      map_sum id core_map (foldR (\<lambda>m e. bindR (state_pos e) (\<lambda>p. Inr (m(p \<mapsto> e)))) m evs)" for m
  proof (induction evs arbitrary: m)
    case (Cons e evs)
    have "(core_map m)(p \<mapsto> core e) = core_map (m(p \<mapsto> e))" for p by (simp add: core_map_def fun_eq_iff)
    then show ?case using Cons.IH by (cases "state_pos e") (simp_all del: fun_upd_apply add: fun_upd_def)
  qed simp
  from this [of Map.empty] show ?thesis by (simp add: auth_dict_of_def core_map_def [abs_def])
qed

lemma check_core_ok:
  "ok (check_state_dependent_auth_rules verify (core e) (map core auth)) = ok (check_state_dependent_auth_rules verify e auth)"
  by (cases "auth_dict_of auth") (simp_all add: check_state_dependent_auth_rules_def core_auth_dict core_against_state)

lemma auth_types_core [simp]: "auth_types_for_event rv (core e) = auth_types_for_event rv e"
  by (simp add: auth_types_for_event_def third_party_token_def cong: if_cong)

end
