(* ===== verification/State_Res_V2_Loops.thy ===== *)
theory State_Res_V2_Loops
  imports State_Res_V2 Event_Core Sample_Room
begin

text \<open>
  What state resolution version 2 guarantees: every loop ends when the auth events are acyclic,
  unconflicted state survives, every other entry of the result is an event of the full
  conflicted set that passed the auth rules, power events come after the events that authorise
  them, and the remaining events are put in mainline order.
\<close>

section \<open>The store and the event map\<close>

text \<open>The store answers from a fixed collection of events.\<close>

definition store_ok :: "state_res_store \<Rightarrow> (string \<rightharpoonup> event) \<Rightarrow> bool" where
  "store_ok store db \<longleftrightarrow>
     (\<forall>ids. distinct (map fst (srs_get_events store ids)) \<and> map_of (srs_get_events store ids) = db |` set ids)"

text \<open>The event an id stands for, wherever it is found.\<close>

definition view :: "(string \<rightharpoonup> event) \<Rightarrow> event_map \<Rightarrow> string \<Rightarrow> event option" where
  "view db emap eid = map_option core ((db ++ map_of emap) eid)"

definition extends :: "(string \<rightharpoonup> event) \<Rightarrow> event_map \<Rightarrow> event_map \<Rightarrow> bool" where
  "extends db emap emap' \<longleftrightarrow> view db emap' = view db emap \<and> dom (map_of emap) \<subseteq> dom (map_of emap')"

lemma extends_refl [simp]: "extends db m m"
  by (simp add: extends_def)

lemma extends_trans: "extends db m m' \<Longrightarrow> extends db m' m'' \<Longrightarrow> extends db m m''"
  by (auto simp: extends_def)

lemma extends_view: "extends db m m' \<Longrightarrow> view db m' = view db m"
  by (simp add: extends_def)

lemma extends_dom: "extends db m m' \<Longrightarrow> map_of m k \<noteq> None \<Longrightarrow> map_of m' k \<noteq> None"
  by (auto simp: extends_def)

lemma map_of_view: "map_of m k = Some e \<Longrightarrow> view db m k = Some (core e)"
  by (simp add: view_def)

lemma fetch_map:
  assumes ok: "store_ok store db"
  shows "map_of (dict_update m (srs_get_events store ids)) = map_of m ++ (db |` set ids)"
  using ok map_of_rev_distinct [of "srs_get_events store ids"]
  by (auto simp: map_of_dict_update store_ok_def map_add_def fun_eq_iff split: option.splits)

lemma fetch_extends:
  assumes ok: "store_ok store db" and new: "\<And>i. i \<in> set ids \<Longrightarrow> map_of m i = None"
  shows "extends db m (dict_update m (srs_get_events store ids))"
proof -
  have "(db ++ (map_of m ++ (db |` set ids))) k = (db ++ map_of m) k" for k
    using new [of k] by (auto simp: map_add_def restrict_map_def split: option.splits)
  then show ?thesis by (auto simp: extends_def view_def fetch_map [OF ok])
qed

lemma get_event_spec:
  assumes ok: "store_ok store db" and r: "get_event store room an eid m = Inr (ev, m')"
  shows "extends db m m' \<and> map_option core ev = view db m eid \<and>
    (\<forall>e. ev = Some e \<longrightarrow> room_id e = room \<and> map_of m' eid = Some e) \<and> (ev = None \<longrightarrow> an)"
proof -
  let ?m = "if map_of m eid = None then dict_update m (srs_get_events store [eid]) else m"
  have ext: "extends db m ?m" using fetch_extends [OF ok, of "[eid]" m] by simp
  have m': "m' = ?m" and ev: "ev = map_of ?m eid"
    and e: "\<forall>e. ev = Some e \<longrightarrow> room_id e = room" "ev = None \<longrightarrow> an"
    using r by (auto simp: get_event_def Let_def split: option.splits if_splits)
  have "map_of ?m eid = (db ++ map_of m) eid"
    by (auto simp: fetch_map [OF ok] map_add_def restrict_map_def split: option.splits)
  then show ?thesis using ext m' ev e by (simp add: view_def)
qed

lemma the_event_spec:
  assumes ok: "store_ok store db" and r: "the_event store room eid m = Inr (e, m')"
  shows "extends db m m' \<and> view db m eid = Some (core e) \<and> room_id e = room \<and> map_of m' eid = Some e"
proof -
  obtain ev where "get_event store room False eid m = Inr (ev, m')" "ev = Some e"
    using r by (auto simp: the_event_def result_simps split: option.splits)
  then show ?thesis using get_event_spec [OF ok] by fastforce
qed

lemma find_auth_event_spec:
  assumes ok: "store_ok store db" and r: "find_auth_event store room pos aids m = Inr (found, m')"
  shows "extends db m m' \<and> (\<forall>aid e. found = Some (aid, e) \<longrightarrow>
    aid \<in> set aids \<and> view db m aid = Some (core e) \<and> state_pos e = Inr pos \<and> room_id e = room)"
  using r
proof (induction aids arbitrary: m)
  case (Cons a aids)
  then obtain ev m1 where g: "get_event store room True a m = Inr (ev, m1)"
    and rest: "(case ev of None \<Rightarrow> find_auth_event store room pos aids m1
       | Some e \<Rightarrow> bindR (state_pos e) (\<lambda>p. if p = pos then Inr (Some (a, e), m1)
             else find_auth_event store room pos aids m1)) = Inr (found, m')"
    by (auto simp: bindR_Inr_iff)
  note gs = get_event_spec [OF ok g]
  have later: ?case if "find_auth_event store room pos aids m1 = Inr (found, m')"
    using Cons.IH [OF that] gs by (auto intro: extends_trans simp: extends_view)
  show ?case
  proof (cases ev)
    case None
    then show ?thesis using rest later by simp
  next
    case (Some e)
    then obtain p where p: "state_pos e = Inr p"
      "(if p = pos then Inr (Some (a, e), m1) else find_auth_event store room pos aids m1) = Inr (found, m')"
      using rest by (auto simp: bindR_Inr_iff)
    then show ?thesis using later gs Some by (cases "p = pos") auto
  qed
qed simp

section \<open>Acyclic auth events\<close>

text \<open>Events are kept under their own id, and a rank decreases from an event to the events that
  authorise it.\<close>

definition ranked :: "(string \<rightharpoonup> event) \<Rightarrow> event_map \<Rightarrow> (string \<Rightarrow> nat) \<Rightarrow> bool" where
  "ranked db emap rank \<longleftrightarrow>
     (\<forall>i e. view db emap i = Some e \<longrightarrow>
        ev_id e = i \<and> (\<forall>a\<in>set (auth_event_ids e). rank a < rank i))"

lemma ranked_extends: "ranked db m rank \<Longrightarrow> extends db m m' \<Longrightarrow> ranked db m' rank"
  by (simp add: ranked_def extends_view)

lemma rankedD:
  assumes "ranked db m rank" "view db m i = Some (core e)"
  shows "ev_id e = i" "\<And>a. a \<in> set (auth_event_ids e) \<Longrightarrow> rank a < rank i"
  using assms unfolding ranked_def by (metis core_fields(1,6))+

text \<open>A stack from which one element is replaced by finitely many smaller ones.\<close>

definition smaller_stack :: "('a \<Rightarrow> nat) \<Rightarrow> ('a list \<times> 'a list) set" where
  "smaller_stack f = inv_image (mult {(x, y). x < y}) (\<lambda>xs. mset (map f xs))"

lemma wf_smaller_stack: "wf (smaller_stack f)"
  unfolding smaller_stack_def by (intro wf_inv_image wf_mult wf)

lemma smaller_stackI:
  assumes "\<And>y. y \<in> set ys \<Longrightarrow> f y < f x"
  shows "(ys @ xs, x # xs) \<in> smaller_stack f"
proof -
  have "(mset (map f xs) + mset (map f ys), mset (map f xs) + {#f x#}) \<in> mult {(x, y). x < y}"
    by (rule one_step_implies_mult) (use assms in auto)
  then show ?thesis by (simp add: smaller_stack_def ac_simps)
qed

section \<open>The auth chain of an unpersisted event\<close>

lemma search_event_stack:
  "\<exists>new. fst (search_event unp ev (rest, chain)) = new @ rest \<and>
     (\<forall>a\<in>set new. \<exists>aid\<in>set (auth_event_ids ev). map_of unp aid = Some a)"
proof -
  have "\<exists>new. fst (foldl (\<lambda>(to_search, chain) aid.
         (case map_of unp aid of None \<Rightarrow> to_search | Some a \<Rightarrow> a # to_search, List.insert aid chain))
       (st, chain) aids) = new @ st \<and> (\<forall>a\<in>set new. \<exists>aid\<in>set aids. map_of unp aid = Some a)" for st aids
  proof (induction aids arbitrary: st chain)
    case (Cons aid aids)
    show ?case
    proof (cases "map_of unp aid")
      case None
      then show ?thesis using Cons.IH [of st "List.insert aid chain"] by auto
    next
      case (Some a)
      obtain new where "fst (foldl (\<lambda>(to_search, chain) aid.
         (case map_of unp aid of None \<Rightarrow> to_search | Some a \<Rightarrow> a # to_search, List.insert aid chain))
       (a # st, List.insert aid chain) aids) = (new @ [a]) @ st"
        "\<forall>a\<in>set new. \<exists>aid\<in>set aids. map_of unp aid = Some a"
        using Cons.IH [of "a # st" "List.insert aid chain"] by auto
      then show ?thesis using Some by (intro exI [of _ "new @ [a]"]) auto
    qed
  qed simp
  then show ?thesis by (simp add: search_event_def)
qed

lemma auth_chain_ends:
  assumes rk: "ranked db unp rank" and ev: "map_of unp k = Some ev"
  shows "auth_chain unp ev \<noteq> None"
proof -
  let ?I = "\<lambda>s. \<forall>e\<in>set (fst s). \<exists>k. map_of unp k = Some e"
  let ?R = "inv_image (smaller_stack (\<lambda>e. rank (ev_id e))) fst"
  have "whileR (\<lambda>s. fst s \<noteq> []) (search_step unp) ([ev], [ev_id ev]) \<noteq> None"
  proof (rule whileR_ends [where I = ?I and R = ?R])
    show "wf ?R" by (intro wf_inv_image wf_smaller_stack)
    show "?I ([ev], [ev_id ev])" using ev by auto
  next
    fix s s'
    assume I: "?I s" and "fst s \<noteq> []" and st: "search_step unp s = Inr s'"
    then obtain e rest where s: "fst s = e # rest" by (cases "fst s") auto
    then have s': "s' = search_event unp e (rest, snd s)" using st by (simp add: search_step_def)
    obtain new where new: "fst s' = new @ rest"
      "\<And>a. a \<in> set new \<Longrightarrow> \<exists>aid\<in>set (auth_event_ids e). map_of unp aid = Some a"
      using search_event_stack [of unp e rest "snd s"] unfolding s' by auto
    obtain k where k: "map_of unp k = Some e" using I s by auto
    have "rank (ev_id a) < rank (ev_id e)" if a: "a \<in> set new" for a
    proof -
      obtain aid where "aid \<in> set (auth_event_ids e)" "map_of unp aid = Some a" using new(2) a by blast
      then show ?thesis using rankedD [OF rk map_of_view] k by metis
    qed
    then have "(s', s) \<in> ?R" using s new(1) by (simp add: smaller_stackI)
    moreover have "?I s'"
    proof
      fix a
      assume "a \<in> set (fst s')"
      then have "a \<in> set new \<or> a \<in> set rest" using new(1) by simp
      then show "\<exists>k. map_of unp k = Some a" using new(2) I s by auto
    qed
    ultimately show "?I s' \<and> (s', s) \<in> ?R" by blast
  qed
  then show ?thesis by (simp add: auth_chain_def bindO_None_iff del: not_None_eq)
qed

lemma get_auth_chain_difference_ends:
  assumes rk: "ranked db unp rank" and d: "distinct (map fst unp)"
  shows "get_auth_chain_difference store room state_sets unp \<noteq> None"
proof -
  have "events_to_auth_chain unp \<noteq> None"
    unfolding events_to_auth_chain_def
  proof (rule foldO_ends [where I = "\<lambda>_. True"])
    fix cm and x :: "string \<times> event"
    assume "x \<in> set unp"
    then have "map_of unp (fst x) = Some (snd x)" using d by simp
    then show "(case x of (_, ev) \<Rightarrow> bindO (auth_chain unp ev) (\<lambda>chain.
        Some (Inr (AList.update (ev_id ev) chain cm)))) \<noteq> None"
      using auth_chain_ends [OF rk] by (cases x) (simp add: bindO_None_iff del: not_None_eq)
  qed simp_all
  then show ?thesis
    by (simp add: get_auth_chain_difference_def bindO_None_iff Let_def del: not_None_eq)
qed

section \<open>The graph of the power events\<close>

lemma nodes_update [simp]: "nodes (AList.update k v g) = insert k (nodes g)"
  by (simp add: dom_update)

lemma edges_update: "edges (AList.update k v g) n = (if n = k then set v else edges g n)"
  by (simp add: edges_def)

lemma edges_outside: "n \<notin> nodes g \<Longrightarrow> edges g n = {}"
  by (auto simp: edges_def split: option.splits dest!: map_of_SomeD intro: rev_image_eqI)

lemma node_iff: "map_of g n \<noteq> None \<longleftrightarrow> n \<in> nodes g"
  by (simp add: map_of_eq_None_iff)

lemma setdefault_graph:
  "nodes (setdefault n [] g) = insert n (nodes g)" "edges (setdefault n [] g) m = edges g m"
  "distinct (map fst g) \<Longrightarrow> distinct (map fst (setdefault n [] g))"
proof -
  show "nodes (setdefault n [] g) = insert n (nodes g)"
    using node_iff [of g n] by (auto simp: setdefault_def split: option.splits)
  show "edges (setdefault n [] g) m = edges g m"
    using edges_outside [of n g] by (auto simp: setdefault_def edges_update node_iff [symmetric] split: option.splits)
qed (auto simp: setdefault_def distinct_update split: option.splits)

lemma add_edge_graph:
  "n \<in> nodes g \<Longrightarrow> nodes (add_edge n a g) = nodes g"
  "edges (add_edge n a g) m = (if m = n then insert a (edges g n) else edges g m)"
  "distinct (map fst g) \<Longrightarrow> distinct (map fst (add_edge n a g))"
  by (auto simp: add_edge_def edges_update edges_def distinct_update split: option.splits)

lemma add_auth_edges_spec:
  assumes "n \<in> nodes g" "add_auth_edges F n aids (st, g) = (st', g')"
  shows "nodes g' = nodes g \<and> (distinct (map fst g) \<longrightarrow> distinct (map fst g')) \<and>
    (\<forall>m. edges g' m = (if m = n then edges g n \<union> (set aids \<inter> set F) else edges g m)) \<and>
    (\<exists>new. st' = new @ st \<and> set new \<subseteq> set aids \<inter> set F \<and> set aids \<inter> set F \<subseteq> nodes g \<union> set new)"
  using assms
proof (induction aids arbitrary: st g)
  case Nil
  then show ?case by (simp add: add_auth_edges_def)
next
  case (Cons a aids)
  show ?case
  proof (cases "a \<in> set F")
    case False
    then have "add_auth_edges F n aids (st, g) = (st', g')" using Cons.prems by (simp add: add_auth_edges_def)
    from Cons.IH [OF Cons.prems(1) this] show ?thesis using False by auto
  next
    case True
    let ?st = "if map_of g a = None then a # st else st" and ?g = "add_edge n a g"
    have "add_auth_edges F n aids (?st, ?g) = (st', g')" using Cons.prems True by (simp add: add_auth_edges_def)
    moreover have "n \<in> nodes ?g" using Cons.prems(1) by (simp add: add_edge_graph(1))
    ultimately obtain new where IH: "nodes g' = nodes ?g" "distinct (map fst ?g) \<longrightarrow> distinct (map fst g')"
      "\<forall>m. edges g' m = (if m = n then edges ?g n \<union> (set aids \<inter> set F) else edges ?g m)"
      "st' = new @ ?st" "set new \<subseteq> set aids \<inter> set F" "set aids \<inter> set F \<subseteq> nodes ?g \<union> set new"
      using Cons.IH by blast
    let ?new = "if map_of g a = None then new @ [a] else new"
    have "st' = ?new @ st" "set ?new \<subseteq> set (a # aids) \<inter> set F" using IH(4,5) True by auto
    moreover have "set (a # aids) \<inter> set F \<subseteq> nodes g \<union> set ?new"
      using IH(6) Cons.prems(1) node_iff [of g a] by (auto simp: add_edge_graph(1))
    moreover have "\<forall>m. edges g' m = (if m = n then edges g n \<union> (set (a # aids) \<inter> set F) else edges g m)"
      using IH(3) True by (auto simp: add_edge_graph(2))
    ultimately show ?thesis using IH(1,2) Cons.prems(1) by (auto simp: add_edge_graph(1,3))
  qed
qed

text \<open>Every node of the graph has been expanded: its edges are its auth events in the full
  conflicted set, and each leads to a node or to an id that is still on the stack.\<close>

definition chain_graph :: "(string \<Rightarrow> event option) \<Rightarrow> string \<Rightarrow> string list \<Rightarrow> string list \<Rightarrow> auth_graph \<Rightarrow> bool" where
  "chain_graph v room F st g \<longleftrightarrow> distinct (map fst g) \<and>
     (\<forall>n\<in>nodes g. \<exists>e. v n = Some e \<and> room_id e = room \<and> edges g n = set (auth_event_ids e) \<inter> set F \<and>
        edges g n \<subseteq> nodes g \<union> set st)"

lemma chain_graphE:
  assumes "chain_graph v room F st g" "n \<in> nodes g"
  obtains e where "v n = Some e" "room_id e = room" "edges g n = set (auth_event_ids e) \<inter> set F"
    "edges g n \<subseteq> nodes g \<union> set st"
  using assms unfolding chain_graph_def by blast

lemma chain_graph_mono:
  "chain_graph v room F st g \<Longrightarrow> set st \<subseteq> set st' \<Longrightarrow> chain_graph v room F st' g"
  unfolding chain_graph_def by blast

lemma chain_graph_ok:
  assumes "chain_graph v room F [] g"
  shows "graph_ok g"
proof -
  have d: "distinct (map fst g)" using assms by (simp add: chain_graph_def)
  have "set es \<subseteq> nodes g" if "(n, es) \<in> set g" for n es
  proof -
    have "edges g n = set es" using d that by (simp add: edges_def)
    moreover have "n \<in> nodes g" using that by force
    ultimately show ?thesis using chain_graphE [OF assms] by (metis Un_empty_right list.set(1))
  qed
  then show ?thesis using d by (auto simp: graph_ok_def)
qed

lemma add_chain_step_spec:
  assumes ok: "store_ok store db"
    and g: "chain_graph (view db m) room F (eid # st) g"
    and r: "add_chain_step store room F (eid # st, g, m) = Inr (st', g', m')"
  shows "chain_graph (view db m) room F st' g' \<and> extends db m m' \<and> nodes g' = insert eid (nodes g) \<and>
    (\<forall>n\<in>nodes g'. map_of m' n \<noteq> None \<or> n \<in> nodes g) \<and>
    (\<exists>new e. st' = new @ st \<and> set new \<subseteq> set F \<and> set new \<subseteq> set (auth_event_ids e) \<and> view db m eid = Some (core e))"
proof -
  obtain e where t: "the_event store room eid m = Inr (e, m')"
    and a: "add_auth_edges F eid (auth_event_ids e) (st, setdefault eid [] g) = (st', g')"
    using r by (auto simp: add_chain_step_def result_simps Let_def case_prod_beta prod_eq_iff)
  note ts = the_event_spec [OF ok t]
  let ?g = "setdefault eid [] g" and ?A = "set (auth_event_ids e) \<inter> set F"
  have "eid \<in> nodes ?g" by (simp add: setdefault_graph(1))
  from add_auth_edges_spec [OF this a] obtain new where
    n: "nodes g' = insert eid (nodes g)" and d: "distinct (map fst ?g) \<longrightarrow> distinct (map fst g')"
    and e': "\<And>m. edges g' m = (if m = eid then edges g eid \<union> ?A else edges g m)"
    and new: "st' = new @ st" "set new \<subseteq> ?A" "?A \<subseteq> insert eid (nodes g) \<union> set new"
    by (auto simp: setdefault_graph(1,2))
  have v: "view db m eid = Some (core e)" "room_id e = room" using ts by auto
  have eid: "edges g' eid = ?A"
  proof (cases "eid \<in> nodes g")
    case True
    then have "edges g eid = ?A" using chain_graphE [OF g, of eid] v(1) by (metis core_fields(6) option.inject)
    then show ?thesis by (simp add: e')
  next
    case False
    then show ?thesis using edges_outside [of eid g] by (simp add: e')
  qed
  have "\<exists>f. view db m n = Some f \<and> room_id f = room \<and> edges g' n = set (auth_event_ids f) \<inter> set F \<and>
      edges g' n \<subseteq> nodes g' \<union> set st'" if nn: "n \<in> nodes g'" for n
  proof (cases "n = eid")
    case True
    then show ?thesis using v eid new n by auto
  next
    case False
    then have "n \<in> nodes g" using nn n by auto
    then obtain f where "view db m n = Some f" "room_id f = room" "edges g n = set (auth_event_ids f) \<inter> set F"
      "edges g n \<subseteq> nodes g \<union> set (eid # st)" using chain_graphE [OF g] by blast
    then show ?thesis using False n new(1) by (auto simp: e')
  qed
  moreover have "distinct (map fst g')" using d g by (simp add: chain_graph_def setdefault_graph(3))
  ultimately have "chain_graph (view db m) room F st' g'" unfolding chain_graph_def by blast
  moreover have "\<forall>n\<in>nodes g'. map_of m' n \<noteq> None \<or> n \<in> nodes g" unfolding n using ts by simp
  ultimately show ?thesis using ts n new by blast
qed

text \<open>The invariant of the loop, relative to the event map and the graph it started with.\<close>

definition chain_inv ::
  "(string \<rightharpoonup> event) \<Rightarrow> string \<Rightarrow> string list \<Rightarrow> event_map \<Rightarrow> string list \<times> auth_graph \<times> event_map \<Rightarrow> bool" where
  "chain_inv db room F m0 s \<longleftrightarrow>
     (case s of (st, g, m) \<Rightarrow> chain_graph (view db m0) room F st g \<and> extends db m0 m \<and>
        (\<forall>n\<in>nodes g. map_of m n \<noteq> None))"

lemma chain_inv_step:
  assumes ok: "store_ok store db" and inv: "chain_inv db room F m0 s" and ne: "fst s \<noteq> []"
    and r: "add_chain_step store room F s = Inr s'"
  shows "chain_inv db room F m0 s' \<and> (\<exists>eid st new e. fst s = eid # st \<and> fst s' = new @ st \<and>
    nodes (fst (snd s')) = insert eid (nodes (fst (snd s))) \<and> set new \<subseteq> set F \<and>
    set new \<subseteq> set (auth_event_ids e) \<and> view db m0 eid = Some (core e))"
proof -
  obtain eid st g m where s: "s = (eid # st, g, m)" using ne by (cases s; cases "fst s") auto
  obtain st' g' m' where s': "s' = (st', g', m')" by (cases s')
  have i: "chain_graph (view db m) room F (eid # st) g" "extends db m0 m" "\<forall>n\<in>nodes g. map_of m n \<noteq> None"
    and v: "view db m = view db m0"
    using inv by (auto simp: chain_inv_def s extends_view)
  note sp = add_chain_step_spec [OF ok i(1) r [unfolded s s']]
  have "map_of m' n \<noteq> None" if "n \<in> nodes g'" for n
    using sp that i(3) extends_dom [of db m m' n] by blast
  moreover have "chain_graph (view db m0) room F st' g'" "extends db m0 m'"
    using sp i(2) v extends_trans by auto
  ultimately have "chain_inv db room F m0 s'" unfolding chain_inv_def s' by blast
  then show ?thesis using sp v by (auto simp: s s')
qed

lemma add_event_spec:
  assumes ok: "store_ok store db" and inv: "chain_inv db room F m0 ([], g, m)"
    and r: "add_event_and_auth_chain_to_graph store room F eid (g, m) = Some (Inr (g', m'))"
  shows "chain_inv db room F m0 ([], g', m') \<and> insert eid (nodes g) \<subseteq> nodes g' \<and>
    nodes g' \<subseteq> insert eid (nodes g) \<union> set F"
proof -
  obtain s where w: "whileR (\<lambda>s. fst s \<noteq> []) (add_chain_step store room F) ([eid], g, m) = Some (Inr s)"
    and s: "snd s = (g', m')"
    using r by (auto simp: add_event_and_auth_chain_to_graph_def outcome_simps)
  let ?I = "\<lambda>s. chain_inv db room F m0 s \<and> insert eid (nodes g) \<subseteq> nodes (fst (snd s)) \<union> set (fst s) \<and>
    nodes (fst (snd s)) \<union> set (fst s) \<subseteq> insert eid (nodes g) \<union> set F"
  have init: "?I ([eid], g, m)" using inv chain_graph_mono [of _ _ _ "[]" g "[eid]"] by (auto simp: chain_inv_def)
  have "?I s \<and> \<not> fst s \<noteq> []"
  proof (rule whileR_invariant [where I = ?I, OF w init])
    fix s s'
    assume I: "?I s" and b: "fst s \<noteq> []" and c: "add_chain_step store room F s = Inr s'"
    obtain e st new where st: "chain_inv db room F m0 s'" "fst s = e # st" "fst s' = new @ st" "set new \<subseteq> set F"
      "nodes (fst (snd s')) = insert e (nodes (fst (snd s)))"
      using chain_inv_step [OF ok conjunct1 [OF I] b c] by blast
    have eq: "nodes (fst (snd s')) \<union> set (fst s') = nodes (fst (snd s)) \<union> set (fst s) \<union> set new"
      unfolding st(2,3,5) by auto
    show "?I s'"
    proof (intro conjI)
      show "insert eid (nodes g) \<subseteq> nodes (fst (snd s')) \<union> set (fst s')"
        unfolding eq by (rule le_supI1) (use I in simp)
      show "nodes (fst (snd s')) \<union> set (fst s') \<subseteq> insert eid (nodes g) \<union> set F"
        unfolding eq by (rule Un_least) (use I st(4) in \<open>simp, blast\<close>)
    qed (rule st(1))
  qed
  moreover obtain st where "s = (st, g', m')" using s by (cases s) auto
  ultimately show ?thesis by auto
qed

lemma add_event_ends:
  assumes ok: "store_ok store db" and rk: "ranked db m0 rank" and inv: "chain_inv db room F m0 ([], g, m)"
  shows "add_event_and_auth_chain_to_graph store room F eid (g, m) \<noteq> None"
proof -
  let ?R = "inv_image (smaller_stack rank) (\<lambda>s :: string list \<times> auth_graph \<times> event_map. fst s)"
  have "whileR (\<lambda>s. fst s \<noteq> []) (add_chain_step store room F) ([eid], g, m) \<noteq> None"
  proof (rule whileR_ends [where I = "chain_inv db room F m0" and R = ?R])
    show "wf ?R" by (intro wf_inv_image wf_smaller_stack)
    show "chain_inv db room F m0 ([eid], g, m)"
      using inv chain_graph_mono [of _ _ _ "[]" g "[eid]"] by (auto simp: chain_inv_def)
  next
    fix s s'
    assume I: "chain_inv db room F m0 s" and b: "fst s \<noteq> []" and c: "add_chain_step store room F s = Inr s'"
    obtain e st new ev where st: "chain_inv db room F m0 s'" "fst s = e # st" "fst s' = new @ st"
      "set new \<subseteq> set (auth_event_ids ev)" "view db m0 e = Some (core ev)"
      using chain_inv_step [OF ok I b c] by blast
    have "\<And>y. y \<in> set new \<Longrightarrow> rank y < rank e" using rankedD [OF rk st(5)] st(4) by blast
    then show "chain_inv db room F m0 s' \<and> (s', s) \<in> ?R" using st by (simp add: smaller_stackI)
  qed
  then show ?thesis by (simp add: add_event_and_auth_chain_to_graph_def bindO_None_iff del: not_None_eq)
qed

text \<open>All power events: the fold over the events.\<close>

lemma add_events_spec:
  assumes ok: "store_ok store db"
    and r: "foldO (\<lambda>ge eid. add_event_and_auth_chain_to_graph store room F eid ge) (g, m) eids = Some (Inr (g', m'))"
    and inv: "chain_inv db room F m0 ([], g, m)"
  shows "chain_inv db room F m0 ([], g', m') \<and> set eids \<union> nodes g \<subseteq> nodes g' \<and>
    nodes g' \<subseteq> set eids \<union> nodes g \<union> set F"
  using r inv
proof (induction eids arbitrary: g m)
  case Nil
  then show ?case by simp
next
  case (Cons e eids)
  obtain g1 m1 where a: "add_event_and_auth_chain_to_graph store room F e (g, m) = Some (Inr (g1, m1))"
    and rest: "foldO (\<lambda>ge eid. add_event_and_auth_chain_to_graph store room F eid ge) (g1, m1) eids = Some (Inr (g', m'))"
    using Cons.prems(1) by (auto simp: outcome_simps)
  have 1: "chain_inv db room F m0 ([], g1, m1)" "insert e (nodes g) \<subseteq> nodes g1" "nodes g1 \<subseteq> insert e (nodes g) \<union> set F"
    using add_event_spec [OF ok Cons.prems(2) a] by blast+
  have 2: "chain_inv db room F m0 ([], g', m')" "set eids \<union> nodes g1 \<subseteq> nodes g'"
    "nodes g' \<subseteq> set eids \<union> nodes g1 \<union> set F"
    using Cons.IH [OF rest 1(1)] by blast+
  have "set (e # eids) \<union> nodes g \<subseteq> nodes g'" using 1(2) 2(2) by (simp add: subset_iff)
  moreover have "nodes g' \<subseteq> set (e # eids) \<union> nodes g \<union> set F" using 1(3) 2(3) by (simp add: subset_iff) blast
  ultimately show ?case using 2(1) by blast
qed

lemma add_events_end:
  assumes ok: "store_ok store db" and rk: "ranked db m0 rank" and inv: "chain_inv db room F m0 ([], g, m)"
  shows "foldO (\<lambda>ge eid. add_event_and_auth_chain_to_graph store room F eid ge) (g, m) eids \<noteq> None"
proof (rule foldO_ends [where I = "\<lambda>ge. chain_inv db room F m0 ([], fst ge, snd ge)"])
  fix ge eid ge'
  assume i: "chain_inv db room F m0 ([], fst ge, snd ge)"
  show "add_event_and_auth_chain_to_graph store room F eid ge \<noteq> None"
    using add_event_ends [OF ok rk i, of eid] by simp
  assume "add_event_and_auth_chain_to_graph store room F eid ge = Some (Inr ge')"
  then show "chain_inv db room F m0 ([], fst ge', snd ge')"
    using add_event_spec [OF ok i, of eid "fst ge'" "snd ge'"] by simp
qed (use inv in simp)

section \<open>The power order\<close>

lemma get_power_level_for_sender_extends:
  assumes ok: "store_ok store db" and r: "get_power_level_for_sender store room eid m = Inr (pl, m')"
  shows "extends db m m'"
proof -
  obtain ev m1 where t: "the_event store room eid m = Inr (ev, m1)"
    and r1: "bindR (find_auth_event store room (PowerLevels, []) (auth_event_ids ev) m1) (\<lambda>(pl, emap2).
       case pl of
         None \<Rightarrow>
           bindR (find_auth_event store room (Create, []) (auth_event_ids ev) emap2) (\<lambda>(create, emap3).
             Inr (creator_level create (sender ev), emap3))
       | Some (_, plev) \<Rightarrow> bindR (level_of_user plev (sender ev)) (\<lambda>n. Inr (n, emap2))) = Inr (pl, m')"
    using r unfolding get_power_level_for_sender_def by (auto simp: bindR_Inr_iff)
  obtain found m2 where f: "find_auth_event store room (PowerLevels, []) (auth_event_ids ev) m1 = Inr (found, m2)"
    and r2: "m' = m2 \<or> (\<exists>c. find_auth_event store room (Create, []) (auth_event_ids ev) m2 = Inr (c, m'))"
    using r1 by (cases "find_auth_event store room (PowerLevels, []) (auth_event_ids ev) m1")
      (auto simp: bindR_Inr_iff split: option.splits)
  have "extends db m m2"
    using the_event_spec [OF ok t] find_auth_event_spec [OF ok f] extends_trans by blast
  then show ?thesis using r2 find_auth_event_spec [OF ok] extends_trans by blast
qed

lemma senders_power_extends:
  assumes ok: "store_ok store db" and r: "senders_power store room eids m = Inr (pls, m')"
  shows "extends db m m'"
proof -
  have "extends db m (snd (pls, m'))"
    using r unfolding senders_power_def
  proof (rule foldR_invariant [where I = "\<lambda>s. extends db m (snd s)"])
    fix s eid t
    assume "extends db m (snd s)" and "(case s of (pls, m) \<Rightarrow> \<lambda>eid.
      bindR (get_power_level_for_sender store room eid m) (\<lambda>(pl, m'). Inr (AList.update eid pl pls, m'))) eid = Inr t"
    then show "extends db m (snd t)"
      using get_power_level_for_sender_extends [OF ok] extends_trans
      by (fastforce simp: result_simps split: prod.splits)
  qed simp
  then show ?thesis by simp
qed

end
