(* ===== verification/State_Res_V2_Orders.thy ===== *)
theory State_Res_V2_Orders
  imports State_Res_V2_Loops
begin

text \<open>
  The sorts and the auth checks of state resolution version 2 against their specifications, and
  the properties of the resolution as a whole.
\<close>

section \<open>The power sort\<close>

lemma power_graph:
  assumes ok: "store_ok store db"
    and r: "reverse_topological_power_sort store room eids m F = Some (Inr (sorted_events, m'))"
  shows "\<exists>g key. chain_inv db room F m ([], g, m') \<and> set eids \<subseteq> nodes g \<and> nodes g \<subseteq> set eids \<union> set F \<and>
    lexicographical_topological_sort g key = Some sorted_events \<and>
    (\<forall>n\<in>nodes g. \<exists>e pl. map_of m' n = Some e \<and> key n = (- pl :: int, origin_server_ts e, n))"
proof -
  obtain g m1 pls orders where
    f: "foldO (\<lambda>ge eid. add_event_and_auth_chain_to_graph store room F eid ge) ([], m) eids = Some (Inr (g, m1))"
    and p: "senders_power store room (map fst g) m1 = Inr (pls, m')"
    and o: "mapR (get_power_order m' pls) (map fst g) = Inr orders"
    and s: "lexicographical_topological_sort g
       (\<lambda>eid. case map_of (zip (map fst g) orders) eid of None \<Rightarrow> (0, 0, eid) | Some k \<Rightarrow> k) = Some sorted_events"
    using r unfolding reverse_topological_power_sort_def
    by (auto simp: bindO_Inr_iff Let_def split: option.splits)
  let ?key = "\<lambda>eid. case map_of (zip (map fst g) orders) eid of None \<Rightarrow> (0, 0, eid) | Some k \<Rightarrow> k"
  have "chain_inv db room F m ([], [], m)" by (simp add: chain_inv_def chain_graph_def)
  note sp = add_events_spec [OF ok f this]
  have ci: "chain_inv db room F m ([], g, m1)" using sp by blast
  have g: "chain_graph (view db m) room F [] g" "extends db m m1" "\<forall>n\<in>nodes g. map_of m1 n \<noteq> None"
    using ci unfolding chain_inv_def by blast+
  have e: "extends db m1 m'" by (rule senders_power_extends [OF ok p])
  have c: "chain_inv db room F m ([], g, m')"
    using g extends_trans [OF g(2) e] extends_dom [OF e] unfolding chain_inv_def by blast
  have k: "\<exists>e pl. map_of m' n = Some e \<and> ?key n = (- pl, origin_server_ts e, n)" if n: "n \<in> nodes g" for n
  proof -
    have l: "list_all2 (\<lambda>n k. get_power_order m' pls n = Inr k) (map fst g) orders"
      using o by (simp only: mapR_Inr_iff)
    have d: "distinct (map fst g)" using g(1) by (simp add: chain_graph_def)
    have "n \<in> set (map fst g)" using n by simp
    then obtain i where i: "i < length (map fst g)" "map fst g ! i = n" by (auto simp: in_set_conv_nth)
    have len: "length (map fst g) = length orders" by (rule list_all2_lengthD [OF l])
    have "map_of (zip (map fst g) orders) n = Some (orders ! i)"
      using map_of_zip_nth [OF len d, of i] i len by simp
    moreover have "get_power_order m' pls n = Inr (orders ! i)" using list_all2_nthD [OF l i(1)] i(2) by simp
    ultimately show ?thesis by (cases "orders ! i") (auto simp: get_power_order_def split: option.splits)
  qed
  have n: "set eids \<subseteq> nodes g" "nodes g \<subseteq> set eids \<union> set F" using sp by simp_all
  show ?thesis by (rule exI [of _ g], rule exI [of _ ?key]) (intro conjI ballI c n s k)
qed

lemma power_sort_ends:
  assumes ok: "store_ok store db" and rk: "ranked db m rank"
  shows "reverse_topological_power_sort store room eids m F \<noteq> None"
proof -
  have "chain_inv db room F m ([], [], m)" by (simp add: chain_inv_def chain_graph_def)
  from add_events_end [OF ok rk this, of eids] show ?thesis
    unfolding reverse_topological_power_sort_def
    by (auto simp: bindO_None_iff Let_def split: prod.splits option.splits)
qed

section \<open>The mainline\<close>

text \<open>The first auth event at a position, read off the view.\<close>

fun first_at :: "(string \<Rightarrow> event option) \<Rightarrow> state_pos \<Rightarrow> string list \<Rightarrow> (string \<times> event) option" where
  "first_at v pos [] = None"
| "first_at v pos (a # as) =
     (case v a of
        None \<Rightarrow> first_at v pos as
      | Some e \<Rightarrow> if state_pos e = Inr pos then Some (a, e) else first_at v pos as)"

abbreviation power_parent :: "(string \<Rightarrow> event option) \<Rightarrow> event \<Rightarrow> (string \<times> event) option" where
  "power_parent v e \<equiv> first_at v (PowerLevels, []) (auth_event_ids e)"

inductive mainline :: "(string \<Rightarrow> event option) \<Rightarrow> string option \<Rightarrow> string list \<Rightarrow> bool" for v where
  stop: "pl = None \<or> pl = Some [] \<Longrightarrow> mainline v pl []"
| up: "pl \<noteq> [] \<Longrightarrow> v pl = Some e \<Longrightarrow> mainline v (map_option fst (power_parent v e)) ml
       \<Longrightarrow> mainline v (Some pl) (pl # ml)"

inductive mainline_depth :: "(string \<Rightarrow> event option) \<Rightarrow> (string \<rightharpoonup> nat) \<Rightarrow> event \<Rightarrow> nat \<Rightarrow> bool" for v mm where
  on_mainline: "mm (ev_id e) = Some d \<Longrightarrow> mainline_depth v mm e d"
| no_power: "mm (ev_id e) = None \<Longrightarrow> power_parent v e = None \<Longrightarrow> mainline_depth v mm e 0"
| climb: "mm (ev_id e) = None \<Longrightarrow> power_parent v e = Some (a, e') \<Longrightarrow> mainline_depth v mm e' d
       \<Longrightarrow> mainline_depth v mm e d"

inductive_cases mainline_depthE: "mainline_depth v mm e d"
inductive_cases mainlineE: "mainline v pl ml"

lemma mainline_depth_unique: "mainline_depth v mm e d \<Longrightarrow> mainline_depth v mm e d' \<Longrightarrow> d = d'"
proof (induction arbitrary: d' rule: mainline_depth.induct)
  case (on_mainline e d)
  show ?case by (rule mainline_depthE [OF on_mainline(2)]) (use on_mainline(1) in simp_all)
next
  case (no_power e)
  show ?case by (rule mainline_depthE [OF no_power(3)]) (use no_power(1,2) in simp_all)
next
  case (climb e a e' d)
  show ?case
  proof (rule mainline_depthE [OF climb.prems])
    fix b f
    assume "power_parent v e = Some (b, f)" "mainline_depth v mm f d'"
    moreover from this have "f = e'" using climb.hyps(2) by simp
    ultimately show ?thesis by (simp only: climb.IH)
  qed (use climb.hyps in simp_all)
qed

lemma mainline_unique: "mainline v pl ml \<Longrightarrow> mainline v pl ml' \<Longrightarrow> ml = ml'"
proof (induction arbitrary: ml' rule: mainline.induct)
  case (stop pl)
  show ?case by (rule mainlineE [OF stop(2)]) (use stop(1) in auto)
next
  case (up pl e ml)
  show ?case
  proof (rule mainlineE [OF up.prems])
    fix q f ml2
    assume "Some pl = Some q" "ml' = q # ml2" "v q = Some f" "mainline v (map_option fst (power_parent v f)) ml2"
    moreover from this have "f = e" "q = pl" using up.hyps(2) by simp_all
    ultimately show ?thesis using up.IH by simp
  qed (use up.hyps(1) in simp)
qed

lemma find_auth_event_first:
  assumes ok: "store_ok store db" and r: "find_auth_event store room pos aids m = Inr (found, m')"
  shows "map_option (apsnd core) found = first_at (view db m) pos aids"
  using r
proof (induction aids arbitrary: m)
  case (Cons a aids)
  then obtain ev m1 where g: "get_event store room True a m = Inr (ev, m1)"
    and rest: "(case ev of None \<Rightarrow> find_auth_event store room pos aids m1
       | Some e \<Rightarrow> bindR (state_pos e) (\<lambda>p. if p = pos then Inr (Some (a, e), m1)
             else find_auth_event store room pos aids m1)) = Inr (found, m')"
    by (auto simp: bindR_Inr_iff)
  note gs = get_event_spec [OF ok g]
  then have v: "view db m1 = view db m" "view db m a = map_option core ev" by (simp_all add: extends_view)
  show ?case
  proof (cases ev)
    case None
    then show ?thesis using rest v Cons.IH [of m1] by simp
  next
    case (Some e)
    then obtain p where p: "state_pos e = Inr p"
      "(if p = pos then Inr (Some (a, e), m1) else find_auth_event store room pos aids m1) = Inr (found, m')"
      using rest by (auto simp: bindR_Inr_iff)
    then show ?thesis using v Some Cons.IH [of m1] by (auto split: if_splits)
  qed
qed simp

lemma mainline_step_spec:
  assumes ok: "store_ok store db" and r: "mainline_step store room (Some pl, ml, m) = Inr s'"
  shows "\<exists>e m'. s' = (map_option fst (power_parent (view db m) e), ml @ [pl], m') \<and>
    view db m pl = Some e \<and> extends db m m'"
proof -
  obtain e m1 found m' where t: "the_event store room pl m = Inr (e, m1)"
    and f: "find_auth_event store room (PowerLevels, []) (auth_event_ids e) m1 = Inr (found, m')"
    and s': "s' = (map_option fst found, ml @ [pl], m')"
    using r by (auto simp: mainline_step_def result_simps)
  note ts = the_event_spec [OF ok t]
  have "power_parent (view db m) e = map_option (apsnd core) found"
    using find_auth_event_first [OF ok f] extends_view [OF conjunct1 [OF ts]] by simp
  then have "map_option fst found = map_option fst (power_parent (view db m) (core e))"
    by (cases found) auto
  then show ?thesis using s' ts find_auth_event_spec [OF ok f] extends_trans by (intro exI conjI) auto
qed

lemma get_mainline_spec:
  assumes ok: "store_ok store db" and r: "get_mainline store room pl m = Some (Inr (ml, m'))"
  shows "mainline (view db m) pl ml \<and> extends db m m'"
proof -
  obtain p where w: "whileR (\<lambda>s. fst s \<noteq> None \<and> fst s \<noteq> Some []) (mainline_step store room) (pl, [], m)
      = Some (Inr (p, ml, m'))"
    using r by (auto simp: get_mainline_def bindO_Inr_iff)
  let ?I = "\<lambda>s. extends db m (snd (snd s)) \<and>
    (\<forall>rest. mainline (view db m) (fst s) rest \<longrightarrow> mainline (view db m) pl (fst (snd s) @ rest))"
  have "?I (p, ml, m') \<and> \<not> (fst (p, ml, m') \<noteq> None \<and> fst (p, ml, m') \<noteq> Some [])"
  proof (rule whileR_invariant [where I = ?I, OF w])
    fix s s'
    assume I: "?I s" and b: "fst s \<noteq> None \<and> fst s \<noteq> Some []" and c: "mainline_step store room s = Inr s'"
    obtain q ml1 m1 where s: "s = (Some q, ml1, m1)" "q \<noteq> []" using b by (cases s) auto
    have x: "extends db m m1" using I s by simp
    then have v: "view db m1 = view db m" by (rule extends_view)
    obtain e m2 where e: "s' = (map_option fst (power_parent (view db m) e), ml1 @ [q], m2)"
      "view db m q = Some e" "extends db m1 m2"
      using mainline_step_spec [OF ok c [unfolded s(1)]] unfolding v by blast
    have "mainline (view db m) pl (ml1 @ [q] @ rest)"
      if "mainline (view db m) (map_option fst (power_parent (view db m) e)) rest" for rest
      using I mainline.up [OF s(2) e(2) that] by (simp add: s(1))
    then show "?I s'" using e x extends_trans by auto
  qed simp
  then have "extends db m m'" "p = None \<or> p = Some []"
    "\<And>rest. mainline (view db m) p rest \<Longrightarrow> mainline (view db m) pl (ml @ rest)" by auto
  then show ?thesis using mainline.stop [of p "view db m"] by fastforce
qed

lemma first_at_Some: "first_at v pos aids = Some (a, e) \<Longrightarrow> a \<in> set aids \<and> v a = Some e"
  by (induction aids) (auto split: option.splits if_splits)

lemma ranked_parent:
  assumes rk: "ranked db m rank" and v: "view db m i = Some e" and p: "power_parent (view db m) e = Some (a, f)"
  shows "rank a < rank i \<and> view db m a = Some f \<and> ev_id f = a"
  using first_at_Some [OF p] rk v unfolding ranked_def by blast

lemma get_mainline_ends:
  assumes ok: "store_ok store db" and rk: "ranked db m rank"
  shows "get_mainline store room pl m \<noteq> None"
proof -
  let ?b = "\<lambda>s :: mainline_state. fst s \<noteq> None \<and> fst s \<noteq> Some []"
  let ?R = "measure (\<lambda>s :: mainline_state. case fst s of None \<Rightarrow> 0 | Some q \<Rightarrow> Suc (rank q))"
  have "whileR ?b (mainline_step store room) (pl, [], m) \<noteq> None"
  proof (rule whileR_ends [where I = "\<lambda>s. view db (snd (snd s)) = view db m" and R = ?R])
    fix s s'
    assume I: "view db (snd (snd s)) = view db m" and b: "?b s" and c: "mainline_step store room s = Inr s'"
    obtain q ml1 m1 where s: "s = (Some q, ml1, m1)" using b by (cases s) auto
    obtain e m2 where e: "s' = (map_option fst (power_parent (view db m) e), ml1 @ [q], m2)"
      "view db m q = Some e" "extends db m1 m2"
      using mainline_step_spec [OF ok c [unfolded s(1)]] I s by auto
    have "(s', s) \<in> ?R"
      using ranked_parent [OF rk e(2)] by (cases "power_parent (view db m) e") (auto simp: s e)
    then show "view db (snd (snd s')) = view db m \<and> (s', s) \<in> ?R"
      using e(1,3) I by (simp add: s extends_view)
  qed simp_all
  then show ?thesis by (simp add: get_mainline_def bindO_None_iff del: not_None_eq)
qed

lemma depth_step_spec:
  assumes ok: "store_ok store db" and r: "depth_step store room mmap (Some e, found, m) = Inr s'"
  shows "(\<exists>d. map_of mmap (ev_id e) = Some d \<and> s' = (Some e, Some d, m)) \<or>
    (\<exists>p m'. map_of mmap (ev_id e) = None \<and> s' = (map_option snd p, None, m') \<and> extends db m m' \<and>
       map_option (apsnd core) p = power_parent (view db m) e)"
proof (cases "map_of mmap (ev_id e)")
  case None
  then obtain p m' where f: "find_auth_event store room (PowerLevels, []) (auth_event_ids e) m = Inr (p, m')"
    and "s' = (map_option snd p, None, m')"
    using r by (auto simp: depth_step_def result_simps)
  then show ?thesis
    using None find_auth_event_first [OF ok f] find_auth_event_spec [OF ok f] by auto
next
  case (Some d)
  then show ?thesis using r by (auto simp: depth_step_def)
qed

lemma mainline_depth_core: "mainline_depth v mm (core e) d \<longleftrightarrow> mainline_depth v mm e d"
  by (subst (1 2) mainline_depth.simps) simp

lemma depth_spec:
  assumes ok: "store_ok store db" and r: "get_mainline_depth_for_event store ev mmap m = Some (Inr (d, m'))"
  shows "mainline_depth (view db m) (map_of mmap) ev d \<and> extends db m m'"
proof -
  let ?D = "mainline_depth (view db m) (map_of mmap)"
  obtain cur found where w: "whileR (\<lambda>s. fst s \<noteq> None \<and> fst (snd s) = None) (depth_step store (room_id ev) mmap)
      (Some ev, None, m) = Some (Inr (cur, found, m'))"
    and d: "d = (case found of None \<Rightarrow> 0 | Some d \<Rightarrow> d)"
    using r by (auto simp: get_mainline_depth_for_event_def bindO_Inr_iff)
  let ?I = "\<lambda>s. extends db m (snd (snd s)) \<and>
    (case fst (snd s) of Some d \<Rightarrow> ?D ev d
     | None \<Rightarrow> (\<forall>d. (case fst s of None \<Rightarrow> d = 0 | Some c \<Rightarrow> ?D c d) \<longrightarrow> ?D ev d))"
  have "?I (cur, found, m') \<and> \<not> (fst (cur, found, m') \<noteq> None \<and> fst (snd (cur, found, m')) = None)"
  proof (rule whileR_invariant [where I = ?I, OF w])
    fix s s'
    assume I: "?I s" and b: "fst s \<noteq> None \<and> fst (snd s) = None"
      and c: "depth_step store (room_id ev) mmap s = Inr s'"
    obtain e m1 where s: "s = (Some e, None, m1)" using b by (cases s) auto
    have x: "extends db m m1" and D: "\<And>d. ?D e d \<Longrightarrow> ?D ev d" using I by (simp_all add: s)
    have v: "view db m1 = view db m" using x by (rule extends_view)
    from depth_step_spec [OF ok c [unfolded s]] show "?I s'"
    proof (elim disjE exE conjE)
      fix d
      assume "map_of mmap (ev_id e) = Some d" "s' = (Some e, Some d, m1)"
      then show ?thesis using x D mainline_depth.on_mainline by simp
    next
      fix p m2
      assume p: "map_of mmap (ev_id e) = None" "s' = (map_option snd p, None, m2)" "extends db m1 m2"
        "map_option (apsnd core) p = power_parent (view db m1) e"
      have "?D e d" if "case map_option snd p of None \<Rightarrow> d = 0 | Some c \<Rightarrow> ?D c d" for d
      proof (cases p)
        case None
        then show ?thesis using that p mainline_depth.no_power [of "map_of mmap" e] by (simp add: v)
      next
        case (Some af)
        then show ?thesis using that p(1,4)
            mainline_depth.climb [of "map_of mmap" e "view db m" "fst af" "core (snd af)" d]
          by (cases af) (simp add: v mainline_depth_core)
      qed
      then show ?thesis using p(2,3) x D extends_trans by auto
    qed
  qed simp
  then show ?thesis unfolding d by (cases found) auto
qed

lemma depth_ends:
  assumes ok: "store_ok store db" and rk: "ranked db m rank" and x: "extends db m m1" and ev: "view db m i = Some (core ev)"
  shows "get_mainline_depth_for_event store ev mmap m1 \<noteq> None"
proof -
  let ?b = "\<lambda>s :: depth_state. fst s \<noteq> None \<and> fst (snd s) = None"
  let ?R = "measure (\<lambda>s :: depth_state. (case fst s of None \<Rightarrow> 0 | Some e \<Rightarrow> 2 * Suc (rank (ev_id e)))
    + (if fst (snd s) = None then 1 else 0))"
  let ?I = "\<lambda>s :: depth_state. view db (snd (snd s)) = view db m \<and>
    (\<forall>e. fst s = Some e \<longrightarrow> view db m (ev_id e) = Some (core e))"
  have "whileR ?b (depth_step store (room_id ev) mmap) (Some ev, None, m1) \<noteq> None"
  proof (rule whileR_ends [where I = ?I and R = ?R])
    show "?I (Some ev, None, m1)" using x ev rankedD(1) [OF rk ev] by (simp add: extends_view)
  next
    fix s s'
    assume I: "?I s" and b: "?b s" and c: "depth_step store (room_id ev) mmap s = Inr s'"
    obtain e m2 where s: "s = (Some e, None, m2)" using b by (cases s) auto
    have v: "view db m2 = view db m" "view db m (ev_id e) = Some (core e)" using I s by auto
    from depth_step_spec [OF ok c [unfolded s]] show "?I s' \<and> (s', s) \<in> ?R"
    proof (elim disjE exE conjE)
      fix d
      assume "s' = (Some e, Some d, m2)"
      then show ?thesis using v by (simp add: s)
    next
      fix p m3
      assume p: "s' = (map_option snd p, None, m3)" "extends db m2 m3"
        "map_option (apsnd core) p = power_parent (view db m2) e"
      have "rank (ev_id f) < rank (ev_id e) \<and> view db m (ev_id f) = Some (core f)" if "p = Some (a, f)" for a f
        using ranked_parent [OF rk v(2), of a "core f"] p(3) that by (simp add: v)
      then show ?thesis using p(1,2) v(1) by (cases p) (auto simp: s extends_view)
    qed
  qed simp
  then show ?thesis by (simp add: get_mainline_depth_for_event_def bindO_None_iff case_prod_beta del: not_None_eq)
qed

end
