(* ===== verification/State_Res_V2_Correct.thy ===== *)
theory State_Res_V2_Correct
  imports State_Res_V2_Orders
begin

text \<open>
  Correctness of state resolution version 2: termination, what enters the resolved state, and
  the two orders in which events are considered.
\<close>

section \<open>The mainline order\<close>

definition order_ok :: "(string \<Rightarrow> event option) \<Rightarrow> (string \<rightharpoonup> nat) \<Rightarrow> string \<Rightarrow> mainline_order \<Rightarrow> bool" where
  "order_ok v mm eid k \<longleftrightarrow>
     (\<exists>e d. v eid = Some e \<and> k = (d, origin_server_ts e, eid) \<and> mainline_depth v mm e d)"

lemma add_orders_spec:
  assumes ok: "store_ok store db"
    and r: "foldO (add_order store mmap) (os, m) eids = Some (Inr (os', m'))"
    and x: "extends db m0 m"
    and os: "\<And>i k. map_of os i = Some k \<Longrightarrow> order_ok (view db m0) (map_of mmap) i k"
  shows "extends db m0 m' \<and> dom (map_of os) \<union> set eids \<subseteq> dom (map_of os') \<and>
    (\<forall>i k. map_of os' i = Some k \<longrightarrow> order_ok (view db m0) (map_of mmap) i k)"
  using r x os
proof (induction eids arbitrary: os m)
  case Nil
  then show ?case by simp
next
  case (Cons eid eids)
  obtain ev d m1 where ev: "map_of m eid = Some ev"
    and d: "get_mainline_depth_for_event store ev mmap m = Some (Inr (d, m1))"
    and rest: "foldO (add_order store mmap) (AList.update eid (d, origin_server_ts ev, eid) os, m1) eids = Some (Inr (os', m'))"
    using Cons.prems(1) add_order_def [of store mmap "(os, m)" eid]
    by (auto simp: bindO_Inr_iff split: option.splits)
  note ds = depth_spec [OF ok d]
  have v: "view db m = view db m0" using Cons.prems(2) by (rule extends_view)
  have "view db m0 eid = Some (core ev)" using map_of_view [OF ev, of db] by (simp add: v)
  then have "order_ok (view db m0) (map_of mmap) eid (d, origin_server_ts ev, eid)"
    using ds unfolding order_ok_def by (intro exI [of _ "core ev"] exI [of _ d]) (simp add: v mainline_depth_core)
  then have "order_ok (view db m0) (map_of mmap) i k"
    if "map_of (AList.update eid (d, origin_server_ts ev, eid) os) i = Some k" for i k
    using that Cons.prems(3) by (auto split: if_splits)
  moreover have "extends db m0 m1" using Cons.prems(2) ds extends_trans by blast
  ultimately have IH: "extends db m0 m'"
    "dom (map_of (AList.update eid (d, origin_server_ts ev, eid) os)) \<union> set eids \<subseteq> dom (map_of os')"
    "\<forall>i k. map_of os' i = Some k \<longrightarrow> order_ok (view db m0) (map_of mmap) i k"
    using Cons.IH [OF rest] by blast+
  have "dom (map_of os) \<union> set (eid # eids) \<subseteq> dom (map_of os')" using IH(2) by simp
  with IH(1,3) show ?case by blast
qed

lemma mainline_sort_spec:
  assumes ok: "store_ok store db" and r: "mainline_sort store room eids pl m = Some (Inr (sorted_ids, m'))"
  shows "extends db m m' \<and> mset sorted_ids = mset eids \<and>
    (eids \<noteq> [] \<longrightarrow> (\<exists>ml order. mainline (view db m) pl ml \<and> sorted (map order sorted_ids) \<and>
       (\<forall>i\<in>set eids. order_ok (view db m) (map_of (mainline_map ml)) i (order i))))"
proof (cases "eids = []")
  case True
  then show ?thesis using r by (simp add: mainline_sort_def)
next
  case False
  then obtain ml m1 os where g: "get_mainline store room pl m = Some (Inr (ml, m1))"
    and o: "foldO (add_order store (mainline_map ml)) ([], m1) eids = Some (Inr (os, m'))"
    and s: "sorted_ids = sort_key (order_of os) eids"
    using r by (auto simp: mainline_sort_def bindO_Inr_iff)
  note gs = get_mainline_spec [OF ok g]
  note os = add_orders_spec [OF ok o conjunct2 [OF gs]]
  have "order_ok (view db m) (map_of (mainline_map ml)) i (order_of os i)" if i: "i \<in> set eids" for i
    using os i by (auto simp: order_of_def split: option.splits)
  moreover have "sorted (map (order_of os) sorted_ids)" by (simp add: s)
  ultimately have "\<exists>ml order. mainline (view db m) pl ml \<and> sorted (map order sorted_ids) \<and>
       (\<forall>i\<in>set eids. order_ok (view db m) (map_of (mainline_map ml)) i (order i))"
    using gs by blast
  then show ?thesis using os s by simp
qed

lemma mainline_sort_ends:
  assumes ok: "store_ok store db" and rk: "ranked db m rank"
  shows "mainline_sort store room eids pl m \<noteq> None"
proof -
  have "foldO (add_order store (mainline_map ml)) ([], m1) eids \<noteq> None"
    if m1: "extends db m m1" for ml m1
  proof (rule foldO_ends [where I = "\<lambda>s. extends db m (snd s)"])
    fix s t :: "(string \<times> mainline_order) list \<times> event_map" and eid
    assume e: "extends db m (snd s)"
    show "add_order store (mainline_map ml) s eid \<noteq> None"
    proof (cases "map_of (snd s) eid")
      case (Some ev)
      then have "view db m eid = Some (core ev)" using e map_of_view by (metis extends_view)
      from depth_ends [OF ok rk e this] Some show ?thesis
        by (simp add: add_order_def bindO_None_iff case_prod_beta del: not_None_eq)
    qed (simp add: add_order_def)
    assume "add_order store (mainline_map ml) s eid = Some (Inr t)"
    then show "extends db m (snd t)"
      using e depth_spec [OF ok] extends_trans
      by (fastforce simp: add_order_def bindO_Inr_iff split: option.splits)
  qed (use m1 in simp)
  then have "bindO (foldO (add_order store (mainline_map ml)) ([], m1) eids) (\<lambda>(orders, m2).
      Some (Inr (sort_key (order_of orders) eids, m2))) \<noteq> None"
    if "get_mainline store room pl m = Some (Inr (ml, m1))" for ml m1
    using get_mainline_spec [OF ok that] by (intro bindO_ends) (auto simp del: not_None_eq)
  then have "bindO (get_mainline store room pl m) (\<lambda>(ml, m1).
      bindO (foldO (add_order store (mainline_map ml)) ([], m1) eids) (\<lambda>(orders, m2).
        Some (Inr (sort_key (order_of orders) eids, m2)))) \<noteq> None"
    by (intro bindO_ends get_mainline_ends [OF ok rk]) (simp add: case_prod_beta del: not_None_eq)
  then show ?thesis by (simp add: mainline_sort_def)
qed

section \<open>The auth checks\<close>

text \<open>
  What the iterative auth checks are to compute, on events as they are known (\<open>v\<close>) instead of a
  store and a cache: an event is judged by its own auth events and, where the resolved state has an event
  at a key the auth event selection asks for, by that one instead.  Rejected events do not count.
\<close>

definition own_auth_state :: "(string \<Rightarrow> event option) \<Rightarrow> string list \<Rightarrow> (state_pos \<times> event) list" where
  "own_auth_state v aids =
     foldl (\<lambda>auth aid. case v aid of
         None \<Rightarrow> auth
       | Some a \<Rightarrow>
           if rejected_reason a = None then (case state_pos a of Inl _ \<Rightarrow> auth | Inr p \<Rightarrow> AList.update p a auth) else auth) [] aids"

definition overlay_state ::
  "(string \<Rightarrow> event option) \<Rightarrow> (state_pos \<Rightarrow> string option) \<Rightarrow> state_pos list \<Rightarrow> (state_pos \<times> event) list \<Rightarrow> (state_pos \<times> event) list" where
  "overlay_state v resolved ks auth =
     foldl (\<lambda>auth k. case Option.bind (resolved k) v of
         None \<Rightarrow> auth
       | Some a \<Rightarrow> if rejected_reason a = None then AList.update k a auth else auth) auth ks"

definition passes_auth ::
  "verifier \<Rightarrow> (string \<Rightarrow> event option) \<Rightarrow> room_version \<Rightarrow> (state_pos \<Rightarrow> string option) \<Rightarrow> event \<Rightarrow> bool" where
  "passes_auth verify v rv resolved e \<longleftrightarrow> rejected_reason e = None \<and>
     (case auth_types_for_event rv e of
        Inl _ \<Rightarrow> False
      | Inr ks \<Rightarrow> ok (check_state_dependent_auth_rules verify e
          (map snd (overlay_state v resolved (remdups ks) (own_auth_state v (auth_event_ids e))))))"

definition apply_event ::
  "verifier \<Rightarrow> (string \<Rightarrow> event option) \<Rightarrow> room_version \<Rightarrow> (state_pos \<Rightarrow> string option) \<Rightarrow> string \<Rightarrow> state_pos \<Rightarrow> string option" where
  "apply_event verify v rv resolved eid =
     (case v eid of
        None \<Rightarrow> resolved
      | Some e \<Rightarrow>
          (case state_pos e of
             Inl _ \<Rightarrow> resolved
           | Inr k \<Rightarrow> if passes_auth verify v rv resolved e then resolved(k \<mapsto> eid) else resolved))"

abbreviation core_entries :: "(state_pos \<times> event) list \<Rightarrow> (state_pos \<times> event) list" where
  "core_entries \<equiv> map (apsnd core)"

lemma core_entries_update: "core_entries (AList.update p e auth) = AList.update p (core e) (core_entries auth)"
  by (induction auth) auto

lemma snd_core_entries: "map snd (core_entries auth) = map core (map snd auth)"
  by simp

lemma foldR_refines:
  assumes "foldR f s xs = Inr s'" "R s a"
    and "\<And>s x t a. x \<in> set xs \<Longrightarrow> R s a \<Longrightarrow> f s x = Inr t \<Longrightarrow> R t (g a x)"
  shows "R s' (foldl g a xs)"
  using assms
proof (induction xs arbitrary: s a)
  case (Cons x xs)
  then obtain t where "f s x = Inr t" "foldR f t xs = Inr s'" by (auto simp: bindR_Inr_iff)
  then show ?case using Cons.IH [of t "g a x"] Cons.prems(2,3) by simp
qed simp

lemma own_auth_events_spec:
  assumes ok: "store_ok store db" and r: "own_auth_events store room aids m = Inr (auth, m')"
  shows "extends db m m' \<and> core_entries auth = own_auth_state (view db m) aids"
proof -
  have "extends db m (snd (auth, m')) \<and> core_entries (fst (auth, m')) = own_auth_state (view db m) aids"
    unfolding own_auth_state_def
  proof (rule foldR_refines [OF r [unfolded own_auth_events_def], where R = "\<lambda>s a. extends db m (snd s) \<and> core_entries (fst s) = a"])
    fix s aid t a
    assume I: "extends db m (snd s) \<and> core_entries (fst s) = a"
      and st: "(case s of (auth, m) \<Rightarrow> \<lambda>aid. bindR (get_event store room True aid m) (\<lambda>(ev, m').
         case ev of
           None \<Rightarrow> Inr (auth, m')
         | Some e \<Rightarrow>
             if rejected_reason e = None
             then bindR (state_pos e) (\<lambda>p. Inr (AList.update p e auth, m'))
             else Inr (auth, m'))) aid = Inr t"
    obtain au m1 where s: "s = (au, m1)" by (cases s)
    obtain ev m2 where g: "get_event store room True aid m1 = Inr (ev, m2)"
      and b: "(case ev of
           None \<Rightarrow> Inr (au, m2)
         | Some e \<Rightarrow>
             if rejected_reason e = None
             then bindR (state_pos e) (\<lambda>p. Inr (AList.update p e au, m2)) else Inr (au, m2)) = Inr t"
      using st unfolding s by (auto simp: bindR_Inr_iff)
    note gs = get_event_spec [OF ok g]
    have v: "view db m aid = map_option core ev" using gs I extends_view [of db m m1] by (simp add: s)
    have t: "snd t = m2" using b by (cases ev) (auto simp: bindR_Inr_iff split: if_splits)
    have "extends db m m2" using I gs extends_trans by (simp add: s) blast
    moreover have "core_entries (fst t) = (case view db m aid of
         None \<Rightarrow> a
       | Some a' \<Rightarrow>
           if rejected_reason a' = None then (case state_pos a' of Inl _ \<Rightarrow> a | Inr p \<Rightarrow> AList.update p a' a) else a)"
      using b I unfolding v by (cases ev) (auto simp: s bindR_Inr_iff core_entries_update split: if_splits sum.splits)
    ultimately show "extends db m (snd t) \<and> core_entries (fst t) = (case view db m aid of
         None \<Rightarrow> a
       | Some a' \<Rightarrow>
           if rejected_reason a' = None then (case state_pos a' of Inl _ \<Rightarrow> a | Inr p \<Rightarrow> AList.update p a' a) else a)"
      by (simp add: t)
  qed simp
  then show ?thesis by simp
qed

lemma resolved_auth_events_spec:
  assumes ok: "store_ok store db" and x: "extends db m0 m"
    and r: "resolved_auth_events store room resolved ks (auth0, m) = Inr (auth, m')"
  shows "extends db m0 m' \<and> core_entries auth = overlay_state (view db m0) (map_of resolved) ks (core_entries auth0)"
proof -
  have "extends db m0 (snd (auth, m')) \<and>
      core_entries (fst (auth, m')) = overlay_state (view db m0) (map_of resolved) ks (core_entries auth0)"
    unfolding overlay_state_def
  proof (rule foldR_refines [OF r [unfolded resolved_auth_events_def],
        where R = "\<lambda>s a. extends db m0 (snd s) \<and> core_entries (fst s) = a"])
    fix s k t a
    assume I: "extends db m0 (snd s) \<and> core_entries (fst s) = a"
      and st: "(case s of (auth, m) \<Rightarrow> \<lambda>k. case map_of resolved k of
           None \<Rightarrow> Inr (auth, m)
         | Some eid \<Rightarrow>
             bindR (the_event store room eid m) (\<lambda>(e, m').
               if rejected_reason e = None then Inr (AList.update k e auth, m') else Inr (auth, m'))) k = Inr t"
    obtain au m1 where s: "s = (au, m1)" by (cases s)
    show "extends db m0 (snd t) \<and> core_entries (fst t) = (case Option.bind (map_of resolved k) (view db m0) of
         None \<Rightarrow> a
       | Some a' \<Rightarrow> if rejected_reason a' = None then AList.update k a' a else a)"
    proof (cases "map_of resolved k")
      case None
      then show ?thesis using st I by (auto simp: s)
    next
      case (Some eid)
      then obtain e m2 where g: "the_event store room eid m1 = Inr (e, m2)"
        and t: "t = (if rejected_reason e = None then AList.update k e au else au, m2)"
        using st unfolding s by (auto simp: bindR_Inr_iff split: if_splits)
      note gs = the_event_spec [OF ok g]
      have "extends db m0 m2" using I gs extends_trans by (simp add: s) blast
      moreover have "view db m0 eid = Some (core e)" using gs I extends_view [of db m0 m1] by (simp add: s)
      ultimately show ?thesis using t I Some by (simp add: s core_entries_update)
    qed
  qed (use x in simp)
  then show ?thesis by simp
qed

lemma extends_update:
  assumes "map_of m eid = Some e" "core e' = core e"
  shows "extends db m (AList.update eid e' m)"
  using assms by (auto simp: extends_def view_def map_add_def fun_eq_iff)

lemma auth_check_event_spec:
  assumes ok: "store_ok store db" and r: "auth_check_event verify store room rv (rs, m) eid = Inr (rs', m')"
  shows "extends db m m' \<and> map_of rs' = apply_event verify (view db m) rv (map_of rs) eid"
proof -
  obtain ev where ev: "map_of m eid = Some ev" using r by (auto simp: auth_check_event_def split: option.splits)
  obtain own mo ks auth m1 where o: "own_auth_events store room (auth_event_ids ev) m = Inr (own, mo)"
    and ks: "auth_types_for_event rv ev = Inr ks"
    and ra: "resolved_auth_events store room rs (remdups ks) (own, mo) = Inr (auth, m1)"
    and rest: "(if rejected_reason ev \<noteq> None then Inr (rs, m1)
            else
              (case check_state_dependent_auth_rules verify ev (map snd auth) of
                 Inl e \<Rightarrow> if is_AuthError e then Inr (rs, m1) else Inl e
               | Inr ev' \<Rightarrow>
                   bindR (state_pos ev) (\<lambda>p.
                     Inr (AList.update p eid rs, AList.update eid ev' m1)))) = Inr (rs', m')"
    using r unfolding auth_check_event_def fst_conv snd_conv by (auto simp: ev bindR_Inr_iff)
  note os = own_auth_events_spec [OF ok o]
  note ras = resolved_auth_events_spec [OF ok conjunct1 [OF os] ra]
  have v: "view db m eid = Some (core ev)" by (rule map_of_view [OF ev])
  have "passes_auth verify (view db m) rv (map_of rs) (core ev) \<longleftrightarrow>
      rejected_reason ev = None \<and> ok (check_state_dependent_auth_rules verify (core ev) (map snd (core_entries auth)))"
    using os ras by (simp add: passes_auth_def ks)
  then have pass: "passes_auth verify (view db m) rv (map_of rs) (core ev) \<longleftrightarrow>
      rejected_reason ev = None \<and> ok (check_state_dependent_auth_rules verify ev (map snd auth))"
    unfolding snd_core_entries check_core_ok .
  consider "rs' = rs" "m' = m1" "\<not> passes_auth verify (view db m) rv (map_of rs) (core ev)"
    | ev' k where "rejected_reason ev = None" "check_state_dependent_auth_rules verify ev (map snd auth) = Inr ev'"
        "state_pos ev = Inr k" "rs' = AList.update k eid rs" "m' = AList.update eid ev' m1"
    using rest unfolding pass by (auto simp: bindR_Inr_iff split: if_splits sum.splits)
  then show ?thesis
  proof cases
    case 1
    then show ?thesis using ras v by (simp add: apply_event_def split: sum.split)
  next
    case (2 ev' k)
    obtain e1 where e1: "map_of m1 eid = Some e1" using extends_dom [OF conjunct1 [OF ras]] ev by fastforce
    then have "core e1 = core ev" using map_of_view [OF e1, of db] v extends_view [OF conjunct1 [OF ras]] by simp
    then have "core ev' = core e1" using check_core [OF 2(2)] by simp
    from extends_update [OF e1 this] have "extends db m m'" using ras 2(5) extends_trans by blast
    moreover have "map_of rs' = apply_event verify (view db m) rv (map_of rs) eid"
      using 2 v pass by (simp add: apply_event_def update_conv')
    ultimately show ?thesis by blast
  qed
qed

lemma iterative_auth_checks_spec:
  assumes ok: "store_ok store db" and r: "iterative_auth_checks verify store room rv eids rs m = Inr (rs', m')"
    and x: "extends db m0 m"
  shows "extends db m0 m' \<and> map_of rs' = foldl (apply_event verify (view db m0) rv) (map_of rs) eids"
proof -
  have "extends db m0 (snd (rs', m')) \<and> map_of (fst (rs', m')) = foldl (apply_event verify (view db m0) rv) (map_of rs) eids"
  proof (rule foldR_refines [OF r [unfolded iterative_auth_checks_def],
        where R = "\<lambda>s a. extends db m0 (snd s) \<and> map_of (fst s) = a"])
    fix s eid t a
    assume I: "extends db m0 (snd s) \<and> map_of (fst s) = a" and st: "auth_check_event verify store room rv s eid = Inr t"
    have v: "view db (snd s) = view db m0" using I extends_view by blast
    have "auth_check_event verify store room rv (fst s, snd s) eid = Inr (fst t, snd t)" using st by simp
    from auth_check_event_spec [OF ok this] I show "extends db m0 (snd t) \<and> map_of (fst t) = apply_event verify (view db m0) rv a eid"
      using extends_trans by (auto simp: v)
  qed (use x in simp)
  then show ?thesis by simp
qed

section \<open>Conflicts\<close>

lemma singleton_list: "distinct xs \<Longrightarrow> set xs = {x} \<Longrightarrow> xs = [x]"
  by (cases xs; cases "tl xs") auto

lemma values_at_single:
  "values_at ss k = [Some v] \<longleftrightarrow> ss \<noteq> [] \<and> (\<forall>s\<in>set ss. map_of s k = Some v)"
proof
  assume "values_at ss k = [Some v]"
  then have "(\<lambda>s. map_of s k) ` set ss = {Some v}" by (metis list.simps(15) list.set(1) set_map set_remdups values_at_def)
  then show "ss \<noteq> [] \<and> (\<forall>s\<in>set ss. map_of s k = Some v)" by auto
next
  assume "ss \<noteq> [] \<and> (\<forall>s\<in>set ss. map_of s k = Some v)"
  then show "values_at ss k = [Some v]"
    using singleton_list [of "values_at ss k" "Some v"] by (auto simp: values_at_def image_constant_conv)
qed

definition agreed :: "state_dict list \<Rightarrow> state_pos \<Rightarrow> string option" where
  "agreed ss k = (case values_at ss k of [Some v] \<Rightarrow> Some v | _ \<Rightarrow> None)"

lemma agreed_iff: "agreed ss k = Some v \<longleftrightarrow> ss \<noteq> [] \<and> (\<forall>s\<in>set ss. map_of s k = Some v)"
  unfolding values_at_single [symmetric] agreed_def by (auto split: list.splits option.splits)

lemma seperate_step:
  "(case values_at ss k of
      [Some v] \<Rightarrow> (AList.update k v u, c)
    | ids \<Rightarrow> (u, AList.update k (List.map_filter id ids) c)) =
   (case agreed ss k of
      Some v \<Rightarrow> (AList.update k v u, c)
    | None \<Rightarrow> (u, AList.update k (List.map_filter id (values_at ss k)) c))"
  by (auto simp: agreed_def split: list.splits option.splits)

lemma seperate_spec:
  "map_of (fst (seperate ss)) = agreed ss"
  "map_of (snd (seperate ss)) k =
     (if k \<in> set (conflict_keys ss) \<and> agreed ss k = None then Some (List.map_filter id (values_at ss k)) else None)"
proof -
  let ?f = "\<lambda>(u, c) k. case values_at ss k of [Some v] \<Rightarrow> (AList.update k v u, c)
    | ids \<Rightarrow> (u, AList.update k (List.map_filter id ids) c)"
  have "map_of (fst (foldl ?f (u, c) ks)) k = (if k \<in> set ks \<and> agreed ss k \<noteq> None then agreed ss k else map_of u k)
    \<and> map_of (snd (foldl ?f (u, c) ks)) k =
      (if k \<in> set ks \<and> agreed ss k = None then Some (List.map_filter id (values_at ss k)) else map_of c k)" for ks u c k
    by (induction ks arbitrary: u c) (auto simp: seperate_step split: option.splits)
  note * = this
  show "map_of (snd (seperate ss)) k =
     (if k \<in> set (conflict_keys ss) \<and> agreed ss k = None then Some (List.map_filter id (values_at ss k)) else None)"
    using * [of "[]" "[]" "conflict_keys ss" k] by (simp add: seperate_def)
  have "agreed ss k = None" if "k \<notin> set (conflict_keys ss)" for k
  proof (rule ccontr)
    assume "agreed ss k \<noteq> None"
    then obtain v where "agreed ss k = Some v" by blast
    then obtain s where "s \<in> set ss" "map_of s k = Some v" unfolding agreed_iff by (cases ss) auto
    then show False using that map_of_SomeD [of s k v] by (force simp: conflict_keys_def)
  qed
  then show "map_of (fst (seperate ss)) = agreed ss"
    using * [of "[]" "[]" "conflict_keys ss"] by (auto simp: seperate_def fun_eq_iff)
qed

lemma distinct_seperate:
  "distinct (map fst (fst (seperate ss)))" "distinct (map fst (snd (seperate ss)))"
proof -
  let ?f = "\<lambda>(u, c) k. case values_at ss k of [Some v] \<Rightarrow> (AList.update k v u, c)
    | ids \<Rightarrow> (u, AList.update k (List.map_filter id ids) c)"
  have "distinct (map fst u) \<Longrightarrow> distinct (map fst c) \<Longrightarrow>
    distinct (map fst (fst (foldl ?f (u, c) ks))) \<and> distinct (map fst (snd (foldl ?f (u, c) ks)))" for ks u c
    by (induction ks arbitrary: u c) (auto simp: seperate_step distinct_update split: option.splits)
  then show "distinct (map fst (fst (seperate ss)))" "distinct (map fst (snd (seperate ss)))"
    by (simp_all add: seperate_def)
qed

end
