(* ===== verification/State_Res_V2_Claims.thy ===== *)
theory State_Res_V2_Claims
  imports State_Res_V2_Correct
begin

text \<open>
  The properties of state resolution version 2, evaluated on a room whose two branches disagree
  about the topic.
\<close>

section \<open>A room with two branches\<close>

definition topic_event :: "string \<Rightarrow> string \<Rightarrow> string \<Rightarrow> event" where
  "topic_event i u m = sample_event i ''m.room.topic'' u (Some []) [] [''$create'', ''$power'', m]"

definition branch_events :: event_map where
  "branch_events = map (\<lambda>e. (ev_id e, e))
     (ex_state @ [topic_event ''$t1'' ''@b:s'' ''$b'', topic_event ''$t2'' ''@d:s'' ''$d''])"

definition base_dict :: state_dict where
  "base_dict = map (\<lambda>e. ((ev_type e, the (state_key_field e)), ev_id e)) ex_state"

definition branches :: "state_dict list" where
  "branches = [base_dict @ [((''m.room.topic'', []), ''$t1'')], base_dict @ [((''m.room.topic'', []), ''$t2'')]]"

text \<open>Every event is in flight: the store has none.\<close>

definition empty_store :: state_res_store where
  "empty_store = \<lparr>srs_get_events = (\<lambda>_. []), srs_auth_chain_difference = (\<lambda>_ _. [])\<rparr>"

lemma empty_store_ok: "store_ok empty_store Map.empty"
  by (simp add: store_ok_def empty_store_def restrict_map_def)

lemma branch_resolution:
  "resolve_events_with_store no_verify empty_store ''!r:s'' RV_V10 branches (Some branch_events) =
     Some (Inr (base_dict @ [((''m.room.topic'', []), ''$t1'')]))"
  by code_simp

text \<open>An event map is acyclic when each of its entries is.\<close>

lemma ranked_in_flight:
  assumes "\<forall>(i, e)\<in>set m. ev_id e = i \<and> (\<forall>a\<in>set (auth_event_ids e). rank a < rank i)"
  shows "ranked Map.empty m rank"
  unfolding ranked_def
proof (intro allI impI)
  fix i e
  assume "view Map.empty m i = Some e"
  then obtain f where "map_of m i = Some f" "e = core f" by (auto simp: view_def)
  then show "ev_id e = i \<and> (\<forall>a\<in>set (auth_event_ids e). rank a < rank i)"
    using assms map_of_SomeD [of m i f] by auto
qed

definition branch_rank :: "string \<Rightarrow> nat" where
  "branch_rank i = (if i = ''$create'' then 0 else if i = ''$power'' then 2
     else if i \<in> {''$t1'', ''$t2''} then 3 else 1)"

lemma branch_ranked: "ranked Map.empty branch_events branch_rank"
proof (rule ranked_in_flight)
  have "list_all (\<lambda>(i, e). ev_id e = i \<and> list_all (\<lambda>a. branch_rank a < branch_rank i) (auth_event_ids e)) branch_events"
    by code_simp
  then show "\<forall>(i, e)\<in>set branch_events. ev_id e = i \<and> (\<forall>a\<in>set (auth_event_ids e). branch_rank a < branch_rank i)"
    by (simp add: list_all_iff case_prod_beta)
qed

lemma branch_distinct: "distinct (map fst branch_events)"
  by code_simp

section \<open>The resolution step by step\<close>

abbreviation in_flight :: "event_map option \<Rightarrow> event_map" where
  "in_flight event_map \<equiv> (case event_map of None \<Rightarrow> [] | Some m \<Rightarrow> m)"

text \<open>The event map after the full conflicted set was fetched.\<close>

definition fetched :: "state_res_store \<Rightarrow> string list \<Rightarrow> event_map \<Rightarrow> event_map" where
  "fetched store F m = dict_update m (srs_get_events store (filter (\<lambda>i. map_of m i = None) F))"

lemma fetched_extends: "store_ok store db \<Longrightarrow> extends db m (fetched store F m)"
  unfolding fetched_def by (rule fetch_extends) auto

lemma filterR_subset: "filterR f xs = Inr ys \<Longrightarrow> set ys \<subseteq> set xs"
  by (induction xs arbitrary: ys) (auto simp: bindR_Inr_iff split: if_splits)

lemma bindO_InrE:
  assumes "bindO m f = Some (Inr y)"
  obtains x where "m = Some (Inr x)" "f x = Some (Inr y)"
  using assms unfolding bindO_Inr_iff by blast

lemma resolve_cases:
  assumes "resolve_events_with_store verify store room rv ss event_map = Some (Inr s)"
  obtains (agree) "snd (seperate ss) = []" "s = fst (seperate ss)"
  | (conflict) diff F where "snd (seperate ss) \<noteq> []"
      "get_auth_chain_difference store room ss (in_flight event_map) = Some (Inr diff)"
      "F = full_conflicted_set (snd (seperate ss)) diff"
      "\<And>i e. (i, e) \<in> set (fetched store F (in_flight event_map)) \<Longrightarrow> room_id e = room"
      "resolve_conflicts verify store room rv (fst (seperate ss))
         (filter (\<lambda>i. map_of (fetched store F (in_flight event_map)) i \<noteq> None) F)
         (fetched store F (in_flight event_map)) = Some (Inr s)"
proof (cases "snd (seperate ss) = []")
  case True
  then show thesis using assms agree
    by (simp add: resolve_events_with_store_def case_prod_beta Let_def)
next
  case False
  then have "bindO (get_auth_chain_difference store room ss (in_flight event_map)) (\<lambda>diff.
     let F = full_conflicted_set (snd (seperate ss)) diff; m = fetched store F (in_flight event_map)
     in bindO (liftO (forR m (\<lambda>(_, ev). guardR (room_id ev = room) GenericException))) (\<lambda>_.
          resolve_conflicts verify store room rv (fst (seperate ss)) (filter (\<lambda>i. map_of m i \<noteq> None) F) m)) = Some (Inr s)"
    using assms by (simp add: resolve_events_with_store_def case_prod_beta Let_def fetched_def)
  then obtain diff where d: "get_auth_chain_difference store room ss (in_flight event_map) = Some (Inr diff)"
    and b: "(let F = full_conflicted_set (snd (seperate ss)) diff; m = fetched store F (in_flight event_map)
     in bindO (liftO (forR m (\<lambda>(_, ev). guardR (room_id ev = room) GenericException))) (\<lambda>_.
          resolve_conflicts verify store room rv (fst (seperate ss)) (filter (\<lambda>i. map_of m i \<noteq> None) F) m)) = Some (Inr s)"
    by (rule bindO_InrE)
  let ?F = "full_conflicted_set (snd (seperate ss)) diff"
  let ?m = "fetched store ?F (in_flight event_map)"
  have "forR ?m (\<lambda>(_, ev). guardR (room_id ev = room) GenericException) = Inr ()"
    and c: "resolve_conflicts verify store room rv (fst (seperate ss)) (filter (\<lambda>i. map_of ?m i \<noteq> None) ?F) ?m = Some (Inr s)"
    using b unfolding Let_def by (auto elim!: bindO_InrE simp del: not_None_eq)
  then have "room_id e = room" if "(i, e) \<in> set ?m" for i e
    using that by (auto simp: forR_Inr_iff guardR_Inr_iff)
  then show thesis using conflict [OF False d refl _ c] by blast
qed

lemma resolve_conflicts_cases:
  assumes "resolve_conflicts verify store room rv u F m = Some (Inr s)"
  obtains pe sp m1 r1 m2 lo m3 r2 m4 where
    "filterR (\<lambda>eid. case map_of m eid of None \<Rightarrow> Inl KeyErr | Some ev \<Rightarrow> is_power_event ev) F = Inr pe"
    "reverse_topological_power_sort store room pe m F = Some (Inr (sp, m1))"
    "iterative_auth_checks verify store room rv sp u m1 = Inr (r1, m2)"
    "mainline_sort store room (filter (\<lambda>i. i \<notin> set sp) F) (map_of r1 (PowerLevels, [])) m2 = Some (Inr (lo, m3))"
    "iterative_auth_checks verify store room rv lo r1 m3 = Inr (r2, m4)"
    "s = dict_update r2 u"
  using assms unfolding resolve_conflicts_def
  by (fastforce simp: bindO_Inr_iff Let_def)

text \<open>
  The order in which the events of the full conflicted set are applied, in two parts.  In the first, an
  event comes after those of its auth events that are in the set; the second is in mainline order of the
  power levels event that the first part left in the resolved state.
\<close>

definition resolution_order ::
  "verifier \<Rightarrow> (string \<Rightarrow> event option) \<Rightarrow> room_version \<Rightarrow> (state_pos \<Rightarrow> string option) \<Rightarrow> string list \<Rightarrow> string list \<Rightarrow> bool" where
  "resolution_order verify v rv base pe rest \<longleftrightarrow>
     distinct (pe @ rest) \<and>
     (\<forall>n<length pe. \<forall>e. v (pe ! n) = Some e \<longrightarrow>
        set (auth_event_ids e) \<inter> set (pe @ rest) \<subseteq> set (take n pe)) \<and>
     (rest \<noteq> [] \<longrightarrow>
        (\<exists>ml order. mainline v (foldl (apply_event verify v rv) base pe (PowerLevels, [])) ml \<and>
           sorted (map order rest) \<and> (\<forall>i\<in>set rest. order_ok v (map_of (mainline_map ml)) i (order i))))"

lemma power_sort_order:
  assumes ok: "store_ok store db" and t: "reverse_topological_power_sort store room pe m F = Some (Inr (sp, m1))"
    and pe: "set pe \<subseteq> set F"
  shows "extends db m m1" "distinct sp" "set sp \<subseteq> set F"
    "\<And>n e. n < length sp \<Longrightarrow> view db m (sp ! n) = Some e \<Longrightarrow> set (auth_event_ids e) \<inter> set F \<subseteq> set (take n sp)"
proof -
  obtain g and key :: "string \<Rightarrow> power_order" where g: "chain_inv db room F m ([], g, m1)" "nodes g \<subseteq> set pe \<union> set F"
    "lexicographical_topological_sort g key = Some sp"
    using power_graph [OF ok t] by blast
  have x1: "extends db m m1" and cg: "chain_graph (view db m) room F [] g" using g(1) unfolding chain_inv_def by blast+
  have r: "distinct sp" "set sp \<subseteq> nodes g" "topological g sp" using sort_result [OF chain_graph_ok [OF cg], of key] g(3) by auto
  show "extends db m m1" by (rule x1)
  show "distinct sp" by (rule r(1))
  show "set sp \<subseteq> set F" using r(2) g(2) pe by blast
  fix n e
  assume n: "n < length sp" and e: "view db m (sp ! n) = Some e"
  have "sp ! n \<in> nodes g" using r(2) n by (meson nth_mem subsetD)
  from chain_graphE [OF cg this] obtain f where "view db m (sp ! n) = Some f"
    "edges g (sp ! n) = set (auth_event_ids f) \<inter> set F" by blast
  then show "set (auth_event_ids e) \<inter> set F \<subseteq> set (take n sp)" using r(3) n e unfolding topological_def by force
qed

lemma filterR_member: "filterR f xs = Inr ys \<Longrightarrow> x \<in> set xs \<Longrightarrow> f x = Inr True \<Longrightarrow> x \<in> set ys"
  by (induction xs arbitrary: ys) (auto simp: bindR_Inr_iff split: if_splits)

text \<open>The power sort leaves no power event out, if the auth events are acyclic.\<close>

lemma power_sort_complete:
  assumes ok: "store_ok store db" and rk: "ranked db m rank"
    and t: "reverse_topological_power_sort store room pe m F = Some (Inr (sp, m1))"
  shows "set pe \<subseteq> set sp"
proof -
  obtain g and key :: "string \<Rightarrow> power_order" where g: "chain_inv db room F m ([], g, m1)" "set pe \<subseteq> nodes g"
    "lexicographical_topological_sort g key = Some sp"
    using power_graph [OF ok t] by blast
  have cg: "chain_graph (view db m) room F [] g" using g(1) unfolding chain_inv_def by blast
  note gk = chain_graph_ok [OF cg]
  have "ready g (set sp) = {}" using sort_result [OF gk, of key] g(3) by auto
  moreover have "rank a < rank n" if e: "a \<in> edges g n" for n a
  proof -
    have n: "n \<in> nodes g" using edges_outside [of n g] e by auto
    obtain f where "view db m n = Some f" "edges g n = set (auth_event_ids f) \<inter> set F"
      using chain_graphE [OF cg n] by blast
    then show ?thesis using rk e unfolding ranked_def by blast
  qed
  ultimately have "nodes g \<subseteq> set sp" by (rule acyclic_complete [OF _ gk])
  then show ?thesis using g(2) by blast
qed

lemma is_power_event_core [simp]: "is_power_event (core e) = is_power_event e"
  by (simp add: is_power_event_def cong: if_cong)

lemma resolve_conflicts_order:
  assumes ok: "store_ok store db" and r: "resolve_conflicts verify store room rv u F m = Some (Inr s)"
    and d: "distinct (map fst u)" "distinct F"
  obtains sp lo where "set (sp @ lo) = set F" "resolution_order verify (view db m) rv (map_of u) sp lo"
    "map_of s = foldl (apply_event verify (view db m) rv) (map_of u) (sp @ lo) ++ map_of u"
    "\<And>rank i e. ranked db m rank \<Longrightarrow> i \<in> set F \<Longrightarrow> map_of m i = Some e \<Longrightarrow> is_power_event e = Inr True \<Longrightarrow> i \<in> set sp"
proof -
  obtain pe sp m1 r1 m2 lo m3 r2 m4 where
    pe: "filterR (\<lambda>eid. case map_of m eid of None \<Rightarrow> Inl KeyErr | Some ev \<Rightarrow> is_power_event ev) F = Inr pe"
    and t: "reverse_topological_power_sort store room pe m F = Some (Inr (sp, m1))"
    and i1: "iterative_auth_checks verify store room rv sp u m1 = Inr (r1, m2)"
    and ms: "mainline_sort store room (filter (\<lambda>i. i \<notin> set sp) F) (map_of r1 (PowerLevels, [])) m2 = Some (Inr (lo, m3))"
    and i2: "iterative_auth_checks verify store room rv lo r1 m3 = Inr (r2, m4)"
    and s: "s = dict_update r2 u"
    using resolve_conflicts_cases [OF r] by metis
  note p = power_sort_order [OF ok t filterR_subset [OF pe]]
  note c1 = iterative_auth_checks_spec [OF ok i1 p(1)]
  note c2 = mainline_sort_spec [OF ok ms]
  have v2: "view db m2 = view db m" using c1 extends_view by blast
  have "extends db m m3" using c1 c2 extends_trans by blast
  note c3 = iterative_auth_checks_spec [OF ok i2 this]
  have "mset lo = mset (filter (\<lambda>i. i \<notin> set sp) F)" using c2 by blast
  then have lo: "set lo = set (filter (\<lambda>i. i \<notin> set sp) F)" "distinct lo"
    using mset_eq_setD mset_eq_imp_distinct_iff d(2) distinct_filter by blast+
  have F: "set (sp @ lo) = set F" using lo(1) p(3) by auto
  have "resolution_order verify (view db m) rv (map_of u) sp lo"
    unfolding resolution_order_def F
  proof (intro conjI allI impI)
    show "distinct (sp @ lo)" using p(2) lo by auto
    assume "lo \<noteq> []"
    then have "filter (\<lambda>i. i \<notin> set sp) F \<noteq> []" using lo(1) by (metis set_empty)
    then show "\<exists>ml order. mainline (view db m) (foldl (apply_event verify (view db m) rv) (map_of u) sp (PowerLevels, [])) ml \<and>
        sorted (map order lo) \<and> (\<forall>i\<in>set lo. order_ok (view db m) (map_of (mainline_map ml)) i (order i))"
      using c1 c2 lo(1) by (simp add: v2)
  qed (rule p(4))
  moreover have "map_of s = foldl (apply_event verify (view db m) rv) (map_of u) (sp @ lo) ++ map_of u"
    using c1 c3 d(1) by (intro ext) (simp add: s map_of_dict_update map_of_rev_distinct map_add_def split: option.split)
  moreover have "i \<in> set sp" if "ranked db m rank" "i \<in> set F" "map_of m i = Some e" "is_power_event e = Inr True" for rank i e
    using power_sort_complete [OF ok that(1) t] filterR_member [OF pe that(2)] that(3,4) by auto
  ultimately show thesis using that [OF F] by blast
qed

text \<open>The full conflicted set: the events of conflicted keys, and the auth chain difference.\<close>

definition conflicted_with :: "state_dict list \<Rightarrow> string list \<Rightarrow> string \<Rightarrow> bool" where
  "conflicted_with ss diff i \<longleftrightarrow> i \<in> set diff \<or> (\<exists>k. agreed ss k = None \<and> (\<exists>st\<in>set ss. map_of st k = Some i))"

lemma full_conflicted_iff: "i \<in> set (full_conflicted_set (snd (seperate ss)) diff) \<longleftrightarrow> conflicted_with ss diff i"
proof -
  have val: "i \<in> set (List.map_filter id (values_at ss k)) \<longleftrightarrow> (\<exists>st\<in>set ss. map_of st k = Some i)" for k
    by (auto simp: List.map_filter_def values_at_def image_iff)
  have key: "k \<in> set (conflict_keys ss)" if "st \<in> set ss" "map_of st k = Some i" for st k
    using that map_of_SomeD [of st k i] by (force simp: conflict_keys_def)
  have "(\<exists>(k, ids)\<in>set (snd (seperate ss)). i \<in> set ids) \<longleftrightarrow> (\<exists>k ids. map_of (snd (seperate ss)) k = Some ids \<and> i \<in> set ids)"
    using distinct_seperate(2) [of ss] by (auto simp: case_prod_beta) (metis map_of_SomeD snd_conv)+
  also have "\<dots> \<longleftrightarrow> (\<exists>k. agreed ss k = None \<and> (\<exists>st\<in>set ss. map_of st k = Some i))"
  proof
    assume "\<exists>k ids. map_of (snd (seperate ss)) k = Some ids \<and> i \<in> set ids"
    then obtain k ids where k: "map_of (snd (seperate ss)) k = Some ids" "i \<in> set ids" by blast
    then have "agreed ss k = None" "ids = List.map_filter id (values_at ss k)"
      by (simp_all add: seperate_spec(2) split: if_splits)
    then show "\<exists>k. agreed ss k = None \<and> (\<exists>st\<in>set ss. map_of st k = Some i)" using k(2) val by blast
  next
    assume "\<exists>k. agreed ss k = None \<and> (\<exists>st\<in>set ss. map_of st k = Some i)"
    then obtain k where k: "agreed ss k = None" "\<exists>st\<in>set ss. map_of st k = Some i" by blast
    then have "map_of (snd (seperate ss)) k = Some (List.map_filter id (values_at ss k))"
      using key by (simp add: seperate_spec(2)) blast
    then show "\<exists>k ids. map_of (snd (seperate ss)) k = Some ids \<and> i \<in> set ids" using k(2) val by blast
  qed
  finally show ?thesis by (auto simp: full_conflicted_set_def conflicted_with_def case_prod_beta)
qed

lemma fetched_known:
  assumes ok: "store_ok store db" and i: "i \<in> set F"
  shows "map_of (fetched store F m) i \<noteq> None \<longleftrightarrow> view db m i \<noteq> None"
  using i by (auto simp: fetched_def fetch_map [OF ok] view_def map_add_def restrict_map_def split: option.splits)

lemma fetched_room:
  assumes ok: "store_ok store db" and i: "map_of (fetched store F m) i \<noteq> None"
    and r: "\<And>i e. (i, e) \<in> set (fetched store F m) \<Longrightarrow> room_id e = room"
  shows "\<exists>e. view db m i = Some e \<and> room_id e = room"
proof -
  obtain e where e: "map_of (fetched store F m) i = Some e" using i by blast
  then have "room_id e = room" using r map_of_SomeD by fast
  then show ?thesis using map_of_view [OF e, of db] extends_view [OF fetched_extends [OF ok]] by auto
qed

section \<open>The properties\<close>

text \<open>
  C7. The resolution implements its specification.  If the state sets agree, the resolved state is
  what they agree on.  Otherwise the events of the full conflicted set that are known, which are events
  of the room, are applied one after another to the agreed state, in a \<open>resolution_order\<close>: an event is let
  through if it is not rejected and passes the auth rules against its own auth events overlaid with the state
  resolved so far, and then takes its place in that state.  The agreed state goes on top of the result.
  If the auth events are acyclic, the first part of the order has all power events.
\<close>

theorem resolved_state_sound:
  assumes "store_ok store db"
    and "resolve_events_with_store verify store room rv ss event_map = Some (Inr s)"
  defines "v \<equiv> view db (in_flight event_map)"
  shows "(\<forall>st\<in>set ss. \<forall>k i. map_of st k = Some i \<longrightarrow> agreed ss k = Some i) \<and> map_of s = agreed ss \<or>
    (\<exists>diff pe rest. get_auth_chain_difference store room ss (in_flight event_map) = Some (Inr diff) \<and>
       set (pe @ rest) = {i. conflicted_with ss diff i \<and> v i \<noteq> None} \<and>
       (\<forall>i\<in>set (pe @ rest). \<exists>e. v i = Some e \<and> room_id e = room) \<and>
       resolution_order verify v rv (agreed ss) pe rest \<and>
       (\<forall>rank. ranked db (in_flight event_map) rank \<longrightarrow>
          (\<forall>i\<in>set (pe @ rest). \<forall>e. v i = Some e \<and> is_power_event e = Inr True \<longrightarrow> i \<in> set pe)) \<and>
       map_of s = foldl (apply_event verify v rv) (agreed ss) (pe @ rest) ++ agreed ss)"
  using assms(2)
proof (cases rule: resolve_cases)
  case agree
  have "agreed ss k = Some i" if "st \<in> set ss" "map_of st k = Some i" for st k i
  proof (rule ccontr)
    assume "agreed ss k \<noteq> Some i"
    moreover have "agreed ss k = Some j \<Longrightarrow> j = i" for j using that by (auto simp: agreed_iff)
    ultimately have "agreed ss k = None" by (cases "agreed ss k") auto
    then have "conflicted_with ss [] i" using that unfolding conflicted_with_def by blast
    then show False using full_conflicted_iff [of i ss "[]"] agree(1) by (simp add: full_conflicted_set_def)
  qed
  then show ?thesis using agree(2) seperate_spec(1) [of ss] by simp
next
  case (conflict diff F)
  let ?m = "fetched store F (in_flight event_map)"
  let ?F = "filter (\<lambda>i. map_of ?m i \<noteq> None) F"
  have x: "extends db (in_flight event_map) ?m" by (rule fetched_extends [OF assms(1)])
  have v: "view db ?m = v" unfolding v_def by (rule extends_view [OF x])
  have d: "distinct ?F" by (simp add: conflict(3) full_conflicted_set_def)
  have F: "set ?F = {i. conflicted_with ss diff i \<and> v i \<noteq> None}"
    using fetched_known [OF assms(1), of _ F "in_flight event_map"] full_conflicted_iff [of _ ss diff]
    by (auto simp: conflict(3) v_def)
  have room: "\<exists>e. v i = Some e \<and> room_id e = room" if "i \<in> set ?F" for i
    unfolding v_def by (rule fetched_room [OF assms(1)]) (use that conflict(4) in auto)
  have u: "map_of (fst (seperate ss)) = agreed ss" by (rule seperate_spec(1))
  obtain sp lo where o: "set (sp @ lo) = set ?F" "resolution_order verify v rv (agreed ss) sp lo"
    "map_of s = foldl (apply_event verify v rv) (agreed ss) (sp @ lo) ++ agreed ss"
    and p: "\<And>rank i e. ranked db ?m rank \<Longrightarrow> i \<in> set ?F \<Longrightarrow> map_of ?m i = Some e \<Longrightarrow> is_power_event e = Inr True \<Longrightarrow> i \<in> set sp"
    by (rule resolve_conflicts_order [OF assms(1) conflict(5) distinct_seperate(1) d, unfolded u v]) blast
  have "i \<in> set sp" if h: "ranked db (in_flight event_map) rank" "i \<in> set (sp @ lo)" "v i = Some e" "is_power_event e = Inr True" for rank i e
  proof -
    have i: "i \<in> set ?F" using h(2) o(1) by blast
    then obtain f where f: "map_of ?m i = Some f" by auto
    then have "e = core f" using map_of_view [OF f, of db] h(3) v by simp
    then show ?thesis using p [OF ranked_extends [OF h(1) x] i f] h(4) by simp
  qed
  then show ?thesis using o F room conflict(2) by blast
qed

theorem resolved_state_sound_witness:
  "store_ok empty_store Map.empty \<and>
   (\<exists>pe rest. resolution_order no_verify (view Map.empty branch_events) RV_V10 (agreed branches) pe rest \<and>
      {''$t1'', ''$t2''} \<subseteq> set (pe @ rest) \<and>
      map_of (base_dict @ [((''m.room.topic'', []), ''$t1'')]) =
        foldl (apply_event no_verify (view Map.empty branch_events) RV_V10) (agreed branches) (pe @ rest) ++ agreed branches)"
proof -
  let ?k = "(''m.room.topic'', [])" and ?v = "view Map.empty branch_events"
  have a: "agreed branches ?k = None" by code_simp
  have "list_ex (\<lambda>st. map_of st ?k = Some ''$t1'') branches" "list_ex (\<lambda>st. map_of st ?k = Some ''$t2'') branches" by code_simp+
  then have k: "\<exists>st\<in>set branches. map_of st ?k = Some ''$t1''" "\<exists>st\<in>set branches. map_of st ?k = Some ''$t2''"
    by (simp_all add: list_ex_iff)
  have "list_all (\<lambda>i. map_of branch_events i \<noteq> None) [''$t1'', ''$t2'']" by code_simp
  then have "?v ''$t1'' \<noteq> None" "?v ''$t2'' \<noteq> None" by (auto simp: view_def)
  moreover have "conflicted_with branches diff ''$t1''" "conflicted_with branches diff ''$t2''" for diff
    using a k unfolding conflicted_with_def by blast+
  moreover have "\<not> (\<forall>st\<in>set branches. \<forall>k i. map_of st k = Some i \<longrightarrow> agreed branches k = Some i)"
    using a k(1) by (metis option.distinct(1))
  moreover note resolved_state_sound [OF empty_store_ok branch_resolution, unfolded option.case]
  ultimately show ?thesis using empty_store_ok by blast
qed

text \<open>
  C8. Unconflicted state always still applies: an entry all state sets agree on is in the
  resolved state.
\<close>

theorem unconflicted_kept:
  assumes "resolve_events_with_store verify store room rv ss event_map = Some (Inr s)"
    and "ss \<noteq> []" and "\<forall>st\<in>set ss. map_of st k = Some v"
  shows "map_of s k = Some v"
proof -
  have u: "map_of (fst (seperate ss)) k = Some v" using assms(2,3) by (simp add: seperate_spec(1) agreed_iff)
  from assms(1) show ?thesis
  proof (cases rule: resolve_cases)
    case agree
    then show ?thesis using u by simp
  next
    case (conflict diff F)
    then obtain r2 where "s = dict_update r2 (fst (seperate ss))" by (elim resolve_conflicts_cases)
    then show ?thesis using u distinct_seperate(1) by (simp add: map_of_dict_update map_of_rev_distinct)
  qed
qed

theorem unconflicted_kept_witness:
  "branches \<noteq> [] \<and> map (\<lambda>st. map_of st (PowerLevels, [])) branches = [Some ''$power'', Some ''$power''] \<and>
   map_of (base_dict @ [((''m.room.topic'', []), ''$t1'')]) (PowerLevels, []) = Some ''$power''"
proof -
  have b: "branches \<noteq> []" "\<forall>st\<in>set branches. map_of st (PowerLevels, []) = Some ''$power''"
    by code_simp+
  have "map (\<lambda>st. map_of st (PowerLevels, [])) branches = [Some ''$power'', Some ''$power'']" by code_simp
  then show ?thesis using unconflicted_kept [OF branch_resolution b] b(1) by blast
qed

text \<open>
  C9. The resolution ends (it returns or raises) whenever the events are kept under their own
  ids and their auth events are acyclic.
\<close>

theorem resolution_terminates:
  assumes "store_ok store db" and "distinct (map fst (in_flight event_map))"
    and "ranked db (in_flight event_map) rank"
  shows "\<exists>r. resolve_events_with_store verify store room rv ss event_map = Some r"
proof -
  have rc: "resolve_conflicts verify store room rv u F m \<noteq> None" if x: "extends db (in_flight event_map) m" for u F m
    unfolding resolve_conflicts_def
  proof (intro bindO_ends)
    have rk: "ranked db m rank" using assms(3) x by (rule ranked_extends)
    fix pe
    show "reverse_topological_power_sort store room pe m F \<noteq> None"
      by (rule power_sort_ends [OF assms(1) rk])
    fix sm
    assume t: "reverse_topological_power_sort store room pe m F = Some (Inr sm)"
    obtain sp m1 where sm: "sm = (sp, m1)" by (cases sm)
    have x1: "extends db m m1" using power_graph [OF assms(1) t [unfolded sm]] by (auto simp: chain_inv_def)
    have "mainline_sort store room eids pl m2 \<noteq> None"
      if "iterative_auth_checks verify store room rv sp u m1 = Inr (r1, m2)" for r1 m2 eids pl
      using iterative_auth_checks_spec [OF assms(1) that x1] rk ranked_extends mainline_sort_ends [OF assms(1)] by blast
    then show "(case sm of (sorted_power, emap1) \<Rightarrow>
       bindO (liftO (iterative_auth_checks verify store room rv sorted_power u emap1)) (\<lambda>(resolved1, emap2).
         let leftover = filter (\<lambda>eid. eid \<notin> set sorted_power) F in
         bindO (mainline_sort store room leftover (map_of resolved1 (PowerLevels, [])) emap2) (\<lambda>(sorted_leftover, emap3).
         bindO (liftO (iterative_auth_checks verify store room rv sorted_leftover resolved1 emap3))
           (\<lambda>(resolved2, _). Some (Inr (dict_update resolved2 u)))))) \<noteq> None"
      by (auto simp: sm bindO_None_iff Let_def split: prod.splits)
  qed simp
  have "resolve_events_with_store verify store room rv ss event_map \<noteq> None"
    using get_auth_chain_difference_ends [OF assms(3,2), of store room ss]
      rc [OF fetched_extends [OF assms(1)], unfolded fetched_def]
    by (simp add: resolve_events_with_store_def case_prod_beta Let_def bindO_None_iff del: not_None_eq)
  then show ?thesis by blast
qed

theorem resolution_terminates_witness:
  "store_ok empty_store Map.empty \<and> distinct (map fst branch_events) \<and>
   ranked Map.empty branch_events branch_rank \<and>
   (\<exists>r. resolve_events_with_store no_verify empty_store ''!r:s'' RV_V10 branches (Some branch_events) = Some r)"
  using resolution_terminates [of empty_store Map.empty "Some branch_events" branch_rank]
    empty_store_ok branch_distinct branch_ranked by simp

text \<open>
  C10. The power sort lists every given event exactly once, together with events of the full
  conflicted set only, and every event comes after all of its auth events that are in the full
  conflicted set.
\<close>

theorem power_sort_correct:
  assumes "store_ok store db" and "ranked db m rank"
    and "reverse_topological_power_sort store room eids m F = Some (Inr (sorted_events, m'))"
  shows "distinct sorted_events \<and> set eids \<subseteq> set sorted_events \<and> set sorted_events \<subseteq> set eids \<union> set F \<and>
    (\<forall>i<length sorted_events. \<exists>e. view db m (sorted_events ! i) = Some e \<and>
       set (auth_event_ids e) \<inter> set F \<subseteq> set (take i sorted_events))"
proof -
  obtain g and key :: "string \<Rightarrow> power_order" where g: "chain_inv db room F m ([], g, m')"
    "set eids \<subseteq> nodes g" "nodes g \<subseteq> set eids \<union> set F"
    "lexicographical_topological_sort g key = Some sorted_events"
    using power_graph [OF assms(1,3)] by blast
  have cg: "chain_graph (view db m) room F [] g" using g(1) unfolding chain_inv_def by blast
  note gk = chain_graph_ok [OF cg]
  have r: "distinct sorted_events" "set sorted_events \<subseteq> nodes g" "topological g sorted_events"
    "ready g (set sorted_events) = {}"
    using sort_result [OF gk, of key] g(4) by auto
  have "rank a < rank n" if e: "a \<in> edges g n" for n a
  proof -
    have n: "n \<in> nodes g" using edges_outside [of n g] e by auto
    obtain f where "view db m n = Some f" "edges g n = set (auth_event_ids f) \<inter> set F"
      using chain_graphE [OF cg n] by blast
    then show ?thesis using assms(2) e unfolding ranked_def by blast
  qed
  then have all: "nodes g \<subseteq> set sorted_events" by (rule acyclic_complete [OF r(4) gk])
  have "\<exists>e. view db m (sorted_events ! i) = Some e \<and> set (auth_event_ids e) \<inter> set F \<subseteq> set (take i sorted_events)"
    if i: "i < length sorted_events" for i
  proof -
    have "sorted_events ! i \<in> nodes g" using r(2) i by (meson nth_mem subsetD)
    from chain_graphE [OF cg this] obtain f where "view db m (sorted_events ! i) = Some f"
      "edges g (sorted_events ! i) = set (auth_event_ids f) \<inter> set F" by blast
    then show ?thesis using r(3) i unfolding topological_def by metis
  qed
  moreover have "set sorted_events = nodes g" using r(2) all by (rule subset_antisym)
  ultimately show ?thesis using r(1) g(2,3) by simp
qed

lemma map_fst_outcome: "map_option (map_sum id fst) r = Some (Inr x) \<Longrightarrow> \<exists>y. r = Some (Inr (x, y))"
  by (cases r; cases "the r") auto

lemma branch_power_sort:
  "map_option (map_sum id fst) (reverse_topological_power_sort empty_store ''!r:s'' [''$power'', ''$create''] branch_events
     [''$power'', ''$a'', ''$create'']) = Some (Inr [''$create'', ''$a'', ''$power''])"
  by code_simp

theorem power_sort_correct_witness:
  "store_ok empty_store Map.empty \<and> ranked Map.empty branch_events branch_rank \<and>
   (\<exists>m'. reverse_topological_power_sort empty_store ''!r:s'' [''$power'', ''$create''] branch_events
     [''$power'', ''$a'', ''$create''] = Some (Inr ([''$create'', ''$a'', ''$power''], m')) \<and>
    {''$power'', ''$create''} \<subseteq> set [''$create'', ''$a'', ''$power''])"
proof -
  obtain m' where r: "reverse_topological_power_sort empty_store ''!r:s'' [''$power'', ''$create''] branch_events
     [''$power'', ''$a'', ''$create''] = Some (Inr ([''$create'', ''$a'', ''$power''], m'))"
    using map_fst_outcome [OF branch_power_sort] by blast
  show ?thesis
    using power_sort_correct [OF empty_store_ok branch_ranked r] empty_store_ok branch_ranked r by auto
qed

text \<open>
  C11. The mainline sort returns a permutation of its events that is sorted by the distance of
  each event from the mainline of the given power event, then by timestamp, then by event id.
\<close>

theorem mainline_sort_correct:
  assumes "store_ok store db"
    and "mainline_sort store room eids pl m = Some (Inr (sorted_ids, m'))" and "eids \<noteq> []"
  shows "mset sorted_ids = mset eids \<and> (\<exists>ml order. mainline (view db m) pl ml \<and>
    sorted (map order sorted_ids) \<and>
    (\<forall>i\<in>set eids. \<exists>e d. view db m i = Some e \<and> order i = (d, origin_server_ts e, i) \<and>
       mainline_depth (view db m) (map_of (mainline_map ml)) e d))"
  using mainline_sort_spec [OF assms(1,2)] assms(3) unfolding order_ok_def by blast

lemma branch_mainline_sort:
  "map_option (map_sum id fst) (mainline_sort empty_store ''!r:s'' [''$t2'', ''$t1''] (Some ''$power'') branch_events)
     = Some (Inr [''$t1'', ''$t2''])"
  by code_simp

theorem mainline_sort_correct_witness:
  "store_ok empty_store Map.empty \<and> (\<exists>m'. mainline_sort empty_store ''!r:s'' [''$t2'', ''$t1''] (Some ''$power'') branch_events
     = Some (Inr ([''$t1'', ''$t2''], m'))) \<and> mset [''$t1'', ''$t2''] = mset [''$t2'', ''$t1'']"
proof -
  obtain m' where r: "mainline_sort empty_store ''!r:s'' [''$t2'', ''$t1''] (Some ''$power'') branch_events
     = Some (Inr ([''$t1'', ''$t2''], m'))"
    using map_fst_outcome [OF branch_mainline_sort] by blast
  show ?thesis using mainline_sort_correct [OF empty_store_ok r] empty_store_ok r by blast
qed

section \<open>The power level of a sender\<close>

text \<open>The state the auth events of an event stand for, as the search finds it.\<close>

definition cited_state :: "(string \<Rightarrow> event option) \<Rightarrow> event \<Rightarrow> auth_map" where
  "cited_state v e pos = map_option snd (first_at v pos (auth_event_ids e))"

lemma content_get_core: "content_get (core e) = content_get e"
  by (simp add: content_get_def fun_eq_iff)

text \<open>
  The power level the sort uses for a sender is the one the auth rules compute from the
  auth events the event cites, provided that a create event consulted for it names its creator in
  its content.
\<close>

theorem sender_level_agrees:
  assumes "store_ok store db" and "get_power_level_for_sender store room eid m = Inr (pl, m')"
    and "view db m eid = Some e"
    and "\<forall>c. cited_state (view db m) e (Create, []) = Some c \<longrightarrow>
           \<not> implicit_room_creator (event_room_version c) \<and> content_has c ''creator''"
  shows "get_user_power_level (sender e) (cited_state (view db m) e) = Inr pl"
proof -
  obtain ev m1 where t: "the_event store room eid m = Inr (ev, m1)"
    and r1: "bindR (find_auth_event store room (PowerLevels, []) (auth_event_ids ev) m1) (\<lambda>(pl, emap2).
       case pl of
         None \<Rightarrow>
           bindR (find_auth_event store room (Create, []) (auth_event_ids ev) emap2) (\<lambda>(create, emap3).
             Inr (creator_level create (sender ev), emap3))
       | Some (_, plev) \<Rightarrow> bindR (level_of_user plev (sender ev)) (\<lambda>n. Inr (n, emap2))) = Inr (pl, m')"
    using assms(2) unfolding get_power_level_for_sender_def by (auto simp: bindR_Inr_iff)
  note ts = the_event_spec [OF assms(1) t]
  have e: "e = core ev" and v1: "view db m1 = view db m" using ts assms(3) extends_view by auto
  obtain found m2 where f: "find_auth_event store room (PowerLevels, []) (auth_event_ids ev) m1 = Inr (found, m2)"
    using r1 by (cases "find_auth_event store room (PowerLevels, []) (auth_event_ids ev) m1") auto
  have c1: "cited_state (view db m) e (PowerLevels, []) = map_option (core \<circ> snd) found"
    using find_auth_event_first [OF assms(1) f] unfolding cited_state_def e v1
    by (metis core_fields(6) map_option.compositionality snd_comp_apsnd)
  have v2: "view db m2 = view db m" using find_auth_event_spec [OF assms(1) f] v1 extends_view by metis
  show ?thesis
  proof (cases found)
    case None
    obtain c m3 where fc: "find_auth_event store room (Create, []) (auth_event_ids ev) m2 = Inr (c, m3)"
      and pl: "pl = creator_level c (sender ev)"
      using r1 f None by (auto simp: bindR_Inr_iff)
    have "cited_state (view db m) e (Create, []) = map_option (core \<circ> snd) c"
      using find_auth_event_first [OF assms(1) fc] unfolding cited_state_def e v2
      by (metis core_fields(6) map_option.compositionality snd_comp_apsnd)
    then show ?thesis
      using assms(4) None c1 pl
      by (cases c) (auto simp: get_user_power_level_def get_power_level_event_def e room_creator_def
          creator_level_def content_item_def content_has_def content_get_def split: option.splits)
  next
    case (Some p)
    then have "level_of_user (snd p) (sender ev) = Inr pl" using r1 f by (cases p) (auto simp: bindR_Inr_iff)
    then have "get_user_power_level (sender ev) (cited_state (view db m) (core ev)) = Inr pl"
      unfolding get_user_power_level_def get_power_level_event_def level_of_user_def
        c1 [unfolded e] Some option.map(2) comp_def option.case content_get_core .
    then show ?thesis by (simp add: e)
  qed
qed

lemma branch_sender_level:
  "map_sum id fst (get_power_level_for_sender empty_store ''!r:s'' ''$t1'' branch_events) = Inr 50"
  by code_simp

lemma branch_topic: "map_of branch_events ''$t1'' = Some (topic_event ''$t1'' ''@b:s'' ''$b'')"
  by code_simp

lemma branch_cited_create:
  "cited_state (view Map.empty branch_events) (core (topic_event ''$t1'' ''@b:s'' ''$b'')) (Create, []) = Some (core ex_create)"
  by (simp add: cited_state_def topic_event_def sample_event_def view_def branch_events_def ex_state_def
      ex_create_def state_pos_def state_key_def)

theorem sender_level_agrees_witness:
  "store_ok empty_store Map.empty \<and>
   get_user_power_level ''@b:s'' (cited_state (view Map.empty branch_events) (core (topic_event ''$t1'' ''@b:s'' ''$b''))) = Inr 50"
proof -
  obtain m' where r: "get_power_level_for_sender empty_store ''!r:s'' ''$t1'' branch_events = Inr (50, m')"
    using map_fst_outcome [of "Some (get_power_level_for_sender empty_store ''!r:s'' ''$t1'' branch_events)" 50]
      branch_sender_level by auto
  have "\<not> implicit_room_creator (event_room_version (core ex_create)) \<and> content_has (core ex_create) ''creator''"
    by code_simp
  then show ?thesis
    using sender_level_agrees [OF empty_store_ok r map_of_view [OF branch_topic]] branch_cited_create empty_store_ok
    by (simp add: topic_event_def sample_event_def)
qed

text \<open>A room of version 11, whose create event has no creator in its content.\<close>

definition v11_events :: event_map where
  "v11_events =
     [(''$create'', ex_create\<lparr>content := [], event_room_version := RV_V11\<rparr>),
      (''$x'', (sample_event ''$x'' JoinRules ''@a:s'' (Some []) [] [''$create''])\<lparr>event_room_version := RV_V11\<rparr>)]"

text \<open>
  In room version 11 the creator of the room, while there is no power levels event, has
  level 100 for the auth rules but level 0 for the power sort, which only looks for the
  \<open>creator\<close> field.
\<close>

theorem implicit_creator_has_no_level:
  "map_sum id fst (get_power_level_for_sender empty_store ''!r:s'' ''$x'' v11_events) = Inr 0 \<and>
   get_user_power_level ''@a:s'' (\<lambda>p. if p = (Create, []) then map_of v11_events ''$create'' else None) = Inr 100"
  by code_simp

end
