(* ===== verification/State_Res_V1.thy ===== *)
theory State_Res_V1
  imports Event_Auth
begin

text \<open>
  State resolution version 1 (\<open>state/v1.py\<close>): conflicting power levels, join rules, memberships
  and other state are decided one after the other, each from the candidates of its key.  The hash
  that breaks ties is the argument \<open>sha1\<close>.
\<close>

type_synonym id_map = "(state_pos \<times> string) list"
type_synonym ids_map = "(state_pos \<times> string list) list"
type_synonym pos_events = "(state_pos \<times> event) list"

definition POWER_KEY :: state_pos where
  "POWER_KEY = (PowerLevels, '''')"

section \<open>Separating the conflicts\<close>

definition separate_entry :: "id_map \<times> ids_map \<Rightarrow> state_pos \<times> string \<Rightarrow> id_map \<times> ids_map" where
  "separate_entry uc kv =
     (let (unconflicted, conflicted) = uc; (k, v) = kv
      in case map_of unconflicted k of
           None \<Rightarrow>
             (case map_of conflicted k of
                None \<Rightarrow> (AList.update k v unconflicted, conflicted)
              | Some ls \<Rightarrow> (unconflicted, AList.update k (List.insert v ls) conflicted))
         | Some u \<Rightarrow>
             if u \<noteq> v then (AList.delete k unconflicted, AList.update k [v, u] conflicted)
             else (unconflicted, conflicted))"

text \<open>\<open>next\<close> of an empty iterator ends the coroutine with a \<open>RuntimeError\<close>.\<close>

definition seperate_v1 :: "id_map list \<Rightarrow> (id_map \<times> ids_map) result" where
  "seperate_v1 state_sets =
     (case state_sets of
        [] \<Rightarrow> Inl RuntimeErr
      | s # rest \<Rightarrow> Inr (foldl (foldl separate_entry) (s, []) rest))"

section \<open>The auth events\<close>

definition auth_keys_of :: "room_version \<Rightarrow> event list \<Rightarrow> state_pos list result" where
  "auth_keys_of rv events =
     bindR (mapR (auth_types_for_event rv) events) (\<lambda>kss. Inr (remdups (concat kss)))"

definition add_auth_ids :: "id_map \<Rightarrow> id_map \<Rightarrow> state_pos list \<Rightarrow> id_map" where
  "add_auth_ids unconflicted auth ks =
     foldl (\<lambda>auth' k.
         if map_of auth' k = None
         then (case map_of unconflicted k of
                 None \<Rightarrow> auth'
               | Some eid \<Rightarrow> if eid = [] then auth' else AList.update k eid auth')
         else auth') auth ks"

definition create_auth_events_from_maps ::
  "room_version \<Rightarrow> id_map \<Rightarrow> ids_map \<Rightarrow> (string \<times> event) list \<Rightarrow> id_map result" where
  "create_auth_events_from_maps rv unconflicted conflicted state_map =
     foldR (\<lambda>auth eid.
         case map_of state_map eid of
           None \<Rightarrow> Inr auth
         | Some e \<Rightarrow> bindR (auth_types_for_event rv e) (\<lambda>ks. Inr (add_auth_ids unconflicted auth (remdups ks))))
       [] (concat (map snd conflicted))"

section \<open>Choosing among the candidates of a key\<close>

definition ordered_events :: "(string \<Rightarrow> string) \<Rightarrow> event list \<Rightarrow> event list" where
  "ordered_events sha1 events = sort_key (\<lambda>e. (- depth e, sha1 (ev_id e))) events"

text \<open>The loop of \<open>_resolve_auth_events\<close> from the second event on; the last event is returned when
  none fails.\<close>

fun auth_chain_winner ::
  "verifier \<Rightarrow> event \<Rightarrow> event list \<Rightarrow> pos_events \<Rightarrow> event result" where
  "auth_chain_winner verify prev [] auth = Inr prev"
| "auth_chain_winner verify prev (e # es) auth =
     bindR (state_pos prev) (\<lambda>p.
       let auth' = AList.update p prev auth
       in case check_state_dependent_auth_rules verify e (map snd auth') of
            Inr e' \<Rightarrow> auth_chain_winner verify e' es auth'
          | Inl err \<Rightarrow> if is_AuthError err then Inr prev else Inl err)"

definition select_auth :: "pos_events \<Rightarrow> state_pos list \<Rightarrow> pos_events" where
  "select_auth auth ks =
     foldl (\<lambda>new k. case map_of auth k of None \<Rightarrow> new | Some e \<Rightarrow> AList.update k e new) [] ks"

definition resolve_auth_events ::
  "verifier \<Rightarrow> (string \<Rightarrow> string) \<Rightarrow> room_version \<Rightarrow> event list \<Rightarrow> pos_events \<Rightarrow> event result" where
  "resolve_auth_events verify sha1 rv events auth =
     bindR (auth_keys_of rv events) (\<lambda>ks.
       case rev (ordered_events sha1 events) of
         [] \<Rightarrow> Inl IndexErr
       | [e] \<Rightarrow> Inl UnboundLocalErr
       | e # es \<Rightarrow> auth_chain_winner verify e es (select_auth auth ks))"

fun first_allowed :: "verifier \<Rightarrow> event list \<Rightarrow> pos_events \<Rightarrow> event result" where
  "first_allowed verify [] auth = Inl UnboundLocalErr"
| "first_allowed verify (e # es) auth =
     (case check_state_dependent_auth_rules verify e (map snd auth) of
        Inr e' \<Rightarrow> Inr e'
      | Inl err \<Rightarrow>
          if is_AuthError err then (if es = [] then Inr e else first_allowed verify es auth) else Inl err)"

definition resolve_normal_events ::
  "verifier \<Rightarrow> (string \<Rightarrow> string) \<Rightarrow> event list \<Rightarrow> pos_events \<Rightarrow> event result" where
  "resolve_normal_events verify sha1 events auth = first_allowed verify (ordered_events sha1 events) auth"

section \<open>Resolving the state\<close>

text \<open>One pass over the conflicted keys that satisfy a condition.\<close>

definition resolve_keys ::
  "(event list \<Rightarrow> pos_events \<Rightarrow> event result) \<Rightarrow> (state_pos \<Rightarrow> pos_events \<Rightarrow> bool)
   \<Rightarrow> (state_pos \<times> event list) list \<Rightarrow> pos_events \<Rightarrow> pos_events \<Rightarrow> pos_events result" where
  "resolve_keys pick cond conflicted auth resolved =
     foldR (\<lambda>r (k, events).
         if cond k r then bindR (pick events auth) (\<lambda>e. Inr (AList.update k e r)) else Inr r)
       resolved conflicted"

definition resolve_state_events ::
  "verifier \<Rightarrow> (string \<Rightarrow> string) \<Rightarrow> room_version \<Rightarrow> (state_pos \<times> event list) list \<Rightarrow> pos_events
   \<Rightarrow> pos_events result" where
  "resolve_state_events verify sha1 rv conflicted auth =
     (let pick = resolve_auth_events verify sha1 rv
      in bindR (case map_of conflicted POWER_KEY of
                  None \<Rightarrow> Inr []
                | Some events \<Rightarrow> bindR (pick events auth) (\<lambda>e. Inr [(POWER_KEY, e)])) (\<lambda>r0.
         bindR (resolve_keys pick (\<lambda>k _. fst k = JoinRules) conflicted (dict_update auth r0) r0) (\<lambda>r1.
         bindR (resolve_keys pick (\<lambda>k _. fst k = Member) conflicted
                  (dict_update (dict_update auth r0) r1) r1) (\<lambda>r2.
           resolve_keys (resolve_normal_events verify sha1) (\<lambda>k r. map_of r k = None) conflicted
             (dict_update (dict_update (dict_update auth r0) r1) r2) r2))))"

text \<open>Known candidates: a key with one known candidate is no longer in conflict.\<close>

definition split_candidates ::
  "(string \<times> event) list \<Rightarrow> id_map \<Rightarrow> ids_map \<Rightarrow> id_map \<times> (state_pos \<times> event list) list" where
  "split_candidates state_map unconflicted conflicted_ids =
     foldl (\<lambda>(u, c) (k, ids).
         case List.map_filter (map_of state_map) ids of
           [] \<Rightarrow> (u, c)
         | [e] \<Rightarrow> (AList.update k (ev_id e) u, c)
         | events \<Rightarrow> (u, AList.update k events c))
       (unconflicted, []) conflicted_ids"

definition known_auth_events :: "(string \<times> event) list \<Rightarrow> id_map \<Rightarrow> pos_events" where
  "known_auth_events state_map auth_ids =
     List.map_filter (\<lambda>(k, eid). map_option (Pair k) (map_of state_map eid)) auth_ids"

definition resolve_with_state ::
  "verifier \<Rightarrow> (string \<Rightarrow> string) \<Rightarrow> room_version \<Rightarrow> id_map \<Rightarrow> ids_map \<Rightarrow> id_map \<Rightarrow> (string \<times> event) list
   \<Rightarrow> id_map result" where
  "resolve_with_state verify sha1 rv unconflicted conflicted auth_ids state_map =
     (let (u, conflicted_state) = split_candidates state_map unconflicted conflicted
      in bindR (resolve_state_events verify sha1 rv conflicted_state (known_auth_events state_map auth_ids))
           (\<lambda>resolved. Inr (dict_update u (map (\<lambda>(k, e). (k, ev_id e)) resolved))))"

definition check_room :: "string \<Rightarrow> (string \<times> event) list \<Rightarrow> unit result" where
  "check_room room events = forR events (\<lambda>(_, e). guardR (room_id e = room) GenericException)"

definition in_event_map :: "(string \<times> event) list option \<Rightarrow> string \<Rightarrow> bool" where
  "in_event_map event_map eid = (case event_map of None \<Rightarrow> False | Some m \<Rightarrow> map_of m eid \<noteq> None)"

definition needed_events :: "(string \<times> event) list option \<Rightarrow> ids_map \<Rightarrow> string list" where
  "needed_events event_map conflicted =
     filter (\<lambda>eid. \<not> in_event_map event_map eid) (remdups (concat (map snd conflicted)))"

definition new_needed_events :: "(string \<times> event) list option \<Rightarrow> ids_map \<Rightarrow> id_map \<Rightarrow> string list" where
  "new_needed_events event_map conflicted auth_ids =
     filter (\<lambda>eid. eid \<notin> set (needed_events event_map conflicted) \<and> \<not> in_event_map event_map eid)
       (remdups (map snd auth_ids))"

definition conflicted_events ::
  "(string \<times> event) list option \<Rightarrow> (string list \<Rightarrow> (string \<times> event) list) \<Rightarrow> ids_map \<Rightarrow> (string \<times> event) list" where
  "conflicted_events event_map state_map_factory conflicted =
     (let fetched = state_map_factory (needed_events event_map conflicted)
      in case event_map of None \<Rightarrow> fetched | Some m \<Rightarrow> dict_update fetched m)"

definition resolve_events_with_store_v1 ::
  "verifier \<Rightarrow> (string \<Rightarrow> string) \<Rightarrow> string \<Rightarrow> room_version \<Rightarrow> id_map list \<Rightarrow> (string \<times> event) list option
   \<Rightarrow> (string list \<Rightarrow> (string \<times> event) list) \<Rightarrow> id_map result" where
  "resolve_events_with_store_v1 verify sha1 room rv state_sets event_map state_map_factory =
     (if length state_sets = 1 then Inr (hd state_sets)
      else
        bindR (seperate_v1 state_sets) (\<lambda>(unconflicted, conflicted).
        let state_map = conflicted_events event_map state_map_factory conflicted in
        bindR (check_room room state_map) (\<lambda>_.
        bindR (create_auth_events_from_maps rv unconflicted conflicted state_map) (\<lambda>auth_ids.
        let new_events = state_map_factory (new_needed_events event_map conflicted auth_ids) in
        bindR (check_room room new_events) (\<lambda>_.
          resolve_with_state verify sha1 rv unconflicted conflicted auth_ids
            (dict_update state_map new_events))))))"

end
