(* ===== verification/State_Res_V1_Props.thy ===== *)
theory State_Res_V1_Props
  imports State_Res_V1 Event_Core Sample_Room
begin

text \<open>
  What state resolution version 1 guarantees: a key ends up with an event some state set has
  there, a key without conflict keeps its event, and the winner among the candidates of a key is
  reached by auth checks from the oldest one (auth events) or is the newest that is allowed (other
  state).
\<close>

section \<open>Separating the conflicts\<close>

definition vals :: "(state_pos \<times> string) list \<Rightarrow> state_pos \<Rightarrow> string set" where
  "vals L k = {v. (k, v) \<in> set L}"

text \<open>What has been seen of a key decides on which side it is.\<close>

definition sep_at :: "string set \<Rightarrow> string option \<Rightarrow> string list option \<Rightarrow> bool" where
  "sep_at V u c \<longleftrightarrow>
     (case c of
        Some ls \<Rightarrow> u = None \<and> V = set ls \<and> (\<exists>a\<in>V. \<exists>b\<in>V. a \<noteq> b)
      | None \<Rightarrow> (case u of None \<Rightarrow> V = {} | Some v \<Rightarrow> V = {v}))"

lemma vals_Cons: "vals ((k', v) # L) k = (if k = k' then insert v (vals L k) else vals L k)"
  by (auto simp: vals_def)

lemma separate_entry_sep:
  assumes "\<And>k. sep_at (vals L k) (map_of u k) (map_of c k)" "separate_entry (u, c) (k', v) = (u', c')"
  shows "sep_at (vals ((k', v) # L) k) (map_of u' k) (map_of c' k)"
proof (cases "k = k'")
  case False
  then have "map_of u' k = map_of u k" "map_of c' k = map_of c k"
    using assms(2) by (auto simp: separate_entry_def delete_conv' split: option.splits if_splits)
  then show ?thesis using assms(1) [of k] False by (simp add: vals_Cons)
next
  case True
  show ?thesis
  proof (cases "map_of u k'")
    case None
    note n = this
    show ?thesis
    proof (cases "map_of c k'")
      case None
      then show ?thesis using assms(1) [of k'] assms(2) True n
        by (auto simp: vals_Cons sep_at_def separate_entry_def)
    next
      case (Some ls)
      then have uc: "u' = u" "c' = AList.update k' (List.insert v ls) c" and l: "vals L k' = set ls"
        and "\<exists>a\<in>set ls. \<exists>b\<in>set ls. a \<noteq> b"
        using assms(1) [of k'] assms(2) n by (auto simp: separate_entry_def sep_at_def)
      then obtain a b where "a \<in> insert v (set ls)" "b \<in> insert v (set ls)" "a \<noteq> b" by blast
      then have "sep_at (insert v (set ls)) None (Some (List.insert v ls))"
        unfolding sep_at_def option.case set_insert by (intro conjI refl bexI [of _ a] bexI [of _ b])
      then show ?thesis using True n by (simp add: vals_Cons uc l)
    qed
  next
    case (Some w)
    then have c: "map_of c k' = None" "vals L k' = {w}"
      using assms(1) [of k'] by (auto simp: sep_at_def split: option.splits)
    show ?thesis
    proof (cases "w = v")
      case True
      then show ?thesis using assms(2) Some c \<open>k = k'\<close>
        by (auto simp: vals_Cons sep_at_def separate_entry_def)
    next
      case False
      then have "u' = AList.delete k' u" "c' = AList.update k' [v, w] c"
        using assms(2) Some by (auto simp: separate_entry_def)
      then show ?thesis using False c \<open>k = k'\<close> by (auto simp: vals_Cons sep_at_def delete_conv')
    qed
  qed
qed

lemma foldl_foldl: "foldl (foldl f) a xss = foldl f a (concat xss)"
  by (induction xss arbitrary: a) auto

lemma separate_entries:
  "(\<And>k. sep_at (vals L k) (map_of u k) (map_of c k)) \<Longrightarrow> foldl separate_entry (u, c) M = (u', c') \<Longrightarrow>
     sep_at (vals (L @ M) k) (map_of u' k) (map_of c' k)"
proof (induction M arbitrary: L u c)
  case (Cons kv M)
  obtain k' v where kv: "kv = (k', v)" by (cases kv)
  obtain u1 c1 where s: "separate_entry (u, c) (k', v) = (u1, c1)" by (cases "separate_entry (u, c) (k', v)")
  have "sep_at (vals ((k', v) # L @ M) k) (map_of u' k) (map_of c' k)"
    using Cons.IH [of "(k', v) # L" u1 c1] separate_entry_sep [OF Cons.prems(1) s] Cons.prems(2)
    by (simp add: kv s)
  moreover have "vals ((k', v) # L @ M) k = vals (L @ (k', v) # M) k" by (auto simp: vals_def)
  ultimately show ?case by (simp add: kv)
qed (simp add: vals_def)

lemma seperate_v1_spec:
  assumes d: "\<And>s. s \<in> set ss \<Longrightarrow> distinct (map fst s)" and r: "seperate_v1 ss = Inr (u, c)"
  shows "sep_at {v. \<exists>s\<in>set ss. map_of s k = Some v} (map_of u k) (map_of c k)"
proof -
  obtain s rest where ss: "ss = s # rest" and f: "foldl separate_entry (s, []) (concat rest) = (u, c)"
    using r by (cases ss) (auto simp: seperate_v1_def foldl_foldl)
  have ds: "distinct (map fst s)" using d ss by simp
  have "sep_at (vals s k) (map_of s k) (map_of [] k)" for k
  proof (cases "map_of s k")
    case None
    then have "vals s k = {}" by (auto simp: vals_def map_of_eq_None_iff image_iff)
    then show ?thesis using None by (simp add: sep_at_def)
  next
    case (Some v)
    then have "vals s k = {v}" using ds by (auto simp: vals_def dest: eq_key_imp_eq_value)
    then show ?thesis using Some by (simp add: sep_at_def)
  qed
  note * = separate_entries [OF this f, of k]
  have "vals (s @ concat rest) k = {v. \<exists>s\<in>set ss. map_of s k = Some v}"
    using d unfolding ss by (fastforce simp: vals_def)
  with * show ?thesis by simp
qed

section \<open>Choosing a winner\<close>

text \<open>The contract of a choice among candidates: the winner is one of them.\<close>

locale candidate_choice =
  fixes pick :: "event list \<Rightarrow> pos_events \<Rightarrow> event result"
  assumes pick_candidate: "pick events auth = Inr e \<Longrightarrow> \<exists>f\<in>set events. core e = core f"
begin

lemma resolve_keys_candidates:
  assumes "resolve_keys pick cond conflicted auth resolved = Inr r" "distinct (map fst conflicted)"
    and "\<And>k e. map_of resolved k = Some e \<Longrightarrow> \<exists>evs. map_of conflicted k = Some evs \<and> (\<exists>f\<in>set evs. core e = core f)"
    and "map_of r k = Some e"
  shows "\<exists>evs. map_of conflicted k = Some evs \<and> (\<exists>f\<in>set evs. core e = core f)"
proof -
  let ?I = "\<lambda>r. \<forall>k e. map_of r k = Some e \<longrightarrow> (\<exists>evs. map_of conflicted k = Some evs \<and> (\<exists>f\<in>set evs. core e = core f))"
  have "?I r"
    using assms(1) unfolding resolve_keys_def
  proof (rule foldR_invariant [where I = ?I])
    show "?I resolved" using assms(3) by blast
    fix s x t
    assume x: "x \<in> set conflicted" and I: "?I s"
      and st: "(case x of (k, events) \<Rightarrow> if cond k s then bindR (pick events auth) (\<lambda>e. Inr (AList.update k e s)) else Inr s) = Inr t"
    obtain k evs where xk: "x = (k, evs)" by (cases x)
    have k: "map_of conflicted k = Some evs" using x assms(2) by (simp add: xk)
    show "?I t"
    proof (cases "cond k s")
      case True
      then obtain e where "pick evs auth = Inr e" "t = AList.update k e s"
        using st by (auto simp: xk bindR_Inr_iff)
      then show ?thesis using I k pick_candidate [of evs auth e] by auto
    next
      case False
      then show ?thesis using st I by (simp add: xk)
    qed
  qed
  then show ?thesis using assms(4) by blast
qed

lemma resolve_keys_distinct:
  assumes "resolve_keys pick cond conflicted auth resolved = Inr r" "distinct (map fst resolved)"
  shows "distinct (map fst r)"
  using assms(1) unfolding resolve_keys_def
  by (rule foldR_invariant [where I = "\<lambda>r. distinct (map fst r)"])
    (use assms(2) in \<open>auto simp: bindR_Inr_iff distinct_update split: if_splits\<close>)

lemma resolve_keys_dom:
  assumes "resolve_keys pick cond conflicted auth resolved = Inr r"
  shows "\<forall>k. map_of r k = None \<longrightarrow> map_of resolved k = None"
  using assms unfolding resolve_keys_def
  by (rule foldR_invariant [where I = "\<lambda>r. \<forall>k. map_of r k = None \<longrightarrow> map_of resolved k = None"])
    (auto simp: bindR_Inr_iff split: if_splits)

end

lemma auth_chain_winner_candidate:
  "auth_chain_winner verify prev es auth = Inr e \<Longrightarrow> \<exists>f\<in>set (prev # es). core e = core f"
proof (induction es arbitrary: prev auth)
  case (Cons x es)
  then obtain p where p: "state_pos prev = Inr p" by (auto simp: bindR_Inr_iff)
  show ?case
  proof (cases "check_state_dependent_auth_rules verify x (map snd (AList.update p prev auth))")
    case (Inl err)
    then show ?thesis using Cons.prems p by (auto simp: Let_def split: if_splits)
  next
    case (Inr x')
    then have "\<exists>f\<in>set (x' # es). core e = core f" using Cons p by (simp add: Let_def)
    then show ?thesis using check_core [OF Inr] by auto
  qed
qed simp

lemma first_allowed_candidate: "first_allowed verify es auth = Inr e \<Longrightarrow> \<exists>f\<in>set es. core e = core f"
  by (induction es) (auto split: sum.splits if_splits dest: check_core)

interpretation auth_choice: candidate_choice "resolve_auth_events verify sha1 rv" for verify sha1 rv
proof
  fix events auth e
  assume r: "resolve_auth_events verify sha1 rv events auth = Inr e"
  have s: "set (rev (ordered_events sha1 events)) = set events" by (simp add: ordered_events_def)
  obtain ks where r': "(case rev (ordered_events sha1 events) of [] \<Rightarrow> Inl IndexErr | [e] \<Rightarrow> Inl UnboundLocalErr
      | e # es \<Rightarrow> auth_chain_winner verify e es (select_auth auth ks)) = Inr e"
    using r by (auto simp: resolve_auth_events_def bindR_Inr_iff)
  obtain x y es where es: "rev (ordered_events sha1 events) = x # y # es"
    using r' by (cases "rev (ordered_events sha1 events)"; cases "tl (rev (ordered_events sha1 events))") auto
  then have "\<exists>f\<in>set (x # y # es). core e = core f"
    using r' auth_chain_winner_candidate [of verify x "y # es"] by (simp del: auth_chain_winner.simps)
  then show "\<exists>f\<in>set events. core e = core f" unfolding s [symmetric] es .
qed

interpretation normal_choice: candidate_choice "resolve_normal_events verify sha1" for verify sha1
proof
  fix events auth e
  assume "resolve_normal_events verify sha1 events auth = Inr e"
  from first_allowed_candidate [OF this [unfolded resolve_normal_events_def]]
  show "\<exists>f\<in>set events. core e = core f" by (simp add: ordered_events_def)
qed

section \<open>The resolved state\<close>

lemma resolve_state_events_candidates:
  assumes r: "resolve_state_events verify sha1 rv conflicted auth = Inr res" and d: "distinct (map fst conflicted)"
    and k: "map_of res k = Some e"
  shows "\<exists>evs. map_of conflicted k = Some evs \<and> (\<exists>f\<in>set evs. core e = core f)" "distinct (map fst res)"
proof -
  let ?pick = "resolve_auth_events verify sha1 rv"
  obtain r0 r1 r2 where r0: "(case map_of conflicted POWER_KEY of
                  None \<Rightarrow> Inr []
                | Some events \<Rightarrow> bindR (?pick events auth) (\<lambda>e. Inr [(POWER_KEY, e)])) = Inr r0"
    and r1: "resolve_keys ?pick (\<lambda>k _. fst k = JoinRules) conflicted (dict_update auth r0) r0 = Inr r1"
    and r2: "resolve_keys ?pick (\<lambda>k _. fst k = Member) conflicted (dict_update (dict_update auth r0) r1) r1 = Inr r2"
    and r3: "resolve_keys (resolve_normal_events verify sha1) (\<lambda>k r. map_of r k = None) conflicted
             (dict_update (dict_update (dict_update auth r0) r1) r2) r2 = Inr res"
    using r by (auto simp: resolve_state_events_def Let_def bindR_Inr_iff)
  have c0: "\<exists>evs. map_of conflicted k = Some evs \<and> (\<exists>f\<in>set evs. core e = core f)" if "map_of r0 k = Some e" for k e
  proof (cases "map_of conflicted POWER_KEY")
    case None
    then show ?thesis using r0 that by simp
  next
    case (Some evs)
    then obtain x where "?pick evs auth = Inr x" "r0 = [(POWER_KEY, x)]" using r0 by (auto simp: bindR_Inr_iff)
    then show ?thesis using that Some auth_choice.pick_candidate by (auto split: if_splits)
  qed
  note c1 = auth_choice.resolve_keys_candidates [OF r1 d c0]
  note c2 = auth_choice.resolve_keys_candidates [OF r2 d c1]
  show "\<exists>evs. map_of conflicted k = Some evs \<and> (\<exists>f\<in>set evs. core e = core f)"
    by (rule normal_choice.resolve_keys_candidates [OF r3 d c2 k])
  have "distinct (map fst r0)" using r0 by (auto simp: bindR_Inr_iff split: option.splits)
  then have "distinct (map fst r2)"
    using auth_choice.resolve_keys_distinct [OF r2] auth_choice.resolve_keys_distinct [OF r1] by blast
  then show "distinct (map fst res)" by (rule normal_choice.resolve_keys_distinct [OF r3])
qed

definition candidates :: "(string \<times> event) list \<Rightarrow> string list \<Rightarrow> event list" where
  "candidates state_map ids = List.map_filter (map_of state_map) ids"

lemma split_candidates_spec:
  assumes "distinct (map fst c)" "split_candidates sm u c = (u', c')"
  shows "(\<forall>k. map_of u' k = (case map_of c k of
         Some ids \<Rightarrow> (case candidates sm ids of [e] \<Rightarrow> Some (ev_id e) | _ \<Rightarrow> map_of u k)
       | None \<Rightarrow> map_of u k)) \<and>
    (\<forall>k evs. map_of c' k = Some evs \<longrightarrow> (\<exists>ids. map_of c k = Some ids \<and> evs = candidates sm ids)) \<and>
    distinct (map fst c')"
proof -
  let ?f = "\<lambda>(u, c) (k, ids). case List.map_filter (map_of sm) ids of [] \<Rightarrow> (u, c)
         | [e] \<Rightarrow> (AList.update k (ev_id e) u, c) | events \<Rightarrow> (u, AList.update k events c)"
  have "foldl ?f (u, d) c = (u', c') \<Longrightarrow> distinct (map fst c) \<Longrightarrow> distinct (map fst d) \<Longrightarrow>
    (\<forall>k. map_of u' k = (case map_of c k of
         Some ids \<Rightarrow> (case candidates sm ids of [e] \<Rightarrow> Some (ev_id e) | _ \<Rightarrow> map_of u k)
       | None \<Rightarrow> map_of u k)) \<and>
    (\<forall>k evs. map_of c' k = Some evs \<longrightarrow> map_of d k = Some evs \<or> (\<exists>ids. map_of c k = Some ids \<and> evs = candidates sm ids)) \<and>
    distinct (map fst c')" for d
  proof (induction c arbitrary: u d)
    case (Cons x c)
    obtain k ids where x: "x = (k, ids)" by (cases x)
    obtain u1 d1 where s: "?f (u, d) (k, ids) = (u1, d1)" by (cases "?f (u, d) (k, ids)")
    have k: "map_of c k = None" using Cons.prems(2) by (simp add: x map_of_eq_None_iff)
    have u1: "map_of u1 = (case candidates sm ids of [e] \<Rightarrow> (map_of u)(k \<mapsto> ev_id e) | _ \<Rightarrow> map_of u)"
      and d1: "distinct (map fst d1)" "\<forall>k' evs. map_of d1 k' = Some evs \<longrightarrow> map_of d k' = Some evs \<or> k' = k \<and> evs = candidates sm ids"
      using s Cons.prems(3) by (auto simp: candidates_def distinct_update split: list.splits if_splits)
    have "foldl ?f (u1, d1) c = (u', c')" using Cons.prems(1) s by (simp add: x)
    from Cons.IH [OF this _ d1(1)] Cons.prems(2) have IH:
      "\<forall>k. map_of u' k = (case map_of c k of
         Some ids \<Rightarrow> (case candidates sm ids of [e] \<Rightarrow> Some (ev_id e) | _ \<Rightarrow> map_of u1 k)
       | None \<Rightarrow> map_of u1 k)"
      "\<forall>k evs. map_of c' k = Some evs \<longrightarrow> map_of d1 k = Some evs \<or> (\<exists>ids. map_of c k = Some ids \<and> evs = candidates sm ids)"
      "distinct (map fst c')" by simp_all
    show ?case
    proof (intro conjI allI impI)
      fix k'
      show "map_of u' k' = (case map_of (x # c) k' of
         Some ids \<Rightarrow> (case candidates sm ids of [e] \<Rightarrow> Some (ev_id e) | _ \<Rightarrow> map_of u k')
       | None \<Rightarrow> map_of u k')"
        using IH(1) [rule_format, of k'] k by (cases "k' = k") (auto simp: x u1 split: list.splits option.splits)
    next
      fix k' evs
      assume "map_of c' k' = Some evs"
      then show "map_of d k' = Some evs \<or> (\<exists>ids. map_of (x # c) k' = Some ids \<and> evs = candidates sm ids)"
        using IH(2) [rule_format, of k' evs] d1(2) [rule_format, of k' evs] k by (cases "k' = k") (auto simp: x)
    qed (rule IH(3))
  qed simp
  from this [of "[]"] assms show ?thesis by (simp add: split_candidates_def)
qed

definition keyed :: "(string \<times> event) list \<Rightarrow> bool" where
  "keyed m \<longleftrightarrow> (\<forall>(i, e)\<in>set m. ev_id e = i)"

lemma keyed_dict_update: "keyed m \<Longrightarrow> keyed n \<Longrightarrow> keyed (dict_update m n)"
proof -
  have u: "keyed m \<Longrightarrow> ev_id e = i \<Longrightarrow> keyed (AList.update i e m)" for m i e
    unfolding keyed_def by (induction m) auto
  show "keyed m \<Longrightarrow> keyed n \<Longrightarrow> keyed (dict_update m n)"
    unfolding dict_update_def by (induction n arbitrary: m) (auto simp: u keyed_def [of "_ # _"] keyed_def [symmetric])
qed

lemma keyed_candidate:
  assumes "keyed sm" "f \<in> set (candidates sm ids)"
  shows "ev_id f \<in> set ids"
  using assms map_of_SomeD [of sm] by (fastforce simp: candidates_def List.map_filter_def keyed_def)

lemma resolve_with_state_spec:
  assumes r: "resolve_with_state verify sha1 rv u c auth_ids sm = Inr s" and d: "distinct (map fst c)"
    and kd: "keyed sm"
  shows "(map_of s k = Some v \<longrightarrow> map_of u k = Some v \<or> (\<exists>ids. map_of c k = Some ids \<and> v \<in> set ids)) \<and>
    (map_of c k = None \<longrightarrow> map_of s k = map_of u k)"
proof -
  obtain u' c' res where sp: "split_candidates sm u c = (u', c')"
    and rs: "resolve_state_events verify sha1 rv c' (known_auth_events sm auth_ids) = Inr res"
    and s: "s = dict_update u' (map (\<lambda>(k, e). (k, ev_id e)) res)"
    using r by (auto simp: resolve_with_state_def bindR_Inr_iff split: prod.splits)
  note sc = split_candidates_spec [OF d sp]
  have dc: "distinct (map fst c')" using sc by blast
  have m: "map_of (rev (map (\<lambda>(k, e). (k, ev_id e)) res)) k = map_option ev_id (map_of res k)"
  proof (cases "res = []")
    case False
    then have "map_of res (fst (hd res)) = Some (snd (hd res))" by (cases res) auto
    then have "distinct (map fst res)" by (rule resolve_state_events_candidates(2) [OF rs dc])
    then have "map_of (rev (map (\<lambda>(k, e). (k, ev_id e)) res)) = map_of (map (\<lambda>(k, e). (k, ev_id e)) res)"
      by (intro map_of_rev_distinct) (simp add: case_prod_beta comp_def)
    then show ?thesis by (simp add: map_of_map)
  qed simp
  have win: "\<exists>ids. map_of c k = Some ids \<and> ev_id e \<in> set ids" if e: "map_of res k = Some e" for e
  proof -
    obtain evs f where "map_of c' k = Some evs" "f \<in> set evs" "core e = core f"
      using resolve_state_events_candidates(1) [OF rs dc e] by blast
    moreover from this obtain ids where "map_of c k = Some ids" "evs = candidates sm ids" using sc by blast
    ultimately show ?thesis using keyed_candidate [OF kd] core_eqD(1) by metis
  qed
  have single: "\<exists>ids. map_of c k = Some ids \<and> v \<in> set ids"
    if a: "map_of u' k = Some v" "map_of u k \<noteq> Some v"
  proof -
    note uk = conjunct1 [OF sc, rule_format, of k]
    obtain ids where ids: "map_of c k = Some ids" using uk a by (cases "map_of c k") auto
    then obtain e where "candidates sm ids = [e]" "v = ev_id e"
      using uk a by (auto split: list.splits)
    then show ?thesis using ids keyed_candidate [OF kd, of e ids] by simp
  qed
  have "map_of s k = (case map_of res k of None \<Rightarrow> map_of u' k | Some e \<Rightarrow> Some (ev_id e))"
    by (auto simp: s map_of_dict_update m split: option.splits)
  moreover have "map_of c k = None \<Longrightarrow> map_of u' k = map_of u k"
    using conjunct1 [OF sc, rule_format, of k] by simp
  ultimately show ?thesis using win single by (cases "map_of res k") auto
qed

lemma distinct_separate_entries:
  "distinct (map fst c) \<Longrightarrow> distinct (map fst (snd (foldl separate_entry (u, c) M)))"
proof (induction M arbitrary: u c)
  case (Cons kv M)
  have "distinct (map fst (snd (separate_entry (u, c) kv)))"
    using Cons.prems by (auto simp: separate_entry_def distinct_update split: option.splits prod.splits)
  then show ?case using Cons.IH by (metis foldl_Cons surjective_pairing)
qed simp

lemma resolve_v1_cases:
  assumes r: "resolve_events_with_store_v1 verify sha1 room rv ss event_map factory = Inr s"
    and kd: "\<And>ids. keyed (factory ids)" "\<forall>m. event_map = Some m \<longrightarrow> keyed m"
  obtains (one) "ss = [s]"
  | (more) u c auth_ids sm where "seperate_v1 ss = Inr (u, c)" "keyed sm"
      "resolve_with_state verify sha1 rv u c auth_ids sm = Inr s"
proof (cases "length ss = 1")
  case True
  then show thesis using r one by (cases ss) (auto simp: resolve_events_with_store_v1_def)
next
  case False
  have ks: "keyed (conflicted_events event_map factory c)" for c
    using kd keyed_dict_update by (auto simp: conflicted_events_def Let_def split: option.splits)
  obtain u c auth_ids ids where "seperate_v1 ss = Inr (u, c)"
    "resolve_with_state verify sha1 rv u c auth_ids
       (dict_update (conflicted_events event_map factory c) (factory ids)) = Inr s"
    using r False unfolding resolve_events_with_store_v1_def Let_def by (auto simp: bindR_Inr_iff)
  then show thesis using more keyed_dict_update [OF ks kd(1)] by blast
qed

lemma distinct_seperate_v1: "seperate_v1 ss = Inr (u, c) \<Longrightarrow> distinct (map fst c)"
  using distinct_separate_entries [of "[]" "hd ss" "concat (tl ss)"]
  by (cases ss) (auto simp: seperate_v1_def foldl_foldl)

section \<open>The properties\<close>

text \<open>
  C13. State resolution version 1 never invents state: the event at a key of the result is the
  event some state set has at that key, and a key on which the state sets that have it agree
  keeps its event.
\<close>

theorem v1_resolution_sound:
  assumes "resolve_events_with_store_v1 verify sha1 room rv ss event_map factory = Inr s"
    and "\<forall>st\<in>set ss. distinct (map fst st)"
    and "\<And>ids. keyed (factory ids)" and "\<forall>m. event_map = Some m \<longrightarrow> keyed m"
  shows "(\<forall>k v. map_of s k = Some v \<longrightarrow> (\<exists>st\<in>set ss. map_of st k = Some v)) \<and>
    (\<forall>k v. (\<exists>st\<in>set ss. map_of st k = Some v) \<and> (\<forall>st\<in>set ss. \<forall>w. map_of st k = Some w \<longrightarrow> w = v)
       \<longrightarrow> map_of s k = Some v)"
proof (cases rule: resolve_v1_cases [OF assms(1,3,4), case_names one more])
  case one
  have set1: "set ss = {s}" by (simp add: one)
  show ?thesis unfolding set1 by blast
next
  case (more u c auth_ids sm)
  have dc: "distinct (map fst c)" using more(1) by (rule distinct_seperate_v1)
  have sep: "sep_at {v. \<exists>st\<in>set ss. map_of st k = Some v} (map_of u k) (map_of c k)" for k
    using seperate_v1_spec [OF _ more(1)] assms(2) by blast
  note rs = resolve_with_state_spec [OF more(3) dc more(2)]
  have V: "map_of u k = Some v \<Longrightarrow> v \<in> {v. \<exists>st\<in>set ss. map_of st k = Some v}"
    "map_of c k = Some ids \<Longrightarrow> set ids = {v. \<exists>st\<in>set ss. map_of st k = Some v}" for k v ids
    using sep [of k] unfolding sep_at_def by (auto split: option.splits)
  have 1: "\<exists>st\<in>set ss. map_of st k = Some v" if "map_of s k = Some v" for k v
    using rs [of k v] that V [of k] by blast
  have 2: "map_of s k = Some v"
    if "\<exists>st\<in>set ss. map_of st k = Some v" "\<forall>st\<in>set ss. \<forall>w. map_of st k = Some w \<longrightarrow> w = v" for k v
  proof -
    have "{v. \<exists>st\<in>set ss. map_of st k = Some v} = {v}" using that by auto
    then have "map_of c k = None \<and> map_of u k = Some v"
      using sep [of k] by (auto simp: sep_at_def split: option.splits)
    then show ?thesis using rs [of k v] by simp
  qed
  show ?thesis using 1 2 by blast
qed

definition v1_topic :: "string \<Rightarrow> string \<Rightarrow> event" where
  "v1_topic i u = sample_event i ''m.room.topic'' u (Some []) [] [''$create'', ''$power'']"

definition v1_events :: "(string \<times> event) list" where
  "v1_events = map (\<lambda>e. (ev_id e, e)) (ex_state @ [v1_topic ''$t1'' ''@b:s'', v1_topic ''$t2'' ''@d:s''])"

definition v1_base :: id_map where
  "v1_base = map (\<lambda>e. ((ev_type e, the (state_key_field e)), ev_id e)) ex_state"

definition v1_branches :: "id_map list" where
  "v1_branches = [((''m.room.topic'', []), ''$t2'') # v1_base, ((''m.room.topic'', []), ''$t1'') # v1_base]"

lemma v1_branch_resolution:
  "resolve_events_with_store_v1 no_verify id ''!r:s'' RV_V10 v1_branches (Some v1_events) (\<lambda>_. []) =
     Inr (v1_base @ [((''m.room.topic'', []), ''$t1'')])"
  by code_simp

lemma v1_branches_distinct: "\<forall>st\<in>set v1_branches. distinct (map fst st)"
  by code_simp

lemma v1_events_keyed: "keyed v1_events"
  by code_simp

theorem v1_resolution_sound_witness:
  "keyed v1_events \<and> (\<exists>st\<in>set v1_branches. map_of st (''m.room.topic'', []) = Some ''$t1'')"
proof -
  have k: "map_of (v1_base @ [((''m.room.topic'', []), ''$t1'')]) (''m.room.topic'', []) = Some ''$t1''"
    by code_simp
  have f: "keyed ((\<lambda>_. []) ids)" for ids :: "string list" by (simp add: keyed_def)
  have m: "\<forall>m. Some v1_events = Some m \<longrightarrow> keyed m" using v1_events_keyed by simp
  show ?thesis
    using conjunct1 [OF v1_resolution_sound [OF v1_branch_resolution v1_branches_distinct f m]] v1_events_keyed k by blast
qed

definition chain_allows :: "verifier \<Rightarrow> pos_events \<Rightarrow> event \<Rightarrow> event \<Rightarrow> bool" where
  "chain_allows verify auth prev e \<longleftrightarrow>
     (\<exists>p. state_pos prev = Inr p \<and> ok (check_state_dependent_auth_rules verify e (map snd (AList.update p prev auth))))"

text \<open>
  Among the candidates of an auth key (power levels, join rules, memberships), taken from
  the oldest to the newest, the winner is the end of a chain: every event up to it was allowed
  with its predecessor in force, and the next one, if any, was not.
\<close>

theorem auth_winner_is_end_of_chain:
  assumes "auth_chain_winner verify prev es auth = Inr e"
    and "\<forall>f\<in>set (prev # es). state_pos f = Inr p \<and> ev_type f \<noteq> Redaction"
  shows "\<exists>j\<le>length es. e = (prev # es) ! j \<and>
    (\<forall>i<j. chain_allows verify auth ((prev # es) ! i) (es ! i)) \<and>
    (j < length es \<longrightarrow> \<not> chain_allows verify auth e (es ! j))"
  using assms
proof (induction es arbitrary: prev auth)
  case (Cons x es)
  have p: "state_pos prev = Inr p" using Cons.prems(2) by simp
  let ?auth = "AList.update p prev auth"
  show ?case
  proof (cases "check_state_dependent_auth_rules verify x (map snd ?auth)")
    case (Inl err)
    then have "e = prev" using Cons.prems(1) p by (auto simp: Let_def split: if_splits)
    then show ?thesis using Inl p by (intro exI [of _ 0]) (simp add: chain_allows_def)
  next
    case (Inr x')
    have "ev_type x \<noteq> Redaction" using Cons.prems(2) by simp
    then have "x' = x"
      using Inr by (auto simp: check_state_dependent_auth_rules_def check_against_state_def result_simps split: if_splits)
    then have r: "auth_chain_winner verify x es ?auth = Inr e" using Cons.prems(1) p Inr by (simp add: Let_def)
    have same: "chain_allows verify ?auth f g \<longleftrightarrow> chain_allows verify auth f g" if "f \<in> set (x # es)" for f g
      using Cons.prems(2) that by (auto simp: chain_allows_def)
    obtain j where j: "j \<le> length es" "e = (x # es) ! j"
      "\<forall>i<j. chain_allows verify ?auth ((x # es) ! i) (es ! i)"
      "j < length es \<longrightarrow> \<not> chain_allows verify ?auth e (es ! j)"
      using Cons.IH [OF r] Cons.prems(2) by auto
    have "chain_allows verify auth prev x" using Inr p by (auto simp: chain_allows_def)
    moreover have "chain_allows verify auth ((x # es) ! i) (es ! i)" if "i < j" for i
      using j(1,3) same [of "(x # es) ! i"] that by (metis length_Cons less_SucI less_le_trans nth_mem)
    ultimately have "\<forall>i<Suc j. chain_allows verify auth ((prev # x # es) ! i) ((x # es) ! i)"
      by (auto simp: less_Suc_eq_0_disj)
    moreover have "e \<in> set (x # es)" using j(1,2) by (metis length_Cons le_imp_less_Suc nth_mem)
    ultimately show ?thesis using j same by (intro exI [of _ "Suc j"]) auto
  qed
qed simp

theorem auth_winner_is_end_of_chain_witness:
  "auth_chain_winner no_verify (member_event ''$m1'' ''@a:s'' ''@f:s'' INVITE)
     [member_event ''$m2'' ''@a:s'' ''@f:s'' BAN, member_event ''$m3'' ''@f:s'' ''@f:s'' JOIN]
     [((Create, []), ex_create), ((PowerLevels, []), ex_power), ((Member, ''@a:s''), member_event ''$a'' ''@a:s'' ''@a:s'' JOIN)]
     = Inr (member_event ''$m2'' ''@a:s'' ''@f:s'' BAN) \<and>
   (\<exists>j\<le>2. member_event ''$m2'' ''@a:s'' ''@f:s'' BAN = [member_event ''$m1'' ''@a:s'' ''@f:s'' INVITE,
       member_event ''$m2'' ''@a:s'' ''@f:s'' BAN, member_event ''$m3'' ''@f:s'' ''@f:s'' JOIN] ! j)"
proof -
  let ?es = "[member_event ''$m2'' ''@a:s'' ''@f:s'' BAN, member_event ''$m3'' ''@f:s'' ''@f:s'' JOIN]"
  let ?prev = "member_event ''$m1'' ''@a:s'' ''@f:s'' INVITE"
  have r: "auth_chain_winner no_verify ?prev ?es
     [((Create, []), ex_create), ((PowerLevels, []), ex_power), ((Member, ''@a:s''), member_event ''$a'' ''@a:s'' ''@a:s'' JOIN)]
     = Inr (member_event ''$m2'' ''@a:s'' ''@f:s'' BAN)" by code_simp
  have p: "\<forall>f\<in>set (?prev # ?es). state_pos f = Inr (Member, ''@f:s'') \<and> ev_type f \<noteq> Redaction" by code_simp
  show ?thesis using auth_winner_is_end_of_chain [OF r p] r by (metis length_Cons list.size(3) numeral_2_eq_2)
qed

text \<open>
  Among the candidates of any other key the winner is the first one, from the newest on,
  that is allowed; if none is, it is the oldest.
\<close>

theorem normal_winner_is_first_allowed:
  assumes "resolve_normal_events verify sha1 events auth = Inr e"
    and "\<forall>f\<in>set events. ev_type f \<noteq> Redaction"
  shows "let es = ordered_events sha1 events; allowed = (\<lambda>f. ok (check_state_dependent_auth_rules verify f (map snd auth)))
    in (\<exists>j<length es. e = es ! j \<and> (\<forall>i<j. \<not> allowed (es ! i)) \<and> (allowed e \<or> Suc j = length es))"
proof -
  have "first_allowed verify es auth = Inr e \<Longrightarrow> \<forall>f\<in>set es. ev_type f \<noteq> Redaction \<Longrightarrow>
    \<exists>j<length es. e = es ! j \<and> (\<forall>i<j. \<not> ok (check_state_dependent_auth_rules verify (es ! i) (map snd auth))) \<and>
      (ok (check_state_dependent_auth_rules verify e (map snd auth)) \<or> Suc j = length es)" for es
  proof (induction es)
    case (Cons x es)
    show ?case
    proof (cases "check_state_dependent_auth_rules verify x (map snd auth)")
      case (Inr x')
      have "ev_type x \<noteq> Redaction" using Cons.prems(2) by simp
      then have "x' = x"
        using Inr by (auto simp: check_state_dependent_auth_rules_def check_against_state_def result_simps split: if_splits)
      then show ?thesis using Cons.prems(1) Inr by (intro exI [of _ 0]) auto
    next
      case (Inl err)
      show ?thesis
      proof (cases "es = []")
        case True
        then show ?thesis using Cons.prems(1) Inl by (intro exI [of _ 0]) (auto split: if_splits)
      next
        case False
        then have "first_allowed verify es auth = Inr e" using Cons.prems(1) Inl by (auto split: if_splits)
        then obtain j where "j < length es" "e = es ! j"
          "\<forall>i<j. \<not> ok (check_state_dependent_auth_rules verify (es ! i) (map snd auth))"
          "ok (check_state_dependent_auth_rules verify e (map snd auth)) \<or> Suc j = length es"
          using Cons.IH Cons.prems(2) by auto
        then show ?thesis using Inl by (intro exI [of _ "Suc j"]) (auto simp: less_Suc_eq_0_disj)
      qed
    qed
  qed simp
  from this [of "ordered_events sha1 events"] show ?thesis
    using assms by (simp add: resolve_normal_events_def ordered_events_def Let_def)
qed

theorem normal_winner_is_first_allowed_witness:
  "\<exists>e. resolve_normal_events no_verify id [v1_topic ''$t1'' ''@d:s'', v1_topic ''$t2'' ''@b:s'']
       (map (\<lambda>e. ((ev_type e, the (state_key_field e)), e)) ex_state) = Inr e \<and>
     e \<in> set (ordered_events id [v1_topic ''$t1'' ''@d:s'', v1_topic ''$t2'' ''@b:s''])"
proof -
  let ?auth = "map (\<lambda>e. ((ev_type e, the (state_key_field e)), e)) ex_state"
  have r: "resolve_normal_events no_verify id [v1_topic ''$t1'' ''@d:s'', v1_topic ''$t2'' ''@b:s''] ?auth
    = Inr (v1_topic ''$t2'' ''@b:s'')" by code_simp
  have p: "\<forall>f\<in>set [v1_topic ''$t1'' ''@d:s'', v1_topic ''$t2'' ''@b:s'']. ev_type f \<noteq> Redaction" by code_simp
  let ?es = "ordered_events id [v1_topic ''$t1'' ''@d:s'', v1_topic ''$t2'' ''@b:s'']"
  obtain j where j: "j < length ?es" "v1_topic ''$t2'' ''@b:s'' = ?es ! j"
    using normal_winner_is_first_allowed [OF r p] unfolding Let_def by blast
  have "?es ! j \<in> set ?es" by (rule nth_mem [OF j(1)])
  then have "v1_topic ''$t2'' ''@b:s'' \<in> set ?es" by (simp only: j(2) [symmetric])
  with r show ?thesis by (intro exI conjI)
qed

end
