(* ===== verification/Event_Utils.thy ===== *)
theory Event_Utils
  imports Events
begin

text \<open>
  Operations on event dictionaries: redaction and the client formats of \<open>events/utils.py\<close>, and
  what \<open>crypto/event_signing.py\<close> hashes and signs.  An event dictionary is a dict of JSON values;
  the canonical encoding, the hash function and the signing of a JSON object are arguments.
\<close>

abbreviation RoomHistoryVisibility :: string where "RoomHistoryVisibility \<equiv> ''m.room.history_visibility''"

section \<open>Redaction\<close>

definition allowed_keys :: "room_version \<Rightarrow> string list" where
  "allowed_keys rv =
     [''event_id'', ''sender'', ''room_id'', ''hashes'', ''signatures'', ''content'', ''type'', ''state_key'',
      ''depth'', ''prev_events'', ''auth_events'', ''origin_server_ts'']
     @ (if updated_redaction_rules rv then [] else [''prev_state'', ''membership'', ''origin''])"

definition add_field :: "dict \<Rightarrow> dict \<Rightarrow> string \<Rightarrow> dict result" where
  "add_field event_dict new_content field =
     bindR (dict_item event_dict ''content'') (\<lambda>c.
     bindR (py_in (JStr field) c) (\<lambda>present.
       if present then bindR (py_getitem c (JStr field)) (\<lambda>v. Inr (AList.update field v new_content))
       else Inr new_content))"

definition add_fields :: "dict \<Rightarrow> string list \<Rightarrow> dict \<Rightarrow> dict result" where
  "add_fields event_dict fs new_content = foldR (add_field event_dict) new_content fs"

text \<open>\<open>event_dict["content"].get(k)\<close>\<close>

definition content_entry :: "dict \<Rightarrow> string \<Rightarrow> json result" where
  "content_entry event_dict k = bindR (dict_item event_dict ''content'') (\<lambda>c. py_get c k JNull)"

definition sub_dict :: "string list \<Rightarrow> dict \<Rightarrow> dict" where
  "sub_dict fs d = concat (map (\<lambda>f. case map_of d f of None \<Rightarrow> [] | Some v \<Rightarrow> [(f, v)]) fs)"

definition member_content :: "room_version \<Rightarrow> dict \<Rightarrow> dict result" where
  "member_content rv event_dict =
     bindR (add_fields event_dict [''membership''] []) (\<lambda>c1.
     bindR (if restricted_join_rule_fix rv then add_fields event_dict [AUTHORISING_USER] c1 else Inr c1) (\<lambda>c2.
       if updated_redaction_rules rv then
         bindR (content_entry event_dict ''third_party_invite'') (\<lambda>tpi.
           (case tpi of
              JObj t \<Rightarrow> Inr (AList.update ''third_party_invite'' (JObj (sub_dict [''signed''] t)) c2)
            | _ \<Rightarrow> Inr c2))
       else Inr c2))"

definition power_level_fields :: "string list" where
  "power_level_fields = [''users'', ''users_default'', ''events'', ''events_default'', ''state_default'',
     ''ban'', ''kick'', ''redact'']"

text \<open>The content by event type; for a create event it may be the content itself.\<close>

definition type_content :: "room_version \<Rightarrow> dict \<Rightarrow> json \<Rightarrow> json result" where
  "type_content rv event_dict event_type =
     (let obj = (\<lambda>r. bindR r (\<lambda>c. Inr (JObj c)))
      in if event_type = JStr Member then obj (member_content rv event_dict)
         else if event_type = JStr Create then
           (if updated_redaction_rules rv then dict_item event_dict ''content''
            else if \<not> implicit_room_creator rv then obj (add_fields event_dict [''creator''] [])
            else Inr (JObj []))
         else if event_type = JStr JoinRules then
           obj (bindR (add_fields event_dict [''join_rule''] []) (\<lambda>c.
             if restricted_join_rule rv then add_fields event_dict [''allow''] c else Inr c))
         else if event_type = JStr PowerLevels then
           obj (bindR (add_fields event_dict power_level_fields []) (\<lambda>c.
             if updated_redaction_rules rv then add_fields event_dict [''invite''] c else Inr c))
         else if event_type = JStr Aliases \<and> special_case_aliases_auth rv then obj (add_fields event_dict [''aliases''] [])
         else if event_type = JStr RoomHistoryVisibility then obj (add_fields event_dict [''history_visibility''] [])
         else if event_type = JStr Redaction \<and> updated_redaction_rules rv then obj (add_fields event_dict [''redacts''] [])
         else Inr (JObj []))"

definition keep_relation :: "room_version \<Rightarrow> dict \<Rightarrow> json \<Rightarrow> json result" where
  "keep_relation rv event_dict new_content =
     (if msc3389_relation_redactions rv then
        bindR (content_entry event_dict ''m.relates_to'') (\<lambda>rel.
          (case rel of
             JObj r \<Rightarrow>
               if sub_dict [''rel_type'', ''event_id''] r \<noteq> [] then
                 (case new_content of
                    JObj c \<Rightarrow> Inr (JObj (AList.update ''m.relates_to'' (JObj (sub_dict [''rel_type'', ''event_id''] r)) c))
                  | _ \<Rightarrow> Inl TypeErr)
               else Inr new_content
           | _ \<Rightarrow> Inr new_content))
      else Inr new_content)"

definition copy_unsigned :: "json \<Rightarrow> dict \<Rightarrow> string \<Rightarrow> dict result" where
  "copy_unsigned event_unsigned unsigned k =
     bindR (py_in (JStr k) event_unsigned) (\<lambda>present.
       if present then bindR (py_getitem event_unsigned (JStr k)) (\<lambda>v. Inr (AList.update k v unsigned))
       else Inr unsigned)"

definition prune_event_dict :: "room_version \<Rightarrow> dict \<Rightarrow> dict result" where
  "prune_event_dict rv event_dict =
     bindR (dict_item event_dict ''type'') (\<lambda>event_type.
     bindR (type_content rv event_dict event_type) (\<lambda>c1.
     bindR (keep_relation rv event_dict c1) (\<lambda>new_content.
     bindR (foldR (copy_unsigned (case map_of event_dict ''unsigned'' of None \<Rightarrow> JObj [] | Some u \<Rightarrow> u)) []
              [''age_ts'', ''replaces_state'']) (\<lambda>unsigned.
       Inr (AList.update ''unsigned'' (JObj unsigned)
             (AList.update ''content'' new_content
               (filter (\<lambda>kv. fst kv \<in> set (allowed_keys rv)) event_dict)))))))"

section \<open>Hashes and signatures\<close>

definition pop_all :: "string list \<Rightarrow> dict \<Rightarrow> dict" where
  "pop_all ks d = filter (\<lambda>kv. fst kv \<notin> set ks) d"

definition compute_content_hash :: "(json \<Rightarrow> string) \<Rightarrow> (string \<Rightarrow> string) \<Rightarrow> dict \<Rightarrow> string" where
  "compute_content_hash encode_canonical_json hash event_dict =
     hash (encode_canonical_json (JObj (pop_all
       [''age_ts'', ''unsigned'', ''signatures'', ''hashes'', ''outlier'', ''destinations''] event_dict)))"

definition compute_event_reference_hash ::
  "(json \<Rightarrow> string) \<Rightarrow> (string \<Rightarrow> string) \<Rightarrow> room_version \<Rightarrow> dict \<Rightarrow> string result" where
  "compute_event_reference_hash encode_canonical_json hash rv event_dict =
     bindR (prune_event_dict rv event_dict) (\<lambda>d.
       Inr (hash (encode_canonical_json (JObj (pop_all [''signatures'', ''age_ts'', ''unsigned''] d)))))"

text \<open>\<open>sign_json\<close> returns the object with its signatures; \<open>compute_event_signature\<close> returns those.\<close>

definition compute_event_signature ::
  "(dict \<Rightarrow> string \<Rightarrow> 'key \<Rightarrow> dict result) \<Rightarrow> room_version \<Rightarrow> dict \<Rightarrow> string \<Rightarrow> 'key \<Rightarrow> json result" where
  "compute_event_signature sign_json rv event_dict signature_name signing_key =
     bindR (prune_event_dict rv event_dict) (\<lambda>d.
     bindR (sign_json (pop_all [''age_ts'', ''unsigned''] d) signature_name signing_key) (\<lambda>signed.
       dict_item signed ''signatures''))"

text \<open>\<open>encode_base64\<close> of the digest is part of \<open>hash64\<close> here; the name of the hash is \<open>sha256\<close>.\<close>

definition add_hashes_and_signatures ::
  "(json \<Rightarrow> string) \<Rightarrow> (string \<Rightarrow> string) \<Rightarrow> (dict \<Rightarrow> string \<Rightarrow> 'key \<Rightarrow> dict result) \<Rightarrow> room_version \<Rightarrow> dict
   \<Rightarrow> string \<Rightarrow> 'key \<Rightarrow> dict result" where
  "add_hashes_and_signatures encode_canonical_json hash64 sign_json rv event_dict signature_name signing_key =
     (let digest = compute_content_hash encode_canonical_json hash64 event_dict
      in bindR (case map_of event_dict ''hashes'' of
                  None \<Rightarrow> Inr (event_dict @ [(''hashes'', JObj [(''sha256'', JStr digest)])])
                | Some (JObj hs) \<Rightarrow> Inr (AList.update ''hashes'' (JObj (AList.update ''sha256'' (JStr digest) hs)) event_dict)
                | Some _ \<Rightarrow> Inl TypeErr) (\<lambda>d.
         bindR (compute_event_signature sign_json rv d signature_name signing_key) (\<lambda>sigs.
           Inr (AList.update ''signatures'' sigs d))))"

definition check_event_content_hash ::
  "(json \<Rightarrow> string) \<Rightarrow> (string \<Rightarrow> string) \<Rightarrow> (json \<Rightarrow> string result) \<Rightarrow> dict \<Rightarrow> bool result" where
  "check_event_content_hash encode_canonical_json hash decode_base64 event_dict =
     (let expected = compute_content_hash encode_canonical_json hash event_dict
      in (case dict_get event_dict ''hashes'' of
            JObj hs \<Rightarrow>
              (case map_of hs ''sha256'' of
                 None \<Rightarrow> Inl (SynapseError 400)
               | Some h64 \<Rightarrow>
                   (case decode_base64 h64 of
                      Inl _ \<Rightarrow> Inl (SynapseError 400)
                    | Inr bytes \<Rightarrow> Inr (bytes = expected)))
          | _ \<Rightarrow> Inl (SynapseError 400)))"

section \<open>Field filters\<close>

text \<open>
  \<open>_split_field\<close>: a dot splits if an even number of backslashes stands before it; \<open>bs\<close> counts the
  backslashes read last.
\<close>

fun split_dots :: "string \<Rightarrow> nat \<Rightarrow> string \<Rightarrow> string list" where
  "split_dots part bs [] = [rev part]"
| "split_dots part bs (c # cs) =
     (if c = CHR ''.'' then
        (if even bs then rev part # split_dots [] 0 cs else split_dots (c # part) 0 cs)
      else if c = CHR 92 then split_dots (c # part) (Suc bs) cs
      else split_dots (c # part) 0 cs)"

text \<open>The substitution of \<open>_escape_slash\<close> for a backslash and the character after it.\<close>

fun unescape :: "string \<Rightarrow> string" where
  "unescape [] = []"
| "unescape [c] = [c]"
| "unescape (c # d # cs) =
     (if c = CHR 92 \<and> d \<noteq> CHR 10
      then (if d = CHR 92 \<or> d = CHR ''.'' then d # unescape cs else c # d # unescape cs)
      else c # unescape (d # cs))"

definition split_field :: "string \<Rightarrow> string list" where
  "split_field field = map unescape (split_dots [] 0 field)"

fun drill :: "dict \<Rightarrow> string list \<Rightarrow> dict option" where
  "drill d [] = Some d"
| "drill d (k # ks) = (case map_of d k of Some (JObj s) \<Rightarrow> drill s ks | _ \<Rightarrow> None)"

fun set_path :: "dict \<Rightarrow> string list \<Rightarrow> string \<Rightarrow> json \<Rightarrow> dict result" where
  "set_path d [] key v = Inr (AList.update key v d)"
| "set_path d (k # ks) key v =
     (case (case map_of d k of None \<Rightarrow> JObj [] | Some s \<Rightarrow> s) of
        JObj s \<Rightarrow> bindR (set_path s ks key v) (\<lambda>s'. Inr (AList.update k (JObj s') d))
      | _ \<Rightarrow> Inl TypeErr)"

definition copy_field :: "dict \<Rightarrow> dict \<Rightarrow> string list \<Rightarrow> dict result" where
  "copy_field src dst field =
     (if field = [] then Inr dst
      else (case drill src (butlast field) of
              None \<Rightarrow> Inr dst
            | Some s \<Rightarrow>
                (case map_of s (last field) of
                   None \<Rightarrow> Inr dst
                 | Some v \<Rightarrow> set_path dst (butlast field) (last field) v)))"

definition only_fields :: "dict \<Rightarrow> string list \<Rightarrow> dict result" where
  "only_fields d fs =
     (if fs = [] then Inr d else foldR (copy_field d) [] (map split_field fs))"

section \<open>Client formats\<close>

definition format_event_for_client_v2 :: "dict \<Rightarrow> dict" where
  "format_event_for_client_v2 d =
     pop_all [''auth_events'', ''prev_events'', ''hashes'', ''signatures'', ''depth'', ''origin'', ''prev_state''] d"

definition format_event_for_client_v2_without_room_id :: "dict \<Rightarrow> dict" where
  "format_event_for_client_v2_without_room_id d = pop_all [''room_id''] (format_event_for_client_v2 d)"

definition copy_from_unsigned :: "dict \<Rightarrow> string \<Rightarrow> dict result" where
  "copy_from_unsigned d k =
     bindR (dict_item d ''unsigned'') (\<lambda>u.
     bindR (py_in (JStr k) u) (\<lambda>present.
       if present then bindR (py_getitem u (JStr k)) (\<lambda>v. Inr (AList.update k v d)) else Inr d))"

definition format_event_for_client_v1 :: "dict \<Rightarrow> dict result" where
  "format_event_for_client_v1 d =
     (let d1 = format_event_for_client_v2 d;
          d2 = (if dict_get d1 ''sender'' \<noteq> JNull then AList.update ''user_id'' (dict_get d1 ''sender'') d1 else d1)
      in foldR copy_from_unsigned d2
           [''age'', ''redacted_because'', ''replaces_state'', ''prev_content'', ''invite_room_state'', ''knock_room_state''])"

section \<open>Power level contents\<close>

definition copy_power_level_value_as_integer :: "json \<Rightarrow> int result" where
  "copy_power_level_value_as_integer old_value =
     (case old_value of
        JInt i \<Rightarrow> Inr i
      | JStr s \<Rightarrow> (case int_of_str s of None \<Rightarrow> Inl TypeErr | Some i \<Rightarrow> Inr i)
      | _ \<Rightarrow> Inl TypeErr)"

definition fixup_levels :: "dict \<Rightarrow> dict result" where
  "fixup_levels d =
     foldR (\<lambda>h (k, v). bindR (copy_power_level_value_as_integer v) (\<lambda>i. Inr (AList.update k (JInt i) h))) [] d"

definition copy_and_fixup_power_levels_contents :: "json \<Rightarrow> dict result" where
  "copy_and_fixup_power_levels_contents old_power_levels =
     (case old_power_levels of
        JObj d \<Rightarrow>
          foldR (\<lambda>power_levels (k, v).
            (case v of
               JObj h \<Rightarrow> bindR (fixup_levels h) (\<lambda>h'. Inr (AList.update k (JObj h') power_levels))
             | _ \<Rightarrow> bindR (copy_power_level_value_as_integer v) (\<lambda>i. Inr (AList.update k (JInt i) power_levels)))) [] d
      | _ \<Rightarrow> Inl TypeErr)"

section \<open>Canonical JSON\<close>

abbreviation CANONICALJSON_MAX_INT :: int where "CANONICALJSON_MAX_INT \<equiv> 2 ^ 53 - 1"
abbreviation CANONICALJSON_MIN_INT :: int where "CANONICALJSON_MIN_INT \<equiv> - (2 ^ 53 - 1)"

fun validate_canonicaljson :: "json \<Rightarrow> unit result" where
  "validate_canonicaljson (JInt i) =
     (if i < CANONICALJSON_MIN_INT \<or> CANONICALJSON_MAX_INT < i then Inl (SynapseError 400) else Inr ())"
| "validate_canonicaljson (JFloat q) = Inl (SynapseError 400)"
| "validate_canonicaljson (JObj d) = forR (map (\<lambda>kv. validate_canonicaljson (snd kv)) d) (\<lambda>r. r)"
| "validate_canonicaljson (JList xs) = forR (map validate_canonicaljson xs) (\<lambda>r. r)"
| "validate_canonicaljson _ = Inr ()"

end
