(* ===== verification/Event_Utils_Props.thy ===== *)
theory Event_Utils_Props
  imports Event_Utils Event_Auth Sample_Room
begin

text \<open>
  Redaction is idempotent and keeps the identity and the signatures of an event; what it keeps of
  the content is enough for the auth rules to judge by the redacted state.  Paths of the field
  filters can be written for every list of names, and repaired power levels mean the same.
\<close>

section \<open>Dictionaries\<close>

lemma map_of_sub_dict: "map_of (sub_dict fs d) k = (if k \<in> set fs then map_of d k else None)"
proof (induction fs)
  case (Cons f fs)
  have "sub_dict (f # fs) d = (case map_of d f of None \<Rightarrow> [] | Some v \<Rightarrow> [(f, v)]) @ sub_dict fs d"
    by (simp add: sub_dict_def)
  then show ?case using Cons.IH by (auto simp: map_add_def split: option.splits)
qed (simp add: sub_dict_def)

lemma keys_sub_dict: "fst ` set (sub_dict fs d) \<subseteq> set fs"
  by (auto simp: sub_dict_def split: option.splits)

lemma sub_dict_cong: "(\<And>f. f \<in> set fs \<Longrightarrow> map_of d f = map_of d' f) \<Longrightarrow> sub_dict fs d = sub_dict fs d'"
  unfolding sub_dict_def by (intro arg_cong [where f = concat] map_cong) auto

lemma sub_dict_idem: "sub_dict fs (sub_dict fs d) = sub_dict fs d"
  by (rule sub_dict_cong) (simp add: map_of_sub_dict)

lemma sub_dict_nonempty: "sub_dict fs d \<noteq> [] \<Longrightarrow> sub_dict fs (sub_dict fs d) \<noteq> []"
  by (simp add: sub_dict_idem)

lemma update_new: "k \<notin> fst ` set d \<Longrightarrow> AList.update k v d = d @ [(k, v)]"
  by (induction d) auto

lemma filter_update:
  "filter (\<lambda>kv. P (fst kv)) (AList.update k v d) =
     (if P k then AList.update k v (filter (\<lambda>kv. P (fst kv)) d) else filter (\<lambda>kv. P (fst kv)) d)"
proof (induction d)
  case (Cons kv d)
  then show ?case by (cases kv) auto
qed simp

lemma map_of_filter_keys: "P k \<Longrightarrow> map_of (filter (\<lambda>kv. P (fst kv)) d) k = map_of d k"
  by (induction d) auto

section \<open>What redaction keeps\<close>

definition obj_of :: "json \<Rightarrow> dict" where
  "obj_of v = (case v of JObj d \<Rightarrow> d | _ \<Rightarrow> [])"

definition content_of :: "dict \<Rightarrow> dict" where
  "content_of d = (case map_of d ''content'' of None \<Rightarrow> [] | Some c \<Rightarrow> obj_of c)"

lemma add_field_Inr:
  "add_field d acc f = Inr r \<Longrightarrow>
   r = (case map_of (content_of d) f of None \<Rightarrow> acc | Some v \<Rightarrow> AList.update f v acc)"
  by (auto simp: add_field_def result_simps dict_item_def content_of_def obj_of_def
      split: option.splits json.splits if_splits)

lemma add_field_obj:
  "map_of d ''content'' = Some (JObj c) \<Longrightarrow>
   add_field d acc f = Inr (case map_of c f of None \<Rightarrow> acc | Some v \<Rightarrow> AList.update f v acc)"
  by (auto simp: add_field_def dict_item_def split: option.splits)

lemma sub_dict_Cons: "sub_dict (f # fs) d = (case map_of d f of None \<Rightarrow> [] | Some v \<Rightarrow> [(f, v)]) @ sub_dict fs d"
  by (simp add: sub_dict_def)

lemma add_fields_Inr:
  assumes "add_fields d fs acc = Inr r" and "distinct fs" and "set fs \<inter> fst ` set acc = {}"
  shows "r = acc @ sub_dict fs (content_of d)"
  using assms
proof (induction fs arbitrary: acc)
  case Nil
  then show ?case by (simp add: add_fields_def sub_dict_def)
next
  case (Cons f fs)
  then obtain acc' where a: "add_field d acc f = Inr acc'" "add_fields d fs acc' = Inr r"
    by (auto simp: add_fields_def bindR_Inr_iff)
  have acc': "acc' = acc @ (case map_of (content_of d) f of None \<Rightarrow> [] | Some v \<Rightarrow> [(f, v)])"
    using add_field_Inr [OF a(1)] Cons.prems(3) by (auto simp: update_new split: option.splits)
  have "r = acc' @ sub_dict fs (content_of d)"
    by (rule Cons.IH [OF a(2)]) (use Cons.prems(2,3) in \<open>auto simp: acc' split: option.splits\<close>)
  then show ?case by (simp add: acc' sub_dict_Cons)
qed

lemma add_fields_total: "map_of d ''content'' = Some (JObj c) \<Longrightarrow> \<exists>r. add_fields d fs acc = Inr r"
  unfolding add_fields_def by (induction fs arbitrary: acc) (simp_all add: add_field_obj)

lemma add_fields_obj:
  assumes "map_of d ''content'' = Some (JObj c)" "distinct fs" "set fs \<inter> fst ` set acc = {}"
  shows "add_fields d fs acc = Inr (acc @ sub_dict fs c)"
proof -
  obtain r where r: "add_fields d fs acc = Inr r" using add_fields_total [OF assms(1)] by blast
  have "content_of d = c" using assms(1) by (simp add: content_of_def obj_of_def)
  then show ?thesis using add_fields_Inr [OF r assms(2,3)] r by simp
qed

text \<open>The content redaction keeps: listed fields, and two objects cut down.\<close>

definition kept_fields :: "room_version \<Rightarrow> json \<Rightarrow> string list" where
  "kept_fields rv t =
     (if t = JStr Member then ''membership'' # (if restricted_join_rule_fix rv then [AUTHORISING_USER] else [])
      else if t = JStr Create then (if implicit_room_creator rv then [] else [''creator''])
      else if t = JStr JoinRules then ''join_rule'' # (if restricted_join_rule rv then [''allow''] else [])
      else if t = JStr PowerLevels then power_level_fields @ (if updated_redaction_rules rv then [''invite''] else [])
      else if t = JStr Aliases \<and> special_case_aliases_auth rv then [''aliases'']
      else if t = JStr RoomHistoryVisibility then [''history_visibility'']
      else if t = JStr Redaction \<and> updated_redaction_rules rv then [''redacts'']
      else [])"

definition cut_entry :: "string \<Rightarrow> string list \<Rightarrow> dict \<Rightarrow> dict" where
  "cut_entry k fs c = (case map_of c k of Some (JObj r) \<Rightarrow> [(k, JObj (sub_dict fs r))] | _ \<Rightarrow> [])"

definition kept_invite :: "room_version \<Rightarrow> json \<Rightarrow> dict \<Rightarrow> dict" where
  "kept_invite rv t c =
     (if t = JStr Member \<and> updated_redaction_rules rv then cut_entry ''third_party_invite'' [''signed''] c else [])"

definition kept_relation :: "room_version \<Rightarrow> dict \<Rightarrow> dict" where
  "kept_relation rv c =
     (if msc3389_relation_redactions rv
      then filter (\<lambda>kv. snd kv \<noteq> JObj []) (cut_entry ''m.relates_to'' [''rel_type'', ''event_id''] c) else [])"

lemma keys_cut: "fst ` set (cut_entry k fs c) \<subseteq> {k}"
  by (auto simp: cut_entry_def split: option.splits json.splits)

lemma map_of_cut: "k' \<noteq> k \<Longrightarrow> map_of (cut_entry k fs c) k' = None" "k' \<noteq> k \<Longrightarrow> map_of (filter P (cut_entry k fs c)) k' = None"
  by (auto simp: cut_entry_def split: option.splits json.splits)

lemma cut_idem: "map_of c' k = map_of (cut_entry k fs c) k \<Longrightarrow> cut_entry k fs c' = cut_entry k fs c"
  by (auto simp: cut_entry_def sub_dict_idem split: option.splits json.splits)

lemma cut_filter_idem:
  "map_of c' k = map_of (filter (\<lambda>kv. snd kv \<noteq> JObj []) (cut_entry k fs c)) k \<Longrightarrow>
   filter (\<lambda>kv. snd kv \<noteq> JObj []) (cut_entry k fs c') = filter (\<lambda>kv. snd kv \<noteq> JObj []) (cut_entry k fs c)"
  by (auto simp: cut_entry_def sub_dict_idem split: option.splits json.splits if_splits)

lemma kept_fields_names: "distinct (kept_fields rv t)" "''third_party_invite'' \<notin> set (kept_fields rv t)"
  "''m.relates_to'' \<notin> set (kept_fields rv t)"
  by (auto simp: kept_fields_def power_level_fields_def)

abbreviation whole_content :: "room_version \<Rightarrow> json \<Rightarrow> bool" where
  "whole_content rv t \<equiv> t = JStr Create \<and> updated_redaction_rules rv"

lemma type_content_obj:
  assumes "map_of d ''content'' = Some (JObj c)" and "\<not> whole_content rv t"
  shows "type_content rv d t = Inr (JObj (sub_dict (kept_fields rv t) c @ kept_invite rv t c))"
proof -
  note add = add_fields_obj [OF assms(1)]
  have more: "add_fields d [f] (sub_dict fs c) = Inr (sub_dict (fs @ [f]) c)" if "f \<notin> set fs" for f fs
    using add [of "[f]" "sub_dict fs c"] that keys_sub_dict [of fs c] by (auto simp: sub_dict_def)
  have one: "add_fields d fs [] = Inr (sub_dict fs c)" if "distinct fs" for fs
    using add [of fs "[]"] that by simp
  have tpi: "AList.update ''third_party_invite'' v (sub_dict (kept_fields rv t) c) =
      sub_dict (kept_fields rv t) c @ [(''third_party_invite'', v)]" for v
    using keys_sub_dict [of "kept_fields rv t" c] kept_fields_names(2) [of rv t] by (intro update_new) auto
  have nil: "sub_dict [] c = []" by (simp add: sub_dict_def)
  have pl: "distinct power_level_fields" "''invite'' \<notin> set power_level_fields"
    by (simp_all add: power_level_fields_def)
  show ?thesis
  proof (cases "t = JStr Member")
    case True
    then have "type_content rv d t = bindR (member_content rv d) (\<lambda>c. Inr (JObj c))" by (simp add: type_content_def)
    moreover have "member_content rv d = Inr (sub_dict (kept_fields rv t) c @ kept_invite rv t c)"
      using tpi assms(1) True
      by (auto simp: member_content_def one more kept_fields_def kept_invite_def cut_entry_def content_entry_def dict_item_def
          split: option.splits json.splits)
    ultimately show ?thesis by simp
  next
    case False
    then have "kept_invite rv t c = []" by (simp add: kept_invite_def)
    then show ?thesis using assms(2) False pl
      by (auto simp: type_content_def kept_fields_def one more nil)
  qed
qed

lemma content_entry_object:
  assumes "content_entry d k = Inr v"
  obtains c where "map_of d ''content'' = Some (JObj c)"
proof -
  obtain j where j: "map_of d ''content'' = Some j" and g: "py_get j k JNull = Inr v"
    using assms by (auto simp: content_entry_def dict_item_def bindR_Inr_iff split: option.splits)
  from g obtain c where "j = JObj c" by (cases j) auto
  with j show ?thesis using that by simp
qed

lemma type_content_other:
  assumes "type_content rv d t = Inr nc" and "\<not> whole_content rv t"
    and no: "\<And>c. map_of d ''content'' \<noteq> Some (JObj c)"
  shows "nc = JObj []"
proof -
  have co: "content_of d = []"
    using no by (auto simp: content_of_def obj_of_def split: option.splits json.splits)
  have add: "r = acc" if "add_fields d fs acc = Inr r" "distinct fs" "set fs \<inter> fst ` set acc = {}" for fs acc r
    using add_fields_Inr [OF that] by (simp add: co sub_dict_def split: option.splits)
  have "content_entry d k \<noteq> Inr v" for k v
    using no content_entry_object [of d k v] by blast
  then show ?thesis using assms(1,2)
    by (auto simp: type_content_def member_content_def result_simps power_level_fields_def Let_def
        dest!: add split: if_splits)
qed

lemma type_content_spec:
  assumes "type_content rv d t = Inr nc" and "\<not> whole_content rv t"
  shows "nc = JObj (sub_dict (kept_fields rv t) (content_of d) @ kept_invite rv t (content_of d))"
proof (cases "\<exists>c. map_of d ''content'' = Some (JObj c)")
  case True
  then obtain c where c: "map_of d ''content'' = Some (JObj c)" by blast
  then have "content_of d = c" by (simp add: content_of_def obj_of_def)
  then show ?thesis using type_content_obj [OF c assms(2)] assms(1) by simp
next
  case False
  then have "content_of d = []"
    by (auto simp: content_of_def obj_of_def split: option.splits json.splits)
  moreover have "nc = JObj []" using type_content_other [OF assms] False by blast
  ultimately show ?thesis by (simp add: sub_dict_def kept_invite_def cut_entry_def)
qed

lemma keep_relation_obj:
  assumes "map_of d ''content'' = Some (JObj c)" and "''m.relates_to'' \<notin> fst ` set c1"
  shows "keep_relation rv d (JObj c1) = Inr (JObj (c1 @ kept_relation rv c))"
proof (cases "map_of c ''m.relates_to''")
  case None
  then show ?thesis using assms(1)
    by (simp add: keep_relation_def content_entry_def dict_item_def kept_relation_def cut_entry_def)
next
  case (Some r)
  then show ?thesis using assms
    by (cases r) (simp_all add: keep_relation_def content_entry_def dict_item_def kept_relation_def cut_entry_def update_new)
qed

lemma keep_relation_spec:
  assumes "keep_relation rv d (JObj c1) = Inr nc" and "''m.relates_to'' \<notin> fst ` set c1"
  shows "nc = JObj (c1 @ kept_relation rv (content_of d))"
proof (cases "msc3389_relation_redactions rv")
  case True
  then obtain v where "content_entry d ''m.relates_to'' = Inr v"
    using assms(1) by (auto simp: keep_relation_def bindR_Inr_iff)
  then obtain c where c: "map_of d ''content'' = Some (JObj c)" by (rule content_entry_object)
  then have "content_of d = c" by (simp add: content_of_def obj_of_def)
  then show ?thesis using keep_relation_obj [OF c assms(2)] assms(1) by simp
qed (use assms(1) in \<open>simp add: keep_relation_def kept_relation_def\<close>)

text \<open>The content after redaction, as a function of the type and the content before.\<close>

definition pruned_content :: "room_version \<Rightarrow> json \<Rightarrow> dict \<Rightarrow> dict" where
  "pruned_content rv t c = sub_dict (kept_fields rv t) c @ kept_invite rv t c @ kept_relation rv c"

lemma no_relation_yet: "''m.relates_to'' \<notin> fst ` set (sub_dict (kept_fields rv t) c @ kept_invite rv t c)"
proof -
  have "fst ` set (kept_invite rv t c) \<subseteq> {''third_party_invite''}"
    unfolding kept_invite_def by (split if_split) (simp only: keys_cut list.set image_empty empty_subsetI simp_thms)
  then show ?thesis using keys_sub_dict [of "kept_fields rv t" c] kept_fields_names(3) [of rv t] by auto
qed

lemma map_of_pruned_content:
  "map_of (pruned_content rv t c) k =
     (if k \<in> set (kept_fields rv t) then map_of c k
      else if k = ''third_party_invite'' then map_of (kept_invite rv t c) k
      else if k = ''m.relates_to'' then map_of (kept_relation rv c) k else None)"
proof -
  have i: "map_of (kept_invite rv t c) k = None" if "k \<noteq> ''third_party_invite''"
    using that by (simp add: kept_invite_def map_of_cut)
  have r: "map_of (kept_relation rv c) k = None" if "k \<noteq> ''m.relates_to''"
    using that by (simp add: kept_relation_def map_of_cut)
  have "k \<in> set (kept_fields rv t) \<Longrightarrow> k \<noteq> ''third_party_invite'' \<and> k \<noteq> ''m.relates_to''"
    using kept_fields_names [of rv t] by blast
  then show ?thesis using i r
    by (cases "k \<in> set (kept_fields rv t)"; cases "k = ''third_party_invite''"; cases "k = ''m.relates_to''")
      (simp_all add: pruned_content_def map_add_def map_of_sub_dict split: option.split)
qed

lemma pruned_content_idem: "pruned_content rv t (pruned_content rv t c) = pruned_content rv t c"
proof -
  let ?c = "pruned_content rv t c"
  have "sub_dict (kept_fields rv t) ?c = sub_dict (kept_fields rv t) c"
    by (rule sub_dict_cong) (simp add: map_of_pruned_content)
  moreover have "map_of ?c ''third_party_invite'' = map_of (kept_invite rv t c) ''third_party_invite''"
    using kept_fields_names(2) by (simp add: map_of_pruned_content)
  then have "kept_invite rv t ?c = kept_invite rv t c"
    unfolding kept_invite_def by (auto intro: cut_idem)
  moreover have "map_of ?c ''m.relates_to'' = map_of (kept_relation rv c) ''m.relates_to''"
    using kept_fields_names(3) by (simp add: map_of_pruned_content)
  then have "kept_relation rv ?c = kept_relation rv c"
    unfolding kept_relation_def by (auto intro: cut_filter_idem)
  ultimately show ?thesis unfolding pruned_content_def [of rv t "pruned_content rv t c"] by (simp add: pruned_content_def)
qed

section \<open>Redaction is idempotent\<close>

lemma new_content_idem:
  assumes "type_content rv d t = Inr c1" and "keep_relation rv d c1 = Inr nc"
    and d': "map_of d' ''content'' = Some nc"
  shows "bindR (type_content rv d' t) (keep_relation rv d') = Inr nc"
proof (cases "whole_content rv t")
  case False
  have c1: "c1 = JObj (sub_dict (kept_fields rv t) (content_of d) @ kept_invite rv t (content_of d))"
    by (rule type_content_spec [OF assms(1) False])
  have nc: "nc = JObj (pruned_content rv t (content_of d))"
    using keep_relation_spec [OF assms(2) [unfolded c1] no_relation_yet] by (simp add: pruned_content_def)
  have "bindR (type_content rv d' t) (keep_relation rv d') =
      Inr (JObj (pruned_content rv t (pruned_content rv t (content_of d))))"
    by (simp only: type_content_obj [OF d' [unfolded nc] False] bindR.simps keep_relation_obj [OF d' [unfolded nc] no_relation_yet])
      (simp add: pruned_content_def [of rv t "pruned_content rv t c" for c])
  then show ?thesis by (simp add: nc pruned_content_idem)
next
  case True
  then have c1: "map_of d ''content'' = Some c1" and d't: "type_content rv d' t = Inr nc"
    using assms(1) d' by (auto simp: type_content_def dict_item_def split: option.splits)
  show ?thesis
  proof (cases "msc3389_relation_redactions rv")
    case True
    then obtain v where "content_entry d ''m.relates_to'' = Inr v"
      using assms(2) by (auto simp: keep_relation_def bindR_Inr_iff)
    then obtain c where c: "c1 = JObj c" using c1 by (metis content_entry_object option.inject)
    show ?thesis
      using assms(2) c1 d' True unfolding d't bindR.simps c
      by (cases "map_of c ''m.relates_to''"; cases "the (map_of c ''m.relates_to'')")
        (auto simp: keep_relation_def content_entry_def dict_item_def sub_dict_idem AList.update_last split: if_splits)
  qed (use assms(2) d't in \<open>simp add: keep_relation_def\<close>)
qed

lemma prune_cases:
  assumes "prune_event_dict rv d = Inr d'"
  obtains t c1 nc u where "dict_item d ''type'' = Inr t" "type_content rv d t = Inr c1" "keep_relation rv d c1 = Inr nc"
    and "foldR (copy_unsigned (case map_of d ''unsigned'' of None \<Rightarrow> JObj [] | Some v \<Rightarrow> v)) [] [''age_ts'', ''replaces_state''] = Inr u"
    and "d' = AList.update ''unsigned'' (JObj u) (AList.update ''content'' nc (filter (\<lambda>kv. fst kv \<in> set (allowed_keys rv)) d))"
  using assms unfolding prune_event_dict_def by (auto simp only: bindR_Inr_iff sum.inject)

lemma copy_unsigned_idem:
  assumes "foldR (copy_unsigned v) [] [''age_ts'', ''replaces_state''] = Inr u"
  shows "foldR (copy_unsigned (JObj u)) [] [''age_ts'', ''replaces_state''] = Inr u"
  using assms by (auto simp: copy_unsigned_def result_simps split: if_splits)

lemma allowed_keys_names: "''content'' \<in> set (allowed_keys rv)" "''type'' \<in> set (allowed_keys rv)"
  "''unsigned'' \<notin> set (allowed_keys rv)"
  by (auto simp: allowed_keys_def)

lemma prune_idem:
  assumes "prune_event_dict rv d = Inr d'"
  shows "prune_event_dict rv d' = Inr d'"
  using assms
proof (cases rule: prune_cases)
  case (1 t c1 nc u)
  note [simp] = allowed_keys_names
  have f: "filter (\<lambda>kv. fst kv \<in> set (allowed_keys rv)) d' = AList.update ''content'' nc (filter (\<lambda>kv. fst kv \<in> set (allowed_keys rv)) d)"
    unfolding 1(5) by (simp add: filter_update [where P = "\<lambda>k. k \<in> set (allowed_keys rv)"])
  have "map_of d' ''type'' = map_of (filter (\<lambda>kv. fst kv \<in> set (allowed_keys rv)) d) ''type''"
    by (simp add: 1(5))
  also have "\<dots> = map_of d ''type''" by (rule map_of_filter_keys) simp
  finally have t: "dict_item d' ''type'' = Inr t" using 1(1) by (simp add: dict_item_def)
  have un: "map_of d' ''unsigned'' = Some (JObj u)" and co: "map_of d' ''content'' = Some nc" by (simp_all add: 1(5))
  obtain c1' where "type_content rv d' t = Inr c1'" "keep_relation rv d' c1' = Inr nc"
    using new_content_idem [OF 1(2,3) co] by (auto simp: bindR_Inr_iff)
  then show ?thesis
    unfolding prune_event_dict_def t un bindR.simps option.case f copy_unsigned_idem [OF 1(4)]
    by (simp add: AList.update_last 1(5))
qed

section \<open>Redacted state\<close>

text \<open>
  An event object and its redaction: the fields of the object that redaction may change are the
  content, the \<open>redacts\<close> key and the rejection, which the new object does not inherit.
\<close>

definition event_dict_of :: "event \<Rightarrow> dict" where
  "event_dict_of e =
     [(''type'', JStr (ev_type e)), (''room_id'', JStr (room_id e)), (''sender'', JStr (sender e))]
     @ (case state_key_field e of None \<Rightarrow> [] | Some k \<Rightarrow> [(''state_key'', JStr k)])
     @ (case redacts_field e of None \<Rightarrow> [] | Some v \<Rightarrow> [(''redacts'', v)])
     @ [(''content'', JObj (content e)), (''unsigned'', JObj [])]"

definition prune_event :: "event \<Rightarrow> event result" where
  "prune_event e =
     bindR (prune_event_dict (event_room_version e) (event_dict_of e)) (\<lambda>d.
       Inr (e\<lparr>content := obj_of (dict_get d ''content''), redacts_field := map_of d ''redacts'', rejected_reason := None\<rparr>))"

lemma event_dict_of_entries:
  "map_of (event_dict_of e) ''type'' = Some (JStr (ev_type e))"
  "map_of (event_dict_of e) ''content'' = Some (JObj (content e))"
  "map_of (event_dict_of e) ''unsigned'' = Some (JObj [])"
  by (simp_all add: event_dict_of_def map_add_def split: option.splits)

lemma prune_event_content:
  assumes "prune_event e = Inr e'" and "\<not> whole_content (event_room_version e) (JStr (ev_type e))"
  shows "content e' = pruned_content (event_room_version e) (JStr (ev_type e)) (content e)"
proof -
  let ?rv = "event_room_version e" let ?t = "JStr (ev_type e)" let ?d = "event_dict_of e"
  obtain d where d: "prune_event_dict ?rv ?d = Inr d" and e': "content e' = obj_of (dict_get d ''content'')"
    using assms(1) by (auto simp: prune_event_def bindR_Inr_iff)
  from d show ?thesis
  proof (cases rule: prune_cases)
    case (1 t c1 nc u)
    have t: "t = ?t" using 1(1) event_dict_of_entries(1) [of e] by (simp add: dict_item_def)
    have "c1 = JObj (sub_dict (kept_fields ?rv ?t) (content e) @ kept_invite ?rv ?t (content e))"
      using 1(2) type_content_obj [OF event_dict_of_entries(2) assms(2)] by (simp add: t)
    then have "nc = JObj (pruned_content ?rv ?t (content e))"
      using 1(3) keep_relation_obj [OF event_dict_of_entries(2) no_relation_yet] by (simp add: pruned_content_def)
    then show ?thesis by (simp add: e' 1(5) dict_get_def obj_of_def)
  qed
qed

lemma prune_event_fields:
  assumes "prune_event e = Inr e'"
  shows "ev_type e' = ev_type e" "sender e' = sender e" "state_key_field e' = state_key_field e" "ev_id e' = ev_id e"
    "event_room_version e' = event_room_version e"
  using assms by (auto simp: prune_event_def bindR_Inr_iff)

lemma prune_event_total: "\<exists>e'. prune_event e = Inr e'"
proof -
  let ?rv = "event_room_version e" let ?t = "JStr (ev_type e)" let ?d = "event_dict_of e"
  note ent = event_dict_of_entries [of e]
  have "\<exists>c1 nc. type_content ?rv ?d ?t = Inr c1 \<and> keep_relation ?rv ?d c1 = Inr nc"
  proof (cases "whole_content ?rv ?t")
    case True
    then have "type_content ?rv ?d ?t = Inr (JObj (content e))" using ent by (simp add: type_content_def dict_item_def)
    moreover have "\<exists>nc. keep_relation ?rv ?d (JObj (content e)) = Inr nc"
      using ent by (auto simp: keep_relation_def content_entry_def dict_item_def split: json.split)
    ultimately show ?thesis by blast
  next
    case False
    then show ?thesis
      using type_content_obj [OF ent(2) False] keep_relation_obj [OF ent(2) no_relation_yet] by blast
  qed
  then obtain c1 nc where "type_content ?rv ?d ?t = Inr c1" "keep_relation ?rv ?d c1 = Inr nc" by blast
  then show ?thesis
    unfolding prune_event_def prune_event_dict_def using ent by (simp add: dict_item_def copy_unsigned_def)
qed

text \<open>Two state events the auth rules cannot tell apart.\<close>

definition reads_alike :: "event \<Rightarrow> event \<Rightarrow> bool" where
  "reads_alike e e' \<longleftrightarrow> e' = e \<or>
     (ev_type e = Member \<and> membership e' = membership e) \<or>
     (ev_type e = JoinRules \<and> content_get e' ''join_rule'' = content_get e ''join_rule'')"

lemma redacted_reads_alike:
  assumes "prune_event e = Inr e'" and "ev_type e \<in> {Member, JoinRules}"
  shows "reads_alike e e'"
proof -
  have c: "content e' = pruned_content (event_room_version e) (JStr (ev_type e)) (content e)"
    by (rule prune_event_content [OF assms(1)]) (use assms(2) in auto)
  from assms(2) consider "ev_type e = Member" | "ev_type e = JoinRules" by auto
  then show ?thesis
  proof cases
    case 1
    then have "map_of (content e') ''membership'' = map_of (content e) ''membership''"
      by (simp add: c map_of_pruned_content kept_fields_def)
    then show ?thesis by (simp add: reads_alike_def 1 membership_def content_item_def)
  next
    case 2
    then have "map_of (content e') ''join_rule'' = map_of (content e) ''join_rule''"
      by (simp add: c map_of_pruned_content kept_fields_def)
    then show ?thesis by (simp add: reads_alike_def 2 content_get_def fun_eq_iff)
  qed
qed

text \<open>Every read of the room state by the auth rules gives the same in both states.\<close>

definition alike :: "auth_map \<Rightarrow> auth_map \<Rightarrow> bool" where
  "alike auth auth' \<longleftrightarrow> (\<forall>p. rel_option reads_alike (auth p) (auth' p)) \<and>
     (\<forall>p e. auth p = Some e \<longrightarrow> ev_type e = fst p)"

lemma alike_at:
  assumes "alike auth auth'"
  shows "t \<notin> {Member, JoinRules} \<Longrightarrow> auth' (t, k) = auth (t, k)"
    and "rel_option (\<lambda>e e'. membership e' = membership e) (auth (Member, k)) (auth' (Member, k))"
    and "rel_option (\<lambda>e e'. content_get e' ''join_rule'' = content_get e ''join_rule'')
      (auth (JoinRules, k)) (auth' (JoinRules, k))"
proof -
  have r: "rel_option reads_alike (auth p) (auth' p)" and t: "auth p = Some e \<Longrightarrow> ev_type e = fst p" for p e
    using assms unfolding alike_def by blast+
  show "auth' (t, k) = auth (t, k)" if "t \<notin> {Member, JoinRules}"
    using r [of "(t, k)"] t [of "(t, k)"] that by (cases rule: option.rel_cases) (auto simp: reads_alike_def)
  show "rel_option (\<lambda>e e'. membership e' = membership e) (auth (Member, k)) (auth' (Member, k))"
    using r [of "(Member, k)"] t [of "(Member, k)"] by (cases rule: option.rel_cases) (auto simp: reads_alike_def)
  show "rel_option (\<lambda>e e'. content_get e' ''join_rule'' = content_get e ''join_rule'')
      (auth (JoinRules, k)) (auth' (JoinRules, k))"
    using r [of "(JoinRules, k)"] t [of "(JoinRules, k)"] by (cases rule: option.rel_cases) (auto simp: reads_alike_def)
qed

lemma alike_reads:
  assumes "alike auth auth'"
  shows "get_power_level_event auth' = get_power_level_event auth"
    and "auth' (Create, k) = auth (Create, k)" and "auth' (ThirdPartyInvite, k) = auth (ThirdPartyInvite, k)"
    and "auth' (PowerLevels, k) = auth (PowerLevels, k)"
    and "member_is auth' who m = member_is auth who m"
    and "check_joined_room (auth' (Member, k)) = check_joined_room (auth (Member, k))"
    and "get_join_rule auth' = get_join_rule auth"
  using alike_at(1) [OF assms, of PowerLevels] alike_at(1) [OF assms, of Create] alike_at(1) [OF assms, of ThirdPartyInvite]
    alike_at(2) [OF assms, of who] alike_at(2) [OF assms, of k] alike_at(3) [OF assms, of "[]"]
  by (auto simp: get_power_level_event_def member_is_def check_joined_room_def get_join_rule_def option_rel_Some1
      split: option.splits)

lemma alike_levels:
  assumes "alike auth auth'"
  shows "get_user_power_level u auth' = get_user_power_level u auth" "get_named_level auth' n dflt = get_named_level auth n dflt"
    "can_federate auth' = can_federate auth"
  unfolding get_user_power_level_def get_named_level_def can_federate_def alike_reads [OF assms] by (rule refl)+

lemma alike_membership:
  assumes "alike auth auth'"
  shows "is_membership_change_allowed verify rv e auth' = is_membership_change_allowed verify rv e auth"
proof -
  have c: "membership_context rv e auth' m t = membership_context rv e auth m t" for m t
    unfolding membership_context_def alike_reads(5,7) [OF assms] alike_levels [OF assms] ..
  have a: "check_authorising_user e auth' c = check_authorising_user e auth c" for c
    unfolding check_authorising_user_def alike_reads(6) [OF assms] alike_levels [OF assms] ..
  have v: "verify_third_party_invite verify e auth' = verify_third_party_invite verify e auth"
    unfolding verify_third_party_invite_def alike_reads(3) [OF assms] ..
  have j: "check_join rv e auth' c = check_join rv e auth c" for c unfolding check_join_def a ..
  have l: "check_leave e auth' c = check_leave e auth c" for c unfolding check_leave_def alike_levels [OF assms] ..
  have r: "check_membership_rules verify rv e auth' c = check_membership_rules verify rv e auth c" for c
    unfolding check_membership_rules_def v j l ..
  have cj: "is_creator_join rv e auth' m = is_creator_join rv e auth m" for m
    unfolding is_creator_join_def alike_reads(2) [OF assms] ..
  show ?thesis unfolding is_membership_change_allowed_def c r cj alike_levels(3) [OF assms] ..
qed

lemma alike_check:
  assumes "alike auth auth'"
  shows "check_against_state verify e auth' = check_against_state verify e auth"
proof -
  have s: "can_send_event e auth' = can_send_event e auth"
    unfolding can_send_event_def alike_reads(1) [OF assms] alike_levels [OF assms] ..
  have r: "check_redaction rv e auth' = check_redaction rv e auth" for rv
    unfolding check_redaction_def alike_levels [OF assms] ..
  have p: "(if ev_type e = PowerLevels then check_power_levels (event_room_version e) e auth' else Inr ()) =
      (if ev_type e = PowerLevels then check_power_levels (event_room_version e) e auth else Inr ())"
  proof (cases "ev_type e = PowerLevels")
    case True
    have "auth' (ev_type e, k) = auth (ev_type e, k)" for k unfolding True by (rule alike_reads(4) [OF assms])
    then have "check_power_levels rv e auth' = check_power_levels rv e auth" for rv
      unfolding check_power_levels_def alike_levels [OF assms] by (simp only:)
    then show ?thesis by simp
  qed simp
  have i: "check_event_sender_in_room e auth' = check_event_sender_in_room e auth"
    by (simp add: check_event_sender_in_room_def alike_reads(6) [OF assms])
  show ?thesis
    unfolding check_against_state_def s r p i alike_levels [OF assms] alike_membership [OF assms] ..
qed

section \<open>Paths\<close>

text \<open>A name as it is written in a path, and the path of a list of names.\<close>

definition escape_part :: "string \<Rightarrow> string" where
  "escape_part s = concat (map (\<lambda>c. if c = CHR 92 \<or> c = CHR ''.'' then [CHR 92, c] else [c]) s)"

fun path_of :: "string list \<Rightarrow> string" where
  "path_of [] = []"
| "path_of [p] = escape_part p"
| "path_of (p # q # ps) = escape_part p @ CHR ''.'' # path_of (q # ps)"

lemma unescape_escape: "unescape (escape_part s) = s"
proof (induction s)
  case (Cons c s)
  have plain: "unescape (c # cs) = c # unescape cs" if "c \<noteq> CHR 92" for cs
    using that by (cases cs) auto
  have e: "escape_part (c # s) = (if c = CHR 92 \<or> c = CHR ''.'' then [CHR 92, c] else [c]) @ escape_part s"
    by (simp add: escape_part_def)
  show ?case
  proof (cases "c = CHR 92 \<or> c = CHR ''.''")
    case True
    then have "unescape (CHR 92 # c # cs) = c # unescape cs" for cs by auto
    then show ?thesis using True by (simp only: e if_True append.simps Cons.IH)
  next
    case False
    then have "escape_part (c # s) = c # escape_part s" "c \<noteq> CHR 92" by (simp_all add: e)
    then show ?thesis using plain [of "escape_part s"] Cons.IH by simp
  qed
qed (simp add: escape_part_def)

lemma split_dots_escape:
  "even n \<Longrightarrow> \<exists>n'. even n' \<and> split_dots part n (escape_part s @ rest) = split_dots (rev (escape_part s) @ part) n' rest"
proof (induction s arbitrary: part n)
  case (Cons c s)
  let ?e = "if c = CHR 92 \<or> c = CHR ''.'' then [CHR 92, c] else [c]"
  define m where "m = (if c = CHR 92 then Suc (Suc n) else 0)"
  have m: "even m" "split_dots part n (?e @ r) = split_dots (rev ?e @ part) m r" for r
    using Cons.prems unfolding m_def by (cases "c = CHR 92"; cases "c = CHR ''.''"; simp)+
  obtain n' where n': "even n'"
    "split_dots (rev ?e @ part) m (escape_part s @ rest) = split_dots (rev (escape_part s) @ rev ?e @ part) n' rest"
    using Cons.IH [OF m(1), of "rev ?e @ part"] by blast
  have e: "escape_part (c # s) = ?e @ escape_part s" by (simp add: escape_part_def)
  have "split_dots part n (escape_part (c # s) @ rest) = split_dots (rev (escape_part (c # s)) @ part) n' rest"
    unfolding e append_assoc rev_append m(2) n'(2) ..
  then show ?case using n'(1) by blast
qed (auto simp: escape_part_def)

lemma split_dots_path: "ps \<noteq> [] \<Longrightarrow> split_dots [] 0 (path_of ps) = map escape_part ps"
proof (induction ps rule: path_of.induct)
  case (2 p)
  then show ?case using split_dots_escape [of 0 "[]" p "[]"] by auto
next
  case (3 p q ps)
  then show ?case using split_dots_escape [of 0 "[]" p "CHR ''.'' # path_of (q # ps)"] by auto
qed simp

lemma split_field_path: "ps \<noteq> [] \<Longrightarrow> split_field (path_of ps) = ps"
  by (simp add: split_field_def split_dots_path comp_def unescape_escape)

section \<open>Repaired power levels\<close>

lemma foldR_dict:
  assumes "foldR (\<lambda>h (k, v). bindR (f v) (\<lambda>w. Inr (AList.update k w h))) acc d = Inr r"
    and "distinct (map fst d)" and "fst ` set acc \<inter> fst ` set d = {}"
  shows "map_of r k = (case map_of d k of None \<Rightarrow> map_of acc k | Some v \<Rightarrow> (case f v of Inr w \<Rightarrow> Some w | Inl _ \<Rightarrow> None))"
    and "v \<in> snd ` set d \<Longrightarrow> \<exists>w. f v = Inr w"
proof -
  have "map_of r k = (case map_of d k of None \<Rightarrow> map_of acc k | Some v \<Rightarrow> (case f v of Inr w \<Rightarrow> Some w | Inl _ \<Rightarrow> None)) \<and>
      (\<forall>v\<in>snd ` set d. \<exists>w. f v = Inr w)"
    using assms
  proof (induction d arbitrary: acc)
    case (Cons kv d)
    obtain a b where kv: "kv = (a, b)" by (cases kv)
    from Cons.prems(1) obtain w where w: "f b = Inr w"
      and rest: "foldR (\<lambda>h (k, v). bindR (f v) (\<lambda>w. Inr (AList.update k w h))) (AList.update a w acc) d = Inr r"
      by (auto simp: kv bindR_Inr_iff)
    have "map_of r k = (case map_of d k of None \<Rightarrow> map_of (AList.update a w acc) k
        | Some v \<Rightarrow> (case f v of Inr w \<Rightarrow> Some w | Inl _ \<Rightarrow> None)) \<and> (\<forall>v\<in>snd ` set d. \<exists>w. f v = Inr w)"
      by (rule Cons.IH [OF rest]) (use Cons.prems(2,3) in \<open>auto simp: kv dom_update [unfolded dom_def] update_new\<close>)
    moreover have "map_of d a = None" using Cons.prems(2) by (simp add: kv map_of_eq_None_iff)
    ultimately show ?case using w by (auto simp: kv split: option.split)
  qed simp
  then show "map_of r k = (case map_of d k of None \<Rightarrow> map_of acc k | Some v \<Rightarrow> (case f v of Inr w \<Rightarrow> Some w | Inl _ \<Rightarrow> None))"
    and "v \<in> snd ` set d \<Longrightarrow> \<exists>w. f v = Inr w" by blast+
qed

lemma bindR_map: "bindR (bindR m (\<lambda>x. Inr (F x))) g = bindR m (\<lambda>x. g (F x))"
  by (cases m) auto

definition fixup_value :: "json \<Rightarrow> json result" where
  "fixup_value v =
     (case v of
        JObj h \<Rightarrow> bindR (fixup_levels h) (\<lambda>h'. Inr (JObj h'))
      | _ \<Rightarrow> bindR (copy_power_level_value_as_integer v) (\<lambda>i. Inr (JInt i)))"

lemma fixup_contents:
  "copy_and_fixup_power_levels_contents (JObj c) =
     foldR (\<lambda>h (k, v). bindR (fixup_value v) (\<lambda>w. Inr (AList.update k w h))) [] c"
  unfolding copy_and_fixup_power_levels_contents_def json.case
  by (rule foldR_cong) (auto simp: fixup_value_def bindR_map split: json.split)

lemma copied_level: "copy_power_level_value_as_integer v = Inr i \<Longrightarrow> py_int v = Inr i \<and> v \<noteq> JNull"
  by (auto simp: copy_power_level_value_as_integer_def split: json.splits option.splits)

lemma fixup_value_int:
  assumes "fixup_value v = Inr w"
  shows "py_int w = py_int v" "v \<noteq> JNull" "w \<noteq> JNull"
proof -
  have "py_int w = py_int v \<and> v \<noteq> JNull \<and> w \<noteq> JNull"
    using assms by (cases v) (auto simp: fixup_value_def bindR_Inr_iff dest!: copied_level)
  then show "py_int w = py_int v" "v \<noteq> JNull" "w \<noteq> JNull" by auto
qed

lemma fixup_value_get:
  assumes "fixup_value v = Inr w" and "\<And>h. v = JObj h \<Longrightarrow> distinct (map fst h)"
  shows "(py_get v u JNull = Inl AttributeErr \<and> py_get w u JNull = Inl AttributeErr) \<or>
    (\<exists>x y. py_get v u JNull = Inr x \<and> py_get w u JNull = Inr y \<and> (x = JNull \<longleftrightarrow> y = JNull) \<and> (x \<noteq> JNull \<longrightarrow> py_int y = py_int x))"
proof (cases v)
  case (JObj h)
  obtain h' where h': "fixup_levels h = Inr h'" "w = JObj h'"
    using assms(1) by (auto simp: JObj fixup_value_def bindR_Inr_iff)
  define g where "g = (\<lambda>v. bindR (copy_power_level_value_as_integer v) (\<lambda>i. Inr (JInt i)))"
  have "fixup_levels h = foldR (\<lambda>h (k, v). bindR (g v) (\<lambda>w. Inr (AList.update k w h))) [] h"
    unfolding fixup_levels_def g_def by (rule foldR_cong) (auto simp: bindR_map)
  then have fold: "foldR (\<lambda>h (k, v). bindR (g v) (\<lambda>w. Inr (AList.update k w h))) [] h = Inr h'" using h'(1) by simp
  have d: "distinct (map fst h)" by (rule assms(2) [OF JObj])
  note lookup = foldR_dict(1) [OF fold d, of u] foldR_dict(2) [OF fold d]
  show ?thesis
  proof (cases "map_of h u")
    case None
    then show ?thesis using lookup(1) by (simp add: JObj h'(2))
  next
    case (Some x)
    then have "x \<in> snd ` set h" by (force dest: map_of_SomeD)
    then obtain y where y: "g x = Inr y" using lookup(2) by auto
    then have "map_of h' u = Some y" using lookup(1) Some by simp
    moreover have "py_int y = py_int x \<and> x \<noteq> JNull \<and> y \<noteq> JNull"
      using y copied_level [of x] by (auto simp: g_def bindR_Inr_iff)
    ultimately show ?thesis using Some by (simp add: JObj h'(2))
  qed
qed (use assms(1) in \<open>auto simp: fixup_value_def bindR_Inr_iff\<close>)

section \<open>Properties\<close>

text \<open>
  C30. Redaction is idempotent and keeps the identity of an event: the redacted dictionary is its
  own redaction, it has the same reference hash (from which event ids are made) and the same
  signatures, whatever the canonical encoding, the hash function and the signing function are.
\<close>

theorem redaction_keeps_identity:
  assumes "prune_event_dict rv d = Inr d'"
  shows "prune_event_dict rv d' = Inr d' \<and>
    compute_event_reference_hash encode hash rv d' = compute_event_reference_hash encode hash rv d \<and>
    compute_event_signature sign_json rv d' name key = compute_event_signature sign_json rv d name key"
  using prune_idem [OF assms] assms by (simp add: compute_event_reference_hash_def compute_event_signature_def)

definition message_dict :: dict where
  "message_dict = [(''type'', JStr ''m.room.member''), (''sender'', JStr ''@a:s''),
     (''content'', JObj [(''displayname'', JStr ''A''), (''membership'', JStr ''join'')]), (''unsigned'', JObj [(''age_ts'', JInt 5)]),
     (''extra'', JInt 1)]"

definition message_pruned :: dict where
  "message_pruned = [(''type'', JStr ''m.room.member''), (''sender'', JStr ''@a:s''),
     (''content'', JObj [(''membership'', JStr ''join'')]), (''unsigned'', JObj [(''age_ts'', JInt 5)])]"

theorem redaction_keeps_identity_witness:
  "prune_event_dict RV_V10 message_dict = Inr message_pruned \<and> prune_event_dict RV_V10 message_pruned = Inr message_pruned"
proof -
  have *: "prune_event_dict RV_V10 message_dict = Inr message_pruned" by code_simp
  show ?thesis using * redaction_keeps_identity [OF *, THEN conjunct1] by blast
qed

text \<open>
  C31. Members and join rules can be redacted without changing any verdict: the auth rules judge
  every event by the state in which such events are redacted as by the original state.
\<close>

theorem redacted_state_same_verdict:
  assumes "\<forall>p e. auth p = Some e \<longrightarrow> ev_type e = fst p"
    and "\<forall>p. auth' p = auth p \<or> (\<exists>e e'. auth p = Some e \<and> ev_type e \<in> {Member, JoinRules} \<and>
      prune_event e = Inr e' \<and> auth' p = Some e')"
  shows "check_against_state verify e auth' = check_against_state verify e auth"
proof (rule alike_check)
  have "rel_option reads_alike (auth p) (auth' p)" for p
    using assms(2) [rule_format, of p]
  proof
    assume "auth' p = auth p"
    then show ?thesis by (simp add: option.rel_refl reads_alike_def)
  next
    assume "\<exists>e e'. auth p = Some e \<and> ev_type e \<in> {Member, JoinRules} \<and> prune_event e = Inr e' \<and> auth' p = Some e'"
    then show ?thesis using redacted_reads_alike by auto
  qed
  then show "alike auth auth'" using assms(1) unfolding alike_def by blast
qed

text \<open>Bob's membership event with a display name, which its redaction removes.\<close>

definition bob_named :: event where
  "bob_named = (member_event ''$b'' ''@b:s'' ''@b:s'' JOIN)
     \<lparr>content := [(''displayname'', JStr ''Bob''), (''membership'', JOIN)]\<rparr>"

theorem redacted_state_same_verdict_witness:
  "prune_event bob_named = Inr (member_event ''$b'' ''@b:s'' ''@b:s'' JOIN) \<and>
   bob_named \<noteq> member_event ''$b'' ''@b:s'' ''@b:s'' JOIN \<and>
   check_against_state no_verify ex_bob_power (ex_auth((Member, ''@b:s'') \<mapsto> bob_named)) = Inr ex_bob_power \<and>
   check_against_state no_verify ex_bob_power
     (ex_auth((Member, ''@b:s'') \<mapsto> member_event ''$b'' ''@b:s'' ''@b:s'' JOIN)) = Inr ex_bob_power"
proof -
  let ?m = "member_event ''$b'' ''@b:s'' ''@b:s'' JOIN"
  have p: "prune_event bob_named = Inr ?m" by code_simp
  have named: "ev_type bob_named = Member" by code_simp
  have ne: "bob_named \<noteq> ?m" by code_simp
  have ty: "\<forall>p e. (ex_auth((Member, ''@b:s'') \<mapsto> bob_named)) p = Some e \<longrightarrow> ev_type e = fst p"
    using named unfolding ex_auth_def by (auto dest!: map_of_SomeD split: if_splits)
  have same: "check_against_state no_verify ex_bob_power (ex_auth((Member, ''@b:s'') \<mapsto> ?m)) =
      check_against_state no_verify ex_bob_power (ex_auth((Member, ''@b:s'') \<mapsto> bob_named))"
    by (rule redacted_state_same_verdict [OF ty]) (use p named in auto)
  have "ex_auth((Member, ''@b:s'') \<mapsto> ?m) = ex_auth" by (rule map_upd_triv) code_simp
  then show ?thesis using same p ne ex_bob_power_ok by simp
qed

text \<open>
  Repairing power levels (\<open>copy_and_fixup_power_levels_contents\<close>) leaves no strings behind
  and keeps what the levels mean: every user has the same power level by the repaired event.
\<close>

theorem fixup_keeps_levels:
  assumes "copy_and_fixup_power_levels_contents (JObj (content pl)) = Inr c'"
    and "distinct (map fst (content pl))"
    and "\<forall>h. map_of (content pl) ''users'' = Some (JObj h) \<longrightarrow> distinct (map fst h)"
  shows "get_user_power_level u (auth((PowerLevels, []) \<mapsto> pl\<lparr>content := c'\<rparr>)) =
      get_user_power_level u (auth((PowerLevels, []) \<mapsto> pl)) \<and>
    get_named_level (auth((PowerLevels, []) \<mapsto> pl\<lparr>content := c'\<rparr>)) n dflt =
      get_named_level (auth((PowerLevels, []) \<mapsto> pl)) n dflt"
proof -
  let ?c = "content pl"
  note fold = assms(1) [unfolded fixup_contents]
  have look: "(map_of ?c k = None \<and> map_of c' k = None) \<or>
      (\<exists>v w. map_of ?c k = Some v \<and> map_of c' k = Some w \<and> fixup_value v = Inr w)" for k
  proof (cases "map_of ?c k")
    case None
    then show ?thesis using foldR_dict(1) [OF fold assms(2), of k] by simp
  next
    case (Some v)
    then have "v \<in> snd ` set ?c" by (force dest: map_of_SomeD)
    then obtain w where "fixup_value v = Inr w" using foldR_dict(2) [OF fold assms(2)] by auto
    then show ?thesis using foldR_dict(1) [OF fold assms(2), of k] Some by simp
  qed
  have lvl: "(let l = content_get (pl\<lparr>content := c'\<rparr>) k d in if l \<noteq> JNull then py_int l else r) =
      (let l = content_get pl k d in if l \<noteq> JNull then py_int l else r)" for k d r
    using look [of k] fixup_value_int by (auto simp: content_get_def Let_def)
  have users: "(py_get (content_get pl ''users'' (JObj [])) u JNull = Inl AttributeErr \<and>
        py_get (content_get (pl\<lparr>content := c'\<rparr>) ''users'' (JObj [])) u JNull = Inl AttributeErr) \<or>
      (\<exists>x y. py_get (content_get pl ''users'' (JObj [])) u JNull = Inr x \<and>
        py_get (content_get (pl\<lparr>content := c'\<rparr>) ''users'' (JObj [])) u JNull = Inr y \<and>
        (x = JNull \<longleftrightarrow> y = JNull) \<and> (x \<noteq> JNull \<longrightarrow> py_int y = py_int x))"
    using look [of "''users''"]
  proof (elim disjE exE conjE)
    fix v w assume v: "map_of ?c ''users'' = Some v" "map_of c' ''users'' = Some w" "fixup_value v = Inr w"
    have "content_get pl ''users'' (JObj []) = v" "content_get (pl\<lparr>content := c'\<rparr>) ''users'' (JObj []) = w"
      using v(1,2) by (simp_all add: content_get_def)
    then show ?thesis using fixup_value_get [OF v(3), of u] assms(3) v(1) by (simp only:)
  qed (simp add: content_get_def)
  have "get_user_power_level u (auth((PowerLevels, []) \<mapsto> pl\<lparr>content := c'\<rparr>)) =
      get_user_power_level u (auth((PowerLevels, []) \<mapsto> pl))"
    using users
  proof (elim disjE exE conjE)
    fix x y
    assume "py_get (content_get pl ''users'' (JObj [])) u JNull = Inr x"
      "py_get (content_get (pl\<lparr>content := c'\<rparr>) ''users'' (JObj [])) u JNull = Inr y"
      "x = JNull \<longleftrightarrow> y = JNull" "x \<noteq> JNull \<longrightarrow> py_int y = py_int x"
    then show ?thesis using lvl [of "''users_default''" "JInt 0" "Inr 0"]
      by (cases "x = JNull") (simp_all add: get_user_power_level_def get_power_level_event_def Let_def split: if_splits)
  qed (simp add: get_user_power_level_def get_power_level_event_def)
  moreover have "get_named_level (auth((PowerLevels, []) \<mapsto> pl\<lparr>content := c'\<rparr>)) n dflt =
      get_named_level (auth((PowerLevels, []) \<mapsto> pl)) n dflt"
    using lvl [of n JNull "Inr dflt"] by (simp add: get_named_level_def get_power_level_event_def)
  ultimately show ?thesis ..
qed

theorem fixup_keeps_levels_witness:
  "let pl = sample_event ''$p'' PowerLevels ''@a:s'' (Some []) [(''users'', JObj [(''@a:s'', JStr ''100'')])] [];
       pl' = pl\<lparr>content := [(''users'', JObj [(''@a:s'', JInt 100)])]\<rparr>
   in copy_and_fixup_power_levels_contents (JObj (content pl)) = Inr (content pl') \<and>
      get_user_power_level ''@a:s'' (Map.empty((PowerLevels, []) \<mapsto> pl')) =
      get_user_power_level ''@a:s'' (Map.empty((PowerLevels, []) \<mapsto> pl))"
proof -
  let ?pl = "sample_event ''$p'' PowerLevels ''@a:s'' (Some []) [(''users'', JObj [(''@a:s'', JStr ''100'')])] []"
  have f: "copy_and_fixup_power_levels_contents (JObj (content ?pl)) = Inr [(''users'', JObj [(''@a:s'', JInt 100)])]"
    by code_simp
  have d: "distinct (map fst (content ?pl))" by code_simp
  have h: "\<forall>h. map_of (content ?pl) ''users'' = Some (JObj h) \<longrightarrow> distinct (map fst h)"
    by (simp add: sample_event_def)
  show ?thesis using fixup_keeps_levels [OF f d h, of "''@a:s''" Map.empty] f by (simp add: Let_def)
qed

end
