(* ===== verification/Actions.thy ===== *)
theory Actions
  imports Prelude
begin

text \<open>
  Code that reads and writes a state and may raise: an action maps the state before to a result
  and the state after.  An exception keeps the writes made before it, as an exception in Python
  does (a database transaction that raises is rolled back, which its model says itself).
\<close>

type_synonym ('s, 'a) action = "'s \<Rightarrow> 'a result \<times> 's"

definition returnA :: "'a \<Rightarrow> ('s, 'a) action" where
  "returnA x s = (Inr x, s)"

definition raiseA :: "py_error \<Rightarrow> ('s, 'a) action" where
  "raiseA e s = (Inl e, s)"

definition liftA :: "'a result \<Rightarrow> ('s, 'a) action" where
  "liftA r s = (r, s)"

definition readA :: "('s \<Rightarrow> 'a) \<Rightarrow> ('s, 'a) action" where
  "readA f s = (Inr (f s), s)"

definition writeA :: "('s \<Rightarrow> 's) \<Rightarrow> ('s, unit) action" where
  "writeA f s = (Inr (), f s)"

definition bindA :: "('s, 'a) action \<Rightarrow> ('a \<Rightarrow> ('s, 'b) action) \<Rightarrow> ('s, 'b) action" where
  "bindA m f s = (case m s of (r, s') \<Rightarrow> (case r of Inl e \<Rightarrow> (Inl e, s') | Inr x \<Rightarrow> f x s'))"

definition guardA :: "bool \<Rightarrow> py_error \<Rightarrow> ('s, unit) action" where
  "guardA b e = liftA (guardR b e)"

definition result_of :: "('s, 'a) action \<Rightarrow> 's \<Rightarrow> 'a result" where
  "result_of m s = fst (m s)"

definition state_after :: "('s, 'a) action \<Rightarrow> 's \<Rightarrow> 's" where
  "state_after m s = snd (m s)"

named_theorems action_simps "results and states of actions"

lemma result_of_bindA [action_simps]:
  "result_of (bindA m f) s =
     (case result_of m s of Inl e \<Rightarrow> Inl e | Inr x \<Rightarrow> result_of (f x) (state_after m s))"
  by (simp add: result_of_def state_after_def bindA_def split: prod.splits sum.splits)

lemma state_after_bindA [action_simps]:
  "state_after (bindA m f) s =
     (case result_of m s of Inl e \<Rightarrow> state_after m s | Inr x \<Rightarrow> state_after (f x) (state_after m s))"
  by (simp add: result_of_def state_after_def bindA_def split: prod.splits sum.splits)

lemma basic_actions [action_simps]:
  "result_of (returnA x) s = Inr x" "state_after (returnA x) s = s"
  "result_of (raiseA e) s = Inl e" "state_after (raiseA e :: ('s, 'a) action) s = s"
  "result_of (liftA r) s = r" "state_after (liftA r) s = s"
  "result_of (readA f) s = Inr (f s)" "state_after (readA f) s = s"
  "result_of (writeA g) s = Inr ()" "state_after (writeA g) s = g s"
  "result_of (guardA b e) s = guardR b e" "state_after (guardA b e) s = s"
  by (simp_all add: result_of_def state_after_def returnA_def raiseA_def liftA_def readA_def
      writeA_def guardA_def)

lemma state_after_if [action_simps]: "state_after (if b then m else n) s = (if b then state_after m s else state_after n s)"
  by simp

lemma result_of_if [action_simps]: "result_of (if b then m else n) s = (if b then result_of m s else result_of n s)"
  by simp

text \<open>An action keeps a property of the state if every part of it does.\<close>

definition keeps :: "('s \<Rightarrow> bool) \<Rightarrow> ('s, 'a) action \<Rightarrow> bool" where
  "keeps P m \<longleftrightarrow> (\<forall>s. P s \<longrightarrow> P (state_after m s))"

named_theorems keeps_rules "rules for properties an action keeps"

lemma keepsD: "keeps P m \<Longrightarrow> P s \<Longrightarrow> P (state_after m s)"
  by (simp add: keeps_def)

lemma keeps_bindA [keeps_rules]: "keeps P m \<Longrightarrow> (\<And>x. keeps P (f x)) \<Longrightarrow> keeps P (bindA m f)"
  by (auto simp: keeps_def action_simps split: sum.splits)

lemma keeps_basic [keeps_rules]:
  "keeps P (returnA x)" "keeps P (raiseA e)" "keeps P (liftA r)" "keeps P (readA f)" "keeps P (guardA b e)"
  by (simp_all add: keeps_def action_simps)

lemma keeps_if [keeps_rules]: "keeps P m \<Longrightarrow> keeps P n \<Longrightarrow> keeps P (if b then m else n)"
  by simp

end
