(* ===== verification/Friends_Store.thy ===== *)
theory Friends_Store
  imports Actions Domain_Ids Json_Values
begin

text \<open>
  The friend tables and the queries on them, \<open>storage/databases/main/friends.py\<close> with the schema
  \<open>storage/schema/main/delta/84/01_friends_tables.sql\<close>.  A table is the list of its rows; the
  constraints of the schema (primary keys, the unique index on sender and target of a request, the
  check that a friendship is stored in order) are part of \<open>INSERT\<close>.  A statement that violates
  one raises, and the transaction leaves the tables as they were.  \<open>ORDER BY\<close> is a stable sort.
  The identifier \<open>uuid.uuid4()\<close> generates is an argument of the call that draws it.
\<close>

abbreviation FRIEND_REQUEST_PENDING :: string where "FRIEND_REQUEST_PENDING \<equiv> ''pending''"
abbreviation FRIEND_REQUEST_ACCEPTED :: string where "FRIEND_REQUEST_ACCEPTED \<equiv> ''accepted''"
abbreviation FRIEND_REQUEST_REJECTED :: string where "FRIEND_REQUEST_REJECTED \<equiv> ''rejected''"
abbreviation FRIEND_STATUS_ACTIVE :: string where "FRIEND_STATUS_ACTIVE \<equiv> ''active''"

record friendship =
  user1_id :: string
  user2_id :: string
  fr_status :: string
  fr_created_ts :: int

record friend_request =
  request_id :: string
  sender_user_id :: string
  rq_target_user_id :: string
  rq_message :: "string option"
  rq_status :: string
  rq_created_ts :: int
  rq_updated_ts :: int

record user_block =
  blocker_user_id :: string
  blocked_user_id :: string
  bl_created_ts :: int

record friends_db =
  user_friendships :: "friendship list"
  friend_requests :: "friend_request list"
  user_blocks :: "user_block list"

definition empty_friends_db :: friends_db where
  "empty_friends_db = \<lparr>user_friendships = [], friend_requests = [], user_blocks = []\<rparr>"

section \<open>Statements\<close>

text \<open>\<open>INSERT\<close> into the three tables; \<open>GenericException\<close> stands for the driver's
  \<open>IntegrityError\<close>.\<close>

definition insert_friendship :: "friendship \<Rightarrow> (friends_db, unit) action" where
  "insert_friendship r db =
     (if user1_id r < user2_id r
        \<and> \<not> list_ex (\<lambda>r'. user1_id r' = user1_id r \<and> user2_id r' = user2_id r) (user_friendships db)
      then (Inr (), db\<lparr>user_friendships := user_friendships db @ [r]\<rparr>)
      else (Inl GenericException, db))"

definition insert_friend_request :: "friend_request \<Rightarrow> (friends_db, unit) action" where
  "insert_friend_request r db =
     (if list_ex (\<lambda>r'. request_id r' = request_id r
          \<or> (sender_user_id r' = sender_user_id r \<and> rq_target_user_id r' = rq_target_user_id r))
          (friend_requests db)
      then (Inl GenericException, db)
      else (Inr (), db\<lparr>friend_requests := friend_requests db @ [r]\<rparr>))"

definition insert_user_block :: "user_block \<Rightarrow> (friends_db, unit) action" where
  "insert_user_block r db =
     (if list_ex (\<lambda>r'. blocker_user_id r' = blocker_user_id r \<and> blocked_user_id r' = blocked_user_id r)
          (user_blocks db)
      then (Inl GenericException, db)
      else (Inr (), db\<lparr>user_blocks := user_blocks db @ [r]\<rparr>))"

text \<open>\<open>except Exception: raise StoreError(500, ..)\<close> around a statement.\<close>

definition or_store_error :: "(friends_db, 'a) action \<Rightarrow> (friends_db, 'a) action" where
  "or_store_error m db = (case m db of (Inl e, db') \<Rightarrow> (Inl (SynapseError 500), db') | r \<Rightarrow> r)"

section \<open>Friendships\<close>

definition between :: "string \<Rightarrow> string \<Rightarrow> friendship \<Rightarrow> bool" where
  "between u v r \<longleftrightarrow> (user1_id r = u \<and> user2_id r = v) \<or> (user1_id r = v \<and> user2_id r = u)"

definition get_friendship :: "string \<Rightarrow> string \<Rightarrow> friends_db \<Rightarrow> friendship option" where
  "get_friendship u v db =
     (if u = [] \<or> v = [] then None else find (between u v) (user_friendships db))"

text \<open>The dictionaries \<open>get_user_friendships\<close> returns for its rows.\<close>

definition friend_entry :: "string \<Rightarrow> friendship \<Rightarrow> dict" where
  "friend_entry u r =
     [(''friend_id'', JStr (if user1_id r = u then user2_id r else user1_id r)),
      (''status'', JStr (fr_status r)), (''created_ts'', JInt (fr_created_ts r))]"

definition get_user_friendships :: "string \<Rightarrow> int \<Rightarrow> int \<Rightarrow> friends_db \<Rightarrow> dict list result" where
  "get_user_friendships u limit offset db =
     (if u = [] then Inl (SynapseError 400)
      else if limit \<le> 0 \<or> limit > 1000 then Inl (SynapseError 400)
      else if offset < 0 then Inl (SynapseError 400)
      else Inr (map (friend_entry u) (take (nat limit) (drop (nat offset)
             (sort_key (\<lambda>r. - fr_created_ts r)
               (filter (\<lambda>r. (user1_id r = u \<or> user2_id r = u) \<and> fr_status r = FRIEND_STATUS_ACTIVE)
                 (user_friendships db)))))))"

definition create_friendship :: "string \<Rightarrow> string \<Rightarrow> int \<Rightarrow> (friends_db, unit) action" where
  "create_friendship u v ts =
     (if u = [] \<or> v = [] then raiseA (SynapseError 400)
      else if u = v then raiseA (SynapseError 400)
      else
        (let (a, b) = (if u > v then (v, u) else (u, v))
         in bindA (readA (\<lambda>db. list_ex (\<lambda>r. user1_id r = a \<and> user2_id r = b) (user_friendships db)))
              (\<lambda>exists. if exists then returnA ()
                else or_store_error (insert_friendship
                  \<lparr>user1_id = a, user2_id = b, fr_status = FRIEND_STATUS_ACTIVE, fr_created_ts = ts\<rparr>))))"

definition remove_friendship :: "string \<Rightarrow> string \<Rightarrow> (friends_db, bool) action" where
  "remove_friendship u v db =
     (Inr (list_ex (between u v) (user_friendships db)),
      db\<lparr>user_friendships := filter (\<lambda>r. \<not> between u v r) (user_friendships db)\<rparr>)"

section \<open>Requests\<close>

definition get_friend_request :: "string \<Rightarrow> string \<Rightarrow> friends_db \<Rightarrow> friend_request option" where
  "get_friend_request s t db =
     (case sort_key (\<lambda>r. - rq_created_ts r)
        (filter (\<lambda>r. sender_user_id r = s \<and> rq_target_user_id r = t) (friend_requests db)) of
        [] \<Rightarrow> None
      | r # _ \<Rightarrow> Some r)"

definition get_friend_request_by_id :: "string \<Rightarrow> friends_db \<Rightarrow> friend_request option" where
  "get_friend_request_by_id rid db = find (\<lambda>r. request_id r = rid) (friend_requests db)"

definition create_friend_request ::
  "string \<Rightarrow> string \<Rightarrow> string \<Rightarrow> string option \<Rightarrow> int \<Rightarrow> (friends_db, string) action" where
  "create_friend_request fresh_id s t msg ts =
     (if s = [] \<or> t = [] then raiseA (SynapseError 400)
      else if s = t then raiseA (SynapseError 400)
      else bindA (readA (\<lambda>db. list_ex (\<lambda>r. sender_user_id r = s \<and> rq_target_user_id r = t
                    \<and> rq_status r = FRIEND_REQUEST_PENDING) (friend_requests db)))
        (\<lambda>pending. if pending then raiseA (SynapseError 409)
           else bindA (or_store_error (insert_friend_request
             \<lparr>request_id = fresh_id, sender_user_id = s, rq_target_user_id = t, rq_message = msg,
              rq_status = FRIEND_REQUEST_PENDING, rq_created_ts = ts, rq_updated_ts = ts\<rparr>))
             (\<lambda>_. returnA fresh_id)))"

definition update_friend_request_status :: "string \<Rightarrow> string \<Rightarrow> int \<Rightarrow> (friends_db, unit) action" where
  "update_friend_request_status rid status ts db =
     (Inr (), db\<lparr>friend_requests :=
        map (\<lambda>r. if request_id r = rid then r\<lparr>rq_status := status, rq_updated_ts := ts\<rparr> else r)
          (friend_requests db)\<rparr>)"

text \<open>The two listings differ in the column they select by.\<close>

definition list_requests ::
  "(friend_request \<Rightarrow> string) \<Rightarrow> string \<Rightarrow> string option \<Rightarrow> int \<Rightarrow> int \<Rightarrow> friends_db
   \<Rightarrow> friend_request list result" where
  "list_requests column u status limit offset db =
     (if u = [] then Inl (SynapseError 400)
      else if limit \<le> 0 \<or> limit > 500 then Inl (SynapseError 400)
      else if offset < 0 then Inl (SynapseError 400)
      else if (case status of None \<Rightarrow> False | Some s \<Rightarrow> s \<noteq> [] \<and> s \<notin>
           {FRIEND_REQUEST_PENDING, FRIEND_REQUEST_ACCEPTED, FRIEND_REQUEST_REJECTED})
        then Inl (SynapseError 400)
      else Inr (take (nat limit) (drop (nat offset) (sort_key (\<lambda>r. - rq_created_ts r)
             (filter (\<lambda>r. column r = u
                \<and> (case status of None \<Rightarrow> True | Some s \<Rightarrow> s = [] \<or> rq_status r = s)) (friend_requests db))))))"

definition get_friend_requests_sent_by_user ::
  "string \<Rightarrow> string option \<Rightarrow> int \<Rightarrow> int \<Rightarrow> friends_db \<Rightarrow> friend_request list result" where
  "get_friend_requests_sent_by_user = list_requests sender_user_id"

definition get_friend_requests_received_by_user ::
  "string \<Rightarrow> string option \<Rightarrow> int \<Rightarrow> int \<Rightarrow> friends_db \<Rightarrow> friend_request list result" where
  "get_friend_requests_received_by_user = list_requests rq_target_user_id"

section \<open>Blocks\<close>

definition is_user_blocked :: "string \<Rightarrow> string \<Rightarrow> friends_db \<Rightarrow> bool" where
  "is_user_blocked u v db = list_ex (\<lambda>r. blocker_user_id r = u \<and> blocked_user_id r = v) (user_blocks db)"

definition create_user_block :: "string \<Rightarrow> string \<Rightarrow> int \<Rightarrow> (friends_db, unit) action" where
  "create_user_block u v ts =
     (if u = [] \<or> v = [] then raiseA (SynapseError 400)
      else if u = v then raiseA (SynapseError 400)
      else bindA (readA (is_user_blocked u v))
        (\<lambda>exists. if exists then returnA ()
           else or_store_error (insert_user_block
             \<lparr>blocker_user_id = u, blocked_user_id = v, bl_created_ts = ts\<rparr>)))"

definition remove_user_block :: "string \<Rightarrow> string \<Rightarrow> (friends_db, bool) action" where
  "remove_user_block u v db =
     (Inr (is_user_blocked u v db),
      db\<lparr>user_blocks := filter (\<lambda>r. \<not> (blocker_user_id r = u \<and> blocked_user_id r = v)) (user_blocks db)\<rparr>)"

definition get_user_blocks :: "string \<Rightarrow> friends_db \<Rightarrow> user_block list" where
  "get_user_blocks u db = sort_key (\<lambda>r. - bl_created_ts r) (filter (\<lambda>r. blocker_user_id r = u) (user_blocks db))"

end
