(* ===== verification/Friends.thy ===== *)
theory Friends
  imports Friends_Store Events
begin

text \<open>
  The friends handler, \<open>handlers/friends.py\<close>: requests, answers, friend lists, blocks.  Its state
  is the friend tables and the in-memory record of request times.  Arguments stand for what the
  handler gets from elsewhere: \<open>valid_ipv6\<close> (see \<open>Domain_Ids.is_valid\<close>), \<open>get_profile\<close> of
  the profile handler, the results of the user directory, the clock readings, the generated
  request id.  A handler call is one step; the store calls inside it are separate transactions, so
  an exception keeps what was written before it.
\<close>

section \<open>Requesters\<close>

text \<open>
  \<open>Requester\<close> is a frozen attrs class, so Python hashes it by hashing the tuple of its fields.
  What matters for that is the type of each field's value.
\<close>

datatype py_type = PyStr | PyInt | PyBool | PyNone | PySet | PyObject

fun type_hashable :: "py_type \<Rightarrow> bool" where
  "type_hashable PySet = False"
| "type_hashable _ = True"

record friends_requester =
  req_user :: domain_specific_string
  access_token_id :: "int option"
  is_guest :: bool
  scope :: "string list"
  shadow_banned :: bool
  device_id :: "string option"
  req_app_service :: "string option"
  req_authenticated_entity :: string

definition opt_type :: "py_type \<Rightarrow> 'a option \<Rightarrow> py_type" where
  "opt_type t v = (case v of None \<Rightarrow> PyNone | Some _ \<Rightarrow> t)"

definition requester_types :: "friends_requester \<Rightarrow> py_type list" where
  "requester_types r =
     [PyObject, opt_type PyInt (access_token_id r), PyBool, PySet, PyBool,
      opt_type PyStr (device_id r), opt_type PyObject (req_app_service r), PyStr]"

definition requester_hash :: "friends_requester \<Rightarrow> unit result" where
  "requester_hash r = guardR (list_all type_hashable (requester_types r)) TypeErr"

definition user_of :: "friends_requester \<Rightarrow> string" where
  "user_of r = to_string UserID (req_user r)"

section \<open>State and rate limit\<close>

record friends_handler =
  fdb :: friends_db
  rate_limit_cache :: "(string \<times> rat list) list option"
  max_requests_per_hour :: int
  rate_limit_window :: rat

type_synonym 'a handler = "(friends_handler, 'a) action"

definition store :: "(friends_db, 'a) action \<Rightarrow> 'a handler" where
  "store m h = (case m (fdb h) of (r, db) \<Rightarrow> (r, h\<lparr>fdb := db\<rparr>))"

definition query :: "(friends_db \<Rightarrow> 'a) \<Rightarrow> 'a handler" where
  "query f = readA (\<lambda>h. f (fdb h))"

text \<open>The attribute \<open>_rate_limit_cache\<close> is missing where Redis is in use.\<close>

definition check_rate_limit_memory :: "string \<Rightarrow> rat \<Rightarrow> unit handler" where
  "check_rate_limit_memory u now h =
     (case rate_limit_cache h of
        None \<Rightarrow> (Inl AttributeErr, h)
      | Some cache \<Rightarrow>
          (let recent = filter (\<lambda>ts. now - ts < rate_limit_window h) (case map_of cache u of None \<Rightarrow> [] | Some tss \<Rightarrow> tss)
           in if int (length recent) \<ge> max_requests_per_hour h
              then (Inl (SynapseError 429), h\<lparr>rate_limit_cache := Some (AList.update u recent cache)\<rparr>)
              else (Inr (), h\<lparr>rate_limit_cache := Some (AList.update u (recent @ [now]) cache)\<rparr>)))"

text \<open>
  \<open>pipeline\<close> is the outcome of the Redis pipeline: the number of requests it counted, or its
  exception.  The exception for too many requests is raised inside the \<open>try\<close> block.
\<close>

definition check_rate_limit_redis :: "int result \<Rightarrow> string \<Rightarrow> rat \<Rightarrow> unit handler" where
  "check_rate_limit_redis pipeline u now h =
     (case bindR pipeline (\<lambda>n. guardR (n < max_requests_per_hour h) (SynapseError 429)) of
        Inr _ \<Rightarrow> (Inr (), h)
      | Inl _ \<Rightarrow> check_rate_limit_memory u now h)"

text \<open>\<open>pipeline\<close> is \<open>None\<close> where Redis is not in use.\<close>

definition check_rate_limit :: "int result option \<Rightarrow> string \<Rightarrow> rat \<Rightarrow> unit handler" where
  "check_rate_limit pipeline u now =
     (case pipeline of
        Some p \<Rightarrow> check_rate_limit_redis p u now
      | None \<Rightarrow> check_rate_limit_memory u now)"

text \<open>
  A call of a coroutine function that is not awaited builds a coroutine object and runs none of
  its body.
\<close>

definition unawaited :: "'a handler \<Rightarrow> unit handler" where
  "unawaited m = returnA ()"

definition validate_user_id :: "json \<Rightarrow> unit result" where
  "validate_user_id v =
     (case v of
        JStr s \<Rightarrow>
          if s = [] then Inl (SynapseError 400)
          else if str_len s > 255 then Inl (SynapseError 400)
          else if prefix ''@'' s \<and> CHR '':'' \<notin> set s then Inl (SynapseError 400)
          else Inr ()
      | _ \<Rightarrow> Inl (SynapseError 400))"

text \<open>\<open>UserID.is_valid(v)\<close>; every value that is not a string makes the parser raise.\<close>

definition is_valid_user :: "(string \<Rightarrow> bool) \<Rightarrow> json \<Rightarrow> bool" where
  "is_valid_user valid_ipv6 v =
     (case v of JStr s \<Rightarrow> is_valid valid_ipv6 UserID s | _ \<Rightarrow> False)"

text \<open>\<open>except SynapseError: raise\<close>, \<open>except Exception: raise SynapseError(500, ..)\<close>.\<close>

definition or_internal_error :: "'a handler \<Rightarrow> 'a handler" where
  "or_internal_error m h =
     (case m h of
        (Inl e, h') \<Rightarrow> (Inl (if is_SynapseError e then e else SynapseError 500), h')
      | r \<Rightarrow> r)"

section \<open>Requests\<close>

definition send_friend_request ::
  "(string \<Rightarrow> bool) \<Rightarrow> int result option \<Rightarrow> rat \<Rightarrow> string \<Rightarrow> friends_requester \<Rightarrow> json \<Rightarrow> string option
   \<Rightarrow> int \<Rightarrow> int \<Rightarrow> dict handler" where
  "send_friend_request valid_ipv6 pipeline time fresh_id r target msg created_ts returned_ts =
     or_internal_error (
       bindA (liftA (validate_user_id (JStr (user_of r)))) (\<lambda>_.
       bindA (liftA (validate_user_id target)) (\<lambda>_.
       bindA (unawaited (check_rate_limit pipeline (user_of r) time)) (\<lambda>_.
       bindA (guardA (is_valid_user valid_ipv6 target) (SynapseError 400)) (\<lambda>_.
         (case target of
            JStr t \<Rightarrow>
              bindA (guardA (user_of r \<noteq> t) (SynapseError 400)) (\<lambda>_.
              bindA (query (is_user_blocked t (user_of r))) (\<lambda>blocked.
              bindA (guardA (\<not> blocked) (SynapseError 403)) (\<lambda>_.
              bindA (query (get_friendship (user_of r) t)) (\<lambda>existing.
              bindA (guardA (existing = None) (SynapseError 400)) (\<lambda>_.
              bindA (query (get_friend_request (user_of r) t)) (\<lambda>req.
              bindA (guardA (\<not> (case req of None \<Rightarrow> False | Some q \<Rightarrow> rq_status q = FRIEND_REQUEST_PENDING))
                       (SynapseError 400)) (\<lambda>_.
              bindA (store (create_friend_request fresh_id (user_of r) t msg created_ts)) (\<lambda>rid.
                returnA [(''request_id'', JStr rid), (''status'', JStr FRIEND_REQUEST_PENDING),
                         (''created_ts'', JInt returned_ts)]))))))))
          | _ \<Rightarrow> raiseA TypeErr))))))"

definition respond_to_friend_request ::
  "friends_requester \<Rightarrow> string \<Rightarrow> bool \<Rightarrow> int \<Rightarrow> int \<Rightarrow> dict handler" where
  "respond_to_friend_request r rid accept updated_ts created_ts =
     or_internal_error (
       bindA (query (get_friend_request_by_id rid)) (\<lambda>found.
         (case found of
            None \<Rightarrow> raiseA (SynapseError 404)
          | Some q \<Rightarrow>
              bindA (guardA (rq_target_user_id q = user_of r) (AuthError 403)) (\<lambda>_.
              bindA (guardA (rq_status q = FRIEND_REQUEST_PENDING) (SynapseError 400)) (\<lambda>_.
              let new_status = (if accept then FRIEND_REQUEST_ACCEPTED else FRIEND_REQUEST_REJECTED)
              in bindA (store (update_friend_request_status rid new_status updated_ts)) (\<lambda>_.
                 bindA (if accept
                        then bindA (store (create_friendship (sender_user_id q) (rq_target_user_id q) created_ts)) (\<lambda>_.
                               liftA (requester_hash r))
                        else returnA ()) (\<lambda>_.
                   returnA [(''request_id'', JStr rid), (''status'', JStr new_status), (''accepted'', JBool accept)])))))))"

definition no_profile :: dict where
  "no_profile = [(''displayname'', JNull), (''avatar_url'', JNull)]"

text \<open>The profile part of an entry: the two fields of the profile, or nulls if it cannot be read.\<close>

definition profile_fields :: "(string \<Rightarrow> dict result) \<Rightarrow> string \<Rightarrow> dict" where
  "profile_fields get_profile u =
     (case get_profile u of
        Inl _ \<Rightarrow> no_profile
      | Inr p \<Rightarrow> [(''displayname'', dict_get p ''displayname''), (''avatar_url'', dict_get p ''avatar_url'')])"

definition get_friend_requests ::
  "(string \<Rightarrow> dict result) \<Rightarrow> friends_requester \<Rightarrow> string \<Rightarrow> (friend_request \<times> dict) list handler" where
  "get_friend_requests get_profile r direction =
     bindA (if direction = ''sent''
            then query (get_friend_requests_sent_by_user (user_of r) None 50 0)
            else if direction = ''received''
            then query (get_friend_requests_received_by_user (user_of r) None 50 0)
            else raiseA (SynapseError 400)) (\<lambda>found.
     bindA (liftA found) (\<lambda>requests.
       returnA (map (\<lambda>q. (q, case get_profile (if direction = ''sent'' then rq_target_user_id q else sender_user_id q) of
                               Inl _ \<Rightarrow> no_profile | Inr p \<Rightarrow> p)) requests)))"

section \<open>Friend lists\<close>

definition friend_info :: "(string \<Rightarrow> dict result) \<Rightarrow> string \<Rightarrow> dict \<Rightarrow> dict result" where
  "friend_info get_profile u f =
     bindR (dict_item f ''user1_id'') (\<lambda>u1.
     bindR (if u1 = JStr u then dict_item f ''user2_id'' else dict_item f ''user1_id'') (\<lambda>other.
     bindR (dict_item f ''created_ts'') (\<lambda>ts.
     bindR (dict_item f ''status'') (\<lambda>st.
       Inr ((''user_id'', other) # profile_fields get_profile (case other of JStr s \<Rightarrow> s | _ \<Rightarrow> [])
            @ [(''friendship_created_ts'', ts), (''status'', st)])))))"

text \<open>The memoising decorator looks its key, the requester, up in a dictionary first.\<close>

definition get_friends_list_body :: "(string \<Rightarrow> dict result) \<Rightarrow> friends_requester \<Rightarrow> dict list handler" where
  "get_friends_list_body get_profile r =
     bindA (query (get_user_friendships (user_of r) 100 0)) (\<lambda>found.
     bindA (liftA found) (\<lambda>friendships.
       liftA (mapR (friend_info get_profile (user_of r)) friendships)))"

definition get_friends_list :: "(string \<Rightarrow> dict result) \<Rightarrow> friends_requester \<Rightarrow> dict list handler" where
  "get_friends_list get_profile r =
     bindA (liftA (requester_hash r)) (\<lambda>_. get_friends_list_body get_profile r)"

definition remove_friend :: "(string \<Rightarrow> bool) \<Rightarrow> friends_requester \<Rightarrow> json \<Rightarrow> dict handler" where
  "remove_friend valid_ipv6 r friend =
     bindA (guardA (is_valid_user valid_ipv6 friend) (SynapseError 400)) (\<lambda>_.
       (case friend of
          JStr f \<Rightarrow>
            bindA (query (get_friendship (user_of r) f)) (\<lambda>existing.
            bindA (guardA (existing \<noteq> None) (SynapseError 404)) (\<lambda>_.
            bindA (store (remove_friendship (user_of r) f)) (\<lambda>_.
            bindA (liftA (requester_hash r)) (\<lambda>_.
              returnA [(''removed'', JBool True), (''user_id'', JStr f)]))))
        | _ \<Rightarrow> raiseA TypeErr))"

text \<open>\<open>results\<close>: what the user directory found, each with its \<open>user_id\<close>.\<close>

definition search_users :: "dict list \<Rightarrow> friends_requester \<Rightarrow> dict list handler" where
  "search_users results r h =
     (mapR (\<lambda>user. bindR (dict_item user ''user_id'') (\<lambda>v.
        (case v of
           JStr u \<Rightarrow>
             Inr (AList.update ''has_pending_request''
               (JBool (case get_friend_request (user_of r) u (fdb h) of
                  None \<Rightarrow> False | Some q \<Rightarrow> rq_status q = FRIEND_REQUEST_PENDING))
               (AList.update ''is_friend'' (JBool (get_friendship (user_of r) u (fdb h) \<noteq> None)) user))
         | _ \<Rightarrow> Inl TypeErr))) results, h)"

section \<open>Blocks\<close>

definition block_user :: "(string \<Rightarrow> bool) \<Rightarrow> friends_requester \<Rightarrow> json \<Rightarrow> int \<Rightarrow> dict handler" where
  "block_user valid_ipv6 r target created_ts =
     bindA (guardA (is_valid_user valid_ipv6 target) (SynapseError 400)) (\<lambda>_.
       (case target of
          JStr t \<Rightarrow>
            bindA (guardA (user_of r \<noteq> t) (SynapseError 400)) (\<lambda>_.
            bindA (query (get_friendship (user_of r) t)) (\<lambda>existing.
            bindA (if existing \<noteq> None then store (remove_friendship (user_of r) t) else returnA False) (\<lambda>_.
            bindA (store (create_user_block (user_of r) t created_ts)) (\<lambda>_.
              returnA [(''blocked'', JBool True), (''user_id'', JStr t)]))))
        | _ \<Rightarrow> raiseA TypeErr))"

definition unblock_user :: "(string \<Rightarrow> bool) \<Rightarrow> friends_requester \<Rightarrow> json \<Rightarrow> dict handler" where
  "unblock_user valid_ipv6 r target =
     bindA (guardA (is_valid_user valid_ipv6 target) (SynapseError 400)) (\<lambda>_.
       (case target of
          JStr t \<Rightarrow>
            bindA (store (remove_user_block (user_of r) t)) (\<lambda>removed.
            bindA (guardA removed (SynapseError 404)) (\<lambda>_.
              returnA [(''unblocked'', JBool True), (''user_id'', JStr t)]))
        | _ \<Rightarrow> raiseA TypeErr))"

definition get_blocked_users :: "(string \<Rightarrow> dict result) \<Rightarrow> friends_requester \<Rightarrow> dict list handler" where
  "get_blocked_users get_profile r =
     bindA (query (get_user_blocks (user_of r))) (\<lambda>blocks.
       returnA (map (\<lambda>b. (''user_id'', JStr (blocked_user_id b)) # profile_fields get_profile (blocked_user_id b)
                         @ [(''blocked_ts'', JInt (bl_created_ts b))]) blocks))"

section \<open>Runs\<close>

text \<open>The calls that can change the state, with what each of them gets from outside.\<close>

datatype friends_op =
    Send "int result option" rat string friends_requester json "string option" int int
  | Respond friends_requester string bool int int
  | Remove friends_requester json
  | Block friends_requester json int
  | Unblock friends_requester json

fun friends_call :: "(string \<Rightarrow> bool) \<Rightarrow> friends_op \<Rightarrow> dict handler" where
  "friends_call ipv6 (Send pipeline time fresh_id r target msg t1 t2) =
     send_friend_request ipv6 pipeline time fresh_id r target msg t1 t2"
| "friends_call ipv6 (Respond r rid accept t1 t2) = respond_to_friend_request r rid accept t1 t2"
| "friends_call ipv6 (Remove r friend) = remove_friend ipv6 r friend"
| "friends_call ipv6 (Block r target ts) = block_user ipv6 r target ts"
| "friends_call ipv6 (Unblock r target) = unblock_user ipv6 r target"

definition friends_step :: "(string \<Rightarrow> bool) \<Rightarrow> friends_handler \<Rightarrow> friends_op \<Rightarrow> friends_handler" where
  "friends_step ipv6 h x = state_after (friends_call ipv6 x) h"

definition new_friends_handler :: "int \<Rightarrow> rat \<Rightarrow> friends_handler" where
  "new_friends_handler max_requests window =
     \<lparr>fdb = empty_friends_db, rate_limit_cache = Some [], max_requests_per_hour = max_requests,
      rate_limit_window = window\<rparr>"

end
