(* ===== verification/Friends_Props.thy ===== *)
theory Friends_Props
  imports Friends
begin

text \<open>
  The invariant of the friend tables under any sequence of transactions, what every friendship rests
  on, what a block prevents, and what the handler reports.
\<close>

section \<open>The tables\<close>

definition pair_of :: "friendship \<Rightarrow> string \<times> string" where
  "pair_of r = (user1_id r, user2_id r)"

definition friendships_ok :: "friendship list \<Rightarrow> bool" where
  "friendships_ok rs \<longleftrightarrow> distinct (map pair_of rs) \<and>
     (\<forall>r\<in>set rs. user1_id r \<noteq> [] \<and> user1_id r < user2_id r \<and> fr_status r = FRIEND_STATUS_ACTIVE)"

definition requests_ok :: "friend_request list \<Rightarrow> bool" where
  "requests_ok qs \<longleftrightarrow> distinct (map request_id qs) \<and>
     distinct (map (\<lambda>q. (sender_user_id q, rq_target_user_id q)) qs) \<and>
     (\<forall>q\<in>set qs. sender_user_id q \<noteq> [] \<and> rq_target_user_id q \<noteq> [] \<and> sender_user_id q \<noteq> rq_target_user_id q \<and>
        rq_status q \<in> {FRIEND_REQUEST_PENDING, FRIEND_REQUEST_ACCEPTED, FRIEND_REQUEST_REJECTED})"

definition blocks_ok :: "user_block list \<Rightarrow> bool" where
  "blocks_ok bs \<longleftrightarrow> distinct (map (\<lambda>b. (blocker_user_id b, blocked_user_id b)) bs) \<and>
     (\<forall>b\<in>set bs. blocker_user_id b \<noteq> [] \<and> blocked_user_id b \<noteq> [] \<and> blocker_user_id b \<noteq> blocked_user_id b)"

definition friends_ok :: "friends_db \<Rightarrow> bool" where
  "friends_ok db \<longleftrightarrow> friendships_ok (user_friendships db) \<and> requests_ok (friend_requests db) \<and>
     blocks_ok (user_blocks db)"

lemma friends_ok_empty: "friends_ok empty_friends_db"
  by (simp add: friends_ok_def empty_friends_db_def friendships_ok_def requests_ok_def blocks_ok_def)

lemma Cons_less_nonempty: "(x::string) < y \<Longrightarrow> y \<noteq> []"
  by (cases y) auto

subsection \<open>Effects of the statements\<close>

lemma or_store_error_state [action_simps]: "state_after (or_store_error m) db = state_after m db"
  by (simp add: or_store_error_def state_after_def split: prod.splits sum.splits)

lemma or_store_error_result [action_simps]:
  "result_of (or_store_error m) db = (case result_of m db of Inl e \<Rightarrow> Inl (SynapseError 500) | Inr x \<Rightarrow> Inr x)"
  by (simp add: or_store_error_def result_of_def split: prod.splits sum.splits)

definition ordered_row :: "string \<Rightarrow> string \<Rightarrow> int \<Rightarrow> friendship" where
  "ordered_row u v ts = \<lparr>user1_id = min u v, user2_id = max u v, fr_status = FRIEND_STATUS_ACTIVE, fr_created_ts = ts\<rparr>"

lemma has_pair:
  "list_ex (\<lambda>r. user1_id r = a \<and> user2_id r = b) rs \<longleftrightarrow> (a, b) \<in> set (map pair_of rs)"
  "(user1_id r, user2_id r) = pair_of r"
  by (auto simp: list_ex_iff pair_of_def image_iff)

lemma insert_friendship_after:
  "result_of (insert_friendship r) db =
     (if user1_id r < user2_id r \<and> pair_of r \<notin> set (map pair_of (user_friendships db)) then Inr () else Inl GenericException)"
  "state_after (insert_friendship r) db =
     (if user1_id r < user2_id r \<and> pair_of r \<notin> set (map pair_of (user_friendships db))
      then db\<lparr>user_friendships := user_friendships db @ [r]\<rparr> else db)"
  by (auto simp: insert_friendship_def result_of_def state_after_def has_pair)

lemma create_friendship_eq:
  assumes "u \<noteq> []" "v \<noteq> []" "u \<noteq> v"
  shows "create_friendship u v ts =
    bindA (readA (\<lambda>db. pair_of (ordered_row u v ts) \<in> set (map pair_of (user_friendships db))))
      (\<lambda>exists. if exists then returnA () else or_store_error (insert_friendship (ordered_row u v ts)))"
proof -
  have p: "pair_of (ordered_row u v ts) = (min u v, max u v)" by (simp add: pair_of_def ordered_row_def)
  have "(if u > v then (v, u) else (u, v)) = (min u v, max u v)" by (auto simp: min_def max_def)
  then show ?thesis
    using assms by (simp only: create_friendship_def p has_pair(1) ordered_row_def [symmetric] Let_def if_False simp_thms prod.case)
qed

lemma create_friendship_ok:
  assumes "u \<noteq> []" "v \<noteq> []" "u \<noteq> v"
  shows "result_of (create_friendship u v ts) db = Inr ()"
    and "state_after (create_friendship u v ts) db =
      (if pair_of (ordered_row u v ts) \<in> set (map pair_of (user_friendships db)) then db
       else db\<lparr>user_friendships := user_friendships db @ [ordered_row u v ts]\<rparr>)"
proof -
  have lt: "user1_id (ordered_row u v ts) < user2_id (ordered_row u v ts)"
    using assms(3) by (auto simp: ordered_row_def min_def max_def)
  show "result_of (create_friendship u v ts) db = Inr ()"
    unfolding create_friendship_eq [OF assms] by (simp add: action_simps insert_friendship_after lt)
  show "state_after (create_friendship u v ts) db =
      (if pair_of (ordered_row u v ts) \<in> set (map pair_of (user_friendships db)) then db
       else db\<lparr>user_friendships := user_friendships db @ [ordered_row u v ts]\<rparr>)"
    unfolding create_friendship_eq [OF assms] by (simp add: action_simps insert_friendship_after lt)
qed

lemma create_friendship_fails:
  "u = [] \<or> v = [] \<or> u = v \<Longrightarrow> state_after (create_friendship u v ts) db = db"
  by (auto simp: create_friendship_def action_simps)

lemma create_request_after:
  "state_after (create_friend_request fid s t msg ts) db = db \<or>
   (s \<noteq> [] \<and> t \<noteq> [] \<and> s \<noteq> t \<and> fid \<notin> set (map request_id (friend_requests db)) \<and>
    (s, t) \<notin> set (map (\<lambda>q. (sender_user_id q, rq_target_user_id q)) (friend_requests db)) \<and>
    state_after (create_friend_request fid s t msg ts) db =
      db\<lparr>friend_requests := friend_requests db @
        [\<lparr>request_id = fid, sender_user_id = s, rq_target_user_id = t, rq_message = msg,
          rq_status = FRIEND_REQUEST_PENDING, rq_created_ts = ts, rq_updated_ts = ts\<rparr>]\<rparr>)"
  by (auto simp: create_friend_request_def action_simps insert_friend_request_def
      state_after_def [of "insert_friend_request r" for r] list_ex_iff split: sum.splits)

lemma create_block_after:
  "state_after (create_user_block u v ts) db = db \<or>
   (u \<noteq> [] \<and> v \<noteq> [] \<and> u \<noteq> v \<and> \<not> is_user_blocked u v db \<and>
    state_after (create_user_block u v ts) db =
      db\<lparr>user_blocks := user_blocks db @ [\<lparr>blocker_user_id = u, blocked_user_id = v, bl_created_ts = ts\<rparr>]\<rparr>)"
  by (auto simp: create_user_block_def action_simps insert_user_block_def
      state_after_def [of "insert_user_block r" for r] is_user_blocked_def)

lemma direct_after [action_simps]:
  "state_after (remove_friendship u v) db =
     db\<lparr>user_friendships := filter (\<lambda>r. \<not> between u v r) (user_friendships db)\<rparr>"
  "state_after (update_friend_request_status rid status ts) db =
     db\<lparr>friend_requests := map (\<lambda>r. if request_id r = rid then r\<lparr>rq_status := status, rq_updated_ts := ts\<rparr> else r)
          (friend_requests db)\<rparr>"
  "state_after (remove_user_block u v) db =
     db\<lparr>user_blocks := filter (\<lambda>r. \<not> (blocker_user_id r = u \<and> blocked_user_id r = v)) (user_blocks db)\<rparr>"
  "result_of (remove_friendship u v) db = Inr (list_ex (between u v) (user_friendships db))"
  "result_of (update_friend_request_status rid status ts) db = Inr ()"
  "result_of (remove_user_block u v) db = Inr (is_user_blocked u v db)"
  by (simp_all add: state_after_def result_of_def remove_friendship_def update_friend_request_status_def
      remove_user_block_def)

subsection \<open>Every transaction keeps the tables consistent\<close>

lemma friendships_ok_append:
  assumes "friendships_ok rs" "u \<noteq> []" "v \<noteq> []" "u \<noteq> v" "pair_of (ordered_row u v ts) \<notin> set (map pair_of rs)"
  shows "friendships_ok (rs @ [ordered_row u v ts])"
  using assms by (auto simp: friendships_ok_def ordered_row_def min_def max_def)

lemma friendships_ok_filter: "friendships_ok rs \<Longrightarrow> friendships_ok (filter P rs)"
  by (auto simp: friendships_ok_def distinct_map_filter)

lemma keeps_create_friendship: "keeps friends_ok (create_friendship u v ts)"
proof (cases "u = [] \<or> v = [] \<or> u = v")
  case False
  then have "u \<noteq> []" "v \<noteq> []" "u \<noteq> v" by auto
  then show ?thesis
    by (simp add: keeps_def create_friendship_ok(2) friends_ok_def friendships_ok_append)
qed (simp add: keeps_def create_friendship_fails)

lemma keeps_create_request: "keeps friends_ok (create_friend_request fid s t msg ts)"
  unfolding keeps_def
proof (intro allI impI)
  fix db assume "friends_ok db"
  then show "friends_ok (state_after (create_friend_request fid s t msg ts) db)"
    using create_request_after [of fid s t msg ts db] by (auto simp: friends_ok_def requests_ok_def)
qed

lemma keeps_create_block: "keeps friends_ok (create_user_block u v ts)"
  unfolding keeps_def
proof (intro allI impI)
  fix db assume "friends_ok db"
  then show "friends_ok (state_after (create_user_block u v ts) db)"
    using create_block_after [of u v ts db]
    by (auto simp: friends_ok_def blocks_ok_def is_user_blocked_def list_ex_iff)
qed

lemma keeps_remove_friendship: "keeps friends_ok (remove_friendship u v)"
  by (auto simp: keeps_def action_simps friends_ok_def friendships_ok_filter)

lemma keeps_remove_block: "keeps friends_ok (remove_user_block u v)"
  by (auto simp: keeps_def action_simps friends_ok_def blocks_ok_def distinct_map_filter)

lemma requests_ok_map:
  assumes "requests_ok qs"
    and f: "\<And>q. request_id (f q) = request_id q" "\<And>q. sender_user_id (f q) = sender_user_id q"
      "\<And>q. rq_target_user_id (f q) = rq_target_user_id q"
    and "\<And>q. rq_status (f q) = rq_status q \<or> rq_status (f q) \<in> {FRIEND_REQUEST_ACCEPTED, FRIEND_REQUEST_REJECTED}"
  shows "requests_ok (map f qs)"
proof -
  have "rq_status (f q) \<in> {FRIEND_REQUEST_PENDING, FRIEND_REQUEST_ACCEPTED, FRIEND_REQUEST_REJECTED}" if "q \<in> set qs" for q
    using assms(1) assms(5) [of q] that by (auto simp: requests_ok_def)
  then show ?thesis using assms(1) by (simp add: requests_ok_def f comp_def)
qed

lemma keeps_update_status:
  assumes "status \<in> {FRIEND_REQUEST_ACCEPTED, FRIEND_REQUEST_REJECTED}"
  shows "keeps friends_ok (update_friend_request_status rid status ts)"
  unfolding keeps_def action_simps
proof (intro allI impI)
  fix db assume ok: "friends_ok db"
  have "requests_ok (map (\<lambda>r. if request_id r = rid then r\<lparr>rq_status := status, rq_updated_ts := ts\<rparr> else r)
      (friend_requests db))"
    using ok assms by (intro requests_ok_map) (auto simp: friends_ok_def)
  then show "friends_ok (db\<lparr>friend_requests := map (\<lambda>r. if request_id r = rid
      then r\<lparr>rq_status := status, rq_updated_ts := ts\<rparr> else r) (friend_requests db)\<rparr>)"
    using ok by (simp add: friends_ok_def)
qed

lemmas keeps_friends_ok [keeps_rules] = keeps_create_friendship keeps_create_request keeps_create_block
  keeps_remove_friendship keeps_remove_block

text \<open>
  Each of these is one transaction.  Handler calls of several clients interleave between
  transactions, so a sequence of transactions covers every interleaving.
\<close>

datatype store_op =
    CreateFriendship string string int
  | RemoveFriendship string string
  | CreateRequest string string string "string option" int
  | AnswerRequest string bool int
  | CreateBlock string string int
  | RemoveBlock string string

fun store_step :: "friends_db \<Rightarrow> store_op \<Rightarrow> friends_db" where
  "store_step db (CreateFriendship u v ts) = state_after (create_friendship u v ts) db"
| "store_step db (RemoveFriendship u v) = state_after (remove_friendship u v) db"
| "store_step db (CreateRequest fid s t msg ts) = state_after (create_friend_request fid s t msg ts) db"
| "store_step db (AnswerRequest rid accept ts) = state_after (update_friend_request_status rid
     (if accept then FRIEND_REQUEST_ACCEPTED else FRIEND_REQUEST_REJECTED) ts) db"
| "store_step db (CreateBlock u v ts) = state_after (create_user_block u v ts) db"
| "store_step db (RemoveBlock u v) = state_after (remove_user_block u v) db"

interpretation friends_run: stateful store_step friends_ok
proof
  fix db x assume "friends_ok db"
  then show "friends_ok (store_step db x)"
    by (cases x) (auto intro: keepsD keeps_friends_ok keeps_update_status)
qed

section \<open>Handler calls\<close>

lemma store_simps [action_simps]:
  "result_of (store m) h = result_of m (fdb h)"
  "state_after (store m) h = h\<lparr>fdb := state_after m (fdb h)\<rparr>"
  "result_of (query f) h = Inr (f (fdb h))"
  "state_after (query f) h = h"
  by (simp_all add: result_of_def state_after_def store_def query_def readA_def split: prod.splits)

lemma or_internal_error_simps [action_simps]:
  "state_after (or_internal_error m) h = state_after m h"
  "result_of (or_internal_error m) h =
     (case result_of m h of Inl e \<Rightarrow> Inl (if is_SynapseError e then e else SynapseError 500) | Inr x \<Rightarrow> Inr x)"
  by (simp_all add: result_of_def state_after_def or_internal_error_def split: prod.splits sum.splits)

lemma unawaited_simps [action_simps]:
  "result_of (unawaited m) h = Inr ()" "state_after (unawaited m) h = h"
  by (simp_all add: unawaited_def action_simps)

lemma requester_unhashable [action_simps]: "requester_hash r = Inl TypeErr"
  by (simp add: requester_hash_def requester_types_def)

lemma guardR_cases: "(case guardR b e of Inl e' \<Rightarrow> f e' | Inr x \<Rightarrow> g x) = (if b then g () else f e)"
  by (simp add: guardR_def)

lemma keeps_store [keeps_rules]: "keeps P m \<Longrightarrow> keeps (\<lambda>h. P (fdb h)) (store m)"
  by (simp add: keeps_def action_simps)

lemma keeps_query [keeps_rules]: "keeps P (query f)"
  by (simp add: keeps_def action_simps)

lemma keeps_unawaited [keeps_rules]: "keeps P (unawaited m)"
  by (simp add: keeps_def action_simps)

lemma keeps_or_internal_error [keeps_rules]: "keeps P m \<Longrightarrow> keeps P (or_internal_error m)"
  by (simp add: keeps_def action_simps)

lemma keeps_friends_call: "keeps (\<lambda>h. friends_ok (fdb h)) (friends_call ipv6 x)"
proof (cases x)
  case (Send p time fid r target msg t1 t2)
  then show ?thesis
    by (cases target; simp add: send_friend_request_def; intro keeps_rules)
next
  case (Respond r rid accept t1 t2)
  then show ?thesis
    by (simp add: respond_to_friend_request_def Let_def split: option.split)
      (auto simp: Let_def intro!: keeps_rules keeps_update_status split: option.split)
next
  case (Remove r friend)
  then show ?thesis
    by (cases friend; simp add: remove_friend_def; intro keeps_rules)
next
  case (Block r target ts)
  then show ?thesis
    by (cases target; simp add: block_user_def; intro keeps_rules)
next
  case (Unblock r target)
  then show ?thesis
    by (cases target; simp add: unblock_user_def; intro keeps_rules)
qed

interpretation handler_run: stateful "friends_step ipv6" "\<lambda>h. friends_ok (fdb h)" for ipv6
  by unfold_locales (simp add: friends_step_def keepsD [OF keeps_friends_call])

lemma new_handler_ok: "friends_ok (fdb (new_friends_handler n w))"
  by (simp add: new_friends_handler_def friends_ok_empty)

subsection \<open>What each call does to the tables\<close>

lemma send_after:
  "fdb (state_after (send_friend_request ipv6 p time fid r target msg t1 t2) h) = fdb h \<or>
   (\<exists>t. target = JStr t \<and> fdb (state_after (send_friend_request ipv6 p time fid r target msg t1 t2) h) =
      (fdb h)\<lparr>friend_requests := friend_requests (fdb h) @
        [\<lparr>request_id = fid, sender_user_id = user_of r, rq_target_user_id = t, rq_message = msg,
          rq_status = FRIEND_REQUEST_PENDING, rq_created_ts = t1, rq_updated_ts = t1\<rparr>]\<rparr>)"
proof (cases target)
  case (JStr t)
  show ?thesis
    using create_request_after [of fid "user_of r" t msg t1 "fdb h"]
    by (auto simp: send_friend_request_def JStr action_simps guardR_def split: sum.splits option.splits)
qed (auto simp: send_friend_request_def action_simps validate_user_id_def guardR_def split: sum.splits)

lemma respond_after:
  assumes "requests_ok (friend_requests (fdb h))"
  shows "fdb (state_after (respond_to_friend_request r rid accept t1 t2) h) = fdb h \<or>
   (\<exists>q\<in>set (friend_requests (fdb h)). request_id q = rid \<and> rq_target_user_id q = user_of r \<and>
      rq_status q = FRIEND_REQUEST_PENDING \<and>
      friend_requests (fdb (state_after (respond_to_friend_request r rid accept t1 t2) h)) =
        map (\<lambda>q. if request_id q = rid then q\<lparr>rq_status := (if accept then FRIEND_REQUEST_ACCEPTED
          else FRIEND_REQUEST_REJECTED), rq_updated_ts := t1\<rparr> else q) (friend_requests (fdb h)) \<and>
      user_friendships (fdb (state_after (respond_to_friend_request r rid accept t1 t2) h)) =
        (if accept \<and> pair_of (ordered_row (sender_user_id q) (user_of r) t2) \<notin> set (map pair_of (user_friendships (fdb h)))
         then user_friendships (fdb h) @ [ordered_row (sender_user_id q) (user_of r) t2]
         else user_friendships (fdb h)) \<and>
      user_blocks (fdb (state_after (respond_to_friend_request r rid accept t1 t2) h)) = user_blocks (fdb h))"
proof (cases "get_friend_request_by_id rid (fdb h)")
  case None
  then show ?thesis by (simp add: respond_to_friend_request_def action_simps)
next
  case (Some q)
  then have q: "q \<in> set (friend_requests (fdb h))" "request_id q = rid"
    by (auto simp: get_friend_request_by_id_def find_Some_iff)
  then have n: "sender_user_id q \<noteq> []" "rq_target_user_id q \<noteq> []" "sender_user_id q \<noteq> rq_target_user_id q"
    using assms by (auto simp: requests_ok_def)
  show ?thesis
  proof (cases "rq_target_user_id q = user_of r \<and> rq_status q = FRIEND_REQUEST_PENDING")
    case False
    then show ?thesis
      by (auto simp: respond_to_friend_request_def action_simps Some guardR_def)
  next
    case True
    then show ?thesis
      using q n by (intro disjI2 bexI [of _ q])
        (auto simp: respond_to_friend_request_def action_simps Some Let_def create_friendship_ok)
  qed
qed

lemma other_calls_after:
  "set (user_friendships (fdb (state_after (remove_friend ipv6 r target) h))) \<subseteq> set (user_friendships (fdb h))"
  "friend_requests (fdb (state_after (remove_friend ipv6 r target) h)) = friend_requests (fdb h)"
  "set (user_friendships (fdb (state_after (block_user ipv6 r target ts) h))) \<subseteq> set (user_friendships (fdb h))"
  "friend_requests (fdb (state_after (block_user ipv6 r target ts) h)) = friend_requests (fdb h)"
  "user_friendships (fdb (state_after (unblock_user ipv6 r target) h)) = user_friendships (fdb h)"
  "friend_requests (fdb (state_after (unblock_user ipv6 r target) h)) = friend_requests (fdb h)"
proof -
  have cb: "user_friendships (state_after (create_user_block u v ts) db) = user_friendships db"
    "friend_requests (state_after (create_user_block u v ts) db) = friend_requests db" for u v db
    using create_block_after [of u v ts db] by auto
  show "set (user_friendships (fdb (state_after (remove_friend ipv6 r target) h))) \<subseteq> set (user_friendships (fdb h))"
    "friend_requests (fdb (state_after (remove_friend ipv6 r target) h)) = friend_requests (fdb h)"
    by (cases target; auto simp: remove_friend_def action_simps guardR_def)+
  show "user_friendships (fdb (state_after (unblock_user ipv6 r target) h)) = user_friendships (fdb h)"
    "friend_requests (fdb (state_after (unblock_user ipv6 r target) h)) = friend_requests (fdb h)"
    by (cases target; auto simp: unblock_user_def action_simps guardR_def)+
  show "set (user_friendships (fdb (state_after (block_user ipv6 r target ts) h))) \<subseteq> set (user_friendships (fdb h))"
    "friend_requests (fdb (state_after (block_user ipv6 r target ts) h)) = friend_requests (fdb h)"
    by (cases target; auto simp: block_user_def action_simps guardR_def cb split: sum.splits)+
qed

subsection \<open>Consent\<close>

definition asked :: "friends_op set \<Rightarrow> friend_request \<Rightarrow> bool" where
  "asked H q \<longleftrightarrow> (\<exists>p time r msg t1 t2. Send p time (request_id q) r (JStr (rq_target_user_id q)) msg t1 t2 \<in> H \<and>
     user_of r = sender_user_id q)"

definition agreed_to :: "friends_op set \<Rightarrow> friend_request \<Rightarrow> bool" where
  "agreed_to H q \<longleftrightarrow> (\<exists>r t1 t2. Respond r (request_id q) True t1 t2 \<in> H \<and> user_of r = rq_target_user_id q)"

definition consented :: "friends_op set \<Rightarrow> friends_db \<Rightarrow> bool" where
  "consented H db \<longleftrightarrow>
     (\<forall>q\<in>set (friend_requests db). asked H q \<and> (rq_status q = FRIEND_REQUEST_ACCEPTED \<longrightarrow> agreed_to H q)) \<and>
     (\<forall>f\<in>set (user_friendships db). \<exists>q\<in>set (friend_requests db). rq_status q = FRIEND_REQUEST_ACCEPTED \<and>
        between (sender_user_id q) (rq_target_user_id q) f)"

lemma history_mono: "asked H q \<Longrightarrow> H \<subseteq> H' \<Longrightarrow> asked H' q" "agreed_to H q \<Longrightarrow> H \<subseteq> H' \<Longrightarrow> agreed_to H' q"
  unfolding asked_def agreed_to_def by blast+

lemma consented_fewer:
  assumes "consented H db" and "H \<subseteq> H'"
    and "set (user_friendships db') \<subseteq> set (user_friendships db)" "friend_requests db' = friend_requests db"
  shows "consented H' db'"
proof -
  have "asked H' q \<and> (rq_status q = FRIEND_REQUEST_ACCEPTED \<longrightarrow> agreed_to H' q)"
    if "q \<in> set (friend_requests db)" for q
    using assms(1) that history_mono [OF _ assms(2)] by (auto simp: consented_def)
  then show ?thesis using assms(1,3) unfolding consented_def assms(4) by blast
qed

lemma consented_answer:
  assumes c: "consented H db" and ok: "requests_ok (friend_requests db)"
    and q: "q \<in> set (friend_requests db)" "request_id q = rid" "rq_status q = FRIEND_REQUEST_PENDING"
    and yes: "accept \<Longrightarrow> agreed_to H' q" and H: "H \<subseteq> H'"
    and req: "friend_requests db' = map (\<lambda>q. if request_id q = rid then q\<lparr>rq_status := (if accept then FRIEND_REQUEST_ACCEPTED
          else FRIEND_REQUEST_REJECTED), rq_updated_ts := t1\<rparr> else q) (friend_requests db)"
    and fr: "\<And>f. f \<in> set (user_friendships db') \<Longrightarrow> f \<in> set (user_friendships db) \<or>
      (accept \<and> between (sender_user_id q) (rq_target_user_id q) f)"
  shows "consented H' db'"
proof -
  define upd where "upd q = (if request_id q = rid then q\<lparr>rq_status := (if accept then FRIEND_REQUEST_ACCEPTED
          else FRIEND_REQUEST_REJECTED), rq_updated_ts := t1\<rparr> else q)" for q :: friend_request
  have set': "set (friend_requests db') = upd ` set (friend_requests db)" by (simp add: req upd_def [abs_def])
  have same: "q' = q" if "q' \<in> set (friend_requests db)" "request_id q' = rid" for q'
    using ok q(1,2) that by (auto simp: requests_ok_def distinct_map inj_on_def)
  have u: "request_id (upd q') = request_id q'" "sender_user_id (upd q') = sender_user_id q'"
    "rq_target_user_id (upd q') = rq_target_user_id q'" for q' by (auto simp: upd_def)
  have hist: "asked H' (upd q') \<and> (rq_status (upd q') = FRIEND_REQUEST_ACCEPTED \<longrightarrow> agreed_to H' (upd q'))"
    if q': "q' \<in> set (friend_requests db)" for q'
  proof (cases "request_id q' = rid")
    case True
    then have "q' = q" using same q' by simp
    then show ?thesis using c q' yes history_mono [OF _ H] True
      by (auto simp: consented_def asked_def agreed_to_def u upd_def)
  next
    case False
    then have "upd q' = q'" by (simp add: upd_def)
    then show ?thesis using c q' history_mono [OF _ H] by (auto simp: consented_def)
  qed
  have cover: "\<exists>q'\<in>set (friend_requests db'). rq_status q' = FRIEND_REQUEST_ACCEPTED \<and>
      between (sender_user_id q') (rq_target_user_id q') f" if f: "f \<in> set (user_friendships db')" for f
    using fr [OF f]
  proof
    assume "f \<in> set (user_friendships db)"
    then obtain q' where q': "q' \<in> set (friend_requests db)" "rq_status q' = FRIEND_REQUEST_ACCEPTED"
      "between (sender_user_id q') (rq_target_user_id q') f" using c by (auto simp: consented_def)
    then have "request_id q' \<noteq> rid" using same q(3) by auto
    then have "upd q' = q'" by (simp add: upd_def)
    then show ?thesis using q' set' by (metis imageI)
  next
    assume "accept \<and> between (sender_user_id q) (rq_target_user_id q) f"
    then have "rq_status (upd q) = FRIEND_REQUEST_ACCEPTED \<and> between (sender_user_id (upd q)) (rq_target_user_id (upd q)) f"
      using q(2) by (simp add: u) (simp add: upd_def)
    then show ?thesis using q(1) set' by blast
  qed
  have "asked H' q' \<and> (rq_status q' = FRIEND_REQUEST_ACCEPTED \<longrightarrow> agreed_to H' q')"
    if "q' \<in> set (friend_requests db')" for q'
    using that hist unfolding set' by (elim imageE) simp
  then show ?thesis unfolding consented_def using cover by simp
qed

lemma between_ordered_row: "between u v (ordered_row u v ts)"
  by (auto simp: between_def ordered_row_def min_def max_def)

lemma consented_step:
  assumes c: "consented H (fdb h)" and ok: "friends_ok (fdb h)" and x: "x \<in> H'" "H \<subseteq> H'"
  shows "consented H' (fdb (friends_step ipv6 h x))"
proof (cases x)
  case (Send p time fid r target msg t1 t2)
  show ?thesis using send_after [of ipv6 p time fid r target msg t1 t2 h]
  proof (elim disjE exE conjE)
    fix t
    let ?q = "\<lparr>request_id = fid, sender_user_id = user_of r, rq_target_user_id = t, rq_message = msg,
          rq_status = FRIEND_REQUEST_PENDING, rq_created_ts = t1, rq_updated_ts = t1\<rparr>"
    assume t: "target = JStr t" and e: "fdb (state_after (send_friend_request ipv6 p time fid r target msg t1 t2) h) =
      (fdb h)\<lparr>friend_requests := friend_requests (fdb h) @ [?q]\<rparr>"
    have "asked H' ?q" using x(1) unfolding asked_def Send t friend_request.simps by blast
    moreover have "consented H' (fdb h)" using c x(2) by (rule consented_fewer) simp_all
    ultimately show ?thesis by (auto simp: friends_step_def Send e consented_def)
  qed (use c x(2) in \<open>auto simp: friends_step_def Send intro: consented_fewer\<close>)
next
  case (Respond r rid accept t1 t2)
  have rok: "requests_ok (friend_requests (fdb h))" using ok by (simp add: friends_ok_def)
  show ?thesis using respond_after [OF rok, of r rid accept t1 t2]
  proof (elim disjE bexE conjE)
    fix q
    assume q: "q \<in> set (friend_requests (fdb h))" "request_id q = rid" "rq_target_user_id q = user_of r"
      "rq_status q = FRIEND_REQUEST_PENDING"
      and req: "friend_requests (fdb (state_after (respond_to_friend_request r rid accept t1 t2) h)) =
        map (\<lambda>q. if request_id q = rid then q\<lparr>rq_status := (if accept then FRIEND_REQUEST_ACCEPTED
          else FRIEND_REQUEST_REJECTED), rq_updated_ts := t1\<rparr> else q) (friend_requests (fdb h))"
      and fr: "user_friendships (fdb (state_after (respond_to_friend_request r rid accept t1 t2) h)) =
        (if accept \<and> pair_of (ordered_row (sender_user_id q) (user_of r) t2) \<notin> set (map pair_of (user_friendships (fdb h)))
         then user_friendships (fdb h) @ [ordered_row (sender_user_id q) (user_of r) t2]
         else user_friendships (fdb h))"
    have yes: "agreed_to H' q" if accept using x(1) q(2,3) that by (auto simp: agreed_to_def Respond)
    show ?thesis unfolding friends_step_def Respond friends_call.simps
      by (rule consented_answer [OF c rok q(1,2,4) yes x(2) req])
        (auto simp: fr q(3) between_ordered_row split: if_splits)
  qed (use c x(2) in \<open>auto simp: friends_step_def Respond intro: consented_fewer\<close>)
qed (simp_all add: friends_step_def other_calls_after consented_fewer [OF c x(2)])

lemma consented_run:
  "consented (set ops) (fdb (foldl (friends_step ipv6) (new_friends_handler n w) ops))"
proof (induction ops rule: rev_induct)
  case Nil
  show ?case by (simp add: consented_def new_friends_handler_def empty_friends_db_def)
next
  case (snoc x ops)
  have "friends_ok (fdb (foldl (friends_step ipv6) (new_friends_handler n w) ops))"
    by (rule handler_run.inv_run [OF new_handler_ok])
  with snoc.IH have "consented (set (ops @ [x])) (fdb (friends_step ipv6 (foldl (friends_step ipv6) (new_friends_handler n w) ops) x))"
    by (rule consented_step) auto
  then show ?case by simp
qed

subsection \<open>Blocks\<close>

lemma blocked_step:
  assumes "is_user_blocked u t (fdb h)" and "\<not> (\<exists>r. x = Unblock r (JStr t) \<and> user_of r = u)"
  shows "is_user_blocked u t (fdb (friends_step ipv6 h x))"
proof (cases x)
  case (Send p time fid r target msg t1 t2)
  then show ?thesis using assms(1) send_after [of ipv6 p time fid r target msg t1 t2 h]
    by (auto simp: friends_step_def is_user_blocked_def)
next
  case (Respond r rid accept t1 t2)
  have "user_blocks (state_after (create_friendship a b ts) db) = user_blocks db" for a b ts db
    using create_friendship_ok(2) create_friendship_fails by (cases "a = [] \<or> b = [] \<or> a = b") auto
  then show ?thesis using assms(1)
    by (auto simp: Respond friends_step_def respond_to_friend_request_def action_simps is_user_blocked_def Let_def
        guardR_def split: option.splits sum.splits)
next
  case (Remove r target)
  then show ?thesis using assms(1)
    by (cases target) (auto simp: friends_step_def remove_friend_def action_simps guardR_def is_user_blocked_def)
next
  case (Block r target ts)
  have cb: "is_user_blocked u t (state_after (create_user_block a b ts) db)" if "is_user_blocked u t db" for a b db
    using create_block_after [of a b ts db] that by (auto simp: is_user_blocked_def)
  show ?thesis using assms(1) unfolding Block friends_step_def friends_call.simps
    by (cases target) (auto simp: block_user_def action_simps guardR_def intro!: cb split: sum.splits,
      auto simp: is_user_blocked_def)
next
  case (Unblock r target)
  then show ?thesis using assms
    by (cases target) (auto simp: friends_step_def unblock_user_def action_simps guardR_def is_user_blocked_def list_ex_iff)
qed

lemma blocked_run:
  assumes "is_user_blocked u t (fdb h)" and "\<forall>x\<in>set ops. \<not> (\<exists>r. x = Unblock r (JStr t) \<and> user_of r = u)"
  shows "is_user_blocked u t (fdb (foldl (friends_step ipv6) h ops))"
  using assms
proof (induction ops arbitrary: h)
  case (Cons x ops)
  then show ?case by (simp add: blocked_step)
qed simp

lemma send_to_blocker_fails:
  assumes "is_user_blocked t (user_of r) (fdb h)"
  shows "result_of (send_friend_request ipv6 p time fid r (JStr t) msg t1 t2) h \<in> {Inl (SynapseError 400), Inl (SynapseError 403)}"
    and "state_after (send_friend_request ipv6 p time fid r (JStr t) msg t1 t2) h = h"
  using assms by (auto simp: send_friend_request_def action_simps guardR_def validate_user_id_def split: sum.splits)

lemma block_user_after:
  assumes "result_of (block_user ipv6 r (JStr t) ts) h = Inr d" and ok: "friends_ok (fdb h)"
  shows "is_user_blocked (user_of r) t (fdb (state_after (block_user ipv6 r (JStr t) ts) h))"
    and "get_friendship (user_of r) t (fdb (state_after (block_user ipv6 r (JStr t) ts) h)) = None"
proof -
  define db1 where "db1 = (if get_friendship (user_of r) t (fdb h) \<noteq> None
    then state_after (remove_friendship (user_of r) t) (fdb h) else fdb h)"
  have none: "get_friendship (user_of r) t db1 = None"
    by (auto simp: db1_def action_simps get_friendship_def find_None_iff)
  have v: "is_valid_user ipv6 (JStr t)" "user_of r \<noteq> t"
    using assms(1) by (auto simp: block_user_def action_simps guardR_def split: if_splits)
  have run: "fdb (state_after (block_user ipv6 r (JStr t) ts) h) = state_after (create_user_block (user_of r) t ts) db1"
    "result_of (create_user_block (user_of r) t ts) db1 = Inr ()"
    using assms(1) v by (auto simp: block_user_def action_simps db1_def split: if_splits sum.splits)
  have fr: "user_friendships (state_after (create_user_block (user_of r) t ts) db1) = user_friendships db1"
    using create_block_after [of "user_of r" t ts db1] by auto
  show "get_friendship (user_of r) t (fdb (state_after (block_user ipv6 r (JStr t) ts) h)) = None"
    using none unfolding run(1) get_friendship_def fr .
  show "is_user_blocked (user_of r) t (fdb (state_after (block_user ipv6 r (JStr t) ts) h))"
    using run(2) unfolding run(1)
    by (auto simp: create_user_block_def action_simps insert_user_block_def state_after_def [of "insert_user_block b" for b]
        result_of_def [of "insert_user_block b" for b] is_user_blocked_def list_ex_iff split: if_splits)
qed

subsection \<open>Answers and lists\<close>

lemma find_map_id:
  "find P xs = Some q \<Longrightarrow> (\<And>x. P (f x) = P x) \<Longrightarrow> find P (map f xs) = Some (f q)"
  by (induction xs) (auto split: if_splits)

lemma answered_request:
  assumes "get_friend_request_by_id rid db = Some q"
  shows "get_friend_request_by_id rid (state_after (update_friend_request_status rid status ts) db) =
    Some (q\<lparr>rq_status := status, rq_updated_ts := ts\<rparr>)"
proof -
  have "request_id q = rid" using assms by (auto simp: get_friend_request_by_id_def find_Some_iff)
  then show ?thesis
    using find_map_id [OF assms [unfolded get_friend_request_by_id_def]]
    by (simp add: get_friend_request_by_id_def action_simps)
qed

lemma friend_requests_create_friendship: "friend_requests (state_after (create_friendship u v ts) db) = friend_requests db"
  using create_friendship_ok(2) create_friendship_fails by (cases "u = [] \<or> v = [] \<or> u = v") auto

lemma create_friendship_found:
  assumes "u \<noteq> []" "v \<noteq> []" "u \<noteq> v"
  shows "get_friendship u v (state_after (create_friendship u v ts) db) \<noteq> None"
proof -
  have "\<exists>f\<in>set (user_friendships (state_after (create_friendship u v ts) db)). between u v f"
  proof (cases "pair_of (ordered_row u v ts) \<in> set (map pair_of (user_friendships db))")
    case True
    then obtain f where "f \<in> set (user_friendships db)" "pair_of f = pair_of (ordered_row u v ts)" by auto
    moreover have "between u v f"
      using calculation(2) between_ordered_row [of u v ts] by (auto simp: pair_of_def between_def)
    ultimately show ?thesis using True by (auto simp: create_friendship_ok [OF assms])
  next
    case False
    then show ?thesis using between_ordered_row by (simp add: create_friendship_ok [OF assms])
  qed
  then show ?thesis using assms by (auto simp: get_friendship_def find_None_iff)
qed

text \<open>
  The memoised friend list is looked up by a requester, which has no hash; the list it memoises
  reads keys that the rows it gets do not have.
\<close>

lemma friends_list_raises: "result_of (get_friends_list get_profile r) h = Inl TypeErr"
  by (simp add: get_friends_list_def action_simps)

lemma friends_list_body_raises:
  assumes "get_user_friendships (user_of r) 100 0 (fdb h) = Inr fs" and "fs \<noteq> []"
  shows "result_of (get_friends_list_body get_profile r) h = Inl KeyErr"
proof -
  obtain f fs' where f: "fs = f # fs'" using assms(2) by (cases fs) auto
  then obtain row where "f = friend_entry (user_of r) row"
    using assms(1) by (auto simp: get_user_friendships_def split: if_splits)
  then show ?thesis
    using assms(1) by (simp add: get_friends_list_body_def action_simps f friend_info_def dict_item_def friend_entry_def)
qed

text \<open>Nothing of the rate limiter is reached by a request.\<close>

lemma rate_limit_has_no_effect:
  "result_of (send_friend_request ipv6 p time fid r target msg t1 t2)
     (h\<lparr>rate_limit_cache := c, max_requests_per_hour := m, rate_limit_window := w\<rparr>) =
   result_of (send_friend_request ipv6 p' time' fid r target msg t1 t2) h"
  by (cases target) (auto simp: send_friend_request_def action_simps split: sum.split)

text \<open>A request that was answered stands in the way of every later one by the same sender.\<close>

lemma answered_request_blocks_later_ones:
  assumes "q \<in> set (friend_requests (fdb h))" "sender_user_id q = user_of r" "rq_target_user_id q = t"
  shows "result_of (send_friend_request ipv6 p time fid r (JStr t) msg t1 t2) h \<in>
      {Inl (SynapseError 400), Inl (SynapseError 403), Inl (SynapseError 409), Inl (SynapseError 500)}"
    and "fdb (state_after (send_friend_request ipv6 p time fid r (JStr t) msg t1 t2) h) = fdb h"
proof -
  have ins: "result_of (insert_friend_request \<lparr>request_id = fid, sender_user_id = user_of r, rq_target_user_id = t,
      rq_message = msg, rq_status = FRIEND_REQUEST_PENDING, rq_created_ts = t1, rq_updated_ts = t1\<rparr>) (fdb h) = Inl GenericException"
    "state_after (insert_friend_request \<lparr>request_id = fid, sender_user_id = user_of r, rq_target_user_id = t,
      rq_message = msg, rq_status = FRIEND_REQUEST_PENDING, rq_created_ts = t1, rq_updated_ts = t1\<rparr>) (fdb h) = fdb h"
    using assms by (auto simp: insert_friend_request_def result_of_def state_after_def list_ex_iff)
  show "result_of (send_friend_request ipv6 p time fid r (JStr t) msg t1 t2) h \<in>
      {Inl (SynapseError 400), Inl (SynapseError 403), Inl (SynapseError 409), Inl (SynapseError 500)}"
    "fdb (state_after (send_friend_request ipv6 p time fid r (JStr t) msg t1 t2) h) = fdb h"
    by (auto simp: send_friend_request_def action_simps guardR_def validate_user_id_def create_friend_request_def ins
        split: sum.splits)
qed

section \<open>Properties\<close>

text \<open>
  C33. A friendship needs the consent of both users: after any calls from an empty store, if two
  users are friends, then one of them sent the other a request and the other accepted it.  No
  configuration changes this: the handler reads the option \<open>friends.requests.auto_accept\<close> nowhere,
  although the documentation says that it makes requests accepted by themselves.
\<close>

theorem friendship_needs_consent:
  assumes "get_friendship u v (fdb (foldl (friends_step ipv6) (new_friends_handler n w) ops)) \<noteq> None"
  shows "\<exists>q. {sender_user_id q, rq_target_user_id q} = {u, v} \<and> asked (set ops) q \<and> agreed_to (set ops) q"
proof -
  let ?db = "fdb (foldl (friends_step ipv6) (new_friends_handler n w) ops)"
  obtain f where f: "f \<in> set (user_friendships ?db)" "between u v f"
    using assms by (auto simp: get_friendship_def dest!: find_SomeD split: if_splits)
  then obtain q where q: "q \<in> set (friend_requests ?db)" "rq_status q = FRIEND_REQUEST_ACCEPTED"
    "between (sender_user_id q) (rq_target_user_id q) f"
    using consented_run [of ops ipv6 n w] by (auto simp: consented_def)
  have "{sender_user_id q, rq_target_user_id q} = {u, v}" using f(2) q(3) by (auto simp: between_def)
  then show ?thesis using q consented_run [of ops ipv6 n w] by (auto simp: consented_def)
qed

abbreviation no_ipv6 :: "string \<Rightarrow> bool" where "no_ipv6 s \<equiv> False"

definition client :: "string \<Rightarrow> friends_requester" where
  "client name = \<lparr>req_user = \<lparr>ds_localpart = name, ds_domain = ''s''\<rparr>, access_token_id = None, is_guest = False,
     scope = [], shadow_banned = False, device_id = None, req_app_service = None,
     req_authenticated_entity = ''@'' @ name @ '':s''\<rparr>"

definition befriend :: "friends_op list" where
  "befriend = [Send None 0 ''r1'' (client ''a'') (JStr ''@b:s'') None 1 1, Respond (client ''b'') ''r1'' True 2 2]"

theorem friendship_needs_consent_witness:
  "get_friendship ''@b:s'' ''@a:s'' (fdb (foldl (friends_step no_ipv6) (new_friends_handler 10 3600) befriend)) \<noteq> None \<and>
   (\<exists>q. {sender_user_id q, rq_target_user_id q} = {''@b:s'', ''@a:s''} \<and> asked (set befriend) q \<and> agreed_to (set befriend) q)"
proof -
  have *: "get_friendship ''@b:s'' ''@a:s'' (fdb (foldl (friends_step no_ipv6) (new_friends_handler 10 3600) befriend)) \<noteq> None"
    by code_simp
  show ?thesis using * friendship_needs_consent [OF *] by blast
qed

text \<open>
  C34. A block holds until it is lifted: after \<open>block_user\<close> succeeded the two users are not friends,
  and after any further calls in which the blocker does not lift the block every request of the
  blocked user to the blocker is refused and changes nothing.
\<close>

theorem block_holds:
  assumes "friends_ok (fdb h)" and "result_of (block_user ipv6 r (JStr t) ts) h = Inr d"
    and "\<forall>x\<in>set ops. \<not> (\<exists>r'. x = Unblock r' (JStr t) \<and> user_of r' = user_of r)"
    and "user_of r' = t"
  defines "h1 \<equiv> state_after (block_user ipv6 r (JStr t) ts) h"
  defines "h2 \<equiv> foldl (friends_step ipv6) h1 ops"
  shows "get_friendship (user_of r) t (fdb h1) = None \<and>
    result_of (send_friend_request ipv6 p time fid r' (JStr (user_of r)) msg t1 t2) h2
      \<in> {Inl (SynapseError 400), Inl (SynapseError 403)} \<and>
    state_after (send_friend_request ipv6 p time fid r' (JStr (user_of r)) msg t1 t2) h2 = h2"
proof -
  have "is_user_blocked (user_of r) (user_of r') (fdb h2)"
    unfolding h2_def h1_def assms(4) by (rule blocked_run [OF block_user_after(1) [OF assms(2,1)] assms(3)])
  then show ?thesis
    unfolding h1_def using block_user_after(2) [OF assms(2,1)] send_to_blocker_fails by blast
qed

theorem block_holds_witness:
  "let h = foldl (friends_step no_ipv6) (new_friends_handler 10 3600) befriend;
       h1 = state_after (block_user no_ipv6 (client ''a'') (JStr ''@b:s'') 3) h
   in ok (result_of (block_user no_ipv6 (client ''a'') (JStr ''@b:s'') 3) h) \<and>
      get_friendship ''@a:s'' ''@b:s'' (fdb h) \<noteq> None \<and>
      get_friendship ''@a:s'' ''@b:s'' (fdb h1) = None \<and>
      result_of (send_friend_request no_ipv6 None 0 ''r2'' (client ''b'') (JStr ''@a:s'') None 4 4) h1
        \<in> {Inl (SynapseError 400), Inl (SynapseError 403)}"
proof -
  let ?h = "foldl (friends_step no_ipv6) (new_friends_handler 10 3600) befriend"
  have f: "friends_ok (fdb ?h)" by (rule handler_run.inv_run [OF new_handler_ok])
  have r: "result_of (block_user no_ipv6 (client ''a'') (JStr ''@b:s'') 3) ?h =
      Inr [(''blocked'', JBool True), (''user_id'', JStr ''@b:s'')]" by code_simp
  have n: "get_friendship ''@a:s'' ''@b:s'' (fdb ?h) \<noteq> None" by code_simp
  have u: "user_of (client ''a'') = ''@a:s''" "user_of (client ''b'') = ''@b:s''" by code_simp+
  show ?thesis
    using block_holds [OF f r _ u(2), of "[]" None 0 "''r2''" None 4 4] n by (simp add: r u Let_def)
qed

text \<open>
  Answering a request addressed to the caller: a rejection is recorded and reported.  An
  acceptance is recorded and the friendship exists, but the caller is told of an internal error,
  since the handler then invalidates a cache by a requester, and requesters have no hash.
\<close>

theorem answering_a_request:
  assumes "friends_ok (fdb h)" and "get_friend_request_by_id rid (fdb h) = Some q"
    and "rq_target_user_id q = user_of r" and "rq_status q = FRIEND_REQUEST_PENDING"
  shows "result_of (respond_to_friend_request r rid False t1 t2) h =
      Inr [(''request_id'', JStr rid), (''status'', JStr FRIEND_REQUEST_REJECTED), (''accepted'', JBool False)] \<and>
    get_friend_request_by_id rid (fdb (state_after (respond_to_friend_request r rid False t1 t2) h)) =
      Some (q\<lparr>rq_status := FRIEND_REQUEST_REJECTED, rq_updated_ts := t1\<rparr>) \<and>
    result_of (respond_to_friend_request r rid True t1 t2) h = Inl (SynapseError 500) \<and>
    get_friend_request_by_id rid (fdb (state_after (respond_to_friend_request r rid True t1 t2) h)) =
      Some (q\<lparr>rq_status := FRIEND_REQUEST_ACCEPTED, rq_updated_ts := t1\<rparr>) \<and>
    get_friendship (sender_user_id q) (user_of r) (fdb (state_after (respond_to_friend_request r rid True t1 t2) h)) \<noteq> None"
proof -
  have "q \<in> set (friend_requests (fdb h))"
    using assms(2) by (auto simp: get_friend_request_by_id_def find_Some_iff)
  then have n: "sender_user_id q \<noteq> []" "user_of r \<noteq> []" "sender_user_id q \<noteq> user_of r"
    using assms(1,3) by (auto simp: friends_ok_def requests_ok_def)
  have no: "result_of (respond_to_friend_request r rid False t1 t2) h =
      Inr [(''request_id'', JStr rid), (''status'', JStr FRIEND_REQUEST_REJECTED), (''accepted'', JBool False)]"
    "fdb (state_after (respond_to_friend_request r rid False t1 t2) h) =
      state_after (update_friend_request_status rid FRIEND_REQUEST_REJECTED t1) (fdb h)"
    using assms(2,3,4) by (simp_all add: respond_to_friend_request_def action_simps Let_def)
  have yes: "result_of (respond_to_friend_request r rid True t1 t2) h = Inl (SynapseError 500)"
    "fdb (state_after (respond_to_friend_request r rid True t1 t2) h) =
      state_after (create_friendship (sender_user_id q) (user_of r) t2)
        (state_after (update_friend_request_status rid FRIEND_REQUEST_ACCEPTED t1) (fdb h))"
    using assms(2,3,4) by (simp_all add: respond_to_friend_request_def action_simps Let_def create_friendship_ok(1) [OF n])
  have by_id: "get_friend_request_by_id rid (state_after (create_friendship u v ts) db) = get_friend_request_by_id rid db" for u v ts db
    by (simp add: get_friend_request_by_id_def friend_requests_create_friendship)
  show ?thesis
    unfolding no yes by_id answered_request [OF assms(2)] using create_friendship_found [OF n] by simp
qed

theorem answering_a_request_witness:
  "result_of (respond_to_friend_request (client ''b'') ''r1'' True 2 2)
      (foldl (friends_step no_ipv6) (new_friends_handler 10 3600) (take 1 befriend)) = Inl (SynapseError 500)"
proof -
  let ?h = "foldl (friends_step no_ipv6) (new_friends_handler 10 3600) (take 1 befriend)"
  let ?q = "\<lparr>request_id = ''r1'', sender_user_id = ''@a:s'', rq_target_user_id = ''@b:s'', rq_message = None,
      rq_status = FRIEND_REQUEST_PENDING, rq_created_ts = 1, rq_updated_ts = 1\<rparr>"
  have f: "friends_ok (fdb ?h)" by (rule handler_run.inv_run [OF new_handler_ok])
  have q: "get_friend_request_by_id ''r1'' (fdb ?h) = Some ?q" by code_simp
  have u: "rq_target_user_id ?q = user_of (client ''b'')" "rq_status ?q = FRIEND_REQUEST_PENDING" by code_simp+
  show ?thesis using answering_a_request [OF f q u] by blast
qed

text \<open>
  A block does not reach the requests that are already pending: the blocker may still accept one,
  and the two are friends although one of them is blocked.
\<close>

lemma blocked_user_accepted:
  "let h = foldl (friends_step no_ipv6) (new_friends_handler 10 3600)
         [Send None 0 ''r1'' (client ''a'') (JStr ''@b:s'') None 1 1, Block (client ''b'') (JStr ''@a:s'') 2,
          Respond (client ''b'') ''r1'' True 3 3]
   in is_user_blocked ''@b:s'' ''@a:s'' (fdb h) \<and> get_friendship ''@a:s'' ''@b:s'' (fdb h) \<noteq> None"
  by code_simp

end
