(* ===== verification/Friends_Refinement.thy ===== *)
theory Friends_Refinement
  imports Friends_Props
begin

text \<open>
  What the queries of the friends store (\<open>storage/databases/main/friends.py\<close>) promise to their
  callers, as a specification on sets and maps without rows, and the proof that the queries on the
  tables refine it, results and errors included.  The constraints of the schema are not part of
  the specification: that no call runs into one unless the specification says so is what the checks
  of the queries achieve.
\<close>

section \<open>The specification\<close>

text \<open>Friendships as unordered pairs, for a sender and a target the id and status of the request, and
  who blocks whom.\<close>

record social =
  pals :: "string set set"
  requested :: "string \<times> string \<Rightarrow> (string \<times> string) option"
  barred :: "(string \<times> string) set"

definition nobody :: social where
  "nobody = \<lparr>pals = {}, requested = Map.empty, barred = {}\<rparr>"

datatype answer = Done | Found bool | Requested string

definition valid_pair :: "string \<Rightarrow> string \<Rightarrow> bool" where
  "valid_pair u v \<longleftrightarrow> u \<noteq> [] \<and> v \<noteq> [] \<and> u \<noteq> v"

text \<open>The result of an operation.\<close>

fun spec_result :: "social \<Rightarrow> store_op \<Rightarrow> answer result" where
  "spec_result a (CreateFriendship u v ts) = (if valid_pair u v then Inr Done else Inl (SynapseError 400))"
| "spec_result a (RemoveFriendship u v) = Inr (Found ({u, v} \<in> pals a))"
| "spec_result a (CreateRequest fid s t msg ts) =
     (if \<not> valid_pair s t then Inl (SynapseError 400)
      else case requested a (s, t) of
        Some (_, status) \<Rightarrow> Inl (SynapseError (if status = FRIEND_REQUEST_PENDING then 409 else 500))
      | None \<Rightarrow> if \<exists>p\<in>ran (requested a). fst p = fid then Inl (SynapseError 500) else Inr (Requested fid))"
| "spec_result a (AnswerRequest rid accept ts) = Inr Done"
| "spec_result a (CreateBlock u v ts) = (if valid_pair u v then Inr Done else Inl (SynapseError 400))"
| "spec_result a (RemoveBlock u v) = Inr (Found ((u, v) \<in> barred a))"

text \<open>Its effect; an operation that raises has none.\<close>

fun spec_effect :: "social \<Rightarrow> store_op \<Rightarrow> social" where
  "spec_effect a (CreateFriendship u v ts) = a\<lparr>pals := insert {u, v} (pals a)\<rparr>"
| "spec_effect a (RemoveFriendship u v) = a\<lparr>pals := pals a - {{u, v}}\<rparr>"
| "spec_effect a (CreateRequest fid s t msg ts) =
     a\<lparr>requested := (requested a)((s, t) \<mapsto> (fid, FRIEND_REQUEST_PENDING))\<rparr>"
| "spec_effect a (AnswerRequest rid accept ts) =
     a\<lparr>requested := map_option (\<lambda>(i, status). (i, if i \<noteq> rid then status
          else if accept then FRIEND_REQUEST_ACCEPTED else FRIEND_REQUEST_REJECTED)) \<circ> requested a\<rparr>"
| "spec_effect a (CreateBlock u v ts) = a\<lparr>barred := insert (u, v) (barred a)\<rparr>"
| "spec_effect a (RemoveBlock u v) = a\<lparr>barred := barred a - {(u, v)}\<rparr>"

definition spec_step :: "social \<Rightarrow> store_op \<Rightarrow> social" where
  "spec_step a x = (case spec_result a x of Inl _ \<Rightarrow> a | Inr _ \<Rightarrow> spec_effect a x)"

section \<open>The tables against the specification\<close>

fun store_result :: "friends_db \<Rightarrow> store_op \<Rightarrow> answer result" where
  "store_result db (CreateFriendship u v ts) = map_sum id (\<lambda>_. Done) (result_of (create_friendship u v ts) db)"
| "store_result db (RemoveFriendship u v) = map_sum id Found (result_of (remove_friendship u v) db)"
| "store_result db (CreateRequest fid s t msg ts) =
     map_sum id Requested (result_of (create_friend_request fid s t msg ts) db)"
| "store_result db (AnswerRequest rid accept ts) =
     map_sum id (\<lambda>_. Done) (result_of (update_friend_request_status rid
       (if accept then FRIEND_REQUEST_ACCEPTED else FRIEND_REQUEST_REJECTED) ts) db)"
| "store_result db (CreateBlock u v ts) = map_sum id (\<lambda>_. Done) (result_of (create_user_block u v ts) db)"
| "store_result db (RemoveBlock u v) = map_sum id Found (result_of (remove_user_block u v) db)"

definition friend_pair :: "friendship \<Rightarrow> string set" where
  "friend_pair r = {user1_id r, user2_id r}"

definition request_entry :: "friend_request \<Rightarrow> (string \<times> string) \<times> string \<times> string" where
  "request_entry q = ((sender_user_id q, rq_target_user_id q), (request_id q, rq_status q))"

definition requests_map :: "friend_request list \<Rightarrow> string \<times> string \<Rightarrow> (string \<times> string) option" where
  "requests_map qs = map_of (map request_entry qs)"

definition social_of :: "friends_db \<Rightarrow> social" where
  "social_of db = \<lparr>pals = friend_pair ` set (user_friendships db), requested = requests_map (friend_requests db),
     barred = (\<lambda>b. (blocker_user_id b, blocked_user_id b)) ` set (user_blocks db)\<rparr>"

lemma social_of_empty: "social_of empty_friends_db = nobody"
  by (simp add: social_of_def empty_friends_db_def nobody_def requests_map_def)

lemma friend_pair_between: "friend_pair r = {u, v} \<longleftrightarrow> between u v r"
  by (auto simp: friend_pair_def between_def doubleton_eq_iff)

lemma pals_iff: "{u, v} \<in> friend_pair ` set rs \<longleftrightarrow> list_ex (between u v) rs"
  by (auto simp: list_ex_iff image_iff simp flip: friend_pair_between)

lemma requests_map_iff:
  assumes "requests_ok qs"
  shows "requests_map qs (s, t) = Some (i, status) \<longleftrightarrow>
    (\<exists>q\<in>set qs. sender_user_id q = s \<and> rq_target_user_id q = t \<and> request_id q = i \<and> rq_status q = status)"
proof -
  have "map fst (map request_entry qs) = map (\<lambda>q. (sender_user_id q, rq_target_user_id q)) qs"
    by (simp add: request_entry_def)
  then have "distinct (map fst (map request_entry qs))" using assms by (simp only: requests_ok_def)
  then show ?thesis by (auto simp: requests_map_def request_entry_def image_iff)
qed

lemma requests_map_None:
  "requests_map qs (s, t) = None \<longleftrightarrow> (\<forall>q\<in>set qs. \<not> (sender_user_id q = s \<and> rq_target_user_id q = t))"
  by (auto simp: requests_map_def request_entry_def map_of_eq_None_iff image_iff)

lemma ids_requested:
  assumes "requests_ok qs"
  shows "(\<exists>p\<in>ran (requests_map qs). fst p = fid) \<longleftrightarrow> (\<exists>q\<in>set qs. request_id q = fid)"
  using requests_map_iff [OF assms] by (fastforce simp: ran_def)

subsection \<open>Each query refines its specification\<close>

lemma friends_refined:
  "store_result db (CreateFriendship u v ts) = spec_result (social_of db) (CreateFriendship u v ts)"
    "social_of (store_step db (CreateFriendship u v ts)) = spec_step (social_of db) (CreateFriendship u v ts)"
    "store_result db (RemoveFriendship u v) = spec_result (social_of db) (RemoveFriendship u v)"
    "social_of (store_step db (RemoveFriendship u v)) = spec_step (social_of db) (RemoveFriendship u v)"
proof -
  have row: "friend_pair (ordered_row u v ts) = {u, v}" by (auto simp: friend_pair_def ordered_row_def min_def max_def)
  have there: "insert {u, v} (friend_pair ` set (user_friendships db)) = friend_pair ` set (user_friendships db)"
    if in_table: "pair_of (ordered_row u v ts) \<in> set (map pair_of (user_friendships db))"
  proof -
    obtain r where r: "r \<in> set (user_friendships db)" "pair_of r = pair_of (ordered_row u v ts)" using in_table by auto
    then have "friend_pair r = {u, v}" using row by (simp add: pair_of_def friend_pair_def)
    then show ?thesis using r(1) by blast
  qed
  have "store_result db (CreateFriendship u v ts) = spec_result (social_of db) (CreateFriendship u v ts) \<and>
    social_of (store_step db (CreateFriendship u v ts)) = spec_step (social_of db) (CreateFriendship u v ts)"
  proof (cases "valid_pair u v")
    case True
    then have "u \<noteq> []" "v \<noteq> []" "u \<noteq> v" by (auto simp: valid_pair_def)
    then show ?thesis using True there row by (simp add: create_friendship_ok spec_step_def social_of_def)
  next
    case False
    then have "create_friendship u v ts = raiseA (SynapseError 400)" by (auto simp: valid_pair_def create_friendship_def)
    then show ?thesis using False by (simp add: action_simps spec_step_def)
  qed
  then show "store_result db (CreateFriendship u v ts) = spec_result (social_of db) (CreateFriendship u v ts)"
    "social_of (store_step db (CreateFriendship u v ts)) = spec_step (social_of db) (CreateFriendship u v ts)" by blast+
  show "store_result db (RemoveFriendship u v) = spec_result (social_of db) (RemoveFriendship u v)"
    by (simp add: action_simps social_of_def pals_iff)
  show "social_of (store_step db (RemoveFriendship u v)) = spec_step (social_of db) (RemoveFriendship u v)"
    by (auto simp: spec_step_def action_simps social_of_def simp flip: friend_pair_between)
qed

lemma block_insert:
  "result_of (insert_user_block b) db =
     (if is_user_blocked (blocker_user_id b) (blocked_user_id b) db then Inl GenericException else Inr ())"
  "state_after (insert_user_block b) db =
     (if is_user_blocked (blocker_user_id b) (blocked_user_id b) db then db else db\<lparr>user_blocks := user_blocks db @ [b]\<rparr>)"
  by (simp_all add: result_of_def state_after_def insert_user_block_def is_user_blocked_def)

lemma barred_iff: "(u, v) \<in> barred (social_of db) \<longleftrightarrow> is_user_blocked u v db"
  by (auto simp: social_of_def is_user_blocked_def list_ex_iff image_iff)

lemma blocks_refined:
  "store_result db (CreateBlock u v ts) = spec_result (social_of db) (CreateBlock u v ts)"
  "social_of (store_step db (CreateBlock u v ts)) = spec_step (social_of db) (CreateBlock u v ts)"
  "store_result db (RemoveBlock u v) = spec_result (social_of db) (RemoveBlock u v)"
  "social_of (store_step db (RemoveBlock u v)) = spec_step (social_of db) (RemoveBlock u v)"
proof -
  show "store_result db (CreateBlock u v ts) = spec_result (social_of db) (CreateBlock u v ts)"
    by (simp add: create_user_block_def valid_pair_def action_simps block_insert)
  have "is_user_blocked u v db \<Longrightarrow> insert (u, v) (barred (social_of db)) = barred (social_of db)"
    by (simp add: barred_iff insert_absorb)
  then show "social_of (store_step db (CreateBlock u v ts)) = spec_step (social_of db) (CreateBlock u v ts)"
    by (auto simp: create_user_block_def valid_pair_def action_simps block_insert spec_step_def social_of_def)
  show "store_result db (RemoveBlock u v) = spec_result (social_of db) (RemoveBlock u v)"
    by (simp add: action_simps barred_iff)
  show "social_of (store_step db (RemoveBlock u v)) = spec_step (social_of db) (RemoveBlock u v)"
    by (auto simp: spec_step_def action_simps social_of_def)
qed

lemma request_insert:
  assumes "requests_ok (friend_requests db)" "request_entry q = ((s, t), (fid, status))"
  defines "free \<equiv> requests_map (friend_requests db) (s, t) = None \<and> \<not> (\<exists>p\<in>ran (requests_map (friend_requests db)). fst p = fid)"
  shows "result_of (insert_friend_request q) db = (if free then Inr () else Inl GenericException)"
    "state_after (insert_friend_request q) db = (if free then db\<lparr>friend_requests := friend_requests db @ [q]\<rparr> else db)"
  using assms(2) unfolding free_def requests_map_None ids_requested [OF assms(1)]
  by (auto simp: result_of_def state_after_def insert_friend_request_def request_entry_def list_ex_iff)

lemma pending_request:
  assumes "requests_ok qs"
  shows "list_ex (\<lambda>r. sender_user_id r = s \<and> rq_target_user_id r = t \<and> rq_status r = FRIEND_REQUEST_PENDING) qs \<longleftrightarrow>
    (\<exists>i. requests_map qs (s, t) = Some (i, FRIEND_REQUEST_PENDING))"
  unfolding requests_map_iff [OF assms] by (auto simp: list_ex_iff)

lemma requests_map_append:
  assumes "requests_map qs (s, t) = None" "request_entry q = ((s, t), x)"
  shows "requests_map (qs @ [q]) = (requests_map qs)((s, t) \<mapsto> x)"
  using assms by (auto simp: requests_map_def map_add_def fun_eq_iff split: option.splits)

lemma requests_map_answer:
  "requests_map (map (\<lambda>r. if request_id r = rid then r\<lparr>rq_status := status, rq_updated_ts := ts\<rparr> else r) qs) =
   map_option (\<lambda>(i, old). (i, if i \<noteq> rid then old else status)) \<circ> requests_map qs"
  by (induction qs) (auto simp: requests_map_def request_entry_def fun_eq_iff)

lemma requests_refined:
  assumes "friends_ok db"
  shows "store_result db (CreateRequest fid s t msg ts) = spec_result (social_of db) (CreateRequest fid s t msg ts)"
    "social_of (store_step db (CreateRequest fid s t msg ts)) = spec_step (social_of db) (CreateRequest fid s t msg ts)"
    "store_result db (AnswerRequest rid accept ts) = spec_result (social_of db) (AnswerRequest rid accept ts)"
    "social_of (store_step db (AnswerRequest rid accept ts)) = spec_step (social_of db) (AnswerRequest rid accept ts)"
proof -
  have ok: "requests_ok (friend_requests db)" using assms by (simp add: friends_ok_def)
  let ?q = "\<lparr>request_id = fid, sender_user_id = s, rq_target_user_id = t, rq_message = msg,
      rq_status = FRIEND_REQUEST_PENDING, rq_created_ts = ts, rq_updated_ts = ts\<rparr>"
  have q: "request_entry ?q = ((s, t), (fid, FRIEND_REQUEST_PENDING))" by (simp add: request_entry_def)
  note i = request_insert [OF ok q] pending_request [OF ok] requests_map_append [OF _ q]
  show "store_result db (CreateRequest fid s t msg ts) = spec_result (social_of db) (CreateRequest fid s t msg ts)"
    by (auto simp: create_friend_request_def valid_pair_def action_simps i social_of_def split: option.splits)
  show "social_of (store_step db (CreateRequest fid s t msg ts)) = spec_step (social_of db) (CreateRequest fid s t msg ts)"
    by (auto simp: create_friend_request_def valid_pair_def action_simps i social_of_def spec_step_def split: option.splits)
  show "store_result db (AnswerRequest rid accept ts) = spec_result (social_of db) (AnswerRequest rid accept ts)"
    by (simp add: action_simps)
  show "social_of (store_step db (AnswerRequest rid accept ts)) = spec_step (social_of db) (AnswerRequest rid accept ts)"
    by (simp add: action_simps spec_step_def social_of_def requests_map_answer)
qed

section \<open>Runs\<close>

text \<open>A store whose operations keep an invariant and, under it, have the results and effects of a
  specification.\<close>

locale refined_store = stateful step inv
  for step :: "'s \<Rightarrow> 'op \<Rightarrow> 's" and inv :: "'s \<Rightarrow> bool" +
  fixes result :: "'s \<Rightarrow> 'op \<Rightarrow> 'r"
    and abstract :: "'s \<Rightarrow> 'a"
    and abstract_step :: "'a \<Rightarrow> 'op \<Rightarrow> 'a"
    and abstract_result :: "'a \<Rightarrow> 'op \<Rightarrow> 'r"
  assumes step_refines: "inv s \<Longrightarrow> abstract (step s x) = abstract_step (abstract s) x"
    and result_refines: "inv s \<Longrightarrow> result s x = abstract_result (abstract s) x"
begin

lemma run_refines: "inv s \<Longrightarrow> abstract (foldl step s ops) = foldl abstract_step (abstract s) ops"
  by (induction ops arbitrary: s) (simp_all add: inv_step step_refines)

lemma results_refine:
  "inv s \<Longrightarrow> result (foldl step s ops) x = abstract_result (foldl abstract_step (abstract s) ops) x"
  by (simp add: result_refines inv_run run_refines)

end

interpretation friend_tables: refined_store store_step friends_ok store_result social_of spec_step spec_result
proof
  fix db x assume ok: "friends_ok db"
  show "social_of (store_step db x) = spec_step (social_of db) x"
    by (cases x) (simp_all only: friends_refined blocks_refined requests_refined [OF ok])
  show "store_result db x = spec_result (social_of db) x"
    by (cases x) (simp_all only: friends_refined blocks_refined requests_refined [OF ok])
qed

subsection \<open>The lookups\<close>

lemma get_friendship_iff: "get_friendship u v db \<noteq> None \<longleftrightarrow> u \<noteq> [] \<and> v \<noteq> [] \<and> {u, v} \<in> pals (social_of db)"
  using find_None_iff [of "between u v" "user_friendships db"]
  by (auto simp: get_friendship_def social_of_def pals_iff list_ex_iff simp del: not_None_eq)

lemma get_friend_request_refines:
  assumes "requests_ok (friend_requests db)"
  shows "map_option (\<lambda>q. (request_id q, rq_status q)) (get_friend_request s t db) = requested (social_of db) (s, t)"
proof -
  let ?p = "\<lambda>q. sender_user_id q = s \<and> rq_target_user_id q = t"
  show ?thesis
  proof (cases "filter ?p (friend_requests db)")
    case Nil
    then show ?thesis
      by (simp add: get_friend_request_def social_of_def requests_map_None filter_empty_conv
          del: not_None_eq) (metis requests_map_None)
  next
    case (Cons q qs)
    then have "sort_key (\<lambda>r. - rq_created_ts r) (filter ?p (friend_requests db)) \<noteq> []"
      by (metis set_empty set_sort neq_Nil_conv)
    then obtain q' qs' where s: "sort_key (\<lambda>r. - rq_created_ts r) (filter ?p (friend_requests db)) = q' # qs'"
      by (meson neq_Nil_conv)
    have "q' \<in> set (filter ?p (friend_requests db))" by (metis s set_sort list.set_intros(1))
    then have "requests_map (friend_requests db) (s, t) = Some (request_id q', rq_status q')"
      unfolding requests_map_iff [OF assms] by auto
    then show ?thesis by (simp add: get_friend_request_def s social_of_def)
  qed
qed

lemma find_distinct:
  assumes "distinct (map f xs)"
  shows "find (\<lambda>x. f x = k) xs = Some y \<longleftrightarrow> y \<in> set xs \<and> f y = k"
  using assms by (induction xs) force+

lemma get_friend_request_by_id_iff:
  assumes "requests_ok (friend_requests db)"
  shows "(\<exists>q. get_friend_request_by_id rid db = Some q \<and> request_entry q = ((s, t), (rid, status))) \<longleftrightarrow>
    requested (social_of db) (s, t) = Some (rid, status)"
proof -
  have d: "distinct (map request_id (friend_requests db))" using assms by (simp add: requests_ok_def)
  have "get_friend_request_by_id rid db = Some q \<longleftrightarrow> q \<in> set (friend_requests db) \<and> request_id q = rid" for q
    using find_distinct [OF d] by (simp add: get_friend_request_by_id_def)
  then show ?thesis unfolding social_of_def by (auto simp: requests_map_iff [OF assms] request_entry_def)
qed

section \<open>Property\<close>

text \<open>
  C32. The friends store keeps its promise: after any queries in any order (and so under any
  interleaving of handler calls), each query has the result and effect of the specification on
  unordered pairs, requests and blocks.  Befriending and blocking raise only for an empty name or
  the user itself, however the pair is written and whether or not it is there already; a second
  request is refused with 409 while the first is pending, and fails with 500 once it was answered (or
  if its identifier is taken); a query that raises changes nothing; and the lookups find exactly what
  the queries put there.
\<close>

theorem friend_store_refines:
  "let db = foldl store_step empty_friends_db ops; a = foldl spec_step nobody ops in
    store_result db x = spec_result a x \<and> social_of (store_step db x) = spec_step a x \<and>
    (get_friendship u v db \<noteq> None \<longleftrightarrow> u \<noteq> [] \<and> v \<noteq> [] \<and> {u, v} \<in> pals a) \<and>
    map_option (\<lambda>q. (request_id q, rq_status q)) (get_friend_request s t db) = requested a (s, t) \<and>
    (\<forall>rid status. (\<exists>q. get_friend_request_by_id rid db = Some q \<and> request_entry q = ((s, t), (rid, status))) \<longleftrightarrow>
       requested a (s, t) = Some (rid, status)) \<and>
    (is_user_blocked u v db \<longleftrightarrow> (u, v) \<in> barred a)"
proof -
  let ?db = "foldl store_step empty_friends_db ops"
  have ok: "friends_ok ?db" by (rule friends_run.inv_run [OF friends_ok_empty])
  then have ro: "requests_ok (friend_requests ?db)" by (simp add: friends_ok_def)
  have a: "foldl spec_step nobody ops = social_of ?db"
    unfolding friend_tables.run_refines [OF friends_ok_empty] social_of_empty ..
  show ?thesis
    unfolding Let_def a get_friendship_iff get_friend_request_refines [OF ro] get_friend_request_by_id_iff [OF ro]
      barred_iff friend_tables.step_refines [OF ok] friend_tables.result_refines [OF ok] by simp
qed

text \<open>The errors on a small store: the pair written the other way round and a second block are no
  errors, a repeated request is, and it is a different one after the answer.\<close>

lemma friend_store_sample:
  "let db = foldl store_step empty_friends_db [CreateFriendship ''@b:s'' ''@a:s'' 1, CreateBlock ''@a:s'' ''@c:s'' 1,
       CreateRequest ''r1'' ''@c:s'' ''@a:s'' None 2]
   in map (store_result db) [CreateFriendship ''@a:s'' ''@b:s'' 3, CreateFriendship ''@a:s'' ''@a:s'' 3,
        CreateBlock ''@a:s'' ''@c:s'' 3, CreateRequest ''r2'' ''@c:s'' ''@a:s'' None 3, CreateRequest ''r2'' ''@a:s'' ''@c:s'' None 3] =
      [Inr Done, Inl (SynapseError 400), Inr Done, Inl (SynapseError 409), Inr (Requested ''r2'')] \<and>
      store_result (store_step db (AnswerRequest ''r1'' False 4)) (CreateRequest ''r2'' ''@c:s'' ''@a:s'' None 5) =
        Inl (SynapseError 500)"
  by code_simp

end
