(* ===== verification/Stream_Tokens.thy ===== *)
theory Stream_Tokens
  imports Actions String_Utils
begin

text \<open>
  Stream tokens, \<open>types/__init__.py\<close>: \<open>RoomStreamToken\<close>, \<open>MultiWriterStreamToken\<close> and \<open>StreamToken\<close>,
  which \<open>/sync\<close> hands to clients as text and reads back, and the table of instance ids of
  \<open>storage/databases/main/stream.py\<close> that the text uses.  A room token is a multi-writer token with
  one more field, so the records extend each other as the classes do.
\<close>

section \<open>Text\<close>

text \<open>\<open>s.split(c)\<close> and \<open>c.join(parts)\<close>\<close>

fun split_all :: "char \<Rightarrow> string \<Rightarrow> string list" where
  "split_all c [] = [[]]"
| "split_all c (x # xs) =
     (if x = c then [] # split_all c xs
      else (case split_all c xs of p # ps \<Rightarrow> (x # p) # ps | [] \<Rightarrow> [[x]]))"

fun join_with :: "char \<Rightarrow> string list \<Rightarrow> string" where
  "join_with c [] = []"
| "join_with c [p] = p"
| "join_with c (p # ps) = p @ c # join_with c ps"

text \<open>\<open>str(n)\<close> and \<open>"%d" % n\<close>\<close>

fun str_of_nat :: "nat \<Rightarrow> string" where
  "str_of_nat n = (if n < 10 then [char_of (48 + n)] else str_of_nat (n div 10) @ [char_of (48 + n mod 10)])"

declare str_of_nat.simps [simp del]

definition str_of_int :: "int \<Rightarrow> string" where
  "str_of_int i = (if i < 0 then CHR ''-'' # str_of_nat (nat (- i)) else str_of_nat (nat i))"

definition int_of :: "string \<Rightarrow> int result" where
  "int_of s = (case int_of_str s of None \<Rightarrow> Inl ValueErr | Some i \<Rightarrow> Inr i)"

section \<open>Instance ids\<close>

record instance_table =
  instance_rows :: "(int \<times> string) list"
  next_instance_id :: int

definition get_id_for_instance :: "string \<Rightarrow> (instance_table, int) action" where
  "get_id_for_instance name s =
     (case find (\<lambda>(_, n). n = name) (instance_rows s) of
        Some (i, _) \<Rightarrow> (Inr i, s)
      | None \<Rightarrow> (Inr (next_instance_id s),
          s\<lparr>instance_rows := instance_rows s @ [(next_instance_id s, name)], next_instance_id := next_instance_id s + 1\<rparr>))"

definition get_name_from_instance_id :: "int \<Rightarrow> instance_table \<Rightarrow> string result" where
  "get_name_from_instance_id i s =
     (case map_of (instance_rows s) i of Some n \<Rightarrow> Inr n | None \<Rightarrow> Inl (SynapseError 404))"

section \<open>Tokens of streams with several writers\<close>

record multi_writer_token =
  tk_stream :: int
  tk_instance_map :: "(string \<times> int) list"

record room_stream_token = multi_writer_token +
  tk_topological :: "int option"

definition instance_pos :: "'a multi_writer_token_scheme \<Rightarrow> string \<Rightarrow> int" where
  "instance_pos t name = (case map_of (tk_instance_map t) name of None \<Rightarrow> tk_stream t | Some p \<Rightarrow> p)"

text \<open>\<open>get_stream_pos_for_instance\<close> of the two classes\<close>

definition mw_stream_pos_for_instance :: "string \<Rightarrow> multi_writer_token \<Rightarrow> int result" where
  "mw_stream_pos_for_instance name t = Inr (instance_pos t name)"

definition room_stream_pos_for_instance :: "string \<Rightarrow> room_stream_token \<Rightarrow> int result" where
  "room_stream_pos_for_instance name t = bindR (guardR (tk_topological t = None) AssertionErr) (\<lambda>_. Inr (instance_pos t name))"

definition get_max_stream_pos :: "'a multi_writer_token_scheme \<Rightarrow> int" where
  "get_max_stream_pos t = (if tk_instance_map t = [] then tk_stream t else Max (set (map snd (tk_instance_map t))))"

text \<open>
  \<open>AbstractMultiWriterStreamToken.copy_and_advance\<close>.  It builds the new map over a Python set, whose
  order is not specified; here the order is that of the two maps, and no theorem depends on it.
\<close>

definition token_advance :: "'a multi_writer_token_scheme \<Rightarrow> 'a multi_writer_token_scheme \<Rightarrow> 'a multi_writer_token_scheme" where
  "token_advance t other =
     t\<lparr>tk_stream := max (tk_stream t) (tk_stream other),
       tk_instance_map := map (\<lambda>n. (n, max (instance_pos t n) (instance_pos other n)))
         (remdups (map fst (tk_instance_map t) @ map fst (tk_instance_map other)))\<rparr>"

definition make_room_token :: "int \<Rightarrow> (string \<times> int) list \<Rightarrow> int option \<Rightarrow> room_stream_token result" where
  "make_room_token stream imap topological =
     (if imap \<noteq> [] \<and> topological \<noteq> None \<and> topological \<noteq> Some 0 then Inl ValueErr
      else Inr \<lparr>tk_stream = stream, tk_instance_map = imap, tk_topological = topological\<rparr>)"

definition room_copy_and_advance :: "room_stream_token \<Rightarrow> room_stream_token \<Rightarrow> room_stream_token result" where
  "room_copy_and_advance t other =
     (let given = (\<lambda>x. x \<noteq> None \<and> x \<noteq> Some 0)
      in if given (tk_topological t) \<or> given (tk_topological other) then Inl GenericException
         else Inr (token_advance t other))"

definition as_historical_tuple :: "room_stream_token \<Rightarrow> (int \<times> int) result" where
  "as_historical_tuple t =
     (case tk_topological t of None \<Rightarrow> Inl GenericException | Some d \<Rightarrow> Inr (d, tk_stream t))"

text \<open>The part of both parsers for tokens that start with \<open>m\<close>.\<close>

definition parse_instance :: "instance_table \<Rightarrow> (string \<times> int) list \<Rightarrow> string \<Rightarrow> (string \<times> int) list result" where
  "parse_instance s imap part =
     (case split_all CHR ''.'' part of
        [key, value] \<Rightarrow>
          bindR (int_of key) (\<lambda>i. bindR (int_of value) (\<lambda>pos.
          bindR (get_name_from_instance_id i s) (\<lambda>n. Inr (AList.update n pos imap))))
      | _ \<Rightarrow> Inl ValueErr)"

definition parse_vector :: "instance_table \<Rightarrow> string \<Rightarrow> (int \<times> (string \<times> int) list) result" where
  "parse_vector s string =
     (case split_all CHR ''~'' string of
        p # ps \<Rightarrow> bindR (int_of p) (\<lambda>stream. bindR (foldR (parse_instance s) [] ps) (\<lambda>imap. Inr (stream, imap)))
      | [] \<Rightarrow> Inl IndexErr)"

definition or_bad_token :: "'a result \<Rightarrow> 'a result" where
  "or_bad_token r = (case r of Inl _ \<Rightarrow> Inl (SynapseError 400) | Inr t \<Rightarrow> Inr t)"

definition room_parse :: "instance_table \<Rightarrow> string \<Rightarrow> room_stream_token result" where
  "room_parse s string =
     or_bad_token
       (case string of
          [] \<Rightarrow> Inl IndexErr
        | c # cs \<Rightarrow>
            if c = CHR ''s'' then bindR (int_of cs) (\<lambda>i. make_room_token i [] None)
            else if c = CHR ''t'' then
              (case split_at CHR ''-'' cs of
                 None \<Rightarrow> bindR (int_of cs) (\<lambda>_. Inl IndexErr)
               | Some (a, b) \<Rightarrow> bindR (int_of a) (\<lambda>d. bindR (int_of b) (\<lambda>i. make_room_token i [] (Some d))))
            else if c = CHR ''m'' then bindR (parse_vector s cs) (\<lambda>(i, imap). make_room_token i imap None)
            else Inl GenericException)"

definition room_parse_stream_token :: "string \<Rightarrow> room_stream_token result" where
  "room_parse_stream_token string =
     or_bad_token
       (case string of
          [] \<Rightarrow> Inl IndexErr
        | c # cs \<Rightarrow> if c = CHR ''s'' then bindR (int_of cs) (\<lambda>i. make_room_token i [] None) else Inl GenericException)"

definition mw_parse :: "instance_table \<Rightarrow> string \<Rightarrow> multi_writer_token result" where
  "mw_parse s string =
     or_bad_token
       (case string of
          [] \<Rightarrow> Inl IndexErr
        | c # cs \<Rightarrow>
            if is_digit c then bindR (int_of string) (\<lambda>i. Inr \<lparr>tk_stream = i, tk_instance_map = []\<rparr>)
            else if c = CHR ''m'' then bindR (parse_vector s cs) (\<lambda>(i, imap). Inr \<lparr>tk_stream = i, tk_instance_map = imap\<rparr>)
            else Inl GenericException)"

text \<open>The entries of the text, for the writers that are ahead.\<close>

fun vector_entries :: "int \<Rightarrow> (string \<times> int) list \<Rightarrow> (instance_table, string list) action" where
  "vector_entries stream [] = returnA []"
| "vector_entries stream ((name, pos) # rest) =
     (if pos \<le> stream then vector_entries stream rest
      else bindA (get_id_for_instance name) (\<lambda>i.
           bindA (vector_entries stream rest) (\<lambda>es. returnA ((str_of_int i @ CHR ''.'' # str_of_int pos) # es))))"

definition vector_to_string :: "'a multi_writer_token_scheme \<Rightarrow> (instance_table, string) action" where
  "vector_to_string t =
     bindA (vector_entries (tk_stream t) (tk_instance_map t)) (\<lambda>es.
       returnA (CHR ''m'' # str_of_int (tk_stream t) @ CHR ''~'' # join_with CHR ''~'' es))"

definition room_to_string :: "room_stream_token \<Rightarrow> (instance_table, string) action" where
  "room_to_string t =
     (case tk_topological t of
        Some d \<Rightarrow> returnA (CHR ''t'' # str_of_int d @ CHR ''-'' # str_of_int (tk_stream t))
      | None \<Rightarrow>
          if tk_instance_map t \<noteq> [] then vector_to_string t else returnA (CHR ''s'' # str_of_int (tk_stream t)))"

definition mw_to_string :: "multi_writer_token \<Rightarrow> (instance_table, string) action" where
  "mw_to_string t = (if tk_instance_map t \<noteq> [] then vector_to_string t else returnA (str_of_int (tk_stream t)))"

definition is_stream_position_in_range ::
  "'a multi_writer_token_scheme option \<Rightarrow> 'a multi_writer_token_scheme option \<Rightarrow> string option \<Rightarrow> int \<Rightarrow> bool" where
  "is_stream_position_in_range low high instance_name pos =
     (let stream_of = (\<lambda>t. case instance_name of
                      Some n \<Rightarrow> if n \<noteq> [] then instance_pos t n else tk_stream t
                    | None \<Rightarrow> tk_stream t)
      in (case low of None \<Rightarrow> True | Some l \<Rightarrow> \<not> pos \<le> stream_of l) \<and> (case high of None \<Rightarrow> True | Some h \<Rightarrow> \<not> stream_of h < pos))"

text \<open>\<open>persisted_after\<close> calls the method \<open>get_stream_pos_for_instance\<close> of its token.\<close>

record persisted_position =
  pp_instance_name :: string
  pp_stream :: int

definition persisted_after :: "(string \<Rightarrow> 't \<Rightarrow> int result) \<Rightarrow> persisted_position \<Rightarrow> 't \<Rightarrow> bool result" where
  "persisted_after get_stream_pos p t =
     bindR (get_stream_pos (pp_instance_name p) t) (\<lambda>pos. Inr (pos < pp_stream p))"

definition to_room_stream_token :: "persisted_position \<Rightarrow> room_stream_token" where
  "to_room_stream_token p = \<lparr>tk_stream = pp_stream p, tk_instance_map = [], tk_topological = None\<rparr>"

section \<open>\<open>StreamToken\<close>\<close>

record stream_token =
  room_key :: room_stream_token
  presence_key :: int
  typing_key :: int
  receipt_key :: multi_writer_token
  account_data_key :: int
  push_rules_key :: int
  to_device_key :: int
  device_list_key :: int
  groups_key :: int
  un_partial_stated_rooms_key :: int

definition START :: stream_token where
  "START = \<lparr>room_key = \<lparr>tk_stream = 0, tk_instance_map = [], tk_topological = None\<rparr>, presence_key = 0, typing_key = 0,
     receipt_key = \<lparr>tk_stream = 0, tk_instance_map = []\<rparr>, account_data_key = 0, push_rules_key = 0,
     to_device_key = 0, device_list_key = 0, groups_key = 0, un_partial_stated_rooms_key = 0\<rparr>"

text \<open>The \<open>while\<close> loop that pads the keys of old tokens.\<close>

definition pad_keys :: "string list \<Rightarrow> string list" where
  "pad_keys keys = keys @ replicate (10 - length keys) ''0''"

definition token_from_string :: "instance_table \<Rightarrow> string \<Rightarrow> stream_token result" where
  "token_from_string s string =
     or_bad_token
       (case pad_keys (split_all CHR ''_'' string) of
          [room, presence, typing, receipt, account_data, push_rules, to_device, device_list, groups, un_partial] \<Rightarrow>
            bindR (room_parse s room) (\<lambda>room'.
            bindR (int_of presence) (\<lambda>presence'.
            bindR (int_of typing) (\<lambda>typing'.
            bindR (mw_parse s receipt) (\<lambda>receipt'.
            bindR (int_of account_data) (\<lambda>account_data'.
            bindR (int_of push_rules) (\<lambda>push_rules'.
            bindR (int_of to_device) (\<lambda>to_device'.
            bindR (int_of device_list) (\<lambda>device_list'.
            bindR (int_of groups) (\<lambda>groups'.
            bindR (int_of un_partial) (\<lambda>un_partial'.
              Inr \<lparr>room_key = room', presence_key = presence', typing_key = typing', receipt_key = receipt',
                account_data_key = account_data', push_rules_key = push_rules', to_device_key = to_device',
                device_list_key = device_list', groups_key = groups', un_partial_stated_rooms_key = un_partial'\<rparr>))))))))))
        | _ \<Rightarrow> Inl ValueErr)"

definition token_to_string :: "stream_token \<Rightarrow> (instance_table, string) action" where
  "token_to_string t =
     bindA (room_to_string (room_key t)) (\<lambda>room.
     bindA (mw_to_string (receipt_key t)) (\<lambda>receipt.
       returnA (join_with CHR ''_''
         [room, str_of_int (presence_key t), str_of_int (typing_key t), receipt, str_of_int (account_data_key t),
          str_of_int (push_rules_key t), str_of_int (to_device_key t), str_of_int (device_list_key t),
          str_of_int (groups_key t), str_of_int (un_partial_stated_rooms_key t)])))"

text \<open>A key with a value of the type its field has.\<close>

datatype int_key = PRESENCE | TYPING | ACCOUNT_DATA | PUSH_RULES | TO_DEVICE | DEVICE_LIST | UN_PARTIAL_STATED_ROOMS

datatype keyed_value = ROOM room_stream_token | RECEIPT multi_writer_token | IntKey int_key int

fun get_field :: "stream_token \<Rightarrow> int_key \<Rightarrow> int" where
  "get_field t PRESENCE = presence_key t"
| "get_field t TYPING = typing_key t"
| "get_field t ACCOUNT_DATA = account_data_key t"
| "get_field t PUSH_RULES = push_rules_key t"
| "get_field t TO_DEVICE = to_device_key t"
| "get_field t DEVICE_LIST = device_list_key t"
| "get_field t UN_PARTIAL_STATED_ROOMS = un_partial_stated_rooms_key t"

fun copy_and_replace :: "stream_token \<Rightarrow> keyed_value \<Rightarrow> stream_token" where
  "copy_and_replace t (ROOM r) = t\<lparr>room_key := r\<rparr>"
| "copy_and_replace t (RECEIPT r) = t\<lparr>receipt_key := r\<rparr>"
| "copy_and_replace t (IntKey PRESENCE i) = t\<lparr>presence_key := i\<rparr>"
| "copy_and_replace t (IntKey TYPING i) = t\<lparr>typing_key := i\<rparr>"
| "copy_and_replace t (IntKey ACCOUNT_DATA i) = t\<lparr>account_data_key := i\<rparr>"
| "copy_and_replace t (IntKey PUSH_RULES i) = t\<lparr>push_rules_key := i\<rparr>"
| "copy_and_replace t (IntKey TO_DEVICE i) = t\<lparr>to_device_key := i\<rparr>"
| "copy_and_replace t (IntKey DEVICE_LIST i) = t\<lparr>device_list_key := i\<rparr>"
| "copy_and_replace t (IntKey UN_PARTIAL_STATED_ROOMS i) = t\<lparr>un_partial_stated_rooms_key := i\<rparr>"

fun copy_and_advance :: "stream_token \<Rightarrow> keyed_value \<Rightarrow> stream_token result" where
  "copy_and_advance t (ROOM r) =
     bindR (room_copy_and_advance (room_key t) r) (\<lambda>new. Inr (copy_and_replace t (ROOM new)))"
| "copy_and_advance t (RECEIPT r) = Inr (copy_and_replace t (RECEIPT (token_advance (receipt_key t) r)))"
| "copy_and_advance t (IntKey k i) =
     (let new_token = copy_and_replace t (IntKey k i)
      in Inr (if get_field t k < get_field new_token k then new_token else t))"

section \<open>Numbers and separators can be read back\<close>

lemma of_char_digit: "n < 10 \<Longrightarrow> (of_char (char_of (48 + n)) :: nat) = 48 + n"
  by simp

lemma str_of_nat_step: "10 \<le> n \<Longrightarrow> str_of_nat n = str_of_nat (n div 10) @ [char_of (48 + n mod 10)]"
  by (subst str_of_nat.simps) simp

lemma str_of_nat_digits: "c \<in> set (str_of_nat n) \<Longrightarrow> is_digit c"
proof (induction n rule: str_of_nat.induct)
  case (1 n)
  then show ?case
    by (cases "n < 10") (auto simp: str_of_nat.simps [of n] is_digit_def)
qed

lemma str_of_nat_nonempty: "str_of_nat n \<noteq> []"
  by (subst str_of_nat.simps) simp

lemma digits_val_append: "digits_val b acc s = Some v \<Longrightarrow> s \<noteq> [] \<Longrightarrow> digits_val b acc (s @ t) = digits_val True v t"
proof (induction b acc s rule: digits_val.induct)
  case (2 b acc c cs)
  then show ?case by (cases cs) (auto split: if_splits)
qed simp

lemma digits_val_str: "digits_val False 0 (str_of_nat n) = Some (int n)"
proof (induction n rule: str_of_nat.induct)
  case (1 n)
  show ?case
  proof (cases "n < 10")
    case True
    then show ?thesis by (simp add: str_of_nat.simps [of n] is_digit_def digit_val_def)
  next
    case False
    with 1 have "digits_val False 0 (str_of_nat (n div 10)) = Some (int (n div 10))" by simp
    moreover have "int (n div 10) * 10 + int (n mod 10) = int n" using div_mult_mod_eq [of n 10] by linarith
    ultimately show ?thesis using False
      by (simp add: str_of_nat_step digits_val_append str_of_nat_nonempty is_digit_def digit_val_def)
  qed
qed

lemma digit_not_space: "is_digit c \<Longrightarrow> \<not> is_space c"
  by (auto simp: is_digit_def is_space_def)

lemma strip_id: "(\<And>c. c \<in> set s \<Longrightarrow> \<not> is_space c) \<Longrightarrow> strip s = s"
  by (simp add: strip_def dropWhile_eq_self_iff) (metis dropWhile_eq_self_iff hd_in_set rev_rev_ident set_rev)

lemma str_of_int_chars: "c \<in> set (str_of_int i) \<Longrightarrow> is_digit c \<or> c = CHR ''-''"
  by (auto simp: str_of_int_def str_of_nat_digits split: if_splits)

lemma str_of_int_chars_ge0: "0 \<le> i \<Longrightarrow> c \<in> set (str_of_int i) \<Longrightarrow> is_digit c"
  by (auto simp: str_of_int_def str_of_nat_digits split: if_splits)

lemma str_of_int_not_in [simp]:
  "CHR ''~'' \<notin> set (str_of_int i)" "CHR ''.'' \<notin> set (str_of_int i)" "CHR ''_'' \<notin> set (str_of_int i)"
  by (auto dest!: str_of_int_chars simp: is_digit_def)

lemma int_of_str_of_int: "int_of_str (str_of_int i) = Some i"
proof -
  have "strip (str_of_int i) = str_of_int i"
    by (rule strip_id) (auto dest!: str_of_int_chars dest: digit_not_space simp: is_space_def [of "CHR ''-''"])
  moreover obtain c cs where c: "str_of_nat (nat i) = c # cs" using str_of_nat_nonempty by (cases "str_of_nat (nat i)") auto
  moreover have "is_digit c" using str_of_nat_digits [of c "nat i"] c by simp
  then have "c \<noteq> CHR ''-''" "c \<noteq> CHR ''+''" by (auto simp: is_digit_def)
  ultimately show ?thesis
    using digits_val_str [of "nat i"] digits_val_str [of "nat (- i)"] by (auto simp: int_of_str_def str_of_int_def)
qed

lemma int_of_str_of_int' [simp]: "int_of (str_of_int i) = Inr i"
  by (simp add: int_of_def int_of_str_of_int)

lemma split_all_nonempty: "split_all c s \<noteq> []"
  by (induction s) (auto split: list.splits)

lemma split_all_one: "c \<notin> set s \<Longrightarrow> split_all c s = [s]"
  by (induction s) auto

lemma split_all_append: "c \<notin> set p \<Longrightarrow> split_all c (p @ c # s) = p # split_all c s"
  by (induction p) auto

lemma split_all_join: "ps \<noteq> [] \<Longrightarrow> \<forall>p \<in> set ps. c \<notin> set p \<Longrightarrow> split_all c (join_with c ps) = ps"
proof (induction c ps rule: join_with.induct)
  case (3 c p q ps)
  then show ?case by (simp add: split_all_append)
qed (simp_all add: split_all_one)

section \<open>Instance ids stay what they are\<close>

definition table_ok :: "instance_table \<Rightarrow> bool" where
  "table_ok s \<longleftrightarrow> distinct (map fst (instance_rows s)) \<and> (\<forall>i \<in> fst ` set (instance_rows s). i < next_instance_id s)"

definition keeps_names :: "instance_table \<Rightarrow> instance_table \<Rightarrow> bool" where
  "keeps_names s s' \<longleftrightarrow> map_of (instance_rows s) \<subseteq>\<^sub>m map_of (instance_rows s')"

lemma keeps_names_refl [simp]: "keeps_names s s"
  by (simp add: keeps_names_def)

lemma keeps_names_trans: "keeps_names s s' \<Longrightarrow> keeps_names s' s'' \<Longrightarrow> keeps_names s s''"
  unfolding keeps_names_def by (rule map_le_trans)

lemma get_name_kept: "keeps_names s s' \<Longrightarrow> get_name_from_instance_id i s = Inr n \<Longrightarrow> get_name_from_instance_id i s' = Inr n"
  by (auto simp: keeps_names_def get_name_from_instance_id_def map_le_def dom_def split: option.splits)

lemma get_id_for_instance_ok:
  assumes "table_ok s"
  obtains i s' where "get_id_for_instance name s = (Inr i, s')" "table_ok s'" "keeps_names s s'"
    "get_name_from_instance_id i s' = Inr name"
proof (cases "find (\<lambda>(_, n). n = name) (instance_rows s)")
  case None
  let ?s = "s\<lparr>instance_rows := instance_rows s @ [(next_instance_id s, name)], next_instance_id := next_instance_id s + 1\<rparr>"
  have new: "map_of (instance_rows s) (next_instance_id s) = None"
    using assms by (fastforce simp: table_ok_def map_of_eq_None_iff)
  have "keeps_names s ?s" by (auto simp: keeps_names_def map_le_def map_add_def dom_def split: option.splits)
  moreover have "table_ok ?s" using assms by (fastforce simp: table_ok_def)
  moreover have "get_name_from_instance_id (next_instance_id s) ?s = Inr name"
    using new by (simp add: get_name_from_instance_id_def map_add_def)
  ultimately show ?thesis using that None by (simp add: get_id_for_instance_def)
next
  case (Some r)
  obtain i n where r: "r = (i, n)" by force
  with Some have "(i, name) \<in> set (instance_rows s)" "n = name" by (auto simp: find_Some_iff) (metis nth_mem)
  then have "get_name_from_instance_id i s = Inr name"
    using assms by (simp add: get_name_from_instance_id_def table_ok_def map_of_is_SomeI)
  with that assms Some r show ?thesis by (simp add: get_id_for_instance_def)
qed

section \<open>Tokens can be read back\<close>

definition entry_of :: "instance_table \<Rightarrow> string \<Rightarrow> string \<times> int \<Rightarrow> bool" where
  "entry_of s e np \<longleftrightarrow> (\<exists>i. e = str_of_int i @ CHR ''.'' # str_of_int (snd np) \<and> get_name_from_instance_id i s = Inr (fst np))"

lemma entry_chars: "entry_of s e np \<Longrightarrow> CHR ''~'' \<notin> set e \<and> CHR ''_'' \<notin> set e"
  by (auto simp: entry_of_def)

lemma vector_entries_ok:
  assumes "table_ok s"
  shows "\<exists>es s'. vector_entries stream imap s = (Inr es, s') \<and> table_ok s' \<and> keeps_names s s' \<and>
    list_all2 (entry_of s') es (filter (\<lambda>np. stream < snd np) imap)"
  using assms
proof (induction imap arbitrary: s)
  case (Cons np imap)
  obtain name pos where np: "np = (name, pos)" by force
  show ?case
  proof (cases "pos \<le> stream")
    case True
    with Cons np show ?thesis by simp
  next
    case False
    from get_id_for_instance_ok [OF Cons.prems] obtain i s1 where
      i: "get_id_for_instance name s = (Inr i, s1)" "table_ok s1" "keeps_names s s1" "get_name_from_instance_id i s1 = Inr name" .
    from Cons.IH [OF i(2)] obtain es s2 where
      es: "vector_entries stream imap s1 = (Inr es, s2)" "table_ok s2" "keeps_names s1 s2"
        "list_all2 (entry_of s2) es (filter (\<lambda>np. stream < snd np) imap)" by blast
    have "entry_of s2 (str_of_int i @ CHR ''.'' # str_of_int pos) np"
      using get_name_kept [OF es(3) i(4)] by (auto simp: entry_of_def np)
    with False es i np show ?thesis by (auto simp: bindA_def returnA_def intro: keeps_names_trans)
  qed
qed (simp add: returnA_def)

lemma parse_instance_entry: "entry_of s e np \<Longrightarrow> parse_instance s imap e = Inr (AList.update (fst np) (snd np) imap)"
  by (auto simp: entry_of_def parse_instance_def split_all_append split_all_one)

lemma parse_entries:
  "list_all2 (entry_of s) es nps \<Longrightarrow> foldR (parse_instance s) imap es = Inr (dict_update imap nps)"
  by (induction es nps arbitrary: imap rule: list_all2_induct) (auto simp: parse_instance_entry dict_update_def case_prod_beta)

lemma entry_of_kept: "keeps_names s s' \<Longrightarrow> entry_of s e np \<Longrightarrow> entry_of s' e np"
  by (auto simp: entry_of_def dest: get_name_kept)

text \<open>The writers ahead of the token, which are what its text records.\<close>

definition writers_ahead :: "'a multi_writer_token_scheme \<Rightarrow> (string \<times> int) list" where
  "writers_ahead t = filter (\<lambda>np. tk_stream t < snd np) (tk_instance_map t)"

lemma vector_text:
  assumes "table_ok s" "writers_ahead t \<noteq> []"
  shows "\<exists>cs s'. vector_to_string t s = (Inr (CHR ''m'' # cs), s') \<and> table_ok s' \<and> keeps_names s s' \<and> CHR ''_'' \<notin> set cs \<and>
    (\<forall>s''. keeps_names s' s'' \<longrightarrow> parse_vector s'' cs = Inr (tk_stream t, dict_update [] (writers_ahead t)))"
proof -
  from vector_entries_ok [OF assms(1), of "tk_stream t" "tk_instance_map t"] obtain es s' where
    es: "vector_entries (tk_stream t) (tk_instance_map t) s = (Inr es, s')" "table_ok s'" "keeps_names s s'"
      "list_all2 (entry_of s') es (writers_ahead t)" unfolding writers_ahead_def by blast
  let ?cs = "str_of_int (tk_stream t) @ CHR ''~'' # join_with CHR ''~'' es"
  have ne: "es \<noteq> []" using es(4) assms(2) by auto
  have c: "\<forall>e \<in> set es. CHR ''~'' \<notin> set e \<and> CHR ''_'' \<notin> set e"
    using es(4) by (induction rule: list_all2_induct) (auto dest: entry_chars)
  have j: "x \<in> set (join_with CHR ''~'' es) \<Longrightarrow> x = CHR ''~'' \<or> (\<exists>e \<in> set es. x \<in> set e)" for x
    by (induction "CHR ''~''" es rule: join_with.induct) auto
  have "parse_vector s'' ?cs = Inr (tk_stream t, dict_update [] (writers_ahead t))" if "keeps_names s' s''" for s''
  proof -
    have "list_all2 (entry_of s'') es (writers_ahead t)" using es(4) by (rule list_all2_mono) (rule entry_of_kept [OF that])
    then show ?thesis using ne c by (simp add: parse_vector_def split_all_append split_all_join parse_entries)
  qed
  moreover have "CHR ''_'' \<notin> set ?cs" using c j [of "CHR ''_''"] by auto
  ultimately show ?thesis using es by (auto simp: vector_to_string_def bindA_def returnA_def)
qed

text \<open>What is promised of a class of tokens: the text is read back, also after other tokens were printed.\<close>

locale token_text =
  fixes to_text :: "'t \<Rightarrow> (instance_table, string) action"
    and of_text :: "instance_table \<Rightarrow> string \<Rightarrow> 't result"
    and good :: "'t \<Rightarrow> bool"
    and same :: "'t \<Rightarrow> 't \<Rightarrow> bool"
  assumes printed: "good t \<Longrightarrow> table_ok s \<Longrightarrow>
    \<exists>str s'. to_text t s = (Inr str, s') \<and> table_ok s' \<and> keeps_names s s' \<and> CHR ''_'' \<notin> set str \<and>
      (\<forall>s''. keeps_names s' s'' \<longrightarrow> (\<exists>t'. of_text s'' str = Inr t' \<and> same t t'))"
begin

lemma printedE:
  assumes "good t" "table_ok s"
  obtains str s' where "to_text t s = (Inr str, s')" "table_ok s'" "keeps_names s s'" "CHR ''_'' \<notin> set str"
    "\<And>s''. keeps_names s' s'' \<Longrightarrow> \<exists>t'. of_text s'' str = Inr t' \<and> same t t'"
  using printed [OF assms] by blast

lemma printed_twice:
  assumes "good t" "good u" "table_ok s"
  shows "\<exists>str s' str' s''. to_text t s = (Inr str, s') \<and> to_text u s' = (Inr str', s'') \<and>
    (\<exists>t' u'. of_text s'' str = Inr t' \<and> of_text s'' str' = Inr u' \<and> same t t' \<and> same u u')"
proof -
  from printedE [OF assms(1,3)] obtain str s' where
    t: "to_text t s = (Inr str, s')" "table_ok s'" "\<And>s''. keeps_names s' s'' \<Longrightarrow> \<exists>t'. of_text s'' str = Inr t' \<and> same t t'" by metis
  from printedE [OF assms(2) t(2)] obtain str' s'' where
    u: "to_text u s' = (Inr str', s'')" "keeps_names s' s''"
      "\<And>s2. keeps_names s'' s2 \<Longrightarrow> \<exists>u'. of_text s2 str' = Inr u' \<and> same u u'" by metis
  from t(1) u(1) t(3) [OF u(2)] u(3) [OF keeps_names_refl] show ?thesis by blast
qed

end

definition good_vector :: "'a multi_writer_token_scheme \<Rightarrow> bool" where
  "good_vector t \<longleftrightarrow> distinct (map fst (tk_instance_map t)) \<and> (tk_instance_map t = [] \<or> writers_ahead t \<noteq> [])"

definition same_positions :: "'a multi_writer_token_scheme \<Rightarrow> 'a multi_writer_token_scheme \<Rightarrow> bool" where
  "same_positions t t' \<longleftrightarrow>
     tk_stream t' = tk_stream t \<and> (\<forall>n. instance_pos t' n = max (tk_stream t) (instance_pos t n))"

definition good_room_token :: "room_stream_token \<Rightarrow> bool" where
  "good_room_token t \<longleftrightarrow> good_vector t \<and> (\<forall>d. tk_topological t = Some d \<longrightarrow> 0 \<le> d \<and> tk_instance_map t = [])"

definition same_room_token :: "room_stream_token \<Rightarrow> room_stream_token \<Rightarrow> bool" where
  "same_room_token t t' \<longleftrightarrow> same_positions t t' \<and> tk_topological t' = tk_topological t"

definition good_mw_token :: "multi_writer_token \<Rightarrow> bool" where
  "good_mw_token t \<longleftrightarrow> good_vector t \<and> 0 \<le> tk_stream t"

lemma map_of_filter_snd:
  "distinct (map fst d) \<Longrightarrow>
   map_of (filter (\<lambda>np. q < snd np) d) k = (case map_of d k of Some v \<Rightarrow> if q < v then Some v else None | None \<Rightarrow> None)"
proof (induction d)
  case (Cons a d)
  then show ?case by (cases a) (auto simp: map_of_eq_None_iff dest!: map_of_SomeD split: option.splits)
qed simp

lemma same_positions_ahead:
  assumes "good_vector t" "tk_stream t' = tk_stream t" "tk_instance_map t' = dict_update [] (writers_ahead t)"
  shows "same_positions t t'"
proof -
  have "distinct (map fst (writers_ahead t))" using assms(1) by (simp add: good_vector_def writers_ahead_def distinct_map_filter)
  then have "map_of (tk_instance_map t') n =
      (case map_of (tk_instance_map t) n of Some v \<Rightarrow> if tk_stream t < v then Some v else None | None \<Rightarrow> None)" for n
    using assms(1) by (simp add: assms(3) map_of_dict_update map_of_rev_distinct good_vector_def writers_ahead_def map_of_filter_snd split: option.splits)
  then show ?thesis by (auto simp: same_positions_def assms(2) instance_pos_def split: option.splits)
qed

lemma same_positions_plain: "tk_instance_map t = [] \<Longrightarrow> tk_instance_map t' = [] \<Longrightarrow> tk_stream t' = tk_stream t \<Longrightarrow> same_positions t t'"
  by (simp add: same_positions_def instance_pos_def)

interpretation room_text: token_text room_to_string room_parse good_room_token same_room_token
proof
  fix t s
  assume t: "good_room_token t" and s: "table_ok s"
  consider d where "tk_topological t = Some d" | "tk_topological t = None" "tk_instance_map t = []"
    | "tk_topological t = None" "tk_instance_map t \<noteq> []" by fastforce
  then show "\<exists>str s'. room_to_string t s = (Inr str, s') \<and> table_ok s' \<and> keeps_names s s' \<and> CHR ''_'' \<notin> set str \<and>
      (\<forall>s''. keeps_names s' s'' \<longrightarrow> (\<exists>t'. room_parse s'' str = Inr t' \<and> same_room_token t t'))"
  proof cases
    case 1
    then have d: "0 \<le> d" "tk_instance_map t = []" using t by (auto simp: good_room_token_def)
    have "CHR ''-'' \<notin> set (str_of_int d)" using str_of_int_chars_ge0 [OF d(1)] by (fastforce simp: is_digit_def)
    then show ?thesis using 1 s d(2)
      by (auto simp: room_to_string_def returnA_def room_parse_def or_bad_token_def split_at_append make_room_token_def
          same_room_token_def intro: same_positions_plain)
  next
    case 2
    then show ?thesis using s
      by (auto simp: room_to_string_def returnA_def room_parse_def or_bad_token_def make_room_token_def same_room_token_def intro: same_positions_plain)
  next
    case 3
    with t have g: "good_vector t" "writers_ahead t \<noteq> []" by (auto simp: good_room_token_def good_vector_def)
    from vector_text [OF s g(2)] 3 same_positions_ahead [OF g(1)] show ?thesis
      by (fastforce simp: room_to_string_def room_parse_def or_bad_token_def make_room_token_def same_room_token_def)
  qed
qed

interpretation mw_text: token_text mw_to_string mw_parse good_mw_token same_positions
proof
  fix t s
  assume t: "good_mw_token t" and s: "table_ok s"
  show "\<exists>str s'. mw_to_string t s = (Inr str, s') \<and> table_ok s' \<and> keeps_names s s' \<and> CHR ''_'' \<notin> set str \<and>
      (\<forall>s''. keeps_names s' s'' \<longrightarrow> (\<exists>t'. mw_parse s'' str = Inr t' \<and> same_positions t t'))"
  proof (cases "tk_instance_map t = []")
    case True
    obtain c cs where c: "str_of_int (tk_stream t) = c # cs" using str_of_nat_nonempty [of "nat (tk_stream t)"] t
      by (cases "str_of_int (tk_stream t)") (auto simp: good_mw_token_def str_of_int_def)
    moreover have "is_digit c" using str_of_int_chars_ge0 [of "tk_stream t" c] t c by (simp add: good_mw_token_def)
    moreover have "int_of (c # cs) = Inr (tk_stream t)" unfolding c [symmetric] by simp
    moreover have "CHR ''_'' \<notin> set (c # cs)" unfolding c [symmetric] by simp
    ultimately show ?thesis using True s
      by (auto simp: mw_to_string_def returnA_def mw_parse_def or_bad_token_def intro: same_positions_plain)
  next
    case False
    with t have g: "good_vector t" "writers_ahead t \<noteq> []" by (auto simp: good_mw_token_def good_vector_def)
    have "\<not> is_digit CHR ''m''" by (simp add: is_digit_def)
    with vector_text [OF s g(2)] False same_positions_ahead [OF g(1)] show ?thesis
      by (fastforce simp: mw_to_string_def mw_parse_def or_bad_token_def)
  qed
qed

text \<open>
  C28. The text of a sync token is read back to the same token: the same position of every stream,
  for every writer, where a position behind the minimum counts as the minimum.  The tokens are
  those in which some writer of each non-empty instance map is ahead, receipts are not negative,
  and a historical position has a depth and no instance map.
\<close>

theorem stream_token_round_trip:
  assumes "table_ok s" "good_room_token (room_key t)" "good_mw_token (receipt_key t)"
  shows "\<exists>str s' t'. token_to_string t s = (Inr str, s') \<and> token_from_string s' str = Inr t' \<and>
    same_room_token (room_key t) (room_key t') \<and> same_positions (receipt_key t) (receipt_key t') \<and>
    t' = t\<lparr>room_key := room_key t', receipt_key := receipt_key t'\<rparr>"
proof -
  from room_text.printedE [OF assms(2,1)] obtain room s1 where
    room: "room_to_string (room_key t) s = (Inr room, s1)" "table_ok s1" "CHR ''_'' \<notin> set room"
      "\<And>s''. keeps_names s1 s'' \<Longrightarrow> \<exists>r. room_parse s'' room = Inr r \<and> same_room_token (room_key t) r" by metis
  from mw_text.printedE [OF assms(3) room(2)] obtain receipt s2 where
    receipt: "mw_to_string (receipt_key t) s1 = (Inr receipt, s2)" "keeps_names s1 s2" "CHR ''_'' \<notin> set receipt"
      "\<And>s''. keeps_names s2 s'' \<Longrightarrow> \<exists>r. mw_parse s'' receipt = Inr r \<and> same_positions (receipt_key t) r" by metis
  from room(4) [OF receipt(2)] obtain r where r: "room_parse s2 room = Inr r" "same_room_token (room_key t) r" by blast
  from receipt(4) [OF keeps_names_refl] obtain q where q: "mw_parse s2 receipt = Inr q" "same_positions (receipt_key t) q" by blast
  let ?keys = "[room, str_of_int (presence_key t), str_of_int (typing_key t), receipt, str_of_int (account_data_key t),
          str_of_int (push_rules_key t), str_of_int (to_device_key t), str_of_int (device_list_key t),
          str_of_int (groups_key t), str_of_int (un_partial_stated_rooms_key t)]"
  have printed: "token_to_string t s = (Inr (join_with CHR ''_'' ?keys), s2)"
    by (simp add: token_to_string_def bindA_def returnA_def room(1) receipt(1))
  have "pad_keys (split_all CHR ''_'' (join_with CHR ''_'' ?keys)) = ?keys"
    by (subst split_all_join) (simp_all add: room(3) receipt(3) pad_keys_def)
  then have "token_from_string s2 (join_with CHR ''_'' ?keys) = Inr (t\<lparr>room_key := r, receipt_key := q\<rparr>)"
    by (simp add: token_from_string_def r(1) q(1) or_bad_token_def)
  with printed r(2) q(2) show ?thesis by fastforce
qed

definition sample_table :: instance_table where
  "sample_table = \<lparr>instance_rows = [(1, ''master''), (2, ''persister1'')], next_instance_id = 3\<rparr>"

definition sample_room_token :: room_stream_token where
  "sample_room_token = \<lparr>tk_stream = 56, tk_instance_map = [(''persister1'', 58), (''persister2'', 59)], tk_topological = None\<rparr>"

theorem stream_token_round_trip_witness:
  "table_ok sample_table \<and> good_room_token (room_key (START\<lparr>room_key := sample_room_token\<rparr>)) \<and>
   good_mw_token (receipt_key (START\<lparr>room_key := sample_room_token\<rparr>)) \<and>
   (\<exists>str s' t'. token_to_string (START\<lparr>room_key := sample_room_token\<rparr>) sample_table = (Inr str, s') \<and> token_from_string s' str = Inr t' \<and>
      instance_pos (room_key t') ''persister2'' = 59)"
proof -
  let ?t = "START\<lparr>room_key := sample_room_token\<rparr>"
  have h: "table_ok sample_table" "good_room_token (room_key ?t)" "good_mw_token (receipt_key ?t)"
    by (simp_all add: table_ok_def sample_table_def good_room_token_def good_mw_token_def good_vector_def writers_ahead_def
        START_def sample_room_token_def)
  from stream_token_round_trip [OF h] obtain str s' t' where
    "token_to_string ?t sample_table = (Inr str, s')" "token_from_string s' str = Inr t'" "same_room_token (room_key ?t) (room_key t')" by blast
  moreover have "instance_pos (room_key ?t) ''persister2'' = 59" by code_simp
  moreover have "tk_stream (room_key ?t) = 56" by code_simp
  ultimately show ?thesis using h by (auto simp: same_room_token_def same_positions_def)
qed

text \<open>The text of the sample token, with an id for the third writer.\<close>

lemma sample_token_text: "result_of (room_to_string sample_room_token) sample_table = Inr ''m56~2.58~3.59''"
  by code_simp

text \<open>
  C29. Among the tokens of live streams the text cannot be read back exactly when the instance map
  is not empty but no writer in it is ahead of the minimum position: \<open>to_string\<close> then ends the text
  with a separator, and \<open>parse\<close> answers it with error 400.
\<close>

theorem unreadable_tokens:
  assumes "table_ok s" "distinct (map fst (tk_instance_map t))" "tk_topological t = None"
  shows "\<exists>str s'. room_to_string t s = (Inr str, s') \<and>
    (room_parse s' str = Inl (SynapseError 400) \<longleftrightarrow> tk_instance_map t \<noteq> [] \<and> writers_ahead t = [])"
proof (cases "tk_instance_map t \<noteq> [] \<and> writers_ahead t = []")
  case True
  from vector_entries_ok [OF assms(1), of "tk_stream t" "tk_instance_map t"] True obtain s' where
    "vector_entries (tk_stream t) (tk_instance_map t) s = (Inr [], s')" unfolding writers_ahead_def by auto
  then have "room_to_string t s = (Inr (CHR ''m'' # str_of_int (tk_stream t) @ CHR ''~'' # []), s')"
    using True assms(3) by (simp add: room_to_string_def vector_to_string_def bindA_def returnA_def)
  moreover have "parse_vector s' (str_of_int (tk_stream t) @ CHR ''~'' # []) = Inl ValueErr"
    by (simp add: parse_vector_def split_all_append parse_instance_def)
  ultimately show ?thesis using True by (simp add: room_parse_def or_bad_token_def)
next
  case False
  with assms have "good_room_token t" by (auto simp: good_room_token_def good_vector_def)
  from room_text.printedE [OF this assms(1)] obtain str s' where str: "room_to_string t s = (Inr str, s')"
    "\<And>s''. keeps_names s' s'' \<Longrightarrow> \<exists>t'. room_parse s'' str = Inr t' \<and> same_room_token t t'" by metis
  from str(2) [OF keeps_names_refl] obtain t' where "room_parse s' str = Inr t'" by blast
  with str(1) False show ?thesis by auto
qed

text \<open>\<open>copy_and_advance\<close> makes such tokens: writer 2 at 58, then everybody at 60.\<close>

definition advanced_token :: room_stream_token where
  "advanced_token = token_advance
     \<lparr>tk_stream = 56, tk_instance_map = [(''persister1'', 58)], tk_topological = None\<rparr>
     \<lparr>tk_stream = 60, tk_instance_map = [], tk_topological = None\<rparr>"

theorem unreadable_tokens_witness:
  "room_copy_and_advance
     \<lparr>tk_stream = 56, tk_instance_map = [(''persister1'', 58)], tk_topological = None\<rparr>
     \<lparr>tk_stream = 60, tk_instance_map = [], tk_topological = None\<rparr> = Inr advanced_token \<and>
   table_ok sample_table \<and> distinct (map fst (tk_instance_map advanced_token)) \<and> tk_topological advanced_token = None \<and>
   (\<exists>str s'. room_to_string advanced_token sample_table = (Inr str, s') \<and> room_parse s' str = Inl (SynapseError 400))"
proof -
  have h: "table_ok sample_table" "distinct (map fst (tk_instance_map advanced_token))" "tk_topological advanced_token = None"
    by (simp add: table_ok_def sample_table_def) code_simp+
  moreover have "tk_instance_map advanced_token \<noteq> [] \<and> writers_ahead advanced_token = []" by code_simp
  moreover have "room_copy_and_advance
     \<lparr>tk_stream = 56, tk_instance_map = [(''persister1'', 58)], tk_topological = None\<rparr>
     \<lparr>tk_stream = 60, tk_instance_map = [], tk_topological = None\<rparr> = Inr advanced_token" by code_simp
  ultimately show ?thesis using unreadable_tokens [OF h] by blast
qed

section \<open>Order of tokens\<close>

lemma instance_pos_advance: "instance_pos (token_advance t u) n = max (instance_pos t n) (instance_pos u n)"
proof -
  have m: "map_of (map (\<lambda>n. (n, f n)) ns) n = (if n \<in> set ns then Some (f n) else None)" for f :: "string \<Rightarrow> int" and ns
    by (induction ns) auto
  have "map_of (tk_instance_map (token_advance t u)) n =
      (if n \<in> fst ` set (tk_instance_map t) \<union> fst ` set (tk_instance_map u) then Some (max (instance_pos t n) (instance_pos u n)) else None)"
    by (simp add: token_advance_def m)
  moreover have "n \<notin> fst ` set (tk_instance_map x) \<Longrightarrow> instance_pos x n = tk_stream x" for x :: "'a multi_writer_token_scheme"
    by (simp add: instance_pos_def map_of_eq_None_iff [THEN iffD2])
  moreover have "tk_stream (token_advance t u) = max (tk_stream t) (tk_stream u)" by (simp add: token_advance_def)
  ultimately show ?thesis by (cases "n \<in> fst ` set (tk_instance_map t) \<union> fst ` set (tk_instance_map u)")
      (simp_all add: instance_pos_def [of "token_advance t u"])
qed

text \<open>
  Advancing a live token by another gives their least upper bound: an event was persisted
  after the new token exactly if it was persisted after both.
\<close>

theorem advance_is_join:
  assumes "tk_topological t = None" "tk_topological u = None"
  shows "\<exists>v. room_copy_and_advance t u = Inr v \<and>
    (\<forall>p. \<exists>x y. persisted_after room_stream_pos_for_instance p t = Inr x \<and> persisted_after room_stream_pos_for_instance p u = Inr y \<and>
      persisted_after room_stream_pos_for_instance p v = Inr (x \<and> y))"
proof -
  have v: "room_copy_and_advance t u = Inr (token_advance t u)" "tk_topological (token_advance t u) = None"
    using assms by (simp_all add: room_copy_and_advance_def token_advance_def)
  show ?thesis using assms v by (auto simp: persisted_after_def room_stream_pos_for_instance_def instance_pos_advance)
qed

theorem advance_is_join_witness:
  "tk_topological sample_room_token = None \<and> tk_topological advanced_token = None \<and>
   (\<exists>v. room_copy_and_advance sample_room_token advanced_token = Inr v \<and>
     persisted_after room_stream_pos_for_instance \<lparr>pp_instance_name = ''persister2'', pp_stream = 60\<rparr> v = Inr False)"
proof -
  have h: "tk_topological sample_room_token = None" "tk_topological advanced_token = None" by code_simp+
  have "persisted_after room_stream_pos_for_instance \<lparr>pp_instance_name = ''persister2'', pp_stream = 60\<rparr> advanced_token = Inr False"
    by code_simp
  moreover from advance_is_join [OF h] obtain v where v: "room_copy_and_advance sample_room_token advanced_token = Inr v"
    "\<And>p. \<exists>x y. persisted_after room_stream_pos_for_instance p advanced_token = Inr y \<and>
      persisted_after room_stream_pos_for_instance p v = Inr (x \<and> y)" by blast
  ultimately have "persisted_after room_stream_pos_for_instance \<lparr>pp_instance_name = ''persister2'', pp_stream = 60\<rparr> v = Inr False"
    using v(2) [of "\<lparr>pp_instance_name = ''persister2'', pp_stream = 60\<rparr>"] by auto
  with v(1) h show ?thesis by blast
qed

text \<open>The integer keys of a sync token never go back.\<close>

lemma get_field_replace: "get_field (copy_and_replace t (IntKey k i)) k' = (if k = k' then i else get_field t k')"
  by (cases k; cases k') simp_all

lemma replace_int_keeps: "room_key (copy_and_replace t (IntKey k i)) = room_key t" "receipt_key (copy_and_replace t (IntKey k i)) = receipt_key t"
  by (cases k; simp)+

lemma copy_and_advance_int:
  "\<exists>u. copy_and_advance t (IntKey k i) = Inr u \<and> room_key u = room_key t \<and> receipt_key u = receipt_key t \<and>
     (\<forall>k'. get_field u k' = (if k' = k then max (get_field t k) i else get_field t k'))"
  by (simp add: Let_def get_field_replace replace_int_keeps)

end
