(* ===== verification/Locks.thy ===== *)
theory Locks
  imports Prelude
begin

text \<open>
  The locks of \<open>util/async_helpers.py\<close>: \<open>Linearizer\<close> and \<open>ReadWriteLock\<close>.  Coroutines of one
  process interleave only where they \<open>await\<close>, so a lock is a transition system whose steps are the
  pieces of code between two awaits.  A \<open>Deferred\<close> that fires resumes the coroutine waiting for it.
\<close>

section \<open>Transition systems with an invariant\<close>

locale machine =
  fixes init :: "'s \<Rightarrow> bool" and step :: "'s \<Rightarrow> 's \<Rightarrow> bool" and good :: "'s \<Rightarrow> bool"
  assumes good_init: "init s \<Longrightarrow> good s"
    and good_step: "good s \<Longrightarrow> step s t \<Longrightarrow> good t"
begin

lemma good_steps: "step\<^sup>*\<^sup>* s t \<Longrightarrow> good s \<Longrightarrow> good t"
  by (induction rule: rtranclp_induct) (auto intro: good_step)

lemma good_reachable: "init s \<Longrightarrow> step\<^sup>*\<^sup>* s t \<Longrightarrow> good t"
  using good_init good_steps by blast

end

section \<open>Linearizer\<close>

text \<open>
  An entry is an object that the dictionary and the coroutines refer to, so entries live in a heap.
  Tasks are numbered.  \<open>Woken\<close>: the coroutine was resumed by the one before it, has counted itself
  and awaits \<open>sleep(0)\<close>.
\<close>

record lin_entry =
  le_count :: int
  le_deferreds :: "nat list"

datatype lin_task = Waiting nat string | Woken nat string | Holding nat string

record linearizer =
  max_count :: int
  key_to_defer :: "string \<Rightarrow> nat option"
  entries :: "nat \<Rightarrow> lin_entry"
  next_ref :: nat
  tasks :: "nat \<Rightarrow> lin_task option"

definition new_linearizer :: "int \<Rightarrow> linearizer" where
  "new_linearizer n = \<lparr>max_count = n, key_to_defer = (\<lambda>_. None), entries = (\<lambda>_. \<lparr>le_count = 0, le_deferreds = []\<rparr>),
     next_ref = 0, tasks = (\<lambda>_. None)\<rparr>"

definition is_queued :: "linearizer \<Rightarrow> string \<Rightarrow> bool" where
  "is_queued s k = (case key_to_defer s k of None \<Rightarrow> False | Some r \<Rightarrow> le_deferreds (entries s r) \<noteq> [])"

text \<open>\<open>key_to_defer.setdefault(key, _LinearizerEntry(0, OrderedDict()))\<close>\<close>

definition setdefault_entry :: "string \<Rightarrow> linearizer \<Rightarrow> nat \<times> linearizer" where
  "setdefault_entry k s =
     (case key_to_defer s k of
        Some r \<Rightarrow> (r, s)
      | None \<Rightarrow> (next_ref s,
          s\<lparr>key_to_defer := (key_to_defer s)(k \<mapsto> next_ref s),
            entries := (entries s)(next_ref s := \<lparr>le_count = 0, le_deferreds = []\<rparr>), next_ref := Suc (next_ref s)\<rparr>))"

text \<open>\<open>_acquire_lock\<close> up to its first await.\<close>

definition acquire_lock :: "nat \<Rightarrow> string \<Rightarrow> linearizer \<Rightarrow> linearizer" where
  "acquire_lock t k s =
     (let (r, s1) = setdefault_entry k s; e = entries s1 r
      in if le_count e < max_count s1
         then s1\<lparr>entries := (entries s1)(r := e\<lparr>le_count := le_count e + 1\<rparr>), tasks := (tasks s1)(t \<mapsto> Holding r k)\<rparr>
         else s1\<lparr>entries := (entries s1)(r := e\<lparr>le_deferreds := le_deferreds e @ [t]\<rparr>), tasks := (tasks s1)(t \<mapsto> Waiting r k)\<rparr>)"

text \<open>\<open>_release_lock\<close>, with what the resumed coroutine does before it awaits again.\<close>

definition release_lock :: "string \<Rightarrow> nat \<Rightarrow> linearizer \<Rightarrow> linearizer" where
  "release_lock k r s =
     (let e = (entries s r)\<lparr>le_count := le_count (entries s r) - 1\<rparr>
      in case le_deferreds e of
           d # ds \<Rightarrow>
             s\<lparr>entries := (entries s)(r := e\<lparr>le_deferreds := ds, le_count := le_count e + 1\<rparr>),
               tasks := (tasks s)(d \<mapsto> Woken r k)\<rparr>
         | [] \<Rightarrow>
             if le_count e = 0
             then s\<lparr>entries := (entries s)(r := e), key_to_defer := (key_to_defer s)(k := None)\<rparr>
             else s\<lparr>entries := (entries s)(r := e)\<rparr>)"

definition forget_task :: "nat \<Rightarrow> linearizer \<Rightarrow> linearizer" where
  "forget_task t s = s\<lparr>tasks := (tasks s)(t := None)\<rparr>"

text \<open>A waiting coroutine that is cancelled takes itself out of the queue.\<close>

definition cancel_wait :: "nat \<Rightarrow> nat \<Rightarrow> linearizer \<Rightarrow> linearizer" where
  "cancel_wait t r s =
     forget_task t (s\<lparr>entries := (entries s)(r := (entries s r)\<lparr>le_deferreds := remove1 t (le_deferreds (entries s r))\<rparr>)\<rparr>)"

inductive lin_step :: "linearizer \<Rightarrow> linearizer \<Rightarrow> bool" where
  acquire: "tasks s t = None \<Longrightarrow> lin_step s (acquire_lock t k s)"
| awake: "tasks s t = Some (Woken r k) \<Longrightarrow> lin_step s (s\<lparr>tasks := (tasks s)(t \<mapsto> Holding r k)\<rparr>)"
| release: "tasks s t = Some (Holding r k) \<Longrightarrow> lin_step s (release_lock k r (forget_task t s))"
| cancel_woken: "tasks s t = Some (Woken r k) \<Longrightarrow> lin_step s (release_lock k r (forget_task t s))"
| cancel_waiting: "tasks s t = Some (Waiting r k) \<Longrightarrow> lin_step s (cancel_wait t r s)"

subsection \<open>Invariant\<close>

text \<open>Who is past the lock for an entry: holding it, or woken and about to.\<close>

definition inside :: "linearizer \<Rightarrow> nat \<Rightarrow> nat set" where
  "inside s r = {t. \<exists>k. tasks s t \<in> {Some (Woken r k), Some (Holding r k)}}"

definition queued :: "linearizer \<Rightarrow> nat \<Rightarrow> nat set" where
  "queued s r = {t. \<exists>k. tasks s t = Some (Waiting r k)}"

fun place :: "lin_task \<Rightarrow> nat \<times> string" where
  "place (Waiting r k) = (r, k)"
| "place (Woken r k) = (r, k)"
| "place (Holding r k) = (r, k)"

definition entry_fits :: "linearizer \<Rightarrow> nat \<Rightarrow> bool" where
  "entry_fits s r \<longleftrightarrow>
     le_count (entries s r) = int (card (inside s r)) \<and> le_count (entries s r) \<le> max_count s \<and>
     set (le_deferreds (entries s r)) = queued s r \<and> distinct (le_deferreds (entries s r)) \<and>
     (le_deferreds (entries s r) \<noteq> [] \<longrightarrow> le_count (entries s r) = max_count s)"

text \<open>An entry stays in the dictionary only while somebody is past its lock.\<close>

definition entry_ok :: "linearizer \<Rightarrow> nat \<Rightarrow> bool" where
  "entry_ok s r \<longleftrightarrow> entry_fits s r \<and> 0 < le_count (entries s r)"

definition refs_ok :: "linearizer \<Rightarrow> bool" where
  "refs_ok s \<longleftrightarrow> 0 < max_count s \<and> finite (dom (tasks s)) \<and>
     (\<forall>t x. tasks s t = Some x \<longrightarrow> key_to_defer s (snd (place x)) = Some (fst (place x))) \<and>
     (\<forall>k r. key_to_defer s k = Some r \<longrightarrow> r < next_ref s) \<and>
     (\<forall>k k' r. key_to_defer s k = Some r \<longrightarrow> key_to_defer s k' = Some r \<longrightarrow> k' = k)"

definition lin_ok :: "linearizer \<Rightarrow> bool" where
  "lin_ok s \<longleftrightarrow> refs_ok s \<and> (\<forall>k r. key_to_defer s k = Some r \<longrightarrow> entry_ok s r)"

lemma lin_ok_new: "0 < n \<Longrightarrow> lin_ok (new_linearizer n)"
  by (simp add: lin_ok_def refs_ok_def new_linearizer_def)

lemma task_place:
  assumes "refs_ok s" "tasks s t = Some x"
  shows "key_to_defer s (snd (place x)) = Some (fst (place x))"
  using assms unfolding refs_ok_def by blast

lemma finite_inside: "refs_ok s \<Longrightarrow> finite (inside s r)" "refs_ok s \<Longrightarrow> finite (queued s r)"
proof -
  assume "refs_ok s"
  then have f: "finite (dom (tasks s))" by (simp add: refs_ok_def)
  have "inside s r \<subseteq> dom (tasks s)" "queued s r \<subseteq> dom (tasks s)" by (auto simp: inside_def queued_def)
  with f show "finite (inside s r)" "finite (queued s r)" by (auto intro: finite_subset)
qed

text \<open>Who is inside and who is queued after a task changed.\<close>

lemma inside_upd:
  "inside (s\<lparr>tasks := (tasks s)(t \<mapsto> Holding r k)\<rparr>) r' = (if r' = r then insert t (inside s r') else inside s r' - {t})"
  "inside (s\<lparr>tasks := (tasks s)(t \<mapsto> Woken r k)\<rparr>) r' = (if r' = r then insert t (inside s r') else inside s r' - {t})"
  "inside (s\<lparr>tasks := (tasks s)(t \<mapsto> Waiting r k)\<rparr>) r' = inside s r' - {t}"
  "inside (s\<lparr>tasks := (tasks s)(t := None)\<rparr>) r' = inside s r' - {t}"
  by (auto simp: inside_def)

lemma queued_upd:
  "queued (s\<lparr>tasks := (tasks s)(t \<mapsto> Holding r k)\<rparr>) r' = queued s r' - {t}"
  "queued (s\<lparr>tasks := (tasks s)(t \<mapsto> Woken r k)\<rparr>) r' = queued s r' - {t}"
  "queued (s\<lparr>tasks := (tasks s)(t \<mapsto> Waiting r k)\<rparr>) r' = (if r' = r then insert t (queued s r') else queued s r' - {t})"
  "queued (s\<lparr>tasks := (tasks s)(t := None)\<rparr>) r' = queued s r' - {t}"
  by (auto simp: queued_def)

lemma entry_congs:
  assumes "entries s' r = entries s r" "max_count s' = max_count s" "inside s' r = inside s r" "queued s' r = queued s r"
  shows "entry_fits s' r = entry_fits s r" "entry_ok s' r = entry_ok s r"
  using assms by (simp_all add: entry_fits_def entry_ok_def)

lemma views_congs:
  "tasks s' = tasks s \<Longrightarrow> inside s' = inside s" "tasks s' = tasks s \<Longrightarrow> queued s' = queued s"
  by (auto simp: inside_def queued_def fun_eq_iff)

text \<open>A task is at one entry only: changing it leaves the views of every other entry alone.\<close>

lemma views_elsewhere:
  assumes "tasks s t = None \<or> (\<exists>x. tasks s t = Some x \<and> fst (place x) = r)" "r' \<noteq> r"
    and "tasks s' = (tasks s)(t := y)" "y = None \<or> (\<exists>x. y = Some x \<and> fst (place x) = r)"
  shows "inside s' r' = inside s r'" "queued s' r' = queued s r'"
proof -
  have nt: "t \<notin> inside s r'" "t \<notin> queued s r'" using assms(1,2) by (auto simp: inside_def queued_def)
  have nt': "t \<notin> inside s' r'" "t \<notin> queued s' r'" using assms(2-4) by (auto simp: inside_def queued_def)
  have "x \<noteq> t \<Longrightarrow> tasks s' x = tasks s x" for x using assms(3) by simp
  then have "x \<noteq> t \<Longrightarrow> (x \<in> inside s' r') = (x \<in> inside s r')" "x \<noteq> t \<Longrightarrow> (x \<in> queued s' r') = (x \<in> queued s r')" for x
    by (simp_all add: inside_def queued_def)
  with nt nt' show "inside s' r' = inside s r'" "queued s' r' = queued s r'" by (metis set_eqI)+
qed

text \<open>
  The shape of every operation: the entry \<open>r\<close> of key \<open>k\<close> and one task of it change, all the rest
  stays.
\<close>

definition touches :: "nat \<Rightarrow> nat \<Rightarrow> string \<Rightarrow> linearizer \<Rightarrow> linearizer \<Rightarrow> bool" where
  "touches t r k s s' \<longleftrightarrow>
     max_count s' = max_count s \<and> next_ref s' = next_ref s \<and> key_to_defer s' = key_to_defer s \<and>
     (\<forall>r'. r' \<noteq> r \<longrightarrow> entries s' r' = entries s r') \<and>
     (tasks s t = None \<or> (\<exists>x. tasks s t = Some x \<and> place x = (r, k))) \<and>
     (\<exists>y. tasks s' = (tasks s)(t := y) \<and> (y = None \<or> (\<exists>x. y = Some x \<and> place x = (r, k))))"

definition ok_elsewhere :: "nat \<Rightarrow> linearizer \<Rightarrow> bool" where
  "ok_elsewhere r s \<longleftrightarrow> refs_ok s \<and> (\<forall>k' r'. key_to_defer s k' = Some r' \<longrightarrow> r' \<noteq> r \<longrightarrow> entry_ok s r')"

lemma touches_ok:
  assumes s: "ok_elsewhere r s" and t: "touches t r k s s'" and k: "key_to_defer s k = Some r"
  shows "ok_elsewhere r s'"
proof -
  obtain y where y: "tasks s' = (tasks s)(t := y)" "y = None \<or> (\<exists>x. y = Some x \<and> place x = (r, k))"
    and o: "tasks s t = None \<or> (\<exists>x. tasks s t = Some x \<and> place x = (r, k))"
    and same: "max_count s' = max_count s" "next_ref s' = next_ref s" "key_to_defer s' = key_to_defer s"
    and e: "\<And>r'. r' \<noteq> r \<Longrightarrow> entries s' r' = entries s r'"
    using t unfolding touches_def by blast
  have refs: "refs_ok s" using s by (simp add: ok_elsewhere_def)
  have "key_to_defer s (snd (place z)) = Some (fst (place z))" if "tasks s' u = Some z" for u z
  proof (cases "u = t")
    case True
    with y k that show ?thesis by auto
  next
    case False
    with y(1) that task_place [OF refs] show ?thesis by simp
  qed
  moreover have "finite (dom (tasks s'))" using refs by (simp add: y(1) refs_ok_def dom_fun_upd)
  ultimately have refs': "refs_ok s'" using refs same unfolding refs_ok_def by simp
  have "entry_ok s' r'" if "key_to_defer s' k' = Some r'" "r' \<noteq> r" for k' r'
  proof -
    have o': "tasks s t = None \<or> (\<exists>x. tasks s t = Some x \<and> fst (place x) = r)"
      and y': "y = None \<or> (\<exists>x. y = Some x \<and> fst (place x) = r)" using o y(2) by auto
    have "entry_ok s' r' = entry_ok s r'"
      using entry_congs(2) [OF e [OF that(2)] same(1) views_elsewhere [OF o' that(2) y(1) y']] .
    with s same that show ?thesis by (auto simp: ok_elsewhere_def)
  qed
  with refs' show ?thesis by (simp add: ok_elsewhere_def)
qed

lemma lin_ok_elsewhere: "lin_ok s \<Longrightarrow> ok_elsewhere r s"
  by (simp add: lin_ok_def ok_elsewhere_def)

lemma lin_okI: "ok_elsewhere r s \<Longrightarrow> key_to_defer s k = Some r \<Longrightarrow> entry_ok s r \<Longrightarrow> lin_ok s"
  unfolding lin_ok_def ok_elsewhere_def by metis

subsection \<open>The operations keep the invariant\<close>

lemma setdefault_ok:
  assumes s: "lin_ok s" and d: "setdefault_entry k s = (r, s1)"
  shows "ok_elsewhere r s1" "key_to_defer s1 k = Some r" "entry_fits s1 r" "tasks s1 = tasks s" "max_count s1 = max_count s"
proof -
  consider (old) "key_to_defer s k = Some r" "s1 = s"
    | (new) "key_to_defer s k = None" "r = next_ref s"
      "s1 = s\<lparr>key_to_defer := (key_to_defer s)(k \<mapsto> next_ref s),
         entries := (entries s)(next_ref s := \<lparr>le_count = 0, le_deferreds = []\<rparr>), next_ref := Suc (next_ref s)\<rparr>"
    using d unfolding setdefault_entry_def by (cases "key_to_defer s k") auto
  then have "ok_elsewhere r s1 \<and> key_to_defer s1 k = Some r \<and> entry_fits s1 r \<and> tasks s1 = tasks s \<and> max_count s1 = max_count s"
  proof cases
    case old
    with s lin_ok_elsewhere [OF s] show ?thesis by (simp add: lin_ok_def entry_ok_def)
  next
    case new
    have refs: "refs_ok s" using s by (simp add: lin_ok_def)
    have fresh: "key_to_defer s k' = Some r' \<Longrightarrow> r' < next_ref s" for k' r' using refs unfolding refs_ok_def by blast
    have unused: "tasks s u = Some z \<Longrightarrow> fst (place z) \<noteq> next_ref s \<and> snd (place z) \<noteq> k" for u z
      using task_place [OF refs, of u z] fresh new(1) by force
    have v: "inside s1 = inside s" "queued s1 = queued s" using views_congs [of s1 s] new(3) by simp_all
    have "tasks s u \<noteq> Some (Waiting r k')" "tasks s u \<noteq> Some (Woken r k')" "tasks s u \<noteq> Some (Holding r k')" for u k'
      using unused [of u "Waiting r k'"] unused [of u "Woken r k'"] unused [of u "Holding r k'"] new(2) by auto
    then have "inside s r = {}" "queued s r = {}" by (simp_all add: inside_def queued_def)
    with v new refs have fits: "entry_fits s1 r" by (simp add: entry_fits_def refs_ok_def)
    have inj: "k1 = k2" if "key_to_defer s1 k1 = Some r'" "key_to_defer s1 k2 = Some r'" for k1 k2 r'
    proof -
      have "key_to_defer s k1 = Some r' \<Longrightarrow> key_to_defer s k2 = Some r' \<Longrightarrow> k1 = k2"
        using refs unfolding refs_ok_def by metis
      then show ?thesis using that new fresh [of k1 r'] fresh [of k2 r'] by (auto split: if_splits)
    qed
    have bound: "r' < next_ref s1" if "key_to_defer s1 k' = Some r'" for k' r'
      using that new fresh [of k' r'] by (auto split: if_splits)
    have "key_to_defer s1 (snd (place z)) = Some (fst (place z))" if "tasks s1 u = Some z" for u z
      using that task_place [OF refs, of u z] unused [of u z] new by simp
    moreover have "0 < max_count s1" "finite (dom (tasks s1))" using refs new by (simp_all add: refs_ok_def)
    ultimately have "refs_ok s1" using inj bound unfolding refs_ok_def by blast
    moreover have "entry_ok s1 r'" if "key_to_defer s1 k' = Some r'" "r' \<noteq> r" for k' r'
    proof -
      from that new have "key_to_defer s k' = Some r'" by (auto split: if_splits)
      with s have "entry_ok s r'" by (simp add: lin_ok_def)
      with entry_congs(2) [of s1 r' s] v new that show ?thesis by simp
    qed
    ultimately show ?thesis using fits new by (simp add: ok_elsewhere_def)
  qed
  then show "ok_elsewhere r s1" "key_to_defer s1 k = Some r" "entry_fits s1 r" "tasks s1 = tasks s" "max_count s1 = max_count s"
    by blast+
qed

lemma not_at: "tasks s t = None \<Longrightarrow> t \<notin> inside s r" "tasks s t = None \<Longrightarrow> t \<notin> queued s r"
  by (auto simp: inside_def queued_def)

lemma acquire_lock_ok:
  assumes s: "lin_ok s" and t: "tasks s t = None"
  shows "lin_ok (acquire_lock t k s)"
proof -
  obtain r s1 where d: "setdefault_entry k s = (r, s1)" by force
  note d1 = setdefault_ok [OF s d]
  let ?s' = "acquire_lock t k s"
  have t1: "tasks s1 t = None" using t d1(4) by simp
  have touch: "touches t r k s1 ?s'"
    using t1 by (auto simp: acquire_lock_def d touches_def Let_def)
  have key: "key_to_defer ?s' k = Some r" using touch d1(2) by (simp add: touches_def)
  have refs: "refs_ok s1" using d1(1) by (simp add: ok_elsewhere_def)
  have pos: "0 < max_count s1" using refs by (simp add: refs_ok_def)
  have "entry_ok ?s' r"
  proof (cases "le_count (entries s1 r) < max_count s1")
    case True
    then have "inside ?s' r = insert t (inside s1 r)" "queued ?s' r = queued s1 r" "entries ?s' r = (entries s1 r)\<lparr>le_count := le_count (entries s1 r) + 1\<rparr>"
      "max_count ?s' = max_count s1"
      using t1 by (auto simp: acquire_lock_def d Let_def inside_def queued_def)
    with True d1(3) not_at [OF t1] finite_inside [OF refs] pos show ?thesis
      by (auto simp: entry_ok_def entry_fits_def)
  next
    case False
    then have "inside ?s' r = inside s1 r" "queued ?s' r = insert t (queued s1 r)" "entries ?s' r = (entries s1 r)\<lparr>le_deferreds := le_deferreds (entries s1 r) @ [t]\<rparr>"
      "max_count ?s' = max_count s1"
      using t1 by (auto simp: acquire_lock_def d Let_def inside_def queued_def)
    with False d1(3) not_at [OF t1] pos show ?thesis
      by (auto simp: entry_ok_def entry_fits_def)
  qed
  with touches_ok [OF d1(1) touch d1(2)] key show ?thesis by (blast intro: lin_okI)
qed

lemma awake_ok:
  assumes s: "lin_ok s" and t: "tasks s t = Some (Woken r k)"
  shows "lin_ok (s\<lparr>tasks := (tasks s)(t \<mapsto> Holding r k)\<rparr>)" (is "lin_ok ?s'")
proof -
  have key: "key_to_defer s k = Some r" using s task_place [OF _ t] by (simp add: lin_ok_def)
  have "touches t r k s ?s'" using t by (auto simp: touches_def)
  from touches_ok [OF lin_ok_elsewhere [OF s] this key] have o: "ok_elsewhere r ?s'" .
  have "inside ?s' r = inside s r" "queued ?s' r = queued s r" using t by (auto simp: inside_def queued_def)
  with entry_congs(2) [of ?s' r s] s key have "entry_ok ?s' r" by (simp add: lin_ok_def)
  with o key show ?thesis by (auto intro: lin_okI)
qed

lemma cancel_wait_ok:
  assumes s: "lin_ok s" and t: "tasks s t = Some (Waiting r k)"
  shows "lin_ok (cancel_wait t r s)" (is "lin_ok ?s'")
proof -
  have key: "key_to_defer s k = Some r" using s task_place [OF _ t] by (simp add: lin_ok_def)
  have "touches t r k s ?s'" using t by (auto simp: touches_def cancel_wait_def forget_task_def)
  from touches_ok [OF lin_ok_elsewhere [OF s] this key] have o: "ok_elsewhere r ?s'" .
  have v: "inside ?s' r = inside s r" "queued ?s' r = queued s r - {t}" "max_count ?s' = max_count s"
    "entries ?s' r = (entries s r)\<lparr>le_deferreds := remove1 t (le_deferreds (entries s r))\<rparr>"
    using t by (auto simp: inside_def queued_def cancel_wait_def forget_task_def)
  have "entry_ok s r" using s key by (simp add: lin_ok_def)
  with v have "entry_ok ?s' r" by (auto simp: entry_ok_def entry_fits_def set_remove1_eq)
  with o key show ?thesis by (auto intro: lin_okI simp: cancel_wait_def forget_task_def)
qed

text \<open>A key whose entry nobody is at any more can leave the dictionary.\<close>

lemma drop_key_ok:
  assumes s: "ok_elsewhere r s" and k: "key_to_defer s k = Some r" and e: "inside s r = {}" "queued s r = {}"
  shows "lin_ok (s\<lparr>key_to_defer := (key_to_defer s)(k := None)\<rparr>)" (is "lin_ok ?s'")
proof -
  have refs: "refs_ok s" using s by (simp add: ok_elsewhere_def)
  have inj: "key_to_defer s k1 = Some r' \<Longrightarrow> key_to_defer s k2 = Some r' \<Longrightarrow> k1 = k2" for k1 k2 r'
    using refs unfolding refs_ok_def by metis
  have "snd (place z) \<noteq> k" if "tasks s u = Some z" for u z
  proof
    assume "snd (place z) = k"
    with task_place [OF refs that] k have "fst (place z) = r" by simp
    with that e show False by (cases z) (auto simp: inside_def queued_def)
  qed
  then have tp: "tasks ?s' u = Some z \<Longrightarrow> key_to_defer ?s' (snd (place z)) = Some (fst (place z))" for u z
    using task_place [OF refs, of u z] by simp
  have bound: "key_to_defer ?s' k' = Some r' \<Longrightarrow> r' < next_ref ?s'" for k' r'
    using refs unfolding refs_ok_def by (simp split: if_splits)
  have inj': "key_to_defer ?s' k1 = Some r' \<Longrightarrow> key_to_defer ?s' k2 = Some r' \<Longrightarrow> k2 = k1" for k1 k2 r'
    using inj by (simp split: if_splits)
  have "0 < max_count ?s'" "finite (dom (tasks ?s'))" using refs by (simp_all add: refs_ok_def)
  with tp bound inj' have refs': "refs_ok ?s'" unfolding refs_ok_def by blast
  have "entry_ok ?s' r'" if "key_to_defer ?s' k' = Some r'" for k' r'
  proof -
    from that have a: "key_to_defer s k' = Some r'" "k' \<noteq> k" by (auto split: if_splits)
    with inj [of k' r' k] k have "r' \<noteq> r" by auto
    with s a have "entry_ok s r'" by (simp add: ok_elsewhere_def)
    with entry_congs(2) [of ?s' r' s] views_congs [of ?s' s] show ?thesis by simp
  qed
  with refs' show ?thesis by (simp add: lin_ok_def)
qed

lemma release_lock_ok:
  assumes s: "lin_ok s" and t: "tasks s t \<in> {Some (Holding r k), Some (Woken r k)}"
  shows "lin_ok (release_lock k r (forget_task t s))"
proof -
  let ?f = "forget_task t s"
  have refs: "refs_ok s" using s by (simp add: lin_ok_def)
  have key: "key_to_defer s k = Some r" using t task_place [OF refs, of t] by auto
  have f: "touches t r k s ?f" using t by (auto simp: touches_def forget_task_def)
  note of = touches_ok [OF lin_ok_elsewhere [OF s] f key]
  have fk: "key_to_defer ?f k = Some r" "entries ?f = entries s" "max_count ?f = max_count s"
    using key by (simp_all add: forget_task_def)
  have vf: "inside ?f r = inside s r - {t}" "queued ?f r = queued s r"
    using t by (auto simp: forget_task_def inside_def queued_def)
  have tin: "t \<in> inside s r" using t by (auto simp: inside_def)
  have cf: "int (card (inside s r)) = int (card (inside ?f r)) + 1"
    using card_Suc_Diff1 [OF finite_inside(1) [OF refs] tin] by (simp add: vf)
  have eok: "entry_ok s r" using s key by (simp add: lin_ok_def)
  show ?thesis
  proof (cases "le_deferreds (entries s r)")
    case (Cons d ds)
    let ?r = "release_lock k r ?f"
    have r: "entries ?r r = (entries s r)\<lparr>le_deferreds := ds\<rparr>" "tasks ?r = (tasks ?f)(d \<mapsto> Woken r k)"
      using Cons by (simp_all add: release_lock_def fk(2) Let_def)
    have "d \<in> queued ?f r" using Cons eok vf by (auto simp: entry_ok_def entry_fits_def)
    then obtain k' where k': "tasks ?f d = Some (Waiting r k')" by (auto simp: queued_def)
    with task_place [of ?f d] of have "key_to_defer s k' = Some r" by (auto simp: ok_elsewhere_def forget_task_def)
    with refs key have "k' = k" unfolding refs_ok_def by blast
    with k' have dt: "tasks ?f d = Some (Waiting r k)" by simp
    then have dq: "d \<notin> inside ?f r" by (simp add: inside_def)
    have "touches d r k ?f ?r" using Cons dt r by (auto simp: touches_def release_lock_def fk(2) Let_def)
    note o = touches_ok [OF of this fk(1)]
    have m: "max_count ?r = max_count s" "key_to_defer ?r k = Some r"
      using Cons fk by (simp_all add: release_lock_def Let_def)
    have vr: "inside ?r r = insert d (inside ?f r)" "queued ?r r = queued s r - {d}"
      using vf(2) by (auto simp: inside_def queued_def r(2))
    have "finite (inside ?f r)" using vf finite_inside(1) [OF refs] by simp
    with dq cf vr have c: "card (inside ?r r) = card (inside s r)" by simp
    have "entry_ok ?r r" using eok Cons by (auto simp: entry_ok_def entry_fits_def r(1) c vr(2) m(1))
    with o m(2) show ?thesis by (blast intro: lin_okI)
  next
    case Nil
    let ?g = "?f\<lparr>entries := (entries s)(r := (entries s r)\<lparr>le_count := le_count (entries s r) - 1\<rparr>)\<rparr>"
    have "touches t r k s ?g" using t by (auto simp: touches_def forget_task_def)
    note o = touches_ok [OF lin_ok_elsewhere [OF s] this key]
    have vg: "inside (?f\<lparr>entries := e\<rparr>) = inside ?f" "queued (?f\<lparr>entries := e\<rparr>) = queued ?f" for e
      using views_congs [of "?f\<lparr>entries := e\<rparr>" ?f] by simp_all
    have fits: "entry_fits ?g r" using eok Nil cf fk by (simp add: entry_ok_def entry_fits_def vg vf)
    have gk: "key_to_defer ?g k = Some r" using fk by simp
    show ?thesis
    proof (cases "le_count (entries s r) - 1 = 0")
      case True
      then have "inside ?g r = {}" "queued ?g r = {}"
        using fits finite_inside(1) [OF refs] Nil by (auto simp: entry_fits_def vg vf)
      from drop_key_ok [OF o gk this] show ?thesis
        using True Nil by (simp add: release_lock_def fk(2) Let_def)
    next
      case False
      then have "entry_ok ?g r" using fits eok by (simp add: entry_ok_def)
      from lin_okI [OF o gk this] show ?thesis using False Nil by (simp add: release_lock_def fk(2) Let_def)
    qed
  qed
qed

interpretation lin: machine "\<lambda>s. \<exists>n > 0. s = new_linearizer n" lin_step lin_ok
proof unfold_locales
  fix s t
  show "\<exists>n > 0. s = new_linearizer n \<Longrightarrow> lin_ok s" using lin_ok_new by blast
  assume "lin_ok s" "lin_step s t"
  from this(2,1) show "lin_ok t"
    by cases (auto intro: acquire_lock_ok awake_ok cancel_wait_ok release_lock_ok)
qed

lemma lin_reachable: "0 < n \<Longrightarrow> lin_step\<^sup>*\<^sup>* (new_linearizer n) s \<Longrightarrow> lin_ok s"
  by (rule lin.good_reachable) auto

subsection \<open>What the lock guarantees\<close>

lemma max_count_step: "lin_step s s' \<Longrightarrow> max_count s' = max_count s"
  by (induction rule: lin_step.induct)
    (auto simp: acquire_lock_def setdefault_entry_def release_lock_def forget_task_def cancel_wait_def Let_def
      split: option.splits list.splits)

lemma max_count_steps: "lin_step\<^sup>*\<^sup>* s s' \<Longrightarrow> max_count s' = max_count s"
  by (induction rule: rtranclp_induct) (simp_all add: max_count_step)

definition holders :: "linearizer \<Rightarrow> string \<Rightarrow> nat set" where
  "holders s k = {t. \<exists>r. tasks s t \<in> {Some (Woken r k), Some (Holding r k)}}"

definition waiters :: "linearizer \<Rightarrow> string \<Rightarrow> nat set" where
  "waiters s k = {t. \<exists>r. tasks s t = Some (Waiting r k)}"

lemma key_views:
  assumes "lin_ok s"
  shows "key_to_defer s k = Some r \<Longrightarrow> holders s k = inside s r" "key_to_defer s k = Some r \<Longrightarrow> waiters s k = queued s r"
    "key_to_defer s k = None \<Longrightarrow> holders s k = {} \<and> waiters s k = {}"
proof -
  have refs: "refs_ok s" using assms by (simp add: lin_ok_def)
  have inj: "key_to_defer s k1 = Some r' \<Longrightarrow> key_to_defer s k2 = Some r' \<Longrightarrow> k1 = k2" for k1 k2 r'
    using refs unfolding refs_ok_def by metis
  have tp: "tasks s t = Some x \<Longrightarrow> key_to_defer s (snd (place x)) = Some (fst (place x))" for t x
    using task_place [OF refs] .
  show "key_to_defer s k = None \<Longrightarrow> holders s k = {} \<and> waiters s k = {}"
    using tp by (fastforce simp: holders_def waiters_def)
  assume k: "key_to_defer s k = Some r"
  have "(\<exists>r'. tasks s t = Some (c r' k)) = (\<exists>k'. tasks s t = Some (c r k'))"
    if "\<And>r k. place (c r k) = (r, k)" for c t
  proof
    assume "\<exists>r'. tasks s t = Some (c r' k)"
    then obtain r' where "tasks s t = Some (c r' k)" ..
    with tp [OF this] that k show "\<exists>k'. tasks s t = Some (c r k')" by auto
  next
    assume "\<exists>k'. tasks s t = Some (c r k')"
    then obtain k' where "tasks s t = Some (c r k')" ..
    with tp [OF this] that k inj [of k r k'] show "\<exists>r'. tasks s t = Some (c r' k)" by auto
  qed
  from this [of Woken] this [of Holding] this [of Waiting]
  have w: "(\<exists>r'. tasks s t = Some (Woken r' k)) = (\<exists>k'. tasks s t = Some (Woken r k'))"
    "(\<exists>r'. tasks s t = Some (Holding r' k)) = (\<exists>k'. tasks s t = Some (Holding r k'))"
    "(\<exists>r'. tasks s t = Some (Waiting r' k)) = (\<exists>k'. tasks s t = Some (Waiting r k'))" for t
    by simp_all
  then show "holders s k = inside s r" "waiters s k = queued s r"
    by (simp_all add: holders_def inside_def waiters_def queued_def ex_disj_distrib)
qed

text \<open>How far a task is from the front of its queue.\<close>

definition ahead :: "linearizer \<Rightarrow> nat \<Rightarrow> nat \<Rightarrow> nat" where
  "ahead s r t = length (takeWhile ((\<noteq>) t) (le_deferreds (entries s r)))"

lemma takeWhile_append_le: "t \<in> set q \<Longrightarrow> takeWhile ((\<noteq>) t) (q @ q') = takeWhile ((\<noteq>) t) q"
  by (induction q) auto

lemma takeWhile_remove1_le:
  "u \<noteq> t \<Longrightarrow> length (takeWhile ((\<noteq>) t) (remove1 u q)) \<le> length (takeWhile ((\<noteq>) t) q)"
  by (induction q) auto

lemma ahead_acquire:
  assumes "lin_ok s" "tasks s u = None" "tasks s t = Some (Waiting r k)"
  shows "ahead (acquire_lock u k' s) r t = ahead s r t"
proof -
  have refs: "refs_ok s" using assms(1) by (simp add: lin_ok_def)
  have key: "key_to_defer s k = Some r" using task_place [OF refs assms(3)] by simp
  have tq: "t \<in> set (le_deferreds (entries s r))"
    using assms(1,3) key by (auto simp: lin_ok_def entry_ok_def entry_fits_def queued_def)
  have "r < next_ref s" using refs key unfolding refs_ok_def by blast
  then have "r \<noteq> next_ref s" by simp
  with tq show ?thesis
    by (cases "key_to_defer s k'")
      (auto simp: acquire_lock_def setdefault_entry_def Let_def ahead_def takeWhile_append_le)
qed

lemma ahead_release:
  assumes "tasks (release_lock k' r' (forget_task u s)) t = Some (Waiting r k)"
  shows "ahead (release_lock k' r' (forget_task u s)) r t \<le> ahead s r t"
  using assms by (auto simp: release_lock_def forget_task_def Let_def ahead_def split: list.splits if_splits)

lemma ahead_cancel:
  assumes "tasks s t = Some (Waiting r k)" "tasks (cancel_wait u r' s) t = Some (Waiting r k)"
  shows "ahead (cancel_wait u r' s) r t \<le> ahead s r t"
proof -
  have "u \<noteq> t" using assms(2) by (auto simp: cancel_wait_def forget_task_def)
  then show ?thesis by (auto simp: cancel_wait_def forget_task_def ahead_def takeWhile_remove1_le)
qed

lemma ahead_step:
  assumes "lin_step s s'" "lin_ok s" "tasks s t = Some (Waiting r k)" "tasks s' t = Some (Waiting r k)"
  shows "ahead s' r t \<le> ahead s r t"
  using assms
proof cases
  case (acquire u k')
  with ahead_acquire assms(2,3) show ?thesis by simp
next
  case (awake u r' k')
  then show ?thesis by (simp add: ahead_def)
next
  case (release u r' k')
  with assms(4) ahead_release show ?thesis by blast
next
  case (cancel_woken u r' k')
  with assms(4) ahead_release show ?thesis by blast
next
  case (cancel_waiting u r' k')
  with assms(3,4) ahead_cancel show ?thesis by blast
qed

text \<open>The step of the lock that a release by a task past the lock for key \<open>k\<close> makes, and where it leaves the queue.\<close>

lemma release_hands_over:
  assumes "lin_ok s" "tasks s t = Some (Waiting r k)" "u \<in> holders s k"
  shows "tasks (release_lock k r (forget_task u s)) t = Some (Woken r k) \<or>
         tasks (release_lock k r (forget_task u s)) t = Some (Waiting r k) \<and>
         ahead s r t = Suc (ahead (release_lock k r (forget_task u s)) r t)"
proof -
  have key: "key_to_defer s k = Some r" using assms(1) task_place [OF _ assms(2)] by (simp add: lin_ok_def)
  have tq: "t \<in> set (le_deferreds (entries s r))"
    using assms(1,2) key by (auto simp: lin_ok_def entry_ok_def entry_fits_def queued_def)
  then obtain d ds where q: "le_deferreds (entries s r) = d # ds" by (cases "le_deferreds (entries s r)") auto
  have "u \<noteq> t" using assms(2,3) by (auto simp: holders_def)
  with assms(2) q show ?thesis by (auto simp: release_lock_def forget_task_def Let_def ahead_def)
qed

text \<open>
  C35. Mutual exclusion of \<open>Linearizer\<close>, whatever the coroutines do and whichever of them are
  cancelled: at most \<open>max_count\<close> of them are past the lock for a key at any time, and the dictionary
  has an entry for a key exactly while somebody holds its lock, so an entry is never left behind.
\<close>

theorem linearizer_exclusion:
  assumes "0 < n" "lin_step\<^sup>*\<^sup>* (new_linearizer n) s"
  shows "finite (holders s k) \<and> int (card (holders s k)) \<le> n \<and> (key_to_defer s k = None \<longleftrightarrow> holders s k = {})"
proof -
  have ok: "lin_ok s" using lin_reachable [OF assms] .
  have n: "max_count s = n" using max_count_steps [OF assms(2)] by (simp add: new_linearizer_def)
  show ?thesis
  proof (cases "key_to_defer s k")
    case None
    with key_views(3) [OF ok] assms(1) show ?thesis by simp
  next
    case (Some r)
    then have "entry_ok s r" "finite (inside s r)" using ok finite_inside by (simp_all add: lin_ok_def)
    with Some n key_views(1) [OF ok Some] show ?thesis by (auto simp: entry_ok_def entry_fits_def)
  qed
qed

text \<open>
  No coroutine is forgotten in the queue of a \<open>Linearizer\<close>: one waits only while the lock is
  fully used, no step moves it back in the queue, and each time a task past the lock lets go, by
  leaving the block or by being cancelled, it moves up by one or is woken.
\<close>

theorem linearizer_waiter_progress:
  assumes "0 < n" "lin_step\<^sup>*\<^sup>* (new_linearizer n) s" "tasks s t = Some (Waiting r k)"
  shows "int (card (holders s k)) = n \<and>
    (\<forall>s'. lin_step s s' \<longrightarrow> tasks s' t = Some (Waiting r k) \<longrightarrow> ahead s' r t \<le> ahead s r t) \<and>
    (\<forall>u \<in> holders s k. tasks (release_lock k r (forget_task u s)) t = Some (Woken r k) \<or>
       tasks (release_lock k r (forget_task u s)) t = Some (Waiting r k) \<and>
       ahead s r t = Suc (ahead (release_lock k r (forget_task u s)) r t))"
proof -
  have ok: "lin_ok s" using lin_reachable [OF assms(1,2)] .
  have key: "key_to_defer s k = Some r" using ok task_place [OF _ assms(3)] by (simp add: lin_ok_def)
  then have "entry_ok s r" using ok by (simp add: lin_ok_def)
  moreover have "t \<in> queued s r" using assms(3) by (auto simp: queued_def)
  ultimately have "le_count (entries s r) = max_count s" "le_count (entries s r) = int (card (inside s r))"
    by (auto simp: entry_ok_def entry_fits_def)
  then have "int (card (holders s k)) = n"
    using key_views(1) [OF ok key] max_count_steps [OF assms(2)] by (simp add: new_linearizer_def)
  with ahead_step [OF _ ok assms(3)] release_hands_over [OF ok assms(3)] show ?thesis by blast
qed

text \<open>Two coroutines at one key: the second waits, and gets the lock when the first leaves.\<close>

definition lin_run :: linearizer where
  "lin_run = acquire_lock 2 ''k'' (acquire_lock 1 ''k'' (new_linearizer 1))"

lemmas lin_defs = lin_run_def acquire_lock_def setdefault_entry_def new_linearizer_def release_lock_def forget_task_def Let_def

lemma lin_run_reachable: "lin_step\<^sup>*\<^sup>* (new_linearizer 1) lin_run"
proof -
  have "lin_step (new_linearizer 1) (acquire_lock 1 ''k'' (new_linearizer 1))"
    by (rule lin_step.acquire) (simp add: lin_defs)
  moreover have "lin_step (acquire_lock 1 ''k'' (new_linearizer 1)) lin_run"
    unfolding lin_run_def by (rule lin_step.acquire) (simp add: lin_defs)
  ultimately show ?thesis by auto
qed

lemma lin_run_state:
  "tasks lin_run 2 = Some (Waiting 0 ''k'')" "1 \<in> holders lin_run ''k''"
  "key_to_defer lin_run ''k'' = Some 0"
  by (simp_all add: lin_defs holders_def)

theorem linearizer_exclusion_witness:
  "int (card (holders lin_run ''k'')) \<le> 1 \<and> 1 \<in> holders lin_run ''k'' \<and> key_to_defer lin_run ''k'' = Some 0"
  using linearizer_exclusion [OF _ lin_run_reachable, of "''k''"] lin_run_state by simp

theorem linearizer_waiter_progress_witness:
  "int (card (holders lin_run ''k'')) = 1 \<and> tasks lin_run 2 = Some (Waiting 0 ''k'') \<and>
   tasks (release_lock ''k'' 0 (forget_task 1 lin_run)) 2 = Some (Woken 0 ''k'')"
  using linearizer_waiter_progress [OF _ lin_run_reachable lin_run_state(1)] lin_run_state
  by (simp add: lin_defs)

end
