(* ===== verification/Id_Generators.thy ===== *)
theory Id_Generators
  imports Actions Locks
begin

text \<open>
  The stream id generators of \<open>storage/util/id_generators.py\<close>: \<open>StreamIdGenerator\<close> for streams with one
  writer and \<open>MultiWriterIdGenerator\<close> for streams that several worker processes write.  The code under
  \<open>self._lock\<close> is atomic, so each such block is one function on the state.  Sorted containers and
  the heap are sorted lists, the insertion ordered dict of unfinished ids is a list.
\<close>

section \<open>StreamIdGenerator\<close>

record stream_id_gen =
  sg_step :: int
  sg_current :: int
  sg_is_writer :: bool
  sg_unfinished_ids :: "int list"

text \<open>\<open>max if step > 0 else min\<close>\<close>

definition furthest :: "int \<Rightarrow> int \<Rightarrow> int \<Rightarrow> int" where
  "furthest step a b = (if step > 0 then max a b else min a b)"

text \<open>\<open>_load_current_id\<close>, given the column of the table that it aggregates.\<close>

definition load_current_id :: "int list \<Rightarrow> int \<Rightarrow> int" where
  "load_current_id column step =
     (let val = (if column = [] then None else Some (if step = 1 then Max (set column) else Min (set column)));
          current_id = (case val of None \<Rightarrow> step | Some v \<Rightarrow> if v = 0 then step else v)
      in furthest step current_id step)"

definition new_stream_id_gen :: "int list \<Rightarrow> int list list \<Rightarrow> int \<Rightarrow> bool \<Rightarrow> stream_id_gen result" where
  "new_stream_id_gen column extra_columns step is_writer =
     bindR (guardR (step \<noteq> 0) AssertionErr) (\<lambda>_.
     Inr \<lparr>sg_step = step,
          sg_current = foldl (\<lambda>c col. furthest step c (load_current_id col step)) (load_current_id column step) extra_columns,
          sg_is_writer = is_writer, sg_unfinished_ids = []\<rparr>)"

definition sg_advance :: "int \<Rightarrow> (stream_id_gen, unit) action" where
  "sg_advance new_id =
     bindA (readA sg_is_writer) (\<lambda>w.
     bindA (guardA (\<not> w) GenericException) (\<lambda>_.
     writeA (\<lambda>g. g\<lparr>sg_current := furthest (sg_step g) (sg_current g) new_id\<rparr>)))"

text \<open>\<open>d[x] = x\<close> of an ordered dict\<close>

definition od_insert :: "int \<Rightarrow> int list \<Rightarrow> int list" where
  "od_insert x xs = (if x \<in> set xs then xs else xs @ [x])"

definition sg_get_next :: "stream_id_gen \<Rightarrow> int \<times> stream_id_gen" where
  "sg_get_next g =
     (let next_id = sg_current g + sg_step g
      in (next_id, g\<lparr>sg_current := next_id, sg_unfinished_ids := od_insert next_id (sg_unfinished_ids g)\<rparr>))"

text \<open>\<open>range(start, stop, step)\<close> of \<open>n\<close> elements; a negative \<open>n\<close> gives none.\<close>

definition next_range :: "int \<Rightarrow> int \<Rightarrow> int \<Rightarrow> int list" where
  "next_range start step n = map (\<lambda>i. start + step * int i) [0..<nat n]"

definition sg_get_next_mult :: "int \<Rightarrow> stream_id_gen \<Rightarrow> int list \<times> stream_id_gen" where
  "sg_get_next_mult n g =
     (let next_ids = next_range (sg_current g + sg_step g) (sg_step g) n
      in (next_ids, g\<lparr>sg_current := sg_current g + n * sg_step g,
                      sg_unfinished_ids := foldl (\<lambda>d x. od_insert x d) (sg_unfinished_ids g) next_ids\<rparr>))"

definition sg_get_next_txn :: "(stream_id_gen, int) action" where
  "sg_get_next_txn g = (if sg_is_writer g then (case sg_get_next g of (i, g') \<Rightarrow> (Inr i, g')) else (Inl GenericException, g))"

text \<open>The end of the context managers and of the transaction: \<open>_unfinished_ids.pop(next_id)\<close> for each id.\<close>

fun sg_finish :: "int list \<Rightarrow> (stream_id_gen, unit) action" where
  "sg_finish [] g = (Inr (), g)"
| "sg_finish (x # xs) g =
     (if x \<in> set (sg_unfinished_ids g)
      then sg_finish xs (g\<lparr>sg_unfinished_ids := remove1 x (sg_unfinished_ids g)\<rparr>)
      else (Inl KeyErr, g))"

definition sg_get_current_token :: "stream_id_gen \<Rightarrow> int" where
  "sg_get_current_token g =
     (if \<not> sg_is_writer g then sg_current g
      else (case sg_unfinished_ids g of x # _ \<Rightarrow> x - sg_step g | [] \<Rightarrow> sg_current g))"

subsection \<open>What is known of the ids up to the current token\<close>

text \<open>A writer's generator with its history: the ids handed out and those among them that are finished.\<close>

record sg_history =
  sg_gen :: stream_id_gen
  handed :: "int set"
  completed :: "int set"

inductive sg_hstep :: "sg_history \<Rightarrow> sg_history \<Rightarrow> bool" where
  next_id: "sg_get_next (sg_gen h) = (i, g) \<Longrightarrow> sg_hstep h (h\<lparr>sg_gen := g, handed := insert i (handed h)\<rparr>)"
| next_mult: "0 \<le> n \<Longrightarrow> sg_get_next_mult n (sg_gen h) = (ids, g) \<Longrightarrow>
    sg_hstep h (h\<lparr>sg_gen := g, handed := handed h \<union> set ids\<rparr>)"
| finish: "sg_finish ids (sg_gen h) = (Inr (), g) \<Longrightarrow>
    sg_hstep h (h\<lparr>sg_gen := g, completed := completed h \<union> set ids\<rparr>)"

definition sg_ok :: "sg_history \<Rightarrow> bool" where
  "sg_ok h \<longleftrightarrow>
     (let g = sg_gen h; k = sg_step g
      in k \<noteq> 0 \<and> sg_is_writer g \<and> sorted_wrt (\<lambda>x y. k * x < k * y) (sg_unfinished_ids g) \<and>
         set (sg_unfinished_ids g) = handed h - completed h \<and> completed h \<subseteq> handed h \<and>
         (\<forall>x \<in> handed h. k * x \<le> k * sg_current g))"

lemma directed_distinct: "sorted_wrt (\<lambda>x y. (k :: int) * x < k * y) u \<Longrightarrow> distinct u"
  by (induction u) auto

lemma directed_remove1:
  "sorted_wrt (\<lambda>x y. (k :: int) * x < k * y) u \<Longrightarrow> sorted_wrt (\<lambda>x y. k * x < k * y) (remove1 a u)"
  by (induction u) (auto dest: subsetD [OF set_remove1_subset])

lemma sg_finish_ok:
  "sg_finish ids g = (Inr (), g') \<Longrightarrow> sorted_wrt (\<lambda>x y. k * x < k * y) (sg_unfinished_ids g) \<Longrightarrow>
   sorted_wrt (\<lambda>x y. k * x < k * y) (sg_unfinished_ids g') \<and>
   set (sg_unfinished_ids g') = set (sg_unfinished_ids g) - set ids \<and> set ids \<subseteq> set (sg_unfinished_ids g) \<and>
   sg_step g' = sg_step g \<and> sg_current g' = sg_current g \<and> sg_is_writer g' = sg_is_writer g"
proof (induction ids g arbitrary: g' rule: sg_finish.induct)
  case (2 x xs g)
  let ?u = "sg_unfinished_ids g"
  have x: "x \<in> set ?u" and f: "sg_finish xs (g\<lparr>sg_unfinished_ids := remove1 x ?u\<rparr>) = (Inr (), g')"
    using 2(2) by (auto split: if_splits)
  have s: "set (remove1 x ?u) = set ?u - {x}" using directed_distinct [OF 2(3)] by (rule set_remove1_eq)
  have "sorted_wrt (\<lambda>x y. k * x < k * y) (remove1 x ?u)" using 2(3) by (rule directed_remove1)
  with 2(1) [OF x f] s x show ?case by auto
qed simp

lemma od_insert_all:
  assumes "distinct ids" "set d \<inter> set ids = {}"
  shows "foldl (\<lambda>d x. od_insert x d) d ids = d @ ids"
  using assms by (induction ids arbitrary: d) (auto simp: od_insert_def)

lemma next_range_directed: "0 \<noteq> (k :: int) \<Longrightarrow> sorted_wrt (\<lambda>x y. k * x < k * y) (next_range s k n)"
  by (auto simp: next_range_def sorted_wrt_map sorted_wrt_iff_nth_less distrib_left mult_less_cancel_left)

lemma next_range_bounds:
  assumes "x \<in> set (next_range (c + k) k n)" "(k :: int) \<noteq> 0"
  shows "k * c < k * x" "k * x \<le> k * (c + n * k)"
proof -
  obtain i where i: "x = c + k + k * int i" "i < nat n" using assms(1) unfolding next_range_def set_map by (elim imageE) auto
  have kk: "0 < k * k" using assms(2) by (auto simp: zero_less_mult_iff)
  have "0 < k * k * (1 + int i)" using kk by (simp add: zero_less_mult_iff)
  then show "k * c < k * x" by (simp add: i(1) algebra_simps)
  have "k * k * (1 + int i) \<le> k * k * n" using i(2) kk by (intro mult_left_mono) auto
  then show "k * x \<le> k * (c + n * k)" by (simp add: i(1) algebra_simps)
qed

lemma sg_get_next_is_mult: "sg_get_next g = (i, g') \<Longrightarrow> sg_get_next_mult 1 g = ([i], g')"
  by (auto simp: sg_get_next_def sg_get_next_mult_def next_range_def Let_def)

lemma sg_mult_ok:
  assumes ok: "sg_ok h" and n: "0 \<le> n" "sg_get_next_mult n (sg_gen h) = (ids, g)"
  shows "sg_ok (h\<lparr>sg_gen := g, handed := handed h \<union> set ids\<rparr>)"
proof -
  let ?g = "sg_gen h" and ?k = "sg_step (sg_gen h)"
  have k: "?k \<noteq> 0" and w: "sg_is_writer ?g" and u: "sorted_wrt (\<lambda>x y. ?k * x < ?k * y) (sg_unfinished_ids ?g)"
    "set (sg_unfinished_ids ?g) = handed h - completed h" "completed h \<subseteq> handed h"
    "\<And>x. x \<in> handed h \<Longrightarrow> ?k * x \<le> ?k * sg_current ?g"
    using ok by (simp_all add: sg_ok_def Let_def)
  have ids: "ids = next_range (sg_current ?g + ?k) ?k n"
    and g: "g = ?g\<lparr>sg_current := sg_current ?g + n * ?k, sg_unfinished_ids := foldl (\<lambda>d x. od_insert x d) (sg_unfinished_ids ?g) ids\<rparr>"
    using n(2) by (auto simp: sg_get_next_mult_def Let_def)
  have new: "?k * sg_current ?g < ?k * x" "?k * x \<le> ?k * (sg_current ?g + n * ?k)" if "x \<in> set ids" for x
    using next_range_bounds [OF _ k] that by (simp_all add: ids)
  have s: "sorted_wrt (\<lambda>x y. ?k * x < ?k * y) ids" using next_range_directed k by (simp add: ids)
  have fresh: "x \<notin> set ids" if "x \<in> handed h" for x using new(1) [of x] u(4) [OF that] by auto
  then have "sg_unfinished_ids g = sg_unfinished_ids ?g @ ids"
    using od_insert_all [OF directed_distinct [OF s], of "sg_unfinished_ids ?g"] u(2) by (auto simp: g)
  moreover have "sorted_wrt (\<lambda>x y. ?k * x < ?k * y) (sg_unfinished_ids ?g @ ids)"
    using u(1) s by (auto simp: sorted_wrt_append u(2) intro: le_less_trans [OF u(4) new(1)])
  moreover have "?k * sg_current ?g \<le> ?k * (sg_current ?g + n * ?k)"
  proof -
    have "0 \<le> n * (?k * ?k)" using n(1) by simp
    then show ?thesis by (simp add: algebra_simps)
  qed
  ultimately show ?thesis using k w u fresh new(2) by (auto simp: sg_ok_def Let_def g intro: order_trans)
qed

interpretation sg: machine
  "\<lambda>h. (\<exists>col cols k. new_stream_id_gen col cols k True = Inr (sg_gen h)) \<and> handed h = {} \<and> completed h = {}" sg_hstep sg_ok
proof unfold_locales
  fix h h'
  show "(\<exists>col cols k. new_stream_id_gen col cols k True = Inr (sg_gen h)) \<and> handed h = {} \<and> completed h = {} \<Longrightarrow> sg_ok h"
    by (cases "sg_gen h") (auto simp: new_stream_id_gen_def sg_ok_def Let_def result_simps)
  assume ok: "sg_ok h" and "sg_hstep h h'"
  from this(2) show "sg_ok h'"
  proof cases
    case (next_id i g)
    with sg_mult_ok [OF ok _ sg_get_next_is_mult] show ?thesis by simp
  next
    case (next_mult n ids g)
    with sg_mult_ok [OF ok] show ?thesis by simp
  next
    case (finish ids g)
    with sg_finish_ok [OF finish(2)] ok show ?thesis by (auto simp: sg_ok_def Let_def)
  qed
qed

text \<open>
  The current token of a single-writer stream, in the direction of the stream: every id handed
  out up to it is finished, and the next id after it is either unfinished or not handed out yet, so no
  larger token would do.
\<close>

theorem single_writer_token:
  assumes "new_stream_id_gen col cols k True = Inr g0"
    and "sg_hstep\<^sup>*\<^sup>* \<lparr>sg_gen = g0, handed = {}, completed = {}\<rparr> h"
  defines "t \<equiv> sg_get_current_token (sg_gen h)"
  shows "{x \<in> handed h. sg_step (sg_gen h) * x \<le> sg_step (sg_gen h) * t} \<subseteq> completed h \<and>
    t + sg_step (sg_gen h) \<notin> completed h"
proof -
  let ?k = "sg_step (sg_gen h)" and ?u = "sg_unfinished_ids (sg_gen h)"
  have "sg_ok h" by (rule sg.good_reachable [OF _ assms(2)]) (use assms(1) in auto)
  then have k: "?k \<noteq> 0" and w: "sg_is_writer (sg_gen h)" and u: "sorted_wrt (\<lambda>x y. ?k * x < ?k * y) ?u"
    "set ?u = handed h - completed h" "completed h \<subseteq> handed h" "\<And>x. x \<in> handed h \<Longrightarrow> ?k * x \<le> ?k * sg_current (sg_gen h)"
    by (simp_all add: sg_ok_def Let_def)
  have kk: "0 < ?k * ?k" using k by (auto simp: zero_less_mult_iff)
  show ?thesis
  proof (cases ?u)
    case Nil
    then have t: "t = sg_current (sg_gen h)" using w by (simp add: t_def sg_get_current_token_def)
    have "t + ?k \<notin> handed h" using u(4) [of "t + ?k"] kk t by (auto simp: distrib_left)
    with Nil u(2,3) show ?thesis by auto
  next
    case (Cons x xs)
    then have t: "t = x - ?k" using w by (simp add: t_def sg_get_current_token_def)
    have "?k * t < ?k * y" if "y \<in> set ?u" for y
      using that u(1) kk unfolding Cons t by (auto simp: right_diff_distrib)
    with u(2) Cons t show ?thesis by force
  qed
qed

text \<open>Two ids are taken together, and the second one is finished first.\<close>

definition sg_sample :: sg_history where
  "sg_sample = (let g0 = \<lparr>sg_step = 1, sg_current = 5, sg_is_writer = True, sg_unfinished_ids = []\<rparr>
    in \<lparr>sg_gen = snd (sg_finish [7] (snd (sg_get_next_mult 2 g0))), handed = {6, 7}, completed = {7}\<rparr>)"

theorem single_writer_token_witness:
  "sg_get_current_token (sg_gen sg_sample) = 5 \<and> {x \<in> handed sg_sample. x \<le> 5} \<subseteq> completed sg_sample \<and> 6 \<notin> completed sg_sample"
proof -
  let ?g0 = "\<lparr>sg_step = 1, sg_current = 5, sg_is_writer = True, sg_unfinished_ids = []\<rparr>"
  let ?h1 = "\<lparr>sg_gen = snd (sg_get_next_mult 2 ?g0), handed = {6, 7}, completed = {}\<rparr>"
  have "fst (sg_get_next_mult 2 ?g0) = [6, 7]" by code_simp
  then have "sg_hstep \<lparr>sg_gen = ?g0, handed = {}, completed = {}\<rparr> ?h1"
    using sg_hstep.next_mult [of 2 "\<lparr>sg_gen = ?g0, handed = {}, completed = {}\<rparr>" "[6, 7]" "snd (sg_get_next_mult 2 ?g0)"]
    by (cases "sg_get_next_mult 2 ?g0") simp
  moreover have "fst (sg_finish [7] (sg_gen ?h1)) = Inr ()" by code_simp
  then have "sg_hstep ?h1 sg_sample"
    using sg_hstep.finish [of "[7]" ?h1 "sg_gen sg_sample"]
    by (cases "sg_finish [7] (sg_gen ?h1)") (simp add: sg_sample_def Let_def)
  ultimately have run: "sg_hstep\<^sup>*\<^sup>* \<lparr>sg_gen = ?g0, handed = {}, completed = {}\<rparr> sg_sample" by auto
  have g0: "new_stream_id_gen [3, 5] [] 1 True = Inr ?g0" by code_simp
  have t: "sg_get_current_token (sg_gen sg_sample) = 5" "sg_step (sg_gen sg_sample) = 1" by code_simp+
  show ?thesis using single_writer_token [OF g0 run] by (simp add: t)
qed

end
