(* ===== verification/Multi_Writer.thy ===== *)
theory Multi_Writer
  imports Id_Generators
begin

text \<open>
  \<open>MultiWriterIdGenerator\<close> of \<open>storage/util/id_generators.py\<close>: the state of one process and its
  operations, and the reading of that state from the database at start-up.  All ids are kept
  positive inside; \<open>return_factor\<close> turns them around at the interface.
\<close>

section \<open>State\<close>

record id_gen =
  mw_instance_name :: string
  mw_positive :: bool
  mw_writers :: "string list"
  current_positions :: "(string \<times> int) list"
  unfinished_ids :: "int list"
  in_flight_fetches :: "int list"
  finished_ids :: "int list"
  persisted_upto_position :: int
  known_persisted_positions :: "int list"
  max_seen_allocated_stream_id :: int
  max_position_of_local_instance :: int

definition return_factor :: "id_gen \<Rightarrow> int" where
  "return_factor g = (if mw_positive g then 1 else -1)"

definition position :: "id_gen \<Rightarrow> string \<Rightarrow> int \<Rightarrow> int" where
  "position g name dflt = (case map_of (current_positions g) name of None \<Rightarrow> dflt | Some p \<Rightarrow> p)"

definition busy :: "id_gen \<Rightarrow> bool" where
  "busy g \<longleftrightarrow> unfinished_ids g \<noteq> [] \<or> in_flight_fetches g \<noteq> []"

section \<open>Positions\<close>

text \<open>The loop at the end of \<open>_add_persisted_position\<close>, on the sorted positions.\<close>

fun skip_forward :: "int list \<Rightarrow> int \<Rightarrow> int list \<times> int" where
  "skip_forward [] pos = ([], pos)"
| "skip_forward (x # xs) pos =
     (if x \<le> pos then skip_forward xs pos
      else if x = pos + 1 then skip_forward xs (pos + 1)
      else (x # xs, pos))"

definition min_default :: "int list \<Rightarrow> int \<Rightarrow> int" where
  "min_default xs d = (if xs = [] then d else Min (set xs))"

text \<open>The lower bound on what every writer has persisted.\<close>

definition min_current :: "id_gen \<Rightarrow> int" where
  "min_current g =
     (let our = position g (mw_instance_name g) 0;
          others = map snd (filter (\<lambda>(name, _). name \<noteq> mw_instance_name g) (current_positions g));
          min_curr = min_default others our
      in if our \<noteq> 0 \<and> busy g then min min_curr our else min_curr)"

definition add_persisted_position :: "int \<Rightarrow> id_gen \<Rightarrow> id_gen" where
  "add_persisted_position new_id g =
     (let known = insort new_id (known_persisted_positions g);
          pos = max (min_current g) (persisted_upto_position g);
          local_max = max (max_position_of_local_instance g) pos;
          local_max' = (if \<not> busy g then max (max_seen_allocated_stream_id g) local_max else local_max);
          (known', pos') = skip_forward known pos
      in g\<lparr>known_persisted_positions := known', persisted_upto_position := pos', max_position_of_local_instance := local_max'\<rparr>)"

section \<open>Allocation\<close>

text \<open>
  \<open>_load_next_mult_id_txn\<close> in its three locked parts: before the query to the sequence, after it
  with the ids it returned, and after it failed.  \<open>self._unfinished_ids[-1]\<close> raises when there is none.
\<close>

definition fetch_begin :: "id_gen \<Rightarrow> int \<times> id_gen" where
  "fetch_begin g =
     (let current_max = max_seen_allocated_stream_id g
      in (current_max, g\<lparr>in_flight_fetches := insort current_max (in_flight_fetches g)\<rparr>))"

definition fetch_abort :: "int \<Rightarrow> id_gen \<Rightarrow> id_gen" where
  "fetch_abort current_max g = g\<lparr>in_flight_fetches := remove1 current_max (in_flight_fetches g)\<rparr>"

definition fetch_end :: "int \<Rightarrow> int list \<Rightarrow> (id_gen, int list) action" where
  "fetch_end current_max stream_ids g =
     (let g1 = g\<lparr>unfinished_ids := sorted_list_of_set (set (unfinished_ids g) \<union> set stream_ids)\<rparr>
      in if unfinished_ids g1 = [] then (Inl IndexErr, fetch_abort current_max g1)
         else (Inr stream_ids,
               fetch_abort current_max
                 (g1\<lparr>max_seen_allocated_stream_id := max (max_seen_allocated_stream_id g1) (last (unfinished_ids g1))\<rparr>)))"

text \<open>The guard of \<open>get_next\<close>, \<open>get_next_mult\<close>, \<open>get_next_txn\<close> and \<open>get_next_mult_txn\<close>.\<close>

definition may_write :: "id_gen \<Rightarrow> unit result" where
  "may_write g = guardR (mw_writers g = [] \<or> mw_instance_name g \<in> set (mw_writers g)) GenericException"

section \<open>Completion\<close>

text \<open>The first id that may still be unfinished, if anything is under way.\<close>

definition min_unfinished :: "id_gen \<Rightarrow> int" where
  "min_unfinished g =
     (if unfinished_ids g \<noteq> [] \<and> in_flight_fetches g \<noteq> [] then min (hd (unfinished_ids g)) (hd (in_flight_fetches g) + 1)
      else if in_flight_fetches g \<noteq> [] then hd (in_flight_fetches g) + 1
      else hd (unfinished_ids g))"

text \<open>The loop over the finished ids: the largest below the bound, and the ones not below it.\<close>

fun split_finished :: "int \<Rightarrow> int option \<Rightarrow> int list \<Rightarrow> int option \<times> int list" where
  "split_finished bound new_cur [] = (new_cur, [])"
| "split_finished bound new_cur (s # ss) =
     (if s < bound
      then split_finished bound (case new_cur of None \<Rightarrow> Some s | Some c \<Rightarrow> if c < s then Some s else Some c) ss
      else (case split_finished bound new_cur ss of (c, rest) \<Rightarrow> (c, s # rest)))"

definition set_position :: "int option \<Rightarrow> id_gen \<Rightarrow> id_gen" where
  "set_position new_cur g =
     (case new_cur of
        None \<Rightarrow> g
      | Some c \<Rightarrow>
          if c = 0 then g
          else (let curr = position g (mw_instance_name g) 0
                in g\<lparr>current_positions := AList.update (mw_instance_name g) (max curr c) (current_positions g),
                     max_position_of_local_instance := max curr (max c (max_position_of_local_instance g))\<rparr>))"

definition mark_ids_as_finished :: "int list \<Rightarrow> (id_gen, unit) action" where
  "mark_ids_as_finished next_ids g =
     (let g1 = g\<lparr>unfinished_ids := filter (\<lambda>x. x \<notin> set next_ids) (unfinished_ids g),
                 finished_ids := finished_ids g @ filter (\<lambda>x. x \<notin> set (finished_ids g)) (remdups next_ids)\<rparr>
      in if busy g1
         then (case split_finished (min_unfinished g1) None (finished_ids g1) of (new_cur, rest) \<Rightarrow>
                 (Inr (), foldl (\<lambda>g x. add_persisted_position x g) (set_position new_cur (g1\<lparr>finished_ids := rest\<rparr>)) next_ids))
         else if finished_ids g1 = [] then (Inl ValueErr, g1)
         else (Inr (), foldl (\<lambda>g x. add_persisted_position x g)
                 (set_position (Some (Max (set (finished_ids g1)))) (g1\<lparr>finished_ids := []\<rparr>)) next_ids))"

section \<open>Replication and queries\<close>

definition advance :: "string \<Rightarrow> int \<Rightarrow> id_gen \<Rightarrow> id_gen" where
  "advance instance_name new_id g =
     (let new_id = new_id * return_factor g
      in add_persisted_position new_id
           (g\<lparr>current_positions := AList.update instance_name (max new_id (position g instance_name 0)) (current_positions g),
              max_seen_allocated_stream_id := max (max_seen_allocated_stream_id g) new_id\<rparr>))"

definition get_persisted_upto_position :: "id_gen \<Rightarrow> int" where
  "get_persisted_upto_position g = return_factor g * persisted_upto_position g"

definition get_current_token :: "id_gen \<Rightarrow> int" where
  "get_current_token g = get_persisted_upto_position g"

definition get_current_token_for_writer :: "string \<Rightarrow> id_gen \<Rightarrow> int" where
  "get_current_token_for_writer instance_name g =
     (if mw_instance_name g = instance_name then return_factor g * max_position_of_local_instance g
      else return_factor g * max (position g instance_name (persisted_upto_position g)) (persisted_upto_position g))"

definition get_minimal_local_current_token :: "id_gen \<Rightarrow> int" where
  "get_minimal_local_current_token g = return_factor g * position g (mw_instance_name g) (persisted_upto_position g)"

definition get_positions :: "id_gen \<Rightarrow> (string \<times> int) list" where
  "get_positions g = map (\<lambda>(name, i). (name, return_factor g * i)) (current_positions g)"

section \<open>Start-up\<close>

text \<open>
  The rows the generator reads: the entries of \<open>stream_positions\<close> for its stream (one for each
  instance) and, of each table of the stream, the instance and the id of every row.
\<close>

record stream_db =
  stream_positions :: "(string \<times> int) list"
  stream_tables :: "(string \<times> int) list list"

text \<open>\<open>SELECT GREATEST(COALESCE(agg(id), 1), 1)\<close>\<close>

definition greatest_id :: "int \<Rightarrow> (string \<times> int) list \<Rightarrow> int" where
  "greatest_id factor rows = (if rows = [] then 1 else max (Max (set (map (\<lambda>(_, i). factor * i) rows))) 1)"

definition load_row :: "id_gen \<Rightarrow> string \<times> int \<Rightarrow> id_gen" where
  "load_row g row =
     (let stream_id = return_factor g * snd row; g1 = add_persisted_position stream_id g
      in if fst row = mw_instance_name g1
         then g1\<lparr>current_positions := AList.update (fst row) stream_id (current_positions g1)\<rparr> else g1)"

text \<open>\<open>self._current_positions.setdefault(writer, position)\<close> for every writer\<close>

definition setdefault_positions :: "int \<Rightarrow> string list \<Rightarrow> (string \<times> int) list \<Rightarrow> (string \<times> int) list" where
  "setdefault_positions pos ws d = foldl (\<lambda>d w. if map_of d w = None then AList.update w pos d else d) d ws"

definition load_current_ids :: "stream_db \<Rightarrow> id_gen \<Rightarrow> stream_db \<times> id_gen" where
  "load_current_ids db g =
     (let f = return_factor g;
          kept = filter (\<lambda>(n, _). n \<in> set (mw_writers g)) (stream_positions db);
          db1 = (if mw_writers g \<noteq> [] then db\<lparr>stream_positions := kept\<rparr> else db);
          g1 = (if mw_writers g \<noteq> [] then g\<lparr>current_positions := map (\<lambda>(n, i). (n, i * f)) kept\<rparr> else g);
          g2 = (if current_positions g1 = []
                then g1\<lparr>persisted_upto_position := foldl (\<lambda>m rows. max m (greatest_id f rows)) 1 (stream_tables db)\<rparr>
                else (let min_stream_id = Min (set (map snd (current_positions g1)));
                          rows = concat (map (filter (\<lambda>(_, i). if mw_positive g then min_stream_id * f \<le> i else i \<le> min_stream_id * f))
                                   (stream_tables db))
                      in foldl load_row (g1\<lparr>persisted_upto_position := min_stream_id\<rparr>) (sort_key snd rows)));
          g3 = g2\<lparr>current_positions := setdefault_positions (persisted_upto_position g2) (mw_writers g2) (current_positions g2)\<rparr>
      in (db1, g3))"

definition new_id_gen :: "string \<Rightarrow> string list \<Rightarrow> bool \<Rightarrow> stream_db \<Rightarrow> stream_db \<times> id_gen" where
  "new_id_gen instance_name writers positive db =
     (let g0 = \<lparr>mw_instance_name = instance_name, mw_positive = positive, mw_writers = writers, current_positions = [],
                unfinished_ids = [], in_flight_fetches = [], finished_ids = [], persisted_upto_position = 1,
                known_persisted_positions = [], max_seen_allocated_stream_id = 1, max_position_of_local_instance = 1\<rparr>;
          (db1, g1) = load_current_ids db g0;
          seen = max (if current_positions g1 = [] then 1 else Max (set (map snd (current_positions g1)))) (persisted_upto_position g1);
          g2 = g1\<lparr>max_seen_allocated_stream_id := seen, max_position_of_local_instance := seen\<rparr>
      in (db1, if writers = []
               then g2\<lparr>current_positions := AList.update instance_name (persisted_upto_position g2) (current_positions g2)\<rparr>
               else g2))"

text \<open>\<open>_update_stream_positions_table_txn\<close>: the upsert keeps the greater (or, going backwards, the lesser) id.\<close>

definition update_stream_positions_table :: "id_gen \<Rightarrow> stream_db \<Rightarrow> stream_db" where
  "update_stream_positions_table g db =
     (if mw_writers g = [] then db
      else (let me = mw_instance_name g; pos = get_current_token_for_writer me g;
                agg = (if mw_positive g then max else min)
            in db\<lparr>stream_positions :=
                 AList.update me (case map_of (stream_positions db) me of None \<Rightarrow> pos | Some old \<Rightarrow> agg old pos)
                   (stream_positions db)\<rparr>))"

text \<open>
  The rows are sorted by id so that the last row of this instance gives its position.  Ids of a
  stream that goes backwards are negative in the tables, and there the last row is the earliest:
  an instance that persisted 3, 4 and 5 starts again at 3.
\<close>

definition restarted :: "bool \<Rightarrow> id_gen" where
  "restarted positive =
     (let f = (if positive then 1 else - 1)
      in snd (new_id_gen ''w'' [''w'', ''v''] positive
        \<lparr>stream_positions = [(''w'', 3 * f), (''v'', 2 * f)], stream_tables = [[(''w'', 3 * f), (''w'', 4 * f), (''w'', 5 * f)]]\<rparr>))"

lemma backwards_stream_restarts_early:
  "get_minimal_local_current_token (restarted True) = 5" "get_minimal_local_current_token (restarted False) = - 3"
  by code_simp+

end
