(* ===== verification/Multi_Writer_Cluster.thy ===== *)
theory Multi_Writer_Cluster
  imports Multi_Writer
begin

text \<open>
  Several processes, each with its \<open>MultiWriterIdGenerator\<close>, on one Postgres sequence.  The world
  outside the processes is the last value of the sequence, which process drew which id, and which
  of the ids are complete (their transaction was committed or rolled back).  Processes report their
  positions; a report may reach another process at any later time, or never.
\<close>

section \<open>The cluster\<close>

record world =
  sequence_last :: int
  owner :: "int \<Rightarrow> string option"
  complete :: "int set"

text \<open>
  \<open>fetches\<close>: the calls of \<open>_load_next_mult_id_txn\<close> under way in each process, with the bound each
  recorded and the ids drawn so far.
\<close>

record cluster =
  world :: world
  gens :: "string \<Rightarrow> id_gen"
  fetches :: "string \<Rightarrow> (int \<times> int list) list"
  reports :: "(string \<times> int) set"

definition draw :: "string \<Rightarrow> world \<Rightarrow> world" where
  "draw i w = w\<lparr>sequence_last := sequence_last w + 1, owner := (owner w)(sequence_last w + 1 \<mapsto> i)\<rparr>"

definition completes :: "int set \<Rightarrow> world \<Rightarrow> world" where
  "completes X w = w\<lparr>complete := complete w \<union> X\<rparr>"

definition remove_nth :: "nat \<Rightarrow> 'a list \<Rightarrow> 'a list" where
  "remove_nth j xs = take j xs @ drop (Suc j) xs"

definition new_cluster :: "string list \<Rightarrow> bool \<Rightarrow> cluster" where
  "new_cluster ws positive =
     \<lparr>world = \<lparr>sequence_last = 1, owner = (\<lambda>_. None), complete = {}\<rparr>,
      gens = (\<lambda>i. snd (new_id_gen i ws positive \<lparr>stream_positions = [], stream_tables = []\<rparr>)),
      fetches = (\<lambda>_. []), reports = {}\<rparr>"

inductive cstep :: "cluster \<Rightarrow> cluster \<Rightarrow> bool" where
  fetch_begins: "may_write (gens c i) = Inr () \<Longrightarrow> fetch_begin (gens c i) = (m, g) \<Longrightarrow>
    cstep c (c\<lparr>gens := (gens c)(i := g), fetches := (fetches c)(i := (m, []) # fetches c i)\<rparr>)"
| draws: "j < length (fetches c i) \<Longrightarrow> fetches c i ! j = (m, ids) \<Longrightarrow>
    cstep c (c\<lparr>world := draw i (world c),
      fetches := (fetches c)(i := (fetches c i)[j := (m, ids @ [sequence_last (world c) + 1])])\<rparr>)"
| fetch_ends: "j < length (fetches c i) \<Longrightarrow> fetches c i ! j = (m, ids) \<Longrightarrow> fetch_end m ids (gens c i) = (r, g) \<Longrightarrow>
    cstep c (c\<lparr>gens := (gens c)(i := g), fetches := (fetches c)(i := remove_nth j (fetches c i))\<rparr>)"
| fetch_fails: "j < length (fetches c i) \<Longrightarrow> fetches c i ! j = (m, ids) \<Longrightarrow>
    cstep c (c\<lparr>world := completes (set ids) (world c), gens := (gens c)(i := fetch_abort m (gens c i)),
      fetches := (fetches c)(i := remove_nth j (fetches c i))\<rparr>)"
| completed: "owner (world c) x \<noteq> None \<Longrightarrow> cstep c (c\<lparr>world := completes {x} (world c)\<rparr>)"
| marked: "set ids \<subseteq> set (unfinished_ids (gens c i)) \<Longrightarrow> set ids \<subseteq> complete (world c) \<Longrightarrow>
    mark_ids_as_finished ids (gens c i) = (r, g) \<Longrightarrow> cstep c (c\<lparr>gens := (gens c)(i := g)\<rparr>)"
| reported: "cstep c (c\<lparr>reports := insert (i, get_current_token_for_writer i (gens c i)) (reports c)\<rparr>)"
| row_reported: "owner (world c) x = Some i \<Longrightarrow> x \<in> complete (world c) \<Longrightarrow> x \<le> max_position_of_local_instance (gens c i) \<Longrightarrow>
    cstep c (c\<lparr>reports := insert (i, return_factor (gens c i) * x) (reports c)\<rparr>)"
| advanced: "(n, t) \<in> reports c \<Longrightarrow> n \<noteq> i \<Longrightarrow> cstep c (c\<lparr>gens := (gens c)(i := advance n t (gens c i))\<rparr>)"

section \<open>What a position says\<close>

text \<open>A position of writer \<open>n\<close>: its ids up to it are complete, and so is the id itself, whoever drew it.\<close>

definition truthful :: "world \<Rightarrow> string \<Rightarrow> int \<Rightarrow> bool" where
  "truthful w n p \<longleftrightarrow> p \<le> sequence_last w \<and> (\<forall>x \<le> p. owner w x = Some n \<longrightarrow> x \<in> complete w) \<and>
     (owner w p \<noteq> None \<longrightarrow> p \<in> complete w)"

definition all_complete :: "world \<Rightarrow> int \<Rightarrow> bool" where
  "all_complete w p \<longleftrightarrow> p \<le> sequence_last w \<and> (\<forall>x \<le> p. owner w x \<noteq> None \<longrightarrow> x \<in> complete w)"

definition settled :: "world \<Rightarrow> int \<Rightarrow> bool" where
  "settled w x \<longleftrightarrow> x \<le> sequence_last w \<and> (owner w x \<noteq> None \<longrightarrow> x \<in> complete w)"

lemma all_complete_truthful: "all_complete w p \<Longrightarrow> truthful w n p"
  by (auto simp: all_complete_def truthful_def)

lemma truthful_settled: "truthful w n p \<Longrightarrow> settled w p"
  by (simp add: truthful_def settled_def)

definition world_ok :: "string list \<Rightarrow> world \<Rightarrow> bool" where
  "world_ok ws w \<longleftrightarrow> 1 \<le> sequence_last w \<and>
     (\<forall>x n. owner w x = Some n \<longrightarrow> 1 < x \<and> x \<le> sequence_last w \<and> n \<in> set ws)"

text \<open>The world only grows: new ids are above the old ones.\<close>

definition grows :: "world \<Rightarrow> world \<Rightarrow> bool" where
  "grows w w' \<longleftrightarrow> sequence_last w \<le> sequence_last w' \<and> complete w \<subseteq> complete w' \<and>
     (\<forall>x \<le> sequence_last w. owner w' x = owner w x)"

lemma grows_stable:
  assumes "grows w w'"
  shows "truthful w n p \<Longrightarrow> truthful w' n p" "all_complete w p \<Longrightarrow> all_complete w' p" "settled w p \<Longrightarrow> settled w' p"
  using assms by (auto simp: grows_def truthful_def all_complete_def settled_def)

lemma grows_refl [simp]: "grows w w"
  by (simp add: grows_def)

lemma grows_draw: "grows w (draw i w)"
  by (auto simp: grows_def draw_def)

lemma grows_completes: "grows w (completes X w)"
  by (auto simp: grows_def completes_def)

lemma world_ok_completes: "world_ok ws w \<Longrightarrow> world_ok ws (completes X w)"
  by (simp add: world_ok_def completes_def)

lemma world_ok_draw: "world_ok ws w \<Longrightarrow> i \<in> set ws \<Longrightarrow> world_ok ws (draw i w)"
  by (fastforce simp: world_ok_def draw_def)

section \<open>The invariant of one process\<close>

definition positions_ok :: "string list \<Rightarrow> world \<Rightarrow> (string \<times> int) list \<Rightarrow> bool" where
  "positions_ok ws w ps \<longleftrightarrow>
     distinct (map fst ps) \<and> (\<forall>n \<in> set ws. map_of ps n \<noteq> None) \<and> 
     (\<forall>n p. map_of ps n = Some p \<longrightarrow> (n \<in> set ws \<longrightarrow> 1 \<le> p) \<and> truthful w n p)"

text \<open>The ids of this process that may not be complete are among its unfinished ones and those its fetches drew.\<close>

definition work_ok :: "world \<Rightarrow> string \<Rightarrow> int \<Rightarrow> int list \<Rightarrow> int list \<Rightarrow> (int \<times> int list) list \<Rightarrow> bool" where
  "work_ok w i seen unfinished in_flight fs \<longleftrightarrow>
     sorted unfinished \<and> sorted in_flight \<and> mset in_flight = mset (map fst fs) \<and>
     (\<forall>x. owner w x = Some i \<longrightarrow> x \<in> complete w \<union> set unfinished \<union> (\<Union>f \<in> set fs. set (snd f))) \<and>
     (\<forall>f \<in> set fs. fst f \<le> sequence_last w \<and> (\<forall>x \<in> set (snd f). fst f < x \<and> owner w x = Some i)) \<and>
     (\<forall>x \<in> set unfinished. owner w x = Some i \<and> x \<le> seen)"

definition marks_ok :: "world \<Rightarrow> string \<Rightarrow> id_gen \<Rightarrow> bool" where
  "marks_ok w i g \<longleftrightarrow>
     (\<forall>x \<in> set (finished_ids g). 1 < x \<and> x \<in> complete w \<and> x \<le> max_seen_allocated_stream_id g) \<and>
     all_complete w (persisted_upto_position g) \<and> (\<forall>x \<in> set (known_persisted_positions g). settled w x) \<and>
     max_seen_allocated_stream_id g \<le> sequence_last w \<and>
     (settled w (max_seen_allocated_stream_id g) \<or> max_seen_allocated_stream_id g \<in> set (unfinished_ids g)) \<and>
     truthful w i (max_position_of_local_instance g)"

definition gen_ok :: "string list \<Rightarrow> bool \<Rightarrow> world \<Rightarrow> string \<Rightarrow> id_gen \<Rightarrow> (int \<times> int list) list \<Rightarrow> bool" where
  "gen_ok ws positive w i g fs \<longleftrightarrow>
     mw_instance_name g = i \<and> mw_positive g = positive \<and> mw_writers g = ws \<and> (fs \<noteq> [] \<longrightarrow> i \<in> set ws) \<and>
     positions_ok ws w (current_positions g) \<and>
     work_ok w i (max_seen_allocated_stream_id g) (unfinished_ids g) (in_flight_fetches g) fs \<and> marks_ok w i g"

text \<open>Another process, or the outside world, moves.\<close>

lemma positions_ok_grows: "positions_ok ws w ps \<Longrightarrow> grows w w' \<Longrightarrow> positions_ok ws w' ps"
  using grows_stable(1) unfolding positions_ok_def by blast

lemma work_ok_grows:
  assumes "work_ok w i seen u q fs" "grows w w'" "world_ok ws w" "\<And>x. owner w' x = Some i \<Longrightarrow> owner w x = Some i"
  shows "work_ok w' i seen u q fs"
proof -
  have o: "owner w' x = Some i" if "owner w x = Some i" for x
    using assms(2,3) that by (metis grows_def world_ok_def)
  have s: "sequence_last w \<le> sequence_last w'" "complete w \<subseteq> complete w'" using assms(2) by (auto simp: grows_def)
  have "fst f \<le> sequence_last w' \<and> (\<forall>x \<in> set (snd f). fst f < x \<and> owner w' x = Some i)" if "f \<in> set fs" for f
    using assms(1) that o s(1) by (force simp: work_ok_def)
  moreover have "x \<in> complete w' \<union> set u \<union> (\<Union>f \<in> set fs. set (snd f))" if "owner w' x = Some i" for x
    using assms(1) assms(4) [OF that] s(2) by (auto simp: work_ok_def)
  moreover have "owner w' x = Some i \<and> x \<le> seen" if "x \<in> set u" for x using assms(1) that o by (auto simp: work_ok_def)
  ultimately show ?thesis using assms(1) by (simp add: work_ok_def)
qed

lemma marks_ok_grows:
  assumes "marks_ok w i g" "grows w w'"
  shows "marks_ok w' i g"
proof -
  have "sequence_last w \<le> sequence_last w'" "complete w \<subseteq> complete w'" using assms(2) by (auto simp: grows_def)
  with assms(1) grows_stable [OF assms(2)] show ?thesis by (auto simp: marks_ok_def)
qed

lemma gen_ok_grows:
  assumes "gen_ok ws positive w i g fs" "grows w w'" "world_ok ws w" "\<And>x. owner w' x = Some i \<Longrightarrow> owner w x = Some i"
  shows "gen_ok ws positive w' i g fs"
  using assms(1) positions_ok_grows [OF _ assms(2)] work_ok_grows [OF _ assms(2,3,4)] marks_ok_grows [OF _ assms(2)]
  by (simp add: gen_ok_def)

section \<open>The operations keep it\<close>

subsection \<open>Positions\<close>

lemma skip_forward_ok:
  "skip_forward xs p = (ys, p') \<Longrightarrow> all_complete w p \<Longrightarrow> (\<And>x. x \<in> set xs \<Longrightarrow> settled w x) \<Longrightarrow>
   all_complete w p' \<and> set ys \<subseteq> set xs \<and> p \<le> p'"
proof (induction xs p rule: skip_forward.induct)
  case (2 x xs p)
  have s: "settled w x" using 2(5) by simp
  have "x = p + 1 \<Longrightarrow> all_complete w (p + 1)"
    using 2(4) s by (auto simp: all_complete_def settled_def zle_add1_eq_le order_le_less)
  with 2 show ?case by (auto split: if_splits)
qed simp

lemma not_busy_own:
  assumes "gen_ok ws positive w i g fs" "\<not> busy g" "owner w x = Some i"
  shows "x \<in> complete w"
proof -
  have "work_ok w i (max_seen_allocated_stream_id g) [] [] fs"
    using assms(1,2) by (simp add: gen_ok_def busy_def)
  with assms(3) show ?thesis by (auto simp: work_ok_def)
qed

lemma positions_okE:
  assumes "gen_ok ws positive w i g fs" "n \<in> set ws"
  obtains p where "map_of (current_positions g) n = Some p" "1 \<le> p" "truthful w n p"
  using assms unfolding gen_ok_def positions_ok_def by blast

lemma position_ok:
  assumes "gen_ok ws positive w i g fs" "n \<in> set ws"
  shows "1 \<le> position g n d" "truthful w n (position g n d)"
  using positions_okE [OF assms] by (metis option.simps(5) position_def)+

lemma position_le: "gen_ok ws positive w i g fs \<Longrightarrow> world_ok ws w \<Longrightarrow> position g n 0 \<le> sequence_last w"
  by (cases "map_of (current_positions g) n")
    (auto simp: gen_ok_def positions_ok_def position_def truthful_def world_ok_def)

lemma min_current_ok:
  assumes g: "gen_ok ws positive w i g fs" and ok: "world_ok ws w"
  shows "all_complete w (min_current g)"
proof -
  have name: "mw_instance_name g = i" using g by (simp add: gen_ok_def)
  let ?our = "position g i 0"
  define others where "others = map snd (filter (\<lambda>(name, _). name \<noteq> i) (current_positions g))"
  have m: "min_current g = (if ?our \<noteq> 0 \<and> busy g then min (min_default others ?our) ?our else min_default others ?our)"
    by (simp add: min_current_def name others_def Let_def)
  have dist: "distinct (map fst (current_positions g))" using g by (simp add: gen_ok_def positions_ok_def)
  have le_other: "min_default others ?our \<le> position g n 0" if "n \<in> set ws" "n \<noteq> i" for n
  proof -
    from positions_okE [OF g that(1)] obtain p where p: "map_of (current_positions g) n = Some p" by blast
    then have "p \<in> set others" using that(2) by (force simp: others_def dest: map_of_SomeD)
    with p show ?thesis by (auto simp: min_default_def position_def)
  qed
  have le_seq: "min_default others ?our \<le> sequence_last w"
  proof (cases "others = []")
    case False
    then obtain p where p: "p \<in> set others" by (cases others) auto
    then obtain n where "map_of (current_positions g) n = Some p" using dist by (auto simp: others_def)
    with g have "p \<le> sequence_last w" by (auto simp: gen_ok_def positions_ok_def truthful_def)
    with p False show ?thesis by (auto simp: min_default_def intro: order_trans [OF Min_le])
  qed (simp add: min_default_def position_le [OF g ok])
  have "x \<in> complete w" if x: "x \<le> min_current g" and o: "owner w x = Some n" for x n
  proof (cases "n = i")
    case False
    have n: "n \<in> set ws" using ok o by (auto simp: world_ok_def)
    have "x \<le> position g n 0" using x le_other [OF n False] by (auto simp: m split: if_splits)
    with position_ok(2) [OF g n, of 0] o show ?thesis by (simp add: truthful_def)
  next
    case True
    then have n: "i \<in> set ws" using ok o by (auto simp: world_ok_def)
    show ?thesis
    proof (cases "busy g")
      case True
      then have "x \<le> ?our" using x position_ok(1) [OF g n, of 0] by (simp add: m)
      with position_ok(2) [OF g n, of 0] o \<open>n = i\<close> show ?thesis by (simp add: truthful_def)
    next
      case False
      with not_busy_own [OF g] o \<open>n = i\<close> show ?thesis by blast
    qed
  qed
  moreover have "min_current g \<le> sequence_last w" using le_seq position_le [OF g ok, of i] by (auto simp: m)
  ultimately show ?thesis by (auto simp: all_complete_def)
qed

lemma add_persisted_position_ok:
  assumes g: "gen_ok ws positive w i g fs" and ok: "world_ok ws w" and x: "settled w x"
  shows "gen_ok ws positive w i (add_persisted_position x g) fs"
proof -
  let ?pos = "max (min_current g) (persisted_upto_position g)"
  let ?max = "max (max_position_of_local_instance g) ?pos"
  have mk: "marks_ok w i g" using g by (simp add: gen_ok_def)
  have pos: "all_complete w ?pos" using min_current_ok [OF g ok] mk by (simp add: marks_ok_def max_def)
  obtain ys p' where sk: "skip_forward (insort x (known_persisted_positions g)) ?pos = (ys, p')" by force
  have "all_complete w p'" "set ys \<subseteq> insert x (set (known_persisted_positions g))"
    using skip_forward_ok [OF sk pos] x mk by (auto simp: marks_ok_def set_insort_key)
  moreover have mx: "truthful w i ?max" using mk all_complete_truthful [OF pos] by (simp add: marks_ok_def max_def)
  have "truthful w i (max_seen_allocated_stream_id g)" if "\<not> busy g"
  proof -
    have "settled w (max_seen_allocated_stream_id g)" using mk that by (auto simp: marks_ok_def busy_def)
    with not_busy_own [OF g that] show ?thesis by (simp add: truthful_def settled_def)
  qed
  with mx have "truthful w i (if \<not> busy g then max (max_seen_allocated_stream_id g) ?max else ?max)"
    by (simp add: max_def)
  ultimately show ?thesis using g x
    by (auto simp: add_persisted_position_def Let_def sk gen_ok_def marks_ok_def)
qed

lemma add_persisted_positions_ok:
  assumes "gen_ok ws positive w i g fs" "world_ok ws w" "\<And>x. x \<in> set xs \<Longrightarrow> settled w x"
  shows "gen_ok ws positive w i (foldl (\<lambda>g x. add_persisted_position x g) g xs) fs"
  using assms by (induction xs arbitrary: g) (simp_all add: add_persisted_position_ok)

lemma truthful_low: "world_ok ws w \<Longrightarrow> p \<le> 1 \<Longrightarrow> truthful w n p"
  by (fastforce simp: world_ok_def truthful_def)

lemma truthful_max: "truthful w n p \<Longrightarrow> truthful w n q \<Longrightarrow> truthful w n (max p q)"
  by (simp add: max_def)

lemma position_truthful: "gen_ok ws positive w i g fs \<Longrightarrow> world_ok ws w \<Longrightarrow> truthful w n (position g n 0)"
  by (cases "map_of (current_positions g) n")
    (auto simp: gen_ok_def positions_ok_def position_def intro: truthful_low)

lemma positions_ok_update:
  assumes "positions_ok ws w ps" "truthful w n p" "n \<in> set ws \<Longrightarrow> 1 \<le> p"
  shows "positions_ok ws w (AList.update n p ps)"
  using assms by (auto simp: positions_ok_def distinct_update)

lemma set_position_ok:
  assumes g: "gen_ok ws positive w i g fs" and ok: "world_ok ws w" and c: "\<And>x. c = Some x \<Longrightarrow> 1 \<le> x \<and> truthful w i x"
  shows "gen_ok ws positive w i (set_position c g) fs"
proof (cases c)
  case (Some x)
  note x = c [OF Some]
  let ?p = "max (position g i 0) x"
  have p: "truthful w i ?p" "1 \<le> ?p" using position_truthful [OF g ok, of i] x by (auto simp: max_def)
  have "truthful w i (max (position g i 0) (max x (max_position_of_local_instance g)))"
    using position_truthful [OF g ok, of i] x g by (intro truthful_max) (simp_all add: gen_ok_def marks_ok_def)
  with positions_ok_update [OF _ p(1), of ws "current_positions g"] p(2) x g Some show ?thesis
    by (simp add: set_position_def Let_def gen_ok_def marks_ok_def)
qed (use g in \<open>simp add: set_position_def\<close>)

lemma advance_ok:
  assumes g: "gen_ok ws positive w i g fs" and ok: "world_ok ws w" and t: "truthful w n (t * return_factor g)" and n: "n \<noteq> i"
  shows "gen_ok ws positive w i (advance n t g) fs"
proof -
  let ?p = "t * return_factor g" and ?seen = "max_seen_allocated_stream_id g"
  let ?q = "max ?p (position g n 0)"
  let ?g = "g\<lparr>current_positions := AList.update n ?q (current_positions g), max_seen_allocated_stream_id := max ?seen ?p\<rparr>"
  have q: "truthful w n ?q" using t position_truthful [OF g ok, of n] by (simp add: max_def)
  have "1 \<le> ?q" if "n \<in> set ws" using position_ok(1) [OF g that, of 0] by simp
  with q g have "positions_ok ws w (current_positions ?g)" by (simp add: positions_ok_update gen_ok_def)
  moreover have "work_ok w i (max ?seen ?p) (unfinished_ids g) (in_flight_fetches g) fs"
    using g by (auto simp: gen_ok_def work_ok_def)
  moreover have "marks_ok w i ?g"
    using g truthful_settled [OF t] t by (auto simp: gen_ok_def marks_ok_def max_def truthful_def)
  ultimately have "gen_ok ws positive w i ?g fs" using g by (simp add: gen_ok_def)
  from add_persisted_position_ok [OF this ok truthful_settled [OF t]] show ?thesis
    by (simp add: advance_def Let_def)
qed

subsection \<open>Allocation\<close>

lemma mset_remove_nth: "j < length xs \<Longrightarrow> mset xs = add_mset (xs ! j) (mset (remove_nth j xs))"
  by (simp add: remove_nth_def) (metis add_mset_add_single id_take_nth_drop mset.simps(2) mset_append union_mset_add_mset_right)

lemma set_remove_nth: "j < length xs \<Longrightarrow> set xs = insert (xs ! j) (set (remove_nth j xs))"
  using mset_remove_nth [of j xs] by (metis set_mset_add_mset_insert set_mset_mset)

lemma fetch_begin_ok:
  assumes g: "gen_ok ws positive w i g fs" and i: "i \<in> set ws" and f: "fetch_begin g = (m, g')"
  shows "gen_ok ws positive w i g' ((m, []) # fs)"
proof -
  have m: "m = max_seen_allocated_stream_id g" and g': "g' = g\<lparr>in_flight_fetches := insort m (in_flight_fetches g)\<rparr>"
    using f by (auto simp: fetch_begin_def Let_def)
  have "m \<le> sequence_last w" using g by (simp add: gen_ok_def marks_ok_def m)
  with g have "work_ok w i m (unfinished_ids g) (insort m (in_flight_fetches g)) ((m, []) # fs)"
    by (auto simp: gen_ok_def work_ok_def sorted_insort m)
  with g i show ?thesis by (simp add: gen_ok_def marks_ok_def g' m)
qed

lemma draw_ok:
  assumes g: "gen_ok ws positive w i g fs" and ok: "world_ok ws w" and j: "j < length fs" "fs ! j = (m, ids)"
  shows "gen_ok ws positive (draw i w) i g (fs[j := (m, ids @ [sequence_last w + 1])])"
proof -
  let ?x = "sequence_last w + 1" and ?w = "draw i w"
  let ?fs = "fs[j := (m, ids @ [?x])]"
  have e: "grows w ?w" by (rule grows_draw)
  have wk: "work_ok w i (max_seen_allocated_stream_id g) (unfinished_ids g) (in_flight_fetches g) fs" using g by (simp add: gen_ok_def)
  have fs: "fs = take j fs @ (m, ids) # drop (Suc j) fs" using id_take_nth_drop [OF j(1)] unfolding j(2) .
  have fs': "?fs = take j fs @ (m, ids @ [?x]) # drop (Suc j) fs" using j by (simp add: upd_conv_take_nth_drop)
  have "map fst ?fs = map fst fs" unfolding fs' by (subst (3) fs) simp
  moreover have "(\<Union>f \<in> set ?fs. set (snd f)) = insert ?x (\<Union>f \<in> set fs. set (snd f))"
    unfolding fs' by (subst (3) fs) auto
  moreover have "fst f \<le> sequence_last ?w \<and> (\<forall>x \<in> set (snd f). fst f < x \<and> owner ?w x = Some i)" if "f \<in> set ?fs" for f
  proof -
    have old: "fst f \<le> sequence_last w" "\<And>x. x \<in> set (snd f) \<Longrightarrow> fst f < x \<and> owner w x = Some i" if "f \<in> set fs" for f
      using wk that by (auto simp: work_ok_def)
    have o: "owner w x = Some i \<Longrightarrow> owner ?w x = Some i" for x by (simp add: draw_def)
    have "(m, ids) \<in> set fs" using j nth_mem by fastforce
    from old [OF this] have new: "m \<le> sequence_last w" "\<And>x. x \<in> set ids \<Longrightarrow> m < x \<and> owner w x = Some i" by auto
    from that consider "f \<in> set fs" | "f = (m, ids @ [?x])" using set_update_subset_insert [of fs j] by blast
    then show ?thesis
      using old [of f] new o by cases (auto simp: draw_def)
  qed
  moreover have "owner ?w x = Some i \<longleftrightarrow> owner w x = Some i \<or> x = ?x" for x
    using ok by (auto simp: draw_def world_ok_def)
  ultimately have "work_ok ?w i (max_seen_allocated_stream_id g) (unfinished_ids g) (in_flight_fetches g) ?fs"
    using wk by (auto simp: work_ok_def draw_def)
  with g positions_ok_grows [OF _ e] marks_ok_grows [OF _ e] show ?thesis by (auto simp: gen_ok_def)
qed

text \<open>A fetch is over; its ids are among the unfinished ones or complete.\<close>

lemma fetch_over:
  assumes wk: "work_ok w i seen u q fs" and j: "j < length fs" "fs ! j = (m, ids)"
    and u': "sorted u'" "set u \<subseteq> set u'" "set ids \<subseteq> complete w \<union> set u'"
    and own: "\<And>x. x \<in> set u' \<Longrightarrow> owner w x = Some i \<and> x \<le> seen'"
  shows "work_ok w i seen' u' (remove1 m q) (remove_nth j fs)"
proof -
  have m: "mset (map fst fs) = add_mset m (mset (map fst (remove_nth j fs)))"
    using mset_remove_nth [OF j(1)] j(2) by (metis fst_conv image_mset_add_mset mset_map)
  have fs: "set fs = insert (m, ids) (set (remove_nth j fs))" using set_remove_nth [OF j(1)] j(2) by simp
  have "mset (remove1 m q) = mset (map fst (remove_nth j fs))" using wk m by (simp add: work_ok_def)
  moreover have "x \<in> complete w \<union> set u' \<union> (\<Union>f \<in> set (remove_nth j fs). set (snd f))" if "owner w x = Some i" for x
  proof -
    have "x \<in> complete w \<union> set u \<union> (\<Union>f \<in> set fs. set (snd f))" using wk that by (simp add: work_ok_def)
    then show ?thesis using u'(2,3) unfolding fs by auto
  qed
  moreover have "fst f \<le> sequence_last w \<and> (\<forall>x \<in> set (snd f). fst f < x \<and> owner w x = Some i)"
    if "f \<in> set (remove_nth j fs)" for f using wk that fs by (simp add: work_ok_def)
  moreover have "sorted (remove1 m q)" using wk by (simp add: work_ok_def sorted_remove1)
  ultimately show ?thesis using u'(1) own by (simp add: work_ok_def)
qed

lemma remove_nth_nonempty: "remove_nth j fs \<noteq> [] \<Longrightarrow> fs \<noteq> []"
  by (auto simp: remove_nth_def)

lemma fetch_abort_ok:
  assumes g: "gen_ok ws positive w i g fs" and j: "j < length fs" "fs ! j = (m, ids)" and c: "set ids \<subseteq> complete w \<union> set (unfinished_ids g)"
  shows "gen_ok ws positive w i (fetch_abort m g) (remove_nth j fs)"
proof -
  have "work_ok w i (max_seen_allocated_stream_id g) (unfinished_ids g) (remove1 m (in_flight_fetches g)) (remove_nth j fs)"
    by (rule fetch_over [OF _ j]) (use g c in \<open>auto simp: gen_ok_def work_ok_def\<close>)
  with g remove_nth_nonempty show ?thesis by (auto simp: gen_ok_def marks_ok_def fetch_abort_def)
qed

lemma le_last: "sorted l \<Longrightarrow> x \<in> set l \<Longrightarrow> x \<le> last l"
  by (cases l rule: rev_cases) (auto simp: sorted_append)

lemma fetch_end_ok:
  assumes g: "gen_ok ws positive w i g fs" and ok: "world_ok ws w" and j: "j < length fs" "fs ! j = (m, ids)"
    and e: "fetch_end m ids g = (r, g')"
  shows "gen_ok ws positive w i g' (remove_nth j fs)"
proof -
  let ?u = "sorted_list_of_set (set (unfinished_ids g) \<union> set ids)" and ?seen = "max_seen_allocated_stream_id g"
  have su: "set ?u = set (unfinished_ids g) \<union> set ids" by simp
  have "(m, ids) \<in> set fs" using j nth_mem by fastforce
  then have own: "owner w x = Some i" if "x \<in> set ?u" for x
    using g that unfolding su by (auto simp: gen_ok_def work_ok_def)
  show ?thesis
  proof (cases "?u = []")
    case True
    then have "g' = fetch_abort m (g\<lparr>unfinished_ids := []\<rparr>)" "unfinished_ids g = []" "ids = []"
      using e su by (auto simp: fetch_end_def Let_def)
    moreover have "g\<lparr>unfinished_ids := []\<rparr> = g" using calculation(2) by simp
    ultimately show ?thesis using fetch_abort_ok [OF g j] by simp
  next
    case False
    let ?seen' = "max ?seen (last ?u)"
    have g': "g' = g\<lparr>unfinished_ids := ?u, max_seen_allocated_stream_id := ?seen', in_flight_fetches := remove1 m (in_flight_fetches g)\<rparr>"
      using e False by (simp add: fetch_end_def Let_def fetch_abort_def)
    have last: "last ?u \<in> set ?u" using False by (rule last_in_set)
    have "x \<le> last ?u" if "x \<in> set ?u" for x
      by (rule le_last [OF sorted_sorted_list_of_set that])
    then have le: "x \<le> ?seen'" if "x \<in> set ?u" for x using that by fastforce
    have "last ?u \<le> sequence_last w" using own [OF last] ok by (auto simp: world_ok_def)
    with g last have "marks_ok w i g'" unfolding g' by (auto simp: gen_ok_def marks_ok_def max_def)
    moreover have "work_ok w i ?seen' ?u (remove1 m (in_flight_fetches g)) (remove_nth j fs)"
      by (rule fetch_over [OF _ j]) (use g own le su in \<open>auto simp: gen_ok_def\<close>)
    ultimately show ?thesis using g remove_nth_nonempty by (auto simp: gen_ok_def g')
  qed
qed

subsection \<open>Completion\<close>

lemma split_finished_ok:
  assumes "split_finished b c xs = (c', rest)" "\<And>x. c = Some x \<Longrightarrow> x < b \<and> x \<in> X" "set xs \<subseteq> X"
  shows "set rest \<subseteq> X \<and> (\<forall>x. c' = Some x \<longrightarrow> x < b \<and> x \<in> X)"
  using assms
proof (induction b c xs arbitrary: c' rest rule: split_finished.induct)
  case (2 b c s ss)
  show ?case
  proof (cases "s < b")
    case True
    let ?c = "case c of None \<Rightarrow> Some s | Some c \<Rightarrow> if c < s then Some s else Some c"
    have "split_finished b ?c ss = (c', rest)" using True 2(3) by simp
    moreover have "x < b \<and> x \<in> X" if "?c = Some x" for x
      using that True 2(4) [of x] 2(5) by (cases c) (auto split: if_splits)
    moreover have "set ss \<subseteq> X" using 2(5) by simp
    ultimately show ?thesis by (rule 2(1) [OF True])
  next
    case False
    obtain c1 r1 where r: "split_finished b c ss = (c1, r1)" by force
    with False 2(3) have "c' = c1" "rest = s # r1" by auto
    with 2(2) [OF False r 2(4)] 2(5) show ?thesis by auto
  qed
qed auto

lemma min_unfinished_le:
  assumes g: "gen_ok ws positive w i g fs" and x: "owner w x = Some i" "x \<notin> complete w" and b: "busy g"
  shows "min_unfinished g \<le> x"
proof -
  let ?u = "unfinished_ids g" and ?q = "in_flight_fetches g"
  have wk: "work_ok w i (max_seen_allocated_stream_id g) ?u ?q fs" using g by (simp add: gen_ok_def)
  have hd: "sorted l \<Longrightarrow> y \<in> set l \<Longrightarrow> hd l \<le> y" for l :: "int list" and y by (cases l) auto
  from wk x consider "x \<in> set ?u" | f where "f \<in> set fs" "x \<in> set (snd f)" by (auto simp: work_ok_def)
  then show ?thesis
  proof cases
    case 1
    then have "hd ?u \<le> x" "?u \<noteq> []" using wk hd by (auto simp: work_ok_def)
    then show ?thesis by (auto simp: min_unfinished_def)
  next
    case (2 f)
    have "fst f \<in> set ?q" using wk 2(1) by (metis image_eqI list.set_map mset_eq_setD work_ok_def)
    then have "hd ?q \<le> fst f" "?q \<noteq> []" using wk hd by (auto simp: work_ok_def)
    moreover have "fst f < x" using wk 2 by (auto simp: work_ok_def)
    ultimately show ?thesis by (auto simp: min_unfinished_def)
  qed
qed

text \<open>The ids leave the unfinished ones for the finished ones.\<close>

lemma finish_ids_ok:
  assumes g: "gen_ok ws positive w i g fs" and ok: "world_ok ws w"
    and ids: "set ids \<subseteq> set (unfinished_ids g)" "set ids \<subseteq> complete w"
  shows "gen_ok ws positive w i (g\<lparr>unfinished_ids := filter (\<lambda>x. x \<notin> set ids) (unfinished_ids g),
      finished_ids := finished_ids g @ filter (\<lambda>x. x \<notin> set (finished_ids g)) (remdups ids)\<rparr>) fs"
    (is "gen_ok ws positive w i ?g fs")
proof -
  have own: "owner w x = Some i \<and> x \<le> max_seen_allocated_stream_id g" if "x \<in> set ids" for x
    using g ids(1) that by (auto simp: gen_ok_def work_ok_def)
  have "work_ok w i (max_seen_allocated_stream_id g) (unfinished_ids ?g) (in_flight_fetches g) fs"
    using g ids(2) by (auto simp: gen_ok_def work_ok_def intro: sorted_filter [of id, simplified])
  moreover have "1 < x \<and> x \<in> complete w \<and> x \<le> max_seen_allocated_stream_id g" if "x \<in> set (finished_ids ?g)" for x
    using that g own [of x] ids(2) ok by (auto simp: gen_ok_def marks_ok_def world_ok_def)
  moreover have "settled w (max_seen_allocated_stream_id g) \<or> max_seen_allocated_stream_id g \<in> set (unfinished_ids ?g)"
    using g ids(2) by (auto simp: gen_ok_def marks_ok_def settled_def)
  ultimately show ?thesis using g by (simp add: gen_ok_def marks_ok_def)
qed

lemma mark_ids_as_finished_ok:
  assumes g: "gen_ok ws positive w i g fs" and ok: "world_ok ws w"
    and ids: "set ids \<subseteq> set (unfinished_ids g)" "set ids \<subseteq> complete w"
    and m: "mark_ids_as_finished ids g = (r, g')"
  shows "gen_ok ws positive w i g' fs"
proof -
  define g1 where "g1 = g\<lparr>unfinished_ids := filter (\<lambda>x. x \<notin> set ids) (unfinished_ids g),
      finished_ids := finished_ids g @ filter (\<lambda>x. x \<notin> set (finished_ids g)) (remdups ids)\<rparr>"
  have g1: "gen_ok ws positive w i g1 fs" unfolding g1_def by (rule finish_ids_ok [OF g ok ids])
  have fin: "1 < x \<and> x \<in> complete w \<and> x \<le> sequence_last w" if "x \<in> set (finished_ids g1)" for x
    using g1 that by (auto simp: gen_ok_def marks_ok_def)
  have st: "settled w x" if "x \<in> set ids" for x
    using g ok ids that by (force simp: gen_ok_def work_ok_def world_ok_def settled_def)
  have over: "gen_ok ws positive w i (foldl (\<lambda>g x. add_persisted_position x g) (set_position c (g1\<lparr>finished_ids := rest\<rparr>)) ids) fs"
    if "set rest \<subseteq> set (finished_ids g1)" "\<And>x. c = Some x \<Longrightarrow> 1 \<le> x \<and> truthful w i x" for c rest
  proof -
    have "gen_ok ws positive w i (g1\<lparr>finished_ids := rest\<rparr>) fs" using g1 that(1) by (auto simp: gen_ok_def marks_ok_def)
    from set_position_ok [OF this ok that(2)] show ?thesis by (rule add_persisted_positions_ok [OF _ ok st])
  qed
  have unf: "mark_ids_as_finished ids g = (if busy g1
      then (case split_finished (min_unfinished g1) None (finished_ids g1) of (new_cur, rest) \<Rightarrow>
         (Inr (), foldl (\<lambda>g x. add_persisted_position x g) (set_position new_cur (g1\<lparr>finished_ids := rest\<rparr>)) ids))
      else if finished_ids g1 = [] then (Inl ValueErr, g1)
      else (Inr (), foldl (\<lambda>g x. add_persisted_position x g)
         (set_position (Some (Max (set (finished_ids g1)))) (g1\<lparr>finished_ids := []\<rparr>)) ids))"
    unfolding mark_ids_as_finished_def g1_def Let_def ..
  show ?thesis
  proof (cases "busy g1")
    case True
    obtain c rest where c: "split_finished (min_unfinished g1) None (finished_ids g1) = (c, rest)" by force
    have sp: "set rest \<subseteq> set (finished_ids g1)" "\<And>x. c = Some x \<Longrightarrow> x < min_unfinished g1 \<and> x \<in> set (finished_ids g1)"
      using split_finished_ok [OF c, of "set (finished_ids g1)"] by auto
    have "1 \<le> x \<and> truthful w i x" if "c = Some x" for x
      using sp(2) [OF that] fin [of x] min_unfinished_le [OF g1 _ _ True] by (force simp: truthful_def)
    from over [OF sp(1) this] m True c show ?thesis by (auto simp: unf)
  next
    case False
    show ?thesis
    proof (cases "finished_ids g1 = []")
      case True
      with m False g1 show ?thesis by (simp add: unf)
    next
      case nonempty: False
      then have "Max (set (finished_ids g1)) \<in> set (finished_ids g1)" by simp
      from fin [OF this] not_busy_own [OF g1 False]
      have "1 \<le> Max (set (finished_ids g1)) \<and> truthful w i (Max (set (finished_ids g1)))" by (simp add: truthful_def)
      then have "gen_ok ws positive w i (foldl (\<lambda>g x. add_persisted_position x g)
         (set_position (Some (Max (set (finished_ids g1)))) (g1\<lparr>finished_ids := []\<rparr>)) ids) fs"
        by (intro over) simp_all
      with m False nonempty show ?thesis by (simp add: unf)
    qed
  qed
qed

section \<open>The cluster\<close>

definition cluster_ok :: "string list \<Rightarrow> bool \<Rightarrow> cluster \<Rightarrow> bool" where
  "cluster_ok ws positive c \<longleftrightarrow>
     ws \<noteq> [] \<and> world_ok ws (world c) \<and> (\<forall>i. gen_ok ws positive (world c) i (gens c i) (fetches c i)) \<and>
     (\<forall>(n, t) \<in> reports c. truthful (world c) n (t * (if positive then 1 else -1)))"

lemma factor_square: "return_factor g * return_factor g = 1" "x * return_factor g * return_factor g = x"
  "return_factor g * x * return_factor g = x"
  by (simp_all add: return_factor_def)

lemma cluster_okD:
  assumes "cluster_ok ws positive c"
  shows "world_ok ws (world c)" "gen_ok ws positive (world c) i (gens c i) (fetches c i)"
    "(n, t) \<in> reports c \<Longrightarrow> truthful (world c) n (t * return_factor (gens c i))"
  using assms by (auto simp: cluster_ok_def gen_ok_def return_factor_def)

text \<open>One process moves while the world stays.\<close>

lemma local_move:
  assumes "cluster_ok ws positive c" "gen_ok ws positive (world c) i g fs"
  shows "cluster_ok ws positive (c\<lparr>gens := (gens c)(i := g), fetches := (fetches c)(i := fs)\<rparr>)"
  using assms by (auto simp: cluster_ok_def)

lemma world_moves:
  assumes c: "cluster_ok ws positive c" and e: "grows (world c) w" and ok: "world_ok ws w"
    and own: "\<And>n x. owner w x = Some n \<Longrightarrow> n \<noteq> i \<Longrightarrow> owner (world c) x = Some n"
    and i: "gen_ok ws positive w i g fs"
  shows "cluster_ok ws positive (c\<lparr>world := w, gens := (gens c)(i := g), fetches := (fetches c)(i := fs)\<rparr>)"
proof -
  have "gen_ok ws positive w n (gens c n) (fetches c n)" if "n \<noteq> i" for n
    using gen_ok_grows [OF cluster_okD(2) [OF c] e cluster_okD(1) [OF c]] own that by blast
  with c i ok grows_stable(1) [OF e] show ?thesis by (auto simp: cluster_ok_def)
qed

lemma setdefault_all:
  "map_of (setdefault_positions p ws d) n =
     (case map_of d n of Some q \<Rightarrow> Some q | None \<Rightarrow> if n \<in> set ws then Some p else None)"
  "distinct (map fst d) \<Longrightarrow> distinct (map fst (setdefault_positions p ws d))"
  unfolding setdefault_positions_def by (induction ws arbitrary: d) (auto simp: distinct_update split: option.splits)

lemma new_gen_ok:
  "gen_ok ws positive \<lparr>sequence_last = 1, owner = (\<lambda>_. None), complete = {}\<rparr> i
     (snd (new_id_gen i ws positive \<lparr>stream_positions = [], stream_tables = []\<rparr>)) []" (is "gen_ok ws positive ?w i ?g []")
  if "ws \<noteq> []"
proof -
  define ps where "ps = setdefault_positions 1 ws []"
  have ps: "map_of ps n = (if n \<in> set ws then Some 1 else None)" "distinct (map fst ps)" for n
    by (simp_all add: ps_def setdefault_all)
  have "p = 1" if "(n, p) \<in> set ps" for n p
    using that ps(1) [of n] map_of_is_SomeI [OF ps(2) that] by (simp split: if_splits)
  then have "set (map snd ps) \<subseteq> {1}" by auto
  moreover have "ps \<noteq> []" using ps(1) [of "hd ws"] \<open>ws \<noteq> []\<close> by auto
  then have "set (map snd ps) \<noteq> {}" by simp
  ultimately have "set (map snd ps) = {1}" by (metis subset_singletonD)
  with \<open>ps \<noteq> []\<close> \<open>ws \<noteq> []\<close> have "?g = \<lparr>mw_instance_name = i, mw_positive = positive, mw_writers = ws, current_positions = ps,
      unfinished_ids = [], in_flight_fetches = [], finished_ids = [], persisted_upto_position = 1,
      known_persisted_positions = [], max_seen_allocated_stream_id = 1, max_position_of_local_instance = 1\<rparr>"
    by (simp add: new_id_gen_def load_current_ids_def Let_def ps_def)
  then show ?thesis
    using ps by (simp add: gen_ok_def positions_ok_def work_ok_def marks_ok_def truthful_def all_complete_def settled_def)
qed

lemma step_ok:
  assumes c: "cluster_ok ws positive c" and "cstep c c'"
  shows "cluster_ok ws positive c'"
  using assms(2)
proof cases
  case (fetch_begins i m g)
  have "i \<in> set ws" using fetch_begins(2) c cluster_okD(2) [OF c, of i]
    by (auto simp: may_write_def guardR_def gen_ok_def cluster_ok_def split: if_splits)
  with local_move [OF c fetch_begin_ok [OF cluster_okD(2) [OF c]]] fetch_begins show ?thesis by blast
next
  case (draws j i m ids)
  have i: "i \<in> set ws" using draws(2) cluster_okD(2) [OF c, of i] by (auto simp: gen_ok_def)
  have "owner (world c) x = Some n" if "owner (draw i (world c)) x = Some n" "n \<noteq> i" for n x
    using that by (auto simp: draw_def split: if_splits)
  from world_moves [OF c grows_draw world_ok_draw [OF cluster_okD(1) [OF c] i] this
      draw_ok [OF cluster_okD(2) [OF c] cluster_okD(1) [OF c] draws(2,3)]]
  show ?thesis unfolding draws(1) by simp
next
  case (fetch_ends j i m ids r g)
  with local_move [OF c fetch_end_ok [OF cluster_okD(2) [OF c] cluster_okD(1) [OF c]]] show ?thesis by blast
next
  case (fetch_fails j i m ids)
  let ?w = "completes (set ids) (world c)"
  have "gen_ok ws positive ?w i (gens c i) (fetches c i)"
    by (rule gen_ok_grows [OF cluster_okD(2) [OF c] grows_completes cluster_okD(1) [OF c]]) (simp add: completes_def)
  from fetch_abort_ok [OF this fetch_fails(2,3)]
  have "gen_ok ws positive ?w i (fetch_abort m (gens c i)) (remove_nth j (fetches c i))" by (auto simp: completes_def)
  from world_moves [OF c grows_completes world_ok_completes [OF cluster_okD(1) [OF c]] _ this]
  show ?thesis unfolding fetch_fails(1) by (simp add: completes_def)
next
  case (completed x)
  have "gen_ok ws positive (completes {x} (world c)) [] (gens c []) (fetches c [])"
    by (rule gen_ok_grows [OF cluster_okD(2) [OF c] grows_completes cluster_okD(1) [OF c]]) (simp add: completes_def)
  from world_moves [OF c grows_completes world_ok_completes [OF cluster_okD(1) [OF c]] _ this]
  show ?thesis unfolding completed(1) by (simp add: completes_def)
next
  case (marked ids i r g)
  from local_move [OF c mark_ids_as_finished_ok [OF cluster_okD(2) [OF c] cluster_okD(1) [OF c] marked(2-4)]]
  show ?thesis unfolding marked(1) by simp
next
  case (reported i)
  have "truthful (world c) i (max_position_of_local_instance (gens c i))" "mw_instance_name (gens c i) = i" "mw_positive (gens c i) = positive"
    using cluster_okD(2) [OF c, of i] by (simp_all add: gen_ok_def marks_ok_def)
  with c show ?thesis unfolding reported(1)
    by (auto simp: cluster_ok_def get_current_token_for_writer_def return_factor_def)
next
  case (row_reported x i)
  have "truthful (world c) i (max_position_of_local_instance (gens c i))" "mw_positive (gens c i) = positive"
    using cluster_okD(2) [OF c, of i] by (simp_all add: gen_ok_def marks_ok_def)
  then have "truthful (world c) i x" using row_reported(2-4) by (auto simp: truthful_def)
  with c \<open>mw_positive (gens c i) = positive\<close> show ?thesis unfolding row_reported(1)
    by (auto simp: cluster_ok_def return_factor_def)
next
  case (advanced n t i)
  from local_move [OF c advance_ok [OF cluster_okD(2) [OF c] cluster_okD(1) [OF c] cluster_okD(3) [OF c advanced(2)] advanced(3)]]
  show ?thesis unfolding advanced(1) by simp
qed

interpretation mw: machine "\<lambda>c. ws \<noteq> [] \<and> c = new_cluster ws positive" cstep "cluster_ok ws positive" for ws positive
proof unfold_locales
  fix c
  show "ws \<noteq> [] \<and> c = new_cluster ws positive \<Longrightarrow> cluster_ok ws positive c"
    using new_gen_ok by (auto simp: cluster_ok_def new_cluster_def world_ok_def)
qed (rule step_ok)

section \<open>What the tokens say\<close>

lemma skip_forward_mono: "p \<le> snd (skip_forward xs p)"
  by (induction xs p rule: skip_forward.induct) auto

lemma add_persisted_position_mono: "persisted_upto_position g \<le> persisted_upto_position (add_persisted_position x g)"
  using skip_forward_mono [of "max (min_current g) (persisted_upto_position g)" "insort x (known_persisted_positions g)"]
  by (auto simp: add_persisted_position_def Let_def split: prod.splits)

lemma add_persisted_positions_mono:
  "persisted_upto_position g \<le> persisted_upto_position (foldl (\<lambda>g x. add_persisted_position x g) g xs)"
proof (induction xs arbitrary: g)
  case (Cons x xs)
  from order_trans [OF add_persisted_position_mono Cons] show ?case by simp
qed simp

lemma set_position_same: "persisted_upto_position (set_position c g) = persisted_upto_position g"
  by (simp add: set_position_def Let_def split: option.splits)

lemma mark_ids_as_finished_mono: "persisted_upto_position g \<le> persisted_upto_position (snd (mark_ids_as_finished ids g))"
proof -
  have "persisted_upto_position g1 \<le> persisted_upto_position (foldl (\<lambda>g x. add_persisted_position x g) (set_position c (g1\<lparr>finished_ids := r\<rparr>)) ids)"
    for g1 c r by (rule order_trans [OF _ add_persisted_positions_mono]) (simp add: set_position_same)
  from this [of "g\<lparr>unfinished_ids := filter (\<lambda>x. x \<notin> set ids) (unfinished_ids g),
      finished_ids := finished_ids g @ filter (\<lambda>x. x \<notin> set (finished_ids g)) (remdups ids)\<rparr>"]
  show ?thesis by (auto simp: mark_ids_as_finished_def Let_def split: prod.splits)
qed

lemma persisted_upto_mono:
  assumes "cstep c c'"
  shows "persisted_upto_position (gens c i) \<le> persisted_upto_position (gens c' i)"
  using assms
proof cases
  case (marked ids n r g)
  have "persisted_upto_position (gens c n) \<le> persisted_upto_position g"
    using mark_ids_as_finished_mono [of "gens c n" ids] marked(4) by simp
  with marked(1) show ?thesis by simp
next
  case (advanced n t j)
  have "persisted_upto_position (gens c j) \<le> persisted_upto_position (advance n t (gens c j))"
    unfolding advance_def Let_def by (rule order_trans [OF _ add_persisted_position_mono]) simp
  with advanced(1) show ?thesis by simp
qed (auto simp: fetch_begin_def fetch_end_def fetch_abort_def Let_def split: if_splits)

text \<open>
  C26. In a cluster of processes that write one stream through \<open>MultiWriterIdGenerator\<close>, started on an
  empty stream, with ids drawn, completed, reported and received in any order: every id up to the
  current token of any process is complete, whichever process drew it, and every id that will be
  drawn later is beyond the token.  The token of a process never goes back.
\<close>

theorem persisted_upto_is_complete:
  assumes "ws \<noteq> []" "cstep\<^sup>*\<^sup>* (new_cluster ws positive) c" "p = return_factor (gens c i) * get_current_token (gens c i)"
  shows "p \<le> sequence_last (world c) \<and>
    {x. x \<le> p \<and> owner (world c) x \<noteq> None} \<subseteq> complete (world c) \<and>
    (\<forall>c'. cstep c c' \<longrightarrow> p \<le> return_factor (gens c' i) * get_current_token (gens c' i))"
proof -
  have ok: "cluster_ok ws positive c" using mw.good_reachable [OF _ assms(2)] assms(1) by blast
  have tok: "return_factor g * get_current_token g = persisted_upto_position g" for g
    by (simp add: get_current_token_def get_persisted_upto_position_def return_factor_def)
  have "all_complete (world c) p"
    using cluster_okD(2) [OF ok, of i] unfolding assms(3) tok by (simp add: gen_ok_def marks_ok_def)
  then show ?thesis using persisted_upto_mono unfolding assms(3) tok by (auto simp: all_complete_def)
qed

text \<open>
  The position of a writer as any process of the cluster sees it, its own or one learned over
  replication: the ids that writer drew up to it are complete.
\<close>

theorem writer_position_is_complete:
  assumes "ws \<noteq> []" "cstep\<^sup>*\<^sup>* (new_cluster ws positive) c"
  shows "{x. x \<le> return_factor (gens c i) * get_current_token_for_writer n (gens c i) \<and> owner (world c) x = Some n}
    \<subseteq> complete (world c)"
proof -
  have ok: "cluster_ok ws positive c" using mw.good_reachable [OF _ assms(2)] assms(1) by blast
  note g = cluster_okD(2) [OF ok, of i]
  have tok: "return_factor g * (return_factor g * p) = p" for g p by (simp add: return_factor_def)
  have name: "mw_instance_name (gens c i) = i" and mx: "truthful (world c) i (max_position_of_local_instance (gens c i))"
    and pu: "all_complete (world c) (persisted_upto_position (gens c i))" using g by (simp_all add: gen_ok_def marks_ok_def)
  have "truthful (world c) n (position (gens c i) n (persisted_upto_position (gens c i)))"
  proof (cases "map_of (current_positions (gens c i)) n")
    case None
    with all_complete_truthful [OF pu] show ?thesis by (simp add: position_def)
  next
    case (Some p)
    with g show ?thesis by (auto simp: gen_ok_def positions_ok_def position_def)
  qed
  with all_complete_truthful [OF pu, of n] mx name
  have "truthful (world c) n (return_factor (gens c i) * get_current_token_for_writer n (gens c i))"
    by (auto simp: get_current_token_for_writer_def tok intro: truthful_max)
  then show ?thesis by (auto simp: truthful_def)
qed

text \<open>The world only grows along a run.\<close>

lemma grows_trans: "grows w w' \<Longrightarrow> grows w' w'' \<Longrightarrow> grows w w''"
  by (fastforce simp: grows_def)

lemma steps_grow: "cstep\<^sup>*\<^sup>* c c' \<Longrightarrow> grows (world c) (world c')"
proof (induction rule: rtranclp_induct)
  case (step c' c'')
  from step.hyps(2) have "grows (world c') (world c'')" by cases (simp_all add: grows_draw grows_completes)
  with step.IH show ?case by (rule grows_trans)
qed simp

section \<open>A run\<close>

datatype cluster_op = Begin string | Draw string nat | End string nat | Complete int | Mark string "int list"
  | Report string | Receive string string int

fun do_op :: "cluster_op \<Rightarrow> cluster \<Rightarrow> cluster" where
  "do_op (Begin i) c =
     (case fetch_begin (gens c i) of (m, g) \<Rightarrow> c\<lparr>gens := (gens c)(i := g), fetches := (fetches c)(i := (m, []) # fetches c i)\<rparr>)"
| "do_op (Draw i j) c =
     (case fetches c i ! j of (m, ids) \<Rightarrow>
        c\<lparr>world := draw i (world c), fetches := (fetches c)(i := (fetches c i)[j := (m, ids @ [sequence_last (world c) + 1])])\<rparr>)"
| "do_op (End i j) c =
     (case fetches c i ! j of (m, ids) \<Rightarrow>
        c\<lparr>gens := (gens c)(i := snd (fetch_end m ids (gens c i))), fetches := (fetches c)(i := remove_nth j (fetches c i))\<rparr>)"
| "do_op (Complete x) c = c\<lparr>world := completes {x} (world c)\<rparr>"
| "do_op (Mark i ids) c = c\<lparr>gens := (gens c)(i := snd (mark_ids_as_finished ids (gens c i)))\<rparr>"
| "do_op (Report i) c = c\<lparr>reports := insert (i, get_current_token_for_writer i (gens c i)) (reports c)\<rparr>"
| "do_op (Receive i n t) c = c\<lparr>gens := (gens c)(i := advance n t (gens c i))\<rparr>"

fun enabled :: "cluster_op \<Rightarrow> cluster \<Rightarrow> bool" where
  "enabled (Begin i) c \<longleftrightarrow> ok (may_write (gens c i))"
| "enabled (Draw i j) c \<longleftrightarrow> j < length (fetches c i)"
| "enabled (End i j) c \<longleftrightarrow> j < length (fetches c i)"
| "enabled (Complete x) c \<longleftrightarrow> owner (world c) x \<noteq> None"
| "enabled (Mark i ids) c \<longleftrightarrow> list_all (\<lambda>x. x \<in> set (unfinished_ids (gens c i)) \<and> x \<in> complete (world c)) ids"
| "enabled (Report i) c \<longleftrightarrow> True"
| "enabled (Receive i n t) c \<longleftrightarrow> (n, t) \<in> reports c \<and> n \<noteq> i"

lemma do_op_step: "enabled op c \<Longrightarrow> cstep c (do_op op c)"
proof (cases op)
  case (Begin i)
  assume "enabled op c"
  with Begin cstep.fetch_begins [of c i] show ?thesis by (auto simp: ok_iff split: prod.splits)
next
  case (Draw i j)
  assume "enabled op c"
  with Draw cstep.draws [of j c i] show ?thesis by (auto split: prod.splits)
next
  case (End i j)
  assume "enabled op c"
  obtain m ids where f: "fetches c i ! j = (m, ids)" by force
  from \<open>enabled op c\<close> End f cstep.fetch_ends [of j c i m ids "fst (fetch_end m ids (gens c i))" "snd (fetch_end m ids (gens c i))"]
  show ?thesis by simp
next
  case (Mark i ids)
  assume "enabled op c"
  with Mark cstep.marked [of ids c i] show ?thesis by (auto simp: list_all_iff subset_iff intro: prod.collapse [symmetric])
qed (auto intro: cstep.intros)

fun run_enabled :: "cluster_op list \<Rightarrow> cluster \<Rightarrow> bool" where
  "run_enabled [] c = True"
| "run_enabled (x # xs) c \<longleftrightarrow> enabled x c \<and> run_enabled xs (do_op x c)"

lemma run_reachable: "run_enabled ops c \<Longrightarrow> cstep\<^sup>*\<^sup>* c (fold do_op ops c)"
proof (induction ops arbitrary: c)
  case (Cons x xs)
  then have "cstep c (do_op x c)" "cstep\<^sup>*\<^sup>* (do_op x c) (fold do_op xs (do_op x c))" by (simp_all add: do_op_step)
  then show ?case by (simp add: converse_rtranclp_into_rtranclp)
qed simp

text \<open>
  Process \<open>a\<close> draws 2 and \<open>b\<close> draws 3.  \<open>b\<close> is finished first and tells \<open>a\<close>, whose token stays
  at 1 until its own id is complete; then it is 3.
\<close>

definition two_writers :: "cluster_op list" where
  "two_writers = [Begin ''a'', Draw ''a'' 0, End ''a'' 0, Begin ''b'', Draw ''b'' 0, End ''b'' 0,
     Complete 3, Mark ''b'' [3], Report ''b'', Receive ''a'' ''b'' 3]"

definition two_writers_half :: cluster where
  "two_writers_half = fold do_op two_writers (new_cluster [''a'', ''b''] True)"

definition two_writers_end :: cluster where
  "two_writers_end = fold do_op (two_writers @ [Complete 2, Mark ''a'' [2]]) (new_cluster [''a'', ''b''] True)"

lemma two_writers_reachable:
  "cstep\<^sup>*\<^sup>* (new_cluster [''a'', ''b''] True) two_writers_half" "cstep\<^sup>*\<^sup>* (new_cluster [''a'', ''b''] True) two_writers_end"
  unfolding two_writers_half_def two_writers_end_def by (rule run_reachable, code_simp)+

lemma two_writers_tokens:
  "return_factor (gens two_writers_half ''a'') * get_current_token (gens two_writers_half ''a'') = 1"
  "return_factor (gens two_writers_half ''a'') * get_current_token_for_writer ''b'' (gens two_writers_half ''a'') = 3"
  "return_factor (gens two_writers_end ''a'') * get_current_token (gens two_writers_end ''a'') = 3"
  "owner (world two_writers_end) 2 = Some ''a''" "owner (world two_writers_half) 3 = Some ''b''"
  by code_simp+

theorem persisted_upto_is_complete_witness:
  "3 \<le> sequence_last (world two_writers_end) \<and> owner (world two_writers_end) 2 = Some ''a'' \<and>
   {x. x \<le> 3 \<and> owner (world two_writers_end) x \<noteq> None} \<subseteq> complete (world two_writers_end)"
  using persisted_upto_is_complete [OF _ two_writers_reachable(2) two_writers_tokens(3) [symmetric]] two_writers_tokens(4) by simp

theorem writer_position_is_complete_witness:
  "{x. x \<le> 3 \<and> owner (world two_writers_half) x = Some ''b''} \<subseteq> complete (world two_writers_half) \<and>
   owner (world two_writers_half) 3 = Some ''b''"
  using writer_position_is_complete [OF _ two_writers_reachable(1), of "''a''" "''b''"] two_writers_tokens(2,5) by simp

end
