(* ===== verification/Visibility.thy ===== *)
theory Visibility
  imports Event_Utils_Props State_Filter_Props
begin

text \<open>
  \<open>visibility.py\<close>: which events a client, or another server, may see.  The storage that the code
  asks for state, ignored and erased users and retention policies is a record of functions; what
  the theorems rely on is in \<open>storage_ok\<close>.  The clock stands still during a call.
\<close>

section \<open>Events with their metadata\<close>

record seen_event =
  the_event :: event
  ev_unsigned :: dict
  outlier :: bool
  soft_failed :: bool

definition prune_seen :: "seen_event \<Rightarrow> seen_event result" where
  "prune_seen e =
     bindR (prune_event (the_event e)) (\<lambda>p.
     bindR (foldR (copy_unsigned (JObj (ev_unsigned e))) [] [''age_ts'', ''replaces_state'']) (\<lambda>u.
       Inr (e\<lparr>the_event := p, ev_unsigned := u\<rparr>)))"

record retention_policy =
  min_lifetime :: "int option"
  max_lifetime :: "int option"

record visibility_storage =
  get_state_for_events :: "string list \<Rightarrow> state_filter \<Rightarrow> (string \<times> event state_map) list"
  get_state_ids_for_events :: "string list \<Rightarrow> state_filter \<Rightarrow> (string \<times> (state_pos \<times> string) list) list"
  get_events :: "string list \<Rightarrow> (string \<times> event) list"
  ignored_users :: "string \<Rightarrow> string list"
  ignored_by :: "string \<Rightarrow> string list"
  are_users_erased :: "string list \<Rightarrow> (string \<times> bool) list"
  get_retention_policy_for_room :: "string \<Rightarrow> retention_policy"
  is_partial_state_room :: "string \<Rightarrow> bool"

section \<open>Constants\<close>

abbreviation RoomHistoryVisibility :: string where "RoomHistoryVisibility \<equiv> ''m.room.history_visibility''"
abbreviation Dummy :: string where "Dummy \<equiv> ''org.matrix.dummy_event''"

abbreviation WORLD_READABLE :: json where "WORLD_READABLE \<equiv> JStr ''world_readable''"
abbreviation SHARED :: json where "SHARED \<equiv> JStr ''shared''"
abbreviation INVITED :: json where "INVITED \<equiv> JStr ''invited''"
abbreviation JOINED :: json where "JOINED \<equiv> JStr ''joined''"

definition VISIBILITY_PRIORITY :: "json list" where
  "VISIBILITY_PRIORITY = [WORLD_READABLE, SHARED, INVITED, JOINED]"

definition MEMBERSHIP_PRIORITY :: "json list" where
  "MEMBERSHIP_PRIORITY = [JOIN, INVITE, KNOCK, LEAVE, BAN]"

definition HISTORY_VIS_KEY :: state_pos where
  "HISTORY_VIS_KEY = (RoomHistoryVisibility, [])"

text \<open>\<open>xs.index(x)\<close>\<close>

definition index_of :: "'a list \<Rightarrow> 'a \<Rightarrow> nat result" where
  "index_of xs x = (if x \<in> set xs then Inr (length (takeWhile ((\<noteq>) x) xs)) else Inl ValueErr)"

section \<open>The checks\<close>

definition get_effective_room_visibility_from_state :: "event state_map \<Rightarrow> json" where
  "get_effective_room_visibility_from_state state =
     (case state HISTORY_VIS_KEY of
        None \<Rightarrow> SHARED
      | Some visibility_event \<Rightarrow>
          (let visibility = content_get visibility_event ''history_visibility'' SHARED
           in if visibility \<notin> set VISIBILITY_PRIORITY then SHARED else visibility))"

datatype check_filter = MAYBE_ALLOWED | DENIED

definition check_filter_send_to_client :: "seen_event \<Rightarrow> int \<Rightarrow> retention_policy \<Rightarrow> bool \<Rightarrow> check_filter" where
  "check_filter_send_to_client e now policy sender_ignored =
     (let event = the_event e
      in if ev_type event = Dummy then DENIED
         else if \<not> is_state event \<and> sender_ignored then DENIED
         else if ev_type event = Aliases then DENIED
         else if \<not> is_state event then
           (case max_lifetime policy of
              None \<Rightarrow> MAYBE_ALLOWED
            | Some lifetime \<Rightarrow> if origin_server_ts event < now - lifetime then DENIED else MAYBE_ALLOWED)
         else MAYBE_ALLOWED)"

text \<open>\<open>event.unsigned.get("prev_content", {}).get(key)\<close>\<close>

definition prev_content_get :: "seen_event \<Rightarrow> string \<Rightarrow> json result" where
  "prev_content_get e k =
     py_get (case map_of (ev_unsigned e) ''prev_content'' of None \<Rightarrow> JObj [] | Some v \<Rightarrow> v) k JNull"

datatype check_visibility = ALLOWED | MAYBE_DENIED

definition check_history_visibility :: "seen_event \<Rightarrow> json \<Rightarrow> bool \<Rightarrow> check_visibility result" where
  "check_history_visibility e visibility is_peeking =
     bindR (if ev_type (the_event e) = RoomHistoryVisibility
            then bindR (prev_content_get e ''history_visibility'') (\<lambda>prev.
                 let prev_visibility = (if prev \<notin> set VISIBILITY_PRIORITY then SHARED else prev)
                 in bindR (index_of VISIBILITY_PRIORITY visibility) (\<lambda>new_priority.
                    bindR (index_of VISIBILITY_PRIORITY prev_visibility) (\<lambda>old_priority.
                      Inr (if old_priority < new_priority then prev_visibility else visibility))))
            else Inr visibility) (\<lambda>visibility.
       Inr (if visibility = SHARED \<and> \<not> is_peeking then ALLOWED
            else if visibility = WORLD_READABLE then ALLOWED
            else MAYBE_DENIED))"

text \<open>\<open>event.type == EventTypes.Member and event.state_key == user_id\<close>\<close>

definition own_membership :: "string \<Rightarrow> event \<Rightarrow> bool result" where
  "own_membership user e =
     (if ev_type e = Member then bindR (state_key e) (\<lambda>k. Inr (k = user)) else Inr False)"

record check_membership_return =
  allowed :: bool
  was_joined :: bool

definition known_membership :: "json \<Rightarrow> json" where
  "known_membership m = (if m \<notin> set MEMBERSHIP_PRIORITY then LEAVE else m)"

definition membership_decision :: "json \<Rightarrow> json \<Rightarrow> bool \<Rightarrow> check_membership_return" where
  "membership_decision m visibility is_peeking =
     (if m = JOIN then \<lparr>allowed = True, was_joined = True\<rparr>
      else if visibility = JOINED then \<lparr>allowed = False, was_joined = False\<rparr>
      else if visibility = INVITED then \<lparr>allowed = (m = INVITE), was_joined = False\<rparr>
      else if visibility = SHARED \<and> is_peeking then \<lparr>allowed = False, was_joined = False\<rparr>
      else \<lparr>allowed = True, was_joined = False\<rparr>)"

definition check_membership ::
  "string \<Rightarrow> seen_event \<Rightarrow> json \<Rightarrow> event state_map \<Rightarrow> bool \<Rightarrow> check_membership_return result" where
  "check_membership user e visibility state is_peeking =
     bindR (own_membership user (the_event e)) (\<lambda>own.
       if own then
         (let m = known_membership (content_get (the_event e) ''membership'' JNull)
          in bindR (prev_content_get e ''membership'') (\<lambda>prev.
             let prev_m = known_membership prev
             in if m = LEAVE \<and> (prev_m = JOIN \<or> prev_m = INVITE) then Inr \<lparr>allowed = True, was_joined = (m = JOIN)\<rparr>
                else bindR (index_of MEMBERSHIP_PRIORITY m) (\<lambda>new_priority.
                     bindR (index_of MEMBERSHIP_PRIORITY prev_m) (\<lambda>old_priority.
                       Inr (membership_decision (if old_priority < new_priority then prev_m else m) visibility is_peeking)))))
       else
         (case state (Member, user) of
            None \<Rightarrow> Inr (membership_decision JNull visibility is_peeking)
          | Some membership_event \<Rightarrow>
              bindR (membership membership_event) (\<lambda>m. Inr (membership_decision m visibility is_peeking))))"

definition check_client_allowed_to_see_event ::
  "string \<Rightarrow> seen_event \<Rightarrow> int \<Rightarrow> bool \<Rightarrow> bool \<Rightarrow> string list \<Rightarrow> bool \<Rightarrow> retention_policy \<Rightarrow> event state_map option \<Rightarrow> bool
   \<Rightarrow> seen_event option result" where
  "check_client_allowed_to_see_event user e now filter_send_to_client is_peeking always_include_ids sender_ignored
       policy state sender_erased =
     (if filter_send_to_client \<and> check_filter_send_to_client e now policy sender_ignored = DENIED then Inr None
      else if ev_id (the_event e) \<in> set always_include_ids then Inr (Some e)
      else if outlier e then bindR (own_membership user (the_event e)) (\<lambda>own. Inr (if own then Some e else None))
      else (case state of
              None \<Rightarrow> Inl GenericException
            | Some st \<Rightarrow>
                (let visibility = get_effective_room_visibility_from_state st
                 in bindR (if sender_erased then Inr MAYBE_DENIED else check_history_visibility e visibility is_peeking) (\<lambda>lax.
                    if lax = ALLOWED then Inr (Some e)
                    else bindR (check_membership user e visibility st is_peeking) (\<lambda>r.
                         if \<not> allowed r then Inr None
                         else if sender_erased \<and> \<not> was_joined r then bindR (prune_seen e) (\<lambda>p. Inr (Some p))
                         else Inr (Some e))))))"

section \<open>Filtering for a client\<close>

text \<open>
  The nested function \<open>allowed\<close> reads the variables \<open>retention_policies\<close> and \<open>room_id\<close> of the loop
  over the rooms: the policy it uses is that of the last room of the loop, and neither variable is
  bound if \<open>filter_send_to_client\<close> is not set.  The loop goes over a Python set, whose order is the
  argument \<open>room_ids\<close>.
\<close>

definition filter_events_for_client ::
  "visibility_storage \<Rightarrow> int \<Rightarrow> string list \<Rightarrow> string \<Rightarrow> seen_event list \<Rightarrow> bool \<Rightarrow> string list \<Rightarrow> bool \<Rightarrow> seen_event list result" where
  "filter_events_for_client storage now room_ids user events is_peeking always_include_ids filter_send_to_client =
     (let evs = filter (\<lambda>e. \<not> soft_failed e) events;
          event_id_to_state =
            get_state_for_events storage (remdups (map (\<lambda>e. ev_id (the_event e)) (filter (\<lambda>e. \<not> outlier e) evs)))
              (from_types [(RoomHistoryVisibility, Some []), (Member, Some user)]);
          ignore_list = ignored_users storage user;
          erased_senders = are_users_erased storage (map (\<lambda>e. sender (the_event e)) evs)
      in bindR (mapR (\<lambda>e.
             bindR (if filter_send_to_client then Inr (get_retention_policy_for_room storage (last room_ids)) else Inl NameErr) (\<lambda>policy.
               check_client_allowed_to_see_event user e now filter_send_to_client is_peeking always_include_ids
                 (sender (the_event e) \<in> set ignore_list) policy (map_of event_id_to_state (ev_id (the_event e)))
                 (case map_of erased_senders (sender (the_event e)) of None \<Rightarrow> False | Some b \<Rightarrow> b))) evs) (\<lambda>filtered.
           Inr (List.map_filter id filtered)))"

section \<open>Filtering users for one event\<close>

definition get_state_map ::
  "visibility_storage \<Rightarrow> event \<Rightarrow> (state_filter \<Rightarrow> (state_pos \<times> string) list) \<Rightarrow> state_filter \<Rightarrow> event state_map" where
  "get_state_map store event get_prev_state_ids f =
     (let state_ids = get_prev_state_ids f;
          event_map = get_events store (map snd state_ids);
          updated = map_of (List.map_filter (\<lambda>(k, i). map_option (Pair k) (map_of event_map i)) state_ids)
      in case state_key_field event of None \<Rightarrow> updated | Some k \<Rightarrow> updated((ev_type event, k) \<mapsto> event))"

definition filter_event_for_clients_with_state ::
  "visibility_storage \<Rightarrow> int \<Rightarrow> string list \<Rightarrow> seen_event \<Rightarrow> (state_filter \<Rightarrow> (state_pos \<times> string) list) \<Rightarrow> bool \<Rightarrow> bool
   \<Rightarrow> string list result" where
  "filter_event_for_clients_with_state store now user_ids e get_prev_state_ids is_peeking filter_send_to_client =
     (if soft_failed e then Inr []
      else if user_ids = [] then Inr []
      else
        (let event = the_event e;
             policy = get_retention_policy_for_room store (room_id event);
             allowed_user_ids =
               (if filter_send_to_client
                then filter (\<lambda>u. check_filter_send_to_client e now policy (u \<in> set (ignored_by store (sender event))) \<noteq> DENIED)
                       (remdups user_ids)
                else remdups user_ids)
         in if outlier e then
              (if ev_type event = Member
               then bindR (state_key event) (\<lambda>k. Inr (if k \<in> set allowed_user_ids then [k] else []))
               else Inr [])
            else
              (let visibility = get_effective_room_visibility_from_state
                     (get_state_map store event get_prev_state_ids (from_types [(RoomHistoryVisibility, Some [])]))
               in bindR (check_history_visibility e visibility is_peeking) (\<lambda>lax.
                  if lax = ALLOWED then Inr allowed_user_ids
                  else
                    (let state = get_state_map store event get_prev_state_ids
                           (from_types (map (\<lambda>u. (Member, Some u)) allowed_user_ids @ [(RoomHistoryVisibility, Some [])]))
                     in bindR (mapR (\<lambda>u. bindR (check_membership u e visibility state is_peeking) (\<lambda>r. Inr (u, allowed r))) allowed_user_ids) (\<lambda>rs.
                          Inr (map fst (filter snd rs))))))))"

section \<open>Filtering for a server\<close>

definition event_to_history_vis :: "visibility_storage \<Rightarrow> seen_event list \<Rightarrow> (string \<times> json) list result" where
  "event_to_history_vis storage events =
     (let event_to_state_ids =
            get_state_ids_for_events storage (remdups (map (\<lambda>e. ev_id (the_event e)) (filter (\<lambda>e. \<not> outlier e) events)))
              (from_types [(RoomHistoryVisibility, Some [])]);
          visibility_ids = filter (\<lambda>i. i \<noteq> []) (List.map_filter (\<lambda>kv. map_of (snd kv) HISTORY_VIS_KEY) event_to_state_ids);
          vis_events = get_events storage (remdups visibility_ids)
      in foldR (\<lambda>res e.
           (let i = ev_id (the_event e);
                visibility_id = (case map_of event_to_state_ids i of None \<Rightarrow> None | Some ids \<Rightarrow> map_of ids HISTORY_VIS_KEY)
            in bindR (case visibility_id of
                        None \<Rightarrow> Inr SHARED
                      | Some v \<Rightarrow>
                          if v = [] then Inr SHARED
                          else (case map_of vis_events v of
                                  None \<Rightarrow> Inl KeyErr
                                | Some vis_event \<Rightarrow>
                                    (case content_get vis_event ''history_visibility'' SHARED of
                                       JStr s \<Rightarrow> Inr (JStr s)
                                     | _ \<Rightarrow> Inl AssertionErr))) (\<lambda>vis.
               Inr (AList.update i vis res)))) [] events)"

definition include_state_key :: "string \<Rightarrow> string \<Rightarrow> bool" where
  "include_state_key server_name k = (case split_at CHR '':'' k of None \<Rightarrow> False | Some (_, domain) \<Rightarrow> domain = server_name)"

definition event_to_memberships ::
  "visibility_storage \<Rightarrow> seen_event list \<Rightarrow> string \<Rightarrow> (string \<times> (state_pos \<times> event) list) list" where
  "event_to_memberships storage events server_name =
     (if events = [] then []
      else
        (let event_to_state_ids =
               get_state_ids_for_events storage (remdups (map (\<lambda>e. ev_id (the_event e)) events)) (from_types [(Member, None)]);
             event_id_to_state_key = dict_update [] (concat (map (\<lambda>kv. map (\<lambda>(key, i). (i, key)) (snd kv)) event_to_state_ids));
             event_map = get_events storage
               (map fst (filter (\<lambda>(i, key). include_state_key server_name (snd key)) event_id_to_state_key))
         in map (\<lambda>(i, key_to_eid). (i, List.map_filter (\<lambda>(key, inner). map_option (Pair key) (map_of event_map inner)) key_to_eid))
              event_to_state_ids))"

fun membership_loop :: "string \<Rightarrow> json \<Rightarrow> event list \<Rightarrow> bool result" where
  "membership_loop target visibility [] = Inr False"
| "membership_loop target visibility (ev # evs) =
     bindR (bindR (state_key ev) get_domain_from_id) (\<lambda>domain.
     bindR (guardR (domain = target) AssertionErr) (\<lambda>_.
     bindR (membership ev) (\<lambda>memtype.
       if memtype = JOIN then Inr True
       else if memtype = INVITE \<and> visibility = INVITED then Inr True
       else membership_loop target visibility evs)))"

definition check_event_is_visible :: "string \<Rightarrow> json \<Rightarrow> (state_pos \<times> event) list \<Rightarrow> bool result" where
  "check_event_is_visible target visibility memberships =
     (if visibility \<noteq> INVITED \<and> visibility \<noteq> JOINED then Inr True
      else membership_loop target visibility (map snd memberships))"

definition is_sender_erased :: "event \<Rightarrow> (string \<times> bool) list \<Rightarrow> bool result" where
  "is_sender_erased event erased_senders =
     (if erased_senders = [] then Inr False
      else (case map_of erased_senders (sender event) of None \<Rightarrow> Inl KeyErr | Some b \<Rightarrow> Inr b))"

definition partial_state_invisible :: "visibility_storage \<Rightarrow> string \<Rightarrow> seen_event list \<Rightarrow> string list result" where
  "partial_state_invisible storage local_server_name events =
     foldR (\<lambda>ids e.
       bindR (get_domain_from_id (sender (the_event e))) (\<lambda>sender_domain.
         Inr (if sender_domain \<noteq> local_server_name \<and> is_partial_state_room storage (room_id (the_event e))
              then ids @ [ev_id (the_event e)] else ids))) [] events"

definition filter_events_for_server ::
  "visibility_storage \<Rightarrow> string \<Rightarrow> string \<Rightarrow> seen_event list \<Rightarrow> bool \<Rightarrow> bool \<Rightarrow> bool \<Rightarrow> seen_event list result" where
  "filter_events_for_server storage target_server_name local_server_name events redact filter_out_erased_senders
       filter_out_remote_partial_state_events =
     (let erased_senders =
            (if filter_out_erased_senders then are_users_erased storage (map (\<lambda>e. sender (the_event e)) events) else [])
      in bindR (if filter_out_remote_partial_state_events then partial_state_invisible storage local_server_name events
                else Inr []) (\<lambda>invisible.
         bindR (event_to_history_vis storage events) (\<lambda>history_vis.
         bindR (mapR (\<lambda>e. case map_of history_vis (ev_id (the_event e)) of
                             None \<Rightarrow> Inl KeyErr | Some vis \<Rightarrow> Inr (e, vis \<noteq> SHARED \<and> vis \<noteq> WORLD_READABLE)) events) (\<lambda>restricted.
           (let memberships = event_to_memberships storage (map fst (filter snd restricted)) target_server_name;
                include_event_in_output = (\<lambda>e.
                  bindR (is_sender_erased (the_event e) erased_senders) (\<lambda>erased.
                  bindR (check_event_is_visible target_server_name
                           (case map_of history_vis (ev_id (the_event e)) of None \<Rightarrow> SHARED | Some vis \<Rightarrow> vis)
                           (case map_of memberships (ev_id (the_event e)) of None \<Rightarrow> [] | Some m \<Rightarrow> m)) (\<lambda>visible.
                    Inr (visible \<and> ev_id (the_event e) \<notin> set invisible \<and> \<not> erased))))
            in bindR (mapR (\<lambda>e.
                   bindR (include_event_in_output e) (\<lambda>inc.
                     if inc then Inr [e]
                     else if redact then bindR (prune_seen e) (\<lambda>p. Inr [p])
                     else Inr [])) events) (\<lambda>parts. Inr (concat parts)))))))"

end
