(* ===== verification/Visibility_Props.thy ===== *)
theory Visibility_Props
  imports Visibility Sample_Room
begin

text \<open>
  What the filters of \<open>Visibility\<close> let through: no user and no server sees an event that the
  history visibility and the memberships at that event keep from them, the content of erased
  senders is shown to those who were there, and the two filters for clients agree.
\<close>

section \<open>What the storage promises\<close>

text \<open>
  \<open>state_ids i\<close> is the state after event \<open>i\<close>, \<open>event_of\<close> the stored events, \<open>erased\<close> the users
  who asked for erasure.
\<close>

definition storage_ok ::
  "visibility_storage \<Rightarrow> (string \<Rightarrow> state_pos \<Rightarrow> string option) \<Rightarrow> (string \<Rightarrow> event option) \<Rightarrow> (string \<Rightarrow> bool) \<Rightarrow> bool" where
  "storage_ok storage state_ids event_of erased \<longleftrightarrow>
     (\<forall>i p. state_ids i p \<noteq> Some []) \<and>
     (\<forall>ids f i. map_of (get_state_for_events storage ids f) i =
        (if i \<in> set ids then Some (\<lambda>p. if matches f p then Option.bind (state_ids i p) event_of else None) else None)) \<and>
     (\<forall>ids f i. map_option map_of (map_of (get_state_ids_for_events storage ids f) i) =
        (if i \<in> set ids then Some (\<lambda>p. if matches f p then state_ids i p else None) else None)) \<and>
     (\<forall>ids f i kv. (i, kv) \<in> set (get_state_ids_for_events storage ids f) \<longrightarrow>
        map_of (get_state_ids_for_events storage ids f) i = Some kv \<and> distinct (map fst kv)) \<and>
     (\<forall>ids i. map_of (get_events storage ids) i = (if i \<in> set ids then event_of i else None)) \<and>
     (\<forall>us u. map_of (are_users_erased storage us) u = (if u \<in> set us then Some (erased u) else None))"

definition state_at :: "(string \<Rightarrow> state_pos \<Rightarrow> string option) \<Rightarrow> (string \<Rightarrow> event option) \<Rightarrow> string \<Rightarrow> event state_map" where
  "state_at state_ids event_of i p = Option.bind (state_ids i p) event_of"

section \<open>The rules\<close>

definition priority :: "'a list \<Rightarrow> 'a \<Rightarrow> nat" where
  "priority xs x = length (takeWhile ((\<noteq>) x) xs)"

definition prev_value :: "seen_event \<Rightarrow> string \<Rightarrow> json" where
  "prev_value e k =
     (case map_of (ev_unsigned e) ''prev_content'' of Some (JObj d) \<Rightarrow> dict_get d k | _ \<Rightarrow> JNull)"

definition is_own :: "string \<Rightarrow> seen_event \<Rightarrow> bool" where
  "is_own user e \<longleftrightarrow> ev_type (the_event e) = Member \<and> state_key_field (the_event e) = Some user"

definition new_membership :: "seen_event \<Rightarrow> json" where
  "new_membership e = known_membership (content_get (the_event e) ''membership'' JNull)"

definition old_membership :: "seen_event \<Rightarrow> json" where
  "old_membership e = known_membership (prev_value e ''membership'')"

text \<open>A user rejects an invite or leaves.\<close>

definition own_leave :: "string \<Rightarrow> seen_event \<Rightarrow> bool" where
  "own_leave user e \<longleftrightarrow> is_own user e \<and> new_membership e = LEAVE \<and> old_membership e \<in> {JOIN, INVITE}"

text \<open>The membership that counts: for the user's own membership event the better of the two.\<close>

definition membership_seen :: "string \<Rightarrow> seen_event \<Rightarrow> event state_map \<Rightarrow> json" where
  "membership_seen user e st =
     (if is_own user e
      then if priority MEMBERSHIP_PRIORITY (old_membership e) < priority MEMBERSHIP_PRIORITY (new_membership e)
           then old_membership e else new_membership e
      else (case st (Member, user) of None \<Rightarrow> JNull | Some m \<Rightarrow> content_get m ''membership'' JNull))"

text \<open>The visibility that counts: for a change of the visibility the more open of the two.\<close>

definition visibility_seen :: "seen_event \<Rightarrow> event state_map \<Rightarrow> json" where
  "visibility_seen e st =
     (let new = get_effective_room_visibility_from_state st;
          prev = prev_value e ''history_visibility'';
          old = (if prev \<in> set VISIBILITY_PRIORITY then prev else SHARED)
      in if ev_type (the_event e) = RoomHistoryVisibility \<and> priority VISIBILITY_PRIORITY old < priority VISIBILITY_PRIORITY new
         then old else new)"

definition open_to :: "json \<Rightarrow> bool \<Rightarrow> bool" where
  "open_to vis is_peeking \<longleftrightarrow> vis = WORLD_READABLE \<or> vis = SHARED \<and> \<not> is_peeking"

definition was_in_room :: "string \<Rightarrow> seen_event \<Rightarrow> event state_map \<Rightarrow> bool" where
  "was_in_room user e st \<longleftrightarrow> membership_seen user e st = JOIN \<and> \<not> own_leave user e"

definition member_may_see :: "string \<Rightarrow> seen_event \<Rightarrow> event state_map \<Rightarrow> bool" where
  "member_may_see user e st \<longleftrightarrow>
     membership_seen user e st = JOIN \<or> own_leave user e \<or>
     membership_seen user e st = INVITE \<and> get_effective_room_visibility_from_state st = INVITED"

definition user_may_see :: "string \<Rightarrow> seen_event \<Rightarrow> event state_map \<Rightarrow> bool \<Rightarrow> bool" where
  "user_may_see user e st is_peeking \<longleftrightarrow> member_may_see user e st \<or> open_to (visibility_seen e st) is_peeking"

section \<open>The checks follow the rules\<close>

lemma effective_known: "get_effective_room_visibility_from_state st \<in> set VISIBILITY_PRIORITY"
  by (auto simp: get_effective_room_visibility_from_state_def VISIBILITY_PRIORITY_def Let_def split: option.splits)

lemma known_membership_in: "known_membership m \<in> set MEMBERSHIP_PRIORITY"
  by (auto simp: known_membership_def MEMBERSHIP_PRIORITY_def)

lemma index_of_known: "x \<in> set xs \<Longrightarrow> index_of xs x = Inr (priority xs x)"
  by (simp add: index_of_def priority_def)

lemma prev_content_get_value: "prev_content_get e k = Inr v \<Longrightarrow> v = prev_value e k"
proof -
  assume a: "prev_content_get e k = Inr v"
  show ?thesis
  proof (cases "map_of (ev_unsigned e) ''prev_content''")
    case None
    with a show ?thesis by (simp add: prev_content_get_def prev_value_def)
  next
    case (Some w)
    with a show ?thesis by (cases w) (auto simp: prev_content_get_def prev_value_def dict_get_def split: option.splits)
  qed
qed

lemma own_membership_value: "own_membership user (the_event e) = Inr b \<Longrightarrow> b = is_own user e"
  by (auto simp: own_membership_def is_own_def state_key_def result_simps split: if_splits option.splits)

lemma history_check_value:
  assumes "check_history_visibility e (get_effective_room_visibility_from_state st) is_peeking = Inr c"
  shows "c = (if open_to (visibility_seen e st) is_peeking then ALLOWED else MAYBE_DENIED)"
proof (cases "ev_type (the_event e) = RoomHistoryVisibility")
  case True
  have s: "SHARED \<in> set VISIBILITY_PRIORITY" by (simp add: VISIBILITY_PRIORITY_def)
  from assms True prev_content_get_value show ?thesis
    by (auto simp: check_history_visibility_def bindR_Inr_iff Let_def index_of_known effective_known s visibility_seen_def open_to_def
        split: if_splits)
next
  case False
  with assms show ?thesis by (auto simp: check_history_visibility_def visibility_seen_def open_to_def Let_def split: if_splits)
qed

lemma decision_allowed:
  "vis \<in> set VISIBILITY_PRIORITY \<Longrightarrow>
   membership_decision m vis is_peeking =
     \<lparr>allowed = (m = JOIN \<or> open_to vis is_peeking \<or> vis = INVITED \<and> m = INVITE), was_joined = (m = JOIN)\<rparr>"
  by (auto simp: membership_decision_def open_to_def VISIBILITY_PRIORITY_def)

lemma own_leave_membership: "own_leave user e \<Longrightarrow> membership_seen user e st = old_membership e"
  by (auto simp: own_leave_def membership_seen_def priority_def MEMBERSHIP_PRIORITY_def)

lemma membership_check_value:
  assumes "check_membership user e (get_effective_room_visibility_from_state st) st is_peeking = Inr r"
  shows "r = \<lparr>allowed = (member_may_see user e st \<or> open_to (get_effective_room_visibility_from_state st) is_peeking),
              was_joined = was_in_room user e st\<rparr>"
proof -
  let ?vis = "get_effective_room_visibility_from_state st"
  from assms obtain own where own: "own_membership user (the_event e) = Inr own"
    by (auto simp: check_membership_def bindR_Inr_iff)
  note o = own_membership_value [OF own]
  show ?thesis
  proof (cases "is_own user e")
    case True
    with assms own o obtain prev where prev: "prev_content_get e ''membership'' = Inr prev"
      by (auto simp: check_membership_def Let_def bindR_Inr_iff)
    have p: "prev = prev_value e ''membership''" by (rule prev_content_get_value [OF prev])
    show ?thesis
    proof (cases "own_leave user e")
      case True
      with assms own o \<open>is_own user e\<close> prev p have "r = \<lparr>allowed = True, was_joined = False\<rparr>"
        by (auto simp: check_membership_def Let_def own_leave_def new_membership_def old_membership_def)
      with True show ?thesis by (auto simp: member_may_see_def was_in_room_def)
    next
      case False
      with assms own o \<open>is_own user e\<close> prev p have "r = membership_decision (membership_seen user e st) ?vis is_peeking"
        by (auto simp: check_membership_def Let_def own_leave_def new_membership_def old_membership_def membership_seen_def
            index_of_known known_membership_in)
      with False show ?thesis by (auto simp: decision_allowed effective_known member_may_see_def was_in_room_def)
    qed
  next
    case False
    then have l: "\<not> own_leave user e" by (simp add: own_leave_def)
    have "r = membership_decision (membership_seen user e st) ?vis is_peeking"
      using assms own o False
      by (auto simp: check_membership_def membership_seen_def membership_def content_item_def content_get_def bindR_Inr_iff split: option.splits)
    with l show ?thesis by (auto simp: decision_allowed effective_known member_may_see_def was_in_room_def)
  qed
qed

text \<open>The check sees the whole state through the two entries it was given.\<close>

definition member_filter :: "string \<Rightarrow> state_filter" where
  "member_filter user = from_types [(RoomHistoryVisibility, Some []), (Member, Some user)]"

lemma effective_cong: "st HISTORY_VIS_KEY = st' HISTORY_VIS_KEY \<Longrightarrow>
  get_effective_room_visibility_from_state st = get_effective_room_visibility_from_state st'"
  by (simp add: get_effective_room_visibility_from_state_def)

lemma check_membership_cong: "st (Member, user) = st' (Member, user) \<Longrightarrow>
  check_membership user e vis st is_peeking = check_membership user e vis st' is_peeking"
  by (simp add: check_membership_def cong: if_cong)

lemma matches_member_filter: "matches (member_filter user) p \<longleftrightarrow> p = HISTORY_VIS_KEY \<or> p = (Member, user)"
  by (cases p) (auto simp: member_filter_def matches_from_types HISTORY_VIS_KEY_def)

lemma storage_state:
  assumes "storage_ok storage state_ids event_of erased"
  shows "map_of (get_state_for_events storage ids f) i =
    (if i \<in> set ids then Some (\<lambda>p. if matches f p then state_at state_ids event_of i p else None) else None)"
  using assms unfolding storage_ok_def state_at_def by blast

lemma storage_erased:
  assumes "storage_ok storage state_ids event_of erased"
  shows "map_of (are_users_erased storage us) u = (if u \<in> set us then Some (erased u) else None)"
  using assms by (simp add: storage_ok_def)

text \<open>The rules depend on these two entries only.\<close>

lemma rules_cong:
  assumes "st HISTORY_VIS_KEY = st' HISTORY_VIS_KEY" "st (Member, user) = st' (Member, user)"
  shows "member_may_see user e st = member_may_see user e st'" "visibility_seen e st = visibility_seen e st'"
    "was_in_room user e st = was_in_room user e st'"
proof -
  have "membership_seen user e st = membership_seen user e st'" by (simp add: membership_seen_def assms(2))
  with effective_cong [of st st', OF assms(1)] show "member_may_see user e st = member_may_see user e st'"
    "visibility_seen e st = visibility_seen e st'" "was_in_room user e st = was_in_room user e st'"
    by (simp_all add: member_may_see_def visibility_seen_def was_in_room_def)
qed

lemma open_to_lax: "open_to (get_effective_room_visibility_from_state st) is_peeking \<Longrightarrow> open_to (visibility_seen e st) is_peeking"
  using effective_known [of st]
  by (auto simp: open_to_def visibility_seen_def Let_def priority_def VISIBILITY_PRIORITY_def)

text \<open>What may be sent to a client at all.\<close>

definition sendable :: "seen_event \<Rightarrow> int \<Rightarrow> retention_policy \<Rightarrow> bool \<Rightarrow> bool" where
  "sendable e now policy ignored \<longleftrightarrow>
     ev_type (the_event e) \<notin> {Dummy, Aliases} \<and>
     (is_state (the_event e) \<or>
      \<not> ignored \<and> (\<forall>lifetime. max_lifetime policy = Some lifetime \<longrightarrow> now - lifetime \<le> origin_server_ts (the_event e)))"

lemma send_check_iff: "check_filter_send_to_client e now policy ignored = DENIED \<longleftrightarrow> \<not> sendable e now policy ignored"
  by (auto simp: check_filter_send_to_client_def sendable_def Let_def split: option.splits)

lemma client_check_value:
  assumes "check_client_allowed_to_see_event user e now True is_peeking always ignored policy state erased = Inr r"
  obtains "\<not> sendable e now policy ignored" "r = None"
  | "sendable e now policy ignored" "ev_id (the_event e) \<in> set always" "r = Some e"
  | "sendable e now policy ignored" "ev_id (the_event e) \<notin> set always" "outlier e" "r = (if is_own user e then Some e else None)"
  | st where "sendable e now policy ignored" "ev_id (the_event e) \<notin> set always" "\<not> outlier e" "state = Some st" "\<not> erased"
      "r = (if user_may_see user e st is_peeking then Some e else None)"
  | st where "sendable e now policy ignored" "ev_id (the_event e) \<notin> set always" "\<not> outlier e" "state = Some st" "erased"
      "r \<noteq> None \<Longrightarrow> user_may_see user e st is_peeking" "was_in_room user e st \<Longrightarrow> r = Some e"
      "r \<noteq> None \<Longrightarrow> \<not> was_in_room user e st \<Longrightarrow> \<exists>p. prune_seen e = Inr p \<and> r = Some p"
proof -
  let ?thesis' = thesis
  consider "\<not> sendable e now policy ignored" | "sendable e now policy ignored" "ev_id (the_event e) \<in> set always"
    | "sendable e now policy ignored" "ev_id (the_event e) \<notin> set always" "outlier e"
    | "sendable e now policy ignored" "ev_id (the_event e) \<notin> set always" "\<not> outlier e" "\<not> erased"
    | "sendable e now policy ignored" "ev_id (the_event e) \<notin> set always" "\<not> outlier e" "erased" by blast
  then show ?thesis'
  proof cases
    case 1
    with that(1) assms show ?thesis' by (simp add: check_client_allowed_to_see_event_def send_check_iff)
  next
    case 2
    with that(2) assms show ?thesis' by (simp add: check_client_allowed_to_see_event_def send_check_iff)
  next
    case 3
    with assms obtain own where "own_membership user (the_event e) = Inr own" "r = (if own then Some e else None)"
      by (auto simp: check_client_allowed_to_see_event_def send_check_iff bindR_Inr_iff)
    with that(3) 3 own_membership_value show ?thesis' by blast
  next
    case 4
    with assms obtain st c where st: "state = Some st"
      and c: "check_history_visibility e (get_effective_room_visibility_from_state st) is_peeking = Inr c"
      and r: "if c = ALLOWED then r = Some e
              else \<exists>m. check_membership user e (get_effective_room_visibility_from_state st) st is_peeking = Inr m \<and>
                     r = (if allowed m then Some e else None)"
      by (auto simp: check_client_allowed_to_see_event_def send_check_iff bindR_Inr_iff Let_def split: option.splits if_splits)
    have "r = (if user_may_see user e st is_peeking then Some e else None)"
    proof (cases "open_to (visibility_seen e st) is_peeking")
      case True
      with r history_check_value [OF c] show ?thesis by (simp add: user_may_see_def)
    next
      case False
      with r history_check_value [OF c] obtain m where
        "check_membership user e (get_effective_room_visibility_from_state st) st is_peeking = Inr m"
        "r = (if allowed m then Some e else None)" by auto
      with membership_check_value [of user e st is_peeking m] False open_to_lax [of st is_peeking e]
      show ?thesis by (auto simp: user_may_see_def)
    qed
    with that(4) 4 st show ?thesis' by blast
  next
    case 5
    with assms obtain st m where st: "state = Some st"
      and m: "check_membership user e (get_effective_room_visibility_from_state st) st is_peeking = Inr m"
      and r: "if \<not> allowed m then r = None else if \<not> was_joined m then \<exists>p. prune_seen e = Inr p \<and> r = Some p else r = Some e"
      by (auto simp: check_client_allowed_to_see_event_def send_check_iff bindR_Inr_iff Let_def split: option.splits if_splits)
    note v = membership_check_value [OF m]
    have a: "allowed m \<Longrightarrow> user_may_see user e st is_peeking"
      using v open_to_lax [of st is_peeking e] by (auto simp: user_may_see_def)
    have j: "was_joined m = was_in_room user e st" using v by simp
    have ja: "was_in_room user e st \<Longrightarrow> allowed m" using v by (simp add: was_in_room_def member_may_see_def)
    show ?thesis' by (rule that(5) [OF 5(1-3) st 5(4)]) (use r a j ja in \<open>auto split: if_splits\<close>)
  qed
qed

section \<open>Clients\<close>

text \<open>
  C14. Every event that \<open>filter_events_for_client\<close> returns to a user is one of the given events or its
  redaction; it is not soft failed, no alias or dummy event, and its sender is not ignored unless
  it is state.  It was asked for by id, or it is the user's own membership from outside the room,
  or the visibility and the memberships at the event let the user see it.  If the sender is
  erased, only someone who was in the room gets the unredacted event.
\<close>

theorem client_filter_safe:
  assumes "storage_ok storage state_ids event_of erased"
    and "filter_events_for_client storage now room_ids user events is_peeking always send = Inr out" "e' \<in> set out"
  shows "\<exists>e \<in> set events. \<not> soft_failed e \<and> (e' = e \<or> prune_seen e = Inr e') \<and>
    ev_type (the_event e) \<notin> {Dummy, Aliases} \<and>
    (is_state (the_event e) \<or> sender (the_event e) \<notin> set (ignored_users storage user)) \<and>
    (ev_id (the_event e) \<in> set always \<or> outlier e \<and> is_own user e \<or>
     \<not> outlier e \<and> user_may_see user e (state_at state_ids event_of (ev_id (the_event e))) is_peeking) \<and>
    (erased (sender (the_event e)) \<longrightarrow>
     prune_seen e = Inr e' \<or> ev_id (the_event e) \<in> set always \<or> outlier e \<or>
     was_in_room user e (state_at state_ids event_of (ev_id (the_event e))))"
proof -
  let ?evs = "filter (\<lambda>e. \<not> soft_failed e) events"
  let ?ids = "remdups (map (\<lambda>e. ev_id (the_event e)) (filter (\<lambda>e. \<not> outlier e) ?evs))"
  let ?policy = "get_retention_policy_for_room storage (last room_ids)"
  let ?st = "\<lambda>e. state_at state_ids event_of (ev_id (the_event e))"
  let ?er = "\<lambda>e. case map_of (are_users_erased storage (map (\<lambda>e. sender (the_event e)) ?evs)) (sender (the_event e)) of
      None \<Rightarrow> False | Some b \<Rightarrow> b"
  let ?check = "\<lambda>e. bindR (if send then Inr ?policy else Inl NameErr) (\<lambda>policy.
      check_client_allowed_to_see_event user e now send is_peeking always
        (sender (the_event e) \<in> set (ignored_users storage user)) policy
        (map_of (get_state_for_events storage ?ids (member_filter user)) (ev_id (the_event e))) (?er e))"
  from assms(2) obtain fs where fs: "mapR ?check ?evs = Inr fs" and out: "out = List.map_filter id fs"
    by (auto simp: filter_events_for_client_def Let_def bindR_Inr_iff member_filter_def)
  from assms(3) out have "Some e' \<in> set fs" by (auto simp: List.map_filter_def)
  from mapR_source [OF fs this] obtain e where e: "e \<in> set ?evs" and chk: "?check e = Inr (Some e')" by blast
  have "e \<in> set events" "\<not> soft_failed e" using e by auto
  have er: "?er e = erased (sender (the_event e))" using storage_erased [OF assms(1)] e by simp
  have st: "map_of (get_state_for_events storage ?ids (member_filter user)) (ev_id (the_event e)) = Some st \<Longrightarrow>
      member_may_see user e st = member_may_see user e (?st e) \<and> visibility_seen e st = visibility_seen e (?st e) \<and>
      was_in_room user e st = was_in_room user e (?st e)" for st
    using rules_cong [of st "?st e" user e] storage_state [OF assms(1), of ?ids "member_filter user" "ev_id (the_event e)"]
    by (auto simp: matches_member_filter split: if_splits)
  have send: "send" using chk by (cases send) auto
  with chk er have chk': "check_client_allowed_to_see_event user e now True is_peeking always
      (sender (the_event e) \<in> set (ignored_users storage user)) ?policy
      (map_of (get_state_for_events storage ?ids (member_filter user)) (ev_id (the_event e)))
      (erased (sender (the_event e))) = Inr (Some e')" by simp
  from chk' show ?thesis
    by (rule client_check_value) (use \<open>e \<in> set events\<close> \<open>\<not> soft_failed e\<close> st in
        \<open>force simp: sendable_def user_may_see_def split: if_splits\<close>)+
qed

text \<open>What the check of one event amounts to, as long as its sender is not erased.\<close>

definition shown :: "string \<Rightarrow> seen_event \<Rightarrow> int \<Rightarrow> retention_policy \<Rightarrow> bool \<Rightarrow> event state_map \<Rightarrow> bool \<Rightarrow> bool" where
  "shown user e now policy ignored st is_peeking \<longleftrightarrow>
     \<not> soft_failed e \<and> sendable e now policy ignored \<and> (if outlier e then is_own user e else user_may_see user e st is_peeking)"

lemma single_value:
  assumes "storage_ok storage state_ids event_of erased"
    and "filter_events_for_client storage now [room_id (the_event e)] user [e] is_peeking [] True = Inr out"
  defines "seen \<equiv> shown user e now (get_retention_policy_for_room storage (room_id (the_event e)))
      (sender (the_event e) \<in> set (ignored_users storage user)) (state_at state_ids event_of (ev_id (the_event e))) is_peeking"
  shows "(out \<noteq> [] \<longrightarrow> seen) \<and> (\<not> erased (sender (the_event e)) \<longrightarrow> out = (if seen then [e] else []))"
proof (cases "soft_failed e")
  case True
  with assms(2) show ?thesis by (simp add: filter_events_for_client_def seen_def shown_def List.map_filter_def)
next
  case False
  let ?ids = "if outlier e then [] else [ev_id (the_event e)]" and ?er = "erased (sender (the_event e))"
  let ?st = "state_at state_ids event_of (ev_id (the_event e))"
  have er: "map_of (are_users_erased storage [sender (the_event e)]) (sender (the_event e)) = Some ?er"
    using storage_erased [OF assms(1)] by simp
  from assms(2) False obtain r where chk: "check_client_allowed_to_see_event user e now True is_peeking []
      (sender (the_event e) \<in> set (ignored_users storage user)) (get_retention_policy_for_room storage (room_id (the_event e)))
      (map_of (get_state_for_events storage ?ids (member_filter user)) (ev_id (the_event e))) ?er = Inr r"
    and out: "out = List.map_filter id [r]"
    by (auto simp: filter_events_for_client_def Let_def bindR_Inr_iff er member_filter_def split: if_splits)
  have st: "map_of (get_state_for_events storage ?ids (member_filter user)) (ev_id (the_event e)) = Some st \<Longrightarrow>
      user_may_see user e st is_peeking = user_may_see user e ?st is_peeking" for st
    using rules_cong [of st ?st user e] storage_state [OF assms(1), of ?ids "member_filter user" "ev_id (the_event e)"]
    by (auto simp: matches_member_filter user_may_see_def split: if_splits)
  from chk have "(r \<noteq> None \<longrightarrow> seen) \<and> (\<not> ?er \<longrightarrow> r = (if seen then Some e else None))"
  proof (cases rule: client_check_value)
    case (4 st')
    then show ?thesis using False st [OF 4(4)] by (simp add: seen_def shown_def)
  next
    case (5 st')
    from st [OF 5(4)] 5(6) have "r \<noteq> None \<longrightarrow> user_may_see user e ?st is_peeking" by blast
    then show ?thesis using False 5(1,3,5) by (simp add: seen_def shown_def)
  qed (use False in \<open>simp_all add: seen_def shown_def\<close>)
  moreover have "out = (case r of None \<Rightarrow> [] | Some x \<Rightarrow> [x])" using out by (cases r) (simp_all add: List.map_filter_def)
  ultimately show ?thesis by (cases r; cases seen) simp_all
qed

text \<open>The context of an event gives the state before it.\<close>

definition context_ok :: "(state_filter \<Rightarrow> (state_pos \<times> string) list) \<Rightarrow> (state_pos \<Rightarrow> string option) \<Rightarrow> bool" where
  "context_ok get_prev_state_ids prev \<longleftrightarrow>
     (\<forall>f. distinct (map fst (get_prev_state_ids f)) \<and> map_of (get_prev_state_ids f) = (\<lambda>p. if matches f p then prev p else None))"

definition state_after_event :: "(state_pos \<Rightarrow> string option) \<Rightarrow> (string \<Rightarrow> event option) \<Rightarrow> event \<Rightarrow> event state_map" where
  "state_after_event prev event_of ev =
     (let st = (\<lambda>p. Option.bind (prev p) event_of)
      in case state_key_field ev of None \<Rightarrow> st | Some k \<Rightarrow> st((ev_type ev, k) \<mapsto> ev))"

lemma get_state_map_at:
  assumes "storage_ok storage state_ids event_of erased" "context_ok ctx prev" "matches f p"
  shows "get_state_map storage ev ctx f p = state_after_event prev event_of ev p"
proof -
  have c: "distinct (map fst (ctx f))" "map_of (ctx f) p = prev p" using assms(2,3) by (auto simp: context_ok_def)
  have g: "map_of (get_events storage (map snd (ctx f))) i = (if i \<in> snd ` set (ctx f) then event_of i else None)" for i
    using assms(1) by (auto simp: storage_ok_def)
  have "Option.bind (prev p) (map_of (get_events storage (map snd (ctx f)))) = Option.bind (prev p) event_of"
  proof (cases "prev p")
    case (Some i)
    then have "(p, i) \<in> set (ctx f)" using c(2) map_of_SomeD by fastforce
    then show ?thesis using Some by (force simp: g)
  qed simp
  then show ?thesis
    by (simp add: get_state_map_def Let_def map_of_map_filter [OF c(1)] c(2) state_after_event_def split: option.splits)
qed

lemma bulk_value:
  assumes "storage_ok storage state_ids event_of erased" "context_ok ctx prev"
    and "filter_event_for_clients_with_state storage now us e ctx is_peeking True = Inr vis" "u \<in> set us"
  shows "u \<in> set vis \<longleftrightarrow> shown u e now (get_retention_policy_for_room storage (room_id (the_event e)))
    (u \<in> set (ignored_by storage (sender (the_event e)))) (state_after_event prev event_of (the_event e)) is_peeking"
proof -
  let ?ev = "the_event e"
  let ?st = "state_after_event prev event_of ?ev"
  let ?ok = "\<lambda>u. sendable e now (get_retention_policy_for_room storage (room_id ?ev)) (u \<in> set (ignored_by storage (sender ?ev)))"
  let ?us = "filter ?ok (remdups us)"
  have ne: "us \<noteq> []" using assms(4) by auto
  consider "soft_failed e" | "\<not> soft_failed e" "outlier e" | "\<not> soft_failed e" "\<not> outlier e" by blast
  then show ?thesis
  proof cases
    case 1
    with assms(3) show ?thesis by (simp add: filter_event_for_clients_with_state_def shown_def)
  next
    case 2
    with assms(3,4) ne show ?thesis
      by (auto simp: filter_event_for_clients_with_state_def shown_def Let_def send_check_iff is_own_def state_key_def bindR_Inr_iff
          split: if_splits option.splits)
  next
    case 3
    let ?f = "from_types (map (\<lambda>u. (Member, Some u)) ?us @ [(RoomHistoryVisibility, Some [])])"
    let ?m = "get_state_map storage ?ev ctx ?f"
    let ?vis = "get_effective_room_visibility_from_state ?st"
    have v: "get_effective_room_visibility_from_state (get_state_map storage ?ev ctx (from_types [(RoomHistoryVisibility, Some [])])) = ?vis"
      by (rule effective_cong, rule get_state_map_at [OF assms(1,2)]) (simp add: HISTORY_VIS_KEY_def matches_from_types)
    have m: "u' \<in> set ?us \<Longrightarrow> check_membership u' e ?vis ?m is_peeking = check_membership u' e ?vis ?st is_peeking" for u'
      by (rule check_membership_cong, rule get_state_map_at [OF assms(1,2)]) (auto simp: matches_from_types)
    from assms(3) 3 ne v obtain c where c: "check_history_visibility e ?vis is_peeking = Inr c"
      and cont: "if c = ALLOWED then vis = ?us
        else \<exists>rs. mapR (\<lambda>u. bindR (check_membership u e ?vis ?m is_peeking) (\<lambda>r. Inr (u, allowed r))) ?us = Inr rs \<and>
               vis = map fst (filter snd rs)"
      by (auto simp: filter_event_for_clients_with_state_def Let_def send_check_iff bindR_Inr_iff split: if_splits)
    note lax = history_check_value [OF c]
    show ?thesis
    proof (cases "open_to (visibility_seen e ?st) is_peeking")
      case True
      with lax cont assms(4) 3 show ?thesis by (auto simp: shown_def user_may_see_def)
    next
      case False
      with lax cont obtain rs where
        rs: "mapR (\<lambda>u. bindR (check_membership u e ?vis ?m is_peeking) (\<lambda>r. Inr (u, allowed r))) ?us = Inr rs"
        and vis: "vis = map fst (filter snd rs)" by auto
      have val: "bindR (check_membership u' e ?vis ?m is_peeking) (\<lambda>r. Inr (u', allowed r)) = Inr (w, b) \<Longrightarrow>
          w = u' \<and> b = user_may_see u' e ?st is_peeking" if "u' \<in> set ?us" for u' w b
        using m [OF that] membership_check_value [of u' e ?st is_peeking] False open_to_lax [of ?st is_peeking e]
        by (auto simp: bindR_Inr_iff user_may_see_def)
      have "u \<in> set vis \<longleftrightarrow> u \<in> set ?us \<and> user_may_see u e ?st is_peeking"
      proof
        assume "u \<in> set vis"
        then have "(u, True) \<in> set rs" by (auto simp: vis)
        from mapR_source [OF rs this] val show "u \<in> set ?us \<and> user_may_see u e ?st is_peeking" by blast
      next
        assume u: "u \<in> set ?us \<and> user_may_see u e ?st is_peeking"
        with mapR_image [OF rs, of u] val [of u] have "(u, True) \<in> set rs" by fastforce
        then show "u \<in> set vis" unfolding vis by force
      qed
      with assms(4) 3 show ?thesis by (auto simp: shown_def)
    qed
  qed
qed

text \<open>
  C16. The two filters for clients agree.  The filter of all users of a room at once keeps every user to
  whom the filter of the events for that user shows the event, redacted or not; and if the sender is
  not erased, which only the second filter looks at, it keeps exactly those, and the event is shown as it is.
\<close>

theorem client_filters_agree:
  assumes "storage_ok storage state_ids event_of erased" "context_ok ctx prev"
    and "state_at state_ids event_of (ev_id (the_event e)) = state_after_event prev event_of (the_event e)"
    and "u \<in> set (ignored_by storage (sender (the_event e))) \<longleftrightarrow> sender (the_event e) \<in> set (ignored_users storage u)"
    and "u \<in> set us"
    and "filter_event_for_clients_with_state storage now us e ctx is_peeking True = Inr vis"
    and "filter_events_for_client storage now [room_id (the_event e)] u [e] is_peeking [] True = Inr out"
  shows "(out \<noteq> [] \<longrightarrow> u \<in> set vis) \<and> (\<not> erased (sender (the_event e)) \<longrightarrow> out = (if u \<in> set vis then [e] else []))"
  using single_value [OF assms(1,7)] bulk_value [OF assms(1,2,6,5)] by (simp only: assms(3,4))

section \<open>Servers\<close>

text \<open>The visibility that \<open>event_to_history_vis\<close> reads is not checked against the known values.\<close>

definition server_visibility :: "event state_map \<Rightarrow> json" where
  "server_visibility st =
     (case st HISTORY_VIS_KEY of None \<Rightarrow> SHARED | Some ev \<Rightarrow> content_get ev ''history_visibility'' SHARED)"

definition server_may_see :: "string \<Rightarrow> event state_map \<Rightarrow> bool" where
  "server_may_see target st \<longleftrightarrow>
     server_visibility st \<notin> {INVITED, JOINED} \<or>
     (\<exists>u m k. st (Member, u) = Some m \<and> state_key_field m = Some k \<and> get_domain_from_id k = Inr target \<and>
        (membership m = Inr JOIN \<or> membership m = Inr INVITE \<and> server_visibility st = INVITED))"

lemma storage_state_ids:
  assumes "storage_ok storage state_ids event_of erased"
  shows "map_option map_of (map_of (get_state_ids_for_events storage ids f) i) =
      (if i \<in> set ids then Some (\<lambda>p. if matches f p then state_ids i p else None) else None)"
    "(i, kv) \<in> set (get_state_ids_for_events storage ids f) \<Longrightarrow>
      map_of (get_state_ids_for_events storage ids f) i = Some kv \<and> distinct (map fst kv)"
    "map_of (get_events storage ids) j = Some ev \<Longrightarrow> event_of j = Some ev"
  using assms unfolding storage_ok_def by (blast, blast, metis option.distinct(1))

lemma history_vis_value:
  assumes "storage_ok storage state_ids event_of erased" "distinct (map (\<lambda>e. ev_id (the_event e)) events)"
    and "event_to_history_vis storage events = Inr hv" "e \<in> set events"
  shows "map_of hv (ev_id (the_event e)) =
    Some (if outlier e then SHARED else server_visibility (state_at state_ids event_of (ev_id (the_event e))))"
proof -
  let ?i = "ev_id (the_event e)"
  let ?ids = "remdups (map (\<lambda>e. ev_id (the_event e)) (filter (\<lambda>e. \<not> outlier e) events))"
  let ?f = "from_types [(RoomHistoryVisibility, Some [])]"
  let ?s = "get_state_ids_for_events storage ?ids ?f"
  let ?ves = "get_events storage (remdups (filter (\<lambda>i. i \<noteq> []) (List.map_filter (\<lambda>kv. map_of (snd kv) HISTORY_VIS_KEY) ?s)))"
  let ?vid = "case map_of ?s ?i of None \<Rightarrow> None | Some ids \<Rightarrow> map_of ids HISTORY_VIS_KEY"
  from foldR_update [OF assms(3) [unfolded event_to_history_vis_def Let_def] assms(2)] assms(4) obtain v where
    v: "(case ?vid of None \<Rightarrow> Inr SHARED | Some v \<Rightarrow> if v = [] then Inr SHARED
         else (case map_of ?ves v of None \<Rightarrow> Inl KeyErr | Some ev \<Rightarrow>
             (case content_get ev ''history_visibility'' SHARED of JStr s \<Rightarrow> Inr (JStr s) | _ \<Rightarrow> Inl AssertionErr))) = Inr v"
      "map_of hv ?i = Some v" by blast
  have m: "matches ?f HISTORY_VIS_KEY" by (simp add: HISTORY_VIS_KEY_def matches_from_types)
  have "?i \<in> set ?ids \<longleftrightarrow> \<not> outlier e" using assms(2,4) by (auto simp: distinct_map inj_on_def)
  then have vid: "?vid = (if outlier e then None else state_ids ?i HISTORY_VIS_KEY)"
    using storage_state_ids(1) [OF assms(1), of ?ids ?f ?i] m by (auto split: option.splits)
  have "state_ids ?i HISTORY_VIS_KEY \<noteq> Some []" using assms(1) unfolding storage_ok_def by blast
  with v vid show ?thesis
    by (auto simp: server_visibility_def state_at_def dest!: storage_state_ids(3) [OF assms(1)] split: option.splits json.splits if_splits)
qed

lemma memberships_source:
  assumes "storage_ok storage state_ids event_of erased" "map_of (event_to_memberships storage events target) i = Some ms" "(p, m) \<in> set ms"
  shows "\<exists>u. state_at state_ids event_of i (Member, u) = Some m"
proof -
  let ?ids = "remdups (map (\<lambda>e. ev_id (the_event e)) events)"
  let ?f = "from_types [(Member, None)]"
  from map_of_SomeD [OF assms(2)] obtain kv ids where kv: "(i, kv) \<in> set (get_state_ids_for_events storage ?ids ?f)"
    and ms: "ms = List.map_filter (\<lambda>(key, inner). map_option (Pair key) (map_of (get_events storage ids) inner)) kv"
    by (auto simp: event_to_memberships_def Let_def split: if_splits)
  from assms(3) ms obtain j where j: "(p, j) \<in> set kv" "map_of (get_events storage ids) j = Some m"
    by (auto simp: List.map_filter_def)
  note s = storage_state_ids(2) [OF assms(1) kv]
  with j(1) have "map_of kv p = Some j" by simp
  with s storage_state_ids(1) [OF assms(1), of ?ids ?f i] have "matches ?f p \<and> state_ids i p = Some j"
    by (auto split: if_splits dest: fun_cong [of _ _ p])
  with storage_state_ids(3) [OF assms(1) j(2)] show ?thesis
    by (cases p) (auto simp: matches_from_types state_at_def intro!: exI [of _ "snd p"])
qed

lemma membership_loop_True:
  "membership_loop target vis evs = Inr True \<Longrightarrow>
   \<exists>m \<in> set evs. \<exists>k. state_key_field m = Some k \<and> get_domain_from_id k = Inr target \<and>
     (membership m = Inr JOIN \<or> membership m = Inr INVITE \<and> vis = INVITED)"
  by (induction evs) (auto simp: bindR_Inr_iff result_simps split: if_splits)

lemma invisible_value:
  assumes "partial_state_invisible storage local events = Inr ids" "e \<in> set events" "ev_id (the_event e) \<notin> set ids"
  shows "get_domain_from_id (sender (the_event e)) = Inr local \<or> \<not> is_partial_state_room storage (room_id (the_event e))"
proof -
  let ?step = "\<lambda>ids e. bindR (get_domain_from_id (sender (the_event e))) (\<lambda>sender_domain.
         Inr (if sender_domain \<noteq> local \<and> is_partial_state_room storage (room_id (the_event e))
              then ids @ [ev_id (the_event e)] else ids))"
  have mono: "foldR ?step a es = Inr b \<Longrightarrow> set a \<subseteq> set b" for es a b
    by (rule foldR_invariant [where I = "\<lambda>s. set a \<subseteq> set s"]) (fastforce simp: bindR_Inr_iff split: if_splits)+
  have "foldR ?step a es = Inr b \<Longrightarrow> e \<in> set es \<Longrightarrow> ev_id (the_event e) \<notin> set b \<Longrightarrow> ?thesis" for es a b
  proof (induction es arbitrary: a)
    case (Cons x es)
    from Cons.prems(1) obtain c where c: "?step a x = Inr c" "foldR ?step c es = Inr b" by (auto simp: bindR_Inr_iff)
    show ?case
    proof (cases "e = x")
      case True
      with c mono [OF c(2)] Cons.prems(3) show ?thesis by (auto simp: bindR_Inr_iff split: if_splits)
    next
      case False
      with Cons.IH [OF c(2)] Cons.prems show ?thesis by simp
    qed
  qed simp
  with assms show ?thesis by (auto simp: partial_state_invisible_def)
qed

lemma server_filter_source:
  assumes "filter_events_for_server storage target local events redact no_erased no_partial = Inr out" "e' \<in> set out"
  obtains invisible hv restricted e er v where
    "(if no_partial then partial_state_invisible storage local events else Inr []) = Inr invisible"
    "event_to_history_vis storage events = Inr hv" "e \<in> set events"
    "is_sender_erased (the_event e) (if no_erased then are_users_erased storage (map (\<lambda>e. sender (the_event e)) events) else []) = Inr er"
    "check_event_is_visible target (case map_of hv (ev_id (the_event e)) of None \<Rightarrow> SHARED | Some vis \<Rightarrow> vis)
       (case map_of (event_to_memberships storage (map fst (filter snd restricted)) target) (ev_id (the_event e)) of
          None \<Rightarrow> [] | Some m \<Rightarrow> m) = Inr v"
    "if v \<and> ev_id (the_event e) \<notin> set invisible \<and> \<not> er then e' = e else redact \<and> prune_seen e = Inr e'"
proof -
  let ?er = "if no_erased then are_users_erased storage (map (\<lambda>e. sender (the_event e)) events) else []"
  from assms(1) obtain invisible hv restricted parts where
    inv: "(if no_partial then partial_state_invisible storage local events else Inr []) = Inr invisible" and
    hv: "event_to_history_vis storage events = Inr hv" and
    parts: "mapR (\<lambda>e. bindR (bindR (is_sender_erased (the_event e) ?er) (\<lambda>erased.
                  bindR (check_event_is_visible target
                           (case map_of hv (ev_id (the_event e)) of None \<Rightarrow> SHARED | Some vis \<Rightarrow> vis)
                           (case map_of (event_to_memberships storage (map fst (filter snd restricted)) target) (ev_id (the_event e)) of
                              None \<Rightarrow> [] | Some m \<Rightarrow> m)) (\<lambda>visible.
                    Inr (visible \<and> ev_id (the_event e) \<notin> set invisible \<and> \<not> erased))))
          (\<lambda>inc. if inc then Inr [e] else if redact then bindR (prune_seen e) (\<lambda>p. Inr [p]) else Inr [])) events = Inr parts"
    and out: "out = concat parts"
    by (auto simp: filter_events_for_server_def Let_def bindR_Inr_iff)
  from assms(2) out obtain part where part: "part \<in> set parts" "e' \<in> set part" by auto
  from mapR_source [OF parts part(1)] obtain e where e: "e \<in> set events" and
    pe: "bindR (bindR (is_sender_erased (the_event e) ?er) (\<lambda>erased.
                  bindR (check_event_is_visible target
                           (case map_of hv (ev_id (the_event e)) of None \<Rightarrow> SHARED | Some vis \<Rightarrow> vis)
                           (case map_of (event_to_memberships storage (map fst (filter snd restricted)) target) (ev_id (the_event e)) of
                              None \<Rightarrow> [] | Some m \<Rightarrow> m)) (\<lambda>visible.
                    Inr (visible \<and> ev_id (the_event e) \<notin> set invisible \<and> \<not> erased))))
          (\<lambda>inc. if inc then Inr [e] else if redact then bindR (prune_seen e) (\<lambda>p. Inr [p]) else Inr []) = Inr part" by blast
  from pe obtain er v where er: "is_sender_erased (the_event e) ?er = Inr er"
    and v: "check_event_is_visible target (case map_of hv (ev_id (the_event e)) of None \<Rightarrow> SHARED | Some vis \<Rightarrow> vis)
        (case map_of (event_to_memberships storage (map fst (filter snd restricted)) target) (ev_id (the_event e)) of
           None \<Rightarrow> [] | Some m \<Rightarrow> m) = Inr v"
    and p: "(if v \<and> ev_id (the_event e) \<notin> set invisible \<and> \<not> er then Inr [e]
             else if redact then bindR (prune_seen e) (\<lambda>p. Inr [p]) else Inr []) = Inr part"
    unfolding bindR_Inr_iff Inr_inject by blast
  have cases: "if v \<and> ev_id (the_event e) \<notin> set invisible \<and> \<not> er then e' = e else redact \<and> prune_seen e = Inr e'"
    using p part(2) by (auto simp: bindR_Inr_iff split: if_splits)
  show thesis by (rule that [OF inv hv e er v cases])
qed

lemma server_check_sound:
  assumes "storage_ok storage state_ids event_of erased" "distinct (map (\<lambda>e. ev_id (the_event e)) events)"
    and "event_to_history_vis storage events = Inr hv" "e \<in> set events"
    and "check_event_is_visible target (case map_of hv (ev_id (the_event e)) of None \<Rightarrow> SHARED | Some vis \<Rightarrow> vis)
       (case map_of (event_to_memberships storage (map fst (filter snd restricted)) target) (ev_id (the_event e)) of
          None \<Rightarrow> [] | Some m \<Rightarrow> m) = Inr True"
  shows "outlier e \<or> server_may_see target (state_at state_ids event_of (ev_id (the_event e)))"
proof (cases "outlier e")
  case False
  let ?v = "server_visibility (state_at state_ids event_of (ev_id (the_event e)))"
  let ?ms = "case map_of (event_to_memberships storage (map fst (filter snd restricted)) target) (ev_id (the_event e)) of
      None \<Rightarrow> [] | Some m \<Rightarrow> m"
  have src: "m \<in> set (map snd ?ms) \<Longrightarrow> \<exists>u. state_at state_ids event_of (ev_id (the_event e)) (Member, u) = Some m" for m
    by (cases "map_of (event_to_memberships storage (map fst (filter snd restricted)) target) (ev_id (the_event e))")
      (auto dest: memberships_source [OF assms(1)])
  have "check_event_is_visible target ?v ?ms = Inr True" using assms(5) history_vis_value [OF assms(1-4)] False by simp
  then have "?v \<notin> {INVITED, JOINED} \<or> membership_loop target ?v (map snd ?ms) = Inr True"
    by (simp add: check_event_is_visible_def split: if_splits)
  then show ?thesis
  proof
    assume "membership_loop target ?v (map snd ?ms) = Inr True"
    from membership_loop_True [OF this] obtain m k where m: "m \<in> set (map snd ?ms)" "state_key_field m = Some k"
      "get_domain_from_id k = Inr target" "membership m = Inr JOIN \<or> membership m = Inr INVITE \<and> ?v = INVITED" by blast
    from src [OF m(1)] m(2-4) show ?thesis unfolding server_may_see_def by blast
  qed (simp add: server_may_see_def)
qed simp

text \<open>
  C15. Every event that \<open>filter_events_for_server\<close> returns for another server is a redaction, where
  those were asked for, or an event that server may see: an outlier, or one at which the room was
  open or a user of that server was joined, or invited where the invited may see.  It is not from
  an erased sender if those are filtered, and in a room with partial state it is from this server.
\<close>

theorem server_filter_safe:
  assumes "storage_ok storage state_ids event_of erased" "distinct (map (\<lambda>e. ev_id (the_event e)) events)"
    and "filter_events_for_server storage target local events redact no_erased no_partial = Inr out" "e' \<in> set out"
  shows "\<exists>e \<in> set events. redact \<and> prune_seen e = Inr e' \<or>
    e' = e \<and> (outlier e \<or> server_may_see target (state_at state_ids event_of (ev_id (the_event e)))) \<and>
    (no_erased \<longrightarrow> \<not> erased (sender (the_event e))) \<and>
    (no_partial \<longrightarrow> get_domain_from_id (sender (the_event e)) = Inr local \<or> \<not> is_partial_state_room storage (room_id (the_event e)))"
proof -
  obtain invisible hv restricted e er v where
    inv: "(if no_partial then partial_state_invisible storage local events else Inr []) = Inr invisible"
      and hv: "event_to_history_vis storage events = Inr hv" and e: "e \<in> set events"
      and er: "is_sender_erased (the_event e) (if no_erased then are_users_erased storage (map (\<lambda>e. sender (the_event e)) events) else []) = Inr er"
      and v: "check_event_is_visible target (case map_of hv (ev_id (the_event e)) of None \<Rightarrow> SHARED | Some vis \<Rightarrow> vis)
        (case map_of (event_to_memberships storage (map fst (filter snd restricted)) target) (ev_id (the_event e)) of
           None \<Rightarrow> [] | Some m \<Rightarrow> m) = Inr v"
      and cases: "if v \<and> ev_id (the_event e) \<notin> set invisible \<and> \<not> er then e' = e else redact \<and> prune_seen e = Inr e'"
    by (rule server_filter_source [OF assms(3,4)]) (rule that; assumption)
  show ?thesis
  proof (cases "v \<and> ev_id (the_event e) \<notin> set invisible \<and> \<not> er")
    case False
    with cases e show ?thesis by auto
  next
    case True
    have "no_erased \<Longrightarrow> \<not> erased (sender (the_event e))"
      using er True storage_erased [OF assms(1), of "map (\<lambda>e. sender (the_event e)) events" "sender (the_event e)"] e
      by (auto simp: is_sender_erased_def split: if_splits option.splits)
    moreover have "no_partial \<Longrightarrow> get_domain_from_id (sender (the_event e)) = Inr local \<or> \<not> is_partial_state_room storage (room_id (the_event e))"
      using invisible_value [OF _ e] inv True by simp
    ultimately show ?thesis using cases True e server_check_sound [OF assms(1,2) hv e] v by auto
  qed
qed

section \<open>A storage\<close>

text \<open>Every event of the room has the same state, given by the events themselves.\<close>

definition storage_of :: "event list \<Rightarrow> string list \<Rightarrow> (string \<Rightarrow> retention_policy) \<Rightarrow> visibility_storage" where
  "storage_of state gone policies =
     (let ids = map (\<lambda>e. ((ev_type e, the (state_key_field e)), ev_id e)) state;
          evs = map (\<lambda>e. (ev_id e, e)) state
      in \<lparr>get_state_for_events = (\<lambda>is f. map (\<lambda>i. (i, \<lambda>p. if matches f p then Option.bind (map_of ids p) (map_of evs) else None)) is),
          get_state_ids_for_events = (\<lambda>is f. map (\<lambda>i. (i, filter (\<lambda>(p, _). matches f p) ids)) is),
          get_events = (\<lambda>is. filter (\<lambda>(i, _). i \<in> set is) evs),
          ignored_users = (\<lambda>_. []), ignored_by = (\<lambda>_. []),
          are_users_erased = (\<lambda>us. map (\<lambda>u. (u, u \<in> set gone)) us),
          get_retention_policy_for_room = policies,
          is_partial_state_room = (\<lambda>_. False)\<rparr>)"

definition state_ids_of :: "event list \<Rightarrow> state_pos \<Rightarrow> string option" where
  "state_ids_of state = map_of (map (\<lambda>e. ((ev_type e, the (state_key_field e)), ev_id e)) state)"

lemma map_of_wanted_keys: "map_of (filter (\<lambda>(k, _). P k) d) k = (if P k then map_of d k else None)"
  by (induction d) auto

lemma storage_of_ok:
  assumes "distinct (map (\<lambda>e. (ev_type e, the (state_key_field e))) state)" "[] \<notin> ev_id ` set state"
  shows "storage_ok (storage_of state gone policies) (\<lambda>_. state_ids_of state) (map_of (map (\<lambda>e. (ev_id e, e)) state)) (\<lambda>u. u \<in> set gone)"
proof -
  let ?ids = "map (\<lambda>e. ((ev_type e, the (state_key_field e)), ev_id e)) state"
  have ne: "map_of ?ids p \<noteq> Some []" for p using assms(2) by (auto dest!: map_of_SomeD simp: image_iff)
  have d: "distinct (map fst (filter (\<lambda>(p, _). matches f p) ?ids))" for f
    using assms(1) by (simp add: distinct_map_filter comp_def)
  show ?thesis unfolding storage_ok_def
    by (intro conjI allI impI) (use ne d in \<open>auto simp: storage_of_def state_ids_of_def Let_def map_of_tabulate map_of_wanted_keys\<close>)
qed

definition hv_event :: "json \<Rightarrow> event" where
  "hv_event v = sample_event ''$hv'' RoomHistoryVisibility ''@a:s'' (Some []) [(''history_visibility'', v)] [''$create'']"

definition no_retention :: retention_policy where
  "no_retention = \<lparr>min_lifetime = None, max_lifetime = None\<rparr>"

definition quiet_storage :: visibility_storage where
  "quiet_storage = storage_of (hv_event INVITED # ex_state) [''@a:s''] (\<lambda>_. no_retention)"

lemma quiet_storage_ok:
  "storage_ok quiet_storage (\<lambda>_. state_ids_of (hv_event INVITED # ex_state))
     (map_of (map (\<lambda>e. (ev_id e, e)) (hv_event INVITED # ex_state))) (\<lambda>u. u \<in> set [''@a:s''])"
  unfolding quiet_storage_def by (rule storage_of_ok) (code_simp, code_simp)

definition ex_message :: "string \<Rightarrow> string \<Rightarrow> seen_event" where
  "ex_message i s = \<lparr>the_event = sample_event i ''m.room.message'' s None [(''body'', JStr ''hi'')] [''$create''],
     ev_unsigned = [], outlier = False, soft_failed = False\<rparr>"

text \<open>The member Bob and the invited Erin see a message; the banned Carol does not.  Of Alice, who is erased, Erin sees a redaction.\<close>

lemma quiet_room:
  "filter_events_for_client quiet_storage 5 [''!r:s''] ''@e:s'' [ex_message ''$1'' ''@b:s''] False [] True = Inr [ex_message ''$1'' ''@b:s'']"
  "filter_events_for_client quiet_storage 5 [''!r:s''] ''@c:s'' [ex_message ''$1'' ''@b:s''] False [] True = Inr []"
  "(case filter_events_for_client quiet_storage 5 [''!r:s''] ''@e:s'' [ex_message ''$1'' ''@a:s''] False [] True of
      Inr [e] \<Rightarrow> content (the_event e) = [] | _ \<Rightarrow> False)"
  "filter_event_for_clients_with_state quiet_storage 5 [''@b:s'', ''@c:s'', ''@e:s''] (ex_message ''$1'' ''@b:s'')
     (\<lambda>f. filter (\<lambda>(p, _). matches f p) (map (\<lambda>e. ((ev_type e, the (state_key_field e)), ev_id e)) (hv_event INVITED # ex_state))) False True
   = Inr [''@b:s'', ''@e:s'']"
  by code_simp+

theorem client_filter_safe_witness:
  "user_may_see ''@e:s'' (ex_message ''$1'' ''@b:s'')
     (state_at (\<lambda>_. state_ids_of (hv_event INVITED # ex_state)) (map_of (map (\<lambda>e. (ev_id e, e)) (hv_event INVITED # ex_state))) ''$1'') False"
proof -
  have "ex_message ''$1'' ''@b:s'' \<in> set [ex_message ''$1'' ''@b:s'']" by simp
  from client_filter_safe [OF quiet_storage_ok quiet_room(1) this] show ?thesis by (simp add: ex_message_def sample_event_def)
qed

theorem client_filters_agree_witness:
  "filter_events_for_client quiet_storage 5 [''!r:s''] ''@e:s'' [ex_message ''$1'' ''@b:s''] False [] True =
     Inr (if ''@e:s'' \<in> set [''@b:s'', ''@e:s''] then [ex_message ''$1'' ''@b:s''] else [])"
proof -
  let ?e = "ex_message ''$1'' ''@b:s''"
  let ?ids = "map (\<lambda>e. ((ev_type e, the (state_key_field e)), ev_id e)) (hv_event INVITED # ex_state)"
  have k: "state_key_field (the_event ?e) = None" "room_id (the_event ?e) = ''!r:s''" by (simp_all add: ex_message_def sample_event_def)
  have c: "context_ok (\<lambda>f. filter (\<lambda>(p, _). matches f p) ?ids) (state_ids_of (hv_event INVITED # ex_state))"
    unfolding context_ok_def state_ids_of_def
  proof (intro allI conjI ext)
    fix f
    have "distinct (map fst ?ids)" by code_simp
    then show "distinct (map fst (filter (\<lambda>(p, _). matches f p) ?ids))" by (rule distinct_map_filter)
    show "map_of (filter (\<lambda>(p, _). matches f p) ?ids) p = (if matches f p then map_of ?ids p else None)" for p
      by (rule map_of_wanted_keys)
  qed
  have ig: "''@e:s'' \<in> set (ignored_by quiet_storage (sender (the_event ?e))) \<longleftrightarrow>
      sender (the_event ?e) \<in> set (ignored_users quiet_storage ''@e:s'')" by (simp add: quiet_storage_def storage_of_def Let_def)
  have er: "\<not> sender (the_event ?e) \<in> set [''@a:s'']" by (simp add: ex_message_def sample_event_def)
  have st: "state_at (\<lambda>_. state_ids_of (hv_event INVITED # ex_state)) (map_of (map (\<lambda>e. (ev_id e, e)) (hv_event INVITED # ex_state)))
      (ev_id (the_event ?e)) = state_after_event (state_ids_of (hv_event INVITED # ex_state))
      (map_of (map (\<lambda>e. (ev_id e, e)) (hv_event INVITED # ex_state))) (the_event ?e)"
    by (rule ext) (simp add: state_at_def state_after_event_def k(1) Let_def)
  from client_filters_agree [OF quiet_storage_ok c st ig _ quiet_room(4), unfolded k(2), OF _ quiet_room(1)] quiet_room(1) er
  show ?thesis by simp
qed

lemma quiet_server:
  "filter_events_for_server quiet_storage ''s'' ''s'' [ex_message ''$1'' ''@b:s''] False True True = Inr [ex_message ''$1'' ''@b:s'']"
  "filter_events_for_server quiet_storage ''other'' ''s'' [ex_message ''$1'' ''@b:s''] False True True = Inr []"
  by code_simp+

theorem server_filter_safe_witness:
  "server_may_see ''s'' (state_at (\<lambda>_. state_ids_of (hv_event INVITED # ex_state))
     (map_of (map (\<lambda>e. (ev_id e, e)) (hv_event INVITED # ex_state))) ''$1'')"
proof -
  have "ex_message ''$1'' ''@b:s'' \<in> set [ex_message ''$1'' ''@b:s'']" by simp
  from server_filter_safe [OF quiet_storage_ok _ quiet_server(1) this] show ?thesis by (simp add: ex_message_def sample_event_def)
qed

section \<open>Two slips\<close>

text \<open>Without \<open>filter_send_to_client\<close> the filter raises as soon as there is an event.\<close>

lemma no_send_raises:
  assumes "\<exists>e \<in> set events. \<not> soft_failed e"
  shows "filter_events_for_client storage now room_ids user events is_peeking always False = Inl NameErr"
proof -
  have "filter (\<lambda>e. \<not> soft_failed e) events \<noteq> []" using assms by (auto simp: filter_empty_conv)
  then show ?thesis by (cases "filter (\<lambda>e. \<not> soft_failed e) events") (simp_all add: filter_events_for_client_def Let_def)
qed

text \<open>
  With events of two rooms the policy of the last one is used for both: a message that the policy
  of its room has expired is shown.
\<close>

definition two_policies :: "string \<Rightarrow> retention_policy" where
  "two_policies r = \<lparr>min_lifetime = None, max_lifetime = (if r = ''!r:s'' then Some 1 else None)\<rparr>"

definition other_room :: "seen_event \<Rightarrow> seen_event" where
  "other_room e = e\<lparr>the_event := (the_event e)\<lparr>room_id := ''!q:s''\<rparr>\<rparr>"

lemma expired_message_shown:
  "filter_events_for_client (storage_of ex_state [] two_policies) 100 [''!r:s''] ''@b:s'' [ex_message ''$1'' ''@a:s''] False [] True = Inr []"
  "filter_events_for_client (storage_of ex_state [] two_policies) 100 [''!r:s'', ''!q:s''] ''@b:s''
     [ex_message ''$1'' ''@a:s'', other_room (ex_message ''$2'' ''@a:s'')] False [] True =
   Inr [ex_message ''$1'' ''@a:s'', other_room (ex_message ''$2'' ''@a:s'')]"
  by code_simp+

text \<open>A visibility that is not a string is read as \<open>shared\<close> for clients, but raises for servers.\<close>

lemma odd_visibility:
  "filter_events_for_client (storage_of (hv_event (JInt 5) # ex_state) [] (\<lambda>_. no_retention)) 5 [''!r:s''] ''@c:s''
     [ex_message ''$1'' ''@b:s''] False [] True = Inr [ex_message ''$1'' ''@b:s'']"
  "filter_events_for_server (storage_of (hv_event (JInt 5) # ex_state) [] (\<lambda>_. no_retention)) ''s'' ''s''
     [ex_message ''$1'' ''@b:s''] False True True = Inl AssertionErr"
  by code_simp+

end
