(* ===== verification/Wheel_Timer.thy ===== *)
theory Wheel_Timer
  imports Json_Values
begin

text \<open>
  The wheel timer of \<open>util/wheel_timer.py\<close>: a list of buckets in the order of their end keys.  Times
  are milliseconds; \<open>int(t / bucket_size)\<close> is the truncated exact quotient.  The element sets are
  duplicate-free lists.
\<close>

section \<open>The timer\<close>

record 'a wheel =
  bucket_size :: int
  entries :: "(int \<times> 'a list) list"

definition new_wheel :: "int \<Rightarrow> 'a wheel" where
  "new_wheel b = \<lparr>bucket_size = b, entries = []\<rparr>"

definition time_key :: "'a wheel \<Rightarrow> int \<Rightarrow> int" where
  "time_key w t = trunc_rat (of_int t / of_int (bucket_size w))"

definition add_element :: "'a \<Rightarrow> int \<times> 'a list \<Rightarrow> int \<times> 'a list" where
  "add_element x b = (fst b, List.insert x (snd b))"

text \<open>\<open>self.entries.extend(_Entry(key) for key in range(last_key, then_key + 1))\<close> followed by adding
  the object to the last bucket.\<close>

definition extend_entries :: "'a \<Rightarrow> int \<Rightarrow> int \<Rightarrow> (int \<times> 'a list) list \<Rightarrow> (int \<times> 'a list) list" where
  "extend_entries x last_key then_key es =
     (let es' = es @ map (\<lambda>k. (k, [])) [last_key..then_key]
      in butlast es' @ [add_element x (last es')])"

definition wheel_insert :: "'a wheel \<Rightarrow> int \<Rightarrow> 'a \<Rightarrow> int \<Rightarrow> 'a wheel result" where
  "wheel_insert w now x then_time =
     (let then_key = time_key w then_time + 1; now_key = time_key w now; es = entries w
      in if es \<noteq> [] \<and> then_key \<le> fst (last es) then
           (let min_key = fst (hd es); i = nat (max min_key then_key - min_key)
            in if i < length es then Inr (w\<lparr>entries := es[i := add_element x (es ! i)]\<rparr>) else Inl IndexErr)
         else
           (let last_key = (if es \<noteq> [] then fst (last es) else now_key + 1)
            in Inr (w\<lparr>entries := extend_entries x last_key (max last_key then_key) es\<rparr>)))"

definition wheel_fetch :: "'a wheel \<Rightarrow> int \<Rightarrow> 'a list \<times> 'a wheel" where
  "wheel_fetch w now =
     (let due = (\<lambda>b. fst b \<le> time_key w now)
      in (concat (map snd (takeWhile due (entries w))), w\<lparr>entries := dropWhile due (entries w)\<rparr>))"

definition wheel_len :: "'a wheel \<Rightarrow> nat" where
  "wheel_len w = sum_list (map (\<lambda>b. length (snd b)) (entries w))"

section \<open>The invariant\<close>

text \<open>The end keys grow in steps of at most one.\<close>

fun steps_ok :: "(int \<times> 'a list) list \<Rightarrow> bool" where
  "steps_ok (b # c # bs) \<longleftrightarrow> fst b \<le> fst c \<and> fst c \<le> fst b + 1 \<and> steps_ok (c # bs)"
| "steps_ok bs \<longleftrightarrow> True"

definition wheel_inv :: "'a wheel \<Rightarrow> bool" where
  "wheel_inv w \<longleftrightarrow> 0 < bucket_size w \<and> steps_ok (entries w)"

lemma steps_ok_Cons:
  "steps_ok (b # bs) \<longleftrightarrow> steps_ok bs \<and> (bs \<noteq> [] \<longrightarrow> fst b \<le> fst (hd bs) \<and> fst (hd bs) \<le> fst b + 1)"
  by (cases bs) auto

lemma steps_ok_append:
  "steps_ok (as @ bs) \<longleftrightarrow> steps_ok as \<and> steps_ok bs \<and>
     (as \<noteq> [] \<and> bs \<noteq> [] \<longrightarrow> fst (last as) \<le> fst (hd bs) \<and> fst (hd bs) \<le> fst (last as) + 1)"
  by (induction as) (auto simp: steps_ok_Cons hd_append)

lemma steps_ok_fst: "map fst as = map fst bs \<Longrightarrow> steps_ok as \<longleftrightarrow> steps_ok bs"
proof (induction as arbitrary: bs)
  case (Cons a as)
  then obtain b bs' where bs: "bs = b # bs'" "fst a = fst b" "map fst as = map fst bs'" by (cases bs) auto
  then show ?case using Cons.IH [of bs'] by (cases as; cases bs') (auto simp: steps_ok_Cons)
qed simp

lemma steps_ok_upto: "steps_ok (map (\<lambda>k. (k, [] :: 'a list)) [i..j])"
proof (induction "nat (j - i + 1)" arbitrary: i)
  case (Suc n)
  then have "[i..j] = i # [i + 1..j]" by (simp add: upto_rec1)
  moreover have "steps_ok (map (\<lambda>k. (k, [] :: 'a list)) [i + 1..j])"
    by (rule Suc.hyps(1)) (use Suc.hyps(2) in simp)
  moreover have "[i + 1..j] \<noteq> [] \<Longrightarrow> hd [i + 1..j] = i + 1" by (cases "i + 1 \<le> j") (auto simp: upto_rec1)
  ultimately show ?case by (simp add: steps_ok_Cons hd_map)
qed simp

lemma steps_ok_hd_last: "steps_ok bs \<Longrightarrow> bs \<noteq> [] \<Longrightarrow> fst (hd bs) \<le> fst (last bs)"
  by (induction bs) (auto simp: steps_ok_Cons)

lemma steps_ok_nth: "steps_ok bs \<Longrightarrow> i < length bs \<Longrightarrow> fst (bs ! i) \<le> fst (hd bs) + int i"
proof (induction bs arbitrary: i)
  case (Cons b bs)
  show ?case
  proof (cases i)
    case (Suc j)
    then have "fst (bs ! j) \<le> fst (hd bs) + int j" "bs \<noteq> []"
      using Cons by (auto simp: steps_ok_Cons)
    then show ?thesis using Cons.prems(1) Suc by (simp add: steps_ok_Cons)
  qed simp
qed simp

lemma steps_ok_length: "steps_ok bs \<Longrightarrow> bs \<noteq> [] \<Longrightarrow> fst (last bs) < fst (hd bs) + int (length bs)"
  using steps_ok_nth [of bs "length bs - 1"] by (cases bs rule: rev_cases) auto

lemma steps_ok_hd: "steps_ok bs \<Longrightarrow> b \<in> set bs \<Longrightarrow> fst (hd bs) \<le> fst b"
proof (induction bs)
  case (Cons c bs)
  then show ?case by (cases "bs = []") (auto simp: steps_ok_Cons)
qed simp

lemma map_fst_add: "i < length es \<Longrightarrow> map fst (es[i := add_element x (es ! i)]) = map fst es"
  by (simp add: map_update add_element_def list_update_same_conv)

lemma extend_entries_keys:
  assumes "l \<le> t"
  shows "map fst (extend_entries x l t es) = map fst es @ [l..t]" "extend_entries x l t es \<noteq> []"
    "fst (last (extend_entries x l t es)) = t" "x \<in> set (snd (last (extend_entries x l t es)))"
proof -
  let ?es = "es @ map (\<lambda>k. (k, [])) [l..t]"
  have u: "[l..t] \<noteq> []" using assms by simp
  then have ne: "?es \<noteq> []" by simp
  have "map fst (butlast ?es) @ [fst (last ?es)] = map fst ?es"
    using ne by (metis append_butlast_last_id list.simps(8,9) map_append)
  also have "map fst ?es = map fst es @ [l..t]" by (simp add: comp_def)
  finally show "map fst (extend_entries x l t es) = map fst es @ [l..t]"
    by (simp add: extend_entries_def add_element_def Let_def)
  have "last [l..t] = t" using assms by (simp add: upto_rec2)
  then show "fst (last (extend_entries x l t es)) = t"
    using u by (simp add: extend_entries_def add_element_def Let_def last_append last_map)
qed (simp_all add: extend_entries_def add_element_def Let_def)

section \<open>Inserting and fetching\<close>

definition elements :: "(int \<times> 'a list) list \<Rightarrow> 'a set" where
  "elements es = (\<Union>b\<in>set es. set (snd b))"

lemma elements_concat: "elements es = set (concat (map snd es))"
  by (simp add: elements_def)

lemma elements_append: "elements (as @ bs) = elements as \<union> elements bs"
  by (simp add: elements_def)

text \<open>An object in a bucket that ends no later than a key.\<close>

definition due_by :: "(int \<times> 'a list) list \<Rightarrow> 'a \<Rightarrow> int \<Rightarrow> bool" where
  "due_by es x k \<longleftrightarrow> (\<exists>b\<in>set es. x \<in> set (snd b) \<and> fst b \<le> k)"

lemma due_by_append: "due_by (as @ bs) x k \<longleftrightarrow> due_by as x k \<or> due_by bs x k"
  by (auto simp: due_by_def)

text \<open>Adding an object to some bucket.\<close>

definition adds :: "'a \<Rightarrow> int \<Rightarrow> (int \<times> 'a list) list \<Rightarrow> (int \<times> 'a list) list \<Rightarrow> bool" where
  "adds x k es es' \<longleftrightarrow> elements es' = insert x (elements es) \<and> due_by es' x k \<and>
     (\<forall>y l. due_by es y l \<longrightarrow> due_by es' y l)"

lemma adds_bucket:
  assumes "es = as @ b # bs"
  shows "adds x (fst b) es (as @ add_element x b # bs)"
  using assms by (auto simp: adds_def elements_def due_by_def add_element_def)

lemma adds_update: "i < length es \<Longrightarrow> adds x (fst (es ! i)) es (es[i := add_element x (es ! i)])"
  using adds_bucket [of es "take i es" "es ! i" "drop (Suc i) es" x]
  by (simp add: id_take_nth_drop upd_conv_take_nth_drop)

lemma adds_extend:
  assumes "l \<le> t"
  shows "adds x t es (extend_entries x l t es)"
proof -
  let ?es = "es @ map (\<lambda>k. (k, [])) [l..t]"
  have u: "[l..t] = [l..t - 1] @ [t]" using assms by (simp add: upto_rec2)
  have b: "?es = (es @ map (\<lambda>k. (k, [])) [l..t - 1]) @ [(t, [])]" by (simp add: u)
  have "adds x t ?es (extend_entries x l t es)"
    using adds_bucket [OF b, of x] unfolding extend_entries_def b Let_def butlast_snoc last_snoc by simp
  moreover have "elements ?es = elements es" "due_by ?es y k \<longleftrightarrow> due_by es y k" for y k
    by (auto simp: elements_def due_by_def)
  ultimately show ?thesis by (simp add: adds_def)
qed

lemma steps_ok_extend:
  assumes "steps_ok es" "l \<le> t" "es \<noteq> [] \<Longrightarrow> fst (last es) = l"
  shows "steps_ok (extend_entries x l t es)"
proof -
  have "hd [l..t] = l" "[l..t] \<noteq> []" using assms(2) by (simp_all add: upto_rec1)
  then have "steps_ok (es @ map (\<lambda>k. (k, [])) [l..t])"
    using assms(1,3) steps_ok_upto [of l t] unfolding steps_ok_append by (simp add: hd_map)
  moreover have "map fst (extend_entries x l t es) = map fst (es @ map (\<lambda>k. (k, [])) [l..t])"
    using extend_entries_keys(1) [OF assms(2), of x es] by (simp add: comp_def)
  ultimately show ?thesis using steps_ok_fst by blast
qed

text \<open>The key of the bucket an object may at the latest be put in.\<close>

definition latest_key :: "'a wheel \<Rightarrow> int \<Rightarrow> int \<Rightarrow> int" where
  "latest_key w now then_time =
     max (time_key w then_time + 1)
       (if entries w = [] then time_key w now + 1 else fst (hd (entries w)))"

lemma adds_mono: "adds x k es es' \<Longrightarrow> k \<le> l \<Longrightarrow> adds x l es es'"
  unfolding adds_def due_by_def by fastforce

lemma wheel_insert_spec:
  assumes inv: "wheel_inv w"
  shows "\<exists>es. wheel_insert w now x then_time = Inr (w\<lparr>entries := es\<rparr>) \<and> steps_ok es \<and>
    adds x (latest_key w now then_time) (entries w) es"
proof -
  let ?t = "time_key w then_time + 1" and ?es = "entries w"
  have st: "steps_ok ?es" using inv by (auto simp: wheel_inv_def)
  show ?thesis
  proof (cases "?es \<noteq> [] \<and> ?t \<le> fst (last ?es)")
    case True
    let ?i = "nat (max (fst (hd ?es)) ?t - fst (hd ?es))"
    have i: "?i < length ?es"
      using True steps_ok_length [OF st] steps_ok_hd_last [OF st] by auto
    have "fst (?es ! ?i) \<le> latest_key w now then_time"
      using steps_ok_nth [OF st i] True by (auto simp: latest_key_def)
    then show ?thesis
      using True i st steps_ok_fst [OF map_fst_add [OF i, of x]] adds_mono [OF adds_update [OF i]]
      by (auto simp: wheel_insert_def Let_def)
  next
    case False
    let ?l = "if ?es \<noteq> [] then fst (last ?es) else time_key w now + 1"
    have "steps_ok (extend_entries x ?l (max ?l ?t) ?es)"
      by (rule steps_ok_extend [OF st]) simp_all
    moreover have "max ?l ?t \<le> latest_key w now then_time" using False by (auto simp: latest_key_def)
    ultimately show ?thesis using False adds_mono [OF adds_extend [of ?l "max ?l ?t" x ?es]]
      by (auto simp: wheel_insert_def Let_def)
  qed
qed

lemma wheel_fetch_spec:
  assumes inv: "wheel_inv w" and f: "wheel_fetch w now = (out, w')"
  shows "wheel_inv w' \<and> bucket_size w' = bucket_size w \<and> set out \<union> elements (entries w') = elements (entries w) \<and>
    (\<forall>x k. due_by (entries w) x k \<longrightarrow> x \<in> set out \<or> due_by (entries w') x k) \<and>
    (\<forall>x k. due_by (entries w) x k \<and> k \<le> time_key w now \<longrightarrow> x \<in> set out)"
proof -
  let ?due = "\<lambda>b. fst b \<le> time_key w now"
  let ?t = "takeWhile ?due (entries w)" and ?d = "dropWhile ?due (entries w)"
  have out: "set out = elements ?t" and w': "w' = w\<lparr>entries := ?d\<rparr>"
    using f elements_concat [of ?t] by (auto simp: wheel_fetch_def Let_def)
  have sp: "entries w = ?t @ ?d" by simp
  have st: "steps_ok (?t @ ?d)" using inv by (simp add: wheel_inv_def)
  have el: "elements (entries w) = elements ?t \<union> elements ?d"
    using elements_append [of ?t ?d] by simp
  have late: "time_key w now < fst b" if "b \<in> set ?d" for b
  proof -
    have "?d \<noteq> []" using that by (metis empty_iff empty_set)
    then have "time_key w now < fst (hd ?d)" using hd_dropWhile [of ?due "entries w"] by fastforce
    moreover have "fst (hd ?d) \<le> fst b" using st that by (intro steps_ok_hd) (simp_all only: steps_ok_append)
    ultimately show ?thesis by simp
  qed
  have d: "due_by (entries w) x k \<longleftrightarrow> due_by ?t x k \<or> due_by ?d x k" for x k
    using due_by_append [of ?t ?d] by simp
  have t: "x \<in> set out" if "due_by ?t x k" for x k
    using that by (auto simp: out elements_def due_by_def)
  have n: "\<not> k \<le> time_key w now" if "due_by ?d x k" for x k
    using that late unfolding due_by_def by fastforce
  have "wheel_inv w'" using inv st unfolding steps_ok_append by (simp add: w' wheel_inv_def)
  moreover have "set out \<union> elements (entries w') = elements (entries w)" by (simp add: w' out el)
  moreover have "entries w' = ?d" "bucket_size w' = bucket_size w" by (simp_all add: w')
  ultimately show ?thesis using d t n by metis
qed

section \<open>Runs of the timer\<close>

datatype 'a wheel_op = Insert int 'a int | Fetch int

text \<open>A run keeps what its fetches returned; an operation that raises leaves the timer unchanged.\<close>

fun wheel_step :: "'a wheel \<times> 'a set \<Rightarrow> 'a wheel_op \<Rightarrow> 'a wheel \<times> 'a set" where
  "wheel_step (w, out) (Insert now x t) = (case wheel_insert w now x t of Inl _ \<Rightarrow> (w, out) | Inr w' \<Rightarrow> (w', out))"
| "wheel_step (w, out) (Fetch now) = (case wheel_fetch w now of (xs, w') \<Rightarrow> (w', out \<union> set xs))"

text \<open>The invariant of a run after an object was put into a bucket that ends at \<open>k\<close>: it is still
  there, or was returned.\<close>

definition tracked :: "int \<Rightarrow> 'a \<Rightarrow> int \<Rightarrow> 'a wheel \<times> 'a set \<Rightarrow> bool" where
  "tracked b x k s \<longleftrightarrow> wheel_inv (fst s) \<and> bucket_size (fst s) = b \<and> (x \<in> snd s \<or> due_by (entries (fst s)) x k)"

lemma tracked_step: "tracked b x k s \<Longrightarrow> tracked b x k (wheel_step s op)"
proof (cases op)
  case (Insert now y t)
  assume tr: "tracked b x k s"
  obtain w out where s: "s = (w, out)" by (cases s)
  obtain es where "wheel_insert w now y t = Inr (w\<lparr>entries := es\<rparr>)" "steps_ok es"
    "adds y (latest_key w now t) (entries w) es"
    using wheel_insert_spec [of w now y t] tr by (auto simp: tracked_def s)
  then show ?thesis using tr Insert by (auto simp: tracked_def s wheel_inv_def adds_def)
next
  case (Fetch now)
  assume tr: "tracked b x k s"
  obtain w out where s: "s = (w, out)" by (cases s)
  obtain xs w' where f: "wheel_fetch w now = (xs, w')" by (cases "wheel_fetch w now")
  show ?thesis using wheel_fetch_spec [OF _ f] tr Fetch by (auto simp: tracked_def s f)
qed

interpretation wheel_run: stateful wheel_step "tracked b x k" for b :: int and x :: 'a and k :: int
  by unfold_locales (rule tracked_step)

lemma fetched_stays: "x \<in> snd s \<Longrightarrow> x \<in> snd (foldl wheel_step s ops)"
proof (induction ops arbitrary: s)
  case (Cons op ops)
  have "x \<in> snd (wheel_step s op)" using Cons.prems by (cases s; cases op) (auto split: sum.splits prod.splits)
  then show ?case by (simp add: Cons.IH)
qed simp

lemma time_key_size: "bucket_size w = bucket_size w' \<Longrightarrow> time_key w t = time_key w' t"
  by (simp add: time_key_def)

text \<open>
  No timer is lost or late: inserting never raises and keeps the timer well formed, and in
  every later run an object has been returned by the first fetch whose key has reached that of
  its deadline (or, for deadlines in the past, that of the oldest bucket).
\<close>

theorem wheel_timer_returns:
  assumes "wheel_inv w" and "latest_key w now then_time \<le> time_key w t"
  shows "\<exists>w'. wheel_insert w now x then_time = Inr w' \<and> wheel_inv w' \<and>
    x \<in> snd (foldl wheel_step (w', {}) (before @ Fetch t # after))"
proof -
  let ?k = "latest_key w now then_time" and ?b = "bucket_size w"
  obtain es where es: "wheel_insert w now x then_time = Inr (w\<lparr>entries := es\<rparr>)" "steps_ok es"
    "adds x ?k (entries w) es"
    using wheel_insert_spec [OF assms(1)] by blast
  let ?w = "w\<lparr>entries := es\<rparr>"
  have i: "wheel_inv ?w" using assms(1) es(2) by (simp add: wheel_inv_def)
  have "tracked ?b x ?k (?w, {})" using i es(3) by (simp add: tracked_def adds_def)
  then have tr: "tracked ?b x ?k (foldl wheel_step (?w, {}) before)" by (rule wheel_run.inv_run)
  obtain w1 out where s: "foldl wheel_step (?w, {}) before = (w1, out)" by (cases "foldl wheel_step (?w, {}) before")
  obtain xs w2 where f: "wheel_fetch w1 t = (xs, w2)" by (cases "wheel_fetch w1 t")
  have "time_key w1 t = time_key w t" using tr s by (intro time_key_size) (simp add: tracked_def)
  then have "x \<in> out \<union> set xs"
    using tr wheel_fetch_spec [OF _ f] assms(2) by (fastforce simp: tracked_def s)
  then have "x \<in> snd (foldl wheel_step (wheel_step (w1, out) (Fetch t)) after)"
    by (intro fetched_stays) (simp add: f)
  then have "x \<in> snd (foldl wheel_step (?w, {}) (before @ Fetch t # after))" by (simp add: s)
  then show ?thesis using es(1) i by blast
qed

theorem wheel_timer_returns_witness:
  "wheel_inv (new_wheel 5000 :: nat wheel) \<and>
   (\<exists>w'. wheel_insert (new_wheel 5000) 0 (7::nat) 12000 = Inr w' \<and> wheel_inv w' \<and>
      7 \<in> snd (foldl wheel_step (w', {}) ([Insert 0 8 1000, Fetch 6000] @ Fetch 15000 # [])))"
proof -
  have i: "wheel_inv (new_wheel 5000 :: nat wheel)" by (simp add: wheel_inv_def new_wheel_def)
  have "latest_key (new_wheel 5000 :: nat wheel) 0 12000 \<le> time_key (new_wheel 5000 :: nat wheel) 15000" by code_simp
  from wheel_timer_returns [OF i this, of 7 "[Insert 0 8 1000, Fetch 6000]" "[]"] i show ?thesis by blast
qed

text \<open>The timer after deadlines 0, 5, 10, 15 and 20 were inserted one after the other.\<close>

definition stretched_wheel :: "nat wheel result" where
  "stretched_wheel = foldR (\<lambda>w (x, t). wheel_insert w 0 x t) (new_wheel 5) [(1, 0), (2, 5), (3, 10), (4, 15), (5, 20)]"

text \<open>
  Objects can be returned early: each extension of the list repeats the key of its last
  bucket, so that the index computed from the keys falls short.  Here an object with deadline 20 is
  returned by a fetch at time 15.
\<close>

theorem wheel_timer_returns_early:
  "map_sum id (\<lambda>w. 99 \<in> set (fst (wheel_fetch w 15))) (bindR stretched_wheel (\<lambda>w. wheel_insert w 0 (99::nat) 20))
     = Inr True"
  by code_simp

end
