(* ===== verification/Presence.thy ===== *)
theory Presence
  imports Wheel_Timer Actions Domain_Ids
begin

text \<open>
  Presence, \<open>handlers/presence.py\<close> with the states of \<open>api/presence.py\<close>: the pure functions that decide
  what a timeout or an update does, \<open>PresenceHandler\<close> with its timers, and the queue of presence for
  other processes.  Each method is one action: it awaits only database reads of users that are not
  in memory, the persisting of states and the sending of what was decided.
\<close>

section \<open>States\<close>

abbreviation ONLINE :: string where "ONLINE \<equiv> ''online''"
abbreviation UNAVAILABLE :: string where "UNAVAILABLE \<equiv> ''unavailable''"
abbreviation OFFLINE :: string where "OFFLINE \<equiv> ''offline''"
abbreviation BUSY :: string where "BUSY \<equiv> ''org.matrix.msc3026.busy''"

record user_presence =
  up_user_id :: string
  up_state :: string
  up_last_active_ts :: int
  up_last_federation_update_ts :: int
  up_last_user_sync_ts :: int
  up_status_msg :: "string option"
  up_currently_active :: bool

definition default_presence :: "string \<Rightarrow> user_presence" where
  "default_presence u = \<lparr>up_user_id = u, up_state = OFFLINE, up_last_active_ts = 0, up_last_federation_update_ts = 0,
     up_last_user_sync_ts = 0, up_status_msg = None, up_currently_active = False\<rparr>"

record device_presence =
  dp_user_id :: string
  dp_device_id :: "string option"
  dp_state :: string
  dp_last_active_ts :: int
  dp_last_sync_ts :: int

definition default_device :: "string \<Rightarrow> string option \<Rightarrow> device_presence" where
  "default_device u d = \<lparr>dp_user_id = u, dp_device_id = d, dp_state = OFFLINE, dp_last_active_ts = 0, dp_last_sync_ts = 0\<rparr>"

type_synonym devices = "(string option \<times> device_presence) list"
type_synonym syncing = "(string \<times> string option) list"

definition LAST_ACTIVE_GRANULARITY :: int where "LAST_ACTIVE_GRANULARITY = 60 * 1000"
definition SYNC_ONLINE_TIMEOUT :: int where "SYNC_ONLINE_TIMEOUT = 30 * 1000"
definition BUSY_ONLINE_TIMEOUT :: int where "BUSY_ONLINE_TIMEOUT = 60 * 60 * 1000"
definition IDLE_TIMER :: int where "IDLE_TIMER = 5 * 60 * 1000"
definition FEDERATION_TIMEOUT :: int where "FEDERATION_TIMEOUT = 30 * 60 * 1000"
definition FEDERATION_PING_INTERVAL :: int where "FEDERATION_PING_INTERVAL = 25 * 60 * 1000"
definition EXTERNAL_PROCESS_EXPIRY :: int where "EXTERNAL_PROCESS_EXPIRY = 5 * 60 * 1000"

lemmas presence_times = LAST_ACTIVE_GRANULARITY_def SYNC_ONLINE_TIMEOUT_def BUSY_ONLINE_TIMEOUT_def IDLE_TIMER_def
  FEDERATION_TIMEOUT_def FEDERATION_PING_INTERVAL_def EXTERNAL_PROCESS_EXPIRY_def

section \<open>Decisions\<close>

definition PRESENCE_BY_PRIORITY :: "string \<Rightarrow> int result" where
  "PRESENCE_BY_PRIORITY s =
     (case map_of [(BUSY, 4), (ONLINE, 3), (UNAVAILABLE, 2), (OFFLINE, 1)] s of None \<Rightarrow> Inl KeyErr | Some p \<Rightarrow> Inr p)"

definition combine_device_states :: "device_presence list \<Rightarrow> string result" where
  "combine_device_states ds =
     bindR (foldR (\<lambda>(presence, last_active_ts) d.
       bindR (PRESENCE_BY_PRIORITY (dp_state d)) (\<lambda>p.
       bindR (PRESENCE_BY_PRIORITY presence) (\<lambda>q.
         Inr (if (q, last_active_ts) < (p, dp_last_active_ts d) then (dp_state d, dp_last_active_ts d)
              else (presence, last_active_ts))))) (OFFLINE, - 1) ds) (\<lambda>(presence, _). Inr presence)"

definition should_notify :: "user_presence \<Rightarrow> user_presence \<Rightarrow> bool" where
  "should_notify old new =
     (if old = new then False
      else if up_status_msg old \<noteq> up_status_msg new then True
      else if up_state old \<noteq> up_state new then True
      else if up_state old = ONLINE then
        if up_currently_active new \<noteq> up_currently_active old then True
        else up_last_active_ts new - up_last_active_ts old > LAST_ACTIVE_GRANULARITY \<and> \<not> up_currently_active new
      else up_last_active_ts new - up_last_active_ts old > LAST_ACTIVE_GRANULARITY)"

definition format_user_presence_state :: "user_presence \<Rightarrow> int \<Rightarrow> bool \<Rightarrow> dict" where
  "format_user_presence_state s now include_user_id =
     [(''presence'', JStr (up_state s))]
     @ (if include_user_id then [(''user_id'', JStr (up_user_id s))] else [])
     @ (if up_last_active_ts s \<noteq> 0 then [(''last_active_ago'', JInt (now - up_last_active_ts s))] else [])
     @ (case up_status_msg s of Some m \<Rightarrow> if m \<noteq> [] then [(''status_msg'', JStr m)] else [] | None \<Rightarrow> [])
     @ (if up_state s = ONLINE then [(''currently_active'', JBool (up_currently_active s))] else [])"

text \<open>What the loop of \<open>handle_timeout\<close> does to one device: its new state, whether it changed, whether it goes offline.\<close>

definition idle_device :: "int \<Rightarrow> device_presence \<Rightarrow> device_presence \<times> bool" where
  "idle_device now d =
     (if dp_state d = ONLINE \<and> now - dp_last_active_ts d > IDLE_TIMER then (d\<lparr>dp_state := UNAVAILABLE\<rparr>, True) else (d, False))"

definition device_gone :: "string \<Rightarrow> syncing \<Rightarrow> int \<Rightarrow> string option \<Rightarrow> device_presence \<Rightarrow> bool" where
  "device_gone user syncing now device_id d \<longleftrightarrow>
     (user, device_id) \<notin> set syncing \<and>
     now - max (dp_last_sync_ts d) (dp_last_active_ts d) > (if dp_state d = BUSY then BUSY_ONLINE_TIMEOUT else SYNC_ONLINE_TIMEOUT)"

definition time_out_devices :: "string \<Rightarrow> syncing \<Rightarrow> int \<Rightarrow> devices \<Rightarrow> devices \<times> bool" where
  "time_out_devices user syncing now ds =
     (let idled = map (\<lambda>(i, d). (i, idle_device now d)) ds;
          gone = (\<lambda>(i, d, _). device_gone user syncing now i d)
      in (map (\<lambda>(i, d, _). (i, d)) (filter (\<lambda>x. \<not> gone x) idled),
          list_ex (\<lambda>x. snd (snd x) \<or> gone x) idled))"

definition handle_timeout ::
  "user_presence \<Rightarrow> bool \<Rightarrow> syncing \<Rightarrow> devices \<Rightarrow> int \<Rightarrow> (user_presence option \<times> devices) result" where
  "handle_timeout s is_mine syncing user_devices now =
     (if up_state s = OFFLINE then Inr (None, user_devices)
      else if is_mine then
        (case time_out_devices (up_user_id s) syncing now user_devices of (ds, device_changed) \<Rightarrow>
           bindR (if device_changed then combine_device_states (map snd ds) else Inr (up_state s)) (\<lambda>new_presence.
             Inr (if new_presence \<noteq> up_state s \<or>
                     now - up_last_active_ts s > LAST_ACTIVE_GRANULARITY \<or>
                     now - up_last_federation_update_ts s > FEDERATION_PING_INTERVAL
                  then Some (s\<lparr>up_state := new_presence\<rparr>) else None, ds)))
      else
        Inr (if now - up_last_federation_update_ts s > FEDERATION_TIMEOUT then Some (s\<lparr>up_state := OFFLINE\<rparr>) else None,
             user_devices))"

text \<open>The devices of users that have none are a new dictionary, which is dropped.\<close>

definition handle_timeouts ::
  "user_presence list \<Rightarrow> (string \<Rightarrow> bool) \<Rightarrow> syncing \<Rightarrow> (string \<times> devices) list \<Rightarrow> int
   \<Rightarrow> (user_presence list \<times> (string \<times> devices) list) result" where
  "handle_timeouts states is_mine_fn syncing user_to_devices now =
     bindR (foldR (\<lambda>(changes, devs) s.
       bindR (handle_timeout s (is_mine_fn (up_user_id s)) syncing
                (case map_of devs (up_user_id s) of None \<Rightarrow> [] | Some ds \<Rightarrow> ds) now) (\<lambda>(new, ds).
         Inr (case new of None \<Rightarrow> changes | Some n \<Rightarrow> AList.update (up_user_id s) n changes,
              case map_of devs (up_user_id s) of None \<Rightarrow> devs | Some _ \<Rightarrow> AList.update (up_user_id s) ds devs)))
       ([], user_to_devices) states) (\<lambda>(changes, devs). Inr (map snd changes, devs))"

definition timer :: "bool \<Rightarrow> int \<Rightarrow> string \<Rightarrow> int \<Rightarrow> string wheel \<Rightarrow> string wheel result" where
  "timer wanted now user then_time w = (if wanted then wheel_insert w now user then_time else Inr w)"

definition handle_update ::
  "user_presence \<Rightarrow> user_presence \<Rightarrow> bool \<Rightarrow> string wheel \<Rightarrow> int \<Rightarrow> bool \<Rightarrow> (user_presence \<times> bool \<times> bool \<times> string wheel) result" where
  "handle_update prev new is_mine w now persist =
     (let u = up_user_id new;
          active = (up_state new = ONLINE \<and> now - up_last_active_ts new < LAST_ACTIVE_GRANULARITY);
          new1 = (if is_mine \<and> up_state new = ONLINE then new\<lparr>up_currently_active := active\<rparr> else new);
          ping = (is_mine \<and> up_state new \<noteq> OFFLINE \<and> now - up_last_federation_update_ts new > FEDERATION_PING_INTERVAL);
          new2 = (if ping then new1\<lparr>up_last_federation_update_ts := now\<rparr> else new1)
      in bindR (timer (is_mine \<and> up_state new = ONLINE \<and> \<not> persist) now u (up_last_active_ts new + IDLE_TIMER) w) (\<lambda>w.
         bindR (timer (is_mine \<and> active \<and> \<not> persist) now u (up_last_active_ts new + LAST_ACTIVE_GRANULARITY) w) (\<lambda>w.
         bindR (timer (is_mine \<and> up_state new \<noteq> OFFLINE \<and> \<not> persist) now u (up_last_user_sync_ts new + SYNC_ONLINE_TIMEOUT) w) (\<lambda>w.
         bindR (timer (is_mine \<and> up_state new = BUSY \<and> \<not> persist) now u (up_last_user_sync_ts new + BUSY_ONLINE_TIMEOUT) w) (\<lambda>w.
         bindR (timer (\<not> is_mine \<and> \<not> persist) now u (up_last_federation_update_ts new + FEDERATION_TIMEOUT) w) (\<lambda>w.
           let notify = should_notify prev new2
           in Inr (if notify then new2\<lparr>up_last_federation_update_ts := now\<rparr> else new2, notify, ping, w)))))))"

section \<open>Who is interested\<close>

text \<open>Rooms, hosts and the presence routing module, as the code asks for them.\<close>

record surroundings =
  is_mine_id :: "string \<Rightarrow> bool"
  get_rooms_for_user :: "string \<Rightarrow> string list"
  get_current_hosts_in_room :: "string \<Rightarrow> string list"
  get_users_for_states :: "user_presence list \<Rightarrow> (string \<times> user_presence list) list"
  get_presence_for_users :: "string \<Rightarrow> user_presence option"

definition append_to :: "'k \<Rightarrow> 'v list \<Rightarrow> ('k \<times> 'v list) list \<Rightarrow> ('k \<times> 'v list) list" where
  "append_to k vs d = AList.update k ((case map_of d k of None \<Rightarrow> [] | Some xs \<Rightarrow> xs) @ vs) d"

definition get_interested_parties ::
  "surroundings \<Rightarrow> user_presence list \<Rightarrow> (string \<times> user_presence list) list \<times> (string \<times> user_presence list) list" where
  "get_interested_parties env states =
     (foldl (\<lambda>d s. foldl (\<lambda>d r. append_to r [s] d) d (get_rooms_for_user env (up_user_id s))) [] states,
      foldl (\<lambda>d (u, ss). append_to u ss d) (foldl (\<lambda>d s. append_to (up_user_id s) [s] d) [] states)
        (get_users_for_states env states))"

definition get_interested_remotes :: "surroundings \<Rightarrow> user_presence list \<Rightarrow> (string list \<times> user_presence list) list result" where
  "get_interested_remotes env states =
     bindR (mapR (\<lambda>(u, ss). bindR (get_domain_from_id u) (\<lambda>host. Inr ([host], ss))) (get_users_for_states env states)) (\<lambda>routed.
       Inr (map (\<lambda>s. (remdups (concat (map (get_current_hosts_in_room env) (get_rooms_for_user env (up_user_id s)))), [s])) states @ routed))"

section \<open>\<open>PresenceFederationQueue\<close>\<close>

record queue_entry =
  qe_time :: int
  qe_stream_id :: int
  qe_destinations :: "string list"
  qe_user_ids :: "string list"

text \<open>\<open>sent\<close>: what was given to the federation sender of this process, if it has one.\<close>

record fed_queue =
  fq_instance_name :: string
  queue_presence_updates :: bool
  presence_writer :: bool
  has_federation :: bool
  fq_queue :: "queue_entry list"
  fq_next_id :: int
  current_tokens :: "(string \<times> int) list"
  sent :: "(string list \<times> user_presence list) list"

definition new_fed_queue :: "string \<Rightarrow> bool \<Rightarrow> bool \<Rightarrow> bool \<Rightarrow> fed_queue" where
  "new_fed_queue name queue_updates writer federation = \<lparr>fq_instance_name = name, queue_presence_updates = queue_updates,
     presence_writer = writer, has_federation = federation, fq_queue = [], fq_next_id = 1, current_tokens = [], sent = []\<rparr>"

definition send_presence_to_destinations ::
  "user_presence list \<Rightarrow> string list \<Rightarrow> int \<Rightarrow> (fed_queue, unit) action" where
  "send_presence_to_destinations states destinations now =
     bindA (readA presence_writer) (\<lambda>writer.
     bindA (guardA writer AssertionErr) (\<lambda>_.
       if states = [] \<or> destinations = [] then returnA ()
       else
         bindA (writeA (\<lambda>q. if has_federation q then q\<lparr>sent := sent q @ [(destinations, states)]\<rparr> else q)) (\<lambda>_.
           writeA (\<lambda>q. if queue_presence_updates q
             then q\<lparr>fq_next_id := fq_next_id q + 1,
                    fq_queue := fq_queue q @ [\<lparr>qe_time = now, qe_stream_id = fq_next_id q, qe_destinations = destinations,
                      qe_user_ids = remdups (map up_user_id states)\<rparr>]\<rparr>
             else q))))"

text \<open>\<open>bisect\<close> finds the first entry whose time is not before the bound, as a one-element tuple is less than a longer one.\<close>

definition clear_queue :: "int \<Rightarrow> fed_queue \<Rightarrow> fed_queue" where
  "clear_queue now q = q\<lparr>fq_queue := dropWhile (\<lambda>e. qe_time e < now - 5 * 60 * 1000) (fq_queue q)\<rparr>"

definition fed_current_token :: "string \<Rightarrow> fed_queue \<Rightarrow> int" where
  "fed_current_token name q =
     (if name = fq_instance_name q then fq_next_id q - 1
      else (case map_of (current_tokens q) name of None \<Rightarrow> 0 | Some t \<Rightarrow> t))"

text \<open>\<open>xs[i:]\<close>\<close>

definition py_slice_from :: "int \<Rightarrow> 'a list \<Rightarrow> 'a list" where
  "py_slice_from i xs = drop (nat (if i < 0 then max 0 (int (length xs) + i) else i)) xs"

definition entry_rows :: "queue_entry \<Rightarrow> (int \<times> string \<times> string) list" where
  "entry_rows e = concat (map (\<lambda>d. map (\<lambda>u. (qe_stream_id e, d, u)) (qe_user_ids e)) (qe_destinations e))"

fun rows_loop :: "int \<Rightarrow> int \<Rightarrow> int \<Rightarrow> queue_entry list \<Rightarrow> (int \<times> string \<times> string) list \<Rightarrow> int
  \<Rightarrow> (int \<times> string \<times> string) list \<times> int \<times> bool" where
  "rows_loop from_token upto_token target [] to_send new_id = (to_send, new_id, False)"
| "rows_loop from_token upto_token target (e # es) to_send new_id =
     (if qe_stream_id e \<le> from_token then rows_loop from_token upto_token target es to_send new_id
      else if qe_stream_id e > upto_token then (to_send, new_id, False)
      else
        (let rows = to_send @ entry_rows e
         in if int (length rows) > target then (rows, qe_stream_id e, True)
            else rows_loop from_token upto_token target es rows (qe_stream_id e)))"

text \<open>The branch for rows of this process; those of others are asked for over HTTP.\<close>

definition get_replication_rows ::
  "int \<Rightarrow> int \<Rightarrow> int \<Rightarrow> fed_queue \<Rightarrow> (int \<times> string \<times> string) list \<times> int \<times> bool" where
  "get_replication_rows from_token upto_token target q =
     (if from_token = fq_next_id q - 1 then ([], upto_token, False)
      else rows_loop from_token upto_token target
             (py_slice_from (max (from_token + 1 - fq_next_id q) (- int (length (fq_queue q)))) (fq_queue q)) [] upto_token)"

section \<open>\<open>PresenceHandler\<close>\<close>

record presence_handler =
  presence_enabled :: bool
  track_presence :: bool
  busy_enabled :: bool
  user_to_current_state :: "(string \<times> user_presence) list"
  user_to_devices :: "(string \<times> devices) list"
  timers :: "string wheel"
  unpersisted :: "string list"
  num_current_syncs :: "((string \<times> string option) \<times> int) list"
  external_syncs :: "(string \<times> syncing) list"
  external_last_updated :: "(string \<times> int) list"
  persisted :: "user_presence list list"
  notified :: "(string list \<times> domain_specific_string list) list"
  federation_queue :: fed_queue

definition queueA :: "(fed_queue, 'a) action \<Rightarrow> (presence_handler, 'a) action" where
  "queueA m h = (case m (federation_queue h) of (r, q) \<Rightarrow> (r, h\<lparr>federation_queue := q\<rparr>))"

fun forA :: "'a list \<Rightarrow> ('a \<Rightarrow> ('s, unit) action) \<Rightarrow> ('s, unit) action" where
  "forA [] f = returnA ()"
| "forA (x # xs) f = bindA (f x) (\<lambda>_. forA xs f)"

definition current_state_for_user :: "surroundings \<Rightarrow> string \<Rightarrow> (presence_handler, user_presence) action" where
  "current_state_for_user env u h =
     (case map_of (user_to_current_state h) u of
        Some s \<Rightarrow> (Inr s, h)
      | None \<Rightarrow>
          (case get_presence_for_users env u of
             Some s \<Rightarrow> (Inr s, h)
           | None \<Rightarrow> (Inr (default_presence u),
               h\<lparr>user_to_current_state := AList.update u (default_presence u) (user_to_current_state h)\<rparr>)))"

text \<open>\<open>_persist_and_notify\<close>, with what it gives to the notifier, and to the federation sender of this process.\<close>

definition maybe_send_presence_to_interested_destinations :: "surroundings \<Rightarrow> user_presence list \<Rightarrow> (presence_handler, unit) action" where
  "maybe_send_presence_to_interested_destinations env states =
     bindA (readA (\<lambda>h. has_federation (federation_queue h))) (\<lambda>fed.
       let mine = filter (\<lambda>s. is_mine_id env (up_user_id s)) states
       in if \<not> fed \<or> mine = [] then returnA ()
          else bindA (liftA (get_interested_remotes env mine)) (\<lambda>hosts.
            writeA (\<lambda>h. h\<lparr>federation_queue := (federation_queue h)\<lparr>sent := sent (federation_queue h) @ hosts\<rparr>\<rparr>)))"

definition persist_and_notify :: "surroundings \<Rightarrow> user_presence list \<Rightarrow> (presence_handler, unit) action" where
  "persist_and_notify env states =
     bindA (writeA (\<lambda>h. h\<lparr>persisted := persisted h @ [states]\<rparr>)) (\<lambda>_.
       let (rooms, users) = get_interested_parties env states
       in bindA (liftA (mapR (from_string UserID) (map fst users))) (\<lambda>user_ids.
          bindA (writeA (\<lambda>h. h\<lparr>notified := notified h @ [(map fst rooms, user_ids)]\<rparr>)) (\<lambda>_.
            maybe_send_presence_to_interested_destinations env states)))"

text \<open>The part of \<open>_update_states\<close> without awaits: the new states, those to notify about and those to ping.\<close>

definition update_one ::
  "surroundings \<Rightarrow> int \<Rightarrow> bool \<Rightarrow> presence_handler \<times> (string \<times> user_presence) list \<times> (string \<times> user_presence) list \<Rightarrow> user_presence
   \<Rightarrow> (presence_handler \<times> (string \<times> user_presence) list \<times> (string \<times> user_presence) list) result" where
  "update_one env now force_notify = (\<lambda>(h, to_notify, to_ping) new.
     (let u = up_user_id new;
          prev = (case map_of (user_to_current_state h) u of None \<Rightarrow> default_presence u | Some s \<Rightarrow> s)
      in bindR (handle_update prev new (is_mine_id env u) (timers h) now (\<not> track_presence h)) (\<lambda>(new', notify, ping, w).
           let notify' = (notify \<or> force_notify)
           in Inr (h\<lparr>timers := w, user_to_current_state := AList.update u new' (user_to_current_state h)\<rparr>,
                   if notify' then AList.update u new' to_notify else to_notify,
                   if \<not> notify' \<and> ping then AList.update u new' to_ping else to_ping))))"

definition update_states :: "surroundings \<Rightarrow> int \<Rightarrow> user_presence list \<Rightarrow> bool \<Rightarrow> (presence_handler, unit) action" where
  "update_states env now new_states force_notify h =
     (if \<not> presence_enabled h then (Inr (), h)
      else
        (let states = map snd (dict_update [] (map (\<lambda>s. (up_user_id s, s)) new_states))
         in case foldR (update_one env now force_notify) (h, [], []) states of
              Inl e \<Rightarrow> (Inl e, h)
            | Inr (h1, to_notify, to_ping) \<Rightarrow>
                bindA (if to_notify \<noteq> [] then persist_and_notify env (map snd to_notify) else returnA ()) (\<lambda>_.
                bindA (writeA (\<lambda>h. h\<lparr>unpersisted := filter (\<lambda>u. u \<notin> fst ` set to_notify)
                    (remdups (unpersisted h @ map up_user_id states))\<rparr>)) (\<lambda>_.
                  let pings = filter (\<lambda>(u, _). u \<notin> fst ` set to_notify) to_ping
                  in if pings = [] then returnA ()
                     else bindA (liftA (get_interested_remotes env (map snd pings))) (\<lambda>hosts.
                       forA hosts (\<lambda>(destinations, states). queueA (send_presence_to_destinations states destinations now))))) h1))"

definition expired_processes :: "int \<Rightarrow> presence_handler \<Rightarrow> string list" where
  "expired_processes now h = map fst (filter (\<lambda>(_, t). now - t > EXTERNAL_PROCESS_EXPIRY) (external_last_updated h))"

definition syncing_user_devices :: "presence_handler \<Rightarrow> syncing" where
  "syncing_user_devices h =
     map fst (filter (\<lambda>(_, n). n \<noteq> 0) (num_current_syncs h)) @ concat (map snd (external_syncs h))"

definition check_timeouts :: "surroundings \<Rightarrow> int \<Rightarrow> (presence_handler, unit) action" where
  "check_timeouts env now h =
     (case wheel_fetch (timers h) now of (due, w) \<Rightarrow>
        (let expired = expired_processes now h;
             users = remdups (due @ concat (map (\<lambda>p. map fst (case map_of (external_syncs h) p of None \<Rightarrow> [] | Some s \<Rightarrow> s)) expired));
             h1 = h\<lparr>timers := w,
                    external_syncs := filter (\<lambda>(p, _). p \<notin> set expired) (external_syncs h),
                    external_last_updated := filter (\<lambda>(p, _). p \<notin> set expired) (external_last_updated h)\<rparr>;
             states = map (\<lambda>u. case map_of (user_to_current_state h) u of None \<Rightarrow> default_presence u | Some s \<Rightarrow> s) users
         in case handle_timeouts states (is_mine_id env) (syncing_user_devices h1) (user_to_devices h) now of
              Inl e \<Rightarrow> (Inl e, h1)
            | Inr (changes, devs) \<Rightarrow> update_states env now changes False (h1\<lparr>user_to_devices := devs\<rparr>)))"

text \<open>\<open>devices.setdefault(device_id, ...)\<close> followed by a change of the device.\<close>

definition the_devices :: "string \<Rightarrow> presence_handler \<Rightarrow> devices" where
  "the_devices u h = (case map_of (user_to_devices h) u of None \<Rightarrow> [] | Some ds \<Rightarrow> ds)"

definition change_device :: "string \<Rightarrow> string option \<Rightarrow> (device_presence \<Rightarrow> device_presence) \<Rightarrow> presence_handler \<Rightarrow> presence_handler" where
  "change_device u i f h =
     (let ds = the_devices u h; d = (case map_of ds i of None \<Rightarrow> default_device u i | Some d \<Rightarrow> d)
      in h\<lparr>user_to_devices := AList.update u (AList.update i (f d) ds) (user_to_devices h)\<rparr>)"

definition bump_presence_active_time :: "surroundings \<Rightarrow> string \<Rightarrow> string option \<Rightarrow> int \<Rightarrow> (presence_handler, unit) action" where
  "bump_presence_active_time env u i now =
     bindA (readA track_presence) (\<lambda>track.
       if \<not> track then returnA ()
       else
         bindA (writeA (change_device u i (\<lambda>d. d\<lparr>dp_last_active_ts := now,
           dp_state := (if dp_state d = UNAVAILABLE then ONLINE else dp_state d)\<rparr>))) (\<lambda>_.
         bindA (current_state_for_user env u) (\<lambda>prev.
         bindA (readA (the_devices u)) (\<lambda>ds.
         bindA (liftA (combine_device_states (map snd ds))) (\<lambda>presence.
           update_states env now [prev\<lparr>up_last_active_ts := now, up_state := presence\<rparr>] False)))))"

definition set_state ::
  "surroundings \<Rightarrow> string \<Rightarrow> string option \<Rightarrow> string \<Rightarrow> string option \<Rightarrow> bool \<Rightarrow> bool \<Rightarrow> int \<Rightarrow> (presence_handler, unit) action" where
  "set_state env u i presence status_msg force_notify is_sync now =
     bindA (readA busy_enabled) (\<lambda>busy.
     bindA (guardA (presence \<in> set ([ONLINE, UNAVAILABLE, OFFLINE] @ (if busy then [BUSY] else []))) (SynapseError 400)) (\<lambda>_.
     bindA (readA track_presence) (\<lambda>track.
       if \<not> track then returnA ()
       else
         bindA (current_state_for_user env u) (\<lambda>prev.
         bindA (writeA (change_device u i (\<lambda>d. d\<lparr>
             dp_state := (if up_state prev = BUSY \<and> is_sync then BUSY else presence), dp_last_active_ts := now,
             dp_last_sync_ts := (if is_sync then now else dp_last_sync_ts d)\<rparr>))) (\<lambda>_.
         bindA (readA (the_devices u)) (\<lambda>ds.
         bindA (liftA (combine_device_states (map snd ds))) (\<lambda>combined.
           update_states env now
             [prev\<lparr>up_state := combined,
                up_last_active_ts := (if combined = ONLINE \<or> combined = BUSY then now else up_last_active_ts prev),
                up_last_user_sync_ts := (if is_sync then now else up_last_user_sync_ts prev),
                up_status_msg := (if is_sync then up_status_msg prev else status_msg)\<rparr>] force_notify)))))))"

text \<open>\<open>user_syncing\<close>: entering the context, and \<open>_end\<close>, which logs exceptions instead of raising them.\<close>

definition user_syncing :: "surroundings \<Rightarrow> string \<Rightarrow> string option \<Rightarrow> bool \<Rightarrow> string \<Rightarrow> int \<Rightarrow> (presence_handler, bool) action" where
  "user_syncing env u i affect_presence presence now =
     bindA (readA track_presence) (\<lambda>track.
       if \<not> affect_presence \<or> \<not> track then returnA False
       else
         bindA (writeA (\<lambda>h. h\<lparr>num_current_syncs := AList.update (u, i)
           ((case map_of (num_current_syncs h) (u, i) of None \<Rightarrow> 0 | Some n \<Rightarrow> n) + 1) (num_current_syncs h)\<rparr>)) (\<lambda>_.
         bindA (set_state env u i presence None False True now) (\<lambda>_. returnA True)))"

definition user_syncing_end :: "surroundings \<Rightarrow> string \<Rightarrow> string option \<Rightarrow> int \<Rightarrow> presence_handler \<Rightarrow> presence_handler" where
  "user_syncing_end env u i now h =
     (case map_of (num_current_syncs h) (u, i) of
        None \<Rightarrow> h
      | Some n \<Rightarrow>
          state_after
            (bindA (current_state_for_user env u) (\<lambda>prev.
               update_states env now [prev\<lparr>up_last_user_sync_ts := now\<rparr>] False))
            (h\<lparr>num_current_syncs := AList.update (u, i) (n - 1) (num_current_syncs h)\<rparr>))"

definition the_process :: "string \<Rightarrow> presence_handler \<Rightarrow> syncing" where
  "the_process p h = (case map_of (external_syncs h) p of None \<Rightarrow> [] | Some s \<Rightarrow> s)"

definition set_process :: "string \<Rightarrow> syncing \<Rightarrow> presence_handler \<Rightarrow> presence_handler" where
  "set_process p s h = h\<lparr>external_syncs := AList.update p s (external_syncs h)\<rparr>"

definition update_external_syncs_row ::
  "surroundings \<Rightarrow> string \<Rightarrow> string \<Rightarrow> string option \<Rightarrow> bool \<Rightarrow> int \<Rightarrow> int \<Rightarrow> (presence_handler, unit) action" where
  "update_external_syncs_row env p u i is_syncing sync_time now =
     bindA (current_state_for_user env u) (\<lambda>prev.
     bindA (writeA (\<lambda>h. set_process p (the_process p h) h)) (\<lambda>_.
     bindA (readA (the_process p)) (\<lambda>syncs.
     bindA (if is_syncing \<and> (u, i) \<notin> set syncs then writeA (set_process p (syncs @ [(u, i)]))
            else if \<not> is_syncing \<and> (u, i) \<in> set syncs then
              bindA (writeA (change_device u i (\<lambda>d. d\<lparr>dp_last_sync_ts := sync_time\<rparr>))) (\<lambda>_.
              bindA (update_states env now [prev\<lparr>up_last_user_sync_ts := sync_time\<rparr>] False) (\<lambda>_.
                writeA (set_process p (removeAll (u, i) syncs))))
            else returnA ()) (\<lambda>_.
       writeA (\<lambda>h. h\<lparr>external_last_updated := AList.update p now (external_last_updated h)\<rparr>)))))"

text \<open>\<open>[await self.current_state_for_user(user_id) for user_id in ...]\<close>\<close>

fun read_states :: "surroundings \<Rightarrow> string list \<Rightarrow> (presence_handler, user_presence list) action" where
  "read_states env [] = returnA []"
| "read_states env (u # us) =
     bindA (current_state_for_user env u) (\<lambda>s. bindA (read_states env us) (\<lambda>ss. returnA (s # ss)))"

definition update_external_syncs_clear :: "surroundings \<Rightarrow> string \<Rightarrow> int \<Rightarrow> (presence_handler, unit) action" where
  "update_external_syncs_clear env p now =
     bindA (readA (the_process p)) (\<lambda>syncs.
     bindA (writeA (\<lambda>h. h\<lparr>external_syncs := AList.delete p (external_syncs h)\<rparr>)) (\<lambda>_.
     bindA (writeA (\<lambda>h. fold (\<lambda>(u, i). change_device u i (\<lambda>d. d\<lparr>dp_last_sync_ts := now\<rparr>)) syncs h)) (\<lambda>_.
     bindA (read_states env (remdups (map fst syncs))) (\<lambda>prevs.
     bindA (update_states env now (map (\<lambda>s. s\<lparr>up_last_user_sync_ts := now\<rparr>) prevs) False) (\<lambda>_.
       writeA (\<lambda>h. h\<lparr>external_last_updated := AList.delete p (external_last_updated h)\<rparr>))))))"

text \<open>A push of an \<open>m.presence\<close> EDU whose fields have the types of the specification.\<close>

record presence_push =
  pu_user_id :: "string option"
  pu_presence :: "string option"
  pu_last_active_ago :: "int option"
  pu_status_msg :: "string option"
  pu_currently_active :: bool

fun pushed_states :: "surroundings \<Rightarrow> string \<Rightarrow> int \<Rightarrow> presence_push list \<Rightarrow> (presence_handler, user_presence list) action" where
  "pushed_states env origin now [] = returnA []"
| "pushed_states env origin now (p # ps) =
     (case pu_user_id p of
        None \<Rightarrow> pushed_states env origin now ps
      | Some u \<Rightarrow>
          if u = [] then pushed_states env origin now ps
          else bindA (liftA (get_domain_from_id u)) (\<lambda>domain.
            if domain \<noteq> origin then pushed_states env origin now ps
            else (case pu_presence p of
                    None \<Rightarrow> pushed_states env origin now ps
                  | Some s \<Rightarrow>
                      if s = [] then pushed_states env origin now ps
                      else bindA (current_state_for_user env u) (\<lambda>prev.
                           bindA (pushed_states env origin now ps) (\<lambda>rest.
                             returnA (prev\<lparr>up_state := s, up_last_federation_update_ts := now,
                               up_last_active_ts := (case pu_last_active_ago p of None \<Rightarrow> up_last_active_ts prev | Some a \<Rightarrow> now - a),
                               up_status_msg := pu_status_msg p, up_currently_active := pu_currently_active p\<rparr> # rest))))))"

definition incoming_presence :: "surroundings \<Rightarrow> string \<Rightarrow> presence_push list \<Rightarrow> int \<Rightarrow> (presence_handler, unit) action" where
  "incoming_presence env origin pushes now =
     bindA (readA track_presence) (\<lambda>track.
       if \<not> track then returnA ()
       else bindA (pushed_states env origin now pushes) (\<lambda>updates.
         if updates = [] then returnA () else update_states env now updates False))"

definition persist_unpersisted_changes :: "(presence_handler, unit) action" where
  "persist_unpersisted_changes =
     bindA (readA unpersisted) (\<lambda>us.
     bindA (writeA (\<lambda>h. h\<lparr>unpersisted := []\<rparr>)) (\<lambda>_.
       if us = [] then returnA ()
       else bindA (readA user_to_current_state) (\<lambda>current.
            bindA (liftA (mapR (\<lambda>u. case map_of current u of None \<Rightarrow> Inl KeyErr | Some s \<Rightarrow> Inr s) us)) (\<lambda>states.
              writeA (\<lambda>h. h\<lparr>persisted := persisted h @ [states]\<rparr>)))))"

section \<open>Start-up\<close>

definition startup_user :: "surroundings \<Rightarrow> int \<Rightarrow> presence_handler \<Rightarrow> user_presence \<Rightarrow> presence_handler result" where
  "startup_user env now h s =
     (let u = up_user_id s;
          h1 = h\<lparr>user_to_devices := AList.update u [(None, \<lparr>dp_user_id = u, dp_device_id = None, dp_state = up_state s,
             dp_last_active_ts = up_last_active_ts s, dp_last_sync_ts = up_last_user_sync_ts s\<rparr>)] (user_to_devices h)\<rparr>
      in bindR (wheel_insert (timers h) now u (up_last_active_ts s + IDLE_TIMER)) (\<lambda>w.
         bindR (wheel_insert w now u (up_last_user_sync_ts s + SYNC_ONLINE_TIMEOUT)) (\<lambda>w.
         bindR (wheel_insert w now u (up_last_federation_update_ts s +
                  (if is_mine_id env u then FEDERATION_PING_INTERVAL else FEDERATION_TIMEOUT))) (\<lambda>w.
           Inr (h1\<lparr>timers := w\<rparr>)))))"

definition new_presence_handler ::
  "surroundings \<Rightarrow> bool \<Rightarrow> bool \<Rightarrow> bool \<Rightarrow> fed_queue \<Rightarrow> int \<Rightarrow> user_presence list \<Rightarrow> presence_handler result" where
  "new_presence_handler env enabled track busy q now active_presence =
     (let current = dict_update [] (map (\<lambda>s. (up_user_id s, s)) active_presence);
          h = \<lparr>presence_enabled = enabled, track_presence = track, busy_enabled = busy, user_to_current_state = current,
               user_to_devices = [], timers = new_wheel 5000, unpersisted = [], num_current_syncs = [], external_syncs = [],
               external_last_updated = [], persisted = [], notified = [], federation_queue = q\<rparr>
      in if track then foldR (startup_user env now) h (map snd current) else Inr h)"

end
