(* ===== verification/Wheel_Keys.thy ===== *)
theory Wheel_Keys
  imports Wheel_Timer
begin

text \<open>
  The wheel timer as a set of pairs of a key and an object.  Inserting adds one pair, fetching takes
  away those that are due.  The key of an inserted object may be smaller than that of its deadline,
  since extending the wheel repeats a key; it is not smaller than half way to the deadline.
\<close>

definition pairs :: "(int \<times> 'a list) list \<Rightarrow> (int \<times> 'a) set" where
  "pairs es = {(k, x). \<exists>b \<in> set es. fst b = k \<and> x \<in> set (snd b)}"

lemma pairs_simps [simp]: "pairs [] = {}" "pairs (b # es) = (\<lambda>x. (fst b, x)) ` set (snd b) \<union> pairs es"
  "pairs (es @ es') = pairs es \<union> pairs es'"
  by (auto simp: pairs_def)

section \<open>No key three times\<close>

fun sparse :: "int list \<Rightarrow> bool" where
  "sparse (a # b # c # ks) \<longleftrightarrow> a < c \<and> sparse (b # c # ks)"
| "sparse [a, b] \<longleftrightarrow> a < b"
| "sparse ks \<longleftrightarrow> True"

lemma sparse_tl: "sparse (k # ks) \<Longrightarrow> sparse ks"
  by (cases ks rule: sparse.cases) auto

lemma sparse_dropWhile: "sparse (map f xs) \<Longrightarrow> sparse (map f (dropWhile P xs))"
  by (induction xs) (auto dest: sparse_tl)

lemma sparse_upto: "sparse [l..t]"
proof (induction "nat (t - l + 1)" arbitrary: l)
  case (Suc n)
  then have l: "[l..t] = l # [l + 1..t]" and IH: "sparse [l + 1..t]" by (simp_all add: upto_rec1)
  show ?case
  proof (cases "l + 1 \<le> t")
    case True
    then have l1: "[l + 1..t] = (l + 1) # [l + 2..t]" by (simp add: upto_rec1 add.commute)
    have "a \<in> set [l + 2..t] \<Longrightarrow> l < a" for a by simp
    with IH show ?thesis unfolding l l1 by (cases "[l + 2..t]") auto
  next
    case False
    then show ?thesis by (simp add: l)
  qed
qed simp

lemma sparse_extend: "sparse ks \<Longrightarrow> ks \<noteq> [] \<Longrightarrow> last ks = l \<Longrightarrow> l < t \<Longrightarrow> sparse (ks @ [l..t])"
proof (induction ks rule: sparse.induct, goal_cases)
  case (2 a b)
  have "[l..t] = l # (l + 1) # [l + 2..t]" using 2(4) by (simp add: upto_rec1 add.commute)
  with 2 sparse_upto [of l t] show ?case by simp
next
  case (4 a)
  have "[l..t] = l # (l + 1) # [l + 2..t]" using 4 by (simp add: upto_rec1 add.commute)
  with 4 sparse_upto [of l t] show ?case by simp
qed auto

lemma sparse_nth: "sparse ks \<Longrightarrow> sorted ks \<Longrightarrow> i < length ks \<Longrightarrow> hd ks + int (i div 2) \<le> ks ! i"
proof (induction "length ks" arbitrary: ks i rule: less_induct)
  case less
  consider "i = 0" | "i = 1" | j where "i = Suc (Suc j)" by (metis One_nat_def not0_implies_Suc)
  then show ?case
  proof cases
    case 1
    then show ?thesis using less.prems(3) by (cases ks) auto
  next
    case 2
    then show ?thesis using less.prems(2,3) by (cases ks; cases "tl ks") auto
  next
    case 3
    then obtain a b c ks' where ks: "ks = a # b # c # ks'" using less.prems(3) by (cases ks rule: sparse.cases) auto
    have "sparse (c # ks')" using less.prems(1) ks sparse_tl by fastforce
    then have "c + int (j div 2) \<le> (c # ks') ! j" using less.hyps [of "c # ks'" j] less.prems(2,3) ks 3 by simp
    moreover have "a < c" using less.prems(1) ks by simp
    ultimately show ?thesis using 3 ks by simp
  qed
qed

lemma steps_sorted: "steps_ok es \<Longrightarrow> sorted (map fst es)"
  by (induction es rule: steps_ok.induct) auto

section \<open>Inserting and fetching\<close>

definition keyed :: "'a wheel \<Rightarrow> bool" where
  "keyed w \<longleftrightarrow> wheel_inv w \<and> sparse (map fst (entries w))"

lemma keyed_new: "0 < b \<Longrightarrow> keyed (new_wheel b)"
  by (simp add: keyed_def wheel_inv_def new_wheel_def)

lemma pairs_update:
  assumes "i < length es"
  shows "pairs (es[i := add_element x (es ! i)]) = insert (fst (es ! i), x) (pairs es)"
proof -
  have "pairs es = pairs (take i es @ es ! i # drop (Suc i) es)" using assms by (simp add: id_take_nth_drop [symmetric])
  then show ?thesis using assms by (auto simp: upd_conv_take_nth_drop add_element_def)
qed

lemma pairs_extend:
  assumes "l \<le> t"
  shows "pairs (extend_entries x l t es) = insert (t, x) (pairs es)"
proof -
  have u: "[l..t] = [l..t - 1] @ [t]" using assms by (simp add: upto_rec2)
  have e: "extend_entries x l t es = (es @ map (\<lambda>k. (k, [])) [l..t - 1]) @ [(t, [x])]"
    by (simp add: extend_entries_def u add_element_def butlast_append)
  have "pairs (map (\<lambda>k. (k, [] :: 'a list)) ks) = {}" for ks :: "int list" by (auto simp: pairs_def)
  then show ?thesis by (simp add: e)
qed

text \<open>The key an object gets: at most the later of its deadline and the first key, at least half way from the first key.\<close>

lemma keyed_insert:
  assumes "keyed w"
  shows "\<exists>es k. wheel_insert w now x then_time = Inr (w\<lparr>entries := es\<rparr>) \<and> keyed (w\<lparr>entries := es\<rparr>) \<and> es \<noteq> [] \<and>
    pairs es = insert (k, x) (pairs (entries w)) \<and>
    fst (hd es) = (if entries w = [] then time_key w now + 1 else fst (hd (entries w))) \<and>
    k \<le> max (time_key w then_time + 1) (fst (hd es)) \<and>
    fst (hd es) + (time_key w then_time + 1 - fst (hd es)) div 2 \<le> k"
proof -
  let ?t = "time_key w then_time + 1" and ?n = "time_key w now" and ?es = "entries w"
  have st: "steps_ok ?es" and sp: "sparse (map fst ?es)" and b: "0 < bucket_size w" using assms by (auto simp: keyed_def wheel_inv_def)
  consider "?es \<noteq> []" "?t \<le> fst (last ?es)" | "?es \<noteq> []" "\<not> ?t \<le> fst (last ?es)" | "?es = []" by blast
  then show ?thesis
  proof cases
    case 1
    let ?m = "fst (hd ?es)"
    define i where "i = nat (max ?m ?t - ?m)"
    have i: "i < length ?es" using steps_ok_length [OF st 1(1)] steps_ok_hd_last [OF st 1(1)] 1(2) unfolding i_def by linarith
    let ?e = "?es[i := add_element x (?es ! i)]"
    have keys: "map fst ?e = map fst ?es" using i by (rule map_fst_add)
    have hd: "fst (hd ?e) = ?m" using keys 1(1) by (metis hd_map length_0_conv length_list_update)
    have up: "fst (?es ! i) \<le> ?m + int i" by (rule steps_ok_nth [OF st i])
    have low: "?m + int (i div 2) \<le> fst (?es ! i)"
      using sparse_nth [OF sp steps_sorted [OF st], of i] i 1(1) by (simp add: hd_map)
    have ins: "wheel_insert w now x then_time = Inr (w\<lparr>entries := ?e\<rparr>)" using 1 i by (simp add: wheel_insert_def Let_def i_def)
    have "keyed (w\<lparr>entries := ?e\<rparr>)" using b sp steps_ok_fst [OF keys] st by (simp add: keyed_def wheel_inv_def keys)
    moreover have "fst (?es ! i) \<le> max ?t ?m" using up unfolding i_def by linarith
    moreover have "?m + (?t - ?m) div 2 \<le> fst (?es ! i)" using low unfolding i_def by linarith
    ultimately show ?thesis using ins 1(1) hd pairs_update [OF i, of x]
      by (intro exI [of _ ?e] exI [of _ "fst (?es ! i)"]) simp
  next
    case 2
    let ?l = "fst (last ?es)"
    let ?e = "extend_entries x ?l ?t ?es"
    have lt: "?l < ?t" using 2(2) by simp
    have keys: "map fst ?e = map fst ?es @ [?l..?t]" "?e \<noteq> []" using extend_entries_keys [of ?l ?t x ?es] lt by simp_all
    have hd: "fst (hd ?e) = fst (hd ?es)" using keys 2(1) by (metis hd_append2 hd_map map_is_Nil_conv)
    have "sparse (map fst ?e)" unfolding keys(1) by (rule sparse_extend) (use sp 2(1) lt in \<open>simp_all add: last_map\<close>)
    moreover have "steps_ok ?e" by (rule steps_ok_extend) (use st lt 2(1) in simp_all)
    moreover have "wheel_insert w now x then_time = Inr (w\<lparr>entries := ?e\<rparr>)" using 2 lt by (simp add: wheel_insert_def Let_def max_def)
    moreover have "fst (hd ?es) \<le> ?t" using steps_ok_hd_last [OF st 2(1)] lt by simp
    ultimately show ?thesis using b hd keys(2) 2(1) lt pairs_extend [of ?l ?t x ?es]
      by (intro exI [of _ ?e] exI [of _ ?t]) (simp add: keyed_def wheel_inv_def)
  next
    case 3
    let ?l = "?n + 1" let ?k = "max (?n + 1) ?t"
    let ?e = "extend_entries x ?l ?k []"
    have keys: "map fst ?e = [?l..?k]" "?e \<noteq> []" using extend_entries_keys [of ?l ?k x "[]"] by simp_all
    have hd: "fst (hd ?e) = ?l" using keys by (metis hd_map list.sel(1) max.cobounded1 upto_rec1)
    have "steps_ok ?e" by (rule steps_ok_extend) simp_all
    moreover have "wheel_insert w now x then_time = Inr (w\<lparr>entries := ?e\<rparr>)" using 3 by (simp add: wheel_insert_def Let_def)
    ultimately show ?thesis using b hd keys 3 pairs_extend [of ?l ?k x "[]"]
      by (intro exI [of _ ?e] exI [of _ ?k]) (simp add: keyed_def wheel_inv_def sparse_upto)
  qed
qed

lemma keyed_fetch:
  assumes "keyed w" "wheel_fetch w now = (out, w')"
  shows "keyed w' \<and> bucket_size w' = bucket_size w \<and> pairs (entries w') = {(k, x) \<in> pairs (entries w). time_key w now < k} \<and>
    set out = {x. \<exists>k. (k, x) \<in> pairs (entries w) \<and> k \<le> time_key w now} \<and>
    (entries w' \<noteq> [] \<longrightarrow> time_key w now < fst (hd (entries w')) \<and>
       (fst (hd (entries w)) \<le> time_key w now + 1 \<longrightarrow> fst (hd (entries w')) \<le> time_key w now + 1))"
proof -
  let ?due = "\<lambda>b :: int \<times> 'a list. fst b \<le> time_key w now" and ?es = "entries w"
  have st: "steps_ok ?es" and sp: "sparse (map fst ?es)" and b: "0 < bucket_size w" using assms(1) by (auto simp: keyed_def wheel_inv_def)
  have out: "out = concat (map snd (takeWhile ?due ?es))" and w': "w' = w\<lparr>entries := dropWhile ?due ?es\<rparr>"
    using assms(2) by (auto simp: wheel_fetch_def Let_def)
  have split: "?es = takeWhile ?due ?es @ dropWhile ?due ?es" by simp
  have st': "steps_ok (dropWhile ?due ?es)" using st split steps_ok_append by metis
  have late: "x \<in> set (dropWhile ?due ?es) \<Longrightarrow> time_key w now < fst x" for x
  proof -
    assume x: "x \<in> set (dropWhile ?due ?es)"
    then have ne: "dropWhile ?due ?es \<noteq> []" by (metis empty_iff empty_set)
    from hd_dropWhile [OF ne] steps_ok_hd [OF st' x] show ?thesis by simp
  qed
  have early: "x \<in> set (takeWhile ?due ?es) \<Longrightarrow> fst x \<le> time_key w now" for x by (auto dest: set_takeWhileD)
  have p: "pairs ?es = pairs (takeWhile ?due ?es) \<union> pairs (dropWhile ?due ?es)" by (metis pairs_simps(3) split)
  have "pairs (dropWhile ?due ?es) = {(k, x) \<in> pairs ?es. time_key w now < k}"
    unfolding p using late early by (fastforce simp: pairs_def)
  moreover have "set out = {x. \<exists>k. (k, x) \<in> pairs ?es \<and> k \<le> time_key w now}"
    unfolding p out using late early by (fastforce simp: pairs_def)
  moreover have "fst (hd (dropWhile ?due ?es)) \<le> time_key w now + 1"
    if "fst (hd ?es) \<le> time_key w now + 1" "dropWhile ?due ?es \<noteq> []"
  proof (cases "takeWhile ?due ?es = []")
    case True
    then show ?thesis using that split by (metis append_Nil)
  next
    case False
    then have "fst (hd (dropWhile ?due ?es)) \<le> fst (last (takeWhile ?due ?es)) + 1"
      using st that(2) split steps_ok_append by metis
    with early [OF last_in_set [OF False]] show ?thesis by simp
  qed
  ultimately show ?thesis using b sp st' sparse_dropWhile [OF sp] late by (auto simp: w' keyed_def wheel_inv_def)
qed

section \<open>Wheels of five-second buckets\<close>

lemma time_key_div:
  assumes "bucket_size w = 5000" "0 \<le> t"
  shows "time_key w t = t div 5000"
proof -
  have "(0 :: rat) \<le> of_int t / of_int 5000" using assms(2) by simp
  then show ?thesis using floor_divide_of_int_eq [of t 5000, where ?'a = rat] by (simp add: time_key_def trunc_rat_def assms(1))
qed

text \<open>The wheel at time \<open>now\<close>, last checked at \<open>c\<close>.\<close>

definition wheel_at :: "int \<Rightarrow> int \<Rightarrow> 'a wheel \<Rightarrow> bool" where
  "wheel_at c now w \<longleftrightarrow> keyed w \<and> bucket_size w = 5000 \<and> 0 \<le> c \<and> c \<le> now \<and>
     (entries w \<noteq> [] \<longrightarrow> c div 5000 < fst (hd (entries w)) \<and> fst (hd (entries w)) \<le> now div 5000 + 1)"

lemma wheel_at_later: "wheel_at c now w \<Longrightarrow> now \<le> now' \<Longrightarrow> wheel_at c now' w"
  using zdiv_mono1 [of now now' 5000] by (auto simp: wheel_at_def)

lemma wheel_at_pair: "wheel_at c now w \<Longrightarrow> (k, u) \<in> pairs (entries w) \<Longrightarrow> c div 5000 < k"
  using steps_ok_hd [of "entries w"] by (fastforce simp: wheel_at_def keyed_def wheel_inv_def pairs_def)

lemma insert_keeps:
  assumes "wheel_at c now w"
  shows "\<exists>w'. wheel_insert w now x t = Inr w' \<and> wheel_at c now w' \<and> pairs (entries w) \<subseteq> pairs (entries w')"
proof -
  have k: "keyed w" "bucket_size w = 5000" "0 \<le> now" using assms by (auto simp: wheel_at_def)
  from keyed_insert [OF k(1), of now x t] obtain es k where
    es: "wheel_insert w now x t = Inr (w\<lparr>entries := es\<rparr>)" "keyed (w\<lparr>entries := es\<rparr>)" "pairs es = insert (k, x) (pairs (entries w))"
      "fst (hd es) = (if entries w = [] then time_key w now + 1 else fst (hd (entries w)))" by blast
  have "c div 5000 \<le> now div 5000" using assms by (auto simp: wheel_at_def zdiv_mono1)
  then have "wheel_at c now (w\<lparr>entries := es\<rparr>)" using assms es(2,4) time_key_div [OF k(2,3)] k(2) by (auto simp: wheel_at_def)
  with es show ?thesis by auto
qed

lemma fetched_wheel:
  assumes "wheel_at c now w" "wheel_fetch w now = (due, w')"
  shows "wheel_at now now w'" "pairs (entries w') = {(k, x) \<in> pairs (entries w). now div 5000 < k}"
    "x \<notin> set due \<Longrightarrow> (k, x) \<in> pairs (entries w) \<Longrightarrow> now div 5000 < k"
proof -
  have w: "keyed w" "bucket_size w = 5000" "0 \<le> now" using assms(1) by (auto simp: wheel_at_def)
  note f = keyed_fetch [OF w(1) assms(2), unfolded time_key_div [OF w(2,3)]]
  have "fst (hd (entries w)) \<le> now div 5000 + 1" if "entries w' \<noteq> []"
  proof -
    have "entries w \<noteq> []" using that assms(2) by (auto simp: wheel_fetch_def Let_def)
    with assms(1) show ?thesis by (simp add: wheel_at_def)
  qed
  then show "wheel_at now now w'" using f w by (auto simp: wheel_at_def)
  show "pairs (entries w') = {(k, x) \<in> pairs (entries w). now div 5000 < k}" using f by blast
  assume x: "x \<notin> set due" "(k, x) \<in> pairs (entries w)"
  show "now div 5000 < k"
  proof (rule ccontr)
    assume "\<not> now div 5000 < k"
    with x(2) f have "x \<in> set due" by force
    with x(1) show False by simp
  qed
qed

end
