(* ===== verification/Presence_Props.thy ===== *)
theory Presence_Props
  imports Presence Wheel_Keys
begin

text \<open>
  What presence promises: the state of a user is that of the most present device, nobody stays
  online without activity, and the queue for other processes hands out every entry once.
\<close>

section \<open>Combining devices\<close>

definition rank :: "string \<Rightarrow> int" where
  "rank s = (if s = BUSY then 4 else if s = ONLINE then 3 else if s = UNAVAILABLE then 2 else if s = OFFLINE then 1 else 0)"

definition known_state :: "string \<Rightarrow> bool" where
  "known_state s \<longleftrightarrow> s \<in> {BUSY, ONLINE, UNAVAILABLE, OFFLINE}"

lemma priority_rank: "PRESENCE_BY_PRIORITY s = (if known_state s then Inr (rank s) else Inl KeyErr)"
  by (auto simp: PRESENCE_BY_PRIORITY_def rank_def known_state_def)

lemma rank_inj: "known_state s \<Longrightarrow> known_state t \<Longrightarrow> rank s = rank t \<longleftrightarrow> s = t"
  by (auto simp: known_state_def rank_def)

lemma known_simps [simp]: "known_state OFFLINE" "known_state ONLINE" "known_state UNAVAILABLE" "known_state BUSY"
  by (simp_all add: known_state_def)

lemma rank_simps [simp]: "rank OFFLINE = 1" "rank ONLINE = 3" "rank UNAVAILABLE = 2" "rank BUSY = 4"
  by (simp_all add: rank_def)

lemma rank_pos: "known_state s \<Longrightarrow> 1 \<le> rank s"
  by (auto simp: known_state_def)

definition combine_step :: "string \<times> int \<Rightarrow> device_presence \<Rightarrow> (string \<times> int) result" where
  "combine_step = (\<lambda>(presence, last_active_ts) d.
       bindR (PRESENCE_BY_PRIORITY (dp_state d)) (\<lambda>p.
       bindR (PRESENCE_BY_PRIORITY presence) (\<lambda>q.
         Inr (if (q, last_active_ts) < (p, dp_last_active_ts d) then (dp_state d, dp_last_active_ts d)
              else (presence, last_active_ts)))))"

lemma combine_fold:
  assumes "known_state p" "\<forall>d \<in> set ds. known_state (dp_state d)"
  shows "\<exists>q l'. foldR combine_step (p, l) ds = Inr (q, l') \<and> known_state q \<and> rank p \<le> rank q \<and>
    (\<forall>d \<in> set ds. rank (dp_state d) \<le> rank q) \<and> (q = p \<or> q \<in> dp_state ` set ds)"
  using assms
proof (induction ds arbitrary: p l)
  case (Cons d ds)
  have "combine_step (p, l) d = Inr (if (rank p, l) < (rank (dp_state d), dp_last_active_ts d) then (dp_state d, dp_last_active_ts d) else (p, l))"
    using Cons.prems by (simp add: combine_step_def priority_rank)
  then obtain p1 l1 where s: "combine_step (p, l) d = Inr (p1, l1)" and
    p1: "known_state p1" "rank p \<le> rank p1" "rank (dp_state d) \<le> rank p1" "p1 = p \<or> p1 = dp_state d"
    using Cons.prems by (cases "(rank p, l) < (rank (dp_state d), dp_last_active_ts d)") auto
  from Cons.IH [OF p1(1), of l1] Cons.prems(2) obtain q l' where "foldR combine_step (p1, l1) ds = Inr (q, l')" "known_state q"
    "rank p1 \<le> rank q" "\<forall>d \<in> set ds. rank (dp_state d) \<le> rank q" "q = p1 \<or> q \<in> dp_state ` set ds" by auto
  with s p1 show ?case by auto
qed simp

lemma combine_unknown: "\<exists>d \<in> set ds. \<not> known_state (dp_state d) \<Longrightarrow> \<exists>e. foldR combine_step (p, l) ds = Inl e"
proof (induction ds arbitrary: p l)
  case (Cons d ds)
  show ?case
  proof (cases "combine_step (p, l) d")
    case (Inr r)
    obtain p1 l1 where r: "r = (p1, l1)" by force
    with Inr have "known_state (dp_state d)" by (auto simp: combine_step_def priority_rank split: if_splits)
    with Cons Inr r show ?thesis by auto
  qed simp
qed simp

text \<open>
  The state of a user is that of the most present of the devices: busy before online before
  unavailable, and offline if there is none.  It is an error exactly if a device has another state.
\<close>

theorem combine_device_states_spec:
  "combine_device_states ds = Inr p \<longleftrightarrow>
     (\<forall>d \<in> set ds. known_state (dp_state d) \<and> rank (dp_state d) \<le> rank p) \<and> (p = OFFLINE \<or> p \<in> dp_state ` set ds)"
proof -
  have c: "combine_device_states ds = bindR (foldR combine_step (OFFLINE, - 1) ds) (\<lambda>(presence, _). Inr presence)"
    by (simp add: combine_device_states_def combine_step_def)
  show ?thesis
  proof (cases "\<forall>d \<in> set ds. known_state (dp_state d)")
    case True
    from combine_fold [OF known_simps(1) True, of "- 1"] obtain q l' where q: "foldR combine_step (OFFLINE, - 1) ds = Inr (q, l')"
      "known_state q" "rank OFFLINE \<le> rank q" "\<forall>d \<in> set ds. rank (dp_state d) \<le> rank q" "q = OFFLINE \<or> q \<in> dp_state ` set ds" by blast
    show ?thesis
    proof
      assume "combine_device_states ds = Inr p"
      with c q show "(\<forall>d \<in> set ds. known_state (dp_state d) \<and> rank (dp_state d) \<le> rank p) \<and> (p = OFFLINE \<or> p \<in> dp_state ` set ds)"
        using True by simp
    next
      assume p: "(\<forall>d \<in> set ds. known_state (dp_state d) \<and> rank (dp_state d) \<le> rank p) \<and> (p = OFFLINE \<or> p \<in> dp_state ` set ds)"
      then have k: "known_state p" by auto
      have "rank p \<le> rank q" using p q(3,4) by auto
      moreover have "rank q \<le> rank p" using q(5) p rank_pos [OF k] by (elim disjE imageE) simp_all
      ultimately have "q = p" using rank_inj [OF q(2) k] by simp
      with c q(1) show "combine_device_states ds = Inr p" by simp
    qed
  next
    case False
    then obtain e where "foldR combine_step (OFFLINE, - 1) ds = Inl e" using combine_unknown by blast
    with c False show ?thesis by auto
  qed
qed

theorem combine_device_states_spec_witness:
  "let phone = (default_device ''@a:s'' (Some ''P''))\<lparr>dp_state := UNAVAILABLE, dp_last_active_ts := 9\<rparr>;
       laptop = (default_device ''@a:s'' (Some ''L''))\<lparr>dp_state := ONLINE, dp_last_active_ts := 5\<rparr>
   in (\<forall>d \<in> set [phone, laptop]. known_state (dp_state d) \<and> rank (dp_state d) \<le> rank ONLINE) \<and>
      combine_device_states [phone, laptop] = Inr ONLINE"
  unfolding Let_def combine_device_states_spec by simp

section \<open>Timers\<close>

text \<open>An online user has a timer that goes off more than a minute after the last activity, and before the user is idle.\<close>

definition armed_for :: "int \<Rightarrow> (int \<times> string) set \<Rightarrow> string \<Rightarrow> bool" where
  "armed_for last_active P u \<longleftrightarrow>
     (\<exists>k. (k, u) \<in> P \<and> (last_active + LAST_ACTIVE_GRANULARITY) div 5000 < k \<and> k \<le> (last_active + IDLE_TIMER) div 5000 + 1)"

lemma armed_mono: "armed_for a P u \<Longrightarrow> P \<subseteq> Q \<Longrightarrow> armed_for a Q u"
  by (auto simp: armed_for_def)

lemma insert_arms:
  assumes "wheel_at c now w" "now \<le> c + 170000" "0 \<le> a" "a \<le> now" "now \<le> a + IDLE_TIMER"
  shows "\<exists>w'. wheel_insert w now u (a + IDLE_TIMER) = Inr w' \<and> wheel_at c now w' \<and> pairs (entries w) \<subseteq> pairs (entries w') \<and>
    armed_for a (pairs (entries w')) u"
proof -
  from insert_keeps [OF assms(1), of u "a + IDLE_TIMER"] obtain w' where
    w': "wheel_insert w now u (a + IDLE_TIMER) = Inr w'" "wheel_at c now w'" "pairs (entries w) \<subseteq> pairs (entries w')" by blast
  have b: "keyed w" "bucket_size w = 5000" using assms(1) by (auto simp: wheel_at_def)
  from keyed_insert [OF b(1), of now u "a + IDLE_TIMER"] obtain es k where
    es: "wheel_insert w now u (a + IDLE_TIMER) = Inr (w\<lparr>entries := es\<rparr>)" "es \<noteq> []" "pairs es = insert (k, u) (pairs (entries w))"
      "k \<le> max (time_key w (a + IDLE_TIMER) + 1) (fst (hd es))" "fst (hd es) + (time_key w (a + IDLE_TIMER) + 1 - fst (hd es)) div 2 \<le> k" by blast
  have "w' = w\<lparr>entries := es\<rparr>" using w'(1) es(1) by simp
  then have k: "entries w' \<noteq> []" "(k, u) \<in> pairs (entries w')" "k \<le> max (time_key w (a + IDLE_TIMER) + 1) (fst (hd (entries w')))"
      "fst (hd (entries w')) + (time_key w (a + IDLE_TIMER) + 1 - fst (hd (entries w'))) div 2 \<le> k" using es by simp_all
  have t: "time_key w (a + IDLE_TIMER) = a div 5000 + 60"
    using time_key_div [OF b(2), of "a + IDLE_TIMER"] assms(3) by (simp add: IDLE_TIMER_def)
  have h: "c div 5000 < fst (hd (entries w'))" "fst (hd (entries w')) \<le> now div 5000 + 1" using w'(2) k(1) by (auto simp: wheel_at_def)
  have n: "now div 5000 \<le> c div 5000 + 34" using zdiv_mono1 [OF assms(2), of 5000] by simp
  have an: "a div 5000 \<le> now div 5000" using zdiv_mono1 [OF assms(4), of 5000] by simp
  have na: "now div 5000 \<le> a div 5000 + 60" using zdiv_mono1 [OF assms(5), of 5000] by (simp add: IDLE_TIMER_def)
  have half: "x \<le> 2 * (x div 2) + 1" for x :: int by presburger
  have "k \<le> a div 5000 + 61" using k(3) t h(2) na by linarith
  moreover have "a div 5000 + 12 < k" 
    using k(4) half [of "a div 5000 + 60 + 1 - fst (hd (entries w'))"] h(1) n an unfolding t by linarith
  ultimately have "armed_for a (pairs (entries w')) u" using k(2) by (auto simp: armed_for_def presence_times)
  with w' show ?thesis by blast
qed

section \<open>Updates\<close>

lemma timer_keeps:
  assumes "wheel_at c now w"
  shows "\<exists>w'. timer wanted now u t w = Inr w' \<and> wheel_at c now w' \<and> pairs (entries w) \<subseteq> pairs (entries w')"
  using insert_keeps [OF assms, of u t] assms by (cases wanted) (simp_all add: timer_def)

lemma handle_update_value:
  assumes "wheel_at c now w" "now \<le> c + 170000"
  shows "\<exists>new' notify ping w'. handle_update prev new mine w now False = Inr (new', notify, ping, w') \<and> wheel_at c now w' \<and>
    pairs (entries w) \<subseteq> pairs (entries w') \<and> up_user_id new' = up_user_id new \<and> up_state new' = up_state new \<and>
    up_last_active_ts new' = up_last_active_ts new \<and>
    (mine \<and> up_state new = ONLINE \<and> 0 \<le> up_last_active_ts new \<and> up_last_active_ts new \<le> now \<and> now \<le> up_last_active_ts new + IDLE_TIMER
     \<longrightarrow> armed_for (up_last_active_ts new) (pairs (entries w')) (up_user_id new))"
proof -
  let ?u = "up_user_id new" and ?a = "up_last_active_ts new"
  let ?want = "mine \<and> up_state new = ONLINE \<and> 0 \<le> ?a \<and> ?a \<le> now \<and> now \<le> ?a + IDLE_TIMER"
  let ?active = "up_state new = ONLINE \<and> now - ?a < LAST_ACTIVE_GRANULARITY"
  obtain w1 where w1: "timer (mine \<and> up_state new = ONLINE) now ?u (?a + IDLE_TIMER) w = Inr w1" "wheel_at c now w1"
    "pairs (entries w) \<subseteq> pairs (entries w1)" "?want \<Longrightarrow> armed_for ?a (pairs (entries w1)) ?u"
  proof (cases ?want)
    case True
    with insert_arms [OF assms, of ?a ?u] that show ?thesis by (auto simp: timer_def)
  next
    case False
    with timer_keeps [OF assms(1), of "mine \<and> up_state new = ONLINE" ?u "?a + IDLE_TIMER"] that show ?thesis by blast
  qed
  obtain w2 where w2: "timer (mine \<and> ?active) now ?u (?a + LAST_ACTIVE_GRANULARITY) w1 = Inr w2" "wheel_at c now w2"
    "pairs (entries w1) \<subseteq> pairs (entries w2)" using timer_keeps [OF w1(2)] by blast
  obtain w3 where w3: "timer (mine \<and> up_state new \<noteq> OFFLINE) now ?u (up_last_user_sync_ts new + SYNC_ONLINE_TIMEOUT) w2 = Inr w3"
    "wheel_at c now w3" "pairs (entries w2) \<subseteq> pairs (entries w3)" using timer_keeps [OF w2(2)] by blast
  obtain w4 where w4: "timer (mine \<and> up_state new = BUSY) now ?u (up_last_user_sync_ts new + BUSY_ONLINE_TIMEOUT) w3 = Inr w4"
    "wheel_at c now w4" "pairs (entries w3) \<subseteq> pairs (entries w4)" using timer_keeps [OF w3(2)] by blast
  obtain w5 where w5: "timer (\<not> mine) now ?u (up_last_federation_update_ts new + FEDERATION_TIMEOUT) w4 = Inr w5"
    "wheel_at c now w5" "pairs (entries w4) \<subseteq> pairs (entries w5)" using timer_keeps [OF w4(2)] by blast
  have sub: "pairs (entries w1) \<subseteq> pairs (entries w5)" using w2(3) w3(3) w4(3) w5(3) by blast
  have res: "\<exists>new' notify ping. handle_update prev new mine w now False = Inr (new', notify, ping, w5) \<and> up_user_id new' = ?u \<and>
      up_state new' = up_state new \<and> up_last_active_ts new' = ?a"
    unfolding handle_update_def Let_def by (simp add: w1(1) w2(1) w3(1) w4(1) w5(1))
  show ?thesis using res w5(2) w1(3) sub w1(4) armed_mono [OF _ sub] by blast
qed

section \<open>The invariant\<close>

definition state_of :: "presence_handler \<Rightarrow> string \<Rightarrow> user_presence" where
  "state_of h u = (case map_of (user_to_current_state h) u of None \<Rightarrow> default_presence u | Some s \<Rightarrow> s)"

text \<open>
  A user with these devices may have this state: it is the combined one, and no device is online
  that was active later than the user.
\<close>

definition fits :: "int \<Rightarrow> devices \<Rightarrow> user_presence \<Rightarrow> bool" where
  "fits now ds s \<longleftrightarrow> 0 \<le> up_last_active_ts s \<and> up_last_active_ts s \<le> now \<and>
     combine_device_states (map snd ds) = Inr (up_state s) \<and>
     (\<forall>d \<in> snd ` set ds. dp_state d = ONLINE \<longrightarrow> dp_last_active_ts d \<le> up_last_active_ts s)"

definition user_ok :: "int \<Rightarrow> presence_handler \<Rightarrow> string \<Rightarrow> bool" where
  "user_ok now h u \<longleftrightarrow> fits now (the_devices u h) (state_of h u) \<and>
     (up_state (state_of h u) = ONLINE \<longrightarrow> armed_for (up_last_active_ts (state_of h u)) (pairs (entries (timers h))) u)"

text \<open>A stored row of a user that is not in memory; those in memory are not looked up.\<close>

definition row_ok :: "surroundings \<Rightarrow> int \<Rightarrow> string \<Rightarrow> user_presence \<Rightarrow> bool" where
  "row_ok env now u s \<longleftrightarrow> up_user_id s = u \<and>
     (is_mine_id env u \<longrightarrow> up_state s = OFFLINE \<and> 0 \<le> up_last_active_ts s \<and> up_last_active_ts s \<le> now)"

definition base_ok :: "surroundings \<Rightarrow> int \<Rightarrow> int \<Rightarrow> presence_handler \<Rightarrow> bool" where
  "base_ok env c now h \<longleftrightarrow> presence_enabled h \<and> track_presence h \<and> wheel_at c now (timers h) \<and>
     (\<forall>u s. map_of (user_to_current_state h) u = Some s \<longrightarrow> up_user_id s = u) \<and>
     (\<forall>u s. map_of (user_to_current_state h) u = None \<and> get_presence_for_users env u = Some s \<longrightarrow> row_ok env now u s)"

definition handler_ok :: "surroundings \<Rightarrow> int \<Rightarrow> int \<Rightarrow> presence_handler \<Rightarrow> bool" where
  "handler_ok env c now h \<longleftrightarrow> base_ok env c now h \<and> (\<forall>u. is_mine_id env u \<longrightarrow> user_ok now h u)"

lemma fits_later: "fits now ds s \<Longrightarrow> now \<le> now' \<Longrightarrow> fits now' ds s"
  by (simp add: fits_def)

lemma user_ok_timers:
  assumes "user_ok now h u" "state_of h' u = state_of h u" "the_devices u h' = the_devices u h"
    and "pairs (entries (timers h)) \<subseteq> pairs (entries (timers h'))"
  shows "user_ok now h' u"
  using assms armed_mono [OF _ assms(4)] by (auto simp: user_ok_def)

lemma user_ok_later: "user_ok now h u \<Longrightarrow> now \<le> now' \<Longrightarrow> user_ok now' h u"
  using fits_later by (auto simp: user_ok_def)

lemma base_ok_id: "base_ok env c now h \<Longrightarrow> up_user_id (state_of h u) = u"
  by (auto simp: base_ok_def state_of_def default_presence_def split: option.splits)

lemma row_ok_later: "row_ok env now u s \<Longrightarrow> now \<le> now' \<Longrightarrow> row_ok env now' u s"
  by (auto simp: row_ok_def)

lemma handler_ok_later: "handler_ok env c now h \<Longrightarrow> now \<le> now' \<Longrightarrow> handler_ok env c now' h"
  unfolding handler_ok_def base_ok_def using wheel_at_later user_ok_later row_ok_later by blast

section \<open>Updating states\<close>

definition update_ok :: "surroundings \<Rightarrow> int \<Rightarrow> presence_handler \<Rightarrow> user_presence \<Rightarrow> bool" where
  "update_ok env now h s \<longleftrightarrow>
     (is_mine_id env (up_user_id s) \<longrightarrow> fits now (the_devices (up_user_id s) h) s \<and>
        (up_state s = ONLINE \<longrightarrow> now \<le> up_last_active_ts s + IDLE_TIMER \<or>
           armed_for (up_last_active_ts s) (pairs (entries (timers h))) (up_user_id s)))"

lemma update_ok_timers:
  assumes "update_ok env now h s" "the_devices (up_user_id s) h' = the_devices (up_user_id s) h"
    and "pairs (entries (timers h)) \<subseteq> pairs (entries (timers h'))"
  shows "update_ok env now h' s"
  using assms armed_mono [OF _ assms(3)] by (auto simp: update_ok_def)

lemma update_one_ok:
  assumes "base_ok env c now h" "now \<le> c + 170000" "update_ok env now h s"
  shows "\<exists>h' n' p'. update_one env now force (h, n, p) s = Inr (h', n', p') \<and> base_ok env c now h' \<and>
    pairs (entries (timers h)) \<subseteq> pairs (entries (timers h')) \<and> user_to_devices h' = user_to_devices h \<and>
    (\<forall>u. u \<noteq> up_user_id s \<longrightarrow> state_of h' u = state_of h u) \<and> (is_mine_id env (up_user_id s) \<longrightarrow> user_ok now h' (up_user_id s))"
proof -
  let ?u = "up_user_id s"
  let ?prev = "case map_of (user_to_current_state h) ?u of None \<Rightarrow> default_presence ?u | Some x \<Rightarrow> x"
  have w: "wheel_at c now (timers h)" and tr: "\<not> (\<not> track_presence h) = True" using assms(1) by (simp_all add: base_ok_def)
  from handle_update_value [OF w assms(2), of ?prev s "is_mine_id env ?u"] obtain new' notify ping w' where
    hu: "handle_update ?prev s (is_mine_id env ?u) (timers h) now False = Inr (new', notify, ping, w')" "wheel_at c now w'"
      "pairs (entries (timers h)) \<subseteq> pairs (entries w')" "up_user_id new' = ?u" "up_state new' = up_state s"
      "up_last_active_ts new' = up_last_active_ts s"
    and arm: "is_mine_id env ?u \<and> up_state s = ONLINE \<and> 0 \<le> up_last_active_ts s \<and> up_last_active_ts s \<le> now \<and>
      now \<le> up_last_active_ts s + IDLE_TIMER \<longrightarrow> armed_for (up_last_active_ts s) (pairs (entries w')) ?u" by blast
  define h' where "h' = h\<lparr>timers := w', user_to_current_state := AList.update ?u new' (user_to_current_state h)\<rparr>"
  have tr': "track_presence h" using assms(1) by (simp add: base_ok_def)
  have u: "\<exists>n' p'. update_one env now force (h, n, p) s = Inr (h', n', p')"
    by (simp add: update_one_def Let_def hu(1) tr' h'_def)
  have st: "state_of h' v = (if v = ?u then new' else state_of h v)" for v by (simp add: state_of_def h'_def)
  have "base_ok env c now h'" using assms(1) hu(2,4) by (auto simp: base_ok_def h'_def)
  moreover have "user_ok now h' ?u" if m: "is_mine_id env ?u"
  proof -
    have d: "the_devices ?u h' = the_devices ?u h" "timers h' = w'" by (simp_all add: the_devices_def h'_def)
    have f: "fits now (the_devices ?u h) s" using assms(3) m by (simp add: update_ok_def)
    then have "up_state s = ONLINE \<Longrightarrow> armed_for (up_last_active_ts s) (pairs (entries w')) ?u"
      using assms(3) m arm armed_mono [OF _ hu(3)] by (auto simp: update_ok_def fits_def)
    with f hu(4-6) d st show ?thesis by (simp add: user_ok_def fits_def)
  qed
  ultimately show ?thesis using u hu(3) st by (auto simp: h'_def)
qed

lemma update_fold_ok:
  assumes "base_ok env c now h" "now \<le> c + 170000" "distinct (map up_user_id ss)" "\<forall>s \<in> set ss. update_ok env now h s"
    and "\<forall>u. is_mine_id env u \<and> u \<notin> up_user_id ` set ss \<longrightarrow> user_ok now h u"
  shows "\<exists>h' n' p'. foldR (update_one env now force) (h, n, p) ss = Inr (h', n', p') \<and> handler_ok env c now h'"
  using assms
proof (induction ss arbitrary: h n p)
  case (Cons s ss)
  from update_one_ok [OF Cons.prems(1,2), of s force n p] Cons.prems(4) obtain h1 n1 p1 where
    one: "update_one env now force (h, n, p) s = Inr (h1, n1, p1)" "base_ok env c now h1"
      "pairs (entries (timers h)) \<subseteq> pairs (entries (timers h1))" "user_to_devices h1 = user_to_devices h"
      "\<And>u. u \<noteq> up_user_id s \<Longrightarrow> state_of h1 u = state_of h u" "is_mine_id env (up_user_id s) \<Longrightarrow> user_ok now h1 (up_user_id s)" by auto
  have dev: "the_devices u h1 = the_devices u h" for u by (simp add: the_devices_def one(4))
  have "\<forall>x \<in> set ss. update_ok env now h1 x"
    using Cons.prems(4) update_ok_timers [OF _ dev one(3)] by simp
  moreover have "\<forall>u. is_mine_id env u \<and> u \<notin> up_user_id ` set ss \<longrightarrow> user_ok now h1 u"
  proof (intro allI impI)
    fix u
    assume u: "is_mine_id env u \<and> u \<notin> up_user_id ` set ss"
    show "user_ok now h1 u"
    proof (cases "u = up_user_id s")
      case True
      with u one(6) show ?thesis by simp
    next
      case False
      then have "user_ok now h u" using Cons.prems(5) u by auto
      then show ?thesis by (rule user_ok_timers) (use one(3,5) False dev in simp_all)
    qed
  qed
  ultimately show ?case using Cons.IH [OF one(2) Cons.prems(2), of n1 p1] Cons.prems(3) one(1) by simp
qed (simp add: handler_ok_def)

text \<open>Only the last state given for a user counts.\<close>

definition last_states :: "user_presence list \<Rightarrow> user_presence list" where
  "last_states ss = map snd (dict_update [] (map (\<lambda>s. (up_user_id s, s)) ss))"

lemma dict_of_states:
  "distinct (map fst d) \<Longrightarrow> \<forall>(k, s) \<in> set d. up_user_id s = k \<Longrightarrow>
   (let d' = dict_update d (map (\<lambda>s. (up_user_id s, s)) ss)
    in distinct (map fst d') \<and> (\<forall>(k, s) \<in> set d'. up_user_id s = k) \<and> set (map snd d') \<subseteq> set (map snd d) \<union> set ss \<and>
       fst ` set d' = fst ` set d \<union> up_user_id ` set ss)"
proof (induction ss arbitrary: d)
  case (Cons s ss)
  let ?d = "AList.update (up_user_id s) s d"
  have u: "distinct (map fst ?d)" "fst ` set ?d = insert (up_user_id s) (fst ` set d)"
    using Cons.prems(1) by (simp_all add: AList.distinct_update AList.dom_update)
  have sub: "set ?d \<subseteq> insert (up_user_id s, s) (set d)"
    by (induction d) auto
  then have "\<forall>(k, s) \<in> set ?d. up_user_id s = k" using Cons.prems(2) by auto
  note IH = Cons.IH [OF u(1) this, unfolded Let_def u(2)]
  have eq: "dict_update d (map (\<lambda>s. (up_user_id s, s)) (s # ss)) = dict_update ?d (map (\<lambda>s. (up_user_id s, s)) ss)"
    by (simp add: dict_update_def)
  let ?e = "dict_update ?d (map (\<lambda>s. (up_user_id s, s)) ss)"
  have "set (map snd ?d) \<subseteq> insert s (set (map snd d))" using sub by force
  moreover have "set (map snd ?e) \<subseteq> set (map snd ?d) \<union> set ss" using IH by blast
  ultimately have "set (map snd ?e) \<subseteq> set (map snd d) \<union> set (s # ss)" unfolding list.simps(15) by blast
  moreover have "fst ` set ?e = fst ` set d \<union> up_user_id ` set (s # ss)" using IH by simp
  ultimately show ?case unfolding Let_def eq using IH by blast
qed (simp add: dict_update_def)

lemma last_states_facts:
  "distinct (map up_user_id (last_states ss))" "set (last_states ss) \<subseteq> set ss" "up_user_id ` set (last_states ss) = up_user_id ` set ss"
proof -
  let ?d = "dict_update [] (map (\<lambda>s. (up_user_id s, s)) ss)"
  have d: "distinct (map fst ?d)" "\<forall>(k, s) \<in> set ?d. up_user_id s = k" "set (map snd ?d) \<subseteq> set ss" "fst ` set ?d = up_user_id ` set ss"
    using dict_of_states [of "[]" ss] by (simp_all add: Let_def)
  have m: "map up_user_id (map snd ?d) = map fst ?d" using d(2) by auto
  show "distinct (map up_user_id (last_states ss))" unfolding last_states_def m by (rule d(1))
  show "set (last_states ss) \<subseteq> set ss" unfolding last_states_def by (rule d(3))
  show "up_user_id ` set (last_states ss) = up_user_id ` set ss"
    using d(4) m unfolding last_states_def by (metis list.set_map)
qed

text \<open>Notifying, persisting and sending do not touch states, devices or timers.\<close>

lemma handler_ok_writes [keeps_rules]:
  "keeps (handler_ok env c now) (writeA (\<lambda>h. h\<lparr>persisted := f h\<rparr>))"
  "keeps (handler_ok env c now) (writeA (\<lambda>h. h\<lparr>unpersisted := g h\<rparr>))"
  "keeps (handler_ok env c now) (writeA (\<lambda>h. h\<lparr>federation_queue := q h\<rparr>))"
  "keeps (handler_ok env c now) (writeA (\<lambda>h. h\<lparr>notified := k h\<rparr>))"
  "keeps (handler_ok env c now) (writeA (\<lambda>h. h\<lparr>num_current_syncs := n h\<rparr>))"
  "keeps (handler_ok env c now) (writeA (\<lambda>h. h\<lparr>external_syncs := e h\<rparr>))"
  "keeps (handler_ok env c now) (writeA (\<lambda>h. h\<lparr>external_last_updated := l h\<rparr>))"
  by (auto simp: keeps_def action_simps handler_ok_def base_ok_def user_ok_def state_of_def the_devices_def split: prod.splits)

lemma keeps_queueA [keeps_rules]: "keeps (handler_ok env c now) (queueA m)"
  by (auto simp: keeps_def state_after_def queueA_def handler_ok_def base_ok_def user_ok_def state_of_def the_devices_def split: prod.splits)

lemma keeps_forA [keeps_rules]: "(\<And>x. keeps P (f x)) \<Longrightarrow> keeps P (forA xs f)"
  by (induction xs) (simp_all add: keeps_rules)

lemma keeps_persist_and_notify [keeps_rules]: "keeps (handler_ok env c now) (persist_and_notify env' ss)"
  unfolding persist_and_notify_def maybe_send_presence_to_interested_destinations_def Let_def case_prod_beta
  by (intro keeps_rules)

lemma update_states_ok:
  assumes "base_ok env c now h" "now \<le> c + 170000" "\<forall>s \<in> set ss. update_ok env now h s"
    and "\<forall>u. is_mine_id env u \<and> u \<notin> up_user_id ` set ss \<longrightarrow> user_ok now h u"
  shows "handler_ok env c now (state_after (update_states env now ss force) h)"
proof -
  have en: "presence_enabled h" using assms(1) by (simp add: base_ok_def)
  have l: "\<forall>s \<in> set (last_states ss). update_ok env now h s" using assms(3) last_states_facts(2) by blast
  from update_fold_ok [OF assms(1,2) last_states_facts(1) l, of force "[]" "[]"] assms(4) obtain h1 n p where
    h1: "foldR (update_one env now force) (h, [], []) (last_states ss) = Inr (h1, n, p)" "handler_ok env c now h1"
    unfolding last_states_facts(3) by blast
  let ?m = "bindA (if n \<noteq> [] then persist_and_notify env (map snd n) else returnA ()) (\<lambda>_.
      bindA (writeA (\<lambda>h. h\<lparr>unpersisted := filter (\<lambda>u. u \<notin> fst ` set n) (remdups (unpersisted h @ map up_user_id (last_states ss)))\<rparr>)) (\<lambda>_.
        if filter (\<lambda>(u, _). u \<notin> fst ` set n) p = [] then returnA ()
        else bindA (liftA (get_interested_remotes env (map snd (filter (\<lambda>(u, _). u \<notin> fst ` set n) p)))) (\<lambda>hosts.
          forA hosts (\<lambda>(destinations, states). queueA (send_presence_to_destinations states destinations now)))))"
  have q: "keeps (handler_ok env c now) (case x of (destinations, states) \<Rightarrow> queueA (send_presence_to_destinations states destinations now))" for x
    by (cases x) (simp add: keeps_queueA)
  have "keeps (handler_ok env c now) ?m" by (intro keeps_rules q)
  then have "handler_ok env c now (state_after ?m h1)" using h1(2) by (auto simp: keeps_def)
  moreover have "update_states env now ss force h = ?m h1"
    using en h1(1) by (simp add: update_states_def Let_def last_states_def [symmetric])
  ultimately show ?thesis by (simp add: state_after_def)
qed

end
