(* ===== verification/Presence_Run.thy ===== *)
theory Presence_Run
  imports Presence_Props
begin

text \<open>
  Every method of the presence handler keeps its invariant, and what follows for the runs of a
  server: nobody stays online without activity.
\<close>

section \<open>Reading a state\<close>

text \<open>What an update of a user starts from: a state that fits, and the current one if it is online.\<close>

definition read_ok :: "surroundings \<Rightarrow> int \<Rightarrow> presence_handler \<Rightarrow> string \<Rightarrow> user_presence \<Rightarrow> bool" where
  "read_ok env now h u s \<longleftrightarrow> up_user_id s = u \<and>
     (is_mine_id env u \<longrightarrow> fits now (the_devices u h) s \<and> (up_state s = ONLINE \<longrightarrow> s = state_of h u))"

definition same_presence :: "presence_handler \<Rightarrow> presence_handler \<Rightarrow> bool" where
  "same_presence h h' \<longleftrightarrow> user_to_devices h' = user_to_devices h \<and> timers h' = timers h \<and> state_of h' = state_of h"

lemma same_presence_refl [simp]: "same_presence h h"
  by (simp add: same_presence_def)

lemma same_presence_trans: "same_presence h h' \<Longrightarrow> same_presence h' h'' \<Longrightarrow> same_presence h h''"
  by (simp add: same_presence_def)

lemma read_ok_same: "read_ok env now h u s \<Longrightarrow> same_presence h h' \<Longrightarrow> read_ok env now h' u s"
  by (simp add: read_ok_def same_presence_def the_devices_def)

lemma fits_offline:
  assumes "fits now ds s" "up_state s = OFFLINE" "up_state s' = OFFLINE" "0 \<le> up_last_active_ts s'" "up_last_active_ts s' \<le> now"
  shows "fits now ds s'"
proof -
  have "combine_device_states (map snd ds) = Inr OFFLINE" using assms(1,2) by (simp add: fits_def)
  then have "\<forall>d \<in> snd ` set ds. rank (dp_state d) \<le> 1" unfolding combine_device_states_spec by simp
  then have "\<forall>d \<in> snd ` set ds. dp_state d \<noteq> ONLINE" by force
  with assms show ?thesis by (simp add: fits_def)
qed

lemma user_ok_same: "user_ok now h u \<Longrightarrow> same_presence h h' \<Longrightarrow> user_ok now h' u"
  by (simp add: user_ok_def same_presence_def the_devices_def)

lemma handler_ok_same: "handler_ok env c now h \<Longrightarrow> base_ok env c now h' \<Longrightarrow> same_presence h h' \<Longrightarrow> handler_ok env c now h'"
  using user_ok_same by (auto simp: handler_ok_def)

lemma current_state_base:
  assumes "base_ok env c now h"
  shows "\<exists>s h'. current_state_for_user env u h = (Inr s, h') \<and> base_ok env c now h' \<and> same_presence h h' \<and> up_user_id s = u \<and>
    (s = state_of h u \<or> state_of h u = default_presence u \<and> row_ok env now u s)"
proof (cases "map_of (user_to_current_state h) u")
  case (Some s)
  with assms show ?thesis by (auto simp: current_state_for_user_def base_ok_def state_of_def)
next
  case None
  then have st: "state_of h u = default_presence u" by (simp add: state_of_def)
  show ?thesis
  proof (cases "get_presence_for_users env u")
    case (Some s)
    with None assms have "row_ok env now u s" by (auto simp: base_ok_def)
    with Some None assms st show ?thesis by (simp add: current_state_for_user_def row_ok_def)
  next
    case n: None
    let ?h = "h\<lparr>user_to_current_state := AList.update u (default_presence u) (user_to_current_state h)\<rparr>"
    have "state_of ?h = state_of h" using st by (auto simp: state_of_def fun_eq_iff)
    moreover have "base_ok env c now ?h" using assms by (auto simp: base_ok_def default_presence_def)
    ultimately show ?thesis using n None st by (simp add: current_state_for_user_def same_presence_def default_presence_def)
  qed
qed

lemma current_state_value:
  assumes "handler_ok env c now h"
  shows "\<exists>s h'. current_state_for_user env u h = (Inr s, h') \<and> handler_ok env c now h' \<and> same_presence h h' \<and> read_ok env now h u s"
proof -
  have b: "base_ok env c now h" using assms by (simp add: handler_ok_def)
  from current_state_base [OF b, of u] obtain s h' where s: "current_state_for_user env u h = (Inr s, h')" "base_ok env c now h'"
    "same_presence h h'" "up_user_id s = u" "s = state_of h u \<or> state_of h u = default_presence u \<and> row_ok env now u s" by blast
  have "fits now (the_devices u h) (state_of h u)" if "is_mine_id env u" using assms that by (simp add: handler_ok_def user_ok_def)
  then have "read_ok env now h u s"
    using s(4,5) fits_offline [of now "the_devices u h" "state_of h u" s] by (auto simp: read_ok_def row_ok_def default_presence_def)
  with s assms handler_ok_same show ?thesis by blast
qed

section \<open>Changing a device\<close>

lemma devices_changed:
  "the_devices v (change_device u i f h) =
     (if v = u then AList.update i (f (case map_of (the_devices u h) i of None \<Rightarrow> default_device u i | Some d \<Rightarrow> d)) (the_devices u h)
      else the_devices v h)"
  "state_of (change_device u i f h) v = state_of h v" "timers (change_device u i f h) = timers h"
  by (simp_all add: the_devices_def change_device_def Let_def state_of_def)

lemma base_ok_change [simp]: "base_ok env c now (change_device u i f h) = base_ok env c now h"
  by (simp add: base_ok_def change_device_def Let_def)

lemma change_device_others:
  assumes "handler_ok env c now h" "is_mine_id env v" "v \<noteq> u"
  shows "user_ok now (change_device u i f h) v"
  using assms by (simp add: handler_ok_def user_ok_def devices_changed)

lemma set_update: "set (AList.update k v xs) \<subseteq> insert (k, v) (set xs)"
  by (induction xs) auto

text \<open>Devices after a change of one of them: the changed one and others that were there.\<close>

lemma devices_of_change:
  assumes "d \<in> snd ` set (AList.update i x ds)"
  shows "d = x \<or> d \<in> snd ` set ds"
  using assms set_update [of i x ds] by force

lemma combine_known: "\<forall>d \<in> set ds. known_state (dp_state d) \<Longrightarrow> \<exists>p. combine_device_states ds = Inr p"
  using combine_fold [of OFFLINE ds "- 1"] by (force simp: combine_device_states_def combine_step_def)

lemma fits_known: "fits now ds s \<Longrightarrow> d \<in> snd ` set ds \<Longrightarrow> known_state (dp_state d)"
  unfolding fits_def combine_device_states_spec by auto

lemma known_device:
  assumes "fits now ds s"
  shows "known_state (dp_state (case map_of ds i of None \<Rightarrow> default_device u i | Some d \<Rightarrow> d))"
proof (cases "map_of ds i")
  case (Some d)
  then have "d \<in> snd ` set ds" by (metis map_of_SomeD imageI snd_conv)
  with fits_known [OF assms] Some show ?thesis by simp
qed (simp add: default_device_def)

text \<open>The combined state after a change to a known state, and a user state that fits it.\<close>

lemma fits_change:
  assumes "fits now ds s" "known_state (dp_state x)" "dp_last_active_ts x \<le> now" "up_state s' = p"
    and p: "combine_device_states (map snd (AList.update i x ds)) = Inr p"
    and la: "0 \<le> up_last_active_ts s'" "up_last_active_ts s' \<le> now" "p = ONLINE \<or> p = BUSY \<Longrightarrow> up_last_active_ts s' = now"
  shows "fits now (AList.update i x ds) s'"
proof -
  have "dp_last_active_ts d \<le> up_last_active_ts s'" if d: "d \<in> snd ` set (AList.update i x ds)" "dp_state d = ONLINE" for d
  proof -
    have "known_state p" "3 \<le> rank p" using p d unfolding combine_device_states_spec by auto
    then have "up_last_active_ts s' = now" using la(3) by (auto simp: known_state_def)
    then show ?thesis using devices_of_change [OF d(1)] assms(1,3) d(2) by (force simp: fits_def)
  qed
  with assms show ?thesis by (auto simp: fits_def)
qed

text \<open>Setting when a device last synced, which may create it, changes nothing else.\<close>

definition activity :: "device_presence \<Rightarrow> string \<times> int" where
  "activity d = (dp_state d, dp_last_active_ts d)"

lemma fits_activity:
  assumes "fits now ds s" "insert (OFFLINE, 0) (activity ` snd ` set ds') = insert (OFFLINE, 0) (activity ` snd ` set ds)"
  shows "fits now ds' s"
proof -
  have sub: "\<exists>d \<in> snd ` set ds. activity d = activity d'" if "d' \<in> snd ` set ds'" "activity d' \<noteq> (OFFLINE, 0)" for d'
  proof -
    have "activity d' \<in> insert (OFFLINE, 0) (activity ` snd ` set ds)" using that(1) unfolding assms(2) [symmetric] by blast
    with that(2) show ?thesis by force
  qed
  have sup: "\<exists>d' \<in> snd ` set ds'. activity d' = activity d" if "d \<in> snd ` set ds" "activity d \<noteq> (OFFLINE, 0)" for d
  proof -
    have "activity d \<in> insert (OFFLINE, 0) (activity ` snd ` set ds')" using that(1) unfolding assms(2) by blast
    with that(2) show ?thesis by force
  qed
  let ?p = "up_state s"
  have c: "\<And>d. d \<in> snd ` set ds \<Longrightarrow> known_state (dp_state d) \<and> rank (dp_state d) \<le> rank ?p" "?p = OFFLINE \<or> ?p \<in> dp_state ` snd ` set ds"
    using assms(1) unfolding fits_def combine_device_states_spec by auto
  then have "known_state ?p" by (elim disjE imageE) (simp, metis imageI)
  then have p1: "1 \<le> rank ?p" by (rule rank_pos)
  have "known_state (dp_state d') \<and> rank (dp_state d') \<le> rank ?p" if d: "d' \<in> snd ` set ds'" for d'
  proof (cases "activity d' = (OFFLINE, 0)")
    case False
    from sub [OF d False] obtain d where "d \<in> snd ` set ds" "activity d = activity d'" by blast
    with c(1) [of d] show ?thesis by (simp add: activity_def)
  qed (use p1 in \<open>simp add: activity_def\<close>)
  moreover have "?p = OFFLINE \<or> ?p \<in> dp_state ` snd ` set ds'"
  proof (cases "?p = OFFLINE")
    case False
    with c(2) have "?p \<in> dp_state ` snd ` set ds" by simp
    then obtain d where d: "?p = dp_state d" "d \<in> snd ` set ds" by (rule imageE)
    with False sup [of d] obtain d' where d': "d' \<in> snd ` set ds'" "activity d' = activity d" by (auto simp: activity_def)
    then have "?p = dp_state d'" using d(1) by (simp add: activity_def)
    with d'(1) show ?thesis by (intro disjI2) (simp only: imageI)
  qed simp
  moreover have "dp_last_active_ts d' \<le> up_last_active_ts s" if d: "d' \<in> snd ` set ds'" "dp_state d' = ONLINE" for d'
  proof -
    from sub [OF d(1)] d(2) obtain d where "d \<in> snd ` set ds" "activity d = activity d'" by (auto simp: activity_def)
    with assms(1) d(2) show ?thesis by (auto simp: fits_def activity_def)
  qed
  ultimately show ?thesis using assms(1) unfolding fits_def combine_device_states_spec by auto
qed

lemma activity_sync [simp]: "activity (d\<lparr>dp_last_sync_ts := t\<rparr>) = activity d"
  by (simp add: activity_def)

lemma activity_update:
  "activity ` snd ` set (AList.update i ((case map_of ds i of None \<Rightarrow> z | Some d \<Rightarrow> d)\<lparr>dp_last_sync_ts := t\<rparr>) ds) =
   (case map_of ds i of None \<Rightarrow> insert (activity z) (activity ` snd ` set ds) | Some _ \<Rightarrow> activity ` snd ` set ds)"
proof (induction ds)
  case (Cons d ds)
  show ?case
  proof (cases "fst d = i")
    case False
    with Cons show ?thesis by (simp add: insert_commute split: option.splits)
  qed simp
qed simp

lemma fits_sync:
  assumes "fits now ds s"
  shows "fits now (AList.update i ((case map_of ds i of None \<Rightarrow> default_device u i | Some d \<Rightarrow> d)\<lparr>dp_last_sync_ts := t\<rparr>) ds) s"
proof (rule fits_activity [OF assms])
  have "activity (default_device u i) = (OFFLINE, 0)" by (simp add: activity_def default_device_def)
  then show "insert (OFFLINE, 0) (activity ` snd ` set (AList.update i ((case map_of ds i of None \<Rightarrow> default_device u i | Some d \<Rightarrow> d)
      \<lparr>dp_last_sync_ts := t\<rparr>) ds)) = insert (OFFLINE, 0) (activity ` snd ` set ds)"
    unfolding activity_update by (simp split: option.split)
qed

lemma keeps_sync_device [keeps_rules]:
  "keeps (handler_ok env c now) (writeA (change_device u i (\<lambda>d. d\<lparr>dp_last_sync_ts := t\<rparr>)))"
  using fits_sync by (auto simp: keeps_def action_simps handler_ok_def user_ok_def devices_changed)

section \<open>Operations\<close>

lemma update_user_ok:
  assumes "base_ok env c now h" "now \<le> c + 170000" "\<And>v. is_mine_id env v \<Longrightarrow> v \<noteq> up_user_id s \<Longrightarrow> user_ok now h v"
    and "update_ok env now h s"
  shows "handler_ok env c now (state_after (update_states env now [s] force) h)"
  by (rule update_states_ok) (use assms in auto)

text \<open>A state that was read can be written back with other times of synchronisation.\<close>

lemma read_update_ok:
  assumes "handler_ok env c now h" "read_ok env now h u s"
  shows "update_ok env now h (s\<lparr>up_last_user_sync_ts := t\<rparr>)"
  using assms by (auto simp: update_ok_def read_ok_def fits_def handler_ok_def user_ok_def)

lemma read_write_ok:
  assumes "handler_ok env c now h" "now \<le> c + 170000" "read_ok env now h u s"
  shows "handler_ok env c now (state_after (update_states env now [s\<lparr>up_last_user_sync_ts := t\<rparr>] force) h)"
  by (rule update_user_ok) (use assms read_update_ok in \<open>auto simp: handler_ok_def\<close>)

text \<open>
  A device became active: \<open>x\<close> is the device now, \<open>s p\<close> the new state of the user if the combined
  one is \<open>p\<close>.  A user that is online or busy was active now.
\<close>

lemma active_device_ok:
  assumes "handler_ok env c now h" "now \<le> c + 170000" "base_ok env c now h'"
    and h': "timers h' = timers h" "state_of h' = state_of h" "\<And>v. v \<noteq> u \<Longrightarrow> the_devices v h' = the_devices v h"
      "the_devices u h' = AList.update i x (the_devices u h)"
    and x: "is_mine_id env u \<Longrightarrow> known_state (dp_state x)" "dp_last_active_ts x \<le> now"
    and s: "\<And>p. up_user_id (s p) = u" "\<And>p. up_state (s p) = p"
      "\<And>p. is_mine_id env u \<Longrightarrow> 0 \<le> up_last_active_ts (s p) \<and> up_last_active_ts (s p) \<le> now"
      "\<And>p. p = ONLINE \<or> p = BUSY \<Longrightarrow> up_last_active_ts (s p) = now"
  shows "handler_ok env c now (state_after (bindA (liftA (combine_device_states (map snd (the_devices u h')))) (\<lambda>p.
    update_states env now [s p] force)) h')"
proof -
  have others: "user_ok now h' v" if "is_mine_id env v" "v \<noteq> u" for v
    using assms(1) h' that by (simp add: handler_ok_def user_ok_def)
  have f: "fits now (the_devices u h) (state_of h u)" if "is_mine_id env u" using assms(1) that by (simp add: handler_ok_def user_ok_def)
  show ?thesis
  proof (cases "combine_device_states (map snd (the_devices u h'))")
    case (Inl e)
    have "\<not> is_mine_id env u"
    proof
      assume m: "is_mine_id env u"
      have "known_state (dp_state d)" if "d \<in> snd ` set (the_devices u h')" for d
        using devices_of_change [of d i x] that x(1) [OF m] fits_known [OF f [OF m]] unfolding h'(4) by blast
      with combine_known [of "map snd (the_devices u h')"] Inl show False by force
    qed
    with Inl others assms(3) show ?thesis by (auto simp: action_simps handler_ok_def)
  next
    case (Inr p)
    have "fits now (the_devices u h') (s p)" if m: "is_mine_id env u"
      using fits_change [OF f [OF m] x(1) [OF m] x(2) s(2)] Inr s m unfolding h'(4) by blast
    then have "update_ok env now h' (s p)" using s by (auto simp: update_ok_def IDLE_TIMER_def)
    with Inr update_user_ok [OF assms(3,2), of "s p"] others s(1) show ?thesis by (simp add: action_simps)
  qed
qed

lemma state_after_eq: "m h = (r, h') \<Longrightarrow> state_after m h = h' \<and> result_of m h = r"
  by (simp add: state_after_def result_of_def)

lemma bump_keeps [keeps_rules]:
  assumes "now \<le> c + 170000"
  shows "keeps (handler_ok env c now) (bump_presence_active_time env u i now)"
  unfolding keeps_def
proof (intro allI impI)
  fix h
  assume ok: "handler_ok env c now h"
  let ?f = "\<lambda>d. d\<lparr>dp_last_active_ts := now, dp_state := if dp_state d = UNAVAILABLE then ONLINE else dp_state d\<rparr>"
  let ?h = "change_device u i ?f h"
  let ?d = "case map_of (the_devices u h) i of None \<Rightarrow> default_device u i | Some d \<Rightarrow> d"
  have tr: "track_presence h" and now: "0 \<le> now" and b: "base_ok env c now ?h"
    using ok by (auto simp: handler_ok_def base_ok_def wheel_at_def change_device_def Let_def)
  from current_state_base [OF b, of u] obtain prev h' where
    c: "current_state_for_user env u ?h = (Inr prev, h')" "base_ok env c now h'" "same_presence ?h h'" "up_user_id prev = u" by blast
  note c' = state_after_eq [of "current_state_for_user env u", OF c(1)]
  have d: "known_state (dp_state ?d)" if "is_mine_id env u"
    using ok that known_device [of now "the_devices u h" "state_of h u" u i] by (simp add: handler_ok_def user_ok_def)
  have dev: "the_devices v h' = the_devices v ?h" for v using c(3) by (simp add: same_presence_def the_devices_def)
  have "handler_ok env c now (state_after (bindA (liftA (combine_device_states (map snd (the_devices u h')))) (\<lambda>p.
      update_states env now [prev\<lparr>up_last_active_ts := now, up_state := p\<rparr>] False)) h')"
    by (rule active_device_ok [OF ok assms c(2), where i = i and x = "?f ?d" and s = "\<lambda>p. prev\<lparr>up_last_active_ts := now, up_state := p\<rparr>"])
      (use c(3,4) d now in \<open>simp_all add: dev devices_changed same_presence_def fun_eq_iff\<close>)
  then show "handler_ok env c now (state_after (bump_presence_active_time env u i now) h)"
    using tr c' by (simp add: bump_presence_active_time_def action_simps)
qed

lemma set_state_keeps [keeps_rules]:
  assumes "now \<le> c + 170000"
  shows "keeps (handler_ok env c now) (set_state env u i presence status_msg force_notify is_sync now)"
  unfolding keeps_def
proof (intro allI impI)
  fix h
  assume ok: "handler_ok env c now h"
  let ?ok = "presence \<in> set ([ONLINE, UNAVAILABLE, OFFLINE] @ (if busy_enabled h then [BUSY] else []))"
  show "handler_ok env c now (state_after (set_state env u i presence status_msg force_notify is_sync now) h)"
  proof (cases ?ok)
    case False
    then have "guardR ?ok (SynapseError 400) = Inl (SynapseError 400)" by (simp add: guardR_def)
    with ok show ?thesis by (simp add: set_state_def action_simps)
  next
    case True
    from current_state_value [OF ok, of u] obtain prev h1 where
      c: "current_state_for_user env u h = (Inr prev, h1)" "handler_ok env c now h1" "same_presence h h1" "read_ok env now h u prev" by blast
    note c' = state_after_eq [of "current_state_for_user env u", OF c(1)]
    let ?f = "\<lambda>d. d\<lparr>dp_state := (if up_state prev = BUSY \<and> is_sync then BUSY else presence), dp_last_active_ts := now,
             dp_last_sync_ts := (if is_sync then now else dp_last_sync_ts d)\<rparr>"
    let ?h = "change_device u i ?f h1"
    let ?d = "case map_of (the_devices u h1) i of None \<Rightarrow> default_device u i | Some d \<Rightarrow> d"
    let ?s = "\<lambda>p. prev\<lparr>up_state := p, up_last_active_ts := (if p = ONLINE \<or> p = BUSY then now else up_last_active_ts prev),
                up_last_user_sync_ts := (if is_sync then now else up_last_user_sync_ts prev),
                up_status_msg := (if is_sync then up_status_msg prev else status_msg)\<rparr>"
    have tr: "track_presence h" and now: "0 \<le> now" and b: "base_ok env c now ?h"
      using ok c(2) by (auto simp: handler_ok_def base_ok_def wheel_at_def change_device_def Let_def)
    have k: "known_state (dp_state (?f ?d))" using True by (auto split: if_splits)
    have la: "0 \<le> up_last_active_ts prev \<and> up_last_active_ts prev \<le> now" if "is_mine_id env u"
      using c(4) that by (simp add: read_ok_def fits_def)
    have "handler_ok env c now (state_after (bindA (liftA (combine_device_states (map snd (the_devices u ?h)))) (\<lambda>p.
        update_states env now [?s p] force_notify)) ?h)"
      by (rule active_device_ok [OF c(2) assms b, where i = i and x = "?f ?d" and s = ?s])
        (use k la now c(4) in \<open>simp_all add: devices_changed fun_eq_iff read_ok_def\<close>)
    moreover have "guardR ?ok (SynapseError 400) = Inr ()" using True by (simp add: guardR_def)
    ultimately show ?thesis using tr c' by (simp add: set_state_def action_simps)
  qed
qed

lemma user_syncing_keeps [keeps_rules]:
  "now \<le> c + 170000 \<Longrightarrow> keeps (handler_ok env c now) (user_syncing env u i affect_presence presence now)"
  unfolding user_syncing_def by (intro keeps_rules)

text \<open>Reading a state and doing something with it that relies on its being current.\<close>

lemma keeps_read:
  assumes "\<And>h s. handler_ok env c now h \<Longrightarrow> read_ok env now h u s \<Longrightarrow> handler_ok env c now (state_after (f s) h)"
  shows "keeps (handler_ok env c now) (bindA (current_state_for_user env u) f)"
  unfolding keeps_def
proof (intro allI impI)
  fix h
  assume ok: "handler_ok env c now h"
  from current_state_value [OF ok, of u] obtain s h1 where
    c: "current_state_for_user env u h = (Inr s, h1)" "handler_ok env c now h1" "same_presence h h1" "read_ok env now h u s" by blast
  have "handler_ok env c now (state_after (f s) h1)" by (rule assms) (use c read_ok_same in blast)+
  then show "handler_ok env c now (state_after (bindA (current_state_for_user env u) f) h)"
    using state_after_eq [of "current_state_for_user env u", OF c(1)] by (simp add: action_simps)
qed

lemma user_syncing_end_ok:
  assumes "handler_ok env c now h" "now \<le> c + 170000"
  shows "handler_ok env c now (user_syncing_end env u i now h)"
proof (cases "map_of (num_current_syncs h) (u, i)")
  case (Some n)
  let ?h = "h\<lparr>num_current_syncs := AList.update (u, i) (n - 1) (num_current_syncs h)\<rparr>"
  have "keeps (handler_ok env c now) (bindA (current_state_for_user env u) (\<lambda>prev.
      update_states env now [prev\<lparr>up_last_user_sync_ts := now\<rparr>] False))"
    by (rule keeps_read) (rule read_write_ok [OF _ assms(2)])
  moreover have "handler_ok env c now ?h"
    using assms(1) by (auto simp: handler_ok_def base_ok_def user_ok_def state_of_def the_devices_def)
  ultimately show ?thesis using Some by (simp add: user_syncing_end_def keeps_def)
qed (use assms in \<open>simp add: user_syncing_end_def\<close>)

section \<open>Other processes and servers\<close>

lemma set_process_ok [simp]:
  "handler_ok env c now (set_process p syncs h) = handler_ok env c now h"
  "read_ok env now (set_process p syncs h) u s = read_ok env now h u s"
  by (simp_all add: set_process_def handler_ok_def base_ok_def user_ok_def read_ok_def state_of_def the_devices_def)

lemma keeps_set_process [keeps_rules]: "keeps (handler_ok env c now) (writeA (set_process p syncs))"
  by (simp add: keeps_def action_simps)

lemma read_ok_sync: "read_ok env now h u s \<Longrightarrow> read_ok env now (change_device u i (\<lambda>d. d\<lparr>dp_last_sync_ts := t\<rparr>) h) u s"
  using fits_sync by (auto simp: read_ok_def devices_changed)

text \<open>An action that relies on a state having been read, followed by one that does not.\<close>

lemma bind_ok:
  assumes "handler_ok env c now (state_after m h)" "\<And>x. keeps (handler_ok env c now) (f x)"
  shows "handler_ok env c now (state_after (bindA m f) h)"
  using assms by (auto simp: action_simps keeps_def split: sum.split)

lemma external_row_keeps [keeps_rules]:
  assumes "now \<le> c + 170000"
  shows "keeps (handler_ok env c now) (update_external_syncs_row env p u i is_syncing sync_time now)"
  unfolding update_external_syncs_row_def
proof (rule keeps_read)
  fix h s
  assume ok: "handler_ok env c now h" "read_ok env now h u s"
  let ?h = "set_process p (the_process p h) h" let ?syncs = "the_process p ?h"
  let ?sync = "change_device u i (\<lambda>d. d\<lparr>dp_last_sync_ts := sync_time\<rparr>)"
  let ?upd = "bindA (update_states env now [s\<lparr>up_last_user_sync_ts := sync_time\<rparr>] False) (\<lambda>_. writeA (set_process p (removeAll (u, i) ?syncs)))"
  let ?m = "if is_syncing \<and> (u, i) \<notin> set ?syncs then writeA (set_process p (?syncs @ [(u, i)]))
            else if \<not> is_syncing \<and> (u, i) \<in> set ?syncs then bindA (writeA ?sync) (\<lambda>_. ?upd) else returnA ()"
  have "handler_ok env c now (?sync ?h)" using keepsD [OF keeps_sync_device, of env c now ?h] ok by (simp add: action_simps)
  then have "handler_ok env c now (state_after (update_states env now [s\<lparr>up_last_user_sync_ts := sync_time\<rparr>] False) (?sync ?h))"
    by (rule read_write_ok [OF _ assms]) (rule read_ok_sync, simp add: ok)
  then have "handler_ok env c now (state_after ?upd (?sync ?h))" by (rule bind_ok) (rule keeps_rules)
  then have m: "handler_ok env c now (state_after ?m ?h)" using ok by (simp add: action_simps)
  show "handler_ok env c now (state_after (bindA (writeA (\<lambda>h. set_process p (the_process p h) h)) (\<lambda>_.
     bindA (readA (the_process p)) (\<lambda>syncs.
     bindA (if is_syncing \<and> (u, i) \<notin> set syncs then writeA (set_process p (syncs @ [(u, i)]))
            else if \<not> is_syncing \<and> (u, i) \<in> set syncs then
              bindA (writeA (change_device u i (\<lambda>d. d\<lparr>dp_last_sync_ts := sync_time\<rparr>))) (\<lambda>_.
              bindA (update_states env now [s\<lparr>up_last_user_sync_ts := sync_time\<rparr>] False) (\<lambda>_.
                writeA (set_process p (removeAll (u, i) syncs))))
            else returnA ()) (\<lambda>_.
       writeA (\<lambda>h. h\<lparr>external_last_updated := AList.update p now (external_last_updated h)\<rparr>))))) h)"
    using bind_ok [OF m, of "\<lambda>_. writeA (\<lambda>h. h\<lparr>external_last_updated := AList.update p now (external_last_updated h)\<rparr>)"] handler_ok_writes(7)
    by (simp only: state_after_bindA basic_actions sum.case)
qed

lemma read_states_value:
  assumes "handler_ok env c now h"
  shows "\<exists>ss h'. read_states env us h = (Inr ss, h') \<and> handler_ok env c now h' \<and> same_presence h h' \<and>
    (\<forall>s \<in> set ss. read_ok env now h (up_user_id s) s)"
  using assms
proof (induction us arbitrary: h)
  case (Cons u us)
  from current_state_value [OF Cons.prems, of u] obtain s h1 where
    c: "current_state_for_user env u h = (Inr s, h1)" "handler_ok env c now h1" "same_presence h h1" "read_ok env now h u s" by blast
  from Cons.IH [OF c(2)] obtain ss h' where r: "read_states env us h1 = (Inr ss, h')" "handler_ok env c now h'" "same_presence h1 h'"
    "\<forall>s \<in> set ss. read_ok env now h1 (up_user_id s) s" by blast
  have id: "up_user_id s = u" using c(4) by (simp add: read_ok_def)
  have sp: "same_presence h1 h" using c(3) by (simp add: same_presence_def)
  have "\<forall>x \<in> set (s # ss). read_ok env now h (up_user_id x) x" using c(4) id r(4) read_ok_same [OF _ sp] by simp
  then show ?case using c(1) r(1,2) same_presence_trans [OF c(3) r(3)] by (simp add: bindA_def returnA_def)
qed (simp add: returnA_def)

lemma external_clear_keeps [keeps_rules]:
  assumes "now \<le> c + 170000"
  shows "keeps (handler_ok env c now) (update_external_syncs_clear env p now)"
proof -
  have fold: "handler_ok env c now (fold (\<lambda>(u, i). change_device u i (\<lambda>d. d\<lparr>dp_last_sync_ts := now\<rparr>)) syncs h)"
    if "handler_ok env c now h" for syncs h
    using that
  proof (induction syncs arbitrary: h)
    case (Cons x xs)
    have "handler_ok env c now (change_device (fst x) (snd x) (\<lambda>d. d\<lparr>dp_last_sync_ts := now\<rparr>) h)"
      using keepsD [OF keeps_sync_device Cons.prems, of "fst x" "snd x" now] by (simp add: action_simps)
    from Cons.IH [OF this] show ?case by (simp add: case_prod_unfold)
  qed simp
  then have dev: "keeps (handler_ok env c now) (writeA (\<lambda>h. fold (\<lambda>(u, i). change_device u i (\<lambda>d. d\<lparr>dp_last_sync_ts := now\<rparr>)) syncs h))" for syncs
    by (simp add: keeps_def action_simps)
  have upd: "keeps (handler_ok env c now) (bindA (read_states env us) (\<lambda>prevs.
      bindA (update_states env now (map (\<lambda>s. s\<lparr>up_last_user_sync_ts := now\<rparr>) prevs) False) (\<lambda>_.
        writeA (\<lambda>h. h\<lparr>external_last_updated := AList.delete p (external_last_updated h)\<rparr>))))" for us
    unfolding keeps_def
  proof (intro allI impI)
    fix h
    assume ok: "handler_ok env c now h"
    from read_states_value [OF ok, of us] obtain ss h' where r: "read_states env us h = (Inr ss, h')" "handler_ok env c now h'"
      "\<forall>s \<in> set ss. read_ok env now h' (up_user_id s) s" using read_ok_same by blast
    have "handler_ok env c now (state_after (update_states env now (map (\<lambda>s. s\<lparr>up_last_user_sync_ts := now\<rparr>) ss) False) h')"
      by (rule update_states_ok) (use assms r read_update_ok in \<open>auto simp: handler_ok_def\<close>)
    from bind_ok [OF this, OF handler_ok_writes(7), of "\<lambda>_ h. AList.delete p (external_last_updated h)"]
    show "handler_ok env c now (state_after (bindA (read_states env us) (\<lambda>prevs.
      bindA (update_states env now (map (\<lambda>s. s\<lparr>up_last_user_sync_ts := now\<rparr>) prevs) False) (\<lambda>_.
        writeA (\<lambda>h. h\<lparr>external_last_updated := AList.delete p (external_last_updated h)\<rparr>)))) h)"
      using state_after_eq [of "read_states env us", OF r(1)] by (simp add: state_after_bindA)
  qed
  show ?thesis unfolding update_external_syncs_clear_def
    by (intro keeps_rules dev upd)
qed

lemma pushed_value:
  assumes "handler_ok env c now h"
  shows "handler_ok env c now (state_after (pushed_states env origin now ps) h) \<and>
    (\<forall>ss. result_of (pushed_states env origin now ps) h = Inr ss \<longrightarrow> (\<forall>s \<in> set ss. get_domain_from_id (up_user_id s) = Inr origin))"
  using assms
proof (induction ps arbitrary: h)
  case (Cons p ps)
  show ?case
  proof (cases "pu_user_id p = None \<or> pu_user_id p = Some [] \<or> get_domain_from_id (the (pu_user_id p)) \<noteq> Inr origin \<or>
      pu_presence p = None \<or> pu_presence p = Some []")
    case True
    with Cons show ?thesis by (auto simp: action_simps split: option.split sum.split)
  next
    case False
    then obtain u s where p: "pu_user_id p = Some u" "u \<noteq> []" "get_domain_from_id u = Inr origin" "pu_presence p = Some s" "s \<noteq> []" by auto
    from current_state_value [OF Cons.prems, of u] obtain prev h1 where
      c: "current_state_for_user env u h = (Inr prev, h1)" "handler_ok env c now h1" "read_ok env now h u prev" by blast
    then have id: "up_user_id prev = u" by (simp add: read_ok_def)
    from Cons.IH [OF c(2)] show ?thesis
      using state_after_eq [of "current_state_for_user env u", OF c(1)] p id by (auto simp: action_simps split: sum.splits)
  qed
qed (simp add: action_simps)

lemma incoming_keeps:
  assumes "now \<le> c + 170000" "\<And>u. get_domain_from_id u = Inr origin \<Longrightarrow> \<not> is_mine_id env u"
  shows "keeps (handler_ok env c now) (incoming_presence env origin pushes now)"
  unfolding keeps_def
proof (intro allI impI)
  fix h
  assume ok: "handler_ok env c now h"
  let ?m = "pushed_states env origin now pushes"
  note p = pushed_value [OF ok, of origin pushes]
  have "handler_ok env c now (state_after (update_states env now ss False) (state_after ?m h))" if "result_of ?m h = Inr ss" for ss
  proof (rule update_states_ok)
    show "\<forall>s \<in> set ss. update_ok env now (state_after ?m h) s" using p that assms(2) by (auto simp: update_ok_def)
  qed (use p assms(1) in \<open>auto simp: handler_ok_def\<close>)
  then show "handler_ok env c now (state_after (incoming_presence env origin pushes now) h)"
    using p ok by (auto simp: incoming_presence_def action_simps split: sum.split)
qed

lemma persist_keeps [keeps_rules]: "keeps (handler_ok env c now) persist_unpersisted_changes"
  unfolding persist_unpersisted_changes_def by (intro keeps_rules)

section \<open>Timeouts\<close>

lemma timed_out_devices:
  assumes "time_out_devices user syncing now ds = (ds', changed)"
  shows "\<forall>d' \<in> snd ` set ds'. (\<exists>d \<in> snd ` set ds. d' = d \<or> d' = d\<lparr>dp_state := UNAVAILABLE\<rparr>) \<and>
      (dp_state d' = ONLINE \<longrightarrow> now \<le> dp_last_active_ts d' + IDLE_TIMER)"
    and "\<not> changed \<Longrightarrow> ds' = ds"
proof -
  let ?idled = "map (\<lambda>(i, d). (i, idle_device now d)) ds"
  let ?gone = "\<lambda>(i, d, _ :: bool). device_gone user syncing now i d"
  have ds': "ds' = map (\<lambda>(i, d, _). (i, d)) (filter (\<lambda>x. \<not> ?gone x) ?idled)" and
    ch: "changed = list_ex (\<lambda>x. snd (snd x) \<or> ?gone x) ?idled"
    using assms by (auto simp: time_out_devices_def Let_def)
  have "(\<exists>d \<in> snd ` set ds. d' = d \<or> d' = d\<lparr>dp_state := UNAVAILABLE\<rparr>) \<and>
      (dp_state d' = ONLINE \<longrightarrow> now \<le> dp_last_active_ts d' + IDLE_TIMER)" if d': "d' \<in> snd ` set ds'" for d'
  proof -
    from d' obtain i d where d: "(i, d) \<in> set ds" "d' = fst (idle_device now d)" unfolding ds' by (auto dest: arg_cong [of _ _ fst])
    then have "d \<in> snd ` set ds" by force
    with d(2) show ?thesis by (auto simp: idle_device_def)
  qed
  then show "\<forall>d' \<in> snd ` set ds'. (\<exists>d \<in> snd ` set ds. d' = d \<or> d' = d\<lparr>dp_state := UNAVAILABLE\<rparr>) \<and>
      (dp_state d' = ONLINE \<longrightarrow> now \<le> dp_last_active_ts d' + IDLE_TIMER)" by blast
  assume "\<not> changed"
  then have no: "\<forall>x \<in> set ?idled. \<not> snd (snd x) \<and> \<not> ?gone x" unfolding ch list_ex_iff by blast
  then have f: "filter (\<lambda>x. \<not> ?gone x) ?idled = ?idled" by (intro filter_True) blast
  have "(case x of (i, d) \<Rightarrow> (i, fst (idle_device now d))) = x" if "x \<in> set ds" for x
  proof -
    obtain i d where x: "x = (i, d)" by force
    with no that have "\<not> snd (idle_device now d)" by auto
    then show ?thesis by (auto simp: x idle_device_def split: if_splits)
  qed
  then have "map (\<lambda>(i, d). (i, fst (idle_device now d))) ds = ds" by (intro map_idI) blast
  then show "ds' = ds" unfolding ds' f by (simp add: case_prod_unfold comp_def)
qed

text \<open>What a timeout leaves a local user with: no change, or a new state for the remaining devices.\<close>

definition outcome :: "int \<Rightarrow> user_presence \<Rightarrow> devices \<Rightarrow> user_presence option \<Rightarrow> bool" where
  "outcome now s ds new \<longleftrightarrow>
     (case new of
        None \<Rightarrow> fits now ds s \<and> (up_state s = ONLINE \<longrightarrow> now \<le> up_last_active_ts s + LAST_ACTIVE_GRANULARITY)
      | Some n \<Rightarrow> up_user_id n = up_user_id s \<and> fits now ds n \<and> (up_state n = ONLINE \<longrightarrow> now \<le> up_last_active_ts n + IDLE_TIMER))"

lemma timeout_value:
  assumes f: "fits now ds s"
  shows "\<exists>new ds'. handle_timeout s True syncing ds now = Inr (new, ds') \<and> outcome now s ds' new \<and> (ds = [] \<longrightarrow> ds' = [])"
proof (cases "up_state s = OFFLINE")
  case True
  with assms show ?thesis by (simp add: handle_timeout_def outcome_def)
next
  case False
  obtain ds' changed where t: "time_out_devices (up_user_id s) syncing now ds = (ds', changed)" by force
  note out = timed_out_devices [OF t]
  have old: "\<exists>d \<in> snd ` set ds. d' = d \<or> d' = d\<lparr>dp_state := UNAVAILABLE\<rparr>" if "d' \<in> snd ` set ds'" for d'
    using out(1) that by blast
  have "known_state (dp_state d')" if "d' \<in> snd ` set ds'" for d' using old [OF that] fits_known [OF f] by auto
  then obtain p where p: "combine_device_states (map snd ds') = Inr p" using combine_known [of "map snd ds'"] by auto
  let ?p = "if changed then combine_device_states (map snd ds') else Inr (up_state s)"
  have pp: "?p = Inr p" using p out(2) f by (auto simp: fits_def)
  have active: "dp_last_active_ts d' \<le> up_last_active_ts s" if d': "d' \<in> snd ` set ds'" "dp_state d' = ONLINE" for d'
  proof -
    from old [OF d'(1)] d'(2) have "d' \<in> snd ` set ds" by auto
    with f d'(2) show ?thesis by (auto simp: fits_def)
  qed
  have fit: "fits now ds' (s\<lparr>up_state := p\<rparr>)" using f p active by (auto simp: fits_def)
  have recent: "now \<le> up_last_active_ts s + IDLE_TIMER" if "p = ONLINE"
  proof -
    from p that have "ONLINE \<in> dp_state ` snd ` set ds'" unfolding combine_device_states_spec by simp
    then obtain d where d: "ONLINE = dp_state d" "d \<in> snd ` set ds'" by (rule imageE)
    have "now \<le> dp_last_active_ts d + IDLE_TIMER" using bspec [OF out(1) d(2)] d(1) by simp
    with active [OF d(2) d(1) [symmetric]] show ?thesis by simp
  qed
  let ?changes = "p \<noteq> up_state s \<or> now - up_last_active_ts s > LAST_ACTIVE_GRANULARITY \<or>
      now - up_last_federation_update_ts s > FEDERATION_PING_INTERVAL"
  have eq: "handle_timeout s True syncing ds now = Inr (if ?changes then Some (s\<lparr>up_state := p\<rparr>) else None, ds')"
    using False by (simp add: handle_timeout_def t pp)
  have "outcome now s ds' (if ?changes then Some (s\<lparr>up_state := p\<rparr>) else None)"
    using fit recent by (auto simp: outcome_def fits_def)
  moreover have "ds = [] \<longrightarrow> ds' = []" using t by (auto simp: time_out_devices_def)
  ultimately show ?thesis using eq by blast
qed

definition lookup_devices :: "(string \<times> devices) list \<Rightarrow> string \<Rightarrow> devices" where
  "lookup_devices devs u = (case map_of devs u of None \<Rightarrow> [] | Some ds \<Rightarrow> ds)"

lemma lookup_the_devices: "the_devices u h = lookup_devices (user_to_devices h) u"
  by (simp add: the_devices_def lookup_devices_def)

definition timeout_step ::
  "(string \<Rightarrow> bool) \<Rightarrow> syncing \<Rightarrow> int \<Rightarrow> (string \<times> user_presence) list \<times> (string \<times> devices) list \<Rightarrow> user_presence
   \<Rightarrow> ((string \<times> user_presence) list \<times> (string \<times> devices) list) result" where
  "timeout_step mine syncing now = (\<lambda>(changes, devs) s.
     bindR (handle_timeout s (mine (up_user_id s)) syncing (lookup_devices devs (up_user_id s)) now) (\<lambda>(new, ds).
       Inr (case new of None \<Rightarrow> changes | Some n \<Rightarrow> AList.update (up_user_id s) n changes,
            case map_of devs (up_user_id s) of None \<Rightarrow> devs | Some _ \<Rightarrow> AList.update (up_user_id s) ds devs)))"

lemma handle_timeouts_step:
  "handle_timeouts states mine syncing devs now =
     bindR (foldR (timeout_step mine syncing now) ([], devs) states) (\<lambda>(changes, devs). Inr (map snd changes, devs))"
  by (simp add: handle_timeouts_def timeout_step_def lookup_devices_def)

text \<open>The changes so far: at most one for each user.\<close>

definition changes_ok :: "(string \<times> user_presence) list \<Rightarrow> bool" where
  "changes_ok cs \<longleftrightarrow> distinct (map fst cs) \<and> (\<forall>x \<in> set cs. up_user_id (snd x) = fst x)"

lemma changes_ok_update:
  assumes "changes_ok cs" "up_user_id n = u"
  shows "changes_ok (AList.update u n cs)"
proof -
  have "x \<in> set (AList.update u n cs) \<Longrightarrow> up_user_id (snd x) = fst x" for x
    using set_update [of u n cs] assms unfolding changes_ok_def by fastforce
  with assms show ?thesis by (auto simp: changes_ok_def AList.distinct_update)
qed

lemma timeout_step_value:
  assumes "mine (up_user_id s) \<Longrightarrow> fits now (lookup_devices devs (up_user_id s)) s" "changes_ok cs"
  shows "\<exists>cs' devs'. timeout_step mine syncing now (cs, devs) s = Inr (cs', devs') \<and> changes_ok cs' \<and>
    (\<forall>u. u \<noteq> up_user_id s \<longrightarrow> lookup_devices devs' u = lookup_devices devs u \<and> map_of cs' u = map_of cs u) \<and>
    (mine (up_user_id s) \<and> map_of cs (up_user_id s) = None \<longrightarrow>
       outcome now s (lookup_devices devs' (up_user_id s)) (map_of cs' (up_user_id s)))"
proof -
  let ?u = "up_user_id s"
  have "\<exists>new ds. handle_timeout s (mine ?u) syncing (lookup_devices devs ?u) now = Inr (new, ds) \<and>
      (case new of None \<Rightarrow> True | Some n \<Rightarrow> up_user_id n = ?u) \<and>
      (mine ?u \<longrightarrow> outcome now s ds new \<and> (lookup_devices devs ?u = [] \<longrightarrow> ds = []))"
  proof (cases "mine ?u")
    case True
    with timeout_value [OF assms(1) [OF True], of syncing] obtain new ds where
      "handle_timeout s True syncing (lookup_devices devs ?u) now = Inr (new, ds)" "outcome now s ds new"
      "lookup_devices devs ?u = [] \<longrightarrow> ds = []" by blast
    with True show ?thesis by (auto simp: outcome_def split: option.splits)
  next
    case False
    then show ?thesis by (simp add: handle_timeout_def)
  qed
  then obtain new ds where ht: "handle_timeout s (mine ?u) syncing (lookup_devices devs ?u) now = Inr (new, ds)"
    "case new of None \<Rightarrow> True | Some n \<Rightarrow> up_user_id n = ?u" "mine ?u \<Longrightarrow> outcome now s ds new"
    "mine ?u \<Longrightarrow> lookup_devices devs ?u = [] \<Longrightarrow> ds = []" by blast
  let ?cs = "case new of None \<Rightarrow> cs | Some n \<Rightarrow> AList.update ?u n cs"
  let ?devs = "case map_of devs ?u of None \<Rightarrow> devs | Some _ \<Rightarrow> AList.update ?u ds devs"
  have step: "timeout_step mine syncing now (cs, devs) s = Inr (?cs, ?devs)" by (simp add: timeout_step_def ht(1))
  have c: "changes_ok ?cs" using assms(2) ht(2) changes_ok_update by (auto split: option.splits)
  have other: "lookup_devices ?devs u = lookup_devices devs u \<and> map_of ?cs u = map_of cs u" if "u \<noteq> ?u" for u
    using that by (auto simp: lookup_devices_def split: option.split)
  have own: "outcome now s (lookup_devices ?devs ?u) (map_of ?cs ?u)" if m: "mine ?u" "map_of cs ?u = None"
  proof -
    have "lookup_devices ?devs ?u = ds" using ht(4) [OF m(1)] by (auto simp: lookup_devices_def split: option.split)
    moreover have "map_of ?cs ?u = new" using m(2) by (simp split: option.split)
    ultimately show ?thesis using ht(3) [OF m(1)] by simp
  qed
  show ?thesis using step c other own by (intro exI [of _ ?cs] exI [of _ ?devs] conjI allI impI) (simp only: simp_thms)+
qed

lemma timeout_fold:
  assumes "distinct (map up_user_id ss)" "changes_ok cs" "\<forall>s \<in> set ss. map_of cs (up_user_id s) = None"
    and "\<forall>s \<in> set ss. mine (up_user_id s) \<longrightarrow> fits now (lookup_devices devs (up_user_id s)) s"
  shows "\<exists>cs' devs'. foldR (timeout_step mine syncing now) (cs, devs) ss = Inr (cs', devs') \<and> changes_ok cs' \<and>
    (\<forall>u. u \<notin> up_user_id ` set ss \<longrightarrow> lookup_devices devs' u = lookup_devices devs u \<and> map_of cs' u = map_of cs u) \<and>
    (\<forall>s \<in> set ss. mine (up_user_id s) \<longrightarrow> outcome now s (lookup_devices devs' (up_user_id s)) (map_of cs' (up_user_id s)))"
  using assms
proof (induction ss arbitrary: cs devs)
  case (Cons s ss)
  from timeout_step_value [of mine s now devs cs syncing] Cons.prems obtain cs1 devs1 where
    one: "timeout_step mine syncing now (cs, devs) s = Inr (cs1, devs1)" "changes_ok cs1"
      "\<And>u. u \<noteq> up_user_id s \<Longrightarrow> lookup_devices devs1 u = lookup_devices devs u \<and> map_of cs1 u = map_of cs u"
      "mine (up_user_id s) \<Longrightarrow> outcome now s (lookup_devices devs1 (up_user_id s)) (map_of cs1 (up_user_id s))" by auto
  have ne: "x \<in> set ss \<Longrightarrow> up_user_id x \<noteq> up_user_id s" for x using Cons.prems(1) by (auto simp: image_iff)
  have "\<forall>x \<in> set ss. map_of cs1 (up_user_id x) = None" using Cons.prems(3) one(3) ne by simp
  moreover have "\<forall>x \<in> set ss. mine (up_user_id x) \<longrightarrow> fits now (lookup_devices devs1 (up_user_id x)) x"
    using Cons.prems(4) one(3) ne by simp
  ultimately obtain cs' devs' where r: "foldR (timeout_step mine syncing now) (cs1, devs1) ss = Inr (cs', devs')" "changes_ok cs'"
    "\<And>u. u \<notin> up_user_id ` set ss \<Longrightarrow> lookup_devices devs' u = lookup_devices devs1 u \<and> map_of cs' u = map_of cs1 u"
    "\<And>x. x \<in> set ss \<Longrightarrow> mine (up_user_id x) \<Longrightarrow> outcome now x (lookup_devices devs' (up_user_id x)) (map_of cs' (up_user_id x))"
    using Cons.IH [of cs1 devs1] Cons.prems(1) one(2) by auto
  have own: "lookup_devices devs' (up_user_id s) = lookup_devices devs1 (up_user_id s)" "map_of cs' (up_user_id s) = map_of cs1 (up_user_id s)"
    using r(3) [of "up_user_id s"] Cons.prems(1) by simp_all
  have f: "foldR (timeout_step mine syncing now) (cs, devs) (s # ss) = Inr (cs', devs')" using one(1) r(1) by simp
  have "outcome now x (lookup_devices devs' (up_user_id x)) (map_of cs' (up_user_id x))"
    if "x \<in> set (s # ss)" "mine (up_user_id x)" for x
    using that one(4) r(4) own by auto
  moreover have "lookup_devices devs' u = lookup_devices devs u \<and> map_of cs' u = map_of cs u" if "u \<notin> up_user_id ` set (s # ss)" for u
    using that one(3) [of u] r(3) [of u] by auto
  ultimately show ?case using f r(2) by blast
qed simp

lemma armed_after_fetch:
  assumes "wheel_at c now w" "wheel_fetch w now = (due, w')" "armed_for a (pairs (entries w)) u"
    and "u \<notin> set due \<or> now \<le> a + LAST_ACTIVE_GRANULARITY"
  shows "armed_for a (pairs (entries w')) u"
proof -
  note f = fetched_wheel [OF assms(1,2)]
  from assms(3) obtain k where k: "(k, u) \<in> pairs (entries w)" "(a + LAST_ACTIVE_GRANULARITY) div 5000 < k"
    "k \<le> (a + IDLE_TIMER) div 5000 + 1" by (auto simp: armed_for_def)
  have "now div 5000 < k" using assms(4)
  proof
    assume "u \<notin> set due"
    with f(3) k(1) show ?thesis by blast
  next
    assume "now \<le> a + LAST_ACTIVE_GRANULARITY"
    from zdiv_mono1 [OF this, of 5000] k(2) show ?thesis by simp
  qed
  then have "(k, u) \<in> pairs (entries w')" unfolding f(2) using k(1) by simp
  with k show ?thesis unfolding armed_for_def by blast
qed

text \<open>A user that the check does not change: one without a due timer, or one whom the timeout left alone.\<close>

lemma unchanged_user_ok:
  assumes "wheel_at c now (timers h)" "wheel_fetch (timers h) now = (due, w)" "user_ok now h v"
    and "state_of h' v = state_of h v" "timers h' = w"
    and "v \<notin> set due \<and> the_devices v h' = the_devices v h \<or> outcome now (state_of h v) (the_devices v h') None"
  shows "user_ok now h' v"
proof -
  let ?s = "state_of h v"
  have "up_state ?s = ONLINE \<Longrightarrow> armed_for (up_last_active_ts ?s) (pairs (entries (timers h))) v"
    using assms(3) by (simp add: user_ok_def)
  then have "up_state ?s = ONLINE \<Longrightarrow> armed_for (up_last_active_ts ?s) (pairs (entries w)) v"
    using armed_after_fetch [OF assms(1,2)] assms(6) by (auto simp: outcome_def)
  moreover have "fits now (the_devices v h') ?s" using assms(3,6) by (auto simp: user_ok_def outcome_def)
  ultimately show ?thesis by (simp add: user_ok_def assms(4,5))
qed

lemma no_change_key: "changes_ok cs \<Longrightarrow> v \<notin> up_user_id ` set (map snd cs) \<Longrightarrow> map_of cs v = None"
  by (cases "map_of cs v") (force simp: changes_ok_def dest: map_of_SomeD)+

lemma check_timeouts_ok:
  assumes "handler_ok env c now h"
  shows "handler_ok env now now (state_after (check_timeouts env now) h)"
proof -
  obtain due w where f: "wheel_fetch (timers h) now = (due, w)" by force
  define expired where "expired = expired_processes now h"
  define users where "users = remdups (due @ concat (map (\<lambda>p. map fst (case map_of (external_syncs h) p of None \<Rightarrow> [] | Some s \<Rightarrow> s)) expired))"
  define h1 where "h1 = h\<lparr>timers := w, external_syncs := filter (\<lambda>(p, _). p \<notin> set expired) (external_syncs h),
     external_last_updated := filter (\<lambda>(p, _). p \<notin> set expired) (external_last_updated h)\<rparr>"
  let ?ss = "map (state_of h) users"
  have b: "base_ok env c now h" and at_c: "wheel_at c now (timers h)" and u: "\<And>u. is_mine_id env u \<Longrightarrow> user_ok now h u"
    using assms by (auto simp: handler_ok_def base_ok_def)
  have ids: "map up_user_id ?ss = users" using base_ok_id [OF b] by (simp add: comp_def)
  have due: "set due \<subseteq> set users" by (auto simp: users_def)
  have fit: "\<forall>s \<in> set ?ss. is_mine_id env (up_user_id s) \<longrightarrow> fits now (lookup_devices (user_to_devices h) (up_user_id s)) s"
    using u base_ok_id [OF b] by (auto simp: user_ok_def lookup_the_devices)
  have "distinct (map up_user_id ?ss)" unfolding ids by (simp add: users_def)
  from timeout_fold [OF this _ _ fit, of "[]" "syncing_user_devices h1"] obtain cs devs where
    t: "foldR (timeout_step (is_mine_id env) (syncing_user_devices h1) now) ([], user_to_devices h) ?ss = Inr (cs, devs)" "changes_ok cs"
      "\<forall>u. u \<notin> up_user_id ` set ?ss \<longrightarrow> lookup_devices devs u = lookup_devices (user_to_devices h) u \<and> map_of cs u = None"
      "\<forall>s \<in> set ?ss. is_mine_id env (up_user_id s) \<longrightarrow> outcome now s (lookup_devices devs (up_user_id s)) (map_of cs (up_user_id s))"
    by (auto simp: changes_ok_def)
  let ?h = "h1\<lparr>user_to_devices := devs\<rparr>"
  have t3: "lookup_devices devs u = lookup_devices (user_to_devices h) u \<and> map_of cs u = None" if "u \<notin> set users" for u
    using t(3) that ids by (metis list.set_map)
  have t4: "outcome now (state_of h u) (lookup_devices devs u) (map_of cs u)" if "u \<in> set users" "is_mine_id env u" for u
    using t(4) that base_ok_id [OF b] by auto
  have st: "state_of ?h = state_of h" "timers ?h = w" by (simp_all add: state_of_def h1_def fun_eq_iff)
  have base: "base_ok env now now ?h" using b fetched_wheel(1) [OF at_c f] by (auto simp: base_ok_def h1_def)
  have upd: "\<forall>n \<in> set (map snd cs). update_ok env now ?h n"
  proof
    fix n
    assume n: "n \<in> set (map snd cs)"
    then have m: "map_of cs (up_user_id n) = Some n" using t(2) by (auto simp: changes_ok_def)
    then have "up_user_id n \<in> set users" using t3 by force
    from t4 [OF this] m show "update_ok env now ?h n" by (auto simp: update_ok_def outcome_def lookup_the_devices)
  qed
  have rest: "user_ok now ?h v" if v: "is_mine_id env v" "v \<notin> up_user_id ` set (map snd cs)" for v
    using t3 [of v] t4 [OF _ v(1)] no_change_key [OF t(2) v(2)] due
    by (intro unchanged_user_ok [OF at_c f u [OF v(1)]]) (auto simp: st lookup_the_devices)
  have "handler_ok env now now (state_after (update_states env now (map snd cs) False) ?h)"
    by (rule update_states_ok [OF base]) (use upd rest in auto)
  moreover have "check_timeouts env now h = update_states env now (map snd cs) False ?h"
    unfolding check_timeouts_def Let_def f prod.case expired_def [symmetric] users_def [symmetric] h1_def [symmetric] state_of_def [symmetric]
      handle_timeouts_step t(1) by simp
  ultimately show ?thesis by (simp add: state_after_def)
qed

end
