(* ===== verification/Presence_Idle.thy ===== *)
theory Presence_Idle
  imports Presence_Run
begin

text \<open>
  Runs of a presence handler: it is started, its methods are called in any order, and its timers are
  checked at least every 170 seconds (the code asks for every five seconds).
\<close>

section \<open>Start-up\<close>

text \<open>The stored states of active users at start-up.  A local user that is online has been active within five minutes.\<close>

definition startup_ok :: "surroundings \<Rightarrow> int \<Rightarrow> user_presence \<Rightarrow> bool" where
  "startup_ok env now s \<longleftrightarrow> (is_mine_id env (up_user_id s) \<longrightarrow> 0 \<le> up_last_active_ts s \<and> up_last_active_ts s \<le> now \<and>
     known_state (up_state s) \<and> (up_state s = ONLINE \<longrightarrow> now \<le> up_last_active_ts s + IDLE_TIMER))"

definition stored_ok :: "surroundings \<Rightarrow> int \<Rightarrow> user_presence list \<Rightarrow> bool" where
  "stored_ok env now ss \<longleftrightarrow> list_all (startup_ok env now) ss \<and>
     (\<forall>u s. get_presence_for_users env u = Some s \<and> u \<notin> up_user_id ` set ss \<longrightarrow> row_ok env now u s)"

lemma startup_user_ok:
  assumes "base_ok env now now h" "state_of h (up_user_id s) = s" "startup_ok env now s"
  shows "\<exists>h'. startup_user env now h s = Inr h' \<and> base_ok env now now h' \<and> user_to_current_state h' = user_to_current_state h \<and>
    (\<forall>u. u \<noteq> up_user_id s \<longrightarrow> the_devices u h' = the_devices u h) \<and> pairs (entries (timers h)) \<subseteq> pairs (entries (timers h')) \<and>
    (is_mine_id env (up_user_id s) \<longrightarrow> user_ok now h' (up_user_id s))"
proof -
  let ?u = "up_user_id s" and ?a = "up_last_active_ts s"
  let ?d = "\<lparr>dp_user_id = ?u, dp_device_id = None, dp_state = up_state s, dp_last_active_ts = ?a, dp_last_sync_ts = up_last_user_sync_ts s\<rparr>"
  let ?want = "is_mine_id env ?u \<and> up_state s = ONLINE"
  have w: "wheel_at now now (timers h)" using assms(1) by (simp add: base_ok_def)
  obtain w1 where w1: "wheel_insert (timers h) now ?u (?a + IDLE_TIMER) = Inr w1" "wheel_at now now w1"
    "pairs (entries (timers h)) \<subseteq> pairs (entries w1)" "?want \<Longrightarrow> armed_for ?a (pairs (entries w1)) ?u"
  proof (cases ?want)
    case True
    with insert_arms [OF w, of ?a ?u] assms(3) that show ?thesis by (auto simp: startup_ok_def)
  next
    case False
    with insert_keeps [OF w, of ?u "?a + IDLE_TIMER"] that show ?thesis by blast
  qed
  obtain w2 where w2: "wheel_insert w1 now ?u (up_last_user_sync_ts s + SYNC_ONLINE_TIMEOUT) = Inr w2" "wheel_at now now w2"
    "pairs (entries w1) \<subseteq> pairs (entries w2)" using insert_keeps [OF w1(2)] by blast
  obtain w3 where w3: "wheel_insert w2 now ?u (up_last_federation_update_ts s +
      (if is_mine_id env ?u then FEDERATION_PING_INTERVAL else FEDERATION_TIMEOUT)) = Inr w3" "wheel_at now now w3"
    "pairs (entries w2) \<subseteq> pairs (entries w3)" using insert_keeps [OF w2(2)] by blast
  define h' where "h' = h\<lparr>user_to_devices := AList.update ?u [(None, ?d)] (user_to_devices h), timers := w3\<rparr>"
  have eq: "startup_user env now h s = Inr h'" by (simp add: startup_user_def Let_def w1(1) w2(1) w3(1) h'_def)
  have h': "base_ok env now now h'" "user_to_current_state h' = user_to_current_state h" "state_of h' ?u = s" "timers h' = w3"
    "the_devices u h' = (if u = ?u then [(None, ?d)] else the_devices u h)" for u
    using assms(1,2) w3(2) by (auto simp: h'_def base_ok_def state_of_def the_devices_def)
  have sub: "pairs (entries w1) \<subseteq> pairs (entries w3)" using w2(3) w3(3) by blast
  have "user_ok now h' ?u" if m: "is_mine_id env ?u"
  proof -
    have c: "combine_device_states [?d] = Inr (up_state s)"
      using assms(3) m unfolding combine_device_states_spec by (simp add: startup_ok_def)
    then have "fits now (the_devices ?u h') s" using assms(3) m by (simp add: fits_def h'(5) startup_ok_def)
    moreover have "up_state s = ONLINE \<Longrightarrow> armed_for ?a (pairs (entries w3)) ?u" using w1(4) m armed_mono [OF _ sub] by blast
    ultimately show ?thesis by (simp add: user_ok_def h'(3,4))
  qed
  with eq h' sub w1(3) show ?thesis by auto
qed

lemma startup_fold_ok:
  assumes "base_ok env now now h" "distinct (map up_user_id ss)" "\<forall>s \<in> set ss. state_of h (up_user_id s) = s \<and> startup_ok env now s"
    and "\<forall>u. is_mine_id env u \<and> u \<notin> up_user_id ` set ss \<longrightarrow> user_ok now h u"
  shows "\<exists>h'. foldR (startup_user env now) h ss = Inr h' \<and> handler_ok env now now h'"
  using assms
proof (induction ss arbitrary: h)
  case (Cons s ss)
  from startup_user_ok [OF Cons.prems(1), of s] Cons.prems(3) obtain h1 where
    one: "startup_user env now h s = Inr h1" "base_ok env now now h1" "user_to_current_state h1 = user_to_current_state h"
      "\<And>u. u \<noteq> up_user_id s \<Longrightarrow> the_devices u h1 = the_devices u h" "pairs (entries (timers h)) \<subseteq> pairs (entries (timers h1))"
      "is_mine_id env (up_user_id s) \<Longrightarrow> user_ok now h1 (up_user_id s)" by auto
  have st: "state_of h1 u = state_of h u" for u by (simp add: state_of_def one(3))
  have "user_ok now h1 u" if u: "is_mine_id env u" "u \<notin> up_user_id ` set ss" for u
  proof (cases "u = up_user_id s")
    case True
    with one(6) u(1) show ?thesis by blast
  next
    case False
    then have "user_ok now h u" using Cons.prems(4) u by auto
    then show ?thesis by (rule user_ok_timers) (use one(4,5) st False in simp_all)
  qed
  with Cons.IH [OF one(2)] Cons.prems(2,3) one(1) st show ?case by auto
qed (simp add: handler_ok_def)

lemma started_ok:
  assumes "0 \<le> now" "stored_ok env now ss"
  shows "\<exists>h. new_presence_handler env True True busy q now ss = Inr h \<and> handler_ok env now now h"
proof -
  let ?cur = "dict_update [] (map (\<lambda>s. (up_user_id s, s)) ss)"
  let ?h = "\<lparr>presence_enabled = True, track_presence = True, busy_enabled = busy, user_to_current_state = ?cur,
     user_to_devices = [], timers = new_wheel 5000, unpersisted = [], num_current_syncs = [], external_syncs = [],
     external_last_updated = [], persisted = [], notified = [], federation_queue = q\<rparr>"
  have d: "distinct (map fst ?cur)" "\<forall>(k, s) \<in> set ?cur. up_user_id s = k" "fst ` set ?cur = up_user_id ` set ss"
    using dict_of_states [of "[]" ss] by (simp_all add: Let_def)
  have id: "map_of ?cur u = Some s \<Longrightarrow> up_user_id s = u" for u s using d(2) by (auto dest: map_of_SomeD)
  have none: "map_of ?cur u = None \<longleftrightarrow> u \<notin> up_user_id ` set ss" for u using d(3) by (simp add: map_of_eq_None_iff)
  have st: "state_of ?h (up_user_id s) = s" if "s \<in> set (last_states ss)" for s
  proof -
    from that obtain k where k: "(k, s) \<in> set ?cur" by (auto simp: last_states_def)
    with d(2) have "k = up_user_id s" by auto
    with k d(1) have "map_of ?cur (up_user_id s) = Some s" by simp
    then show ?thesis by (simp add: state_of_def)
  qed
  have w: "wheel_at now now (new_wheel 5000)"
    using assms(1) keyed_new [of 5000] by (simp add: wheel_at_def new_wheel_def)
  have rows: "row_ok env now u s" if "map_of ?cur u = None" "get_presence_for_users env u = Some s" for u s
    using that none [of u] assms(2) unfolding stored_ok_def by blast
  have b: "base_ok env now now ?h" unfolding base_ok_def presence_handler.select_convs using w id rows by blast
  have rest: "user_ok now ?h u" if "u \<notin> up_user_id ` set (last_states ss)" for u
  proof -
    have "state_of ?h u = default_presence u" using that none [of u] unfolding last_states_facts(3) by (simp add: state_of_def)
    moreover have "combine_device_states [] = Inr OFFLINE" by (simp add: combine_device_states_def)
    ultimately show ?thesis using assms(1) by (simp add: user_ok_def fits_def the_devices_def default_presence_def)
  qed
  have "\<forall>s \<in> set (last_states ss). startup_ok env now s"
    using assms(2) last_states_facts(2) [of ss] by (auto simp: stored_ok_def list_all_iff)
  with startup_fold_ok [OF b last_states_facts(1)] st rest
  obtain h where "foldR (startup_user env now) ?h (last_states ss) = Inr h" "handler_ok env now now h" by blast
  then show ?thesis by (simp add: new_presence_handler_def Let_def last_states_def)
qed

section \<open>Runs\<close>

datatype presence_op =
  Bump string "string option"
  | Set_State string "string option" string "string option" bool bool
  | Sync_Start string "string option" bool string
  | Sync_End string "string option"
  | External_Row string string "string option" bool int
  | External_Clear string
  | Incoming string "presence_push list"
  | Persist

definition presence_step :: "surroundings \<Rightarrow> int \<Rightarrow> presence_op \<Rightarrow> presence_handler \<Rightarrow> presence_handler" where
  "presence_step env now op h =
     (case op of
        Bump u i \<Rightarrow> state_after (bump_presence_active_time env u i now) h
      | Set_State u i presence msg force is_sync \<Rightarrow> state_after (set_state env u i presence msg force is_sync now) h
      | Sync_Start u i affect presence \<Rightarrow> state_after (user_syncing env u i affect presence now) h
      | Sync_End u i \<Rightarrow> user_syncing_end env u i now h
      | External_Row p u i is_syncing sync_time \<Rightarrow> state_after (update_external_syncs_row env p u i is_syncing sync_time now) h
      | External_Clear p \<Rightarrow> state_after (update_external_syncs_clear env p now) h
      | Incoming origin pushes \<Rightarrow> state_after (incoming_presence env origin pushes now) h
      | Persist \<Rightarrow> state_after persist_unpersisted_changes h)"

text \<open>Presence is pushed by servers, about users of theirs.\<close>

definition op_ok :: "surroundings \<Rightarrow> presence_op \<Rightarrow> bool" where
  "op_ok env op \<longleftrightarrow>
     (case op of Incoming origin pushes \<Rightarrow> \<forall>u. get_domain_from_id u = Inr origin \<longrightarrow> \<not> is_mine_id env u | _ \<Rightarrow> True)"

text \<open>A handler that was last checked at \<open>c\<close>, at time \<open>now\<close>.\<close>

inductive running :: "surroundings \<Rightarrow> presence_handler \<Rightarrow> int \<Rightarrow> int \<Rightarrow> bool" for env where
  started: "0 \<le> now \<Longrightarrow> stored_ok env now ss \<Longrightarrow> new_presence_handler env True True busy q now ss = Inr h \<Longrightarrow> running env h now now"
| called: "running env h c now \<Longrightarrow> now \<le> now' \<Longrightarrow> now' \<le> c + 170000 \<Longrightarrow> op_ok env op \<Longrightarrow> running env (presence_step env now' op h) c now'"
| checked: "running env h c now \<Longrightarrow> now \<le> now' \<Longrightarrow> now' \<le> c + 170000 \<Longrightarrow>
    running env (state_after (check_timeouts env now') h) now' now'"

lemma presence_step_ok:
  assumes "handler_ok env c now h" "now \<le> c + 170000" "op_ok env op"
  shows "handler_ok env c now (presence_step env now op h)"
proof -
  note k = keepsD [of "handler_ok env c now" _ h, OF _ assms(1)]
  show ?thesis
  proof (cases op)
    case (Incoming origin pushes)
    with assms(3) k [OF incoming_keeps [OF assms(2), of origin env pushes]] show ?thesis by (simp add: presence_step_def op_ok_def)
  qed (simp_all add: presence_step_def user_syncing_end_ok [OF assms(1,2)] k keeps_rules assms(2))
qed

lemma running_ok: "running env h c now \<Longrightarrow> handler_ok env c now h"
proof (induction rule: running.induct)
  case (started now ss busy q h)
  with started_ok [of now env ss busy q] show ?case by simp
next
  case (called h c now now' op)
  with presence_step_ok handler_ok_later show ?case by blast
next
  case (checked h c now now')
  with check_timeouts_ok handler_ok_later show ?case by blast
qed

lemma armed_is_recent:
  assumes "wheel_at c now w" "armed_for a (pairs (entries w)) u"
  shows "c < a + IDLE_TIMER + 5000"
proof -
  from assms(2) obtain k where k: "(k, u) \<in> pairs (entries w)" "k \<le> (a + IDLE_TIMER) div 5000 + 1" by (auto simp: armed_for_def)
  have "c div 5000 \<le> (a + IDLE_TIMER) div 5000" using wheel_at_pair [OF assms(1) k(1)] k(2) by simp
  moreover have "c = 5000 * (c div 5000) + c mod 5000" "a + IDLE_TIMER = 5000 * ((a + IDLE_TIMER) div 5000) + (a + IDLE_TIMER) mod 5000"
    "c mod 5000 < 5000" "0 \<le> (a + IDLE_TIMER) mod 5000" by simp_all
  ultimately show ?thesis by linarith
qed

text \<open>
  C17. Nobody stays online without activity: in every run in which the timers are checked at least
  every 170 seconds, a local user that is shown as online was active within five minutes and five
  seconds of the last check.
\<close>

theorem online_is_recent:
  assumes "running env h c now" "is_mine_id env u" "up_state (state_of h u) = ONLINE"
  shows "c < up_last_active_ts (state_of h u) + IDLE_TIMER + 5000"
proof -
  have "wheel_at c now (timers h)" "armed_for (up_last_active_ts (state_of h u)) (pairs (entries (timers h))) u"
    using running_ok [OF assms(1)] assms(2,3) by (auto simp: handler_ok_def base_ok_def user_ok_def)
  then show ?thesis by (rule armed_is_recent)
qed

text \<open>A server with one user, whose presence nobody is interested in.\<close>

definition lone_env :: surroundings where
  "lone_env = \<lparr>is_mine_id = (\<lambda>u. u = ''@a:s''), get_rooms_for_user = (\<lambda>_. []), get_current_hosts_in_room = (\<lambda>_. []),
     get_users_for_states = (\<lambda>_. []), get_presence_for_users = (\<lambda>_. None)\<rparr>"

definition lone_start :: presence_handler where
  "lone_start = (case new_presence_handler lone_env True True False (new_fed_queue ''master'' False True True) 0 [] of Inr h \<Rightarrow> h | Inl _ \<Rightarrow> undefined)"

lemma lone_running: "running lone_env lone_start 0 0"
proof (rule running.started)
  show "stored_ok lone_env 0 []" by (simp add: stored_ok_def lone_env_def)
  show "new_presence_handler lone_env True True False (new_fed_queue ''master'' False True True) 0 [] = Inr lone_start"
    by (simp add: lone_start_def new_presence_handler_def Let_def dict_update_def)
qed simp

definition lone_sync :: presence_handler where
  "lone_sync = presence_step lone_env 1000 (Sync_Start ''@a:s'' (Some ''D'') True ONLINE) lone_start"

theorem online_is_recent_witness:
  "let h = state_after (check_timeouts lone_env 160000) lone_sync
   in running lone_env h 160000 160000 \<and> is_mine_id lone_env ''@a:s'' \<and> up_state (state_of h ''@a:s'') = ONLINE \<and>
      160000 < up_last_active_ts (state_of h ''@a:s'') + IDLE_TIMER + 5000 \<and>
      up_state (state_of (state_after (check_timeouts lone_env 306000) h) ''@a:s'') = UNAVAILABLE"
proof -
  define h where "h = state_after (check_timeouts lone_env 160000) lone_sync"
  have "running lone_env lone_sync 0 1000"
    unfolding lone_sync_def by (rule running.called [OF lone_running]) (simp_all add: op_ok_def)
  then have r: "running lone_env h 160000 160000" unfolding h_def by (rule running.checked) simp_all
  have m: "is_mine_id lone_env ''@a:s''" by (simp add: lone_env_def)
  have o: "up_state (state_of h ''@a:s'') = ONLINE" unfolding h_def by code_simp
  have "up_state (state_of (state_after (check_timeouts lone_env 306000) h) ''@a:s'') = UNAVAILABLE" unfolding h_def by code_simp
  with r m o online_is_recent [OF r m o] show ?thesis unfolding Let_def h_def by blast
qed

section \<open>A user that stays unavailable\<close>

text \<open>
  Without a timer nothing times out.  A user that was active and then sets the state to unavailable,
  without ever syncing, has only the timer of the last sync, which is due at once; it is too early
  for the device to be gone, nothing changes, and no other timer is set.
\<close>

lemma no_timers_no_change:
  assumes "entries (timers h) = []" "external_last_updated h = []"
  shows "user_to_current_state (state_after (check_timeouts env now) h) = user_to_current_state h"
    "timers (state_after (check_timeouts env now) h) = timers h"
  using assms by (simp_all add: check_timeouts_def wheel_fetch_def Let_def expired_processes_def handle_timeouts_def
      update_states_def dict_update_def action_simps state_after_def bindA_def writeA_def returnA_def)

definition left_unavailable :: presence_handler where
  "left_unavailable = state_after (check_timeouts lone_env 1000012000)
     (presence_step lone_env 1000002000 (Set_State ''@a:s'' (Some ''D'') UNAVAILABLE None False False)
       (presence_step lone_env 1000001000 (Bump ''@a:s'' (Some ''D'')) lone_start))"

lemma unavailable_forever:
  "up_state (state_of left_unavailable ''@a:s'') = UNAVAILABLE"
  "num_current_syncs left_unavailable = []"
  "up_state (state_of (state_after (check_timeouts lone_env now) left_unavailable) ''@a:s'') = UNAVAILABLE"
proof -
  have e: "entries (timers left_unavailable) = []" "external_last_updated left_unavailable = []" by code_simp+
  show "num_current_syncs left_unavailable = []" by code_simp
  show u: "up_state (state_of left_unavailable ''@a:s'') = UNAVAILABLE" by code_simp
  show "up_state (state_of (state_after (check_timeouts lone_env now) left_unavailable) ''@a:s'') = UNAVAILABLE"
    using u by (simp add: state_of_def no_timers_no_change [OF e])
qed

end
