(* ===== verification/Presence_Queue.thy ===== *)
theory Presence_Queue
  imports Presence
begin

text \<open>
  The queue of presence for other processes: whatever was queued and cleared before, asking for rows
  until the answer is not limited gives the rows of all entries in the range, in order.
\<close>

text \<open>The ids of the queue are consecutive, and the last one is that before \<open>_next_id\<close>.\<close>

definition queue_ok :: "fed_queue \<Rightarrow> bool" where
  "queue_ok q \<longleftrightarrow> map qe_stream_id (fq_queue q) = [fq_next_id q - int (length (fq_queue q))..fq_next_id q - 1]"

datatype queue_op = Queue_Send "user_presence list" "string list" int | Queue_Clear int

fun queue_step :: "fed_queue \<Rightarrow> queue_op \<Rightarrow> fed_queue" where
  "queue_step q (Queue_Send states destinations now) = state_after (send_presence_to_destinations states destinations now) q"
| "queue_step q (Queue_Clear now) = clear_queue now q"

lemma upto_drop: "drop n [a..b] = [a + int n..b]"
proof (induction n arbitrary: a)
  case (Suc n)
  show ?case
  proof (cases "a \<le> b")
    case True
    then show ?thesis using Suc [of "a + 1"] by (simp add: upto_rec1 [of a b] add.assoc)
  qed simp
qed simp

lemma queue_ok_send: "queue_ok q \<Longrightarrow> queue_ok (q\<lparr>fq_next_id := fq_next_id q + 1, fq_queue := fq_queue q @
    [\<lparr>qe_time = now, qe_stream_id = fq_next_id q, qe_destinations = ds, qe_user_ids = us\<rparr>]\<rparr>)"
  by (simp add: queue_ok_def upto_rec2)

lemma queue_ok_drop: "queue_ok q \<Longrightarrow> queue_ok (q\<lparr>fq_queue := drop n (fq_queue q)\<rparr>)"
  by (cases "n \<le> length (fq_queue q)") (auto simp: queue_ok_def drop_map [symmetric] upto_drop of_nat_diff algebra_simps)

lemma queue_step_ok: "queue_ok q \<Longrightarrow> queue_ok (queue_step q op)"
proof (cases op)
  case (Queue_Send states ds now)
  assume q: "queue_ok q"
  then have q': "queue_ok (q\<lparr>sent := s\<rparr>)" for s by (simp add: queue_ok_def)
  show ?thesis using q q' queue_ok_send [OF q] queue_ok_send [OF q']
    by (auto simp: Queue_Send send_presence_to_destinations_def action_simps guardR_def split: sum.split)
next
  case (Queue_Clear now)
  assume q: "queue_ok q"
  show ?thesis using queue_ok_drop [OF q] by (simp add: Queue_Clear clear_queue_def dropWhile_eq_drop)
qed

interpretation queue_run: stateful queue_step queue_ok
  by unfold_locales (rule queue_step_ok)

section \<open>Rows\<close>

text \<open>The rows of the entries after \<open>from_token\<close>, up to \<open>upto_token\<close>.\<close>

definition rows_between :: "int \<Rightarrow> int \<Rightarrow> queue_entry list \<Rightarrow> (int \<times> string \<times> string) list" where
  "rows_between from_token upto_token es =
     concat (map entry_rows (filter (\<lambda>e. from_token < qe_stream_id e \<and> qe_stream_id e \<le> upto_token) es))"

lemma rows_between_none: "\<forall>e \<in> set es. \<not> (a < qe_stream_id e \<and> qe_stream_id e \<le> b) \<Longrightarrow> rows_between a b es = []"
  by (simp add: rows_between_def filter_empty_conv)

lemma rows_between_simps [simp]:
  "rows_between a b [] = []"
  "rows_between a b (e # es) = (if a < qe_stream_id e \<and> qe_stream_id e \<le> b then entry_rows e else []) @ rows_between a b es"
  by (simp_all add: rows_between_def)

lemma rows_between_split:
  assumes "sorted_wrt (<) (map qe_stream_id es)" "a \<le> m" "m \<le> b"
  shows "rows_between a b es = rows_between a m es @ rows_between m b es"
  using assms
proof (induction es)
  case (Cons e es)
  show ?case
  proof (cases "qe_stream_id e \<le> m")
    case False
    then have "rows_between a m es = []" using Cons.prems(1) by (intro rows_between_none) force
    with False Cons show ?thesis by simp
  qed (use Cons in simp)
qed simp

lemma rows_loop_value:
  assumes "rows_loop a b target es acc new = (rows, new', limited)" "sorted_wrt (<) (map qe_stream_id es)"
  shows "if limited then a < new' \<and> new' \<le> b \<and> new' \<in> qe_stream_id ` set es \<and> rows = acc @ rows_between a new' es
    else rows = acc @ rows_between a b es"
  using assms
proof (induction a b target es acc new rule: rows_loop.induct)
  case (2 a b target e es acc new)
  consider "qe_stream_id e \<le> a" | "a < qe_stream_id e" "b < qe_stream_id e" | "a < qe_stream_id e" "qe_stream_id e \<le> b" by linarith
  then show ?case
  proof cases
    case 1
    with 2 show ?thesis by (auto split: if_splits)
  next
    case b: 2
    then have "rows_between a b (e # es) = []" using "2.prems"(2) by (intro rows_between_none) force
    with b 2 show ?thesis by simp
  next
    case 3
    show ?thesis
    proof (cases "int (length (acc @ entry_rows e)) > target")
      case True
      have "rows_between a (qe_stream_id e) es = []" using "2.prems"(2) by (intro rows_between_none) force
      then have "rows_between a (qe_stream_id e) (e # es) = entry_rows e" using 3 by simp
      with 3 True "2.prems"(1) show ?thesis by (auto simp: Let_def)
    next
      case False
      have loop: "rows_loop a b target es (acc @ entry_rows e) (qe_stream_id e) = (rows, new', limited)"
        using 3 False "2.prems"(1) by (simp add: Let_def)
      have s: "sorted_wrt (<) (map qe_stream_id es)" "x \<in> set es \<Longrightarrow> qe_stream_id e < qe_stream_id x" for x using "2.prems"(2) by auto
      note IH = "2.IH"(2) [OF _ _ refl False loop s(1)]
      show ?thesis
      proof (cases limited)
        case True
        with IH 3 have r: "a < new'" "new' \<le> b" "new' \<in> qe_stream_id ` set es" "rows = acc @ entry_rows e @ rows_between a new' es" by auto
        then have "qe_stream_id e < new'" using s(2) by auto
        with True r 3 show ?thesis by simp
      next
        case False
        with IH 3 show ?thesis by simp
      qed
    qed
  qed
qed auto

section \<open>Asking again\<close>

lemma queue_ids:
  assumes "queue_ok q"
  shows "sorted_wrt (<) (map qe_stream_id (fq_queue q))" "e \<in> set (take n (fq_queue q)) \<Longrightarrow> qe_stream_id e < fq_next_id q - int (length (fq_queue q)) + int n"
    "e \<in> set (fq_queue q) \<Longrightarrow> qe_stream_id e < fq_next_id q"
proof -
  let ?a = "fq_next_id q - int (length (fq_queue q))" and ?b = "fq_next_id q - 1"
  have ids: "map qe_stream_id (fq_queue q) = [?a..?b]" using assms by (simp add: queue_ok_def)
  show "sorted_wrt (<) (map qe_stream_id (fq_queue q))" unfolding ids by simp
  have id: "qe_stream_id (fq_queue q ! i) = ?a + int i" if "i < length (fq_queue q)" for i
  proof -
    have "qe_stream_id (fq_queue q ! i) = [?a..?b] ! i" unfolding ids [symmetric] using that by simp
    also have "... = ?a + int i" using that by (intro nth_upto) simp
    finally show ?thesis .
  qed
  show "e \<in> set (take n (fq_queue q)) \<Longrightarrow> qe_stream_id e < ?a + int n" using id by (auto simp: in_set_conv_nth)
  show "e \<in> set (fq_queue q) \<Longrightarrow> qe_stream_id e < fq_next_id q" using id by (auto simp: in_set_conv_nth)
qed

lemma rows_value:
  assumes "queue_ok q" "get_replication_rows a b target q = (rows, new, limited)"
  shows "if limited then a < new \<and> new \<le> b \<and> rows = rows_between a new (fq_queue q) else rows = rows_between a b (fq_queue q)"
proof (cases "a = fq_next_id q - 1")
  case True
  have "rows_between a b (fq_queue q) = []" using queue_ids(3) [OF assms(1)] True by (intro rows_between_none) force
  with True assms(2) show ?thesis by (auto simp: get_replication_rows_def)
next
  case False
  let ?q = "fq_queue q"
  let ?i = "max (a + 1 - fq_next_id q) (- int (length ?q))"
  define n where "n = nat (if ?i < 0 then max 0 (int (length ?q) + ?i) else ?i)"
  have loop: "rows_loop a b target (drop n ?q) [] b = (rows, new, limited)"
    using False assms(2) by (simp add: get_replication_rows_def py_slice_from_def n_def)
  have "sorted_wrt (<) (map qe_stream_id (drop n ?q))" using queue_ids(1) [OF assms(1)] by (simp add: drop_map [symmetric] sorted_wrt_drop)
  note v = rows_loop_value [OF loop this]
  have skipped: "qe_stream_id e \<le> a" if e: "e \<in> set (take n ?q)" for e
  proof (cases "?i < 0")
    case True
    then have n: "int n = int (length ?q) + ?i" unfolding n_def by (simp add: max_def)
    have "qe_stream_id e < fq_next_id q - int (length ?q) + int n" by (rule queue_ids(2) [OF assms(1) e])
    moreover have "0 < int n" using e by (cases n) auto
    ultimately show ?thesis using n by linarith
  next
    case False
    then have "fq_next_id q \<le> a + 1 \<or> ?q = []" by auto
    with e queue_ids(3) [OF assms(1), of e] show ?thesis by (auto dest: in_set_takeD)
  qed
  have drop: "rows_between a c (drop n ?q) = rows_between a c ?q" for c
  proof -
    have "rows_between a c (take n ?q) = []" using skipped by (intro rows_between_none) force
    moreover have "rows_between a c (take n ?q @ drop n ?q) = rows_between a c (take n ?q) @ rows_between a c (drop n ?q)"
      unfolding rows_between_def by (simp del: append_take_drop_id)
    ultimately show ?thesis by simp
  qed
  show ?thesis using v unfolding drop by (cases limited) simp_all
qed

lemma limited_progress:
  "get_replication_rows a b target q = (rows, new, True) \<Longrightarrow> a < new \<and> new \<le> b"
proof -
  have "rows_loop a b target es acc n = (rows, new, True) \<Longrightarrow> a < new \<and> new \<le> b" for es acc n
    by (induction a b target es acc n rule: rows_loop.induct) (auto simp: Let_def split: if_splits)
  then show "get_replication_rows a b target q = (rows, new, True) \<Longrightarrow> a < new \<and> new \<le> b"
    by (auto simp: get_replication_rows_def split: if_splits)
qed

text \<open>Asking until the answer is not limited, each time from the position of the last answer.\<close>

function all_rows :: "int \<Rightarrow> int \<Rightarrow> int \<Rightarrow> fed_queue \<Rightarrow> (int \<times> string \<times> string) list" where
  "all_rows from_token upto_token target q =
     (case get_replication_rows from_token upto_token target q of (rows, new_id, limited) \<Rightarrow>
        if limited then rows @ all_rows new_id upto_token target q else rows)"
  by pat_completeness auto

termination all_rows
  by (relation "measure (\<lambda>(a, b, _, _). nat (b - a))") (auto dest!: limited_progress [OF sym])

declare all_rows.simps [simp del]

lemma all_rows_value: "queue_ok q \<Longrightarrow> all_rows a b target q = rows_between a b (fq_queue q)"
proof (induction a b target q rule: all_rows.induct)
  case (1 a b target q)
  obtain rows new limited where g: "get_replication_rows a b target q = (rows, new, limited)" by (cases "get_replication_rows a b target q") auto
  note v = rows_value [OF 1(2) g]
  show ?case
  proof (cases limited)
    case True
    with v have r: "a < new" "new \<le> b" "rows = rows_between a new (fq_queue q)" by simp_all
    have "all_rows new b target q = rows_between new b (fq_queue q)" using 1 g True by simp
    with g True r rows_between_split [OF queue_ids(1) [OF 1(2)], of a new b] show ?thesis by (simp add: all_rows.simps [of a])
  next
    case False
    with v g show ?thesis by (simp add: all_rows.simps [of a])
  qed
qed

text \<open>
  C18. Whatever was queued and cleared before, asking until the answer is not limited gives exactly
  the rows of the entries after the first token, up to the second one, each once and in order; and
  the limit only bounds the answers.
\<close>

theorem replication_rows_complete:
  "let q = foldl queue_step (new_fed_queue name queue_updates writer federation) ops
   in all_rows from_token upto_token target q = rows_between from_token upto_token (fq_queue q)"
proof -
  have "queue_ok (foldl queue_step (new_fed_queue name queue_updates writer federation) ops)"
    by (rule queue_run.inv_run) (simp add: queue_ok_def new_fed_queue_def)
  then show ?thesis unfolding Let_def by (rule all_rows_value)
qed

end
