(* ===== verification/Linked_List.thy ===== *)
theory Linked_List
  imports Prelude
begin

text \<open>
  Circular doubly linked lists, \<open>util/linked_list.py\<close>.  The nodes of a list are the cells of a store;
  a reference is an address.  \<open>dll\<close> says that the references from the root on, forwards and
  backwards, spell a list of addresses; every operation is shown to do to that list what its name
  says.
\<close>

section \<open>Nodes\<close>

text \<open>\<open>last_access_ts_secs\<close> is the field of the subclass \<open>_TimedListNode\<close>.\<close>

record 'e list_node =
  cache_entry :: "'e option"
  prev_node :: "nat option"
  next_node :: "nat option"
  last_access_ts_secs :: int

record 'e node_store =
  cells :: "nat \<Rightarrow> 'e list_node"
  fresh :: nat

definition new_node :: "'e option \<Rightarrow> 'e list_node" where
  "new_node e = \<lparr>cache_entry = e, prev_node = None, next_node = None, last_access_ts_secs = 0\<rparr>"

definition change_cell :: "nat \<Rightarrow> ('e list_node \<Rightarrow> 'e list_node) \<Rightarrow> 'e node_store \<Rightarrow> 'e node_store" where
  "change_cell a f s = s\<lparr>cells := (cells s)(a := f (cells s a))\<rparr>"

abbreviation ROOT :: nat where "ROOT \<equiv> 0"

text \<open>A store with one root node.\<close>

definition create_root_node :: "'e node_store" where
  "create_root_node = \<lparr>cells = (\<lambda>_. new_node None)(ROOT := (new_node None)\<lparr>prev_node := Some ROOT, next_node := Some ROOT\<rparr>), fresh = 1\<rparr>"

definition refs_remove_node_from_list :: "nat \<Rightarrow> 'e node_store \<Rightarrow> 'e node_store" where
  "refs_remove_node_from_list a s =
     (case (prev_node (cells s a), next_node (cells s a)) of
        (Some p, Some n) \<Rightarrow>
          change_cell a (\<lambda>c. c\<lparr>prev_node := None, next_node := None\<rparr>)
            (change_cell n (\<lambda>c. c\<lparr>prev_node := Some p\<rparr>) (change_cell p (\<lambda>c. c\<lparr>next_node := Some n\<rparr>) s))
      | _ \<Rightarrow> s)"

definition refs_insert_after :: "nat \<Rightarrow> nat \<Rightarrow> 'e node_store \<Rightarrow> 'e node_store result" where
  "refs_insert_after a node s =
     bindR (guardR (prev_node (cells s a) = None) AssertionErr) (\<lambda>_.
     bindR (guardR (next_node (cells s a) = None) AssertionErr) (\<lambda>_.
       (case (next_node (cells s node), prev_node (cells s node)) of
          (Some n, Some _) \<Rightarrow>
            Inr (change_cell n (\<lambda>c. c\<lparr>prev_node := Some a\<rparr>) (change_cell node (\<lambda>c. c\<lparr>next_node := Some a\<rparr>)
              (change_cell a (\<lambda>c. c\<lparr>prev_node := Some node, next_node := Some n\<rparr>) s)))
        | _ \<Rightarrow> Inl AssertionErr)))"

definition insert_after :: "'e \<Rightarrow> nat \<Rightarrow> 'e node_store \<Rightarrow> (nat \<times> 'e node_store) result" where
  "insert_after e node s =
     bindR (refs_insert_after (fresh s) node (s\<lparr>cells := (cells s)(fresh s := new_node (Some e)), fresh := fresh s + 1\<rparr>)) (\<lambda>s'.
       Inr (fresh s, s'))"

definition remove_from_list :: "nat \<Rightarrow> 'e node_store \<Rightarrow> 'e node_store" where
  "remove_from_list a s = change_cell a (\<lambda>c. c\<lparr>cache_entry := None\<rparr>) (refs_remove_node_from_list a s)"

definition move_after :: "nat \<Rightarrow> nat \<Rightarrow> 'e node_store \<Rightarrow> 'e node_store result" where
  "move_after a node s =
     bindR (guardR (prev_node (cells s a) \<noteq> None \<and> next_node (cells s a) \<noteq> None \<and>
         prev_node (cells s node) \<noteq> None \<and> next_node (cells s node) \<noteq> None \<and> a \<noteq> node) AssertionErr) (\<lambda>_.
       refs_insert_after a node (refs_remove_node_from_list a s))"

definition get_cache_entry :: "nat \<Rightarrow> 'e node_store \<Rightarrow> 'e option" where
  "get_cache_entry a s = cache_entry (cells s a)"

definition update_last_access :: "nat \<Rightarrow> int \<Rightarrow> 'e node_store \<Rightarrow> 'e node_store" where
  "update_last_access a now s = change_cell a (\<lambda>c. c\<lparr>last_access_ts_secs := now\<rparr>) s"

lemma change_cell_simps [simp]:
  "cells (change_cell a f s) b = (if b = a then f (cells s a) else cells s b)" "fresh (change_cell a f s) = fresh s"
  by (simp_all add: change_cell_def)

section \<open>Paths\<close>

fun chain :: "(nat \<Rightarrow> 'e list_node) \<Rightarrow> nat \<Rightarrow> nat list \<Rightarrow> nat \<Rightarrow> bool" where
  "chain m a [] b \<longleftrightarrow> next_node (m a) = Some b \<and> prev_node (m b) = Some a"
| "chain m a (x # xs) b \<longleftrightarrow> next_node (m a) = Some x \<and> prev_node (m x) = Some a \<and> chain m x xs b"

lemma chain_append [simp]: "chain m a (xs @ y # ys) b \<longleftrightarrow> chain m a xs y \<and> chain m y ys b"
  by (induction xs arbitrary: a) auto

lemma chain_ends: "chain m a xs b \<Longrightarrow> next_node (m a) = Some (hd (xs @ [b])) \<and> prev_node (m b) = Some (last (a # xs))"
  by (induction xs arbitrary: a) auto

text \<open>A path reads the next nodes of all but its end, and the previous nodes of all but its start.\<close>

lemma chain_cong:
  assumes "chain m a xs b" "\<And>x. x \<in> set (a # xs) \<Longrightarrow> next_node (m' x) = next_node (m x)"
    and "\<And>x. x \<in> set (xs @ [b]) \<Longrightarrow> prev_node (m' x) = prev_node (m x)"
  shows "chain m' a xs b"
  using assms by (induction xs arbitrary: a) auto

text \<open>The root, the nodes of the list in order, and the root again; all cells in use are below the first free address.\<close>

definition dll :: "'e node_store \<Rightarrow> nat list \<Rightarrow> bool" where
  "dll s xs \<longleftrightarrow> distinct (ROOT # xs) \<and> chain (cells s) ROOT xs ROOT \<and> (\<forall>x \<in> set (ROOT # xs). x < fresh s)"

lemma dll_new: "dll create_root_node []"
  by (simp add: dll_def create_root_node_def)

lemma dll_last: "dll s xs \<Longrightarrow> prev_node (cells s ROOT) = Some (last (ROOT # xs))"
  using chain_ends [of "cells s" ROOT xs ROOT] by (simp add: dll_def)

lemma dll_linked:
  assumes "dll s xs" "x \<in> set (ROOT # xs)"
  shows "prev_node (cells s x) \<noteq> None \<and> next_node (cells s x) \<noteq> None"
proof (cases "x = ROOT")
  case False
  with assms(2) obtain as bs where "xs = as @ x # bs" by (auto simp: in_set_conv_decomp)
  with assms(1) have "chain (cells s) ROOT as x" "chain (cells s) x bs ROOT" by (auto simp: dll_def)
  from chain_ends [OF this(1)] chain_ends [OF this(2)] show ?thesis by simp
qed (use assms chain_ends [of "cells s" ROOT xs ROOT] in \<open>simp add: dll_def\<close>)

section \<open>Operations\<close>

lemma remove_refs_chain:
  assumes "distinct (ROOT # as @ x # bs)" "chain (cells s) ROOT (as @ x # bs) ROOT"
  defines "s' \<equiv> refs_remove_node_from_list x s"
  shows "chain (cells s') ROOT (as @ bs) ROOT" "prev_node (cells s' x) = None" "next_node (cells s' x) = None"
    "fresh s' = fresh s" "cache_entry (cells s' a) = cache_entry (cells s a)"
    "last_access_ts_secs (cells s' a) = last_access_ts_secs (cells s a)"
proof -
  let ?p = "last (ROOT # as)" and ?n = "hd (bs @ [ROOT])"
  have c: "chain (cells s) ROOT as x" "chain (cells s) x bs ROOT" using assms(2) by simp_all
  have e: "prev_node (cells s x) = Some ?p" "next_node (cells s x) = Some ?n" using chain_ends [OF c(1)] chain_ends [OF c(2)] by auto
  have s': "s' = change_cell x (\<lambda>c. c\<lparr>prev_node := None, next_node := None\<rparr>)
      (change_cell ?n (\<lambda>c. c\<lparr>prev_node := Some ?p\<rparr>) (change_cell ?p (\<lambda>c. c\<lparr>next_node := Some ?n\<rparr>) s))"
    by (simp add: s'_def refs_remove_node_from_list_def e)
  show "prev_node (cells s' x) = None" "next_node (cells s' x) = None" "fresh s' = fresh s"
    "cache_entry (cells s' a) = cache_entry (cells s a)" "last_access_ts_secs (cells s' a) = last_access_ts_secs (cells s a)"
    by (simp_all add: s')
  have p: "?p \<noteq> x" "?p \<in> set (ROOT # as)" and n: "?n \<noteq> x" "?n \<in> set (bs @ [ROOT])"
    using assms(1) last_in_set [of "ROOT # as"] hd_in_set [of "bs @ [ROOT]"] by auto
  have nx: "next_node (cells s' y) = (if y = x then None else if y = ?p then Some ?n else next_node (cells s y))" for y by (simp add: s')
  have pv: "prev_node (cells s' y) = (if y = x then None else if y = ?n then Some ?p else prev_node (cells s y))" for y by (simp add: s')
  show "chain (cells s') ROOT (as @ bs) ROOT"
  proof (cases bs)
    case Nil
    show ?thesis
    proof (cases as rule: rev_cases)
      case Nil
      then show ?thesis using \<open>bs = []\<close> nx pv p n by simp
    next
      case (snoc as' y)
      with c(1) have "chain (cells s) ROOT as' y" "next_node (cells s y) = Some x" by simp_all
      then have "chain (cells s') ROOT as' y"
        by (elim chain_cong) (use assms(1) snoc \<open>bs = []\<close> in \<open>auto simp: nx pv\<close>)
      moreover have "?p = y" "?n = ROOT" using snoc \<open>bs = []\<close> by simp_all
      ultimately show ?thesis using snoc \<open>bs = []\<close> nx pv p n by simp
    qed
  next
    case (Cons b bs')
    have n': "?n = b" using Cons by simp
    have "chain (cells s') ROOT as b"
    proof (cases as rule: rev_cases)
      case Nil
      then show ?thesis using nx pv p n n' by simp
    next
      case (snoc as' y)
      with c(1) have "chain (cells s) ROOT as' y" by simp
      then have "chain (cells s') ROOT as' y"
        by (elim chain_cong) (use assms(1) snoc Cons in \<open>auto simp: nx pv\<close>)
      then show ?thesis using snoc nx pv p n n' by simp
    qed
    moreover have "chain (cells s') b bs' ROOT"
    proof (rule chain_cong)
      show "chain (cells s) b bs' ROOT" using c(2) Cons by simp
    qed (use assms(1) Cons p(2) in \<open>auto simp: nx pv n'\<close>)
    ultimately show ?thesis using Cons by simp
  qed
qed

lemma insert_refs_chain:
  assumes "distinct (ROOT # x # xs)" "chain (cells s) ROOT xs ROOT" "prev_node (cells s x) = None" "next_node (cells s x) = None"
  shows "\<exists>s'. refs_insert_after x ROOT s = Inr s' \<and> chain (cells s') ROOT (x # xs) ROOT \<and> fresh s' = fresh s \<and>
    (\<forall>a. cache_entry (cells s' a) = cache_entry (cells s a) \<and> last_access_ts_secs (cells s' a) = last_access_ts_secs (cells s a))"
proof -
  let ?n = "hd (xs @ [ROOT])"
  have e: "next_node (cells s ROOT) = Some ?n" "prev_node (cells s ROOT) = Some (last (ROOT # xs))" using chain_ends [OF assms(2)] by auto
  define s' where "s' = change_cell ?n (\<lambda>c. c\<lparr>prev_node := Some x\<rparr>) (change_cell ROOT (\<lambda>c. c\<lparr>next_node := Some x\<rparr>)
      (change_cell x (\<lambda>c. c\<lparr>prev_node := Some ROOT, next_node := Some ?n\<rparr>) s))"
  have r: "refs_insert_after x ROOT s = Inr s'" by (simp add: refs_insert_after_def assms(3,4) e s'_def guardR_def)
  have n: "?n \<noteq> x" "?n \<in> set (xs @ [ROOT])" using assms(1) hd_in_set [of "xs @ [ROOT]"] by auto
  have nx: "next_node (cells s' y) = (if y = ROOT then Some x else if y = x then Some ?n else next_node (cells s y))" for y
    using assms(1) by (simp add: s'_def)
  have pv: "prev_node (cells s' y) = (if y = ?n then Some x else if y = x then Some ROOT else prev_node (cells s y))" for y
    using n by (simp add: s'_def)
  have "chain (cells s') x xs ROOT"
  proof (cases xs)
    case Nil
    then show ?thesis using nx pv assms(1) by simp
  next
    case (Cons y ys)
    then have "chain (cells s) y ys ROOT" using assms(2) by simp
    then have "chain (cells s') y ys ROOT" by (elim chain_cong) (use assms(1) Cons in \<open>auto simp: nx pv\<close>)
    then show ?thesis using Cons nx pv assms(1) by simp
  qed
  then have "chain (cells s') ROOT (x # xs) ROOT" using nx pv n assms(1) by simp
  then show ?thesis using r by (auto simp: s'_def)
qed

text \<open>Removing, inserting at the front and moving to the front, on the list of addresses.\<close>

lemma dll_remove:
  assumes "dll s xs" "x \<in> set xs"
  shows "dll (remove_from_list x s) (remove1 x xs)" "cache_entry (cells (remove_from_list x s) a) = (if a = x then None else cache_entry (cells s a))"
    "last_access_ts_secs (cells (remove_from_list x s) a) = last_access_ts_secs (cells s a)"
proof -
  from assms(2) obtain as bs where xs: "xs = as @ x # bs" "x \<notin> set as" by (meson split_list_first)
  have d: "distinct (ROOT # as @ x # bs)" "chain (cells s) ROOT (as @ x # bs) ROOT" using assms(1) xs by (simp_all add: dll_def)
  note r = remove_refs_chain [OF d]
  have "chain (cells (remove_from_list x s)) ROOT (as @ bs) ROOT"
    by (rule chain_cong [OF r(1)]) (simp_all add: remove_from_list_def)
  then show "dll (remove_from_list x s) (remove1 x xs)" using assms(1) xs r(4) by (auto simp: dll_def remove1_append remove_from_list_def)
  show "cache_entry (cells (remove_from_list x s) a) = (if a = x then None else cache_entry (cells s a))"
    "last_access_ts_secs (cells (remove_from_list x s) a) = last_access_ts_secs (cells s a)"
    using r(5,6) by (simp_all add: remove_from_list_def)
qed

lemma remove_absent: "prev_node (cells s x) = None \<Longrightarrow> remove_from_list x s = change_cell x (\<lambda>c. c\<lparr>cache_entry := None\<rparr>) s"
  by (simp add: remove_from_list_def refs_remove_node_from_list_def)

lemma dll_insert:
  assumes "dll s xs"
  shows "\<exists>s'. insert_after e ROOT s = Inr (fresh s, s') \<and> dll s' (fresh s # xs) \<and> fresh s' = fresh s + 1 \<and> fresh s \<notin> set (ROOT # xs) \<and>
    (\<forall>a. cache_entry (cells s' a) = (if a = fresh s then Some e else cache_entry (cells s a))) \<and>
    (\<forall>a. a \<noteq> fresh s \<longrightarrow> last_access_ts_secs (cells s' a) = last_access_ts_secs (cells s a))"
proof -
  let ?x = "fresh s"
  let ?s = "s\<lparr>cells := (cells s)(?x := new_node (Some e)), fresh := ?x + 1\<rparr>"
  have new: "?x \<notin> set (ROOT # xs)" using assms by (auto simp: dll_def)
  have d: "distinct (ROOT # ?x # xs)" using assms new by (auto simp: dll_def)
  have "chain (cells s) ROOT xs ROOT" using assms by (simp add: dll_def)
  then have "chain (cells ?s) ROOT xs ROOT" by (elim chain_cong) (use new in auto)
  from insert_refs_chain [OF d this] obtain s' where s': "refs_insert_after ?x ROOT ?s = Inr s'" "chain (cells s') ROOT (?x # xs) ROOT"
    "fresh s' = ?x + 1" "\<And>a. cache_entry (cells s' a) = cache_entry (cells ?s a)"
    "\<And>a. last_access_ts_secs (cells s' a) = last_access_ts_secs (cells ?s a)" by (auto simp: new_node_def)
  have "dll s' (?x # xs)" using d s'(2,3) assms by (auto simp: dll_def)
  then show ?thesis using s' new by (auto simp: insert_after_def new_node_def)
qed

lemma dll_move:
  assumes "dll s xs" "x \<in> set xs"
  shows "\<exists>s'. move_after x ROOT s = Inr s' \<and> dll s' (x # remove1 x xs) \<and> fresh s' = fresh s \<and>
    (\<forall>a. cache_entry (cells s' a) = cache_entry (cells s a) \<and> last_access_ts_secs (cells s' a) = last_access_ts_secs (cells s a))"
proof -
  from assms(2) obtain as bs where xs: "xs = as @ x # bs" "x \<notin> set as" by (meson split_list_first)
  have d: "distinct (ROOT # as @ x # bs)" "chain (cells s) ROOT (as @ x # bs) ROOT" using assms(1) xs by (simp_all add: dll_def)
  let ?s = "refs_remove_node_from_list x s"
  note r = remove_refs_chain [OF d]
  have "distinct (ROOT # x # as @ bs)" using d by auto
  from insert_refs_chain [OF this r(1-3)] obtain s' where s': "refs_insert_after x ROOT ?s = Inr s'"
    "chain (cells s') ROOT (x # as @ bs) ROOT" "fresh s' = fresh ?s"
    "\<And>a. cache_entry (cells s' a) = cache_entry (cells ?s a) \<and> last_access_ts_secs (cells s' a) = last_access_ts_secs (cells ?s a)" by blast
  have "move_after x ROOT s = Inr s'"
    using dll_linked [OF assms(1), of x] dll_linked [OF assms(1), of ROOT] assms xs s'(1) d(1) by (auto simp: move_after_def guardR_def)
  moreover have "dll s' (x # remove1 x xs)" using s'(2,3) r(4) assms(1) xs by (auto simp: dll_def remove1_append)
  ultimately show ?thesis using s'(3,4) r(4-6) by auto
qed

lemma dll_access: "dll s xs \<Longrightarrow> dll (update_last_access a now s) xs"
  unfolding dll_def update_last_access_def by (auto elim!: chain_cong)

end
