(* ===== verification/Lru_Cache.thy ===== *)
theory Lru_Cache
  imports Linked_List Actions Json_Values
begin

text \<open>
  \<open>LruCache\<close> of \<open>util/caches/lrucache.py\<close> with the \<open>TreeCache\<close> of \<open>util/caches/treecache.py\<close>.  An
  entry of the cache is a \<open>_Node\<close>; it is named by the address of its list node, which is created
  with it.  The methods of a cache hold its lock, so each is one action; what the callbacks of an
  entry do is outside, and \<open>lc_ran\<close> is the list of those that have run.  Metrics and the size in
  memory are left out.
\<close>

section \<open>\<open>TreeCache\<close>\<close>

datatype ('k, 'v) tree_entry = Leaf 'v | Tree "('k \<times> ('k, 'v) tree_entry) list"

type_synonym ('k, 'v) tree_dict = "('k \<times> ('k, 'v) tree_entry) list"

record ('k, 'v) tree_cache =
  tc_root :: "('k, 'v) tree_dict"
  tc_size :: int

definition new_tree_cache :: "('k, 'v) tree_cache" where
  "new_tree_cache = \<lparr>tc_root = [], tc_size = 0\<rparr>"

fun tree_set :: "'k list \<Rightarrow> 'v \<Rightarrow> ('k, 'v) tree_dict \<Rightarrow> ('k, 'v) tree_dict result" where
  "tree_set [] v d = Inl IndexErr"
| "tree_set [k] v d = Inr (AList.update k (Leaf v) d)"
| "tree_set (k # k' # ks) v d =
     (case map_of d k of
        None \<Rightarrow> bindR (tree_set (k' # ks) v []) (\<lambda>t. Inr (AList.update k (Tree t) d))
      | Some (Tree t) \<Rightarrow> bindR (tree_set (k' # ks) v t) (\<lambda>t'. Inr (AList.update k (Tree t') d))
      | Some (Leaf _) \<Rightarrow> Inl ValueErr)"

definition tc_set :: "'k list \<Rightarrow> 'v \<Rightarrow> ('k, 'v) tree_cache \<Rightarrow> ('k, 'v) tree_cache result" where
  "tc_set key v c = bindR (tree_set key v (tc_root c)) (\<lambda>d. Inr (c\<lparr>tc_root := d, tc_size := tc_size c + 1\<rparr>))"

fun tree_get :: "'k list \<Rightarrow> ('k, 'v) tree_dict \<Rightarrow> ('k, 'v) tree_entry option result" where
  "tree_get [] d = Inl IndexErr"
| "tree_get [k] d = Inr (map_of d k)"
| "tree_get (k # k' # ks) d =
     (case map_of d k of
        None \<Rightarrow> Inr None
      | Some (Tree t) \<Rightarrow> tree_get (k' # ks) t
      | Some (Leaf _) \<Rightarrow> Inl AttributeErr)"

fun tree_pop :: "'k list \<Rightarrow> ('k, 'v) tree_dict \<Rightarrow> (('k, 'v) tree_entry option \<times> ('k, 'v) tree_dict) result" where
  "tree_pop [] d = Inl IndexErr"
| "tree_pop [k] d = Inr (map_of d k, AList.delete k d)"
| "tree_pop (k # k' # ks) d =
     (case map_of d k of
        None \<Rightarrow> Inr (None, d)
      | Some (Leaf _) \<Rightarrow> Inl ValueErr
      | Some (Tree t) \<Rightarrow>
          bindR (tree_pop (k' # ks) t) (\<lambda>(popped, t').
            Inr (popped, if popped = None then d else if t' = [] then AList.delete k d else AList.update k (Tree t') d)))"

fun iterate_tree_cache_items :: "'k list \<Rightarrow> ('k, 'v) tree_entry \<Rightarrow> ('k list \<times> 'v) list" where
  "iterate_tree_cache_items key (Leaf v) = [(key, v)]"
| "iterate_tree_cache_items key (Tree d) = concat (map (\<lambda>(k, t). iterate_tree_cache_items (key @ [k]) t) d)"

fun iterate_tree_cache_entry :: "('k, 'v) tree_entry \<Rightarrow> 'v list" where
  "iterate_tree_cache_entry (Leaf v) = [v]"
| "iterate_tree_cache_entry (Tree d) = concat (map (\<lambda>(k, t). iterate_tree_cache_entry t) d)"

definition tc_pop :: "'k list \<Rightarrow> ('k, 'v) tree_cache \<Rightarrow> (('k, 'v) tree_entry option \<times> ('k, 'v) tree_cache) result" where
  "tc_pop key c =
     bindR (tree_pop key (tc_root c)) (\<lambda>(popped, d).
       Inr (popped, case popped of None \<Rightarrow> c | Some t \<Rightarrow>
         c\<lparr>tc_root := d, tc_size := tc_size c - int (length (iterate_tree_cache_entry t))\<rparr>))"

section \<open>The dictionary behind a cache\<close>

text \<open>
  What \<open>LruCache\<close> uses of \<open>cache_type\<close>.  A lookup in a \<open>TreeCache\<close> with a partial key finds a subtree; \<open>b_pop\<close>
  gives the leaves of what was removed.
\<close>

datatype lookup = Missing | Entry nat | Subtree

record ('d, 'k) backing =
  b_empty :: 'd
  b_get :: "'k \<Rightarrow> 'd \<Rightarrow> lookup result"
  b_set :: "'k \<Rightarrow> nat \<Rightarrow> 'd \<Rightarrow> 'd result"
  b_pop :: "'k \<Rightarrow> 'd \<Rightarrow> (nat list option \<times> 'd) result"
  b_len :: "'d \<Rightarrow> int"
  b_values :: "'d \<Rightarrow> nat list"

definition dict_backing :: "(('k \<times> nat) list, 'k) backing" where
  "dict_backing = \<lparr>b_empty = [],
     b_get = (\<lambda>k d. Inr (case map_of d k of None \<Rightarrow> Missing | Some n \<Rightarrow> Entry n)),
     b_set = (\<lambda>k n d. Inr (AList.update k n d)),
     b_pop = (\<lambda>k d. Inr (map_option (\<lambda>n. [n]) (map_of d k), AList.delete k d)),
     b_len = (\<lambda>d. int (length d)), b_values = map snd\<rparr>"

definition tree_backing :: "(('k, nat) tree_cache, 'k list) backing" where
  "tree_backing = \<lparr>b_empty = new_tree_cache,
     b_get = (\<lambda>k c. bindR (tree_get k (tc_root c)) (\<lambda>e.
       Inr (case e of None \<Rightarrow> Missing | Some (Leaf n) \<Rightarrow> Entry n | Some (Tree _) \<Rightarrow> Subtree))),
     b_set = tc_set,
     b_pop = (\<lambda>k c. bindR (tc_pop k c) (\<lambda>(popped, c'). Inr (map_option iterate_tree_cache_entry popped, c'))),
     b_len = tc_size, b_values = (\<lambda>c. iterate_tree_cache_entry (Tree (tc_root c)))\<rparr>"

section \<open>\<open>LruCache\<close>\<close>

record ('k, 'v, 'cb) lru_node =
  ln_key :: 'k
  ln_value :: 'v
  ln_callbacks :: "'cb list option"
  ln_global :: "nat option"

record ('d, 'k, 'v, 'cb) lru_cache =
  lc_dict :: 'd
  lc_nodes :: "nat \<Rightarrow> ('k, 'v, 'cb) lru_node option"
  lc_list :: "nat node_store"
  lc_global :: "nat node_store"
  lc_max_size :: int
  lc_cached_len :: int
  lc_ran :: "'cb list"

text \<open>\<open>timed\<close>: whether entries are put into the global list, \<open>USE_GLOBAL_LIST and prune_unread_entries\<close>.\<close>

record 'v lru_config =
  size_callback :: "('v \<Rightarrow> int) option"
  timed :: bool
  lc_original_max_size :: int
  apply_cache_factor :: bool

definition the_node :: "nat \<Rightarrow> ('d, 'k, 'v, 'cb) lru_cache \<Rightarrow> ('k, 'v, 'cb) lru_node" where
  "the_node x s = the (lc_nodes s x)"

definition change_node ::
  "nat \<Rightarrow> (('k, 'v, 'cb) lru_node \<Rightarrow> ('k, 'v, 'cb) lru_node) \<Rightarrow> ('d, 'k, 'v, 'cb) lru_cache \<Rightarrow> ('d, 'k, 'v, 'cb) lru_cache" where
  "change_node x f s = s\<lparr>lc_nodes := (lc_nodes s)(x := map_option f (lc_nodes s x))\<rparr>"

definition add_callbacks :: "'cb list \<Rightarrow> 'cb list option \<Rightarrow> 'cb list option" where
  "add_callbacks cbs old =
     (if cbs = [] then old
      else Some (foldl (\<lambda>acc cb. if cb \<in> set acc then acc else acc @ [cb]) (case old of None \<Rightarrow> [] | Some l \<Rightarrow> l) cbs))"

definition run_and_clear_callbacks :: "nat \<Rightarrow> ('d, 'k, 'v, 'cb) lru_cache \<Rightarrow> ('d, 'k, 'v, 'cb) lru_cache" where
  "run_and_clear_callbacks x s =
     (case ln_callbacks (the_node x s) of
        None \<Rightarrow> s
      | Some cbs \<Rightarrow> if cbs = [] then s else (change_node x (\<lambda>n. n\<lparr>ln_callbacks := None\<rparr>) s)\<lparr>lc_ran := lc_ran s @ cbs\<rparr>)"

definition drop_from_lists :: "nat \<Rightarrow> ('d, 'k, 'v, 'cb) lru_cache \<Rightarrow> ('d, 'k, 'v, 'cb) lru_cache" where
  "drop_from_lists x s = s\<lparr>lc_list := remove_from_list x (lc_list s),
     lc_global := (case ln_global (the_node x s) of None \<Rightarrow> lc_global s | Some g \<Rightarrow> remove_from_list g (lc_global s))\<rparr>"

definition move_to_front :: "int \<Rightarrow> nat \<Rightarrow> (('d, 'k, 'v, 'cb) lru_cache, unit) action" where
  "move_to_front now x =
     bindA (readA (\<lambda>s. move_after x ROOT (lc_list s))) (\<lambda>r.
     bindA (liftA r) (\<lambda>l.
     bindA (writeA (\<lambda>s. s\<lparr>lc_list := l\<rparr>)) (\<lambda>_.
     bindA (readA (\<lambda>s. ln_global (the_node x s))) (\<lambda>g.
       (case g of
          None \<Rightarrow> returnA ()
        | Some g \<Rightarrow>
            bindA (readA (\<lambda>s. move_after g ROOT (lc_global s))) (\<lambda>r.
            bindA (liftA r) (\<lambda>l. writeA (\<lambda>s. s\<lparr>lc_global := update_last_access g now l\<rparr>))))))))"

definition cache_len :: "('d, 'k) backing \<Rightarrow> 'v lru_config \<Rightarrow> ('d, 'k, 'v, 'cb) lru_cache \<Rightarrow> int" where
  "cache_len B cfg s = (case size_callback cfg of Some _ \<Rightarrow> lc_cached_len s | None \<Rightarrow> b_len B (lc_dict s))"

definition add_len :: "'v lru_config \<Rightarrow> int \<Rightarrow> 'v \<Rightarrow> ('d, 'k, 'v, 'cb) lru_cache \<Rightarrow> ('d, 'k, 'v, 'cb) lru_cache" where
  "add_len cfg m v s = (case size_callback cfg of None \<Rightarrow> s | Some f \<Rightarrow> s\<lparr>lc_cached_len := lc_cached_len s + m * f v\<rparr>)"

text \<open>The constructor of \<open>_Node\<close>, and \<open>add_node\<close>.\<close>

definition add_global_node :: "'v lru_config \<Rightarrow> int \<Rightarrow> nat \<Rightarrow> (('d, 'k, 'v, 'cb) lru_cache, nat option) action" where
  "add_global_node cfg now x =
     (if timed cfg then
        bindA (readA (\<lambda>s. insert_after x ROOT (lc_global s))) (\<lambda>r.
        bindA (liftA r) (\<lambda>(g, gl).
        bindA (writeA (\<lambda>s. s\<lparr>lc_global := update_last_access g now gl\<rparr>)) (\<lambda>_. returnA (Some g))))
      else returnA None)"

definition add_node ::
  "('d, 'k) backing \<Rightarrow> 'v lru_config \<Rightarrow> int \<Rightarrow> 'k \<Rightarrow> 'v \<Rightarrow> 'cb list \<Rightarrow> (('d, 'k, 'v, 'cb) lru_cache, unit) action" where
  "add_node B cfg now key value callbacks =
     bindA (readA (\<lambda>s. insert_after (fresh (lc_list s)) ROOT (lc_list s))) (\<lambda>r.
     bindA (liftA r) (\<lambda>(x, l).
     bindA (writeA (\<lambda>s. s\<lparr>lc_list := l\<rparr>)) (\<lambda>_.
     bindA (add_global_node cfg now x) (\<lambda>g.
     bindA (writeA (\<lambda>s. s\<lparr>lc_nodes := (lc_nodes s)(x \<mapsto>
         \<lparr>ln_key = key, ln_value = value, ln_callbacks = add_callbacks callbacks None, ln_global = g\<rparr>)\<rparr>)) (\<lambda>_.
     bindA (readA (\<lambda>s. b_set B key x (lc_dict s))) (\<lambda>r.
     bindA (liftA r) (\<lambda>d.
       writeA (\<lambda>s. add_len cfg 1 value (s\<lparr>lc_dict := d\<rparr>)))))))))"

definition delete_node :: "'v lru_config \<Rightarrow> nat \<Rightarrow> ('d, 'k, 'v, 'cb) lru_cache \<Rightarrow> ('d, 'k, 'v, 'cb) lru_cache" where
  "delete_node cfg x s =
     (let s1 = drop_from_lists x s
      in run_and_clear_callbacks x (add_len cfg (- 1) (ln_value (the_node x s1)) s1))"

definition evict_one :: "('d, 'k) backing \<Rightarrow> 'v lru_config \<Rightarrow> (('d, 'k, 'v, 'cb) lru_cache, unit) action" where
  "evict_one B cfg =
     bindA (readA (\<lambda>s. prev_node (cells (lc_list s) ROOT))) (\<lambda>todelete.
       (case todelete of
          None \<Rightarrow> raiseA AssertionErr
        | Some t \<Rightarrow>
            bindA (readA (\<lambda>s. get_cache_entry t (lc_list s))) (\<lambda>node.
              (case node of
                 None \<Rightarrow> raiseA AssertionErr
               | Some x \<Rightarrow>
                   bindA (writeA (delete_node cfg x)) (\<lambda>_.
                   bindA (readA (\<lambda>s. b_pop B (ln_key (the_node x s)) (lc_dict s))) (\<lambda>r.
                   bindA (liftA r) (\<lambda>(_, d). writeA (\<lambda>s. s\<lparr>lc_dict := d\<rparr>))))))))"

partial_function (option) lru_evict ::
  "('d, 'k) backing \<Rightarrow> 'v lru_config \<Rightarrow> ('d, 'k, 'v, 'cb) lru_cache \<Rightarrow> (unit result \<times> ('d, 'k, 'v, 'cb) lru_cache) option" where
  [code]: "lru_evict B cfg s =
     (if cache_len B cfg s > lc_max_size s then
        (case evict_one B cfg s of (r, s') \<Rightarrow> (case r of Inl e \<Rightarrow> Some (Inl e, s') | Inr _ \<Rightarrow> lru_evict B cfg s'))
      else Some (Inr (), s))"

definition then_evict ::
  "('d, 'k) backing \<Rightarrow> 'v lru_config \<Rightarrow> (('d, 'k, 'v, 'cb) lru_cache, 'a) action
   \<Rightarrow> ('d, 'k, 'v, 'cb) lru_cache \<Rightarrow> ('a result \<times> ('d, 'k, 'v, 'cb) lru_cache) option" where
  "then_evict B cfg m s =
     (case m s of
        (Inl e, s') \<Rightarrow> Some (Inl e, s')
      | (Inr a, s') \<Rightarrow> map_option (\<lambda>(r, s''). (bindR r (\<lambda>_. Inr a), s'')) (lru_evict B cfg s'))"

definition cache_get ::
  "('d, 'k) backing \<Rightarrow> int \<Rightarrow> 'k \<Rightarrow> 'cb list \<Rightarrow> bool \<Rightarrow> (('d, 'k, 'v, 'cb) lru_cache, 'v option) action" where
  "cache_get B now key callbacks touch =
     bindA (readA (\<lambda>s. b_get B key (lc_dict s))) (\<lambda>r.
     bindA (liftA r) (\<lambda>node.
       (case node of
          Missing \<Rightarrow> returnA None
        | Subtree \<Rightarrow> raiseA AttributeErr
        | Entry x \<Rightarrow>
            bindA (if touch then move_to_front now x else returnA ()) (\<lambda>_.
            bindA (writeA (change_node x (\<lambda>n. n\<lparr>ln_callbacks := add_callbacks callbacks (ln_callbacks n)\<rparr>))) (\<lambda>_.
              readA (\<lambda>s. Some (ln_value (the_node x s))))))))"

text \<open>A generator, here with the values at the time of the call.\<close>

definition cache_get_multi ::
  "'k list \<Rightarrow> ((('k, nat) tree_cache, 'k list, 'v, 'cb) lru_cache, ('k list \<times> 'v) list option) action" where
  "cache_get_multi key =
     bindA (readA (\<lambda>s. tree_get key (tc_root (lc_dict s)))) (\<lambda>r.
     bindA (liftA r) (\<lambda>node.
       readA (\<lambda>s. map_option (\<lambda>t. map (\<lambda>(k, x). (k, ln_value (the_node x s))) (iterate_tree_cache_items key t)) node)))"

definition cache_set_value ::
  "('d, 'k) backing \<Rightarrow> 'v lru_config \<Rightarrow> int \<Rightarrow> 'k \<Rightarrow> 'v \<Rightarrow> 'cb list \<Rightarrow> (('d, 'k, 'v, 'cb) lru_cache, unit) action" where
  "cache_set_value B cfg now key value callbacks =
     bindA (readA (\<lambda>s. b_get B key (lc_dict s))) (\<lambda>r.
     bindA (liftA r) (\<lambda>node.
       (case node of
          Subtree \<Rightarrow> raiseA AttributeErr
        | Missing \<Rightarrow> add_node B cfg now key value (remdups callbacks)
        | Entry x \<Rightarrow>
            bindA (writeA (\<lambda>s. if value \<noteq> ln_value (the_node x s) then run_and_clear_callbacks x s else s)) (\<lambda>_.
            bindA (writeA (\<lambda>s. add_len cfg 1 value (add_len cfg (- 1) (ln_value (the_node x s)) s))) (\<lambda>_.
            bindA (writeA (change_node x (\<lambda>n. n\<lparr>ln_callbacks := add_callbacks callbacks (ln_callbacks n)\<rparr>))) (\<lambda>_.
            bindA (move_to_front now x) (\<lambda>_.
              writeA (change_node x (\<lambda>n. n\<lparr>ln_value := value\<rparr>)))))))))"

definition cache_set ::
  "('d, 'k) backing \<Rightarrow> 'v lru_config \<Rightarrow> int \<Rightarrow> 'k \<Rightarrow> 'v \<Rightarrow> 'cb list
   \<Rightarrow> ('d, 'k, 'v, 'cb) lru_cache \<Rightarrow> (unit result \<times> ('d, 'k, 'v, 'cb) lru_cache) option" where
  "cache_set B cfg now key value callbacks = then_evict B cfg (cache_set_value B cfg now key value callbacks)"

definition cache_set_default ::
  "('d, 'k) backing \<Rightarrow> 'v lru_config \<Rightarrow> int \<Rightarrow> 'k \<Rightarrow> 'v
   \<Rightarrow> ('d, 'k, 'v, 'cb) lru_cache \<Rightarrow> ('v result \<times> ('d, 'k, 'v, 'cb) lru_cache) option" where
  "cache_set_default B cfg now key value s =
     (case b_get B key (lc_dict s) of
        Inl e \<Rightarrow> Some (Inl e, s)
      | Inr (Entry x) \<Rightarrow> Some (Inr (ln_value (the_node x s)), s)
      | Inr Subtree \<Rightarrow> Some (Inl AttributeErr, s)
      | Inr Missing \<Rightarrow> then_evict B cfg (bindA (add_node B cfg now key value []) (\<lambda>_. returnA value)) s)"

definition cache_pop :: "('d, 'k) backing \<Rightarrow> 'v lru_config \<Rightarrow> 'k \<Rightarrow> (('d, 'k, 'v, 'cb) lru_cache, 'v option) action" where
  "cache_pop B cfg key =
     bindA (readA (\<lambda>s. b_get B key (lc_dict s))) (\<lambda>r.
     bindA (liftA r) (\<lambda>node.
       (case node of
          Missing \<Rightarrow> returnA None
        | Subtree \<Rightarrow> raiseA AttributeErr
        | Entry x \<Rightarrow>
            bindA (writeA (delete_node cfg x)) (\<lambda>_.
            bindA (readA (\<lambda>s. b_pop B (ln_key (the_node x s)) (lc_dict s))) (\<lambda>r.
            bindA (liftA r) (\<lambda>(_, d).
            bindA (writeA (\<lambda>s. s\<lparr>lc_dict := d\<rparr>)) (\<lambda>_.
              readA (\<lambda>s. Some (ln_value (the_node x s))))))))))"

definition cache_del_multi :: "('d, 'k) backing \<Rightarrow> 'v lru_config \<Rightarrow> 'k \<Rightarrow> (('d, 'k, 'v, 'cb) lru_cache, unit) action" where
  "cache_del_multi B cfg key =
     bindA (readA (\<lambda>s. b_pop B key (lc_dict s))) (\<lambda>r.
     bindA (liftA r) (\<lambda>(popped, d).
     bindA (writeA (\<lambda>s. s\<lparr>lc_dict := d\<rparr>)) (\<lambda>_.
       writeA (\<lambda>s. case popped of None \<Rightarrow> s | Some leaves \<Rightarrow> fold (delete_node cfg) leaves s))))"

definition cache_clear :: "('d, 'k) backing \<Rightarrow> 'v lru_config \<Rightarrow> (('d, 'k, 'v, 'cb) lru_cache, unit) action" where
  "cache_clear B cfg =
     bindA (writeA (\<lambda>s. fold (\<lambda>x s. drop_from_lists x (run_and_clear_callbacks x s)) (b_values B (lc_dict s)) s)) (\<lambda>_.
     bindA (readA (\<lambda>s. cells (lc_list s) ROOT)) (\<lambda>root.
     bindA (guardA (next_node root = Some ROOT) AssertionErr) (\<lambda>_.
     bindA (guardA (prev_node root = Some ROOT) AssertionErr) (\<lambda>_.
       writeA (\<lambda>s. s\<lparr>lc_dict := b_empty B,
         lc_cached_len := (case size_callback cfg of None \<Rightarrow> lc_cached_len s | Some _ \<Rightarrow> 0)\<rparr>)))))"

definition cache_contains :: "('d, 'k) backing \<Rightarrow> 'k \<Rightarrow> (('d, 'k, 'v, 'cb) lru_cache, bool) action" where
  "cache_contains B key =
     bindA (readA (\<lambda>s. b_get B key (lc_dict s))) (\<lambda>r. bindA (liftA r) (\<lambda>node. returnA (node \<noteq> Missing)))"

text \<open>\<open>int(size * factor)\<close>, with the factor as an exact number.\<close>

definition scaled_size :: "int \<Rightarrow> rat \<Rightarrow> int" where
  "scaled_size n factor = trunc_rat (of_int n * factor)"

definition lru_set_cache_factor ::
  "('d, 'k) backing \<Rightarrow> 'v lru_config \<Rightarrow> rat \<Rightarrow> ('d, 'k, 'v, 'cb) lru_cache \<Rightarrow> (unit result \<times> ('d, 'k, 'v, 'cb) lru_cache) option" where
  "lru_set_cache_factor B cfg factor s =
     (if \<not> apply_cache_factor cfg then Some (Inr (), s)
      else
        (let new_size = scaled_size (lc_original_max_size cfg) factor
         in if new_size \<noteq> lc_max_size s then lru_evict B cfg (s\<lparr>lc_max_size := new_size\<rparr>) else Some (Inr (), s)))"

definition new_lru_cache :: "('d, 'k) backing \<Rightarrow> 'v lru_config \<Rightarrow> rat \<Rightarrow> nat node_store \<Rightarrow> ('d, 'k, 'v, 'cb) lru_cache" where
  "new_lru_cache B cfg default_factor_size global = \<lparr>lc_dict = b_empty B, lc_nodes = (\<lambda>_. None), lc_list = create_root_node, lc_global = global,
     lc_max_size = (if apply_cache_factor cfg then scaled_size (lc_original_max_size cfg) default_factor_size else lc_original_max_size cfg),
     lc_cached_len = 0, lc_ran = []\<rparr>"

end
