(* ===== verification/Lru_Backing.thy ===== *)
theory Lru_Backing
  imports Lru_Cache "HOL-Library.Multiset"
begin

text \<open>
  What a cache relies on in the dictionary behind it, as a locale, and that \<open>dict\<close> and \<open>TreeCache\<close>
  provide it.  A key covers itself; in a \<open>TreeCache\<close> a partial key covers the keys that start with
  it.
\<close>

lemma distinct_values:
  assumes "mset l = image_mset f (mset_set K)" "finite K" "inj_on f K"
  shows "distinct l" "set l = f ` K"
proof -
  obtain zs where zs: "set zs = f ` K" "distinct zs" using finite_distinct_list [of "f ` K"] assms(2) by blast
  have "mset l = mset_set (f ` K)" using assms(1) image_mset_mset_set [OF assms(3)] by simp
  also have "... = mset zs" using mset_set_set [OF zs(2)] zs(1) by simp
  finally have "mset l = mset zs" .
  then show "distinct l" "set l = f ` K" using zs mset_eq_imp_distinct_iff mset_eq_setD by blast+
qed

locale backing_store =
  fixes B :: "('d, 'k) backing"
    and binv :: "'d \<Rightarrow> bool"
    and contents :: "'d \<Rightarrow> 'k \<Rightarrow> nat option"
    and full :: "'k \<Rightarrow> bool"
    and partial :: "'k \<Rightarrow> bool"
    and covers :: "'k \<Rightarrow> 'k \<Rightarrow> bool"
  assumes b_new: "binv (b_empty B)" "contents (b_empty B) = Map.empty"
    and b_finite: "binv d \<Longrightarrow> finite (dom (contents d))"
    and b_keys: "binv d \<Longrightarrow> contents d k = Some n \<Longrightarrow> full k"
    and b_covers: "full k \<Longrightarrow> partial k" "full k \<Longrightarrow> full k' \<Longrightarrow> covers k k' \<longleftrightarrow> k' = k"
    and b_lookup: "binv d \<Longrightarrow> full k \<Longrightarrow> b_get B k d = Inr (case contents d k of None \<Rightarrow> Missing | Some n \<Rightarrow> Entry n)"
    and b_insert: "binv d \<Longrightarrow> full k \<Longrightarrow> contents d k = None \<Longrightarrow>
      \<exists>d'. b_set B k n d = Inr d' \<and> binv d' \<and> contents d' = (contents d)(k \<mapsto> n)"
    and b_remove: "binv d \<Longrightarrow> partial p \<Longrightarrow>
      \<exists>ls d'. b_pop B p d = Inr (ls, d') \<and> binv d' \<and> contents d' = contents d |` {k. \<not> covers p k} \<and>
        mset (case ls of None \<Rightarrow> [] | Some l \<Rightarrow> l) = image_mset (the \<circ> contents d) (mset_set {k \<in> dom (contents d). covers p k})"
    and b_size: "binv d \<Longrightarrow> b_len B d = int (card (dom (contents d)))"
    and b_all: "binv d \<Longrightarrow> mset (b_values B d) = image_mset (the \<circ> contents d) (mset_set (dom (contents d)))"
begin

text \<open>What was removed under a key, if no two keys have the same value.\<close>

lemma b_removed:
  assumes "binv d" "partial p" "inj_on (contents d) (dom (contents d))" "b_pop B p d = Inr (ls, d')"
  shows "binv d' \<and> contents d' = contents d |` {k. \<not> covers p k} \<and> distinct (case ls of None \<Rightarrow> [] | Some l \<Rightarrow> l) \<and>
    set (case ls of None \<Rightarrow> [] | Some l \<Rightarrow> l) = {n. \<exists>k. contents d k = Some n \<and> covers p k}"
proof -
  let ?K = "{k \<in> dom (contents d). covers p k}" and ?l = "case ls of None \<Rightarrow> [] | Some l \<Rightarrow> l"
  have r: "binv d'" "contents d' = contents d |` {k. \<not> covers p k}" "mset ?l = image_mset (the \<circ> contents d) (mset_set ?K)"
    using b_remove [OF assms(1,2)] assms(4) by auto
  have inj: "inj_on (the \<circ> contents d) ?K"
    using assms(3) by (auto simp: inj_on_def dom_def) 
  have fin: "finite ?K" using b_finite [OF assms(1)] by simp
  have "(the \<circ> contents d) ` ?K = {n. \<exists>k. contents d k = Some n \<and> covers p k}" by (force simp: image_iff dom_def)
  with distinct_values [OF r(3) fin inj] r(1,2) show ?thesis by blast
qed

lemma b_all_values:
  assumes "binv d" "inj_on (contents d) (dom (contents d))"
  shows "distinct (b_values B d) \<and> set (b_values B d) = ran (contents d)"
proof -
  let ?K = "dom (contents d)"
  have inj: "inj_on (the \<circ> contents d) ?K" using assms(2) by (auto simp: inj_on_def dom_def)
  have "(the \<circ> contents d) ` ?K = ran (contents d)" by (force simp: ran_def image_iff dom_def)
  with distinct_values [OF b_all [OF assms(1)] b_finite [OF assms(1)] inj] show ?thesis by blast
qed

end

section \<open>\<open>dict\<close>\<close>

lemma values_by_key: "distinct (map fst d) \<Longrightarrow> mset (map snd d) = image_mset (the \<circ> map_of d) (mset_set (dom (map_of d)))"
proof -
  assume d: "distinct (map fst d)"
  have "map snd d = map (the \<circ> map_of d) (map fst d)" using d by (auto simp: map_of_eq_Some_iff)
  then have "mset (map snd d) = image_mset (the \<circ> map_of d) (mset (map fst d))" by (metis mset_map)
  also have "mset (map fst d) = mset_set (dom (map_of d))" using mset_set_set [OF d] by (simp add: dom_map_of_conv_image_fst)
  finally show ?thesis .
qed

interpretation dict_store: backing_store dict_backing "\<lambda>d. distinct (map fst d)" map_of "\<lambda>_. True" "\<lambda>_. True" "(=)"
proof (unfold_locales, goal_cases)
  case (9 d p)
  have "{k \<in> dom (map_of d). p = k} = (if map_of d p = None then {} else {p})" by auto
  then show ?case using 9 by (auto simp: dict_backing_def AList.distinct_delete AList.delete_conv' restrict_map_def fun_eq_iff split: option.split)
next
  case (10 d)
  then have "card (set (map fst d)) = length d" using distinct_card [of "map fst d"] by simp
  then show ?case by (simp add: dict_backing_def dom_map_of_conv_image_fst)
next
  case (11 d)
  then show ?case using values_by_key by (auto simp: dict_backing_def)
qed (auto simp: dict_backing_def finite_dom_map_of AList.distinct_update AList.update_conv')

section \<open>\<open>TreeCache\<close>\<close>

text \<open>All keys have \<open>n\<close> parts, and no subtree is empty.\<close>

fun tree_wf :: "nat \<Rightarrow> ('k, 'v) tree_dict \<Rightarrow> bool" where
  "tree_wf 0 d \<longleftrightarrow> False"
| "tree_wf (Suc n) d \<longleftrightarrow> distinct (map fst d) \<and>
     (\<forall>e \<in> set d. case snd e of Leaf _ \<Rightarrow> n = 0 | Tree t \<Rightarrow> t \<noteq> [] \<and> tree_wf n t)"

abbreviation entry_items :: "('k, 'v) tree_entry \<Rightarrow> ('k list \<times> 'v) list" where
  "entry_items \<equiv> iterate_tree_cache_items []"

abbreviation tree_items :: "('k, 'v) tree_dict \<Rightarrow> ('k list \<times> 'v) list" where
  "tree_items d \<equiv> entry_items (Tree d)"

lemma items_prefix: "iterate_tree_cache_items key t = map (\<lambda>(ks, v). (key @ ks, v)) (entry_items t)"
proof (induction t arbitrary: key)
  case (Tree d)
  have "iterate_tree_cache_items (key @ [k]) t = map (\<lambda>(ks, v). (key @ ks, v)) (iterate_tree_cache_items ([] @ [k]) t)"
    if "(k, t) \<in> set d" for k t
    using Tree.IH [OF that, of t "key @ [k]"] Tree.IH [OF that, of t "[] @ [k]"] by (simp add: case_prod_unfold comp_def)
  then have "map (\<lambda>(k, t). iterate_tree_cache_items (key @ [k]) t) d =
      map (\<lambda>e. map (\<lambda>(ks, v). (key @ ks, v)) (case e of (k, t) \<Rightarrow> iterate_tree_cache_items ([] @ [k]) t)) d"
    by (intro map_cong) auto
  then show ?case unfolding iterate_tree_cache_items.simps map_concat map_map comp_def by (rule arg_cong)
qed simp

lemma leaves_items: "iterate_tree_cache_entry t = map snd (entry_items t)"
proof (induction t)
  case (Tree d)
  have "iterate_tree_cache_entry t = map snd (iterate_tree_cache_items ([] @ [k]) t)" if "(k, t) \<in> set d" for k t
    using Tree.IH [OF that, of t] items_prefix [of "[k]" t] by (simp add: case_prod_unfold comp_def)
  then have "map (\<lambda>(k, t). iterate_tree_cache_entry t) d = map (\<lambda>e. map snd (case e of (k, t) \<Rightarrow> iterate_tree_cache_items ([] @ [k]) t)) d"
    by (intro map_cong) auto
  then show ?case unfolding iterate_tree_cache_items.simps iterate_tree_cache_entry.simps map_concat map_map comp_def by (rule arg_cong)
qed simp

lemma tree_items_Cons: "tree_items ((k, t) # d) = map (\<lambda>(ks, v). (k # ks, v)) (entry_items t) @ tree_items d"
  using items_prefix [of "[k]" t] by simp

lemma no_items [simp]: "tree_items [] = []"
  by simp

lemma tree_items_Nil: "map_of (tree_items d) [] = None"
proof (induction d)
  case (Cons e d)
  then show ?case
    by (cases e) (auto simp: tree_items_Cons map_of_eq_None_iff simp del: iterate_tree_cache_items.simps(2) map_of_append)
qed simp

lemma map_of_prefixed:
  "map_of (map (\<lambda>(ks, v). (k # ks, v)) xs) (k' # ks) = (if k' = k then map_of xs ks else None)"
  by (induction xs) auto

text \<open>A key is looked up one part after the other.\<close>

lemma tree_items_lookup:
  assumes "distinct (map fst d)"
  shows "map_of (tree_items d) (k # ks) = (case map_of d k of None \<Rightarrow> None | Some t \<Rightarrow> map_of (entry_items t) ks)"
  using assms
proof (induction d)
  case (Cons e d)
  obtain k' t where e: "e = (k', t)" by force
  have "k' = k \<Longrightarrow> map_of d k = None" using Cons.prems e by (auto simp: map_of_eq_None_iff)
  with Cons e show ?case
    by (auto simp: tree_items_Cons map_add_def map_of_prefixed simp del: iterate_tree_cache_items.simps(2) split: option.splits)
qed simp

lemma tree_items_distinct: "tree_wf n d \<Longrightarrow> distinct (map fst (tree_items d))"
proof (induction n arbitrary: d)
  case (Suc n)
  have "distinct (map fst d) \<Longrightarrow> (\<And>e. e \<in> set d \<Longrightarrow> distinct (map fst (entry_items (snd e)))) \<Longrightarrow> distinct (map fst (tree_items d))"
  proof (induction d)
    case (Cons e d)
    obtain k t where e: "e = (k, t)" by force
    have "map fst (map (\<lambda>(ks, v). (k # ks, v)) (entry_items t)) = map ((#) k) (map fst (entry_items t))" by (auto simp: case_prod_unfold)
    then have "distinct (map fst (map (\<lambda>(ks, v). (k # ks, v)) (entry_items t)))"
      using Cons.prems(2) [of e] e by (simp add: distinct_map inj_on_def)
    moreover have "(k # ks, v) \<notin> set (tree_items d)" for ks v
    proof -
      have "map_of d k = None" using Cons.prems(1) e by (auto simp: map_of_eq_None_iff)
      then have "map_of (tree_items d) (k # ks) = None" using tree_items_lookup [of d k ks] Cons.prems(1) e by simp
      then show ?thesis by (force simp: map_of_eq_None_iff simp del: iterate_tree_cache_items.simps(2))
    qed
    ultimately show ?case using Cons e by (auto simp: tree_items_Cons simp del: iterate_tree_cache_items.simps(2))
  qed simp
  moreover have "distinct (map fst (entry_items (snd e)))" if "e \<in> set d" for e
    using Suc.prems that Suc.IH by (cases "snd e") (auto simp del: iterate_tree_cache_items.simps(2))
  ultimately show ?case using Suc.prems by auto
qed simp

lemma tree_items_length: "tree_wf n d \<Longrightarrow> map_of (tree_items d) ks = Some v \<Longrightarrow> length ks = n"
proof (induction n arbitrary: d ks)
  case (Suc n)
  obtain k ks' where ks: "ks = k # ks'" using Suc.prems(2) tree_items_Nil [of d] by (cases ks) auto
  then obtain t where t: "map_of d k = Some t" "map_of (entry_items t) ks' = Some v"
    using Suc.prems tree_items_lookup [of d k ks'] by (auto split: option.splits)
  then have "(k, t) \<in> set d" by (auto dest: map_of_SomeD)
  then have "case t of Leaf _ \<Rightarrow> n = 0 | Tree t \<Rightarrow> t \<noteq> [] \<and> tree_wf n t" using Suc.prems(1) by force
  with t(2) Suc.IH ks show ?case by (cases t) (auto split: if_splits simp del: iterate_tree_cache_items.simps(2))
qed simp

lemma tree_wf_entry:
  assumes "tree_wf n d" "map_of d k = Some e"
  obtains v where "e = Leaf v" "n = 1" | t m where "e = Tree t" "n = Suc m" "t \<noteq> []" "tree_wf m t"
proof -
  obtain m where n: "n = Suc m" using assms(1) by (cases n) auto
  have "(k, e) \<in> set d" using assms(2) by (auto dest: map_of_SomeD)
  with assms(1) n have "case e of Leaf _ \<Rightarrow> m = 0 | Tree t \<Rightarrow> t \<noteq> [] \<and> tree_wf m t" by force
  with n that show thesis by (cases e) auto
qed

lemma tree_wf_distinct: "tree_wf n d \<Longrightarrow> distinct (map fst d)"
  by (cases n) auto

lemma tree_get_value:
  assumes "tree_wf n d" "length k = n"
  shows "tree_get k d = Inr (map_option Leaf (map_of (tree_items d) k))"
  using assms
proof (induction k d arbitrary: n rule: tree_get.induct)
  case (2 k d)
  show ?case
  proof (cases "map_of d k")
    case (Some e)
    from 2(1) Some obtain v where "e = Leaf v" by (rule tree_wf_entry) (use 2(2) in auto)
    with Some tree_items_lookup [OF tree_wf_distinct [OF 2(1)], of k "[]"] show ?thesis by simp
  qed (use tree_items_lookup [OF tree_wf_distinct [OF 2(1)], of k "[]"] in simp)
next
  case (3 k k' ks d)
  show ?case
  proof (cases "map_of d k")
    case (Some e)
    from 3(2) Some obtain t m where e: "e = Tree t" "n = Suc m" "tree_wf m t" by (rule tree_wf_entry) (use 3(3) in auto)
    with Some 3(1) [OF Some e(1) e(3)] 3(3) tree_items_lookup [OF tree_wf_distinct [OF 3(2)], of k "k' # ks"] show ?thesis
      by (simp del: iterate_tree_cache_items.simps(2))
  qed (use tree_items_lookup [OF tree_wf_distinct [OF 3(2)], of k "k' # ks"] in simp)
qed auto

text \<open>Changing the entry under the first part of a key.\<close>

lemma tree_wf_update:
  assumes "tree_wf (Suc n) d" "case e of Leaf _ \<Rightarrow> n = 0 | Tree t \<Rightarrow> t \<noteq> [] \<and> tree_wf n t"
  shows "tree_wf (Suc n) (AList.update k e d)"
proof -
  have "case snd x of Leaf _ \<Rightarrow> n = 0 | Tree t \<Rightarrow> t \<noteq> [] \<and> tree_wf n t" if "x \<in> set (AList.update k e d)" for x
  proof -
    have "set (AList.update k e d) \<subseteq> insert (k, e) (set d)" by (induction d) auto
    with that assms show ?thesis by auto
  qed
  with assms(1) show ?thesis by (simp add: AList.distinct_update)
qed

lemma tree_wf_delete: "tree_wf (Suc n) d \<Longrightarrow> tree_wf (Suc n) (AList.delete k d)"
  by (auto simp: AList.delete_eq distinct_map_filter)

lemma items_update:
  assumes "distinct (map fst d)"
  shows "map_of (tree_items (AList.update k e d)) ks =
    (case ks of k' # ks' \<Rightarrow> if k' = k then map_of (entry_items e) ks' else map_of (tree_items d) ks | [] \<Rightarrow> None)"
proof (cases ks)
  case (Cons k' ks')
  then show ?thesis using assms tree_items_lookup [OF AList.distinct_update [OF assms], of k e k' ks'] tree_items_lookup [OF assms, of k' ks']
    by (simp add: AList.update_conv' del: iterate_tree_cache_items.simps(2))
qed (use tree_items_Nil [of "AList.update k e d"] in \<open>simp del: iterate_tree_cache_items.simps(2)\<close>)

lemma items_delete:
  assumes "distinct (map fst d)"
  shows "map_of (tree_items (AList.delete k d)) ks =
    (case ks of k' # ks' \<Rightarrow> if k' = k then None else map_of (tree_items d) ks | [] \<Rightarrow> None)"
proof (cases ks)
  case (Cons k' ks')
  then show ?thesis using assms tree_items_lookup [OF AList.distinct_delete [OF assms], of k k' ks'] tree_items_lookup [OF assms, of k' ks']
    by (simp add: AList.delete_conv' del: iterate_tree_cache_items.simps(2))
qed (use tree_items_Nil [of "AList.delete k d"] in \<open>simp del: iterate_tree_cache_items.simps(2)\<close>)

lemma items_update_at:
  assumes "distinct (map fst d)" "\<And>ks. map_of (entry_items e) ks = (if ks = r then Some v else map_of (tree_items d) (k # ks))"
  shows "map_of (tree_items (AList.update k e d)) = (map_of (tree_items d))(k # r \<mapsto> v)"
proof
  fix ks
  show "map_of (tree_items (AList.update k e d)) ks = ((map_of (tree_items d))(k # r \<mapsto> v)) ks"
    unfolding items_update [OF assms(1)] using assms(2) tree_items_Nil [of d]
    by (cases ks) (simp_all del: iterate_tree_cache_items.simps(2))
qed

lemma tree_set_value:
  assumes "tree_wf n d" "length k = n"
  shows "\<exists>d'. tree_set k v d = Inr d' \<and> tree_wf n d' \<and> d' \<noteq> [] \<and> map_of (tree_items d') = (map_of (tree_items d))(k \<mapsto> v)"
  using assms
proof (induction k v d arbitrary: n rule: tree_set.induct)
  case (2 k v d)
  have n: "n = Suc 0" using 2(2) by simp
  have "map_of (entry_items (Leaf v)) ks = (if ks = [] then Some v else map_of (tree_items d) (k # ks))" for ks
    using tree_items_length [OF 2(1), of "k # ks"] n by (cases "map_of (tree_items d) (k # ks)") (simp_all del: iterate_tree_cache_items.simps(2))
  note items = items_update_at [OF tree_wf_distinct [OF 2(1)] this]
  have "tree_wf n (AList.update k (Leaf v) d)" using tree_wf_update [of 0 d "Leaf v" k] 2(1) n by simp
  with items show ?case by (simp add: update_nonempty fun_eq_iff del: iterate_tree_cache_items.simps(2))
next
  case (3 k k' ks v d)
  obtain m where n: "n = Suc m" "length (k' # ks) = m" using 3(4) by auto
  have dist: "distinct (map fst d)" by (rule tree_wf_distinct [OF 3(3)])
  have below: "\<exists>d'. tree_set (k # k' # ks) v d = Inr d' \<and> tree_wf n d' \<and> d' \<noteq> [] \<and> map_of (tree_items d') = (map_of (tree_items d))(k # k' # ks \<mapsto> v)"
    if t: "tree_set (k # k' # ks) v d = bindR (tree_set (k' # ks) v t) (\<lambda>t'. Inr (AList.update k (Tree t') d))"
      and t': "tree_set (k' # ks) v t = Inr t'" "tree_wf m t'" "t' \<noteq> []" "map_of (tree_items t') = (map_of (tree_items t))(k' # ks \<mapsto> v)"
      and sub: "\<And>r. map_of (tree_items d) (k # r) = map_of (tree_items t) r" for t t'
  proof -
    have "map_of (entry_items (Tree t')) r = (if r = k' # ks then Some v else map_of (tree_items d) (k # r))" for r
      using t'(4) sub by (simp del: iterate_tree_cache_items.simps(2))
    note items = items_update_at [OF dist this]
    have "tree_wf n (AList.update k (Tree t') d)" using tree_wf_update [of m d "Tree t'" k] 3(3) n t' by simp
    with items t t'(1) show ?thesis by (simp add: update_nonempty del: iterate_tree_cache_items.simps(2) tree_set.simps)
  qed
  show ?case
  proof (cases "map_of d k")
    case None
    have "tree_wf m []" using n by (cases m) auto
    from 3(1) [OF None this n(2)] obtain t' where "tree_set (k' # ks) v [] = Inr t'" "tree_wf m t'" "t' \<noteq> []"
      "map_of (tree_items t') = (map_of (tree_items []))(k' # ks \<mapsto> v)" by blast
    then show ?thesis by (rule below [rotated]) (use None tree_items_lookup [OF dist, of k] in simp_all)
  next
    case (Some e)
    from 3(3) Some obtain t where e: "e = Tree t" "tree_wf m t" by (rule tree_wf_entry) (use 3(4) n in auto)
    from 3(2) [OF Some e(1,2) n(2)] obtain t' where "tree_set (k' # ks) v t = Inr t'" "tree_wf m t'" "t' \<noteq> []"
      "map_of (tree_items t') = (map_of (tree_items t))(k' # ks \<mapsto> v)" by blast
    then show ?thesis by (rule below [rotated]) (use Some e tree_items_lookup [OF dist, of k] in \<open>simp_all del: iterate_tree_cache_items.simps(2)\<close>)
  qed
qed simp

definition popped_ok :: "('k list \<Rightarrow> 'v option) \<Rightarrow> 'k list \<Rightarrow> ('k, 'v) tree_entry option \<Rightarrow> bool" where
  "popped_ok m p popped \<longleftrightarrow>
     (case popped of None \<Rightarrow> \<forall>ks. m (p @ ks) = None
      | Some t \<Rightarrow> distinct (map fst (entry_items t)) \<and> (\<forall>ks. m (p @ ks) = map_of (entry_items t) ks))"

lemma tree_pop_value:
  assumes "tree_wf n d" "p \<noteq> []" "length p \<le> n"
  shows "\<exists>popped d'. tree_pop p d = Inr (popped, d') \<and> tree_wf n d' \<and>
    (\<forall>ks. map_of (tree_items d') ks = (if prefix p ks then None else map_of (tree_items d) ks)) \<and>
    popped_ok (map_of (tree_items d)) p popped"
  using assms
proof (induction p d arbitrary: n rule: tree_pop.induct)
  case (2 k d)
  obtain m where n: "n = Suc m" using 2(1) by (cases n) auto
  have dist: "distinct (map fst d)" by (rule tree_wf_distinct [OF 2(1)])
  have items: "map_of (tree_items (AList.delete k d)) ks = (if prefix [k] ks then None else map_of (tree_items d) ks)" for ks
    unfolding items_delete [OF dist] using tree_items_Nil [of d] by (cases ks) (auto simp del: iterate_tree_cache_items.simps(2))
  have "distinct (map fst (entry_items e))" if "map_of d k = Some e" for e
    using 2(1) that by (rule tree_wf_entry) (auto dest: tree_items_distinct simp del: iterate_tree_cache_items.simps(2))
  with items tree_items_lookup [OF dist, of k] tree_wf_delete [of m d k] 2(1) n show ?case
    by (auto simp: popped_ok_def simp del: iterate_tree_cache_items.simps(2) split: option.split)
next
  case (3 k k' ks d)
  obtain m where n: "n = Suc m" "length (k' # ks) \<le> m" using 3(4) by (cases n) auto
  have dist: "distinct (map fst d)" by (rule tree_wf_distinct [OF 3(2)])
  show ?case
  proof (cases "map_of d k")
    case None
    have "map_of (tree_items d) (k # r) = None" for r using tree_items_lookup [OF dist, of k r] None by simp
    then have "map_of (tree_items d) r = (if prefix (k # k' # ks) r then None else map_of (tree_items d) r)" for r
      by (auto simp: prefix_def simp del: iterate_tree_cache_items.simps(2))
    with None 3(2) tree_items_lookup [OF dist, of k] show ?thesis by (simp add: popped_ok_def del: iterate_tree_cache_items.simps(2))
  next
    case (Some e)
    from 3(2) Some obtain t where e: "e = Tree t" "tree_wf m t" by (rule tree_wf_entry) (use 3(4) n in auto)
    from 3(1) [OF Some e(1,2) _ n(2)] obtain popped t' where t: "tree_pop (k' # ks) t = Inr (popped, t')" "tree_wf m t'"
      "\<And>r. map_of (tree_items t') r = (if prefix (k' # ks) r then None else map_of (tree_items t) r)"
      "popped_ok (map_of (tree_items t)) (k' # ks) popped" by blast
    have sub: "map_of (tree_items d) (k # r) = map_of (tree_items t) r" for r
      using tree_items_lookup [OF dist, of k r] Some e(1) by (simp del: iterate_tree_cache_items.simps(2))
    have pop: "popped_ok (map_of (tree_items d)) (k # k' # ks) popped"
      using t(4) sub by (cases popped) (simp_all add: popped_ok_def del: iterate_tree_cache_items.simps(2))
    let ?d = "if popped = None then d else if t' = [] then AList.delete k d else AList.update k (Tree t') d"
    have wf: "tree_wf n ?d" using 3(2) n(1) t(2) tree_wf_delete [of m d k] tree_wf_update [of m d "Tree t'" k] by simp
    have "map_of (tree_items ?d) r = (if prefix (k # k' # ks) r then None else map_of (tree_items d) r)" for r
    proof (cases r)
      case Nil
      then show ?thesis by (simp add: tree_items_Nil del: iterate_tree_cache_items.simps(2))
    next
      case (Cons a r')
      consider "popped = None" | "popped \<noteq> None" "t' = []" | "popped \<noteq> None" "t' \<noteq> []" by blast
      then show ?thesis
      proof cases
        case 1
        then have "map_of (tree_items d) ((k # k' # ks) @ r) = None" for r using pop by (simp add: popped_ok_def del: iterate_tree_cache_items.simps(2))
        then show ?thesis using 1 by (auto simp: prefix_def simp del: iterate_tree_cache_items.simps(2))
      next
        case 2
        with t(3) [of r'] sub [of r'] Cons show ?thesis
          unfolding items_delete [OF dist] by (auto simp: items_delete [OF dist] simp del: iterate_tree_cache_items.simps(2) split: if_splits)
      next
        case 3
        with t(3) [of r'] sub [of r'] Cons show ?thesis
          by (auto simp: items_update [OF dist] simp del: iterate_tree_cache_items.simps(2))
      qed
    qed
    with Some e(1) t(1) wf pop show ?thesis by (simp del: iterate_tree_cache_items.simps(2))
  qed
qed simp

definition tree_ok :: "nat \<Rightarrow> ('k, 'v) tree_cache \<Rightarrow> bool" where
  "tree_ok n c \<longleftrightarrow> tree_wf n (tc_root c) \<and> tc_size c = int (length (tree_items (tc_root c)))"

abbreviation tree_contents :: "('k, 'v) tree_cache \<Rightarrow> 'k list \<Rightarrow> 'v option" where
  "tree_contents c \<equiv> map_of (tree_items (tc_root c))"

lemma items_card: "tree_wf n d \<Longrightarrow> length (tree_items d) = card (dom (map_of (tree_items d)))"
  using distinct_card [OF tree_items_distinct, of n d] by (simp add: dom_map_of_conv_image_fst del: iterate_tree_cache_items.simps(2))

lemma tc_set_ok:
  assumes "tree_ok n c" "length k = n" "tree_contents c k = None"
  shows "\<exists>c'. tc_set k v c = Inr c' \<and> tree_ok n c' \<and> tree_contents c' = (tree_contents c)(k \<mapsto> v)"
proof -
  have wf: "tree_wf n (tc_root c)" using assms(1) by (simp add: tree_ok_def)
  from tree_set_value [OF wf assms(2), of v] obtain d where d: "tree_set k v (tc_root c) = Inr d" "tree_wf n d"
    "map_of (tree_items d) = (tree_contents c)(k \<mapsto> v)" by blast
  have "dom (map_of (tree_items d)) = insert k (dom (tree_contents c))" unfolding d(3) by simp
  moreover have "k \<notin> dom (tree_contents c)" using assms(3) by blast
  ultimately have "card (dom (map_of (tree_items d))) = Suc (card (dom (tree_contents c)))"
    by (simp add: finite_dom_map_of del: iterate_tree_cache_items.simps(2))
  then have "length (tree_items d) = Suc (length (tree_items (tc_root c)))" using items_card [OF wf] items_card [OF d(2)] by simp
  then show ?thesis using assms(1) d by (simp add: tc_set_def tree_ok_def del: iterate_tree_cache_items.simps(2))
qed

text \<open>What is under a partial key, by its leaves.\<close>

lemma popped_leaves:
  assumes "popped_ok (tree_contents c) p popped"
  shows "mset (case map_option iterate_tree_cache_entry popped of None \<Rightarrow> [] | Some l \<Rightarrow> l) =
    image_mset (the \<circ> tree_contents c) (mset_set {k \<in> dom (tree_contents c). prefix p k})"
proof (cases popped)
  case None
  then have e: "{k \<in> dom (tree_contents c). prefix p k} = {}"
    using assms by (auto simp: popped_ok_def prefix_def simp del: iterate_tree_cache_items.simps(2))
  show ?thesis unfolding e by (simp add: None)
next
  case (Some t)
  let ?m = "tree_contents c" and ?i = "map_of (entry_items t)"
  have t: "distinct (map fst (entry_items t))" "\<And>ks. ?m (p @ ks) = ?i ks"
    using assms Some by (simp_all add: popped_ok_def del: iterate_tree_cache_items.simps(2))
  have K: "{k \<in> dom ?m. prefix p k} = (@) p ` dom ?i" using t(2) by (auto simp: prefix_def image_iff dom_def)
  have "mset (iterate_tree_cache_entry t) = image_mset (the \<circ> ?i) (mset_set (dom ?i))"
    unfolding leaves_items by (rule values_by_key [OF t(1)])
  also have "... = image_mset ((the \<circ> ?m) \<circ> (@) p) (mset_set (dom ?i))"
    by (intro image_mset_cong) (simp add: t(2) del: iterate_tree_cache_items.simps(2))
  also have "... = image_mset (the \<circ> ?m) (mset_set ((@) p ` dom ?i))"
    by (simp add: image_mset_mset_set [symmetric] inj_on_def multiset.map_comp del: iterate_tree_cache_items.simps(2))
  finally show ?thesis using Some K by (simp del: iterate_tree_cache_items.simps(2))
qed

lemma tc_pop_ok:
  assumes "tree_ok n c" "p \<noteq> []" "length p \<le> n"
  shows "\<exists>popped c'. tc_pop p c = Inr (popped, c') \<and> tree_ok n c' \<and> tree_contents c' = tree_contents c |` {k. \<not> prefix p k} \<and>
    popped_ok (tree_contents c) p popped"
proof -
  have wf: "tree_wf n (tc_root c)" using assms(1) by (simp add: tree_ok_def)
  from tree_pop_value [OF wf assms(2,3)] obtain popped d where d: "tree_pop p (tc_root c) = Inr (popped, d)" "tree_wf n d"
    "\<And>ks. map_of (tree_items d) ks = (if prefix p ks then None else tree_contents c ks)" "popped_ok (tree_contents c) p popped" by blast
  let ?m = "tree_contents c" and ?m' = "map_of (tree_items d)" and ?K = "{k \<in> dom (tree_contents c). prefix p k}"
  have m': "?m' = ?m |` {k. \<not> prefix p k}" using d(3) by (auto simp: restrict_map_def fun_eq_iff)
  show ?thesis
  proof (cases popped)
    case None
    have "tree_contents c |` {k. \<not> prefix p k} = tree_contents c"
      using d(4) None by (auto simp: popped_ok_def restrict_map_def fun_eq_iff prefix_def simp del: iterate_tree_cache_items.simps(2))
    with None d assms(1) show ?thesis by (simp add: tc_pop_def del: iterate_tree_cache_items.simps(2))
  next
    case (Some t)
    have fin: "finite (dom ?m)" by (rule finite_dom_map_of)
    have "size (mset (iterate_tree_cache_entry t)) = size (image_mset (the \<circ> ?m) (mset_set ?K))"
      using popped_leaves [OF d(4)] Some by simp
    then have len: "length (iterate_tree_cache_entry t) = card ?K" by simp
    have "dom ?m = dom ?m' \<union> ?K" "dom ?m' \<inter> ?K = {}" unfolding m' by auto
    then have "card (dom ?m) = card (dom ?m') + card ?K" using fin by (metis card_Un_disjoint finite_Un)
    then have "length (tree_items (tc_root c)) = length (tree_items d) + length (iterate_tree_cache_entry t)"
      using items_card [OF wf] items_card [OF d(2)] len by simp
    then show ?thesis using Some d assms(1) m' by (simp add: tc_pop_def tree_ok_def del: iterate_tree_cache_items.simps(2))
  qed
qed

interpretation tree_store: backing_store tree_backing "tree_ok (Suc m)" tree_contents "\<lambda>k. length k = Suc m"
  "\<lambda>p. p \<noteq> [] \<and> length p \<le> Suc m" prefix for m
proof (unfold_locales, goal_cases)
  case (7 c k)
  then have "tree_get k (tc_root c) = Inr (map_option Leaf (tree_contents c k))" by (intro tree_get_value) (simp_all add: tree_ok_def)
  then show ?case by (simp add: tree_backing_def del: iterate_tree_cache_items.simps(2) split: option.split)
next
  case (8 c k n)
  then show ?case using tc_set_ok [of "Suc m" c k n] by (simp add: tree_backing_def)
next
  case (9 c p)
  from tc_pop_ok [OF 9(1), of p] 9(2) obtain popped c' where p: "tc_pop p c = Inr (popped, c')" "tree_ok (Suc m) c'"
    "tree_contents c' = tree_contents c |` {k. \<not> prefix p k}" "popped_ok (tree_contents c) p popped" by blast
  from popped_leaves [OF p(4)] p(1-3) show ?case by (simp add: tree_backing_def del: iterate_tree_cache_items.simps(2))
next
  case (10 c)
  then show ?case using items_card [of "Suc m" "tc_root c"] by (simp add: tree_backing_def tree_ok_def del: iterate_tree_cache_items.simps(2) tree_wf.simps)
next
  case (11 c)
  then show ?case using values_by_key [OF tree_items_distinct, of "Suc m" "tc_root c"] leaves_items [of "Tree (tc_root c)"]
    by (simp add: tree_backing_def tree_ok_def del: iterate_tree_cache_items.simps(2) iterate_tree_cache_entry.simps(2) tree_wf.simps)
next
  case (4 c k n)
  then show ?case using tree_items_length [of "Suc m" "tc_root c" k n] by (simp add: tree_ok_def del: iterate_tree_cache_items.simps(2) tree_wf.simps)
next
  case (6 k k')
  then show ?case by (auto simp: prefix_def)
qed (auto simp: tree_backing_def new_tree_cache_def tree_ok_def finite_dom_map_of)

end
