(* ===== verification/Lru_Spec.thy ===== *)
theory Lru_Spec
  imports Lru_Backing
begin

text \<open>
  What a least-recently-used cache promises: a list of entries, the most recently used first.  Every
  method of \<open>LruCache\<close>, with its pointers and its dictionary, does to that list what is said here.
\<close>

section \<open>The abstract cache\<close>

type_synonym ('k, 'v, 'cb) entry = "'k \<times> 'v \<times> 'cb list"

record ('k, 'v, 'cb) lru_spec =
  sp_entries :: "('k, 'v, 'cb) entry list"
  sp_max :: int
  sp_ran :: "'cb multiset"

definition merge_callbacks :: "'cb list \<Rightarrow> 'cb list \<Rightarrow> 'cb list" where
  "merge_callbacks cbs old = foldl (\<lambda>acc cb. if cb \<in> set acc then acc else acc @ [cb]) old cbs"

definition weight :: "'v lru_config \<Rightarrow> ('k, 'v, 'cb) entry list \<Rightarrow> int" where
  "weight cfg es = (case size_callback cfg of None \<Rightarrow> int (length es) | Some f \<Rightarrow> sum_list (map (\<lambda>e. f (fst (snd e))) es))"

text \<open>Entries leave the cache, and their callbacks run.\<close>

definition sp_remove :: "('k \<Rightarrow> bool) \<Rightarrow> ('k, 'v, 'cb) lru_spec \<Rightarrow> ('k, 'v, 'cb) lru_spec" where
  "sp_remove P a = a\<lparr>sp_entries := filter (\<lambda>e. \<not> P (fst e)) (sp_entries a),
     sp_ran := sp_ran a + mset (concat (map (\<lambda>e. snd (snd e)) (filter (\<lambda>e. P (fst e)) (sp_entries a))))\<rparr>"

text \<open>The least recently used entries leave until the rest fits.\<close>

function sp_evict :: "'v lru_config \<Rightarrow> ('k, 'v, 'cb) lru_spec \<Rightarrow> unit result \<times> ('k, 'v, 'cb) lru_spec" where
  "sp_evict cfg a =
     (if weight cfg (sp_entries a) \<le> sp_max a then (Inr (), a)
      else if sp_entries a = [] then (Inl AssertionErr, a)
      else sp_evict cfg (a\<lparr>sp_entries := butlast (sp_entries a), sp_ran := sp_ran a + mset (snd (snd (last (sp_entries a))))\<rparr>))"
  by pat_completeness auto

termination sp_evict
  by (relation "measure (\<lambda>(_, a). length (sp_entries a))") auto

declare sp_evict.simps [simp del]

definition sp_get :: "'k \<Rightarrow> 'cb list \<Rightarrow> bool \<Rightarrow> ('k, 'v, 'cb) lru_spec \<Rightarrow> 'v option \<times> ('k, 'v, 'cb) lru_spec" where
  "sp_get k cbs touch a =
     (case map_of (sp_entries a) k of
        None \<Rightarrow> (None, a)
      | Some (v, cs) \<Rightarrow>
          (Some v, a\<lparr>sp_entries :=
             (if touch then (k, v, merge_callbacks cbs cs) # filter (\<lambda>e. fst e \<noteq> k) (sp_entries a)
              else map (\<lambda>e. if fst e = k then (k, v, merge_callbacks cbs cs) else e) (sp_entries a))\<rparr>))"

definition sp_set :: "'v lru_config \<Rightarrow> 'k \<Rightarrow> 'v \<Rightarrow> 'cb list \<Rightarrow> ('k, 'v, 'cb) lru_spec \<Rightarrow> unit result \<times> ('k, 'v, 'cb) lru_spec" where
  "sp_set cfg k v cbs a =
     sp_evict cfg
       (case map_of (sp_entries a) k of
          None \<Rightarrow> a\<lparr>sp_entries := (k, v, merge_callbacks (remdups cbs) []) # sp_entries a\<rparr>
        | Some (v', cs) \<Rightarrow>
            a\<lparr>sp_entries := (k, v, merge_callbacks cbs (if v \<noteq> v' then [] else cs)) # filter (\<lambda>e. fst e \<noteq> k) (sp_entries a),
              sp_ran := sp_ran a + (if v \<noteq> v' then mset cs else {#})\<rparr>)"

datatype ('k, 'v, 'cb) lru_op =
  Get_Op 'k "'cb list" bool
  | Set_Op 'k 'v "'cb list"
  | Setdefault_Op 'k 'v
  | Pop_Op 'k
  | Del_Multi_Op 'k
  | Clear_Op
  | Contains_Op 'k
  | Len_Op
  | Factor_Op rat

datatype 'v lru_result = Value "'v option" | Truth bool | Number int | Nothing

definition sp_step ::
  "('k \<Rightarrow> 'k \<Rightarrow> bool) \<Rightarrow> 'v lru_config \<Rightarrow> ('k, 'v, 'cb) lru_op \<Rightarrow> ('k, 'v, 'cb) lru_spec
   \<Rightarrow> 'v lru_result result \<times> ('k, 'v, 'cb) lru_spec" where
  "sp_step covers cfg op a =
     (case op of
        Get_Op k cbs touch \<Rightarrow> (case sp_get k cbs touch a of (r, a') \<Rightarrow> (Inr (Value r), a'))
      | Set_Op k v cbs \<Rightarrow> (case sp_set cfg k v cbs a of (r, a') \<Rightarrow> (bindR r (\<lambda>_. Inr Nothing), a'))
      | Setdefault_Op k v \<Rightarrow>
          (case map_of (sp_entries a) k of
             Some (v', _) \<Rightarrow> (Inr (Value (Some v')), a)
           | None \<Rightarrow> (case sp_set cfg k v [] a of (r, a') \<Rightarrow> (bindR r (\<lambda>_. Inr (Value (Some v))), a')))
      | Pop_Op k \<Rightarrow> (Inr (Value (map_option fst (map_of (sp_entries a) k))), sp_remove (\<lambda>k'. k' = k) a)
      | Del_Multi_Op p \<Rightarrow> (Inr Nothing, sp_remove (covers p) a)
      | Clear_Op \<Rightarrow> (Inr Nothing, sp_remove (\<lambda>_. True) a)
      | Contains_Op k \<Rightarrow> (Inr (Truth (map_of (sp_entries a) k \<noteq> None)), a)
      | Len_Op \<Rightarrow> (Inr (Number (weight cfg (sp_entries a))), a)
      | Factor_Op f \<Rightarrow>
          (let n = scaled_size (lc_original_max_size cfg) f
           in if \<not> apply_cache_factor cfg \<or> n = sp_max a then (Inr Nothing, a)
              else (case sp_evict cfg (a\<lparr>sp_max := n\<rparr>) of (r, a') \<Rightarrow> (bindR r (\<lambda>_. Inr Nothing), a'))))"

text \<open>The same calls on a cache.\<close>

definition with_result :: "('a \<Rightarrow> 'b) \<Rightarrow> 'a result \<times> 's \<Rightarrow> 'b result \<times> 's" where
  "with_result f rs = (bindR (fst rs) (\<lambda>x. Inr (f x)), snd rs)"

definition lru_step ::
  "('d, 'k) backing \<Rightarrow> 'v lru_config \<Rightarrow> int \<Rightarrow> ('k, 'v, 'cb) lru_op \<Rightarrow> ('d, 'k, 'v, 'cb) lru_cache
   \<Rightarrow> ('v lru_result result \<times> ('d, 'k, 'v, 'cb) lru_cache) option" where
  "lru_step B cfg now op s =
     (case op of
        Get_Op k cbs touch \<Rightarrow> Some (with_result Value (cache_get B now k cbs touch s))
      | Set_Op k v cbs \<Rightarrow> map_option (with_result (\<lambda>_. Nothing)) (cache_set B cfg now k v cbs s)
      | Setdefault_Op k v \<Rightarrow> map_option (with_result (\<lambda>v. Value (Some v))) (cache_set_default B cfg now k v s)
      | Pop_Op k \<Rightarrow> Some (with_result Value (cache_pop B cfg k s))
      | Del_Multi_Op p \<Rightarrow> Some (with_result (\<lambda>_. Nothing) (cache_del_multi B cfg p s))
      | Clear_Op \<Rightarrow> Some (with_result (\<lambda>_. Nothing) (cache_clear B cfg s))
      | Contains_Op k \<Rightarrow> Some (with_result Truth (cache_contains B k s))
      | Len_Op \<Rightarrow> Some (Inr (Number (cache_len B cfg s)), s)
      | Factor_Op f \<Rightarrow> map_option (with_result (\<lambda>_. Nothing)) (lru_set_cache_factor B cfg f s))"

text \<open>Sequences of calls, each with the time at which it is made.\<close>

fun lru_run ::
  "('d, 'k) backing \<Rightarrow> 'v lru_config \<Rightarrow> (int \<times> ('k, 'v, 'cb) lru_op) list \<Rightarrow> ('d, 'k, 'v, 'cb) lru_cache
   \<Rightarrow> ('v lru_result result list \<times> ('d, 'k, 'v, 'cb) lru_cache) option" where
  "lru_run B cfg [] s = Some ([], s)"
| "lru_run B cfg ((now, op) # ops) s =
     (case lru_step B cfg now op s of
        None \<Rightarrow> None
      | Some (r, s') \<Rightarrow> map_option (\<lambda>(rs, s''). (r # rs, s'')) (lru_run B cfg ops s'))"

fun sp_run ::
  "('k \<Rightarrow> 'k \<Rightarrow> bool) \<Rightarrow> 'v lru_config \<Rightarrow> (int \<times> ('k, 'v, 'cb) lru_op) list \<Rightarrow> ('k, 'v, 'cb) lru_spec
   \<Rightarrow> 'v lru_result result list \<times> ('k, 'v, 'cb) lru_spec" where
  "sp_run covers cfg [] a = ([], a)"
| "sp_run covers cfg ((_, op) # ops) a =
     (case sp_step covers cfg op a of (r, a') \<Rightarrow> (case sp_run covers cfg ops a' of (rs, a'') \<Rightarrow> (r # rs, a'')))"

definition new_lru_spec :: "'v lru_config \<Rightarrow> rat \<Rightarrow> ('k, 'v, 'cb) lru_spec" where
  "new_lru_spec cfg f = \<lparr>sp_entries = [],
     sp_max = (if apply_cache_factor cfg then scaled_size (lc_original_max_size cfg) f else lc_original_max_size cfg), sp_ran = {#}\<rparr>"

text \<open>A call with whole keys; only \<open>del_multi\<close> takes part of one.\<close>

definition op_keys :: "('k \<Rightarrow> bool) \<Rightarrow> ('k \<Rightarrow> bool) \<Rightarrow> ('k, 'v, 'cb) lru_op \<Rightarrow> bool" where
  "op_keys full partial op \<longleftrightarrow>
     (case op of
        Get_Op k _ _ \<Rightarrow> full k | Set_Op k _ _ \<Rightarrow> full k | Setdefault_Op k _ \<Rightarrow> full k | Pop_Op k \<Rightarrow> full k
      | Contains_Op k \<Rightarrow> full k | Del_Multi_Op p \<Rightarrow> partial p | _ \<Rightarrow> True)"

section \<open>Caches that hold a list of entries\<close>

definition cb_list :: "'cb list option \<Rightarrow> 'cb list" where
  "cb_list cbs = (case cbs of None \<Rightarrow> [] | Some l \<Rightarrow> l)"

definition entry_of :: "('d, 'k, 'v, 'cb) lru_cache \<Rightarrow> nat \<Rightarrow> ('k, 'v, 'cb) entry" where
  "entry_of s x = (ln_key (the_node x s), ln_value (the_node x s), cb_list (ln_callbacks (the_node x s)))"

definition abs_lru :: "nat list \<Rightarrow> ('d, 'k, 'v, 'cb) lru_cache \<Rightarrow> ('k, 'v, 'cb) lru_spec" where
  "abs_lru xs s = \<lparr>sp_entries = map (entry_of s) xs, sp_max = lc_max_size s, sp_ran = mset (lc_ran s)\<rparr>"

text \<open>The linked lists and the nodes on them are right, and so is the length.\<close>

definition links_ok :: "nat list \<Rightarrow> nat list \<Rightarrow> ('d, 'k, 'v, 'cb) lru_cache \<Rightarrow> bool" where
  "links_ok xs gs s \<longleftrightarrow> dll (lc_list s) xs \<and> dll (lc_global s) gs \<and> cache_entry (cells (lc_list s) ROOT) = None \<and>
     (\<forall>x \<in> set xs. cache_entry (cells (lc_list s) x) = Some x \<and> lc_nodes s x \<noteq> None) \<and>
     inj_on (\<lambda>x. ln_key (the_node x s)) (set xs) \<and>
     (\<forall>x \<in> set xs. \<forall>g. ln_global (the_node x s) = Some g \<longrightarrow> g \<in> set gs) \<and>
     (\<forall>x \<in> set xs. \<forall>y \<in> set xs. ln_global (the_node x s) = ln_global (the_node y s) \<and> ln_global (the_node x s) \<noteq> None \<longrightarrow> x = y)"

definition list_ok :: "'v lru_config \<Rightarrow> nat list \<Rightarrow> nat list \<Rightarrow> ('d, 'k, 'v, 'cb) lru_cache \<Rightarrow> bool" where
  "list_ok cfg xs gs s \<longleftrightarrow> links_ok xs gs s \<and>
     (size_callback cfg \<noteq> None \<longrightarrow> lc_cached_len s = weight cfg (map (entry_of s) xs))"

text \<open>The dictionary has the keys of the nodes on the list.\<close>

definition dict_ok :: "('d \<Rightarrow> bool) \<Rightarrow> ('d \<Rightarrow> 'k \<Rightarrow> nat option) \<Rightarrow> nat list \<Rightarrow> ('d, 'k, 'v, 'cb) lru_cache \<Rightarrow> bool" where
  "dict_ok binv contents xs s \<longleftrightarrow> binv (lc_dict s) \<and>
     (\<forall>k x. contents (lc_dict s) k = Some x \<longleftrightarrow> x \<in> set xs \<and> ln_key (the_node x s) = k)"

lemma merge_callbacks_list: "cb_list (add_callbacks cbs old) = merge_callbacks cbs (cb_list old)"
  by (simp add: add_callbacks_def merge_callbacks_def cb_list_def split: option.split)

lemma weight_simps [simp]:
  "weight cfg [] = 0" "weight cfg (e # es) = (case size_callback cfg of None \<Rightarrow> 1 | Some f \<Rightarrow> f (fst (snd e))) + weight cfg es"
  "weight cfg (es @ es') = weight cfg es + weight cfg es'"
  by (simp_all add: weight_def split: option.split)

lemma weight_remove1:
  assumes "x \<in> set xs"
  shows "weight cfg (map f xs) = weight cfg (map f (remove1 x xs)) + weight cfg [f x]"
  using assms by (induction xs) auto

lemma the_node_simps [simp]:
  "the_node x (s\<lparr>lc_list := l\<rparr>) = the_node x s" "the_node x (s\<lparr>lc_global := l\<rparr>) = the_node x s" "the_node x (s\<lparr>lc_dict := d\<rparr>) = the_node x s"
  "the_node x (s\<lparr>lc_cached_len := n\<rparr>) = the_node x s" "the_node x (s\<lparr>lc_ran := r\<rparr>) = the_node x s" "the_node x (s\<lparr>lc_max_size := m\<rparr>) = the_node x s"
  by (simp_all add: the_node_def)

lemma the_node_change:
  "lc_nodes s x \<noteq> None \<Longrightarrow> the_node y (change_node x f s) = (if y = x then f (the_node x s) else the_node y s)"
  by (auto simp: the_node_def change_node_def)

lemma change_node_simps [simp]:
  "lc_list (change_node x f s) = lc_list s" "lc_global (change_node x f s) = lc_global s" "lc_dict (change_node x f s) = lc_dict s"
  "lc_cached_len (change_node x f s) = lc_cached_len s" "lc_max_size (change_node x f s) = lc_max_size s" "lc_ran (change_node x f s) = lc_ran s"
  "lc_nodes (change_node x f s) y = None \<longleftrightarrow> lc_nodes s y = None"
  by (auto simp: change_node_def)

lemma add_len_simps [simp]:
  "lc_list (add_len cfg m v s) = lc_list s" "lc_global (add_len cfg m v s) = lc_global s" "lc_dict (add_len cfg m v s) = lc_dict s"
  "lc_nodes (add_len cfg m v s) = lc_nodes s" "lc_max_size (add_len cfg m v s) = lc_max_size s" "lc_ran (add_len cfg m v s) = lc_ran s"
  "the_node x (add_len cfg m v s) = the_node x s"
  "lc_cached_len (add_len cfg m v s) = (case size_callback cfg of None \<Rightarrow> lc_cached_len s | Some f \<Rightarrow> lc_cached_len s + m * f v)"
  by (simp_all add: add_len_def the_node_def split: option.split)

end
