(* ===== verification/Lru_Props.thy ===== *)
theory Lru_Props
  imports Lru_Spec
begin

text \<open>The methods of \<open>LruCache\<close> refine those of the abstract cache, for \<open>dict\<close> and for \<open>TreeCache\<close>.\<close>

section \<open>Lists and nodes\<close>

lemma links_distinct: "links_ok xs gs s \<Longrightarrow> distinct xs"
  by (simp add: links_ok_def dll_def)

lemma links_node: "links_ok xs gs s \<Longrightarrow> x \<in> set xs \<Longrightarrow> lc_nodes s x \<noteq> None"
  by (simp add: links_ok_def)

lemma links_cong:
  assumes "links_ok xs gs s" "lc_list s' = lc_list s" "lc_global s' = lc_global s"
    and "\<And>x. x \<in> set xs \<Longrightarrow> lc_nodes s' x \<noteq> None \<and> ln_key (the_node x s') = ln_key (the_node x s) \<and>
      ln_global (the_node x s') = ln_global (the_node x s)"
  shows "links_ok xs gs s'"
proof -
  have "inj_on (\<lambda>x. ln_key (the_node x s')) (set xs)"
    using assms(1,4) by (auto simp: links_ok_def inj_on_def)
  then show ?thesis using assms unfolding links_ok_def by (simp cong: ball_cong) blast
qed

lemma entry_of_simps [simp]:
  "entry_of (s\<lparr>lc_dict := d\<rparr>) = entry_of s" "entry_of (s\<lparr>lc_max_size := m\<rparr>) = entry_of s" "entry_of (s\<lparr>lc_cached_len := n\<rparr>) = entry_of s"
  by (simp_all add: fun_eq_iff entry_of_def)

lemma list_ok_simps [simp]:
  "list_ok cfg xs gs (s\<lparr>lc_dict := d\<rparr>) = list_ok cfg xs gs s" "list_ok cfg xs gs (s\<lparr>lc_max_size := m\<rparr>) = list_ok cfg xs gs s"
  by (simp_all add: list_ok_def links_ok_def)

lemma links_drop:
  assumes "links_ok xs gs s" "x \<in> set xs"
  shows "\<exists>gs'. links_ok (remove1 x xs) gs' (drop_from_lists x s)"
proof -
  let ?s = "drop_from_lists x s"
  let ?gs = "case ln_global (the_node x s) of None \<Rightarrow> gs | Some g \<Rightarrow> remove1 g gs"
  have l: "dll (lc_list s) xs" "dll (lc_global s) gs" and d: "distinct xs" "distinct gs" using assms(1) by (auto simp: links_ok_def dll_def)
  have g: "\<And>y g. y \<in> set xs \<Longrightarrow> ln_global (the_node y s) = Some g \<Longrightarrow> g \<in> set gs"
    and inj: "\<And>y z. y \<in> set xs \<Longrightarrow> z \<in> set xs \<Longrightarrow> ln_global (the_node y s) = ln_global (the_node z s) \<Longrightarrow> ln_global (the_node y s) \<noteq> None \<Longrightarrow> y = z"
    using assms(1) unfolding links_ok_def by blast+
  have "dll (lc_list ?s) (remove1 x xs)" using dll_remove(1) [OF l(1) assms(2)] by (simp add: drop_from_lists_def)
  moreover have "dll (lc_global ?s) ?gs"
    using l(2) dll_remove(1) [OF l(2)] g [OF assms(2)] by (auto simp: drop_from_lists_def split: option.split)
  moreover have "cache_entry (cells (lc_list ?s) y) = Some y \<and> lc_nodes ?s y \<noteq> None" if "y \<in> set (remove1 x xs)" for y
    using dll_remove(2) [OF l(1) assms(2), of y] assms(1) that d by (auto simp: drop_from_lists_def links_ok_def)
  moreover have "inj_on (\<lambda>y. ln_key (the_node y ?s)) (set (remove1 x xs))"
    using assms(1) d by (auto simp: links_ok_def drop_from_lists_def inj_on_def)
  moreover have "h \<in> set ?gs" if y: "y \<in> set (remove1 x xs)" "ln_global (the_node y ?s) = Some h" for y h
  proof -
    have "y \<in> set xs" "y \<noteq> x" "ln_global (the_node y s) = Some h" using y d(1) by (simp_all add: drop_from_lists_def)
    then show ?thesis using g [of y h] inj [of y x] assms(2) d(2) by (auto split: option.split)
  qed
  moreover have "y = z" if "y \<in> set (remove1 x xs)" "z \<in> set (remove1 x xs)"
    "ln_global (the_node y ?s) = ln_global (the_node z ?s)" "ln_global (the_node y ?s) \<noteq> None" for y z
    using that inj [of y z] d(1) by (simp add: drop_from_lists_def)
  moreover have "cache_entry (cells (lc_list ?s) ROOT) = None"
    using dll_remove(2) [OF l(1) assms(2), of ROOT] assms(1) by (auto simp: drop_from_lists_def links_ok_def)
  ultimately have "links_ok (remove1 x xs) ?gs ?s" unfolding links_ok_def by blast
  then show ?thesis ..
qed

lemma run_callbacks_simps [simp]:
  "lc_list (run_and_clear_callbacks x s) = lc_list s" "lc_global (run_and_clear_callbacks x s) = lc_global s"
  "lc_dict (run_and_clear_callbacks x s) = lc_dict s" "lc_cached_len (run_and_clear_callbacks x s) = lc_cached_len s"
  "lc_max_size (run_and_clear_callbacks x s) = lc_max_size s"
  "lc_ran (run_and_clear_callbacks x s) = lc_ran s @ cb_list (ln_callbacks (the_node x s))"
  "lc_nodes (run_and_clear_callbacks x s) y = None \<longleftrightarrow> lc_nodes s y = None"
  by (simp_all add: run_and_clear_callbacks_def cb_list_def split: option.split)

lemma run_callbacks_node:
  assumes "lc_nodes s x \<noteq> None"
  shows "ln_key (the_node y (run_and_clear_callbacks x s)) = ln_key (the_node y s)"
    "ln_value (the_node y (run_and_clear_callbacks x s)) = ln_value (the_node y s)"
    "ln_global (the_node y (run_and_clear_callbacks x s)) = ln_global (the_node y s)"
    "cb_list (ln_callbacks (the_node y (run_and_clear_callbacks x s))) = (if y = x then [] else cb_list (ln_callbacks (the_node y s)))"
  using assms by (auto simp: run_and_clear_callbacks_def the_node_change cb_list_def split: option.split)

lemma drop_simps [simp]:
  "lc_dict (drop_from_lists x s) = lc_dict s" "lc_cached_len (drop_from_lists x s) = lc_cached_len s" "lc_nodes (drop_from_lists x s) = lc_nodes s"
  "lc_max_size (drop_from_lists x s) = lc_max_size s" "lc_ran (drop_from_lists x s) = lc_ran s" "the_node y (drop_from_lists x s) = the_node y s"
  by (simp_all add: drop_from_lists_def the_node_def)

text \<open>What deleting a node leaves as it was.\<close>

definition same_but :: "nat \<Rightarrow> ('d, 'k, 'v, 'cb) lru_cache \<Rightarrow> ('d, 'k, 'v, 'cb) lru_cache \<Rightarrow> bool" where
  "same_but x s s' \<longleftrightarrow> lc_dict s' = lc_dict s \<and> lc_max_size s' = lc_max_size s \<and>
     (\<forall>y. ln_key (the_node y s') = ln_key (the_node y s) \<and> ln_value (the_node y s') = ln_value (the_node y s)) \<and>
     (\<forall>y. y \<noteq> x \<longrightarrow> entry_of s' y = entry_of s y) \<and> lc_ran s' = lc_ran s @ snd (snd (entry_of s x))"

lemma delete_ok:
  assumes "list_ok cfg xs gs s" "x \<in> set xs"
  shows "\<exists>gs'. list_ok cfg (remove1 x xs) gs' (delete_node cfg x s)" "same_but x s (delete_node cfg x s)"
proof -
  have l: "links_ok xs gs s" and n: "lc_nodes s x \<noteq> None" using assms links_node by (auto simp: list_ok_def)
  let ?s = "delete_node cfg x s" and ?d = "drop_from_lists x s"
  let ?a = "add_len cfg (- 1) (ln_value (the_node x s)) ?d"
  have s: "?s = run_and_clear_callbacks x ?a" by (simp add: delete_node_def Let_def)
  have n': "lc_nodes ?a x \<noteq> None" using n by simp
  note r = run_callbacks_node [OF n']
  show sb: "same_but x s ?s" unfolding s same_but_def entry_of_def by (simp add: r)
  obtain gs' where g: "links_ok (remove1 x xs) gs' ?d" using links_drop [OF l assms(2)] by blast
  have links: "links_ok (remove1 x xs) gs' ?s"
  proof (rule links_cong [OF g])
    fix y
    assume y: "y \<in> set (remove1 x xs)"
    have "lc_nodes ?d y \<noteq> None" by (rule links_node [OF g y])
    then show "lc_nodes ?s y \<noteq> None \<and> ln_key (the_node y ?s) = ln_key (the_node y ?d) \<and> ln_global (the_node y ?s) = ln_global (the_node y ?d)"
      unfolding s by (simp add: r)
  qed (simp_all add: s)
  have e: "map (entry_of ?s) (remove1 x xs) = map (entry_of s) (remove1 x xs)"
    using sb links_distinct [OF l] by (auto simp: same_but_def)
  have "lc_cached_len ?s = weight cfg (map (entry_of s) xs) - weight cfg [entry_of s x]" if "size_callback cfg \<noteq> None"
    using assms(1) that unfolding s list_ok_def by (auto simp: entry_of_def split: option.split)
  then have "list_ok cfg (remove1 x xs) gs' ?s"
    using links weight_remove1 [OF assms(2), of cfg "entry_of s"] unfolding list_ok_def e by simp
  then show "\<exists>gs'. list_ok cfg (remove1 x xs) gs' ?s" ..
qed

lemma move_ok:
  assumes l: "links_ok xs gs s" and x: "x \<in> set xs"
  shows "\<exists>s' gs'. move_to_front now x s = (Inr (), s') \<and> links_ok (x # remove1 x xs) gs' s' \<and> lc_nodes s' = lc_nodes s \<and>
    lc_cached_len s' = lc_cached_len s \<and> lc_dict s' = lc_dict s \<and> lc_max_size s' = lc_max_size s \<and> lc_ran s' = lc_ran s"
proof -
  from l have d: "dll (lc_list s) xs" "dll (lc_global s) gs" "distinct xs" by (auto simp: links_ok_def dll_def)
  from dll_move [OF d(1) x] obtain l' where l': "move_after x ROOT (lc_list s) = Inr l'" "dll l' (x # remove1 x xs)"
    "\<And>a. cache_entry (cells l' a) = cache_entry (cells (lc_list s) a)" by blast
  obtain s' gs' where m: "move_to_front now x s = (Inr (), s')" "s' = s\<lparr>lc_list := l', lc_global := lc_global s'\<rparr>" "dll (lc_global s') gs'"
    "set gs' = set gs"
  proof (cases "ln_global (the_node x s)")
    case None
    then have "move_to_front now x s = (Inr (), s\<lparr>lc_list := l'\<rparr>)"
      by (simp add: move_to_front_def bindA_def readA_def liftA_def writeA_def returnA_def l'(1))
    then show ?thesis using that [of "s\<lparr>lc_list := l'\<rparr>" gs] d(2) by simp
  next
    case (Some g)
    then have "g \<in> set gs" using l x by (auto simp: links_ok_def)
    from dll_move [OF d(2) this] obtain h where h: "move_after g ROOT (lc_global s) = Inr h" "dll h (g # remove1 g gs)" by blast
    have "distinct gs" using d(2) by (simp add: dll_def)
    then have "set (g # remove1 g gs) = set gs" using \<open>g \<in> set gs\<close> by auto
    moreover have "move_to_front now x s = (Inr (), s\<lparr>lc_list := l', lc_global := update_last_access g now h\<rparr>)"
      using Some h(1) by (simp add: move_to_front_def bindA_def readA_def liftA_def writeA_def returnA_def l'(1) the_node_def)
    ultimately show ?thesis
      using that [of "s\<lparr>lc_list := l', lc_global := update_last_access g now h\<rparr>" "g # remove1 g gs"] dll_access [OF h(2), of g now] by simp
  qed
  have fields: "lc_nodes s' = lc_nodes s" "lc_dict s' = lc_dict s" "lc_max_size s' = lc_max_size s" "lc_ran s' = lc_ran s"
    "lc_cached_len s' = lc_cached_len s" "lc_list s' = l'" "\<And>y. the_node y s' = the_node y s"
    using m(2) by (cases s', simp add: the_node_def)+
  have xs: "set (x # remove1 x xs) = set xs" using x d(3) by auto
  have "links_ok (x # remove1 x xs) gs' s'"
    using l l'(2,3) m(3,4) unfolding links_ok_def xs fields by simp blast
  with m(1) fields show ?thesis by blast
qed

text \<open>A new node in front.\<close>

lemma new_node_links:
  assumes "links_ok xs gs s"
    and l: "dll l (x # xs)" "x \<notin> set xs" "\<And>a. cache_entry (cells l a) = (if a = x then Some x else cache_entry (cells (lc_list s) a))"
    and g: "dll gl gs'" "set gs \<subseteq> set gs'" "\<And>h. ln_global nd = Some h \<Longrightarrow> h \<in> set gs' \<and> h \<notin> set gs"
    and k: "\<And>y. y \<in> set xs \<Longrightarrow> ln_key (the_node y s) \<noteq> ln_key nd"
    and s': "lc_list s' = l" "lc_global s' = gl" "lc_nodes s' = (lc_nodes s)(x \<mapsto> nd)"
  shows "links_ok (x # xs) gs' s'"
proof -
  have n: "the_node y s' = (if y = x then nd else the_node y s)" for y by (simp add: the_node_def s'(3))
  have old: "the_node y s' = the_node y s" if "y \<in> set xs" for y using that l(2) n by auto
  have "inj_on (\<lambda>y. ln_key (the_node y s)) (set xs)" using assms(1) by (simp add: links_ok_def)
  then have "inj_on (\<lambda>y. ln_key (the_node y s')) (set xs)" using inj_on_cong [of "set xs" "\<lambda>y. ln_key (the_node y s')"] old by simp
  moreover have "ln_key (the_node y s') \<noteq> ln_key (the_node x s')" if "y \<in> set xs" for y using k [OF that] old [OF that] n [of x] by simp
  ultimately have "inj_on (\<lambda>y. ln_key (the_node y s')) (set (x # xs))" using l(2) by (force simp: image_iff)
  moreover have "h \<in> set gs'" if "y \<in> set (x # xs)" "ln_global (the_node y s') = Some h" for y h
  proof (cases "y = x")
    case False
    then have "y \<in> set xs" "ln_global (the_node y s) = Some h" using that old by auto
    then show ?thesis using assms(1) g(2) unfolding links_ok_def by blast
  qed (use that(2) g(3) n in simp)
  moreover have "y = z" if y: "y \<in> set (x # xs)" "z \<in> set (x # xs)" "ln_global (the_node y s') = ln_global (the_node z s')"
      "ln_global (the_node y s') \<noteq> None" for y z
  proof -
    have gs: "\<And>y h. y \<in> set xs \<Longrightarrow> ln_global (the_node y s) = Some h \<Longrightarrow> h \<in> set gs" using assms(1) unfolding links_ok_def by blast
    have "y \<in> set xs \<Longrightarrow> z \<in> set xs \<Longrightarrow> y = z" using assms(1) y(3,4) old unfolding links_ok_def by metis
    then show ?thesis using y gs g(3) n old by (auto split: if_splits)
  qed
  moreover have "cache_entry (cells (lc_list s') y) = Some y \<and> lc_nodes s' y \<noteq> None" if "y \<in> set (x # xs)" for y
    using that assms(1) l(3) s' by (auto simp: links_ok_def)
  moreover have "cache_entry (cells l ROOT) = None" using assms(1) l by (auto simp: links_ok_def dll_def)
  ultimately show ?thesis using l(1) g(1) unfolding links_ok_def s'(1,2) by blast
qed

context backing_store
begin

lemma add_node_ok:
  assumes "list_ok cfg xs gs s" "dict_ok binv contents xs s" "full key" "contents (lc_dict s) key = None"
  shows "\<exists>s' gs' x. add_node B cfg now key value callbacks s = (Inr (), s') \<and> list_ok cfg (x # xs) gs' s' \<and> dict_ok binv contents (x # xs) s' \<and>
    map (entry_of s') (x # xs) = (key, value, merge_callbacks callbacks []) # map (entry_of s) xs \<and>
    lc_max_size s' = lc_max_size s \<and> lc_ran s' = lc_ran s"
proof -
  have l: "links_ok xs gs s" using assms(1) by (simp add: list_ok_def)
  then have d: "dll (lc_list s) xs" "dll (lc_global s) gs" by (auto simp: links_ok_def)
  let ?x = "fresh (lc_list s)"
  from dll_insert [OF d(1), of ?x] obtain l' where l': "insert_after ?x ROOT (lc_list s) = Inr (?x, l')" "dll l' (?x # xs)" "?x \<notin> set (ROOT # xs)"
    "\<And>a. cache_entry (cells l' a) = (if a = ?x then Some ?x else cache_entry (cells (lc_list s) a))" by blast
  obtain g gl gs' where g: "add_global_node cfg now ?x (s\<lparr>lc_list := l'\<rparr>) = (Inr g, s\<lparr>lc_list := l', lc_global := gl\<rparr>)"
    "dll gl gs'" "set gs \<subseteq> set gs'" "\<And>h. g = Some h \<Longrightarrow> h \<in> set gs' \<and> h \<notin> set gs"
  proof (cases "timed cfg")
    case True
    let ?g = "fresh (lc_global s)"
    from dll_insert [OF d(2), of ?x] obtain gl where gl: "insert_after ?x ROOT (lc_global s) = Inr (?g, gl)" "dll gl (?g # gs)" "?g \<notin> set (ROOT # gs)"
      by blast
    then show ?thesis using that [of "Some ?g" "update_last_access ?g now gl" "?g # gs"] True dll_access [OF gl(2), of ?g now]
      by (auto simp: add_global_node_def bindA_def readA_def liftA_def writeA_def returnA_def)
  next
    case False
    then show ?thesis using that [of None "lc_global s" gs] d(2) by (simp add: add_global_node_def returnA_def)
  qed
  define nd where "nd = \<lparr>ln_key = key, ln_value = value, ln_callbacks = add_callbacks callbacks None, ln_global = g\<rparr>"
  have b: "binv (lc_dict s)" and c: "\<And>k y. contents (lc_dict s) k = Some y \<longleftrightarrow> y \<in> set xs \<and> ln_key (the_node y s) = k"
    using assms(2) by (auto simp: dict_ok_def)
  from b_insert [OF b assms(3,4), of ?x] obtain d' where d': "b_set B key ?x (lc_dict s) = Inr d'" "binv d'"
    "contents d' = (contents (lc_dict s))(key \<mapsto> ?x)" by blast
  define s' where "s' = add_len cfg 1 value (s\<lparr>lc_list := l', lc_global := gl, lc_nodes := (lc_nodes s)(?x \<mapsto> nd), lc_dict := d'\<rparr>)"
  have eq: "add_node B cfg now key value callbacks s = (Inr (), s')"
    by (simp add: add_node_def bindA_def readA_def liftA_def writeA_def l'(1) d'(1) g(1) s'_def nd_def)
  have keys: "ln_key (the_node y s) \<noteq> key" if "y \<in> set xs" for y using c [of key y] that assms(4) by simp
  have links: "links_ok (?x # xs) gs' s'"
    by (rule new_node_links [OF l l'(2) _ l'(4) g(2,3), of nd]) (use l'(3) g(4) keys in \<open>auto simp: nd_def s'_def\<close>)
  have n: "the_node y s' = (if y = ?x then nd else the_node y s)" for y by (simp add: s'_def the_node_def)
  have ent: "map (entry_of s') (?x # xs) = (key, value, merge_callbacks callbacks []) # map (entry_of s) xs"
    using l'(3) merge_callbacks_list [of callbacks None] by (auto simp: entry_of_def n nd_def cb_list_def)
  have len: "size_callback cfg \<noteq> None \<longrightarrow> lc_cached_len s' = weight cfg (map (entry_of s') (?x # xs))"
    unfolding ent using assms(1) by (auto simp: list_ok_def s'_def)
  have ld: "lc_dict s' = d'" by (simp add: s'_def)
  have "dict_ok binv contents (?x # xs) s'" unfolding dict_ok_def ld d'(3) n using d'(2) c keys l'(3) by (auto simp: nd_def)
  moreover have "lc_max_size s' = lc_max_size s" "lc_ran s' = lc_ran s" by (simp_all add: s'_def)
  moreover have "list_ok cfg (?x # xs) gs' s'" unfolding list_ok_def using links len by blast
  ultimately show ?thesis using eq ent by (intro exI [of _ s'] exI [of _ gs'] exI [of _ ?x] conjI)
qed

lemma cache_len_ok:
  assumes "list_ok cfg xs gs s" "dict_ok binv contents xs s"
  shows "cache_len B cfg s = weight cfg (map (entry_of s) xs)"
proof (cases "size_callback cfg")
  case None
  have l: "distinct xs" "inj_on (\<lambda>x. ln_key (the_node x s)) (set xs)" using assms(1) links_distinct by (auto simp: list_ok_def links_ok_def)
  have "dom (contents (lc_dict s)) = (\<lambda>x. ln_key (the_node x s)) ` set xs" using assms(2) by (auto simp: dict_ok_def dom_def)
  then have "card (dom (contents (lc_dict s))) = length xs" using card_image [OF l(2)] distinct_card [OF l(1)] by simp
  then show ?thesis using b_size assms(2) None by (simp add: cache_len_def weight_def dict_ok_def)
qed (use assms(1) in \<open>auto simp: cache_len_def list_ok_def\<close>)

lemma dict_inj: "dict_ok binv contents xs s \<Longrightarrow> inj_on (contents (lc_dict s)) (dom (contents (lc_dict s)))"
proof (rule inj_onI)
  fix k k'
  assume *: "dict_ok binv contents xs s" "k \<in> dom (contents (lc_dict s))" "contents (lc_dict s) k = contents (lc_dict s) k'"
  then obtain x where "contents (lc_dict s) k = Some x" "contents (lc_dict s) k' = Some x" by (metis domD)
  then show "k = k'" using *(1) by (auto simp: dict_ok_def)
qed

lemma dict_pop_ok:
  fixes s :: "('d, 'k, 'v, 'cb) lru_cache"
  assumes "dict_ok binv contents xs s" "partial p"
  shows "\<exists>ls d'. b_pop B p (lc_dict s) = Inr (ls, d') \<and> distinct (case ls of None \<Rightarrow> [] | Some l \<Rightarrow> l) \<and>
    set (case ls of None \<Rightarrow> [] | Some l \<Rightarrow> l) = {x \<in> set xs. covers p (ln_key (the_node x s))} \<and>
    (\<forall>s' :: ('d, 'k, 'v, 'cb) lru_cache. (\<forall>y. ln_key (the_node y s') = ln_key (the_node y s)) \<and> lc_dict s' = d' \<longrightarrow>
      dict_ok binv contents (filter (\<lambda>x. \<not> covers p (ln_key (the_node x s))) xs) s')"
proof -
  have b: "binv (lc_dict s)" and c: "\<And>k y. contents (lc_dict s) k = Some y \<longleftrightarrow> y \<in> set xs \<and> ln_key (the_node y s) = k"
    using assms(1) by (auto simp: dict_ok_def)
  from b_remove [OF b assms(2)] obtain ls d' where p: "b_pop B p (lc_dict s) = Inr (ls, d')" by blast
  from b_removed [OF b assms(2) dict_inj [OF assms(1)] p] have r: "binv d'" "contents d' = contents (lc_dict s) |` {k. \<not> covers p k}"
    "distinct (case ls of None \<Rightarrow> [] | Some l \<Rightarrow> l)"
    "set (case ls of None \<Rightarrow> [] | Some l \<Rightarrow> l) = {n. \<exists>k. contents (lc_dict s) k = Some n \<and> covers p k}" by auto
  have "{n. \<exists>k. contents (lc_dict s) k = Some n \<and> covers p k} = {x \<in> set xs. covers p (ln_key (the_node x s))}" using c by auto
  moreover have "dict_ok binv contents (filter (\<lambda>x. \<not> covers p (ln_key (the_node x s))) xs) s'"
    if "\<forall>y. ln_key (the_node y s') = ln_key (the_node y s)" "lc_dict s' = d'" for s' :: "('d, 'k, 'v, 'cb) lru_cache"
    using that r(1,2) c by (auto simp: dict_ok_def restrict_map_def)
  ultimately show ?thesis using p r(3,4) by auto
qed

text \<open>Removing one node by its key.\<close>

lemma dict_pop_node:
  fixes s :: "('d, 'k, 'v, 'cb) lru_cache"
  assumes "list_ok cfg xs gs s" "dict_ok binv contents xs s" "x \<in> set xs"
  shows "\<exists>ls d'. b_pop B (ln_key (the_node x s)) (lc_dict s) = Inr (ls, d') \<and>
    (\<forall>s' :: ('d, 'k, 'v, 'cb) lru_cache. (\<forall>y. ln_key (the_node y s') = ln_key (the_node y s)) \<and> lc_dict s' = d' \<longrightarrow> dict_ok binv contents (remove1 x xs) s')"
proof -
  let ?k = "ln_key (the_node x s)"
  have d: "distinct xs" and inj: "inj_on (\<lambda>x. ln_key (the_node x s)) (set xs)" using assms(1) links_distinct by (auto simp: list_ok_def links_ok_def)
  have full: "full (ln_key (the_node y s))" if "y \<in> set xs" for y
    using b_keys [of "lc_dict s" "ln_key (the_node y s)" y] assms(2) that by (auto simp: dict_ok_def)
  have cov: "covers ?k (ln_key (the_node y s)) \<longleftrightarrow> y = x" if "y \<in> set xs" for y
    using b_covers(2) [OF full [OF assms(3)] full [OF that]] inj that assms(3) by (auto simp: inj_on_def)
  have "filter (\<lambda>y. \<not> covers ?k (ln_key (the_node y s))) xs = filter (\<lambda>y. y \<noteq> x) xs" using cov by (intro filter_cong) auto
  also have "... = remove1 x xs" using d by (simp add: distinct_remove1_removeAll removeAll_filter_not_eq eq_commute)
  finally show ?thesis using dict_pop_ok [OF assms(2) b_covers(1) [OF full [OF assms(3)]]] by auto
qed

lemma evict_one_ok:
  fixes s :: "('d, 'k, 'v, 'cb) lru_cache"
  assumes "list_ok cfg xs gs s" "dict_ok binv contents xs s" "xs \<noteq> []"
  shows "\<exists>s' gs'. evict_one B cfg s = (Inr (), s') \<and> list_ok cfg (butlast xs) gs' s' \<and> dict_ok binv contents (butlast xs) s' \<and>
    map (entry_of s') (butlast xs) = map (entry_of s) (butlast xs) \<and> lc_max_size s' = lc_max_size s \<and>
    lc_ran s' = lc_ran s @ snd (snd (entry_of s (last xs)))"
proof -
  let ?x = "last xs" and ?d = "delete_node cfg (last xs) s"
  have l: "dll (lc_list s) xs" "cache_entry (cells (lc_list s) ?x) = Some ?x" "distinct xs" "?x \<in> set xs"
    using assms(1,3) by (auto simp: list_ok_def links_ok_def dll_def)
  have rm: "remove1 ?x xs = butlast xs" using l(3) assms(3) by (induction xs) auto
  obtain gs' where gs': "list_ok cfg (butlast xs) gs' ?d" and sb: "same_but ?x s ?d" using delete_ok [OF assms(1) l(4)] rm by metis
  from dict_pop_node [OF assms(1,2) l(4)] obtain ls d' where p: "b_pop B (ln_key (the_node ?x s)) (lc_dict s) = Inr (ls, d')"
    "\<And>s' :: ('d, 'k, 'v, 'cb) lru_cache. (\<forall>y. ln_key (the_node y s') = ln_key (the_node y s)) \<Longrightarrow> lc_dict s' = d' \<Longrightarrow> dict_ok binv contents (butlast xs) s'"
    unfolding rm by blast
  let ?s = "?d\<lparr>lc_dict := d'\<rparr>"
  have "evict_one B cfg s = (Inr (), ?s)"
    using dll_last [OF l(1)] assms(3) l(2) p(1) sb
    by (simp add: evict_one_def bindA_def readA_def liftA_def writeA_def get_cache_entry_def same_but_def)
  moreover have "list_ok cfg (butlast xs) gs' ?s" using gs' by simp
  moreover have "dict_ok binv contents (butlast xs) ?s" using p(2) [of ?s] sb by (simp add: same_but_def)
  moreover have "entry_of ?s y = entry_of s y" if "y \<in> set (butlast xs)" for y
  proof -
    have "y \<noteq> ?x" using that l(3) assms(3) by (metis append_butlast_last_id distinct_append distinct_singleton insert_iff list.set(2) not_distinct_conv_prefix)
    then show ?thesis using sb by (simp add: same_but_def entry_of_def)
  qed
  ultimately show ?thesis using sb by (intro exI [of _ ?s] exI [of _ gs']) (simp add: same_but_def)
qed

end

end
