(* ===== verification/Lru_Refine.thy ===== *)
theory Lru_Refine
  imports Lru_Props
begin

text \<open>Every call on a cache, over \<open>dict\<close> or \<open>TreeCache\<close>, gives what the abstract cache gives.\<close>

section \<open>Entries of the list\<close>

lemma filter_entries:
  assumes "links_ok xs gs s" "x \<in> set xs" "ln_key (the_node x s) = k"
  shows "filter (\<lambda>e. fst e \<noteq> k) (map (entry_of s) xs) = map (entry_of s) (remove1 x xs)"
    "filter (\<lambda>e. fst e = k) (map (entry_of s) xs) = [entry_of s x]"
proof -
  have d: "distinct xs" and inj: "inj_on (\<lambda>x. ln_key (the_node x s)) (set xs)" using assms(1) by (auto simp: links_ok_def dll_def)
  have key: "fst (entry_of s y) = k \<longleftrightarrow> y = x" if "y \<in> set xs" for y using inj that assms(2,3) by (auto simp: entry_of_def inj_on_def)
  have "filter (\<lambda>y. fst (entry_of s y) \<noteq> k) xs = filter (\<lambda>y. x \<noteq> y) xs" using key by (intro filter_cong) auto
  then show "filter (\<lambda>e. fst e \<noteq> k) (map (entry_of s) xs) = map (entry_of s) (remove1 x xs)"
    using d by (simp add: filter_map comp_def distinct_remove1_removeAll removeAll_filter_not_eq)
  have "filter (\<lambda>y. fst (entry_of s y) = k) xs = filter (\<lambda>y. y = x) xs" using key by (intro filter_cong) auto
  also have "... = [x]" using d assms(2) by (induction xs) (auto simp: filter_empty_conv)
  finally show "filter (\<lambda>e. fst e = k) (map (entry_of s) xs) = [entry_of s x]" by (simp add: filter_map comp_def)
qed

lemma lookup_entries:
  assumes "links_ok xs gs s"
  shows "x \<in> set xs \<Longrightarrow> map_of (map (entry_of s) xs) (ln_key (the_node x s)) = Some (snd (entry_of s x))"
    "(\<And>x. x \<in> set xs \<Longrightarrow> ln_key (the_node x s) \<noteq> k) \<Longrightarrow> map_of (map (entry_of s) xs) k = None"
proof -
  have "inj_on (\<lambda>x. ln_key (the_node x s)) (set xs)" "distinct xs" using assms by (auto simp: links_ok_def dll_def)
  then have d: "distinct (map fst (map (entry_of s) xs))" by (simp add: distinct_map comp_def entry_of_def)
  show "map_of (map (entry_of s) xs) (ln_key (the_node x s)) = Some (snd (entry_of s x))" if "x \<in> set xs"
    using map_of_is_SomeI [OF d, of "ln_key (the_node x s)" "snd (entry_of s x)"] that by (force simp: entry_of_def)
  show "map_of (map (entry_of s) xs) k = None" if "\<And>x. x \<in> set xs \<Longrightarrow> ln_key (the_node x s) \<noteq> k"
    using that by (fastforce simp: map_of_eq_None_iff entry_of_def)
qed

lemma change_node_ok:
  assumes "links_ok xs gs s" "x \<in> set xs" "\<And>n. ln_key (f n) = ln_key n \<and> ln_global (f n) = ln_global n"
  shows "links_ok xs gs (change_node x f s)"
    "entry_of (change_node x f s) y =
       (if y = x then (ln_key (the_node x s), ln_value (f (the_node x s)), cb_list (ln_callbacks (f (the_node x s)))) else entry_of s y)"
proof -
  have n: "lc_nodes s x \<noteq> None" using links_node assms by blast
  show "links_ok xs gs (change_node x f s)"
    by (rule links_cong [OF assms(1)]) (use assms(3) links_node [OF assms(1)] in \<open>auto simp: the_node_change [OF n]\<close>)
  show "entry_of (change_node x f s) y =
     (if y = x then (ln_key (the_node x s), ln_value (f (the_node x s)), cb_list (ln_callbacks (f (the_node x s)))) else entry_of s y)"
    using assms(3) by (simp add: entry_of_def the_node_change [OF n])
qed

text \<open>Many nodes deleted, one after the other.\<close>

definition removes :: "(nat \<Rightarrow> ('d, 'k, 'v, 'cb) lru_cache \<Rightarrow> ('d, 'k, 'v, 'cb) lru_cache) \<Rightarrow> bool" where
  "removes g \<longleftrightarrow> (\<forall>xs gs s x. links_ok xs gs s \<and> x \<in> set xs \<longrightarrow> (\<exists>gs'. links_ok (remove1 x xs) gs' (g x s)) \<and> same_but x s (g x s))"

lemma fold_delete:
  assumes g: "removes g"
    and "links_ok xs gs s" "distinct ls" "set ls \<subseteq> set xs"
  shows "\<exists>gs'. links_ok (filter (\<lambda>x. x \<notin> set ls) xs) gs' (fold g ls s) \<and> lc_dict (fold g ls s) = lc_dict s \<and>
    lc_max_size (fold g ls s) = lc_max_size s \<and>
    (\<forall>y. ln_key (the_node y (fold g ls s)) = ln_key (the_node y s) \<and> ln_value (the_node y (fold g ls s)) = ln_value (the_node y s)) \<and>
    (\<forall>y. y \<notin> set ls \<longrightarrow> entry_of (fold g ls s) y = entry_of s y) \<and>
    lc_ran (fold g ls s) = lc_ran s @ concat (map (\<lambda>x. snd (snd (entry_of s x))) ls)"
  using assms(2-4)
proof (induction ls arbitrary: xs gs s)
  case (Cons x ls)
  obtain gs1 where 1: "links_ok (remove1 x xs) gs1 (g x s)" and sb: "same_but x s (g x s)" using g Cons.prems(1,3) unfolding removes_def by (meson list.set_intros(1) subsetD)
  have d: "distinct xs" using Cons.prems(1) links_distinct by blast
  have sub: "set ls \<subseteq> set (remove1 x xs)" using Cons.prems(2,3) d by auto
  from Cons.IH [OF 1 _ sub] Cons.prems(2) obtain gs' where IH:
    "links_ok (filter (\<lambda>x. x \<notin> set ls) (remove1 x xs)) gs' (fold g ls (g x s))" "lc_dict (fold g ls (g x s)) = lc_dict (g x s)"
    "lc_max_size (fold g ls (g x s)) = lc_max_size (g x s)"
    "\<And>y. ln_key (the_node y (fold g ls (g x s))) = ln_key (the_node y (g x s))"
    "\<And>y. ln_value (the_node y (fold g ls (g x s))) = ln_value (the_node y (g x s))"
    "\<And>y. y \<notin> set ls \<Longrightarrow> entry_of (fold g ls (g x s)) y = entry_of (g x s) y"
    "lc_ran (fold g ls (g x s)) = lc_ran (g x s) @ concat (map (\<lambda>y. snd (snd (entry_of (g x s) y))) ls)"
    by auto
  have "filter (\<lambda>x. x \<notin> set ls) (remove1 x xs) = filter (\<lambda>y. y \<notin> set (x # ls)) xs"
    using d by (auto simp: distinct_remove1_removeAll removeAll_filter_not_eq intro: filter_cong)
  moreover
  have "map (\<lambda>y. snd (snd (entry_of (g x s) y))) ls = map (\<lambda>y. snd (snd (entry_of s y))) ls" using Cons.prems(2) sb by (auto simp: same_but_def)
  then have "concat (map (\<lambda>y. snd (snd (entry_of (g x s) y))) ls) = concat (map (\<lambda>y. snd (snd (entry_of s y))) ls)" by (rule arg_cong)
  ultimately show ?case using IH sb by (intro exI [of _ gs']) (auto simp: same_but_def)
qed auto

lemma concat_perm: "mset ls = mset zs \<Longrightarrow> mset (concat (map f ls)) = mset (concat (map f zs))"
  by (simp add: mset_concat flip: sum_mset_sum_list)


definition cache_ok ::
  "('d \<Rightarrow> bool) \<Rightarrow> ('d \<Rightarrow> 'k \<Rightarrow> nat option) \<Rightarrow> 'v lru_config \<Rightarrow> nat list \<Rightarrow> ('d, 'k, 'v, 'cb) lru_cache \<Rightarrow> bool" where
  "cache_ok binv contents cfg xs s \<longleftrightarrow> (\<exists>gs. list_ok cfg xs gs s) \<and> dict_ok binv contents xs s"

lemma dict_cong:
  "dict_ok binv contents xs s \<Longrightarrow> set xs' = set xs \<Longrightarrow> lc_dict s' = lc_dict s \<Longrightarrow> (\<And>y. ln_key (the_node y s') = ln_key (the_node y s)) \<Longrightarrow>
   dict_ok binv contents xs' s'"
  by (simp add: dict_ok_def)

lemma weight_cong: "map (\<lambda>e. fst (snd e)) es = map (\<lambda>e. fst (snd e)) es' \<Longrightarrow> weight cfg es = weight cfg es'"
  by (auto simp: weight_def comp_def dest: map_eq_imp_length_eq split: option.split) (metis (mono_tags, lifting) map_map comp_def map_cong)

lemma list_to_links: "list_ok cfg xs gs s \<Longrightarrow> links_ok xs gs s"
  by (simp add: list_ok_def)

context backing_store
begin

abbreviation cok :: "'v lru_config \<Rightarrow> nat list \<Rightarrow> ('d, 'k, 'v, 'cb) lru_cache \<Rightarrow> bool" where
  "cok \<equiv> cache_ok binv contents"

lemma evict_ok:
  "cok cfg xs s \<Longrightarrow> \<exists>r s' xs'. lru_evict B cfg s = Some (r, s') \<and> cok cfg xs' s' \<and> sp_evict cfg (abs_lru xs s) = (r, abs_lru xs' s')"
proof (induction xs arbitrary: s rule: rev_induct)
  case Nil
  then obtain gs where l: "list_ok cfg [] gs s" "dict_ok binv contents [] s" by (auto simp: cache_ok_def)
  have "evict_one B cfg s = (Inl AssertionErr, s)"
    using dll_last [of "lc_list s" "[]"] l(1)
    by (simp add: evict_one_def bindA_def readA_def raiseA_def get_cache_entry_def list_ok_def links_ok_def)
  then have "lru_evict B cfg s = Some (if lc_max_size s < 0 then Inl AssertionErr else Inr (), s)"
    using cache_len_ok [OF l] by (subst lru_evict.simps) simp
  moreover have "sp_evict cfg (abs_lru [] s) = (if lc_max_size s < 0 then Inl AssertionErr else Inr (), abs_lru [] s)"
    by (subst sp_evict.simps) (simp add: abs_lru_def)
  ultimately show ?case using Nil by blast
next
  case (snoc x xs)
  then obtain gs where l: "list_ok cfg (xs @ [x]) gs s" "dict_ok binv contents (xs @ [x]) s" by (auto simp: cache_ok_def)
  note len = cache_len_ok [OF l]
  show ?case
  proof (cases "cache_len B cfg s > lc_max_size s")
    case False
    then have "lru_evict B cfg s = Some (Inr (), s)" by (subst lru_evict.simps) simp
    moreover have "sp_evict cfg (abs_lru (xs @ [x]) s) = (Inr (), abs_lru (xs @ [x]) s)"
      using False len by (subst sp_evict.simps) (simp add: abs_lru_def)
    ultimately show ?thesis using snoc.prems by blast
  next
    case True
    from evict_one_ok [OF l] obtain s1 gs1 where e: "evict_one B cfg s = (Inr (), s1)" "list_ok cfg xs gs1 s1" "dict_ok binv contents xs s1"
      "map (entry_of s1) xs = map (entry_of s) xs" "lc_max_size s1 = lc_max_size s" "lc_ran s1 = lc_ran s @ snd (snd (entry_of s x))" by auto
    have "lru_evict B cfg s = lru_evict B cfg s1" using True e(1) by (subst lru_evict.simps) simp
    moreover have "sp_evict cfg (abs_lru (xs @ [x]) s) = sp_evict cfg (abs_lru xs s1)"
      using True len by (subst sp_evict.simps) (simp add: abs_lru_def e(4-6) del: map_eq_conv)
    moreover have "cok cfg xs s1" using e(2,3) by (auto simp: cache_ok_def)
    ultimately show ?thesis using snoc.IH by simp
  qed
qed

lemma lookup_ok:
  assumes "cok cfg xs s" "full k"
  obtains (missing) "b_get B k (lc_dict s) = Inr Missing" "contents (lc_dict s) k = None" "map_of (sp_entries (abs_lru xs s)) k = None"
  | (entry) x where "b_get B k (lc_dict s) = Inr (Entry x)" "x \<in> set xs" "ln_key (the_node x s) = k"
      "map_of (sp_entries (abs_lru xs s)) k = Some (snd (entry_of s x))"
proof -
  from assms(1) obtain gs where l: "links_ok xs gs s" "binv (lc_dict s)"
    and c: "\<And>x. contents (lc_dict s) k = Some x \<longleftrightarrow> x \<in> set xs \<and> ln_key (the_node x s) = k" by (auto simp: cache_ok_def list_ok_def dict_ok_def)
  show ?thesis
  proof (cases "contents (lc_dict s) k")
    case None
    then show ?thesis using missing b_lookup [OF l(2) assms(2)] lookup_entries(2) [OF l(1), of k] c by (simp add: abs_lru_def)
  next
    case (Some x)
    then have "x \<in> set xs" "ln_key (the_node x s) = k" using c by auto
    moreover have "b_get B k (lc_dict s) = Inr (Entry x)" using b_lookup [OF l(2) assms(2)] unfolding Some by simp
    ultimately show ?thesis using entry [of x] lookup_entries(1) [OF l(1), of x] by (simp add: abs_lru_def)
  qed
qed

text \<open>The methods of a cache.\<close>

lemma get_ok:
  assumes "cok cfg xs s" "full k"
  shows "\<exists>r s' xs'. cache_get B now k cbs touch s = (Inr r, s') \<and> cok cfg xs' s' \<and> sp_get k cbs touch (abs_lru xs s) = (r, abs_lru xs' s')"
  using assms
proof (cases rule: lookup_ok)
  case missing
  then show ?thesis using assms(1) by (auto simp: cache_get_def sp_get_def bindA_def readA_def liftA_def returnA_def)
next
  case (entry x)
  from assms(1) obtain gs where l: "list_ok cfg xs gs s" "dict_ok binv contents xs s" by (auto simp: cache_ok_def)
  note links = list_to_links [OF l(1)]
  let ?xs = "if touch then x # remove1 x xs else xs"
  have set: "set ?xs = set xs" "x \<in> set ?xs" using entry(2) links_distinct [OF links] by auto
  obtain s1 gs1 where m: "(if touch then move_to_front now x else returnA ()) s = (Inr (), s1)" "links_ok ?xs gs1 s1" "lc_nodes s1 = lc_nodes s"
    "lc_cached_len s1 = lc_cached_len s" "lc_dict s1 = lc_dict s" "lc_max_size s1 = lc_max_size s" "lc_ran s1 = lc_ran s"
  proof (cases touch)
    case True
    from move_ok [OF links entry(2), of now] show ?thesis using that True by auto
  next
    case False
    then show ?thesis using that [of s gs] links by (simp add: returnA_def)
  qed
  let ?f = "\<lambda>n. n\<lparr>ln_callbacks := add_callbacks cbs (ln_callbacks n)\<rparr>"
  let ?s = "change_node x ?f s1"
  have n: "the_node y s1 = the_node y s" for y by (simp add: the_node_def m(3))
  have c: "links_ok ?xs gs1 ?s" "\<And>y. entry_of ?s y = (if y = x then (k, fst (snd (entry_of s x)), merge_callbacks cbs (snd (snd (entry_of s x)))) else entry_of s y)"
    using change_node_ok [OF m(2) set(2), of ?f] entry(3) by (simp_all add: n merge_callbacks_list entry_of_def)
  have eq: "cache_get B now k cbs touch s = (Inr (Some (fst (snd (entry_of s x)))), ?s)"
    using entry(1) m(1) links_node [OF m(2) set(2)] by (simp add: cache_get_def bindA_def readA_def liftA_def writeA_def the_node_change n entry_of_def)
  have v: "map (\<lambda>e. fst (snd e)) (map (entry_of ?s) ys) = map (\<lambda>e. fst (snd e)) (map (entry_of s) ys)" for ys by (simp add: c(2))
  have "weight cfg (map (entry_of s) ?xs) = weight cfg (map (entry_of s) xs)"
    using weight_remove1 [OF entry(2), of cfg "entry_of s"] by simp
  then have "list_ok cfg ?xs gs1 ?s"
    unfolding list_ok_def using c(1) l(1) m(4) weight_cong [OF v, of cfg ?xs] by (simp add: list_ok_def del: weight_simps map_eq_conv)
  moreover have "dict_ok binv contents ?xs ?s"
    by (rule dict_cong [OF l(2) set(1)]) (use m(5) links_node [OF m(2) set(2)] in \<open>simp_all add: the_node_change n\<close>)
  moreover have "sp_get k cbs touch (abs_lru xs s) = (Some (fst (snd (entry_of s x))), abs_lru ?xs ?s)"
  proof -
    have rest: "map (entry_of ?s) (remove1 x xs) = map (entry_of s) (remove1 x xs)" using links_distinct [OF links] by (simp add: c(2))
    have same: "map (\<lambda>e. if fst e = k then (k, v, cs) else e) (map (entry_of s) xs) = map (entry_of ?s) xs"
      if "v = fst (snd (entry_of s x))" "cs = merge_callbacks cbs (snd (snd (entry_of s x)))" for v cs
    proof -
      have "fst (entry_of s y) = k \<longleftrightarrow> y = x" if "y \<in> set xs" for y
        using links that entry(2,3) by (auto simp: links_ok_def inj_on_def entry_of_def)
      then show ?thesis using that by (simp add: c(2))
    qed
    show ?thesis using entry(4) filter_entries(1) [OF links entry(2,3)] rest same
      by (auto simp: sp_get_def abs_lru_def c(2) m(6,7) split: prod.split simp del: map_eq_conv)
  qed
  ultimately show ?thesis using eq by (auto simp: cache_ok_def)
qed

text \<open>A value replaced: its length goes out and the new one in before the node moves.\<close>

lemma replace_ok:
  assumes l: "list_ok cfg xs gs s" "dict_ok binv contents xs s" and x: "x \<in> set xs" and k: "b_get B k (lc_dict s) = Inr (Entry x)" "ln_key (the_node x s) = k"
  shows "\<exists>s'. cache_set_value B cfg now k v cbs s = (Inr (), s') \<and> cok cfg (x # remove1 x xs) s' \<and>
    (case entry_of s x of (_, v', cs) \<Rightarrow>
      abs_lru (x # remove1 x xs) s' = (abs_lru xs s)\<lparr>
        sp_entries := (k, v, merge_callbacks cbs (if v \<noteq> v' then [] else cs)) # map (entry_of s) (remove1 x xs),
        sp_ran := mset (lc_ran s) + (if v \<noteq> v' then mset cs else {#})\<rparr>)"
proof -
  note links = list_to_links [OF l(1)]
  let ?xs = "x # remove1 x xs" and ?v = "ln_value (the_node x s)"
  have nx: "lc_nodes s x \<noteq> None" by (rule links_node [OF links x])
  note r = run_callbacks_node [OF nx]
  define s1 where "s1 = (if v \<noteq> ?v then run_and_clear_callbacks x s else s)"
  define s2 where "s2 = add_len cfg 1 v (add_len cfg (- 1) ?v s1)"
  let ?f = "\<lambda>n. n\<lparr>ln_callbacks := add_callbacks cbs (ln_callbacks n)\<rparr>" and ?g = "\<lambda>n. n\<lparr>ln_value := v\<rparr>"
  define s3 where "s3 = change_node x ?f s2"
  have n1: "lc_nodes s1 y = None \<longleftrightarrow> lc_nodes s y = None" "ln_key (the_node y s1) = ln_key (the_node y s)"
    "ln_value (the_node y s1) = ln_value (the_node y s)" "ln_global (the_node y s1) = ln_global (the_node y s)"
    "cb_list (ln_callbacks (the_node y s1)) = (if y = x \<and> v \<noteq> ?v then [] else cb_list (ln_callbacks (the_node y s)))" for y
    by (simp_all add: s1_def r)
  have n3: "the_node y s3 = (if y = x then ?f (the_node x s1) else the_node y s1)" for y
    using nx n1(1) by (simp add: s3_def the_node_change s2_def)
  have f3: "lc_list s3 = lc_list s" "lc_global s3 = lc_global s" "lc_dict s3 = lc_dict s" "lc_nodes s3 y = None \<longleftrightarrow> lc_nodes s y = None" for y
    by (simp_all add: s3_def s2_def s1_def)
  have links3: "links_ok xs gs s3"
    by (rule links_cong [OF links f3(1,2)]) (use n1 links_node [OF links] f3(4) in \<open>auto simp: n3\<close>)
  from move_ok [OF links3 x, of now] obtain s4 gs4 where m: "move_to_front now x s3 = (Inr (), s4)" "links_ok ?xs gs4 s4" "lc_nodes s4 = lc_nodes s3"
    "lc_cached_len s4 = lc_cached_len s3" "lc_dict s4 = lc_dict s3" "lc_max_size s4 = lc_max_size s3" "lc_ran s4 = lc_ran s3" by blast
  have n4: "the_node y s4 = the_node y s3" for y by (simp add: the_node_def m(3))
  let ?s = "change_node x ?g s4"
  have eq: "cache_set_value B cfg now k v cbs s = (Inr (), ?s)"
    using k(1) m(1) n1(3) [of x] by (simp add: cache_set_value_def bindA_def readA_def liftA_def writeA_def s3_def s2_def s1_def)
  have c: "links_ok ?xs gs4 ?s" "\<And>y. entry_of ?s y =
      (if y = x then (k, v, merge_callbacks cbs (if v \<noteq> ?v then [] else snd (snd (entry_of s x)))) else entry_of s y)"
    using change_node_ok [OF m(2), of x ?g] k(2) by (simp_all add: n4 n3 n1 merge_callbacks_list entry_of_def)
  have rest: "map (entry_of ?s) (remove1 x xs) = map (entry_of s) (remove1 x xs)" using links_distinct [OF links] by (simp add: c(2))
  have "lc_cached_len s3 = weight cfg (map (entry_of ?s) ?xs)" if "size_callback cfg \<noteq> None"
    using that l(1) weight_remove1 [OF x, of cfg "entry_of s"] rest
    by (auto simp: list_ok_def s3_def s2_def s1_def c(2) simp del: map_eq_conv) (simp_all add: entry_of_def)
  then have "list_ok cfg ?xs gs4 ?s" using c(1) m(4) by (simp add: list_ok_def)
  moreover have "dict_ok binv contents ?xs ?s"
    using x links_distinct [OF links] m(5) links_node [OF m(2), of x]
    by (intro dict_cong [OF l(2)]) (auto simp: the_node_change n4 n3 n1 f3)
  moreover have "lc_max_size ?s = lc_max_size s" "lc_ran ?s = lc_ran s @ (if v \<noteq> ?v then snd (snd (entry_of s x)) else [])"
    by (simp_all add: m(6,7) s3_def s2_def s1_def entry_of_def)
  ultimately show ?thesis using eq rest c(2) [of x] by (intro exI [of _ ?s]) (auto simp: cache_ok_def abs_lru_def entry_of_def simp del: map_eq_conv)
qed

lemma bindR_Inr [simp]: "bindR r Inr = r"
  by (cases r) simp_all

lemma then_evict_ok:
  assumes "m s = (Inr a, s1)" "cok cfg xs1 s1"
  shows "\<exists>r s' xs'. then_evict B cfg m s = Some (bindR r (\<lambda>_. Inr a), s') \<and> cok cfg xs' s' \<and> sp_evict cfg (abs_lru xs1 s1) = (r, abs_lru xs' s')"
  using evict_ok [OF assms(2)] assms(1) by (auto simp: then_evict_def)

lemma add_ok:
  assumes "cok cfg xs s" "full k" "contents (lc_dict s) k = None"
  shows "\<exists>s' xs'. add_node B cfg now k v cbs s = (Inr (), s') \<and> cok cfg xs' s' \<and>
    abs_lru xs' s' = (abs_lru xs s)\<lparr>sp_entries := (k, v, merge_callbacks cbs []) # sp_entries (abs_lru xs s)\<rparr>"
proof -
  from assms(1) obtain gs where l: "list_ok cfg xs gs s" "dict_ok binv contents xs s" by (auto simp: cache_ok_def)
  from add_node_ok [OF l assms(2,3), of now v cbs] obtain s' gs' x where
    "add_node B cfg now k v cbs s = (Inr (), s')" "list_ok cfg (x # xs) gs' s'" "dict_ok binv contents (x # xs) s'"
    "map (entry_of s') (x # xs) = (k, v, merge_callbacks cbs []) # map (entry_of s) xs" "lc_max_size s' = lc_max_size s" "lc_ran s' = lc_ran s"
    by (elim exE, elim conjE) (rule that)
  then show ?thesis by (intro exI [of _ s'] exI [of _ "x # xs"]) (auto simp: cache_ok_def abs_lru_def simp del: list.map map_eq_conv)
qed

lemma set_ok:
  assumes "cok cfg xs s" "full k"
  shows "\<exists>r s' xs'. cache_set B cfg now k v cbs s = Some (r, s') \<and> cok cfg xs' s' \<and> sp_set cfg k v cbs (abs_lru xs s) = (r, abs_lru xs' s')"
  using assms
proof (cases rule: lookup_ok)
  case missing
  from add_ok [OF assms missing(2), of now v "remdups cbs"] obtain s1 xs1 where a: "add_node B cfg now k v (remdups cbs) s = (Inr (), s1)" "cok cfg xs1 s1"
    "abs_lru xs1 s1 = (abs_lru xs s)\<lparr>sp_entries := (k, v, merge_callbacks (remdups cbs) []) # sp_entries (abs_lru xs s)\<rparr>" by blast
  then have "cache_set_value B cfg now k v cbs s = (Inr (), s1)"
    using missing(1) by (simp add: cache_set_value_def bindA_def readA_def liftA_def)
  from then_evict_ok [of "cache_set_value B cfg now k v cbs", OF this a(2)] a(3) missing(3) show ?thesis by (auto simp: cache_set_def sp_set_def)
next
  case (entry x)
  from assms(1) obtain gs where l: "list_ok cfg xs gs s" "dict_ok binv contents xs s" by (auto simp: cache_ok_def)
  obtain v' cs where e: "entry_of s x = (k, v', cs)" using entry(3) by (simp add: entry_of_def)
  from replace_ok [OF l entry(2,1,3), of now v cbs] e obtain s1 where a: "cache_set_value B cfg now k v cbs s = (Inr (), s1)" "cok cfg (x # remove1 x xs) s1"
    "abs_lru (x # remove1 x xs) s1 = (abs_lru xs s)\<lparr>
        sp_entries := (k, v, merge_callbacks cbs (if v \<noteq> v' then [] else cs)) # map (entry_of s) (remove1 x xs),
        sp_ran := mset (lc_ran s) + (if v \<noteq> v' then mset cs else {#})\<rparr>" by auto
  have "sp_set cfg k v cbs (abs_lru xs s) = sp_evict cfg (abs_lru (x # remove1 x xs) s1)"
    using entry(4) filter_entries(1) [OF list_to_links [OF l(1)] entry(2,3)] unfolding a(3) sp_set_def by (simp add: e abs_lru_def)
  with then_evict_ok [of "cache_set_value B cfg now k v cbs", OF a(1,2)] show ?thesis by (auto simp: cache_set_def)
qed

lemma set_default_ok:
  assumes "cok cfg xs s" "full k"
  shows "\<exists>r s' xs'. cache_set_default B cfg now k v s = Some (r, s') \<and> cok cfg xs' s' \<and>
    (case map_of (sp_entries (abs_lru xs s)) k of
       Some (v', _) \<Rightarrow> r = Inr v' \<and> abs_lru xs' s' = abs_lru xs s
     | None \<Rightarrow> (\<exists>r'. r = bindR r' (\<lambda>_. Inr v) \<and> sp_set cfg k v [] (abs_lru xs s) = (r', abs_lru xs' s')))"
  using assms
proof (cases rule: lookup_ok)
  case missing
  from add_ok [OF assms missing(2), of now v "[]"] obtain s1 xs1 where a: "add_node B cfg now k v [] s = (Inr (), s1)" "cok cfg xs1 s1"
    "abs_lru xs1 s1 = (abs_lru xs s)\<lparr>sp_entries := (k, v, merge_callbacks [] []) # sp_entries (abs_lru xs s)\<rparr>" by blast
  have "bindA (add_node B cfg now k v []) (\<lambda>_. returnA v) s = (Inr v, s1)" using a(1) by (simp add: bindA_def returnA_def)
  from then_evict_ok [of "bindA (add_node B cfg now k v []) (\<lambda>_. returnA v)", OF this a(2)] missing a(3) show ?thesis by (auto simp: cache_set_default_def sp_set_def)
next
  case (entry x)
  then show ?thesis using assms(1) by (auto simp: cache_set_default_def entry_of_def)
qed

end

end
