(* ===== verification/Lru_Calls.thy ===== *)
theory Lru_Calls
  imports Lru_Refine
begin

text \<open>Removals, and the refinement for every call and every run.\<close>

section \<open>Removing entries\<close>

lemma delete_links:
  "removes (delete_node cfg :: nat \<Rightarrow> ('d, 'k, 'v, 'cb) lru_cache \<Rightarrow> _)"
  unfolding removes_def
proof (intro allI impI, elim conjE)
  fix xs gs x and s :: "('d, 'k, 'v, 'cb) lru_cache"
  assume assms: "links_ok xs gs s" "x \<in> set xs"
  let ?a = "add_len cfg (- 1) (ln_value (the_node x s)) (drop_from_lists x s)" and ?s = "delete_node cfg x s"
  have s: "?s = run_and_clear_callbacks x ?a" by (simp add: delete_node_def Let_def)
  have n: "lc_nodes ?a x \<noteq> None" using links_node [OF assms] by simp
  note r = run_callbacks_node [OF n]
  obtain gs' where g: "links_ok (remove1 x xs) gs' (drop_from_lists x s)" using links_drop [OF assms] by blast
  have "links_ok (remove1 x xs) gs' ?s"
  proof (rule links_cong [OF g])
    fix y
    assume "y \<in> set (remove1 x xs)"
    then have "lc_nodes (drop_from_lists x s) y \<noteq> None" by (rule links_node [OF g])
    then show "lc_nodes ?s y \<noteq> None \<and> ln_key (the_node y ?s) = ln_key (the_node y (drop_from_lists x s)) \<and>
        ln_global (the_node y ?s) = ln_global (the_node y (drop_from_lists x s))"
      unfolding s by (simp add: r)
  qed (simp_all add: s)
  then show "(\<exists>gs'. links_ok (remove1 x xs) gs' ?s) \<and> same_but x s ?s" unfolding s same_but_def entry_of_def by (auto simp: r)
qed

lemma clear_links:
  "removes (\<lambda>x s. drop_from_lists x (run_and_clear_callbacks x s))"
  unfolding removes_def
proof (intro allI impI, elim conjE)
  fix xs gs s x
  assume assms: "links_ok xs gs s" "x \<in> set xs"
  have n: "lc_nodes s x \<noteq> None" by (rule links_node [OF assms])
  note r = run_callbacks_node [OF n]
  have "links_ok xs gs (run_and_clear_callbacks x s)"
    by (rule links_cong [OF assms(1)]) (use links_node [OF assms(1)] in \<open>simp_all add: r\<close>)
  from links_drop [OF this assms(2)] show "(\<exists>gs'. links_ok (remove1 x xs) gs' (drop_from_lists x (run_and_clear_callbacks x s))) \<and>
    same_but x s (drop_from_lists x (run_and_clear_callbacks x s))" unfolding same_but_def entry_of_def by (simp add: r)
qed

lemma delete_cached_len:
  "size_callback cfg \<noteq> None \<Longrightarrow> lc_cached_len (delete_node cfg x s) = lc_cached_len s - weight cfg [entry_of s x]"
  by (auto simp: delete_node_def Let_def entry_of_def)

lemma fold_cached_len:
  assumes "links_ok xs gs s" "distinct ls" "set ls \<subseteq> set xs" "size_callback cfg \<noteq> None"
  shows "lc_cached_len (fold (delete_node cfg) ls s) = lc_cached_len s - weight cfg (map (entry_of s) ls)"
  using assms(1-3)
proof (induction ls arbitrary: xs gs s)
  case (Cons x ls)
  obtain gs' where g: "links_ok (remove1 x xs) gs' (delete_node cfg x s)" and sb: "same_but x s (delete_node cfg x s)"
    using delete_links [of cfg] Cons.prems(1,3) unfolding removes_def by (meson list.set_intros(1) subsetD)
  have "set ls \<subseteq> set (remove1 x xs)" using Cons.prems links_distinct [OF Cons.prems(1)] by auto
  from Cons.IH [OF g _ this] Cons.prems(2)
  have "lc_cached_len (fold (delete_node cfg) ls (delete_node cfg x s)) =
      lc_cached_len (delete_node cfg x s) - weight cfg (map (entry_of (delete_node cfg x s)) ls)" by simp
  also have "map (entry_of (delete_node cfg x s)) ls = map (entry_of s) ls" using sb Cons.prems(2) by (auto simp: same_but_def)
  finally show ?case using delete_cached_len [OF assms(4), of x s] by simp
qed simp

lemma weight_perm:
  fixes es :: "('k, 'v, 'cb) entry list"
  shows "mset es = mset es' \<Longrightarrow> weight cfg es = weight cfg es'"
proof -
  assume m: "mset es = mset es'"
  have "sum_list (map g l) = (\<Sum>x \<in># mset l. g x)" for g :: "('k, 'v, 'cb) entry \<Rightarrow> int" and l by (induction l) simp_all
  then show ?thesis using m mset_eq_length [OF m] by (simp add: weight_def split: option.split)
qed

lemma weight_split: "weight cfg es = weight cfg (filter P es) + weight cfg (filter (\<lambda>e. \<not> P e) es)"
  by (induction es) auto

lemma bindR_bindR: "bindR (bindR r f) g = bindR r (\<lambda>x. bindR (f x) g)"
  by (cases r) simp_all

lemma delete_dict: "delete_node cfg x (s\<lparr>lc_dict := d\<rparr>) = (delete_node cfg x s)\<lparr>lc_dict := d\<rparr>"
  by (simp add: delete_node_def Let_def drop_from_lists_def add_len_def run_and_clear_callbacks_def change_node_def the_node_def split: option.split)

context backing_store
begin

text \<open>What is left after the nodes in \<open>ls\<close> were deleted is a smaller cache.\<close>

lemma delete_all_ok:
  fixes s :: "('d, 'k, 'v, 'cb) lru_cache"
  assumes ok: "list_ok cfg xs gs s" and d: "distinct ls" and ls: "set ls = {x \<in> set xs. P (ln_key (the_node x s))}"
    and dict: "\<And>s' :: ('d, 'k, 'v, 'cb) lru_cache. (\<forall>y. ln_key (the_node y s') = ln_key (the_node y s)) \<Longrightarrow> lc_dict s' = d' \<Longrightarrow>
      dict_ok binv contents (filter (\<lambda>x. \<not> P (ln_key (the_node x s))) xs) s'"
  shows "\<exists>xs'. cok cfg xs' (fold (delete_node cfg) ls (s\<lparr>lc_dict := d'\<rparr>)) \<and>
    abs_lru xs' (fold (delete_node cfg) ls (s\<lparr>lc_dict := d'\<rparr>)) = sp_remove P (abs_lru xs s)"
proof -
  let ?s = "s\<lparr>lc_dict := d'\<rparr>" and ?in = "\<lambda>x. P (ln_key (the_node x s))"
  let ?t = "fold (delete_node cfg) ls ?s" and ?xs = "filter (\<lambda>x. \<not> ?in x) xs"
  have l: "links_ok xs gs ?s" using ok list_to_links [of cfg xs gs "s\<lparr>lc_dict := d'\<rparr>"] by simp
  have sub: "set ls \<subseteq> set xs" using ls by auto
  have xs: "filter (\<lambda>x. x \<notin> set ls) xs = ?xs" using ls by (intro filter_cong) auto
  from fold_delete [OF delete_links [of cfg] l d sub] obtain gs' where t: "links_ok ?xs gs' ?t" "lc_dict ?t = d'" "lc_max_size ?t = lc_max_size s"
    "\<And>y. ln_key (the_node y ?t) = ln_key (the_node y s)" "\<And>y. y \<notin> set ls \<Longrightarrow> entry_of ?t y = entry_of s y"
    "lc_ran ?t = lc_ran s @ concat (map (\<lambda>x. snd (snd (entry_of s x))) ls)"
    unfolding xs by (auto simp: entry_of_simps)
  have "mset ls = mset (filter ?in xs)"
    using d links_distinct [OF l] ls by (intro set_eq_iff_mset_eq_distinct [THEN iffD1]) auto
  then have perm: "mset (map f ls) = mset (map f (filter ?in xs))" for f :: "nat \<Rightarrow> ('k, 'v, 'cb) entry" by simp
  have rest: "map (entry_of ?t) ?xs = map (entry_of s) ?xs" using t(5) ls by auto
  have split: "weight cfg (map (entry_of s) xs) = weight cfg (map (entry_of s) ls) + weight cfg (map (entry_of s) ?xs)"
    using weight_split [of cfg "map (entry_of s) xs" "\<lambda>e. P (fst e)"] weight_perm [OF perm, of cfg "entry_of s"]
    by (simp add: filter_map comp_def entry_of_def)
  have len: "lc_cached_len ?t = weight cfg (map (entry_of ?t) ?xs)" if "size_callback cfg \<noteq> None"
    using fold_cached_len [OF l d sub that] split ok that unfolding rest by (simp add: list_ok_def)
  have "list_ok cfg ?xs gs' ?t" unfolding list_ok_def using t(1) len by blast
  moreover have "dict_ok binv contents ?xs ?t" using dict [of ?t] t(2,4) by simp
  ultimately have "cok cfg ?xs ?t" by (auto simp: cache_ok_def)
  moreover have "abs_lru ?xs ?t = sp_remove P (abs_lru xs s)"
  proof -
    have "mset (concat (map (\<lambda>x. snd (snd (entry_of s x))) ls)) = mset (concat (map (\<lambda>x. snd (snd (entry_of s x))) (filter ?in xs)))"
      using \<open>mset ls = mset (filter ?in xs)\<close> by (rule concat_perm)
    moreover have "fst (entry_of s x) = ln_key (the_node x s)" for x by (simp add: entry_of_def)
    ultimately show ?thesis using rest t(3,6) unfolding abs_lru_def sp_remove_def by (simp add: filter_map comp_def del: map_eq_conv)
  qed
  ultimately show ?thesis by blast
qed

lemma pop_ok:
  fixes s :: "('d, 'k, 'v, 'cb) lru_cache"
  assumes "cok cfg xs s" "full k"
  shows "\<exists>s' xs'. cache_pop B cfg k s = (Inr (map_option fst (map_of (sp_entries (abs_lru xs s)) k)), s') \<and> cok cfg xs' s' \<and>
    abs_lru xs' s' = sp_remove (\<lambda>k'. k' = k) (abs_lru xs s)"
  using assms
proof (cases rule: lookup_ok)
  case missing
  then have "\<forall>e \<in> set (sp_entries (abs_lru xs s)). fst e \<noteq> k" by (auto simp: map_of_eq_None_iff)
  then have "sp_remove (\<lambda>k'. k' = k) (abs_lru xs s) = abs_lru xs s" by (simp add: sp_remove_def)
  then show ?thesis using missing assms(1)
    by (intro exI [of _ s] exI [of _ xs]) (simp add: cache_pop_def bindA_def readA_def liftA_def returnA_def)
next
  case (entry x)
  from assms(1) obtain gs where l: "list_ok cfg xs gs s" "dict_ok binv contents xs s" by (auto simp: cache_ok_def)
  note links = list_to_links [OF l(1)]
  from dict_pop_node [OF l entry(2)] obtain ls d' where p: "b_pop B k (lc_dict s) = Inr (ls, d')"
    "\<And>s' :: ('d, 'k, 'v, 'cb) lru_cache. (\<forall>y. ln_key (the_node y s') = ln_key (the_node y s)) \<Longrightarrow> lc_dict s' = d' \<Longrightarrow> dict_ok binv contents (remove1 x xs) s'"
    unfolding entry(3) by blast
  have inj: "y = x" if "y \<in> set xs" "ln_key (the_node y s) = k" for y
    using links that entry(2,3) by (auto simp: links_ok_def inj_on_def)
  have "filter (\<lambda>y. ln_key (the_node y s) \<noteq> k) xs = filter (\<lambda>y. x \<noteq> y) xs" using inj entry(3) by (intro filter_cong) auto
  then have rm: "remove1 x xs = filter (\<lambda>y. ln_key (the_node y s) \<noteq> k) xs"
    using links_distinct [OF links] by (simp add: distinct_remove1_removeAll removeAll_filter_not_eq)
  have x: "set [x] = {y \<in> set xs. ln_key (the_node y s) = k}" unfolding list.set using inj entry(2,3) by blast
  have sb: "same_but x s (delete_node cfg x s)" by (rule delete_ok(2) [OF l(1) entry(2)])
  let ?s = "(delete_node cfg x s)\<lparr>lc_dict := d'\<rparr>"
  have "cache_pop B cfg k s = (Inr (Some (ln_value (the_node x s))), ?s)"
    using entry(1,3) p(1) sb by (simp add: cache_pop_def bindA_def readA_def liftA_def writeA_def same_but_def)
  moreover have "map_option fst (map_of (sp_entries (abs_lru xs s)) k) = Some (ln_value (the_node x s))"
    using entry(4) by (simp add: entry_of_def)
  moreover obtain xs' where "cok cfg xs' ?s" "abs_lru xs' ?s = sp_remove (\<lambda>k'. k' = k) (abs_lru xs s)"
    using delete_all_ok [OF l(1), of "[x]" "\<lambda>k'. k' = k" d'] x p(2) unfolding rm by (auto simp: delete_dict)
  ultimately show ?thesis by metis
qed

lemma del_multi_ok:
  fixes s :: "('d, 'k, 'v, 'cb) lru_cache"
  assumes "cok cfg xs s" "partial p"
  shows "\<exists>s' xs'. cache_del_multi B cfg p s = (Inr (), s') \<and> cok cfg xs' s' \<and> abs_lru xs' s' = sp_remove (covers p) (abs_lru xs s)"
proof -
  from assms(1) obtain gs where l: "list_ok cfg xs gs s" "dict_ok binv contents xs s" by (auto simp: cache_ok_def)
  from dict_pop_ok [OF l(2) assms(2)] obtain ls d' where p: "b_pop B p (lc_dict s) = Inr (ls, d')" "distinct (case ls of None \<Rightarrow> [] | Some l \<Rightarrow> l)"
    "set (case ls of None \<Rightarrow> [] | Some l \<Rightarrow> l) = {x \<in> set xs. covers p (ln_key (the_node x s))}"
    "\<And>s' :: ('d, 'k, 'v, 'cb) lru_cache. (\<forall>y. ln_key (the_node y s') = ln_key (the_node y s)) \<Longrightarrow> lc_dict s' = d' \<Longrightarrow>
      dict_ok binv contents (filter (\<lambda>x. \<not> covers p (ln_key (the_node x s))) xs) s'"
    by blast
  have "cache_del_multi B cfg p s = (Inr (), fold (delete_node cfg) (case ls of None \<Rightarrow> [] | Some l \<Rightarrow> l) (s\<lparr>lc_dict := d'\<rparr>))"
    using p(1) by (simp add: cache_del_multi_def bindA_def readA_def liftA_def writeA_def split: option.split)
  with delete_all_ok [OF l(1) p(2-4)] show ?thesis by auto
qed

lemma clear_ok:
  assumes "cok cfg xs s"
  shows "\<exists>s'. cache_clear B cfg s = (Inr (), s') \<and> cok cfg [] s' \<and> abs_lru [] s' = sp_remove (\<lambda>_. True) (abs_lru xs s)"
proof -
  from assms obtain gs where l: "list_ok cfg xs gs s" "dict_ok binv contents xs s" by (auto simp: cache_ok_def)
  let ?ls = "b_values B (lc_dict s)" and ?g = "\<lambda>x s. drop_from_lists x (run_and_clear_callbacks x s)"
  let ?t = "fold ?g ?ls s"
  have b: "binv (lc_dict s)" and c: "\<And>k y. contents (lc_dict s) k = Some y \<longleftrightarrow> y \<in> set xs \<and> ln_key (the_node y s) = k"
    using l(2) by (auto simp: dict_ok_def)
  have v: "distinct ?ls" "set ?ls = set xs"
    using b_all_values [OF b dict_inj [OF l(2)]] c by (auto simp: ran_def)
  have "filter (\<lambda>x. x \<notin> set ?ls) xs = []" using v(2) by (simp add: filter_empty_conv)
  with fold_delete [OF clear_links list_to_links [OF l(1)] v(1)] v(2) obtain gs' where t: "links_ok [] gs' ?t" "lc_max_size ?t = lc_max_size s"
    "lc_ran ?t = lc_ran s @ concat (map (\<lambda>x. snd (snd (entry_of s x))) ?ls)" by auto
  have root: "next_node (cells (lc_list ?t) ROOT) = Some ROOT" "prev_node (cells (lc_list ?t) ROOT) = Some ROOT"
    using t(1) by (auto simp: links_ok_def dll_def)
  let ?s = "?t\<lparr>lc_dict := b_empty B, lc_cached_len := (case size_callback cfg of None \<Rightarrow> lc_cached_len ?t | Some _ \<Rightarrow> 0)\<rparr>"
  have "cache_clear B cfg s = (Inr (), ?s)"
    using root by (simp add: cache_clear_def bindA_def readA_def writeA_def guardA_def liftA_def)
  moreover have "links_ok [] gs' ?s" using t(1) by (simp add: links_ok_def)
  then have "list_ok cfg [] gs' ?s" by (auto simp: list_ok_def)
  moreover have "dict_ok binv contents [] ?s" using b_new by (simp add: dict_ok_def)
  moreover have "mset ?ls = mset xs" using v links_distinct [OF list_to_links [OF l(1)]] by (simp add: set_eq_iff_mset_eq_distinct)
  then have "abs_lru [] ?s = sp_remove (\<lambda>_. True) (abs_lru xs s)"
    using t(2,3) concat_perm [of ?ls xs "\<lambda>x. snd (snd (entry_of s x))"] by (simp add: abs_lru_def sp_remove_def comp_def)
  ultimately show ?thesis by (auto simp: cache_ok_def)
qed

section \<open>The refinement\<close>

lemma lru_step_ok:
  assumes ok: "cok cfg xs s" and op: "op_keys full partial op"
  shows "\<exists>r s' xs'. lru_step B cfg now op s = Some (r, s') \<and> cok cfg xs' s' \<and> sp_step covers cfg op (abs_lru xs s) = (r, abs_lru xs' s')"
proof (cases op)
  case (Get_Op k cbs touch)
  then have k: "full k" using op by (simp add: op_keys_def)
  from get_ok [OF ok k, of now cbs touch] show ?thesis using Get_Op by (auto simp: lru_step_def sp_step_def with_result_def)
next
  case (Set_Op k v cbs)
  then have k: "full k" using op by (simp add: op_keys_def)
  from set_ok [OF ok k, of now v cbs] show ?thesis using Set_Op by (fastforce simp: lru_step_def sp_step_def with_result_def)
next
  case (Setdefault_Op k v)
  then have k: "full k" using op by (simp add: op_keys_def)
  from set_default_ok [OF ok k, of now v] obtain r s' xs' where d: "cache_set_default B cfg now k v s = Some (r, s')" "cok cfg xs' s'"
    "case map_of (sp_entries (abs_lru xs s)) k of
       Some (v', _) \<Rightarrow> r = Inr v' \<and> abs_lru xs' s' = abs_lru xs s
     | None \<Rightarrow> (\<exists>r'. r = bindR r' (\<lambda>_. Inr v) \<and> sp_set cfg k v [] (abs_lru xs s) = (r', abs_lru xs' s'))" by blast
  have "sp_step covers cfg op (abs_lru xs s) = (bindR r (\<lambda>v. Inr (Value (Some v))), abs_lru xs' s')"
    using d(3) Setdefault_Op by (auto simp: sp_step_def bindR_bindR split: option.splits)
  then show ?thesis using d(1,2) Setdefault_Op by (auto simp: lru_step_def with_result_def)
next
  case (Pop_Op k)
  then have k: "full k" using op by (simp add: op_keys_def)
  from pop_ok [OF ok k] show ?thesis using Pop_Op by (auto simp: lru_step_def sp_step_def with_result_def)
next
  case (Del_Multi_Op p)
  then have p: "partial p" using op by (simp add: op_keys_def)
  from del_multi_ok [OF ok p] show ?thesis using Del_Multi_Op by (auto simp: lru_step_def sp_step_def with_result_def)
next
  case Clear_Op
  with clear_ok [OF ok] show ?thesis by (auto simp: lru_step_def sp_step_def with_result_def)
next
  case (Contains_Op k)
  then have k: "full k" using op by (simp add: op_keys_def)
  have "cache_contains B k s = (Inr (map_of (sp_entries (abs_lru xs s)) k \<noteq> None), s)"
    using ok k by (cases rule: lookup_ok) (simp_all add: cache_contains_def bindA_def readA_def liftA_def returnA_def)
  then show ?thesis using ok Contains_Op by (auto simp: lru_step_def sp_step_def with_result_def)
next
  case Len_Op
  from ok obtain gs where "list_ok cfg xs gs s" "dict_ok binv contents xs s" by (auto simp: cache_ok_def)
  then have "cache_len B cfg s = weight cfg (sp_entries (abs_lru xs s))" using cache_len_ok by (simp add: abs_lru_def)
  then show ?thesis using ok Len_Op by (auto simp: lru_step_def sp_step_def)
next
  case (Factor_Op f)
  let ?n = "scaled_size (lc_original_max_size cfg) f"
  have "cok cfg xs (s\<lparr>lc_max_size := ?n\<rparr>)" using ok by (simp add: cache_ok_def dict_ok_def)
  moreover have "abs_lru xs (s\<lparr>lc_max_size := ?n\<rparr>) = (abs_lru xs s)\<lparr>sp_max := ?n\<rparr>" by (simp add: abs_lru_def)
  ultimately have "\<exists>r s' xs'. lru_set_cache_factor B cfg f s = Some (r, s') \<and> cok cfg xs' s' \<and>
      (if \<not> apply_cache_factor cfg \<or> ?n = sp_max (abs_lru xs s) then r = Inr () \<and> abs_lru xs' s' = abs_lru xs s
       else sp_evict cfg ((abs_lru xs s)\<lparr>sp_max := ?n\<rparr>) = (r, abs_lru xs' s'))"
    using evict_ok [of cfg xs "s\<lparr>lc_max_size := ?n\<rparr>"] ok by (auto simp: lru_set_cache_factor_def Let_def abs_lru_def)
  then show ?thesis using Factor_Op by (fastforce simp: lru_step_def sp_step_def with_result_def Let_def split: if_splits)
qed

lemma run_ok:
  assumes "cok cfg xs s" "\<forall>c \<in> set ops. op_keys full partial (snd c)"
  shows "\<exists>rs s' xs'. lru_run B cfg ops s = Some (rs, s') \<and> cok cfg xs' s' \<and> sp_run covers cfg ops (abs_lru xs s) = (rs, abs_lru xs' s')"
  using assms
proof (induction ops arbitrary: xs s)
  case (Cons o1 ops)
  obtain now op where o: "o1 = (now, op)" by force
  have "op_keys full partial op" using Cons.prems(2) by (simp add: o)
  from lru_step_ok [OF Cons.prems(1) this, of now] obtain r s1 xs1 where 1: "lru_step B cfg now op s = Some (r, s1)" "cok cfg xs1 s1"
    "sp_step covers cfg op (abs_lru xs s) = (r, abs_lru xs1 s1)" by blast
  from Cons.IH [OF 1(2)] Cons.prems(2) obtain rs s' xs' where 2: "lru_run B cfg ops s1 = Some (rs, s')" "cok cfg xs' s'"
    "sp_run covers cfg ops (abs_lru xs1 s1) = (rs, abs_lru xs' s')" by auto
  show ?case using 1 2 by (auto simp: o)
qed auto

lemma new_ok:
  assumes "dll global gs" "s = new_lru_cache B cfg f global"
  shows "cok cfg [] s" "abs_lru [] s = new_lru_spec cfg f"
proof -
  have "list_ok cfg [] gs s"
    using assms dll_new by (auto simp: list_ok_def links_ok_def new_lru_cache_def create_root_node_def new_node_def)
  moreover have "dict_ok binv contents [] s" using b_new by (simp add: assms(2) dict_ok_def new_lru_cache_def)
  ultimately show "cok cfg [] s" by (auto simp: cache_ok_def)
  show "abs_lru [] s = new_lru_spec cfg f" by (simp add: assms(2) abs_lru_def new_lru_cache_def new_lru_spec_def)
qed

lemma refines_from_new:
  assumes "dll global gs" "\<forall>c \<in> set ops. op_keys full partial (snd c)"
  shows "\<exists>rs s' xs'. lru_run B cfg ops (new_lru_cache B cfg f global) = Some (rs, s') \<and> cok cfg xs' s' \<and>
    sp_run covers cfg ops (new_lru_spec cfg f) = (rs, abs_lru xs' s')"
  using run_ok [OF new_ok(1) [OF assms(1) refl], of ops cfg f] assms(2) unfolding new_ok(2) [OF assms(1) refl] by blast

end

end
