(* ===== verification/Lru_Claims.thy ===== *)
theory Lru_Claims
  imports Lru_Calls
begin

text \<open>The cache over \<open>dict\<close> and over \<open>TreeCache\<close>: it is the abstract cache, and it stays within its size.\<close>

section \<open>Bounds of the abstract cache\<close>

definition sizes_ok :: "'v lru_config \<Rightarrow> bool" where
  "sizes_ok cfg \<longleftrightarrow> 0 \<le> lc_original_max_size cfg \<and> (\<forall>f. size_callback cfg = Some f \<longrightarrow> (\<forall>v. 0 \<le> f v))"

definition op_factor_ok :: "('k, 'v, 'cb) lru_op \<Rightarrow> bool" where
  "op_factor_ok op \<longleftrightarrow> (case op of Factor_Op f \<Rightarrow> 0 \<le> f | _ \<Rightarrow> True)"

definition sp_ok :: "'v lru_config \<Rightarrow> ('k, 'v, 'cb) lru_spec \<Rightarrow> bool" where
  "sp_ok cfg a \<longleftrightarrow> distinct (map fst (sp_entries a)) \<and> weight cfg (sp_entries a) \<le> sp_max a \<and> 0 \<le> sp_max a"

lemma weight_nonneg: "sizes_ok cfg \<Longrightarrow> 0 \<le> weight cfg es"
  by (induction es) (auto simp: sizes_ok_def split: option.split)

lemma weight_filter: "sizes_ok cfg \<Longrightarrow> weight cfg (filter P es) \<le> weight cfg es"
  using weight_split [of cfg es P] weight_nonneg [of cfg "filter (\<lambda>e. \<not> P e) es"] by simp

lemma weight_swap:
  assumes "sizes_ok cfg" "distinct (map fst es)" "map_of es k = Some (v, cs)"
  shows "weight cfg ((k, v, cs') # filter (\<lambda>e. fst e \<noteq> k) es) = weight cfg es"
    "weight cfg (map (\<lambda>e. if fst e = k then (k, v, cs') else e) es) = weight cfg es"
proof -
  have "weight cfg (filter (\<lambda>e. fst e = k) es) = weight cfg [(k, v, cs')]" using assms(2,3)
  proof (induction es)
    case (Cons e es)
    then show ?case
    proof (cases "fst e = k")
      case True
      then have "filter (\<lambda>e. fst e = k) es = []" using Cons.prems(1) by (auto simp: filter_empty_conv image_iff)
      then show ?thesis using True Cons.prems(2) by (cases e) (auto split: option.split)
    qed (use Cons in \<open>auto split: if_splits\<close>)
  qed simp
  with weight_split [of cfg es "\<lambda>e. fst e = k"] show "weight cfg ((k, v, cs') # filter (\<lambda>e. fst e \<noteq> k) es) = weight cfg es" by simp
  have "map (\<lambda>e. fst (snd e)) (map (\<lambda>e. if fst e = k then (k, v, cs') else e) es) = map (\<lambda>e. fst (snd e)) es"
  proof -
    have "fst (snd e) = v" if "e \<in> set es" "fst e = k" for e
      using map_of_is_SomeI [OF assms(2), of k "snd e"] assms(3) that by (cases e) auto
    then show ?thesis by auto
  qed
  then show "weight cfg (map (\<lambda>e. if fst e = k then (k, v, cs') else e) es) = weight cfg es" by (rule weight_cong)
qed

lemma sp_evict_ok:
  assumes "0 \<le> sp_max a" "distinct (map fst (sp_entries a))"
  shows "\<exists>a'. sp_evict cfg a = (Inr (), a') \<and> sp_ok cfg a'"
  using assms
proof (induction cfg a rule: sp_evict.induct)
  case (1 cfg a)
  show ?case
  proof (cases "weight cfg (sp_entries a) \<le> sp_max a")
    case True
    then show ?thesis using 1 by (subst sp_evict.simps) (simp add: sp_ok_def)
  next
    case False
    then have ne: "sp_entries a \<noteq> []" using 1(2) by auto
    have "distinct (map fst (butlast (sp_entries a)))" using 1(3) by (metis distinct_butlast map_butlast)
    then show ?thesis using 1 False ne by (subst sp_evict.simps) simp
  qed
qed

lemma scaled_nonneg: "0 \<le> n \<Longrightarrow> 0 \<le> f \<Longrightarrow> 0 \<le> scaled_size n f"
  by (simp add: scaled_size_def trunc_rat_def)

lemma sp_set_ok:
  assumes "sp_ok cfg a"
  shows "\<exists>a'. sp_set cfg k v cbs a = (Inr (), a') \<and> sp_ok cfg a'"
proof -
  have "distinct (map fst (filter (\<lambda>e. fst e \<noteq> k) (sp_entries a)))" using assms by (simp add: sp_ok_def distinct_map_filter)
  then show ?thesis unfolding sp_set_def
    by (intro sp_evict_ok) (use assms in \<open>auto simp: sp_ok_def map_of_eq_None_iff split: option.split\<close>)
qed

lemma sp_remove_ok: "sizes_ok cfg \<Longrightarrow> sp_ok cfg a \<Longrightarrow> sp_ok cfg (sp_remove P a)"
  using weight_filter [of cfg "\<lambda>e. \<not> P (fst e)" "sp_entries a"] by (simp add: sp_ok_def sp_remove_def distinct_map_filter)

lemma sp_get_ok:
  assumes "sizes_ok cfg" "sp_ok cfg a"
  shows "sp_ok cfg (snd (sp_get k cbs touch a))"
proof (cases "map_of (sp_entries a) k")
  case (Some e)
  obtain v cs where e: "e = (v, cs)" by force
  have d: "distinct (map fst (sp_entries a))" using assms(2) by (simp add: sp_ok_def)
  have "map fst (map (\<lambda>e. if fst e = k then (k, v, merge_callbacks cbs cs) else e) (sp_entries a)) = map fst (sp_entries a)" by auto
  moreover have "distinct (map fst ((k, v, merge_callbacks cbs cs) # filter (\<lambda>e. fst e \<noteq> k) (sp_entries a)))"
    using d by (auto simp: distinct_map_filter)
  ultimately show ?thesis using assms(2) weight_swap [OF assms(1) d Some [unfolded e], of "merge_callbacks cbs cs"] d
    by (auto simp: sp_get_def Some e sp_ok_def simp del: weight_simps(2) list.map(2) map_map)
qed (use assms(2) in \<open>simp add: sp_get_def\<close>)

lemma sp_step_ok:
  assumes "sizes_ok cfg" "sp_ok cfg a" "op_factor_ok op"
  shows "\<exists>r a'. sp_step covers cfg op a = (Inr r, a') \<and> sp_ok cfg a'"
proof (cases op)
  case (Get_Op k cbs touch)
  then show ?thesis using sp_get_ok [OF assms(1,2), of k cbs touch] by (auto simp: sp_step_def split: prod.splits)
next
  case (Set_Op k v cbs)
  with sp_set_ok [OF assms(2), of k v cbs] show ?thesis by (auto simp: sp_step_def)
next
  case (Setdefault_Op k v)
  with sp_set_ok [OF assms(2), of k v "[]"] assms(2) show ?thesis by (auto simp: sp_step_def split: option.split)
next
  case (Factor_Op f)
  let ?n = "scaled_size (lc_original_max_size cfg) f"
  have "0 \<le> ?n" using assms(1,3) Factor_Op by (simp add: scaled_nonneg sizes_ok_def op_factor_ok_def)
  then obtain a' where "sp_evict cfg (a\<lparr>sp_max := ?n\<rparr>) = (Inr (), a')" "sp_ok cfg a'"
    using sp_evict_ok [of "a\<lparr>sp_max := ?n\<rparr>" cfg] assms(2) by (auto simp: sp_ok_def)
  then show ?thesis using assms(2) Factor_Op by (auto simp: sp_step_def Let_def)
qed (use assms(2) sp_remove_ok [OF assms(1,2)] in \<open>auto simp: sp_step_def\<close>)

lemma sp_run_ok:
  assumes "sizes_ok cfg" "sp_ok cfg a" "\<forall>c \<in> set ops. op_factor_ok (snd c)"
  shows "\<exists>rs a'. sp_run covers cfg ops a = (rs, a') \<and> sp_ok cfg a' \<and> (\<forall>e. Inl e \<notin> set rs)"
  using assms(2,3)
proof (induction ops arbitrary: a)
  case (Cons o1 ops)
  obtain now op where o: "o1 = (now, op)" by force
  have "op_factor_ok op" using Cons.prems(2) by (simp add: o)
  then obtain r a1 where 1: "sp_step covers cfg op a = (Inr r, a1)" "sp_ok cfg a1" using sp_step_ok [OF assms(1) Cons.prems(1)] by blast
  from Cons.IH [OF 1(2)] Cons.prems(2) show ?case using 1(1) by (auto simp: o)
qed auto

section \<open>The caches\<close>

text \<open>
  C21.  An \<open>LruCache\<close> over a \<open>dict\<close>, with its linked lists and its counters, returns for every sequence of
  calls of its methods what the abstract cache returns, a list of entries in the order of their last
  use, and has run the same callbacks; its eviction loops all end.
\<close>

theorem dict_cache_refines:
  fixes cfg :: "'v lru_config" and ops :: "(int \<times> ('k, 'v, 'cb) lru_op) list"
  assumes "dll global gs"
  shows "\<exists>s'. lru_run dict_backing cfg ops (new_lru_cache dict_backing cfg f global) = Some (fst (sp_run (=) cfg ops (new_lru_spec cfg f)), s') \<and>
    mset (lc_ran s') = sp_ran (snd (sp_run (=) cfg ops (new_lru_spec cfg f)))"
proof -
  have "op_keys (\<lambda>_. True) (\<lambda>_. True) op" for op :: "('k, 'v, 'cb) lru_op" by (cases op) (simp_all add: op_keys_def)
  with dict_store.refines_from_new [OF assms, of ops cfg f] show ?thesis by (auto simp: abs_lru_def)
qed

text \<open>
  C22.  The same for an \<open>LruCache\<close> over a \<open>TreeCache\<close> whose keys have \<open>n + 1\<close> parts, where \<open>del_multi\<close> may be given
  the first parts of a key and removes every entry under them.
\<close>

theorem tree_cache_refines:
  fixes cfg :: "'v lru_config" and ops :: "(int \<times> ('k list, 'v, 'cb) lru_op) list"
  assumes "dll global gs"
    and "\<forall>c \<in> set ops. op_keys (\<lambda>k. length k = Suc n) (\<lambda>p. p \<noteq> [] \<and> length p \<le> Suc n) (snd c)"
  shows "\<exists>s'. lru_run tree_backing cfg ops (new_lru_cache tree_backing cfg f global) = Some (fst (sp_run prefix cfg ops (new_lru_spec cfg f)), s') \<and>
    mset (lc_ran s') = sp_ran (snd (sp_run prefix cfg ops (new_lru_spec cfg f)))"
  using tree_store.refines_from_new [OF assms, of cfg f] by (auto simp: abs_lru_def)

text \<open>
  C23.  When sizes and factors are not negative, no call on the cache fails, and after every sequence
  of calls what the cache holds is no more than its maximum.
\<close>

theorem lru_cache_bounded:
  fixes cfg :: "'v lru_config" and ops :: "(int \<times> ('k, 'v, 'cb) lru_op) list"
  assumes "dll global gs" "sizes_ok cfg" "0 \<le> f" "\<forall>c \<in> set ops. op_factor_ok (snd c)"
  shows "\<exists>rs s'. lru_run dict_backing cfg ops (new_lru_cache dict_backing cfg f global) = Some (rs, s') \<and>
    cache_len dict_backing cfg s' \<le> lc_max_size s' \<and> (\<forall>e. Inl e \<notin> set rs)"
proof -
  have "op_keys (\<lambda>_. True) (\<lambda>_. True) op" for op :: "('k, 'v, 'cb) lru_op" by (cases op) (simp_all add: op_keys_def)
  with dict_store.refines_from_new [OF assms(1), of ops cfg f] obtain rs s' xs' where
    r: "lru_run dict_backing cfg ops (new_lru_cache dict_backing cfg f global) = Some (rs, s')" "dict_store.cok cfg xs' s'"
      "sp_run (=) cfg ops (new_lru_spec cfg f) = (rs, abs_lru xs' s')" by blast
  have "sp_ok cfg (new_lru_spec cfg f :: ('k, 'v, 'cb) lru_spec)"
    using assms(2,3) by (auto simp: sp_ok_def new_lru_spec_def sizes_ok_def scaled_nonneg)
  from sp_run_ok [OF assms(2) this assms(4), of "(=)"] r(3) have "sp_ok cfg (abs_lru xs' s')" "\<forall>e. Inl e \<notin> set rs" by auto
  moreover have "cache_len dict_backing cfg s' = weight cfg (map (entry_of s') xs')"
    using r(2) dict_store.cache_len_ok by (auto simp: cache_ok_def)
  ultimately show ?thesis using r(1) by (auto simp: sp_ok_def abs_lru_def)
qed

section \<open>Examples\<close>

text \<open>Room for two entries; the third drives out the one that was not read.\<close>

definition small_cfg :: "nat lru_config" where
  "small_cfg = \<lparr>size_callback = None, timed = True, lc_original_max_size = 2, apply_cache_factor = True\<rparr>"

definition small_calls :: "(int \<times> (nat, nat, nat) lru_op) list" where
  "small_calls = [(1, Set_Op 1 10 [5]), (2, Set_Op 2 20 [6]), (3, Get_Op 1 [] True), (4, Set_Op 3 30 []), (5, Contains_Op 2), (6, Get_Op 1 [] False),
     (7, Factor_Op (1 / 2)), (8, Len_Op)]"

definition tree_calls :: "(int \<times> (nat list, nat, nat) lru_op) list" where
  "tree_calls = [(1, Set_Op [1, 1] 10 [5]), (2, Set_Op [1, 2] 20 [6]), (3, Del_Multi_Op [1]), (4, Len_Op)]"

theorem dict_cache_refines_witness:
  "dll (create_root_node :: nat node_store) [] \<and>
   (\<exists>s'. lru_run dict_backing small_cfg small_calls (new_lru_cache dict_backing small_cfg 1 create_root_node) =
      Some ([Inr Nothing, Inr Nothing, Inr (Value (Some 10)), Inr Nothing, Inr (Truth False), Inr (Value (Some 10)), Inr Nothing, Inr (Number 1)], s') \<and>
      mset (lc_ran s') = {#6, 5#})"
proof -
  have "fst (sp_run (=) small_cfg small_calls (new_lru_spec small_cfg 1)) =
      [Inr Nothing, Inr Nothing, Inr (Value (Some 10)), Inr Nothing, Inr (Truth False), Inr (Value (Some 10)), Inr Nothing, Inr (Number 1)]"
    "sp_ran (snd (sp_run (=) small_cfg small_calls (new_lru_spec small_cfg 1))) = {#6, 5#}" by code_simp+
  with dict_cache_refines [OF dll_new, of small_cfg small_calls 1] dll_new show ?thesis by simp
qed

theorem tree_cache_refines_witness:
  "dll (create_root_node :: nat node_store) [] \<and>
   list_all (\<lambda>c. op_keys (\<lambda>k. length k = Suc 1) (\<lambda>p. p \<noteq> [] \<and> length p \<le> Suc 1) (snd c)) tree_calls \<and>
   (\<exists>s'. lru_run tree_backing small_cfg tree_calls (new_lru_cache tree_backing small_cfg 1 create_root_node) =
      Some ([Inr Nothing, Inr Nothing, Inr Nothing, Inr (Number 0)], s') \<and> mset (lc_ran s') = {#5, 6#})"
proof -
  have ev: "fst (sp_run prefix small_cfg tree_calls (new_lru_spec small_cfg 1)) = [Inr Nothing, Inr Nothing, Inr Nothing, Inr (Number 0)]"
    "sp_ran (snd (sp_run prefix small_cfg tree_calls (new_lru_spec small_cfg 1))) = {#5, 6#}" by code_simp+
  have k: "\<forall>c \<in> set tree_calls. op_keys (\<lambda>k. length k = Suc 1) (\<lambda>p. p \<noteq> [] \<and> length p \<le> Suc 1) (snd c)"
    by (simp add: tree_calls_def op_keys_def)
  from tree_cache_refines [OF dll_new k, of small_cfg 1] ev k dll_new show ?thesis by (simp add: list_all_iff)
qed

theorem lru_cache_bounded_witness:
  "dll (create_root_node :: nat node_store) [] \<and> sizes_ok small_cfg \<and> list_all (\<lambda>c. op_factor_ok (snd c)) small_calls \<and>
   (\<exists>rs s'. lru_run dict_backing small_cfg small_calls (new_lru_cache dict_backing small_cfg 1 create_root_node) = Some (rs, s') \<and>
      cache_len dict_backing small_cfg s' \<le> lc_max_size s' \<and> (\<forall>e. Inl e \<notin> set rs))"
proof -
  have s: "sizes_ok small_cfg" by (simp add: sizes_ok_def small_cfg_def)
  have o: "\<forall>c \<in> set small_calls. op_factor_ok (snd c)" by (simp add: small_calls_def op_factor_ok_def)
  from lru_cache_bounded [OF dll_new s _ o, of 1] s o dll_new show ?thesis by (simp add: list_all_iff)
qed

end
