(* ===== verification/Calls.thy ===== *)
theory Calls
  imports Outcomes
begin

text \<open>
  Calls that read and write a state, may raise and may run forever, one after the other; \<open>returns I m Q\<close>
  says that the call ends without an error, keeps \<open>I\<close> and gives a result with \<open>Q\<close>.
\<close>

section \<open>Calls\<close>

type_synonym ('s, 'a) call = "'s \<Rightarrow> ('a result \<times> 's) option"

definition bindC :: "('s, 'a) call \<Rightarrow> ('a \<Rightarrow> ('s, 'b) call) \<Rightarrow> ('s, 'b) call" where
  "bindC m f s = (case m s of None \<Rightarrow> None | Some (Inl e, s') \<Rightarrow> Some (Inl e, s') | Some (Inr a, s') \<Rightarrow> f a s')"

definition returnC :: "'a \<Rightarrow> ('s, 'a) call" where
  "returnC a s = Some (Inr a, s)"

definition liftC :: "'a result \<Rightarrow> ('s, 'a) call" where
  "liftC r s = Some (r, s)"

primrec foldC :: "('a \<Rightarrow> 'b \<Rightarrow> ('s, 'b) call) \<Rightarrow> 'a list \<Rightarrow> 'b \<Rightarrow> ('s, 'b) call" where
  "foldC f [] acc = returnC acc"
| "foldC f (x # xs) acc = bindC (f x acc) (foldC f xs)"

definition modifyC :: "('s \<Rightarrow> 's) \<Rightarrow> ('s, unit) call" where
  "modifyC f s = Some (Inr (), f s)"

text \<open>A call whose exceptions are caught and logged.\<close>

definition catchC :: "('s, unit) call \<Rightarrow> ('s, unit) call" where
  "catchC m s = map_option (\<lambda>(_, s'). (Inr (), s')) (m s)"

section \<open>Calls that end and keep a property of the state\<close>

definition leads :: "('s \<Rightarrow> bool) \<Rightarrow> ('s, 'a) call \<Rightarrow> ('s \<Rightarrow> bool) \<Rightarrow> bool" where
  "leads P m Q \<longleftrightarrow> (\<forall>s. P s \<longrightarrow> (\<exists>r s'. m s = Some (r, s') \<and> Q s'))"

named_theorems leads_rules "rules for calls that end with a property of the state"

lemma leadsD: "leads P m Q \<Longrightarrow> P s \<Longrightarrow> m s = Some (r, s') \<Longrightarrow> Q s'"
  by (fastforce simp: leads_def)

lemma leads_ex: "leads P m Q \<Longrightarrow> P s \<Longrightarrow> \<exists>r s'. m s = Some (r, s') \<and> Q s'"
  by (simp add: leads_def)

lemma leads_mono: "leads P m Q \<Longrightarrow> (\<And>s. P' s \<Longrightarrow> P s) \<Longrightarrow> (\<And>s. Q s \<Longrightarrow> Q' s) \<Longrightarrow> leads P' m Q'"
  unfolding leads_def by blast

lemma leads_bind [leads_rules]: "leads P m P \<Longrightarrow> (\<And>a. leads P (f a) P) \<Longrightarrow> leads P (bindC m f) P"
  unfolding leads_def bindC_def by (fastforce split: sum.splits)

lemma leads_return [leads_rules]: "leads P (returnC a) P"
  by (simp add: leads_def returnC_def)

lemma leads_lift [leads_rules]: "leads P (liftC r) P"
  by (simp add: leads_def liftC_def)

lemma leads_modify: "(\<And>s. P s \<Longrightarrow> Q (f s)) \<Longrightarrow> leads P (modifyC f) Q"
  by (simp add: leads_def modifyC_def)

lemma leads_catch [leads_rules]: "leads P m Q \<Longrightarrow> leads P (catchC m) Q"
  unfolding leads_def catchC_def by fastforce

lemma leads_if [leads_rules]: "(b \<Longrightarrow> leads P m Q) \<Longrightarrow> (\<not> b \<Longrightarrow> leads P n Q) \<Longrightarrow> leads P (if b then m else n) Q"
  by simp

text \<open>Calls that look at the state first.\<close>

lemma leads_if_state [leads_rules]: "leads P m Q \<Longrightarrow> leads P n Q \<Longrightarrow> leads P (\<lambda>s. if b s then m s else n s) Q"
  by (simp add: leads_def)

lemma leads_bind_state [leads_rules]:
  "(\<And>t. leads P (m t) P) \<Longrightarrow> (\<And>t a. leads P (f t a) P) \<Longrightarrow> leads P (\<lambda>s. bindC (m s) (f s) s) P"
  using leads_bind [of P] unfolding leads_def by blast

lemma leads_fold [leads_rules]: "(\<And>x acc. x \<in> set xs \<Longrightarrow> leads P (f x acc) P) \<Longrightarrow> leads P (foldC f xs acc) P"
  by (induction xs arbitrary: acc) (simp_all add: leads_return leads_bind)

section \<open>Calls that return\<close>

definition returns :: "('s \<Rightarrow> bool) \<Rightarrow> ('s, 'a) call \<Rightarrow> ('a \<Rightarrow> bool) \<Rightarrow> bool" where
  "returns I m Q \<longleftrightarrow> (\<forall>s. I s \<longrightarrow> (\<exists>a s'. m s = Some (Inr a, s') \<and> I s' \<and> Q a))"

lemma returns_bind: "returns I m P \<Longrightarrow> (\<And>a. P a \<Longrightarrow> returns I (f a) Q) \<Longrightarrow> returns I (bindC m f) Q"
  unfolding returns_def bindC_def by fastforce

lemma returns_return: "Q a \<Longrightarrow> returns I (returnC a) Q"
  by (simp add: returns_def returnC_def)

lemma returns_lift: "(case r of Inl _ \<Rightarrow> False | Inr a \<Rightarrow> Q a) \<Longrightarrow> returns I (liftC r) Q"
  by (simp add: returns_def liftC_def split: sum.splits)

lemma returns_mono: "returns I m P \<Longrightarrow> (\<And>a. P a \<Longrightarrow> Q a) \<Longrightarrow> returns I m Q"
  unfolding returns_def by blast

lemma returns_step: "returns I m Q \<Longrightarrow> I s \<Longrightarrow> m s = Some (Inr a, s') \<Longrightarrow> I s' \<and> Q a"
  unfolding returns_def by fastforce

lemma returns_fold_from:
  assumes "\<And>x acc ds. x \<in> set xs \<Longrightarrow> P ds acc \<Longrightarrow> returns I (f x acc) (P (ds @ [x]))" "P ds acc"
  shows "returns I (foldC f xs acc) (P (ds @ xs))"
  using assms
proof (induction xs arbitrary: ds acc)
  case (Cons x xs)
  have "returns I (f x acc) (P (ds @ [x]))" using Cons.prems by simp
  moreover have "returns I (foldC f xs a) (P (ds @ x # xs))" if "P (ds @ [x]) a" for a
    using Cons.IH [of "ds @ [x]" a] Cons.prems(1) that by simp
  ultimately show ?case by (simp add: returns_bind)
qed (simp add: returns_return)

lemma returns_fold:
  "(\<And>x acc ds. x \<in> set xs \<Longrightarrow> P ds acc \<Longrightarrow> returns I (f x acc) (P (ds @ [x]))) \<Longrightarrow> P [] acc \<Longrightarrow> returns I (foldC f xs acc) (P xs)"
  by (rule returns_fold_from [where ds = "[]", unfolded append_Nil])

end
