(* ===== verification/Dictionary_Cache.thy ===== *)
theory Dictionary_Cache
  imports Lru_Claims Calls
begin

text \<open>
  \<open>DictionaryCache\<close> of \<open>util/caches/dictionary_cache.py\<close>: a cache of dictionaries, or of some of their keys, in
  one \<open>LruCache\<close> over a \<open>TreeCache\<close>.  The keys there have two parts, of which the second is a key of the
  dictionary or \<open>_FullCacheKey.KEY\<close>.  The current thread is an argument.  No callbacks are given to the
  \<open>LruCache\<close>, so it makes no difference that two \<open>_PerKeyValue\<close> objects are never equal.
\<close>

section \<open>The cache\<close>

datatype ('k, 'dk) part = Cache_Key 'k | Dict_Part 'dk | Full_Part

datatype ('dk, 'dv) cached = Per_Key "'dv option" | Full_Dict "('dk \<times> 'dv) list"

record ('dk, 'dv) dictionary_entry =
  de_full :: bool
  de_known_absent :: "'dk list"
  de_value :: "('dk \<times> 'dv) list"

type_synonym ('k, 'dk, 'dv) dc_lru = "((('k, 'dk) part, nat) tree_cache, ('k, 'dk) part list, ('dk, 'dv) cached, unit) lru_cache"

record ('k, 'dk, 'dv) dictionary_cache =
  dc_cache :: "('k, 'dk, 'dv) dc_lru"
  dc_sequence :: int
  dc_thread :: "nat option"

definition cached_len :: "('dk, 'dv) cached \<Rightarrow> int" where
  "cached_len c = (case c of Per_Key _ \<Rightarrow> 1 | Full_Dict d \<Rightarrow> int (length d))"

definition dc_config :: "bool \<Rightarrow> int \<Rightarrow> ('dk, 'dv) cached lru_config" where
  "dc_config use_global_list max_entries =
     \<lparr>size_callback = Some cached_len, timed = use_global_list, lc_original_max_size = max_entries, apply_cache_factor = True\<rparr>"

definition new_dictionary_cache :: "bool \<Rightarrow> int \<Rightarrow> rat \<Rightarrow> nat node_store \<Rightarrow> ('k, 'dk, 'dv) dictionary_cache" where
  "new_dictionary_cache use_global_list max_entries factor global =
     \<lparr>dc_cache = new_lru_cache tree_backing (dc_config use_global_list max_entries) factor global, dc_sequence = 0, dc_thread = None\<rparr>"

definition on_cache :: "(('k, 'dk, 'dv) dc_lru, 'a) call \<Rightarrow> (('k, 'dk, 'dv) dictionary_cache, 'a) call" where
  "on_cache m c = map_option (\<lambda>(r, s). (r, c\<lparr>dc_cache := s\<rparr>)) (m (dc_cache c))"

definition dc_lookup :: "int \<Rightarrow> ('k, 'dk) part list \<Rightarrow> bool \<Rightarrow> (('k, 'dk, 'dv) dictionary_cache, ('dk, 'dv) cached option) call" where
  "dc_lookup now key touch = on_cache (\<lambda>s. Some (cache_get tree_backing now key [] touch s))"

definition dc_put :: "('dk, 'dv) cached lru_config \<Rightarrow> int \<Rightarrow> ('k, 'dk) part list \<Rightarrow> ('dk, 'dv) cached \<Rightarrow> (('k, 'dk, 'dv) dictionary_cache, unit) call" where
  "dc_put cfg now key v = on_cache (cache_set tree_backing cfg now key v [])"

definition check_thread :: "nat \<Rightarrow> (('k, 'dk, 'dv) dictionary_cache, unit) call" where
  "check_thread me c =
     (case dc_thread c of
        None \<Rightarrow> Some (Inr (), c\<lparr>dc_thread := Some me\<rparr>)
      | Some t \<Rightarrow> Some (if t \<noteq> me then Inl ValueErr else Inr (), c))"

definition get_full_dict :: "int \<Rightarrow> 'k \<Rightarrow> (('k, 'dk, 'dv) dictionary_cache, ('dk, 'dv) dictionary_entry) call" where
  "get_full_dict now key =
     bindC (dc_lookup now [Cache_Key key, Full_Part] True) (\<lambda>entry. liftC
       (case entry of
          None \<Rightarrow> Inr \<lparr>de_full = False, de_known_absent = [], de_value = []\<rparr>
        | Some (Full_Dict d) \<Rightarrow> Inr \<lparr>de_full = True, de_known_absent = [], de_value = d\<rparr>
        | Some (Per_Key _) \<Rightarrow> Inl AssertionErr))"

text \<open>The loop over the wanted keys: what was found, what is known to be absent and what is missing.\<close>

type_synonym ('dk, 'dv) found = "('dk \<times> 'dv) list \<times> 'dk list \<times> 'dk list"

definition dc_get_key :: "int \<Rightarrow> 'k \<Rightarrow> 'dk \<Rightarrow> ('dk, 'dv) found \<Rightarrow> (('k, 'dk, 'dv) dictionary_cache, ('dk, 'dv) found) call" where
  "dc_get_key now key dict_key acc =
     (case acc of (vals, absent, missing) \<Rightarrow>
        bindC (dc_lookup now [Cache_Key key, Dict_Part dict_key] True) (\<lambda>entry. liftC
          (case entry of
             None \<Rightarrow> Inr (vals, absent, missing @ [dict_key])
           | Some (Full_Dict _) \<Rightarrow> Inl AssertionErr
           | Some (Per_Key None) \<Rightarrow> Inr (vals, List.insert dict_key absent, missing)
           | Some (Per_Key (Some v)) \<Rightarrow> Inr (AList.update dict_key v vals, absent, missing))))"

definition add_missing ::
  "('dk, 'dv) cached lru_config \<Rightarrow> int \<Rightarrow> 'k \<Rightarrow> ('dk \<times> 'dv) list \<Rightarrow> 'dk \<Rightarrow> ('dk \<times> 'dv) list
   \<Rightarrow> (('k, 'dk, 'dv) dictionary_cache, ('dk \<times> 'dv) list) call" where
  "add_missing cfg now key entry dict_key vals =
     bindC (dc_put cfg now [Cache_Key key, Dict_Part dict_key] (Per_Key (map_of entry dict_key))) (\<lambda>_.
       returnC (case map_of entry dict_key of None \<Rightarrow> vals | Some v \<Rightarrow> AList.update dict_key v vals))"

text \<open>The rest of \<open>get\<close>, when the loop has found what it could.\<close>

definition get_missing ::
  "('dk, 'dv) cached lru_config \<Rightarrow> int \<Rightarrow> 'k \<Rightarrow> ('dk, 'dv) found \<Rightarrow> (('k, 'dk, 'dv) dictionary_cache, ('dk, 'dv) dictionary_entry) call" where
  "get_missing cfg now key found =
     (case found of (vals, absent, missing) \<Rightarrow>
        if missing = [] then returnC \<lparr>de_full = False, de_known_absent = absent, de_value = vals\<rparr>
        else
          bindC (dc_lookup now [Cache_Key key, Full_Part] False) (\<lambda>entry.
            (case entry of
               None \<Rightarrow> returnC \<lparr>de_full = False, de_known_absent = absent, de_value = vals\<rparr>
             | Some (Per_Key _) \<Rightarrow> liftC (Inl AssertionErr)
             | Some (Full_Dict d) \<Rightarrow>
                 bindC (foldC (add_missing cfg now key d) missing vals) (\<lambda>vals.
                   returnC \<lparr>de_full = True, de_known_absent = [], de_value = vals\<rparr>))))"

definition dc_get ::
  "('dk, 'dv) cached lru_config \<Rightarrow> int \<Rightarrow> 'k \<Rightarrow> 'dk list option \<Rightarrow> (('k, 'dk, 'dv) dictionary_cache, ('dk, 'dv) dictionary_entry) call" where
  "dc_get cfg now key dict_keys =
     (case dict_keys of
        None \<Rightarrow> get_full_dict now key
      | Some keys \<Rightarrow> bindC (foldC (dc_get_key now key) keys ([], [], [])) (get_missing cfg now key))"

definition dc_invalidate :: "('dk, 'dv) cached lru_config \<Rightarrow> nat \<Rightarrow> 'k \<Rightarrow> (('k, 'dk, 'dv) dictionary_cache, unit) call" where
  "dc_invalidate cfg me key =
     bindC (check_thread me) (\<lambda>_.
     bindC (\<lambda>c. Some (Inr (), c\<lparr>dc_sequence := dc_sequence c + 1\<rparr>)) (\<lambda>_.
       on_cache (\<lambda>s. Some (cache_del_multi tree_backing cfg [Cache_Key key] s))))"

definition dc_invalidate_all :: "('dk, 'dv) cached lru_config \<Rightarrow> nat \<Rightarrow> (('k, 'dk, 'dv) dictionary_cache, unit) call" where
  "dc_invalidate_all cfg me =
     bindC (check_thread me) (\<lambda>_.
     bindC (\<lambda>c. Some (Inr (), c\<lparr>dc_sequence := dc_sequence c + 1\<rparr>)) (\<lambda>_.
       on_cache (\<lambda>s. Some (cache_clear tree_backing cfg s))))"

definition update_subset ::
  "('dk, 'dv) cached lru_config \<Rightarrow> int \<Rightarrow> 'k \<Rightarrow> ('dk \<times> 'dv) list \<Rightarrow> 'dk list \<Rightarrow> (('k, 'dk, 'dv) dictionary_cache, unit) call" where
  "update_subset cfg now key value fetched_keys =
     bindC (foldC (\<lambda>(dict_key, v) _. dc_put cfg now [Cache_Key key, Dict_Part dict_key] (Per_Key (Some v))) value ()) (\<lambda>_.
       foldC (\<lambda>dict_key _. if dict_key \<in> fst ` set value then returnC ()
         else dc_put cfg now [Cache_Key key, Dict_Part dict_key] (Per_Key None)) fetched_keys ())"

definition dc_update ::
  "('dk, 'dv) cached lru_config \<Rightarrow> int \<Rightarrow> nat \<Rightarrow> int \<Rightarrow> 'k \<Rightarrow> ('dk \<times> 'dv) list \<Rightarrow> 'dk list option
   \<Rightarrow> (('k, 'dk, 'dv) dictionary_cache, unit) call" where
  "dc_update cfg now me sequence key value fetched_keys =
     bindC (check_thread me) (\<lambda>_.
     bindC (\<lambda>c. Some (Inr (dc_sequence c), c)) (\<lambda>current.
       if current = sequence then
         (case fetched_keys of
            None \<Rightarrow> dc_put cfg now [Cache_Key key, Full_Part] (Full_Dict value)
          | Some keys \<Rightarrow> update_subset cfg now key value keys)
       else returnC ()))"

section \<open>The values in the abstract cache\<close>

definition sp_values :: "('k, 'v, 'cb) lru_spec \<Rightarrow> ('k \<times> 'v) set" where
  "sp_values a = (\<lambda>e. (fst e, fst (snd e))) ` set (sp_entries a)"

lemma sp_evict_values: "sp_values (snd (sp_evict cfg a)) \<subseteq> sp_values a"
proof (induction cfg a rule: sp_evict.induct)
  case (1 cfg a)
  have "sp_values (a\<lparr>sp_entries := butlast (sp_entries a), sp_ran := r\<rparr>) \<subseteq> sp_values a" for r
    by (auto simp: sp_values_def dest: in_set_butlastD)
  note smaller = order_trans [OF 1 this]
  show ?case by (subst sp_evict.simps) (use smaller in simp)
qed

lemma sp_get_values:
  assumes "sp_get k cbs touch a = (r, a')"
  shows "sp_values a' \<subseteq> sp_values a" "r = Some v \<Longrightarrow> (k, v) \<in> sp_values a"
  using assms by (auto simp: sp_get_def sp_values_def image_iff split: option.splits if_splits dest!: map_of_SomeD) force+

lemma sp_set_values: "sp_values (snd (sp_set cfg k v cbs a)) \<subseteq> insert (k, v) (sp_values a)"
  unfolding sp_set_def
  by (rule order_trans [OF sp_evict_values]) (auto simp: sp_values_def split: option.split)

lemma sp_remove_values: "sp_values (sp_remove P a) = {(k, v) \<in> sp_values a. \<not> P k}"
  by (auto simp: sp_values_def sp_remove_def)

end
