(* ===== verification/Dictionary_Props.thy ===== *)
theory Dictionary_Props
  imports Dictionary_Cache
begin

text \<open>A \<open>DictionaryCache\<close> beside a database: what it returns is what the database has.\<close>

section \<open>Caches that hold only what is allowed\<close>

abbreviation pair_ok :: "('dk, 'dv) cached lru_config \<Rightarrow> nat list \<Rightarrow> ('k, 'dk, 'dv) dc_lru \<Rightarrow> bool" where
  "pair_ok \<equiv> cache_ok (tree_ok (Suc (Suc 0))) tree_contents"

definition holds ::
  "('dk, 'dv) cached lru_config \<Rightarrow> (('k, 'dk) part list \<times> ('dk, 'dv) cached) set \<Rightarrow> ('k, 'dk, 'dv) dc_lru \<Rightarrow> bool" where
  "holds cfg V s \<longleftrightarrow> (\<exists>xs. pair_ok cfg xs s \<and> sp_ok cfg (abs_lru xs s) \<and> sp_values (abs_lru xs s) \<subseteq> V)"

lemma holds_mono: "holds cfg V s \<Longrightarrow> V \<subseteq> V' \<Longrightarrow> holds cfg V' s"
  unfolding holds_def by blast

lemma holds_get:
  assumes "sizes_ok cfg" "holds cfg V s" "length key = 2"
  shows "\<exists>r s'. cache_get tree_backing now key [] touch s = (Inr r, s') \<and> holds cfg V s' \<and> (\<forall>v. r = Some v \<longrightarrow> (key, v) \<in> V)"
proof -
  from assms(2) obtain xs where xs: "pair_ok cfg xs s" "sp_ok cfg (abs_lru xs s)" "sp_values (abs_lru xs s) \<subseteq> V" by (auto simp: holds_def)
  have len: "length key = Suc (Suc 0)" using assms(3) by simp
  from tree_store.get_ok [OF xs(1) len, of now "[]" touch] obtain r s' xs' where g: "cache_get tree_backing now key [] touch s = (Inr r, s')"
    "pair_ok cfg xs' s'" "sp_get key [] touch (abs_lru xs s) = (r, abs_lru xs' s')" by blast
  have "sp_ok cfg (abs_lru xs' s')" using sp_get_ok [OF assms(1) xs(2), of key "[]" touch] g(3) by simp
  then show ?thesis using g xs(3) sp_get_values [OF g(3)] unfolding holds_def by blast
qed

lemma holds_set:
  assumes "holds cfg V s" "length key = 2" "(key, v) \<in> V"
  shows "\<exists>s'. cache_set tree_backing cfg now key v [] s = Some (Inr (), s') \<and> holds cfg V s'"
proof -
  from assms(1) obtain xs where xs: "pair_ok cfg xs s" "sp_ok cfg (abs_lru xs s)" "sp_values (abs_lru xs s) \<subseteq> V" by (auto simp: holds_def)
  have len: "length key = Suc (Suc 0)" using assms(2) by simp
  from tree_store.set_ok [OF xs(1) len, of now v "[]"] obtain r s' xs' where g: "cache_set tree_backing cfg now key v [] s = Some (r, s')"
    "pair_ok cfg xs' s'" "sp_set cfg key v [] (abs_lru xs s) = (r, abs_lru xs' s')" by blast
  have "r = Inr ()" "sp_ok cfg (abs_lru xs' s')" using sp_set_ok [OF xs(2), of key v "[]"] g(3) by auto
  moreover have "sp_values (abs_lru xs' s') \<subseteq> V" using sp_set_values [of cfg key v "[]" "abs_lru xs s"] g(3) xs(3) assms(3) by auto
  ultimately show ?thesis using g(1,2) unfolding holds_def by blast
qed

lemma holds_remove:
  assumes "sizes_ok cfg" "holds cfg V s" "p \<noteq> []" "length p \<le> 2"
  shows "\<exists>s'. cache_del_multi tree_backing cfg p s = (Inr (), s') \<and> holds cfg {(k, v) \<in> V. \<not> prefix p k} s'"
proof -
  from assms(2) obtain xs where xs: "pair_ok cfg xs s" "sp_ok cfg (abs_lru xs s)" "sp_values (abs_lru xs s) \<subseteq> V" by (auto simp: holds_def)
  have len: "p \<noteq> [] \<and> length p \<le> Suc (Suc 0)" using assms(3,4) by simp
  from tree_store.del_multi_ok [OF xs(1) len] obtain s' xs' where g: "cache_del_multi tree_backing cfg p s = (Inr (), s')"
    "pair_ok cfg xs' s'" "abs_lru xs' s' = sp_remove (prefix p) (abs_lru xs s)" by blast
  have "sp_ok cfg (abs_lru xs' s')" using sp_remove_ok [OF assms(1) xs(2)] g(3) by simp
  moreover have "sp_values (abs_lru xs' s') \<subseteq> {(k, v) \<in> V. \<not> prefix p k}" using sp_remove_values [of "prefix p" "abs_lru xs s"] g(3) xs(3) by auto
  ultimately show ?thesis using g(1,2) unfolding holds_def by blast
qed

lemma holds_clear:
  assumes "sizes_ok cfg" "holds cfg V s"
  shows "\<exists>s'. cache_clear tree_backing cfg s = (Inr (), s') \<and> holds cfg {} s'"
proof -
  from assms(2) obtain xs where xs: "pair_ok cfg xs s" "sp_ok cfg (abs_lru xs s)" by (auto simp: holds_def)
  from tree_store.clear_ok [OF xs(1)] obtain s' where g: "cache_clear tree_backing cfg s = (Inr (), s')"
    "pair_ok cfg [] s'" "abs_lru [] s' = sp_remove (\<lambda>_. True) (abs_lru xs s)" by blast
  have "sp_ok cfg (abs_lru [] s')" using sp_remove_ok [OF assms(1) xs(2)] g(3) by simp
  moreover have "sp_values (abs_lru [] s') = {}" using sp_remove_values [of "\<lambda>_. True" "abs_lru xs s"] g(3) by simp
  ultimately show ?thesis using g(1,2) unfolding holds_def by blast
qed

lemma holds_new:
  assumes "dll global gs" "sizes_ok cfg" "0 \<le> f"
  shows "holds cfg V (new_lru_cache tree_backing cfg f global)"
proof -
  have "sp_ok cfg (new_lru_spec cfg f)" "sp_values (new_lru_spec cfg f) = {}"
    using assms(2,3) by (auto simp: sp_ok_def new_lru_spec_def sizes_ok_def scaled_nonneg sp_values_def)
  then show ?thesis using tree_store.new_ok(1) [where m = "Suc 0", OF assms(1) refl] tree_store.new_ok(2) [OF assms(1) refl] unfolding holds_def by (metis empty_subsetI)
qed

section \<open>The database\<close>

text \<open>What the cache may hold of the keys that are not waiting for an invalidation.\<close>

definition allowed :: "('k \<Rightarrow> 'dk \<Rightarrow> 'dv option) \<Rightarrow> 'k set \<Rightarrow> (('k, 'dk) part list \<times> ('dk, 'dv) cached) set" where
  "allowed db stale = {([Cache_Key k, Dict_Part dk], Per_Key x) | k dk x. k \<in> stale \<or> x = db k dk} \<union>
     {([Cache_Key k, Full_Part], Full_Dict d) | k d. k \<in> stale \<or> map_of d = db k}"

text \<open>What was asked for, and whether an answer has it.\<close>

definition answers :: "('dk \<Rightarrow> 'dv option) \<Rightarrow> 'dk list option \<Rightarrow> ('dk \<times> 'dv) list \<Rightarrow> bool" where
  "answers m wanted ans \<longleftrightarrow>
     (case wanted of
        None \<Rightarrow> map_of ans = m
      | Some keys \<Rightarrow> (\<forall>(dk, v) \<in> set ans. m dk = Some v) \<and> (\<forall>dk \<in> set keys. dk \<in> fst ` set ans \<or> m dk = None))"

definition entry_right :: "('dk \<Rightarrow> 'dv option) \<Rightarrow> 'dk list option \<Rightarrow> ('dk, 'dv) dictionary_entry \<Rightarrow> bool" where
  "entry_right m wanted r \<longleftrightarrow>
     (\<forall>dk. map_of (de_value r) dk \<in> {None, m dk}) \<and> (\<forall>dk \<in> set (de_known_absent r). m dk = None) \<and>
     (de_full r \<longrightarrow> (case wanted of None \<Rightarrow> map_of (de_value r) = m | Some keys \<Rightarrow> \<forall>dk \<in> set keys. map_of (de_value r) dk = m dk))"

definition dc_inv ::
  "('dk, 'dv) cached lru_config \<Rightarrow> nat \<Rightarrow> (('k, 'dk) part list \<times> ('dk, 'dv) cached) set \<Rightarrow> int \<Rightarrow> ('k, 'dk, 'dv) dictionary_cache \<Rightarrow> bool" where
  "dc_inv cfg me V n c \<longleftrightarrow> holds cfg V (dc_cache c) \<and> dc_thread c \<in> {None, Some me} \<and> dc_sequence c = n"

lemma lookup_returns:
  assumes "sizes_ok cfg"
  shows "returns (dc_inv cfg me V n) (dc_lookup now [x, y] touch) (\<lambda>r. \<forall>v. r = Some v \<longrightarrow> ([x, y], v) \<in> V)"
  unfolding returns_def dc_lookup_def on_cache_def dc_inv_def using holds_get [OF assms, of V _ "[x, y]" now touch] by fastforce

lemma put_returns:
  assumes "([x, y], v) \<in> V"
  shows "returns (dc_inv cfg me V n) (dc_put cfg now [x, y] v) (\<lambda>_. True)"
  unfolding returns_def dc_put_def on_cache_def dc_inv_def using holds_set [OF _ _ assms, of cfg _ now] by fastforce

lemma check_thread_returns: "returns (dc_inv cfg me V n) (check_thread me) (\<lambda>_. True)"
  by (auto simp: returns_def dc_inv_def check_thread_def split: option.split)

lemma allowed_per_key:
  "\<forall>v. r = Some v \<longrightarrow> ([Cache_Key k, Dict_Part dk], v) \<in> allowed db stale \<Longrightarrow> r = None \<or> (\<exists>x. r = Some (Per_Key x) \<and> (k \<in> stale \<or> x = db k dk))"
  by (cases r) (auto simp: allowed_def)

lemma allowed_full:
  "\<forall>v. r = Some v \<longrightarrow> ([Cache_Key k, Full_Part], v) \<in> allowed db stale \<Longrightarrow> r = None \<or> (\<exists>d. r = Some (Full_Dict d) \<and> (k \<in> stale \<or> map_of d = db k))"
  by (cases r) (auto simp: allowed_def)

lemma full_dict_returns:
  assumes "sizes_ok cfg"
  shows "returns (dc_inv cfg me (allowed db stale) n) (get_full_dict now k) (\<lambda>r. k \<in> stale \<or> entry_right (db k) None r)"
  unfolding get_full_dict_def
proof (rule returns_bind [OF lookup_returns [OF assms]], goal_cases)
  case (1 r)
  show ?case by (rule returns_lift) (use allowed_full [OF 1] in \<open>auto simp: entry_right_def\<close>)
qed

text \<open>Values that agree with the database, and agree at the keys in \<open>K\<close>.\<close>

definition agree :: "('dk \<Rightarrow> 'dv option) \<Rightarrow> 'dk set \<Rightarrow> ('dk \<times> 'dv) list \<Rightarrow> bool" where
  "agree m K vals \<longleftrightarrow> (\<forall>dk. map_of vals dk = None \<or> map_of vals dk = m dk) \<and> (\<forall>dk \<in> K. map_of vals dk = m dk)"

lemma agree_put: "agree m K vals \<Longrightarrow> agree m (insert dk K) (case m dk of None \<Rightarrow> vals | Some v \<Rightarrow> AList.update dk v vals)"
  unfolding agree_def by (cases "m dk") (simp, metis, simp)

lemma agree_mono: "agree m K vals \<Longrightarrow> K' \<subseteq> K \<Longrightarrow> agree m K' vals"
  unfolding agree_def by blast

definition found_ok :: "('dk \<Rightarrow> 'dv option) \<Rightarrow> 'dk list \<Rightarrow> ('dk, 'dv) found \<Rightarrow> bool" where
  "found_ok m ds acc \<longleftrightarrow>
     (case acc of (vals, absent, missing) \<Rightarrow> agree m (set ds - set missing) vals \<and> (\<forall>dk \<in> set absent. m dk = None))"

lemma dc_get_key_returns:
  assumes "sizes_ok cfg" "k \<in> stale \<or> found_ok (db k) ds acc"
  shows "returns (dc_inv cfg me (allowed db stale) n) (dc_get_key now k dk acc) (\<lambda>acc. k \<in> stale \<or> found_ok (db k) (ds @ [dk]) acc)"
proof -
  obtain vals absent missing where acc: "acc = (vals, absent, missing)" by (cases acc) auto
  have put: "agree (db k) (set (ds @ [dk]) - set missing) (case db k dk of None \<Rightarrow> vals | Some v \<Rightarrow> AList.update dk v vals)"
    "agree (db k) (set (ds @ [dk]) - set (missing @ [dk])) vals" "\<forall>dk \<in> set absent. db k dk = None" if "k \<notin> stale"
  proof -
    have f: "agree (db k) (set ds - set missing) vals" "\<forall>dk \<in> set absent. db k dk = None" using assms(2) that by (auto simp: found_ok_def acc)
    show "agree (db k) (set (ds @ [dk]) - set missing) (case db k dk of None \<Rightarrow> vals | Some v \<Rightarrow> AList.update dk v vals)"
      by (rule agree_mono [OF agree_put [OF f(1)]]) auto
    show "agree (db k) (set (ds @ [dk]) - set (missing @ [dk])) vals" by (rule agree_mono [OF f(1)]) auto
  qed (use assms(2) that in \<open>auto simp: found_ok_def acc\<close>)
  show ?thesis unfolding dc_get_key_def acc prod.case
  proof (rule returns_bind [OF lookup_returns [OF assms(1)]], goal_cases)
    case (1 r)
    from allowed_per_key [OF this] consider "r = None" | x where "r = Some (Per_Key x)" "k \<in> stale \<or> x = db k dk" by blast
    then show ?case
    proof cases
      case 1
      then show ?thesis using put(2,3) by (intro returns_lift) (auto simp: found_ok_def)
    next
      case (2 x)
      then have "k \<in> stale \<or> agree (db k) (set (ds @ [dk]) - set missing) (case x of None \<Rightarrow> vals | Some v \<Rightarrow> AList.update dk v vals) \<and>
          (x = None \<longrightarrow> db k dk = None)" using put(1) by (cases "k \<in> stale") simp_all
      then show ?thesis unfolding 2(1) using put(3) by (intro returns_lift) (cases x; auto simp: found_ok_def)
    qed
  qed
qed

lemma add_missing_returns:
  assumes "k \<in> stale \<or> map_of d = db k" "k \<in> stale \<or> agree (db k) K vals"
  shows "returns (dc_inv cfg me (allowed db stale) n) (add_missing cfg now k d dk vals) (\<lambda>vals. k \<in> stale \<or> agree (db k) (insert dk K) vals)"
  unfolding add_missing_def
proof (rule returns_bind)
  show "returns (dc_inv cfg me (allowed db stale) n) (dc_put cfg now [Cache_Key k, Dict_Part dk] (Per_Key (map_of d dk))) (\<lambda>_. True)"
    by (rule put_returns) (use assms(1) in \<open>auto simp: allowed_def\<close>)
next
  have "k \<in> stale \<or> agree (db k) (insert dk K) (case map_of d dk of None \<Rightarrow> vals | Some v \<Rightarrow> AList.update dk v vals)"
    using assms agree_put [of "db k" K vals dk] by auto
  then show "returns (dc_inv cfg me (allowed db stale) n) (returnC (case map_of d dk of None \<Rightarrow> vals | Some v \<Rightarrow> AList.update dk v vals))
      (\<lambda>vals. k \<in> stale \<or> agree (db k) (insert dk K) vals)" by (rule returns_return)
qed

lemma add_all_missing:
  assumes d: "k \<in> stale \<or> map_of d = db k" and "k \<in> stale \<or> agree (db k) K vals"
  shows "returns (dc_inv cfg me (allowed db stale) n) (foldC (add_missing cfg now k d) missing vals)
    (\<lambda>vals. k \<in> stale \<or> agree (db k) (set missing \<union> K) vals)"
proof (rule returns_fold [where P = "\<lambda>ds vals. k \<in> stale \<or> agree (db k) (set ds \<union> K) vals"])
  fix x acc ds
  assume "k \<in> stale \<or> agree (db k) (set ds \<union> K) acc"
  from add_missing_returns [of k stale d db, OF d this]
  show "returns (dc_inv cfg me (allowed db stale) n) (add_missing cfg now k d x acc) (\<lambda>vals. k \<in> stale \<or> agree (db k) (set (ds @ [x]) \<union> K) vals)" by simp
qed (use assms(2) in simp)

lemma get_missing_returns:
  assumes "sizes_ok cfg" "k \<in> stale \<or> found_ok (db k) keys acc"
  shows "returns (dc_inv cfg me (allowed db stale) n) (get_missing cfg now k acc) (\<lambda>r. k \<in> stale \<or> entry_right (db k) (Some keys) r)"
proof -
  obtain vals absent missing where acc: "acc = (vals, absent, missing)" by (cases acc) auto
  let ?K = "set keys - set missing"
  have f: "k \<in> stale \<or> agree (db k) ?K vals" "k \<in> stale \<or> (\<forall>dk \<in> set absent. db k dk = None)" using assms(2) by (auto simp: found_ok_def acc)
  have some: "k \<in> stale \<or> entry_right (db k) (Some keys) \<lparr>de_full = False, de_known_absent = absent, de_value = vals\<rparr>"
    using f by (auto simp: entry_right_def agree_def)
  have all: "entry_right (db k) (Some keys) \<lparr>de_full = True, de_known_absent = [], de_value = vals'\<rparr>" if "agree (db k) (set missing \<union> ?K) vals'" for vals'
    using that by (simp add: entry_right_def agree_def)
  show ?thesis unfolding get_missing_def acc prod.case
  proof (split if_split, intro conjI impI, goal_cases)
    case 2
    show ?case
    proof (rule returns_bind [OF lookup_returns [OF assms(1)]], goal_cases)
      case (1 r)
      from allowed_full [OF this] consider "r = None" | d where "r = Some (Full_Dict d)" "k \<in> stale \<or> map_of d = db k" by blast
      then show ?case
      proof cases
        case (2 d)
        show ?thesis unfolding 2(1) option.case cached.case
          by (rule returns_bind [OF add_all_missing [of k stale d db, OF 2(2) f(1)]], rule returns_return) (use all in blast)
      qed (simp add: returns_return some)
    qed
  qed (intro returns_return some)
qed

lemma get_returns:
  assumes "sizes_ok cfg"
  shows "returns (dc_inv cfg me (allowed db stale) n) (dc_get cfg now k wanted) (\<lambda>r. k \<in> stale \<or> entry_right (db k) wanted r)"
proof (cases wanted)
  case None
  then show ?thesis using full_dict_returns [OF assms] by (simp add: dc_get_def)
next
  case (Some keys)
  have "returns (dc_inv cfg me (allowed db stale) n) (foldC (dc_get_key now k) keys ([], [], [])) (\<lambda>acc. k \<in> stale \<or> found_ok (db k) keys acc)"
    by (rule returns_fold [where P = "\<lambda>ds acc. k \<in> stale \<or> found_ok (db k) ds acc"])
      (rule dc_get_key_returns [OF assms], assumption, simp add: found_ok_def agree_def)
  then show ?thesis unfolding dc_get_def Some option.case by (rule returns_bind) (rule get_missing_returns [OF assms])
qed

lemma update_returns:
  assumes "sequence = n \<longrightarrow> k \<in> stale \<or> answers (db k) wanted ans"
  shows "returns (dc_inv cfg me (allowed db stale) n) (dc_update cfg now me sequence k ans wanted) (\<lambda>_. True)"
proof -
  let ?I = "dc_inv cfg me (allowed db stale) n"
  have "returns ?I (\<lambda>c. Some (Inr (dc_sequence c), c)) (\<lambda>m. m = n)" by (simp add: returns_def dc_inv_def)
  moreover have "returns ?I (case wanted of
      None \<Rightarrow> dc_put cfg now [Cache_Key k, Full_Part] (Full_Dict ans) | Some keys \<Rightarrow> update_subset cfg now k ans keys) (\<lambda>_. True)"
    if ok: "k \<in> stale \<or> answers (db k) wanted ans"
  proof (cases wanted)
    case None
    then show ?thesis using ok by (auto intro!: put_returns simp: answers_def allowed_def)
  next
    case (Some keys)
    have 1: "([Cache_Key k, Dict_Part (fst e)], Per_Key (Some (snd e))) \<in> allowed db stale" if "e \<in> set ans" for e
      using ok that Some by (auto simp: answers_def allowed_def)
    have 2: "([Cache_Key k, Dict_Part dk], Per_Key None) \<in> allowed db stale" if "dk \<in> set keys" "dk \<notin> fst ` set ans" for dk
      using ok that Some by (auto simp: answers_def allowed_def)
    show ?thesis unfolding Some option.case update_subset_def
    proof (rule returns_bind)
      show "returns ?I (foldC (\<lambda>(dict_key, v) _. dc_put cfg now [Cache_Key k, Dict_Part dict_key] (Per_Key (Some v))) ans ()) (\<lambda>_. True)"
        by (rule returns_fold [where P = "\<lambda>_ _. True"]) (use put_returns [OF 1] in \<open>auto split: prod.split\<close>)
    next
      fix u :: unit
      show "returns ?I (foldC (\<lambda>dict_key _. if dict_key \<in> fst ` set ans then returnC ()
          else dc_put cfg now [Cache_Key k, Dict_Part dict_key] (Per_Key None)) keys ()) (\<lambda>_. True)"
        by (rule returns_fold [where P = "\<lambda>_ _. True"]) (use put_returns [OF 2] in \<open>simp_all add: returns_return\<close>)
    qed
  qed
  ultimately show ?thesis unfolding dc_update_def using assms
    by (intro returns_bind [OF check_thread_returns], elim returns_bind) (auto simp: returns_return)
qed

lemma invalidate_holds:
  assumes "sizes_ok cfg" "dc_inv cfg me (allowed db stale) n c"
  shows "\<exists>c'. dc_invalidate cfg me k c = Some (Inr (), c') \<and> dc_inv cfg me (allowed db (stale - {k})) (n + 1) c'"
proof -
  have "holds cfg (allowed db stale) (dc_cache c)" using assms(2) by (simp add: dc_inv_def)
  from holds_remove [OF assms(1) this, of "[Cache_Key k]"] obtain s' where
    s': "cache_del_multi tree_backing cfg [Cache_Key k] (dc_cache c) = (Inr (), s')"
      "holds cfg {(p, v) \<in> allowed db stale. \<not> prefix [Cache_Key k] p} s'" by auto
  have "{(p, v) \<in> allowed db stale. \<not> prefix [Cache_Key k] p} \<subseteq> allowed db (stale - {k})" by (auto simp: allowed_def)
  from holds_mono [OF s'(2) this] s'(1) assms(2) show ?thesis
    by (auto simp: dc_invalidate_def bindC_def check_thread_def on_cache_def dc_inv_def split: option.split)
qed

lemma invalidate_all_holds:
  assumes "sizes_ok cfg" "dc_inv cfg me V n c"
  shows "\<exists>c'. dc_invalidate_all cfg me c = Some (Inr (), c') \<and> dc_inv cfg me (allowed db {}) (n + 1) c'"
proof -
  have "holds cfg V (dc_cache c)" using assms(2) by (simp add: dc_inv_def)
  from holds_clear [OF assms(1) this] obtain s' where s': "cache_clear tree_backing cfg (dc_cache c) = (Inr (), s')" "holds cfg {} s'" by blast
  from holds_mono [OF s'(2), of "allowed db {}"] s'(1) assms(2) show ?thesis
    by (auto simp: dc_invalidate_all_def bindC_def check_thread_def on_cache_def dc_inv_def split: option.split)
qed

section \<open>A cache beside a database\<close>

text \<open>
  Transactions take the sequence number, then read the database, then put what they have read into the
  cache.  Others write to the database and invalidate the key some time later; until then the key is
  stale.  Any order of these steps is possible.
\<close>

type_synonym ('k, 'dk, 'dv) fetch = "int \<times> 'k \<times> 'dk list option \<times> ('dk \<times> 'dv) list option"

record ('k, 'dk, 'dv) cached_db =
  cd_db :: "'k \<Rightarrow> 'dk \<Rightarrow> 'dv option"
  cd_cache :: "('k, 'dk, 'dv) dictionary_cache"
  cd_fetches :: "('k, 'dk, 'dv) fetch list"
  cd_stale :: "'k set"

inductive db_run :: "('dk, 'dv) cached lru_config \<Rightarrow> nat \<Rightarrow> ('k, 'dk, 'dv) cached_db \<Rightarrow> bool" for cfg me where
  start: "0 \<le> n \<Longrightarrow> 0 \<le> f \<Longrightarrow> dll global gs \<Longrightarrow> cfg = dc_config g n \<Longrightarrow>
    db_run cfg me \<lparr>cd_db = db, cd_cache = new_dictionary_cache g n f global, cd_fetches = [], cd_stale = {}\<rparr>"
| begin_fetch: "db_run cfg me y \<Longrightarrow>
    db_run cfg me (y\<lparr>cd_fetches := (dc_sequence (cd_cache y), k, wanted, None) # cd_fetches y\<rparr>)"
| select: "db_run cfg me y \<Longrightarrow> (q, k, wanted, None) \<in> set (cd_fetches y) \<Longrightarrow> answers (cd_db y k) wanted ans \<Longrightarrow>
    db_run cfg me (y\<lparr>cd_fetches := (q, k, wanted, Some ans) # remove1 (q, k, wanted, None) (cd_fetches y)\<rparr>)"
| store: "db_run cfg me y \<Longrightarrow> (q, k, wanted, Some ans) \<in> set (cd_fetches y) \<Longrightarrow>
    dc_update cfg now me q k ans wanted (cd_cache y) = Some (Inr (), c') \<Longrightarrow>
    db_run cfg me (y\<lparr>cd_cache := c', cd_fetches := remove1 (q, k, wanted, Some ans) (cd_fetches y)\<rparr>)"
| write_key: "db_run cfg me y \<Longrightarrow> db_run cfg me (y\<lparr>cd_db := (cd_db y)(k := m), cd_stale := insert k (cd_stale y)\<rparr>)"
| invalidate: "db_run cfg me y \<Longrightarrow> dc_invalidate cfg me k (cd_cache y) = Some (Inr (), c') \<Longrightarrow>
    db_run cfg me (y\<lparr>cd_cache := c', cd_stale := cd_stale y - {k}\<rparr>)"
| invalidate_all: "db_run cfg me y \<Longrightarrow> dc_invalidate_all cfg me (cd_cache y) = Some (Inr (), c') \<Longrightarrow>
    db_run cfg me (y\<lparr>cd_cache := c', cd_stale := {}\<rparr>)"
| get: "db_run cfg me y \<Longrightarrow> dc_get cfg now k wanted (cd_cache y) = Some (Inr r, c') \<Longrightarrow> db_run cfg me (y\<lparr>cd_cache := c'\<rparr>)"

text \<open>A fetch that may still put its answer into the cache has an answer that is right, or the key is stale.\<close>

definition fetch_ok :: "('k \<Rightarrow> 'dk \<Rightarrow> 'dv option) \<Rightarrow> 'k set \<Rightarrow> int \<Rightarrow> ('k, 'dk, 'dv) fetch \<Rightarrow> bool" where
  "fetch_ok db stale n f \<longleftrightarrow>
     (case f of (q, k, wanted, got) \<Rightarrow>
        q \<le> n \<and> (case got of None \<Rightarrow> True | Some ans \<Rightarrow> q = n \<longrightarrow> k \<in> stale \<or> answers (db k) wanted ans))"

definition db_ok :: "('dk, 'dv) cached lru_config \<Rightarrow> nat \<Rightarrow> ('k, 'dk, 'dv) cached_db \<Rightarrow> bool" where
  "db_ok cfg me y \<longleftrightarrow> sizes_ok cfg \<and> dc_inv cfg me (allowed (cd_db y) (cd_stale y)) (dc_sequence (cd_cache y)) (cd_cache y) \<and>
     (\<forall>f \<in> set (cd_fetches y). fetch_ok (cd_db y) (cd_stale y) (dc_sequence (cd_cache y)) f)"

lemma dc_sizes: "0 \<le> n \<Longrightarrow> sizes_ok (dc_config g n)"
  by (auto simp: sizes_ok_def dc_config_def cached_len_def split: cached.split)

lemma later_fetch: "fetch_ok db stale n f \<Longrightarrow> fetch_ok db' stale' (n + 1) f"
  by (auto simp: fetch_ok_def split: option.splits)

lemma written_fetch: "fetch_ok db stale n f \<Longrightarrow> fetch_ok (db(k := m)) (insert k stale) n f"
  by (auto simp: fetch_ok_def split: option.splits)

lemma db_run_ok: "db_run cfg me y \<Longrightarrow> db_ok cfg me y"
proof (induction rule: db_run.induct)
  case (start n f global gs g db)
  then show ?case using holds_new [OF start(3) dc_sizes [OF start(1)] start(2)] dc_sizes [OF start(1)]
    by (auto simp: db_ok_def dc_inv_def new_dictionary_cache_def)
next
  case (begin_fetch y k wanted)
  then show ?case by (auto simp: db_ok_def fetch_ok_def)
next
  case (select y q k wanted ans)
  have "fetch_ok (cd_db y) (cd_stale y) (dc_sequence (cd_cache y)) (q, k, wanted, None)" using select by (auto simp: db_ok_def)
  then have "fetch_ok (cd_db y) (cd_stale y) (dc_sequence (cd_cache y)) (q, k, wanted, Some ans)" using select(3) by (simp add: fetch_ok_def)
  then show ?case using select(4) set_remove1_subset [of "(q, k, wanted, None)" "cd_fetches y"] by (auto simp: db_ok_def)
next
  case (store y q k wanted ans now c')
  let ?n = "dc_sequence (cd_cache y)"
  have inv: "dc_inv cfg me (allowed (cd_db y) (cd_stale y)) ?n (cd_cache y)" and
    f: "fetch_ok (cd_db y) (cd_stale y) ?n (q, k, wanted, Some ans)" using store by (auto simp: db_ok_def)
  then have "q = ?n \<longrightarrow> k \<in> cd_stale y \<or> answers (cd_db y k) wanted ans" by (simp add: fetch_ok_def)
  from returns_step [OF update_returns [where db = "cd_db y", OF this] inv store(3)] have "dc_inv cfg me (allowed (cd_db y) (cd_stale y)) ?n c'" ..
  then show ?case using store(4) set_remove1_subset [of "(q, k, wanted, Some ans)" "cd_fetches y"] by (auto simp: db_ok_def dc_inv_def)
next
  case (write_key y k m)
  have "allowed (cd_db y) (cd_stale y) \<subseteq> allowed ((cd_db y)(k := m)) (insert k (cd_stale y))" by (auto simp: allowed_def)
  then show ?case using write_key(2) holds_mono written_fetch by (fastforce simp: db_ok_def dc_inv_def)
next
  case (invalidate y k c')
  then obtain c'' where "dc_invalidate cfg me k (cd_cache y) = Some (Inr (), c'')"
    "dc_inv cfg me (allowed (cd_db y) (cd_stale y - {k})) (dc_sequence (cd_cache y) + 1) c''" using invalidate_holds by (metis db_ok_def)
  then show ?case using invalidate later_fetch by (fastforce simp: db_ok_def dc_inv_def)
next
  case (invalidate_all y c')
  then obtain c'' where "dc_invalidate_all cfg me (cd_cache y) = Some (Inr (), c'')"
    "dc_inv cfg me (allowed (cd_db y) {}) (dc_sequence (cd_cache y) + 1) c''" using invalidate_all_holds by (metis db_ok_def)
  then show ?case using invalidate_all later_fetch by (fastforce simp: db_ok_def dc_inv_def)
next
  case (get y now k wanted r c')
  then have "dc_inv cfg me (allowed (cd_db y) (cd_stale y)) (dc_sequence (cd_cache y)) c'"
    using get_returns [of cfg me "cd_db y" "cd_stale y" "dc_sequence (cd_cache y)" now k wanted] unfolding returns_def db_ok_def by fastforce
  then show ?case using get(3) by (auto simp: db_ok_def dc_inv_def)
qed

text \<open>
  C24.  A \<open>DictionaryCache\<close> whose entries are put there with the sequence number taken before the database was
  read, and whose keys are invalidated after they are written, returns only what the database has for
  every key that no invalidation is pending for, in whatever order the reads, writes, updates and
  invalidations happen: the values it returns are those of the database, what it calls absent is
  absent, and an entry it calls full has every key that was asked for.
\<close>

theorem dictionary_cache_coherent:
  assumes "db_run cfg me y" "k \<notin> cd_stale y"
  shows "\<exists>r c'. dc_get cfg now k wanted (cd_cache y) = Some (Inr r, c') \<and> entry_right (cd_db y k) wanted r"
  using db_run_ok [OF assms(1)] get_returns [of cfg me "cd_db y" "cd_stale y" "dc_sequence (cd_cache y)" now k wanted] assms(2)
  unfolding db_ok_def returns_def by blast

section \<open>An example\<close>

text \<open>One key is read from the database, put into the cache and found there.\<close>

definition sample_db :: "nat \<Rightarrow> nat \<Rightarrow> nat option" where
  "sample_db k = (if k = 7 then [1 \<mapsto> 5] else Map.empty)"

definition sample_config :: "(nat, nat) cached lru_config" where
  "sample_config = dc_config True 10"

definition new_sample :: "(nat, nat, nat) dictionary_cache" where
  "new_sample = new_dictionary_cache True 10 1 create_root_node"

definition sample_cache :: "(nat, nat, nat) dictionary_cache" where
  "sample_cache = snd (the (dc_update sample_config 1 0 0 7 [(1, 5)] None new_sample))"

definition sample_cached_db :: "(nat, nat, nat) cached_db" where
  "sample_cached_db = \<lparr>cd_db = sample_db, cd_cache = sample_cache, cd_fetches = [], cd_stale = {}\<rparr>"

lemma sample_update: "dc_update sample_config 1 0 0 7 [(1, 5)] None new_sample = Some (Inr (), sample_cache)"
proof -
  have "map_option fst (dc_update sample_config 1 0 0 7 [(1, 5)] None new_sample) = Some (Inr ())" by code_simp
  then show ?thesis unfolding sample_cache_def by (cases "dc_update sample_config 1 0 0 7 [(1, 5)] None new_sample") auto
qed

lemma sample_run: "db_run sample_config 0 sample_cached_db"
proof -
  have 0: "db_run sample_config 0 \<lparr>cd_db = sample_db, cd_cache = new_sample, cd_fetches = [], cd_stale = {}\<rparr>"
    unfolding new_sample_def sample_config_def by (rule db_run.start [OF _ _ dll_new]) simp_all
  note 1 = db_run.begin_fetch [OF 0, of 7 None]
  have "answers (sample_db 7) None [(1, 5)]" by (simp add: answers_def sample_db_def fun_eq_iff)
  then have 2: "db_run sample_config 0 \<lparr>cd_db = sample_db, cd_cache = new_sample, cd_fetches = [(0, 7, None, Some [(1, 5)])], cd_stale = {}\<rparr>"
    using db_run.select [OF 1, of 0 7 None "[(1, 5)]"] by (simp add: new_sample_def new_dictionary_cache_def)
  show ?thesis using db_run.store [OF 2, of 0 7 None "[(1, 5)]" 1 sample_cache] sample_update by (simp add: sample_cached_db_def)
qed

theorem dictionary_cache_coherent_witness:
  "db_run sample_config 0 sample_cached_db \<and> 7 \<notin> cd_stale sample_cached_db \<and>
   (\<exists>r c'. dc_get sample_config 2 7 (Some [1, 2]) (cd_cache sample_cached_db) = Some (Inr r, c') \<and> entry_right (sample_db 7) (Some [1, 2]) r \<and>
      r = \<lparr>de_full = True, de_known_absent = [], de_value = [(1, 5)]\<rparr>)"
proof -
  have "map_option fst (dc_get sample_config 2 7 (Some [1, 2]) (cd_cache sample_cached_db)) =
      Some (Inr \<lparr>de_full = True, de_known_absent = [], de_value = [(1, 5)]\<rparr>)" by code_simp
  moreover have stale: "7 \<notin> cd_stale sample_cached_db" "cd_db sample_cached_db = sample_db" by (simp_all add: sample_cached_db_def)
  moreover note dictionary_cache_coherent [OF sample_run stale(1), of 2 "Some [1, 2]"]
  ultimately show ?thesis using sample_run by auto
qed

end
