(* ===== verification/Stream_Change_Cache.thy ===== *)
theory Stream_Change_Cache
  imports Outcomes
begin

text \<open>
  The stream change cache of \<open>util/caches/stream_change_cache.py\<close>: for each entity the position of
  its latest change, and by position the entities that changed there.  The \<open>SortedDict\<close> of the
  package \<open>sortedcontainers\<close> is an argument: a record of the operations the code uses, whose
  documented behaviour is \<open>sorted_dict_ok\<close>.  Entity sets are duplicate-free lists; the metrics
  are left out.
\<close>

section \<open>The sorted dictionary\<close>

record 'd sorted_dict =
  sd_empty :: 'd
  sd_get :: "'d \<Rightarrow> int \<Rightarrow> string list option"
  sd_set :: "'d \<Rightarrow> int \<Rightarrow> string list \<Rightarrow> 'd"
  sd_del :: "'d \<Rightarrow> int \<Rightarrow> 'd"
  sd_keys :: "'d \<Rightarrow> int list"

text \<open>A finite map whose keys are listed in increasing order.\<close>

definition sorted_dict_ok :: "'d sorted_dict \<Rightarrow> bool" where
  "sorted_dict_ok ops \<longleftrightarrow>
     sd_get ops (sd_empty ops) = Map.empty \<and>
     (\<forall>d k v. sd_get ops (sd_set ops d k v) = (sd_get ops d)(k \<mapsto> v)) \<and>
     (\<forall>d k. sd_get ops (sd_del ops d k) = (sd_get ops d)(k := None)) \<and>
     (\<forall>d. sorted_wrt (<) (sd_keys ops d) \<and> set (sd_keys ops d) = dom (sd_get ops d))"

section \<open>The cache\<close>

record 'd change_cache =
  original_max_size :: int
  cc_max_size :: int
  max_size_attr :: "int option"
  cc_cache :: 'd
  entity_to_key :: "(string \<times> int) list"
  earliest_known_stream_pos :: int

text \<open>\<open>popitem(0)\<close> and what follows it in the loop.\<close>

definition evict_step :: "'d sorted_dict \<Rightarrow> 'd change_cache \<Rightarrow> 'd change_cache result" where
  "evict_step ops c =
     (case sd_keys ops (cc_cache c) of
        [] \<Rightarrow> Inl KeyErr
      | k # _ \<Rightarrow>
          (case sd_get ops (cc_cache c) k of
             None \<Rightarrow> Inl KeyErr
           | Some r \<Rightarrow>
               Inr (c\<lparr>cc_cache := sd_del ops (cc_cache c) k,
                      earliest_known_stream_pos := max k (earliest_known_stream_pos c),
                      entity_to_key := foldl (\<lambda>m e. AList.delete e m) (entity_to_key c) r\<rparr>)))"

definition evict :: "'d sorted_dict \<Rightarrow> 'd change_cache \<Rightarrow> 'd change_cache outcome" where
  "evict ops c = whileR (\<lambda>c. int (length (sd_keys ops (cc_cache c))) > cc_max_size c) (evict_step ops) c"

text \<open>The part of \<open>entity_has_changed\<close> that takes an entity out of its old position.\<close>

definition forget_old_pos :: "'d sorted_dict \<Rightarrow> 'd \<Rightarrow> string \<Rightarrow> int \<Rightarrow> 'd result" where
  "forget_old_pos ops d entity old_pos =
     (case sd_get ops d old_pos of
        None \<Rightarrow> Inl KeyErr
      | Some e \<Rightarrow>
          if entity \<notin> set e then Inl KeyErr
          else (let e' = removeAll entity e
                in Inr (if e' = [] then sd_del ops d old_pos else sd_set ops d old_pos e')))"

definition add_at_pos :: "'d sorted_dict \<Rightarrow> 'd \<Rightarrow> string \<Rightarrow> int \<Rightarrow> 'd" where
  "add_at_pos ops d entity pos =
     sd_set ops d pos (List.insert entity (case sd_get ops d pos of None \<Rightarrow> [] | Some e \<Rightarrow> e))"

definition entity_has_changed ::
  "'d sorted_dict \<Rightarrow> 'd change_cache \<Rightarrow> string \<Rightarrow> int \<Rightarrow> 'd change_cache outcome" where
  "entity_has_changed ops c entity pos =
     (if pos \<le> earliest_known_stream_pos c then Some (Inr c)
      else
        (let record_change = (\<lambda>d. evict ops (c\<lparr>cc_cache := add_at_pos ops d entity pos,
               entity_to_key := AList.update entity pos (entity_to_key c)\<rparr>))
         in case map_of (entity_to_key c) entity of
              None \<Rightarrow> record_change (cc_cache c)
            | Some old_pos \<Rightarrow>
                if old_pos \<ge> pos then Some (Inr c)
                else bindO (liftO (forget_old_pos ops (cc_cache c) entity old_pos)) record_change))"

definition new_change_cache ::
  "'d sorted_dict \<Rightarrow> int \<Rightarrow> int \<Rightarrow> (string \<times> int) list \<Rightarrow> 'd change_cache outcome" where
  "new_change_cache ops current_stream_pos max_size prefilled =
     foldO (\<lambda>c (e, p). entity_has_changed ops c e p)
       \<lparr>original_max_size = max_size, cc_max_size = max_size, max_size_attr = None, cc_cache = sd_empty ops,
        entity_to_key = [], earliest_known_stream_pos = current_stream_pos\<rparr> prefilled"

definition set_cache_factor ::
  "'d sorted_dict \<Rightarrow> 'd change_cache \<Rightarrow> rat \<Rightarrow> (bool \<times> 'd change_cache) outcome" where
  "set_cache_factor ops c factor =
     (let new_size = \<lfloor>of_int (original_max_size c) * factor\<rfloor>
      in if new_size \<noteq> cc_max_size c
         then bindO (evict ops (c\<lparr>max_size_attr := Some new_size\<rparr>)) (\<lambda>c'. Some (Inr (True, c')))
         else Some (Inr (False, c)))"

definition has_entity_changed :: "'d change_cache \<Rightarrow> string \<Rightarrow> int \<Rightarrow> bool" where
  "has_entity_changed c entity pos =
     (if pos \<le> earliest_known_stream_pos c then True
      else (case map_of (entity_to_key c) entity of
              None \<Rightarrow> False
            | Some latest \<Rightarrow> pos < latest))"

text \<open>\<open>islice(start=bisect_right(stream_pos))\<close>: the keys after the position.\<close>

definition get_all_entities_changed :: "'d sorted_dict \<Rightarrow> 'd change_cache \<Rightarrow> int \<Rightarrow> string list option" where
  "get_all_entities_changed ops c pos =
     (if pos \<le> earliest_known_stream_pos c then None
      else Some (concat (map (\<lambda>k. case sd_get ops (cc_cache c) k of None \<Rightarrow> [] | Some e \<Rightarrow> e)
             (dropWhile (\<lambda>k. k \<le> pos) (sd_keys ops (cc_cache c))))))"

definition get_entities_changed ::
  "'d sorted_dict \<Rightarrow> 'd change_cache \<Rightarrow> bool \<Rightarrow> string list \<Rightarrow> int \<Rightarrow> string list" where
  "get_entities_changed ops c is_set entities pos =
     (case get_all_entities_changed ops c pos of
        None \<Rightarrow> remdups entities
      | Some changed \<Rightarrow>
          if is_set then filter (\<lambda>e. e \<in> set changed) entities
          else if length changed < length entities
            then filter (\<lambda>e. e \<in> set entities) (remdups changed)
          else filter (\<lambda>e. e \<in> set changed) (remdups entities))"

definition has_any_entity_changed :: "'d sorted_dict \<Rightarrow> 'd change_cache \<Rightarrow> int \<Rightarrow> bool" where
  "has_any_entity_changed ops c pos =
     (if pos \<le> earliest_known_stream_pos c then True
      else (let ks = sd_keys ops (cc_cache c) in if ks = [] then False else pos < last ks))"

definition get_max_pos_of_last_change :: "'d change_cache \<Rightarrow> string \<Rightarrow> int" where
  "get_max_pos_of_last_change c entity =
     (case map_of (entity_to_key c) entity of None \<Rightarrow> earliest_known_stream_pos c | Some k \<Rightarrow> k)"

section \<open>The invariant\<close>

text \<open>The two maps are in sync and hold no position at or before the earliest known one.\<close>

definition in_sync :: "'d sorted_dict \<Rightarrow> 'd change_cache \<Rightarrow> bool" where
  "in_sync ops c \<longleftrightarrow> 0 \<le> cc_max_size c \<and>
     (\<forall>e k. map_of (entity_to_key c) e = Some k \<longleftrightarrow> (\<exists>S. sd_get ops (cc_cache c) k = Some S \<and> e \<in> set S)) \<and>
     (\<forall>k S. sd_get ops (cc_cache c) k = Some S \<longrightarrow> S \<noteq> [] \<and> distinct S \<and> earliest_known_stream_pos c < k)"

definition cache_inv :: "'d sorted_dict \<Rightarrow> 'd change_cache \<Rightarrow> bool" where
  "cache_inv ops c \<longleftrightarrow> in_sync ops c \<and> int (length (sd_keys ops (cc_cache c))) \<le> cc_max_size c"

text \<open>What the cache knows of the changes it was told about.\<close>

definition tracks :: "(string \<times> int) set \<Rightarrow> 'd change_cache \<Rightarrow> bool" where
  "tracks R c \<longleftrightarrow>
     (\<forall>(e, p)\<in>R. p \<le> earliest_known_stream_pos c \<or> (\<exists>k. map_of (entity_to_key c) e = Some k \<and> p \<le> k)) \<and>
     (\<forall>e k. map_of (entity_to_key c) e = Some k \<longrightarrow> (e, k) \<in> R)"

lemma sorted_dict_simps:
  assumes "sorted_dict_ok ops"
  shows "sd_get ops (sd_empty ops) = Map.empty" "sd_get ops (sd_set ops d k v) = (sd_get ops d)(k \<mapsto> v)"
    "sd_get ops (sd_del ops d k) = (sd_get ops d)(k := None)" "set (sd_keys ops d) = dom (sd_get ops d)"
    "sorted_wrt (<) (sd_keys ops d)"
  using assms by (simp_all add: sorted_dict_ok_def)

lemma card_keys:
  assumes "sorted_dict_ok ops"
  shows "card (dom (sd_get ops d)) = length (sd_keys ops d)"
proof -
  have "distinct (sd_keys ops d)" using sorted_dict_simps(5) [OF assms] by (simp add: strict_sorted_iff)
  from distinct_card [OF this] show ?thesis by (simp only: sorted_dict_simps(4) [OF assms])
qed

lemma map_of_delete_all: "map_of (foldl (\<lambda>m e. AList.delete e m) m es) e = (if e \<in> set es then None else map_of m e)"
  by (induction es arbitrary: m) (auto simp: delete_conv')

lemma evict_step_spec:
  assumes ok: "sorted_dict_ok ops" and inv: "in_sync ops c" and tr: "tracks R c"
    and ne: "sd_keys ops (cc_cache c) \<noteq> []"
  shows "\<exists>c'. evict_step ops c = Inr c' \<and> in_sync ops c' \<and> tracks R c' \<and> cc_max_size c' = cc_max_size c \<and>
    length (sd_keys ops (cc_cache c')) < length (sd_keys ops (cc_cache c))"
proof -
  note sd = sorted_dict_simps [OF ok]
  obtain k ks where ks: "sd_keys ops (cc_cache c) = k # ks" using ne by (cases "sd_keys ops (cc_cache c)") auto
  obtain r where r: "sd_get ops (cc_cache c) k = Some r" using sd(4) [of "cc_cache c"] ks by auto
  have kmin: "k < l" if "sd_get ops (cc_cache c) l = Some S" "l \<noteq> k" for l S
    using sd(4,5) [of "cc_cache c"] ks that by auto
  let ?c = "c\<lparr>cc_cache := sd_del ops (cc_cache c) k,
     earliest_known_stream_pos := max k (earliest_known_stream_pos c),
     entity_to_key := foldl (\<lambda>m e. AList.delete e m) (entity_to_key c) r\<rparr>"
  have e: "evict_step ops c = Inr ?c" by (simp add: evict_step_def ks r)
  have sync: "map_of (entity_to_key c) e = Some l \<longleftrightarrow> (\<exists>S. sd_get ops (cc_cache c) l = Some S \<and> e \<in> set S)" for e l
    using inv by (simp add: in_sync_def)
  have r_iff: "e \<in> set r \<longleftrightarrow> map_of (entity_to_key c) e = Some k" for e using sync r by auto
  have m: "map_of (entity_to_key ?c) e = (if e \<in> set r then None else map_of (entity_to_key c) e)" for e
    by (simp add: map_of_delete_all)
  have "map_of (entity_to_key ?c) e = Some l \<longleftrightarrow> (\<exists>S. sd_get ops (cc_cache ?c) l = Some S \<and> e \<in> set S)" for e l
    unfolding m r_iff using sync [of e l] by (auto simp: sd(3))
  moreover have "S \<noteq> [] \<and> distinct S \<and> earliest_known_stream_pos ?c < l" if "sd_get ops (cc_cache ?c) l = Some S" for l S
    using that inv kmin by (auto simp: sd(3) in_sync_def split: if_splits)
  ultimately have "in_sync ops ?c" using inv by (simp add: in_sync_def)
  moreover have "tracks R ?c"
    unfolding tracks_def
  proof (intro conjI ballI allI impI)
    fix x
    assume x: "x \<in> R"
    obtain e p where ep: "x = (e, p)" by (cases x)
    have "p \<le> earliest_known_stream_pos c \<or> (\<exists>l. map_of (entity_to_key c) e = Some l \<and> p \<le> l)"
      using tr x ep by (auto simp: tracks_def)
    then show "case x of (e, p) \<Rightarrow> p \<le> earliest_known_stream_pos ?c \<or> (\<exists>l. map_of (entity_to_key ?c) e = Some l \<and> p \<le> l)"
      unfolding ep prod.case m r_iff by auto
  next
    fix e l
    assume "map_of (entity_to_key ?c) e = Some l"
    then show "(e, l) \<in> R" using tr unfolding m by (auto simp: tracks_def split: if_splits)
  qed
  moreover have "length (sd_keys ops (cc_cache ?c)) < length (sd_keys ops (cc_cache c))"
  proof -
    have fin: "finite (dom (sd_get ops (cc_cache c)))" by (simp only: sd(4) [symmetric] finite_set)
    have "dom (sd_get ops (cc_cache ?c)) = dom (sd_get ops (cc_cache c)) - {k}" by (simp add: sd(3))
    moreover have "k \<in> dom (sd_get ops (cc_cache c))" using r by blast
    ultimately have "card (dom (sd_get ops (cc_cache ?c))) < card (dom (sd_get ops (cc_cache c)))"
      using fin by (simp only: card_Diff1_less)
    then show ?thesis unfolding card_keys [OF ok] .
  qed
  ultimately show ?thesis using e by auto
qed

lemma evict_spec:
  assumes ok: "sorted_dict_ok ops" and inv: "in_sync ops c" and tr: "tracks R c"
  shows "\<exists>c'. evict ops c = Some (Inr c') \<and> cache_inv ops c' \<and> tracks R c' \<and> cc_max_size c' = cc_max_size c"
  using inv tr
proof (induction "length (sd_keys ops (cc_cache c))" arbitrary: c rule: less_induct)
  case less
  show ?case
  proof (cases "int (length (sd_keys ops (cc_cache c))) > cc_max_size c")
    case True
    then have "sd_keys ops (cc_cache c) \<noteq> []" using less.prems(1) by (auto simp: in_sync_def)
    from evict_step_spec [OF ok less.prems this] obtain c1 where c1: "evict_step ops c = Inr c1"
      "in_sync ops c1" "tracks R c1" "cc_max_size c1 = cc_max_size c"
      "length (sd_keys ops (cc_cache c1)) < length (sd_keys ops (cc_cache c))" by blast
    have "evict ops c = evict ops c1" using True c1(1) by (simp add: evict_def whileR.simps [of _ _ c])
    then show ?thesis using less.hyps [OF c1(5,2,3)] c1(4) by simp
  next
    case False
    then show ?thesis using less.prems by (simp add: evict_def whileR.simps [of _ _ c] cache_inv_def)
  qed
qed

text \<open>Recording a change, whatever was known of the entity before.\<close>

lemma record_change_sync:
  assumes ok: "sorted_dict_ok ops" and pos: "earliest_known_stream_pos c < pos" and mx: "0 \<le> cc_max_size c"
    and sync: "\<And>e k. e \<noteq> entity \<Longrightarrow> map_of (entity_to_key c) e = Some k \<longleftrightarrow> (\<exists>S. sd_get ops d k = Some S \<and> e \<in> set S)"
    and out: "\<And>k S. sd_get ops d k = Some S \<Longrightarrow> S \<noteq> [] \<and> distinct S \<and> earliest_known_stream_pos c < k \<and> entity \<notin> set S"
  shows "in_sync ops (c\<lparr>cc_cache := add_at_pos ops d entity pos, entity_to_key := AList.update entity pos (entity_to_key c)\<rparr>)"
proof -
  let ?d = "add_at_pos ops d entity pos"
  have g: "sd_get ops ?d k = (if k = pos then Some (List.insert entity (case sd_get ops d pos of None \<Rightarrow> [] | Some e \<Rightarrow> e))
      else sd_get ops d k)" for k
    by (simp add: add_at_pos_def sorted_dict_simps [OF ok])
  have "map_of (AList.update entity pos (entity_to_key c)) e = Some k \<longleftrightarrow> (\<exists>S. sd_get ops ?d k = Some S \<and> e \<in> set S)" for e k
  proof (cases "e = entity")
    case True
    then show ?thesis using out by (auto simp: g)
  next
    case False
    then show ?thesis using sync [OF False, of k] by (auto simp: g split: option.splits)
  qed
  moreover have "S \<noteq> [] \<and> distinct S \<and> earliest_known_stream_pos c < k" if "sd_get ops ?d k = Some S" for k S
    using that out pos by (auto simp: g split: if_splits option.splits)
  ultimately show ?thesis using mx by (simp add: in_sync_def)
qed

lemma record_change_tracks:
  assumes tr: "tracks R c" and old: "\<And>k. map_of (entity_to_key c) e = Some k \<Longrightarrow> k \<le> p"
  shows "tracks (insert (e, p) R) (c\<lparr>cc_cache := d, entity_to_key := AList.update e p (entity_to_key c)\<rparr>)"
  unfolding tracks_def
proof (intro conjI ballI allI impI)
  fix x
  assume "x \<in> insert (e, p) R"
  then consider "x = (e, p)" | a b where "x = (a, b)" "(a, b) \<in> R" by (cases x) auto
  then show "case x of (a, b) \<Rightarrow> b \<le> earliest_known_stream_pos (c\<lparr>cc_cache := d, entity_to_key := AList.update e p (entity_to_key c)\<rparr>) \<or>
    (\<exists>k. map_of (entity_to_key (c\<lparr>cc_cache := d, entity_to_key := AList.update e p (entity_to_key c)\<rparr>)) a = Some k \<and> b \<le> k)"
  proof cases
    case (2 a b)
    have "b \<le> earliest_known_stream_pos c \<or> (\<exists>k. map_of (entity_to_key c) a = Some k \<and> b \<le> k)"
      using tr 2(2) by (auto simp: tracks_def)
    then show ?thesis using old 2(1) by (cases "a = e") (auto intro: order_trans)
  qed simp
qed (use tr in \<open>auto simp: tracks_def split: if_splits\<close>)

text \<open>Taking an entity out of its old position.\<close>

lemma forget_old_pos_sync:
  assumes ok: "sorted_dict_ok ops" and s: "in_sync ops c" and k: "map_of (entity_to_key c) e = Some k"
  obtains d where "forget_old_pos ops (cc_cache c) e k = Inr d"
    "\<And>x l. x \<noteq> e \<Longrightarrow> map_of (entity_to_key c) x = Some l \<longleftrightarrow> (\<exists>S. sd_get ops d l = Some S \<and> x \<in> set S)"
    "\<And>l S. sd_get ops d l = Some S \<Longrightarrow> S \<noteq> [] \<and> distinct S \<and> earliest_known_stream_pos c < l \<and> e \<notin> set S"
proof -
  have sync: "map_of (entity_to_key c) x = Some l \<longleftrightarrow> (\<exists>S. sd_get ops (cc_cache c) l = Some S \<and> x \<in> set S)" for x l
    using s by (simp add: in_sync_def)
  have ne: "S \<noteq> [] \<and> distinct S \<and> earliest_known_stream_pos c < l" if "sd_get ops (cc_cache c) l = Some S" for l S
    using s that by (auto simp: in_sync_def)
  obtain S where S: "sd_get ops (cc_cache c) k = Some S" "e \<in> set S" using sync k by blast
  let ?S = "removeAll e S"
  let ?d = "if ?S = [] then sd_del ops (cc_cache c) k else sd_set ops (cc_cache c) k ?S"
  have f: "forget_old_pos ops (cc_cache c) e k = Inr ?d" using S by (simp add: forget_old_pos_def Let_def)
  have g: "sd_get ops ?d l = (if l = k then (if ?S = [] then None else Some ?S) else sd_get ops (cc_cache c) l)" for l
    by (simp add: sorted_dict_simps [OF ok])
  have a: "map_of (entity_to_key c) x = Some l \<longleftrightarrow> (\<exists>T. sd_get ops ?d l = Some T \<and> x \<in> set T)" if x: "x \<noteq> e" for x l
  proof (cases "l = k")
    case True
    have "x \<in> set S \<longleftrightarrow> x \<in> set ?S" using x by simp
    then have "x \<in> set S \<longleftrightarrow> ?S \<noteq> [] \<and> x \<in> set ?S" by (metis empty_iff empty_set)
    then show ?thesis using sync [of x l] S unfolding g True by auto
  qed (use sync [of x l] g in simp)
  have b: "T \<noteq> [] \<and> distinct T \<and> earliest_known_stream_pos c < l \<and> e \<notin> set T" if T: "sd_get ops ?d l = Some T" for l T
  proof (cases "l = k")
    case True
    then show ?thesis using T ne [OF S(1)] unfolding g by (auto simp: distinct_removeAll split: if_splits)
  next
    case False
    then show ?thesis using T ne [of l T] sync [of e l] k unfolding g by auto
  qed
  show thesis by (rule that [OF f a b])
qed

lemma entity_has_changed_spec:
  assumes ok: "sorted_dict_ok ops" and inv: "cache_inv ops c" and tr: "tracks R c"
  shows "\<exists>c'. entity_has_changed ops c e p = Some (Inr c') \<and> cache_inv ops c' \<and> tracks (insert (e, p) R) c' \<and>
    cc_max_size c' = cc_max_size c"
proof (cases "p \<le> earliest_known_stream_pos c \<or> (\<exists>k. map_of (entity_to_key c) e = Some k \<and> p \<le> k)")
  case True
  then have "entity_has_changed ops c e p = Some (Inr c)"
    by (auto simp: entity_has_changed_def Let_def split: option.splits)
  moreover have "tracks (insert (e, p) R) c" using tr True by (auto simp: tracks_def)
  ultimately show ?thesis using inv by blast
next
  case False
  have s: "in_sync ops c" using inv by (simp add: cache_inv_def)
  have sync: "map_of (entity_to_key c) x = Some l \<longleftrightarrow> (\<exists>S. sd_get ops (cc_cache c) l = Some S \<and> x \<in> set S)" for x l
    using s by (simp add: in_sync_def)
  have ne: "S \<noteq> [] \<and> distinct S \<and> earliest_known_stream_pos c < l" if "sd_get ops (cc_cache c) l = Some S" for l S
    using s that by (auto simp: in_sync_def)
  obtain d where d: "entity_has_changed ops c e p =
      evict ops (c\<lparr>cc_cache := add_at_pos ops d e p, entity_to_key := AList.update e p (entity_to_key c)\<rparr>)"
    and d1: "\<And>x l. x \<noteq> e \<Longrightarrow> map_of (entity_to_key c) x = Some l \<longleftrightarrow> (\<exists>S. sd_get ops d l = Some S \<and> x \<in> set S)"
    and d2: "\<And>l S. sd_get ops d l = Some S \<Longrightarrow> S \<noteq> [] \<and> distinct S \<and> earliest_known_stream_pos c < l \<and> e \<notin> set S"
  proof (cases "map_of (entity_to_key c) e")
    case None
    then have "entity_has_changed ops c e p =
      evict ops (c\<lparr>cc_cache := add_at_pos ops (cc_cache c) e p, entity_to_key := AList.update e p (entity_to_key c)\<rparr>)"
      using False by (simp add: entity_has_changed_def Let_def)
    moreover have "\<And>l S. sd_get ops (cc_cache c) l = Some S \<Longrightarrow> e \<notin> set S" using sync [of e] None by auto
    ultimately show thesis using that [of "cc_cache c"] sync ne by blast
  next
    case (Some k)
    obtain d where f: "forget_old_pos ops (cc_cache c) e k = Inr d"
      and d: "\<And>x l. x \<noteq> e \<Longrightarrow> map_of (entity_to_key c) x = Some l \<longleftrightarrow> (\<exists>S. sd_get ops d l = Some S \<and> x \<in> set S)"
        "\<And>l S. sd_get ops d l = Some S \<Longrightarrow> S \<noteq> [] \<and> distinct S \<and> earliest_known_stream_pos c < l \<and> e \<notin> set S"
      using forget_old_pos_sync [OF ok s Some] by blast
    have "entity_has_changed ops c e p =
      evict ops (c\<lparr>cc_cache := add_at_pos ops d e p, entity_to_key := AList.update e p (entity_to_key c)\<rparr>)"
      using False Some f unfolding entity_has_changed_def Let_def by simp
    then show thesis using d by (rule that)
  qed
  let ?c = "c\<lparr>cc_cache := add_at_pos ops d e p, entity_to_key := AList.update e p (entity_to_key c)\<rparr>"
  have "in_sync ops ?c"
    by (rule record_change_sync [OF ok]) (use False s d1 d2 in \<open>auto simp: in_sync_def\<close>)
  moreover have "tracks (insert (e, p) R) ?c"
    by (rule record_change_tracks [OF tr]) (use False in auto)
  ultimately show ?thesis using evict_spec [OF ok, of ?c] d by simp
qed

lemma set_cache_factor_spec:
  assumes ok: "sorted_dict_ok ops" and inv: "cache_inv ops c"
  shows "\<exists>b a. set_cache_factor ops c f = Some (Inr (b, c\<lparr>max_size_attr := a\<rparr>))"
proof -
  have "evict ops (c\<lparr>max_size_attr := Some n\<rparr>) = Some (Inr (c\<lparr>max_size_attr := Some n\<rparr>))" for n
    using inv by (simp add: evict_def whileR.simps cache_inv_def)
  then show ?thesis
    by (cases "\<lfloor>of_int (original_max_size c) * f\<rfloor> = cc_max_size c")
      (auto simp: set_cache_factor_def Let_def intro: exI [of _ "max_size_attr c"])
qed

section \<open>Runs of the cache\<close>

datatype change_op = Changed string int | SetFactor rat

fun cache_step ::
  "'d sorted_dict \<Rightarrow> 'd change_cache \<times> (string \<times> int) set \<Rightarrow> change_op \<Rightarrow> 'd change_cache \<times> (string \<times> int) set" where
  "cache_step ops (c, R) (Changed e p) =
     (case entity_has_changed ops c e p of Some (Inr c') \<Rightarrow> (c', insert (e, p) R) | _ \<Rightarrow> (c, R))"
| "cache_step ops (c, R) (SetFactor f) =
     (case set_cache_factor ops c f of Some (Inr (_, c')) \<Rightarrow> (c', R) | _ \<Rightarrow> (c, R))"

definition run_inv :: "'d sorted_dict \<Rightarrow> 'd change_cache \<times> (string \<times> int) set \<Rightarrow> bool" where
  "run_inv ops s \<longleftrightarrow> sorted_dict_ok ops \<and> cache_inv ops (fst s) \<and> tracks (snd s) (fst s)"

lemma cache_attr_inv: "cache_inv ops (c\<lparr>max_size_attr := a\<rparr>) = cache_inv ops c" "tracks R (c\<lparr>max_size_attr := a\<rparr>) = tracks R c"
  by (simp_all add: cache_inv_def in_sync_def tracks_def)

lemma run_inv_step: "run_inv ops s \<Longrightarrow> run_inv ops (cache_step ops s op)"
proof (cases op)
  case (Changed e p)
  assume i: "run_inv ops s"
  obtain c R where s: "s = (c, R)" by (cases s)
  show ?thesis using entity_has_changed_spec [of ops c R e p] i by (auto simp: run_inv_def s Changed)
next
  case (SetFactor f)
  assume i: "run_inv ops s"
  obtain c R where s: "s = (c, R)" by (cases s)
  show ?thesis using set_cache_factor_spec [of ops c f] i by (auto simp: run_inv_def s SetFactor cache_attr_inv)
qed

interpretation cache_run: stateful "cache_step ops" "run_inv ops" for ops :: "'d sorted_dict"
  by unfold_locales (rule run_inv_step)

definition reported :: "change_op list \<Rightarrow> (string \<times> int) set" where
  "reported hist = {(e, p). Changed e p \<in> set hist}"

lemma run_reported:
  "run_inv ops s \<Longrightarrow> snd (foldl (cache_step ops) s hist) = snd s \<union> reported hist"
proof (induction hist arbitrary: s)
  case (Cons op hist)
  obtain c R where s: "s = (c, R)" by (cases s)
  have "snd (cache_step ops s op) = snd s \<union> reported [op]"
  proof (cases op)
    case (Changed e p)
    then show ?thesis
      using entity_has_changed_spec [of ops c R e p] Cons.prems by (auto simp: run_inv_def s reported_def)
  next
    case (SetFactor f)
    then show ?thesis
      using set_cache_factor_spec [of ops c f] Cons.prems by (auto simp: run_inv_def s reported_def)
  qed
  then show ?case using Cons.IH [OF run_inv_step [OF Cons.prems]] by (auto simp: reported_def)
qed (simp add: reported_def)

definition empty_cache :: "'d sorted_dict \<Rightarrow> int \<Rightarrow> int \<Rightarrow> 'd change_cache" where
  "empty_cache ops start size_limit =
     \<lparr>original_max_size = size_limit, cc_max_size = size_limit, max_size_attr = None, cc_cache = sd_empty ops,
      entity_to_key = [], earliest_known_stream_pos = start\<rparr>"

lemma new_change_cache_empty: "new_change_cache ops start limit [] = Some (Inr (empty_cache ops start limit))"
  by (simp add: new_change_cache_def empty_cache_def)

lemma empty_cache_inv:
  assumes ok: "sorted_dict_ok ops" and l: "0 \<le> limit"
  shows "run_inv ops (empty_cache ops start limit, {})"
proof -
  have "set (sd_keys ops (sd_empty ops)) = {}" by (simp add: sorted_dict_simps [OF ok])
  then have "sd_keys ops (sd_empty ops) = []" by simp
  then show ?thesis using assms
    by (simp add: run_inv_def cache_inv_def in_sync_def tracks_def empty_cache_def sorted_dict_simps [OF ok])
qed

text \<open>The state of a cache after a history of operations.\<close>

definition cache_after :: "'d sorted_dict \<Rightarrow> int \<Rightarrow> int \<Rightarrow> change_op list \<Rightarrow> 'd change_cache" where
  "cache_after ops start limit hist = fst (foldl (cache_step ops) (empty_cache ops start limit, {}) hist)"

lemma cache_after_inv:
  assumes "sorted_dict_ok ops" "0 \<le> limit"
  shows "cache_inv ops (cache_after ops start limit hist)" "tracks (reported hist) (cache_after ops start limit hist)"
  using cache_run.inv_run [OF empty_cache_inv [OF assms, of start], of hist]
    run_reported [OF empty_cache_inv [OF assms, of start], of hist]
  by (simp_all add: run_inv_def cache_after_def)

lemma sorted_le_last: "sorted xs \<Longrightarrow> x \<in> set xs \<Longrightarrow> x \<le> last xs"
  by (induction xs) auto

lemma in_get_all:
  assumes ok: "sorted_dict_ok ops" and s: "in_sync ops c" and pos: "\<not> pos \<le> earliest_known_stream_pos c"
  shows "\<exists>xs. get_all_entities_changed ops c pos = Some xs \<and>
    (\<forall>e. e \<in> set xs \<longleftrightarrow> (\<exists>k. map_of (entity_to_key c) e = Some k \<and> pos < k))"
proof -
  let ?ks = "sd_keys ops (cc_cache c)"
  have sorted: "sorted_wrt (<) ?ks" and dom: "set ?ks = dom (sd_get ops (cc_cache c))"
    using sorted_dict_simps [OF ok] by auto
  have d: "set (dropWhile (\<lambda>k. k \<le> pos) ks) = {k \<in> set ks. pos < k}" if "sorted_wrt (<) ks" for ks :: "int list"
    using that by (induction ks) force+
  show ?thesis
    using pos s d [OF sorted] dom unfolding get_all_entities_changed_def in_sync_def
    by (force split: option.splits)
qed

lemma distinct_concat_map: "distinct ks \<Longrightarrow> (\<And>k. k \<in> set ks \<Longrightarrow> distinct (f k)) \<Longrightarrow>
  (\<And>k l. k \<noteq> l \<Longrightarrow> set (f k) \<inter> set (f l) = {}) \<Longrightarrow> distinct (concat (map f ks))"
  by (induction ks) fastforce+

lemma get_all_distinct:
  assumes ok: "sorted_dict_ok ops" and s: "in_sync ops c" and xs: "get_all_entities_changed ops c pos = Some xs"
  shows "distinct xs"
proof -
  let ?at = "\<lambda>k. case sd_get ops (cc_cache c) k of None \<Rightarrow> [] | Some e \<Rightarrow> e"
  have key: "x \<in> set (?at k) \<Longrightarrow> map_of (entity_to_key c) x = Some k" for x k
    using s unfolding in_sync_def by (cases "sd_get ops (cc_cache c) k") simp_all
  have "distinct (concat (map ?at (dropWhile (\<lambda>k. k \<le> pos) (sd_keys ops (cc_cache c)))))"
  proof (rule distinct_concat_map)
    show "distinct (dropWhile (\<lambda>k. k \<le> pos) (sd_keys ops (cc_cache c)))"
      using sorted_dict_simps(5) [OF ok] by (simp add: strict_sorted_iff)
    show "distinct (?at k)" for k using s by (auto simp: in_sync_def split: option.splits)
    show "k \<noteq> l \<Longrightarrow> set (?at k) \<inter> set (?at l) = {}" for k l
      by (metis disjoint_iff key option.inject)
  qed
  with xs show ?thesis by (simp add: get_all_entities_changed_def split: if_splits)
qed

section \<open>The properties\<close>

text \<open>
  C38. No change is missed: after any history of changes and resizings, for every change of an
  entity that the cache was told about and every earlier position, all queries report it, and the
  upper bound for the last change of the entity is right.
\<close>

theorem change_cache_complete:
  assumes "sorted_dict_ok ops" and "0 \<le> limit" and "Changed e p \<in> set hist" and "pos < p"
  shows "let c = cache_after ops start limit hist
    in has_entity_changed c e pos \<and>
       (\<forall>xs. get_all_entities_changed ops c pos = Some xs \<longrightarrow> e \<in> set xs) \<and>
       (e \<in> set es \<longrightarrow> e \<in> set (get_entities_changed ops c is_set es pos)) \<and>
       has_any_entity_changed ops c pos \<and> p \<le> get_max_pos_of_last_change c e"
proof -
  define c where "c = cache_after ops start limit hist"
  have inv: "in_sync ops c" and tr: "tracks (reported hist) c"
    using cache_after_inv [OF assms(1,2), where start = start and hist = hist] by (simp_all add: c_def cache_inv_def)
  have "(e, p) \<in> reported hist" using assms(3) by (simp add: reported_def)
  then have k: "p \<le> earliest_known_stream_pos c \<or> (\<exists>k. map_of (entity_to_key c) e = Some k \<and> p \<le> k)"
    using tr by (auto simp: tracks_def)
  have e: "earliest_known_stream_pos c < k" if "map_of (entity_to_key c) e = Some k" for k
    using inv that unfolding in_sync_def by blast
  have all: "e \<in> set xs" if "get_all_entities_changed ops c pos = Some xs" for xs
  proof -
    have n: "\<not> pos \<le> earliest_known_stream_pos c" using that by (auto simp: get_all_entities_changed_def)
    then show ?thesis using in_get_all [OF assms(1) inv n] that k assms(4) by force
  qed
  have "has_any_entity_changed ops c pos"
  proof (cases "pos \<le> earliest_known_stream_pos c")
    case False
    then obtain l where l: "map_of (entity_to_key c) e = Some l" "pos < l" using k assms(4) by force
    then have "l \<in> set (sd_keys ops (cc_cache c))"
      using inv unfolding in_sync_def sorted_dict_simps(4) [OF assms(1)] by blast
    moreover have "l \<le> last (sd_keys ops (cc_cache c))"
      by (rule sorted_le_last) (use calculation sorted_dict_simps(5) [OF assms(1)] in \<open>simp_all add: strict_sorted_iff\<close>)
    ultimately show ?thesis using l(2) False by (auto simp: has_any_entity_changed_def Let_def)
  qed (simp add: has_any_entity_changed_def)
  moreover have "has_entity_changed c e pos" using k assms(4) by (auto simp: has_entity_changed_def)
  moreover have "p \<le> get_max_pos_of_last_change c e"
    using k e by (fastforce simp: get_max_pos_of_last_change_def split: option.splits)
  moreover have "e \<in> set es \<longrightarrow> e \<in> set (get_entities_changed ops c is_set es pos)"
    using all by (auto simp: get_entities_changed_def split: option.splits)
  ultimately show ?thesis using all unfolding c_def [symmetric] Let_def by blast
qed

text \<open>
  No change is invented: past the earliest known position, an entity is only reported as
  changed if the cache was told about a change of it after the queried position.
\<close>

theorem change_cache_sound:
  assumes "sorted_dict_ok ops" and "0 \<le> limit"
    and "\<not> pos \<le> earliest_known_stream_pos (cache_after ops start limit hist)"
  shows "let c = cache_after ops start limit hist; told = (\<lambda>e. \<exists>p. Changed e p \<in> set hist \<and> pos < p)
    in (has_entity_changed c e pos \<longrightarrow> told e) \<and>
       (\<forall>xs. get_all_entities_changed ops c pos = Some xs \<longrightarrow> (\<forall>x\<in>set xs. told x))"
proof -
  define c where "c = cache_after ops start limit hist"
  have inv: "in_sync ops c" and tr: "tracks (reported hist) c"
    using cache_after_inv [OF assms(1,2), where start = start and hist = hist] by (simp_all add: c_def cache_inv_def)
  have told: "\<exists>p. Changed x p \<in> set hist \<and> pos < p" if "map_of (entity_to_key c) x = Some k" "pos < k" for x k
    using tr that unfolding tracks_def reported_def by blast
  have "has_entity_changed c e pos \<longrightarrow> (\<exists>p. Changed e p \<in> set hist \<and> pos < p)"
    using assms(3) told [of e] by (auto simp: has_entity_changed_def c_def [symmetric] split: option.splits)
  moreover have "\<forall>x\<in>set xs. \<exists>p. Changed x p \<in> set hist \<and> pos < p" if "get_all_entities_changed ops c pos = Some xs" for xs
    using in_get_all [OF assms(1) inv, of pos] assms(3) told that by (auto simp: c_def [symmetric])
  ultimately show ?thesis unfolding c_def [symmetric] Let_def by blast
qed

text \<open>
  Resizing has no effect: \<open>set_cache_factor\<close> assigns the new size to the attribute
  \<open>max_size\<close>, which nothing reads; the limit in force and the contents stay what they were,
  however small the factor.
\<close>

theorem resize_has_no_effect:
  assumes "sorted_dict_ok ops" and "cache_inv ops c"
  shows "\<exists>b c'. set_cache_factor ops c factor = Some (Inr (b, c')) \<and> cc_max_size c' = cc_max_size c \<and>
    cc_cache c' = cc_cache c \<and> entity_to_key c' = entity_to_key c \<and>
    earliest_known_stream_pos c' = earliest_known_stream_pos c"
  using set_cache_factor_spec [OF assms, of factor] by fastforce

section \<open>Witnesses\<close>

text \<open>A sorted dictionary as an association list.\<close>

definition alist_dict :: "(int \<times> string list) list sorted_dict" where
  "alist_dict = \<lparr>sd_empty = [], sd_get = map_of, sd_set = (\<lambda>d k v. AList.update k v d),
     sd_del = (\<lambda>d k. AList.delete k d), sd_keys = (\<lambda>d. sort (remdups (map fst d)))\<rparr>"

lemma alist_dict_ok: "sorted_dict_ok alist_dict"
  by (auto simp: sorted_dict_ok_def alist_dict_def delete_conv' strict_sorted_iff dom_map_of_conv_image_fst)

definition sample_history :: "change_op list" where
  "sample_history = [Changed ''a'' 11, Changed ''b'' 12, SetFactor (1 / 2), Changed ''c'' 13, Changed ''a'' 14]"

theorem change_cache_complete_witness:
  "sorted_dict_ok alist_dict \<and> Changed ''a'' 14 \<in> set sample_history \<and>
   has_entity_changed (cache_after alist_dict 10 2 sample_history) ''a'' 13"
proof -
  have h: "Changed ''a'' 14 \<in> set sample_history" by (simp add: sample_history_def)
  show ?thesis
    using change_cache_complete [OF alist_dict_ok, of 2 "''a''" 14 sample_history 13 10 "[]" True] h alist_dict_ok
    by (simp add: Let_def)
qed

theorem change_cache_sound_witness:
  "sorted_dict_ok alist_dict \<and> \<not> 13 \<le> earliest_known_stream_pos (cache_after alist_dict 10 2 sample_history) \<and>
   (\<exists>p. Changed ''a'' p \<in> set sample_history \<and> 13 < p)"
proof -
  have e: "\<not> 13 \<le> earliest_known_stream_pos (cache_after alist_dict 10 2 sample_history)" by code_simp
  have "has_entity_changed (cache_after alist_dict 10 2 sample_history) ''a'' 13" by code_simp
  then show ?thesis
    using change_cache_sound [OF alist_dict_ok _ e, of "''a''"] alist_dict_ok e by (simp add: Let_def)
qed

theorem resize_has_no_effect_witness:
  "sorted_dict_ok alist_dict \<and> cache_inv alist_dict (cache_after alist_dict 10 2 sample_history) \<and>
   (\<exists>b c'. set_cache_factor alist_dict (cache_after alist_dict 10 2 sample_history) 0 = Some (Inr (b, c')) \<and>
      cc_max_size c' = 2)"
proof -
  have i: "cache_inv alist_dict (cache_after alist_dict 10 2 sample_history)"
    by (rule cache_after_inv(1) [OF alist_dict_ok]) simp
  have "cc_max_size (cache_after alist_dict 10 2 sample_history) = 2" by code_simp
  then show ?thesis using resize_has_no_effect [OF alist_dict_ok i, of 0] alist_dict_ok i by auto
qed

end
