(* ===== verification/Retry.thy ===== *)
theory Retry
  imports Json_Values
begin

text \<open>
  Backing off from servers that do not answer: \<open>util/retryutils.py\<close> and the table \<open>destinations\<close> of
  \<open>storage/databases/main/transactions.py\<close>.  A request to another server runs inside a limiter, which on
  leaving writes to the table in the background; several requests to a server can be open at once, and
  their writes can be made in any order.  The random factor is an argument, and products with it are
  exact.
\<close>

section \<open>The table\<close>

record destination_row =
  row_failure_ts :: "int option"
  row_retry_last_ts :: "int option"
  row_retry_interval :: "int option"

record retry_timings =
  failure_ts :: "int option"
  retry_last_ts :: int
  retry_interval :: int

type_synonym destinations = "(string \<times> destination_row) list"

text \<open>\<open>retry_interval\<close> is \<open>NULL\<close> only where \<open>retry_last_ts\<close> is.\<close>

definition get_destination_retry_timings :: "string \<Rightarrow> destinations \<Rightarrow> retry_timings option" where
  "get_destination_retry_timings destination tab =
     (case map_of tab destination of
        None \<Rightarrow> None
      | Some row \<Rightarrow>
          (case row_retry_last_ts row of
             None \<Rightarrow> None
           | Some l \<Rightarrow>
               if l = 0 then None
               else Some \<lparr>failure_ts = row_failure_ts row, retry_last_ts = l, retry_interval = the (row_retry_interval row)\<rparr>))"

text \<open>The batch; \<open>cachedList\<close> gives \<open>None\<close> for a destination that has no entry in the answer.\<close>

definition get_destination_retry_timings_batch :: "string list \<Rightarrow> destinations \<Rightarrow> (string \<times> retry_timings option) list" where
  "get_destination_retry_timings_batch ds tab =
     map (\<lambda>d. (d, case map_of tab d of
         None \<Rightarrow> None
       | Some row \<Rightarrow>
           (case (row_failure_ts row, row_retry_last_ts row, row_retry_interval row) of
              (Some f, Some l, Some i) \<Rightarrow>
                if l \<noteq> 0 \<and> f \<noteq> 0 \<and> i \<noteq> 0 then Some \<lparr>failure_ts = Some f, retry_last_ts = l, retry_interval = i\<rparr> else None
            | _ \<Rightarrow> None))) (remdups ds)"

definition sql_less :: "int option \<Rightarrow> int \<Rightarrow> bool" where
  "sql_less a b = (case a of None \<Rightarrow> False | Some x \<Rightarrow> x < b)"

definition set_destination_retry_timings :: "string \<Rightarrow> int option \<Rightarrow> int \<Rightarrow> int \<Rightarrow> destinations \<Rightarrow> destinations" where
  "set_destination_retry_timings destination f l i tab =
     (let new = \<lparr>row_failure_ts = f, row_retry_last_ts = Some l, row_retry_interval = Some i\<rparr>
      in case map_of tab destination of
           None \<Rightarrow> AList.update destination new tab
         | Some row \<Rightarrow>
             if i = 0 \<or> l = 0 \<or> row_retry_interval row = None \<or> sql_less (row_retry_interval row) i \<or> sql_less (row_retry_last_ts row) l
             then AList.update destination new tab else tab)"

section \<open>Limiters\<close>

record backoff_config =
  min_retry_interval :: int
  retry_multiplier :: rat
  max_retry_interval :: int

record retry_limiter =
  rl_destination :: string
  rl_failure_ts :: "int option"
  rl_retry_interval :: int
  backoff_on_404 :: bool
  backoff_on_failure :: bool
  backoff_on_all_error_codes :: bool

datatype retry_error = NotRetryingDestination int int string

definition get_retry_limiter :: "bool \<Rightarrow> bool \<Rightarrow> string \<Rightarrow> bool \<Rightarrow> int \<Rightarrow> destinations \<Rightarrow> retry_error + retry_limiter" where
  "get_retry_limiter not_found on_all destination ignore_backoff now tab =
     (let limiter = (\<lambda>f i. Inr \<lparr>rl_destination = destination, rl_failure_ts = f, rl_retry_interval = i, backoff_on_404 = not_found,
            backoff_on_failure = \<not> ignore_backoff, backoff_on_all_error_codes = on_all\<rparr>)
      in case get_destination_retry_timings destination tab of
           None \<Rightarrow> limiter None 0
         | Some t \<Rightarrow>
             if \<not> ignore_backoff \<and> retry_last_ts t + retry_interval t > now
             then Inl (NotRetryingDestination (retry_last_ts t) (retry_interval t) destination)
             else limiter (failure_ts t) (retry_interval t))"

definition filter_destinations_by_retry_limiter :: "string list \<Rightarrow> int \<Rightarrow> int \<Rightarrow> destinations \<Rightarrow> string list" where
  "filter_destinations_by_retry_limiter ds now due_within tab =
     (if ds = [] then []
      else map fst (filter (\<lambda>(_, t). case t of None \<Rightarrow> True | Some t \<Rightarrow> retry_last_ts t + retry_interval t \<le> now + due_within)
        (get_destination_retry_timings_batch ds tab)))"

text \<open>How the block inside a limiter was left.\<close>

datatype block_end = Returned | Not_An_Exception | Code_Message int | Other_Exception

definition valid_err_code :: "retry_limiter \<Rightarrow> block_end \<Rightarrow> bool" where
  "valid_err_code l e =
     (case e of
        Returned \<Rightarrow> True
      | Not_An_Exception \<Rightarrow> True
      | Code_Message code \<Rightarrow>
          if backoff_on_all_error_codes l then False
          else if code = 404 \<and> backoff_on_404 l then False
          else if code \<in> {401, 429} then False
          else code < 500
      | Other_Exception \<Rightarrow> False)"

text \<open>The next interval after a failure, with what \<open>random.uniform(0.8, 1.4)\<close> gave.\<close>

definition next_interval :: "backoff_config \<Rightarrow> rat \<Rightarrow> int \<Rightarrow> int" where
  "next_interval cfg u i =
     (if i \<noteq> 0 then
        (let j = trunc_rat (of_int i * retry_multiplier cfg * u)
         in if j \<ge> max_retry_interval cfg then max_retry_interval cfg else j)
      else min_retry_interval cfg)"

text \<open>
  \<open>__exit__\<close>: what is written to the table, if anything, and whether other parts are told that the server
  is back.  A truth value of a time is false for zero.
\<close>

record retry_write =
  rw_destination :: string
  rw_failure_ts :: "int option"
  rw_retry_last_ts :: int
  rw_retry_interval :: int
  rw_server_up :: bool

definition truthy_ts :: "int option \<Rightarrow> bool" where
  "truthy_ts t = (case t of None \<Rightarrow> False | Some x \<Rightarrow> x \<noteq> 0)"

definition limiter_exit :: "backoff_config \<Rightarrow> rat \<Rightarrow> int \<Rightarrow> retry_limiter \<Rightarrow> block_end \<Rightarrow> retry_write option" where
  "limiter_exit cfg u now l e =
     (let previously_failing = truthy_ts (rl_failure_ts l);
          store = (\<lambda>f last i. Some \<lparr>rw_destination = rl_destination l, rw_failure_ts = f, rw_retry_last_ts = last, rw_retry_interval = i,
            rw_server_up = (previously_failing \<and> \<not> truthy_ts f)\<rparr>)
      in if e = Returned then (if rl_retry_interval l = 0 then None else store None 0 0)
         else if valid_err_code l e then None
         else if \<not> backoff_on_failure l then None
         else store (case rl_failure_ts l of None \<Rightarrow> Some now | Some f \<Rightarrow> Some f) now (next_interval cfg u (rl_retry_interval l)))"

section \<open>All requests to other servers\<close>

text \<open>
  The table, the open limiters with the time they were opened, and the writes that were not made yet.
  A signed request from a server also clears its row.
\<close>

record backoff =
  bo_table :: destinations
  bo_open :: "retry_limiter list"
  bo_writes :: "retry_write list"

text \<open>
  The configuration is not checked when it is read.  In a usual one the first interval is within the
  limit, and the multiplier outweighs the random factor, which is at least \<open>0.8\<close>.
\<close>

definition config_ok :: "backoff_config \<Rightarrow> bool" where
  "config_ok cfg \<longleftrightarrow> 0 < min_retry_interval cfg \<and> min_retry_interval cfg \<le> max_retry_interval cfg \<and> 5 / 4 \<le> retry_multiplier cfg"

definition apply_write :: "retry_write \<Rightarrow> destinations \<Rightarrow> destinations" where
  "apply_write w tab = set_destination_retry_timings (rw_destination w) (rw_failure_ts w) (rw_retry_last_ts w) (rw_retry_interval w) tab"

inductive backoff_run :: "backoff_config \<Rightarrow> int \<Rightarrow> backoff \<Rightarrow> bool" for cfg where
  start: "0 < now \<Longrightarrow> backoff_run cfg now \<lparr>bo_table = [], bo_open = [], bo_writes = []\<rparr>"
| wait: "backoff_run cfg now b \<Longrightarrow> now \<le> now' \<Longrightarrow> backoff_run cfg now' b"
| enter: "backoff_run cfg now b \<Longrightarrow> get_retry_limiter not_found on_all d ignore_backoff now (bo_table b) = Inr l \<Longrightarrow>
    backoff_run cfg now (b\<lparr>bo_open := l # bo_open b\<rparr>)"
| leave: "backoff_run cfg now b \<Longrightarrow> l \<in> set (bo_open b) \<Longrightarrow> 4 / 5 \<le> u \<Longrightarrow> u \<le> 7 / 5 \<Longrightarrow>
    backoff_run cfg now (b\<lparr>bo_open := remove1 l (bo_open b),
      bo_writes := (case limiter_exit cfg u now l e of None \<Rightarrow> bo_writes b | Some w \<Rightarrow> w # bo_writes b)\<rparr>)"
| make_write: "backoff_run cfg now b \<Longrightarrow> w \<in> set (bo_writes b) \<Longrightarrow>
    backoff_run cfg now (b\<lparr>bo_table := apply_write w (bo_table b), bo_writes := remove1 w (bo_writes b)\<rparr>)"
| signed_request: "backoff_run cfg now b \<Longrightarrow>
    backoff_run cfg now (b\<lparr>bo_table := set_destination_retry_timings d None 0 0 (bo_table b)\<rparr>)"

text \<open>A server that is not failing, or one that has failed since \<open>f\<close> and whose interval is within the limits.\<close>

definition longest_interval :: "backoff_config \<Rightarrow> int" where
  "longest_interval cfg = max (min_retry_interval cfg) (max_retry_interval cfg)"

definition backoff_ok :: "backoff_config \<Rightarrow> int \<Rightarrow> int option \<Rightarrow> int \<Rightarrow> bool" where
  "backoff_ok cfg now f i \<longleftrightarrow> f = None \<and> i = 0 \<or> (\<exists>t. f = Some t \<and> 0 < t \<and> t \<le> now) \<and>
     (config_ok cfg \<longrightarrow> min_retry_interval cfg \<le> i) \<and> i \<le> longest_interval cfg"

definition stamped_ok :: "backoff_config \<Rightarrow> int \<Rightarrow> int option \<Rightarrow> int \<Rightarrow> int \<Rightarrow> bool" where
  "stamped_ok cfg now f l i \<longleftrightarrow> f = None \<and> l = 0 \<and> i = 0 \<or> l \<le> now \<and> 0 < l \<and> f \<noteq> None \<and> backoff_ok cfg l f i"

definition table_ok :: "backoff_config \<Rightarrow> int \<Rightarrow> destinations \<Rightarrow> bool" where
  "table_ok cfg now tab \<longleftrightarrow>
     (\<forall>d row. map_of tab d = Some row \<longrightarrow>
        (\<exists>l i. row_retry_last_ts row = Some l \<and> row_retry_interval row = Some i \<and> stamped_ok cfg now (row_failure_ts row) l i))"

definition backoff_inv :: "backoff_config \<Rightarrow> int \<Rightarrow> backoff \<Rightarrow> bool" where
  "backoff_inv cfg now b \<longleftrightarrow> 0 < now \<and> table_ok cfg now (bo_table b) \<and>
     (\<forall>l \<in> set (bo_open b). backoff_ok cfg now (rl_failure_ts l) (rl_retry_interval l)) \<and>
     (\<forall>w \<in> set (bo_writes b). stamped_ok cfg now (rw_failure_ts w) (rw_retry_last_ts w) (rw_retry_interval w))"

lemma stamped_later: "stamped_ok cfg now f l i \<Longrightarrow> now \<le> now' \<Longrightarrow> stamped_ok cfg now' f l i"
  by (auto simp: stamped_ok_def)

lemma backoff_later: "backoff_ok cfg now f i \<Longrightarrow> now \<le> now' \<Longrightarrow> backoff_ok cfg now' f i"
  by (auto simp: backoff_ok_def)

lemma table_set: "table_ok cfg now tab \<Longrightarrow> stamped_ok cfg now f l i \<Longrightarrow> table_ok cfg now (set_destination_retry_timings d f l i tab)"
  by (auto simp: table_ok_def set_destination_retry_timings_def Let_def split: option.split)

lemma next_interval_longest: "next_interval cfg u i \<le> longest_interval cfg"
  by (auto simp: next_interval_def longest_interval_def Let_def)

lemma next_interval_least:
  assumes "config_ok cfg" "4 / 5 \<le> u" "i = 0 \<or> min_retry_interval cfg \<le> i"
  shows "min_retry_interval cfg \<le> next_interval cfg u i"
proof (cases "i = 0")
  case False
  have c: "0 < min_retry_interval cfg" "min_retry_interval cfg \<le> max_retry_interval cfg" "5 / 4 \<le> retry_multiplier cfg"
    using assms(1) by (auto simp: config_ok_def)
  have i: "min_retry_interval cfg \<le> i" "0 < i" using assms(3) c False by auto
  have "(5 / 4) * (4 / 5) \<le> retry_multiplier cfg * u" using c(3) assms(2) by (intro mult_mono) auto
  then have "of_int i * 1 \<le> of_int i * (retry_multiplier cfg * u)" using i(2) by (intro mult_left_mono) auto
  then have "i \<le> trunc_rat (of_int i * retry_multiplier cfg * u)"
    using i(2) by (simp add: trunc_rat_def le_floor_iff mult.assoc)
  then show ?thesis using i c(2) False by (auto simp: next_interval_def Let_def)
qed (simp add: next_interval_def)

lemma timings_ok:
  assumes "table_ok cfg now tab" "get_destination_retry_timings d tab = Some t"
  shows "stamped_ok cfg now (failure_ts t) (retry_last_ts t) (retry_interval t)" "retry_last_ts t \<noteq> 0"
  using assms unfolding table_ok_def get_destination_retry_timings_def by (fastforce split: option.splits if_splits)+

lemma enter_ok:
  assumes "table_ok cfg now tab" "get_retry_limiter not_found on_all d ignore_backoff now tab = Inr l"
  shows "backoff_ok cfg now (rl_failure_ts l) (rl_retry_interval l)"
proof (cases "get_destination_retry_timings d tab")
  case None
  then show ?thesis using assms(2) by (auto simp: get_retry_limiter_def backoff_ok_def)
next
  case (Some t)
  then have "l = l\<lparr>rl_failure_ts := failure_ts t, rl_retry_interval := retry_interval t\<rparr>"
    using assms(2) by (auto simp: get_retry_limiter_def Let_def split: if_splits)
  then have "rl_failure_ts l = failure_ts t" "rl_retry_interval l = retry_interval t" by (cases l, simp)+
  then show ?thesis using timings_ok [OF assms(1) Some] backoff_later [of cfg "retry_last_ts t"] by (auto simp: stamped_ok_def)
qed

lemma leave_ok:
  assumes "0 < now" "backoff_ok cfg now (rl_failure_ts l) (rl_retry_interval l)" "4 / 5 \<le> u" "limiter_exit cfg u now l e = Some w"
  shows "stamped_ok cfg now (rw_failure_ts w) (rw_retry_last_ts w) (rw_retry_interval w)"
proof -
  have "config_ok cfg \<longrightarrow> rl_retry_interval l = 0 \<or> min_retry_interval cfg \<le> rl_retry_interval l" using assms(2) by (auto simp: backoff_ok_def)
  then have "config_ok cfg \<longrightarrow> min_retry_interval cfg \<le> next_interval cfg u (rl_retry_interval l)"
    using next_interval_least [OF _ assms(3)] by blast
  with next_interval_longest assms(1,2,4) show ?thesis
    by (auto simp: limiter_exit_def Let_def stamped_ok_def backoff_ok_def split: if_splits option.splits)
qed

lemma backoff_run_ok: "backoff_run cfg now b \<Longrightarrow> backoff_inv cfg now b"
proof (induction rule: backoff_run.induct)
  case (wait now b now')
  then have ok: "backoff_inv cfg now b" by simp
  have "table_ok cfg now' (bo_table b)" using ok stamped_later [OF _ wait(2)] unfolding backoff_inv_def table_ok_def by blast
  then show ?case using ok wait(2) stamped_later [OF _ wait(2)] backoff_later [OF _ wait(2)] by (auto simp: backoff_inv_def)
next
  case (enter now b not_found on_all d ignore_backoff l)
  then show ?case using enter_ok by (auto simp: backoff_inv_def)
next
  case (leave now b l u e)
  then show ?case using leave_ok [of now cfg l u e] set_remove1_subset [of l "bo_open b"]
    by (auto simp: backoff_inv_def split: option.split)
next
  case (make_write now b w)
  then show ?case using table_set set_remove1_subset [of w "bo_writes b"] by (fastforce simp: backoff_inv_def apply_write_def)
next
  case (signed_request now b d)
  then show ?case using table_set [of cfg now "bo_table b" None 0 0 d] by (auto simp: backoff_inv_def stamped_ok_def)
qed (simp add: backoff_inv_def table_ok_def)

text \<open>
  C25.  Whatever requests to other servers fail or succeed and in whatever order their results are
  stored, and whatever the configuration is: a server without a stored failure is asked.  A failing server
  has a failure time not after its last failed attempt; requests that respect the backoff are refused
  exactly while its interval has not passed since that attempt.  The interval is never longer than the
  larger of the first interval and the configured limit, so that a server is asked again once that has
  passed; and it is never shorter than the first interval if that is positive and within the limit and
  the multiplier is at least \<open>5/4\<close>.
\<close>

theorem backoff_within_limits:
  assumes "backoff_run cfg now b"
  shows "(case get_destination_retry_timings d (bo_table b) of
       None \<Rightarrow> \<exists>l. get_retry_limiter not_found on_all d False now (bo_table b) = Inr l
     | Some t \<Rightarrow> retry_interval t \<le> max (min_retry_interval cfg) (max_retry_interval cfg) \<and>
         (0 < min_retry_interval cfg \<and> min_retry_interval cfg \<le> max_retry_interval cfg \<and> 5 / 4 \<le> retry_multiplier cfg \<longrightarrow>
            min_retry_interval cfg \<le> retry_interval t) \<and>
         retry_last_ts t \<le> now \<and> (\<exists>f. failure_ts t = Some f \<and> 0 < f \<and> f \<le> retry_last_ts t) \<and>
         (now < retry_last_ts t + retry_interval t \<longleftrightarrow>
            get_retry_limiter not_found on_all d False now (bo_table b) = Inl (NotRetryingDestination (retry_last_ts t) (retry_interval t) d)) \<and>
         (retry_last_ts t + max (min_retry_interval cfg) (max_retry_interval cfg) \<le> now \<longrightarrow>
            (\<exists>l. get_retry_limiter not_found on_all d False now (bo_table b) = Inr l)))"
proof (cases "get_destination_retry_timings d (bo_table b)")
  case (Some t)
  have ok: "table_ok cfg now (bo_table b)" using backoff_run_ok [OF assms] by (simp add: backoff_inv_def)
  from timings_ok [OF ok Some] have "retry_last_ts t \<le> now" "failure_ts t \<noteq> None" "backoff_ok cfg (retry_last_ts t) (failure_ts t) (retry_interval t)"
    by (auto simp: stamped_ok_def)
  then show ?thesis by (auto simp: Some get_retry_limiter_def Let_def backoff_ok_def config_ok_def longest_interval_def)
qed (simp add: get_retry_limiter_def Let_def)

text \<open>
  With a multiplier below \<open>5/4\<close> the random factor makes an interval shorter than the first one, and in the
  end zero, after which the backoff starts again.
\<close>

lemma interval_can_shrink:
  "next_interval \<lparr>min_retry_interval = 10, retry_multiplier = 1, max_retry_interval = 100\<rparr> (4 / 5) 10 = 8"
  "next_interval \<lparr>min_retry_interval = 10, retry_multiplier = 1, max_retry_interval = 100\<rparr> (4 / 5) 1 = 0"
  by code_simp+

section \<open>An example\<close>

definition small_backoff :: backoff_config where
  "small_backoff = \<lparr>min_retry_interval = 10, retry_multiplier = 2, max_retry_interval = 100\<rparr>"

text \<open>One request to a server at time 5, which failed.\<close>

definition one_failure :: backoff where
  "one_failure = \<lparr>bo_table = [(''d'', \<lparr>row_failure_ts = Some 5, row_retry_last_ts = Some 5, row_retry_interval = Some 10\<rparr>)], bo_open = [], bo_writes = []\<rparr>"

lemma one_failure_run: "backoff_run small_backoff 12 one_failure"
proof -
  let ?l = "\<lparr>rl_destination = ''d'', rl_failure_ts = None, rl_retry_interval = 0, backoff_on_404 = False, backoff_on_failure = True,
    backoff_on_all_error_codes = False\<rparr>"
  let ?w = "\<lparr>rw_destination = ''d'', rw_failure_ts = Some 5, rw_retry_last_ts = 5, rw_retry_interval = 10, rw_server_up = False\<rparr>"
  have "backoff_run small_backoff 5 \<lparr>bo_table = [], bo_open = [], bo_writes = []\<rparr>" by (rule backoff_run.start) simp
  from backoff_run.enter [OF this, of False False "''d''" False ?l]
  have "backoff_run small_backoff 5 \<lparr>bo_table = [], bo_open = [?l], bo_writes = []\<rparr>"
    by (simp add: get_retry_limiter_def get_destination_retry_timings_def)
  from backoff_run.leave [OF this, of ?l 1 Other_Exception]
  have "backoff_run small_backoff 5 \<lparr>bo_table = [], bo_open = [], bo_writes = [?w]\<rparr>"
    by (simp add: limiter_exit_def valid_err_code_def next_interval_def truthy_ts_def small_backoff_def)
  from backoff_run.make_write [OF this, of ?w]
  have "backoff_run small_backoff 5 one_failure" by (simp add: apply_write_def set_destination_retry_timings_def one_failure_def)
  then show ?thesis by (rule backoff_run.wait) simp
qed

theorem backoff_within_limits_witness:
  "backoff_run small_backoff 12 one_failure \<and> min_retry_interval small_backoff \<le> 10 \<and> 5 / 4 \<le> retry_multiplier small_backoff \<and>
   get_destination_retry_timings ''d'' (bo_table one_failure) = Some \<lparr>failure_ts = Some 5, retry_last_ts = 5, retry_interval = 10\<rparr> \<and>
   get_retry_limiter False False ''d'' False 12 (bo_table one_failure) = Inl (NotRetryingDestination 5 10 ''d'')"
proof -
  have t: "get_destination_retry_timings ''d'' (bo_table one_failure) = Some \<lparr>failure_ts = Some 5, retry_last_ts = 5, retry_interval = 10\<rparr>"
    by (simp add: get_destination_retry_timings_def one_failure_def)
  from backoff_within_limits [OF one_failure_run, where d = "''d''" and not_found = False and on_all = False] show ?thesis
    using one_failure_run unfolding t by (simp add: small_backoff_def)
qed

end
