(* ===== verification/Typing.thy ===== *)
theory Typing
  imports Wheel_Keys Stream_Change_Cache Retry Calls Domain_Ids Events
begin

text \<open>
  Typing notifications, \<open>handlers/typing.py\<close>.  The class \<open>TypingWriterHandler\<close> extends
  \<open>FollowerTypingHandler\<close>, and so does its record.  Sets of users are duplicate-free lists.  What a
  handler asks other parts is a record of answers, which may be another one at each call; a background
  process runs to its end before the next operation, at the time it was started.
\<close>

section \<open>The handlers\<close>

record room_member =
  tm_room_id :: string
  tm_user_id :: string

definition TYPING_FEDERATION_TIMEOUT :: int where
  "TYPING_FEDERATION_TIMEOUT = 60 * 1000"

definition TYPING_FEDERATION_PING_INTERVAL :: int where
  "TYPING_FEDERATION_PING_INTERVAL = 40 * 1000"

record typing_env =
  hostname :: string
  hosts_in_room :: "string \<Rightarrow> string list result"
  retry_table :: destinations
  host_in_room :: "string \<Rightarrow> bool"
  approximate_hosts_in_room :: "string \<Rightarrow> string list"
  check_user_in_room :: "string \<Rightarrow> string \<Rightarrow> unit result"

text \<open>\<open>HomeServer.is_mine_id\<close>, and the messages given to the federation sender.\<close>

definition mine_id :: "typing_env \<Rightarrow> string \<Rightarrow> bool" where
  "mine_id env s = (case split_at CHR '':'' s of None \<Rightarrow> False | Some (_, d) \<Rightarrow> d = hostname env)"

record typing_edu =
  edu_destination :: string
  edu_member :: room_member
  edu_typing :: bool

record typing_handler =
  th_federation :: bool
  room_serials :: "(string \<times> int) list"
  room_typing :: "(string \<times> string list) list"
  last_federation_poke :: "(room_member \<times> int) list"
  th_wheel :: "room_member wheel"
  latest_room_serial :: int
  rooms_updated :: "string list"
  edus :: "typing_edu list"

definition new_typing_handler :: "bool \<Rightarrow> typing_handler" where
  "new_typing_handler federation = \<lparr>th_federation = federation, room_serials = [], room_typing = [], last_federation_poke = [],
     th_wheel = new_wheel 5000, latest_room_serial = 0, rooms_updated = [], edus = []\<rparr>"

definition reset_typing :: "'a typing_handler_scheme \<Rightarrow> 'a typing_handler_scheme" where
  "reset_typing h = h\<lparr>room_serials := [], room_typing := [], rooms_updated := [], last_federation_poke := [], th_wheel := new_wheel 5000\<rparr>"

definition typing_in :: "'a typing_handler_scheme \<Rightarrow> string \<Rightarrow> string list" where
  "typing_in h room = (case map_of (room_typing h) room of None \<Rightarrow> [] | Some us \<Rightarrow> us)"

definition is_typing :: "'a typing_handler_scheme \<Rightarrow> room_member \<Rightarrow> bool" where
  "is_typing h m \<longleftrightarrow> tm_user_id m \<in> set (typing_in h (tm_room_id m))"

definition insert_timer :: "int \<Rightarrow> room_member \<Rightarrow> int \<Rightarrow> ('a typing_handler_scheme, unit) call" where
  "insert_timer now m then_time h =
     Some (case wheel_insert (th_wheel h) now m then_time of Inl e \<Rightarrow> (Inl e, h) | Inr w \<Rightarrow> (Inr (), h\<lparr>th_wheel := w\<rparr>))"

section \<open>\<open>FollowerTypingHandler\<close>\<close>

definition send_edus :: "typing_env \<Rightarrow> int \<Rightarrow> room_member \<Rightarrow> bool \<Rightarrow> ('a typing_handler_scheme, unit) call" where
  "send_edus env now m typing =
     bindC (liftC (hosts_in_room env (tm_room_id m))) (\<lambda>hosts.
       modifyC (\<lambda>h. h\<lparr>edus := edus h @ map (\<lambda>d. \<lparr>edu_destination = d, edu_member = m, edu_typing = typing\<rparr>)
         (filter (\<lambda>d. d \<noteq> hostname env) (filter_destinations_by_retry_limiter hosts now 0 (retry_table env)))\<rparr>))"

definition push_remote :: "typing_env \<Rightarrow> int \<Rightarrow> room_member \<Rightarrow> bool \<Rightarrow> ('a typing_handler_scheme, unit) call" where
  "push_remote env now m typing h =
     (if \<not> th_federation h then returnC () h
      else catchC
        (bindC (modifyC (\<lambda>h. h\<lparr>last_federation_poke := AList.update m now (last_federation_poke h)\<rparr>)) (\<lambda>_.
           bindC (insert_timer now m (now + TYPING_FEDERATION_PING_INTERVAL)) (\<lambda>_. send_edus env now m typing))) h)"

definition poke_due :: "typing_env \<Rightarrow> int \<Rightarrow> room_member \<Rightarrow> 'a typing_handler_scheme \<Rightarrow> bool" where
  "poke_due env now m h \<longleftrightarrow> th_federation h \<and> mine_id env (tm_user_id m) \<and>
     (case map_of (last_federation_poke h) m of None \<Rightarrow> True | Some t \<Rightarrow> t = 0 \<or> t + TYPING_FEDERATION_PING_INTERVAL \<le> now)"

definition follower_timeout_for_member :: "typing_env \<Rightarrow> int \<Rightarrow> room_member \<Rightarrow> ('a typing_handler_scheme, unit) call" where
  "follower_timeout_for_member env now m h =
     (if \<not> is_typing h m then returnC () h
      else bindC (if poke_due env now m h then push_remote env now m True else returnC ()) (\<lambda>_.
        insert_timer now m (now + 60 * 1000)) h)"

text \<open>\<open>_handle_timeouts\<close>, with the class's own \<open>_handle_timeout_for_member\<close>.\<close>

definition fetch_due :: "int \<Rightarrow> 'a typing_handler_scheme \<Rightarrow> room_member list \<times> 'a typing_handler_scheme" where
  "fetch_due now h = (let (due, w) = wheel_fetch (th_wheel h) now in (remdups due, h\<lparr>th_wheel := w\<rparr>))"

definition handle_typing_timeouts ::
  "(int \<Rightarrow> room_member \<Rightarrow> ('a typing_handler_scheme, unit) call) \<Rightarrow> int \<Rightarrow> ('a typing_handler_scheme, unit) call" where
  "handle_typing_timeouts timeout_for now h = (let (due, h1) = fetch_due now h in foldC (\<lambda>m _. timeout_for now m) due () h1)"

definition members_of :: "string \<Rightarrow> string list \<Rightarrow> room_member list" where
  "members_of room us = map (\<lambda>u. \<lparr>tm_room_id = room, tm_user_id = u\<rparr>) us"

definition send_changes_in_typing ::
  "typing_env \<Rightarrow> int \<Rightarrow> string \<Rightarrow> string list \<Rightarrow> string list \<Rightarrow> ('a typing_handler_scheme, unit) call" where
  "send_changes_in_typing env now room prev new h =
     (if \<not> th_federation h then returnC () h
      else bindC (foldC (\<lambda>m _. push_remote env now m True) (members_of room (filter (mine_id env) (filter (\<lambda>u. u \<notin> set prev) new))) ())
        (\<lambda>_. foldC (\<lambda>m _. push_remote env now m False) (members_of room (filter (mine_id env) (filter (\<lambda>u. u \<notin> set new) prev))) ()) h)"

record typing_row =
  row_room_id :: string
  row_user_ids :: "string list"

definition process_typing_row :: "typing_env \<Rightarrow> int \<Rightarrow> int \<Rightarrow> typing_row \<Rightarrow> ('a typing_handler_scheme, unit) call" where
  "process_typing_row env now token row h =
     (let room = row_room_id row; prev = typing_in h room; new = remdups (row_user_ids row)
      in catchC (send_changes_in_typing env now room prev new)
        (h\<lparr>room_serials := AList.update room token (room_serials h), room_typing := AList.update room new (room_typing h),
           rooms_updated := List.insert room (rooms_updated h)\<rparr>))"

definition process_replication_rows :: "typing_env \<Rightarrow> int \<Rightarrow> int \<Rightarrow> typing_row list \<Rightarrow> ('a typing_handler_scheme, unit) call" where
  "process_replication_rows env now token rows h =
     foldC (\<lambda>row _. process_typing_row env now token row) rows ()
       ((if latest_room_serial h > token then reset_typing h else h)\<lparr>latest_room_serial := token\<rparr>)"

definition prune_old_typing :: "'a typing_handler_scheme \<Rightarrow> 'a typing_handler_scheme" where
  "prune_old_typing h =
     (let stale = filter (\<lambda>r. r \<notin> set (rooms_updated h)) (map fst (room_serials h))
      in h\<lparr>room_serials := filter (\<lambda>e. fst e \<notin> set stale) (room_serials h),
           room_typing := filter (\<lambda>e. fst e \<notin> set stale) (room_typing h), rooms_updated := []\<rparr>)"

section \<open>\<open>TypingWriterHandler\<close>\<close>

record 'd typing_writer = typing_handler +
  member_typing_until :: "(room_member \<times> int) list"
  change_cache_of :: "'d change_cache"
  notified :: "(int \<times> string) list"

text \<open>The change cache starts at the latest serial, with the default size.\<close>

definition new_typing_writer :: "'d sorted_dict \<Rightarrow> bool \<Rightarrow> 'd typing_writer outcome" where
  "new_typing_writer ops federation =
     bindO (new_change_cache ops (latest_room_serial (new_typing_handler federation)) 10000 []) (\<lambda>c.
       Some (Inr (typing_handler.extend (new_typing_handler federation)
         \<lparr>member_typing_until = [], change_cache_of = c, notified = []\<rparr>)))"

definition set_users :: "bool \<Rightarrow> room_member \<Rightarrow> 'a typing_handler_scheme \<Rightarrow> 'a typing_handler_scheme" where
  "set_users typing m h =
     (let us = typing_in h (tm_room_id m)
      in h\<lparr>room_typing := AList.update (tm_room_id m) (if typing then List.insert (tm_user_id m) us else removeAll (tm_user_id m) us) (room_typing h)\<rparr>)"

definition push_update_local :: "'d sorted_dict \<Rightarrow> room_member \<Rightarrow> bool \<Rightarrow> ('d typing_writer, unit) call" where
  "push_update_local ops m typing h =
     (let h1 = set_users typing m h; serial = latest_room_serial h1 + 1;
          h2 = h1\<lparr>latest_room_serial := serial, room_serials := AList.update (tm_room_id m) serial (room_serials h1)\<rparr>
      in case entity_has_changed ops (change_cache_of h2) (tm_room_id m) serial of
           None \<Rightarrow> None
         | Some (Inl e) \<Rightarrow> Some (Inl e, h2)
         | Some (Inr c) \<Rightarrow> Some (Inr (), h2\<lparr>change_cache_of := c, rooms_updated := List.insert (tm_room_id m) (rooms_updated h2),
             notified := notified h2 @ [(serial, tm_room_id m)]\<rparr>))"

definition push_update :: "'d sorted_dict \<Rightarrow> typing_env \<Rightarrow> int \<Rightarrow> room_member \<Rightarrow> bool \<Rightarrow> ('d typing_writer, unit) call" where
  "push_update ops env now m typing =
     bindC (if mine_id env (tm_user_id m) then push_remote env now m typing else returnC ()) (\<lambda>_. push_update_local ops m typing)"

definition member_stopped_typing :: "'d sorted_dict \<Rightarrow> typing_env \<Rightarrow> int \<Rightarrow> room_member \<Rightarrow> ('d typing_writer, unit) call" where
  "member_stopped_typing ops env now m h =
     (if \<not> is_typing h m then returnC () h
      else push_update ops env now m False
        (h\<lparr>member_typing_until := AList.delete m (member_typing_until h), last_federation_poke := AList.delete m (last_federation_poke h)\<rparr>))"

definition writer_timeout_for_member :: "'d sorted_dict \<Rightarrow> typing_env \<Rightarrow> int \<Rightarrow> room_member \<Rightarrow> ('d typing_writer, unit) call" where
  "writer_timeout_for_member ops env now m =
     bindC (follower_timeout_for_member env now m) (\<lambda>_ h.
       if \<not> is_typing h m then returnC () h
       else if (case map_of (member_typing_until h) m of None \<Rightarrow> True | Some t \<Rightarrow> t = 0 \<or> t \<le> now)
         then member_stopped_typing ops env now m h
       else returnC () h)"

text \<open>The checks that starting and stopping have in common.\<close>

definition check_typing_request ::
  "typing_env \<Rightarrow> domain_specific_string \<Rightarrow> domain_specific_string \<Rightarrow> bool \<Rightarrow> string \<Rightarrow> unit result" where
  "check_typing_request env target_user user is_shadow_banned room =
     (if \<not> mine_id env (to_string UserID target_user) then Inl (SynapseError 400)
      else if target_user \<noteq> user then Inl (AuthError 400)
      else if is_shadow_banned then Inl ShadowBanErr
      else check_user_in_room env room (to_string UserID user))"

definition set_typing_until :: "room_member \<Rightarrow> int \<Rightarrow> int \<Rightarrow> ('d typing_writer, unit) call" where
  "set_typing_until m now until =
     bindC (modifyC (\<lambda>h. h\<lparr>member_typing_until := AList.update m until (member_typing_until h)\<rparr>)) (\<lambda>_. insert_timer now m until)"

definition started_typing ::
  "'d sorted_dict \<Rightarrow> typing_env \<Rightarrow> int \<Rightarrow> domain_specific_string \<Rightarrow> domain_specific_string \<Rightarrow> bool \<Rightarrow> string \<Rightarrow> int \<Rightarrow>
   ('d typing_writer, unit) call" where
  "started_typing ops env now target_user user is_shadow_banned room timeout =
     bindC (liftC (check_typing_request env target_user user is_shadow_banned room)) (\<lambda>_ h.
       let m = \<lparr>tm_room_id = room, tm_user_id = to_string UserID target_user\<rparr>; was_present = is_typing h m
       in bindC (set_typing_until m now (now + timeout)) (\<lambda>_. if was_present then returnC () else push_update ops env now m True) h)"

definition stopped_typing ::
  "'d sorted_dict \<Rightarrow> typing_env \<Rightarrow> int \<Rightarrow> domain_specific_string \<Rightarrow> domain_specific_string \<Rightarrow> bool \<Rightarrow> string \<Rightarrow> ('d typing_writer, unit) call" where
  "stopped_typing ops env now target_user user is_shadow_banned room =
     bindC (liftC (check_typing_request env target_user user is_shadow_banned room)) (\<lambda>_.
       member_stopped_typing ops env now \<lparr>tm_room_id = room, tm_user_id = to_string UserID target_user\<rparr>)"

definition user_left_room :: "'d sorted_dict \<Rightarrow> typing_env \<Rightarrow> int \<Rightarrow> domain_specific_string \<Rightarrow> string \<Rightarrow> ('d typing_writer, unit) call" where
  "user_left_room ops env now user room =
     (if mine_id env (to_string UserID user)
      then member_stopped_typing ops env now \<lparr>tm_room_id = room, tm_user_id = to_string UserID user\<rparr> else returnC ())"

text \<open>
  \<open>UserID.from_string\<close> on any JSON value: a list is not equal to the sigil, and other values have no
  length or cannot be sliced.
\<close>

definition user_id_of_json :: "json \<Rightarrow> (string \<times> domain_specific_string) result" where
  "user_id_of_json v =
     (case v of
        JStr s \<Rightarrow> bindR (from_string UserID s) (\<lambda>u. Inr (s, u))
      | JList _ \<Rightarrow> Inl (SynapseError 400)
      | JObj [] \<Rightarrow> Inl (SynapseError 400)
      | _ \<Rightarrow> Inl TypeErr)"

text \<open>A room id that is not a string names no room, and cannot be looked up if it cannot be hashed.\<close>

definition recv_typing_edu :: "'d sorted_dict \<Rightarrow> typing_env \<Rightarrow> int \<Rightarrow> string \<Rightarrow> dict \<Rightarrow> ('d typing_writer, unit) call" where
  "recv_typing_edu ops env now origin body =
     bindC (liftC (dict_item body ''room_id'')) (\<lambda>room_id. bindC (liftC (dict_item body ''user_id'')) (\<lambda>user_id.
       case room_id of
         JStr room \<Rightarrow>
           if \<not> host_in_room env room then returnC ()
           else bindC (liftC (user_id_of_json user_id)) (\<lambda>(uid, user).
             if ds_domain user \<noteq> origin then returnC ()
             else if ds_domain user \<notin> set (approximate_hosts_in_room env room) then returnC ()
             else
               (let m = \<lparr>tm_room_id = room, tm_user_id = uid\<rparr>
                in bindC (set_typing_until m now (now + TYPING_FEDERATION_TIMEOUT)) (\<lambda>_.
                     bindC (liftC (dict_item body ''typing'')) (\<lambda>typing. push_update_local ops m (truthy typing)))))
       | _ \<Rightarrow> if hashable room_id then returnC () else liftC (Inl TypeErr)))"

text \<open>
  \<open>get_all_typing_updates\<close>.  Rows are sorted as tuples; serials differ, so that they alone decide.
  \<open>rows[:limit]\<close> counts from the end for a negative limit.
\<close>

definition typing_rows :: "int \<Rightarrow> int \<Rightarrow> 'a typing_handler_scheme \<Rightarrow> string list \<Rightarrow> (int \<times> typing_row) list result" where
  "typing_rows last_id current_id h rooms =
     foldR (\<lambda>rows room.
       case map_of (room_serials h) room of
         None \<Rightarrow> Inl KeyErr
       | Some serial \<Rightarrow>
           if last_id < serial \<and> serial \<le> current_id then
             (case map_of (room_typing h) room of
                None \<Rightarrow> Inl KeyErr
              | Some us \<Rightarrow> Inr (rows @ [(serial, \<lparr>row_room_id = room, row_user_ids = us\<rparr>)]))
           else Inr rows) [] rooms"

definition upto_limit :: "int \<Rightarrow> 'a list \<Rightarrow> 'a list" where
  "upto_limit limit xs = take (nat (if limit < 0 then int (length xs) + limit else limit)) xs"

definition get_all_typing_updates ::
  "'d sorted_dict \<Rightarrow> int \<Rightarrow> int \<Rightarrow> int \<Rightarrow> 'd typing_writer \<Rightarrow> ((int \<times> typing_row) list \<times> int \<times> bool) result" where
  "get_all_typing_updates ops last_id current_id limit h =
     (if last_id = current_id then Inr ([], current_id, False)
      else
        bindR (typing_rows last_id current_id h
          (case get_all_entities_changed ops (change_cache_of h) last_id of None \<Rightarrow> map fst (room_serials h) | Some rooms \<Rightarrow> rooms)) (\<lambda>unsorted.
          let rows = sort_key fst unsorted
          in if int (length rows) > limit then
               (let cut = upto_limit limit rows in if cut = [] then Inl IndexErr else Inr (cut, fst (last cut), True))
             else Inr (rows, current_id, False)))"

section \<open>\<open>TypingNotificationEventSource\<close>\<close>

definition make_event_for :: "'a typing_handler_scheme \<Rightarrow> string \<Rightarrow> dict result" where
  "make_event_for h room =
     (case map_of (room_typing h) room of
        None \<Rightarrow> Inl KeyErr
      | Some us \<Rightarrow> Inr [(''type'', JStr ''m.typing''), (''room_id'', JStr room), (''content'', JObj [(''user_ids'', JList (map JStr us))])])"

definition get_new_typing_events :: "'a typing_handler_scheme \<Rightarrow> int \<Rightarrow> string list \<Rightarrow> (dict list \<times> int) result" where
  "get_new_typing_events h from_key rooms =
     bindR (mapR (make_event_for h) (filter (\<lambda>r. case map_of (room_serials h) r of None \<Rightarrow> False | Some s \<Rightarrow> \<not> s \<le> from_key) rooms))
       (\<lambda>events. Inr (events, latest_room_serial h))"

text \<open>For application services; \<open>later r\<close> is the handler when the service has answered about room \<open>r\<close>.\<close>

definition get_new_typing_events_as ::
  "'a typing_handler_scheme \<Rightarrow> (string \<Rightarrow> 'a typing_handler_scheme) \<Rightarrow> (string \<Rightarrow> bool) \<Rightarrow> int \<Rightarrow> (dict list \<times> int) result" where
  "get_new_typing_events_as h later is_interested_in_room from_key =
     bindR (mapR (\<lambda>r. make_event_for (later r) r)
         (filter is_interested_in_room (map fst (filter (\<lambda>(_, s). \<not> s \<le> from_key) (room_serials h)))))
       (\<lambda>events. Inr (events, latest_room_serial h))"

section \<open>Operations of the writer\<close>

text \<open>What other parts call, with the two checks that the clock runs.\<close>

datatype typing_op =
    Started domain_specific_string domain_specific_string bool string int
  | Stopped domain_specific_string domain_specific_string bool string
  | Left domain_specific_string string
  | Edu string dict
  | Check
  | Prune

fun typing_step :: "'d sorted_dict \<Rightarrow> typing_env \<Rightarrow> int \<Rightarrow> typing_op \<Rightarrow> ('d typing_writer, unit) call" where
  "typing_step ops env now (Started target_user user banned room timeout) = started_typing ops env now target_user user banned room timeout"
| "typing_step ops env now (Stopped target_user user banned room) = stopped_typing ops env now target_user user banned room"
| "typing_step ops env now (Left user room) = user_left_room ops env now user room"
| "typing_step ops env now (Edu origin body) = recv_typing_edu ops env now origin body"
| "typing_step ops env now Check = handle_typing_timeouts (writer_timeout_for_member ops env) now"
| "typing_step ops env now Prune = modifyC prune_old_typing"

end
