(* ===== verification/Typing_Props.thy ===== *)
theory Typing_Props
  imports Typing
begin

text \<open>
  Typing notifications time out.  Every member shown as typing has a time until which it is typing and a
  timer that goes off at most about a minute after that time, whatever operations run in between.
\<close>

section \<open>Timers\<close>

lemma time_key_past:
  assumes "bucket_size w = 5000" "0 \<le> now"
  shows "time_key w t \<le> max t now div 5000"
proof (cases "0 \<le> t")
  case True
  have "t div 5000 \<le> max t now div 5000" by (rule zdiv_mono1) simp_all
  then show ?thesis using time_key_div [OF assms(1) True] by simp
next
  case False
  then have "time_key w t \<le> 0" by (simp add: time_key_def trunc_rat_def assms(1) ceiling_le_zero)
  moreover have "0 \<le> max t now div 5000" using assms(2) by (simp add: pos_imp_zdiv_nonneg_iff)
  ultimately show ?thesis by simp
qed

lemma insert_timer_ok:
  assumes "wheel_at c now (th_wheel h)"
  shows "\<exists>w k. insert_timer now m t h = Some (Inr (), h\<lparr>th_wheel := w\<rparr>) \<and> wheel_at c now w \<and>
    pairs (entries w) = insert (k, m) (pairs (entries (th_wheel h))) \<and> k \<le> max t now div 5000 + 1"
proof -
  let ?w = "th_wheel h"
  have w: "keyed ?w" "bucket_size ?w = 5000" "0 \<le> now" using assms(1) by (auto simp: wheel_at_def)
  from insert_keeps [OF assms(1), of m t] obtain w' where
    w': "wheel_insert ?w now m t = Inr w'" "wheel_at c now w'" by blast
  from keyed_insert [OF w(1), of now m t] w'(1) obtain es k where
    es: "w' = ?w\<lparr>entries := es\<rparr>" "es \<noteq> []" "pairs es = insert (k, m) (pairs (entries ?w))"
      "k \<le> max (time_key ?w t + 1) (fst (hd es))" by auto
  have "fst (hd es) \<le> now div 5000 + 1" using w'(2) es(1,2) by (simp add: wheel_at_def)
  moreover have "now div 5000 \<le> max t now div 5000" by (rule zdiv_mono1) simp_all
  ultimately have "k \<le> max t now div 5000 + 1" using es(4) time_key_past [OF w(2,3), of t] by simp
  then show ?thesis using w' es(1,3) by (intro exI [of _ w'] exI [of _ k]) (simp add: insert_timer_def)
qed

text \<open>Sending to other servers only touches what belongs to sending, and the timers.\<close>

lemma send_edus_shape: "\<exists>r e. send_edus env now m b h = Some (r, h\<lparr>edus := e\<rparr>)"
  by (cases "hosts_in_room env (tm_room_id m)") (auto simp: send_edus_def bindC_def liftC_def modifyC_def intro: exI [of _ "edus h"])

lemma push_remote_shape:
  "\<exists>p w e. push_remote env now m b h = Some (Inr (), h\<lparr>last_federation_poke := p, th_wheel := w, edus := e\<rparr>) \<and>
     (wheel_at c now (th_wheel h) \<longrightarrow> wheel_at c now w \<and> pairs (entries (th_wheel h)) \<subseteq> pairs (entries w))"
proof (cases "th_federation h")
  case True
  let ?h = "h\<lparr>last_federation_poke := AList.update m now (last_federation_poke h)\<rparr>" and ?t = "now + TYPING_FEDERATION_PING_INTERVAL"
  show ?thesis
  proof (cases "wheel_insert (th_wheel h) now m ?t")
    case (Inl e)
    have "\<not> wheel_at c now (th_wheel h)" using insert_keeps [of c now "th_wheel h" m ?t] Inl by auto
    then show ?thesis using True Inl
      by (intro exI [of _ "AList.update m now (last_federation_poke h)"] exI [of _ "th_wheel h"] exI [of _ "edus h"])
        (simp add: push_remote_def bindC_def modifyC_def insert_timer_def catchC_def)
  next
    case (Inr w)
    obtain r e where "send_edus env now m b (?h\<lparr>th_wheel := w\<rparr>) = Some (r, ?h\<lparr>th_wheel := w, edus := e\<rparr>)" using send_edus_shape by blast
    then show ?thesis using True Inr insert_keeps [of c now "th_wheel h" m ?t]
      by (intro exI [of _ "AList.update m now (last_federation_poke h)"] exI [of _ w] exI [of _ e])
        (auto simp: push_remote_def bindC_def modifyC_def insert_timer_def catchC_def)
  qed
next
  case False
  then show ?thesis
    by (intro exI [of _ "last_federation_poke h"] exI [of _ "th_wheel h"] exI [of _ "edus h"]) (simp add: push_remote_def returnC_def)
qed

section \<open>Members that are typing have a timer\<close>

text \<open>
  \<open>l\<close> is the time of the last request of each member.  The time until which a member types can be before
  it, since clients may ask for a negative timeout.
\<close>

definition armed :: "(room_member \<Rightarrow> int) \<Rightarrow> 'd typing_writer \<Rightarrow> room_member \<Rightarrow> bool" where
  "armed l h m \<longleftrightarrow> (\<exists>u k. map_of (member_typing_until h) m = Some u \<and> (k, m) \<in> pairs (entries (th_wheel h)) \<and> k \<le> (max u (l m) + 60000) div 5000 + 1)"

text \<open>All of them but those of \<open>E\<close>, at time \<open>now\<close> after the check at \<open>c\<close>.\<close>

definition timed :: "'d sorted_dict \<Rightarrow> (room_member \<Rightarrow> int) \<Rightarrow> room_member set \<Rightarrow> int \<Rightarrow> int \<Rightarrow> 'd typing_writer \<Rightarrow> bool" where
  "timed ops l E c now h \<longleftrightarrow> wheel_at c now (th_wheel h) \<and> cache_inv ops (change_cache_of h) \<and> (\<exists>R. tracks R (change_cache_of h)) \<and>
     (\<forall>m. m \<notin> E \<longrightarrow> is_typing h m \<longrightarrow> armed l h m)"

lemma is_typing_cong: "room_typing h = room_typing h' \<Longrightarrow> is_typing h m = is_typing h' m"
  by (simp add: is_typing_def typing_in_def)

lemma armed_grow:
  "armed l h m \<Longrightarrow> pairs (entries (th_wheel h)) \<subseteq> pairs (entries w) \<Longrightarrow> armed l (h\<lparr>last_federation_poke := p, th_wheel := w, edus := e\<rparr>) m"
  by (auto simp: armed_def)

lemma timed_grow:
  assumes "timed ops l E c now h" "wheel_at c now w" "pairs (entries (th_wheel h)) \<subseteq> pairs (entries w)"
  shows "timed ops l E c now (h\<lparr>last_federation_poke := p, th_wheel := w, edus := e\<rparr>)"
  using assms armed_grow [OF _ assms(3)] by (simp add: timed_def is_typing_def typing_in_def)

lemma timed_except: "timed ops l E c now h \<Longrightarrow> E \<subseteq> F \<Longrightarrow> timed ops l F c now h"
  by (auto simp: timed_def)

lemma timed_one: "timed ops l (insert m E) c now h \<Longrightarrow> armed l h m \<or> \<not> is_typing h m \<Longrightarrow> timed ops l E c now h"
  by (auto simp: timed_def)

text \<open>Another member is typing or not, and the serials move on.\<close>

lemma set_users_typing:
  "is_typing (set_users b m h) m' \<longleftrightarrow> (if m' = m then b else is_typing h m')"
proof -
  have "typing_in (set_users b m h) r =
      (let us = typing_in h r in if r = tm_room_id m then (if b then List.insert (tm_user_id m) us else removeAll (tm_user_id m) us) else us)" for r
    by (simp add: set_users_def Let_def typing_in_def)
  then show ?thesis by (cases m; cases m') (auto simp: is_typing_def Let_def)
qed

lemma push_update_local_ok:
  assumes "sorted_dict_ok ops" "timed ops l (insert m E) c now h" "b \<Longrightarrow> armed l h m"
  shows "\<exists>h'. push_update_local ops m b h = Some (Inr (), h') \<and> timed ops l E c now h'"
proof -
  let ?s = "latest_room_serial h + 1" and ?r = "tm_room_id m"
  obtain R where R: "cache_inv ops (change_cache_of h)" "tracks R (change_cache_of h)" using assms(2) by (auto simp: timed_def)
  from entity_has_changed_spec [OF assms(1) R, of ?r ?s] obtain c' where
    c': "entity_has_changed ops (change_cache_of h) ?r ?s = Some (Inr c')" "cache_inv ops c'" "tracks (insert (?r, ?s) R) c'" by blast
  define h' where "h' = (set_users b m h)\<lparr>latest_room_serial := ?s, room_serials := AList.update ?r ?s (room_serials h), change_cache_of := c',
    rooms_updated := List.insert ?r (rooms_updated h), notified := notified h @ [(?s, ?r)]\<rparr>"
  have run: "push_update_local ops m b h = Some (Inr (), h')" using c'(1) by (simp add: push_update_local_def set_users_def Let_def h'_def)
  have typing: "is_typing h' m' = (if m' = m then b else is_typing h m')" for m'
    unfolding set_users_typing [symmetric] by (rule is_typing_cong) (simp add: h'_def)
  have arm: "armed l h' m' = armed l h m'" for m' by (simp add: armed_def h'_def set_users_def Let_def)
  have wheel: "th_wheel h' = th_wheel h" "change_cache_of h' = c'" by (simp_all add: h'_def set_users_def Let_def)
  have "m' \<notin> E \<longrightarrow> is_typing h' m' \<longrightarrow> armed l h' m'" for m'
    using assms(2,3) unfolding typing arm timed_def by (cases "m' = m") auto
  then have "timed ops l E c now h'" using assms(2) c'(2,3) by (auto simp: timed_def wheel)
  with run show ?thesis by blast
qed

lemma push_update_ok:
  assumes "sorted_dict_ok ops" "timed ops l (insert m E) c now h" "b \<Longrightarrow> armed l h m"
  shows "\<exists>h'. push_update ops env now m b h = Some (Inr (), h') \<and> timed ops l E c now h'"
proof -
  obtain p w e where r: "push_remote env now m b h = Some (Inr (), h\<lparr>last_federation_poke := p, th_wheel := w, edus := e\<rparr>)"
    "wheel_at c now w" "pairs (entries (th_wheel h)) \<subseteq> pairs (entries w)"
    using push_remote_shape [of env now m b h c] assms(2) unfolding timed_def by blast
  let ?h = "h\<lparr>last_federation_poke := p, th_wheel := w, edus := e\<rparr>"
  have "\<exists>h'. push_update_local ops m b ?h = Some (Inr (), h') \<and> timed ops l E c now h'"
    by (rule push_update_local_ok [OF assms(1) timed_grow [OF assms(2) r(2,3)] armed_grow [OF assms(3) r(3)]])
  then show ?thesis using r(1) push_update_local_ok [OF assms] by (simp add: push_update_def bindC_def returnC_def)
qed

lemma member_stopped_ok:
  assumes "sorted_dict_ok ops" "timed ops l (insert m E) c now h"
  shows "\<exists>h'. member_stopped_typing ops env now m h = Some (Inr (), h') \<and> timed ops l E c now h'"
proof (cases "is_typing h m")
  case True
  let ?h = "h\<lparr>member_typing_until := AList.delete m (member_typing_until h), last_federation_poke := AList.delete m (last_federation_poke h)\<rparr>"
  have "armed l ?h m' = armed l h m'" if "m' \<noteq> m" for m' using that by (simp add: armed_def delete_conv')
  then have "timed ops l (insert m E) c now ?h" using assms(2) by (simp add: timed_def is_typing_def typing_in_def)
  from push_update_ok [OF assms(1) this, of False] True show ?thesis by (simp add: member_stopped_typing_def)
next
  case False
  with timed_one [OF assms(2)] show ?thesis by (simp add: member_stopped_typing_def returnC_def)
qed

lemma set_typing_until_ok:
  assumes "timed ops l E c now h" "now \<le> max u (l' m)" "\<And>m'. m' \<noteq> m \<Longrightarrow> l' m' = l m'"
  shows "\<exists>h'. set_typing_until m now u h = Some (Inr (), h') \<and> timed ops l' E c now h' \<and> armed l' h' m \<and> room_typing h' = room_typing h"
proof -
  let ?h = "h\<lparr>member_typing_until := AList.update m u (member_typing_until h)\<rparr>"
  have "wheel_at c now (th_wheel ?h)" using assms(1) by (simp add: timed_def)
  from insert_timer_ok [OF this, of m u] obtain w k where
    w: "insert_timer now m u ?h = Some (Inr (), ?h\<lparr>th_wheel := w\<rparr>)" "wheel_at c now w"
      "pairs (entries w) = insert (k, m) (pairs (entries (th_wheel h)))" "k \<le> max u now div 5000 + 1" by auto
  let ?h' = "?h\<lparr>th_wheel := w\<rparr>"
  have "max u now div 5000 \<le> (max u (l' m) + 60000) div 5000" using assms(2) by (intro zdiv_mono1) auto
  then have arm: "armed l' ?h' m" using w(3,4) by (auto simp: armed_def intro!: exI [of _ k])
  have "armed l' ?h' m'" if "armed l h m'" for m' using that arm w(3) assms(3) [of m'] by (cases "m' = m") (auto simp: armed_def)
  then have "timed ops l' E c now ?h'" using assms(1) w(2) by (auto simp: timed_def is_typing_def typing_in_def)
  then show ?thesis using w(1) arm by (simp add: set_typing_until_def bindC_def modifyC_def)
qed

section \<open>Operations\<close>

text \<open>The timer of a member went off: it stops typing or gets a new timer.\<close>

lemma follower_timeout_ok:
  assumes "timed ops l (insert m E) c now h"
  shows "\<exists>h'. follower_timeout_for_member env now m h = Some (Inr (), h') \<and> timed ops l (insert m E) c now h' \<and>
    (is_typing h' m \<longrightarrow> (\<exists>k. (k, m) \<in> pairs (entries (th_wheel h')) \<and> k \<le> (now + 60000) div 5000 + 1))"
proof (cases "is_typing h m")
  case True
  let ?push = "if poke_due env now m h then push_remote env now m True else returnC ()"
  have "\<exists>h1. ?push h = Some (Inr (), h1) \<and> timed ops l (insert m E) c now h1"
  proof (cases "poke_due env now m h")
    case True
    have "wheel_at c now (th_wheel h)" using assms by (simp add: timed_def)
    with push_remote_shape [of env now m True h c] timed_grow [OF assms] True show ?thesis by auto
  qed (use assms in \<open>simp add: returnC_def\<close>)
  then obtain h1 where h1: "?push h = Some (Inr (), h1)" "timed ops l (insert m E) c now h1" by blast
  have "wheel_at c now (th_wheel h1)" using h1(2) by (simp add: timed_def)
  from insert_timer_ok [OF this, of m "now + 60000"] obtain w k where
    w: "insert_timer now m (now + 60000) h1 = Some (Inr (), h1\<lparr>th_wheel := w\<rparr>)" "wheel_at c now w"
      "pairs (entries w) = insert (k, m) (pairs (entries (th_wheel h1)))" "k \<le> (now + 60000) div 5000 + 1" by auto
  have "timed ops l (insert m E) c now (h1\<lparr>th_wheel := w\<rparr>)"
    using timed_grow [OF h1(2) w(2), where p = "last_federation_poke h1" and e = "edus h1"] w(3) by (simp add: subset_insertI)
  moreover have "follower_timeout_for_member env now m h = Some (Inr (), h1\<lparr>th_wheel := w\<rparr>)"
    using True h1(1) w(1) by (simp add: follower_timeout_for_member_def bindC_def)
  ultimately show ?thesis using w(3,4) by (intro exI [of _ "h1\<lparr>th_wheel := w\<rparr>"]) auto
qed (use assms in \<open>simp add: follower_timeout_for_member_def returnC_def\<close>)

lemma writer_timeout_ok:
  assumes "sorted_dict_ok ops" "timed ops l (insert m E) c now h"
  shows "\<exists>h'. writer_timeout_for_member ops env now m h = Some (Inr (), h') \<and> timed ops l E c now h'"
proof -
  from follower_timeout_ok [OF assms(2), of env] obtain h1 where
    h1: "follower_timeout_for_member env now m h = Some (Inr (), h1)" "timed ops l (insert m E) c now h1"
      "is_typing h1 m \<longrightarrow> (\<exists>k. (k, m) \<in> pairs (entries (th_wheel h1)) \<and> k \<le> (now + 60000) div 5000 + 1)" by blast
  let ?over = "case map_of (member_typing_until h1) m of None \<Rightarrow> True | Some t \<Rightarrow> t = 0 \<or> t \<le> now"
  consider "\<not> is_typing h1 m" | "is_typing h1 m" ?over | "is_typing h1 m" "\<not> ?over" by blast
  then show ?thesis
  proof cases
    case 1
    then show ?thesis using h1(1) timed_one [OF h1(2)] by (simp add: writer_timeout_for_member_def bindC_def returnC_def)
  next
    case 2
    with member_stopped_ok [OF assms(1) h1(2), of env] h1(1) show ?thesis by (simp add: writer_timeout_for_member_def bindC_def)
  next
    case 3
    then obtain u where u: "map_of (member_typing_until h1) m = Some u" "now < u" by (auto split: option.splits)
    have "(now + 60000) div 5000 \<le> (max u (l m) + 60000) div 5000" using u(2) by (intro zdiv_mono1) simp_all
    with h1(3) 3(1) u(1) have "armed l h1 m" by (fastforce simp: armed_def)
    with timed_one [OF h1(2)] 3 h1(1) show ?thesis by (simp add: writer_timeout_for_member_def bindC_def returnC_def)
  qed
qed

lemma timeouts_fold:
  assumes "sorted_dict_ok ops" "timed ops l (set due) c now h"
  shows "\<exists>h'. foldC (\<lambda>m _. writer_timeout_for_member ops env now m) due () h = Some (Inr (), h') \<and> timed ops l {} c now h'"
  using assms(2)
proof (induction due arbitrary: h)
  case (Cons m due)
  from Cons.prems have "timed ops l (insert m (set due)) c now h" by simp
  from writer_timeout_ok [OF assms(1) this, of env] obtain h1 where
    "writer_timeout_for_member ops env now m h = Some (Inr (), h1)" "timed ops l (set due) c now h1" by blast
  with Cons.IH [of h1] show ?case by (simp add: bindC_def)
qed (simp add: returnC_def)

lemma check_ok:
  assumes "sorted_dict_ok ops" "timed ops l {} c now h"
  shows "\<exists>h'. handle_typing_timeouts (writer_timeout_for_member ops env) now h = Some (Inr (), h') \<and> timed ops l {} now now h'"
proof -
  obtain due w where f: "wheel_fetch (th_wheel h) now = (due, w)" by force
  have w: "wheel_at c now (th_wheel h)" using assms(2) by (simp add: timed_def)
  note fw = fetched_wheel [OF w f]
  let ?h = "h\<lparr>th_wheel := w\<rparr>"
  have "armed l ?h m" if "m \<notin> set due" "armed l h m" for m
    using that fw(2) fw(3) [OF that(1)] by (fastforce simp: armed_def)
  then have "timed ops l (set (remdups due)) now now ?h" using assms(2) fw(1) by (auto simp: timed_def is_typing_def typing_in_def)
  from timeouts_fold [OF assms(1) this, of env] f show ?thesis by (simp add: handle_typing_timeouts_def fetch_due_def)
qed

lemma map_of_filter_fst: "map_of (filter (\<lambda>e. P (fst e)) d) k = (if P k then map_of d k else None)"
  by (induction d) auto

lemma prune_rooms:
  "map_of (room_typing (prune_old_typing h)) r = (if r \<in> fst ` set (room_serials h) \<and> r \<notin> set (rooms_updated h) then None else map_of (room_typing h) r)"
  "map_of (room_serials (prune_old_typing h)) r = (if r \<in> set (rooms_updated h) then map_of (room_serials h) r else None)"
proof -
  let ?stale = "set (filter (\<lambda>r. r \<notin> set (rooms_updated h)) (map fst (room_serials h)))"
  have f: "map_of (filter (\<lambda>e. fst e \<notin> ?stale) d) r = (if r \<notin> ?stale then map_of d r else None)" for d :: "(string \<times> 'v) list"
    by (rule map_of_filter_fst)
  show "map_of (room_typing (prune_old_typing h)) r = (if r \<in> fst ` set (room_serials h) \<and> r \<notin> set (rooms_updated h) then None else map_of (room_typing h) r)"
    using f [of "room_typing h"] by (simp add: prune_old_typing_def Let_def)
  show "map_of (room_serials (prune_old_typing h)) r = (if r \<in> set (rooms_updated h) then map_of (room_serials h) r else None)"
    using f [of "room_serials h"] map_of_eq_None_iff [of "room_serials h" r] by (simp add: prune_old_typing_def Let_def)
qed

lemma prune_ok: "timed ops l E c now h \<Longrightarrow> timed ops l E c now (prune_old_typing h)"
proof -
  assume t: "timed ops l E c now h"
  have "is_typing h m" if "is_typing (prune_old_typing h) m" for m
    using that by (auto simp: is_typing_def typing_in_def prune_rooms split: option.splits if_splits)
  then show ?thesis using t by (simp add: timed_def prune_old_typing_def Let_def armed_def)
qed

lemma new_writer: "new_typing_writer ops federation = Some (Inr (typing_handler.extend (new_typing_handler federation)
    \<lparr>member_typing_until = [], change_cache_of = empty_cache ops 0 10000, notified = []\<rparr>))"
  by (simp add: new_typing_writer_def new_change_cache_empty new_typing_handler_def)

lemma new_writer_timed:
  assumes "sorted_dict_ok ops" "0 \<le> now" "new_typing_writer ops federation = Some (Inr h)"
  shows "timed ops l {} now now h"
proof -
  have "wheel_at now now (new_wheel 5000 :: room_member wheel)" using assms(2) keyed_new [of 5000] by (simp add: wheel_at_def new_wheel_def)
  moreover have "run_inv ops (empty_cache ops 0 10000, {})" using empty_cache_inv [OF assms(1)] by simp
  moreover have "h = typing_handler.extend (new_typing_handler federation)
      \<lparr>member_typing_until = [], change_cache_of = empty_cache ops 0 10000, notified = []\<rparr>" using assms(3) by (simp add: new_writer)
  ultimately show ?thesis
    by (auto simp: timed_def run_inv_def is_typing_def typing_in_def new_typing_handler_def typing_handler.defs)
qed

lemma started_timed:
  assumes "sorted_dict_ok ops" "timed ops l {} c now h"
  shows "\<exists>r h'. started_typing ops env now target_user user banned room timeout h = Some (r, h') \<and>
    timed ops (if ok r then l(\<lparr>tm_room_id = room, tm_user_id = to_string UserID target_user\<rparr> := now) else l) {} c now h'"
proof (cases "check_typing_request env target_user user banned room")
  case (Inr x)
  let ?m = "\<lparr>tm_room_id = room, tm_user_id = to_string UserID target_user\<rparr>"
  let ?l = "l(?m := now)"
  from set_typing_until_ok [OF assms(2), of "now + timeout" ?l ?m] obtain h1 where
    h1: "set_typing_until ?m now (now + timeout) h = Some (Inr (), h1)" "timed ops ?l {} c now h1" "armed ?l h1 ?m" by auto
  from push_update_ok [OF assms(1), of ?l ?m "{}" c now h1 True env] h1(2,3) obtain h2 where
    "push_update ops env now ?m True h1 = Some (Inr (), h2)" "timed ops ?l {} c now h2" using timed_except by blast
  with h1 Inr show ?thesis by (simp add: started_typing_def bindC_def liftC_def returnC_def Let_def)
qed (use assms(2) in \<open>simp add: started_typing_def bindC_def liftC_def\<close>)

lemma stopping_ok:
  assumes "sorted_dict_ok ops" "timed ops l {} c now h"
  shows "\<exists>r h'. member_stopped_typing ops env now m h = Some (r, h') \<and> timed ops l {} c now h'"
  using member_stopped_ok [OF assms(1) timed_except [OF assms(2), of "{m}"], of env] by auto

lemma recv_edu_ok:
  assumes "sorted_dict_ok ops" "timed ops l {} c now h"
  shows "\<exists>r h'. recv_typing_edu ops env now origin body h = Some (r, h') \<and> timed ops l {} c now h'"
proof (cases "dict_item body ''room_id''")
  case r: (Inr room_id)
  show ?thesis
  proof (cases "dict_item body ''user_id''")
    case u: (Inr user_id)
    show ?thesis
    proof (cases "(\<exists>room uid user. room_id = JStr room \<and> host_in_room env room \<and> user_id_of_json user_id = Inr (uid, user) \<and>
        ds_domain user = origin \<and> ds_domain user \<in> set (approximate_hosts_in_room env room))")
      case True
      then obtain room uid user where t: "room_id = JStr room" "host_in_room env room" "user_id_of_json user_id = Inr (uid, user)"
        "ds_domain user = origin" "ds_domain user \<in> set (approximate_hosts_in_room env room)" by blast
      let ?m = "\<lparr>tm_room_id = room, tm_user_id = uid\<rparr>"
      from set_typing_until_ok [OF assms(2), of "now + TYPING_FEDERATION_TIMEOUT" l ?m] obtain h1 where
        h1: "set_typing_until ?m now (now + TYPING_FEDERATION_TIMEOUT) h = Some (Inr (), h1)" "timed ops l {} c now h1" "armed l h1 ?m"
        by (auto simp: TYPING_FEDERATION_TIMEOUT_def le_max_iff_disj)
      have "\<exists>r h2. push_update_local ops ?m b h1 = Some (r, h2) \<and> timed ops l {} c now h2" for b
        using push_update_local_ok [OF assms(1) timed_except [OF h1(2)], of ?m "{}" b] h1(3) by blast
      with r u t h1 show ?thesis by (cases "dict_item body ''typing''") (simp_all add: recv_typing_edu_def bindC_def liftC_def Let_def)
    next
      case False
      then show ?thesis using r u assms(2)
        by (cases room_id; cases "user_id_of_json user_id") (auto simp: recv_typing_edu_def bindC_def liftC_def returnC_def split: prod.split)
    qed
  qed (use r assms(2) in \<open>simp add: recv_typing_edu_def bindC_def liftC_def\<close>)
qed (use assms(2) in \<open>simp add: recv_typing_edu_def bindC_def liftC_def\<close>)

text \<open>When each member last asked to be shown as typing, with success.\<close>

definition last_requests :: "(room_member \<Rightarrow> int) \<Rightarrow> int \<Rightarrow> typing_op \<Rightarrow> unit result \<Rightarrow> room_member \<Rightarrow> int" where
  "last_requests l now op r =
     (case op of
        Started target_user _ _ room _ \<Rightarrow>
          if ok r then l(\<lparr>tm_room_id = room, tm_user_id = to_string UserID target_user\<rparr> := now) else l
      | _ \<Rightarrow> l)"

lemma typing_step_ok:
  assumes "sorted_dict_ok ops" "timed ops l {} c now h"
  shows "\<exists>r h'. typing_step ops env now op h = Some (r, h') \<and>
    timed ops (last_requests l now op r) {} (if op = Check then now else c) now h'"
proof (cases op)
  case (Started target_user user banned room timeout)
  with started_timed [OF assms, of env target_user user banned room timeout] show ?thesis by (simp add: last_requests_def)
next
  case (Stopped target_user user banned room)
  with stopping_ok [OF assms(1,2), of env "\<lparr>tm_room_id = room, tm_user_id = to_string UserID target_user\<rparr>"] assms(2) show ?thesis
    by (cases "check_typing_request env target_user user banned room") (simp_all add: stopped_typing_def bindC_def liftC_def last_requests_def)
next
  case (Left user room)
  with stopping_ok [OF assms(1,2), of env "\<lparr>tm_room_id = room, tm_user_id = to_string UserID user\<rparr>"] assms(2) show ?thesis
    by (simp add: user_left_room_def returnC_def last_requests_def)
next
  case (Edu origin body)
  with recv_edu_ok [OF assms(1,2), of env origin body] show ?thesis by (simp add: last_requests_def)
next
  case Check
  with check_ok [OF assms(1,2), of env] show ?thesis by (auto simp: last_requests_def)
next
  case Prune
  with prune_ok [OF assms(2)] show ?thesis by (simp add: modifyC_def last_requests_def)
qed

section \<open>Time passes\<close>

text \<open>
  Runs of the writer, up to time \<open>now\<close>, with the last check of the timers at \<open>c\<close> and the last requests \<open>l\<close>.
  Clients may ask for any timeout.
\<close>

inductive typing_run :: "'d sorted_dict \<Rightarrow> int \<Rightarrow> int \<Rightarrow> (room_member \<Rightarrow> int) \<Rightarrow> 'd typing_writer \<Rightarrow> bool" for ops where
  start: "new_typing_writer ops federation = Some (Inr h) \<Longrightarrow> 0 \<le> now \<Longrightarrow> typing_run ops now now (\<lambda>_. 0) h"
| wait: "typing_run ops c now l h \<Longrightarrow> now \<le> now' \<Longrightarrow> typing_run ops c now' l h"
| op: "typing_run ops c now l h \<Longrightarrow> typing_step ops env now op h = Some (r, h') \<Longrightarrow>
    typing_run ops (if op = Check then now else c) now (last_requests l now op r) h'"

lemma typing_run_timed:
  assumes "typing_run ops c now l h" "sorted_dict_ok ops"
  shows "timed ops l {} c now h"
  using assms(1)
proof induction
  case (start federation h now)
  then show ?case by (intro new_writer_timed [OF assms(2)])
next
  case (wait c now l h now')
  then show ?case using wheel_at_later by (auto simp: timed_def)
next
  case (op c now l h env op r h')
  from typing_step_ok [OF assms(2) op.IH, of env op] op.hyps(2) show ?case by auto
qed

text \<open>
  C19.  A member that is shown as typing after the check at \<open>c\<close> has a time until which it is typing, and the
  check was less than 65 seconds after that time, or, if the member asked for a negative timeout, after its
  last request: whatever clients and servers do, nobody stays typing.
\<close>

theorem typing_times_out:
  assumes "typing_run ops c now l h" "sorted_dict_ok ops" "is_typing h m"
  shows "\<exists>u. map_of (member_typing_until h) m = Some u \<and> c < max u (l m) + 65000"
proof -
  have t: "timed ops l {} c now h" by (rule typing_run_timed [OF assms(1,2)])
  with assms(3) obtain u k where k: "map_of (member_typing_until h) m = Some u" "(k, m) \<in> pairs (entries (th_wheel h))"
    "k \<le> (max u (l m) + 60000) div 5000 + 1" by (auto simp: timed_def armed_def)
  have "c div 5000 < k" using wheel_at_pair [OF _ k(2)] t by (auto simp: timed_def)
  with k(3) have "c div 5000 \<le> (max u (l m) + 60000) div 5000" by simp
  then have "c < max u (l m) + 65000" by linarith
  with k(1) show ?thesis by blast
qed

section \<open>An example\<close>

definition typing_sample_env :: typing_env where
  "typing_sample_env = \<lparr>hostname = ''s'', hosts_in_room = (\<lambda>_. Inr [''s'', ''t'']), retry_table = [], host_in_room = (\<lambda>_. True),
     approximate_hosts_in_room = (\<lambda>_. [''s'', ''t'']), check_user_in_room = (\<lambda>_ _. Inr ())\<rparr>"

definition typing_sample_user :: domain_specific_string where
  "typing_sample_user = \<lparr>ds_localpart = ''a'', ds_domain = ''s''\<rparr>"

definition typing_sample_new :: "(int \<times> string list) list typing_writer" where
  "typing_sample_new = typing_handler.extend (new_typing_handler True)
     \<lparr>member_typing_until = [], change_cache_of = empty_cache alist_dict 0 10000, notified = []\<rparr>"

text \<open>A member starts typing at 1000 for thirty seconds; the timers are checked at 20000.\<close>

definition typing_sample :: "(int \<times> string list) list typing_writer" where
  "typing_sample =
     (let started = the (typing_step alist_dict typing_sample_env 1000 (Started typing_sample_user typing_sample_user False ''r'' 30000) typing_sample_new)
      in snd (the (typing_step alist_dict typing_sample_env 20000 Check (snd started))))"

definition typing_sample_member :: room_member where
  "typing_sample_member = \<lparr>tm_room_id = ''r'', tm_user_id = ''@a:s''\<rparr>"

lemma typing_sample_run: "typing_run alist_dict 20000 20000 ((\<lambda>_. 0)(typing_sample_member := 1000)) typing_sample"
proof -
  let ?op = "Started typing_sample_user typing_sample_user False ''r'' 30000"
  have n: "typing_run alist_dict 1000 1000 (\<lambda>_. 0) typing_sample_new" by (rule typing_run.start [where federation = True]) (simp_all add: new_writer typing_sample_new_def)
  have t: "timed alist_dict (\<lambda>_. 0) {} 1000 1000 typing_sample_new" by (rule typing_run_timed [OF n alist_dict_ok])
  from typing_step_ok [OF alist_dict_ok t, of typing_sample_env ?op] obtain r1 h1 where
    h1: "typing_step alist_dict typing_sample_env 1000 ?op typing_sample_new = Some (r1, h1)" by auto
  have "map_option (\<lambda>x. ok (fst x)) (typing_step alist_dict typing_sample_env 1000 ?op typing_sample_new) = Some True"
    "to_string UserID typing_sample_user = ''@a:s''" by code_simp+
  then have l: "last_requests (\<lambda>_. 0) 1000 ?op r1 = (\<lambda>_. 0)(typing_sample_member := 1000)"
    using h1 by (simp add: last_requests_def typing_sample_member_def del: typing_step.simps)
  have s1: "typing_run alist_dict 1000 20000 ((\<lambda>_. 0)(typing_sample_member := 1000)) h1"
    using typing_run.wait [OF typing_run.op [OF n h1], of 20000] by (simp add: l)
  from typing_step_ok [OF alist_dict_ok typing_run_timed [OF s1 alist_dict_ok], of typing_sample_env Check] obtain r2 h2 where
    h2: "typing_step alist_dict typing_sample_env 20000 Check h1 = Some (r2, h2)" by auto
  have "typing_run alist_dict 20000 20000 ((\<lambda>_. 0)(typing_sample_member := 1000)) h2"
    using typing_run.op [OF s1 h2] by (simp add: last_requests_def)
  then show ?thesis using h1 h2 by (simp add: typing_sample_def Let_def del: typing_step.simps)
qed

theorem typing_times_out_witness:
  "typing_run alist_dict 20000 20000 ((\<lambda>_. 0)(typing_sample_member := 1000)) typing_sample \<and> sorted_dict_ok alist_dict \<and>
   is_typing typing_sample typing_sample_member \<and>
   (\<exists>u. map_of (member_typing_until typing_sample) typing_sample_member = Some u \<and> 20000 < max u 1000 + 65000)"
proof -
  have "is_typing typing_sample typing_sample_member" by code_simp
  with typing_times_out [OF typing_sample_run alist_dict_ok this] typing_sample_run alist_dict_ok show ?thesis by auto
qed

end
