(* ===== verification/Replication.thy ===== *)
theory Replication
  imports Prelude
begin

text \<open>
  The replication of a stream from the process that writes it to one that follows it:
  \<open>Stream.get_updates\<close> of \<open>replication/tcp/streams/_base.py\<close>, the sending loop of
  \<open>replication/tcp/resource.py\<close> and the handling of \<open>RDATA\<close> and \<open>POSITION\<close> of
  \<open>replication/tcp/handler.py\<close>.  The stream's update function and the follower's handler of rows are
  arguments.  Commands can be lost with the connection, are handled one after the other, and the
  writer goes on while a follower catches up.  The stream can go backwards, as that of typing can, so
  that no \<open>POSITION\<close> is discarded early.
\<close>

section \<open>Updates of a stream\<close>

definition STREAM_UPDATE_TARGET_ROW_COUNT :: int where
  "STREAM_UPDATE_TARGET_ROW_COUNT = 100"

type_synonym 'r updates = "(int \<times> 'r) list \<times> int \<times> bool"

definition get_updates_since :: "(int \<Rightarrow> int \<Rightarrow> int \<Rightarrow> 'r updates result) \<Rightarrow> int \<Rightarrow> int \<Rightarrow> 'r updates result" where
  "get_updates_since update_function from_token upto_token =
     (if from_token = upto_token then Inr ([], upto_token, False)
      else update_function from_token upto_token STREAM_UPDATE_TARGET_ROW_COUNT)"

text \<open>With the new \<open>last_token\<close>, which an exception leaves as it was.\<close>

definition get_updates :: "(int \<Rightarrow> int \<Rightarrow> int \<Rightarrow> 'r updates result) \<Rightarrow> int \<Rightarrow> int \<Rightarrow> int \<Rightarrow> 'r updates result \<times> int" where
  "get_updates update_function current_token minimal_token last_token =
     (if last_token \<ge> minimal_token then (Inr ([], current_token, False), current_token)
      else (case get_updates_since update_function last_token current_token of
              Inl e \<Rightarrow> (Inl e, last_token)
            | Inr (us, token, limited) \<Rightarrow> (Inr (us, token, limited), token)))"

section \<open>The writer\<close>

datatype 'r command = RDATA "int option" 'r | POSITION int int

text \<open>\<open>_batch_updates\<close> of the sending side: only the last of several rows with the same token carries it.\<close>

fun none_tokens :: "(int \<times> 'r) list \<Rightarrow> (int option \<times> 'r) list" where
  "none_tokens [] = []"
| "none_tokens [(t, r)] = [(Some t, r)]"
| "none_tokens ((t, r) # (t', r') # us) = (if t = t' then None else Some t, r) # none_tokens ((t', r') # us)"

text \<open>What the loop sends for one stream, other than that of the caches.\<close>

definition send_updates :: "(int \<Rightarrow> int \<Rightarrow> int \<Rightarrow> 'r updates result) \<Rightarrow> int \<Rightarrow> int \<Rightarrow> 'r command list result \<times> int" where
  "send_updates update_function current_token last_token =
     (if last_token = current_token then (Inr [], last_token)
      else
        (case get_updates update_function current_token current_token last_token of
           (Inl e, l) \<Rightarrow> (Inl e, l)
         | (Inr (us, token, limited), l) \<Rightarrow>
             (Inr (if us = [] then [POSITION last_token token]
                   else map (\<lambda>(t, r). RDATA t r) (none_tokens us) @
                     (if fst (last us) < token then [POSITION (fst (last us)) token] else [])), l)))"

section \<open>The follower\<close>

text \<open>\<open>_batch_updates\<close> of the receiving side.\<close>

fun batch_from :: "int \<Rightarrow> 'r list \<Rightarrow> (int \<times> 'r) list \<Rightarrow> (int \<times> 'r list) list" where
  "batch_from t rs [] = [(t, rs)]"
| "batch_from t rs ((t', r) # us) = (if t' \<noteq> t then (t, rs) # batch_from t' [r] us else batch_from t (rs @ [r]) us)"

definition batch_updates :: "(int \<times> 'r) list \<Rightarrow> (int \<times> 'r list) list" where
  "batch_updates us = (case us of [] \<Rightarrow> [] | (t, r) # us' \<Rightarrow> batch_from t [r] us')"

text \<open>
  The follower: whether the stream is connected, rows that wait for their token, the current token and
  whether updates are missing while a \<open>POSITION\<close> is handled, and the handler of the rows.
\<close>

record ('f, 'r) receiver =
  stream_connected :: bool
  pending_batch :: "'r list"
  catching_up :: "(int \<times> bool) option"
  handler_of :: 'f

definition process_rdata ::
  "(int \<Rightarrow> 'r list \<Rightarrow> 'f \<Rightarrow> 'f) \<Rightarrow> ('f \<Rightarrow> int) \<Rightarrow> int option \<Rightarrow> 'r \<Rightarrow> ('f, 'r) receiver \<Rightarrow> ('f, 'r) receiver" where
  "process_rdata on_rdata current_token token row rc =
     (if \<not> stream_connected rc then rc
      else (case token of
              None \<Rightarrow> rc\<lparr>pending_batch := pending_batch rc @ [row]\<rparr>
            | Some t \<Rightarrow>
                (let rows = pending_batch rc @ [row]; rc1 = rc\<lparr>pending_batch := []\<rparr>
                 in if t \<le> current_token (handler_of rc1) then rc1 else rc1\<lparr>handler_of := on_rdata t rows (handler_of rc1)\<rparr>)))"

text \<open>\<open>_process_position\<close>, in three parts: the loop asks the writer, who may have moved on meanwhile.\<close>

definition begin_position :: "('f \<Rightarrow> int) \<Rightarrow> int \<Rightarrow> int \<Rightarrow> ('f, 'r) receiver \<Rightarrow> ('f, 'r) receiver" where
  "begin_position current_token prev_token new_token rc =
     (let current = current_token (handler_of rc)
      in rc\<lparr>stream_connected := False, pending_batch := [], catching_up := Some (current, \<not> (prev_token \<le> current \<and> current \<le> new_token))\<rparr>)"

definition fetch_missing ::
  "(int \<Rightarrow> 'r list \<Rightarrow> 'f \<Rightarrow> 'f) \<Rightarrow> (int \<Rightarrow> int \<Rightarrow> int \<Rightarrow> 'r updates result) \<Rightarrow> int \<Rightarrow> int \<Rightarrow> ('f, 'r) receiver \<Rightarrow> ('f, 'r) receiver result" where
  "fetch_missing on_rdata update_function new_token current rc =
     bindR (get_updates_since update_function current new_token) (\<lambda>(us, token, limited).
       Inr (rc\<lparr>handler_of := foldl (\<lambda>f (t, rows). on_rdata t rows f) (handler_of rc) (batch_updates us), catching_up := Some (token, limited)\<rparr>))"

definition end_position :: "(int \<Rightarrow> 'r list \<Rightarrow> 'f \<Rightarrow> 'f) \<Rightarrow> int \<Rightarrow> ('f, 'r) receiver \<Rightarrow> ('f, 'r) receiver" where
  "end_position on_rdata new_token rc = rc\<lparr>handler_of := on_rdata new_token [] (handler_of rc), stream_connected := True, catching_up := None\<rparr>"

section \<open>The two processes and the commands between them\<close>

text \<open>\<open>forgotten\<close> has what the follower has dropped by itself.\<close>

record ('w, 'f, 'r, 'k) link =
  ln_writer :: 'w
  last_token :: int
  channel :: "'r command list"
  receiver_of :: "('f, 'r) receiver"
  forgotten :: "'k set"

definition new_link :: "'w \<Rightarrow> int \<Rightarrow> 'f \<Rightarrow> ('w, 'f, 'r, 'k) link" where
  "new_link w current f = \<lparr>ln_writer = w, last_token = current, channel = [],
     receiver_of = \<lparr>stream_connected = False, pending_batch = [], catching_up = None, handler_of = f\<rparr>, forgotten = {}\<rparr>"

definition link_send :: "('w \<Rightarrow> int \<Rightarrow> int \<Rightarrow> int \<Rightarrow> 'r updates result) \<Rightarrow> ('w \<Rightarrow> int) \<Rightarrow> ('w, 'f, 'r, 'k) link \<Rightarrow> ('w, 'f, 'r, 'k) link" where
  "link_send update_function current_token L =
     (case send_updates (update_function (ln_writer L)) (current_token (ln_writer L)) (last_token L) of
        (Inl e, l) \<Rightarrow> L\<lparr>last_token := l\<rparr>
      | (Inr cs, l) \<Rightarrow> L\<lparr>last_token := l, channel := channel L @ cs\<rparr>)"

definition link_announce :: "('w, 'f, 'r, 'k) link \<Rightarrow> ('w, 'f, 'r, 'k) link" where
  "link_announce L = L\<lparr>channel := channel L @ [POSITION (last_token L) (last_token L)]\<rparr>"

text \<open>The connection is lost, and with nobody connected the stream moves on without sending.\<close>

definition link_drop :: "('w, 'f, 'r, 'k) link \<Rightarrow> ('w, 'f, 'r, 'k) link" where
  "link_drop L = L\<lparr>channel := [], receiver_of := (receiver_of L)\<lparr>stream_connected := False\<rparr>\<rparr>"

definition discard_updates_and_advance :: "('w \<Rightarrow> int) \<Rightarrow> ('w, 'f, 'r, 'k) link \<Rightarrow> ('w, 'f, 'r, 'k) link" where
  "discard_updates_and_advance current_token L = L\<lparr>last_token := current_token (ln_writer L)\<rparr>"

definition link_deliver :: "(int \<Rightarrow> 'r list \<Rightarrow> 'f \<Rightarrow> 'f) \<Rightarrow> ('f \<Rightarrow> int) \<Rightarrow> ('w, 'f, 'r, 'k) link \<Rightarrow> ('w, 'f, 'r, 'k) link" where
  "link_deliver on_rdata current_token L =
     (case channel L of
        [] \<Rightarrow> L
      | RDATA t r # cs \<Rightarrow> L\<lparr>channel := cs, receiver_of := process_rdata on_rdata current_token t r (receiver_of L)\<rparr>
      | POSITION p n # cs \<Rightarrow>
          if catching_up (receiver_of L) = None then L\<lparr>receiver_of := begin_position current_token p n (receiver_of L)\<rparr> else L)"

text \<open>One turn of the loop; an exception ends the handling of the command.\<close>

definition link_catch_up ::
  "(int \<Rightarrow> 'r list \<Rightarrow> 'f \<Rightarrow> 'f) \<Rightarrow> ('w \<Rightarrow> int \<Rightarrow> int \<Rightarrow> int \<Rightarrow> 'r updates result) \<Rightarrow> ('w, 'f, 'r, 'k) link \<Rightarrow> ('w, 'f, 'r, 'k) link" where
  "link_catch_up on_rdata update_function L =
     (case (channel L, catching_up (receiver_of L)) of
        (POSITION p n # cs, Some (current, missing)) \<Rightarrow>
          if missing then
            (case fetch_missing on_rdata (update_function (ln_writer L)) n current (receiver_of L) of
               Inl e \<Rightarrow> L\<lparr>channel := cs, receiver_of := (receiver_of L)\<lparr>catching_up := None\<rparr>\<rparr>
             | Inr rc \<Rightarrow> L\<lparr>receiver_of := rc\<rparr>)
          else L\<lparr>channel := cs, receiver_of := end_position on_rdata n (receiver_of L)\<rparr>
      | _ \<Rightarrow> L)"

end
