(* ===== verification/Replication_Props.thy ===== *)
theory Replication_Props
  imports Replication
begin

text \<open>
  A stream of the current values of keys, where each change of a key has a position of its own.  The
  locale states what the writer and the follower of such a stream promise; from that the follower
  agrees with the writer on everything up to its position, whatever is lost and however the two
  interleave.
\<close>

section \<open>Rows with different tokens\<close>

lemma none_tokens_strict: "sorted_wrt (<) (map fst us) \<Longrightarrow> none_tokens us = map (\<lambda>(t, r). (Some t, r)) us"
  by (induction us rule: none_tokens.induct) auto

lemma batch_from_strict: "sorted_wrt (<) (t # map fst us) \<Longrightarrow> batch_from t rs us = (t, rs) # map (\<lambda>(t, r). (t, [r])) us"
  by (induction us arbitrary: t rs) auto

lemma batch_updates_strict: "sorted_wrt (<) (map fst us) \<Longrightarrow> batch_updates us = map (\<lambda>(t, r). (t, [r])) us"
  by (auto simp: batch_updates_def batch_from_strict split: list.split)

lemma strict_last: "sorted_wrt (<) (map fst us) \<Longrightarrow> (t, r) \<in> set us \<Longrightarrow> (t :: int) \<le> fst (last us)"
  by (induction us) (use last_in_set in \<open>force simp: less_imp_le\<close>)+

section \<open>Commands\<close>

fun command_pos :: "'r command \<Rightarrow> int" where
  "command_pos (RDATA t r) = (case t of None \<Rightarrow> 0 | Some t \<Rightarrow> t)"
| "command_pos (POSITION p n) = n"

fun command_ok :: "'r command \<Rightarrow> bool" where
  "command_ok (RDATA t r) \<longleftrightarrow> t \<noteq> None"
| "command_ok (POSITION p n) \<longleftrightarrow> p \<le> n"

definition before :: "'r command \<Rightarrow> 'r command \<Rightarrow> bool" where
  "before a b \<longleftrightarrow> command_pos a < command_pos b \<or> (command_pos a = command_pos b \<and> (\<exists>p n. b = POSITION p n))"

definition commands_of :: "int \<Rightarrow> 'r updates \<Rightarrow> 'r command list" where
  "commands_of l u = (case u of (us, tok, limited) \<Rightarrow>
     if us = [] then [POSITION l tok]
     else map (\<lambda>(t, r). RDATA (Some t) r) us @ (if fst (last us) < tok then [POSITION (fst (last us)) tok] else []))"

lemma send_updates_strict:
  assumes "l < current" "f l current STREAM_UPDATE_TARGET_ROW_COUNT = Inr (us, tok, limited)" "sorted_wrt (<) (map fst us)"
  shows "send_updates f current l = (Inr (commands_of l (us, tok, limited)), tok)"
  using assms by (auto simp: send_updates_def get_updates_def get_updates_since_def none_tokens_strict commands_of_def)

lemma sorted_commands:
  assumes "sorted_wrt (<) (map fst us)"
  shows "sorted_wrt before (map (\<lambda>(t, r). RDATA (Some t) r) us @ (if fst (last us) < tok then [POSITION p tok] else []))"
proof -
  have "sorted_wrt before (map (\<lambda>(t, r). RDATA (Some t) r) us)" using assms
    by (induction us) (auto simp: before_def)
  then show ?thesis using strict_last [OF assms] by (fastforce simp: sorted_wrt_append before_def)
qed

section \<open>The contract\<close>

locale keyed_stream =
  fixes writer_ok :: "'w \<Rightarrow> bool" and moves :: "'w \<Rightarrow> 'w \<Rightarrow> bool" and position :: "'w \<Rightarrow> int"
    and entry :: "'w \<Rightarrow> 'k \<Rightarrow> (int \<times> 'v) option" and update_function :: "'w \<Rightarrow> int \<Rightarrow> int \<Rightarrow> int \<Rightarrow> 'r updates result"
    and key_of :: "'r \<Rightarrow> 'k" and val_of :: "'r \<Rightarrow> 'v"
    and current :: "'f \<Rightarrow> int" and view :: "'f \<Rightarrow> 'k \<Rightarrow> 'v option" and on_rdata :: "'e \<Rightarrow> int \<Rightarrow> 'r list \<Rightarrow> 'f \<Rightarrow> 'f"
  assumes entry_pos: "writer_ok w \<Longrightarrow> entry w k = Some (s, v) \<Longrightarrow> s \<le> position w"
    and moved: "writer_ok w \<Longrightarrow> moves w w' \<Longrightarrow> writer_ok w' \<and> position w \<le> position w' \<and>
      (entry w' k = Some (s, v) \<longrightarrow> entry w k = Some (s, v) \<or> position w < s)"
    and updates: "writer_ok w \<Longrightarrow> a < b \<Longrightarrow> b \<le> position w \<Longrightarrow> update_function w a b STREAM_UPDATE_TARGET_ROW_COUNT = Inr (us, tok, limited) \<Longrightarrow>
      sorted_wrt (<) (map fst us) \<and> tok \<le> b \<and> (if limited then us \<noteq> [] \<and> tok = fst (last us) else tok = b) \<and>
      (\<forall>(s, r) \<in> set us. a < s \<and> s \<le> tok \<and> entry w (key_of r) = Some (s, val_of r)) \<and>
      (\<forall>k s v. entry w k = Some (s, v) \<longrightarrow> a < s \<longrightarrow> s \<le> tok \<longrightarrow> (\<exists>r. (s, r) \<in> set us \<and> key_of r = k))"
    and applied: "current f \<le> t \<Longrightarrow> current (on_rdata e t rows f) = t \<and>
      view (on_rdata e t rows f) = foldl (\<lambda>m r. m(key_of r \<mapsto> val_of r)) (view f) rows"
begin

definition agrees :: "'w \<Rightarrow> 'k set \<Rightarrow> 'f \<Rightarrow> bool" where
  "agrees w gone f \<longleftrightarrow> (\<forall>k s v. entry w k = Some (s, v) \<longrightarrow> s \<le> current f \<longrightarrow> view f k = Some v \<or> (view f k = None \<and> k \<in> gone))"

text \<open>Every entry after \<open>a\<close> and up to \<open>b\<close> is on its way.\<close>

definition sent :: "'w \<Rightarrow> 'r command list \<Rightarrow> int \<Rightarrow> int \<Rightarrow> bool" where
  "sent w cs a b \<longleftrightarrow> (\<forall>k s v. entry w k = Some (s, v) \<longrightarrow> a < s \<longrightarrow> s \<le> b \<longrightarrow> (\<exists>r. RDATA (Some s) r \<in> set cs \<and> key_of r = k))"

definition truthful :: "'w \<Rightarrow> 'r command \<Rightarrow> bool" where
  "truthful w c \<longleftrightarrow>
     (case c of
        RDATA t r \<Rightarrow> (\<forall>s v. entry w (key_of r) = Some (s, v) \<longrightarrow> command_pos c \<le> s \<and> (command_pos c = s \<longrightarrow> v = val_of r))
      | POSITION p n \<Rightarrow> (\<forall>k s v. entry w k = Some (s, v) \<longrightarrow> \<not> (p < s \<and> s \<le> n)))"

definition channel_ok :: "'w \<Rightarrow> int \<Rightarrow> int \<Rightarrow> 'r command list \<Rightarrow> bool" where
  "channel_ok w a l cs \<longleftrightarrow> sorted_wrt before cs \<and>
     (\<forall>c \<in> set cs. command_ok c \<and> a \<le> command_pos c \<and> command_pos c \<le> l \<and> truthful w c) \<and>
     (\<forall>p n. POSITION p n \<in> set cs \<longrightarrow> sent w cs n l)"

definition settled :: "'w \<Rightarrow> int \<Rightarrow> int \<Rightarrow> bool" where
  "settled w a b \<longleftrightarrow> (\<forall>k s v. entry w k = Some (s, v) \<longrightarrow> \<not> (a < s \<and> s \<le> b))"

definition catching_ok :: "'w \<Rightarrow> 'r command list \<Rightarrow> int \<Rightarrow> bool \<Rightarrow> (int \<times> bool) option \<Rightarrow> bool" where
  "catching_ok w cs a con up \<longleftrightarrow> (case up of None \<Rightarrow> True | Some (b, missing) \<Rightarrow>
     (\<exists>p n rest. cs = POSITION p n # rest \<and> a \<le> b \<and> b \<le> n \<and> \<not> con \<and> (if missing then b = a else settled w a n)))"

definition parts_ok :: "'w \<Rightarrow> int \<Rightarrow> 'r command list \<Rightarrow> 'k set \<Rightarrow> ('f, 'r) receiver \<Rightarrow> bool" where
  "parts_ok w l cs gone rc \<longleftrightarrow> writer_ok w \<and> current (handler_of rc) \<le> l \<and> l \<le> position w \<and> agrees w gone (handler_of rc) \<and>
     channel_ok w (current (handler_of rc)) l cs \<and> pending_batch rc = [] \<and>
     (stream_connected rc \<longrightarrow> sent w cs (current (handler_of rc)) l) \<and>
     catching_ok w cs (current (handler_of rc)) (stream_connected rc) (catching_up rc)"

definition link_ok :: "('w, 'f, 'r, 'k) link \<Rightarrow> bool" where
  "link_ok L \<longleftrightarrow> parts_ok (ln_writer L) (last_token L) (channel L) (forgotten L) (receiver_of L)"

section \<open>Parts of the invariant\<close>

lemma sent_tail: "sent w (c # cs) a l \<Longrightarrow> command_pos c \<le> a \<Longrightarrow> sent w cs a l"
  unfolding sent_def by fastforce

lemma before_pos: "before c d \<Longrightarrow> command_pos c \<le> command_pos d"
  by (auto simp: before_def)

lemma channel_tail:
  assumes "channel_ok w a l (c # cs)" "a' \<le> command_pos c"
  shows "channel_ok w a' l cs"
proof -
  have after: "d \<in> set cs \<Longrightarrow> command_pos c \<le> command_pos d" for d using assms(1) before_pos by (auto simp: channel_ok_def)
  have "sent w cs n l" if "POSITION p n \<in> set cs" for p n
    using sent_tail [of w c cs n l] after [OF that] assms(1) that by (auto simp: channel_ok_def)
  with assms after show ?thesis by (fastforce simp: channel_ok_def)
qed

lemma sent_later: "sent w cs a l \<Longrightarrow> a \<le> b \<Longrightarrow> sent w cs b l"
  unfolding sent_def by (meson le_less_trans)

lemma sent_more: "sent w cs a l \<Longrightarrow> sent w (cs @ ds) a l"
  unfolding sent_def by fastforce

lemma kept_entry: "writer_ok w \<Longrightarrow> moves w w' \<Longrightarrow> entry w' k = Some (s, v) \<Longrightarrow> s \<le> position w \<Longrightarrow> entry w k = Some (s, v)"
  using moved [of w w' k s v] by auto

lemma truthful_moved:
  assumes "writer_ok w" "moves w w'" "truthful w c" "command_pos c \<le> position w"
  shows "truthful w' c"
proof (cases c)
  case (RDATA t r)
  have "command_pos c \<le> s \<and> (command_pos c = s \<longrightarrow> v = val_of r)" if "entry w' (key_of r) = Some (s, v)" for s v
    using moved [OF assms(1,2), of "key_of r" s v] that assms(3,4) by (auto simp: truthful_def RDATA simp del: command_pos.simps)
  then show ?thesis by (simp add: truthful_def RDATA)
next
  case (POSITION p n)
  then show ?thesis using kept_entry [OF assms(1,2)] assms(3,4) by (fastforce simp: truthful_def)
qed

lemma parts_moved:
  assumes "parts_ok w l cs gone rc" "moves w w'"
  shows "parts_ok w' l cs gone rc"
proof -
  let ?a = "current (handler_of rc)"
  have L: "writer_ok w" "?a \<le> l" "l \<le> position w" "agrees w gone (handler_of rc)" "channel_ok w ?a l cs"
    "catching_ok w cs ?a (stream_connected rc) (catching_up rc)"
    using assms(1) by (simp_all add: parts_ok_def)
  have kept: "entry w' k = Some (s, v) \<Longrightarrow> s \<le> l \<Longrightarrow> entry w k = Some (s, v)" for k s v
    using kept_entry [OF L(1) assms(2)] L(3) by simp
  have sent': "sent w ds b l \<Longrightarrow> sent w' ds b l" for ds b unfolding sent_def using kept by blast
  have pos: "c \<in> set cs \<Longrightarrow> command_pos c \<le> l" for c using L(5) by (simp add: channel_ok_def)
  have "truthful w' c" if "c \<in> set cs" for c
    by (rule truthful_moved [OF L(1) assms(2)]) (use that L(3,5) pos [OF that] in \<open>auto simp: channel_ok_def\<close>)
  then have ch: "channel_ok w' ?a l cs" using L(5) sent' unfolding channel_ok_def by blast
  have ag: "agrees w' gone (handler_of rc)" unfolding agrees_def
  proof (intro allI impI)
    fix k s v
    assume "entry w' k = Some (s, v)" "s \<le> ?a"
    then show "view (handler_of rc) k = Some v \<or> view (handler_of rc) k = None \<and> k \<in> gone"
      using kept [of k s v] L(2,4) unfolding agrees_def by auto
  qed
  have "settled w b n \<Longrightarrow> n \<le> l \<Longrightarrow> settled w' b n" for b n
    unfolding settled_def using kept by (meson order_trans)
  then have "catching_ok w' cs ?a (stream_connected rc) (catching_up rc)" using L(6) pos
    by (fastforce simp: catching_ok_def split: option.splits)
  moreover have "writer_ok w'" "position w \<le> position w'" using moved [OF L(1) assms(2)] by auto
  ultimately show ?thesis using assms(1) ch ag sent' by (simp add: parts_ok_def)
qed

lemma link_moves: "link_ok L \<Longrightarrow> moves (ln_writer L) w' \<Longrightarrow> link_ok (L\<lparr>ln_writer := w'\<rparr>)"
  by (simp add: link_ok_def parts_moved)

lemma link_forgets:
  assumes "link_ok L" "current f' = current (handler_of (receiver_of L))" "\<And>k. view f' k \<in> {None, view (handler_of (receiver_of L)) k}"
  shows "link_ok (L\<lparr>receiver_of := (receiver_of L)\<lparr>handler_of := f'\<rparr>, forgotten := forgotten L \<union> {k. view f' k \<noteq> view (handler_of (receiver_of L)) k}\<rparr>)"
proof -
  have "agrees w gone (handler_of (receiver_of L)) \<Longrightarrow> agrees w (gone \<union> {k. view f' k \<noteq> view (handler_of (receiver_of L)) k}) f'" for w gone
    using assms(2,3) unfolding agrees_def by (metis (mono_tags, lifting) UnCI empty_iff insertE mem_Collect_eq)
  then show ?thesis using assms(1,2) by (simp add: link_ok_def parts_ok_def)
qed

section \<open>Sending\<close>

lemma fresh_rows:
  assumes "writer_ok w" "l < position w" "update_function w l (position w) STREAM_UPDATE_TARGET_ROW_COUNT = Inr (us, tok, limited)"
  shows "l < tok" "tok \<le> position w" "sorted_wrt (<) (map fst us)"
    "sent w cs a l \<Longrightarrow> sent w (cs @ commands_of l (us, tok, limited)) a tok"
proof -
  note law = updates [OF assms(1,2) order_refl assms(3)]
  show "l < tok"
  proof (cases us)
    case (Cons x xs)
    then show ?thesis using law by fastforce
  qed (use law assms(2) in \<open>auto split: if_splits\<close>)
  show "tok \<le> position w" "sorted_wrt (<) (map fst us)" using law by simp_all
  assume old: "sent w cs a l"
  show "sent w (cs @ commands_of l (us, tok, limited)) a tok" unfolding sent_def
  proof (intro allI impI)
    fix k s v
    assume e: "entry w k = Some (s, v)" "a < s" "s \<le> tok"
    show "\<exists>r. RDATA (Some s) r \<in> set (cs @ commands_of l (us, tok, limited)) \<and> key_of r = k"
    proof (cases "s \<le> l")
      case True
      then show ?thesis using old e unfolding sent_def by auto
    next
      case False
      with law e obtain r where "(s, r) \<in> set us" "key_of r = k" by force
      then show ?thesis by (auto simp: commands_of_def image_iff intro!: exI [of _ r])
    qed
  qed
qed

lemma fresh_commands:
  assumes "writer_ok w" "l < position w" "update_function w l (position w) STREAM_UPDATE_TARGET_ROW_COUNT = Inr (us, tok, limited)"
    and "c \<in> set (commands_of l (us, tok, limited))"
  shows "command_ok c \<and> l < command_pos c \<and> command_pos c \<le> tok \<and> truthful w c"
proof -
  note law = updates [OF assms(1,2) order_refl assms(3)] and lt = fresh_rows(1) [OF assms(1-3)]
  show ?thesis
  proof (cases "us = []")
    case True
    then have c: "c = POSITION l tok" using assms(4) by (simp add: commands_of_def)
    moreover have "truthful w c" using law True unfolding c truthful_def by fastforce
    ultimately show ?thesis using lt by simp
  next
    case False
    have l: "(t, r) \<in> set us \<Longrightarrow> t \<le> fst (last us)" for t r by (rule strict_last [OF fresh_rows(3) [OF assms(1-3)]])
    have last_in: "l < fst (last us)" using law last_in_set [OF False] by fastforce
    consider t r where "c = RDATA (Some t) r" "(t, r) \<in> set us" | "c = POSITION (fst (last us)) tok" "fst (last us) < tok"
      using assms(4) False by (auto simp: commands_of_def split: if_splits)
    then show ?thesis
    proof cases
      case (1 t r)
      then show ?thesis using law by (fastforce simp: truthful_def)
    next
      case 2
      have "truthful w c" unfolding 2(1) truthful_def using law l last_in by fastforce
      then show ?thesis using 2 lt last_in by simp
    qed
  qed
qed

lemma parts_sent:
  assumes "parts_ok w l cs gone rc" "l < position w" "update_function w l (position w) STREAM_UPDATE_TARGET_ROW_COUNT = Inr (us, tok, limited)"
  shows "parts_ok w tok (cs @ commands_of l (us, tok, limited)) gone rc"
proof -
  let ?ds = "commands_of l (us, tok, limited)" and ?a = "current (handler_of rc)"
  have w: "writer_ok w" "?a \<le> l" "channel_ok w ?a l cs" using assms(1) by (simp_all add: parts_ok_def)
  note f = fresh_rows [OF w(1) assms(2,3)] and d = fresh_commands [OF w(1) assms(2,3)]
  have c: "command_pos c \<le> l" if "c \<in> set cs" for c using w(3) that by (simp add: channel_ok_def)
  have "sorted_wrt before ?ds" using sorted_commands [OF f(3), of tok "fst (last us)"] by (simp add: commands_of_def)
  then have "sorted_wrt before (cs @ ?ds)" using w(3) c d by (fastforce simp: sorted_wrt_append channel_ok_def before_def)
  moreover have "sent w (cs @ ?ds) n tok" if "POSITION p n \<in> set (cs @ ?ds)" for p n
  proof (cases "POSITION p n \<in> set cs")
    case True
    then show ?thesis using w(3) f(4) by (auto simp: channel_ok_def)
  next
    case False
    then have "n = tok" using that by (auto simp: commands_of_def split: if_splits)
    then show ?thesis by (simp add: sent_def)
  qed
  ultimately have "channel_ok w ?a tok (cs @ ?ds)" using w(2,3) c d f(1) unfolding channel_ok_def by fastforce
  then show ?thesis using assms(1) f by (fastforce simp: parts_ok_def catching_ok_def split: option.splits)
qed

lemma link_send_ok:
  assumes "link_ok L"
  shows "link_ok (link_send update_function position L)"
proof (cases "last_token L = position (ln_writer L)")
  case True
  then show ?thesis using assms by (simp add: link_send_def send_updates_def link_ok_def)
next
  case False
  let ?w = "ln_writer L" and ?l = "last_token L"
  have P: "parts_ok ?w ?l (channel L) (forgotten L) (receiver_of L)" using assms by (simp add: link_ok_def)
  have w: "writer_ok ?w" "?l < position ?w" using P False by (simp_all add: parts_ok_def)
  show ?thesis
  proof (cases "update_function ?w ?l (position ?w) STREAM_UPDATE_TARGET_ROW_COUNT")
    case (Inl e)
    then show ?thesis using assms w(2) by (simp add: link_send_def send_updates_def get_updates_def get_updates_since_def)
  next
    case (Inr u)
    obtain us tok limited where u: "u = (us, tok, limited)" by (cases u)
    note r = Inr [unfolded u]
    show ?thesis using send_updates_strict [where f = "update_function ?w", OF w(2) r fresh_rows(3) [OF w r]] parts_sent [OF P w(2) r]
      by (simp add: link_send_def link_ok_def)
  qed
qed

lemma link_announce_ok:
  assumes "link_ok L"
  shows "link_ok (link_announce L)"
proof -
  let ?w = "ln_writer L" and ?l = "last_token L" and ?a = "current (handler_of (receiver_of L))" and ?cs = "channel L"
  have P: "parts_ok ?w ?l ?cs (forgotten L) (receiver_of L)" using assms by (simp add: link_ok_def)
  then have ch: "channel_ok ?w ?a ?l ?cs" "?a \<le> ?l" by (simp_all add: parts_ok_def)
  have "truthful ?w (POSITION ?l ?l)" by (simp add: truthful_def)
  moreover have "sorted_wrt before (?cs @ [POSITION ?l ?l])" using ch(1) by (auto simp: sorted_wrt_append channel_ok_def before_def)
  moreover have "sent ?w (?cs @ [POSITION ?l ?l]) n ?l" if "POSITION p n \<in> set (?cs @ [POSITION ?l ?l])" for p n
    using that ch(1) sent_more by (auto simp: channel_ok_def sent_def)
  ultimately have "channel_ok ?w ?a ?l (?cs @ [POSITION ?l ?l])" using ch unfolding channel_ok_def by auto
  then have "parts_ok ?w ?l (?cs @ [POSITION ?l ?l]) (forgotten L) (receiver_of L)" using P sent_more
    by (fastforce simp: parts_ok_def catching_ok_def split: option.splits)
  then show ?thesis by (simp add: link_announce_def link_ok_def)
qed

lemma link_drop_ok: "link_ok L \<Longrightarrow> catching_up (receiver_of L) = None \<Longrightarrow> link_ok (link_drop L)"
  by (simp add: link_drop_def link_ok_def parts_ok_def channel_ok_def catching_ok_def)

lemma discard_ok:
  "link_ok L \<Longrightarrow> channel L = [] \<Longrightarrow> \<not> stream_connected (receiver_of L) \<Longrightarrow> link_ok (discard_updates_and_advance position L)"
  by (auto simp: discard_updates_and_advance_def link_ok_def parts_ok_def channel_ok_def catching_ok_def split: option.splits)

section \<open>Receiving\<close>

lemma parts_skip:
  assumes "parts_ok w l (RDATA (Some t) r # cs) gone rc" "\<not> stream_connected rc \<or> t \<le> current (handler_of rc)"
  shows "parts_ok w l cs gone rc"
proof -
  have ch: "channel_ok w (current (handler_of rc)) l (RDATA (Some t) r # cs)" using assms(1) by (simp add: parts_ok_def)
  then have "channel_ok w (current (handler_of rc)) l cs" by (rule channel_tail) (use ch in \<open>simp add: channel_ok_def\<close>)
  moreover have "stream_connected rc \<longrightarrow> sent w cs (current (handler_of rc)) l"
    using assms sent_tail [of w "RDATA (Some t) r" cs "current (handler_of rc)" l] by (auto simp: parts_ok_def)
  moreover have "catching_up rc = None" using assms(1) by (auto simp: parts_ok_def catching_ok_def split: option.splits)
  ultimately show ?thesis using assms(1) by (simp add: parts_ok_def catching_ok_def)
qed

lemma row_applied:
  assumes "parts_ok w l (RDATA (Some t) r # cs) gone rc" "stream_connected rc" "current (handler_of rc) < t"
  shows "parts_ok w l cs gone (rc\<lparr>handler_of := on_rdata e t [r] (handler_of rc)\<rparr>)"
proof -
  let ?f = "handler_of rc" and ?c = "RDATA (Some t) r"
  let ?f' = "on_rdata e t [r] ?f"
  have f': "current ?f' = t" "view ?f' = (view ?f)(key_of r \<mapsto> val_of r)" using applied [of ?f t e "[r]"] assms(3) by simp_all
  have P: "agrees w gone ?f" "channel_ok w (current ?f) l (?c # cs)" "sent w (?c # cs) (current ?f) l"
    using assms(1,2) by (simp_all add: parts_ok_def)
  have tr: "truthful w ?c" "t \<le> l" and later: "\<And>d. d \<in> set cs \<Longrightarrow> before ?c d" using P(2) by (auto simp: channel_ok_def)
  have "agrees w gone ?f'" unfolding agrees_def f'
  proof (intro allI impI)
    fix k s v
    assume e: "entry w k = Some (s, v)" "s \<le> t"
    show "((view ?f)(key_of r \<mapsto> val_of r)) k = Some v \<or> ((view ?f)(key_of r \<mapsto> val_of r)) k = None \<and> k \<in> gone"
    proof (cases "s \<le> current ?f")
      case True
      then have "k \<noteq> key_of r" using tr(1) e assms(3) by (fastforce simp: truthful_def)
      then show ?thesis using P(1) e True by (simp add: agrees_def)
    next
      case False
      with P(3) e tr(2) obtain r' where r': "RDATA (Some s) r' \<in> set (?c # cs)" "key_of r' = k" unfolding sent_def by force
      have "RDATA (Some s) r' \<notin> set cs" using later [of "RDATA (Some s) r'"] e(2) by (auto simp: before_def)
      with r' have "s = t" "r' = r" by simp_all
      then show ?thesis using tr(1) e(1) r'(2) by (simp add: truthful_def)
    qed
  qed
  moreover have "channel_ok w t l cs" by (rule channel_tail [OF P(2)]) simp
  moreover have "sent w cs t l" by (rule sent_tail [OF sent_later [OF P(3)]]) (use assms(3) in simp_all)
  moreover have "catching_up rc = None" using assms(1) by (auto simp: parts_ok_def catching_ok_def split: option.splits)
  ultimately show ?thesis using assms(1) f'(1) tr(2) by (simp add: parts_ok_def catching_ok_def)
qed

lemma position_begun:
  assumes "parts_ok w l (POSITION p n # cs) gone rc"
  shows "parts_ok w l (POSITION p n # cs) gone (begin_position current p n rc)"
proof -
  let ?a = "current (handler_of rc)"
  have "?a \<le> n" "truthful w (POSITION p n)" using assms by (simp_all add: parts_ok_def channel_ok_def)
  moreover have "p \<le> ?a \<Longrightarrow> settled w ?a n" using calculation(2) unfolding truthful_def settled_def by fastforce
  ultimately show ?thesis using assms by (auto simp: parts_ok_def begin_position_def Let_def catching_ok_def)
qed

lemma link_deliver_ok:
  assumes "link_ok L"
  shows "link_ok (link_deliver (on_rdata e) current L)"
proof (cases "channel L")
  case Nil
  then show ?thesis using assms by (simp add: link_deliver_def)
next
  case (Cons c cs)
  let ?rc = "receiver_of L"
  have P: "parts_ok (ln_writer L) (last_token L) (c # cs) (forgotten L) ?rc" using assms Cons by (simp add: link_ok_def)
  show ?thesis
  proof (cases c)
    case (RDATA t' r)
    then obtain t where c: "c = RDATA (Some t) r" using P by (auto simp: parts_ok_def channel_ok_def)
    have pb: "pending_batch ?rc = []" using P by (simp add: parts_ok_def)
    then have same: "?rc\<lparr>pending_batch := []\<rparr> = ?rc" by simp
    consider "\<not> stream_connected ?rc \<or> t \<le> current (handler_of ?rc)" | "stream_connected ?rc" "current (handler_of ?rc) < t" by fastforce
    then show ?thesis
    proof cases
      case 1
      then have "process_rdata (on_rdata e) current (Some t) r ?rc = ?rc" using same by (auto simp: process_rdata_def Let_def)
      with parts_skip [OF P [unfolded c] 1] show ?thesis by (simp add: link_deliver_def Cons c link_ok_def)
    next
      case 2
      then have "process_rdata (on_rdata e) current (Some t) r ?rc = ?rc\<lparr>handler_of := on_rdata e t [r] (handler_of ?rc)\<rparr>"
        using same pb by (simp add: process_rdata_def Let_def)
      with row_applied [OF P [unfolded c] 2, of e] show ?thesis by (simp add: link_deliver_def Cons c link_ok_def)
    qed
  next
    case (POSITION p n)
    with position_begun [of "ln_writer L" "last_token L" p n cs] P assms Cons show ?thesis by (simp add: link_deliver_def link_ok_def)
  qed
qed

section \<open>Catching up\<close>

lemma rows_view:
  "foldl (\<lambda>m (t, r). m(key_of r \<mapsto> val_of r)) m us k =
     (case find (\<lambda>(t, r). key_of r = k) (rev us) of None \<Rightarrow> m k | Some (t, r) \<Rightarrow> Some (val_of r))"
  by (induction us rule: rev_induct) (auto split: option.split)

lemma rows_applied:
  assumes "sorted_wrt (<) (current f # map fst us)"
  shows "current (foldl (\<lambda>f (t, rows). on_rdata e t rows f) f (map (\<lambda>(t, r). (t, [r])) us)) = (if us = [] then current f else fst (last us)) \<and>
    view (foldl (\<lambda>f (t, rows). on_rdata e t rows f) f (map (\<lambda>(t, r). (t, [r])) us)) = foldl (\<lambda>m (t, r). m(key_of r \<mapsto> val_of r)) (view f) us"
  using assms
proof (induction us arbitrary: f)
  case (Cons x us)
  obtain t r where x: "x = (t, r)" by force
  have "current (on_rdata e t [r] f) = t" "view (on_rdata e t [r] f) = (view f)(key_of r \<mapsto> val_of r)"
    using applied [of f t e "[r]"] Cons.prems x by simp_all
  then show ?case using Cons.IH [of "on_rdata e t [r] f"] Cons.prems x by auto
qed simp

lemma rows_agree:
  fixes e :: 'e and f :: 'f and us :: "(int \<times> 'r) list"
  assumes "writer_ok w" "current f < n" "n \<le> position w" "agrees w gone f"
    and "update_function w (current f) n STREAM_UPDATE_TARGET_ROW_COUNT = Inr (us, tok, limited)"
  defines "f' \<equiv> foldl (\<lambda>f (t, rows). on_rdata e t rows f) f (batch_updates us)"
  shows "current f' \<le> tok \<and> tok \<le> n \<and> agrees w gone f' \<and> (if limited then tok = current f' else tok = n \<and> settled w (current f') n)"
proof -
  note law = updates [OF assms(1-3,5)]
  have strict: "sorted_wrt (<) (current f # map fst us)" using law by fastforce
  then have b: "batch_updates us = map (\<lambda>(t, r). (t, [r])) us" by (simp add: batch_updates_strict)
  have f': "current f' = (if us = [] then current f else fst (last us))" "view f' = foldl (\<lambda>m (t, r). m(key_of r \<mapsto> val_of r)) (view f) us"
    using rows_applied [OF strict, of e] by (simp_all add: f'_def b)
  have upto: "(t, r) \<in> set us \<Longrightarrow> t \<le> current f'" for t r using strict_last [of us t r] strict by (auto simp: f'(1))
  have last_row: "us \<noteq> [] \<Longrightarrow> current f < fst (last us) \<and> fst (last us) \<le> tok" using law last_in_set [of us] by fastforce
  have le: "current f \<le> current f'" "current f' \<le> tok" "tok \<le> n" using last_row law assms(2) by (auto simp: f'(1) split: if_splits)
  have 1: "limited \<Longrightarrow> tok = current f'" using law by (simp add: f'(1))
  have found: "entry w k = Some (s, v) \<Longrightarrow> current f < s \<Longrightarrow> s \<le> tok \<Longrightarrow> \<exists>r. (s, r) \<in> set us \<and> key_of r = k" for k s v using law by blast
  have 2: "tok = n \<and> settled w (current f') n" if "\<not> limited"
    using that law found upto le(1) unfolding settled_def by (metis le_less_trans not_less)
  have "agrees w gone f'" unfolding agrees_def
  proof (intro allI impI)
    fix k s v
    assume e: "entry w k = Some (s, v)" "s \<le> current f'"
    let ?hit = "find (\<lambda>(t, r). key_of r = k) (rev us)"
    have row: "t = s \<and> val_of r = v" if "(t, r) \<in> set us" "key_of r = k" for t r using law that e(1) by fastforce
    show "view f' k = Some v \<or> view f' k = None \<and> k \<in> gone"
    proof (cases "s \<le> current f")
      case True
      have "?hit = None" using law row True by (fastforce simp: find_None_iff)
      then show ?thesis using assms(4) e(1) True by (simp add: f'(2) rows_view agrees_def)
    next
      case False
      then obtain r where r: "(s, r) \<in> set us" "key_of r = k" using found [OF e(1)] e(2) le(2) by fastforce
      then have "?hit \<noteq> None" unfolding find_None_iff by auto
      then obtain t r' where "?hit = Some (t, r')" "(t, r') \<in> set us" "key_of r' = k" using find_SomeD by fastforce
      then show ?thesis using row [of t r'] by (simp add: f'(2) rows_view)
    qed
  qed
  with le 1 2 show ?thesis by simp
qed

lemma parts_fetched:
  assumes "parts_ok w l (POSITION p n # cs) gone rc" "catching_up rc = Some (a, True)"
    "fetch_missing (on_rdata e) (update_function w) n a rc = Inr rc'"
  shows "parts_ok w l (POSITION p n # cs) gone rc'"
proof -
  let ?f = "handler_of rc"
  have P: "writer_ok w" "l \<le> position w" "agrees w gone ?f" "channel_ok w (current ?f) l (POSITION p n # cs)" "a = current ?f" "a \<le> n" "n \<le> l"
    "\<not> stream_connected rc"
    using assms(1,2) by (auto simp: parts_ok_def channel_ok_def catching_ok_def)
  show ?thesis
  proof (cases "a = n")
    case True
    then have "rc' = rc\<lparr>catching_up := Some (n, False)\<rparr>" using assms(3) by (auto simp: fetch_missing_def get_updates_since_def batch_updates_def)
    then show ?thesis using assms(1) P True by (simp add: parts_ok_def catching_ok_def settled_def)
  next
    case False
    obtain us tok limited where u: "update_function w a n STREAM_UPDATE_TARGET_ROW_COUNT = Inr (us, tok, limited)"
      and rc': "rc' = rc\<lparr>handler_of := foldl (\<lambda>f (t, rows). on_rdata e t rows f) ?f (batch_updates us), catching_up := Some (tok, limited)\<rparr>"
      using assms(3) False by (auto simp: fetch_missing_def get_updates_since_def bindR_Inr_iff split: prod.splits)
    have an: "current ?f < n" "n \<le> position w" using P False by simp_all
    note r = rows_agree [where e = e, OF P(1) an P(3) u [unfolded P(5)]]
    let ?f' = "foldl (\<lambda>f (t, rows). on_rdata e t rows f) ?f (batch_updates us)"
    have "n \<le> command_pos d" if "d \<in> set cs" for d using P(4) that before_pos [of "POSITION p n" d] by (auto simp: channel_ok_def)
    then have "channel_ok w (current ?f') l (POSITION p n # cs)" using P(4) r unfolding channel_ok_def by fastforce
    moreover have "catching_ok w (POSITION p n # cs) (current ?f') False (Some (tok, limited))" using r by (auto simp: catching_ok_def)
    ultimately show ?thesis using assms(1) P r by (simp add: parts_ok_def rc')
  qed
qed

lemma parts_caught_up:
  assumes "parts_ok w l (POSITION p n # cs) gone rc" "catching_up rc = Some (a, False)"
  shows "parts_ok w l cs gone (end_position (on_rdata e) n rc)"
proof -
  let ?f = "handler_of rc"
  have P: "agrees w gone ?f" "channel_ok w (current ?f) l (POSITION p n # cs)" "current ?f \<le> n" "n \<le> l" "settled w (current ?f) n"
    using assms by (auto simp: parts_ok_def channel_ok_def catching_ok_def)
  have f': "current (on_rdata e n [] ?f) = n" "view (on_rdata e n [] ?f) = view ?f" using applied [OF P(3), of e "[]"] by simp_all
  have "agrees w gone (on_rdata e n [] ?f)" using P(1,5) unfolding agrees_def settled_def f' by (meson not_less)
  moreover have "channel_ok w n l cs" by (rule channel_tail [OF P(2)]) simp
  moreover have "sent w cs n l" by (rule sent_tail [where c = "POSITION p n"]) (use P(2) in \<open>auto simp: channel_ok_def\<close>)
  ultimately show ?thesis using assms(1) P(4) f'(1) by (simp add: parts_ok_def end_position_def catching_ok_def)
qed

lemma link_catch_up_ok:
  assumes "link_ok L"
  shows "link_ok (link_catch_up (on_rdata e) update_function L)"
proof (cases "catching_up (receiver_of L)")
  case None
  then show ?thesis using assms by (simp add: link_catch_up_def split: list.split command.split)
next
  case (Some up)
  obtain a missing where up: "up = (a, missing)" by force
  let ?rc = "receiver_of L"
  have "catching_ok (ln_writer L) (channel L) (current (handler_of ?rc)) (stream_connected ?rc) (Some (a, missing))"
    using assms Some up by (simp add: link_ok_def parts_ok_def)
  then obtain p n cs where ch: "channel L = POSITION p n # cs" "\<not> stream_connected ?rc" by (auto simp: catching_ok_def)
  have P: "parts_ok (ln_writer L) (last_token L) (POSITION p n # cs) (forgotten L) ?rc" using assms ch(1) by (simp add: link_ok_def)
  show ?thesis
  proof (cases missing)
    case False
    with parts_caught_up [OF P, of a e] Some up ch show ?thesis by (simp add: link_catch_up_def link_ok_def)
  next
    case True
    show ?thesis
    proof (cases "fetch_missing (on_rdata e) (update_function (ln_writer L)) n a ?rc")
      case (Inl err)
      have "channel_ok (ln_writer L) (current (handler_of ?rc)) (last_token L) cs"
        by (rule channel_tail [where c = "POSITION p n" and a = "current (handler_of ?rc)"]) (use P in \<open>auto simp: parts_ok_def channel_ok_def\<close>)
      then show ?thesis using Inl True Some up ch P by (simp add: link_catch_up_def link_ok_def parts_ok_def catching_ok_def)
    next
      case (Inr rc')
      with parts_fetched [OF P, of a e rc'] True Some up ch show ?thesis by (simp add: link_catch_up_def link_ok_def)
    qed
  qed
qed

lemma new_link_ok:
  assumes "writer_ok w" "current f \<le> position w" "\<And>k. entry w k = None"
  shows "link_ok (new_link w (position w) f)"
  using assms by (simp add: new_link_def link_ok_def parts_ok_def channel_ok_def catching_ok_def agrees_def)

text \<open>The follower agrees with the writer up to its position.\<close>

lemma link_agrees:
  "link_ok L \<Longrightarrow> entry (ln_writer L) k = Some (s, v) \<Longrightarrow> s \<le> current (handler_of (receiver_of L)) \<Longrightarrow>
     view (handler_of (receiver_of L)) k = Some v \<or> (view (handler_of (receiver_of L)) k = None \<and> k \<in> forgotten L)"
  by (simp add: link_ok_def parts_ok_def agrees_def)

text \<open>With a connected stream and nothing on its way, the follower is as far as what was sent.\<close>

lemma link_quiet:
  "link_ok L \<Longrightarrow> stream_connected (receiver_of L) \<Longrightarrow> channel L = [] \<Longrightarrow> entry (ln_writer L) k = Some (s, v) \<Longrightarrow> s \<le> last_token L \<Longrightarrow>
     s \<le> current (handler_of (receiver_of L))"
  unfolding link_ok_def parts_ok_def sent_def by fastforce

end

end
