(* ===== verification/Typing_Replication.thy ===== *)
theory Typing_Replication
  imports Typing_Props Replication_Props "HOL-Library.Multiset"
begin

text \<open>
  Typing notifications reach the other processes: the writer and the follower of the stream keep the
  contract of a stream of current values, so that the follower shows who is typing as the writer has it.
\<close>

section \<open>The writer\<close>

text \<open>The serials, the rooms that were notified, and the change cache belong together.\<close>

definition typing_ok :: "'d sorted_dict \<Rightarrow> 'd typing_writer \<Rightarrow> bool" where
  "typing_ok ops h \<longleftrightarrow> sorted_dict_ok ops \<and> cache_inv ops (change_cache_of h) \<and>
     tracks ((\<lambda>(s, r). (r, s)) ` set (notified h)) (change_cache_of h) \<and>
     (\<forall>r s. map_of (room_serials h) r = Some s \<longrightarrow> (s, r) \<in> set (notified h)) \<and>
     (\<forall>s r. (s, r) \<in> set (notified h) \<longrightarrow> s \<le> latest_room_serial h) \<and> distinct (map fst (notified h)) \<and>
     (\<forall>r s. map_of (room_serials h) r = Some s \<longrightarrow> map_of (room_typing h) r \<noteq> None) \<and> distinct (map fst (room_serials h))"

definition typing_entry :: "'d typing_writer \<Rightarrow> string \<Rightarrow> (int \<times> string set) option" where
  "typing_entry h room = map_option (\<lambda>s. (s, set (typing_in h room))) (map_of (room_serials h) room)"

text \<open>What may have changed since an earlier state.\<close>

definition since :: "'d sorted_dict \<Rightarrow> 'd typing_writer \<Rightarrow> 'd typing_writer \<Rightarrow> bool" where
  "since ops h0 h \<longleftrightarrow> typing_ok ops h \<and> latest_room_serial h0 \<le> latest_room_serial h \<and>
     (\<forall>r e. typing_entry h r = Some e \<longrightarrow> typing_entry h0 r = Some e \<or> latest_room_serial h0 < fst e)"

lemma since_quiet [simp]:
  "since ops h0 (h\<lparr>last_federation_poke := p\<rparr>) = since ops h0 h" "since ops h0 (h\<lparr>th_wheel := w\<rparr>) = since ops h0 h"
  "since ops h0 (h\<lparr>edus := e\<rparr>) = since ops h0 h" "since ops h0 (h\<lparr>member_typing_until := u\<rparr>) = since ops h0 h"
  by (simp_all add: since_def typing_ok_def typing_entry_def typing_in_def)

lemma push_remote_leads [leads_rules]: "leads (since ops h0) (push_remote env now m b) (since ops h0)"
  unfolding leads_def
proof (intro allI impI)
  fix h
  assume "since ops h0 h"
  with push_remote_shape [of env now m b h] show "\<exists>r h'. push_remote env now m b h = Some (r, h') \<and> since ops h0 h'" by fastforce
qed

lemma insert_timer_leads [leads_rules]: "leads (since ops h0) (insert_timer now m t) (since ops h0)"
  by (auto simp: leads_def insert_timer_def split: sum.split)

lemma set_until_leads [leads_rules]: "leads (since ops h0) (set_typing_until m now t) (since ops h0)"
  unfolding set_typing_until_def by (intro leads_rules leads_modify) simp

lemma notified_serial:
  assumes "typing_ok ops h" "typing_entry h r = Some (s, v)"
  shows "s \<le> latest_room_serial h"
proof -
  have "map_of (room_serials h) r = Some s" using assms(2) by (auto simp: typing_entry_def)
  then show ?thesis using assms(1) unfolding typing_ok_def by blast
qed

lemma push_update_local_leads [leads_rules]: "leads (since ops h0) (push_update_local ops m b) (since ops h0)"
  unfolding leads_def
proof (intro allI impI)
  fix h
  assume h: "since ops h0 h"
  let ?s = "latest_room_serial h + 1" and ?r = "tm_room_id m" and ?R = "(\<lambda>(s, r). (r, s)) ` set (notified h)"
  have ok: "sorted_dict_ok ops" "cache_inv ops (change_cache_of h)" "tracks ?R (change_cache_of h)"
    "\<And>r s. map_of (room_serials h) r = Some s \<Longrightarrow> (s, r) \<in> set (notified h)"
    "\<And>s r. (s, r) \<in> set (notified h) \<Longrightarrow> s \<le> latest_room_serial h" "distinct (map fst (notified h))"
    "\<And>r s. map_of (room_serials h) r = Some s \<Longrightarrow> map_of (room_typing h) r \<noteq> None" "distinct (map fst (room_serials h))"
    using h unfolding since_def typing_ok_def by blast+
  from entity_has_changed_spec [OF ok(1-3), of ?r ?s] obtain c' where
    c': "entity_has_changed ops (change_cache_of h) ?r ?s = Some (Inr c')" "cache_inv ops c'" "tracks (insert (?r, ?s) ?R) c'" by blast
  define h' where "h' = (set_users b m h)\<lparr>latest_room_serial := ?s, room_serials := AList.update ?r ?s (room_serials h), change_cache_of := c',
    rooms_updated := List.insert ?r (rooms_updated h), notified := notified h @ [(?s, ?r)]\<rparr>"
  have run: "push_update_local ops m b h = Some (Inr (), h')" using c'(1) by (simp add: push_update_local_def set_users_def Let_def h'_def)
  have fields: "room_serials h' = AList.update ?r ?s (room_serials h)" "change_cache_of h' = c'" "notified h' = notified h @ [(?s, ?r)]"
    "latest_room_serial h' = ?s" "r \<noteq> ?r \<Longrightarrow> map_of (room_typing h') r = map_of (room_typing h) r" "map_of (room_typing h') ?r \<noteq> None" for r
    by (simp_all add: h'_def set_users_def Let_def)
  have fresh: "(?s, r) \<notin> set (notified h)" for r using ok(5) by fastforce
  have "typing_ok ops h'" unfolding typing_ok_def fields(1-4)
  proof (intro conjI allI impI)
    show "tracks ((\<lambda>(s, r). (r, s)) ` set (notified h @ [(?s, ?r)])) c'" using c'(3) by simp
    show "distinct (map fst (notified h @ [(?s, ?r)]))" using ok(6) fresh by auto
    show "map_of (AList.update ?r ?s (room_serials h)) r = Some s \<Longrightarrow> map_of (room_typing h') r \<noteq> None" for r s
      using ok(7) fields(5,6) by (cases "r = ?r") auto
    show "distinct (map fst (AList.update ?r ?s (room_serials h)))" using ok(8) by (rule distinct_update)
  qed (use ok c'(2) in \<open>auto split: if_splits dest: ok(5)\<close>)
  moreover have "typing_entry h' r = Some e \<Longrightarrow> typing_entry h r = Some e \<or> latest_room_serial h < fst e" for r e
    using fields(5) [of r] by (cases "r = ?r") (auto simp: typing_entry_def typing_in_def fields(1))
  ultimately have "since ops h0 h'" using h fields(4) unfolding since_def by fastforce
  with run show "\<exists>r h'. push_update_local ops m b h = Some (r, h') \<and> since ops h0 h'" by blast
qed

lemma push_update_leads [leads_rules]: "leads (since ops h0) (push_update ops env now m b) (since ops h0)"
  unfolding push_update_def by (intro leads_rules)

lemma stopped_leads [leads_rules]:
  fixes h0 :: "'d typing_writer"
  shows "leads (since ops h0) (member_stopped_typing ops env now m) (since ops h0)"
  unfolding leads_def
proof (intro allI impI)
  fix h :: "'d typing_writer"
  let ?h = "h\<lparr>member_typing_until := AList.delete m (member_typing_until h), last_federation_poke := AList.delete m (last_federation_poke h)\<rparr>"
  assume h: "since ops h0 h"
  then have "since ops h0 ?h" by simp
  with push_update_leads [of ops h0 env now m False] have "\<exists>r h'. push_update ops env now m False ?h = Some (r, h') \<and> since ops h0 h'"
    unfolding leads_def by blast
  then show "\<exists>r h'. member_stopped_typing ops env now m h = Some (r, h') \<and> since ops h0 h'"
    using h by (simp add: member_stopped_typing_def returnC_def)
qed

lemma timeout_leads [leads_rules]: "leads (since ops h0) (writer_timeout_for_member ops env now m) (since ops h0)"
  unfolding writer_timeout_for_member_def follower_timeout_for_member_def [abs_def] by (intro leads_rules)

lemma check_leads: "leads (since ops h0) (handle_typing_timeouts (writer_timeout_for_member ops env) now) (since ops h0)"
  unfolding leads_def
proof (intro allI impI)
  fix h
  assume h: "since ops h0 h"
  obtain due w where f: "wheel_fetch (th_wheel h) now = (due, w)" by force
  have "leads (since ops h0) (foldC (\<lambda>m _. writer_timeout_for_member ops env now m) (remdups due) ()) (since ops h0)" by (intro leads_rules)
  then show "\<exists>r h'. handle_typing_timeouts (writer_timeout_for_member ops env) now h = Some (r, h') \<and> since ops h0 h'"
    using h f unfolding leads_def by (simp add: handle_typing_timeouts_def fetch_due_def)
qed

lemma prune_since:
  assumes "since ops h0 h"
  shows "since ops h0 (prune_old_typing h)"
proof -
  let ?h = "prune_old_typing h"
  have ok: "typing_ok ops h" using assms by (simp add: since_def)
  have serial: "map_of (room_serials ?h) r = Some s \<Longrightarrow> map_of (room_serials h) r = Some s \<and> r \<in> set (rooms_updated h)" for r s
    by (simp add: prune_rooms split: if_splits)
  have same: "change_cache_of ?h = change_cache_of h" "notified ?h = notified h" "latest_room_serial ?h = latest_room_serial h"
    by (simp_all add: prune_old_typing_def Let_def)
  have d: "distinct (map fst (room_serials ?h))" using ok by (simp add: prune_old_typing_def Let_def typing_ok_def distinct_map_filter)
  have typing: "map_of (room_serials ?h) r = Some s \<Longrightarrow> map_of (room_typing ?h) r = map_of (room_typing h) r" for r s
  proof -
    assume "map_of (room_serials ?h) r = Some s"
    then have "r \<in> set (rooms_updated h)" using serial by blast
    then show "map_of (room_typing ?h) r = map_of (room_typing h) r" by (simp only: prune_rooms(1)) simp
  qed
  have "typing_ok ops ?h" unfolding typing_ok_def same
  proof (intro conjI allI impI)
    show "map_of (room_serials ?h) r = Some s \<Longrightarrow> map_of (room_typing ?h) r \<noteq> None" for r s
      using ok serial [of r s] typing [of r s] unfolding typing_ok_def by metis
    show "map_of (room_serials ?h) r = Some s \<Longrightarrow> (s, r) \<in> set (notified h)" for r s
      using ok serial [of r s] unfolding typing_ok_def by blast
    show "(s, r) \<in> set (notified h) \<Longrightarrow> s \<le> latest_room_serial h" for s r using ok unfolding typing_ok_def by blast
  qed (use ok d in \<open>simp_all add: typing_ok_def\<close>)
  moreover have "typing_entry ?h r = Some e \<Longrightarrow> typing_entry h r = Some e" for r e
  proof -
    assume "typing_entry ?h r = Some e"
    then obtain s where "map_of (room_serials ?h) r = Some s" "e = (s, set (typing_in ?h r))" by (auto simp: typing_entry_def)
    then show "typing_entry h r = Some e" using serial [of r s] typing [of r s] by (simp add: typing_entry_def typing_in_def)
  qed
  ultimately show ?thesis using assms same(3) unfolding since_def by auto
qed

lemma typing_step_leads: "leads (since ops h0) (typing_step ops env now op) (since ops h0)"
proof (cases op)
  case (Started target_user user banned room timeout)
  have "leads (since ops h0) (started_typing ops env now target_user user banned room timeout) (since ops h0)"
    unfolding started_typing_def Let_def by (intro leads_rules)
  with Started show ?thesis by simp
next
  case (Stopped target_user user banned room)
  then show ?thesis by (simp, unfold stopped_typing_def, intro leads_rules)
next
  case (Left user room)
  then show ?thesis by (simp, unfold user_left_room_def, intro leads_rules)
next
  case (Edu origin body)
  have "leads (since ops h0) (recv_typing_edu ops env now origin body) (since ops h0)"
    unfolding recv_typing_edu_def Let_def by (intro leads_rules) (auto split: json.split prod.split intro!: leads_rules)
  with Edu show ?thesis by simp
next
  case Check
  then show ?thesis by (simp add: check_leads)
next
  case Prune
  then show ?thesis by (simp add: leads_modify prune_since)
qed

definition typing_moves :: "'d sorted_dict \<Rightarrow> 'd typing_writer \<Rightarrow> 'd typing_writer \<Rightarrow> bool" where
  "typing_moves ops h h' \<longleftrightarrow> (\<exists>env now op r. typing_step ops env now op h = Some (r, h'))"

lemma typing_moved:
  assumes "typing_ok ops h" "typing_moves ops h h'"
  shows "since ops h h'"
proof -
  obtain env now op r where "typing_step ops env now op h = Some (r, h')" using assms(2) by (auto simp: typing_moves_def)
  moreover have "since ops h h" using assms(1) by (simp add: since_def)
  ultimately show ?thesis using leadsD [OF typing_step_leads] by blast
qed

section \<open>The rows the writer gives\<close>

definition row_of :: "'d typing_writer \<Rightarrow> string \<Rightarrow> int \<times> typing_row" where
  "row_of h room = (the (map_of (room_serials h) room), \<lparr>row_room_id = room, row_user_ids = typing_in h room\<rparr>)"

definition wanted_room :: "int \<Rightarrow> int \<Rightarrow> 'd typing_writer \<Rightarrow> string \<Rightarrow> bool" where
  "wanted_room a b h room \<longleftrightarrow> (case map_of (room_serials h) room of None \<Rightarrow> False | Some s \<Rightarrow> a < s \<and> s \<le> b)"

lemma typing_rows_from:
  "foldR (\<lambda>rows room.
       case map_of (room_serials h) room of
         None \<Rightarrow> Inl KeyErr
       | Some serial \<Rightarrow>
           if a < serial \<and> serial \<le> b then
             (case map_of (room_typing h) room of
                None \<Rightarrow> Inl KeyErr
              | Some us \<Rightarrow> Inr (rows @ [(serial, \<lparr>row_room_id = room, row_user_ids = us\<rparr>)]))
           else Inr rows) acc rooms = Inr rows \<Longrightarrow> rows = acc @ map (row_of h) (filter (wanted_room a b h) rooms)"
proof (induction rooms arbitrary: acc)
  case (Cons room rooms)
  show ?case
  proof (cases "map_of (room_serials h) room")
    case (Some s)
    show ?thesis
    proof (cases "wanted_room a b h room")
      case True
      then obtain us where "map_of (room_typing h) room = Some us" using Cons.prems Some by (auto simp: wanted_room_def split: option.splits)
      with Cons.prems Some True Cons.IH [of "acc @ [row_of h room]"] show ?thesis by (simp add: wanted_room_def [of a b h room] row_of_def [of h room] typing_in_def)
    next
      case False
      with Cons Some show ?thesis by (auto simp: wanted_room_def)
    qed
  qed (use Cons.prems in simp)
qed simp

lemma typing_rows_eq: "typing_rows a b h rooms = Inr rows \<Longrightarrow> rows = map (row_of h) (filter (wanted_room a b h) rooms)"
  using typing_rows_from [where acc = "[]"] by (auto simp: typing_rows_def)

lemma serials_differ:
  assumes "typing_ok ops h" "map_of (room_serials h) r = Some s" "map_of (room_serials h) r' = Some s"
  shows "r = r'"
proof -
  have "(s, r) \<in> set (notified h)" "(s, r') \<in> set (notified h)" "distinct (map fst (notified h))"
    using assms unfolding typing_ok_def by blast+
  then show ?thesis by (metis eq_key_imp_eq_value)
qed

text \<open>The rooms the change cache or the serials give: each once, and none is missing.\<close>

definition changed_rooms :: "'d sorted_dict \<Rightarrow> int \<Rightarrow> 'd typing_writer \<Rightarrow> string list" where
  "changed_rooms ops a h = (case get_all_entities_changed ops (change_cache_of h) a of None \<Rightarrow> map fst (room_serials h) | Some rooms \<Rightarrow> rooms)"

lemma changed_rooms_complete:
  assumes "typing_ok ops h"
  shows "distinct (changed_rooms ops a h)" "map_of (room_serials h) r = Some s \<Longrightarrow> a < s \<Longrightarrow> r \<in> set (changed_rooms ops a h)"
proof -
  let ?c = "change_cache_of h"
  have ok: "sorted_dict_ok ops" "in_sync ops ?c" "tracks ((\<lambda>(s, r). (r, s)) ` set (notified h)) ?c" "distinct (map fst (room_serials h))"
    using assms by (simp_all add: typing_ok_def cache_inv_def)
  show "distinct (changed_rooms ops a h)" using ok(4) get_all_distinct [OF ok(1,2)] by (auto simp: changed_rooms_def split: option.split)
  assume r: "map_of (room_serials h) r = Some s" "a < s"
  then have "(r, s) \<in> (\<lambda>(s, r). (r, s)) ` set (notified h)" using assms unfolding typing_ok_def by force
  with ok(3) have k: "s \<le> earliest_known_stream_pos ?c \<or> (\<exists>k. map_of (entity_to_key ?c) r = Some k \<and> s \<le> k)" unfolding tracks_def by blast
  show "r \<in> set (changed_rooms ops a h)"
  proof (cases "a \<le> earliest_known_stream_pos ?c")
    case True
    then show ?thesis using r(1) by (auto simp: changed_rooms_def get_all_entities_changed_def dest!: map_of_SomeD intro: rev_image_eqI)
  next
    case False
    with in_get_all [OF ok(1,2), of a] k r(2) show ?thesis by (force simp: changed_rooms_def)
  qed
qed

lemma sorted_rows:
  fixes a b :: int
  assumes "typing_ok ops h"
  defines "rows \<equiv> sort_key fst (map (row_of h) (filter (wanted_room a b h) (changed_rooms ops a h)))"
  shows "sorted_wrt (<) (map fst rows)" "(s, x) \<in> set rows \<Longrightarrow> a < s \<and> s \<le> b \<and> typing_entry h (row_room_id x) = Some (s, set (row_user_ids x))"
    "typing_entry h r = Some (s, v) \<Longrightarrow> a < s \<Longrightarrow> s \<le> b \<Longrightarrow> \<exists>x. (s, x) \<in> set rows \<and> row_room_id x = r"
proof -
  let ?rooms = "filter (wanted_room a b h) (changed_rooms ops a h)"
  have "inj_on (fst \<circ> row_of h) (set ?rooms)" using serials_differ [OF assms(1)]
    by (auto simp: inj_on_def row_of_def wanted_room_def split: option.splits)
  then have "distinct (map fst (map (row_of h) ?rooms))" using changed_rooms_complete(1) [OF assms(1), of a] by (simp add: distinct_map comp_inj_on_iff)
  moreover have "mset (map fst rows) = mset (map fst (map (row_of h) ?rooms))" by (simp add: rows_def multiset.map_comp)
  ultimately have "distinct (map fst rows)" by (metis mset_eq_imp_distinct_iff)
  then show "sorted_wrt (<) (map fst rows)" by (simp add: strict_sorted_iff rows_def)
  show "(s, x) \<in> set rows \<Longrightarrow> a < s \<and> s \<le> b \<and> typing_entry h (row_room_id x) = Some (s, set (row_user_ids x))"
    by (auto simp: rows_def row_of_def wanted_room_def typing_entry_def split: option.splits)
  assume e: "typing_entry h r = Some (s, v)" "a < s" "s \<le> b"
  then have s: "map_of (room_serials h) r = Some s" by (auto simp: typing_entry_def)
  then have "r \<in> set ?rooms" using changed_rooms_complete(2) [OF assms(1) s e(2)] e by (simp add: wanted_room_def)
  then have "row_of h r \<in> set rows" by (simp add: rows_def)
  then show "\<exists>x. (s, x) \<in> set rows \<and> row_room_id x = r" using s by (auto simp: row_of_def)
qed

lemma strict_take:
  fixes us :: "(int \<times> 'r) list"
  assumes "sorted_wrt (<) (map fst us)" "(s, x) \<in> set us" "take n us \<noteq> []" "s \<le> fst (last (take n us))"
  shows "(s, x) \<in> set (take n us)"
proof (rule ccontr)
  assume "(s, x) \<notin> set (take n us)"
  then have "(s, x) \<in> set (drop n us)" using assms(2) by (metis Un_iff append_take_drop_id set_append)
  moreover have "sorted_wrt (<) (map fst (take n us) @ map fst (drop n us))" using assms(1) by (metis append_take_drop_id map_append)
  ultimately have "fst (last (take n us)) < s" using last_in_set [OF assms(3)] by (fastforce simp: sorted_wrt_append)
  with assms(4) show False by simp
qed

lemma typing_updates_law:
  assumes "typing_ok ops h" "a < b" "get_all_typing_updates ops a b STREAM_UPDATE_TARGET_ROW_COUNT h = Inr (us, tok, limited)"
  shows "sorted_wrt (<) (map fst us) \<and> tok \<le> b \<and> (if limited then us \<noteq> [] \<and> tok = fst (last us) else tok = b) \<and>
      (\<forall>(s, r) \<in> set us. a < s \<and> s \<le> tok \<and> typing_entry h (row_room_id r) = Some (s, set (row_user_ids r))) \<and>
      (\<forall>k s v. typing_entry h k = Some (s, v) \<longrightarrow> a < s \<longrightarrow> s \<le> tok \<longrightarrow> (\<exists>r. (s, r) \<in> set us \<and> row_room_id r = k))"
proof -
  define rows where "rows = sort_key fst (map (row_of h) (filter (wanted_room a b h) (changed_rooms ops a h)))"
  note r = sorted_rows [where a = a and b = b, OF assms(1), folded rows_def]
  obtain unsorted where u: "typing_rows a b h (changed_rooms ops a h) = Inr unsorted"
    and res: "(if int (length (sort_key fst unsorted)) > STREAM_UPDATE_TARGET_ROW_COUNT then
               (let cut = upto_limit STREAM_UPDATE_TARGET_ROW_COUNT (sort_key fst unsorted)
                in if cut = [] then Inl IndexErr else Inr (cut, fst (last cut), True))
             else Inr (sort_key fst unsorted, b, False)) = Inr (us, tok, limited)"
    using assms(2,3) by (auto simp: get_all_typing_updates_def changed_rooms_def bindR_Inr_iff Let_def)
  have rows: "sort_key fst unsorted = rows" using typing_rows_eq [OF u] by (simp add: rows_def)
  show ?thesis
  proof (cases "int (length rows) > STREAM_UPDATE_TARGET_ROW_COUNT")
    case False
    then have "us = rows" "tok = b" "\<not> limited" using res rows by auto
    then show ?thesis using r by auto
  next
    case True
    then have us: "us = take 100 rows" "us \<noteq> []" "tok = fst (last us)" limited
      using res by (auto simp: rows Let_def upto_limit_def STREAM_UPDATE_TARGET_ROW_COUNT_def split: if_splits)
    have strict: "sorted_wrt (<) (map fst us)" unfolding us(1) using sorted_wrt_take [OF r(1), of 100] by (simp only: take_map)
    have sub: "set us \<subseteq> set rows" unfolding us(1) by (rule set_take_subset)
    have upto: "(s, x) \<in> set us \<Longrightarrow> s \<le> tok" for s x using strict_last [OF strict] us(3) by simp
    have "tok \<le> b" using r(2) [of "fst (last us)" "snd (last us)"] last_in_set [OF us(2)] sub us(3) by auto
    moreover have "\<exists>x. (s, x) \<in> set us \<and> row_room_id x = k" if e: "typing_entry h k = Some (s, v)" "a < s" "s \<le> tok" for k s v
    proof -
      obtain x where x: "(s, x) \<in> set rows" "row_room_id x = k" using r(3) [OF e(1,2)] e(3) \<open>tok \<le> b\<close> by fastforce
      with strict_take [OF r(1) x(1), of 100] us e(3) show ?thesis by auto
    qed
    moreover have "a < s \<and> s \<le> tok \<and> typing_entry h (row_room_id x) = Some (s, set (row_user_ids x))" if "(s, x) \<in> set us" for s x
      using r(2) [of s x] sub upto [OF that] that by auto
    ultimately show ?thesis using strict us(2-4) by auto
  qed
qed

section \<open>The follower\<close>

definition typing_view :: "typing_handler \<Rightarrow> string \<Rightarrow> string set option" where
  "typing_view f room = map_option set (map_of (room_typing f) room)"

definition typing_on_rdata :: "typing_env \<times> int \<Rightarrow> int \<Rightarrow> typing_row list \<Rightarrow> typing_handler \<Rightarrow> typing_handler" where
  "typing_on_rdata e t rows f = (case process_replication_rows (fst e) (snd e) t rows f of None \<Rightarrow> f | Some (_, f') \<Rightarrow> f')"

abbreviation rooms_are :: "(string \<times> string list) list \<Rightarrow> int \<Rightarrow> typing_handler \<Rightarrow> bool" where
  "rooms_are T l f \<equiv> room_typing f = T \<and> latest_room_serial f = l"

lemma push_remote_rooms: "leads (rooms_are T l) (push_remote env now m b) (rooms_are T l)"
  unfolding leads_def
proof (intro allI impI)
  fix f :: typing_handler
  assume "rooms_are T l f"
  with push_remote_shape [of env now m b f] show "\<exists>r f'. push_remote env now m b f = Some (r, f') \<and> rooms_are T l f'" by fastforce
qed

lemma process_row_rooms:
  "\<exists>f'. process_typing_row env now t row f = Some (Inr (), f') \<and>
     rooms_are (AList.update (row_room_id row) (remdups (row_user_ids row)) (room_typing f)) (latest_room_serial f) f'" for f :: typing_handler
proof -
  let ?T = "AList.update (row_room_id row) (remdups (row_user_ids row)) (room_typing f)" and ?l = "latest_room_serial f"
  let ?f = "f\<lparr>room_serials := AList.update (row_room_id row) t (room_serials f), room_typing := ?T, rooms_updated := List.insert (row_room_id row) (rooms_updated f)\<rparr>"
  have "leads (rooms_are ?T ?l) (send_changes_in_typing env now room prev new) (rooms_are ?T ?l)" for room prev new
    unfolding send_changes_in_typing_def [abs_def] by (intro leads_rules push_remote_rooms)
  from leads_ex [OF this, of ?f] obtain r f' where
    "send_changes_in_typing env now (row_room_id row) (typing_in f (row_room_id row)) (remdups (row_user_ids row)) ?f = Some (r, f')" "rooms_are ?T ?l f'"
    by force
  then show ?thesis by (simp add: process_typing_row_def Let_def catchC_def)
qed

lemma process_rows_rooms:
  "\<exists>f'. foldC (\<lambda>row _. process_typing_row env now t row) rows () f = Some (Inr (), f') \<and> latest_room_serial f' = latest_room_serial f \<and>
     typing_view f' = foldl (\<lambda>m r. m(row_room_id r \<mapsto> set (row_user_ids r))) (typing_view f) rows" for f :: typing_handler
proof (induction rows arbitrary: f)
  case (Cons row rows)
  obtain f1 where f1: "process_typing_row env now t row f = Some (Inr (), f1)"
    "rooms_are (AList.update (row_room_id row) (remdups (row_user_ids row)) (room_typing f)) (latest_room_serial f) f1"
    using process_row_rooms by blast
  then have "typing_view f1 = (typing_view f)(row_room_id row \<mapsto> set (row_user_ids row))" by (auto simp: typing_view_def fun_eq_iff)
  with Cons.IH [of f1] f1 show ?case by (simp add: bindC_def)
qed (simp add: returnC_def)

lemma typing_applied:
  assumes "latest_room_serial f \<le> t"
  shows "latest_room_serial (typing_on_rdata e t rows f) = t \<and>
    typing_view (typing_on_rdata e t rows f) = foldl (\<lambda>m r. m(row_room_id r \<mapsto> set (row_user_ids r))) (typing_view f) rows"
proof -
  obtain f' where "foldC (\<lambda>row _. process_typing_row (fst e) (snd e) t row) rows () (f\<lparr>latest_room_serial := t\<rparr>) = Some (Inr (), f')"
    "latest_room_serial f' = t" "typing_view f' = foldl (\<lambda>m r. m(row_room_id r \<mapsto> set (row_user_ids r))) (typing_view (f\<lparr>latest_room_serial := t\<rparr>)) rows"
    using process_rows_rooms [of "fst e" "snd e" t rows "f\<lparr>latest_room_serial := t\<rparr>"] by auto
  moreover have "typing_view (f\<lparr>latest_room_serial := t\<rparr>) = typing_view f" by (simp add: typing_view_def fun_eq_iff)
  ultimately show ?thesis using assms by (simp add: typing_on_rdata_def process_replication_rows_def)
qed

interpretation typing_stream: keyed_stream "typing_ok ops" "typing_moves ops" latest_room_serial typing_entry
  "\<lambda>h a b n. get_all_typing_updates ops a b n h" row_room_id "\<lambda>r. set (row_user_ids r)" latest_room_serial typing_view typing_on_rdata
  for ops :: "'d sorted_dict"
proof unfold_locales
  show "typing_ok ops w \<Longrightarrow> typing_entry w k = Some (s, v) \<Longrightarrow> s \<le> latest_room_serial w" for w k s v by (rule notified_serial)
  show "typing_ok ops w' \<and> latest_room_serial w \<le> latest_room_serial w' \<and>
      (typing_entry w' k = Some (s, v) \<longrightarrow> typing_entry w k = Some (s, v) \<or> latest_room_serial w < s)"
    if "typing_ok ops w" "typing_moves ops w w'" for w w' k s v
    using typing_moved [OF that] by (auto simp: since_def)
qed (rule typing_updates_law typing_applied; assumption)+

section \<open>Both processes\<close>

text \<open>
  The writer with any operations, the follower with its own two checks, and the replication of the stream
  between them.
\<close>

inductive typing_link :: "'d sorted_dict \<Rightarrow> ('d typing_writer, typing_handler, typing_row, string) link \<Rightarrow> bool" for ops where
  start: "new_typing_writer ops federation = Some (Inr w) \<Longrightarrow> typing_link ops (new_link w (latest_room_serial w) (new_typing_handler federation'))"
| writer_op: "typing_link ops L \<Longrightarrow> typing_step ops env now op (ln_writer L) = Some (r, w) \<Longrightarrow> typing_link ops (L\<lparr>ln_writer := w\<rparr>)"
| check: "typing_link ops L \<Longrightarrow> handle_typing_timeouts (follower_timeout_for_member env) now (handler_of (receiver_of L)) = Some (r, f) \<Longrightarrow>
    typing_link ops (L\<lparr>receiver_of := (receiver_of L)\<lparr>handler_of := f\<rparr>\<rparr>)"
| forget: "typing_link ops L \<Longrightarrow> f = prune_old_typing (handler_of (receiver_of L)) \<Longrightarrow>
    typing_link ops (L\<lparr>receiver_of := (receiver_of L)\<lparr>handler_of := f\<rparr>,
      forgotten := forgotten L \<union> {k. typing_view f k \<noteq> typing_view (handler_of (receiver_of L)) k}\<rparr>)"
| send: "typing_link ops L \<Longrightarrow> typing_link ops (link_send (\<lambda>h a b n. get_all_typing_updates ops a b n h) latest_room_serial L)"
| announce: "typing_link ops L \<Longrightarrow> typing_link ops (link_announce L)"
| drop: "typing_link ops L \<Longrightarrow> catching_up (receiver_of L) = None \<Longrightarrow> typing_link ops (link_drop L)"
| discard: "typing_link ops L \<Longrightarrow> channel L = [] \<Longrightarrow> \<not> stream_connected (receiver_of L) \<Longrightarrow>
    typing_link ops (discard_updates_and_advance latest_room_serial L)"
| deliver: "typing_link ops L \<Longrightarrow> typing_link ops (link_deliver (typing_on_rdata e) latest_room_serial L)"
| catch_up: "typing_link ops L \<Longrightarrow> typing_link ops (link_catch_up (typing_on_rdata e) (\<lambda>h a b n. get_all_typing_updates ops a b n h) L)"

lemma follower_check_rooms:
  fixes f :: typing_handler
  assumes "handle_typing_timeouts (follower_timeout_for_member env) now f = Some (r, f')"
  shows "rooms_are (room_typing f) (latest_room_serial f) f'"
proof -
  let ?I = "rooms_are (room_typing f) (latest_room_serial f)"
  have timer: "leads ?I (insert_timer now m t) ?I" for m t by (auto simp: leads_def insert_timer_def split: sum.split)
  obtain due w where d: "wheel_fetch (th_wheel f) now = (due, w)" by force
  have "leads ?I (follower_timeout_for_member env now m) ?I" for m
    unfolding follower_timeout_for_member_def [abs_def] by (intro leads_rules timer push_remote_rooms)
  then have "leads ?I (foldC (\<lambda>m _. follower_timeout_for_member env now m) (remdups due) ()) ?I" by (intro leads_fold)
  from leadsD [OF this, of "f\<lparr>th_wheel := w\<rparr>"] assms d show ?thesis by (simp add: handle_typing_timeouts_def fetch_due_def)
qed

lemma typing_link_ok:
  assumes "typing_link ops L" "sorted_dict_ok ops"
  shows "typing_stream.link_ok ops L"
  using assms(1)
proof induction
  case (start federation w federation')
  have "run_inv ops (empty_cache ops 0 10000, {})" using empty_cache_inv [OF assms(2)] by simp
  moreover have w: "w = typing_handler.extend (new_typing_handler federation)
      \<lparr>member_typing_until = [], change_cache_of = empty_cache ops 0 10000, notified = []\<rparr>" using start by (simp add: new_writer)
  ultimately have "typing_ok ops w" by (simp add: typing_ok_def run_inv_def new_typing_handler_def typing_handler.defs)
  then show ?case by (rule typing_stream.new_link_ok) (simp_all add: w new_typing_handler_def typing_handler.defs typing_entry_def)
next
  case (writer_op L env now op r w)
  then show ?case by (intro typing_stream.link_moves) (auto simp: typing_moves_def)
next
  case (check L env now r f)
  have "typing_view f = typing_view (handler_of (receiver_of L))" "latest_room_serial f = latest_room_serial (handler_of (receiver_of L))"
    using follower_check_rooms [OF check.hyps(2)] by (simp_all add: typing_view_def fun_eq_iff)
  with typing_stream.link_forgets [OF check.IH, of f] show ?case by simp
next
  case (forget L f)
  have "latest_room_serial f = latest_room_serial (handler_of (receiver_of L))" unfolding forget.hyps(2) by (simp add: prune_old_typing_def Let_def)
  moreover have "typing_view f k \<in> {None, typing_view (handler_of (receiver_of L)) k}" for k
    unfolding forget.hyps(2) by (simp add: typing_view_def prune_rooms)
  ultimately show ?case by (intro typing_stream.link_forgets [OF forget.IH])
next
  case (send L)
  then show ?case by (intro typing_stream.link_send_ok)
next
  case (announce L)
  then show ?case by (intro typing_stream.link_announce_ok)
next
  case (drop L)
  then show ?case by (intro typing_stream.link_drop_ok)
next
  case (discard L)
  then show ?case by (intro typing_stream.discard_ok)
next
  case (deliver L e)
  then show ?case by (intro typing_stream.link_deliver_ok)
next
  case (catch_up L e)
  then show ?case by (intro typing_stream.link_catch_up_ok)
qed

text \<open>
  C20.  Whatever is sent, lost, fetched and forgotten: for every room whose last change is not after the
  follower's position, the follower has the users who are typing as the writer has them, or has
  forgotten the room; and a follower that is connected, with nothing on the way and everything sent,
  is not behind any change.
\<close>

theorem typing_follower_agrees:
  assumes "typing_link ops L" "sorted_dict_ok ops" "map_of (room_serials (ln_writer L)) room = Some s"
  shows "(s \<le> latest_room_serial (handler_of (receiver_of L)) \<longrightarrow>
      (room \<in> dom (map_of (room_typing (handler_of (receiver_of L)))) \<and>
        set (typing_in (handler_of (receiver_of L)) room) = set (typing_in (ln_writer L) room)) \<or>
      (room \<notin> dom (map_of (room_typing (handler_of (receiver_of L)))) \<and> room \<in> forgotten L)) \<and>
    (stream_connected (receiver_of L) \<and> channel L = [] \<and> last_token L = latest_room_serial (ln_writer L) \<longrightarrow>
      s \<le> latest_room_serial (handler_of (receiver_of L)))"
proof -
  have ok: "typing_stream.link_ok ops L" by (rule typing_link_ok [OF assms(1,2)])
  have e: "typing_entry (ln_writer L) room = Some (s, set (typing_in (ln_writer L) room))" using assms(3) by (simp add: typing_entry_def)
  have "s \<le> latest_room_serial (ln_writer L)" using ok notified_serial [OF _ e] by (auto simp: typing_stream.link_ok_def typing_stream.parts_ok_def)
  moreover have "typing_view f r = Some v \<longleftrightarrow> r \<in> dom (map_of (room_typing f)) \<and> set (typing_in f r) = v"
    "typing_view f r = None \<longleftrightarrow> r \<notin> dom (map_of (room_typing f))" for f r v by (auto simp: typing_view_def typing_in_def)
  ultimately show ?thesis using typing_stream.link_quiet [OF ok _ _ e] typing_stream.link_agrees [OF ok e] by simp
qed

section \<open>Examples\<close>

definition typing_sample_op :: "string \<Rightarrow> typing_op" where
  "typing_sample_op room = Started typing_sample_user typing_sample_user False room 30000"

definition after_op :: "int \<Rightarrow> typing_op \<Rightarrow> (int \<times> string list) list typing_writer \<Rightarrow> (int \<times> string list) list typing_writer" where
  "after_op now op h = snd (the (typing_step alist_dict typing_sample_env now op h))"

text \<open>
  A room that was forgotten while its last change was not sent yet makes every later request for updates
  fail, since the change cache still lists it.
\<close>

lemma pruned_room_raises:
  "get_all_typing_updates alist_dict 1 2 100
     (after_op 1300 Prune (after_op 1200 Prune (after_op 1100 (typing_sample_op ''q'') (after_op 1000 (typing_sample_op ''r'') typing_sample_new)))) = Inl KeyErr"
  by code_simp

text \<open>A user starts typing; the follower connects, and is sent the change.\<close>

definition typing_sample_link :: "((int \<times> string list) list typing_writer, typing_handler, typing_row, string) link" where
  "typing_sample_link =
     (let e = (typing_sample_env, 1000); u = (\<lambda>h a b n. get_all_typing_updates alist_dict a b n h);
          L = link_announce (new_link typing_sample_new (latest_room_serial typing_sample_new) (new_typing_handler False));
          L = link_catch_up (typing_on_rdata e) u (link_deliver (typing_on_rdata e) latest_room_serial L);
          L = L\<lparr>ln_writer := after_op 1000 (typing_sample_op ''r'') (ln_writer L)\<rparr>
      in link_deliver (typing_on_rdata e) latest_room_serial (link_send u latest_room_serial L))"

lemma typing_sample_linked: "typing_link alist_dict typing_sample_link"
proof -
  let ?e = "(typing_sample_env, 1000)" and ?u = "\<lambda>h a b n. get_all_typing_updates alist_dict a b n h"
  let ?L = "link_announce (new_link typing_sample_new (latest_room_serial typing_sample_new) (new_typing_handler False))
    :: ((int \<times> string list) list typing_writer, typing_handler, typing_row, string) link"
  let ?L1 = "link_catch_up (typing_on_rdata ?e) ?u (link_deliver (typing_on_rdata ?e) latest_room_serial ?L)"
  have "typing_link alist_dict ?L"
    by (intro typing_link.announce typing_link.start [where federation = True]) (simp add: new_writer typing_sample_new_def)
  then have L1: "typing_link alist_dict ?L1" by (intro typing_link.catch_up typing_link.deliver)
  have "ln_writer ?L1 = typing_sample_new" by code_simp
  moreover have "typing_step alist_dict typing_sample_env 1000 (typing_sample_op ''r'') typing_sample_new \<noteq> None" by code_simp
  ultimately obtain r w where w: "typing_step alist_dict typing_sample_env 1000 (typing_sample_op ''r'') (ln_writer ?L1) = Some (r, w)" by auto
  then have "w = after_op 1000 (typing_sample_op ''r'') (ln_writer ?L1)" by (simp add: after_op_def)
  with typing_link.deliver [OF typing_link.send [OF typing_link.writer_op [OF L1 w]], of ?e] show ?thesis by (simp add: typing_sample_link_def Let_def)
qed

theorem typing_follower_agrees_witness:
  "typing_link alist_dict typing_sample_link \<and> sorted_dict_ok alist_dict \<and> map_of (room_serials (ln_writer typing_sample_link)) ''r'' = Some 1 \<and>
   latest_room_serial (handler_of (receiver_of typing_sample_link)) = 1 \<and>
   set (typing_in (handler_of (receiver_of typing_sample_link)) ''r'') = set (typing_in (ln_writer typing_sample_link) ''r'') \<and>
   typing_in (ln_writer typing_sample_link) ''r'' = [''@a:s'']"
proof -
  have s: "map_of (room_serials (ln_writer typing_sample_link)) ''r'' = Some 1" by code_simp
  have t: "latest_room_serial (handler_of (receiver_of typing_sample_link)) = 1" by code_simp
  have u: "typing_in (ln_writer typing_sample_link) ''r'' = [''@a:s'']" by code_simp
  have "''r'' \<notin> forgotten typing_sample_link" by code_simp
  with typing_follower_agrees [OF typing_sample_linked alist_dict_ok s] s t u typing_sample_linked alist_dict_ok show ?thesis by auto
qed

end
