(* ===== verification/Read_Write_Lock.thy ===== *)
theory Read_Write_Lock
  imports Locks
begin

text \<open>
  \<open>ReadWriteLock\<close> of \<open>util/async_helpers.py\<close>.  Every use of the lock is a request, numbered in order of
  arrival, and its number stands for its \<open>new_defer\<close>.  A request is \<open>Blocked\<close> until what it waits on
  has fired, \<open>Inside\<close> during the block, \<open>Fired\<close> once \<open>new_defer\<close> is called back and \<open>Over\<close> once it
  has also cleaned up the two dictionaries.  Firing a deferred resumes other coroutines before the
  clean-up, so the two are separate steps; a resumed coroutine may take its step at any later time,
  which allows every interleaving the reactor can produce.
\<close>

section \<open>The lock\<close>

datatype rw_phase = Blocked | Inside | Fired | Over

record rw_request =
  rq_key :: string
  rq_write :: bool
  rq_waits :: "nat list"
  rq_phase :: rw_phase

record rw_lock =
  requests :: "rw_request list"
  key_to_current_readers :: "string \<Rightarrow> nat list option"
  key_to_current_writer :: "string \<Rightarrow> nat option"

definition new_rw_lock :: rw_lock where
  "new_rw_lock = \<lparr>requests = [], key_to_current_readers = (\<lambda>_. None), key_to_current_writer = (\<lambda>_. None)\<rparr>"

definition current_readers :: "rw_lock \<Rightarrow> string \<Rightarrow> nat list" where
  "current_readers s k = (case key_to_current_readers s k of None \<Rightarrow> [] | Some rs \<Rightarrow> rs)"

definition read_begin :: "string \<Rightarrow> rw_lock \<Rightarrow> rw_lock" where
  "read_begin k s =
     s\<lparr>requests := requests s @
         [\<lparr>rq_key = k, rq_write = False,
           rq_waits = (case key_to_current_writer s k of None \<Rightarrow> [] | Some w \<Rightarrow> [w]), rq_phase = Blocked\<rparr>],
       key_to_current_readers := (key_to_current_readers s)(k \<mapsto> current_readers s k @ [length (requests s)])\<rparr>"

definition write_begin :: "string \<Rightarrow> rw_lock \<Rightarrow> rw_lock" where
  "write_begin k s =
     s\<lparr>requests := requests s @
         [\<lparr>rq_key = k, rq_write = True,
           rq_waits = current_readers s k @ (case key_to_current_writer s k of None \<Rightarrow> [] | Some w \<Rightarrow> [w]),
           rq_phase = Blocked\<rparr>],
       key_to_current_readers :=
         (case key_to_current_readers s k of
            None \<Rightarrow> key_to_current_readers s
          | Some _ \<Rightarrow> (key_to_current_readers s)(k \<mapsto> [])),
       key_to_current_writer := (key_to_current_writer s)(k \<mapsto> length (requests s))\<rparr>"

definition set_phase :: "nat \<Rightarrow> rw_phase \<Rightarrow> rw_lock \<Rightarrow> rw_lock" where
  "set_phase i p s = s\<lparr>requests := (requests s)[i := (requests s ! i)\<lparr>rq_phase := p\<rparr>]\<rparr>"

definition fired :: "rw_lock \<Rightarrow> nat \<Rightarrow> bool" where
  "fired s i \<longleftrightarrow> rq_phase (requests s ! i) \<in> {Fired, Over}"

definition may_enter :: "rw_lock \<Rightarrow> nat \<Rightarrow> bool" where
  "may_enter s i \<longleftrightarrow> list_all (fired s) (rq_waits (requests s ! i))"

text \<open>The end of the \<open>finally\<close> blocks.\<close>

definition read_cleanup :: "nat \<Rightarrow> string \<Rightarrow> rw_lock \<Rightarrow> rw_lock" where
  "read_cleanup i k s =
     (case key_to_current_readers s k of
        None \<Rightarrow> s
      | Some rs \<Rightarrow> s\<lparr>key_to_current_readers := (key_to_current_readers s)(k \<mapsto> filter (\<lambda>j. j \<noteq> i) rs)\<rparr>)"

definition write_cleanup :: "nat \<Rightarrow> string \<Rightarrow> rw_lock \<Rightarrow> rw_lock" where
  "write_cleanup i k s =
     (if key_to_current_writer s k = Some i
      then s\<lparr>key_to_current_writer := (key_to_current_writer s)(k := None)\<rparr> else s)"

definition cleanup :: "nat \<Rightarrow> rw_lock \<Rightarrow> rw_lock" where
  "cleanup i s =
     (let q = requests s ! i; s' = set_phase i Over s
      in if rq_write q then write_cleanup i (rq_key q) s' else read_cleanup i (rq_key q) s')"

text \<open>
  A reader's wait is cancelled at once (\<open>stop_cancellation\<close>), a writer's only when it is over
  (\<open>delay_cancellation\<close>); either way the \<open>finally\<close> block runs.
\<close>

inductive rw_step :: "rw_lock \<Rightarrow> rw_lock \<Rightarrow> bool" where
  begin_read: "rw_step s (read_begin k s)"
| begin_write: "rw_step s (write_begin k s)"
| enter: "i < length (requests s) \<Longrightarrow> rq_phase (requests s ! i) = Blocked \<Longrightarrow> may_enter s i \<Longrightarrow>
    rw_step s (set_phase i Inside s)"
| leave: "i < length (requests s) \<Longrightarrow> rq_phase (requests s ! i) = Inside \<Longrightarrow> rw_step s (set_phase i Fired s)"
| cancel_read: "i < length (requests s) \<Longrightarrow> rq_phase (requests s ! i) = Blocked \<Longrightarrow> \<not> rq_write (requests s ! i) \<Longrightarrow>
    rw_step s (set_phase i Fired s)"
| cancel_write: "i < length (requests s) \<Longrightarrow> rq_phase (requests s ! i) = Blocked \<Longrightarrow> rq_write (requests s ! i) \<Longrightarrow>
    may_enter s i \<Longrightarrow> rw_step s (set_phase i Fired s)"
| clean: "i < length (requests s) \<Longrightarrow> rq_phase (requests s ! i) = Fired \<Longrightarrow> rw_step s (cleanup i s)"

section \<open>Invariant\<close>

text \<open>\<open>pending s k i\<close>: request \<open>i\<close> for key \<open>k\<close> has not released the lock yet.\<close>

definition pending :: "rw_lock \<Rightarrow> string \<Rightarrow> nat \<Rightarrow> bool" where
  "pending s k i \<longleftrightarrow> i < length (requests s) \<and> rq_key (requests s ! i) = k \<and> \<not> fired s i"

definition writer :: "rw_lock \<Rightarrow> nat \<Rightarrow> bool" where
  "writer s i \<longleftrightarrow> rq_write (requests s ! i)"

text \<open>\<open>guarded s k m j\<close>: waiting for \<open>m\<close> is waiting for \<open>j\<close>, directly or because \<open>m\<close> is a later writer.\<close>

definition guarded :: "rw_lock \<Rightarrow> string \<Rightarrow> nat \<Rightarrow> nat \<Rightarrow> bool" where
  "guarded s k m j \<longleftrightarrow> pending s k m \<and> (j = m \<or> j < m \<and> writer s m)"

definition request_ok :: "rw_lock \<Rightarrow> nat \<Rightarrow> bool" where
  "request_ok s i \<longleftrightarrow>
     (let q = requests s ! i; k = rq_key q
      in (\<forall>m \<in> set (rq_waits q). m < i \<and> rq_key (requests s ! m) = k \<and> (rq_write q \<or> writer s m)) \<and>
         (\<forall>j < i. pending s k j \<longrightarrow> rq_write q \<or> writer s j \<longrightarrow> (\<exists>m \<in> set (rq_waits q). guarded s k m j)) \<and>
         (rq_phase q = Inside \<or> rq_write q \<and> rq_phase q \<noteq> Blocked \<longrightarrow>
            (\<forall>j < i. pending s k j \<longrightarrow> \<not> (rq_write q \<or> writer s j))))"

definition key_ok :: "rw_lock \<Rightarrow> string \<Rightarrow> bool" where
  "key_ok s k \<longleftrightarrow>
     (\<forall>m \<in> set (current_readers s k). m < length (requests s) \<and> rq_key (requests s ! m) = k) \<and>
     (\<forall>w. key_to_current_writer s k = Some w \<longrightarrow> w < length (requests s) \<and> rq_key (requests s ! w) = k \<and> writer s w) \<and>
     (\<forall>j. pending s k j \<longrightarrow>
        (\<not> writer s j \<and> j \<in> set (current_readers s k)) \<or> (\<exists>w. key_to_current_writer s k = Some w \<and> guarded s k w j))"

definition rw_ok :: "rw_lock \<Rightarrow> bool" where
  "rw_ok s \<longleftrightarrow> (\<forall>i < length (requests s). request_ok s i) \<and> (\<forall>k. key_ok s k)"

lemma rw_ok_new: "rw_ok new_rw_lock"
  by (simp add: rw_ok_def new_rw_lock_def key_ok_def pending_def current_readers_def)

text \<open>The parts of the invariant for one request, as rules.\<close>

lemma request_okD:
  assumes "request_ok s i" "rq_key (requests s ! i) = k"
  shows "m \<in> set (rq_waits (requests s ! i)) \<Longrightarrow> m < i \<and> rq_key (requests s ! m) = k \<and> (writer s i \<or> writer s m)"
    and "j < i \<Longrightarrow> pending s k j \<Longrightarrow> writer s i \<or> writer s j \<Longrightarrow> \<exists>m \<in> set (rq_waits (requests s ! i)). guarded s k m j"
    and "rq_phase (requests s ! i) = Inside \<or> writer s i \<and> rq_phase (requests s ! i) \<noteq> Blocked \<Longrightarrow>
         j < i \<Longrightarrow> pending s k j \<Longrightarrow> \<not> (writer s i \<or> writer s j)"
  using assms unfolding request_ok_def Let_def writer_def by blast+

lemma request_okI:
  assumes "k = rq_key (requests s ! i)"
    and "\<And>m. m \<in> set (rq_waits (requests s ! i)) \<Longrightarrow> m < i \<and> rq_key (requests s ! m) = k \<and> (writer s i \<or> writer s m)"
    and "\<And>j. j < i \<Longrightarrow> pending s k j \<Longrightarrow> writer s i \<or> writer s j \<Longrightarrow> \<exists>m \<in> set (rq_waits (requests s ! i)). guarded s k m j"
    and "\<And>j. rq_phase (requests s ! i) = Inside \<or> writer s i \<and> rq_phase (requests s ! i) \<noteq> Blocked \<Longrightarrow>
         j < i \<Longrightarrow> pending s k j \<Longrightarrow> \<not> (writer s i \<or> writer s j)"
  shows "request_ok s i"
  using assms unfolding request_ok_def Let_def writer_def by blast

lemma key_okD:
  assumes "key_ok s k"
  shows "m \<in> set (current_readers s k) \<Longrightarrow> m < length (requests s) \<and> rq_key (requests s ! m) = k"
    and "key_to_current_writer s k = Some w \<Longrightarrow> w < length (requests s) \<and> rq_key (requests s ! w) = k \<and> writer s w"
    and "pending s k j \<Longrightarrow>
         (\<not> writer s j \<and> j \<in> set (current_readers s k)) \<or> (\<exists>w. key_to_current_writer s k = Some w \<and> guarded s k w j)"
  using assms unfolding key_ok_def by blast+

lemma key_okI:
  assumes "\<And>m. m \<in> set (current_readers s k) \<Longrightarrow> m < length (requests s) \<and> rq_key (requests s ! m) = k"
    and "\<And>w. key_to_current_writer s k = Some w \<Longrightarrow> w < length (requests s) \<and> rq_key (requests s ! w) = k \<and> writer s w"
    and "\<And>j. pending s k j \<Longrightarrow>
         (\<not> writer s j \<and> j \<in> set (current_readers s k)) \<or> (\<exists>w. key_to_current_writer s k = Some w \<and> guarded s k w j)"
  shows "key_ok s k"
  using assms unfolding key_ok_def by blast

lemma rw_okD: "rw_ok s \<Longrightarrow> i < length (requests s) \<Longrightarrow> request_ok s i" "rw_ok s \<Longrightarrow> key_ok s k"
  by (simp_all add: rw_ok_def)

subsection \<open>A new request\<close>

lemma append_request:
  assumes "requests s' = requests s @ [q]" "rq_phase q = Blocked"
  shows "i < length (requests s) \<Longrightarrow> requests s' ! i = requests s ! i"
    and "requests s' ! length (requests s) = q"
    and "i < length (requests s) \<Longrightarrow> writer s' i = writer s i"
    and "pending s' k i \<longleftrightarrow> pending s k i \<or> i = length (requests s) \<and> rq_key q = k"
    and "guarded s k m j \<Longrightarrow> guarded s' k m j"
proof -
  show r: "requests s' ! i = requests s ! i" if "i < length (requests s)" for i using that assms(1) by (simp add: nth_append)
  show n: "requests s' ! length (requests s) = q" using assms(1) by simp
  show w: "writer s' i = writer s i" if "i < length (requests s)" for i using r [OF that] by (simp add: writer_def)
  show p: "pending s' k i \<longleftrightarrow> pending s k i \<or> i = length (requests s) \<and> rq_key q = k" for i
    using r n assms by (auto simp: pending_def fired_def less_Suc_eq)
  show "guarded s k m j \<Longrightarrow> guarded s' k m j" using p w by (auto simp: guarded_def pending_def)
qed

lemma append_request_ok:
  assumes ok: "rw_ok s" and q: "requests s' = requests s @ [q]" "rq_phase q = Blocked" and i: "i < length (requests s)"
  shows "request_ok s' i"
proof -
  note a = append_request [OF q]
  note o = request_okD [OF rw_okD(1) [OF ok i] refl]
  show ?thesis
  proof (rule request_okI [OF refl])
    fix m assume "m \<in> set (rq_waits (requests s' ! i))"
    with a i o(1) [of m] show "m < i \<and> rq_key (requests s' ! m) = rq_key (requests s' ! i) \<and> (writer s' i \<or> writer s' m)" by simp
  next
    fix j assume "j < i" "pending s' (rq_key (requests s' ! i)) j" "writer s' i \<or> writer s' j"
    with a(1,3,4) i have "j < i" "pending s (rq_key (requests s ! i)) j" "writer s i \<or> writer s j" by auto
    from o(2) [OF this] show "\<exists>m \<in> set (rq_waits (requests s' ! i)). guarded s' (rq_key (requests s' ! i)) m j"
      using a(5) by (auto simp: a(1) [OF i])
  next
    fix j assume "rq_phase (requests s' ! i) = Inside \<or> writer s' i \<and> rq_phase (requests s' ! i) \<noteq> Blocked"
      "j < i" "pending s' (rq_key (requests s' ! i)) j"
    with a i o(3) [of j] show "\<not> (writer s' i \<or> writer s' j)" by auto
  qed
qed

lemma append_key_ok:
  assumes ok: "rw_ok s" and q: "requests s' = requests s @ [q]" "rq_phase q = Blocked" and k: "rq_key q \<noteq> k"
    and same: "current_readers s' k = current_readers s k" "key_to_current_writer s' k = key_to_current_writer s k"
  shows "key_ok s' k"
proof -
  note a = append_request [OF q]
  note o = key_okD [OF rw_okD(2) [OF ok, of k]]
  have len: "length (requests s') = Suc (length (requests s))" using q by simp
  have less: "pending s k j \<Longrightarrow> j < length (requests s)" for j by (simp add: pending_def)
  show ?thesis
    using o a k same len less by (intro key_okI) (fastforce simp: less_Suc_eq)+
qed

lemma rw_ok_append:
  assumes ok: "rw_ok s" and q: "requests s' = requests s @ [q]" "rq_phase q = Blocked"
    and same: "\<And>k. k \<noteq> rq_key q \<Longrightarrow> current_readers s' k = current_readers s k \<and> key_to_current_writer s' k = key_to_current_writer s k"
    and new: "request_ok s' (length (requests s))" "key_ok s' (rq_key q)"
  shows "rw_ok s'"
proof -
  have "request_ok s' i" if "i < length (requests s')" for i
    using that append_request_ok [OF ok q, of i] new(1) q(1) by (cases "i = length (requests s)") auto
  moreover have "key_ok s' k" for k
    using append_key_ok [OF ok q, of k] same [of k] new(2) by (cases "k = rq_key q") auto
  ultimately show ?thesis by (simp add: rw_ok_def)
qed

lemma read_begin_ok:
  assumes ok: "rw_ok s"
  shows "rw_ok (read_begin k s)" (is "rw_ok ?s'")
proof -
  let ?n = "length (requests s)"
  let ?q = "\<lparr>rq_key = k, rq_write = False,
    rq_waits = (case key_to_current_writer s k of None \<Rightarrow> [] | Some w \<Rightarrow> [w]), rq_phase = Blocked\<rparr>"
  have q: "requests ?s' = requests s @ [?q]" "rq_phase ?q = Blocked" by (simp_all add: read_begin_def)
  note a = append_request [OF q]
  note o = key_okD [OF rw_okD(2) [OF ok, of k]]
  have len: "length (requests ?s') = Suc ?n" using q(1) by simp
  have nw: "\<not> writer ?s' ?n" using a(2) by (simp add: writer_def)
  have less: "pending s k j \<Longrightarrow> j < ?n" for j by (simp add: pending_def)
  have view: "current_readers ?s' k' = (if k' = k then current_readers s k @ [?n] else current_readers s k')"
    "key_to_current_writer ?s' = key_to_current_writer s" for k'
    by (simp_all add: read_begin_def current_readers_def)
  have "request_ok ?s' ?n"
  proof (rule request_okI [OF refl])
    fix m assume "m \<in> set (rq_waits (requests ?s' ! ?n))"
    then have "key_to_current_writer s k = Some m" by (auto simp: a(2) split: option.splits)
    with o(2) a show "m < ?n \<and> rq_key (requests ?s' ! m) = rq_key (requests ?s' ! ?n) \<and> (writer ?s' ?n \<or> writer ?s' m)" by simp
  next
    fix j assume j: "j < ?n" "pending ?s' (rq_key (requests ?s' ! ?n)) j" "writer ?s' ?n \<or> writer ?s' j"
    then have "pending s k j" "writer s j" using a(2-4) nw by auto
    with o(3) obtain w where "key_to_current_writer s k = Some w" "guarded s k w j" by blast
    with a(5) show "\<exists>m \<in> set (rq_waits (requests ?s' ! ?n)). guarded ?s' (rq_key (requests ?s' ! ?n)) m j" by (simp add: a(2))
  qed (simp add: a(2) nw)
  moreover have "key_ok ?s' k"
  proof (rule key_okI)
    fix m assume "m \<in> set (current_readers ?s' k)"
    then have "m < ?n \<and> rq_key (requests s ! m) = k \<or> m = ?n" using o(1) [of m] by (auto simp: view)
    with a(1,2) len show "m < length (requests ?s') \<and> rq_key (requests ?s' ! m) = k" by auto
  next
    fix w assume "key_to_current_writer ?s' k = Some w"
    with o(2) [of w] a(1,3) len show "w < length (requests ?s') \<and> rq_key (requests ?s' ! w) = k \<and> writer ?s' w" by (simp add: view)
  next
    fix j assume "pending ?s' k j"
    then consider "pending s k j" "j < ?n" | "j = ?n" using a(4) less by auto
    then show "\<not> writer ?s' j \<and> j \<in> set (current_readers ?s' k) \<or> (\<exists>w. key_to_current_writer ?s' k = Some w \<and> guarded ?s' k w j)"
    proof cases
      case 1
      from o(3) [OF 1(1)] a(3) [OF 1(2)] a(5) show ?thesis by (auto simp: view)
    next
      case 2
      with nw show ?thesis by (simp add: view)
    qed
  qed
  ultimately show ?thesis using rw_ok_append [OF ok q] by (simp add: view)
qed

lemma write_begin_ok:
  assumes ok: "rw_ok s"
  shows "rw_ok (write_begin k s)" (is "rw_ok ?s'")
proof -
  let ?n = "length (requests s)"
  let ?q = "\<lparr>rq_key = k, rq_write = True,
    rq_waits = current_readers s k @ (case key_to_current_writer s k of None \<Rightarrow> [] | Some w \<Rightarrow> [w]), rq_phase = Blocked\<rparr>"
  have q: "requests ?s' = requests s @ [?q]" "rq_phase ?q = Blocked" by (simp_all add: write_begin_def)
  note a = append_request [OF q]
  note o = key_okD [OF rw_okD(2) [OF ok, of k]]
  have len: "length (requests ?s') = Suc ?n" using q(1) by simp
  have nw: "writer ?s' ?n" using a(2) by (simp add: writer_def)
  have less: "pending s k j \<Longrightarrow> j < ?n" for j by (simp add: pending_def)
  have view: "current_readers ?s' k' = (if k' = k then [] else current_readers s k')"
    "key_to_current_writer ?s' = (key_to_current_writer s)(k \<mapsto> ?n)" for k'
    by (simp_all add: write_begin_def current_readers_def split: option.splits)
  have pn: "pending ?s' k ?n" using a(4) by simp
  have "request_ok ?s' ?n"
  proof (rule request_okI [OF refl])
    fix m assume "m \<in> set (rq_waits (requests ?s' ! ?n))"
    then have "m \<in> set (current_readers s k) \<or> key_to_current_writer s k = Some m" by (auto simp: a(2) split: option.splits)
    with o(1,2) have "m < ?n \<and> rq_key (requests s ! m) = k" by blast
    with a nw show "m < ?n \<and> rq_key (requests ?s' ! m) = rq_key (requests ?s' ! ?n) \<and> (writer ?s' ?n \<or> writer ?s' m)" by simp
  next
    fix j assume j: "j < ?n" "pending ?s' (rq_key (requests ?s' ! ?n)) j"
    then have p: "pending s k j" using a(2,4) by simp
    then have "guarded s k j j" by (simp add: guarded_def)
    with o(3) [OF p] have "\<exists>m. (m \<in> set (current_readers s k) \<or> key_to_current_writer s k = Some m) \<and> guarded s k m j" by blast
    with a(5) show "\<exists>m \<in> set (rq_waits (requests ?s' ! ?n)). guarded ?s' (rq_key (requests ?s' ! ?n)) m j" by (auto simp: a(2))
  qed (simp add: a(2))
  moreover have "key_ok ?s' k"
  proof (rule key_okI)
    fix j assume "pending ?s' k j"
    then have "j \<le> ?n" using a(4) less by fastforce
    with nw pn have "guarded ?s' k ?n j" by (auto simp: guarded_def)
    then show "\<not> writer ?s' j \<and> j \<in> set (current_readers ?s' k) \<or> (\<exists>w. key_to_current_writer ?s' k = Some w \<and> guarded ?s' k w j)"
      by (simp add: view)
  qed (use a(2) nw len in \<open>simp_all add: view\<close>)
  ultimately show ?thesis using rw_ok_append [OF ok q] by (simp add: view)
qed

subsection \<open>A request changes its phase\<close>

text \<open>
  What the phase changes have in common.  A request may go \<open>Inside\<close>, and a writer may go on at all, only
  when nothing it excludes is pending before it; the clean-up only forgets what has fired.
\<close>

definition clear_before :: "rw_lock \<Rightarrow> nat \<Rightarrow> bool" where
  "clear_before s i \<longleftrightarrow> (\<forall>j < i. pending s (rq_key (requests s ! i)) j \<longrightarrow> \<not> (writer s i \<or> writer s j))"

definition moves :: "nat \<Rightarrow> rw_phase \<Rightarrow> rw_lock \<Rightarrow> rw_lock \<Rightarrow> bool" where
  "moves i p s s' \<longleftrightarrow>
     i < length (requests s) \<and> requests s' = (requests s)[i := (requests s ! i)\<lparr>rq_phase := p\<rparr>] \<and>
     p \<noteq> Blocked \<and> (fired s i \<longrightarrow> p \<in> {Fired, Over}) \<and> (p = Inside \<or> writer s i \<longrightarrow> clear_before s i) \<and>
     (\<forall>k. set (current_readers s' k) \<subseteq> set (current_readers s k) \<and>
          set (current_readers s k) - set (current_readers s' k) \<subseteq> (if p \<in> {Fired, Over} then {i} else {}) \<and>
          (key_to_current_writer s' k = key_to_current_writer s k \<or>
           key_to_current_writer s' k = None \<and> key_to_current_writer s k = Some i \<and> p \<in> {Fired, Over}))"

lemma movesD:
  assumes "moves i p s s'"
  shows "rq_key (requests s' ! j) = rq_key (requests s ! j)" "rq_waits (requests s' ! j) = rq_waits (requests s ! j)"
    "writer s' j = writer s j" "length (requests s') = length (requests s)"
    "j \<noteq> i \<Longrightarrow> requests s' ! j = requests s ! j" "rq_phase (requests s' ! i) = p"
    "pending s' k j \<longleftrightarrow> pending s k j \<and> (j = i \<longrightarrow> p \<notin> {Fired, Over})"
  using assms by (auto simp: moves_def writer_def pending_def fired_def nth_list_update)

lemma moves_guarded:
  assumes "moves i p s s'" "guarded s k m j" "pending s' k j"
  shows "guarded s' k m j"
proof -
  note d = movesD [OF assms(1)]
  have pj: "pending s k j" using d(7) assms(3) by simp
  have "pending s' k m"
  proof (rule ccontr)
    assume "\<not> pending s' k m"
    with assms(2) d(7) have m: "m = i" "p \<in> {Fired, Over}" by (auto simp: guarded_def)
    with assms(2,3) d(7) have "j < i" "writer s i" "rq_key (requests s ! i) = k" by (auto simp: guarded_def pending_def)
    with assms(1) pj show False by (simp add: moves_def clear_before_def)
  qed
  with assms(2) d(3) show ?thesis by (simp add: guarded_def)
qed

lemma moves_request_ok:
  assumes ok: "rw_ok s" and m: "moves i p s s'" and x: "x < length (requests s')"
  shows "request_ok s' x"
proof -
  note d = movesD [OF m]
  have x': "x < length (requests s)" using x d(4) by simp
  note o = request_okD [OF rw_okD(1) [OF ok x'] refl]
  show ?thesis
  proof (rule request_okI [OF refl])
    fix y assume "y \<in> set (rq_waits (requests s' ! x))"
    with o(1) [of y] d(1-3) show "y < x \<and> rq_key (requests s' ! y) = rq_key (requests s' ! x) \<and> (writer s' x \<or> writer s' y)" by simp
  next
    fix j assume j: "j < x" "pending s' (rq_key (requests s' ! x)) j" "writer s' x \<or> writer s' j"
    with d(1,3,7) o(2) [of j] obtain y where "y \<in> set (rq_waits (requests s ! x))" "guarded s (rq_key (requests s ! x)) y j" by auto
    with moves_guarded [OF m] j(2) d(1,2)
    show "\<exists>y \<in> set (rq_waits (requests s' ! x)). guarded s' (rq_key (requests s' ! x)) y j" by auto
  next
    fix j assume j: "rq_phase (requests s' ! x) = Inside \<or> writer s' x \<and> rq_phase (requests s' ! x) \<noteq> Blocked"
      "j < x" "pending s' (rq_key (requests s' ! x)) j"
    then have p: "pending s (rq_key (requests s ! x)) j" using d(1,7) by simp
    show "\<not> (writer s' x \<or> writer s' j)"
    proof (cases "x = i")
      case True
      with j(1) d(3,6) m have "clear_before s x" by (auto simp: moves_def)
      with p j(2) d(3) show ?thesis by (simp add: clear_before_def)
    next
      case False
      with j(1) d(3) d(5) [of x] have "rq_phase (requests s ! x) = Inside \<or> writer s x \<and> rq_phase (requests s ! x) \<noteq> Blocked" by simp
      from o(3) [OF this j(2) p] d(3) show ?thesis by simp
    qed
  qed
qed

lemma moves_key_ok:
  assumes ok: "rw_ok s" and m: "moves i p s s'"
  shows "key_ok s' k"
proof -
  note d = movesD [OF m]
  note o = key_okD [OF rw_okD(2) [OF ok, of k]]
  have cr: "set (current_readers s' k) \<subseteq> set (current_readers s k)"
    "set (current_readers s k) - set (current_readers s' k) \<subseteq> (if p \<in> {Fired, Over} then {i} else {})"
    and cw: "key_to_current_writer s' k = key_to_current_writer s k \<or>
         key_to_current_writer s' k = None \<and> key_to_current_writer s k = Some i \<and> p \<in> {Fired, Over}"
    using m unfolding moves_def by blast+
  show ?thesis
  proof (rule key_okI)
    fix x assume "x \<in> set (current_readers s' k)"
    with cr(1) o(1) [of x] d(1,4) show "x < length (requests s') \<and> rq_key (requests s' ! x) = k" by auto
  next
    fix w assume "key_to_current_writer s' k = Some w"
    with cw o(2) [of w] d(1,3,4) show "w < length (requests s') \<and> rq_key (requests s' ! w) = k \<and> writer s' w" by auto
  next
    fix j assume j: "pending s' k j"
    then have p: "pending s k j" "j = i \<longrightarrow> p \<notin> {Fired, Over}" using d(7) by simp_all
    from o(3) [OF p(1)]
    show "\<not> writer s' j \<and> j \<in> set (current_readers s' k) \<or> (\<exists>w. key_to_current_writer s' k = Some w \<and> guarded s' k w j)"
    proof
      assume "\<not> writer s j \<and> j \<in> set (current_readers s k)"
      with cr(2) p(2) d(3) show ?thesis by (auto split: if_splits)
    next
      assume "\<exists>w. key_to_current_writer s k = Some w \<and> guarded s k w j"
      then obtain w where w: "key_to_current_writer s k = Some w" "guarded s k w j" by blast
      with moves_guarded [OF m _ j] have g: "guarded s' k w j" by blast
      then have "w = i \<longrightarrow> p \<notin> {Fired, Over}" using d(7) by (simp add: guarded_def)
      with cw w(1) g show ?thesis by auto
    qed
  qed
qed

lemma moves_ok: "rw_ok s \<Longrightarrow> moves i p s s' \<Longrightarrow> rw_ok s'"
  using moves_request_ok moves_key_ok unfolding rw_ok_def by blast

text \<open>What is may_enter to go has nothing before it that it excludes.\<close>

lemma enter_clear:
  assumes ok: "rw_ok s" and i: "i < length (requests s)" and r: "may_enter s i"
  shows "clear_before s i"
proof -
  note o = request_okD [OF rw_okD(1) [OF ok i] refl]
  have "\<not> guarded s k m j" if "m \<in> set (rq_waits (requests s ! i))" for k m j
    using r that by (auto simp: may_enter_def list_all_iff guarded_def pending_def)
  with o(2) show ?thesis unfolding clear_before_def by blast
qed

lemma inside_clear:
  assumes ok: "rw_ok s" and i: "i < length (requests s)"
    and p: "rq_phase (requests s ! i) = Inside \<or> writer s i \<and> rq_phase (requests s ! i) \<noteq> Blocked"
  shows "clear_before s i"
  using request_okD(3) [OF rw_okD(1) [OF ok i] refl p] by (simp add: clear_before_def)

lemma set_phase_moves:
  assumes "i < length (requests s)" "p \<noteq> Blocked" "p = Inside \<or> writer s i \<Longrightarrow> clear_before s i" "fired s i \<Longrightarrow> p \<in> {Fired, Over}"
  shows "moves i p s (set_phase i p s)"
  using assms by (auto simp: moves_def set_phase_def current_readers_def)

lemma cleanup_moves:
  assumes ok: "rw_ok s" and i: "i < length (requests s)" "rq_phase (requests s ! i) = Fired"
  shows "moves i Over s (cleanup i s)"
proof -
  have "writer s i \<Longrightarrow> clear_before s i" using inside_clear [OF ok i(1)] i(2) by simp
  with i show ?thesis
    by (auto simp: moves_def cleanup_def set_phase_def write_cleanup_def read_cleanup_def current_readers_def writer_def Let_def
        split: option.splits if_splits)
qed

interpretation rw: machine "\<lambda>s. s = new_rw_lock" rw_step rw_ok
proof unfold_locales
  fix s t
  show "s = new_rw_lock \<Longrightarrow> rw_ok s" using rw_ok_new by simp
  assume ok: "rw_ok s" and "rw_step s t"
  from this(2) show "rw_ok t"
  proof cases
    case (enter i)
    with enter_clear [OF ok] have "moves i Inside s t" by (auto intro!: set_phase_moves simp: fired_def)
    with moves_ok [OF ok] show ?thesis .
  next
    case (leave i)
    with inside_clear [OF ok] have "moves i Fired s t" by (auto intro!: set_phase_moves)
    with moves_ok [OF ok] show ?thesis .
  next
    case (cancel_read i)
    then have "moves i Fired s t" by (auto intro!: set_phase_moves simp: writer_def)
    with moves_ok [OF ok] show ?thesis .
  next
    case (cancel_write i)
    with enter_clear [OF ok] have "moves i Fired s t" by (auto intro!: set_phase_moves)
    with moves_ok [OF ok] show ?thesis .
  next
    case (clean i)
    with moves_ok [OF ok] cleanup_moves [OF ok] show ?thesis by blast
  qed (use ok read_begin_ok write_begin_ok in auto)
qed

section \<open>What the lock guarantees\<close>

definition is_inside :: "rw_lock \<Rightarrow> nat \<Rightarrow> string \<Rightarrow> bool" where
  "is_inside s i k \<longleftrightarrow> i < length (requests s) \<and> rq_key (requests s ! i) = k \<and> rq_phase (requests s ! i) = Inside"

text \<open>
  C36. Exclusion of \<open>ReadWriteLock\<close>: whatever the interleaving, and with waits cancelled at any
  moment, a writer inside the block of a key is alone there: no reader and no other writer of that
  key is inside.
\<close>

theorem write_lock_is_exclusive:
  assumes "rw_step\<^sup>*\<^sup>* new_rw_lock s" "is_inside s i k" "rq_write (requests s ! i)" "is_inside s j k"
  shows "j = i"
proof (rule ccontr)
  assume "j \<noteq> i"
  have ok: "rw_ok s" using rw.good_reachable [OF refl assms(1)] .
  have c: "clear_before s x" "pending s k x" if "is_inside s x k" for x
    using that inside_clear [OF ok, of x] by (auto simp: is_inside_def pending_def fired_def)
  have k: "rq_key (requests s ! i) = k" "rq_key (requests s ! j) = k" using assms(2,4) by (simp_all add: is_inside_def)
  show False
  proof (cases "j < i")
    case True
    with c(1) [OF assms(2)] c(2) [OF assms(4)] k assms(3) show False by (simp add: clear_before_def writer_def)
  next
    case False
    with \<open>j \<noteq> i\<close> have "i < j" by simp
    with c(1) [OF assms(4)] c(2) [OF assms(2)] k assms(3) show False by (simp add: clear_before_def writer_def)
  qed
qed

text \<open>
  C37. Nobody waits in \<open>ReadWriteLock\<close> without a reason: a blocked request that cannot enter waits
  for an earlier request of the same key that has not released the lock, and a blocked reader for
  an earlier writer; so the oldest unreleased request of a key is inside or can enter at once, and a
  reader with no unreleased writer before it too.
\<close>

theorem oldest_request_can_enter:
  assumes "rw_step\<^sup>*\<^sup>* new_rw_lock s" "pending s k i"
    and "\<forall>j < i. pending s k j \<longrightarrow> \<not> rq_write (requests s ! i) \<and> \<not> rq_write (requests s ! j)"
  shows "is_inside s i k \<or> rw_step s (set_phase i Inside s) \<and> is_inside (set_phase i Inside s) i k"
proof -
  have ok: "rw_ok s" using rw.good_reachable [OF refl assms(1)] .
  have i: "i < length (requests s)" "rq_key (requests s ! i) = k" "\<not> fired s i" using assms(2) by (simp_all add: pending_def)
  note o = request_okD [OF rw_okD(1) [OF ok i(1)] i(2)]
  have "fired s m" if "m \<in> set (rq_waits (requests s ! i))" for m
    using o(1) [OF that] assms(3) i(1) by (auto simp: writer_def pending_def)
  then have r: "may_enter s i" by (simp add: may_enter_def list_all_iff)
  show ?thesis
  proof (cases "rq_phase (requests s ! i) = Inside")
    case True
    with i show ?thesis by (simp add: is_inside_def)
  next
    case False
    with i(3) have "rq_phase (requests s ! i) = Blocked" by (cases "rq_phase (requests s ! i)") (auto simp: fired_def)
    with rw_step.enter [OF i(1) _ r] i show ?thesis by (simp add: is_inside_def set_phase_def)
  qed
qed

text \<open>A reader is inside while a writer and a second reader have queued up behind it.\<close>

definition rw_run :: rw_lock where
  "rw_run = read_begin ''k'' (write_begin ''k'' (set_phase 0 Inside (read_begin ''k'' new_rw_lock)))"

lemmas rw_defs = rw_run_def read_begin_def write_begin_def set_phase_def new_rw_lock_def current_readers_def

lemma rw_run_reachable: "rw_step\<^sup>*\<^sup>* new_rw_lock rw_run"
proof -
  let ?a = "read_begin ''k'' new_rw_lock"
  have "rw_step ?a (set_phase 0 Inside ?a)"
    by (rule rw_step.enter) (simp_all add: rw_defs may_enter_def)
  then have "rw_step\<^sup>*\<^sup>* new_rw_lock (set_phase 0 Inside ?a)"
    using rw_step.begin_read [of new_rw_lock "''k''"] by (auto intro: rtranclp.intros)
  then show ?thesis unfolding rw_run_def
    using rw_step.begin_write rw_step.begin_read by (meson rtranclp.rtrancl_into_rtrancl)
qed

text \<open>The first reader leaves, and the writer goes in.\<close>

definition rw_left :: rw_lock where
  "rw_left = set_phase 0 Fired rw_run"

definition rw_writing :: rw_lock where
  "rw_writing = set_phase 1 Inside rw_left"

lemma rw_left_reachable: "rw_step\<^sup>*\<^sup>* new_rw_lock rw_left"
proof -
  have "rw_step rw_run rw_left" unfolding rw_left_def by (rule rw_step.leave) (simp_all add: rw_defs)
  with rw_run_reachable show ?thesis by (rule rtranclp.rtrancl_into_rtrancl)
qed

lemma rw_writing_reachable: "rw_step\<^sup>*\<^sup>* new_rw_lock rw_writing"
proof -
  have "rw_step rw_left rw_writing" unfolding rw_writing_def
    by (rule rw_step.enter) (simp_all add: rw_left_def rw_defs may_enter_def fired_def)
  with rw_left_reachable show ?thesis by (rule rtranclp.rtrancl_into_rtrancl)
qed

theorem write_lock_is_exclusive_witness:
  "is_inside rw_writing 1 ''k'' \<and> rq_write (requests rw_writing ! 1) \<and> {j. is_inside rw_writing j ''k''} = {1}"
proof -
  have w: "is_inside rw_writing 1 ''k''" "rq_write (requests rw_writing ! 1)"
    by (simp_all add: is_inside_def rw_writing_def rw_left_def rw_defs)
  with write_lock_is_exclusive [OF rw_writing_reachable w] show ?thesis by blast
qed

theorem oldest_request_can_enter_witness:
  "pending rw_left ''k'' 1 \<and> \<not> is_inside rw_left 1 ''k'' \<and> rw_step rw_left rw_writing"
proof -
  have w: "pending rw_left ''k'' 1" "\<not> is_inside rw_left 1 ''k''" "\<not> pending rw_left ''k'' 0"
    by (simp_all add: pending_def is_inside_def fired_def rw_left_def rw_defs)
  with oldest_request_can_enter [OF rw_left_reachable w(1)] show ?thesis by (auto simp: rw_writing_def)
qed

end
