(* ===== verification/Ratelimiter.thy ===== *)
theory Ratelimiter
  imports Json_Values
begin

text \<open>
  The rate limiter of \<open>api/ratelimiting.py\<close>, a leaky bucket per key, and the limiter for requests
  built on it.  Times, rates and token counts, which are floats in the source, are exact rationals.
  The current time is an argument of each call; the data store is the argument
  \<open>get_ratelimit_for_user\<close> (and \<open>get_app_service_by_user_id\<close> for requests).
\<close>

record ratelimit_override =
  messages_per_second :: "int option"
  override_burst_count :: "int option"

record requester =
  rq_user :: string
  authenticated_entity :: string
  app_service :: "bool option"

text \<open>\<open>app_service\<close> is the \<open>is_rate_limited\<close> flag of the requester's application service, if any.\<close>

type_synonym bucket = "rat \<times> rat \<times> rat"

record ratelimiter =
  rate_hz :: rat
  burst_count :: int
  actions :: "(string \<times> bucket) list"

definition new_ratelimiter :: "rat \<Rightarrow> int \<Rightarrow> ratelimiter" where
  "new_ratelimiter rate burst = \<lparr>rate_hz = rate, burst_count = burst, actions = []\<rparr>"

definition get_key :: "requester option \<Rightarrow> string option \<Rightarrow> string result" where
  "get_key req key =
     (case key of
        Some k \<Rightarrow> Inr k
      | None \<Rightarrow> (case req of None \<Rightarrow> Inl ValueErr | Some r \<Rightarrow> Inr (rq_user r)))"

definition get_action_counts :: "ratelimiter \<Rightarrow> string \<Rightarrow> rat \<Rightarrow> bucket" where
  "get_action_counts rl key now = (case map_of (actions rl) key of None \<Rightarrow> (0, now, 0) | Some b \<Rightarrow> b)"

definition prune_message_counts :: "ratelimiter \<Rightarrow> rat \<Rightarrow> ratelimiter" where
  "prune_message_counts rl now =
     rl\<lparr>actions := filter (\<lambda>(_, cnt, start, rate). cnt - (now - start) * rate > 0) (actions rl)\<rparr>"

text \<open>A requester that is not limited at all.\<close>

definition exempt :: "(string \<Rightarrow> ratelimit_override option) \<Rightarrow> requester option \<Rightarrow> bool" where
  "exempt get_ratelimit_for_user req =
     (case req of
        None \<Rightarrow> False
      | Some r \<Rightarrow>
          app_service r = Some False \<or>
          (case get_ratelimit_for_user (authenticated_entity r) of
             None \<Rightarrow> False
           | Some ov \<Rightarrow> messages_per_second ov = None \<or> messages_per_second ov = Some 0))"

text \<open>The decision for a bucket: whether \<open>n\<close> actions are allowed, the new bucket, and when the next
  action is.\<close>

definition decide :: "rat \<Rightarrow> int \<Rightarrow> int \<Rightarrow> rat \<Rightarrow> bucket \<Rightarrow> bool \<times> bucket \<times> rat" where
  "decide rate burst n now b =
     (case b of (cnt0, start0, _) \<Rightarrow>
        let performed0 = cnt0 - (now - start0) * rate;
            (performed, cnt, start) = (if performed0 < 0 then (0, 0, now) else (performed0, cnt0, start0));
            allowed = (\<not> performed > of_int (burst - n));
            cnt' = (if allowed then cnt + of_int n else cnt);
            time_allowed = (if rate > 0 then max (start + (cnt' - of_int burst + 1) / rate) now else -1)
        in (allowed, (cnt', start, rate), time_allowed))"

definition can_do_action ::
  "(string \<Rightarrow> ratelimit_override option) \<Rightarrow> ratelimiter \<Rightarrow> requester option \<Rightarrow> string option \<Rightarrow> rat option
   \<Rightarrow> int option \<Rightarrow> bool \<Rightarrow> int \<Rightarrow> rat \<Rightarrow> ((bool \<times> rat) \<times> ratelimiter) result" where
  "can_do_action get_ratelimit_for_user rl req key_arg rate_arg burst_arg update n now =
     bindR (get_key req key_arg) (\<lambda>key.
       if exempt get_ratelimit_for_user req then Inr ((True, -1), rl)
       else
         (let rate = (case rate_arg of None \<Rightarrow> rate_hz rl | Some r \<Rightarrow> r);
              burst = (case burst_arg of None \<Rightarrow> burst_count rl | Some b \<Rightarrow> b);
              rl1 = prune_message_counts rl now;
              (allowed, bucket, time_allowed) = decide rate burst n now (get_action_counts rl1 key now)
          in Inr ((allowed, time_allowed),
                  if update then rl1\<lparr>actions := AList.update key bucket (actions rl1)\<rparr> else rl1)))"

definition record_action ::
  "ratelimiter \<Rightarrow> requester option \<Rightarrow> string option \<Rightarrow> int \<Rightarrow> rat \<Rightarrow> ratelimiter result" where
  "record_action rl req key_arg n now =
     bindR (get_key req key_arg) (\<lambda>key.
       case get_action_counts rl key now of (cnt, start, rate) \<Rightarrow>
         Inr (rl\<lparr>actions := AList.update key (cnt + of_int n, start, rate) (actions rl)\<rparr>))"

text \<open>\<open>ratelimit\<close> returns the new limiter with the exception it raises, if any: a refused request is
  still recorded.\<close>

definition ratelimit ::
  "(string \<Rightarrow> ratelimit_override option) \<Rightarrow> ratelimiter \<Rightarrow> requester option \<Rightarrow> string option \<Rightarrow> rat option
   \<Rightarrow> int option \<Rightarrow> bool \<Rightarrow> int \<Rightarrow> rat \<Rightarrow> py_error option \<times> ratelimiter" where
  "ratelimit get_ratelimit_for_user rl req key rate burst update n now =
     (case can_do_action get_ratelimit_for_user rl req key rate burst update n now of
        Inl e \<Rightarrow> (Some e, rl)
      | Inr ((allowed, time_allowed), rl') \<Rightarrow>
          (if allowed then None else Some (LimitExceededError (trunc_rat (1000 * (time_allowed - now)))), rl'))"

section \<open>The limiter for requests\<close>

record request_ratelimiter =
  request_limiter :: ratelimiter
  rc_message_rate :: rat
  rc_message_burst :: int
  admin_redaction_ratelimiter :: "ratelimiter option"

definition new_request_ratelimiter :: "rat \<Rightarrow> int \<Rightarrow> (rat \<times> int) option \<Rightarrow> request_ratelimiter" where
  "new_request_ratelimiter rate burst rc_admin_redaction =
     \<lparr>request_limiter = new_ratelimiter 0 0, rc_message_rate = rate, rc_message_burst = burst,
      admin_redaction_ratelimiter = map_option (\<lambda>(r, b). new_ratelimiter r b) rc_admin_redaction\<rparr>"

definition limit_request ::
  "(string \<Rightarrow> ratelimit_override option) \<Rightarrow> request_ratelimiter \<Rightarrow> requester \<Rightarrow> rat \<Rightarrow> int option \<Rightarrow> bool \<Rightarrow> bool
   \<Rightarrow> int \<Rightarrow> rat \<Rightarrow> py_error option \<times> request_ratelimiter" where
  "limit_request get_ratelimit_for_user rq req rate burst update is_admin_redaction n now =
     (case (is_admin_redaction, admin_redaction_ratelimiter rq) of
        (True, Some rl) \<Rightarrow>
          (case ratelimit get_ratelimit_for_user rl (Some req) None None None update n now of
             (err, rl') \<Rightarrow> (err, rq\<lparr>admin_redaction_ratelimiter := Some rl'\<rparr>))
      | _ \<Rightarrow>
          (case ratelimit get_ratelimit_for_user (request_limiter rq) (Some req) None (Some rate) burst update n now of
             (err, rl') \<Rightarrow> (err, rq\<lparr>request_limiter := rl'\<rparr>)))"

definition request_ratelimit ::
  "(string \<Rightarrow> ratelimit_override option) \<Rightarrow> (string \<Rightarrow> bool) \<Rightarrow> request_ratelimiter \<Rightarrow> requester \<Rightarrow> bool \<Rightarrow> bool
   \<Rightarrow> int \<Rightarrow> rat \<Rightarrow> py_error option \<times> request_ratelimiter" where
  "request_ratelimit get_ratelimit_for_user is_app_service_user rq req update is_admin_redaction n now =
     (if is_app_service_user (rq_user req) then (None, rq)
      else
        (case get_ratelimit_for_user (rq_user req) of
           Some ov \<Rightarrow>
             (case messages_per_second ov of
                None \<Rightarrow> (None, rq)
              | Some mps \<Rightarrow>
                  if mps = 0 then (None, rq)
                  else limit_request get_ratelimit_for_user rq req (of_int mps) (override_burst_count ov)
                         update is_admin_redaction n now)
         | None \<Rightarrow> limit_request get_ratelimit_for_user rq req (rc_message_rate rq) (Some (rc_message_burst rq))
                     update is_admin_redaction n now))"

section \<open>The level of a bucket\<close>

text \<open>The tokens in the bucket of a key at a time, for a leak rate.\<close>

definition level_of :: "rat \<Rightarrow> rat \<Rightarrow> bucket option \<Rightarrow> rat" where
  "level_of rate now b = (case b of None \<Rightarrow> 0 | Some (cnt, start, _) \<Rightarrow> max 0 (cnt - (now - start) * rate))"

abbreviation level :: "ratelimiter \<Rightarrow> string \<Rightarrow> rat \<Rightarrow> rat \<Rightarrow> rat" where
  "level rl key rate now \<equiv> level_of rate now (map_of (actions rl) key)"

lemma level_nonneg: "0 \<le> level_of rate now b"
  by (simp add: level_of_def split: option.splits prod.splits)

lemma level_decay:
  assumes "0 \<le> rate" "now \<le> later"
  shows "level_of rate now b - (later - now) * rate \<le> level_of rate later b"
proof -
  have "now * rate \<le> later * rate" using assms by (intro mult_right_mono)
  then show ?thesis by (cases b) (auto simp: level_of_def algebra_simps max_def)
qed

lemma decide_spec:
  assumes "decide rate burst n now b = (allowed, b', t)"
  shows "allowed \<longleftrightarrow> level_of rate now (Some b) + of_int n \<le> of_int burst"
    "level_of rate now (Some b') = max 0 (level_of rate now (Some b) + (if allowed then of_int n else 0))"
proof -
  obtain c s r where b: "b = (c, s, r)" by (cases b)
  show "allowed \<longleftrightarrow> level_of rate now (Some b) + of_int n \<le> of_int burst"
    using assms by (auto simp: decide_def b level_of_def Let_def max_def split: if_splits)
  show "level_of rate now (Some b') = max 0 (level_of rate now (Some b) + (if allowed then of_int n else 0))"
    using assms by (auto simp: decide_def b level_of_def Let_def max_def split: if_splits)
qed

section \<open>The buckets of a key\<close>

text \<open>The bucket of a key, if there is one, leaks at the rate or was only recorded into, and started
  no later than now.  Nothing is asked of the buckets of other keys.\<close>

definition key_ok :: "rat \<Rightarrow> string \<Rightarrow> ratelimiter \<Rightarrow> rat \<Rightarrow> bool" where
  "key_ok rate k rl now \<longleftrightarrow> distinct (map fst (actions rl)) \<and>
     (case map_of (actions rl) k of None \<Rightarrow> True | Some (c, s, r) \<Rightarrow> (r = rate \<or> r = 0) \<and> s \<le> now)"

lemma key_ok_mono: "key_ok rate k rl now \<Longrightarrow> now \<le> later \<Longrightarrow> key_ok rate k rl later"
  by (cases "map_of (actions rl) k") (auto simp: key_ok_def)

lemma key_ok_bucket:
  "key_ok rate k rl now \<Longrightarrow> map_of (actions rl) k = Some (c, s, r) \<Longrightarrow> (r = rate \<or> r = 0) \<and> s \<le> now"
  by (simp add: key_ok_def)

lemma counts_started: "key_ok rate k rl now \<Longrightarrow> get_action_counts rl k now = (c, s, r) \<Longrightarrow> s \<le> now \<and> (r = rate \<or> r = 0)"
  by (cases "map_of (actions rl) k") (auto simp: get_action_counts_def dest: key_ok_bucket)

lemma map_of_filter_distinct:
  assumes "distinct (map fst xs)"
  shows "map_of (filter P xs) k = (case map_of xs k of None \<Rightarrow> None | Some v \<Rightarrow> if P (k, v) then Some v else None)"
  using assms
proof (induction xs)
  case (Cons x xs)
  obtain a v where x: "x = (a, v)" by (cases x)
  have "a = k \<Longrightarrow> map_of xs k = None" using Cons.prems by (simp add: x map_of_eq_None_iff)
  then show ?case using Cons by (cases "a = k") (auto simp: x)
qed simp

lemma map_of_prune:
  assumes "distinct (map fst (actions rl))"
  shows "map_of (actions (prune_message_counts rl now)) k =
    (case map_of (actions rl) k of
       None \<Rightarrow> None | Some (c, s, r) \<Rightarrow> if c - (now - s) * r > 0 then Some (c, s, r) else None)"
  using assms by (auto simp: prune_message_counts_def map_of_filter_distinct split: option.splits)

lemma prune_spec:
  assumes ok: "key_ok rate k rl now" and rate: "0 \<le> rate"
  shows "key_ok rate k (prune_message_counts rl now) now"
    "level (prune_message_counts rl now) k rate now = level rl k rate now"
proof -
  have d: "distinct (map fst (actions rl))" using ok by (simp add: key_ok_def)
  have "distinct (map fst (actions (prune_message_counts rl now)))"
    using d by (simp add: prune_message_counts_def distinct_map_filter)
  then show "key_ok rate k (prune_message_counts rl now) now"
    using ok d by (cases "map_of (actions rl) k") (auto simp: key_ok_def map_of_prune)
  show "level (prune_message_counts rl now) k rate now = level rl k rate now"
  proof (cases "map_of (actions rl) k")
    case (Some b)
    obtain c s r where b: "b = (c, s, r)" by (cases b)
    have r: "r = rate \<or> r = 0" "s \<le> now" using ok Some b by (auto simp: key_ok_def)
    define x where "x = (now - s) * rate"
    have x: "0 \<le> x" using r rate by (simp add: x_def)
    have "c - (now - s) * r > 0 \<or> c \<le> x" using r(1) x by (auto simp: x_def)
    then show ?thesis using Some b by (auto simp: map_of_prune [OF d] level_of_def x_def [symmetric])
  qed (simp add: map_of_prune [OF d])
qed

lemma level_counts: "level_of rate now (Some (get_action_counts rl key now)) = level rl key rate now"
  by (simp add: get_action_counts_def level_of_def split: option.splits)

lemma prune_keeps [simp]:
  "rate_hz (prune_message_counts rl now) = rate_hz rl" "burst_count (prune_message_counts rl now) = burst_count rl"
  by (simp_all add: prune_message_counts_def)

lemma key_ok_update:
  assumes "key_ok rate k rl now" and "key = k \<Longrightarrow> (r = rate \<or> r = 0) \<and> s \<le> now"
  shows "key_ok rate k (rl\<lparr>actions := AList.update key (c, s, r) (actions rl)\<rparr>) now"
  using assms by (auto simp: key_ok_def distinct_update update_conv')

section \<open>Single calls\<close>

text \<open>The rate and the burst count a call uses: its own, or those of the limiter.\<close>

definition used_rate :: "ratelimiter \<Rightarrow> rat option \<Rightarrow> rat" where
  "used_rate rl rate_arg = (case rate_arg of None \<Rightarrow> rate_hz rl | Some r \<Rightarrow> r)"

definition used_burst :: "ratelimiter \<Rightarrow> int option \<Rightarrow> int" where
  "used_burst rl burst_arg = (case burst_arg of None \<Rightarrow> burst_count rl | Some b \<Rightarrow> b)"

lemma can_do_action_keeps:
  assumes "can_do_action db rl req key_arg rate_arg burst_arg update n now = Inr (res, rl')"
  shows "rate_hz rl' = rate_hz rl" "burst_count rl' = burst_count rl"
  using assms by (cases "get_key req key_arg"; auto simp: can_do_action_def Let_def split: prod.splits if_splits)+

lemma can_do_action_limited:
  assumes c: "can_do_action db rl req key_arg rate_arg burst_arg update n now = Inr ((allowed, ta), rl')"
    and "get_key req key_arg = Inr key" "\<not> exempt db req"
  obtains c s where
    "decide (used_rate rl rate_arg) (used_burst rl burst_arg) n now
       (get_action_counts (prune_message_counts rl now) key now) = (allowed, (c, s, used_rate rl rate_arg), ta)"
    "rl' = (if update then (prune_message_counts rl now)
       \<lparr>actions := AList.update key (c, s, used_rate rl rate_arg) (actions (prune_message_counts rl now))\<rparr>
       else prune_message_counts rl now)"
proof -
  obtain a b t where d: "decide (used_rate rl rate_arg) (used_burst rl burst_arg) n now
      (get_action_counts (prune_message_counts rl now) key now) = (a, b, t)" by (metis prod_cases3)
  moreover have "snd (snd b) = used_rate rl rate_arg"
    using d by (auto simp: decide_def Let_def split: prod.splits if_splits)
  moreover have "a = allowed \<and> t = ta \<and> rl' = (if update then (prune_message_counts rl now)
       \<lparr>actions := AList.update key b (actions (prune_message_counts rl now))\<rparr> else prune_message_counts rl now)"
    using c assms(2,3) d by (auto simp: can_do_action_def Let_def used_rate_def used_burst_def)
  ultimately show thesis using that by (cases b) auto
qed

text \<open>A call that is limited and updates the bucket of the key.\<close>

lemma can_do_action_same_key:
  assumes ok: "key_ok rate k rl now" and rate: "0 \<le> rate" "used_rate rl rate_arg = rate"
    and c: "can_do_action db rl req key_arg rate_arg burst_arg True n now = Inr ((allowed, ta), rl')"
    and k: "get_key req key_arg = Inr k" "\<not> exempt db req"
  shows "allowed \<longleftrightarrow> level rl k rate now + of_int n \<le> of_int (used_burst rl burst_arg)"
    "level rl' k rate now = max 0 (level rl k rate now + (if allowed then of_int n else 0))"
    "key_ok rate k rl' now"
proof -
  let ?p = "prune_message_counts rl now"
  note p = prune_spec [OF ok rate(1)]
  obtain c s where d: "decide rate (used_burst rl burst_arg) n now (get_action_counts ?p k now) = (allowed, (c, s, rate), ta)"
    and rl': "rl' = ?p\<lparr>actions := AList.update k (c, s, rate) (actions ?p)\<rparr>"
    using can_do_action_limited [OF c k] rate(2) by auto
  note ds = decide_spec [OF d, unfolded level_counts p(2)]
  show "allowed \<longleftrightarrow> level rl k rate now + of_int n \<le> of_int (used_burst rl burst_arg)" by (rule ds(1))
  show "level rl' k rate now = max 0 (level rl k rate now + (if allowed then of_int n else 0))"
    using ds(2) by (simp add: rl')
  obtain c0 s0 r0 where g: "get_action_counts ?p k now = (c0, s0, r0)" by (metis prod_cases3)
  have "s \<le> now" using d counts_started [OF p(1) g] by (auto simp: g decide_def Let_def split: if_splits)
  then show "key_ok rate k rl' now" unfolding rl' by (intro key_ok_update [OF p(1)]) simp
qed

text \<open>Any other call, with whatever rate and burst count, leaves the level of the key as it is.\<close>

lemma can_do_action_other:
  assumes ok: "key_ok rate k rl now" and rate: "0 \<le> rate"
    and c: "can_do_action db rl req key_arg rate_arg burst_arg update n now = Inr (res, rl')"
    and other: "get_key req key_arg \<noteq> Inr k \<or> exempt db req \<or> \<not> update"
  shows "level rl' k rate now = level rl k rate now" "key_ok rate k rl' now"
proof -
  note p = prune_spec [OF ok rate(1)]
  obtain key where key: "get_key req key_arg = Inr key"
    using c by (cases "get_key req key_arg") (auto simp: can_do_action_def)
  have "level rl' k rate now = level rl k rate now \<and> key_ok rate k rl' now"
  proof (cases "exempt db req")
    case True
    then show ?thesis using c ok key by (simp add: can_do_action_def)
  next
    case False
    obtain allowed ta where "res = (allowed, ta)" by (cases res)
    then show ?thesis
      using c p other False key by (auto intro: key_ok_update elim!: can_do_action_limited [OF _ key False])
  qed
  then show "level rl' k rate now = level rl k rate now" "key_ok rate k rl' now" by simp_all
qed

lemma record_action_spec:
  assumes ok: "key_ok rate k rl now" and r: "record_action rl req key_arg n now = Inr rl'"
    and n: "get_key req key_arg = Inr k \<Longrightarrow> 0 \<le> n"
  shows "level rl k rate now \<le> level rl' k rate now" "key_ok rate k rl' now"
proof -
  obtain key where key: "get_key req key_arg = Inr key"
    using r by (cases "get_key req key_arg") (auto simp: record_action_def)
  obtain c s q where g: "get_action_counts rl key now = (c, s, q)" by (metis prod_cases3)
  have rl': "rl' = rl\<lparr>actions := AList.update key (c + of_int n, s, q) (actions rl)\<rparr>"
    using r key g by (simp add: record_action_def)
  show "level rl k rate now \<le> level rl' k rate now"
  proof (cases "key = k")
    case True
    then have "(0 :: rat) \<le> of_int n" using n key by simp
    moreover have "level rl k rate now = level_of rate now (Some (c, s, q))"
      using level_counts [of rate now rl k] g True by simp
    ultimately show ?thesis using True by (simp add: rl' update_conv' level_of_def max_def del: of_int_0_le_iff)
  qed (simp add: rl')
  show "key_ok rate k rl' now"
    unfolding rl' using counts_started [OF ok] g by (intro key_ok_update [OF ok]) auto
qed

lemma record_action_keeps:
  assumes "record_action rl req key_arg n now = Inr rl'"
  shows "rate_hz rl' = rate_hz rl" "burst_count rl' = burst_count rl"
  using assms by (cases "get_key req key_arg"; auto simp: record_action_def split: prod.splits)+

section \<open>The properties\<close>

text \<open>The calls of a limiter: \<open>can_do_action\<close> (and so \<open>ratelimit\<close>), with the answers of the data store
  at that time, and \<open>record_action\<close>; the limiter after a call, which is unchanged if the call raises.\<close>

datatype limiter_call =
  Try "string \<Rightarrow> ratelimit_override option" "requester option" "string option" "rat option" "int option" bool int
| Record "requester option" "string option" int

fun after_call :: "ratelimiter \<Rightarrow> rat \<Rightarrow> limiter_call \<Rightarrow> ratelimiter" where
  "after_call rl now (Try db req key rate burst update n) =
     (case can_do_action db rl req key rate burst update n now of Inl _ \<Rightarrow> rl | Inr (_, rl') \<Rightarrow> rl')"
| "after_call rl now (Record req key n) =
     (case record_action rl req key n now of Inl _ \<Rightarrow> rl | Inr rl' \<Rightarrow> rl')"

text \<open>The calls that are limited by the bucket of a key and fill it: \<open>can_do_action\<close> for a requester
  that is not exempt, unless it only looks (\<open>update=False\<close>).\<close>

fun limited_by :: "string \<Rightarrow> limiter_call \<Rightarrow> bool" where
  "limited_by k (Try db req key rate burst update n) \<longleftrightarrow> get_key req key = Inr k \<and> \<not> exempt db req \<and> update"
| "limited_by k (Record req key n) \<longleftrightarrow> False"

text \<open>The actions such a call lets through, and those a run lets through.\<close>

fun let_through :: "ratelimiter \<Rightarrow> rat \<Rightarrow> limiter_call \<Rightarrow> rat" where
  "let_through rl now (Try db req key rate burst update n) =
     (case can_do_action db rl req key rate burst update n now of
        Inr ((True, _), _) \<Rightarrow> of_int n | _ \<Rightarrow> 0)"
| "let_through rl now (Record req key n) = 0"

fun actions_allowed :: "ratelimiter \<Rightarrow> string \<Rightarrow> (rat \<times> limiter_call) list \<Rightarrow> rat" where
  "actions_allowed rl k [] = 0"
| "actions_allowed rl k ((now, call) # calls) =
     (if limited_by k call then let_through rl now call else 0) + actions_allowed (after_call rl now call) k calls"

text \<open>The calls for a key have the rate, at most the burst count, and no negative number of actions;
  nothing is asked of other calls.\<close>

fun call_ok :: "ratelimiter \<Rightarrow> rat \<Rightarrow> int \<Rightarrow> string \<Rightarrow> limiter_call \<Rightarrow> bool" where
  "call_ok rl rate burst k (Try db req key rate_arg burst_arg update n) \<longleftrightarrow>
     (limited_by k (Try db req key rate_arg burst_arg update n) \<longrightarrow>
        used_rate rl rate_arg = rate \<and> used_burst rl burst_arg \<le> burst \<and> 0 \<le> n)"
| "call_ok rl rate burst k (Record req key n) \<longleftrightarrow> (get_key req key = Inr k \<longrightarrow> 0 \<le> n)"

lemma call_ok_cong:
  assumes "rate_hz rl' = rate_hz rl" "burst_count rl' = burst_count rl"
  shows "call_ok rl' rate burst k call = call_ok rl rate burst k call"
  using assms by (cases call) (simp_all add: used_rate_def used_burst_def cong: option.case_cong)

lemma after_call_keeps: "rate_hz (after_call rl now call) = rate_hz rl" "burst_count (after_call rl now call) = burst_count rl"
  by (cases call; auto split: sum.splits dest: can_do_action_keeps record_action_keeps)+

lemma call_step:
  assumes ok: "key_ok rate k rl now" and rate: "0 \<le> rate" and call: "call_ok rl rate burst k call"
  defines "a \<equiv> if limited_by k call then let_through rl now call else 0"
  shows "key_ok rate k (after_call rl now call) now"
    "level rl k rate now + a \<le> level (after_call rl now call) k rate now"
    "a = 0 \<or> level rl k rate now + a \<le> of_int burst"
proof -
  have "key_ok rate k (after_call rl now call) now \<and>
    level rl k rate now + a \<le> level (after_call rl now call) k rate now \<and>
    (a = 0 \<or> level rl k rate now + a \<le> of_int burst)"
  proof (cases call)
    case (Record req key n)
    then show ?thesis using record_action_spec [OF ok] ok call
      by (cases "record_action rl req key n now") (auto simp: a_def)
  next
    case (Try db req key rate_arg burst_arg update n)
    show ?thesis
    proof (cases "can_do_action db rl req key rate_arg burst_arg update n now")
      case (Inr x)
      obtain allowed ta rl' where x: "x = ((allowed, ta), rl')" by (cases x) auto
      note c = Inr [unfolded x]
      show ?thesis
      proof (cases "limited_by k call")
        case True
        then have h: "get_key req key = Inr k" "\<not> exempt db req" "update" "used_rate rl rate_arg = rate"
          "used_burst rl burst_arg \<le> burst" "0 \<le> n" using call Try by auto
        note s = can_do_action_same_key [OF ok rate h(4) c [unfolded h(3)[THEN eqTrueI]] h(1,2)]
        have "(of_int (used_burst rl burst_arg) :: rat) \<le> of_int burst" using h(5) by simp
        moreover have "a = (if allowed then of_int n else 0)" using True Try c by (auto simp: a_def)
        ultimately show ?thesis using s Try c level_nonneg [of rate now] by auto
      next
        case False
        then show ?thesis using can_do_action_other [OF ok rate c] Try c by (auto simp: a_def)
      qed
    qed (use Try ok in \<open>auto simp: a_def\<close>)
  qed
  then show "key_ok rate k (after_call rl now call) now"
    "level rl k rate now + a \<le> level (after_call rl now call) k rate now"
    "a = 0 \<or> level rl k rate now + a \<le> of_int burst" by simp_all
qed

lemma actions_allowed_bound:
  assumes "key_ok rate k rl t0" and rate: "0 \<le> rate"
    and "sorted (t0 # map fst calls)" "\<forall>(t, call)\<in>set calls. t \<le> t1 \<and> call_ok rl rate burst k call" "t0 \<le> t1"
  shows "actions_allowed rl k calls \<le> max 0 (of_int burst - level rl k rate t0) + (t1 - t0) * rate"
  using assms(1,3-)
proof (induction calls arbitrary: rl t0)
  case Nil
  then have "0 \<le> (t1 - t0) * rate" using rate by simp
  then show ?case by (simp add: max_def)
next
  case (Cons x calls)
  obtain t call where x: "x = (t, call)" by (cases x)
  have t: "t0 \<le> t" "t \<le> t1" and co: "call_ok rl rate burst k call" using Cons.prems(2,3) by (auto simp: x)
  define a where "a = (if limited_by k call then let_through rl t call else 0)"
  let ?rl = "after_call rl t call"
  note s = call_step [OF key_ok_mono [OF Cons.prems(1) t(1)] rate co, folded a_def]
  have "actions_allowed ?rl k calls \<le> max 0 (of_int burst - level ?rl k rate t) + (t1 - t) * rate"
    using Cons.IH [OF s(1)] Cons.prems(2,3) t(2) by (simp add: x call_ok_cong [OF after_call_keeps])
  then have "a + actions_allowed ?rl k calls \<le> max 0 (of_int burst - level rl k rate t) + (t1 - t) * rate"
    using s(2,3) level_nonneg [of rate t] by (auto simp: max_def split: if_splits)
  moreover have "level rl k rate t0 - (t - t0) * rate \<le> level rl k rate t" by (rule level_decay [OF rate t(1)])
  moreover have "0 \<le> (t - t0) * rate" using rate t(1) by simp
  ultimately show ?case by (auto simp: x a_def [symmetric] max_def algebra_simps split: if_splits)
qed

text \<open>
  C39. The long-term guarantee: in any run of a limiter's calls at increasing times, for any
  requesters and keys, where the calls limited by a key's bucket have one rate, at most the burst
  count and no negative number of actions, the actions they let through are at most the burst count
  plus the rate times the time that passed.  Other keys may be used with any rates, actions of the key
  may be recorded, and the rate and burst count may be the limiter's own or, as \<open>RequestRatelimiter\<close>
  does, come with the call.  The calls not counted, which pass without limit, are those of exempt
  requesters and those that only look (\<open>update=False\<close>).
\<close>

theorem ratelimit_bound:
  assumes "0 \<le> rate" and "sorted (t0 # map fst calls)" and "t0 \<le> t1"
    and "\<forall>(t, call)\<in>set calls. t \<le> t1 \<and> call_ok (new_ratelimiter rate0 burst0) rate burst k call"
  shows "actions_allowed (new_ratelimiter rate0 burst0) k calls \<le> of_int (max 0 burst) + (t1 - t0) * rate"
proof -
  have "key_ok rate k (new_ratelimiter rate0 burst0) t0" by (simp add: key_ok_def new_ratelimiter_def)
  from actions_allowed_bound [OF this assms(1,2,4,3)] show ?thesis
    by (simp add: new_ratelimiter_def level_of_def of_int_max)
qed

text \<open>A user limited to one message a second with a burst of two, as \<open>RequestRatelimiter\<close> calls a limiter
  made with rate and burst count zero, and another user who is exempt.\<close>

definition sample_calls :: "(rat \<times> limiter_call) list" where
  "sample_calls =
     (let db = (\<lambda>u. if u = ''@b:s'' then Some \<lparr>messages_per_second = Some 0, override_burst_count = None\<rparr> else None);
          req = (\<lambda>u. Some \<lparr>rq_user = u, authenticated_entity = u, app_service = None\<rparr>);
          try = (\<lambda>u update. Try db (req u) None (Some 1) (Some 2) update 1)
      in [(0, try ''@a:s'' True), (0, try ''@a:s'' False), (0, try ''@b:s'' True), (0, try ''@a:s'' True),
          (0, try ''@a:s'' True), (1, try ''@a:s'' True)])"

theorem ratelimit_bound_witness:
  "actions_allowed (new_ratelimiter 0 0) ''@a:s'' sample_calls = 3 \<and>
   actions_allowed (new_ratelimiter 0 0) ''@a:s'' sample_calls \<le> 2 + 1 * 1"
proof -
  have "actions_allowed (new_ratelimiter 0 0) ''@a:s'' sample_calls = 3" by code_simp
  moreover have "\<forall>(t, call)\<in>set sample_calls. t \<le> 1 \<and> call_ok (new_ratelimiter 0 0) 1 2 ''@a:s'' call"
    by (simp add: sample_calls_def Let_def used_rate_def used_burst_def)
  then have "actions_allowed (new_ratelimiter 0 0) ''@a:s'' sample_calls \<le> of_int (max 0 2) + (1 - 0) * 1"
    by (intro ratelimit_bound) (simp_all add: sample_calls_def Let_def)
  ultimately show ?thesis by simp
qed

text \<open>
  The retry hint: the time that a refused single action of a limited requester is told to wait for is
  one at which it is let through.
\<close>

theorem refused_action_retry_time:
  assumes ok: "key_ok rate k rl now" and rate: "0 < rate" "used_rate rl rate_arg = rate" "1 \<le> used_burst rl burst_arg"
    and c: "can_do_action db rl req key_arg rate_arg burst_arg True 1 now = Inr ((False, ta), rl')"
    and k: "get_key req key_arg = Inr k" "\<not> exempt db req"
  shows "now \<le> ta \<and> (\<exists>t2 rl2. can_do_action db rl' req key_arg rate_arg burst_arg True 1 ta = Inr ((True, t2), rl2))"
proof -
  let ?p = "prune_message_counts rl now"
  let ?burst = "used_burst rl burst_arg"
  obtain c s where d: "decide rate ?burst 1 now (get_action_counts ?p k now) = (False, (c, s, rate), ta)"
    and rl': "rl' = ?p\<lparr>actions := AList.update k (c, s, rate) (actions ?p)\<rparr>"
    using can_do_action_limited [OF c k] rate(2) by auto
  have ta: "ta = max (s + (c - of_int ?burst + 1) / rate) now"
    using d rate(1) by (auto simp: decide_def Let_def split: prod.splits if_splits)
  have "s + (c - of_int ?burst + 1) / rate \<le> ta" by (simp add: ta)
  then have "c - of_int ?burst + 1 \<le> (ta - s) * rate" using rate(1) by (simp add: field_simps)
  then have low: "level rl' k rate ta \<le> of_int ?burst - 1" using rate(3) by (simp add: rl' level_of_def)
  note rate' = less_imp_le [OF rate(1)]
  have ok': "key_ok rate k rl' ta"
    using key_ok_mono [OF can_do_action_same_key(3) [OF ok rate' rate(2) c k]] ta by simp
  have used: "used_rate rl' rate_arg = rate" "used_burst rl' burst_arg = ?burst"
    using can_do_action_keeps [OF c] rate(2) by (simp_all add: used_rate_def used_burst_def cong: option.case_cong)
  obtain al t2 rl2 where c2: "can_do_action db rl' req key_arg rate_arg burst_arg True 1 ta = Inr ((al, t2), rl2)"
    using k by (fastforce simp: can_do_action_def Let_def split: prod.split)
  have al using can_do_action_same_key(1) [OF ok' rate' used(1) c2 k] low used(2) by simp
  then show ?thesis using c2 ta by simp
qed

text \<open>
  Actions recorded for a key without a bucket are kept with the rate zero, so the pruning
  never removes them, however much time passes.
\<close>

theorem recorded_actions_are_not_pruned:
  assumes "record_action rl req (Some key) n now = Inr rl'" and "map_of (actions rl) key = None" and "0 < n"
    and "distinct (map fst (actions rl))"
  shows "map_of (actions (prune_message_counts rl' later)) key = Some (of_int n, now, 0)"
  using assms by (auto simp: record_action_def get_key_def get_action_counts_def prune_message_counts_def
      map_of_filter_distinct distinct_update)

theorem recorded_actions_are_not_pruned_witness:
  "\<exists>rl'. record_action (new_ratelimiter 1 2) None (Some ''k'') 1 0 = Inr rl' \<and>
     map_of (actions (prune_message_counts rl' 1000000)) ''k'' = Some (1, 0, 0)"
proof -
  obtain rl' where r: "record_action (new_ratelimiter 1 2) None (Some ''k'') 1 0 = Inr rl'"
    by (simp add: record_action_def get_key_def get_action_counts_def new_ratelimiter_def)
  show ?thesis
    using recorded_actions_are_not_pruned [OF r, of 1000000] r by (simp add: new_ratelimiter_def)
qed

end
