(* ===== verification/Host_Ratelimiter.thy ===== *)
theory Host_Ratelimiter
  imports Locks Json_Values
begin

text \<open>
  The limits on requests of other servers, \<open>util/ratelimitutils.py\<close>: too many requests within a window
  are delayed, too many waiting ones are rejected, and only some are processed at once.  Requests are
  numbered.  A step is a piece of code between two awaits; a \<open>Deferred\<close> that fires runs its callbacks.
  The callers use \<open>with rate_limiter.ratelimit(origin) as d: await d\<close>, so that an exception of the
  wait leaves the block and runs \<open>_on_exit\<close>.
\<close>

section \<open>\<open>_PerHostRatelimiter\<close>\<close>

record federation_ratelimit_settings =
  fr_window_size :: int
  fr_sleep_limit :: int
  fr_reject_limit :: int
  fr_concurrent :: int

text \<open>
  \<open>starting\<close> has the calls of \<open>start_next_request\<close> that the clock has still to make; \<open>given_up\<close> counts the
  requests that were rejected or cancelled.
\<close>

record per_host_ratelimiter =
  sleeping_requests :: "nat list"
  ready_request_queue :: "nat list"
  current_processing :: "nat list"
  request_times :: "int list"
  starting :: "nat list"
  given_up :: nat

definition new_limiter :: per_host_ratelimiter where
  "new_limiter = \<lparr>sleeping_requests = [], ready_request_queue = [], current_processing = [], request_times = [], starting = [], given_up = 0\<rparr>"

definition should_reject :: "federation_ratelimit_settings \<Rightarrow> per_host_ratelimiter \<Rightarrow> bool" where
  "should_reject cfg s \<longleftrightarrow> int (length (ready_request_queue s)) + int (length (sleeping_requests s)) > fr_reject_limit cfg"

definition should_sleep :: "federation_ratelimit_settings \<Rightarrow> per_host_ratelimiter \<Rightarrow> bool" where
  "should_sleep cfg s \<longleftrightarrow> int (length (request_times s)) > fr_sleep_limit cfg"

text \<open>The callbacks \<open>on_start\<close>, \<open>on_err\<close> and \<open>on_both\<close>.\<close>

definition on_start :: "nat \<Rightarrow> per_host_ratelimiter \<Rightarrow> per_host_ratelimiter" where
  "on_start r s = s\<lparr>current_processing := List.insert r (current_processing s)\<rparr>"

definition on_err :: "nat \<Rightarrow> per_host_ratelimiter \<Rightarrow> per_host_ratelimiter" where
  "on_err r s = s\<lparr>current_processing := removeAll r (current_processing s)\<rparr>"

definition on_both :: "nat \<Rightarrow> per_host_ratelimiter \<Rightarrow> per_host_ratelimiter" where
  "on_both r s = s\<lparr>sleeping_requests := removeAll r (sleeping_requests s), ready_request_queue := removeAll r (ready_request_queue s)\<rparr>"

definition queue_request :: "federation_ratelimit_settings \<Rightarrow> nat \<Rightarrow> per_host_ratelimiter \<Rightarrow> per_host_ratelimiter" where
  "queue_request cfg r s =
     (if int (length (current_processing s)) \<ge> fr_concurrent cfg then s\<lparr>ready_request_queue := ready_request_queue s @ [r]\<rparr>
      else on_both r (on_start r s))"

definition on_enter :: "federation_ratelimit_settings \<Rightarrow> int \<Rightarrow> nat \<Rightarrow> per_host_ratelimiter \<Rightarrow> unit result \<times> per_host_ratelimiter" where
  "on_enter cfg now r s =
     (let s1 = s\<lparr>request_times := filter (\<lambda>t. now - t < fr_window_size cfg) (request_times s)\<rparr>
      in if should_reject cfg s1
         then (Inl (if fr_sleep_limit cfg = 0 then ZeroDivisionErr
                    else LimitExceededError (trunc_rat (of_int (fr_window_size cfg) / of_int (fr_sleep_limit cfg)))), s1)
         else
           (let s2 = s1\<lparr>request_times := request_times s1 @ [now]\<rparr>
            in if should_sleep cfg s2 then (Inr (), s2\<lparr>sleeping_requests := List.insert r (sleeping_requests s2)\<rparr>)
               else (Inr (), queue_request cfg r s2)))"

text \<open>The delay is over, or was cancelled: \<open>addBoth\<close> drops the error.\<close>

definition on_wait_finished :: "federation_ratelimit_settings \<Rightarrow> nat \<Rightarrow> per_host_ratelimiter \<Rightarrow> per_host_ratelimiter" where
  "on_wait_finished cfg r s = queue_request cfg r (s\<lparr>sleeping_requests := removeAll r (sleeping_requests s)\<rparr>)"

definition on_exit :: "nat \<Rightarrow> per_host_ratelimiter \<Rightarrow> per_host_ratelimiter" where
  "on_exit r s = s\<lparr>starting := starting s @ [r]\<rparr>"

definition start_next_request :: "nat \<Rightarrow> per_host_ratelimiter \<Rightarrow> per_host_ratelimiter" where
  "start_next_request r s =
     (let s1 = s\<lparr>current_processing := removeAll r (current_processing s)\<rparr>
      in case ready_request_queue s1 of
           [] \<Rightarrow> s1
         | q # qs \<Rightarrow> on_both q (on_start q (s1\<lparr>ready_request_queue := qs\<rparr>)))"

text \<open>\<open>FederationRateLimiter\<close>: a limiter for each host, made when it is first asked for.\<close>

definition ratelimiter_of :: "string \<Rightarrow> (string \<times> per_host_ratelimiter) list \<Rightarrow> per_host_ratelimiter" where
  "ratelimiter_of host limiters = (case map_of limiters host of None \<Rightarrow> new_limiter | Some s \<Rightarrow> s)"

section \<open>Requests of one server\<close>

definition known :: "per_host_ratelimiter \<Rightarrow> nat set" where
  "known s = set (sleeping_requests s) \<union> set (ready_request_queue s) \<union> set (current_processing s) \<union> set (starting s)"

inductive host_step :: "federation_ratelimit_settings \<Rightarrow> per_host_ratelimiter \<Rightarrow> per_host_ratelimiter \<Rightarrow> bool" for cfg where
  entered: "r \<notin> known s \<Longrightarrow> on_enter cfg now r s = (Inr (), s') \<Longrightarrow> host_step cfg s s'"
| rejected: "r \<notin> known s \<Longrightarrow> on_enter cfg now r s = (Inl e, s') \<Longrightarrow> host_step cfg s (on_exit r (s'\<lparr>given_up := Suc (given_up s')\<rparr>))"
| woken: "r \<in> set (sleeping_requests s) \<Longrightarrow> host_step cfg s (on_wait_finished cfg r s)"
| cancelled: "r \<in> set (ready_request_queue s) \<Longrightarrow> host_step cfg s (on_exit r ((on_both r (on_err r s))\<lparr>given_up := Suc (given_up s)\<rparr>))"
| finished: "r \<in> set (current_processing s) \<Longrightarrow> r \<notin> set (starting s) \<Longrightarrow> host_step cfg s (on_exit r s)"
| ticked: "r \<in> set (starting s) \<Longrightarrow> host_step cfg s (start_next_request r (s\<lparr>starting := remove1 r (starting s)\<rparr>))"

section \<open>The invariant\<close>

definition gone :: "per_host_ratelimiter \<Rightarrow> nat set" where
  "gone s = set (starting s) - set (current_processing s)"

definition host_ok :: "federation_ratelimit_settings \<Rightarrow> per_host_ratelimiter \<Rightarrow> bool" where
  "host_ok cfg s \<longleftrightarrow>
     distinct (sleeping_requests s @ ready_request_queue s @ current_processing s) \<and> distinct (starting s) \<and>
     set (starting s) \<inter> (set (sleeping_requests s) \<union> set (ready_request_queue s)) = {} \<and>
     int (length (ready_request_queue s)) + int (length (sleeping_requests s)) \<le> max 0 (fr_reject_limit cfg + 1) \<and>
     card (gone s) \<le> given_up s \<and>
     int (length (current_processing s)) + int (card (gone s)) \<le> max 0 (fr_concurrent cfg) + int (given_up s) \<and>
     (0 < fr_concurrent cfg \<longrightarrow> ready_request_queue s \<noteq> [] \<longrightarrow> current_processing s \<noteq> [])"

lemma gone_cong: "starting s' = starting s \<Longrightarrow> current_processing s' = current_processing s \<Longrightarrow> gone s' = gone s"
  by (simp add: gone_def)

lemma finite_gone [simp]: "finite (gone s)"
  by (simp add: gone_def)

text \<open>A request that is in none of the lists joins the queue or is processed.\<close>

lemma queue_request_ok:
  assumes "host_ok cfg s" "r \<notin> known s"
    and "int (length (ready_request_queue s)) + int (length (sleeping_requests s)) < max 0 (fr_reject_limit cfg + 1)"
  shows "host_ok cfg (queue_request cfg r s)"
proof (cases "int (length (current_processing s)) \<ge> fr_concurrent cfg")
  case True
  let ?s = "s\<lparr>ready_request_queue := ready_request_queue s @ [r]\<rparr>"
  have "gone ?s = gone s" by (simp add: gone_def)
  then have "host_ok cfg ?s" using assms True by (auto simp: host_ok_def known_def)
  with True show ?thesis by (simp add: queue_request_def)
next
  case False
  let ?s = "s\<lparr>current_processing := r # current_processing s\<rparr>"
  have "gone ?s = gone s" using assms(2) by (auto simp: gone_def known_def)
  then have "host_ok cfg ?s" using assms False by (auto simp: host_ok_def known_def)
  moreover have "queue_request cfg r s = ?s" using assms(2) False by (simp add: queue_request_def on_both_def on_start_def known_def)
  ultimately show ?thesis by simp
qed

lemma on_enter_ok:
  assumes "host_ok cfg s" "r \<notin> known s" "on_enter cfg now r s = (res, s')"
  shows "case res of Inl _ \<Rightarrow> host_ok cfg s' \<and> r \<notin> known s' | Inr _ \<Rightarrow> host_ok cfg s'"
proof -
  let ?s = "\<lambda>ts. s\<lparr>request_times := ts\<rparr>"
  have ok: "host_ok cfg (?s ts)" "r \<notin> known (?s ts)" for ts using assms(1,2) by (simp_all add: host_ok_def gone_def known_def)
  have q: "int (length (ready_request_queue (?s ts))) + int (length (sleeping_requests (?s ts))) < max 0 (fr_reject_limit cfg + 1)"
    if "\<not> should_reject cfg (?s ts')" for ts ts' using that by (simp add: should_reject_def)
  have sleep: "host_ok cfg ((?s ts)\<lparr>sleeping_requests := List.insert r (sleeping_requests s)\<rparr>)" if "\<not> should_reject cfg (?s ts')" for ts ts'
    using ok(1) [of ts] assms(2) q [OF that, of ts] by (auto simp: host_ok_def gone_def known_def)
  show ?thesis using assms(3) ok sleep queue_request_ok [OF ok q] by (auto simp: on_enter_def Let_def split: if_splits)
qed

lemma exit_given_up:
  assumes "host_ok cfg s" "r \<notin> known s"
  shows "host_ok cfg (on_exit r (s\<lparr>given_up := Suc (given_up s)\<rparr>))"
proof -
  let ?s = "on_exit r (s\<lparr>given_up := Suc (given_up s)\<rparr>)"
  have "gone ?s = insert r (gone s)" using assms(2) by (auto simp: gone_def known_def on_exit_def)
  moreover have "r \<notin> gone s" using assms(2) by (auto simp: gone_def known_def)
  ultimately show ?thesis using assms by (auto simp: host_ok_def on_exit_def known_def)
qed

lemma start_next_ok:
  assumes "host_ok cfg s" "r \<in> set (starting s)"
  shows "host_ok cfg (start_next_request r (s\<lparr>starting := remove1 r (starting s)\<rparr>))"
proof -
  let ?s = "s\<lparr>starting := remove1 r (starting s), current_processing := removeAll r (current_processing s)\<rparr>"
  have d: "distinct (starting s)" "distinct (current_processing s)" using assms(1) by (simp_all add: host_ok_def)
  have g: "gone ?s = gone s - {r}" using d(1) by (auto simp: gone_def)
  have less: "int (length (current_processing ?s)) + int (card (gone ?s)) < int (length (current_processing s)) + int (card (gone s))"
  proof (cases "r \<in> set (current_processing s)")
    case True
    then have "gone ?s = gone s" "length (removeAll r (current_processing s)) < length (current_processing s)"
      using g length_removeAll_less [OF True] by (auto simp: gone_def)
    then show ?thesis by simp
  next
    case False
    then have "r \<in> gone s" using assms(2) by (simp add: gone_def)
    then have "card (gone ?s) < card (gone s)" unfolding g by (intro card_Diff1_less) simp_all
    then show ?thesis using False by simp
  qed
  have c: "card (gone ?s) \<le> given_up s" using assms(1) g card_Diff1_le [of "gone s" r] by (simp add: host_ok_def)
  have disjoint: "set (remove1 r (starting s)) \<inter> (set (sleeping_requests s) \<union> set (ready_request_queue s)) = {}"
    using assms(1) set_remove1_subset [of r "starting s"] by (auto simp: host_ok_def)
  show ?thesis
  proof (cases "ready_request_queue s")
    case Nil
    then have "host_ok cfg ?s" using assms(1) less c disjoint d by (auto simp: host_ok_def distinct_removeAll)
    then show ?thesis using Nil by (simp add: start_next_request_def Let_def)
  next
    case (Cons q qs)
    let ?t = "?s\<lparr>ready_request_queue := qs, current_processing := q # current_processing ?s\<rparr>"
    have q: "q \<notin> set qs" "q \<notin> set (sleeping_requests s)" "q \<notin> set (current_processing s)" "q \<notin> set (remove1 r (starting s))"
      using assms(1) Cons disjoint by (auto simp: host_ok_def)
    then have "gone ?t = gone ?s" by (auto simp: gone_def)
    then have "host_ok cfg ?t" using assms(1) less c disjoint d q Cons by (auto simp: host_ok_def distinct_removeAll)
    moreover have "start_next_request r (s\<lparr>starting := remove1 r (starting s)\<rparr>) = ?t"
      using q Cons by (simp add: start_next_request_def Let_def on_both_def on_start_def)
    ultimately show ?thesis by simp
  qed
qed

lemma host_step_ok: "host_step cfg s s' \<Longrightarrow> host_ok cfg s \<Longrightarrow> host_ok cfg s'"
proof (induction rule: host_step.induct)
  case (entered r s now s')
  with on_enter_ok [of cfg s r now "Inr ()" s'] show ?case by simp
next
  case (rejected r s now e s')
  with on_enter_ok [of cfg s r now "Inl e" s'] show ?case by (simp add: exit_given_up)
next
  case (woken r s)
  let ?s = "s\<lparr>sleeping_requests := removeAll r (sleeping_requests s)\<rparr>"
  have d: "distinct (sleeping_requests s)" using woken(2) by (simp add: host_ok_def)
  then have l: "length (removeAll r (sleeping_requests s)) < length (sleeping_requests s)"
    using woken(1) by (metis length_removeAll_less)
  have "host_ok cfg ?s" using woken(2) l by (auto simp: host_ok_def gone_def distinct_removeAll)
  moreover have "r \<notin> known ?s" using woken by (auto simp: host_ok_def known_def)
  ultimately show ?case unfolding on_wait_finished_def using l woken(2) by (intro queue_request_ok) (auto simp: host_ok_def)
next
  case (cancelled r s)
  let ?s = "s\<lparr>ready_request_queue := removeAll r (ready_request_queue s)\<rparr>"
  have r: "r \<notin> set (sleeping_requests s)" "r \<notin> set (current_processing s)" using cancelled by (auto simp: host_ok_def)
  then have e: "on_both r (on_err r s) = ?s" by (simp add: on_both_def on_err_def)
  have "length (removeAll r (ready_request_queue s)) < length (ready_request_queue s)" using cancelled(1) by (metis length_removeAll_less)
  then have "host_ok cfg ?s" using cancelled by (auto simp: host_ok_def gone_def distinct_removeAll)
  moreover have "r \<notin> known ?s" using cancelled r by (auto simp: host_ok_def known_def)
  ultimately show ?case using exit_given_up [of cfg ?s r] by (simp add: e)
next
  case (finished r s)
  have "gone (on_exit r s) = gone s" using finished(1) by (auto simp: gone_def on_exit_def)
  then show ?case using finished by (auto simp: host_ok_def on_exit_def)
next
  case (ticked r s)
  then show ?case by (intro start_next_ok)
qed

interpretation host_limits: machine "\<lambda>s. s = new_limiter" "host_step cfg" "host_ok cfg" for cfg
proof unfold_locales
  show "s = new_limiter \<Longrightarrow> host_ok cfg s" for s by (simp add: new_limiter_def host_ok_def gone_def)
qed (rule host_step_ok)

section \<open>What the limiter guarantees\<close>

text \<open>
  C40.  After any requests of a server: those that wait are at most one more than the limit for
  rejection; those processed at once are at most the configured number and one more for each request
  that was rejected or cancelled; and when requests are queued and the configured number is positive,
  some request is processed, which on leaving starts the next.
\<close>

theorem host_limits_hold:
  assumes "(host_step cfg)\<^sup>*\<^sup>* new_limiter s"
  shows "int (length (ready_request_queue s)) + int (length (sleeping_requests s)) \<le> max 0 (fr_reject_limit cfg + 1) \<and>
    int (length (current_processing s)) \<le> max 0 (fr_concurrent cfg) + int (given_up s) \<and>
    (0 < fr_concurrent cfg \<and> ready_request_queue s \<noteq> [] \<longrightarrow> current_processing s \<noteq> [])"
  using host_limits.good_reachable [OF refl assms] by (simp add: host_ok_def)

text \<open>
  The configured number alone is not a bound: a request that was rejected starts the next one of the
  queue on leaving, although it was never processed.
\<close>

definition strict_settings :: federation_ratelimit_settings where
  "strict_settings = \<lparr>fr_window_size = 1000, fr_sleep_limit = 10, fr_reject_limit = 0, fr_concurrent = 1\<rparr>"

definition overfull :: per_host_ratelimiter where
  "overfull = \<lparr>sleeping_requests = [], ready_request_queue = [], current_processing = [1, 0], request_times = [1, 2], starting = [], given_up = 1\<rparr>"

lemma overfull_reachable: "(host_step strict_settings)\<^sup>*\<^sup>* new_limiter overfull"
proof -
  let ?s = "\<lambda>queue procs times st n. \<lparr>sleeping_requests = [], ready_request_queue = queue, current_processing = procs, request_times = times, starting = st, given_up = n\<rparr>"
  have "host_step strict_settings new_limiter (?s [] [0] [1] [] 0)" by (rule host_step.entered [where r = 0 and now = 1]) code_simp+
  moreover have "host_step strict_settings (?s [] [0] [1] [] 0) (?s [1] [0] [1, 2] [] 0)" by (rule host_step.entered [where r = 1 and now = 2]) code_simp+
  moreover have "host_step strict_settings (?s [1] [0] [1, 2] [] 0) (on_exit 2 ((?s [1] [0] [1, 2] [] 0)\<lparr>given_up := Suc (given_up (?s [1] [0] [1, 2] [] 0))\<rparr>))"
    by (rule host_step.rejected [where now = 3 and e = "LimitExceededError 100"]) code_simp+
  moreover have "host_step strict_settings (?s [1] [0] [1, 2] [2] 1) (start_next_request 2 ((?s [1] [0] [1, 2] [2] 1)\<lparr>starting := remove1 2 [2]\<rparr>))"
    using host_step.ticked [of 2 "?s [1] [0] [1, 2] [2] 1" strict_settings] by simp
  moreover have "start_next_request 2 ((?s [1] [0] [1, 2] [2] 1)\<lparr>starting := remove1 2 [2]\<rparr>) = overfull"
    "on_exit 2 ((?s [1] [0] [1, 2] [] 0)\<lparr>given_up := Suc (given_up (?s [1] [0] [1, 2] [] 0))\<rparr>) = ?s [1] [0] [1, 2] [2] 1" by code_simp+
  ultimately show ?thesis by simp
qed

theorem host_limits_hold_witness:
  "(host_step strict_settings)\<^sup>*\<^sup>* new_limiter overfull \<and> int (length (current_processing overfull)) \<le> 1 + 1 \<and>
   fr_concurrent strict_settings < int (length (current_processing overfull))"
proof -
  have "given_up overfull = 1" "fr_concurrent strict_settings = 1" "int (length (current_processing overfull)) = 2"
    by (simp_all add: overfull_def strict_settings_def)
  with host_limits_hold [OF overfull_reachable] overfull_reachable show ?thesis by simp
qed

end
