(* ===== verification/Spec2Isabelle.thy ===== *)
theory Spec2Isabelle
  imports Event_Auth_Props State_Filter_Props State_Res_V2_Claims State_Res_V1_Props Event_Utils_Props
    Friends_Refinement Stream_Tokens Multi_Writer_Cluster Visibility_Props Presence_Idle Presence_Queue Dictionary_Props
    Typing_Replication Read_Write_Lock Ratelimiter Host_Ratelimiter
begin

text \<open>
  A verification library for the Matrix homeserver under \<open>src/\<close> (Synapse, with a friends
  extension).

  \<^bold>\<open>The program.\<close>  Clients and other servers send events to rooms.  An event is accepted if the
  authorisation rules allow it against the state of its room; where the history of a room forks,
  state resolution decides which state holds.  Accepted events get stream ids, from which the
  server tells clients and its own worker processes what is new, each event only to those who may
  see it.  Presence and typing notifications live in memory and in timers.  Caches remember what was
  read and what changed; rate limits bound what users may do, and backoff what the server asks of
  others; locks order the coroutines of a process.  The friends extension keeps friend requests,
  friendships and blocks.

  \<^bold>\<open>Conventions.\<close>  \<open>Prelude\<close> has Python exceptions as values (\<open>'a result\<close> is \<open>py_error + 'a\<close>), the
  combinators for code that may raise, strings as UTF-8 bytes, dictionaries as association lists
  in insertion order, and the locale \<open>stateful\<close> of components whose operations keep an invariant.
  \<open>Json_Values\<close> has JSON values with the built-in operations the code applies to them.  \<open>Outcomes\<close>
  has loops that may run forever (\<open>None\<close> is a loop that does not end), \<open>Actions\<close> code that changes a
  state and may raise, and \<open>Calls\<close> code that does both.  \<open>Locks\<close> has the locale \<open>machine\<close> of
  transition systems with an invariant.  Every locale is interpreted on the definitions below:
  \<open>stateful\<close> by the change cache, the wheel timer, the friend tables, the friends handler and the
  queue of presence updates, \<open>refined_store\<close>, a store with an abstract specification, by the friend tables, \<open>machine\<close> by both locks, the limiter of requests, the single-writer generator
  and the cluster of generators, \<open>backing_store\<close>, what \<open>LruCache\<close> asks of its dictionary, by \<open>dict\<close> and by \<open>TreeCache\<close>,
  \<open>keyed_stream\<close>, what replication asks of a stream of current values, by the typing stream,
  \<open>heap_queue\<close> by the heap of the topological sort, \<open>candidate_choice\<close> by the two choices of state
  resolution v1, and \<open>token_text\<close> by the two kinds of vector tokens.

  \<^bold>\<open>Event authorisation.\<close>  \<open>String_Utils\<close> (\<open>util/stringutils.py\<close>), \<open>Domain_Ids\<close>
  (\<open>types/__init__.py\<close>), \<open>Room_Versions\<close> (\<open>api/room_versions.py\<close>), \<open>Events\<close>
  (\<open>events/__init__.py\<close>), \<open>Event_Auth\<close> and \<open>Event_Checks\<close> (\<open>event_auth.py\<close>).  Every rule of
  \<open>check_state_dependent_auth_rules\<close> and \<open>check_state_independent_auth_rules\<close> is a definition with
  its exceptions.  \<open>Event_Auth_Props\<close> shows that the selection of auth events is enough for the
  verdict (but for power level events with a state key), that no accepted event changes any level above its
  sender's, that bans hold (but for the creator's first join), who may remove, join and speak, what the size limits are, and what an accepted event cites.
  \<open>Sample_Room\<close> is the room the witnesses use.  \<open>String_Utils\<close> also shows what validated server
  names look like and that base 62 can be read back.

  \<^bold>\<open>State resolution.\<close>  \<open>State_Res_V2\<close> (\<open>state/v2.py\<close>) with \<open>Topo_Sort\<close> for
  \<open>lexicographical_topological_sort\<close>, and \<open>State_Res_V1\<close> (\<open>state/v1.py\<close>).  \<open>State_Res_V2_Loops\<close>,
  \<open>_Orders\<close> and \<open>_Correct\<close> carry the lemmas; \<open>_Claims\<close> shows that v2 applies the conflicted events one after another, each judged
  by its own auth events overlaid with the state resolved so far, and \<open>State_Res_V1_Props\<close> that v1 chooses
  among the candidates; both that unconflicted state is kept, that the loops end when the events are consistent, and that the two sorts are the orders
  they are meant to be.  \<open>Event_Core\<close> has what both algorithms use of events.

  \<^bold>\<open>Redaction, hashes and formats.\<close>  \<open>Event_Utils\<close> (\<open>events/utils.py\<close>, \<open>crypto/event_signing.py\<close>);
  \<open>Event_Utils_Props\<close> shows that redaction is idempotent and keeps reference hashes and
  signatures, that members and join rules can be redacted without changing a verdict, that
  repaired power levels are the same levels, and that field paths can be split again.

  \<^bold>\<open>State filters.\<close>  \<open>State_Filter\<close> (\<open>types/state.py\<close>) and \<open>State_Filter_Props\<close>: the class
  invariant, the contract of \<open>approx_difference\<close>, decomposition and its inverse, what the other
  operations select.

  \<^bold>\<open>Streams.\<close>  \<open>Id_Generators\<close> (\<open>StreamIdGenerator\<close>) and \<open>Multi_Writer\<close>
  (\<open>MultiWriterIdGenerator\<close>), both of \<open>storage/util/id_generators.py\<close>.  The code under the lock of
  a generator is atomic, so each such block is a function on its state.  \<open>Multi_Writer_Cluster\<close> puts
  any number of processes on one sequence and lets drawing, completing, reporting and receiving
  interleave in any order; the invariant of one process relies on what the others report and
  guarantees what it reports itself, and gives that every id up to a token is complete.
  \<open>Stream_Tokens\<close> (tokens of \<open>types/__init__.py\<close>): printing and parsing, their order, and which
  events come after a token; the last section of this theory joins it with the cluster.
  \<open>Replication\<close> (\<open>replication/tcp/\<close>: \<open>streams/_base.py\<close>, \<open>resource.py\<close>, \<open>handler.py\<close>) has the updates
  of one stream, sent as \<open>RDATA\<close> and \<open>POSITION\<close> commands that may be lost, and the follower's
  catching up; \<open>Replication_Props\<close> shows in \<open>keyed_stream\<close> that the follower agrees with the writer up
  to its position.

  \<^bold>\<open>Visibility.\<close>  \<open>Visibility\<close> (\<open>visibility.py\<close>) with the storage controllers as an argument, whose
  laws are \<open>storage_ok\<close> and \<open>context_ok\<close>; \<open>Visibility_Props\<close> shows that the filters for clients and
  for servers let only events through that the history visibility and the memberships allow, that
  the two filters for clients agree, and where the code raises or judges by the wrong room.

  \<^bold>\<open>Presence and typing.\<close>  \<open>Presence\<close> (\<open>handlers/presence.py\<close>, \<open>api/presence.py\<close>).  \<open>Presence_Props\<close>,
  \<open>_Run\<close> and \<open>_Idle\<close> show that a user shown as online was active or synced recently, for runs of
  the handler whose timers are checked at least every 170 seconds, with stored states that are \<open>stored_ok\<close> and calls that are \<open>op_ok\<close>;
  \<open>Presence_Queue\<close> that followers of the federation queue miss no update.  \<open>Typing\<close>
  (\<open>handlers/typing.py\<close>): \<open>Typing_Props\<close> shows that typing notifications time out, \<open>Typing_Replication\<close>
  that the other processes have them as the writer does.  Both build on \<open>Wheel_Timer\<close>
  (\<open>util/wheel_timer.py\<close>) through \<open>Wheel_Keys\<close>, the timer as a set of keys and objects.

  \<^bold>\<open>Caches.\<close>  \<open>Stream_Change_Cache\<close> (\<open>util/caches/stream_change_cache.py\<close>): no change is missed and
  none is invented.  \<open>Linked_List\<close>, \<open>Lru_Cache\<close> (\<open>util/linked_list.py\<close>, \<open>util/caches/lrucache.py\<close>,
  \<open>treecache.py\<close>): nodes are addresses in a store.  \<open>Lru_Spec\<close> is the abstract cache, a list in the
  order of last use; \<open>Lru_Backing\<close> the interface of the dictionaries; \<open>Lru_Props\<close>, \<open>_Refine\<close>, \<open>_Calls\<close>
  and \<open>_Claims\<close> show that the cache is the abstract one and stays within its size.
  \<open>Dictionary_Cache\<close> (\<open>util/caches/dictionary_cache.py\<close>) sits on top; \<open>Dictionary_Props\<close> shows that it
  returns what the database has.

  \<^bold>\<open>Concurrency and limits.\<close>  \<open>Locks\<close> and \<open>Read_Write_Lock\<close> (\<open>util/async_helpers.py\<close>): the pieces of
  code between two awaits are steps, cancellation included; exclusion, and that nobody is
  forgotten.  \<open>Ratelimiter\<close> (\<open>api/ratelimiting.py\<close>): the long-term bound on what a limiter lets
  through for a key, for all calls but those of exempt requesters and those that only look.  \<open>Host_Ratelimiter\<close> (\<open>util/ratelimitutils.py\<close>): how many requests of another server wait
  and run at once, and that rejected ones let too many run.  \<open>Retry\<close> (\<open>util/retryutils.py\<close> and the table of \<open>storage/databases/main/transactions.py\<close>):
  the backoff from other servers stays within its limits, however requests overlap, and what a small multiplier does.

  \<^bold>\<open>Friends.\<close>  \<open>Friends_Store\<close> (\<open>storage/databases/main/friends.py\<close> on the tables of schema delta
  84) and \<open>Friends\<close> (\<open>handlers/friends.py\<close>); \<open>Friends_Props\<close> shows that the tables stay consistent,
  that friendships need consent, that blocks hold, and where the handler raises although it has
  done its work.  \<open>Friends_Refinement\<close> has the promise of the store on sets and maps, and that the queries
  keep it, errors included.

  \<^bold>\<open>Bounds and fuel.\<close>  The loop of the topological sort has the number of nodes as fuel, since
  every round emits a new node.  Other loops are structural, or return \<open>None\<close> when they do not end,
  and the theorems that they end say under which condition.  Floats are exact rationals.
  \<open>int\<close> of a string reads ASCII digits only.

  \<^bold>\<open>Code outside \<open>src/\<close>\<close> is an argument: signature verification and signing, canonical JSON,
  hashes, the IPv6 syntax of \<open>netaddr\<close>, the sorted dictionary (with the laws \<open>sorted_dict_ok\<close>), the
  clock and generated ids.  The event store of state resolution is an argument with the laws
  \<open>store_ok\<close>; the Postgres sequence draws ever larger numbers.

  \<^bold>\<open>Not modelled.\<close>  HTTP, federation transport, the wire protocol of replication, SQL generation and
  connection handling, media, push (its evaluator is a Rust extension), configuration, logging,
  metrics, start-up and scripts: they move data between the network, the database and the parts
  above.  Handlers such as sync, room membership, registration and encryption keys are sequences of
  database reads and writes whose correctness is that of the SQL they call, which has no model
  here.  The start-up of \<open>MultiWriterIdGenerator\<close> is defined, but the theorems on clusters start
  from an empty stream; the check of the sequence against the tables is left out.  The writer of the
  typing stream is not restarted in the theorem on its followers.  Of the caches, the expiry by time
  and the deferred caches around \<open>LruCache\<close> are left out, and of presence the per-process syncing of
  workers.
\<close>

section \<open>The token that means now\<close>

text \<open>
  \<open>get_room_max_token\<close> (\<open>storage/databases/main/stream.py\<close>) reads the generator of the event stream
  twice, the minimum position and then, if it is a \<open>MultiWriterIdGenerator\<close>, the positions.
\<close>

definition get_room_max_token :: "int \<Rightarrow> (string \<times> int) list option \<Rightarrow> room_stream_token" where
  "get_room_max_token min_pos positions =
     \<lparr>tk_stream = min_pos,
      tk_instance_map = (case positions of None \<Rightarrow> [] | Some ps \<Rightarrow> filter (\<lambda>ip. min_pos < snd ip) ps),
      tk_topological = None\<rparr>"

lemma writers_ahead_filter: "writers_ahead (get_room_max_token m ps) = tk_instance_map (get_room_max_token m ps)"
  by (auto simp: writers_ahead_def get_room_max_token_def split: option.splits intro: filter_True)

lemma max_token_good:
  assumes "\<And>ps'. ps = Some ps' \<Longrightarrow> distinct (map fst ps')"
  shows "good_room_token (get_room_max_token m ps)"
  using assms by (auto simp: good_room_token_def good_vector_def writers_ahead_filter)
    (auto simp: get_room_max_token_def distinct_map_filter split: option.splits)

lemma max_token_pos:
  assumes "distinct (map fst ps)"
  shows "instance_pos (get_room_max_token m (Some ps)) n = m \<or> map_of ps n = Some (instance_pos (get_room_max_token m (Some ps)) n)"
  using assms map_of_filter_snd [of ps m n]
  by (auto simp: instance_pos_def get_room_max_token_def split: option.splits if_splits)

text \<open>
  C27. The token that means now, taken by any process of a cluster at any moment, with any steps of
  the cluster between its two reads: every event that was not persisted after the token is
  complete, so a client that continues from the token misses none.  From any table of instance
  names whose ids are distinct and below the next one, the token is printed without an error, its
  text is parsed back with the table as the printing left it, or as it is after more names were added,
  and the token so read has the same positions and is complete in the same sense.
\<close>

theorem room_token_is_complete:
  assumes "ws \<noteq> []" "cstep\<^sup>*\<^sup>* (new_cluster ws True) c" "cstep\<^sup>*\<^sup>* c c'"
    and "t = get_room_max_token (get_current_token (gens c i)) (Some (get_positions (gens c' i)))"
  shows "(\<forall>x n. owner (world c') x = Some n \<longrightarrow>
       persisted_after room_stream_pos_for_instance \<lparr>pp_instance_name = n, pp_stream = x\<rparr> t = Inr False \<longrightarrow>
       x \<in> complete (world c')) \<and>
    (\<forall>s. Stream_Tokens.table_ok s \<longrightarrow>
       (\<exists>str s'. room_to_string t s = (Inr str, s') \<and>
          (\<forall>s''. keeps_names s' s'' \<longrightarrow>
             (\<exists>t'. room_parse s'' str = Inr t' \<and> same_room_token t t' \<and>
                (\<forall>x n. owner (world c') x = Some n \<longrightarrow>
                   persisted_after room_stream_pos_for_instance \<lparr>pp_instance_name = n, pp_stream = x\<rparr> t' = Inr False \<longrightarrow>
                   x \<in> complete (world c'))))))"
proof -
  have ok: "cluster_ok ws True c" "cluster_ok ws True c'"
    using mw.good_reachable [OF _ assms(2)] mw.good_reachable [OF _ rtranclp_trans [OF assms(2,3)]] assms(1) by blast+
  note g = cluster_okD(2) [OF ok(1), of i] and g' = cluster_okD(2) [OF ok(2), of i]
  have f: "return_factor (gens c i) = 1" "return_factor (gens c' i) = 1" using g g' by (simp_all add: gen_ok_def return_factor_def)
  then have ps: "get_positions (gens c' i) = current_positions (gens c' i)" by (simp add: get_positions_def)
  have d: "distinct (map fst (current_positions (gens c' i)))" using g' by (simp add: gen_ok_def positions_ok_def)
  have m: "all_complete (world c') (get_current_token (gens c i))"
    using g f grows_stable(2) [OF steps_grow [OF assms(3)]]
    by (simp add: gen_ok_def marks_ok_def get_current_token_def get_persisted_upto_position_def)
  have "truthful (world c') n (instance_pos t n)" for n
    using max_token_pos [OF d, of "get_current_token (gens c i)" n] all_complete_truthful [OF m, of n] g'
    by (auto simp: assms(4) ps gen_ok_def positions_ok_def)
  moreover have "truthful (world c') n (tk_stream t)" for n
    using all_complete_truthful [OF m] by (simp add: assms(4) get_room_max_token_def)
  ultimately have below: "owner (world c') x = Some n \<Longrightarrow> x \<le> max (tk_stream t) (instance_pos t n) \<Longrightarrow> x \<in> complete (world c')" for x n
    by (auto simp: truthful_def le_max_iff_disj)
  have topo: "tk_topological t = None" by (simp add: assms(4) get_room_max_token_def)
  define covered where "covered t' \<longleftrightarrow> (\<forall>x n. owner (world c') x = Some n \<longrightarrow>
      persisted_after room_stream_pos_for_instance \<lparr>pp_instance_name = n, pp_stream = x\<rparr> t' = Inr False \<longrightarrow>
      x \<in> complete (world c'))" for t'
  have "covered t'" if "\<And>n. instance_pos t' n \<le> max (tk_stream t) (instance_pos t n)" "tk_topological t' = None" for t'
    unfolding covered_def
    using that below by (auto simp: persisted_after_def room_stream_pos_for_instance_def not_less intro: order_trans)
  then have now: "covered t" and read: "same_room_token t t' \<Longrightarrow> covered t'" for t'
    using topo by (simp_all add: same_room_token_def same_positions_def)
  have good: "good_room_token t" unfolding assms(4) ps by (rule max_token_good) (use d in simp)
  have "\<exists>str s'. room_to_string t s = (Inr str, s') \<and>
      (\<forall>s''. keeps_names s' s'' \<longrightarrow> (\<exists>t'. room_parse s'' str = Inr t' \<and> same_room_token t t'))"
    if "Stream_Tokens.table_ok s" for s
    by (rule room_text.printedE [OF good that]) blast
  then show ?thesis unfolding covered_def [symmetric] using now read by meson
qed

theorem room_token_is_complete_witness:
  "(\<exists>t. t = get_room_max_token (get_current_token (gens two_writers_half ''a'')) (Some (get_positions (gens two_writers_half ''a''))) \<and>
     persisted_after room_stream_pos_for_instance \<lparr>pp_instance_name = ''b'', pp_stream = 3\<rparr> t = Inr False \<and>
     owner (world two_writers_half) 3 = Some ''b'' \<and> 3 \<in> complete (world two_writers_half) \<and>
     (\<exists>s' t'. room_to_string t sample_table = (Inr ''m1~3.3'', s') \<and> room_parse s' ''m1~3.3'' = Inr t' \<and> same_room_token t t'))"
proof -
  let ?t = "get_room_max_token (get_current_token (gens two_writers_half ''a'')) (Some (get_positions (gens two_writers_half ''a'')))"
  have e: "persisted_after room_stream_pos_for_instance \<lparr>pp_instance_name = ''b'', pp_stream = 3\<rparr> ?t = Inr False"
    "result_of (room_to_string ?t) sample_table = Inr ''m1~3.3''" by code_simp+
  have s: "Stream_Tokens.table_ok sample_table" by (simp add: Stream_Tokens.table_ok_def sample_table_def)
  have w: "[''a'', ''b''] \<noteq> []" by simp
  note r = room_token_is_complete [OF w two_writers_reachable(1) rtranclp.rtrancl_refl refl, of "''a''"]
  from r [THEN conjunct2, rule_format, OF s] obtain str s' where
    str: "room_to_string ?t sample_table = (Inr str, s')" "\<exists>t'. room_parse s' str = Inr t' \<and> same_room_token ?t t'"
    using keeps_names_refl by blast
  moreover have "str = ''m1~3.3''" using e(2) str(1) by (simp add: result_of_def)
  moreover have "3 \<in> complete (world two_writers_half)"
    using r [THEN conjunct1, rule_format, OF two_writers_tokens(5) e(1)] .
  ultimately show ?thesis using e(1) two_writers_tokens(5) by blast
qed

end
